(* ===== verification/Prelude.thy ===== *)
theory Prelude
  imports "HOL-Library.Word" "HOL-Library.Sublist"
begin

text \<open>
  Shared vocabulary of the development.

  \<^item> Machine types: \<open>UCHAR\<close> is \<open>byte = 8 word\<close>. \<open>SIZE_T\<close> and \<open>ULONGLONG\<close> values are
    naturals; every operation of the source that can wrap is written with \<open>w64\<close> (reduction
    modulo $2^{64}$), and an operation whose operands are guarded by the source is written
    without it, the invariants of the component showing that the guard keeps it in range.
  \<^item> A buffer argument (pointer and length) is the list of its bytes; the null pointer is the
    empty list. A writer's destination is its capacity, and what it has written so far is a list.
  \<^item> \<open>NTSTATUS\<close> is a datatype of the codes the modelled files return. A function that
    only produces a value returns \<open>ntstatus + 'a\<close>; one that also changes an object returns the
    status together with the object, since the source changes state on some error paths.
  \<^item> Out-parameters are results. The guards against null out-pointers have no counterpart.
\<close>

unbundle bit_operations_syntax

named_theorems codec_simps "evaluation of the byte-level encoders and decoders"
named_theorems status_simps "case splits and projections of status results"

section \<open>Types\<close>

type_synonym byte = "8 word"
type_synonym bytes = "byte list"
type_synonym u16 = "16 word"
type_synonym u32 = "32 word"

text \<open>
  The statuses the modelled code returns. Each but \<open>STATUS_SUCCESS\<close> has the top bit set in its 32-bit value, hence
  \<open>NT_SUCCESS\<close> of the code is equality with \<open>STATUS_SUCCESS\<close> here, also for the status of a callback.
\<close>

datatype ntstatus =
    STATUS_SUCCESS
  | STATUS_INVALID_PARAMETER
  | STATUS_BUFFER_TOO_SMALL
  | STATUS_INTEGER_OVERFLOW
  | STATUS_INVALID_NETWORK_RESPONSE
  | STATUS_NOT_SUPPORTED
  | STATUS_DEVICE_BUSY
  | STATUS_INVALID_DEVICE_STATE
  | STATUS_INSUFFICIENT_RESOURCES
  | STATUS_NOT_FOUND
  | STATUS_CONNECTION_RESET
  | STATUS_MORE_PROCESSING_REQUIRED
  | STATUS_INVALID_SIGNATURE
  | STATUS_BUFFER_OVERFLOW
  | STATUS_RETRY
  | STATUS_DEVICE_NOT_READY
  | STATUS_CONNECTION_DISCONNECTED
  | STATUS_CONNECTION_ABORTED
  | STATUS_CANCELLED

type_synonym 'a result = "ntstatus + 'a"

text \<open>Sequencing of fallible steps: the first failing status is the result.\<close>

definition rbind :: "'a result \<Rightarrow> ('a \<Rightarrow> 'b result) \<Rightarrow> 'b result" where
  "rbind r f = (case r of Inl e \<Rightarrow> Inl e | Inr x \<Rightarrow> f x)"

text \<open>Sequencing of operations on a state: the first failing status ends the sequence.\<close>

definition and_then :: "ntstatus \<times> 's \<Rightarrow> ('s \<Rightarrow> ntstatus \<times> 's) \<Rightarrow> ntstatus \<times> 's" where
  "and_then p f = (case p of (st, s) \<Rightarrow> if st = STATUS_SUCCESS then f s else (st, s))"

lemma rbind_Inl [simp]: "rbind (Inl e) f = Inl e"
  by (simp add: rbind_def)

lemma rbind_Inr [simp]: "rbind (Inr x) f = f x"
  by (simp add: rbind_def)

lemma rbind_cong [fundef_cong]:
  "r = r' \<Longrightarrow> (\<And>x. r' = Inr x \<Longrightarrow> f x = g x) \<Longrightarrow> rbind r f = rbind r' g"
  by (cases r') (auto simp: rbind_def)

lemma rbind_eq_Inr_iff [status_simps]: "rbind r f = Inr y \<longleftrightarrow> (\<exists>x. r = Inr x \<and> f x = Inr y)"
  by (cases r) auto

lemma rbind_eq_Inl_iff [status_simps]:
  "rbind r f = Inl e \<longleftrightarrow> r = Inl e \<or> (\<exists>x. r = Inr x \<and> f x = Inl e)"
  by (cases r) auto

lemma rbind_assoc: "rbind (rbind r f) g = rbind r (\<lambda>x. rbind (f x) g)"
  by (cases r) auto

section \<open>Integers\<close>

definition u64_max :: nat where
  "u64_max = 2 ^ 64 - 1"

definition w64 :: "nat \<Rightarrow> nat" where
  "w64 n = n mod 2 ^ 64"

definition u32_max :: nat where
  "u32_max = 2 ^ 32 - 1"

lemma w64_id: "n \<le> u64_max \<Longrightarrow> w64 n = n"
  by (simp add: w64_def u64_max_def)

lemma w64_le [simp]: "w64 n \<le> u64_max"
proof -
  have "n mod 2 ^ 64 < 2 ^ 64" by simp
  then show ?thesis unfolding w64_def u64_max_def by linarith
qed

text \<open>The saturating addition the source writes as \<open>a > ~0ULL - b ? ~0ULL : a + b\<close>.\<close>

definition sat_add64 :: "nat \<Rightarrow> nat \<Rightarrow> nat" where
  "sat_add64 a b = (if u64_max - b < a then u64_max else a + b)"

lemma sat_add64_eq_min: "b \<le> u64_max \<Longrightarrow> sat_add64 a b = min u64_max (a + b)"
  by (auto simp: sat_add64_def)

lemma sat_add64_le: "b \<le> u64_max \<Longrightarrow> sat_add64 a b \<le> u64_max"
  by (simp add: sat_add64_eq_min)

text \<open>An unsigned subtraction the source does not guard.\<close>

definition sub64 :: "nat \<Rightarrow> nat \<Rightarrow> nat" where
  "sub64 a b = w64 (a + 2 ^ 64 - b)"

lemma sub64_id:
  assumes "b \<le> a" "a \<le> u64_max"
  shows "sub64 a b = a - b"
proof -
  have "a + 2 ^ 64 - b = (a - b) + 2 ^ 64"
    by (rule add_diff_assoc2 [OF assms(1), symmetric])
  moreover have "a - b < 2 ^ 64"
    using assms(2) by (simp add: u64_max_def)
  ultimately show ?thesis
    unfolding sub64_def w64_def by (simp only: mod_add_self2 mod_less)
qed

lemma sub64_le [simp]: "sub64 a b \<le> u64_max"
  by (simp add: sub64_def)

text \<open>Bit operations of the source against arithmetic.\<close>

lemma and_mask_nat: "(n::nat) AND (2 ^ k - 1) = n mod 2 ^ k"
  using take_bit_eq_mask [of k n] by (simp add: mask_eq_exp_minus_1 take_bit_eq_mod)

lemma and_63_nat: "(n::nat) AND 63 = n mod 64"
  using and_mask_nat [of n 6] by simp

lemma and_127_nat: "(n::nat) AND 127 = n mod 128"
  using and_mask_nat [of n 7] by simp

lemma and_255_nat: "(n::nat) AND 255 = n mod 256"
  using and_mask_nat [of n 8] by simp

lemma and_128_nat: "(n::nat) AND 128 = 0 \<longleftrightarrow> even (n div 128)"
  using and_exp_eq_0_iff_not_bit [of n 7] by (simp add: bit_iff_odd)

lemma bit_nat_less: "(n::nat) < 2 ^ k \<Longrightarrow> bit n i \<Longrightarrow> i < k"
  by (metis bit_take_bit_iff take_bit_nat_eq_self)

lemma push_bit_or_nat:
  assumes "n < 2 ^ k"
  shows "push_bit k (m::nat) OR n = m * 2 ^ k + n"
proof -
  have "\<not> bit (push_bit k m) i \<or> \<not> bit n i" for i
    using bit_nat_less [OF assms, of i] by (auto simp: bit_push_bit_iff)
  then have "push_bit k m + n = push_bit k m OR n"
    by (rule disjunctive_add)
  then show ?thesis by (simp add: push_bit_eq_mult)
qed

lemma or_push_bit_nat: "n < 2 ^ k \<Longrightarrow> n OR push_bit k (m::nat) = n + m * 2 ^ k"
  using push_bit_or_nat [of n k m] by (simp add: or.commute)

lemma or_128_nat: "n < 128 \<Longrightarrow> (n::nat) OR 128 = n + 128"
  using or_push_bit_nat [of n 7 1] by simp

lemma push8_or_byte [simp]: "push_bit 8 (m::nat) OR unat (b::byte) = m * 256 + unat b"
proof -
  have "unat b < 2 ^ 8" using unsigned_less [of b] by simp
  from push_bit_or_nat [OF this, of m] show ?thesis by simp
qed

section \<open>Bytes\<close>

text \<open>\<open>static_cast<UCHAR>\<close> of an unsigned value.\<close>

definition uchar :: "nat \<Rightarrow> byte" where
  "uchar n = word_of_nat n"

lemma unat_uchar: "unat (uchar n) = n mod 256"
  by (simp add: uchar_def unat_of_nat)

lemma unat_uchar_small [simp]: "n < 256 \<Longrightarrow> unat (uchar n) = n"
  by (simp add: unat_uchar)

lemma uchar_unat [simp]: "uchar (unat b) = b"
  by (simp add: uchar_def)

lemma unat_byte_less [simp]: "unat (b::byte) < 256"
  using unsigned_less [of b] by simp

lemma unat_byte_le [simp]: "unat (b::byte) \<le> 255"
  using unat_byte_less [of b] by linarith

text \<open>
  The two byte loops the codecs share: most significant byte first, filled from the end with
  \<open>output[i] = v & 0xff; v >>= 8\<close>, and read with \<open>acc = (acc << 8) | data[i]\<close>.
\<close>

fun be_bytes :: "nat \<Rightarrow> nat \<Rightarrow> bytes" where
  "be_bytes 0 v = []"
| "be_bytes (Suc n) v = be_bytes n (drop_bit 8 v) @ [uchar (v AND 0xff)]"

definition be_value :: "nat \<Rightarrow> bytes \<Rightarrow> nat" where
  "be_value acc bs = foldl (\<lambda>d b. push_bit 8 d OR unat b) acc bs"

lemma be_bytes_numeral [codec_simps]:
  "be_bytes (numeral k) v = be_bytes (pred_numeral k) (drop_bit 8 v) @ [uchar (v AND 0xff)]"
  by (simp add: numeral_eq_Suc)

lemma uchar_numeral [codec_simps]: "uchar (numeral k) = numeral k"
  by (simp add: uchar_def)

lemma length_be_bytes [simp]: "length (be_bytes n v) = n"
  by (induction n arbitrary: v) auto

lemma be_value_Nil [simp]: "be_value acc [] = acc"
  by (simp add: be_value_def)

lemma be_value_Cons [simp]: "be_value acc (b # bs) = be_value (acc * 256 + unat b) bs"
  by (simp add: be_value_def)

lemma be_value_append: "be_value acc (xs @ ys) = be_value (be_value acc xs) ys"
  by (simp add: be_value_def)

lemma be_value_acc: "be_value acc bs = acc * 256 ^ length bs + be_value 0 bs"
proof (induction bs arbitrary: acc)
  case Nil
  then show ?case by simp
next
  case (Cons b bs)
  show ?case
    using Cons [of "acc * 256 + unat b"] Cons [of "unat b"]
    by (simp add: algebra_simps)
qed

lemma be_value_less: "be_value 0 bs < 256 ^ length bs"
proof (induction bs rule: rev_induct)
  case Nil
  then show ?case by simp
next
  case (snoc b bs)
  have "be_value 0 bs * 256 + unat b < (be_value 0 bs + 1) * 256"
    by simp
  also have "\<dots> \<le> 256 ^ length bs * 256"
    using snoc by (intro mult_right_mono) auto
  finally show ?case by (simp add: be_value_append)
qed

lemma be_bytes_value:
  assumes "v < 256 ^ n"
  shows "be_value 0 (be_bytes n v) = v"
  using assms
proof (induction n arbitrary: v)
  case 0
  then show ?case by simp
next
  case (Suc n)
  have "drop_bit 8 v < 256 ^ n"
    using Suc.prems by (simp add: drop_bit_eq_div less_mult_imp_div_less mult.commute)
  then have "be_value 0 (be_bytes n (drop_bit 8 v)) = v div 256"
    using Suc.IH by (simp add: drop_bit_eq_div)
  then show ?case
    by (simp add: be_value_append and_255_nat)
qed

lemma be_bytes_of_value: "be_bytes (length bs) (be_value 0 bs) = bs"
proof (induction bs rule: rev_induct)
  case Nil
  then show ?case by simp
next
  case (snoc b bs)
  have "(be_value 0 bs * 256 + unat b) div 256 = be_value 0 bs"
    by (simp add: div_plus_div_distrib_dvd_left)
  then show ?case
    using snoc by (simp add: be_value_append drop_bit_eq_div and_255_nat)
qed

lemma be_bytes_Suc_Cons:
  "be_bytes (Suc n) v = uchar (v div 256 ^ n) # be_bytes n v"
proof (induction n arbitrary: v)
  case 0
  have "uchar (v mod 256) = uchar v"
    by (rule word_unat_eq_iff [THEN iffD2]) (simp add: unat_uchar)
  then show ?case by (simp add: and_255_nat)
next
  case (Suc n)
  have "be_bytes (Suc (Suc n)) v = be_bytes (Suc n) (drop_bit 8 v) @ [uchar (v AND 255)]"
    by (simp only: be_bytes.simps)
  also have "\<dots> = uchar (v div 256 ^ Suc n) # be_bytes n (drop_bit 8 v) @ [uchar (v AND 255)]"
    by (simp only: Suc.IH) (simp add: drop_bit_eq_div div_mult2_eq [symmetric] mult.commute)
  finally show ?case by simp
qed

section \<open>Buffers\<close>

text \<open>A view of \<open>count\<close> bytes at \<open>offset\<close>.\<close>

definition view :: "bytes \<Rightarrow> nat \<Rightarrow> nat \<Rightarrow> bytes" where
  "view data offset count = take count (drop offset data)"

lemma view_append [codec_simps]:
  "length p \<le> offset \<Longrightarrow> view (p @ data) offset n = view data (offset - length p) n"
  by (simp add: view_def)

lemma view_first [codec_simps]: "view (bs @ rest) 0 (length bs) = bs"
  by (simp add: view_def)

lemma view_zero [simp]: "view data offset 0 = []"
  by (simp add: view_def)

lemma nth_view: "offset + n \<le> length data \<Longrightarrow> i < n \<Longrightarrow> view data offset n ! i = data ! (offset + i)"
  by (simp add: view_def)

text \<open>\<open>RtlCopyMemory(buf + pos, src, length)\<close>, also \<open>RtlMoveMemory\<close> and, of zeros, \<open>RtlZeroMemory\<close>.\<close>

definition copy_at :: "bytes \<Rightarrow> nat \<Rightarrow> bytes \<Rightarrow> bytes" where
  "copy_at buf pos src = take pos buf @ src @ drop (pos + length src) buf"

lemma length_copy_at [simp]: "pos + length src \<le> length buf \<Longrightarrow> length (copy_at buf pos src) = length buf"
  by (simp add: copy_at_def)

lemma nth_copy_at:
  assumes "pos + length src \<le> length buf" "i < length buf"
  shows "copy_at buf pos src ! i = (if pos \<le> i \<and> i < pos + length src then src ! (i - pos) else buf ! i)"
  using assms by (auto simp: copy_at_def nth_append)

lemma view_copy_at:
  assumes "pos + length src \<le> length buf"
  shows "view (copy_at buf pos src) pos (length src) = src"
  using assms by (simp add: view_def copy_at_def)

text \<open>A write leaves every view that it does not touch.\<close>

lemma view_copy_at_apart:
  assumes "pos + length src \<le> length buf" "offset + n \<le> length buf"
    and "offset + n \<le> pos \<or> pos + length src \<le> offset"
  shows "view (copy_at buf pos src) offset n = view buf offset n"
  using assms by (intro nth_equalityI) (auto simp: view_def nth_copy_at)

section \<open>Lists\<close>

lemma nth_append_first [simp]: "xs \<noteq> [] \<Longrightarrow> (xs @ ys) ! 0 = xs ! 0"
  by (simp add: nth_append)

lemma drop_length_append [simp]: "drop (length xs) (xs @ ys) = ys"
  by simp

lemma drop_Cons_diff: "m < n \<Longrightarrow> drop (n - m) (x # xs) = drop (n - (m + 1)) xs"
  by (simp flip: Suc_diff_Suc)

lemma find_SomeD: "find P xs = Some x \<Longrightarrow> x \<in> set xs \<and> P x"
  by (induction xs) (auto split: if_splits)

lemma sum_list_filter_split:
  "sum_list (map f (filter P xs)) + sum_list (map f (filter (\<lambda>x. \<not> P x) xs))
     = sum_list (map (f :: 'a \<Rightarrow> nat) xs)"
  by (induction xs) auto

lemma sum_list_mono_filter: "sum_list (map (f :: 'a \<Rightarrow> nat) (filter P xs)) \<le> sum_list (map f xs)"
  by (induction xs) auto

section \<open>The interface of a self-delimiting code\<close>

text \<open>
  The frame, packet and parameter readers rely on integer codes that find their own end: a
  decoder applied to an encoded value followed by anything returns the value and the number of
  bytes it used. What follows from the two laws alone is proved here, once.
\<close>

locale prefix_code =
  fixes enc :: "'a \<Rightarrow> bytes"
    and dec :: "bytes \<Rightarrow> ('a \<times> nat) result"
    and valid :: "'a \<Rightarrow> bool"
  assumes dec_enc: "valid x \<Longrightarrow> dec (enc x @ rest) = Inr (x, length (enc x))"
    and enc_nonempty: "valid x \<Longrightarrow> enc x \<noteq> []"
begin

lemma dec_at:
  "valid x \<Longrightarrow> length p = off \<Longrightarrow> dec (drop off (p @ enc x @ rest)) = Inr (x, length (enc x))"
  using dec_enc by simp

lemma enc_prefix_free:
  assumes "valid x" "valid y" "enc x @ xs = enc y @ ys"
  shows "x = y \<and> xs = ys"
proof -
  have "Inr (x, length (enc x)) = dec (enc y @ ys)"
    using dec_enc [OF assms(1), of xs] assms(3) by simp
  also have "\<dots> = Inr (y, length (enc y))"
    by (rule dec_enc [OF assms(2)])
  finally have "x = y" by simp
  with assms(3) show ?thesis by simp
qed

lemma enc_list_unique:
  assumes "list_all valid xs" "list_all valid ys" "concat (map enc xs) = concat (map enc ys)"
  shows "xs = ys"
  using assms
proof (induction xs arbitrary: ys)
  case Nil
  then show ?case using enc_nonempty by (cases ys) auto
next
  case (Cons x xs)
  show ?case
  proof (cases ys)
    case Nil
    with Cons.prems enc_nonempty show ?thesis by auto
  next
    case (Cons y ys')
    with Cons.prems have "x = y \<and> concat (map enc xs) = concat (map enc ys')"
      by (intro enc_prefix_free) auto
    with Cons.IH [of ys'] Cons.prems Cons show ?thesis by auto
  qed
qed

end

section \<open>The interface of a credit window\<close>

text \<open>
  The QUIC connection, each QUIC stream and each HTTP/2 stream spend a peer-granted credit: a
  reservation is either taken in full, when the credit covers it, or refused without being
  spent. The laws are those every client of such a window relies on; \<open>reserve_all\<close> is a sequence
  of reservations with the total of those that were accepted.
\<close>

primrec reserve_all :: "(nat \<Rightarrow> 's \<Rightarrow> ntstatus \<times> 's) \<Rightarrow> nat list \<Rightarrow> 's \<Rightarrow> nat \<times> 's" where
  "reserve_all reserve [] s = (0, s)"
| "reserve_all reserve (n # ns) s =
     (case reserve n s of (e, s') \<Rightarrow>
        (case reserve_all reserve ns s' of (t, s'') \<Rightarrow>
           ((if e = STATUS_SUCCESS then n + t else t), s'')))"

locale credit_window =
  fixes reserve :: "nat \<Rightarrow> 's \<Rightarrow> ntstatus \<times> 's"
    and credit :: "'s \<Rightarrow> nat"
    and ok :: "'s \<Rightarrow> bool"
  assumes reserve_ok:
      "ok s \<Longrightarrow> reserve n s = (STATUS_SUCCESS, s') \<Longrightarrow> ok s' \<and> n \<le> credit s \<and> credit s' = credit s - n"
    and reserve_refused:
      "ok s \<Longrightarrow> reserve n s = (e, s') \<Longrightarrow> e \<noteq> STATUS_SUCCESS \<Longrightarrow> ok s' \<and> credit s' = credit s"
begin

lemma accepted_within_credit:
  assumes "ok s" "reserve_all reserve ns s = (t, s')"
  shows "ok s' \<and> t + credit s' = credit s"
  using assms
proof (induction ns arbitrary: s t)
  case Nil
  then show ?case by simp
next
  case (Cons n ns)
  obtain e s1 where r: "reserve n s = (e, s1)" by fastforce
  obtain t1 s2 where ra: "reserve_all reserve ns s1 = (t1, s2)" by fastforce
  have s2: "s2 = s'" using Cons.prems(2) r ra by simp
  note IH = Cons.IH [OF _ ra [unfolded s2]]
  show ?case
  proof (cases "e = STATUS_SUCCESS")
    case True
    with r reserve_ok [OF Cons.prems(1)]
    have "ok s1" "n \<le> credit s" "credit s1 = credit s - n" by auto
    with IH Cons.prems r ra True show ?thesis by auto
  next
    case False
    with r reserve_refused [OF Cons.prems(1)] have "ok s1" "credit s1 = credit s" by auto
    with IH Cons.prems r ra False show ?thesis by auto
  qed
qed

end

section \<open>The interface of an incremental parser\<close>

text \<open>
  Several parsers are fed with whatever bytes have arrived and keep their state between calls. A call
  gives an outcome, the number of bytes it used and the new state; the caller feeds the next piece
  unless the outcome says to stop. The law says that one call on two pieces joined is a call on the
  first followed, unless that stopped, by a call on the second. From it: the pieces do not matter.
\<close>

primrec feed_pieces :: "('s \<Rightarrow> bytes \<Rightarrow> 'o \<times> nat \<times> 's) \<Rightarrow> ('o \<Rightarrow> bool) \<Rightarrow> 's \<Rightarrow> bytes list \<Rightarrow> 'o \<times> nat \<times> 's" where
  "feed_pieces feed stop s [] = feed s []"
| "feed_pieces feed stop s (d # ds) =
     (case feed s d of (r, n, s') \<Rightarrow>
        if stop r then (r, n, s')
        else (case feed_pieces feed stop s' ds of (r', n', s'') \<Rightarrow> (r', n + n', s'')))"

locale incremental =
  fixes feed :: "'s \<Rightarrow> bytes \<Rightarrow> 'o \<times> nat \<times> 's"
    and stop :: "'o \<Rightarrow> bool"
    and ready :: "'s \<Rightarrow> bool"
  assumes feed_append: "ready s \<Longrightarrow> feed s xs = (r, n, s') \<Longrightarrow>
      feed s (xs @ ys) = (if stop r then (r, n, s') else (case feed s' ys of (r', n', s'') \<Rightarrow> (r', n + n', s'')))"
    and feed_ready: "ready s \<Longrightarrow> feed s xs = (r, n, s') \<Longrightarrow> \<not> stop r \<Longrightarrow> ready s'"
begin

theorem pieces_irrelevant: "ready s \<Longrightarrow> feed_pieces feed stop s ds = feed s (concat ds)"
proof (induction ds arbitrary: s)
  case (Cons d ds)
  obtain r n s' where f: "feed s d = (r, n, s')" by (metis prod_cases3)
  show ?case
    using Cons.IH [of s'] feed_ready [OF Cons.prems f] feed_append [OF Cons.prems f] f by auto
qed simp

lemma feed_pieces_regroup:
  "ready s \<Longrightarrow> concat ds = concat ds' \<Longrightarrow> feed_pieces feed stop s ds = feed_pieces feed stop s ds'"
  by (simp add: pieces_irrelevant)

end

end
