(* ===== verification/QuicVarInt.thy ===== *)
theory QuicVarInt
  imports Prelude
begin

text \<open>
  The variable-length integers of QUIC, \<open>src/wknetlib/quic/QuicVarInt.cpp\<close>: the two high bits
  of the first byte give the length (1, 2, 4 or 8 bytes), the rest is the value, most
  significant byte first. The lemmas show that encoder and decoder are inverse to each other
  at every length, and that the shortest code is an instance of \<open>prefix_code\<close>.
\<close>

section \<open>Constants and data of QuicTypes.h\<close>

definition QuicVarIntMaximum :: nat where
  "QuicVarIntMaximum = 2 ^ 62 - 1"

definition QuicVersionNegotiation :: nat where
  "QuicVersionNegotiation = 0"

definition QuicVersion1 :: nat where
  "QuicVersion1 = 1"

definition QuicMaximumConnectionIdLength :: nat where
  "QuicMaximumConnectionIdLength = 20"

definition QuicRetryIntegrityTagLength :: nat where
  "QuicRetryIntegrityTagLength = 16"

record quic_ack_range =
  Smallest :: nat
  Largest :: nat

datatype quic_packet_type =
  PtInitial | PtZeroRtt | PtHandshake | PtRetry | PtVersionNegotiation | PtOneRtt

section \<open>The codec\<close>

definition quic_varint_encoded_length :: "nat \<Rightarrow> nat" where
  "quic_varint_encoded_length value =
     (if value \<le> 63 then 1
      else if value \<le> 16383 then 2
      else if value \<le> 1073741823 then 4
      else if value \<le> QuicVarIntMaximum then 8
      else 0)"

definition quic_decode_varint :: "bytes \<Rightarrow> (nat \<times> nat) result" where
  "quic_decode_varint data =
     (if data = [] then Inl STATUS_INVALID_PARAMETER
      else let encodedLength = push_bit (drop_bit 6 (unat (data ! 0))) 1
           in if length data < encodedLength then Inl STATUS_BUFFER_TOO_SMALL
              else Inr (be_value (unat (data ! 0) AND 0x3f) (take (encodedLength - 1) (drop 1 data)),
                        encodedLength))"

definition quic_encode_varint :: "nat \<Rightarrow> nat \<Rightarrow> nat \<Rightarrow> bytes result" where
  "quic_encode_varint value encodedLength0 capacity =
     (if value > QuicVarIntMaximum then Inl STATUS_INTEGER_OVERFLOW
      else let encodedLength =
                 (if encodedLength0 = 0 then quic_varint_encoded_length value else encodedLength0)
           in if encodedLength \<noteq> 1 \<and> encodedLength \<noteq> 2 \<and> encodedLength \<noteq> 4 \<and> encodedLength \<noteq> 8
              then Inl STATUS_INVALID_PARAMETER
              else let maximum = (if encodedLength = 8 then QuicVarIntMaximum
                                  else push_bit (encodedLength * 8 - 2) 1 - 1)
                   in if value > maximum then Inl STATUS_INTEGER_OVERFLOW
                      else if capacity < encodedLength then Inl STATUS_BUFFER_TOO_SMALL
                      else let output = be_bytes encodedLength value;
                               prefix = (if encodedLength = 1 then 0
                                         else if encodedLength = 2 then 0x40
                                         else if encodedLength = 4 then 0x80 else 0xc0)
                           in Inr (output[0 := (output ! 0) OR prefix]))"

section \<open>Round trips\<close>

lemma varint_length_cases:
  assumes "l \<in> {1, 2, 4, 8::nat}"
  obtains k where "k < (4::nat)" "l = 2 ^ k"
proof -
  from assms consider "l = 2 ^ 0" | "l = 2 ^ 1" | "l = 2 ^ 2" | "l = 2 ^ 3" by auto
  then show ?thesis by cases (use that [of 0] that [of 1] that [of 2] that [of 3] in simp_all)
qed

text \<open>The prefix byte of the length exponent \<open>k\<close>, and the limit of the value at that length.\<close>

definition varint_limit :: "nat \<Rightarrow> nat" where
  "varint_limit l = 2 ^ (8 * l - 2)"

lemma unat_byte_or_prefix:
  assumes "h < 64" "k < (4::nat)"
  shows "unat (uchar h OR uchar (64 * k)) = 64 * k + h"
proof -
  have "h OR push_bit 6 k = h + k * 2 ^ 6"
    by (rule or_push_bit_nat) (use assms in simp)
  then have "h OR 64 * k = h + 64 * k"
    by (simp add: push_bit_eq_mult mult.commute)
  with assms show ?thesis
    by (simp add: unsigned_or_eq)
qed

definition varint_bytes :: "nat \<Rightarrow> nat \<Rightarrow> bytes" where
  "varint_bytes k value = (let l = 2 ^ k in uchar (64 * k + value div 256 ^ (l - 1)) # be_bytes (l - 1) value)"

lemma length_varint_bytes [simp]: "length (varint_bytes k v) = 2 ^ k"
  by (simp add: varint_bytes_def Let_def)

lemma top_byte_less:
  assumes "v < varint_limit l" "l \<in> {1, 2, 4, 8}"
  shows "v div 256 ^ (l - 1) < 64"
proof (rule less_mult_imp_div_less)
  have "varint_limit l = 64 * 256 ^ (l - 1)"
    using assms(2) by (auto simp: varint_limit_def)
  with assms(1) show "v < 64 * 256 ^ (l - 1)" by simp
qed

lemma quic_encode_varint_eq:
  assumes "k < 4" "v < varint_limit (2 ^ k)" "2 ^ k \<le> capacity"
  shows "quic_encode_varint v (2 ^ k) capacity = Inr (varint_bytes k v)"
proof -
  have k: "k = 0 \<or> k = 1 \<or> k = 2 \<or> k = 3" using assms(1) by arith
  have l: "(2::nat) ^ k \<in> {1, 2, 4, 8}" using k by auto
  define h where "h = v div 256 ^ (2 ^ k - 1)"
  have h: "h < 64" using top_byte_less [OF assms(2) l] by (simp add: h_def)
  have be: "be_bytes (2 ^ k) v = uchar h # be_bytes (2 ^ k - 1) v"
    using be_bytes_Suc_Cons [of "2 ^ k - 1" v] by (simp add: h_def)
  have "uchar (64 * k) = (if (2::nat) ^ k = 1 then 0 else if (2::nat) ^ k = 2 then 0x40
          else if (2::nat) ^ k = 4 then 0x80 else 0xc0)"
    using k by (auto simp: uchar_def)
  moreover have "uchar h OR uchar (64 * k) = uchar (64 * k + h)"
    by (rule word_unat_eq_iff [THEN iffD2])
       (use unat_byte_or_prefix [OF h assms(1)] h assms(1) in simp)
  moreover have "v \<le> QuicVarIntMaximum" "v \<le> (if (2::nat) ^ k = 8 then QuicVarIntMaximum
      else push_bit (2 ^ k * 8 - 2) 1 - 1)"
    using assms(2) k by (auto simp: varint_limit_def QuicVarIntMaximum_def)
  ultimately show ?thesis
    using l assms(3) be
    by (auto simp: quic_encode_varint_def varint_bytes_def Let_def h_def)
qed

lemma quic_decode_varint_bytes:
  assumes "k < 4" "v < varint_limit (2 ^ k)"
  shows "quic_decode_varint (varint_bytes k v @ rest) = Inr (v, 2 ^ k)"
proof -
  have l: "(2::nat) ^ k \<in> {1, 2, 4, 8}"
    using assms(1) less_Suc_eq by (auto simp: numeral_eq_Suc)
  define m where "m = (2::nat) ^ k - 1"
  define h where "h = v div 256 ^ m"
  have h: "h < 64" using top_byte_less [OF assms(2) l] by (simp add: h_def m_def)
  have first: "unat (varint_bytes k v ! 0) = 64 * k + h"
    using h assms(1) by (simp add: varint_bytes_def Let_def h_def m_def)
  have drop6: "drop_bit 6 (64 * k + h) = k"
    using h by (simp add: drop_bit_eq_div)
  have and6: "(64 * k + h) AND 63 = h"
    using h by (simp add: and_63_nat)
  have "be_value h (be_bytes m v) = v"
  proof -
    have vl: "v < 256 ^ Suc m"
      using top_byte_less [OF assms(2) l] h
      by (simp add: h_def less_mult_imp_div_less div_less_iff_less_mult)
    have "be_value 0 (be_bytes (Suc m) v) = v"
      by (rule be_bytes_value [OF vl])
    moreover have "be_bytes (Suc m) v = uchar h # be_bytes m v"
      by (simp only: be_bytes_Suc_Cons h_def)
    ultimately show ?thesis using h by simp
  qed
  moreover have "take m (drop 1 (varint_bytes k v @ rest)) = be_bytes m v"
    by (simp add: varint_bytes_def Let_def m_def)
  moreover have "varint_bytes k v \<noteq> []"
    by (simp add: varint_bytes_def Let_def)
  ultimately show ?thesis
    using first drop6 and6
    by (simp add: quic_decode_varint_def Let_def m_def push_bit_eq_mult)
qed

lemma quic_decode_varint_inv:
  assumes "quic_decode_varint data = Inr (v, n)"
  obtains k where "k < 4" "n = 2 ^ k" "n \<le> length data" "v < varint_limit (2 ^ k)"
    "take n data = varint_bytes k v"
proof -
  from assms obtain b t where data: "data = b # t"
    by (cases data) (auto simp: quic_decode_varint_def)
  define k where "k = unat b div 64"
  define h where "h = unat b mod 64"
  define m where "m = (2::nat) ^ k - 1"
  define u where "u = take m t"
  have k: "k < 4" by (simp add: k_def less_mult_imp_div_less)
  have h: "h < 64" by (simp add: h_def)
  have b: "unat b = 64 * k + h" by (simp add: k_def h_def)
  have n: "n = 2 ^ k" and len: "2 ^ k \<le> length data" and v: "v = be_value h u"
    using assms data
    by (auto simp: quic_decode_varint_def Let_def k_def h_def m_def u_def drop_bit_eq_div
        push_bit_eq_mult and_63_nat split: if_splits)
  have u: "length u = m" using len data by (simp add: u_def m_def)
  have "be_bytes (Suc m) (be_value 0 (uchar h # u)) = uchar h # u"
    using be_bytes_of_value [of "uchar h # u"] u by simp
  then have eq: "uchar (v div 256 ^ m) # be_bytes m v = uchar h # u"
    using h v by (simp add: be_bytes_Suc_Cons del: be_bytes.simps)
  have v_split: "v = h * 256 ^ m + be_value 0 u"
    using be_value_acc [of h u] v u by simp
  have r: "be_value 0 u < 256 ^ m" using be_value_less [of u] u by simp
  have vd: "v div 256 ^ m = h"
    using r by (simp add: v_split)
  have "k = 0 \<or> k = 1 \<or> k = 2 \<or> k = 3" using k by arith
  then have lim: "varint_limit (2 ^ k) = 64 * 256 ^ m"
    by (auto simp: varint_limit_def m_def)
  have "v < (h + 1) * 256 ^ m" using r by (simp add: v_split)
  also have "\<dots> \<le> 64 * 256 ^ m" using h by (intro mult_right_mono) auto
  finally have "v < varint_limit (2 ^ k)" by (simp add: lim)
  moreover have "take n data = varint_bytes k v"
  proof -
    have "take n data = b # u"
      using n data by (simp add: u_def m_def take_Cons')
    moreover have "b = uchar (64 * k + h)" using b by (metis uchar_unat)
    ultimately show ?thesis
      using eq vd by (simp add: varint_bytes_def Let_def m_def)
  qed
  ultimately show ?thesis using that k n len by blast
qed

lemma varint_limit_le: "k < 4 \<Longrightarrow> v < varint_limit (2 ^ k) \<Longrightarrow> v \<le> QuicVarIntMaximum"
proof -
  assume k: "k < (4::nat)" and v: "v < varint_limit (2 ^ k)"
  from k have "k = 0 \<or> k = 1 \<or> k = 2 \<or> k = 3" by arith
  with v show ?thesis by (auto simp: varint_limit_def QuicVarIntMaximum_def)
qed

lemma quic_encode_varint_inv:
  assumes "quic_encode_varint v l capacity = Inr bs"
  obtains k where "k < 4" "l = 0 \<or> l = 2 ^ k" "v < varint_limit (2 ^ k)" "2 ^ k \<le> capacity"
    "bs = varint_bytes k v"
proof -
  define l' where "l' = (if l = 0 then quic_varint_encoded_length v else l)"
  from assms have in_set: "l' \<in> {1, 2, 4, 8}"
    by (auto simp: quic_encode_varint_def Let_def l'_def split: if_splits)
  then obtain k where k: "k < (4::nat)" "l' = 2 ^ k" by (rule varint_length_cases)
  then have k': "k = 0 \<or> k = 1 \<or> k = 2 \<or> k = 3" by arith
  have "v \<le> (if l' = 8 then QuicVarIntMaximum else push_bit (l' * 8 - 2) 1 - 1)"
    using assms unfolding quic_encode_varint_def Let_def l'_def [symmetric]
    by (simp split: if_splits)
  then have lim: "v < varint_limit (2 ^ k)"
    unfolding k(2) using k'
    by (elim disjE) (simp_all add: varint_limit_def QuicVarIntMaximum_def push_bit_eq_mult)
  have cap: "2 ^ k \<le> capacity"
  proof (rule ccontr)
    assume "\<not> 2 ^ k \<le> capacity"
    with k(2) have c: "capacity < l'" by simp
    have "\<exists>e. quic_encode_varint v l capacity = Inl e"
      unfolding quic_encode_varint_def Let_def l'_def [symmetric] by (simp only: c if_True) auto
    with assms show False by simp
  qed
  have "(if l' = 0 then quic_varint_encoded_length v else l')
      = (if l = 0 then quic_varint_encoded_length v else l)"
    using in_set by (auto simp: l'_def)
  then have "quic_encode_varint v l' capacity = Inr bs"
    using assms unfolding quic_encode_varint_def by (simp only:)
  then have "bs = varint_bytes k v"
    using quic_encode_varint_eq [OF k(1) lim cap] k(2) by simp
  moreover have "l = 0 \<or> l = 2 ^ k" using k(2) by (simp add: l'_def split: if_splits)
  ultimately show ?thesis using that k lim cap by blast
qed

text \<open>
  Encoding a value at a requested length (or, with 0, at its shortest length) and decoding
  the result, whatever follows it, gives the value back and consumes exactly the bytes written;
  the output never exceeds the capacity.
\<close>

theorem quic_varint_decode_encode:
  assumes "quic_encode_varint v l capacity = Inr bs"
  shows "quic_decode_varint (bs @ rest) = Inr (v, length bs) \<and> length bs \<le> capacity
    \<and> (l \<noteq> 0 \<longrightarrow> length bs = l)"
proof -
  from assms obtain k where "k < 4" "l = 0 \<or> l = 2 ^ k" "v < varint_limit (2 ^ k)"
    "2 ^ k \<le> capacity" "bs = varint_bytes k v"
    by (rule quic_encode_varint_inv)
  then show ?thesis using quic_decode_varint_bytes by auto
qed

theorem quic_varint_decode_encode_witness:
  "quic_decode_varint ([0x7b, 0xbd] @ [7]) = Inr (15293, 2)"
  using quic_varint_decode_encode [of 15293 0 8 "[0x7b, 0xbd]" "[7]"]
  by (simp add: quic_encode_varint_def quic_varint_encoded_length_def QuicVarIntMaximum_def
      codec_simps)

text \<open>
  Decoding accepts exactly the encoder's outputs: the bytes it consumes are those the
  encoder writes for the decoded value at the decoded length.
\<close>

theorem quic_varint_encode_decode:
  assumes "quic_decode_varint data = Inr (v, n)"
  shows "n \<le> length data \<and> v \<le> QuicVarIntMaximum \<and> quic_encode_varint v n n = Inr (take n data)"
proof -
  from assms obtain k where k: "k < 4" "n = 2 ^ k" "n \<le> length data" "v < varint_limit (2 ^ k)"
    "take n data = varint_bytes k v"
    by (rule quic_decode_varint_inv)
  then show ?thesis
    using quic_encode_varint_eq [of k v n] varint_limit_le [of k v] by simp
qed

theorem quic_varint_encode_decode_witness:
  "quic_encode_varint 37 2 2 = Inr (take 2 [0x40, 0x25, 0xff])"
  using quic_varint_encode_decode [of "[0x40, 0x25, 0xff]" 37 2]
  by (simp add: quic_decode_varint_def Let_def drop_bit_eq_div)

section \<open>The shortest code\<close>

definition quic_varint :: "nat \<Rightarrow> bytes" where
  "quic_varint v =
     (case quic_encode_varint v 0 8 of Inl _ \<Rightarrow> [] | Inr bs \<Rightarrow> bs)"

lemma quic_encode_varint_shortest:
  assumes "v \<le> QuicVarIntMaximum"
  obtains k where "k < 4" "quic_varint_encoded_length v = 2 ^ k" "v < varint_limit (2 ^ k)"
proof -
  have "quic_varint_encoded_length v \<in> {1, 2, 4, 8}"
    using assms by (auto simp: quic_varint_encoded_length_def)
  then obtain k where k: "k < (4::nat)" "quic_varint_encoded_length v = 2 ^ k"
    by (rule varint_length_cases)
  then have "k = 0 \<or> k = 1 \<or> k = 2 \<or> k = 3" by arith
  then have "v < varint_limit (2 ^ k)"
    using k(2) assms
    by (auto simp: quic_varint_encoded_length_def varint_limit_def QuicVarIntMaximum_def split: if_splits)
  with k that show ?thesis by blast
qed

lemma quic_encode_varint_shortest_eq:
  assumes "v \<le> QuicVarIntMaximum"
  shows "quic_encode_varint v (quic_varint_encoded_length v) capacity =
    (if capacity < quic_varint_encoded_length v then Inl STATUS_BUFFER_TOO_SMALL
     else Inr (quic_varint v))"
proof -
  obtain k where k: "k < 4" "quic_varint_encoded_length v = 2 ^ k" "v < varint_limit (2 ^ k)"
    using assms by (rule quic_encode_varint_shortest)
  have k': "k = 0 \<or> k = 1 \<or> k = 2 \<or> k = 3" using k(1) by arith
  have le8: "(2::nat) ^ k \<le> 8" using k' by auto
  have "quic_encode_varint v 0 8 = quic_encode_varint v (2 ^ k) 8"
    using k(2) by (simp add: quic_encode_varint_def)
  then have q: "quic_varint v = varint_bytes k v"
    using quic_encode_varint_eq [OF k(1,3) le8] by (simp add: quic_varint_def)
  show ?thesis
  proof (cases "capacity < 2 ^ k")
    case True
    then show ?thesis
      using k k' assms
      by (auto simp: quic_encode_varint_def Let_def varint_limit_def QuicVarIntMaximum_def
          push_bit_eq_mult)
  next
    case False
    then show ?thesis using quic_encode_varint_eq [OF k(1,3)] k(2) q by simp
  qed
qed

lemma quic_varint_decode:
  assumes "v \<le> QuicVarIntMaximum"
  shows "quic_decode_varint (quic_varint v @ rest) = Inr (v, length (quic_varint v))"
    and "length (quic_varint v) = quic_varint_encoded_length v"
proof -
  obtain k where k: "k < 4" "quic_varint_encoded_length v = 2 ^ k" "v < varint_limit (2 ^ k)"
    using assms by (rule quic_encode_varint_shortest)
  have "k = 0 \<or> k = 1 \<or> k = 2 \<or> k = 3" using k(1) by arith
  then have "(2::nat) ^ k \<le> 8" by auto
  then have q: "quic_varint v = varint_bytes k v"
    using quic_encode_varint_shortest_eq [OF assms, of 8] quic_encode_varint_eq [OF k(1,3)] k(2)
    by simp
  show "quic_decode_varint (quic_varint v @ rest) = Inr (v, length (quic_varint v))"
    using quic_decode_varint_bytes [OF k(1,3)] q by simp
  show "length (quic_varint v) = quic_varint_encoded_length v"
    using q k(2) by simp
qed

lemma quic_varint_nonempty: "v \<le> QuicVarIntMaximum \<Longrightarrow> quic_varint v \<noteq> []"
  using quic_varint_decode(2) [of v]
  by (auto simp: quic_varint_encoded_length_def split: if_splits)

interpretation varint: prefix_code quic_varint quic_decode_varint "\<lambda>v. v \<le> QuicVarIntMaximum"
  by unfold_locales (auto simp: quic_varint_decode(1) quic_varint_nonempty)

lemma quic_decode_varint_le:
  "quic_decode_varint data = Inr (v, n) \<Longrightarrow> n \<le> length data \<and> 0 < n \<and> v \<le> QuicVarIntMaximum"
  by (metis quic_decode_varint_inv varint_limit_le zero_less_numeral zero_less_power)

section \<open>Readers and writers of the codecs\<close>

text \<open>
  The helpers \<open>ReadValue\<close>, \<open>HasBytes\<close>, \<open>WriteValue\<close> and \<open>WriteBytes\<close> of \<open>QuicFrame.cpp\<close>.
  \<open>QuicPacket.cpp\<close> and \<open>QuicTransportParameters.cpp\<close> have their own copies of some of them. A
  reader takes the whole buffer and an offset; a writer takes the capacity and what has been
  written so far.
\<close>

definition read_value :: "bytes \<Rightarrow> nat \<Rightarrow> (nat \<times> nat) result" where
  "read_value data offset =
     (if offset > length data then Inl STATUS_INVALID_NETWORK_RESPONSE
      else rbind (quic_decode_varint (drop offset data)) (\<lambda>(value, consumed). Inr (value, offset + consumed)))"

definition has_bytes :: "nat \<Rightarrow> nat \<Rightarrow> nat \<Rightarrow> bool" where
  "has_bytes offset count len \<longleftrightarrow> offset \<le> len \<and> count \<le> len - offset"

definition write_value :: "nat \<Rightarrow> nat \<Rightarrow> bytes \<Rightarrow> bytes result" where
  "write_value value capacity w =
     (if length w > capacity then Inl STATUS_BUFFER_TOO_SMALL
      else let encodedLength = quic_varint_encoded_length value
           in if encodedLength = 0 then Inl STATUS_INTEGER_OVERFLOW
              else rbind (quic_encode_varint value encodedLength (capacity - length w)) (\<lambda>bs. Inr (w @ bs)))"

definition write_bytes :: "bytes \<Rightarrow> nat \<Rightarrow> bytes \<Rightarrow> bytes result" where
  "write_bytes data capacity w =
     (if length w > capacity \<or> length data > capacity - length w then Inl STATUS_BUFFER_TOO_SMALL
      else Inr (w @ data))"

text \<open>A length and that many bytes.\<close>

definition read_block :: "bytes \<Rightarrow> nat \<Rightarrow> (nat \<times> bytes \<times> nat) result" where
  "read_block data o0 =
     rbind (read_value data o0) (\<lambda>(len, o1).
       if len > length data \<or> \<not> has_bytes o1 len (length data) then Inl STATUS_INVALID_NETWORK_RESPONSE
       else Inr (len, view data o1 len, o1 + len))"

section \<open>Readers against writers\<close>

lemma write_value_Inr_iff [status_simps]:
  "write_value v capacity w = Inr w' \<longleftrightarrow>
     v \<le> QuicVarIntMaximum \<and> w' = w @ quic_varint v \<and> length w' \<le> capacity"
proof (cases "v \<le> QuicVarIntMaximum")
  case True
  then have "quic_varint_encoded_length v \<noteq> 0" "length (quic_varint v) = quic_varint_encoded_length v"
    by (auto simp: quic_varint_encoded_length_def quic_varint_decode(2))
  with True show ?thesis
    by (auto simp: write_value_def quic_encode_varint_shortest_eq Let_def)
next
  case False
  then show ?thesis
    by (auto simp: write_value_def quic_varint_encoded_length_def QuicVarIntMaximum_def Let_def)
qed

lemma write_bytes_Inr_iff [status_simps]:
  "write_bytes bs capacity w = Inr w' \<longleftrightarrow> w' = w @ bs \<and> length w' \<le> capacity"
  by (auto simp: write_bytes_def)

lemma read_value_at:
  assumes "v \<le> QuicVarIntMaximum" "drop offset data = quic_varint v @ rest" "offset \<le> length data"
  shows "read_value data offset = Inr (v, offset + length (quic_varint v))"
  using assms quic_varint_decode(1) [OF assms(1), of rest] by (simp add: read_value_def)

lemma read_value_first [codec_simps]:
  "v \<le> QuicVarIntMaximum \<Longrightarrow> read_value (quic_varint v @ rest) 0 = Inr (v, length (quic_varint v))"
  using read_value_at [of v 0 "quic_varint v @ rest" rest] by simp

lemma read_value_append [codec_simps]:
  "length p \<le> offset \<Longrightarrow> read_value (p @ data) offset =
     rbind (read_value data (offset - length p)) (\<lambda>(v, o'). Inr (v, o' + length p))"
  by (cases "quic_decode_varint (drop (offset - length p) data)")
     (auto simp: read_value_def split: prod.splits)

lemma read_value_Inr:
  assumes "read_value data offset = Inr (v, o')"
  shows "v \<le> QuicVarIntMaximum \<and> offset < o' \<and> o' \<le> length data"
  using assms quic_decode_varint_le [of "drop offset data"]
  by (auto simp: read_value_def status_simps split: if_splits)

lemma length_view [simp]: "has_bytes offset n (length data) \<Longrightarrow> length (view data offset n) = n"
  by (auto simp: view_def has_bytes_def)

lemma read_block_at [codec_simps]:
  assumes "length bs \<le> QuicVarIntMaximum"
  shows "read_block (quic_varint (length bs) @ bs @ rest) 0 =
     Inr (length bs, bs, length (quic_varint (length bs)) + length bs)"
  using assms by (simp add: read_block_def codec_simps has_bytes_def)

lemma read_block_eq:
  "read_block data offset = rbind (read_value data offset) (\<lambda>(len, o1).
     if \<not> has_bytes o1 len (length data) then Inl STATUS_INVALID_NETWORK_RESPONSE
     else Inr (len, view data o1 len, o1 + len))"
proof -
  have "len > length data \<Longrightarrow> \<not> has_bytes o1 len (length data)" for len o1
    unfolding has_bytes_def by linarith
  then show ?thesis unfolding read_block_def by (intro rbind_cong) auto
qed

lemma read_block_append [codec_simps]:
  assumes "length p \<le> offset"
  shows "read_block (p @ data) offset =
     rbind (read_block data (offset - length p)) (\<lambda>(len, block, o'). Inr (len, block, o' + length p))"
proof (cases "read_value data (offset - length p)")
  case (Inl e)
  with assms show ?thesis by (simp add: read_block_eq read_value_append)
next
  case (Inr x)
  obtain v o' where x: "x = (v, o')" by fastforce
  have "has_bytes (o' + length p) v (length (p @ data)) \<longleftrightarrow> has_bytes o' v (length data)"
    by (auto simp: has_bytes_def)
  with assms Inr x show ?thesis by (simp add: read_block_eq read_value_append view_append)
qed

lemma small_varint [codec_simps]: "n \<le> 63 \<Longrightarrow> n \<le> QuicVarIntMaximum"
  by (simp add: QuicVarIntMaximum_def)

end
