(* ===== verification/QuicAckTracker.thy ===== *)
theory QuicAckTracker
  imports QuicVarInt
begin

text \<open>
  The received-packet tracker, \<open>src/wknetlib/quic/QuicAckTracker.cpp\<close>: the packet numbers seen
  so far as ranges in descending order, and when an acknowledgement is due. \<open>at_ranges\<close> is the
  used part \<open>ranges_[0 .. rangeCount_)\<close> of the array and \<open>at_capacity\<close> its allocated length (0
  for an array that is not allocated). The lemmas show that the ranges stay separated and
  descending, that they denote exactly the set of packet numbers received, and when the
  acknowledgement deadline is what.
\<close>

definition WKNET_HARD_MAX_QUIC_ACK_RANGES :: nat where
  "WKNET_HARD_MAX_QUIC_ACK_RANGES = 256"

record quic_ack_tracker =
  at_capacity :: nat
  at_ranges :: "quic_ack_range list"
  at_first_time :: nat
  at_eliciting :: nat
  at_pending :: bool
  at_immediate :: bool

definition ack_tracker_new :: quic_ack_tracker where
  "ack_tracker_new = \<lparr>at_capacity = 0, at_ranges = [], at_first_time = 0, at_eliciting = 0,
     at_pending = False, at_immediate = False\<rparr>"

section \<open>Operations\<close>

text \<open>\<open>alloc_ok\<close> is the outcome of the pool allocation.\<close>

definition ack_initialize ::
    "bool \<Rightarrow> nat \<Rightarrow> quic_ack_tracker \<Rightarrow> ntstatus \<times> quic_ack_tracker" where
  "ack_initialize alloc_ok capacity t =
     (if capacity = 0 \<or> capacity > WKNET_HARD_MAX_QUIC_ACK_RANGES
      then (STATUS_INVALID_PARAMETER, t)
      else if \<not> alloc_ok then (STATUS_INSUFFICIENT_RESOURCES, t\<lparr>at_capacity := 0\<rparr>)
      else (STATUS_SUCCESS, t\<lparr>at_capacity := capacity, at_ranges := [], at_first_time := 0,
              at_eliciting := 0, at_pending := False, at_immediate := False\<rparr>))"

datatype ack_slot = Duplicate | InsertAt nat

text \<open>The search loop: the slot of the first range below the packet number, or a duplicate.\<close>

fun ack_scan :: "nat \<Rightarrow> nat \<Rightarrow> quic_ack_range list \<Rightarrow> ack_slot" where
  "ack_scan pn i [] = InsertAt i"
| "ack_scan pn i (r # rs) =
     (if Smallest r \<le> pn \<and> pn \<le> Largest r then Duplicate
      else if pn > Largest r then InsertAt i
      else ack_scan pn (Suc i) rs)"

text \<open>The shifting loops insert and delete an array element.\<close>

definition insert_at :: "nat \<Rightarrow> 'a \<Rightarrow> 'a list \<Rightarrow> 'a list" where
  "insert_at i x xs = take i xs @ x # drop i xs"

definition remove_at :: "nat \<Rightarrow> 'a list \<Rightarrow> 'a list" where
  "remove_at i xs = take i xs @ drop (Suc i) xs"

definition ack_merge_previous :: "quic_ack_range list \<Rightarrow> nat \<Rightarrow> quic_ack_range list \<times> nat" where
  "ack_merge_previous rs i =
     (if i \<noteq> 0 \<and> Smallest (rs ! (i - 1)) \<noteq> 0 \<and> Smallest (rs ! (i - 1)) - 1 \<le> Largest (rs ! i)
      then (remove_at i (rs[i - 1 := (rs ! (i - 1))\<lparr>Smallest := Smallest (rs ! i)\<rparr>]), i - 1)
      else (rs, i))"

definition ack_merge_next :: "quic_ack_range list \<Rightarrow> nat \<Rightarrow> quic_ack_range list" where
  "ack_merge_next rs i =
     (if i + 1 < length rs \<and> Smallest (rs ! i) \<noteq> 0 \<and> Smallest (rs ! i) - 1 \<le> Largest (rs ! (i + 1))
      then remove_at (i + 1) (rs[i := (rs ! i)\<lparr>Smallest := Smallest (rs ! (i + 1))\<rparr>])
      else rs)"

definition ack_insert :: "nat \<Rightarrow> nat \<Rightarrow> quic_ack_range list \<Rightarrow> quic_ack_range list" where
  "ack_insert pn i rs =
     (let (rs1, i1) = ack_merge_previous (insert_at i \<lparr>Smallest = pn, Largest = pn\<rparr> rs) i
      in ack_merge_next rs1 i1)"

definition ack_note_eliciting :: "bool \<Rightarrow> nat \<Rightarrow> quic_ack_tracker \<Rightarrow> quic_ack_tracker" where
  "ack_note_eliciting immediateAck now t =
     (let first = (if at_eliciting t = 0 then now else at_first_time t);
          n = (if at_eliciting t \<noteq> u32_max then at_eliciting t + 1 else at_eliciting t)
      in t\<lparr>at_first_time := first, at_eliciting := n, at_pending := True,
           at_immediate := (at_immediate t \<or> immediateAck \<or> n \<ge> 2)\<rparr>)"

text \<open>The result is the status, the \<open>duplicate\<close> out-parameter and the new tracker.\<close>

definition on_packet_received ::
    "nat \<Rightarrow> bool \<Rightarrow> bool \<Rightarrow> nat \<Rightarrow> quic_ack_tracker \<Rightarrow> ntstatus \<times> bool \<times> quic_ack_tracker" where
  "on_packet_received pn ackEliciting immediateAck now t =
     (if at_capacity t = 0 \<or> pn > QuicVarIntMaximum then (STATUS_INVALID_PARAMETER, False, t)
      else case ack_scan pn 0 (at_ranges t) of
        Duplicate \<Rightarrow> (STATUS_SUCCESS, True, t)
      | InsertAt i \<Rightarrow>
          if length (at_ranges t) \<ge> at_capacity t then (STATUS_INSUFFICIENT_RESOURCES, False, t)
          else let t1 = t\<lparr>at_ranges := ack_insert pn i (at_ranges t)\<rparr>
               in (STATUS_SUCCESS, False,
                   if ackEliciting then ack_note_eliciting immediateAck now t1 else t1))"

definition ack_copy_ranges :: "nat \<Rightarrow> quic_ack_tracker \<Rightarrow> (quic_ack_range list) result" where
  "ack_copy_ranges capacity t =
     (if at_capacity t = 0 \<or> capacity < length (at_ranges t) then Inl STATUS_INVALID_PARAMETER
      else Inr (at_ranges t))"

definition ack_deadline :: "nat \<Rightarrow> quic_ack_tracker \<Rightarrow> nat" where
  "ack_deadline maxAckDelayMilliseconds t =
     (if \<not> at_pending t then 0
      else if at_immediate t then at_first_time t
      else let delay = (if maxAckDelayMilliseconds > u64_max div 10000 then u64_max
                        else maxAckDelayMilliseconds * 10000)
           in sat_add64 (at_first_time t) delay)"

definition ack_on_sent :: "quic_ack_tracker \<Rightarrow> quic_ack_tracker" where
  "ack_on_sent t = t\<lparr>at_first_time := 0, at_eliciting := 0, at_pending := False, at_immediate := False\<rparr>"

section \<open>Ranges: the invariant and the set they denote\<close>

fun ack_wf :: "quic_ack_range list \<Rightarrow> bool" where
  "ack_wf [] = True"
| "ack_wf [r] = (Smallest r \<le> Largest r)"
| "ack_wf (r # s # rs) = (Smallest r \<le> Largest r \<and> Largest s + 2 \<le> Smallest r \<and> ack_wf (s # rs))"

definition range_set :: "quic_ack_range \<Rightarrow> nat set" where
  "range_set r = {Smallest r .. Largest r}"

definition ack_set :: "quic_ack_range list \<Rightarrow> nat set" where
  "ack_set rs = (\<Union>r \<in> set rs. range_set r)"

lemma ack_set_simps [simp]:
  "ack_set [] = {}" "ack_set (r # rs) = range_set r \<union> ack_set rs"
  "ack_set (xs @ ys) = ack_set xs \<union> ack_set ys"
  by (auto simp: ack_set_def)

lemma mem_range_set [simp]: "n \<in> range_set r \<longleftrightarrow> Smallest r \<le> n \<and> n \<le> Largest r"
  by (simp add: range_set_def)

lemma ack_wf_Cons:
  "ack_wf (r # rs) \<longleftrightarrow> Smallest r \<le> Largest r \<and> (rs \<noteq> [] \<longrightarrow> Largest (hd rs) + 2 \<le> Smallest r) \<and> ack_wf rs"
  by (cases rs) auto

lemma ack_wf_append:
  "ack_wf (xs @ ys) \<longleftrightarrow> ack_wf xs \<and> ack_wf ys
     \<and> (xs \<noteq> [] \<and> ys \<noteq> [] \<longrightarrow> Largest (hd ys) + 2 \<le> Smallest (last xs))"
  by (induction xs) (auto simp: ack_wf_Cons)

lemma ack_wf_below: "ack_wf (r # rs) \<Longrightarrow> n \<in> ack_set rs \<Longrightarrow> n + 2 \<le> Smallest r"
  by (induction rs arbitrary: r) (fastforce simp: ack_wf_Cons)+

lemma ack_wf_above: "ack_wf (rs @ [r]) \<Longrightarrow> n \<in> ack_set rs \<Longrightarrow> Largest r + 2 \<le> n"
proof (induction rs)
  case Nil
  then show ?case by simp
next
  case (Cons s rs)
  then have "Largest r + 2 \<le> Smallest s"
    using ack_wf_below [of s "rs @ [r]" "Largest r"] by (auto simp: ack_wf_append ack_wf_Cons)
  with Cons show ?case by (auto simp: ack_wf_Cons)
qed

text \<open>The ranges are canonical: the set determines them.\<close>

lemma ack_wf_Max:
  assumes "ack_wf (r # rs)"
  shows "Max (ack_set (r # rs)) = Largest r"
proof (rule Max_eqI)
  show "finite (ack_set (r # rs))" by (auto simp: ack_set_def range_set_def)
  show "Largest r \<in> ack_set (r # rs)" using assms by (simp add: ack_wf_Cons)
  show "n \<le> Largest r" if "n \<in> ack_set (r # rs)" for n
    using that assms ack_wf_below [OF assms, of n] by (auto simp: ack_wf_Cons)
qed

lemma ack_wf_canonical:
  "ack_wf rs \<Longrightarrow> ack_wf ss \<Longrightarrow> ack_set rs = ack_set ss \<Longrightarrow> rs = ss"
proof (induction rs arbitrary: ss)
  case Nil
  then show ?case
    by (cases ss) (auto simp: ack_wf_Cons set_eq_iff)
next
  case (Cons r rs)
  show ?case
  proof (cases ss)
    case Nil
    with Cons.prems show ?thesis by (auto simp: ack_wf_Cons set_eq_iff)
  next
    case (Cons s ss')
    note wf = Cons.prems(1) Cons.prems(2) [unfolded Cons]
    have eq: "ack_set (r # rs) = ack_set (s # ss')" using Cons.prems(3) Cons by simp
    have L: "Largest r = Largest s"
      using ack_wf_Max [OF wf(1)] ack_wf_Max [OF wf(2)] eq by simp
    have gap: "Smallest x - 1 \<notin> ack_set (x # xs) \<or> Smallest x = 0" if "ack_wf (x # xs)" for x xs
      using ack_wf_below [OF that, of "Smallest x - 1"] by auto
    have S: "Smallest r = Smallest s"
    proof (rule ccontr)
      assume "Smallest r \<noteq> Smallest s"
      then consider "Smallest r < Smallest s" | "Smallest s < Smallest r" by linarith
      then show False
      proof cases
        case 1
        then have "Smallest s - 1 \<in> ack_set (r # rs)" using L wf(2) by (auto simp: ack_wf_Cons)
        with gap [OF wf(2)] eq 1 show ?thesis by auto
      next
        case 2
        then have "Smallest r - 1 \<in> ack_set (s # ss')" using L wf(1) by (auto simp: ack_wf_Cons)
        with gap [OF wf(1)] eq 2 show ?thesis by auto
      qed
    qed
    have "ack_set rs = ack_set ss'"
    proof -
      have "ack_set xs = ack_set (x # xs) - range_set x" if "ack_wf (x # xs)" for x xs
        using ack_wf_below [OF that] by fastforce
      from this [OF wf(1)] this [OF wf(2)] eq L S show ?thesis by (simp add: range_set_def)
    qed
    then have "rs = ss'" using Cons.IH wf by (auto simp: ack_wf_Cons)
    with L S Cons show ?thesis by (simp add: quic_ack_range.equality)
  qed
qed

section \<open>The search and the insertion\<close>

lemma ack_scan_Duplicate:
  "ack_wf rs \<Longrightarrow> ack_scan pn i rs = Duplicate \<longleftrightarrow> pn \<in> ack_set rs"
proof (induction rs arbitrary: i)
  case Nil
  then show ?case by simp
next
  case (Cons r rs)
  with ack_wf_below [OF Cons.prems, of pn] show ?case by (auto simp: ack_wf_Cons)
qed

lemma ack_scan_InsertAt:
  assumes "ack_scan pn i rs = InsertAt j"
  obtains pre post where "rs = pre @ post" "j = i + length pre"
    "\<forall>r \<in> set pre. pn < Smallest r" "post \<noteq> [] \<longrightarrow> Largest (hd post) < pn"
  using assms
proof (induction rs arbitrary: i thesis)
  case Nil
  then show ?case by simp
next
  case (Cons r rs)
  show ?case
  proof (cases "pn > Largest r")
    case True
    with Cons.prems(2) have "j = i" by (simp split: if_splits)
    with True Cons.prems(1) [of "[]" "r # rs"] show ?thesis by simp
  next
    case False
    with Cons.prems(2) have less: "pn < Smallest r" and "ack_scan pn (Suc i) rs = InsertAt j"
      by (auto split: if_splits)
    then obtain pre post where "rs = pre @ post" "j = Suc i + length pre"
      "\<forall>r \<in> set pre. pn < Smallest r" "post \<noteq> [] \<longrightarrow> Largest (hd post) < pn"
      using Cons.IH by blast
    with less Cons.prems(1) [of "r # pre" post] show ?thesis by simp
  qed
qed

text \<open>
  What an insertion leaves behind: it extends the range above, the range below, both (closing the
  gap), or stands alone.
\<close>

lemma ack_insert_Nil:
  assumes "post \<noteq> [] \<longrightarrow> Largest (hd post) < pn"
  shows "ack_insert pn 0 post =
    (if post \<noteq> [] \<and> Suc (Largest (hd post)) = pn
     then \<lparr>Smallest = Smallest (hd post), Largest = pn\<rparr> # tl post
     else \<lparr>Smallest = pn, Largest = pn\<rparr> # post)"
  using assms
  by (cases post)
     (auto simp: ack_insert_def insert_at_def ack_merge_previous_def ack_merge_next_def remove_at_def)

lemma ack_insert_snoc:
  assumes "pn < Smallest q" "post \<noteq> [] \<longrightarrow> Largest (hd post) < pn"
  shows "ack_insert pn (Suc (length pre)) ((pre @ [q]) @ post) =
    (if Suc pn = Smallest q
     then pre @ (if post \<noteq> [] \<and> Suc (Largest (hd post)) = pn
                 then q\<lparr>Smallest := Smallest (hd post)\<rparr> # tl post
                 else q\<lparr>Smallest := pn\<rparr> # post)
     else pre @ q # (if post \<noteq> [] \<and> Suc (Largest (hd post)) = pn
                 then \<lparr>Smallest = Smallest (hd post), Largest = pn\<rparr> # tl post
                 else \<lparr>Smallest = pn, Largest = pn\<rparr> # post))"
  using assms
  by (cases post)
     (auto simp: ack_insert_def insert_at_def ack_merge_previous_def ack_merge_next_def remove_at_def
        nth_append list_update_append)

lemma ack_insert_correct:
  assumes wf: "ack_wf rs" and scan: "ack_scan pn 0 rs = InsertAt i"
  shows "ack_wf (ack_insert pn i rs) \<and> ack_set (ack_insert pn i rs) = insert pn (ack_set rs)
    \<and> length (ack_insert pn i rs) \<le> Suc (length rs)"
proof -
  obtain pre post where rs: "rs = pre @ post" and i: "i = length pre"
    and pre: "\<forall>r \<in> set pre. pn < Smallest r" and post: "post \<noteq> [] \<longrightarrow> Largest (hd post) < pn"
    using ack_scan_InsertAt [OF scan] by auto
  show ?thesis
  proof (cases pre rule: rev_cases)
    case Nil
    with rs i wf post show ?thesis
      by (cases post) (auto simp: ack_insert_Nil ack_wf_Cons)
  next
    case (snoc pre' q)
    with pre have q: "pn < Smallest q" by simp
    have wf': "ack_wf ((pre' @ [q]) @ post)" using wf rs snoc by simp
    have "ack_insert pn i rs = ack_insert pn (Suc (length pre')) ((pre' @ [q]) @ post)"
      using rs i snoc by simp
    note eq = this [unfolded ack_insert_snoc [OF q post]]
    have set: "ack_set rs = ack_set pre' \<union> range_set q \<union> ack_set post"
      and len: "length rs = length pre' + 1 + length post"
      using rs snoc by (simp_all add: Un_assoc)
    show ?thesis
      unfolding eq set len using wf' post q
      by (cases post) (auto simp: ack_wf_append ack_wf_Cons)
  qed
qed

section \<open>The tracker\<close>

definition ack_inv :: "quic_ack_tracker \<Rightarrow> bool" where
  "ack_inv t \<longleftrightarrow> ack_wf (at_ranges t) \<and> length (at_ranges t) \<le> at_capacity t
     \<and> at_capacity t \<le> WKNET_HARD_MAX_QUIC_ACK_RANGES
     \<and> (\<forall>n \<in> ack_set (at_ranges t). n \<le> QuicVarIntMaximum)
     \<and> (at_pending t \<longleftrightarrow> at_eliciting t \<noteq> 0) \<and> (at_immediate t \<longrightarrow> at_pending t)
     \<and> (2 \<le> at_eliciting t \<longrightarrow> at_immediate t) \<and> at_eliciting t \<le> u32_max"

lemma ack_inv_initialize:
  "ack_initialize ok cap t = (STATUS_SUCCESS, t') \<Longrightarrow> ack_inv t'"
  by (auto simp: ack_initialize_def ack_inv_def split: if_splits)

lemma ack_inv_sent: "ack_inv t \<Longrightarrow> ack_inv (ack_on_sent t)"
  by (simp add: ack_inv_def ack_on_sent_def)

lemma ack_inv_note: "ack_inv t \<Longrightarrow> ack_inv (ack_note_eliciting imm now t)"
  by (auto simp: ack_inv_def ack_note_eliciting_def Let_def u32_max_def)

lemma ack_inv_received:
  assumes "ack_inv t" "on_packet_received pn el imm now t = (st, dup, t')"
  shows "ack_inv t'"
proof (cases "ack_scan pn 0 (at_ranges t)")
  case Duplicate
  with assms show ?thesis by (auto simp: on_packet_received_def split: if_splits)
next
  case (InsertAt i)
  have wf: "ack_wf (at_ranges t)" using assms(1) by (simp add: ack_inv_def)
  show ?thesis
  proof (cases "at_capacity t = 0 \<or> pn > QuicVarIntMaximum \<or> length (at_ranges t) \<ge> at_capacity t")
    case True
    with assms InsertAt show ?thesis by (auto simp: on_packet_received_def split: if_splits)
  next
    case False
    define t1 where "t1 = t\<lparr>at_ranges := ack_insert pn i (at_ranges t)\<rparr>"
    have "ack_inv t1"
      using assms(1) ack_insert_correct [OF wf InsertAt] False
      by (auto simp: ack_inv_def t1_def)
    moreover have "t' = (if el then ack_note_eliciting imm now t1 else t1)"
      using assms(2) InsertAt False by (auto simp: on_packet_received_def t1_def Let_def)
    ultimately show ?thesis using ack_inv_note by simp
  qed
qed

text \<open>The life of a tracker: allocated, then packets received and acknowledgements sent.\<close>

inductive ack_reachable :: "quic_ack_tracker \<Rightarrow> bool" where
  ack_start: "ack_initialize True cap t = (STATUS_SUCCESS, t') \<Longrightarrow> ack_reachable t'"
| ack_receive: "ack_reachable t \<Longrightarrow> on_packet_received pn el imm now t = (st, dup, t') \<Longrightarrow> ack_reachable t'"
| ack_sent: "ack_reachable t \<Longrightarrow> ack_reachable (ack_on_sent t)"

lemma ack_reachable_inv: "ack_reachable t \<Longrightarrow> ack_inv t"
  by (induction rule: ack_reachable.induct)
     (auto intro: ack_inv_initialize ack_inv_received ack_inv_sent)

lemma packet_received_set:
  assumes "ack_inv t" "at_capacity t \<noteq> 0" "pn \<le> QuicVarIntMaximum"
    and "on_packet_received pn el imm now t = (st, dup, t')"
  shows "(dup \<longleftrightarrow> pn \<in> ack_set (at_ranges t))
    \<and> (dup \<longrightarrow> st = STATUS_SUCCESS \<and> t' = t)
    \<and> (\<not> dup \<longrightarrow> (if length (at_ranges t) = at_capacity t
         then st = STATUS_INSUFFICIENT_RESOURCES \<and> t' = t
         else st = STATUS_SUCCESS \<and> ack_set (at_ranges t') = insert pn (ack_set (at_ranges t))))
    \<and> ack_inv t'"
proof -
  have wf: "ack_wf (at_ranges t)" and len: "length (at_ranges t) \<le> at_capacity t"
    using assms(1) by (auto simp: ack_inv_def)
  have inv: "ack_inv t'" using ack_inv_received assms(1,4) .
  show ?thesis
  proof (cases "ack_scan pn 0 (at_ranges t)")
    case Duplicate
    with assms ack_scan_Duplicate [OF wf] inv show ?thesis
      by (auto simp: on_packet_received_def)
  next
    case (InsertAt i)
    then have fresh: "pn \<notin> ack_set (at_ranges t)" using ack_scan_Duplicate [OF wf, of pn 0] by simp
    define t1 where "t1 = t\<lparr>at_ranges := ack_insert pn i (at_ranges t)\<rparr>"
    have run: "(st, dup, t') = (if length (at_ranges t) \<ge> at_capacity t
        then (STATUS_INSUFFICIENT_RESOURCES, False, t)
        else (STATUS_SUCCESS, False, if el then ack_note_eliciting imm now t1 else t1))"
      unfolding assms(4) [symmetric] using assms(2,3) InsertAt
      by (simp add: on_packet_received_def t1_def Let_def)
    have "at_ranges (if el then ack_note_eliciting imm now t1 else t1) = ack_insert pn i (at_ranges t)"
      by (simp add: t1_def ack_note_eliciting_def Let_def)
    then have set: "ack_set (at_ranges (if el then ack_note_eliciting imm now t1 else t1))
        = insert pn (ack_set (at_ranges t))"
      using ack_insert_correct [OF wf InsertAt] by simp
    show ?thesis
    proof (cases "length (at_ranges t) = at_capacity t")
      case True
      with run inv fresh show ?thesis by simp
    next
      case False
      with run len have "st = STATUS_SUCCESS" "\<not> dup"
        "t' = (if el then ack_note_eliciting imm now t1 else t1)" by simp_all
      with False set inv fresh show ?thesis by simp
    qed
  qed
qed

text \<open>
  C25. What receiving a packet number does to a tracker that satisfies its invariant: a number
  already covered is reported as a duplicate and changes nothing; a new number is either refused
  because the range array is full, changing nothing, or becomes the one element added to the set
  the ranges denote. The ranges stay separated and in descending order.
\<close>

theorem on_packet_received_set:
  assumes "ack_inv t" "at_capacity t \<noteq> 0" "pn \<le> QuicVarIntMaximum"
    and "on_packet_received pn el imm now t = (st, dup, t')"
  shows "(dup \<longleftrightarrow> pn \<in> ack_set (at_ranges t))
    \<and> (dup \<longrightarrow> st = STATUS_SUCCESS \<and> t' = t)
    \<and> (\<not> dup \<longrightarrow> (if length (at_ranges t) = at_capacity t
         then st = STATUS_INSUFFICIENT_RESOURCES \<and> t' = t
         else st = STATUS_SUCCESS \<and> ack_set (at_ranges t') = insert pn (ack_set (at_ranges t))))
    \<and> ack_inv t'"
  by (rule packet_received_set [OF assms])

theorem on_packet_received_set_witness:
  "on_packet_received 6 True False 50
     \<lparr>at_capacity = 4, at_ranges = [\<lparr>Smallest = 7, Largest = 9\<rparr>, \<lparr>Smallest = 2, Largest = 5\<rparr>],
      at_first_time = 0, at_eliciting = 0, at_pending = False, at_immediate = False\<rparr>
   = (STATUS_SUCCESS, False,
     \<lparr>at_capacity = 4, at_ranges = [\<lparr>Smallest = 2, Largest = 9\<rparr>], at_first_time = 50,
      at_eliciting = 1, at_pending = True, at_immediate = False\<rparr>)
   \<and> insert 6 ({7..9} \<union> {2..5}) = {2..(9::nat)}"
proof -
  let ?t = "\<lparr>at_capacity = 4, at_ranges = [\<lparr>Smallest = 7, Largest = 9\<rparr>, \<lparr>Smallest = 2, Largest = 5\<rparr>],
      at_first_time = 0, at_eliciting = 0, at_pending = False, at_immediate = False\<rparr>"
  let ?t' = "\<lparr>at_capacity = 4, at_ranges = [\<lparr>Smallest = 2, Largest = 9\<rparr>], at_first_time = 50,
      at_eliciting = 1, at_pending = True, at_immediate = False\<rparr>"
  have run: "on_packet_received 6 True False 50 ?t = (STATUS_SUCCESS, False, ?t')"
    by (simp add: on_packet_received_def ack_insert_def insert_at_def ack_merge_previous_def
        ack_merge_next_def remove_at_def ack_note_eliciting_def QuicVarIntMaximum_def u32_max_def)
  have "ack_inv ?t"
    by (auto simp: ack_inv_def WKNET_HARD_MAX_QUIC_ACK_RANGES_def QuicVarIntMaximum_def)
  from on_packet_received_set [OF this _ _ run]
  have "ack_set (at_ranges ?t') = insert 6 (ack_set (at_ranges ?t))"
    by (simp add: QuicVarIntMaximum_def)
  then have "insert 6 ({7..9} \<union> {2..5}) = {2..(9::nat)}"
    by (simp add: range_set_def)
  with run show ?thesis by simp
qed

text \<open>
  In every reachable tracker the deadline is 0 when no acknowledgement is pending, and then
  no ack-eliciting packet waits. When one is pending the deadline never lies before the arrival
  of the first waiting ack-eliciting packet, never more than the advertised delay after it, never
  wraps, and is that very arrival time as soon as two ack-eliciting packets wait.
\<close>

theorem ack_deadline_bounds:
  assumes "ack_reachable t" "at_first_time t \<le> u64_max"
  shows "if at_pending t
    then at_first_time t \<le> ack_deadline ms t
      \<and> ack_deadline ms t \<le> at_first_time t + 10000 * ms
      \<and> ack_deadline ms t \<le> u64_max
      \<and> (2 \<le> at_eliciting t \<longrightarrow> ack_deadline ms t = at_first_time t)
    else ack_deadline ms t = 0 \<and> at_eliciting t = 0"
proof -
  define delay where "delay = (if ms > u64_max div 10000 then u64_max else ms * 10000)"
  have d: "delay \<le> u64_max" "delay \<le> 10000 * ms"
    by (auto simp: delay_def u64_max_def)
  have inv: "ack_inv t" using assms(1) by (rule ack_reachable_inv)
  have "ack_deadline ms t = (if \<not> at_pending t then 0 else if at_immediate t then at_first_time t
      else min u64_max (at_first_time t + delay))"
    using d(1) by (simp add: ack_deadline_def Let_def delay_def [symmetric] sat_add64_eq_min)
  with inv d assms(2) show ?thesis by (auto simp: ack_inv_def)
qed

theorem ack_deadline_bounds_witness:
  "\<exists>t. ack_reachable t \<and> at_pending t \<and> ack_deadline 25 t = 250700"
proof -
  let ?t0 = "ack_tracker_new\<lparr>at_capacity := 8\<rparr>"
  let ?t1 = "?t0\<lparr>at_ranges := [\<lparr>Smallest = 3, Largest = 3\<rparr>], at_first_time := 700,
      at_eliciting := 1, at_pending := True\<rparr>"
  have "ack_initialize True 8 ack_tracker_new = (STATUS_SUCCESS, ?t0)"
    by (simp add: ack_initialize_def WKNET_HARD_MAX_QUIC_ACK_RANGES_def ack_tracker_new_def)
  then have "ack_reachable ?t0" by (rule ack_start)
  moreover have "on_packet_received 3 True False 700 ?t0 = (STATUS_SUCCESS, False, ?t1)"
    by (simp add: on_packet_received_def ack_insert_def insert_at_def ack_merge_previous_def
        ack_merge_next_def ack_note_eliciting_def QuicVarIntMaximum_def u32_max_def ack_tracker_new_def)
  ultimately have r: "ack_reachable ?t1" by (rule ack_receive)
  from ack_deadline_bounds [OF r, of 25] have "ack_deadline 25 ?t1 \<le> 700 + 250000"
    by (simp add: u64_max_def)
  moreover have "ack_deadline 25 ?t1 = 250700"
    by (simp add: ack_deadline_def ack_tracker_new_def sat_add64_def u64_max_def)
  ultimately show ?thesis using r by (intro exI [of _ ?t1]) simp
qed

end
