(* ===== verification/QuicCongestion.thy ===== *)
theory QuicCongestion
  imports Prelude
begin

text \<open>
  The congestion controller, \<open>src/wknetlib/quic/QuicCongestion.cpp\<close>: window, slow start
  threshold, bytes in flight, recovery start and pacing deadline, each a 64-bit value whose
  arithmetic wraps exactly where the source does not guard it. The lemmas bound the window and
  the pacing deadline and give the accounting of bytes in flight, which \<open>QuicRecovery\<close> relies
  on through the locale \<open>flight_accounting\<close>.
\<close>

definition MaximumDatagramSize :: nat where
  "MaximumDatagramSize = 1200"

record quic_congestion =
  congestionWindow :: nat
  slowStartThreshold :: nat
  bytesInFlight :: nat
  recoveryStartTime :: nat
  pacingDeadline :: nat

section \<open>Operations\<close>

definition cc_reset :: quic_congestion where
  "cc_reset = \<lparr>congestionWindow = 10 * MaximumDatagramSize, slowStartThreshold = u64_max,
     bytesInFlight = 0, recoveryStartTime = 0, pacingDeadline = 0\<rparr>"

definition cc_on_packet_sent :: "nat \<Rightarrow> bool \<Rightarrow> nat \<Rightarrow> nat \<Rightarrow> quic_congestion \<Rightarrow> quic_congestion" where
  "cc_on_packet_sent bytes inFlight now smoothedRtt c =
     (let flight = (if inFlight then w64 (bytesInFlight c + bytes) else bytesInFlight c);
          pacingRtt = (if smoothedRtt = 0 then 3330000 else smoothedRtt);
          interval0 = (if congestionWindow c = 0 then pacingRtt
                       else w64 (bytes * pacingRtt) div congestionWindow c);
          interval = (if interval0 < 1000 then 1000 else interval0);
          pacingBase = (if pacingDeadline c > now then pacingDeadline c else now)
      in c\<lparr>bytesInFlight := flight, pacingDeadline := sat_add64 pacingBase interval\<rparr>)"

definition cc_on_packet_acked :: "nat \<Rightarrow> nat \<Rightarrow> quic_congestion \<Rightarrow> quic_congestion" where
  "cc_on_packet_acked bytes sentTime c =
     (let c1 = c\<lparr>bytesInFlight := (if bytes > bytesInFlight c then 0 else bytesInFlight c - bytes)\<rparr>
      in if sentTime \<le> recoveryStartTime c1 then c1
         else if congestionWindow c1 < slowStartThreshold c1
         then c1\<lparr>congestionWindow := w64 (congestionWindow c1 + bytes)\<rparr>
         else let increment0 = w64 (MaximumDatagramSize * bytes) div congestionWindow c1;
                  increment = (if increment0 = 0 then 1 else increment0)
              in c1\<lparr>congestionWindow := w64 (congestionWindow c1 + increment)\<rparr>)"

definition cc_on_packets_lost :: "nat \<Rightarrow> nat \<Rightarrow> quic_congestion \<Rightarrow> quic_congestion" where
  "cc_on_packets_lost bytes now c =
     (let c1 = c\<lparr>bytesInFlight := (if bytes > bytesInFlight c then 0 else bytesInFlight c - bytes)\<rparr>
      in if now \<le> recoveryStartTime c1 then c1
         else let half = congestionWindow c1 div 2;
                  minimum = 2 * MaximumDatagramSize;
                  window = (if half < minimum then minimum else half)
              in c1\<lparr>recoveryStartTime := now, congestionWindow := window, slowStartThreshold := window\<rparr>)"

definition cc_on_persistent_congestion :: "quic_congestion \<Rightarrow> quic_congestion" where
  "cc_on_persistent_congestion c =
     c\<lparr>congestionWindow := 2 * MaximumDatagramSize, slowStartThreshold := 2 * MaximumDatagramSize\<rparr>"

definition cc_can_send :: "nat \<Rightarrow> nat \<Rightarrow> quic_congestion \<Rightarrow> bool" where
  "cc_can_send bytes now c =
     (if bytes = 0 \<or> bytes > MaximumDatagramSize then False
      else if bytesInFlight c > congestionWindow c \<or> bytes > congestionWindow c - bytesInFlight c then False
      else now \<ge> pacingDeadline c)"

lemmas cc_defs = cc_on_packet_sent_def cc_on_packet_acked_def cc_on_packets_lost_def
  cc_on_persistent_congestion_def Let_def

section \<open>Bytes in flight\<close>

text \<open>
  The laws a loss detector relies on: what is in flight grows by what is sent and shrinks by
  what is acknowledged or lost, whatever the window does.
\<close>

locale flight_accounting =
  fixes sent :: "nat \<Rightarrow> bool \<Rightarrow> nat \<Rightarrow> nat \<Rightarrow> 'c \<Rightarrow> 'c"
    and acked :: "nat \<Rightarrow> nat \<Rightarrow> 'c \<Rightarrow> 'c"
    and lost :: "nat \<Rightarrow> nat \<Rightarrow> 'c \<Rightarrow> 'c"
    and persistent :: "'c \<Rightarrow> 'c"
    and flight :: "'c \<Rightarrow> nat"
  assumes flight_sent: "flight c + b \<le> u64_max \<Longrightarrow>
      flight (sent b fly now srtt c) = flight c + (if fly then b else 0)"
    and flight_acked: "flight (acked b t c) = flight c - b"
    and flight_lost: "flight (lost b now c) = flight c - b"
    and flight_persistent: "flight (persistent c) = flight c"
begin

lemma flight_acked_all:
  "flight (fold (\<lambda>(b, t). acked b t) bts c) = flight c - sum_list (map fst bts)"
  by (induction bts arbitrary: c) (auto simp: flight_acked)

end

interpretation cc: flight_accounting cc_on_packet_sent cc_on_packet_acked cc_on_packets_lost
    cc_on_persistent_congestion bytesInFlight
  by unfold_locales (auto simp: cc_defs w64_id)

section \<open>The window\<close>

datatype cc_event =
    CcSent nat bool nat nat
  | CcAcked nat nat
  | CcLost nat nat
  | CcPersistent

fun cc_step :: "cc_event \<Rightarrow> quic_congestion \<Rightarrow> quic_congestion" where
  "cc_step (CcSent b fly now srtt) = cc_on_packet_sent b fly now srtt"
| "cc_step (CcAcked b t) = cc_on_packet_acked b t"
| "cc_step (CcLost b now) = cc_on_packets_lost b now"
| "cc_step CcPersistent = cc_on_persistent_congestion"

fun cc_growth :: "cc_event \<Rightarrow> nat" where
  "cc_growth (CcAcked b t) = b + 1"
| "cc_growth _ = 0"

definition cc_inv :: "quic_congestion \<Rightarrow> bool" where
  "cc_inv c \<longleftrightarrow> 2 * MaximumDatagramSize \<le> congestionWindow c
     \<and> 2 * MaximumDatagramSize \<le> slowStartThreshold c"

lemma cc_increment_le:
  assumes "2 * MaximumDatagramSize \<le> w"
  shows "w64 (MaximumDatagramSize * b) div w \<le> b"
proof -
  have "w64 (MaximumDatagramSize * b) \<le> MaximumDatagramSize * b"
    by (simp add: w64_def)
  also have "\<dots> \<le> w * b" using assms by simp
  finally have "w64 (MaximumDatagramSize * b) div w \<le> w * b div w" by (rule div_le_mono)
  also have "\<dots> \<le> b" using assms by (simp add: MaximumDatagramSize_def)
  finally show ?thesis .
qed

lemma cc_step_inv:
  assumes "cc_inv c" "congestionWindow c + cc_growth e \<le> u64_max"
  shows "cc_inv (cc_step e c) \<and> congestionWindow (cc_step e c) \<le> congestionWindow c + cc_growth e"
proof (cases e)
  case (CcAcked b t)
  have inc: "w64 (MaximumDatagramSize * b) div congestionWindow c \<le> b"
    using assms(1) by (intro cc_increment_le) (simp add: cc_inv_def)
  have "w64 (congestionWindow c + b) = congestionWindow c + b"
    and "w64 (congestionWindow c + w64 (MaximumDatagramSize * b) div congestionWindow c)
      = congestionWindow c + w64 (MaximumDatagramSize * b) div congestionWindow c"
    and "w64 (congestionWindow c + 1) = congestionWindow c + 1"
    using assms(2) inc CcAcked by (auto intro!: w64_id)
  with CcAcked assms inc show ?thesis
    by (auto simp: cc_on_packet_acked_def Let_def cc_inv_def)
qed (use assms in \<open>auto simp: cc_defs cc_inv_def MaximumDatagramSize_def\<close>)

definition cc_run :: "cc_event list \<Rightarrow> quic_congestion \<Rightarrow> quic_congestion" where
  "cc_run es c = fold cc_step es c"

lemma cc_run_inv:
  assumes "cc_inv c" "congestionWindow c + sum_list (map cc_growth es) \<le> u64_max"
  shows "cc_inv (cc_run es c)
    \<and> congestionWindow (cc_run es c) \<le> congestionWindow c + sum_list (map cc_growth es)"
  using assms
proof (induction es arbitrary: c)
  case Nil
  then show ?case by (simp add: cc_run_def)
next
  case (Cons e es)
  have s: "cc_inv (cc_step e c) \<and> congestionWindow (cc_step e c) \<le> congestionWindow c + cc_growth e"
    using Cons.prems by (intro cc_step_inv) auto
  with Cons.IH [of "cc_step e c"] Cons.prems show ?case
    by (auto simp: cc_run_def)
qed

text \<open>
  Over any history of sends, acknowledgements, losses and persistent congestion, as long as
  the acknowledged volume stays below 2^63 bytes, the congestion window and the slow start
  threshold never fall below two datagrams, so the division by the window in congestion
  avoidance is always defined, and the window never exceeds its initial value plus what was
  acknowledged (one byte more per acknowledgement).
\<close>

theorem congestion_window_bounds:
  assumes "sum_list (map cc_growth es) \<le> 2 ^ 63"
  shows "2 * MaximumDatagramSize \<le> congestionWindow (cc_run es cc_reset)
    \<and> 2 * MaximumDatagramSize \<le> slowStartThreshold (cc_run es cc_reset)
    \<and> congestionWindow (cc_run es cc_reset) \<le> 10 * MaximumDatagramSize + sum_list (map cc_growth es)"
proof -
  have "cc_inv cc_reset"
    by (simp add: cc_inv_def cc_reset_def MaximumDatagramSize_def u64_max_def)
  moreover have "congestionWindow cc_reset + sum_list (map cc_growth es) \<le> u64_max"
    using assms by (simp add: cc_reset_def MaximumDatagramSize_def u64_max_def)
  ultimately show ?thesis
    using cc_run_inv [of cc_reset es] by (simp add: cc_inv_def cc_reset_def)
qed

theorem congestion_window_bounds_witness:
  "congestionWindow (cc_run [CcSent 1200 True 5 0, CcAcked 1200 5, CcLost 0 9, CcAcked 1200 10] cc_reset)
     = 6818
   \<and> congestionWindow (cc_run [CcSent 1200 True 5 0, CcAcked 1200 5, CcLost 0 9, CcAcked 1200 10] cc_reset)
     \<ge> 2 * MaximumDatagramSize"
  using congestion_window_bounds [of "[CcSent 1200 True 5 0, CcAcked 1200 5, CcLost 0 9, CcAcked 1200 10]"]
  by (simp add: cc_run_def cc_reset_def cc_defs MaximumDatagramSize_def u64_max_def w64_def)

section \<open>Pacing\<close>

text \<open>
  Sending never moves the pacing deadline back, puts it at least 100 microseconds (1000 ticks)
  after both the old deadline and the present unless it saturates at the largest time, and never
  wraps; until the deadline \<open>CanSend\<close> refuses every datagram.
\<close>

theorem pacing_deadline_advances:
  assumes "pacingDeadline c \<le> u64_max" "now \<le> u64_max" "srtt \<le> u64_max"
  shows "let d = pacingDeadline (cc_on_packet_sent b fly now srtt c) in
    pacingDeadline c \<le> d \<and> now \<le> d \<and> d \<le> u64_max
    \<and> (min u64_max (max (pacingDeadline c) now + 1000) \<le> d)
    \<and> (\<forall>n t. t < d \<longrightarrow> \<not> cc_can_send n t (cc_on_packet_sent b fly now srtt c))"
proof -
  define i where "i = (let pacingRtt = (if srtt = 0 then 3330000 else srtt);
     interval0 = (if congestionWindow c = 0 then pacingRtt else w64 (b * pacingRtt) div congestionWindow c)
     in if interval0 < 1000 then 1000 else interval0)"
  have d: "pacingDeadline (cc_on_packet_sent b fly now srtt c) =
      sat_add64 (max (pacingDeadline c) now) i"
    by (simp add: cc_on_packet_sent_def i_def Let_def max_def)
  have "w64 (b * r) div congestionWindow c \<le> u64_max" for r
    using div_le_dividend w64_le by (rule order_trans)
  then have "i \<le> u64_max" using assms(3) by (auto simp: i_def Let_def u64_max_def)
  moreover have "1000 \<le> i" by (simp add: i_def Let_def)
  ultimately have "sat_add64 (max (pacingDeadline c) now) i \<ge> min u64_max (max (pacingDeadline c) now + 1000)"
    and "sat_add64 (max (pacingDeadline c) now) i \<le> u64_max"
    using assms by (auto simp: sat_add64_def)
  with assms show ?thesis
    unfolding Let_def d by (auto simp: cc_can_send_def d)
qed

theorem pacing_deadline_advances_witness:
  "pacingDeadline (cc_on_packet_sent 1200 True 100 0 cc_reset) = 333100
   \<and> \<not> cc_can_send 1200 333099 (cc_on_packet_sent 1200 True 100 0 cc_reset)"
proof -
  have d: "pacingDeadline (cc_on_packet_sent 1200 True 100 0 cc_reset) = 333100"
    by (simp add: cc_on_packet_sent_def cc_reset_def MaximumDatagramSize_def w64_def sat_add64_def
        u64_max_def)
  have "\<forall>n t. t < pacingDeadline (cc_on_packet_sent 1200 True 100 0 cc_reset)
      \<longrightarrow> \<not> cc_can_send n t (cc_on_packet_sent 1200 True 100 0 cc_reset)"
    using pacing_deadline_advances [of cc_reset 100 0 1200 True]
    unfolding Let_def by (simp add: cc_reset_def u64_max_def)
  with d show ?thesis by simp
qed

section \<open>Loss events in a row\<close>

text \<open>
  The guard of \<open>OnPacketsLost\<close> compares the time the loss is detected with the start of the
  recovery period, not the time the lost packet was sent. Two detections at increasing times
  therefore reduce the window twice, also when both losses belong to the same flight.
\<close>

lemma two_loss_events_quarter_the_window:
  assumes "recoveryStartTime c < t1" "t1 < t2" "8 * MaximumDatagramSize \<le> congestionWindow c"
  shows "congestionWindow (cc_on_packets_lost b2 t2 (cc_on_packets_lost b1 t1 c)) = congestionWindow c div 4"
proof -
  have "congestionWindow (cc_on_packets_lost b1 t1 c) = congestionWindow c div 2"
    "recoveryStartTime (cc_on_packets_lost b1 t1 c) = t1"
    using assms by (auto simp: cc_on_packets_lost_def Let_def)
  with assms show ?thesis
    by (auto simp: cc_on_packets_lost_def [of b2] Let_def div_mult2_eq)
qed

end
