(* ===== verification/QuicRecovery.thy ===== *)
theory QuicRecovery
  imports QuicAckTracker QuicCongestion
begin

text \<open>
  Loss recovery, \<open>src/wknetlib/quic/QuicRecovery.cpp\<close>: the outstanding packets of the three
  packet number spaces, RTT estimation, loss detection by packet and time threshold, and the
  probe timeout. \<open>rc_packets\<close> is the used part \<open>packets_[0 .. count_)\<close> of the array,
  \<open>rc_capacity\<close> its allocated length (0 when not allocated); the arrays indexed by space are
  functions of the space. \<open>QuicClockNow100ns()\<close> is the parameter \<open>now\<close>. Pointers into the
  packet array (\<open>largestPacket\<close>) are only read for the send time, which is what is carried.
  The lemmas give the invariant of the packet table, the accounting of bytes in flight (through
  the locale \<open>flight_accounting\<close>), which packets an acknowledgement or the loss timer removes,
  and the bounds of the timers.
\<close>

definition WKNET_HARD_MAX_QUIC_SENT_PACKETS :: nat where
  "WKNET_HARD_MAX_QUIC_SENT_PACKETS = 4096"

datatype quic_space = SpInitial | SpHandshake | SpApplication

record quic_sent_packet =
  sp_space :: quic_space
  sp_number :: nat
  sp_sent_time :: nat
  sp_bytes :: nat
  sp_eliciting :: bool
  sp_in_flight :: bool
  sp_terminal :: bool

record quic_recovery =
  rc_capacity :: nat
  rc_packets :: "quic_sent_packet list"
  latestRtt :: nat
  smoothedRtt :: nat
  rttVariance :: nat
  minimumRtt :: nat
  ptoCount :: nat
  lostPacketCount :: nat
  largestSent :: "quic_space \<Rightarrow> nat"
  largestAcknowledged :: "quic_space \<Rightarrow> nat"
  hasSent :: "quic_space \<Rightarrow> bool"
  hasAcknowledged :: "quic_space \<Rightarrow> bool"
  rc_congestion :: quic_congestion

definition recovery_new :: quic_recovery where
  "recovery_new = \<lparr>rc_capacity = 0, rc_packets = [], latestRtt = 0, smoothedRtt = 0, rttVariance = 0,
     minimumRtt = 0, ptoCount = 0, lostPacketCount = 0, largestSent = (\<lambda>_. 0),
     largestAcknowledged = (\<lambda>_. 0), hasSent = (\<lambda>_. False), hasAcknowledged = (\<lambda>_. False),
     rc_congestion = cc_reset\<rparr>"

section \<open>Sending\<close>

definition rc_initialize :: "bool \<Rightarrow> nat \<Rightarrow> quic_recovery \<Rightarrow> ntstatus \<times> quic_recovery" where
  "rc_initialize alloc_ok capacity r =
     (if capacity = 0 \<or> capacity > WKNET_HARD_MAX_QUIC_SENT_PACKETS then (STATUS_INVALID_PARAMETER, r)
      else if \<not> alloc_ok then (STATUS_INSUFFICIENT_RESOURCES, r\<lparr>rc_capacity := 0\<rparr>)
      else (STATUS_SUCCESS, recovery_new\<lparr>rc_capacity := capacity\<rparr>))"

definition rc_on_packet_sent ::
    "nat \<Rightarrow> quic_space \<Rightarrow> nat \<Rightarrow> nat \<Rightarrow> bool \<Rightarrow> quic_recovery \<Rightarrow> ntstatus \<times> quic_recovery" where
  "rc_on_packet_sent now space pn bytes ack r =
     (if rc_capacity r = 0 \<or> pn > QuicVarIntMaximum \<or> bytes = 0 \<or> bytes > MaximumDatagramSize
      then (STATUS_INVALID_PARAMETER, r)
      else if hasSent r space \<and> pn \<le> largestSent r space then (STATUS_INVALID_DEVICE_STATE, r)
      else if length (rc_packets r) \<ge> rc_capacity r then (STATUS_INSUFFICIENT_RESOURCES, r)
      else (STATUS_SUCCESS,
            r\<lparr>rc_packets := rc_packets r @ [\<lparr>sp_space = space, sp_number = pn, sp_sent_time = now,
                 sp_bytes = bytes, sp_eliciting = ack, sp_in_flight = ack, sp_terminal = False\<rparr>],
              largestSent := (largestSent r)(space := pn),
              hasSent := (hasSent r)(space := True),
              rc_congestion := cc_on_packet_sent bytes ack now (smoothedRtt r) (rc_congestion r)\<rparr>))"

section \<open>Timers\<close>

definition rc_loss_delay :: "quic_recovery \<Rightarrow> nat" where
  "rc_loss_delay r =
     (let d0 = (if latestRtt r > smoothedRtt r then latestRtt r else smoothedRtt r);
          d1 = (if d0 = 0 then 3330000 else d0);
          d2 = w64 (d1 * 9) div 8
      in if d2 < 10000 then 10000 else d2)"

definition rc_loss_deadline_step ::
    "quic_space \<Rightarrow> nat \<Rightarrow> nat \<Rightarrow> quic_sent_packet \<Rightarrow> nat \<Rightarrow> nat" where
  "rc_loss_deadline_step space largestAcked lossDelay p deadline =
     (if sp_space p \<noteq> space \<or> sp_terminal p \<or> sp_number p \<ge> largestAcked then deadline
      else let candidate = sat_add64 (sp_sent_time p) lossDelay
           in if deadline = 0 \<or> candidate < deadline then candidate else deadline)"

definition rc_loss_deadline :: "quic_space \<Rightarrow> quic_recovery \<Rightarrow> nat" where
  "rc_loss_deadline space r =
     (if \<not> hasAcknowledged r space then 0
      else fold (rc_loss_deadline_step space (largestAcknowledged r space) (rc_loss_delay r))
             (rc_packets r) 0)"

definition rc_base_pto :: "quic_space \<Rightarrow> nat \<Rightarrow> quic_recovery \<Rightarrow> nat" where
  "rc_base_pto space maxAckDelayMs r =
     (let base = (if smoothedRtt r = 0 then 3330000 else smoothedRtt r);
          variance0 = w64 (4 * rttVariance r);
          variance = (if variance0 < 10000 then 10000 else variance0);
          base1 = w64 (base + variance)
      in if space = SpApplication
         then let ackDelay = (if maxAckDelayMs > u64_max div 10000 then u64_max else maxAckDelayMs * 10000)
              in (if ackDelay > u64_max - base1 then u64_max else base1 + ackDelay)
         else base1)"

definition rc_last_eliciting :: "quic_space \<Rightarrow> quic_recovery \<Rightarrow> nat" where
  "rc_last_eliciting space r =
     fold (\<lambda>p last. if sp_space p = space \<and> \<not> sp_terminal p \<and> sp_eliciting p \<and> sp_sent_time p > last
                     then sp_sent_time p else last) (rc_packets r) 0"

definition rc_pto_deadline :: "quic_space \<Rightarrow> nat \<Rightarrow> quic_recovery \<Rightarrow> nat" where
  "rc_pto_deadline space maxAckDelayMs r =
     (let last = rc_last_eliciting space r
      in if last = 0 then 0
         else let duration0 = rc_base_pto space maxAckDelayMs r;
                  duration = (if ptoCount r \<ge> 31 \<or> duration0 > drop_bit (ptoCount r) u64_max then u64_max
                              else push_bit (ptoCount r) duration0)
              in if duration > u64_max - last then u64_max else last + duration)"

definition rc_pto_period :: "quic_space \<Rightarrow> nat \<Rightarrow> quic_recovery \<Rightarrow> nat" where
  "rc_pto_period space maxAckDelayMs r =
     (let duration = rc_base_pto space maxAckDelayMs r
      in if ptoCount r \<ge> 31 \<or> duration > drop_bit (ptoCount r) u64_max then u64_max
         else push_bit (ptoCount r) duration)"

definition rc_on_pto_fired :: "quic_recovery \<Rightarrow> quic_recovery" where
  "rc_on_pto_fired r = (if ptoCount r < 31 then r\<lparr>ptoCount := ptoCount r + 1\<rparr> else r)"

definition rc_compact :: "quic_recovery \<Rightarrow> quic_recovery" where
  "rc_compact r = r\<lparr>rc_packets := filter (\<lambda>p. \<not> sp_terminal p) (rc_packets r)\<rparr>"

section \<open>Acknowledgements\<close>

fun ranges_descending :: "quic_ack_range list \<Rightarrow> bool" where
  "ranges_descending [] = True"
| "ranges_descending [x] = (Smallest x \<le> Largest x \<and> Largest x \<le> QuicVarIntMaximum)"
| "ranges_descending (x # y # ys) =
     (Smallest x \<le> Largest x \<and> Largest x \<le> QuicVarIntMaximum \<and> Largest y < Smallest x
      \<and> ranges_descending (y # ys))"

definition ack_covers :: "quic_ack_range list \<Rightarrow> nat \<Rightarrow> bool" where
  "ack_covers ranges pn = list_ex (\<lambda>x. Smallest x \<le> pn \<and> pn \<le> Largest x) ranges"

record ack_scan_state =
  as_largest_sent_time :: "nat option"
  as_congestion :: quic_congestion
  as_newly_eliciting :: bool

text \<open>The first loop marks what the ranges cover and tells the congestion controller.\<close>

definition rc_acked :: "quic_space \<Rightarrow> quic_ack_range list \<Rightarrow> quic_sent_packet \<Rightarrow> bool" where
  "rc_acked space ranges p \<longleftrightarrow>
     \<not> (sp_space p \<noteq> space \<or> sp_terminal p) \<and> ack_covers ranges (sp_number p)"

definition ack_note :: "nat \<Rightarrow> quic_sent_packet \<Rightarrow> ack_scan_state \<Rightarrow> ack_scan_state" where
  "ack_note largest p a =
     (let a1 = (if sp_number p = largest then a\<lparr>as_largest_sent_time := Some (sp_sent_time p)\<rparr> else a)
      in if sp_in_flight p
         then a1\<lparr>as_congestion := cc_on_packet_acked (sp_bytes p) (sp_sent_time p) (as_congestion a1),
                 as_newly_eliciting := (as_newly_eliciting a1 \<or> sp_eliciting p)\<rparr>
         else a1)"

fun ack_loop ::
    "quic_space \<Rightarrow> quic_ack_range list \<Rightarrow> nat \<Rightarrow> quic_sent_packet list \<Rightarrow> ack_scan_state
       \<Rightarrow> quic_sent_packet list \<times> ack_scan_state" where
  "ack_loop space ranges largest [] a = ([], a)"
| "ack_loop space ranges largest (p # ps) a =
     (if rc_acked space ranges p
      then let (ps', a') = ack_loop space ranges largest ps (ack_note largest p a)
           in (p\<lparr>sp_terminal := True\<rparr> # ps', a')
      else let (ps', a') = ack_loop space ranges largest ps a in (p # ps', a'))"

record loss_scan_state =
  ls_lost_bytes :: nat
  ls_earliest :: nat
  ls_latest :: nat
  ls_newly_lost :: nat
  ls_lost_count :: nat

text \<open>The second loop marks what the packet threshold or the time threshold declares lost.\<close>

definition rc_lost :: "quic_space \<Rightarrow> nat \<Rightarrow> nat \<Rightarrow> quic_sent_packet \<Rightarrow> bool" where
  "rc_lost space largest threshold p \<longleftrightarrow>
     \<not> (sp_space p \<noteq> space \<or> sp_terminal p \<or> sp_number p \<ge> largest)
     \<and> (largest - sp_number p \<ge> 3 \<or> sp_sent_time p \<le> threshold)"

definition loss_note :: "quic_sent_packet \<Rightarrow> loss_scan_state \<Rightarrow> loss_scan_state" where
  "loss_note p a =
     (let a1 = a\<lparr>ls_newly_lost := ls_newly_lost a + 1, ls_lost_count := w64 (ls_lost_count a + 1)\<rparr>;
          a2 = (if sp_in_flight p then a1\<lparr>ls_lost_bytes := w64 (ls_lost_bytes a1 + sp_bytes p)\<rparr> else a1)
      in if sp_eliciting p
         then a2\<lparr>ls_earliest := (if ls_earliest a2 = 0 \<or> sp_sent_time p < ls_earliest a2
                                  then sp_sent_time p else ls_earliest a2),
                 ls_latest := (if sp_sent_time p > ls_latest a2 then sp_sent_time p else ls_latest a2)\<rparr>
         else a2)"

fun loss_loop ::
    "quic_space \<Rightarrow> nat \<Rightarrow> nat \<Rightarrow> quic_sent_packet list \<Rightarrow> loss_scan_state
       \<Rightarrow> quic_sent_packet list \<times> loss_scan_state" where
  "loss_loop space largest threshold [] a = ([], a)"
| "loss_loop space largest threshold (p # ps) a =
     (if rc_lost space largest threshold p
      then let (ps', a') = loss_loop space largest threshold ps (loss_note p a)
           in (p\<lparr>sp_terminal := True\<rparr> # ps', a')
      else let (ps', a') = loss_loop space largest threshold ps a in (p # ps', a'))"

definition rc_update_rtt :: "quic_space \<Rightarrow> nat \<Rightarrow> nat \<Rightarrow> nat \<Rightarrow> quic_recovery \<Rightarrow> quic_recovery" where
  "rc_update_rtt space now sentTime ackDelay r =
     (let latest = sub64 now sentTime;
          minimum = (if minimumRtt r = 0 \<or> latest < minimumRtt r then latest else minimumRtt r);
          adjusted = (if space = SpApplication \<and> latest > w64 (minimum + ackDelay)
                      then sub64 latest ackDelay else latest)
      in if smoothedRtt r = 0
         then r\<lparr>latestRtt := latest, minimumRtt := minimum, smoothedRtt := adjusted,
                rttVariance := adjusted div 2\<rparr>
         else let diff = (if smoothedRtt r > adjusted then smoothedRtt r - adjusted
                          else adjusted - smoothedRtt r)
              in r\<lparr>latestRtt := latest, minimumRtt := minimum,
                   rttVariance := w64 (3 * rttVariance r + diff) div 4,
                   smoothedRtt := w64 (7 * smoothedRtt r + adjusted) div 8\<rparr>)"

text \<open>
  The congestion response to a completed loss scan: a loss event for the lost bytes, then
  persistent congestion when the lost ack-eliciting packets span three probe timeouts.
\<close>

definition rc_loss_response ::
    "quic_space \<Rightarrow> nat \<Rightarrow> quic_recovery \<Rightarrow> loss_scan_state \<Rightarrow> quic_congestion \<Rightarrow> quic_congestion" where
  "rc_loss_response space now r a c =
     (let c1 = (if ls_lost_bytes a \<noteq> 0 then cc_on_packets_lost (ls_lost_bytes a) now c else c)
      in if ls_newly_lost a \<noteq> 0 \<and> ls_earliest a \<noteq> 0
            \<and> sub64 (ls_latest a) (ls_earliest a) \<ge> w64 (rc_base_pto space 0 r * 3)
         then cc_on_persistent_congestion c1 else c1)"

definition rc_on_ack_ranges ::
    "nat \<Rightarrow> quic_space \<Rightarrow> quic_ack_range list \<Rightarrow> nat \<Rightarrow> quic_recovery \<Rightarrow> ntstatus \<times> quic_recovery" where
  "rc_on_ack_ranges now space ranges ackDelay r =
     (if rc_capacity r = 0 then (STATUS_INVALID_DEVICE_STATE, r)
      else if ranges = [] \<or> length ranges > WKNET_HARD_MAX_QUIC_ACK_RANGES then (STATUS_INVALID_PARAMETER, r)
      else if \<not> ranges_descending ranges then (STATUS_INVALID_NETWORK_RESPONSE, r)
      else let largest = Largest (hd ranges)
        in if \<not> hasSent r space \<or> largest > largestSent r space then (STATUS_INVALID_NETWORK_RESPONSE, r)
           else
        let (ps1, a) = ack_loop space ranges largest (rc_packets r)
              \<lparr>as_largest_sent_time = None, as_congestion = rc_congestion r, as_newly_eliciting = False\<rparr>;
            r1 = (if \<not> hasAcknowledged r space \<or> largest > largestAcknowledged r space
                  then r\<lparr>largestAcknowledged := (largestAcknowledged r)(space := largest),
                         hasAcknowledged := (hasAcknowledged r)(space := True)\<rparr> else r);
            lossDelay = rc_loss_delay r1;
            threshold = (if now > lossDelay then now - lossDelay else 0);
            (ps2, l) = loss_loop space largest threshold ps1
              \<lparr>ls_lost_bytes = 0, ls_earliest = 0, ls_latest = 0, ls_newly_lost = 0,
               ls_lost_count = lostPacketCount r1\<rparr>;
            r2 = r1\<lparr>rc_packets := ps2, lostPacketCount := ls_lost_count l,
                    rc_congestion := rc_loss_response space now r1 l (as_congestion a)\<rparr>;
            r3 = (case as_largest_sent_time a of None \<Rightarrow> r2
                  | Some sentTime \<Rightarrow> rc_update_rtt space now sentTime ackDelay r2);
            r4 = (if as_newly_eliciting a then r3\<lparr>ptoCount := 0\<rparr> else r3)
        in (STATUS_SUCCESS, rc_compact r4))"

definition rc_on_ack :: "nat \<Rightarrow> quic_space \<Rightarrow> nat \<Rightarrow> nat \<Rightarrow> quic_recovery \<Rightarrow> ntstatus \<times> quic_recovery" where
  "rc_on_ack now space largest ackDelay r =
     rc_on_ack_ranges now space [\<lparr>Smallest = largest, Largest = largest\<rparr>] ackDelay r"

section \<open>The loss timer\<close>

definition rc_overdue :: "quic_space \<Rightarrow> nat \<Rightarrow> nat \<Rightarrow> quic_sent_packet \<Rightarrow> bool" where
  "rc_overdue space now lossDelay p =
     (\<not> (sp_terminal p \<or> sp_space p \<noteq> space \<or> sp_sent_time p > now
         \<or> now - sp_sent_time p < lossDelay))"

fun expire_loop ::
    "quic_space \<Rightarrow> nat \<Rightarrow> nat \<Rightarrow> quic_sent_packet list \<Rightarrow> nat \<times> nat
       \<Rightarrow> quic_sent_packet list \<times> nat \<times> nat" where
  "expire_loop space now lossDelay [] (lostBytes, newlyLost) = ([], lostBytes, newlyLost)"
| "expire_loop space now lossDelay (p # ps) (lostBytes, newlyLost) =
     (if \<not> rc_overdue space now lossDelay p
      then let (ps', x) = expire_loop space now lossDelay ps (lostBytes, newlyLost) in (p # ps', x)
      else let (ps', x) = expire_loop space now lossDelay ps
                 ((if sp_in_flight p then w64 (lostBytes + sp_bytes p) else lostBytes), newlyLost + 1)
           in (p\<lparr>sp_terminal := True\<rparr> # ps', x))"

definition rc_on_loss_timer :: "nat \<Rightarrow> quic_space \<Rightarrow> quic_recovery \<Rightarrow> ntstatus \<times> quic_recovery" where
  "rc_on_loss_timer now space r =
     (let deadline = rc_loss_deadline space r
      in if deadline = 0 \<or> deadline > now then (STATUS_NOT_FOUND, r)
         else let (ps, lostBytes, newlyLost) = expire_loop space now (rc_loss_delay r) (rc_packets r) (0, 0)
              in if newlyLost = 0 then (STATUS_NOT_FOUND, r\<lparr>rc_packets := ps\<rparr>)
                 else let r1 = r\<lparr>rc_packets := ps, lostPacketCount := w64 (lostPacketCount r + newlyLost),
                        rc_congestion := (if lostBytes \<noteq> 0
                          then cc_on_packets_lost lostBytes now (rc_congestion r) else rc_congestion r)\<rparr>
                      in (STATUS_SUCCESS, rc_compact r1))"

section \<open>What the loops do\<close>

definition mark :: "(quic_sent_packet \<Rightarrow> bool) \<Rightarrow> quic_sent_packet \<Rightarrow> quic_sent_packet" where
  "mark P p = (if P p then p\<lparr>sp_terminal := True\<rparr> else p)"

definition in_flight_bytes :: "quic_sent_packet list \<Rightarrow> nat" where
  "in_flight_bytes ps = sum_list (map sp_bytes (filter sp_in_flight ps))"

lemma in_flight_bytes_simps [simp]:
  "in_flight_bytes [] = 0"
  "in_flight_bytes (p # ps) = (if sp_in_flight p then sp_bytes p else 0) + in_flight_bytes ps"
  "in_flight_bytes (ps @ qs) = in_flight_bytes ps + in_flight_bytes qs"
  by (auto simp: in_flight_bytes_def)

lemma in_flight_bytes_split:
  "in_flight_bytes (filter P ps) + in_flight_bytes (filter (\<lambda>p. \<not> P p) ps) = in_flight_bytes ps"
  by (induction ps) auto

lemma ack_loop_packets:
  "fst (ack_loop space ranges largest ps a) = map (mark (rc_acked space ranges)) ps"
  by (induction ps arbitrary: a) (simp_all add: mark_def Let_def split_def)

lemma ack_note_flight:
  "bytesInFlight (as_congestion (ack_note largest p a))
     = bytesInFlight (as_congestion a) - (if sp_in_flight p then sp_bytes p else 0)"
  by (simp add: ack_note_def Let_def cc.flight_acked)

lemma ack_loop_flight:
  "bytesInFlight (as_congestion (snd (ack_loop space ranges largest ps a)))
     = bytesInFlight (as_congestion a) - in_flight_bytes (filter (rc_acked space ranges) ps)"
  by (induction ps arbitrary: a) (simp_all add: Let_def split_def ack_note_flight)

lemma loss_loop_packets:
  "fst (loss_loop space largest threshold ps a) = map (mark (rc_lost space largest threshold)) ps"
  by (induction ps arbitrary: a) (simp_all add: mark_def Let_def split_def)

lemma loss_note_bytes:
  "ls_lost_bytes (loss_note p a)
     = (if sp_in_flight p then w64 (ls_lost_bytes a + sp_bytes p) else ls_lost_bytes a)"
  by (simp add: loss_note_def Let_def)

lemma loss_loop_bytes:
  assumes "ls_lost_bytes a + in_flight_bytes (filter (rc_lost space largest threshold) ps) \<le> u64_max"
  shows "ls_lost_bytes (snd (loss_loop space largest threshold ps a))
     = ls_lost_bytes a + in_flight_bytes (filter (rc_lost space largest threshold) ps)"
  using assms
proof (induction ps arbitrary: a)
  case Nil
  then show ?case by simp
next
  case (Cons p ps)
  have "w64 (ls_lost_bytes a + sp_bytes p) = ls_lost_bytes a + sp_bytes p"
    if "sp_in_flight p" "rc_lost space largest threshold p"
    using Cons.prems that by (intro w64_id) simp
  with Cons show ?case
    by (cases "rc_lost space largest threshold p"; cases "sp_in_flight p")
       (simp_all add: Let_def split_def loss_note_bytes)
qed

lemma expire_loop_eq:
  assumes "lb + in_flight_bytes (filter (rc_overdue space now d) ps) \<le> u64_max"
  shows "expire_loop space now d ps (lb, n) = (map (mark (rc_overdue space now d)) ps,
     lb + in_flight_bytes (filter (rc_overdue space now d) ps), n + length (filter (rc_overdue space now d) ps))"
  using assms
proof (induction ps arbitrary: lb n)
  case Nil
  then show ?case by simp
next
  case (Cons p ps)
  have "w64 (lb + sp_bytes p) = lb + sp_bytes p" if "sp_in_flight p" "rc_overdue space now d p"
    using Cons.prems that by (intro w64_id) simp
  with Cons show ?case by (auto simp: mark_def)
qed

section \<open>Invariant\<close>

definition rc_packet_ok :: "quic_recovery \<Rightarrow> quic_sent_packet \<Rightarrow> bool" where
  "rc_packet_ok r p \<longleftrightarrow> \<not> sp_terminal p \<and> 0 < sp_bytes p \<and> sp_bytes p \<le> MaximumDatagramSize
     \<and> sp_in_flight p = sp_eliciting p \<and> hasSent r (sp_space p)
     \<and> sp_number p \<le> largestSent r (sp_space p)"

definition rc_inv :: "quic_recovery \<Rightarrow> bool" where
  "rc_inv r \<longleftrightarrow> length (rc_packets r) \<le> rc_capacity r
     \<and> rc_capacity r \<le> WKNET_HARD_MAX_QUIC_SENT_PACKETS
     \<and> (\<forall>p \<in> set (rc_packets r). rc_packet_ok r p)
     \<and> sorted_wrt (\<lambda>p q. sp_space p = sp_space q \<longrightarrow> sp_number p < sp_number q) (rc_packets r)
     \<and> bytesInFlight (rc_congestion r) = in_flight_bytes (rc_packets r)"

lemma in_flight_bytes_bound:
  "\<forall>p \<in> set ps. sp_bytes p \<le> m \<Longrightarrow> in_flight_bytes ps \<le> m * length ps"
  by (induction ps) auto

lemma in_flight_bytes_filter_le: "in_flight_bytes (filter P ps) \<le> in_flight_bytes ps"
  by (induction ps) auto

lemma rc_inv_flight_bound:
  assumes "rc_inv r"
  shows "in_flight_bytes (rc_packets r) \<le> MaximumDatagramSize * WKNET_HARD_MAX_QUIC_SENT_PACKETS"
proof -
  have "in_flight_bytes (rc_packets r) \<le> MaximumDatagramSize * length (rc_packets r)"
    using assms by (intro in_flight_bytes_bound) (auto simp: rc_inv_def rc_packet_ok_def)
  also have "\<dots> \<le> MaximumDatagramSize * WKNET_HARD_MAX_QUIC_SENT_PACKETS"
    using assms by (intro mult_left_mono) (auto simp: rc_inv_def)
  finally show ?thesis .
qed

lemma rc_inv_flight_u64:
  assumes "rc_inv r"
  shows "in_flight_bytes (filter P (rc_packets r)) \<le> u64_max"
    and "in_flight_bytes (rc_packets r) + MaximumDatagramSize \<le> u64_max"
  using rc_inv_flight_bound [OF assms] in_flight_bytes_filter_le [of P "rc_packets r"]
  by (simp_all add: MaximumDatagramSize_def WKNET_HARD_MAX_QUIC_SENT_PACKETS_def u64_max_def)

lemma rc_inv_filter:
  assumes "rc_inv r" "rc_packets r' = filter P (rc_packets r)" "rc_capacity r' = rc_capacity r"
    "largestSent r' = largestSent r" "hasSent r' = hasSent r"
    "bytesInFlight (rc_congestion r') = in_flight_bytes (filter P (rc_packets r))"
  shows "rc_inv r'"
  using assms
  by (auto simp: rc_inv_def rc_packet_ok_def sorted_wrt_filter intro: order_trans [OF length_filter_le])

lemma rc_inv_initialize: "rc_initialize ok cap r = (STATUS_SUCCESS, r') \<Longrightarrow> rc_inv r'"
  by (auto simp: rc_initialize_def rc_inv_def recovery_new_def cc_reset_def split: if_splits)

lemma rc_inv_sent:
  assumes "rc_inv r" "rc_on_packet_sent now space pn bytes ack r = (st, r')"
  shows "rc_inv r'"
proof (cases "st = STATUS_SUCCESS")
  case False
  with assms show ?thesis by (auto simp: rc_on_packet_sent_def split: if_splits)
next
  case True
  with assms(2) have guards: "bytes \<noteq> 0" "bytes \<le> MaximumDatagramSize"
    "\<not> (hasSent r space \<and> pn \<le> largestSent r space)" "length (rc_packets r) < rc_capacity r"
    by (auto simp: rc_on_packet_sent_def split: if_splits)
  have r': "r' = r\<lparr>rc_packets := rc_packets r @ [\<lparr>sp_space = space, sp_number = pn, sp_sent_time = now,
                 sp_bytes = bytes, sp_eliciting = ack, sp_in_flight = ack, sp_terminal = False\<rparr>],
              largestSent := (largestSent r)(space := pn),
              hasSent := (hasSent r)(space := True),
              rc_congestion := cc_on_packet_sent bytes ack now (smoothedRtt r) (rc_congestion r)\<rparr>"
    using assms(2) True by (auto simp: rc_on_packet_sent_def split: if_splits)
  have flight: "bytesInFlight (rc_congestion r) = in_flight_bytes (rc_packets r)"
    using assms(1) by (simp add: rc_inv_def)
  have "bytesInFlight (cc_on_packet_sent bytes ack now (smoothedRtt r) (rc_congestion r))
      = in_flight_bytes (rc_packets r) + (if ack then bytes else 0)"
    using cc.flight_sent [of "rc_congestion r" bytes] rc_inv_flight_u64(2) [OF assms(1)] guards(2)
      flight by simp
  moreover have "sp_number p < pn" if "p \<in> set (rc_packets r)" "sp_space p = space" for p
    using that assms(1) guards(3) by (force simp: rc_inv_def rc_packet_ok_def)
  moreover have "rc_packet_ok r' p" if "p \<in> set (rc_packets r)" for p
  proof -
    have "rc_packet_ok r p" using assms(1) that by (simp add: rc_inv_def)
    with guards(3) show ?thesis by (auto simp: rc_packet_ok_def r')
  qed
  ultimately show ?thesis
    using assms(1) guards by (auto simp: rc_inv_def r' sorted_wrt_append rc_packet_ok_def)
qed

section \<open>What an acknowledgement removes\<close>

definition rc_loss_threshold :: "nat \<Rightarrow> quic_recovery \<Rightarrow> nat" where
  "rc_loss_threshold now r = (if now > rc_loss_delay r then now - rc_loss_delay r else 0)"

definition rc_survives ::
    "nat \<Rightarrow> quic_space \<Rightarrow> quic_ack_range list \<Rightarrow> quic_recovery \<Rightarrow> quic_sent_packet \<Rightarrow> bool" where
  "rc_survives now space ranges r p \<longleftrightarrow>
     \<not> rc_acked space ranges p \<and> \<not> rc_lost space (Largest (hd ranges)) (rc_loss_threshold now r) p"

lemma compact_marks:
  assumes "\<forall>p \<in> set ps. \<not> sp_terminal p"
  shows "filter (\<lambda>p. \<not> sp_terminal p)
      (map (mark (rc_lost space largest thr)) (map (mark (rc_acked space ranges)) ps))
    = filter (\<lambda>p. \<not> rc_acked space ranges p \<and> \<not> rc_lost space largest thr p) ps"
  using assms by (induction ps) (auto simp: mark_def rc_lost_def)

lemma lost_after_acked:
  "in_flight_bytes (filter (rc_lost space largest thr) (map (mark (rc_acked space ranges)) ps))
    = in_flight_bytes (filter (\<lambda>p. \<not> rc_acked space ranges p \<and> rc_lost space largest thr p) ps)"
  by (induction ps) (auto simp: mark_def rc_lost_def)

lemma in_flight_three_way:
  "in_flight_bytes (filter A ps) + in_flight_bytes (filter (\<lambda>p. \<not> A p \<and> L p) ps)
     + in_flight_bytes (filter (\<lambda>p. \<not> A p \<and> \<not> L p) ps) = in_flight_bytes ps"
  by (induction ps) auto

lemma loss_response_flight:
  "bytesInFlight (rc_loss_response space now r l c) = bytesInFlight c - ls_lost_bytes l"
  by (simp add: rc_loss_response_def Let_def cc.flight_lost cc.flight_persistent)

lemma update_rtt_frame [simp]:
  "rc_packets (rc_update_rtt space now t d r) = rc_packets r"
  "rc_capacity (rc_update_rtt space now t d r) = rc_capacity r"
  "largestSent (rc_update_rtt space now t d r) = largestSent r"
  "hasSent (rc_update_rtt space now t d r) = hasSent r"
  "rc_congestion (rc_update_rtt space now t d r) = rc_congestion r"
  by (simp_all add: rc_update_rtt_def Let_def)

lemma rc_on_ack_ranges_success:
  assumes inv: "rc_inv r" and run: "rc_on_ack_ranges now space ranges d r = (STATUS_SUCCESS, r')"
  shows "rc_packets r' = filter (rc_survives now space ranges r) (rc_packets r)
    \<and> rc_capacity r' = rc_capacity r \<and> largestSent r' = largestSent r \<and> hasSent r' = hasSent r
    \<and> bytesInFlight (rc_congestion r') = in_flight_bytes (filter (rc_survives now space ranges r) (rc_packets r))"
proof -
  define ps where "ps = rc_packets r"
  define L where "L = Largest (hd ranges)"
  define a where "a = snd (ack_loop space ranges L ps
      \<lparr>as_largest_sent_time = None, as_congestion = rc_congestion r, as_newly_eliciting = False\<rparr>)"
  define ps1 where "ps1 = map (mark (rc_acked space ranges)) ps"
  define r1 where "r1 = (if \<not> hasAcknowledged r space \<or> L > largestAcknowledged r space
      then r\<lparr>largestAcknowledged := (largestAcknowledged r)(space := L),
             hasAcknowledged := (hasAcknowledged r)(space := True)\<rparr> else r)"
  define thr where "thr = rc_loss_threshold now r1"
  define l where "l = snd (loss_loop space L thr ps1
      \<lparr>ls_lost_bytes = 0, ls_earliest = 0, ls_latest = 0, ls_newly_lost = 0,
       ls_lost_count = lostPacketCount r1\<rparr>)"
  define r2 where "r2 = r1\<lparr>rc_packets := map (mark (rc_lost space L thr)) ps1,
      lostPacketCount := ls_lost_count l, rc_congestion := rc_loss_response space now r1 l (as_congestion a)\<rparr>"
  define r3 where "r3 = (case as_largest_sent_time a of None \<Rightarrow> r2
      | Some t \<Rightarrow> rc_update_rtt space now t d r2)"
  have r1: "rc_capacity r1 = rc_capacity r" "largestSent r1 = largestSent r" "hasSent r1 = hasSent r"
    "rc_loss_delay r1 = rc_loss_delay r"
    by (simp_all add: r1_def rc_loss_delay_def)
  then have thr: "rc_loss_threshold now r = thr"
    by (simp add: thr_def rc_loss_threshold_def)
  have r': "r' = rc_compact (if as_newly_eliciting a then r3\<lparr>ptoCount := 0\<rparr> else r3)"
    using run unfolding rc_on_ack_ranges_def Let_def split_def L_def [symmetric] ps_def [symmetric]
      a_def [symmetric] r1_def [symmetric] ack_loop_packets loss_loop_packets
      rc_loss_threshold_def [symmetric] thr_def [symmetric] ps1_def [symmetric] l_def [symmetric]
      r2_def [symmetric] r3_def [symmetric]
    by (simp split: if_splits)
  have surv: "rc_survives now space ranges r = (\<lambda>p. \<not> rc_acked space ranges p \<and> \<not> rc_lost space L thr p)"
    by (simp add: rc_survives_def L_def thr fun_eq_iff)
  have r3: "rc_packets r3 = map (mark (rc_lost space L thr)) ps1" "rc_capacity r3 = rc_capacity r"
    "largestSent r3 = largestSent r" "hasSent r3 = hasSent r"
    "rc_congestion r3 = rc_loss_response space now r1 l (as_congestion a)"
    by (simp_all add: r3_def r2_def r1 split: option.split)
  have pk: "rc_packets r' = filter (rc_survives now space ranges r) ps"
    unfolding surv using compact_marks [of ps space L thr ranges] inv
    by (simp add: r' rc_compact_def r3 ps1_def ps_def rc_inv_def rc_packet_ok_def)
  have lostb: "ls_lost_bytes l = in_flight_bytes (filter (\<lambda>p. \<not> rc_acked space ranges p \<and> rc_lost space L thr p) ps)"
    unfolding l_def
    by (subst loss_loop_bytes)
       (use rc_inv_flight_u64(1) [OF inv] in \<open>simp_all add: ps1_def lost_after_acked ps_def\<close>)
  have "bytesInFlight (rc_congestion r') = bytesInFlight (as_congestion a) - ls_lost_bytes l"
    by (simp add: r' rc_compact_def r3 loss_response_flight)
  also have "\<dots> = in_flight_bytes ps - in_flight_bytes (filter (rc_acked space ranges) ps)
      - in_flight_bytes (filter (\<lambda>p. \<not> rc_acked space ranges p \<and> rc_lost space L thr p) ps)"
    using inv by (simp add: lostb a_def ack_loop_flight rc_inv_def ps_def)
  also have "\<dots> = in_flight_bytes (filter (rc_survives now space ranges r) ps)"
    unfolding surv using in_flight_three_way [of "rc_acked space ranges" ps "rc_lost space L thr"] by simp
  finally show ?thesis
    using pk by (simp add: r' rc_compact_def r3 ps_def)
qed

lemma rc_on_ack_ranges_error:
  "rc_on_ack_ranges now space ranges d r = (st, r') \<Longrightarrow> st \<noteq> STATUS_SUCCESS \<Longrightarrow> r' = r"
  by (auto simp: rc_on_ack_ranges_def Let_def split: if_splits prod.splits)

lemma rc_inv_ack:
  assumes "rc_inv r" "rc_on_ack_ranges now space ranges d r = (st, r')"
  shows "rc_inv r'"
proof (cases "st = STATUS_SUCCESS")
  case True
  with rc_on_ack_ranges_success [OF assms(1)] assms(2) show ?thesis
    by (auto intro!: rc_inv_filter [OF assms(1)])
next
  case False
  with rc_on_ack_ranges_error [OF assms(2)] assms(1) show ?thesis by simp
qed

section \<open>The loss timer\<close>

lemma compact_overdue:
  assumes "\<forall>p \<in> set ps. \<not> sp_terminal p"
  shows "filter (\<lambda>p. \<not> sp_terminal p) (map (mark (rc_overdue space now d)) ps)
    = filter (\<lambda>p. \<not> rc_overdue space now d p) ps"
  using assms by (induction ps) (auto simp: mark_def)

lemma filter_flight_rest:
  "in_flight_bytes ps - in_flight_bytes (filter P ps) = in_flight_bytes (filter (\<lambda>p. \<not> P p) ps)"
  using in_flight_bytes_split [of P ps] by simp

lemma rc_on_loss_timer_success:
  assumes inv: "rc_inv r" and run: "rc_on_loss_timer now space r = (STATUS_SUCCESS, r')"
  defines "late \<equiv> rc_overdue space now (rc_loss_delay r)"
  shows "rc_packets r' = filter (\<lambda>p. \<not> late p) (rc_packets r) \<and> rc_capacity r' = rc_capacity r
    \<and> largestSent r' = largestSent r \<and> hasSent r' = hasSent r
    \<and> largestAcknowledged r' = largestAcknowledged r \<and> hasAcknowledged r' = hasAcknowledged r
    \<and> rc_loss_delay r' = rc_loss_delay r
    \<and> bytesInFlight (rc_congestion r') = in_flight_bytes (filter (\<lambda>p. \<not> late p) (rc_packets r))"
proof -
  have e: "expire_loop space now (rc_loss_delay r) (rc_packets r) (0, 0)
      = (map (mark late) (rc_packets r), in_flight_bytes (filter late (rc_packets r)),
         length (filter late (rc_packets r)))"
    using expire_loop_eq [of 0 space now "rc_loss_delay r" "rc_packets r" 0] rc_inv_flight_u64(1) [OF inv]
    by (simp add: late_def)
  have nt: "\<forall>p \<in> set (rc_packets r). \<not> sp_terminal p"
    using inv by (simp add: rc_inv_def rc_packet_ok_def)
  have "r' = rc_compact (r\<lparr>rc_packets := map (mark late) (rc_packets r),
      lostPacketCount := w64 (lostPacketCount r + length (filter late (rc_packets r))),
      rc_congestion := (if in_flight_bytes (filter late (rc_packets r)) \<noteq> 0
        then cc_on_packets_lost (in_flight_bytes (filter late (rc_packets r))) now (rc_congestion r)
        else rc_congestion r)\<rparr>)"
    using run unfolding rc_on_loss_timer_def Let_def e by (simp split: if_splits)
  then have r': "r' = rc_compact (r\<lparr>rc_packets := map (mark late) (rc_packets r),
      lostPacketCount := w64 (lostPacketCount r + length (filter late (rc_packets r))),
      rc_congestion := (if in_flight_bytes (filter late (rc_packets r)) \<noteq> 0
        then cc_on_packets_lost (in_flight_bytes (filter late (rc_packets r))) now (rc_congestion r)
        else rc_congestion r)\<rparr>)" .
  have "rc_loss_delay r' = rc_loss_delay r"
    unfolding r' by (simp add: rc_compact_def rc_loss_delay_def)
  moreover have "rc_packets r' = filter (\<lambda>p. \<not> late p) (rc_packets r)"
    unfolding r' using compact_overdue [OF nt, of space now "rc_loss_delay r", folded late_def]
    by (simp add: rc_compact_def)
  moreover have "bytesInFlight (rc_congestion r') = in_flight_bytes (filter (\<lambda>p. \<not> late p) (rc_packets r))"
    unfolding r' filter_flight_rest [symmetric] using inv
    by (simp add: rc_compact_def cc.flight_lost rc_inv_def)
  ultimately show ?thesis by (simp add: r' rc_compact_def)
qed

lemma rc_on_loss_timer_error:
  assumes inv: "rc_inv r" and run: "rc_on_loss_timer now space r = (st, r')" and "st \<noteq> STATUS_SUCCESS"
  shows "r' = r"
proof -
  define late where "late = rc_overdue space now (rc_loss_delay r)"
  have e: "expire_loop space now (rc_loss_delay r) (rc_packets r) (0, 0)
      = (map (mark late) (rc_packets r), in_flight_bytes (filter late (rc_packets r)),
         length (filter late (rc_packets r)))"
    using expire_loop_eq [of 0 space now "rc_loss_delay r" "rc_packets r" 0] rc_inv_flight_u64(1) [OF inv]
    by (simp add: late_def)
  have "map (mark late) ps = ps" if "filter late ps = []" for ps
    using that by (induction ps) (auto simp: mark_def split: if_splits)
  with run assms(3) show ?thesis
    unfolding rc_on_loss_timer_def Let_def e by (auto split: if_splits)
qed

lemma rc_inv_loss_timer:
  assumes "rc_inv r" "rc_on_loss_timer now space r = (st, r')"
  shows "rc_inv r'"
proof (cases "st = STATUS_SUCCESS")
  case True
  with rc_on_loss_timer_success [OF assms(1)] assms(2) show ?thesis
    by (auto intro!: rc_inv_filter [OF assms(1)])
next
  case False
  with rc_on_loss_timer_error [OF assms] assms(1) show ?thesis by simp
qed

lemma rc_inv_pto: "rc_inv r \<Longrightarrow> rc_inv (rc_on_pto_fired r)"
  by (auto simp: rc_inv_def rc_on_pto_fired_def rc_packet_ok_def)

section \<open>Reachable states\<close>

inductive rc_reachable :: "quic_recovery \<Rightarrow> bool" where
  rc_start: "rc_initialize True cap r = (STATUS_SUCCESS, r') \<Longrightarrow> rc_reachable r'"
| rc_send: "rc_reachable r \<Longrightarrow> rc_on_packet_sent now space pn bytes ack r = (st, r') \<Longrightarrow> rc_reachable r'"
| rc_ack: "rc_reachable r \<Longrightarrow> rc_on_ack_ranges now space ranges d r = (st, r') \<Longrightarrow> rc_reachable r'"
| rc_timer: "rc_reachable r \<Longrightarrow> rc_on_loss_timer now space r = (st, r') \<Longrightarrow> rc_reachable r'"
| rc_pto: "rc_reachable r \<Longrightarrow> rc_reachable (rc_on_pto_fired r)"

lemma rc_reachable_inv: "rc_reachable r \<Longrightarrow> rc_inv r"
  by (induction rule: rc_reachable.induct)
     (auto intro: rc_inv_initialize rc_inv_sent rc_inv_ack rc_inv_loss_timer rc_inv_pto)

text \<open>
  C21. In every reachable state of loss recovery the bytes the congestion controller counts as in
  flight are exactly the bytes of the ack-eliciting packets still outstanding, and they stay below
  the table size times the datagram size, so the counter never wraps.
\<close>

theorem bytes_in_flight_accounting:
  assumes "rc_reachable r"
  shows "bytesInFlight (rc_congestion r) = in_flight_bytes (rc_packets r)
    \<and> bytesInFlight (rc_congestion r) \<le> MaximumDatagramSize * WKNET_HARD_MAX_QUIC_SENT_PACKETS"
  using rc_reachable_inv [OF assms] rc_inv_flight_bound [OF rc_reachable_inv [OF assms]]
  by (simp add: rc_inv_def)

lemma rc_start_state:
  "rc_reachable (recovery_new\<lparr>rc_capacity := 16\<rparr>)"
  by (rule rc_start [of 16 recovery_new])
     (simp add: rc_initialize_def WKNET_HARD_MAX_QUIC_SENT_PACKETS_def)

theorem bytes_in_flight_accounting_witness:
  "bytesInFlight (rc_congestion (snd (rc_on_packet_sent 5 SpInitial 0 1200 True
      (recovery_new\<lparr>rc_capacity := 16\<rparr>)))) = 1200"
proof -
  let ?r = "snd (rc_on_packet_sent 5 SpInitial 0 1200 True (recovery_new\<lparr>rc_capacity := 16\<rparr>))"
  have "rc_reachable ?r"
    using rc_send [OF rc_start_state, of 5 SpInitial 0 1200 True "fst (rc_on_packet_sent 5 SpInitial 0
        1200 True (recovery_new\<lparr>rc_capacity := 16\<rparr>))" ?r] by simp
  from bytes_in_flight_accounting [OF this] show ?thesis
    by (simp add: rc_on_packet_sent_def recovery_new_def QuicVarIntMaximum_def MaximumDatagramSize_def)
qed

lemma acknowledgement_effect:
  assumes "rc_reachable r" "rc_on_ack_ranges now space ranges d r = (st, r')"
  shows "(if st = STATUS_SUCCESS
      then rc_packets r' = filter (rc_survives now space ranges r) (rc_packets r)
        \<and> (\<forall>p \<in> set (rc_packets r). sp_space p \<noteq> space \<or> Largest (hd ranges) < sp_number p \<and>
              \<not> ack_covers ranges (sp_number p) \<longrightarrow> p \<in> set (rc_packets r'))
      else r' = r)
    \<and> (ranges = [] \<or> \<not> ranges_descending ranges \<or> \<not> hasSent r space
        \<or> largestSent r space < Largest (hd ranges) \<longrightarrow> st \<noteq> STATUS_SUCCESS)"
proof -
  have inv: "rc_inv r" using assms(1) by (rule rc_reachable_inv)
  have refused: "st \<noteq> STATUS_SUCCESS" if "ranges = [] \<or> \<not> ranges_descending ranges
      \<or> \<not> hasSent r space \<or> largestSent r space < Largest (hd ranges)"
    using assms(2) that by (auto simp: rc_on_ack_ranges_def Let_def split: if_splits)
  have stays: "rc_survives now space ranges r p"
    if "sp_space p \<noteq> space \<or> Largest (hd ranges) < sp_number p \<and> \<not> ack_covers ranges (sp_number p)" for p
    using that by (auto simp: rc_survives_def rc_acked_def rc_lost_def)
  show ?thesis
  proof (cases "st = STATUS_SUCCESS")
    case True
    with rc_on_ack_ranges_success [OF inv] assms(2)
    have "rc_packets r' = filter (rc_survives now space ranges r) (rc_packets r)" by blast
    with True refused stays show ?thesis by auto
  next
    case False
    with rc_on_ack_ranges_error [OF assms(2)] refused show ?thesis by auto
  qed
qed

text \<open>
  C20. An accepted acknowledgement removes exactly the packets of its own space that a range covers
  or that are older than the largest acknowledged number by three or by the loss delay; everything
  else stays, in order, in particular every packet of another space and every packet newer than the
  acknowledgement. A refused one (no range, malformed ranges, a number never sent) changes nothing.
\<close>

theorem acknowledgement_removes:
  assumes "rc_reachable r" "rc_on_ack_ranges now space ranges d r = (st, r')"
  shows "(if st = STATUS_SUCCESS
      then rc_packets r' = filter (rc_survives now space ranges r) (rc_packets r)
        \<and> (\<forall>p \<in> set (rc_packets r). sp_space p \<noteq> space \<or> Largest (hd ranges) < sp_number p \<and>
              \<not> ack_covers ranges (sp_number p) \<longrightarrow> p \<in> set (rc_packets r'))
      else r' = r)
    \<and> (ranges = [] \<or> \<not> ranges_descending ranges \<or> \<not> hasSent r space
        \<or> largestSent r space < Largest (hd ranges) \<longrightarrow> st \<noteq> STATUS_SUCCESS)"
  by (rule acknowledgement_effect [OF assms])

theorem acknowledgement_removes_witness:
  "fst (rc_on_ack_ranges 9 SpInitial [\<lparr>Smallest = 4, Largest = 4\<rparr>] 0
      (recovery_new\<lparr>rc_capacity := 16\<rparr>)) \<noteq> STATUS_SUCCESS"
proof -
  let ?run = "rc_on_ack_ranges 9 SpInitial [\<lparr>Smallest = 4, Largest = 4\<rparr>] 0 (recovery_new\<lparr>rc_capacity := 16\<rparr>)"
  have "?run = (fst ?run, snd ?run)" by simp
  from acknowledgement_removes [OF rc_start_state this] show ?thesis
    by (simp add: recovery_new_def)
qed

section \<open>Timer progress\<close>

lemma loss_deadline_step_late:
  assumes "\<forall>p \<in> set ps. sp_space p = space \<and> \<not> sp_terminal p \<longrightarrow> now < sat_add64 (sp_sent_time p) d"
    and "dl = 0 \<or> now < dl"
  shows "fold (rc_loss_deadline_step space la d) ps dl = 0
    \<or> now < fold (rc_loss_deadline_step space la d) ps dl"
  using assms
proof (induction ps arbitrary: dl)
  case Nil
  then show ?case by simp
next
  case (Cons p ps)
  then have "rc_loss_deadline_step space la d p dl = 0 \<or> now < rc_loss_deadline_step space la d p dl"
    by (auto simp: rc_loss_deadline_step_def Let_def)
  with Cons show ?case by simp
qed

lemma loss_deadline_step_due:
  assumes "fold (rc_loss_deadline_step space la d) ps dl \<noteq> 0"
    and "fold (rc_loss_deadline_step space la d) ps dl \<le> now" and "dl = 0 \<or> now < dl"
  shows "\<exists>p \<in> set ps. sp_space p = space \<and> \<not> sp_terminal p \<and> sat_add64 (sp_sent_time p) d \<le> now"
proof (rule ccontr)
  assume "\<not> ?thesis"
  then have "\<forall>p \<in> set ps. sp_space p = space \<and> \<not> sp_terminal p \<longrightarrow> now < sat_add64 (sp_sent_time p) d"
    by (auto simp: not_le)
  from loss_deadline_step_late [OF this assms(3), of la] assms(1,2) show False by linarith
qed

lemma rc_loss_delay_le: "rc_loss_delay r \<le> u64_max"
proof -
  have "w64 n div 8 \<le> u64_max" for n
    using div_le_dividend w64_le by (rule order_trans)
  then show ?thesis by (simp add: rc_loss_delay_def Let_def) (simp add: u64_max_def)
qed

lemma overdue_iff:
  assumes "now < u64_max"
  shows "rc_overdue space now (rc_loss_delay r) p \<longleftrightarrow>
    sp_space p = space \<and> \<not> sp_terminal p \<and> sat_add64 (sp_sent_time p) (rc_loss_delay r) \<le> now"
proof -
  have "10000 \<le> rc_loss_delay r" by (simp add: rc_loss_delay_def Let_def)
  with assms show ?thesis
    by (auto simp: rc_overdue_def sat_add64_eq_min [OF rc_loss_delay_le])
qed

text \<open>
  C28. A loss deadline that has passed is honoured: the timer handler succeeds, removes at least
  one packet, and the next deadline of the space is either absent or strictly in the future, so
  the event loop never spins on an expired loss timer.
\<close>

theorem loss_timer_progress:
  assumes "rc_reachable r" "rc_loss_deadline space r \<noteq> 0" "rc_loss_deadline space r \<le> now"
    and "now < u64_max"
  shows "\<exists>r'. rc_on_loss_timer now space r = (STATUS_SUCCESS, r')
    \<and> length (rc_packets r') < length (rc_packets r)
    \<and> (rc_loss_deadline space r' = 0 \<or> now < rc_loss_deadline space r')"
proof -
  define late where "late = rc_overdue space now (rc_loss_delay r)"
  have inv: "rc_inv r" using assms(1) by (rule rc_reachable_inv)
  from assms(2,3) loss_deadline_step_due [of space "largestAcknowledged r space" "rc_loss_delay r"
      "rc_packets r" 0 now]
  obtain p where p: "p \<in> set (rc_packets r)" "late p"
    unfolding rc_loss_deadline_def late_def overdue_iff [OF assms(4)] by (auto split: if_splits)
  have e: "expire_loop space now (rc_loss_delay r) (rc_packets r) (0, 0)
      = (map (mark late) (rc_packets r), in_flight_bytes (filter late (rc_packets r)),
         length (filter late (rc_packets r)))"
    using expire_loop_eq [of 0 space now "rc_loss_delay r" "rc_packets r" 0] rc_inv_flight_u64(1) [OF inv]
    by (simp add: late_def)
  have ne: "filter late (rc_packets r) \<noteq> []" using p by (auto simp: filter_empty_conv)
  then obtain r' where run: "rc_on_loss_timer now space r = (STATUS_SUCCESS, r')"
    using assms(2,3) by (simp add: rc_on_loss_timer_def Let_def e)
  note s = rc_on_loss_timer_success [OF inv run, folded late_def]
  have "length (rc_packets r') < length (rc_packets r)"
    using s p length_filter_less [of p "rc_packets r" "\<lambda>p. \<not> late p"] by simp
  moreover have "rc_loss_deadline space r' = 0 \<or> now < rc_loss_deadline space r'"
    using s loss_deadline_step_late [of "rc_packets r'" space now "rc_loss_delay r" 0]
    unfolding rc_loss_deadline_def
    by (auto simp: late_def overdue_iff [OF assms(4)] not_le)
  ultimately show ?thesis using run by blast
qed

text \<open>
  A concrete run: three application packets, the middle one acknowledged. The older packet has a
  loss deadline; when it passes, the handler also removes the packet that is newer than the
  acknowledgement and was sent at the same time as the acknowledged one.
\<close>

definition loss_sent :: quic_recovery where
  "loss_sent =
     (let r0 = recovery_new\<lparr>rc_capacity := 16\<rparr>;
          r1 = snd (rc_on_packet_sent 1000000 SpApplication 0 1200 True r0);
          r2 = snd (rc_on_packet_sent 2000000 SpApplication 1 1200 True r1)
      in snd (rc_on_packet_sent 2000000 SpApplication 2 1200 True r2))"

definition loss_run :: quic_recovery where
  "loss_run = snd (rc_on_ack_ranges 2100000 SpApplication [\<lparr>Smallest = 1, Largest = 1\<rparr>] 0 loss_sent)"

lemma rc_send_snd: "rc_reachable r \<Longrightarrow> rc_reachable (snd (rc_on_packet_sent now space pn bytes ack r))"
  by (rule rc_send [OF _ surjective_pairing])

lemma rc_ack_snd: "rc_reachable r \<Longrightarrow> rc_reachable (snd (rc_on_ack_ranges now space ranges d r))"
  by (rule rc_ack [OF _ surjective_pairing])

lemma loss_run_reachable: "rc_reachable loss_run"
  unfolding loss_run_def loss_sent_def Let_def by (intro rc_ack_snd rc_send_snd rc_start_state)

definition loss_packet :: "nat \<Rightarrow> nat \<Rightarrow> quic_sent_packet" where
  "loss_packet pn t = \<lparr>sp_space = SpApplication, sp_number = pn, sp_sent_time = t, sp_bytes = 1200,
     sp_eliciting = True, sp_in_flight = True, sp_terminal = False\<rparr>"

lemma loss_packet_sel [simp]:
  "sp_space (loss_packet pn t) = SpApplication" "sp_number (loss_packet pn t) = pn"
  "sp_sent_time (loss_packet pn t) = t" "sp_bytes (loss_packet pn t) = 1200"
  "sp_eliciting (loss_packet pn t)" "sp_in_flight (loss_packet pn t)" "\<not> sp_terminal (loss_packet pn t)"
  by (simp_all add: loss_packet_def)

lemma loss_send:
  assumes "rc_capacity r = 16" "length (rc_packets r) < 16" "pn \<le> 9"
    "\<not> hasSent r SpApplication \<or> largestSent r SpApplication < pn"
  shows "snd (rc_on_packet_sent t SpApplication pn 1200 True r) = r\<lparr>rc_packets := rc_packets r @ [loss_packet pn t],
      largestSent := (largestSent r)(SpApplication := pn), hasSent := (hasSent r)(SpApplication := True),
      rc_congestion := cc_on_packet_sent 1200 True t (smoothedRtt r) (rc_congestion r)\<rparr>"
proof -
  have "\<not> (hasSent r SpApplication \<and> pn \<le> largestSent r SpApplication)" "pn \<le> QuicVarIntMaximum"
    using assms by (auto simp: QuicVarIntMaximum_def)
  with assms(1,2) show ?thesis
    by (cases "hasSent r SpApplication")
       (simp_all add: rc_on_packet_sent_def loss_packet_def MaximumDatagramSize_def)
qed

lemma loss_sent_state:
  "rc_packets loss_sent = [loss_packet 0 1000000, loss_packet 1 2000000, loss_packet 2 2000000]"
  "rc_capacity loss_sent = 16" "hasSent loss_sent SpApplication" "largestSent loss_sent SpApplication = 2"
  "\<not> hasAcknowledged loss_sent SpApplication" "minimumRtt loss_sent = 0" "smoothedRtt loss_sent = 0"
  "latestRtt loss_sent = 0"
  unfolding loss_sent_def Let_def One_nat_def [symmetric] by (simp_all add: loss_send recovery_new_def)

lemma loss_run_scan:
  "ack_loop SpApplication [\<lparr>Smallest = 1, Largest = 1\<rparr>] 1 (rc_packets loss_sent) a =
     ([loss_packet 0 1000000, (loss_packet 1 2000000)\<lparr>sp_terminal := True\<rparr>, loss_packet 2 2000000],
      ack_note 1 (loss_packet 1 2000000) a)"
  by (simp add: loss_sent_state rc_acked_def ack_covers_def del: One_nat_def)

lemma loss_run_none_lost:
  "loss_loop SpApplication 1 0 [loss_packet 0 1000000, (loss_packet 1 2000000)\<lparr>sp_terminal := True\<rparr>,
      loss_packet 2 2000000] a = ([loss_packet 0 1000000, (loss_packet 1 2000000)\<lparr>sp_terminal := True\<rparr>,
      loss_packet 2 2000000], a)"
  by (simp add: rc_lost_def)

lemma loss_run_state:
  "rc_packets loss_run = [loss_packet 0 1000000, loss_packet 2 2000000]"
  "hasAcknowledged loss_run SpApplication" "largestAcknowledged loss_run SpApplication = 1"
  "latestRtt loss_run = 100000" "smoothedRtt loss_run = 100000"
proof -
  have delay: "rc_loss_delay (loss_sent\<lparr>largestAcknowledged := f, hasAcknowledged := g\<rparr>) = 3746250" for f g
    by (simp add: rc_loss_delay_def loss_sent_state w64_def)
  have guards: "\<not> (\<not> hasSent loss_sent SpApplication \<or> 1 > largestSent loss_sent SpApplication)"
    "ranges_descending [\<lparr>Smallest = 1, Largest = 1\<rparr>]"
    by (simp_all add: loss_sent_state QuicVarIntMaximum_def)
  have g: "(rc_capacity loss_sent = 0) = False" "([\<lparr>Smallest = 1, Largest = 1\<rparr>] = []) = False"
    "(length [\<lparr>Smallest = 1, Largest = 1\<rparr>] > WKNET_HARD_MAX_QUIC_ACK_RANGES) = False"
    "hasSent loss_sent SpApplication = True" "(1 > largestSent loss_sent SpApplication) = False"
    "hasAcknowledged loss_sent SpApplication = False" "((2100000::nat) > 3746250) = False"
    by (simp_all add: loss_sent_state WKNET_HARD_MAX_QUIC_ACK_RANGES_def)
  have noted: "ack_note 1 (loss_packet 1 2000000)
       \<lparr>as_largest_sent_time = None, as_congestion = c, as_newly_eliciting = False\<rparr>
     = \<lparr>as_largest_sent_time = Some 2000000, as_congestion = cc_on_packet_acked 1200 2000000 c,
        as_newly_eliciting = True\<rparr>" for c
    by (simp add: ack_note_def)
  define ps where "ps = [loss_packet 0 1000000, (loss_packet 1 2000000)\<lparr>sp_terminal := True\<rparr>,
    loss_packet 2 2000000]"
  define q where "q c m = loss_sent\<lparr>largestAcknowledged := (largestAcknowledged loss_sent)(SpApplication := 1),
    hasAcknowledged := (hasAcknowledged loss_sent)(SpApplication := True), rc_packets := ps,
    lostPacketCount := m, rc_congestion := c\<rparr>" for c m
  have run: "loss_run = rc_compact ((rc_update_rtt SpApplication 2100000 2000000 0
      (q (cc_on_packet_acked 1200 2000000 (rc_congestion loss_sent))
         (lostPacketCount loss_sent)))\<lparr>ptoCount := 0\<rparr>)"
    unfolding loss_run_def rc_on_ack_ranges_def q_def ps_def
    by (simp only: Let_def g guards if_False if_True simp_thms list.sel quic_ack_range.select_convs
        prod.case loss_run_scan noted delay loss_run_none_lost loss_scan_state.select_convs
        ack_scan_state.select_convs option.case snd_conv) (simp add: rc_loss_response_def)
  have q: "rc_packets (q c m) = ps" "smoothedRtt (q c m) = 0" "minimumRtt (q c m) = 0"
    "hasAcknowledged (q c m) SpApplication" "largestAcknowledged (q c m) SpApplication = 1"
    for c m
    by (simp_all add: q_def loss_sent_state)
  show "rc_packets loss_run = [loss_packet 0 1000000, loss_packet 2 2000000]"
    "hasAcknowledged loss_run SpApplication" "largestAcknowledged loss_run SpApplication = 1"
    "latestRtt loss_run = 100000" "smoothedRtt loss_run = 100000"
    unfolding run by (simp_all add: q rc_compact_def rc_update_rtt_def ps_def sub64_def w64_def Let_def)
qed

lemma loss_run_delay: "rc_loss_delay loss_run = 112500"
  by (simp add: rc_loss_delay_def loss_run_state w64_def)

lemma loss_run_deadline: "rc_loss_deadline SpApplication loss_run = 1112500"
  by (simp add: rc_loss_deadline_def loss_run_state loss_run_delay rc_loss_deadline_step_def
      sat_add64_def u64_max_def)

theorem loss_timer_progress_witness:
  "\<exists>r'. rc_on_loss_timer 2112500 SpApplication loss_run = (STATUS_SUCCESS, r')
    \<and> length (rc_packets r') < length (rc_packets loss_run)
    \<and> (rc_loss_deadline SpApplication r' = 0 \<or> 2112500 < rc_loss_deadline SpApplication r')"
  using loss_timer_progress [OF loss_run_reachable, of SpApplication 2112500]
  by (simp add: loss_run_deadline u64_max_def)

text \<open>
  The loss timer's scan has no \<open>PacketNumber < largestAcknowledged\<close> test (the acknowledgement
  path and the deadline computation both have it): packet 2 was sent after the largest
  acknowledged packet 1 and is declared lost all the same.
\<close>

lemma loss_timer_takes_newer_packets:
  "\<exists>p \<in> set (rc_packets loss_run). largestAcknowledged loss_run SpApplication < sp_number p
     \<and> rc_packets (snd (rc_on_loss_timer 2112500 SpApplication loss_run)) = []"
  by (simp add: rc_on_loss_timer_def loss_run_deadline loss_run_delay loss_run_state
      rc_overdue_def rc_compact_def Let_def)

section \<open>The probe timeout\<close>

definition eliciting_times :: "quic_space \<Rightarrow> quic_recovery \<Rightarrow> nat list" where
  "eliciting_times space r =
     map sp_sent_time (filter (\<lambda>p. sp_space p = space \<and> \<not> sp_terminal p \<and> sp_eliciting p) (rc_packets r))"

lemma rc_last_eliciting_max: "rc_last_eliciting space r = fold max (eliciting_times space r) 0"
proof -
  have "fold (\<lambda>p last. if sp_space p = space \<and> \<not> sp_terminal p \<and> sp_eliciting p \<and> sp_sent_time p > last
      then sp_sent_time p else last) ps a
    = fold max (map sp_sent_time (filter (\<lambda>p. sp_space p = space \<and> \<not> sp_terminal p \<and> sp_eliciting p) ps)) a"
    for ps a by (induction ps arbitrary: a) (auto simp: max_def)
  then show ?thesis by (simp add: rc_last_eliciting_def eliciting_times_def)
qed

lemma fold_max_le: "\<forall>t \<in> set ts. t \<le> (b::nat) \<Longrightarrow> fold max ts 0 \<le> b"
proof -
  have "\<forall>t \<in> set ts. t \<le> b \<Longrightarrow> a \<le> b \<Longrightarrow> fold max ts a \<le> b" for a
    by (induction ts arbitrary: a) auto
  then show "\<forall>t \<in> set ts. t \<le> b \<Longrightarrow> fold max ts 0 \<le> b" by blast
qed

lemma shift_overflow_iff: "drop_bit k u64_max < d \<longleftrightarrow> u64_max < d * 2 ^ k"
proof -
  have "u64_max div 2 ^ k < d \<longleftrightarrow> u64_max < d * 2 ^ k"
    by (simp add: div_less_iff_less_mult)
  then show ?thesis by (simp add: drop_bit_eq_div)
qed

lemma rc_pto_period_min:
  "rc_pto_period space ms r =
     (if 31 \<le> ptoCount r then u64_max else min u64_max (rc_base_pto space ms r * 2 ^ ptoCount r))"
  by (auto simp: rc_pto_period_def Let_def shift_overflow_iff push_bit_eq_mult min_def)

lemma rc_pto_period_le: "rc_pto_period space ms r \<le> u64_max"
  by (simp add: rc_pto_period_min)

lemma rc_base_pto_fired [simp]: "rc_base_pto space ms (rc_on_pto_fired r) = rc_base_pto space ms r"
  by (simp add: rc_base_pto_def rc_on_pto_fired_def)

lemma rc_pto_deadline_period:
  assumes "rc_last_eliciting space r \<le> u64_max"
  shows "rc_pto_deadline space ms r =
     (if rc_last_eliciting space r = 0 then 0
      else sat_add64 (rc_last_eliciting space r) (rc_pto_period space ms r))"
proof -
  have "u64_max - rc_last_eliciting space r < d \<longleftrightarrow> u64_max - d < rc_last_eliciting space r"
    if "d \<le> u64_max" for d
    using that assms by linarith
  note this [OF rc_pto_period_le]
  then show ?thesis
    unfolding rc_pto_deadline_def Let_def rc_pto_period_def [unfolded Let_def, symmetric] sat_add64_def
    by simp
qed

text \<open>
  The probe timeout backs off exponentially and never wraps: the period is the base timeout
  times two to the number of consecutive timeouts, saturated at the largest 64-bit value; each
  firing doubles it (from 31 timeouts on it is never reached); the deadline is that period after
  the last ack-eliciting packet still outstanding, and absent when there is none.
\<close>

theorem pto_backoff:
  assumes "\<forall>t \<in> set (eliciting_times space r). t \<le> u64_max"
  shows "rc_pto_period space ms r =
     (if 31 \<le> ptoCount r then u64_max else min u64_max (rc_base_pto space ms r * 2 ^ ptoCount r))
   \<and> rc_pto_period space ms (rc_on_pto_fired r) =
     (if 30 \<le> ptoCount r then u64_max else min u64_max (2 * rc_pto_period space ms r))
   \<and> rc_pto_deadline space ms r =
     (let last = fold max (eliciting_times space r) 0
      in if last = 0 then 0 else min u64_max (last + rc_pto_period space ms r))"
proof (intro conjI)
  show "rc_pto_period space ms r =
     (if 31 \<le> ptoCount r then u64_max else min u64_max (rc_base_pto space ms r * 2 ^ ptoCount r))"
    by (rule rc_pto_period_min)
  have "ptoCount (rc_on_pto_fired r) = (if ptoCount r < 31 then Suc (ptoCount r) else ptoCount r)"
    by (simp add: rc_on_pto_fired_def)
  then show "rc_pto_period space ms (rc_on_pto_fired r) =
     (if 30 \<le> ptoCount r then u64_max else min u64_max (2 * rc_pto_period space ms r))"
    unfolding rc_pto_period_min rc_base_pto_fired by (auto simp: min_def)
  show "rc_pto_deadline space ms r =
     (let last = fold max (eliciting_times space r) 0
      in if last = 0 then 0 else min u64_max (last + rc_pto_period space ms r))"
    using rc_pto_deadline_period [of space r ms] fold_max_le [OF assms]
    by (simp add: rc_last_eliciting_max sat_add64_eq_min [OF rc_pto_period_le])
qed

theorem pto_backoff_witness:
  "rc_pto_deadline SpApplication 25 loss_run = 2000000 + rc_pto_period SpApplication 25 loss_run
    \<or> rc_pto_deadline SpApplication 25 loss_run = u64_max"
proof -
  have "eliciting_times SpApplication loss_run = [1000000, 2000000]"
    by (simp add: eliciting_times_def loss_run_state)
  with pto_backoff [of SpApplication loss_run 25] show ?thesis
    by (simp add: u64_max_def min_def split: if_splits)
qed

end
