(* ===== verification/QuicFlowControl.thy ===== *)
theory QuicFlowControl
  imports QuicVarInt
begin

text \<open>
  Connection-level flow control, \<open>src/wknetlib/quic/QuicFlowControl.cpp\<close>. The lemmas give the
  invariant of the two windows, that a reservation is all or nothing (the class is a
  \<open>credit_window\<close>), and when DATA_BLOCKED is reported.
\<close>

record quic_flow_controller =
  sendLimit :: nat
  sendOffset :: nat
  receiveLimit :: nat
  receivedBytes :: nat
  consumedBytes :: nat
  fc_initialized :: bool
  dataBlockedPending :: bool

definition fc_new :: quic_flow_controller where
  "fc_new = \<lparr>sendLimit = 0, sendOffset = 0, receiveLimit = 0, receivedBytes = 0, consumedBytes = 0,
     fc_initialized = False, dataBlockedPending = False\<rparr>"

section \<open>Operations\<close>

definition fc_initialize ::
    "nat \<Rightarrow> nat \<Rightarrow> quic_flow_controller \<Rightarrow> ntstatus \<times> quic_flow_controller" where
  "fc_initialize sl rl f =
     (if sl > QuicVarIntMaximum \<or> rl > QuicVarIntMaximum then (STATUS_INVALID_PARAMETER, f)
      else (STATUS_SUCCESS, f\<lparr>sendLimit := sl, sendOffset := 0, receiveLimit := rl,
              receivedBytes := 0, consumedBytes := 0, dataBlockedPending := False,
              fc_initialized := True\<rparr>))"

text \<open>
  \<open>QuicVarIntMaximum - sendOffset_\<close> is an unguarded unsigned subtraction in the source; the
  invariant keeps the offset below the maximum.
\<close>

definition fc_can_reserve_send :: "nat \<Rightarrow> quic_flow_controller \<Rightarrow> ntstatus" where
  "fc_can_reserve_send bytes f =
     (if \<not> fc_initialized f \<or> bytes > sub64 QuicVarIntMaximum (sendOffset f) then STATUS_INVALID_PARAMETER
      else if sendOffset f > sendLimit f \<or> bytes > sendLimit f - sendOffset f then STATUS_DEVICE_BUSY
      else STATUS_SUCCESS)"

definition fc_reserve_send :: "nat \<Rightarrow> quic_flow_controller \<Rightarrow> ntstatus \<times> quic_flow_controller" where
  "fc_reserve_send bytes f =
     (let validationStatus = fc_can_reserve_send bytes f
      in if validationStatus \<noteq> STATUS_SUCCESS
         then (validationStatus,
               if validationStatus = STATUS_DEVICE_BUSY then f\<lparr>dataBlockedPending := True\<rparr> else f)
         else (STATUS_SUCCESS, f\<lparr>sendOffset := sendOffset f + bytes\<rparr>))"

definition fc_on_max_data :: "nat \<Rightarrow> quic_flow_controller \<Rightarrow> ntstatus \<times> quic_flow_controller" where
  "fc_on_max_data maximum f =
     (if \<not> fc_initialized f \<or> maximum > QuicVarIntMaximum then (STATUS_INVALID_PARAMETER, f)
      else (STATUS_SUCCESS,
            if maximum > sendLimit f then f\<lparr>sendLimit := maximum, dataBlockedPending := False\<rparr> else f))"

definition fc_on_stream_receive_progress ::
    "nat \<Rightarrow> nat \<Rightarrow> quic_flow_controller \<Rightarrow> ntstatus \<times> quic_flow_controller" where
  "fc_on_stream_receive_progress previousMaximumOffset currentMaximumOffset f =
     (if \<not> fc_initialized f \<or> previousMaximumOffset > currentMaximumOffset
         \<or> currentMaximumOffset > QuicVarIntMaximum
      then (STATUS_INVALID_PARAMETER, f)
      else let delta = currentMaximumOffset - previousMaximumOffset
           in if receivedBytes f > receiveLimit f \<or> delta > receiveLimit f - receivedBytes f
              then (STATUS_INVALID_NETWORK_RESPONSE, f)
              else (STATUS_SUCCESS, f\<lparr>receivedBytes := receivedBytes f + delta\<rparr>))"

definition fc_on_stream_consumed :: "nat \<Rightarrow> quic_flow_controller \<Rightarrow> ntstatus \<times> quic_flow_controller" where
  "fc_on_stream_consumed bytes f =
     (if \<not> fc_initialized f \<or> consumedBytes f > receivedBytes f
         \<or> bytes > receivedBytes f - consumedBytes f
      then (STATUS_INVALID_PARAMETER, f)
      else (STATUS_SUCCESS, f\<lparr>consumedBytes := consumedBytes f + bytes\<rparr>))"

definition fc_set_receive_limit :: "nat \<Rightarrow> quic_flow_controller \<Rightarrow> ntstatus \<times> quic_flow_controller" where
  "fc_set_receive_limit maximum f =
     (if \<not> fc_initialized f \<or> maximum > QuicVarIntMaximum \<or> maximum < receivedBytes f
      then (STATUS_INVALID_PARAMETER, f)
      else (STATUS_SUCCESS, f\<lparr>receiveLimit := maximum\<rparr>))"

text \<open>The result is the limit to report, or \<open>None\<close> for a return value of \<open>false\<close>.\<close>

definition fc_take_data_blocked :: "quic_flow_controller \<Rightarrow> nat option \<times> quic_flow_controller" where
  "fc_take_data_blocked f =
     (if \<not> fc_initialized f \<or> \<not> dataBlockedPending f then (None, f)
      else (Some (sendLimit f), f\<lparr>dataBlockedPending := False\<rparr>))"

lemmas fc_defs = fc_initialize_def fc_can_reserve_send_def fc_reserve_send_def fc_on_max_data_def
  fc_on_stream_receive_progress_def fc_on_stream_consumed_def fc_set_receive_limit_def
  fc_take_data_blocked_def Let_def

section \<open>Invariant\<close>

definition fc_inv :: "quic_flow_controller \<Rightarrow> bool" where
  "fc_inv f \<longleftrightarrow> sendOffset f \<le> sendLimit f \<and> sendLimit f \<le> QuicVarIntMaximum
     \<and> consumedBytes f \<le> receivedBytes f \<and> receivedBytes f \<le> receiveLimit f
     \<and> receiveLimit f \<le> QuicVarIntMaximum"

datatype fc_op =
    FcInitialize nat nat
  | FcReserve nat
  | FcMaxData nat
  | FcProgress nat nat
  | FcConsumed nat
  | FcReceiveLimit nat
  | FcTakeBlocked

fun fc_apply :: "fc_op \<Rightarrow> quic_flow_controller \<Rightarrow> quic_flow_controller" where
  "fc_apply (FcInitialize sl rl) f = snd (fc_initialize sl rl f)"
| "fc_apply (FcReserve n) f = snd (fc_reserve_send n f)"
| "fc_apply (FcMaxData m) f = snd (fc_on_max_data m f)"
| "fc_apply (FcProgress p c) f = snd (fc_on_stream_receive_progress p c f)"
| "fc_apply (FcConsumed n) f = snd (fc_on_stream_consumed n f)"
| "fc_apply (FcReceiveLimit m) f = snd (fc_set_receive_limit m f)"
| "fc_apply FcTakeBlocked f = snd (fc_take_data_blocked f)"

lemma fc_apply_inv: "fc_inv f \<Longrightarrow> fc_inv (fc_apply opn f)"
  by (cases opn) (auto simp: fc_defs fc_inv_def)

lemma fc_run_inv: "fc_inv f \<Longrightarrow> fc_inv (fold fc_apply ops f)"
  by (induction ops arbitrary: f) (auto simp: fc_apply_inv)

lemma sub64_maximum: "n \<le> QuicVarIntMaximum \<Longrightarrow> sub64 QuicVarIntMaximum n = QuicVarIntMaximum - n"
  by (rule sub64_id) (auto simp: QuicVarIntMaximum_def u64_max_def)

section \<open>The send window\<close>

definition fc_credit :: "quic_flow_controller \<Rightarrow> nat" where
  "fc_credit f = sendLimit f - sendOffset f"

interpretation fc: credit_window fc_reserve_send fc_credit fc_inv
proof
  fix f n f'
  assume "fc_inv f" "fc_reserve_send n f = (STATUS_SUCCESS, f')"
  then show "fc_inv f' \<and> n \<le> fc_credit f \<and> fc_credit f' = fc_credit f - n"
    by (auto simp: fc_defs fc_inv_def fc_credit_def split: if_splits)
next
  fix f n e f'
  assume "fc_inv f" "fc_reserve_send n f = (e, f')" "e \<noteq> STATUS_SUCCESS"
  then show "fc_inv f' \<and> fc_credit f' = fc_credit f"
    by (auto simp: fc_defs fc_inv_def fc_credit_def split: if_splits)
qed

text \<open>
  From a fresh controller, any sequence of operations keeps the four counters ordered: what
  was sent never exceeds the peer's limit, what the application consumed never exceeds what was
  received, and what was received never exceeds the advertised limit; all stay representable as
  QUIC integers, so no addition of the class wraps.
\<close>

theorem flow_control_invariant:
  "let f = fold fc_apply ops fc_new in
     sendOffset f \<le> sendLimit f \<and> sendLimit f \<le> QuicVarIntMaximum
     \<and> consumedBytes f \<le> receivedBytes f \<and> receivedBytes f \<le> receiveLimit f
     \<and> receiveLimit f \<le> QuicVarIntMaximum"
proof -
  have "fc_inv fc_new" by (simp add: fc_inv_def fc_new_def)
  from fc_run_inv [OF this] show ?thesis by (simp add: fc_inv_def Let_def)
qed

text \<open>
  Over any sequence of reservations on an initialized controller the accepted total plus the
  remaining credit is the credit at the start: nothing is lost by refused reservations and
  nothing beyond the limit is ever accepted. A refused reservation of a representable amount
  leaves a DATA_BLOCKED report with the current limit, which is handed out exactly once.
\<close>

theorem flow_control_reservations:
  assumes "fc_inv f" "reserve_all fc_reserve_send ns f = (t, f')"
  shows "t + fc_credit f' = fc_credit f
    \<and> (\<forall>n. fc_initialized f' \<and> fc_credit f' < n \<and> sendOffset f' + n \<le> QuicVarIntMaximum \<longrightarrow>
         (\<exists>g h. fc_reserve_send n f' = (STATUS_DEVICE_BUSY, g) \<and> sendOffset g = sendOffset f'
            \<and> fc_take_data_blocked g = (Some (sendLimit f'), h)
            \<and> fst (fc_take_data_blocked h) = None))"
proof -
  have inv: "fc_inv f'" and t: "t + fc_credit f' = fc_credit f"
    using fc.accepted_within_credit [OF assms] by auto
  have le: "sendOffset f' \<le> QuicVarIntMaximum" using inv by (simp add: fc_inv_def)
  show ?thesis
    using inv t
    by (auto simp: fc_defs fc_inv_def fc_credit_def sub64_maximum [OF le])
qed

theorem flow_control_reservations_witness:
  "\<exists>f'. reserve_all fc_reserve_send [60, 50, 30] (snd (fc_initialize 100 0 fc_new)) = (90, f')
     \<and> 90 + fc_credit f' = 100"
proof -
  let ?f = "snd (fc_initialize 100 0 fc_new)"
  have inv: "fc_inv ?f"
    by (simp add: fc_defs fc_inv_def fc_new_def QuicVarIntMaximum_def)
  obtain t f' where r: "reserve_all fc_reserve_send [60, 50, 30] ?f = (t, f')" by fastforce
  then have "t = 90"
    by (simp add: fc_defs fc_new_def QuicVarIntMaximum_def sub64_def w64_def)
  moreover have "t + fc_credit f' = fc_credit ?f"
    using flow_control_reservations [OF inv r] by blast
  moreover have "fc_credit ?f = 100"
    by (simp add: fc_defs fc_new_def QuicVarIntMaximum_def fc_credit_def)
  ultimately show ?thesis using r by auto
qed

end
