(* ===== verification/QuicTokenCache.thy ===== *)
theory QuicTokenCache
  imports Prelude
begin

text \<open>
  The cache of address validation tokens, \<open>src/wknetlib/quic/QuicTokenCache.cpp\<close>: a ring of
  entries, each an optional token with the sequence number of its store. \<open>tc_entries\<close> is the
  allocated array (empty when it is not allocated); \<open>alloc_ok\<close> is the outcome of an
  allocation. The lemmas relate the ring to the list of the tokens that were stored.
\<close>

definition WKNET_HARD_MAX_QUIC_TOKENS :: nat where
  "WKNET_HARD_MAX_QUIC_TOKENS = 8"

definition QuicMaximumNewTokenLength :: nat where
  "QuicMaximumNewTokenLength = 1024"

record token_entry =
  te_token :: "bytes option"
  te_sequence :: nat

record token_cache =
  tc_entries :: "token_entry list"
  tc_count :: nat
  tc_next_slot :: nat
  tc_next_sequence :: nat

section \<open>Operations\<close>

definition tc_clear :: "token_cache \<Rightarrow> token_cache" where
  "tc_clear c = \<lparr>tc_entries = [], tc_count = 0, tc_next_slot = 0, tc_next_sequence = 1\<rparr>"

definition tc_initialize :: "bool \<Rightarrow> nat \<Rightarrow> token_cache \<Rightarrow> ntstatus \<times> token_cache" where
  "tc_initialize alloc_ok capacity c =
     (let c1 = tc_clear c
      in if capacity = 0 \<or> capacity > WKNET_HARD_MAX_QUIC_TOKENS then (STATUS_INVALID_PARAMETER, c1)
         else if \<not> alloc_ok then (STATUS_INSUFFICIENT_RESOURCES, c1)
         else (STATUS_SUCCESS,
               c1\<lparr>tc_entries := replicate capacity \<lparr>te_token = None, te_sequence = 0\<rparr>\<rparr>))"

definition tc_store :: "bool \<Rightarrow> bytes \<Rightarrow> token_cache \<Rightarrow> ntstatus \<times> token_cache" where
  "tc_store alloc_ok token c =
     (if tc_entries c = [] \<or> token = [] then (STATUS_INVALID_PARAMETER, c)
      else if length token > QuicMaximumNewTokenLength then (STATUS_INSUFFICIENT_RESOURCES, c)
      else let slot = tc_next_slot c;
               e = tc_entries c ! slot
        in if \<not> alloc_ok
           then (STATUS_INSUFFICIENT_RESOURCES, c\<lparr>tc_entries := (tc_entries c)[slot := e\<lparr>te_token := None\<rparr>]\<rparr>)
           else (STATUS_SUCCESS,
             c\<lparr>tc_entries := (tc_entries c)[slot := \<lparr>te_token = Some token, te_sequence = tc_next_sequence c\<rparr>],
               tc_next_sequence := w64 (tc_next_sequence c + 1),
               tc_next_slot := (slot + 1) mod length (tc_entries c),
               tc_count := (if tc_count c < length (tc_entries c) then tc_count c + 1 else tc_count c)\<rparr>))"

definition newer_entry :: "token_entry \<Rightarrow> token_entry option \<Rightarrow> token_entry option" where
  "newer_entry e latest =
     (if te_token e \<noteq> None \<and> (case latest of None \<Rightarrow> True | Some l \<Rightarrow> te_sequence e > te_sequence l)
      then Some e else latest)"

definition tc_latest :: "token_cache \<Rightarrow> bytes" where
  "tc_latest c =
     (case fold newer_entry (tc_entries c) None of
        None \<Rightarrow> []
      | Some e \<Rightarrow> (case te_token e of None \<Rightarrow> [] | Some t \<Rightarrow> t))"

section \<open>The ring and the stored tokens\<close>

text \<open>\<open>tc_holds cap hist c\<close>: the ring \<open>c\<close> after the tokens \<open>hist\<close> were stored in order.\<close>

definition tc_holds :: "nat \<Rightarrow> bytes list \<Rightarrow> token_cache \<Rightarrow> bool" where
  "tc_holds cap hist c \<longleftrightarrow>
     0 < cap \<and> length (tc_entries c) = cap
     \<and> tc_count c = min (length hist) cap \<and> tc_next_slot c = length hist mod cap
     \<and> tc_next_sequence c = length hist + 1
     \<and> (\<forall>i < cap. te_token (tc_entries c ! i) \<noteq> None \<longrightarrow>
          te_sequence (tc_entries c ! i) \<in> {1..length hist}
          \<and> (te_sequence (tc_entries c ! i) - 1) mod cap = i)
     \<and> (hist \<noteq> [] \<longrightarrow> tc_entries c ! ((length hist - 1) mod cap)
          = \<lparr>te_token = Some (last hist), te_sequence = length hist\<rparr>)"

lemma newest_entry:
  assumes "e \<in> set es" "te_token e \<noteq> None"
    and "\<forall>x \<in> set es. te_token x \<noteq> None \<longrightarrow> x = e \<or> te_sequence x < te_sequence e"
    and "case a of None \<Rightarrow> True | Some l \<Rightarrow> l = e \<or> te_sequence l < te_sequence e"
  shows "fold newer_entry es a = Some e"
proof -
  have keep: "fold newer_entry es (Some e) = Some e"
    if "\<forall>x \<in> set es. te_token x \<noteq> None \<longrightarrow> x = e \<or> te_sequence x < te_sequence e" for es
    using that by (induction es) (auto simp: newer_entry_def)
  show ?thesis
    using assms
  proof (induction es arbitrary: a)
    case Nil
    then show ?case by simp
  next
    case (Cons x es)
    show ?case
    proof (cases "x = e")
      case True
      then have "newer_entry x a = Some e"
        using Cons.prems(2,4) by (auto simp: newer_entry_def split: option.splits)
      then show ?thesis using keep Cons.prems(3) by simp
    next
      case False
      then have "case newer_entry x a of None \<Rightarrow> True | Some l \<Rightarrow> l = e \<or> te_sequence l < te_sequence e"
        using Cons.prems(3,4) by (auto simp: newer_entry_def split: option.splits)
      with False Cons show ?thesis by simp
    qed
  qed
qed

lemma tc_latest_holds:
  assumes "tc_holds cap hist c"
  shows "tc_latest c = (if hist = [] then [] else last hist)"
proof (cases "hist = []")
  case True
  have "fold newer_entry es None = None" if "\<forall>x \<in> set es. te_token x = None" for es
    using that by (induction es) (auto simp: newer_entry_def)
  moreover have "\<forall>x \<in> set (tc_entries c). te_token x = None"
    using assms True by (fastforce simp: tc_holds_def in_set_conv_nth)
  ultimately show ?thesis using True by (simp add: tc_latest_def)
next
  case False
  let ?i = "(length hist - 1) mod cap"
  let ?e = "\<lparr>te_token = Some (last hist), te_sequence = length hist\<rparr>"
  have i: "?i < length (tc_entries c)" "tc_entries c ! ?i = ?e"
    using assms False by (simp_all add: tc_holds_def)
  have "x = ?e \<or> te_sequence x < length hist" if "x \<in> set (tc_entries c)" "te_token x \<noteq> None" for x
  proof -
    obtain j where j: "j < length (tc_entries c)" "x = tc_entries c ! j"
      using \<open>x \<in> _\<close> by (auto simp: in_set_conv_nth)
    with assms that have "te_sequence x \<le> length hist" "(te_sequence x - 1) mod cap = j"
      by (auto simp: tc_holds_def)
    with i j show ?thesis by (cases "te_sequence x = length hist") auto
  qed
  with i have "fold newer_entry (tc_entries c) None = Some ?e"
    by (intro newest_entry) (auto simp: in_set_conv_nth)
  with False show ?thesis by (simp add: tc_latest_def)
qed

lemma tc_holds_initialize:
  "tc_initialize ok cap c = (STATUS_SUCCESS, c') \<Longrightarrow> tc_holds cap [] c'"
  by (auto simp: tc_initialize_def tc_clear_def tc_holds_def Let_def split: if_splits)

lemma tc_holds_store:
  assumes h: "tc_holds cap hist c" and run: "tc_store True t c = (STATUS_SUCCESS, c')"
    and "length hist < u64_max - 1"
  shows "tc_holds cap (hist @ [t]) c'"
proof -
  let ?n = "length hist"
  have c': "c' = c\<lparr>tc_entries := (tc_entries c)[?n mod cap := \<lparr>te_token = Some t, te_sequence = ?n + 1\<rparr>],
      tc_next_sequence := ?n + 2, tc_next_slot := (?n mod cap + 1) mod cap,
      tc_count := (if tc_count c < cap then tc_count c + 1 else tc_count c)\<rparr>"
    using assms w64_id [of "?n + 2"]
    by (auto simp: tc_store_def tc_holds_def Let_def split: if_splits)
  have "te_sequence (tc_entries c' ! i) \<in> {1..Suc ?n} \<and> (te_sequence (tc_entries c' ! i) - 1) mod cap = i"
    if "i < cap" "te_token (tc_entries c' ! i) \<noteq> None" for i
    using h that by (cases "i = ?n mod cap") (force simp: c' tc_holds_def)+
  moreover have "0 < cap" "length (tc_entries c) = cap" "tc_count c = min ?n cap"
    using h by (simp_all add: tc_holds_def)
  ultimately show ?thesis
    by (auto simp: tc_holds_def c' mod_Suc_eq)
qed

lemma Suc_mod_neq: "2 \<le> k \<Longrightarrow> Suc m mod k \<noteq> m mod k"
proof
  assume "2 \<le> k" "Suc m mod k = m mod k"
  with mod_Suc [of m k] show False by (cases "Suc (m mod k) = k") simp_all
qed

lemma tc_store_refused:
  "tc_store ok t c = (st, c') \<Longrightarrow> st \<noteq> STATUS_SUCCESS \<Longrightarrow> c' \<noteq> c \<Longrightarrow>
     \<not> ok \<and> c' = c\<lparr>tc_entries := (tc_entries c)[tc_next_slot c :=
        (tc_entries c ! tc_next_slot c)\<lparr>te_token := None\<rparr>]\<rparr>"
  by (simp add: tc_store_def Let_def split: if_splits)

lemma tc_holds_store_refused:
  assumes h: "tc_holds cap hist c" and run: "tc_store ok t c = (st, c')" and "st \<noteq> STATUS_SUCCESS"
    and "ok \<or> 2 \<le> cap"
  shows "tc_holds cap hist c'"
proof (cases "c' = c")
  case False
  let ?i = "length hist mod cap"
  have slot: "tc_next_slot c = ?i" using h by (simp add: tc_holds_def)
  have c': "c' = c\<lparr>tc_entries := (tc_entries c)[?i := (tc_entries c ! ?i)\<lparr>te_token := None\<rparr>]\<rparr>" and "\<not> ok"
    using tc_store_refused [OF run assms(3) False] slot by simp_all
  have same: "length (tc_entries c') = length (tc_entries c)" "tc_count c' = tc_count c"
    "tc_next_slot c' = tc_next_slot c" "tc_next_sequence c' = tc_next_sequence c"
    "\<And>i. i \<noteq> ?i \<Longrightarrow> tc_entries c' ! i = tc_entries c ! i"
    "?i < length (tc_entries c) \<Longrightarrow> te_token (tc_entries c' ! ?i) = None"
    by (simp_all add: c')
  have "?i \<noteq> (length hist - 1) mod cap" if "hist \<noteq> []"
  proof -
    obtain m where m: "length hist = Suc m"
      using \<open>hist \<noteq> []\<close> by (cases "length hist") auto
    have "Suc m mod cap \<noteq> m mod cap"
      using \<open>\<not> ok\<close> assms(4) by (intro Suc_mod_neq) simp
    with m show ?thesis by simp
  qed
  then have "hist \<noteq> [] \<longrightarrow> tc_entries c' ! ((length hist - 1) mod cap)
      = tc_entries c ! ((length hist - 1) mod cap)"
    using same(5) [of "(length hist - 1) mod cap"] by metis
  moreover have "te_token (tc_entries c' ! i) \<noteq> None \<longrightarrow>
      te_token (tc_entries c ! i) \<noteq> None \<and> tc_entries c' ! i = tc_entries c ! i" if "i < cap" for i
  proof (cases "i = ?i")
    case True
    with that h same(6) show ?thesis by (simp add: tc_holds_def)
  next
    case False
    then show ?thesis by (simp add: same(5))
  qed
  ultimately show ?thesis
    using h unfolding tc_holds_def same(1-4) by metis
qed (use h in simp)

section \<open>Runs\<close>

primrec tc_run :: "(bool \<times> bytes) list \<Rightarrow> token_cache \<Rightarrow> bytes list \<times> token_cache" where
  "tc_run [] c = ([], c)"
| "tc_run (x # xs) c =
     (let (st, c1) = tc_store (fst x) (snd x) c; (hist, c2) = tc_run xs c1
      in (if st = STATUS_SUCCESS then snd x # hist else hist, c2))"

lemma tc_store_success_alloc: "tc_store ok t c = (STATUS_SUCCESS, c') \<Longrightarrow> ok"
  by (auto simp: tc_store_def Let_def split: if_splits)

lemma tc_run_holds:
  assumes "tc_holds cap hist c" "tc_run xs c = (h, c')" "length hist + length xs < u64_max - 1"
    and "2 \<le> cap \<or> list_all fst xs"
  shows "tc_holds cap (hist @ h) c'"
  using assms
proof (induction xs arbitrary: hist c h)
  case Nil
  then show ?case by simp
next
  case (Cons x xs)
  obtain st c1 where s: "tc_store (fst x) (snd x) c = (st, c1)" by fastforce
  obtain h2 where r: "tc_run xs c1 = (h2, c')" and h: "h = (if st = STATUS_SUCCESS then snd x # h2 else h2)"
    using Cons.prems(2) s by (auto simp: Let_def split: prod.splits)
  show ?case
  proof (cases "st = STATUS_SUCCESS")
    case True
    then have "tc_holds cap (hist @ [snd x]) c1"
      using tc_holds_store [OF Cons.prems(1), of "snd x" c1] s tc_store_success_alloc [of "fst x" "snd x" c c1]
        Cons.prems(3) by auto
    from Cons.IH [OF this r] Cons.prems(3,4) h True show ?thesis by auto
  next
    case False
    then have "tc_holds cap hist c1"
      using tc_holds_store_refused [OF Cons.prems(1) s False] Cons.prems(4) by auto
    from Cons.IH [OF this r] Cons.prems(3,4) h False show ?thesis by auto
  qed
qed

text \<open>
  After any run of stores on a fresh cache, \<open>Latest\<close> returns the token of the last store that
  succeeded (none before the first) and \<open>Count\<close> the number of successful stores up to the capacity,
  although a store whose allocation fails empties its slot (with a single slot, provided no
  allocation fails).
\<close>

theorem token_cache_latest:
  assumes "tc_initialize True cap c0 = (STATUS_SUCCESS, c)" "tc_run xs c = (hist, c')"
    and "length xs < u64_max - 1" "2 \<le> cap \<or> list_all fst xs"
  shows "tc_latest c' = (if hist = [] then [] else last hist) \<and> tc_count c' = min (length hist) cap"
proof -
  have "tc_holds cap ([] @ hist) c'"
    using assms by (intro tc_run_holds [OF tc_holds_initialize [OF assms(1)] assms(2)]) auto
  from tc_latest_holds [OF this] this show ?thesis by (simp add: tc_holds_def)
qed

theorem token_cache_latest_witness:
  "\<exists>c c' hist. tc_initialize True 2 (tc_clear c) = (STATUS_SUCCESS, c)
     \<and> tc_run [(True, [1]), (True, [2]), (True, [3]), (False, [4])] c = (hist, c')
     \<and> tc_latest c' = [3] \<and> tc_count c' = 2"
proof -
  let ?c0 = "\<lparr>tc_entries = [], tc_count = 0, tc_next_slot = 0, tc_next_sequence = 1\<rparr> :: token_cache"
  let ?c = "?c0\<lparr>tc_entries := replicate 2 \<lparr>te_token = None, te_sequence = 0\<rparr>\<rparr>"
  let ?xs = "[(True, [1]), (True, [2]), (True, [3]), (False, [4])] :: (bool \<times> bytes) list"
  have i: "tc_initialize True 2 (tc_clear ?c) = (STATUS_SUCCESS, ?c)"
    by (simp add: tc_initialize_def tc_clear_def WKNET_HARD_MAX_QUIC_TOKENS_def)
  have h: "fst (tc_run ?xs ?c) = [[1], [2], [3]]"
    by (simp add: tc_store_def QuicMaximumNewTokenLength_def w64_def numeral_2_eq_2 Let_def)
  have "tc_run ?xs ?c = ([[1], [2], [3]], snd (tc_run ?xs ?c))"
    using h by (metis prod.collapse)
  note run = this
  have "tc_latest (snd (tc_run ?xs ?c)) = [3] \<and> tc_count (snd (tc_run ?xs ?c)) = 2"
    using token_cache_latest [OF i run] by (simp add: u64_max_def)
  with i run show ?thesis by blast
qed

end
