(* ===== verification/QuicStream.thy ===== *)
theory QuicStream
  imports QuicVarInt
begin

text \<open>
  One QUIC stream, \<open>src/wknetlib/quic/QuicStream.cpp\<close>: reassembly of received data, the receive
  and send limits, FIN, RESET_STREAM and STOP_SENDING, and the application's notifications.
  \<open>qs_chunks\<close> is the used part \<open>chunks_[0 .. chunkCount_)\<close> of the chunk array, in its order;
  \<open>sc_data\<close> is the buffer a chunk points to, of \<open>sc_capacity\<close> bytes, of which the chunk's bytes
  start at \<open>sc_data_offset\<close>. A callback of the application sink is an event appended to
  \<open>qs_events\<close>; what the callback itself does to the stream is a further operation of a run.
  The lemmas show that the chunks represent a finite partial function from offsets to bytes, how
  each operation changes it, and that what \<open>Consume\<close> delivers is the stream's content in order.
\<close>

definition WKNET_HARD_MAX_QUIC_STREAM_GAPS :: nat where
  "WKNET_HARD_MAX_QUIC_STREAM_GAPS = 256"

definition stream_client_initiated :: "nat \<Rightarrow> bool" where
  "stream_client_initiated i \<longleftrightarrow> (i AND 1) = 0"

definition stream_bidirectional :: "nat \<Rightarrow> bool" where
  "stream_bidirectional i \<longleftrightarrow> (i AND 2) = 0"

record stream_chunk =
  sc_offset :: nat
  sc_length :: nat
  sc_capacity :: nat
  sc_data_offset :: nat
  sc_data :: bytes

text \<open>Which callbacks the application set.\<close>

record stream_sink =
  sink_opened :: bool
  sink_readable :: bool
  sink_writable :: bool
  sink_reset :: bool
  sink_closed :: bool

datatype stream_event =
    EvOpened
  | EvReadable
  | EvWritable
  | EvReset nat bool
  | EvClosed

record quic_stream =
  qs_id :: nat
  qs_consumed :: nat
  qs_final_size :: nat
  qs_unique_bytes :: nat
  qs_buffered :: nat
  qs_highest :: nat
  qs_receive_limit :: nat
  qs_send_offset :: nat
  qs_send_limit :: nat
  qs_send_reset_error :: nat
  qs_receive_reset_error :: nat
  qs_stop_error :: nat
  qs_max_reassembly :: nat
  qs_max_gaps :: nat
  qs_chunks :: "stream_chunk list"
  qs_sink :: stream_sink
  qs_initialized :: bool
  qs_final_size_known :: bool
  qs_send_fin :: bool
  qs_reset_sent :: bool
  qs_receive_reset :: bool
  qs_stopped :: bool
  qs_blocked_pending :: bool
  qs_write_blocked :: bool
  qs_opened_notified :: bool
  qs_readable_notified :: bool
  qs_closed_notified :: bool
  qs_events :: "stream_event list"

section \<open>State predicates and notifications\<close>

definition no_sink :: stream_sink where
  "no_sink = \<lparr>sink_opened = False, sink_readable = False, sink_writable = False,
     sink_reset = False, sink_closed = False\<rparr>"

definition qs_new :: quic_stream where
  "qs_new = \<lparr>qs_id = 0, qs_consumed = 0, qs_final_size = 0, qs_unique_bytes = 0, qs_buffered = 0,
     qs_highest = 0, qs_receive_limit = QuicVarIntMaximum, qs_send_offset = 0, qs_send_limit = 0,
     qs_send_reset_error = 0, qs_receive_reset_error = 0, qs_stop_error = 0, qs_max_reassembly = 0,
     qs_max_gaps = 0, qs_chunks = [], qs_sink = no_sink, qs_initialized = False,
     qs_final_size_known = False, qs_send_fin = False, qs_reset_sent = False,
     qs_receive_reset = False, qs_stopped = False, qs_blocked_pending = False,
     qs_write_blocked = False, qs_opened_notified = False, qs_readable_notified = False,
     qs_closed_notified = False, qs_events = []\<rparr>"

definition qs_receive_finished :: "quic_stream \<Rightarrow> bool" where
  "qs_receive_finished s \<longleftrightarrow> qs_final_size_known s \<and> qs_consumed s = qs_final_size s"

definition qs_has_readable :: "quic_stream \<Rightarrow> bool" where
  "qs_has_readable s =
     (if \<not> qs_initialized s \<or> qs_receive_reset s then False
      else if qs_receive_finished s then True
      else list_ex (\<lambda>c. sc_offset c = qs_consumed s \<and> sc_length c \<noteq> 0) (qs_chunks s))"

definition qs_is_closed :: "quic_stream \<Rightarrow> bool" where
  "qs_is_closed s =
     (if \<not> qs_initialized s then False
      else let sendSide = stream_bidirectional (qs_id s) \<or> stream_client_initiated (qs_id s);
               receiveSide = stream_bidirectional (qs_id s) \<or> \<not> stream_client_initiated (qs_id s);
               sendClosed = (\<not> sendSide \<or> qs_send_fin s \<or> qs_reset_sent s);
               receiveClosed = (\<not> receiveSide \<or> qs_receive_finished s \<or> qs_receive_reset s)
           in sendClosed \<and> receiveClosed)"

definition qs_emit :: "stream_event \<Rightarrow> quic_stream \<Rightarrow> quic_stream" where
  "qs_emit e s = s\<lparr>qs_events := qs_events s @ [e]\<rparr>"

definition qs_notify_opened :: "quic_stream \<Rightarrow> quic_stream" where
  "qs_notify_opened s =
     (if qs_opened_notified s \<or> \<not> sink_opened (qs_sink s) then s
      else qs_emit EvOpened (s\<lparr>qs_opened_notified := True\<rparr>))"

definition qs_refresh_readable :: "quic_stream \<Rightarrow> quic_stream" where
  "qs_refresh_readable s =
     (if \<not> qs_has_readable s then s\<lparr>qs_readable_notified := False\<rparr>
      else if qs_readable_notified s \<or> \<not> sink_readable (qs_sink s) then s
      else qs_emit EvReadable (s\<lparr>qs_readable_notified := True\<rparr>))"

definition qs_notify_writable :: "quic_stream \<Rightarrow> quic_stream" where
  "qs_notify_writable s = (if sink_writable (qs_sink s) then qs_emit EvWritable s else s)"

definition qs_mark_write_blocked :: "quic_stream \<Rightarrow> quic_stream" where
  "qs_mark_write_blocked s = s\<lparr>qs_write_blocked := True\<rparr>"

definition qs_try_notify_writable :: "quic_stream \<Rightarrow> quic_stream" where
  "qs_try_notify_writable s =
     (if \<not> qs_write_blocked s \<or> qs_send_fin s \<or> qs_reset_sent s \<or> qs_send_offset s \<ge> qs_send_limit s
      then s
      else qs_notify_writable (s\<lparr>qs_write_blocked := False\<rparr>))"

definition qs_notify_reset :: "nat \<Rightarrow> bool \<Rightarrow> quic_stream \<Rightarrow> quic_stream" where
  "qs_notify_reset errorCode peer s =
     (if sink_reset (qs_sink s) then qs_emit (EvReset errorCode peer) s else s)"

definition qs_notify_closed :: "quic_stream \<Rightarrow> quic_stream" where
  "qs_notify_closed s =
     (if qs_closed_notified s \<or> \<not> sink_closed (qs_sink s) then s
      else qs_emit EvClosed (s\<lparr>qs_closed_notified := True\<rparr>))"

definition qs_notify_closed_if_needed :: "quic_stream \<Rightarrow> quic_stream" where
  "qs_notify_closed_if_needed s = (if qs_is_closed s then qs_notify_closed s else s)"

definition qs_notify_readable :: "quic_stream \<Rightarrow> quic_stream" where
  "qs_notify_readable s = qs_notify_closed_if_needed (qs_refresh_readable s)"

definition qs_set_sink :: "stream_sink option \<Rightarrow> quic_stream \<Rightarrow> quic_stream" where
  "qs_set_sink sink s =
     (let s1 = s\<lparr>qs_sink := (case sink of None \<Rightarrow> no_sink | Some k \<Rightarrow> k), qs_opened_notified := False,
                 qs_readable_notified := False, qs_closed_notified := False\<rparr>
      in if \<not> qs_initialized s1 \<or> sink = None then s1
         else qs_notify_closed_if_needed (qs_refresh_readable (qs_notify_opened s1)))"

definition qs_clear :: "quic_stream \<Rightarrow> quic_stream" where
  "qs_clear s =
     (let s1 = (if qs_initialized s then qs_notify_closed s else s)
      in s1\<lparr>qs_chunks := [], qs_sink := no_sink, qs_initialized := False, qs_opened_notified := False,
            qs_readable_notified := False, qs_closed_notified := False\<rparr>)"

definition qs_initialize :: "bool \<Rightarrow> nat \<Rightarrow> nat \<Rightarrow> nat \<Rightarrow> quic_stream \<Rightarrow> ntstatus \<times> quic_stream" where
  "qs_initialize alloc_ok i maxBytes maxGaps s0 =
     (let s = qs_clear s0
      in if i > QuicVarIntMaximum \<or> maxBytes = 0 \<or> maxGaps = 0 \<or> maxGaps > WKNET_HARD_MAX_QUIC_STREAM_GAPS
         then (STATUS_INVALID_PARAMETER, s)
         else if \<not> alloc_ok then (STATUS_INSUFFICIENT_RESOURCES, qs_clear s)
         else (STATUS_SUCCESS,
           s\<lparr>qs_id := i, qs_max_reassembly := maxBytes, qs_max_gaps := maxGaps, qs_consumed := 0,
             qs_final_size := 0, qs_unique_bytes := 0, qs_buffered := 0, qs_highest := 0,
             qs_send_offset := 0, qs_send_limit := 0, qs_send_reset_error := 0,
             qs_receive_reset_error := 0, qs_stop_error := 0, qs_receive_limit := QuicVarIntMaximum,
             qs_final_size_known := False, qs_send_fin := False, qs_reset_sent := False,
             qs_receive_reset := False, qs_stopped := False, qs_blocked_pending := False,
             qs_write_blocked := False, qs_initialized := True\<rparr>))"

section \<open>Receiving\<close>

definition sc_end :: "stream_chunk \<Rightarrow> nat" where
  "sc_end c = sc_offset c + sc_length c"

text \<open>The bytes of \<open>data\<close>, at \<open>offset\<close>, that a chunk already holds, and whether they differ.\<close>

definition chunk_overlap :: "nat \<Rightarrow> nat \<Rightarrow> stream_chunk \<Rightarrow> nat \<times> nat" where
  "chunk_overlap offset stop c =
     ((if offset > sc_offset c then offset else sc_offset c), (if stop < sc_end c then stop else sc_end c))"

definition chunk_conflict :: "nat \<Rightarrow> bytes \<Rightarrow> stream_chunk \<Rightarrow> bool" where
  "chunk_conflict offset data c =
     (case chunk_overlap offset (offset + length data) c of (os, oe) \<Rightarrow>
        list_ex (\<lambda>p. data ! (p - offset) \<noteq> sc_data c ! (sc_data_offset c + (p - sc_offset c))) [os ..< oe])"

definition chunk_touched :: "nat \<Rightarrow> nat \<Rightarrow> stream_chunk \<Rightarrow> bool" where
  "chunk_touched offset stop c \<longleftrightarrow> \<not> (stop < sc_offset c \<or> offset > sc_end c)"

record merge_scan =
  ms_affected :: "bool list"
  ms_start :: nat
  ms_stop :: nat
  ms_overlap :: nat

fun receive_scan :: "nat \<Rightarrow> bytes \<Rightarrow> stream_chunk list \<Rightarrow> merge_scan \<Rightarrow> merge_scan option" where
  "receive_scan offset data [] m = Some m"
| "receive_scan offset data (c # cs) m =
     (if \<not> chunk_touched offset (offset + length data) c
      then receive_scan offset data cs (m\<lparr>ms_affected := ms_affected m @ [False]\<rparr>)
      else let m1 = m\<lparr>ms_affected := ms_affected m @ [True],
                      ms_start := (if sc_offset c < ms_start m then sc_offset c else ms_start m),
                      ms_stop := (if sc_end c > ms_stop m then sc_end c else ms_stop m)\<rparr>;
               (os, oe) = chunk_overlap offset (offset + length data) c
           in if oe > os
              then if chunk_conflict offset data c then None
                   else receive_scan offset data cs (m1\<lparr>ms_overlap := ms_overlap m1 + (oe - os)\<rparr>)
              else receive_scan offset data cs m1)"

definition sc_bytes :: "stream_chunk \<Rightarrow> bytes" where
  "sc_bytes c = take (sc_length c) (drop (sc_data_offset c) (sc_data c))"

fun merge_affected :: "nat \<Rightarrow> (bool \<times> stream_chunk) list \<Rightarrow> bytes \<Rightarrow> bytes" where
  "merge_affected start [] buf = buf"
| "merge_affected start ((a, c) # xs) buf =
     merge_affected start xs (if a then copy_at buf (sc_offset c - start) (sc_bytes c) else buf)"

fun keep_unaffected :: "(bool \<times> stream_chunk) list \<Rightarrow> stream_chunk list" where
  "keep_unaffected [] = []"
| "keep_unaffected ((a, c) # xs) = (if a then keep_unaffected xs else c # keep_unaffected xs)"

definition qs_store :: "bool \<Rightarrow> nat \<Rightarrow> bytes \<Rightarrow> bool \<Rightarrow> quic_stream \<Rightarrow> ntstatus \<times> quic_stream" where
  "qs_store alloc_ok offset data notify s =
     (let stop = offset + length data
      in case receive_scan offset data (qs_chunks s)
                \<lparr>ms_affected = [], ms_start = offset, ms_stop = stop, ms_overlap = 0\<rparr> of
        None \<Rightarrow> (STATUS_INVALID_NETWORK_RESPONSE, s)
      | Some m \<Rightarrow>
          let unique = length data - ms_overlap m;
              affectedCount = length (filter id (ms_affected m))
          in if unique > qs_max_reassembly s - qs_buffered s then (STATUS_INSUFFICIENT_RESOURCES, s)
             else if affectedCount = 0 \<and> length (qs_chunks s) \<ge> qs_max_gaps s
             then (STATUS_INSUFFICIENT_RESOURCES, s)
             else if \<not> alloc_ok then (STATUS_INSUFFICIENT_RESOURCES, s)
             else
               let unionLength = ms_stop m - ms_start m;
                   flagged = zip (ms_affected m) (qs_chunks s);
                   merged = copy_at (merge_affected (ms_start m) flagged (replicate unionLength 0))
                              (offset - ms_start m) data;
                   s1 = s\<lparr>qs_chunks := keep_unaffected flagged @
                            [\<lparr>sc_offset = ms_start m, sc_length = unionLength, sc_capacity = unionLength,
                              sc_data_offset = 0, sc_data = merged\<rparr>],
                          qs_unique_bytes := qs_unique_bytes s + unique,
                          qs_buffered := qs_buffered s + unique,
                          qs_highest := (if stop > qs_highest s then stop else qs_highest s)\<rparr>
               in (STATUS_SUCCESS, if notify then qs_notify_readable s1 else s1))"

text \<open>What \<open>Receive\<close> does once its arguments, the limits and the final size are checked.\<close>

definition qs_receive_checked ::
    "bool \<Rightarrow> nat \<Rightarrow> bytes \<Rightarrow> bool \<Rightarrow> quic_stream \<Rightarrow> ntstatus \<times> quic_stream" where
  "qs_receive_checked alloc_ok offset data notify s =
     (let stop = offset + length data
      in if qs_receive_reset s
         then ((if stop \<le> qs_final_size s then STATUS_SUCCESS else STATUS_INVALID_NETWORK_RESPONSE), s)
         else if data = []
         then let s2 = s\<lparr>qs_highest := (if stop > qs_highest s then stop else qs_highest s)\<rparr>
              in (STATUS_SUCCESS, if notify then qs_notify_readable s2 else s2)
         else if stop \<le> qs_consumed s
         then (STATUS_SUCCESS, if notify then qs_notify_readable s else s)
         else if offset < qs_consumed s
         then let trim = qs_consumed s - offset
              in qs_store alloc_ok (qs_consumed s) (drop trim data) notify s
         else qs_store alloc_ok offset data notify s)"

definition qs_receive ::
    "bool \<Rightarrow> nat \<Rightarrow> bytes \<Rightarrow> bool \<Rightarrow> bool \<Rightarrow> quic_stream \<Rightarrow> ntstatus \<times> quic_stream" where
  "qs_receive alloc_ok offset data fin notify s =
     (let stop = offset + length data
      in if \<not> qs_initialized s \<or> offset > QuicVarIntMaximum \<or> length data > QuicVarIntMaximum - offset
         then (STATUS_INVALID_PARAMETER, s)
         else if \<not> stream_bidirectional (qs_id s) \<and> stream_client_initiated (qs_id s)
         then (STATUS_INVALID_DEVICE_STATE, s)
         else if stop > qs_receive_limit s then (STATUS_INVALID_NETWORK_RESPONSE, s)
         else if qs_final_size_known s \<and> stop > qs_final_size s then (STATUS_INVALID_NETWORK_RESPONSE, s)
         else if fin \<and> qs_final_size_known s \<and> qs_final_size s \<noteq> stop
         then (STATUS_INVALID_NETWORK_RESPONSE, s)
         else qs_receive_checked alloc_ok offset data notify
                (if fin then s\<lparr>qs_final_size_known := True, qs_final_size := stop\<rparr> else s))"

section \<open>Consuming\<close>

fun first_chunk_at :: "nat \<Rightarrow> stream_chunk list \<Rightarrow> nat" where
  "first_chunk_at off [] = 0"
| "first_chunk_at off (c # cs) = (if sc_offset c = off then 0 else Suc (first_chunk_at off cs))"

text \<open>Status, the bytes written to \<open>output\<close>, \<open>*fin\<close> and the stream.\<close>

definition qs_consume :: "nat \<Rightarrow> quic_stream \<Rightarrow> ntstatus \<times> bytes \<times> bool \<times> quic_stream" where
  "qs_consume capacity s =
     (if \<not> qs_initialized s then (STATUS_INVALID_PARAMETER, [], False, s)
      else let index = first_chunk_at (qs_consumed s) (qs_chunks s)
        in if index = length (qs_chunks s)
           then ((if qs_receive_reset s \<and> qs_buffered s = 0 then STATUS_CONNECTION_RESET else STATUS_SUCCESS),
                 [], qs_receive_finished s, s)
           else let c = qs_chunks s ! index;
                    n = (if capacity < sc_length c then capacity else sc_length c)
             in if n = 0 then (STATUS_BUFFER_TOO_SMALL, [], False, s)
                else let c1 = c\<lparr>sc_offset := sc_offset c + n, sc_data_offset := sc_data_offset c + n,
                                sc_length := sc_length c - n\<rparr>;
                         s1 = s\<lparr>qs_consumed := qs_consumed s + n, qs_buffered := qs_buffered s - n,
                                qs_chunks := (if sc_length c1 = 0
                                  then take index (qs_chunks s) @ drop (index + 1) (qs_chunks s)
                                  else (qs_chunks s)[index := c1])\<rparr>
                     in (STATUS_SUCCESS, take n (drop (sc_data_offset c) (sc_data c)),
                         qs_receive_finished s1, qs_refresh_readable s1))"

section \<open>Limits, writing, reset\<close>

definition qs_set_receive_limit :: "nat \<Rightarrow> quic_stream \<Rightarrow> ntstatus \<times> quic_stream" where
  "qs_set_receive_limit maximum s =
     (if \<not> qs_initialized s \<or> maximum > QuicVarIntMaximum \<or> maximum < qs_highest s
      then (STATUS_INVALID_PARAMETER, s)
      else (STATUS_SUCCESS, s\<lparr>qs_receive_limit := maximum\<rparr>))"

definition qs_set_send_limit :: "nat \<Rightarrow> quic_stream \<Rightarrow> ntstatus \<times> quic_stream" where
  "qs_set_send_limit maximum s =
     (if \<not> qs_initialized s \<or> maximum > QuicVarIntMaximum \<or> maximum < qs_send_offset s
      then (STATUS_INVALID_PARAMETER, s)
      else (STATUS_SUCCESS, qs_try_notify_writable (s\<lparr>qs_send_limit := maximum\<rparr>)))"

definition qs_on_max_stream_data :: "nat \<Rightarrow> quic_stream \<Rightarrow> ntstatus \<times> quic_stream" where
  "qs_on_max_stream_data maximum s =
     (if \<not> qs_initialized s \<or> maximum > QuicVarIntMaximum then (STATUS_INVALID_PARAMETER, s)
      else if maximum > qs_send_limit s
      then (STATUS_SUCCESS,
            qs_try_notify_writable (s\<lparr>qs_send_limit := maximum, qs_blocked_pending := False\<rparr>))
      else (STATUS_SUCCESS, s))"

definition qs_can_write :: "nat \<Rightarrow> bool \<Rightarrow> quic_stream \<Rightarrow> ntstatus" where
  "qs_can_write len fin s =
     (if \<not> qs_initialized s then STATUS_INVALID_DEVICE_STATE
      else if \<not> stream_bidirectional (qs_id s) \<and> \<not> stream_client_initiated (qs_id s)
      then STATUS_INVALID_DEVICE_STATE
      else if qs_send_fin s \<or> qs_reset_sent s then STATUS_INVALID_DEVICE_STATE
      else if len > QuicVarIntMaximum - qs_send_offset s \<or> qs_send_offset s > qs_send_limit s
              \<or> len > qs_send_limit s - qs_send_offset s
      then STATUS_DEVICE_BUSY
      else STATUS_SUCCESS)"

text \<open>\<open>Write\<close> reads only the length of its data; the third component is \<open>*accepted\<close>.\<close>

definition qs_write :: "nat \<Rightarrow> bool \<Rightarrow> quic_stream \<Rightarrow> ntstatus \<times> nat \<times> quic_stream" where
  "qs_write len fin s =
     (if \<not> qs_initialized s then (STATUS_INVALID_PARAMETER, 0, s)
      else let st = qs_can_write len fin s
        in if st \<noteq> STATUS_SUCCESS
           then (st, 0, if st = STATUS_DEVICE_BUSY
                        then s\<lparr>qs_blocked_pending := True, qs_write_blocked := True\<rparr> else s)
           else (STATUS_SUCCESS, len,
                 qs_notify_closed_if_needed (s\<lparr>qs_send_offset := qs_send_offset s + len, qs_send_fin := fin\<rparr>)))"

definition qs_reset :: "nat \<Rightarrow> nat \<Rightarrow> quic_stream \<Rightarrow> ntstatus \<times> quic_stream" where
  "qs_reset err finalSize s =
     (if \<not> qs_initialized s \<or> err > QuicVarIntMaximum \<or> finalSize > QuicVarIntMaximum
      then (STATUS_INVALID_PARAMETER, s)
      else if \<not> stream_bidirectional (qs_id s) \<and> \<not> stream_client_initiated (qs_id s)
      then (STATUS_INVALID_DEVICE_STATE, s)
      else if qs_reset_sent s
      then ((if qs_send_reset_error s = err \<and> finalSize = qs_send_offset s then STATUS_SUCCESS
             else STATUS_INVALID_DEVICE_STATE), s)
      else if finalSize \<noteq> qs_send_offset s then (STATUS_INVALID_NETWORK_RESPONSE, s)
      else (STATUS_SUCCESS, qs_notify_closed_if_needed (qs_notify_reset err False
              (s\<lparr>qs_reset_sent := True, qs_send_reset_error := err, qs_send_fin := True\<rparr>))))"

definition qs_on_reset_received :: "nat \<Rightarrow> nat \<Rightarrow> quic_stream \<Rightarrow> ntstatus \<times> quic_stream" where
  "qs_on_reset_received err finalSize s =
     (if \<not> qs_initialized s \<or> err > QuicVarIntMaximum \<or> finalSize > QuicVarIntMaximum
      then (STATUS_INVALID_PARAMETER, s)
      else if \<not> stream_bidirectional (qs_id s) \<and> stream_client_initiated (qs_id s)
      then (STATUS_INVALID_DEVICE_STATE, s)
      else if (qs_final_size_known s \<and> qs_final_size s \<noteq> finalSize) \<or> finalSize < qs_highest s
              \<or> finalSize < qs_consumed s \<or> finalSize > qs_receive_limit s
      then (STATUS_INVALID_NETWORK_RESPONSE, s)
      else if qs_receive_reset s
      then ((if qs_receive_reset_error s = err then STATUS_SUCCESS else STATUS_INVALID_NETWORK_RESPONSE), s)
      else (STATUS_SUCCESS, qs_notify_closed_if_needed (qs_notify_reset err True
              (s\<lparr>qs_final_size_known := True, qs_final_size := finalSize, qs_receive_reset := True,
                 qs_receive_reset_error := err, qs_highest := finalSize\<rparr>))))"

definition qs_stop_sending :: "nat \<Rightarrow> quic_stream \<Rightarrow> ntstatus \<times> quic_stream" where
  "qs_stop_sending err s =
     (if \<not> qs_initialized s \<or> err > QuicVarIntMaximum then (STATUS_INVALID_PARAMETER, s)
      else if \<not> stream_bidirectional (qs_id s) \<and> \<not> stream_client_initiated (qs_id s)
      then (STATUS_INVALID_DEVICE_STATE, s)
      else if qs_stopped s
      then ((if qs_stop_error s = err then STATUS_SUCCESS else STATUS_INVALID_DEVICE_STATE), s)
      else (STATUS_SUCCESS, s\<lparr>qs_stopped := True, qs_stop_error := err\<rparr>))"

definition qs_take_blocked :: "quic_stream \<Rightarrow> bool \<times> nat \<times> quic_stream" where
  "qs_take_blocked s =
     (if \<not> qs_initialized s \<or> \<not> qs_blocked_pending s then (False, 0, s)
      else (True, qs_send_limit s, s\<lparr>qs_blocked_pending := False\<rparr>))"

section \<open>Chunks as a partial function\<close>

definition sc_covers :: "stream_chunk \<Rightarrow> nat \<Rightarrow> bool" where
  "sc_covers c p \<longleftrightarrow> sc_offset c \<le> p \<and> p < sc_end c"

definition sc_byte :: "stream_chunk \<Rightarrow> nat \<Rightarrow> byte" where
  "sc_byte c p = sc_data c ! (sc_data_offset c + (p - sc_offset c))"

definition chunks_content :: "stream_chunk list \<Rightarrow> nat \<Rightarrow> byte option" where
  "chunks_content cs p = (case find (\<lambda>c. sc_covers c p) cs of None \<Rightarrow> None | Some c \<Rightarrow> Some (sc_byte c p))"

text \<open>Two chunks are apart when a gap separates them; touching chunks are always merged.\<close>

definition sc_apart :: "stream_chunk \<Rightarrow> stream_chunk \<Rightarrow> bool" where
  "sc_apart c d \<longleftrightarrow> sc_end c < sc_offset d \<or> sc_end d < sc_offset c"

definition sc_ok :: "stream_chunk \<Rightarrow> bool" where
  "sc_ok c \<longleftrightarrow> 0 < sc_length c \<and> sc_data_offset c + sc_length c \<le> length (sc_data c)
     \<and> length (sc_data c) = sc_capacity c"

definition chunks_ok :: "nat \<Rightarrow> stream_chunk list \<Rightarrow> bool" where
  "chunks_ok from cs \<longleftrightarrow> sorted_wrt sc_apart cs \<and> (\<forall>c \<in> set cs. sc_ok c \<and> from \<le> sc_offset c)"

lemma sc_apart_sym: "sc_apart c d \<Longrightarrow> sc_apart d c"
  by (auto simp: sc_apart_def)

lemma sc_apart_covers: "sc_apart c d \<Longrightarrow> sc_covers c p \<Longrightarrow> \<not> sc_covers d p"
  by (auto simp: sc_apart_def sc_covers_def)

lemma apart_unique:
  assumes "sorted_wrt sc_apart cs" "c \<in> set cs" "d \<in> set cs" "sc_covers c p" "sc_covers d p"
  shows "c = d"
  using assms by (induction cs) (auto dest: sc_apart_covers)

lemma chunks_content_Some_iff:
  assumes "sorted_wrt sc_apart cs"
  shows "chunks_content cs p = Some b \<longleftrightarrow> (\<exists>c \<in> set cs. sc_covers c p \<and> sc_byte c p = b)"
proof
  assume "chunks_content cs p = Some b"
  then show "\<exists>c \<in> set cs. sc_covers c p \<and> sc_byte c p = b"
    by (auto simp: chunks_content_def split: option.splits dest: find_SomeD)
next
  assume "\<exists>c \<in> set cs. sc_covers c p \<and> sc_byte c p = b"
  then obtain c where c: "c \<in> set cs" "sc_covers c p" "sc_byte c p = b" by blast
  then obtain d where d: "find (\<lambda>c. sc_covers c p) cs = Some d"
    by (cases "find (\<lambda>c. sc_covers c p) cs") (auto simp: find_None_iff)
  then have "d \<in> set cs" "sc_covers d p" by (auto dest: find_SomeD)
  with apart_unique [OF assms c(1) _ c(2)] c(3) d show "chunks_content cs p = Some b"
    by (simp add: chunks_content_def)
qed

lemma chunks_content_None_iff: "chunks_content cs p = None \<longleftrightarrow> (\<forall>c \<in> set cs. \<not> sc_covers c p)"
  by (auto simp: chunks_content_def find_None_iff dest: find_SomeD split: option.splits)

text \<open>Two lists of chunks have the same content when each position is covered alike.\<close>

lemma chunks_content_eqI:
  assumes "sorted_wrt sc_apart cs"
    and "\<And>b. f = Some b \<longleftrightarrow> (\<exists>c \<in> set cs. sc_covers c p \<and> sc_byte c p = b)"
  shows "chunks_content cs p = f"
proof -
  have "f = Some b \<longleftrightarrow> chunks_content cs p = Some b" for b
    using assms(2) chunks_content_Some_iff [OF assms(1), of p] by simp
  then show ?thesis by (cases f) (metis not_Some_eq, metis)
qed

lemma sorted_wrt_apart_remove:
  "sorted_wrt sc_apart (xs @ c # ys) \<Longrightarrow> sorted_wrt sc_apart (xs @ ys)"
  by (auto simp: sorted_wrt_append)

lemma apart_rest:
  "sorted_wrt sc_apart (xs @ c # ys) \<Longrightarrow> d \<in> set (xs @ ys) \<Longrightarrow> sc_apart c d"
  by (auto simp: sorted_wrt_append intro: sc_apart_sym)

lemma covers_card: "card {p \<in> A. sc_covers c p} = card (A \<inter> {sc_offset c ..< sc_end c})"
  by (rule arg_cong [where f = card]) (auto simp: sc_covers_def)

text \<open>The number of covered positions is the sum over the chunks.\<close>

lemma card_covered:
  assumes "sorted_wrt sc_apart cs"
  shows "card {p \<in> A. \<exists>c \<in> set cs. sc_covers c p} = sum_list (map (\<lambda>c. card (A \<inter> {sc_offset c ..< sc_end c})) cs)
    \<and> finite {p \<in> A. \<exists>c \<in> set cs. sc_covers c p}"
  using assms
proof (induction cs)
  case Nil
  then show ?case by simp
next
  case (Cons c cs)
  let ?S = "{p \<in> A. \<exists>c \<in> set cs. sc_covers c p}"
  have split: "{p \<in> A. \<exists>d \<in> set (c # cs). sc_covers d p} = {p \<in> A. sc_covers c p} \<union> ?S"
    by auto
  have "{p \<in> A. sc_covers c p} \<inter> ?S = {}"
    using Cons.prems by (auto dest: sc_apart_covers)
  moreover have "finite {p \<in> A. sc_covers c p}"
    by (rule finite_subset [of _ "{sc_offset c ..< sc_end c}"]) (auto simp: sc_covers_def)
  moreover have "finite ?S" and s: "card ?S = sum_list (map (\<lambda>c. card (A \<inter> {sc_offset c ..< sc_end c})) cs)"
    using Cons by simp_all
  ultimately show ?case
    unfolding split by (simp add: card_Un_disjoint covers_card)
qed

lemma sum_lengths_card:
  assumes "sorted_wrt sc_apart cs"
  shows "sum_list (map sc_length cs) = card {p. \<exists>c \<in> set cs. sc_covers c p}"
  using card_covered [OF assms, of UNIV] by (simp add: sc_end_def)

section \<open>The scan and the merge\<close>

definition overlap_bytes :: "nat \<Rightarrow> nat \<Rightarrow> stream_chunk \<Rightarrow> nat" where
  "overlap_bytes offset stop c = (case chunk_overlap offset stop c of (os, oe) \<Rightarrow> oe - os)"

lemma overlap_bytes_card: "overlap_bytes offset stop c = card ({offset ..< stop} \<inter> {sc_offset c ..< sc_end c})"
proof -
  have "{offset ..< stop} \<inter> {sc_offset c ..< sc_end c} =
      {fst (chunk_overlap offset stop c) ..< snd (chunk_overlap offset stop c)}"
    by (auto simp: chunk_overlap_def)
  then show ?thesis by (simp add: overlap_bytes_def split_def)
qed

lemma untouched_overlap: "\<not> chunk_touched offset stop c \<Longrightarrow> overlap_bytes offset stop c = 0"
  by (auto simp: overlap_bytes_def chunk_overlap_def chunk_touched_def)

lemma untouched_conflict: "\<not> chunk_touched offset (offset + length data) c \<Longrightarrow> \<not> chunk_conflict offset data c"
  by (auto simp: chunk_conflict_def chunk_overlap_def chunk_touched_def list_ex_iff)

lemma no_overlap_conflict:
  "chunk_overlap offset (offset + length data) c = (os, oe) \<Longrightarrow> oe \<le> os \<Longrightarrow> \<not> chunk_conflict offset data c"
  by (simp add: chunk_conflict_def)

lemma receive_scan_eq:
  "receive_scan offset data cs m =
    (if \<exists>c \<in> set cs. chunk_conflict offset data c then None
     else let stop = offset + length data; T = filter (chunk_touched offset stop) cs in
       Some \<lparr>ms_affected = ms_affected m @ map (chunk_touched offset stop) cs,
         ms_start = fold min (map sc_offset T) (ms_start m),
         ms_stop = fold max (map sc_end T) (ms_stop m),
         ms_overlap = ms_overlap m + sum_list (map (overlap_bytes offset stop) cs)\<rparr>)"
proof (induction cs arbitrary: m)
  case Nil
  then show ?case by (simp add: Let_def)
next
  case (Cons c cs)
  obtain os oe where o: "chunk_overlap offset (offset + length data) c = (os, oe)" by fastforce
  have b: "overlap_bytes offset (offset + length data) c = oe - os"
    by (simp add: overlap_bytes_def o)
  show ?case
  proof (cases "chunk_touched offset (offset + length data) c")
    case False
    then show ?thesis
      using untouched_conflict [OF False] untouched_overlap [OF False] by (simp add: Cons Let_def)
  next
    case True
    have mm: "(if a < m' then a else m') = min a m'" "(if a > m' then a else m') = max a m'" for a m' :: nat
      by auto
    show ?thesis
    proof (cases "os < oe")
      case True
      then have "a + oe + n - os = a + (oe + n) - os" for a n :: nat by simp
      with True \<open>chunk_touched _ _ c\<close> show ?thesis by (simp add: Cons Let_def o b mm)
    next
      case False
      with \<open>chunk_touched _ _ c\<close> no_overlap_conflict [OF o] show ?thesis
        by (simp add: Cons Let_def o b mm)
    qed
  qed
qed

lemma fold_min_le: "fold min xs (a::nat) \<le> a \<and> (\<forall>x \<in> set xs. fold min xs a \<le> x)
    \<and> fold min xs a \<in> insert a (set xs)"
proof (induction xs arbitrary: a)
  case (Cons x xs)
  from Cons [of "min x a"] show ?case by (auto simp: min_def split: if_splits)
qed simp

lemma fold_max_ge: "a \<le> fold max xs (a::nat) \<and> (\<forall>x \<in> set xs. x \<le> fold max xs a)
    \<and> fold max xs a \<in> insert a (set xs)"
proof (induction xs arbitrary: a)
  case (Cons x xs)
  from Cons [of "max x a"] show ?case by (auto simp: max_def split: if_splits)
qed simp

lemma keep_unaffected_filter: "keep_unaffected (zip (map P cs) cs) = filter (\<lambda>c. \<not> P c) cs"
  by (induction cs) auto

lemma affected_count: "length (filter id (map P cs)) = length (filter P cs)"
  by (induction cs) auto

lemma sc_bytes_covered:
  assumes "sc_ok c"
  shows "length (sc_bytes c) = sc_length c"
    and "sc_covers c p \<Longrightarrow> sc_bytes c ! (p - sc_offset c) = sc_byte c p"
  using assms by (auto simp: sc_bytes_def sc_ok_def sc_byte_def sc_covers_def sc_end_def)

lemma chunks_content_Cons:
  "chunks_content (c # cs) p = (if sc_covers c p then Some (sc_byte c p) else chunks_content cs p)"
  by (simp add: chunks_content_def)

lemma chunks_content_Nil [simp]: "chunks_content [] p = None"
  by (simp add: chunks_content_def)

lemma merge_affected_nth:
  assumes "sorted_wrt sc_apart cs"
    and "\<forall>c \<in> set cs. P c \<longrightarrow> sc_ok c \<and> start \<le> sc_offset c \<and> sc_end c \<le> start + length buf"
  shows "length (merge_affected start (zip (map P cs) cs) buf) = length buf
    \<and> (\<forall>p. start \<le> p \<and> p < start + length buf \<longrightarrow>
         merge_affected start (zip (map P cs) cs) buf ! (p - start)
           = (case chunks_content (filter P cs) p of None \<Rightarrow> buf ! (p - start) | Some b \<Rightarrow> b))"
  using assms
proof (induction cs arbitrary: buf)
  case Nil
  then show ?case by simp
next
  case (Cons c cs)
  show ?case
  proof (cases "P c")
    case False
    with Cons show ?thesis by simp
  next
    case True
    with Cons.prems have c: "sc_ok c" "start \<le> sc_offset c" "sc_end c \<le> start + length buf" by auto
    let ?buf = "copy_at buf (sc_offset c - start) (sc_bytes c)"
    have fits: "sc_offset c - start + length (sc_bytes c) \<le> length buf"
      using c by (simp add: sc_bytes_covered(1) sc_end_def)
    have byte: "?buf ! (p - start) = (if sc_covers c p then sc_byte c p else buf ! (p - start))"
      if "start \<le> p" "p < start + length buf" for p
    proof -
      have "sc_offset c - start \<le> p - start \<and> p - start < sc_offset c - start + length (sc_bytes c)
          \<longleftrightarrow> sc_covers c p"
        using that c by (auto simp: sc_bytes_covered(1) sc_covers_def sc_end_def)
      moreover have "p - start - (sc_offset c - start) = p - sc_offset c" if "sc_covers c p"
        using that c by (auto simp: sc_covers_def)
      ultimately show ?thesis
        using that c by (auto simp: nth_copy_at [OF fits] sc_bytes_covered(2))
    qed
    have alone: "chunks_content (filter P cs) p = None" if "sc_covers c p" for p
      using that Cons.prems(1) by (auto simp: chunks_content_None_iff dest: sc_apart_covers)
    from Cons.IH [of ?buf] Cons.prems fits
    have IH: "length (merge_affected start (zip (map P cs) cs) ?buf) = length buf"
      "\<forall>p. start \<le> p \<and> p < start + length buf \<longrightarrow> merge_affected start (zip (map P cs) cs) ?buf ! (p - start)
           = (case chunks_content (filter P cs) p of None \<Rightarrow> ?buf ! (p - start) | Some b \<Rightarrow> b)"
      by simp_all
    show ?thesis
      using True IH alone byte by (auto simp: chunks_content_Cons split: option.splits)
  qed
qed

text \<open>The chunk \<open>Receive\<close> builds from its data and the chunks the data touches.\<close>

definition merged_chunk :: "nat \<Rightarrow> bytes \<Rightarrow> stream_chunk list \<Rightarrow> stream_chunk" where
  "merged_chunk offset data cs =
     (let stop = offset + length data; T = filter (chunk_touched offset stop) cs;
          us = fold min (map sc_offset T) offset; ue = fold max (map sc_end T) stop
      in \<lparr>sc_offset = us, sc_length = ue - us, sc_capacity = ue - us, sc_data_offset = 0,
          sc_data = copy_at (merge_affected us (zip (map (chunk_touched offset stop) cs) cs)
                      (replicate (ue - us) 0)) (offset - us) data\<rparr>)"

lemma agree_without_conflict:
  assumes "\<not> chunk_conflict offset data c" "sc_covers c p" "offset \<le> p" "p < offset + length data"
  shows "data ! (p - offset) = sc_byte c p"
  using assms by (auto simp: chunk_conflict_def chunk_overlap_def list_ex_iff sc_covers_def sc_byte_def
      split: if_splits)

lemma conflict_differs:
  assumes "chunk_conflict offset data c"
  shows "\<exists>p. sc_covers c p \<and> offset \<le> p \<and> p < offset + length data \<and> data ! (p - offset) \<noteq> sc_byte c p"
proof -
  from assms obtain p where "fst (chunk_overlap offset (offset + length data) c) \<le> p"
    "p < snd (chunk_overlap offset (offset + length data) c)" "data ! (p - offset) \<noteq> sc_byte c p"
    by (auto simp: chunk_conflict_def split_def list_ex_iff sc_byte_def)
  then show ?thesis
    by (intro exI [of _ p]) (auto simp: chunk_overlap_def sc_covers_def split: if_splits)
qed

lemma merged_chunk_bounds:
  fixes offset data cs
  defines "n \<equiv> merged_chunk offset data cs" and "t \<equiv> chunk_touched offset (offset + length data)"
  shows "sc_offset n \<le> offset" "offset + length data \<le> sc_end n"
    "\<And>c. c \<in> set cs \<Longrightarrow> t c \<Longrightarrow> sc_offset n \<le> sc_offset c \<and> sc_end c \<le> sc_end n"
    "sc_offset n = offset \<or> (\<exists>c \<in> set cs. t c \<and> sc_offset n = sc_offset c)"
    "sc_end n = offset + length data \<or> (\<exists>c \<in> set cs. t c \<and> sc_end n = sc_end c)"
proof -
  define T where "T = filter t cs"
  define us ue where "us = fold min (map sc_offset T) offset" and "ue = fold max (map sc_end T) (offset + length data)"
  have us: "us \<le> offset" "\<forall>c \<in> set T. us \<le> sc_offset c" "us \<in> insert offset (sc_offset ` set T)"
    using fold_min_le [of "map sc_offset T" offset] by (auto simp: us_def)
  have ue: "offset + length data \<le> ue" "\<forall>c \<in> set T. sc_end c \<le> ue"
    "ue \<in> insert (offset + length data) (sc_end ` set T)"
    using fold_max_ge [of "offset + length data" "map sc_end T"] by (auto simp: ue_def)
  have n: "sc_offset n = us" "sc_end n = ue"
    using us(1) ue(1) by (simp_all add: n_def merged_chunk_def sc_end_def us_def ue_def T_def t_def Let_def)
  show "sc_offset n \<le> offset" "offset + length data \<le> sc_end n"
    "\<And>c. c \<in> set cs \<Longrightarrow> t c \<Longrightarrow> sc_offset n \<le> sc_offset c \<and> sc_end c \<le> sc_end n"
    "sc_offset n = offset \<or> (\<exists>c \<in> set cs. t c \<and> sc_offset n = sc_offset c)"
    "sc_end n = offset + length data \<or> (\<exists>c \<in> set cs. t c \<and> sc_end n = sc_end c)"
    using us ue unfolding n by (auto simp: T_def)
qed

lemma merged_chunk_covers:
  "sc_covers (merged_chunk offset data cs) p \<longleftrightarrow>
     offset \<le> p \<and> p < offset + length data
     \<or> (\<exists>c \<in> set cs. chunk_touched offset (offset + length data) c \<and> sc_covers c p)"
  (is "?l \<longleftrightarrow> ?r")
proof
  assume l: ?l
  show ?r
  proof (cases "p < offset")
    case True
    with l merged_chunk_bounds(4) [where offset = offset and data = data and cs = cs] show ?thesis
      by (auto simp: sc_covers_def chunk_touched_def)
  next
    case False
    with l merged_chunk_bounds(5) [where offset = offset and data = data and cs = cs] show ?thesis
      by (force simp: sc_covers_def chunk_touched_def)
  qed
next
  assume ?r
  then show ?l
    using merged_chunk_bounds(1-3) [where offset = offset and data = data and cs = cs] by (force simp: sc_covers_def)
qed

lemma merged_chunk_ok: "data \<noteq> [] \<Longrightarrow> sorted_wrt sc_apart cs \<Longrightarrow> \<forall>c \<in> set cs. sc_ok c \<Longrightarrow>
    sc_ok (merged_chunk offset data cs)"
  and merged_chunk_byte: "data \<noteq> [] \<Longrightarrow> sorted_wrt sc_apart cs \<Longrightarrow> \<forall>c \<in> set cs. sc_ok c \<Longrightarrow>
    sc_covers (merged_chunk offset data cs) p \<Longrightarrow>
    sc_byte (merged_chunk offset data cs) p =
      (if offset \<le> p \<and> p < offset + length data then data ! (p - offset)
       else the (chunks_content (filter (chunk_touched offset (offset + length data)) cs) p))"
proof -
  assume a: "data \<noteq> []" "sorted_wrt sc_apart cs" "\<forall>c \<in> set cs. sc_ok c"
  define n where "n = merged_chunk offset data cs"
  define t where "t = chunk_touched offset (offset + length data)"
  define us where "us = sc_offset n"
  define buf where "buf = merge_affected us (zip (map t cs) cs) (replicate (sc_length n) (0::byte))"
  note b = merged_chunk_bounds [where offset = offset and data = data and cs = cs, folded n_def t_def]
  have n: "sc_data n = copy_at buf (offset - us) data" "sc_data_offset n = 0" "sc_capacity n = sc_length n"
    "sc_end n = us + sc_length n"
    by (simp_all add: n_def merged_chunk_def Let_def buf_def us_def t_def sc_end_def)
  have "\<forall>c \<in> set cs. t c \<longrightarrow> sc_ok c \<and> us \<le> sc_offset c \<and> sc_end c \<le> us + sc_length n"
    using a(3) b(3) n(4) by (auto simp: us_def)
  from merge_affected_nth [OF a(2), of t us "replicate (sc_length n) 0"] this
  have buf: "length buf = sc_length n"
    "\<And>p. us \<le> p \<Longrightarrow> p < sc_end n \<Longrightarrow> buf ! (p - us) =
      (case chunks_content (filter t cs) p of None \<Rightarrow> replicate (sc_length n) 0 ! (p - us) | Some b \<Rightarrow> b)"
    by (simp_all add: buf_def n(4))
  have len: "offset - us + length data \<le> length buf"
    using b(1,2) n(4) by (simp add: buf(1) us_def)
  show "sc_ok (merged_chunk offset data cs)"
    unfolding n_def [symmetric] sc_ok_def using len a(1) by (cases data) (simp_all add: n buf(1))
  assume cov: "sc_covers (merged_chunk offset data cs) p"
  then have p: "us \<le> p" "p < sc_end n" by (auto simp: sc_covers_def n_def us_def)
  have nth: "sc_byte n p = (if offset \<le> p \<and> p < offset + length data then data ! (p - offset) else buf ! (p - us))"
  proof -
    have "offset - us \<le> p - us \<and> p - us < offset - us + length data \<longleftrightarrow> offset \<le> p \<and> p < offset + length data"
      "offset \<le> p \<Longrightarrow> p - us - (offset - us) = p - offset"
      using p b(1) by (auto simp: us_def)
    then show ?thesis
      using nth_copy_at [OF len, of "p - us"] p n(4)
      by (auto simp: sc_byte_def n(1,2) us_def [symmetric] buf(1))
  qed
  have "\<exists>c \<in> set cs. t c \<and> sc_covers c p" if "\<not> (offset \<le> p \<and> p < offset + length data)"
    using cov that by (auto simp: merged_chunk_covers t_def)
  then have "chunks_content (filter t cs) p \<noteq> None" if "\<not> (offset \<le> p \<and> p < offset + length data)"
    using that by (auto simp: chunks_content_None_iff)
  with nth buf(2) [OF p] show "sc_byte (merged_chunk offset data cs) p =
      (if offset \<le> p \<and> p < offset + length data then data ! (p - offset)
       else the (chunks_content (filter (chunk_touched offset (offset + length data)) cs) p))"
    by (auto simp: n_def t_def)
qed

definition store_chunks :: "nat \<Rightarrow> bytes \<Rightarrow> stream_chunk list \<Rightarrow> stream_chunk list" where
  "store_chunks offset data cs =
     filter (\<lambda>c. \<not> chunk_touched offset (offset + length data) c) cs @ [merged_chunk offset data cs]"

lemma store_chunks_apart:
  assumes "data \<noteq> []" "chunks_ok from cs" "from \<le> offset"
  shows "chunks_ok from (store_chunks offset data cs)"
proof -
  let ?t = "chunk_touched offset (offset + length data)" and ?n = "merged_chunk offset data cs"
  note b = merged_chunk_bounds [where offset = offset and data = data and cs = cs]
  have s: "sorted_wrt sc_apart cs" "\<forall>c \<in> set cs. sc_ok c \<and> from \<le> sc_offset c"
    using assms(2) by (auto simp: chunks_ok_def)
  have "sc_apart d ?n" if d: "d \<in> set cs" "\<not> ?t d" for d
  proof -
    have dc: "sc_apart d c" if "c \<in> set cs" "?t c" for c
    proof -
      have "c \<noteq> d" using that d by auto
      with s(1) that(1) d(1) show ?thesis
        by (induction cs) (auto intro: sc_apart_sym)
    qed
    have pos: "0 < length data" using assms(1) by simp
    have apart: "offset + length data < sc_offset d \<or> sc_end d < offset"
      using d(2) by (auto simp: chunk_touched_def)
    have "sc_end d < sc_offset ?n" if "sc_end d < offset"
      using b(4)
    proof
      assume "\<exists>c \<in> set cs. ?t c \<and> sc_offset ?n = sc_offset c"
      then obtain c where c: "c \<in> set cs" "?t c" "sc_offset ?n = sc_offset c" by blast
      have "offset \<le> sc_end c" using c(2) by (simp add: chunk_touched_def)
      with dc [OF c(1,2)] c(3) that show ?thesis by (auto simp: sc_apart_def sc_end_def)
    qed (use that in simp)
    moreover have "sc_end ?n < sc_offset d" if "offset + length data < sc_offset d"
      using b(5)
    proof
      assume "\<exists>c \<in> set cs. ?t c \<and> sc_end ?n = sc_end c"
      then obtain c where c: "c \<in> set cs" "?t c" "sc_end ?n = sc_end c" by blast
      have "sc_offset c \<le> offset + length data" using c(2) by (simp add: chunk_touched_def)
      with dc [OF c(1,2)] c(3) that show ?thesis by (auto simp: sc_apart_def sc_end_def)
    qed (use that in simp)
    ultimately show ?thesis using apart by (auto simp: sc_apart_def)
  qed
  moreover have "from \<le> sc_offset ?n" using b(4) s(2) assms(3) by auto
  ultimately show ?thesis
    using s assms(1) merged_chunk_ok [of data cs offset]
    by (auto simp: store_chunks_def chunks_ok_def sorted_wrt_append sorted_wrt_filter)
qed

lemma store_chunks_covers:
  "(\<exists>c \<in> set (store_chunks offset data cs). sc_covers c p) \<longleftrightarrow>
     offset \<le> p \<and> p < offset + length data \<or> (\<exists>c \<in> set cs. sc_covers c p)"
  by (auto simp: store_chunks_def merged_chunk_covers)

lemma store_chunks_content:
  assumes "data \<noteq> []" "chunks_ok from cs" "from \<le> offset" "\<forall>c \<in> set cs. \<not> chunk_conflict offset data c"
  shows "chunks_content (store_chunks offset data cs) p =
    (if offset \<le> p \<and> p < offset + length data then Some (data ! (p - offset)) else chunks_content cs p)"
proof (rule chunks_content_eqI)
  let ?t = "chunk_touched offset (offset + length data)" and ?n = "merged_chunk offset data cs"
  have s: "sorted_wrt sc_apart cs" "\<forall>c \<in> set cs. sc_ok c"
    using assms(2) by (auto simp: chunks_ok_def)
  note byte = merged_chunk_byte [OF assms(1) s, of offset p]
  show "sorted_wrt sc_apart (store_chunks offset data cs)"
    using store_chunks_apart [OF assms(1-3)] by (simp add: chunks_ok_def)
  fix b
  show "(if offset \<le> p \<and> p < offset + length data then Some (data ! (p - offset)) else chunks_content cs p)
      = Some b \<longleftrightarrow> (\<exists>c \<in> set (store_chunks offset data cs). sc_covers c p \<and> sc_byte c p = b)"
  proof (cases "offset \<le> p \<and> p < offset + length data")
    case True
    have "\<not> sc_covers c p" if "\<not> ?t c" for c
      using that True by (auto simp: chunk_touched_def sc_covers_def)
    with True byte show ?thesis by (auto simp: store_chunks_def merged_chunk_covers)
  next
    case False
    have same: "chunks_content (filter ?t cs) p = Some x \<longleftrightarrow> (\<exists>c \<in> set cs. ?t c \<and> sc_covers c p \<and> sc_byte c p = x)" for x
      using chunks_content_Some_iff [of "filter ?t cs" p x] s(1) by (auto simp: sorted_wrt_filter)
    have n: "sc_covers ?n p \<and> sc_byte ?n p = b \<longleftrightarrow> (\<exists>c \<in> set cs. ?t c \<and> sc_covers c p \<and> sc_byte c p = b)"
    proof
      assume n: "sc_covers ?n p \<and> sc_byte ?n p = b"
      with False obtain c where c: "c \<in> set cs" "?t c" "sc_covers c p" by (auto simp: merged_chunk_covers)
      with same [of "sc_byte c p"] n byte False show "\<exists>c \<in> set cs. ?t c \<and> sc_covers c p \<and> sc_byte c p = b"
        by auto
    next
      assume c: "\<exists>c \<in> set cs. ?t c \<and> sc_covers c p \<and> sc_byte c p = b"
      then have "sc_covers ?n p" by (auto simp: merged_chunk_covers)
      with byte False same [of b] c show "sc_covers ?n p \<and> sc_byte ?n p = b" by simp
    qed
    show ?thesis
      using False n chunks_content_Some_iff [OF s(1), of p b] by (auto simp: store_chunks_def)
  qed
qed

text \<open>The bytes the merge adds are the new data less what overlapped.\<close>

lemma store_chunks_size:
  assumes "data \<noteq> []" "chunks_ok from cs" "from \<le> offset"
  shows "sum_list (map sc_length (store_chunks offset data cs)) =
    sum_list (map sc_length cs) + (length data - sum_list (map (overlap_bytes offset (offset + length data)) cs))"
    "sum_list (map (overlap_bytes offset (offset + length data)) cs) \<le> length data"
proof -
  let ?I = "{offset ..< offset + length data}" and ?C = "{p. \<exists>c \<in> set cs. sc_covers c p}"
  have s: "sorted_wrt sc_apart cs" using assms(2) by (simp add: chunks_ok_def)
  have fin: "finite ?C" using card_covered [OF s, of UNIV] by simp
  have o: "card (?I \<inter> ?C) = sum_list (map (overlap_bytes offset (offset + length data)) cs)"
    using card_covered [OF s, of ?I] arg_cong [where f = card, of "?I \<inter> ?C" "{p \<in> ?I. \<exists>c \<in> set cs. sc_covers c p}"]
    by (simp add: overlap_bytes_card [abs_def] set_eq_iff)
  then show "sum_list (map (overlap_bytes offset (offset + length data)) cs) \<le> length data"
    using card_mono [of ?I "?I \<inter> ?C"] by simp
  have "{p. \<exists>c \<in> set (store_chunks offset data cs). sc_covers c p} = ?I \<union> ?C"
    unfolding store_chunks_covers by auto
  then have "sum_list (map sc_length (store_chunks offset data cs)) = card (?I \<union> ?C)"
    using sum_lengths_card [of "store_chunks offset data cs"] store_chunks_apart [OF assms]
    by (simp add: chunks_ok_def)
  moreover have "card ?I + card ?C = card (?I \<union> ?C) + card (?I \<inter> ?C)"
    using fin by (intro card_Un_Int) auto
  ultimately show "sum_list (map sc_length (store_chunks offset data cs)) = sum_list (map sc_length cs) +
      (length data - sum_list (map (overlap_bytes offset (offset + length data)) cs))"
    using sum_lengths_card [OF s] o card_mono [of ?I "?I \<inter> ?C"] by simp
qed

lemma store_chunks_end:
  assumes "\<forall>c \<in> set cs. sc_end c \<le> h"
  shows "\<forall>c \<in> set (store_chunks offset data cs). sc_end c \<le> max h (offset + length data)"
  using assms merged_chunk_bounds(5) [where offset = offset and data = data and cs = cs]
  by (auto simp: store_chunks_def max_def)

lemma store_chunks_length:
  "length (store_chunks offset data cs) =
     length cs - length (filter (chunk_touched offset (offset + length data)) cs) + 1"
  using sum_length_filter_compl [of "chunk_touched offset (offset + length data)" cs]
  by (simp add: store_chunks_def)

section \<open>The chunk list under \<open>Consume\<close>\<close>

definition drop_front :: "nat \<Rightarrow> stream_chunk \<Rightarrow> stream_chunk" where
  "drop_front n c = c\<lparr>sc_offset := sc_offset c + n, sc_data_offset := sc_data_offset c + n,
     sc_length := sc_length c - n\<rparr>"

definition consume_chunks :: "nat \<Rightarrow> nat \<Rightarrow> stream_chunk list \<Rightarrow> stream_chunk list" where
  "consume_chunks i n cs =
     (if sc_length (drop_front n (cs ! i)) = 0 then take i cs @ drop (i + 1) cs
      else cs[i := drop_front n (cs ! i)])"

lemma first_chunk_at_le: "first_chunk_at off cs \<le> length cs"
  by (induction cs) auto

lemma first_chunk_at_found:
  "first_chunk_at off cs < length cs \<Longrightarrow> sc_offset (cs ! first_chunk_at off cs) = off"
  by (induction cs) (auto split: if_splits)

lemma first_chunk_at_none: "first_chunk_at off cs = length cs \<longleftrightarrow> (\<forall>c \<in> set cs. sc_offset c \<noteq> off)"
  by (induction cs) auto

lemma drop_front_covers:
  "n \<le> sc_length c \<Longrightarrow> sc_covers (drop_front n c) p \<longleftrightarrow> sc_covers c p \<and> sc_offset c + n \<le> p"
  by (auto simp: sc_covers_def drop_front_def sc_end_def)

lemma drop_front_byte:
  "sc_offset c + n \<le> p \<Longrightarrow> sc_byte (drop_front n c) p = sc_byte c p"
  by (simp add: sc_byte_def drop_front_def)

lemma drop_front_apart: "n \<le> sc_length c \<Longrightarrow> sc_apart c d \<Longrightarrow> sc_apart (drop_front n c) d"
  by (auto simp: sc_apart_def drop_front_def sc_end_def)

lemma drop_front_apart2: "n \<le> sc_length c \<Longrightarrow> sc_apart d c \<Longrightarrow> sc_apart d (drop_front n c)"
  using drop_front_apart [of n c d] sc_apart_sym by blast

text \<open>Both cases at once: the first chunk is shortened, and kept if something of it is left.\<close>

lemma consume_chunks_split:
  assumes "i < length cs"
  obtains xs c ys where "cs = xs @ c # ys" "c = cs ! i" "length xs = i"
    "consume_chunks i n cs = xs @ (if sc_length c = n \<or> sc_length c < n then [] else [drop_front n c]) @ ys"
proof (rule that [of "take i cs" "cs ! i" "drop (Suc i) cs"])
  show "cs = take i cs @ cs ! i # drop (Suc i) cs"
    using assms by (rule id_take_nth_drop)
  show "consume_chunks i n cs = take i cs @
      (if sc_length (cs ! i) = n \<or> sc_length (cs ! i) < n then [] else [drop_front n (cs ! i)]) @ drop (Suc i) cs"
    using assms by (auto simp: consume_chunks_def drop_front_def upd_conv_take_nth_drop)
qed (use assms in auto)

lemma consume_chunks_ok:
  assumes cs: "chunks_ok from cs" and i: "i < length cs" "sc_offset (cs ! i) = from"
    and n: "0 < n" "n \<le> sc_length (cs ! i)"
  shows "chunks_ok (from + n) (consume_chunks i n cs)"
    and "sum_list (map sc_length (consume_chunks i n cs)) + n = sum_list (map sc_length cs)"
    and "chunks_content (consume_chunks i n cs) p =
      (if p < from + n then None else chunks_content cs p)"
    and "length (consume_chunks i n cs) \<le> length cs"
    and "\<forall>c \<in> set cs. sc_end c \<le> h \<Longrightarrow> \<forall>c \<in> set (consume_chunks i n cs). sc_end c \<le> h"
proof -
  obtain xs c ys where cs': "cs = xs @ c # ys" "c = cs ! i" "length xs = i"
      "consume_chunks i n cs = xs @ (if sc_length c = n \<or> sc_length c < n then [] else [drop_front n c]) @ ys"
    by (rule consume_chunks_split [OF i(1), of n])
  then have new: "consume_chunks i n cs = xs @ (if sc_length c = n then [] else [drop_front n c]) @ ys"
    using n(2) by (simp only: cs'(2)) auto
  have c: "sc_ok c" "sc_offset c = from" "n \<le> sc_length c"     using cs nth_mem [OF i(1)] i(2) n(2) by (simp_all only: cs'(2) chunks_ok_def)
  have apart: "sorted_wrt sc_apart (xs @ c # ys)" using cs by (simp only: cs'(1) chunks_ok_def)
  have others: "sc_ok d \<and> from + n \<le> sc_offset d" if "d \<in> set (xs @ ys)" for d
  proof -
    from that cs cs'(1) have "sc_ok d" "from \<le> sc_offset d" by (auto simp: chunks_ok_def)
    with apart_rest [OF apart that] c show ?thesis by (auto simp: sc_apart_def sc_end_def sc_ok_def)
  qed
  have sorted: "sorted_wrt sc_apart (consume_chunks i n cs)"
    using apart c(3) unfolding new
    by (auto simp: sorted_wrt_append intro: drop_front_apart drop_front_apart2)
  have "sc_ok (drop_front n c)" if "sc_length c \<noteq> n"
    using c that by (auto simp: sc_ok_def drop_front_def)
  then show "chunks_ok (from + n) (consume_chunks i n cs)"
    using sorted others c unfolding chunks_ok_def new by (auto simp: drop_front_def)
  show "sum_list (map sc_length (consume_chunks i n cs)) + n = sum_list (map sc_length cs)"
    using c unfolding new unfolding cs'(1) by (auto simp: drop_front_def)
  show "length (consume_chunks i n cs) \<le> length cs"
    unfolding new unfolding cs'(1) by auto
  show "\<forall>c \<in> set cs. sc_end c \<le> h \<Longrightarrow> \<forall>c \<in> set (consume_chunks i n cs). sc_end c \<le> h"
    using c(3) unfolding new unfolding cs'(1) by (auto simp: drop_front_def sc_end_def)
  show "chunks_content (consume_chunks i n cs) p = (if p < from + n then None else chunks_content cs p)"
  proof (rule chunks_content_eqI [OF sorted])
    fix b
    have gone: "sc_covers c p \<Longrightarrow> sc_length c = n \<Longrightarrow> p < from + n"
      using c(2) by (simp add: sc_covers_def sc_end_def)
    have rest: "d \<in> set (xs @ ys) \<Longrightarrow> sc_covers d p \<Longrightarrow> from + n \<le> p" for d
      using others [of d] by (auto simp: sc_covers_def)
    show "(if p < from + n then None else chunks_content cs p) = Some b \<longleftrightarrow>
        (\<exists>d \<in> set (consume_chunks i n cs). sc_covers d p \<and> sc_byte d p = b)"
    proof (cases "p < from + n")
      case True
      then show ?thesis
        using rest c unfolding new by (auto simp: drop_front_covers dest: not_le_imp_less)
    next
      case False
      then have "(\<exists>d \<in> set (consume_chunks i n cs). sc_covers d p \<and> sc_byte d p = b) \<longleftrightarrow>
          (\<exists>d \<in> set (xs @ c # ys). sc_covers d p \<and> sc_byte d p = b)"
        using c gone unfolding new by (auto simp: drop_front_covers drop_front_byte)
      with False show ?thesis
        using chunks_content_Some_iff [OF apart, of p b] by (simp add: cs'(1))
    qed
  qed
qed

section \<open>Notifications change nothing but the event log and its flags\<close>

definition qs_unobserved :: "(quic_stream \<Rightarrow> 'a) \<Rightarrow> bool" where
  "qs_unobserved f \<longleftrightarrow> (\<forall>s e b. f (qs_emit e s) = f s \<and> f (s\<lparr>qs_opened_notified := b\<rparr>) = f s
     \<and> f (s\<lparr>qs_readable_notified := b\<rparr>) = f s \<and> f (s\<lparr>qs_closed_notified := b\<rparr>) = f s
     \<and> f (s\<lparr>qs_write_blocked := b\<rparr>) = f s)"

lemma unobserved_notify:
  assumes "qs_unobserved f"
  shows "f (qs_notify_readable s) = f s" "f (qs_refresh_readable s) = f s"
    "f (qs_notify_closed_if_needed s) = f s" "f (qs_notify_closed s) = f s"
    "f (qs_notify_opened s) = f s" "f (qs_notify_reset err peer s) = f s"
    "f (qs_try_notify_writable s) = f s" "f (qs_mark_write_blocked s) = f s"
  using assms
  by (simp_all add: qs_unobserved_def qs_notify_readable_def qs_refresh_readable_def
      qs_notify_closed_if_needed_def qs_notify_closed_def qs_notify_opened_def qs_notify_reset_def
      qs_try_notify_writable_def qs_notify_writable_def qs_mark_write_blocked_def)

lemma qs_unobserved_fields:
  "qs_unobserved qs_chunks" "qs_unobserved qs_consumed" "qs_unobserved qs_initialized"
  "qs_unobserved qs_buffered" "qs_unobserved qs_highest" "qs_unobserved qs_unique_bytes"
  "qs_unobserved qs_send_offset" "qs_unobserved qs_send_limit" "qs_unobserved qs_send_fin"
  "qs_unobserved qs_reset_sent" "qs_unobserved qs_id" "qs_unobserved qs_max_reassembly"
  by (simp_all add: qs_unobserved_def qs_emit_def)

lemmas qs_fields [simp] = qs_unobserved_fields [THEN unobserved_notify(1)]
  qs_unobserved_fields [THEN unobserved_notify(2)] qs_unobserved_fields [THEN unobserved_notify(3)]
  qs_unobserved_fields [THEN unobserved_notify(4)] qs_unobserved_fields [THEN unobserved_notify(5)]
  qs_unobserved_fields [THEN unobserved_notify(6)] qs_unobserved_fields [THEN unobserved_notify(7)]
  qs_unobserved_fields [THEN unobserved_notify(8)]

section \<open>The stream invariant\<close>

definition qs_inv :: "quic_stream \<Rightarrow> bool" where
  "qs_inv s \<longleftrightarrow> (qs_initialized s \<longrightarrow>
     chunks_ok (qs_consumed s) (qs_chunks s) \<and> (\<forall>c \<in> set (qs_chunks s). sc_end c \<le> qs_highest s)
     \<and> qs_buffered s = sum_list (map sc_length (qs_chunks s))
     \<and> qs_unique_bytes s = qs_consumed s + qs_buffered s
     \<and> qs_buffered s \<le> qs_max_reassembly s \<and> length (qs_chunks s) \<le> qs_max_gaps s
     \<and> qs_consumed s \<le> qs_highest s \<and> qs_highest s \<le> qs_receive_limit s
     \<and> qs_receive_limit s \<le> QuicVarIntMaximum
     \<and> qs_send_offset s \<le> qs_send_limit s \<and> qs_send_limit s \<le> QuicVarIntMaximum)"

definition qs_content :: "quic_stream \<Rightarrow> nat \<Rightarrow> byte option" where
  "qs_content s = chunks_content (qs_chunks s)"

lemma qs_unobserved_inv: "qs_unobserved qs_inv"
  by (simp add: qs_unobserved_def qs_emit_def qs_inv_def)

lemmas qs_inv_notify [simp] = unobserved_notify [OF qs_unobserved_inv]

lemma qs_content_cong: "qs_chunks s = qs_chunks t \<Longrightarrow> qs_content s = qs_content t"
  by (simp add: qs_content_def)

lemma qs_inv_initialize:
  assumes "qs_initialize ok i maxBytes maxGaps s0 = (STATUS_SUCCESS, s)"
  shows "qs_inv s \<and> qs_initialized s \<and> qs_chunks s = [] \<and> qs_consumed s = 0 \<and> qs_id s = i
    \<and> qs_max_reassembly s = maxBytes \<and> qs_send_offset s = 0"
  using assms by (auto simp: qs_initialize_def qs_inv_def chunks_ok_def qs_clear_def Let_def split: if_splits)

section \<open>Receiving on the stream\<close>

lemma qs_store_eq:
  "qs_store ok offset data notify s =
    (let cs = qs_chunks s; stop = offset + length data;
         unique = length data - sum_list (map (overlap_bytes offset stop) cs)
     in if \<exists>c \<in> set cs. chunk_conflict offset data c then (STATUS_INVALID_NETWORK_RESPONSE, s)
        else if unique > qs_max_reassembly s - qs_buffered s
          \<or> (filter (chunk_touched offset stop) cs = [] \<and> length cs \<ge> qs_max_gaps s) \<or> \<not> ok
        then (STATUS_INSUFFICIENT_RESOURCES, s)
        else let s1 = s\<lparr>qs_chunks := store_chunks offset data cs,
               qs_unique_bytes := qs_unique_bytes s + unique, qs_buffered := qs_buffered s + unique,
               qs_highest := (if stop > qs_highest s then stop else qs_highest s)\<rparr>
             in (STATUS_SUCCESS, if notify then qs_notify_readable s1 else s1))"
  unfolding qs_store_def receive_scan_eq
  by (simp add: Let_def keep_unaffected_filter affected_count [unfolded id_def] store_chunks_def
      merged_chunk_def id_def comp_def)

lemma qs_store_success:
  assumes inv: "qs_inv s" "qs_initialized s" and run: "qs_store ok offset data notify s = (STATUS_SUCCESS, s')"
    and data: "data \<noteq> []" "qs_consumed s \<le> offset" "offset + length data \<le> qs_receive_limit s"
  shows "qs_inv s' \<and> qs_initialized s' \<and> qs_consumed s' = qs_consumed s
    \<and> (\<forall>c \<in> set (qs_chunks s). \<not> chunk_conflict offset data c)
    \<and> qs_content s' = (\<lambda>p. if offset \<le> p \<and> p < offset + length data then Some (data ! (p - offset))
                             else qs_content s p)"
proof -
  let ?cs = "qs_chunks s" and ?stop = "offset + length data"
  let ?u = "length data - sum_list (map (overlap_bytes offset ?stop) ?cs)"
  define s1 where "s1 = s\<lparr>qs_chunks := store_chunks offset data ?cs,
    qs_unique_bytes := qs_unique_bytes s + ?u, qs_buffered := qs_buffered s + ?u,
    qs_highest := (if ?stop > qs_highest s then ?stop else qs_highest s)\<rparr>"
  have ok: "chunks_ok (qs_consumed s) ?cs" "\<forall>c \<in> set ?cs. sc_end c \<le> qs_highest s"
    using inv by (simp_all add: qs_inv_def)
  from run have s': "s' = (if notify then qs_notify_readable s1 else s1)"
    and nc: "\<forall>c \<in> set ?cs. \<not> chunk_conflict offset data c"
    and room: "?u \<le> qs_max_reassembly s - qs_buffered s"
    and gaps: "filter (chunk_touched offset ?stop) ?cs \<noteq> [] \<or> length ?cs < qs_max_gaps s"
    unfolding qs_store_eq s1_def by (simp_all add: Let_def not_less not_le split: if_splits)
  have "length (store_chunks offset data ?cs) \<le> qs_max_gaps s"
  proof -
    have "length (filter (chunk_touched offset ?stop) ?cs) \<le> length ?cs" by (rule length_filter_le)
    moreover have "length ?cs \<le> qs_max_gaps s" using inv by (auto simp: qs_inv_def)
    moreover have "0 < length (filter (chunk_touched offset ?stop) ?cs) \<or> length ?cs < qs_max_gaps s"
      using gaps by (simp only: length_greater_0_conv)
    ultimately show ?thesis unfolding store_chunks_length by linarith
  qed
  then have "qs_inv s1"
    using inv room data store_chunks_apart [OF data(1) ok(1) data(2)] store_chunks_end [OF ok(2), of offset data]
      store_chunks_size(1) [OF data(1) ok(1) data(2)]
    by (simp add: qs_inv_def s1_def max_def) force
  moreover have "qs_content s1 = (\<lambda>p. if offset \<le> p \<and> p < ?stop then Some (data ! (p - offset)) else qs_content s p)"
    by (rule ext) (simp add: qs_content_def s1_def store_chunks_content [OF data(1) ok(1) data(2) nc])
  moreover have "qs_initialized s1" "qs_consumed s1 = qs_consumed s" using inv by (simp_all add: s1_def)
  ultimately show ?thesis
    using nc by (simp add: s' qs_content_cong [of "qs_notify_readable s1" s1])
qed

lemma qs_store_refused:
  "qs_store ok offset data notify s = (st, s') \<Longrightarrow> st \<noteq> STATUS_SUCCESS \<Longrightarrow> s' = s"
  unfolding qs_store_eq by (auto simp: Let_def split: if_splits)

text \<open>
  The bytes of \<open>data\<close> that are still wanted: those at or above what has been consumed, unless the
  stream was reset by the peer.
\<close>

definition qs_wanted :: "quic_stream \<Rightarrow> nat \<Rightarrow> bytes \<Rightarrow> nat \<Rightarrow> bool" where
  "qs_wanted s offset data p \<longleftrightarrow>
     \<not> qs_receive_reset s \<and> qs_consumed s \<le> p \<and> offset \<le> p \<and> p < offset + length data"

definition qs_with_fin :: "bool \<Rightarrow> nat \<Rightarrow> quic_stream \<Rightarrow> quic_stream" where
  "qs_with_fin fin stop s = (if fin then s\<lparr>qs_final_size_known := True, qs_final_size := stop\<rparr> else s)"

lemma qs_with_fin_fields [simp]:
  "qs_chunks (qs_with_fin fin t s) = qs_chunks s" "qs_consumed (qs_with_fin fin t s) = qs_consumed s"
  "qs_initialized (qs_with_fin fin t s) = qs_initialized s" "qs_inv (qs_with_fin fin t s) = qs_inv s"
  "qs_receive_limit (qs_with_fin fin t s) = qs_receive_limit s" "qs_highest (qs_with_fin fin t s) = qs_highest s"
  "qs_receive_reset (qs_with_fin fin t s) = qs_receive_reset s" "qs_send_offset (qs_with_fin fin t s) = qs_send_offset s"
  "qs_content (qs_with_fin fin t s) = qs_content s" "qs_send_limit (qs_with_fin fin t s) = qs_send_limit s"
  "qs_id (qs_with_fin fin t s) = qs_id s"
  by (simp_all add: qs_with_fin_def qs_inv_def qs_content_def)

text \<open>The outcomes of \<open>Receive\<close>: refused before anything, ignored, or handed to the reassembly.\<close>

lemma qs_receive_cases:
  assumes "qs_receive ok offset data fin notify s = (st, s')"
  obtains (refused) "st \<noteq> STATUS_SUCCESS" "s' = s"
  | (reset) "qs_receive_reset s" "s' = qs_with_fin fin (offset + length data) s" "qs_initialized s"
  | (ignored) h where "qs_initialized s" "st = STATUS_SUCCESS" "\<not> qs_receive_reset s"
      "qs_highest s \<le> h" "h \<le> max (qs_highest s) (qs_receive_limit s)"
      "\<And>p. \<not> qs_wanted s offset data p"
      "s' = (if notify then qs_notify_readable ((qs_with_fin fin (offset + length data) s)\<lparr>qs_highest := h\<rparr>)
             else (qs_with_fin fin (offset + length data) s)\<lparr>qs_highest := h\<rparr>)"
  | (stored) trim where "qs_initialized s" "\<not> qs_receive_reset s" "offset + length data \<le> qs_receive_limit s"
      "trim = qs_consumed s - offset" "drop trim data \<noteq> []"
      "qs_store ok (offset + trim) (drop trim data) notify (qs_with_fin fin (offset + length data) s) = (st, s')"
proof -
  let ?stop = "offset + length data"
  let ?s1 = "qs_with_fin fin ?stop s"
  show thesis
  proof (cases "\<not> qs_initialized s \<or> offset > QuicVarIntMaximum \<or> length data > QuicVarIntMaximum - offset
      \<or> \<not> stream_bidirectional (qs_id s) \<and> stream_client_initiated (qs_id s) \<or> ?stop > qs_receive_limit s
      \<or> qs_final_size_known s \<and> ?stop > qs_final_size s
      \<or> fin \<and> qs_final_size_known s \<and> qs_final_size s \<noteq> ?stop")
    case True
    with assms have "st \<noteq> STATUS_SUCCESS \<and> s' = s"
      unfolding qs_receive_def Let_def by (auto split: if_splits)
    then show thesis by (intro refused) auto
  next
    case False
    then have run: "qs_receive_checked ok offset data notify ?s1 = (st, s')"
      using assms unfolding qs_receive_def Let_def qs_with_fin_def [symmetric] by (simp split: if_splits)
    have g: "qs_initialized s" "?stop \<le> qs_receive_limit s" using False by auto
    consider (r) "qs_receive_reset s" | (e) "\<not> qs_receive_reset s" "data = []"
      | (old) "\<not> qs_receive_reset s" "data \<noteq> []" "?stop \<le> qs_consumed s"
      | (new) "\<not> qs_receive_reset s" "data \<noteq> []" "qs_consumed s < ?stop"
      by linarith
    then show thesis
    proof cases
      case r
      with run g show thesis by (intro reset) (auto simp: qs_receive_checked_def)
    next
      case e
      with run g show thesis
        by (intro ignored [of "if ?stop > qs_highest s then ?stop else qs_highest s"])
           (auto simp: qs_wanted_def qs_receive_checked_def Let_def)
    next
      case old
      have same: "?s1\<lparr>qs_highest := qs_highest s\<rparr> = ?s1" by (simp add: qs_with_fin_def)
      from old run g show thesis
        by (intro ignored [of "qs_highest s"]) (auto simp: same qs_wanted_def qs_receive_checked_def Let_def)
    next
      case new
      with run g show thesis
        by (intro stored [of "qs_consumed s - offset"]) (auto simp: qs_receive_checked_def Let_def split: if_splits)
    qed
  qed
qed

lemma qs_receive_correct:
  assumes inv: "qs_inv s" and run: "qs_receive ok offset data fin notify s = (st, s')"
  shows "qs_inv s' \<and> qs_consumed s' = qs_consumed s \<and> qs_initialized s' = qs_initialized s
    \<and> (if st = STATUS_SUCCESS
       then (\<forall>p b. qs_wanted s offset data p \<and> qs_content s p = Some b \<longrightarrow> data ! (p - offset) = b)
         \<and> qs_content s' = (\<lambda>p. if qs_wanted s offset data p then Some (data ! (p - offset)) else qs_content s p)
       else qs_content s' = qs_content s)"
  using run
proof (cases rule: qs_receive_cases)
  case refused
  with inv show ?thesis by simp
next
  case reset
  then have "\<And>p. \<not> qs_wanted s offset data p" by (simp add: qs_wanted_def)
  with reset inv show ?thesis by simp
next
  case (ignored h)
  let ?s2 = "(qs_with_fin fin (offset + length data) s)\<lparr>qs_highest := h\<rparr>"
  have "qs_inv ?s2" using inv ignored by (force simp: qs_inv_def qs_with_fin_def)
  moreover have "qs_content s' = qs_content s"
    using ignored by (intro qs_content_cong) simp
  ultimately show ?thesis using ignored by simp
next
  case (stored trim)
  let ?s1 = "qs_with_fin fin (offset + length data) s"
  show ?thesis
  proof (cases "st = STATUS_SUCCESS")
    case False
    with qs_store_refused [OF stored(6)] inv show ?thesis by simp
  next
    case True
    have len: "offset + trim + length (drop trim data) = offset + length data"
      using stored(5) by simp
    note st = qs_store_success [OF _ _ stored(6) [unfolded True] stored(5), unfolded len]
    have "\<And>p. offset + trim \<le> p \<and> p < offset + length data \<longleftrightarrow> qs_wanted s offset data p"
      using stored(2,4) by (auto simp: qs_wanted_def)
    moreover have "\<And>p. qs_wanted s offset data p \<Longrightarrow> drop trim data ! (p - (offset + trim)) = data ! (p - offset)"
      using stored(4,5) by (auto simp: qs_wanted_def nth_drop)
    ultimately have c: "qs_content s' = (\<lambda>p. if qs_wanted s offset data p then Some (data ! (p - offset)) else qs_content s p)"
      and i: "qs_inv s'" "qs_initialized s'" "qs_consumed s' = qs_consumed s"
      and nc: "\<forall>c \<in> set (qs_chunks s). \<not> chunk_conflict (offset + trim) (drop trim data) c"
      using st inv stored by (auto intro!: ext)
    have "data ! (p - offset) = b" if w: "qs_wanted s offset data p" "qs_content s p = Some b" for p b
    proof -
      have "sorted_wrt sc_apart (qs_chunks s)" using inv stored(1) by (simp add: qs_inv_def chunks_ok_def)
      with w(2) obtain c where c: "c \<in> set (qs_chunks s)" "sc_covers c p" "sc_byte c p = b"
        by (auto simp: qs_content_def chunks_content_Some_iff)
      have "drop trim data ! (p - (offset + trim)) = sc_byte c p"
        using nc c w(1) stored(4) len by (intro agree_without_conflict) (auto simp: qs_wanted_def)
      moreover have "drop trim data ! (p - (offset + trim)) = data ! (p - offset)"
        using w(1) stored(4,5) by (auto simp: qs_wanted_def nth_drop)
      ultimately show ?thesis using c(3) by simp
    qed
    with True c i stored(1) show ?thesis by simp
  qed
qed

section \<open>Consuming from the stream\<close>

lemma content_below_consumed:
  "chunks_ok from cs \<Longrightarrow> p < from \<Longrightarrow> chunks_content cs p = None"
  by (force simp: chunks_content_None_iff chunks_ok_def sc_covers_def)

lemma content_at_front:
  assumes "chunks_ok from cs" "chunks_content cs from = Some b"
  shows "first_chunk_at from cs < length cs"
proof -
  from assms obtain c where "c \<in> set cs" "sc_covers c from"
    by (auto simp: chunks_ok_def chunks_content_Some_iff)
  with assms(1) have "c \<in> set cs" "sc_offset c = from"
    by (auto simp: chunks_ok_def sc_covers_def intro: le_antisym)
  then have "first_chunk_at from cs \<noteq> length cs" by (auto simp: first_chunk_at_none)
  with first_chunk_at_le [of "from" cs] show ?thesis by simp
qed

lemma front_chunk_content:
  assumes "chunks_ok from cs" "i < length cs" "sc_offset (cs ! i) = from" "k < sc_length (cs ! i)"
  shows "chunks_content cs (from + k) = Some (sc_data (cs ! i) ! (sc_data_offset (cs ! i) + k))"
proof -
  have "sc_covers (cs ! i) (from + k)" "sc_byte (cs ! i) (from + k) = sc_data (cs ! i) ! (sc_data_offset (cs ! i) + k)"
    using assms by (auto simp: sc_covers_def sc_end_def sc_byte_def)
  moreover have "cs ! i \<in> set cs" using assms(2) by simp
  ultimately show ?thesis
    using assms(1) chunks_content_Some_iff [of cs "from + k"] unfolding chunks_ok_def by blast
qed

lemma qs_consume_cases:
  assumes "qs_consume cap s = (st, out, fin, s')" "qs_initialized s" "qs_inv s"
  obtains (idle) "first_chunk_at (qs_consumed s) (qs_chunks s) = length (qs_chunks s)" "out = []" "s' = s"
  | (full) "cap = 0" "out = []" "s' = s"
  | (some) i n where "i = first_chunk_at (qs_consumed s) (qs_chunks s)" "i < length (qs_chunks s)"
      "sc_offset (qs_chunks s ! i) = qs_consumed s" "st = STATUS_SUCCESS"
      "n = min cap (sc_length (qs_chunks s ! i))" "0 < n"
      "out = take n (drop (sc_data_offset (qs_chunks s ! i)) (sc_data (qs_chunks s ! i)))"
      "s' = qs_refresh_readable (s\<lparr>qs_consumed := qs_consumed s + n, qs_buffered := qs_buffered s - n,
         qs_chunks := consume_chunks i n (qs_chunks s)\<rparr>)"
proof -
  let ?i = "first_chunk_at (qs_consumed s) (qs_chunks s)"
  let ?c = "qs_chunks s ! ?i"
  show thesis
  proof (cases "?i = length (qs_chunks s)")
    case True
    with assms show thesis by (intro idle) (auto simp: qs_consume_def Let_def)
  next
    case False
    with first_chunk_at_le have i: "?i < length (qs_chunks s)" by (simp add: le_neq_implies_less)
    have n: "(if cap < sc_length ?c then cap else sc_length ?c) = min cap (sc_length ?c)" by simp
    have "0 < sc_length ?c" using assms i by (auto simp: qs_inv_def chunks_ok_def sc_ok_def)
    show thesis
    proof (cases "cap = 0")
      case True
      with False assms(1,2) \<open>0 < sc_length ?c\<close> show thesis
        by (intro full) (simp_all add: qs_consume_def Let_def)
    next
      case pos: False
      with \<open>0 < sc_length ?c\<close> have m: "0 < min cap (sc_length ?c)" by simp
      show thesis
        using assms(1,2) False m first_chunk_at_found [OF i]
        unfolding qs_consume_def Let_def n drop_front_def [symmetric] consume_chunks_def [symmetric]
        by (intro some [OF refl i _ _ refl]) auto
    qed
  qed
qed

lemma qs_consume_correct:
  assumes inv: "qs_inv s" "qs_initialized s" and run: "qs_consume cap s = (st, out, fin, s')"
  shows "qs_inv s' \<and> qs_initialized s' \<and> qs_consumed s' = qs_consumed s + length out \<and> length out \<le> cap
    \<and> (\<forall>k < length out. qs_content s (qs_consumed s + k) = Some (out ! k))
    \<and> qs_content s' = (\<lambda>p. if p < qs_consumed s' then None else qs_content s p)
    \<and> (0 < cap \<and> qs_content s (qs_consumed s) \<noteq> None \<longrightarrow> st = STATUS_SUCCESS \<and> out \<noteq> [])"
proof -
  have ok: "chunks_ok (qs_consumed s) (qs_chunks s)" using inv by (auto simp: qs_inv_def)
  have below: "qs_content s = (\<lambda>p. if p < qs_consumed s then None else qs_content s p)"
    using content_below_consumed [OF ok] by (auto simp: qs_content_def)
  from run inv(2,1) show ?thesis
  proof (cases rule: qs_consume_cases)
    case idle
    then have "qs_content s (qs_consumed s) = None"
      using content_at_front [OF ok] by (cases "qs_content s (qs_consumed s)") (auto simp: qs_content_def)
    with idle inv below show ?thesis by simp
  next
    case full
    with inv below show ?thesis by simp
  next
    case (some i n)
    let ?c = "qs_chunks s ! i"
    have "sc_ok ?c" using ok some(2) by (simp add: chunks_ok_def)
    then have len: "length out = n" using some(5,7) by (auto simp: sc_ok_def)
    have n: "0 < n" "n \<le> sc_length ?c" using some by auto
    note cc = consume_chunks_ok [OF ok some(2,3) n]
    define s1 where "s1 = s\<lparr>qs_consumed := qs_consumed s + n, qs_buffered := qs_buffered s - n,
         qs_chunks := consume_chunks i n (qs_chunks s)\<rparr>"
    have "sc_end ?c \<le> qs_highest s" using inv some(2) by (auto simp: qs_inv_def)
    then have "qs_consumed s + n \<le> qs_highest s" using n some(3) by (simp add: sc_end_def)
    then have "qs_inv s1"
      using inv cc(1,2,4) cc(5) [of "qs_highest s"] by (simp add: qs_inv_def s1_def) linarith
    moreover have "qs_content s1 = (\<lambda>p. if p < qs_consumed s + n then None else qs_content s p)"
      using cc(3) by (auto simp: qs_content_def s1_def)
    moreover have "qs_content s' = qs_content s1" using some by (intro qs_content_cong) (simp add: s1_def)
    moreover have "qs_content s (qs_consumed s + k) = Some (out ! k)" if "k < length out" for k
    proof -
      have "k < sc_length ?c" using that len n by simp
      from front_chunk_content [OF ok some(2,3) this] show ?thesis
        using that len some(7) \<open>sc_ok ?c\<close> by (simp add: qs_content_def sc_ok_def)
    qed
    ultimately show ?thesis
      using inv some(4,5,8) len n by (auto simp: s1_def [symmetric]) (simp_all add: s1_def)
  qed
qed

section \<open>The other operations\<close>

lemma qs_other_inv:
  assumes "qs_inv s"
  shows "qs_inv (snd (qs_set_receive_limit m s))" "qs_inv (snd (qs_set_send_limit m s))"
    "qs_inv (snd (qs_on_max_stream_data m s))" "qs_inv (snd (snd (qs_write len fin s)))"
    "qs_inv (snd (qs_reset err fs s))" "qs_inv (snd (qs_on_reset_received err fs s))"
    "qs_inv (snd (qs_stop_sending err s))" "qs_inv (snd (snd (qs_take_blocked s)))"
    "qs_inv (qs_set_sink k s)"
proof -
  show "qs_inv (snd (qs_set_receive_limit m s))"
    using assms by (auto simp: qs_set_receive_limit_def qs_inv_def)
  show "qs_inv (snd (qs_set_send_limit m s))"
    using assms by (simp add: qs_set_send_limit_def) (auto simp: qs_inv_def)
  show "qs_inv (snd (qs_on_max_stream_data m s))"
    using assms by (simp add: qs_on_max_stream_data_def) (auto simp: qs_inv_def)
  show "qs_inv (snd (snd (qs_write len fin s)))"
    using assms by (simp add: qs_write_def qs_can_write_def Let_def) (auto simp: qs_inv_def)
  show "qs_inv (snd (qs_reset err fs s))"
    using assms by (simp add: qs_reset_def) (auto simp: qs_inv_def)
  show "qs_inv (snd (qs_on_reset_received err fs s))"
    using assms by (simp add: qs_on_reset_received_def) (force simp: qs_inv_def)
  show "qs_inv (snd (qs_stop_sending err s))"
    using assms by (auto simp: qs_stop_sending_def qs_inv_def)
  show "qs_inv (snd (snd (qs_take_blocked s)))"
    using assms by (auto simp: qs_take_blocked_def qs_inv_def)
  show "qs_inv (qs_set_sink k s)"
    using assms by (simp add: qs_set_sink_def Let_def) (auto simp: qs_inv_def)
qed

lemma qs_other_receive:
  "qs_chunks (snd (qs_set_receive_limit m s)) = qs_chunks s \<and> qs_consumed (snd (qs_set_receive_limit m s)) = qs_consumed s"
  "qs_chunks (snd (qs_set_send_limit m s)) = qs_chunks s \<and> qs_consumed (snd (qs_set_send_limit m s)) = qs_consumed s"
  "qs_chunks (snd (qs_on_max_stream_data m s)) = qs_chunks s \<and> qs_consumed (snd (qs_on_max_stream_data m s)) = qs_consumed s"
  "qs_chunks (snd (snd (qs_write len fin s))) = qs_chunks s \<and> qs_consumed (snd (snd (qs_write len fin s))) = qs_consumed s"
  "qs_chunks (snd (qs_reset err fs s)) = qs_chunks s \<and> qs_consumed (snd (qs_reset err fs s)) = qs_consumed s"
  "qs_chunks (snd (qs_on_reset_received err fs s)) = qs_chunks s \<and> qs_consumed (snd (qs_on_reset_received err fs s)) = qs_consumed s"
  "qs_chunks (snd (qs_stop_sending err s)) = qs_chunks s \<and> qs_consumed (snd (qs_stop_sending err s)) = qs_consumed s"
  "qs_chunks (snd (snd (qs_take_blocked s))) = qs_chunks s \<and> qs_consumed (snd (snd (qs_take_blocked s))) = qs_consumed s"
  "qs_chunks (qs_set_sink k s) = qs_chunks s \<and> qs_consumed (qs_set_sink k s) = qs_consumed s"
  by (simp_all add: qs_set_receive_limit_def qs_set_send_limit_def qs_on_max_stream_data_def qs_write_def
      qs_reset_def qs_on_reset_received_def qs_stop_sending_def qs_take_blocked_def qs_set_sink_def Let_def)

section \<open>Runs of a stream\<close>

datatype stream_op =
    OpReceive bool nat bytes bool bool
  | OpConsume nat
  | OpSetReceiveLimit nat
  | OpSetSendLimit nat
  | OpMaxStreamData nat
  | OpWrite nat bool
  | OpReset nat nat
  | OpResetReceived nat nat
  | OpStopSending nat
  | OpTakeBlocked
  | OpMarkWriteBlocked
  | OpTryNotifyWritable
  | OpNotifyReadable
  | OpSetSink "stream_sink option"

text \<open>An operation's delivered bytes and its effect; only \<open>Consume\<close> delivers any.\<close>

fun qs_apply :: "stream_op \<Rightarrow> quic_stream \<Rightarrow> bytes \<times> quic_stream" where
  "qs_apply (OpReceive ok offset data fin notify) s = ([], snd (qs_receive ok offset data fin notify s))"
| "qs_apply (OpConsume cap) s = (case qs_consume cap s of (st, out, fin, s') \<Rightarrow> (out, s'))"
| "qs_apply (OpSetReceiveLimit m) s = ([], snd (qs_set_receive_limit m s))"
| "qs_apply (OpSetSendLimit m) s = ([], snd (qs_set_send_limit m s))"
| "qs_apply (OpMaxStreamData m) s = ([], snd (qs_on_max_stream_data m s))"
| "qs_apply (OpWrite len fin) s = ([], snd (snd (qs_write len fin s)))"
| "qs_apply (OpReset err fs) s = ([], snd (qs_reset err fs s))"
| "qs_apply (OpResetReceived err fs) s = ([], snd (qs_on_reset_received err fs s))"
| "qs_apply (OpStopSending err) s = ([], snd (qs_stop_sending err s))"
| "qs_apply OpTakeBlocked s = ([], snd (snd (qs_take_blocked s)))"
| "qs_apply OpMarkWriteBlocked s = ([], qs_mark_write_blocked s)"
| "qs_apply OpTryNotifyWritable s = ([], qs_try_notify_writable s)"
| "qs_apply OpNotifyReadable s = ([], qs_notify_readable s)"
| "qs_apply (OpSetSink k) s = ([], qs_set_sink k s)"

primrec qs_run :: "stream_op list \<Rightarrow> quic_stream \<Rightarrow> bytes \<times> quic_stream" where
  "qs_run [] s = ([], s)"
| "qs_run (x # xs) s =
     (case qs_apply x s of (out, s1) \<Rightarrow> (case qs_run xs s1 of (outs, s2) \<Rightarrow> (out @ outs, s2)))"

text \<open>Every received piece is a piece of the content \<open>f\<close>.\<close>

fun op_agrees :: "(nat \<Rightarrow> byte) \<Rightarrow> stream_op \<Rightarrow> bool" where
  "op_agrees f (OpReceive ok offset data fin notify) \<longleftrightarrow> data = map f [offset ..< offset + length data]"
| "op_agrees f _ \<longleftrightarrow> True"

definition content_agrees :: "(nat \<Rightarrow> byte) \<Rightarrow> quic_stream \<Rightarrow> bool" where
  "content_agrees f s \<longleftrightarrow> (\<forall>p b. qs_content s p = Some b \<longrightarrow> b = f p)"

lemma content_agrees_cong: "qs_chunks s = qs_chunks t \<Longrightarrow> content_agrees f s = content_agrees f t"
  by (simp add: content_agrees_def qs_content_def)

lemma qs_other_initialized:
  "qs_initialized (snd (qs_set_receive_limit m s)) = qs_initialized s"
  "qs_initialized (snd (qs_set_send_limit m s)) = qs_initialized s"
  "qs_initialized (snd (qs_on_max_stream_data m s)) = qs_initialized s"
  "qs_initialized (snd (snd (qs_write len fin s))) = qs_initialized s"
  "qs_initialized (snd (qs_reset err fs s)) = qs_initialized s"
  "qs_initialized (snd (qs_on_reset_received err fs s)) = qs_initialized s"
  "qs_initialized (snd (qs_stop_sending err s)) = qs_initialized s"
  "qs_initialized (snd (snd (qs_take_blocked s))) = qs_initialized s"
  "qs_initialized (qs_set_sink k s) = qs_initialized s"
  by (simp_all add: qs_set_receive_limit_def qs_set_send_limit_def qs_on_max_stream_data_def qs_write_def
      qs_reset_def qs_on_reset_received_def qs_stop_sending_def qs_take_blocked_def qs_set_sink_def Let_def)

lemma map_upt_extend:
  assumes "\<forall>k < length ys. ys ! k = f (n + k)"
  shows "map f [0 ..< n] @ ys = map f [0 ..< n + length ys]"
proof -
  have "ys = map f [n ..< n + length ys]"
    using assms by (intro nth_equalityI) simp_all
  then show ?thesis by (simp add: upt_add_eq_append [of 0 n "length ys"])
qed

lemma qs_apply_other:
  assumes "qs_inv s" "qs_apply x s = (out, s')"
    and "\<nexists>ok offset data fin notify. x = OpReceive ok offset data fin notify" "\<nexists>cap. x = OpConsume cap"
  shows "out = [] \<and> qs_inv s' \<and> qs_chunks s' = qs_chunks s \<and> qs_consumed s' = qs_consumed s
    \<and> qs_initialized s' = qs_initialized s"
proof -
  have "fst (qs_apply x s) = [] \<and> qs_inv (snd (qs_apply x s)) \<and> qs_chunks (snd (qs_apply x s)) = qs_chunks s
    \<and> qs_consumed (snd (qs_apply x s)) = qs_consumed s \<and> qs_initialized (snd (qs_apply x s)) = qs_initialized s"
    using assms(1,3,4)
    by (cases x) (simp_all add: qs_other_inv [OF assms(1)] qs_other_receive qs_other_initialized)
  with assms(2) show ?thesis by simp
qed

definition stream_step_ok :: "(nat \<Rightarrow> byte) \<Rightarrow> quic_stream \<Rightarrow> bytes \<Rightarrow> quic_stream \<Rightarrow> bool" where
  "stream_step_ok f s out s' \<longleftrightarrow> qs_inv s' \<and> qs_initialized s' \<and> content_agrees f s'
     \<and> qs_consumed s' = qs_consumed s + length out \<and> (\<forall>k < length out. out ! k = f (qs_consumed s + k))"

lemma qs_apply_correct:
  assumes "qs_inv s" "qs_initialized s" "content_agrees f s" "op_agrees f x" "qs_apply x s = (out, s')"
  shows "stream_step_ok f s out s'"
proof -
  consider (r) ok offset data fin notify where "x = OpReceive ok offset data fin notify"
    | (c) cap where "x = OpConsume cap"
    | (o) "\<nexists>ok offset data fin notify. x = OpReceive ok offset data fin notify" "\<nexists>cap. x = OpConsume cap"
    by blast
  then show ?thesis
  proof cases
    case r
    obtain st where run: "qs_receive ok offset data fin notify s = (st, s')" and out: "out = []"
      using assms(5) r by (cases "qs_receive ok offset data fin notify s") auto
    have d: "data ! k = f (offset + k)" if "k < length data" for k
    proof -
      have "data ! k = map f [offset ..< offset + length data] ! k"
        using assms(4) r by simp
      then show ?thesis using that by simp
    qed
    have "data ! (p - offset) = f p" if "qs_wanted s offset data p" for p
      using that d [of "p - offset"] by (auto simp: qs_wanted_def)
    with qs_receive_correct [OF assms(1) run] assms(2,3) show ?thesis
      by (auto simp: stream_step_ok_def content_agrees_def out split: if_splits)
  next
    case c
    obtain st fin where run: "qs_consume cap s = (st, out, fin, s')"
      using assms(5) c by (auto split: prod.splits)
    from qs_consume_correct [OF assms(1,2) run] assms(3) show ?thesis
      by (auto simp: stream_step_ok_def content_agrees_def)
  next
    case o
    from qs_apply_other [OF assms(1,5) o] content_agrees_cong [of s' s f] assms(2,3) show ?thesis
      by (simp add: stream_step_ok_def)
  qed
qed

lemma stream_step_trans:
  assumes "stream_step_ok f s o1 s1" "stream_step_ok f s1 o2 s2"
  shows "stream_step_ok f s (o1 @ o2) s2"
proof -
  have "(o1 @ o2) ! k = f (qs_consumed s + k)" if "k < length o1 + length o2" for k
  proof (cases "k < length o1")
    case True
    with assms(1) show ?thesis by (simp add: stream_step_ok_def nth_append)
  next
    case False
    with that have "k - length o1 < length o2" "length o1 + (k - length o1) = k" by auto
    with assms False show ?thesis by (simp add: stream_step_ok_def nth_append add.assoc)
  qed
  with assms show ?thesis by (simp add: stream_step_ok_def)
qed

lemma qs_run_correct:
  assumes "qs_inv s" "qs_initialized s" "content_agrees f s" "list_all (op_agrees f) xs" "qs_run xs s = (out, s')"
  shows "stream_step_ok f s out s'"
  using assms
proof (induction xs arbitrary: s out)
  case Nil
  then show ?case by (simp add: stream_step_ok_def)
next
  case (Cons x xs)
  obtain o1 s1 where a: "qs_apply x s = (o1, s1)" by fastforce
  obtain o2 where r: "qs_run xs s1 = (o2, s')" and out: "out = o1 @ o2"
    using Cons.prems(5) a by (auto split: prod.splits)
  have s1: "stream_step_ok f s o1 s1"
    using qs_apply_correct [OF Cons.prems(1-3) _ a] Cons.prems(4) by simp
  then have "stream_step_ok f s1 o2 s'"
    using Cons.IH [OF _ _ _ _ r] Cons.prems(4) by (simp add: stream_step_ok_def)
  with stream_step_trans [OF s1] out show ?case by simp
qed

text \<open>
  C1. In-order, exactly-once delivery: whatever the order, overlaps, duplicates, losses and
  allocation failures of the received pieces, as long as they are pieces of one content \<open>f\<close>, the
  bytes \<open>Consume\<close> has delivered are the first \<open>consumedOffset_\<close> bytes of \<open>f\<close>, in order and without
  repetition, and what is still buffered agrees with \<open>f\<close>, whatever other operations intervene.
\<close>

theorem stream_delivers_in_order:
  assumes "qs_initialize True i maxBytes maxGaps s0 = (STATUS_SUCCESS, s)"
    and "list_all (op_agrees f) xs" "qs_run xs s = (out, s')"
  shows "out = map f [0 ..< qs_consumed s'] \<and> (\<forall>p b. qs_content s' p = Some b \<longrightarrow> b = f p)"
proof -
  note i = qs_inv_initialize [OF assms(1)]
  then have "content_agrees f s" by (simp add: content_agrees_def qs_content_def)
  from qs_run_correct [OF _ _ this assms(2,3)] i
  have ok: "stream_step_ok f s out s'" by simp
  with i have "content_agrees f s'" "qs_consumed s' = length out" "\<forall>k < length out. out ! k = f (0 + k)"
    by (simp_all add: stream_step_ok_def)
  with map_upt_extend [of out f 0] show ?thesis by (auto simp: content_agrees_def)
qed

definition stream_example :: quic_stream where
  "stream_example = snd (qs_initialize True 4 1024 8 qs_new)"

lemma stream_example_init: "qs_initialize True 4 1024 8 qs_new = (STATUS_SUCCESS, stream_example)"
  by (simp add: stream_example_def qs_initialize_def qs_clear_def qs_new_def QuicVarIntMaximum_def
      WKNET_HARD_MAX_QUIC_STREAM_GAPS_def Let_def)

theorem stream_delivers_in_order_witness:
  "\<exists>out s'. qs_run [OpReceive True 2 [12, 13] False True, OpReceive True 0 [10, 11, 12] False True,
      OpConsume 3] stream_example = (out, s') \<and> out = map (\<lambda>k. 10 + word_of_nat k) [0 ..< qs_consumed s']"
proof -
  let ?xs = "[OpReceive True 2 [12, 13] False True, OpReceive True 0 [10, 11, 12] False True, OpConsume 3]"
  obtain out s' where r: "qs_run ?xs stream_example = (out, s')" by fastforce
  have "list_all (op_agrees (\<lambda>k. 10 + word_of_nat k)) ?xs"
    by (simp add: upt_rec)
  from stream_delivers_in_order [OF stream_example_init this r] r show ?thesis by blast
qed

text \<open>
  C2. \<open>Receive\<close> adds to the stream exactly the bytes of its data that are still wanted (at or
  above the consumed offset, on a stream the peer has not reset) and changes no other byte; a piece
  that disagrees with a buffered byte is refused; a refused piece changes no byte.
\<close>

theorem receive_merges:
  assumes "qs_inv s" "qs_receive ok offset data fin notify s = (st, s')"
  shows "if st = STATUS_SUCCESS
      then qs_content s' = (\<lambda>p. if qs_wanted s offset data p then Some (data ! (p - offset)) else qs_content s p)
        \<and> (\<forall>p b. qs_wanted s offset data p \<and> qs_content s p = Some b \<longrightarrow> data ! (p - offset) = b)
      else qs_content s' = qs_content s"
  using qs_receive_correct [OF assms] by (auto split: if_splits)

theorem receive_merges_witness:
  "qs_content (snd (qs_receive True 2 [12, 13] False False stream_example)) 3 = Some 13
   \<and> qs_content (snd (qs_receive True 2 [12, 13] False False stream_example)) 4 = None"
proof -
  let ?r = "qs_receive True 2 [12, 13] False False stream_example"
  have inv: "qs_inv stream_example" using qs_inv_initialize [OF stream_example_init] by blast
  have st: "fst ?r = STATUS_SUCCESS"
    by (simp add: stream_example_def qs_initialize_def qs_clear_def qs_new_def QuicVarIntMaximum_def
        WKNET_HARD_MAX_QUIC_STREAM_GAPS_def qs_receive_def qs_receive_checked_def qs_store_def
        stream_bidirectional_def Let_def)
  have "?r = (fst ?r, snd ?r)" by simp
  from receive_merges [OF inv this] st have "qs_content (snd ?r) =
      (\<lambda>p. if qs_wanted stream_example 2 [12, 13] p then Some ([12, 13] ! (p - 2)) else qs_content stream_example p)"
    by simp
  then show ?thesis
    by (simp add: qs_wanted_def stream_example_def qs_initialize_def qs_clear_def qs_new_def
        QuicVarIntMaximum_def WKNET_HARD_MAX_QUIC_STREAM_GAPS_def qs_content_def Let_def)
qed

section \<open>Bounds\<close>

lemma qs_max_reassembly_receive:
  assumes "qs_receive ok offset data fin notify s = (st, s')"
  shows "qs_max_reassembly s' = qs_max_reassembly s"
  using assms
proof (cases rule: qs_receive_cases)
  case (stored trim)
  then show ?thesis
    unfolding qs_store_eq by (auto simp: Let_def qs_with_fin_def split: if_splits)
qed (auto simp: qs_with_fin_def)

lemma qs_max_reassembly_consume:
  "qs_max_reassembly (snd (snd (snd (qs_consume cap s)))) = qs_max_reassembly s"
  by (simp add: qs_consume_def Let_def)

lemma qs_max_reassembly_apply: "qs_max_reassembly (snd (qs_apply x s)) = qs_max_reassembly s"
proof (cases x)
  case (OpReceive ok offset data fin notify)
  then show ?thesis using qs_max_reassembly_receive [OF surjective_pairing] by simp
next
  case (OpConsume cap)
  then show ?thesis using qs_max_reassembly_consume [of cap s] by (simp add: split_def)
qed (simp_all add: qs_set_receive_limit_def qs_set_send_limit_def qs_on_max_stream_data_def qs_write_def
      qs_reset_def qs_on_reset_received_def qs_stop_sending_def qs_take_blocked_def qs_set_sink_def Let_def)

lemma qs_run_inv:
  assumes "qs_inv s" "qs_initialized s" "qs_run xs s = (out, s')"
  shows "qs_inv s' \<and> qs_initialized s' \<and> qs_max_reassembly s' = qs_max_reassembly s"
  using assms
proof (induction xs arbitrary: s out)
  case (Cons x xs)
  obtain o1 s1 where a: "qs_apply x s = (o1, s1)" by fastforce
  have "qs_inv s1 \<and> qs_initialized s1"
  proof -
    consider (r) ok offset data fin notify where "x = OpReceive ok offset data fin notify"
      | (c) cap where "x = OpConsume cap"
      | (o) "\<nexists>ok offset data fin notify. x = OpReceive ok offset data fin notify" "\<nexists>cap. x = OpConsume cap"
      by blast
    then show ?thesis
    proof cases
      case r
      then have "s1 = snd (qs_receive ok offset data fin notify s)" using a by auto
      with qs_receive_correct [OF Cons.prems(1) surjective_pairing] Cons.prems(2) show ?thesis by simp
    next
      case c
      obtain st fin where "qs_consume cap s = (st, o1, fin, s1)" using a c by (auto split: prod.splits)
      with qs_consume_correct [OF Cons.prems(1,2)] show ?thesis by blast
    next
      case o
      with qs_apply_other [OF Cons.prems(1) a] Cons.prems(2) show ?thesis by simp
    qed
  qed
  moreover have "qs_max_reassembly s1 = qs_max_reassembly s"
    using qs_max_reassembly_apply [of x s] a by simp
  moreover obtain o2 where "qs_run xs s1 = (o2, s')"
    using Cons.prems(3) a by (auto split: prod.splits)
  ultimately show ?case using Cons.IH [of s1 o2] by simp
qed simp

text \<open>
  C29. In every run of an initialised stream the bytes buffered are exactly the distinct offsets
  held, never more than the reassembly limit; what has been received once is what was consumed plus
  what is buffered; the consumed offset, the highest received offset and the receive limit are
  ordered, and the send offset stays within the send limit, all of them valid QUIC integers.
\<close>

theorem stream_bounds:
  assumes "qs_initialize True i maxBytes maxGaps s0 = (STATUS_SUCCESS, s)" "qs_run xs s = (out, s')"
  shows "qs_buffered s' = card (dom (qs_content s')) \<and> qs_buffered s' \<le> maxBytes
    \<and> qs_unique_bytes s' = qs_consumed s' + qs_buffered s'
    \<and> qs_consumed s' \<le> qs_highest s' \<and> qs_highest s' \<le> qs_receive_limit s'
    \<and> qs_receive_limit s' \<le> QuicVarIntMaximum
    \<and> qs_send_offset s' \<le> qs_send_limit s' \<and> qs_send_limit s' \<le> QuicVarIntMaximum"
proof -
  note i = qs_inv_initialize [OF assms(1)]
  with qs_run_inv [OF _ _ assms(2)] have r: "qs_inv s'" "qs_initialized s'" "qs_max_reassembly s' = maxBytes"
    by simp_all
  then have "sorted_wrt sc_apart (qs_chunks s')" by (simp add: qs_inv_def chunks_ok_def)
  moreover have "dom (qs_content s') = {p. \<exists>c \<in> set (qs_chunks s'). sc_covers c p}"
    by (rule set_eqI) (simp only: domIff qs_content_def chunks_content_None_iff mem_Collect_eq, blast)
  ultimately have "sum_list (map sc_length (qs_chunks s')) = card (dom (qs_content s'))"
    by (simp add: sum_lengths_card)
  with r show ?thesis by (simp add: qs_inv_def)
qed

theorem stream_bounds_witness:
  "qs_buffered (snd (qs_run [OpReceive True 2 [12, 13] False True, OpConsume 3, OpWrite 5 False] stream_example))
     \<le> 1024"
proof -
  let ?xs = "[OpReceive True 2 [12, 13] False True, OpConsume 3, OpWrite 5 False]"
  have "qs_run ?xs stream_example = (fst (qs_run ?xs stream_example), snd (qs_run ?xs stream_example))"
    by (rule prod.collapse [symmetric])
  from stream_bounds [OF stream_example_init this] show ?thesis by blast
qed

text \<open>
  \<open>Consume\<close> always makes progress when it can: if the byte at the consumed offset is buffered
  and the output has room, the call succeeds and returns at least one byte; whatever it returns are
  the next bytes of the content, at most the capacity, and exactly these leave the buffer.
\<close>

theorem consume_progress:
  assumes "qs_inv s" "qs_initialized s" "qs_consume cap s = (st, out, fin, s')"
  shows "(0 < cap \<and> qs_content s (qs_consumed s) \<noteq> None \<longrightarrow> st = STATUS_SUCCESS \<and> out \<noteq> [])
    \<and> length out \<le> cap \<and> qs_consumed s' = qs_consumed s + length out
    \<and> (\<forall>k < length out. qs_content s (qs_consumed s + k) = Some (out ! k))
    \<and> qs_content s' = (\<lambda>p. if p < qs_consumed s' then None else qs_content s p)"
  using qs_consume_correct [OF assms] by simp

definition stream_one_byte :: quic_stream where
  "stream_one_byte = snd (qs_receive True 0 [7] False False stream_example)"

lemma stream_one_byte_chunks:
  "qs_chunks stream_one_byte =
     [\<lparr>sc_offset = 0, sc_length = 1, sc_capacity = 1, sc_data_offset = 0, sc_data = [7]\<rparr>]"
  "qs_initialized stream_one_byte" "qs_consumed stream_one_byte = 0"
  by (simp_all add: stream_one_byte_def stream_example_def qs_initialize_def qs_clear_def qs_new_def
      QuicVarIntMaximum_def WKNET_HARD_MAX_QUIC_STREAM_GAPS_def qs_receive_def qs_receive_checked_def
      qs_store_def copy_at_def stream_bidirectional_def Let_def)

theorem consume_progress_witness:
  "\<exists>st out fin s'. qs_consume 8 stream_one_byte = (st, out, fin, s') \<and> st = STATUS_SUCCESS \<and> out \<noteq> []"
proof -
  have "qs_inv stream_example" using qs_inv_initialize [OF stream_example_init] by blast
  then have "qs_inv stream_one_byte"
    using qs_receive_correct [OF _ surjective_pairing] unfolding stream_one_byte_def by blast
  moreover obtain st out fin s' where r: "qs_consume 8 stream_one_byte = (st, out, fin, s')"
    by (cases "qs_consume 8 stream_one_byte") auto
  moreover have "qs_content stream_one_byte (qs_consumed stream_one_byte) \<noteq> None"
    by (simp add: qs_content_def stream_one_byte_chunks chunks_content_def sc_covers_def sc_end_def)
  ultimately show ?thesis
    using consume_progress [of stream_one_byte 8 st out fin s'] stream_one_byte_chunks(2) by auto
qed

section \<open>The send side as a credit window\<close>

definition stream_reserve :: "nat \<Rightarrow> quic_stream \<Rightarrow> ntstatus \<times> quic_stream" where
  "stream_reserve n s = (case qs_write n False s of (st, accepted, s') \<Rightarrow> (st, s'))"

definition stream_credit :: "quic_stream \<Rightarrow> nat" where
  "stream_credit s = qs_send_limit s - qs_send_offset s"

interpretation stream_send: credit_window stream_reserve stream_credit qs_inv
proof
  fix s s' :: quic_stream and n :: nat
  assume inv: "qs_inv s" and run: "stream_reserve n s = (STATUS_SUCCESS, s')"
  have s': "s' = snd (snd (qs_write n False s))" and st: "fst (qs_write n False s) = STATUS_SUCCESS"
    using run by (auto simp: stream_reserve_def split: prod.splits)
  from st have "qs_can_write n False s = STATUS_SUCCESS" "qs_initialized s"
    by (auto simp: qs_write_def Let_def split: if_splits)
  moreover from this have "n \<le> qs_send_limit s - qs_send_offset s"
    by (auto simp: qs_can_write_def split: if_splits)
  ultimately show "qs_inv s' \<and> n \<le> stream_credit s \<and> stream_credit s' = stream_credit s - n"
    using qs_other_inv(4) [OF inv, of n False]
    by (auto simp: s' stream_credit_def qs_write_def Let_def)
next
  fix s s' :: quic_stream and n :: nat and e
  assume inv: "qs_inv s" and run: "stream_reserve n s = (e, s')" and e: "e \<noteq> STATUS_SUCCESS"
  have s': "s' = snd (snd (qs_write n False s))" and st: "fst (qs_write n False s) \<noteq> STATUS_SUCCESS"
    using run e by (auto simp: stream_reserve_def split: prod.splits)
  have "stream_credit s' = stream_credit s"
    using st by (auto simp: s' stream_credit_def qs_write_def Let_def split: if_splits)
  with qs_other_inv(4) [OF inv, of n False] show "qs_inv s' \<and> stream_credit s' = stream_credit s"
    by (simp add: s')
qed

text \<open>
  However an application splits its writes, the bytes a stream accepts and the credit it has
  left add up to the credit it started with: the stream never sends past the peer's limit, and a
  refused write costs nothing.
\<close>

theorem stream_writes_within_credit:
  assumes "qs_inv s" "reserve_all stream_reserve ns s = (accepted, s')"
  shows "accepted + stream_credit s' = stream_credit s \<and> accepted \<le> qs_send_limit s - qs_send_offset s"
  using stream_send.accepted_within_credit [OF assms] by (simp add: stream_credit_def)

theorem stream_writes_within_credit_witness:
  "fst (reserve_all stream_reserve [3, 9, 4] (snd (qs_set_send_limit 8 stream_example))) \<le> 8"
proof -
  let ?s = "snd (qs_set_send_limit 8 stream_example)"
  have "qs_inv stream_example" using qs_inv_initialize [OF stream_example_init] by blast
  then have "qs_inv ?s" by (rule qs_other_inv)
  from stream_writes_within_credit [OF this surjective_pairing] 
  have "fst (reserve_all stream_reserve [3, 9, 4] ?s) \<le> qs_send_limit ?s - qs_send_offset ?s" by blast
  also have "\<dots> \<le> 8"
    using qs_inv_initialize [OF stream_example_init] by (simp add: qs_set_send_limit_def QuicVarIntMaximum_def)
  finally show ?thesis .
qed

section \<open>A final size below what was received\<close>

text \<open>
  \<open>Receive\<close> checks a FIN against a final size it already knows, not against the highest offset
  received: data up to 4 followed by a FIN at offset 2 is accepted, and from then on the final size
  is below the highest offset (RFC 9000, 4.5, asks for FINAL_SIZE_ERROR; \<open>OnResetReceived\<close> has the
  check).
\<close>

lemma fin_below_highest_accepted:
  assumes "qs_initialized s" "qs_highest s \<le> qs_receive_limit s" "qs_receive_limit s \<le> QuicVarIntMaximum"
    and "stream_bidirectional (qs_id s)" "\<not> qs_final_size_known s" "\<not> qs_receive_reset s"
    and "offset < qs_highest s"
  shows "\<exists>s'. qs_receive ok offset [] True False s = (STATUS_SUCCESS, s')
    \<and> qs_final_size_known s' \<and> qs_final_size s' < qs_highest s'"
  using assms by (simp add: qs_receive_def qs_receive_checked_def Let_def)

lemma reset_below_highest_refused:
  assumes "finalSize < qs_highest s"
  shows "fst (qs_on_reset_received err finalSize s) \<noteq> STATUS_SUCCESS"
  using assms by (simp add: qs_on_reset_received_def)

end
