(* ===== verification/QuicFrame.thy ===== *)
theory QuicFrame
  imports QuicAckTracker
begin

text \<open>
  QUIC frames, \<open>src/wknetlib/quic/QuicFrame.cpp\<close>: the parser, the decoder of ACK ranges and the
  encoder. A \<open>QuicBufferView\<close> is the list of its bytes. A reader takes the whole packet payload
  and an offset, as the source does; a writer takes the capacity and what has been written so far.
  On an error the source leaves a partly filled frame behind, which no caller reads; here an error
  is only its status. The lemmas give the round trip of every frame kind, the bounds of what the
  parser accepts, and the shape of decoded ACK ranges.
\<close>

datatype quic_frame_kind =
    FkPadding | FkPing | FkAck | FkResetStream | FkStopSending | FkCrypto | FkNewToken | FkStream
  | FkMaxData | FkMaxStreamData | FkMaxStreams | FkDataBlocked | FkStreamDataBlocked
  | FkStreamsBlocked | FkNewConnectionId | FkRetireConnectionId | FkPathChallenge | FkPathResponse
  | FkConnectionClose | FkHandshakeDone

record quic_frame =
  fr_kind :: quic_frame_kind
  fr_wire_type :: nat
  fr_stream_id :: nat
  fr_offset :: nat
  fr_length :: nat
  fr_error_code :: nat
  fr_final_size :: nat
  fr_maximum :: nat
  fr_largest_acknowledged :: nat
  fr_ack_delay :: nat
  fr_ack_range_count :: nat
  fr_first_ack_range :: nat
  fr_sequence :: nat
  fr_retire_prior_to :: nat
  fr_trigger_frame_type :: nat
  fr_fin :: bool
  fr_bidirectional :: bool
  fr_application_close :: bool
  fr_data :: bytes
  fr_connection_id :: bytes
  fr_stateless_reset_token :: bytes
  fr_reason_phrase :: bytes
  fr_ack_range_data :: bytes

definition frame_new :: quic_frame where
  "frame_new = \<lparr>fr_kind = FkPadding, fr_wire_type = 0, fr_stream_id = 0, fr_offset = 0, fr_length = 0,
     fr_error_code = 0, fr_final_size = 0, fr_maximum = 0, fr_largest_acknowledged = 0,
     fr_ack_delay = 0, fr_ack_range_count = 0, fr_first_ack_range = 0, fr_sequence = 0,
     fr_retire_prior_to = 0, fr_trigger_frame_type = 0, fr_fin = False, fr_bidirectional = False,
     fr_application_close = False, fr_data = [], fr_connection_id = [],
     fr_stateless_reset_token = [], fr_reason_phrase = [], fr_ack_range_data = []\<rparr>"

section \<open>The parser\<close>

fun skip_ack_ranges :: "nat \<Rightarrow> bytes \<Rightarrow> nat \<Rightarrow> nat result" where
  "skip_ack_ranges 0 data offset = Inr offset"
| "skip_ack_ranges (Suc n) data offset =
     rbind (read_value data offset) (\<lambda>(gap, o1).
     rbind (read_value data o1) (\<lambda>(range, o2). skip_ack_ranges n data o2))"

text \<open>The three ECN counts of an ACK_ECN frame are read and dropped.\<close>

definition skip_ecn :: "nat \<Rightarrow> bytes \<Rightarrow> nat \<Rightarrow> nat result" where
  "skip_ecn type data offset =
     (if type = 0x03
      then rbind (read_value data offset) (\<lambda>(ecn0, o1).
           rbind (read_value data o1) (\<lambda>(ecn1, o2).
           rbind (read_value data o2) (\<lambda>(ecn2, o3). Inr o3)))
      else Inr offset)"

definition parse_ack :: "nat \<Rightarrow> bytes \<Rightarrow> nat \<Rightarrow> quic_frame \<Rightarrow> (quic_frame \<times> nat) result" where
  "parse_ack type data o0 f =
     rbind (read_value data o0) (\<lambda>(largest, o1).
     rbind (read_value data o1) (\<lambda>(delay, o2).
     rbind (read_value data o2) (\<lambda>(count, o3).
     rbind (read_value data o3) (\<lambda>(first, o4).
       if count \<ge> WKNET_HARD_MAX_QUIC_ACK_RANGES then Inl STATUS_INVALID_NETWORK_RESPONSE
       else rbind (skip_ack_ranges count data o4) (\<lambda>o5.
            rbind (skip_ecn type data o5) (\<lambda>o6.
              Inr (f\<lparr>fr_kind := FkAck, fr_largest_acknowledged := largest, fr_ack_delay := delay,
                     fr_ack_range_count := count, fr_first_ack_range := first,
                     fr_ack_range_data := view data o4 (o5 - o4)\<rparr>, o6)))))))"

definition parse_reset_stream :: "bytes \<Rightarrow> nat \<Rightarrow> quic_frame \<Rightarrow> (quic_frame \<times> nat) result" where
  "parse_reset_stream data o0 f =
     rbind (read_value data o0) (\<lambda>(sid, o1).
     rbind (read_value data o1) (\<lambda>(err, o2).
     rbind (read_value data o2) (\<lambda>(final, o3).
       Inr (f\<lparr>fr_kind := FkResetStream, fr_stream_id := sid, fr_error_code := err, fr_final_size := final\<rparr>, o3))))"

definition parse_stop_sending :: "bytes \<Rightarrow> nat \<Rightarrow> quic_frame \<Rightarrow> (quic_frame \<times> nat) result" where
  "parse_stop_sending data o0 f =
     rbind (read_value data o0) (\<lambda>(sid, o1).
     rbind (read_value data o1) (\<lambda>(err, o2).
       Inr (f\<lparr>fr_kind := FkStopSending, fr_stream_id := sid, fr_error_code := err\<rparr>, o2)))"

definition parse_crypto :: "nat \<Rightarrow> bytes \<Rightarrow> nat \<Rightarrow> quic_frame \<Rightarrow> (quic_frame \<times> nat) result" where
  "parse_crypto type data o0 f =
     rbind (if type = 0x06 then read_value data o0 else Inr (fr_offset f, o0)) (\<lambda>(off, o1).
     rbind (read_block data o1) (\<lambda>(len, block, o2).
       Inr (f\<lparr>fr_kind := (if type = 0x06 then FkCrypto else FkNewToken), fr_offset := off,
              fr_length := len, fr_data := block\<rparr>, o2)))"

definition parse_stream :: "nat \<Rightarrow> bytes \<Rightarrow> nat \<Rightarrow> quic_frame \<Rightarrow> (quic_frame \<times> nat) result" where
  "parse_stream type data o0 f =
     rbind (read_value data o0) (\<lambda>(sid, o1).
     rbind (if (type AND 0x04) \<noteq> 0 then read_value data o1 else Inr (fr_offset f, o1)) (\<lambda>(off, o2).
     rbind (if (type AND 0x02) \<noteq> 0 then read_block data o2
            else Inr (length data - o2, view data o2 (length data - o2), o2 + (length data - o2)))
       (\<lambda>(len, block, o3).
       Inr (f\<lparr>fr_kind := FkStream, fr_fin := ((type AND 0x01) \<noteq> 0), fr_stream_id := sid, fr_offset := off,
              fr_length := len, fr_data := block\<rparr>, o3))))"

definition limit_kind :: "nat \<Rightarrow> quic_frame \<Rightarrow> quic_frame" where
  "limit_kind type f =
     (if type = 0x10 then f\<lparr>fr_kind := FkMaxData\<rparr>
      else if type = 0x11 then f\<lparr>fr_kind := FkMaxStreamData\<rparr>
      else if type \<le> 0x13 then f\<lparr>fr_kind := FkMaxStreams, fr_bidirectional := (type = 0x12)\<rparr>
      else if type = 0x14 then f\<lparr>fr_kind := FkDataBlocked\<rparr>
      else if type = 0x15 then f\<lparr>fr_kind := FkStreamDataBlocked\<rparr>
      else f\<lparr>fr_kind := FkStreamsBlocked, fr_bidirectional := (type = 0x16)\<rparr>)"

definition parse_limit :: "nat \<Rightarrow> bytes \<Rightarrow> nat \<Rightarrow> quic_frame \<Rightarrow> (quic_frame \<times> nat) result" where
  "parse_limit type data o0 f =
     rbind (if type = 0x11 \<or> type = 0x15 then read_value data o0 else Inr (fr_stream_id f, o0)) (\<lambda>(sid, o1).
     rbind (read_value data o1) (\<lambda>(maximum, o2).
       Inr ((limit_kind type f)\<lparr>fr_stream_id := sid, fr_maximum := maximum\<rparr>, o2)))"

definition parse_new_connection_id :: "bytes \<Rightarrow> nat \<Rightarrow> quic_frame \<Rightarrow> (quic_frame \<times> nat) result" where
  "parse_new_connection_id data o0 f =
     rbind (read_value data o0) (\<lambda>(sequence, o1).
     rbind (read_value data o1) (\<lambda>(retire, o2).
       if retire > sequence \<or> \<not> has_bytes o2 1 (length data) then Inl STATUS_INVALID_NETWORK_RESPONSE
       else let cidLength = unat (data ! o2); o3 = o2 + 1
            in if cidLength = 0 \<or> cidLength > QuicMaximumConnectionIdLength
                 \<or> \<not> has_bytes o3 (cidLength + 16) (length data)
               then Inl STATUS_INVALID_NETWORK_RESPONSE
               else Inr (f\<lparr>fr_kind := FkNewConnectionId, fr_sequence := sequence, fr_retire_prior_to := retire,
                          fr_connection_id := view data o3 cidLength,
                          fr_stateless_reset_token := view data (o3 + cidLength) 16\<rparr>, o3 + cidLength + 16)))"

definition parse_retire :: "bytes \<Rightarrow> nat \<Rightarrow> quic_frame \<Rightarrow> (quic_frame \<times> nat) result" where
  "parse_retire data o0 f =
     rbind (read_value data o0) (\<lambda>(sequence, o1).
       Inr (f\<lparr>fr_kind := FkRetireConnectionId, fr_sequence := sequence\<rparr>, o1))"

definition parse_path :: "nat \<Rightarrow> bytes \<Rightarrow> nat \<Rightarrow> quic_frame \<Rightarrow> (quic_frame \<times> nat) result" where
  "parse_path type data o0 f =
     (if \<not> has_bytes o0 8 (length data) then Inl STATUS_BUFFER_TOO_SMALL
      else Inr (f\<lparr>fr_kind := (if type = 0x1a then FkPathChallenge else FkPathResponse),
                  fr_data := view data o0 8\<rparr>, o0 + 8))"

definition parse_close :: "nat \<Rightarrow> bytes \<Rightarrow> nat \<Rightarrow> quic_frame \<Rightarrow> (quic_frame \<times> nat) result" where
  "parse_close type data o0 f =
     rbind (read_value data o0) (\<lambda>(err, o1).
     rbind (if type = 0x1c then read_value data o1 else Inr (fr_trigger_frame_type f, o1)) (\<lambda>(trigger, o2).
     rbind (read_block data o2) (\<lambda>(len, block, o3).
       Inr (f\<lparr>fr_kind := FkConnectionClose, fr_application_close := (type = 0x1d), fr_error_code := err,
              fr_trigger_frame_type := trigger, fr_length := len, fr_reason_phrase := block\<rparr>, o3))))"

definition parse_frame_body :: "nat \<Rightarrow> bytes \<Rightarrow> nat \<Rightarrow> quic_frame \<Rightarrow> (quic_frame \<times> nat) result" where
  "parse_frame_body type data offset f =
     (if type = 0x00 then Inr (f\<lparr>fr_kind := FkPadding\<rparr>, offset)
      else if type = 0x01 then Inr (f\<lparr>fr_kind := FkPing\<rparr>, offset)
      else if type = 0x02 \<or> type = 0x03 then parse_ack type data offset f
      else if type = 0x04 then parse_reset_stream data offset f
      else if type = 0x05 then parse_stop_sending data offset f
      else if type = 0x06 \<or> type = 0x07 then parse_crypto type data offset f
      else if 0x08 \<le> type \<and> type \<le> 0x0f then parse_stream type data offset f
      else if 0x10 \<le> type \<and> type \<le> 0x17 then parse_limit type data offset f
      else if type = 0x18 then parse_new_connection_id data offset f
      else if type = 0x19 then parse_retire data offset f
      else if type = 0x1a \<or> type = 0x1b then parse_path type data offset f
      else if type = 0x1c \<or> type = 0x1d then parse_close type data offset f
      else if type = 0x1e then Inr (f\<lparr>fr_kind := FkHandshakeDone\<rparr>, offset)
      else Inl STATUS_NOT_SUPPORTED)"

text \<open>The frame and \<open>*bytesConsumed\<close>.\<close>

definition quic_parse_frame :: "bytes \<Rightarrow> (quic_frame \<times> nat) result" where
  "quic_parse_frame data =
     (if data = [] then Inl STATUS_INVALID_PARAMETER
      else rbind (read_value data 0) (\<lambda>(type, offset).
             parse_frame_body type data offset (frame_new\<lparr>fr_wire_type := type\<rparr>)))"

section \<open>ACK ranges\<close>

fun decode_ack_loop :: "nat \<Rightarrow> nat \<Rightarrow> bytes \<Rightarrow> nat \<Rightarrow> (quic_ack_range list \<times> nat) result" where
  "decode_ack_loop 0 smallest data offset = Inr ([], offset)"
| "decode_ack_loop (Suc n) smallest data offset =
     (case rbind (read_value data offset) (\<lambda>(gap, o1).
           rbind (read_value data o1) (\<lambda>(len, o2). Inr (gap, len, o2))) of
        Inl e \<Rightarrow> Inl STATUS_INVALID_NETWORK_RESPONSE
      | Inr (gap, len, o2) \<Rightarrow>
          if smallest < 2 \<or> gap > smallest - 2 then Inl STATUS_INVALID_NETWORK_RESPONSE
          else let largest = smallest - gap - 2
               in if len > largest then Inl STATUS_INVALID_NETWORK_RESPONSE
                  else rbind (decode_ack_loop n (largest - len) data o2) (\<lambda>(rs, o3).
                         Inr (\<lparr>Smallest = largest - len, Largest = largest\<rparr> # rs, o3)))"

definition quic_decode_ack_ranges :: "quic_frame \<Rightarrow> nat \<Rightarrow> quic_ack_range list result" where
  "quic_decode_ack_ranges f rangeCapacity =
     (let required = w64 (fr_ack_range_count f + 1)
      in if fr_kind f \<noteq> FkAck \<or> required > rangeCapacity \<or> required > WKNET_HARD_MAX_QUIC_ACK_RANGES
           \<or> fr_first_ack_range f > fr_largest_acknowledged f
         then Inl STATUS_INVALID_PARAMETER
         else let smallest = fr_largest_acknowledged f - fr_first_ack_range f
              in rbind (decode_ack_loop (required - 1) smallest (fr_ack_range_data f) 0) (\<lambda>(rs, offset).
                   if offset \<noteq> length (fr_ack_range_data f) then Inl STATUS_INVALID_NETWORK_RESPONSE
                   else Inr (take required (\<lparr>Smallest = smallest, Largest = fr_largest_acknowledged f\<rparr> # rs))))"

section \<open>The encoder\<close>

fun ack_ranges_encodable :: "quic_ack_range list \<Rightarrow> bool" where
  "ack_ranges_encodable [] = True"
| "ack_ranges_encodable [x] = (Smallest x \<le> Largest x)"
| "ack_ranges_encodable (x # y # ys) =
     (Smallest x \<le> Largest x \<and> \<not> (Smallest x < 2 \<or> Largest y > Smallest x - 2) \<and> ack_ranges_encodable (y # ys))"

fun write_ack_ranges :: "nat \<Rightarrow> quic_ack_range list \<Rightarrow> nat \<Rightarrow> bytes \<Rightarrow> bytes result" where
  "write_ack_ranges smallest [] capacity w = Inr w"
| "write_ack_ranges smallest (x # xs) capacity w =
     rbind (write_value (smallest - Largest x - 2) capacity w) (\<lambda>w1.
     rbind (write_value (Largest x - Smallest x) capacity w1) (\<lambda>w2.
       write_ack_ranges (Smallest x) xs capacity w2))"

definition encode_ack :: "quic_frame \<Rightarrow> quic_ack_range list \<Rightarrow> nat \<Rightarrow> bytes result" where
  "encode_ack f acks capacity =
     (if acks = [] \<or> length acks > WKNET_HARD_MAX_QUIC_ACK_RANGES then Inl STATUS_INVALID_PARAMETER
      else if \<not> ack_ranges_encodable acks then Inl STATUS_INVALID_PARAMETER
      else rbind (write_value 0x02 capacity []) (\<lambda>w1.
           rbind (write_value (Largest (hd acks)) capacity w1) (\<lambda>w2.
           rbind (write_value (fr_ack_delay f) capacity w2) (\<lambda>w3.
           rbind (write_value (length acks - 1) capacity w3) (\<lambda>w4.
           rbind (write_value (Largest (hd acks) - Smallest (hd acks)) capacity w4) (\<lambda>w5.
             write_ack_ranges (Smallest (hd acks)) (tl acks) capacity w5))))))"

definition encode_crypto :: "quic_frame \<Rightarrow> nat \<Rightarrow> bytes result" where
  "encode_crypto f capacity =
     rbind (write_value (if fr_kind f = FkCrypto then 0x06 else 0x07) capacity []) (\<lambda>w1.
     rbind (if fr_kind f = FkCrypto then write_value (fr_offset f) capacity w1 else Inr w1) (\<lambda>w2.
     rbind (write_value (length (fr_data f)) capacity w2) (\<lambda>w3.
       write_bytes (fr_data f) capacity w3)))"

definition encode_stream :: "quic_frame \<Rightarrow> nat \<Rightarrow> bytes result" where
  "encode_stream f capacity =
     rbind (write_value (0x0e OR (if fr_fin f then 1 else 0)) capacity []) (\<lambda>w1.
     rbind (write_value (fr_stream_id f) capacity w1) (\<lambda>w2.
     rbind (write_value (fr_offset f) capacity w2) (\<lambda>w3.
     rbind (write_value (length (fr_data f)) capacity w3) (\<lambda>w4.
       write_bytes (fr_data f) capacity w4))))"

definition limit_wire_type :: "quic_frame \<Rightarrow> nat" where
  "limit_wire_type f =
     (if fr_kind f = FkMaxData then 0x10
      else if fr_kind f = FkMaxStreamData then 0x11
      else if fr_kind f = FkMaxStreams then (if fr_bidirectional f then 0x12 else 0x13)
      else if fr_kind f = FkDataBlocked then 0x14
      else if fr_kind f = FkStreamDataBlocked then 0x15
      else (if fr_bidirectional f then 0x16 else 0x17))"

definition encode_limit :: "quic_frame \<Rightarrow> nat \<Rightarrow> bytes result" where
  "encode_limit f capacity =
     rbind (write_value (limit_wire_type f) capacity []) (\<lambda>w1.
     rbind (if fr_kind f = FkMaxStreamData \<or> fr_kind f = FkStreamDataBlocked
            then write_value (fr_stream_id f) capacity w1 else Inr w1) (\<lambda>w2.
       write_value (fr_maximum f) capacity w2))"

definition encode_new_connection_id :: "quic_frame \<Rightarrow> nat \<Rightarrow> bytes result" where
  "encode_new_connection_id f capacity =
     (if fr_connection_id f = [] \<or> length (fr_connection_id f) > QuicMaximumConnectionIdLength
        \<or> length (fr_stateless_reset_token f) \<noteq> 16 \<or> fr_retire_prior_to f > fr_sequence f
      then Inl STATUS_INVALID_PARAMETER
      else rbind (write_value 0x18 capacity []) (\<lambda>w1.
           rbind (write_value (fr_sequence f) capacity w1) (\<lambda>w2.
           rbind (write_value (fr_retire_prior_to f) capacity w2) (\<lambda>w3.
           rbind (if length w3 \<ge> capacity then Inl STATUS_BUFFER_TOO_SMALL
                  else Inr (w3 @ [uchar (length (fr_connection_id f))])) (\<lambda>w4.
           rbind (write_bytes (fr_connection_id f) capacity w4) (\<lambda>w5.
             write_bytes (fr_stateless_reset_token f) capacity w5))))))"

definition encode_close :: "quic_frame \<Rightarrow> nat \<Rightarrow> bytes result" where
  "encode_close f capacity =
     rbind (write_value (if fr_application_close f then 0x1d else 0x1c) capacity []) (\<lambda>w1.
     rbind (write_value (fr_error_code f) capacity w1) (\<lambda>w2.
     rbind (if \<not> fr_application_close f then write_value (fr_trigger_frame_type f) capacity w2 else Inr w2) (\<lambda>w3.
     rbind (write_value (length (fr_reason_phrase f)) capacity w3) (\<lambda>w4.
       write_bytes (fr_reason_phrase f) capacity w4))))"

fun quic_encode_frame_kind :: "quic_frame_kind \<Rightarrow> quic_frame \<Rightarrow> quic_ack_range list \<Rightarrow> nat \<Rightarrow> bytes result" where
  "quic_encode_frame_kind FkPadding f acks capacity =
     (let paddingLength = (if fr_length f = 0 then 1 else fr_length f)
      in if paddingLength > capacity then Inl STATUS_BUFFER_TOO_SMALL else Inr (replicate paddingLength 0))"
| "quic_encode_frame_kind FkPing f acks capacity = write_value 0x01 capacity []"
| "quic_encode_frame_kind FkAck f acks capacity = encode_ack f acks capacity"
| "quic_encode_frame_kind FkResetStream f acks capacity =
     rbind (write_value 0x04 capacity []) (\<lambda>w1.
     rbind (write_value (fr_stream_id f) capacity w1) (\<lambda>w2.
     rbind (write_value (fr_error_code f) capacity w2) (\<lambda>w3.
       write_value (fr_final_size f) capacity w3)))"
| "quic_encode_frame_kind FkStopSending f acks capacity =
     rbind (write_value 0x05 capacity []) (\<lambda>w1.
     rbind (write_value (fr_stream_id f) capacity w1) (\<lambda>w2.
       write_value (fr_error_code f) capacity w2))"
| "quic_encode_frame_kind FkCrypto f acks capacity = encode_crypto f capacity"
| "quic_encode_frame_kind FkNewToken f acks capacity = encode_crypto f capacity"
| "quic_encode_frame_kind FkStream f acks capacity = encode_stream f capacity"
| "quic_encode_frame_kind FkNewConnectionId f acks capacity = encode_new_connection_id f capacity"
| "quic_encode_frame_kind FkRetireConnectionId f acks capacity =
     rbind (write_value 0x19 capacity []) (\<lambda>w1. write_value (fr_sequence f) capacity w1)"
| "quic_encode_frame_kind FkPathChallenge f acks capacity =
     (if length (fr_data f) \<noteq> 8 then Inl STATUS_INVALID_PARAMETER
      else rbind (write_value 0x1a capacity []) (\<lambda>w1. write_bytes (fr_data f) capacity w1))"
| "quic_encode_frame_kind FkPathResponse f acks capacity =
     (if length (fr_data f) \<noteq> 8 then Inl STATUS_INVALID_PARAMETER
      else rbind (write_value 0x1b capacity []) (\<lambda>w1. write_bytes (fr_data f) capacity w1))"
| "quic_encode_frame_kind FkConnectionClose f acks capacity = encode_close f capacity"
| "quic_encode_frame_kind FkHandshakeDone f acks capacity = write_value 0x1e capacity []"
| "quic_encode_frame_kind _ f acks capacity = encode_limit f capacity"

definition quic_encode_frame :: "quic_frame \<Rightarrow> quic_ack_range list \<Rightarrow> nat \<Rightarrow> bytes result" where
  "quic_encode_frame f acks capacity = quic_encode_frame_kind (fr_kind f) f acks capacity"

section \<open>ACK ranges\<close>

fun ack_range_bytes :: "nat \<Rightarrow> quic_ack_range list \<Rightarrow> bytes" where
  "ack_range_bytes smallest [] = []"
| "ack_range_bytes smallest (x # xs) =
     quic_varint (smallest - Largest x - 2) @ quic_varint (Largest x - Smallest x) @ ack_range_bytes (Smallest x) xs"

fun ack_range_fields_ok :: "nat \<Rightarrow> quic_ack_range list \<Rightarrow> bool" where
  "ack_range_fields_ok smallest [] = True"
| "ack_range_fields_ok smallest (x # xs) =
     (smallest - Largest x - 2 \<le> QuicVarIntMaximum \<and> Largest x - Smallest x \<le> QuicVarIntMaximum
      \<and> ack_range_fields_ok (Smallest x) xs)"

lemma write_ack_ranges_Inr:
  "write_ack_ranges smallest xs capacity w = Inr w' \<Longrightarrow>
     w' = w @ ack_range_bytes smallest xs \<and> ack_range_fields_ok smallest xs \<and> (xs = [] \<or> length w' \<le> capacity)"
proof (induction xs arbitrary: smallest w)
  case (Cons x xs)
  from Cons.prems obtain w1 w2 where w: "write_value (smallest - Largest x - 2) capacity w = Inr w1"
    "write_value (Largest x - Smallest x) capacity w1 = Inr w2"
    "write_ack_ranges (Smallest x) xs capacity w2 = Inr w'"
    by (auto simp only: write_ack_ranges.simps rbind_eq_Inr_iff)
  from Cons.IH [OF w(3)] w(1,2) show ?case
    by (cases xs) (auto simp: write_value_Inr_iff)
qed simp

lemma skip_ack_ranges_at:
  assumes "ack_range_fields_ok smallest xs"
    and "drop offset data = ack_range_bytes smallest xs @ rest" "offset \<le> length data"
  shows "skip_ack_ranges (length xs) data offset = Inr (offset + length (ack_range_bytes smallest xs))"
  using assms
proof (induction xs arbitrary: smallest offset)
  case Nil
  then show ?case by simp
next
  case (Cons x xs)
  let ?g = "quic_varint (smallest - Largest x - 2)" and ?l = "quic_varint (Largest x - Smallest x)"
  have d: "drop offset data = ?g @ ?l @ ack_range_bytes (Smallest x) xs @ rest"
    using Cons.prems(2) by simp
  have d1: "drop (offset + length ?g) data = ?l @ ack_range_bytes (Smallest x) xs @ rest"
    using arg_cong [OF d, of "drop (length ?g)"] by (simp add: add.commute)
  have d2: "drop (offset + length ?g + length ?l) data = ack_range_bytes (Smallest x) xs @ rest"
    using arg_cong [OF d1, of "drop (length ?l)"] by (simp add: add.commute)
  have len: "offset + length ?g + length ?l \<le> length data"
    using arg_cong [OF d, of length] Cons.prems(3) by simp
  have r1: "read_value data offset = Inr (smallest - Largest x - 2, offset + length ?g)"
    using Cons.prems d by (intro read_value_at) auto
  have r2: "read_value data (offset + length ?g) = Inr (Largest x - Smallest x, offset + length ?g + length ?l)"
    using Cons.prems d1 len by (intro read_value_at) auto
  show ?case
    using Cons.IH [OF _ d2 len] Cons.prems(1) r1 r2 by (simp add: add.assoc)
qed

lemma decode_ack_loop_at:
  assumes "ack_range_fields_ok smallest xs" "ack_ranges_encodable (\<lparr>Smallest = smallest, Largest = smallest\<rparr> # xs)"
    and "drop offset data = ack_range_bytes smallest xs" "offset \<le> length data"
  shows "decode_ack_loop (length xs) smallest data offset = Inr (xs, length data)"
  using assms
proof (induction xs arbitrary: smallest offset)
  case Nil
  then show ?case by simp
next
  case (Cons x xs)
  let ?g = "quic_varint (smallest - Largest x - 2)" and ?l = "quic_varint (Largest x - Smallest x)"
  have d: "drop offset data = ?g @ ?l @ ack_range_bytes (Smallest x) xs"
    using Cons.prems(3) by simp
  have d1: "drop (offset + length ?g) data = ?l @ ack_range_bytes (Smallest x) xs"
    using arg_cong [OF d, of "drop (length ?g)"] by (simp add: add.commute)
  have d2: "drop (offset + length ?g + length ?l) data = ack_range_bytes (Smallest x) xs"
    using arg_cong [OF d1, of "drop (length ?l)"] by (simp add: add.commute)
  have len: "offset + length ?g + length ?l \<le> length data"
    using arg_cong [OF d, of length] Cons.prems(4) by simp
  have r1: "read_value data offset = Inr (smallest - Largest x - 2, offset + length ?g)"
    using Cons.prems d by (intro read_value_at [where rest = "?l @ ack_range_bytes (Smallest x) xs"]) auto
  have r2: "read_value data (offset + length ?g) = Inr (Largest x - Smallest x, offset + length ?g + length ?l)"
    using Cons.prems d1 len by (intro read_value_at) auto
  have x: "2 \<le> smallest" "Largest x \<le> smallest - 2" "Smallest x \<le> Largest x"
    "ack_ranges_encodable (\<lparr>Smallest = Smallest x, Largest = Smallest x\<rparr> # xs)"
    using Cons.prems(2) by (cases xs; simp)+
  have undo: "smallest - (smallest - Largest x - 2) - 2 = Largest x" "Largest x - (Largest x - Smallest x) = Smallest x"
    using x by auto
  show ?case
    using Cons.IH [OF _ x(4) d2 len] Cons.prems(1) r1 r2 x by (auto simp: undo Let_def)
qed

text \<open>The ranges a successful decoding returns, whatever the peer sent.\<close>

lemma decode_ack_loop_shape:
  assumes "decode_ack_loop n smallest data offset = Inr (rs, o')"
  shows "length rs = n \<and> ack_ranges_encodable (\<lparr>Smallest = smallest, Largest = smallest\<rparr> # rs)
    \<and> (\<forall>x \<in> set rs. Largest x + 2 \<le> smallest)"
  using assms
proof (induction n arbitrary: smallest offset rs)
  case 0
  then show ?case by simp
next
  case (Suc n)
  from Suc.prems obtain gap len o2 rs' where r: "2 \<le> smallest" "gap \<le> smallest - 2" "len \<le> smallest - gap - 2"
    "decode_ack_loop n (smallest - gap - 2 - len) data o2 = Inr (rs', o')"
    "rs = \<lparr>Smallest = smallest - gap - 2 - len, Largest = smallest - gap - 2\<rparr> # rs'"
    by (auto simp: Let_def status_simps not_less split: sum.splits if_splits prod.splits)
  from Suc.IH [OF r(4)] r(1-3) show ?case
    unfolding r(5) by (cases rs') auto
qed

section \<open>Round trip\<close>

text \<open>What a parsed frame must share with the frame that was encoded, kind by kind.\<close>

definition frame_agrees :: "quic_frame \<Rightarrow> quic_ack_range list \<Rightarrow> quic_frame \<Rightarrow> bool" where
  "frame_agrees f acks g \<longleftrightarrow> fr_kind g = fr_kind f \<and>
     (case fr_kind f of
        FkAck \<Rightarrow> fr_ack_delay g = fr_ack_delay f
          \<and> (\<forall>cap. length acks \<le> cap \<longrightarrow> quic_decode_ack_ranges g cap = Inr acks)
      | FkResetStream \<Rightarrow> fr_stream_id g = fr_stream_id f \<and> fr_error_code g = fr_error_code f
          \<and> fr_final_size g = fr_final_size f
      | FkStopSending \<Rightarrow> fr_stream_id g = fr_stream_id f \<and> fr_error_code g = fr_error_code f
      | FkCrypto \<Rightarrow> fr_offset g = fr_offset f \<and> fr_data g = fr_data f
      | FkNewToken \<Rightarrow> fr_data g = fr_data f
      | FkStream \<Rightarrow> fr_stream_id g = fr_stream_id f \<and> fr_offset g = fr_offset f
          \<and> fr_data g = fr_data f \<and> fr_fin g = fr_fin f
      | FkMaxStreamData \<Rightarrow> fr_stream_id g = fr_stream_id f \<and> fr_maximum g = fr_maximum f
      | FkStreamDataBlocked \<Rightarrow> fr_stream_id g = fr_stream_id f \<and> fr_maximum g = fr_maximum f
      | FkMaxStreams \<Rightarrow> fr_bidirectional g = fr_bidirectional f \<and> fr_maximum g = fr_maximum f
      | FkStreamsBlocked \<Rightarrow> fr_bidirectional g = fr_bidirectional f \<and> fr_maximum g = fr_maximum f
      | FkMaxData \<Rightarrow> fr_maximum g = fr_maximum f
      | FkDataBlocked \<Rightarrow> fr_maximum g = fr_maximum f
      | FkNewConnectionId \<Rightarrow> fr_sequence g = fr_sequence f \<and> fr_retire_prior_to g = fr_retire_prior_to f
          \<and> fr_connection_id g = fr_connection_id f
          \<and> fr_stateless_reset_token g = fr_stateless_reset_token f
      | FkRetireConnectionId \<Rightarrow> fr_sequence g = fr_sequence f
      | FkPathChallenge \<Rightarrow> fr_data g = fr_data f
      | FkPathResponse \<Rightarrow> fr_data g = fr_data f
      | FkConnectionClose \<Rightarrow> fr_application_close g = fr_application_close f
          \<and> fr_error_code g = fr_error_code f \<and> fr_reason_phrase g = fr_reason_phrase f
          \<and> (fr_application_close f \<or> fr_trigger_frame_type g = fr_trigger_frame_type f)
      | _ \<Rightarrow> True)"

definition frame_roundtrip :: "quic_frame \<Rightarrow> quic_ack_range list \<Rightarrow> nat \<Rightarrow> bytes \<Rightarrow> bytes \<Rightarrow> bool" where
  "frame_roundtrip f acks capacity bs rest \<longleftrightarrow> length bs \<le> capacity
     \<and> (\<exists>g. quic_parse_frame (bs @ rest) = Inr (g, length bs) \<and> frame_agrees f acks g)"

lemma parse_frame_typed:
  assumes "t \<le> QuicVarIntMaximum"
  shows "quic_parse_frame (quic_varint t @ body) =
    parse_frame_body t (quic_varint t @ body) (length (quic_varint t)) (frame_new\<lparr>fr_wire_type := t\<rparr>)"
  using assms quic_varint_nonempty [OF assms] by (simp add: quic_parse_frame_def read_value_first)

lemmas frame_simps = frame_roundtrip_def frame_agrees_def quic_encode_frame_def parse_frame_typed
  parse_frame_body_def frame_new_def

lemma frame_roundtrip_plain:
  assumes "quic_encode_frame f acks capacity = Inr bs" "fr_kind f \<in> {FkPing, FkHandshakeDone, FkResetStream,
    FkStopSending, FkRetireConnectionId}"
  shows "frame_roundtrip f acks capacity bs rest"
  using assms
  by (auto simp: frame_simps status_simps codec_simps parse_reset_stream_def parse_stop_sending_def parse_retire_def)

lemma frame_roundtrip_data:
  assumes "quic_encode_frame f acks capacity = Inr bs" "fr_kind f \<in> {FkCrypto, FkNewToken, FkStream}"
  shows "frame_roundtrip f acks capacity bs rest"
  using assms
  by (auto simp: frame_simps status_simps codec_simps encode_crypto_def encode_stream_def parse_crypto_def
      parse_stream_def)

lemma frame_roundtrip_limit:
  assumes "quic_encode_frame f acks capacity = Inr bs" "fr_kind f \<in> {FkMaxData, FkMaxStreamData, FkMaxStreams,
    FkDataBlocked, FkStreamDataBlocked, FkStreamsBlocked}"
  shows "frame_roundtrip f acks capacity bs rest"
  using assms
  by (auto simp: frame_simps status_simps codec_simps encode_limit_def limit_wire_type_def parse_limit_def limit_kind_def)

lemma frame_roundtrip_path:
  assumes "quic_encode_frame f acks capacity = Inr bs" "fr_kind f \<in> {FkPathChallenge, FkPathResponse}"
  shows "frame_roundtrip f acks capacity bs rest"
  using assms
  by (auto simp: frame_simps status_simps codec_simps parse_path_def has_bytes_def view_def split: if_splits)

lemma frame_roundtrip_close:
  assumes "quic_encode_frame f acks capacity = Inr bs" "fr_kind f = FkConnectionClose"
  shows "frame_roundtrip f acks capacity bs rest"
  using assms
  by (cases "fr_application_close f")
     (auto simp: frame_simps status_simps codec_simps encode_close_def parse_close_def)

lemma frame_roundtrip_cid:
  assumes "quic_encode_frame f acks capacity = Inr bs" "fr_kind f = FkNewConnectionId"
  shows "frame_roundtrip f acks capacity bs rest"
  using assms
  by (auto simp: frame_simps status_simps codec_simps encode_new_connection_id_def parse_new_connection_id_def
      has_bytes_def view_def QuicMaximumConnectionIdLength_def nth_append Let_def split: if_splits)

lemma ack_encodable_tail:
  "ack_ranges_encodable (x # xs) \<Longrightarrow> ack_ranges_encodable (\<lparr>Smallest = Smallest x, Largest = Smallest x\<rparr> # xs)"
  by (cases xs) auto

lemma decode_ack_ranges_of_bytes:
  assumes "ack_ranges_encodable (x # xs)" "ack_range_fields_ok (Smallest x) xs"
    and "length xs < WKNET_HARD_MAX_QUIC_ACK_RANGES"
    and g: "fr_kind g = FkAck" "fr_largest_acknowledged g = Largest x" "fr_first_ack_range g = Largest x - Smallest x"
      "fr_ack_range_count g = length xs" "fr_ack_range_data g = ack_range_bytes (Smallest x) xs"
    and cap: "length (x # xs) \<le> cap"
  shows "quic_decode_ack_ranges g cap = Inr (x # xs)"
proof -
  have x: "Smallest x \<le> Largest x" using assms(1) by (cases xs) auto
  have w: "w64 (length xs + 1) = length xs + 1"
    using assms(3) by (intro w64_id) (simp add: WKNET_HARD_MAX_QUIC_ACK_RANGES_def u64_max_def)
  have "decode_ack_loop (length xs) (Smallest x) (ack_range_bytes (Smallest x) xs) 0
      = Inr (xs, length (ack_range_bytes (Smallest x) xs))"
    using assms(2) ack_encodable_tail [OF assms(1)] by (intro decode_ack_loop_at) auto
  with x w assms(3) cap g show ?thesis
    by (simp add: quic_decode_ack_ranges_def Let_def)
qed

lemma frame_roundtrip_ack:
  assumes "quic_encode_frame f acks capacity = Inr bs" "fr_kind f = FkAck"
  shows "frame_roundtrip f acks capacity bs rest"
proof -
  from assms have ok: "acks \<noteq> []" "length acks \<le> WKNET_HARD_MAX_QUIC_ACK_RANGES" "ack_ranges_encodable acks"
    and enc: "encode_ack f acks capacity = Inr bs"
    by (auto simp: quic_encode_frame_def encode_ack_def split: if_splits)
  then obtain x xs where x: "acks = x # xs" by (cases acks) auto
  let ?head = "quic_varint 2 @ quic_varint (Largest x) @ quic_varint (fr_ack_delay f) @ quic_varint (length xs)
    @ quic_varint (Largest x - Smallest x)"
  let ?ranges = "ack_range_bytes (Smallest x) xs"
  from enc ok obtain w5 where w5: "w5 = ?head" "length w5 \<le> capacity" "Largest x \<le> QuicVarIntMaximum"
    "fr_ack_delay f \<le> QuicVarIntMaximum" "length xs \<le> QuicVarIntMaximum"
    "Largest x - Smallest x \<le> QuicVarIntMaximum"
    "write_ack_ranges (Smallest x) xs capacity w5 = Inr bs"
    by (auto simp: encode_ack_def x status_simps)
  from write_ack_ranges_Inr [OF w5(7)] w5(2)
  have bs: "bs = ?head @ ?ranges" "ack_range_fields_ok (Smallest x) xs" "length bs \<le> capacity"
    by (auto simp: w5(1))
  have skip: "skip_ack_ranges (length xs) (?head @ ?ranges @ rest) (length ?head)
      = Inr (length ?head + length ?ranges)"
    by (rule skip_ack_ranges_at [OF bs(2), of _ _ rest]) auto
  have v: "view (?head @ ?ranges @ rest) (length ?head) (length ?ranges) = ?ranges"
    by (simp add: view_def)
  have lx: "length xs < WKNET_HARD_MAX_QUIC_ACK_RANGES" using ok(2) x by simp
  define g where "g = frame_new\<lparr>fr_wire_type := 2, fr_kind := FkAck, fr_largest_acknowledged := Largest x,
    fr_ack_delay := fr_ack_delay f, fr_ack_range_count := length xs,
    fr_first_ack_range := Largest x - Smallest x, fr_ack_range_data := ?ranges\<rparr>"
  have "quic_parse_frame (bs @ rest) = parse_ack 2 (?head @ ?ranges @ rest) (length (quic_varint 2))
      (frame_new\<lparr>fr_wire_type := 2\<rparr>)"
    by (simp add: bs(1) parse_frame_typed parse_frame_body_def codec_simps)
  also have "\<dots> = Inr (g, length bs)"
    using w5(3-6) lx skip v
    by (simp add: parse_ack_def skip_ecn_def codec_simps g_def bs(1) add.assoc not_le add.commute add.left_commute)
  finally have p: "quic_parse_frame (bs @ rest) = Inr (g, length bs)" .
  have "quic_decode_ack_ranges g cap = Inr acks" if "length acks \<le> cap" for cap
    unfolding x using that ok(3) bs(2) lx
    by (intro decode_ack_ranges_of_bytes) (simp_all add: x g_def)
  with p bs(3) assms(2) show ?thesis
    unfolding frame_roundtrip_def by (auto simp: frame_agrees_def g_def)
qed

lemma frame_roundtrips:
  assumes "quic_encode_frame f acks capacity = Inr bs" "fr_kind f \<noteq> FkPadding"
  shows "length bs \<le> capacity
    \<and> (\<exists>g. quic_parse_frame (bs @ rest) = Inr (g, length bs) \<and> frame_agrees f acks g)"
proof -
  have "frame_roundtrip f acks capacity bs rest"
    using assms(2) frame_roundtrip_plain [OF assms(1)] frame_roundtrip_data [OF assms(1)]
      frame_roundtrip_limit [OF assms(1)] frame_roundtrip_path [OF assms(1)]
      frame_roundtrip_close [OF assms(1)] frame_roundtrip_cid [OF assms(1)] frame_roundtrip_ack [OF assms(1)]
    by (cases "fr_kind f") simp_all
  then show ?thesis by (simp add: frame_roundtrip_def)
qed

lemma padding_reads:
  assumes "quic_encode_frame f acks capacity = Inr bs" "fr_kind f = FkPadding"
  shows "bs = replicate (if fr_length f = 0 then 1 else fr_length f) 0 \<and> length bs \<le> capacity
    \<and> (\<forall>k < length bs. \<exists>g. quic_parse_frame (drop k bs @ rest) = Inr (g, 1) \<and> fr_kind g = FkPadding)"
proof -
  let ?n = "if fr_length f = 0 then 1 else fr_length f"
  have bs: "bs = replicate ?n 0" "length bs \<le> capacity"
    using assms by (auto simp: quic_encode_frame_def Let_def split: if_splits)
  have z: "quic_varint 0 = [0]" by (simp add: quic_varint_def quic_encode_varint_def quic_varint_encoded_length_def QuicVarIntMaximum_def codec_simps uchar_def)
  have "\<exists>g. quic_parse_frame (drop k bs @ rest) = Inr (g, 1) \<and> fr_kind g = FkPadding" if k: "k < length bs" for k
  proof -
    obtain r where r: "drop k bs @ rest = quic_varint 0 @ r"
      using k bs(1) z by (cases "?n - k") auto
    show ?thesis unfolding r using parse_frame_typed [of 0 r]
      by (simp add: parse_frame_body_def QuicVarIntMaximum_def z)
  qed
  with bs show ?thesis by (intro conjI allI impI)
qed

text \<open>
  C22. Every frame the encoder accepts fits its capacity and is parsed back from what was written, whatever
  follows it: the parser consumes exactly the encoded bytes and returns the same kind with the same fields, and for
  an ACK frame the range decoder returns the very ranges that were encoded. PADDING of several bytes is read as that
  many PADDING frames of one byte.
\<close>

theorem frame_parse_encode:
  assumes "quic_encode_frame f acks capacity = Inr bs"
  shows "length bs \<le> capacity
    \<and> (if fr_kind f = FkPadding
       then length bs = max 1 (fr_length f)
         \<and> (\<forall>k < length bs. \<exists>g. quic_parse_frame (drop k bs @ rest) = Inr (g, 1) \<and> fr_kind g = FkPadding)
       else \<exists>g. quic_parse_frame (bs @ rest) = Inr (g, length bs) \<and> frame_agrees f acks g)"
proof (cases "fr_kind f = FkPadding")
  case True
  note p = padding_reads [OF assms True, of rest]
  from p have "length bs = max 1 (fr_length f)" by (cases "fr_length f") auto
  with p show ?thesis unfolding if_P [OF True] by blast
next
  case False
  with frame_roundtrips [OF assms False, of rest] show ?thesis by simp
qed

theorem frame_parse_encode_witness:
  "\<exists>g. quic_parse_frame [0x0f, 4, 0x40, 0x64, 2, 7, 8, 0xff] = Inr (g, 7) \<and> fr_data g = [7, 8] \<and> fr_fin g
     \<and> fr_offset g = 100"
proof -
  let ?f = "frame_new\<lparr>fr_kind := FkStream, fr_fin := True, fr_stream_id := 4, fr_offset := 100,
     fr_data := [7, 8]\<rparr>"
  have "quic_encode_frame ?f [] 32 = Inr [0x0f, 4, 0x40, 0x64, 2, 7, 8]"
    by (simp add: quic_encode_frame_def encode_stream_def write_value_def write_bytes_def frame_new_def
        quic_varint_encoded_length_def quic_encode_varint_def QuicVarIntMaximum_def codec_simps Let_def
        uchar_def drop_bit_eq_div and_255_nat)
  from frame_parse_encode [OF this, of "[0xff]"] show ?thesis
    by (auto simp: frame_agrees_def frame_new_def eval_nat_numeral)
qed

section \<open>What the parser accepts\<close>

lemma skip_ack_ranges_Inr:
  "skip_ack_ranges n data offset = Inr o' \<Longrightarrow> offset \<le> length data \<Longrightarrow> offset \<le> o' \<and> o' \<le> length data"
proof (induction n arbitrary: offset)
  case (Suc n)
  from Suc.prems obtain g o1 r o2 where r: "read_value data offset = Inr (g, o1)" "read_value data o1 = Inr (r, o2)"
    "skip_ack_ranges n data o2 = Inr o'"
    by (auto simp: status_simps split: prod.splits)
  from Suc.IH [OF r(3)] read_value_Inr [OF r(1)] read_value_Inr [OF r(2)] show ?case by simp
qed simp

lemma read_block_Inr:
  assumes "read_block data offset = Inr (len, block, o')"
  shows "length block = len \<and> len \<le> QuicVarIntMaximum \<and> o' \<le> length data \<and> offset < o'
    \<and> block = view data (o' - len) len"
proof -
  from assms obtain o1 where r: "read_value data offset = Inr (len, o1)" "has_bytes o1 len (length data)"
    "block = view data o1 len" "o' = o1 + len"
    unfolding read_block_eq by (auto simp: status_simps split: if_splits)
  have "offset < o1" "len \<le> QuicVarIntMaximum" using read_value_Inr [OF r(1)] by simp_all
  moreover have "o1 + len \<le> length data" using r(2) by (auto simp: has_bytes_def)
  ultimately show ?thesis using r by auto
qed

definition frame_fields_ok :: "quic_frame \<Rightarrow> bool" where
  "frame_fields_ok f \<longleftrightarrow>
     fr_stream_id f \<le> QuicVarIntMaximum \<and> fr_offset f \<le> QuicVarIntMaximum \<and> fr_error_code f \<le> QuicVarIntMaximum
     \<and> fr_final_size f \<le> QuicVarIntMaximum \<and> fr_maximum f \<le> QuicVarIntMaximum
     \<and> fr_largest_acknowledged f \<le> QuicVarIntMaximum \<and> fr_ack_delay f \<le> QuicVarIntMaximum
     \<and> fr_ack_range_count f < WKNET_HARD_MAX_QUIC_ACK_RANGES \<and> fr_first_ack_range f \<le> QuicVarIntMaximum
     \<and> fr_sequence f \<le> QuicVarIntMaximum \<and> fr_retire_prior_to f \<le> fr_sequence f
     \<and> fr_trigger_frame_type f \<le> QuicVarIntMaximum
     \<and> length (fr_connection_id f) \<le> QuicMaximumConnectionIdLength
     \<and> (fr_kind f = FkNewConnectionId \<longrightarrow> fr_connection_id f \<noteq> [] \<and> length (fr_stateless_reset_token f) = 16)
     \<and> (fr_kind f \<in> {FkPathChallenge, FkPathResponse} \<longrightarrow> length (fr_data f) = 8)
     \<and> (fr_kind f \<in> {FkStream, FkCrypto, FkNewToken} \<longrightarrow> length (fr_data f) = fr_length f)
     \<and> (fr_kind f = FkConnectionClose \<longrightarrow> length (fr_reason_phrase f) = fr_length f)"

lemma frame_new_ok: "frame_fields_ok (frame_new\<lparr>fr_wire_type := t\<rparr>)"
  by (simp add: frame_fields_ok_def frame_new_def WKNET_HARD_MAX_QUIC_ACK_RANGES_def)

definition parsed_ok :: "bytes \<Rightarrow> nat \<Rightarrow> (quic_frame \<times> nat) result \<Rightarrow> bool" where
  "parsed_ok data offset r \<longleftrightarrow>
     (\<forall>f o'. r = Inr (f, o') \<longrightarrow> frame_fields_ok f \<and> offset \<le> o' \<and> o' \<le> length data)"

lemma parsed_okI:
  "(\<And>f o'. r = Inr (f, o') \<Longrightarrow> frame_fields_ok f \<and> offset \<le> o' \<and> o' \<le> length data) \<Longrightarrow> parsed_ok data offset r"
  by (simp add: parsed_ok_def)

lemma parsed_ok_Inl: "parsed_ok data offset (Inl e)"
  by (simp add: parsed_ok_def)

lemma parsed_ok_Inr:
  "parsed_ok data offset (Inr (f, o')) \<longleftrightarrow> frame_fields_ok f \<and> offset \<le> o' \<and> o' \<le> length data"
  by (simp add: parsed_ok_def)

text \<open>The initial frame of every body parser: the defaults, with the wire type.\<close>

lemmas parsed_simps = status_simps frame_fields_ok_def frame_new_def WKNET_HARD_MAX_QUIC_ACK_RANGES_def

lemma parse_reset_stream_ok:
  "parsed_ok data offset (parse_reset_stream data offset (frame_new\<lparr>fr_wire_type := t\<rparr>))"
proof (rule parsed_okI)
  fix f o'
  assume "parse_reset_stream data offset (frame_new\<lparr>fr_wire_type := t\<rparr>) = Inr (f, o')"
  then obtain a b c o1 o2 where r: "read_value data offset = Inr (a, o1)" "read_value data o1 = Inr (b, o2)"
    "read_value data o2 = Inr (c, o')"
    "f = frame_new\<lparr>fr_wire_type := t, fr_kind := FkResetStream, fr_stream_id := a, fr_error_code := b, fr_final_size := c\<rparr>"
    by (auto simp: parse_reset_stream_def status_simps)
  from r(1-3) [THEN read_value_Inr] show "frame_fields_ok f \<and> offset \<le> o' \<and> o' \<le> length data"
    by (simp add: r(4) parsed_simps)
qed

lemma parse_stop_sending_ok:
  "parsed_ok data offset (parse_stop_sending data offset (frame_new\<lparr>fr_wire_type := t\<rparr>))"
proof (rule parsed_okI)
  fix f o'
  assume "parse_stop_sending data offset (frame_new\<lparr>fr_wire_type := t\<rparr>) = Inr (f, o')"
  then obtain a b o1 where r: "read_value data offset = Inr (a, o1)" "read_value data o1 = Inr (b, o')"
    "f = frame_new\<lparr>fr_wire_type := t, fr_kind := FkStopSending, fr_stream_id := a, fr_error_code := b\<rparr>"
    by (auto simp: parse_stop_sending_def status_simps)
  from r(1-2) [THEN read_value_Inr] show "frame_fields_ok f \<and> offset \<le> o' \<and> o' \<le> length data"
    by (simp add: r(3) parsed_simps)
qed

lemma parse_retire_ok:
  "parsed_ok data offset (parse_retire data offset (frame_new\<lparr>fr_wire_type := t\<rparr>))"
proof (rule parsed_okI)
  fix f o'
  assume "parse_retire data offset (frame_new\<lparr>fr_wire_type := t\<rparr>) = Inr (f, o')"
  then obtain a where r: "read_value data offset = Inr (a, o')"
    "f = frame_new\<lparr>fr_wire_type := t, fr_kind := FkRetireConnectionId, fr_sequence := a\<rparr>"
    by (auto simp: parse_retire_def status_simps)
  from r(1) [THEN read_value_Inr] show "frame_fields_ok f \<and> offset \<le> o' \<and> o' \<le> length data"
    by (simp add: r(2) parsed_simps)
qed

lemma frame_new_sel [simp]:
  "fr_stream_id frame_new = 0" "fr_offset frame_new = 0" "fr_trigger_frame_type frame_new = 0"
  by (simp_all add: frame_new_def)

definition is_limit_of :: "quic_frame \<Rightarrow> quic_frame \<Rightarrow> bool" where
  "is_limit_of f g \<longleftrightarrow> (\<exists>k b. g = f\<lparr>fr_kind := k, fr_bidirectional := b\<rparr> \<and> k \<in> {FkMaxData, FkMaxStreamData,
     FkMaxStreams, FkDataBlocked, FkStreamDataBlocked, FkStreamsBlocked})"

lemma limit_kind_form: "is_limit_of f (limit_kind t f)"
proof -
  have "f\<lparr>fr_kind := k\<rparr> = f\<lparr>fr_kind := k, fr_bidirectional := fr_bidirectional f\<rparr>" for k by simp
  then have "is_limit_of f (f\<lparr>fr_kind := k\<rparr>)" if "k \<in> {FkMaxData, FkMaxStreamData,
     FkMaxStreams, FkDataBlocked, FkStreamDataBlocked, FkStreamsBlocked}" for k
    using that unfolding is_limit_of_def by blast
  moreover have "is_limit_of f (f\<lparr>fr_kind := k, fr_bidirectional := b\<rparr>)" if "k \<in> {FkMaxData, FkMaxStreamData,
     FkMaxStreams, FkDataBlocked, FkStreamDataBlocked, FkStreamsBlocked}" for k b
    using that unfolding is_limit_of_def by blast
  ultimately show ?thesis by (simp add: limit_kind_def)
qed

lemma parse_limit_ok:
  "parsed_ok data offset (parse_limit t data offset (frame_new\<lparr>fr_wire_type := t\<rparr>))"
proof (rule parsed_okI)
  fix f o'
  assume "parse_limit t data offset (frame_new\<lparr>fr_wire_type := t\<rparr>) = Inr (f, o')"
  then obtain sid o1 m where r:
    "(if t = 0x11 \<or> t = 0x15 then read_value data offset else Inr (0, offset)) = Inr (sid, o1)"
    "read_value data o1 = Inr (m, o')"
    "f = (limit_kind t (frame_new\<lparr>fr_wire_type := t\<rparr>))\<lparr>fr_stream_id := sid, fr_maximum := m\<rparr>"
    unfolding parse_limit_def by (auto simp: rbind_eq_Inr_iff cong: if_cong)
  have "sid \<le> QuicVarIntMaximum \<and> offset \<le> o1"
    using r(1) read_value_Inr [of data offset sid o1] by (auto split: if_splits)
  with r(2) [THEN read_value_Inr] limit_kind_form [of "frame_new\<lparr>fr_wire_type := t\<rparr>" t]
  show "frame_fields_ok f \<and> offset \<le> o' \<and> o' \<le> length data"
    by (auto simp: r(3) is_limit_of_def parsed_simps)
qed

lemma parse_crypto_ok:
  "parsed_ok data offset (parse_crypto t data offset (frame_new\<lparr>fr_wire_type := t\<rparr>))"
proof (rule parsed_okI)
  fix f o'
  assume "parse_crypto t data offset (frame_new\<lparr>fr_wire_type := t\<rparr>) = Inr (f, o')"
  then obtain off o1 len block where r:
    "(if t = 0x06 then read_value data offset else Inr (0, offset)) = Inr (off, o1)"
    "read_block data o1 = Inr (len, block, o')"
    "f = frame_new\<lparr>fr_wire_type := t, fr_kind := (if t = 0x06 then FkCrypto else FkNewToken), fr_offset := off,
              fr_length := len, fr_data := block\<rparr>"
    unfolding parse_crypto_def by (auto simp: rbind_eq_Inr_iff cong: if_cong)
  have "off \<le> QuicVarIntMaximum \<and> offset \<le> o1"
    using r(1) read_value_Inr [of data offset off o1] by (auto split: if_splits)
  with read_block_Inr [OF r(2)] show "frame_fields_ok f \<and> offset \<le> o' \<and> o' \<le> length data"
    by (auto simp: r(3) parsed_simps)
qed

lemma parse_stream_ok:
  "parsed_ok data offset (parse_stream t data offset (frame_new\<lparr>fr_wire_type := t\<rparr>))"
proof (rule parsed_okI)
  fix f o'
  assume "parse_stream t data offset (frame_new\<lparr>fr_wire_type := t\<rparr>) = Inr (f, o')"
  then obtain sid o1 off o2 len block where r: "read_value data offset = Inr (sid, o1)"
    "(if (t AND 0x04) \<noteq> 0 then read_value data o1 else Inr (0, o1)) = Inr (off, o2)"
    "(if (t AND 0x02) \<noteq> 0 then read_block data o2
            else Inr (length data - o2, view data o2 (length data - o2), o2 + (length data - o2))) = Inr (len, block, o')"
    "f = frame_new\<lparr>fr_wire_type := t, fr_kind := FkStream, fr_fin := ((t AND 0x01) \<noteq> 0), fr_stream_id := sid,
        fr_offset := off, fr_length := len, fr_data := block\<rparr>"
    unfolding parse_stream_def by (auto simp: rbind_eq_Inr_iff cong: if_cong)
  have o1: "sid \<le> QuicVarIntMaximum" "offset < o1" "o1 \<le> length data" using read_value_Inr [OF r(1)] by auto
  have o2: "off \<le> QuicVarIntMaximum" "o1 \<le> o2" "o2 \<le> length data"
    using o1 r(2) read_value_Inr [of data o1 off o2] by (auto split: if_splits)
  have "length block = len \<and> o2 \<le> o' \<and> o' \<le> length data"
  proof (cases "(t AND 0x02) \<noteq> 0")
    case True
    then have "read_block data o2 = Inr (len, block, o')" using r(3) by simp
    from read_block_Inr [OF this] show ?thesis using less_imp_le by blast
  next
    case False
    with r(3) o2 show ?thesis by (auto simp: view_def)
  qed
  with o1 o2 show "frame_fields_ok f \<and> offset \<le> o' \<and> o' \<le> length data"
    by (auto simp: r(4) parsed_simps)
qed

lemma parse_new_connection_id_ok:
  "parsed_ok data offset (parse_new_connection_id data offset (frame_new\<lparr>fr_wire_type := t\<rparr>))"
proof (rule parsed_okI)
  fix f o'
  assume "parse_new_connection_id data offset (frame_new\<lparr>fr_wire_type := t\<rparr>) = Inr (f, o')"
  then obtain sq o1 rt o2 n where r: "read_value data offset = Inr (sq, o1)" "read_value data o1 = Inr (rt, o2)"
    "rt \<le> sq" "has_bytes o2 1 (length data)" "n = unat (data ! o2)" "0 < n" "n \<le> QuicMaximumConnectionIdLength"
    "has_bytes (o2 + 1) (n + 16) (length data)" "o' = o2 + 1 + n + 16"
    "f = frame_new\<lparr>fr_wire_type := t, fr_kind := FkNewConnectionId, fr_sequence := sq, fr_retire_prior_to := rt,
        fr_connection_id := view data (o2 + 1) n, fr_stateless_reset_token := view data (o2 + 1 + n) 16\<rparr>"
    unfolding parse_new_connection_id_def
    by (auto simp: rbind_eq_Inr_iff Let_def not_less split: if_splits)
  have "length (view data (o2 + 1) n) = n" "length (view data (o2 + 1 + n) 16) = 16" "o' \<le> length data"
    using r(8,9) by (auto simp: view_def has_bytes_def)
  with read_value_Inr [OF r(1)] read_value_Inr [OF r(2)] r(3,6,7,9)
  show "frame_fields_ok f \<and> offset \<le> o' \<and> o' \<le> length data"
    by (auto simp: r(10) parsed_simps)
qed

lemma parse_path_ok:
  "parsed_ok data offset (parse_path t data offset (frame_new\<lparr>fr_wire_type := t\<rparr>))"
  by (rule parsed_okI) (auto simp: parse_path_def parsed_simps has_bytes_def view_def split: if_splits)

lemma parse_close_ok:
  "parsed_ok data offset (parse_close t data offset (frame_new\<lparr>fr_wire_type := t\<rparr>))"
proof (rule parsed_okI)
  fix f o'
  assume "parse_close t data offset (frame_new\<lparr>fr_wire_type := t\<rparr>) = Inr (f, o')"
  then obtain err o1 trig o2 len block where r: "read_value data offset = Inr (err, o1)"
    "(if t = 0x1c then read_value data o1 else Inr (0, o1)) = Inr (trig, o2)"
    "read_block data o2 = Inr (len, block, o')"
    "f = frame_new\<lparr>fr_wire_type := t, fr_kind := FkConnectionClose, fr_application_close := (t = 0x1d),
        fr_error_code := err, fr_trigger_frame_type := trig, fr_length := len, fr_reason_phrase := block\<rparr>"
    unfolding parse_close_def by (auto simp: rbind_eq_Inr_iff cong: if_cong)
  have "trig \<le> QuicVarIntMaximum \<and> o1 \<le> o2"
    using r(2) read_value_Inr [of data o1 trig o2] by (auto split: if_splits)
  with read_value_Inr [OF r(1)] read_block_Inr [OF r(3)] show "frame_fields_ok f \<and> offset \<le> o' \<and> o' \<le> length data"
    by (auto simp: r(4) parsed_simps)
qed

lemma skip_ecn_Inr:
  assumes "skip_ecn t data offset = Inr o'" "offset \<le> length data"
  shows "offset \<le> o' \<and> o' \<le> length data"
proof (cases "t = 0x03")
  case True
  then obtain a o1 b o2 c where r: "read_value data offset = Inr (a, o1)" "read_value data o1 = Inr (b, o2)"
    "read_value data o2 = Inr (c, o')"
    using assms(1) by (auto simp: skip_ecn_def rbind_eq_Inr_iff)
  from r [THEN read_value_Inr] show ?thesis by simp
qed (use assms in \<open>simp add: skip_ecn_def\<close>)

lemma parse_ack_ok:
  "parsed_ok data offset (parse_ack t data offset (frame_new\<lparr>fr_wire_type := t\<rparr>))"
proof (rule parsed_okI)
  fix f o'
  assume "parse_ack t data offset (frame_new\<lparr>fr_wire_type := t\<rparr>) = Inr (f, o')"
  then obtain a o1 b o2 c o3 d o4 o5 where r: "read_value data offset = Inr (a, o1)" "read_value data o1 = Inr (b, o2)"
    "read_value data o2 = Inr (c, o3)" "read_value data o3 = Inr (d, o4)" "c < WKNET_HARD_MAX_QUIC_ACK_RANGES"
    "skip_ack_ranges c data o4 = Inr o5" "skip_ecn t data o5 = Inr o'"
    "f = frame_new\<lparr>fr_wire_type := t, fr_kind := FkAck, fr_largest_acknowledged := a, fr_ack_delay := b,
        fr_ack_range_count := c, fr_first_ack_range := d, fr_ack_range_data := view data o4 (o5 - o4)\<rparr>"
    unfolding parse_ack_def by (auto simp: rbind_eq_Inr_iff not_le split: if_splits)
  have v: "a \<le> QuicVarIntMaximum" "b \<le> QuicVarIntMaximum" "d \<le> QuicVarIntMaximum" "offset < o4" "o4 \<le> length data"
    using r(1-4) [THEN read_value_Inr] by auto
  have o5: "o4 \<le> o5" "o5 \<le> length data" using skip_ack_ranges_Inr [OF r(6)] v(5) by auto
  have "o5 \<le> o' \<and> o' \<le> length data" using skip_ecn_Inr [OF r(7)] o5 by blast
  with v o5 r(5) show "frame_fields_ok f \<and> offset \<le> o' \<and> o' \<le> length data"
    by (simp add: r(8) parsed_simps)
qed

lemma parse_frame_shape:
  assumes "quic_parse_frame data = Inr (f, n)"
  shows "0 < n \<and> n \<le> length data \<and> frame_fields_ok f"
proof -
  from assms obtain t off where r: "read_value data 0 = Inr (t, off)"
    "parse_frame_body t data off (frame_new\<lparr>fr_wire_type := t\<rparr>) = Inr (f, n)"
    by (auto simp: quic_parse_frame_def rbind_eq_Inr_iff split: if_splits)
  have off: "0 < off" "off \<le> length data" using read_value_Inr [OF r(1)] by auto
  have plain: "frame_fields_ok (frame_new\<lparr>fr_wire_type := t, fr_kind := FkPadding\<rparr>)"
    "frame_fields_ok (frame_new\<lparr>fr_wire_type := t, fr_kind := FkPing\<rparr>)"
    "frame_fields_ok (frame_new\<lparr>fr_wire_type := t, fr_kind := FkHandshakeDone\<rparr>)" for t
    by (simp_all add: parsed_simps)
  have "parsed_ok data off (parse_frame_body t data off (frame_new\<lparr>fr_wire_type := t\<rparr>))"
    unfolding parse_frame_body_def
    by (simp add: parse_ack_ok parse_reset_stream_ok parse_stop_sending_ok parse_crypto_ok parse_stream_ok
        parse_limit_ok parse_new_connection_id_ok parse_retire_ok parse_path_ok parse_close_ok off(2) plain
        parsed_ok_Inl parsed_ok_Inr)
  with r(2) off show ?thesis by (auto simp: parsed_ok_def)
qed



section \<open>Decoded ACK ranges\<close>

text \<open>
  Whatever bytes the peer put in an ACK frame, ranges the decoder accepts are a proper list: as
  many as announced plus one, each from its smallest to its largest number, the first ending at the
  largest acknowledged number, and each further one ending at least two below the one before, so
  they are disjoint, descending and separated by a gap.
\<close>

theorem decoded_ack_ranges_shape:
  assumes "quic_decode_ack_ranges f cap = Inr rs" "fr_ack_range_count f < u64_max"
  shows "length rs = fr_ack_range_count f + 1 \<and> length rs \<le> cap \<and> length rs \<le> WKNET_HARD_MAX_QUIC_ACK_RANGES
    \<and> ack_ranges_encodable rs \<and> Largest (hd rs) = fr_largest_acknowledged f"
proof -
  have w: "w64 (fr_ack_range_count f + 1) = fr_ack_range_count f + 1"
    using assms(2) by (intro w64_id) simp
  let ?s = "fr_largest_acknowledged f - fr_first_ack_range f"
  from assms(1) obtain rs' off where r: "decode_ack_loop (fr_ack_range_count f) ?s (fr_ack_range_data f) 0 = Inr (rs', off)"
    "rs = take (fr_ack_range_count f + 1) (\<lparr>Smallest = ?s, Largest = fr_largest_acknowledged f\<rparr> # rs')"
    "fr_ack_range_count f + 1 \<le> cap" "fr_ack_range_count f + 1 \<le> WKNET_HARD_MAX_QUIC_ACK_RANGES"
    "fr_first_ack_range f \<le> fr_largest_acknowledged f"
    unfolding quic_decode_ack_ranges_def w Let_def
    by (auto simp: rbind_eq_Inr_iff not_less split: if_splits)
  note shape = decode_ack_loop_shape [OF r(1)]
  then have rs: "rs = \<lparr>Smallest = ?s, Largest = fr_largest_acknowledged f\<rparr> # rs'" using r(2) by simp
  have "ack_ranges_encodable rs" using shape r(5) unfolding rs by (cases rs') auto
  with shape r(3,4) rs show ?thesis by simp
qed

theorem decoded_ack_ranges_shape_witness:
  "\<exists>rs. quic_decode_ack_ranges (frame_new\<lparr>fr_kind := FkAck, fr_largest_acknowledged := 9, fr_first_ack_range := 1,
       fr_ack_range_count := 1, fr_ack_range_data := [3, 2]\<rparr>) 4 = Inr rs \<and> length rs = 2 \<and> ack_ranges_encodable rs"
proof -
  let ?f = "frame_new\<lparr>fr_kind := FkAck, fr_largest_acknowledged := 9, fr_first_ack_range := 1,
       fr_ack_range_count := 1, fr_ack_range_data := [3, 2]\<rparr>"
  have "quic_decode_ack_ranges ?f 4 = Inr [\<lparr>Smallest = 8, Largest = 9\<rparr>, \<lparr>Smallest = 1, Largest = 3\<rparr>]"
    by (simp add: quic_decode_ack_ranges_def frame_new_def w64_def WKNET_HARD_MAX_QUIC_ACK_RANGES_def read_value_def
        quic_decode_varint_def drop_bit_eq_div and_63_nat)
  from this decoded_ack_ranges_shape [OF this] show ?thesis
    by (simp add: frame_new_def u64_max_def)
qed

end
