(* ===== verification/QuicPacket.thy ===== *)
theory QuicPacket
  imports QuicVarInt
begin

text \<open>
  QUIC packet headers, \<open>src/wknetlib/quic/QuicPacket.cpp\<close>: parsing long and short headers,
  encoding them, packet number truncation and reconstruction, and the iterator over the packets
  coalesced in one datagram. On an error the source leaves a partly filled header, which no caller
  reads; here an error is only its status. The lemmas give the round trip of headers, the bounds
  of accepted headers, the correctness of packet number reconstruction, and that the iterator
  splits the datagram.
\<close>

record packet_header =
  ph_type :: quic_packet_type
  ph_version :: nat
  ph_is_long :: bool
  ph_fixed_bit :: bool
  ph_first_byte :: byte
  ph_dcid :: bytes
  ph_scid :: bytes
  ph_token :: bytes
  ph_version_list :: bytes
  ph_retry_tag :: bytes
  ph_header_length :: nat
  ph_pn_offset :: nat
  ph_pn_length :: nat
  ph_payload_offset :: nat
  ph_payload_length :: nat
  ph_packet_length :: nat

definition header_new :: packet_header where
  "header_new = \<lparr>ph_type = PtInitial, ph_version = 0, ph_is_long = False, ph_fixed_bit = False,
     ph_first_byte = 0, ph_dcid = [], ph_scid = [], ph_token = [], ph_version_list = [],
     ph_retry_tag = [], ph_header_length = 0, ph_pn_offset = 0, ph_pn_length = 0,
     ph_payload_offset = 0, ph_payload_length = 0, ph_packet_length = 0\<rparr>"

section \<open>Parsing\<close>

definition can_advance :: "nat \<Rightarrow> nat \<Rightarrow> nat \<Rightarrow> bool" where
  "can_advance offset len capacity \<longleftrightarrow> offset \<le> capacity \<and> len \<le> capacity - offset"

definition read_be32 :: "bytes \<Rightarrow> nat \<Rightarrow> nat" where
  "read_be32 data o0 =
     push_bit 24 (unat (data ! o0)) OR push_bit 16 (unat (data ! (o0 + 1)))
       OR push_bit 8 (unat (data ! (o0 + 2))) OR unat (data ! (o0 + 3))"

definition parse_short_header :: "bytes \<Rightarrow> nat \<Rightarrow> packet_header \<Rightarrow> packet_header result" where
  "parse_short_header packet cidLength h =
     (if \<not> ph_fixed_bit h then Inl STATUS_INVALID_NETWORK_RESPONSE
      else if cidLength > QuicMaximumConnectionIdLength \<or> \<not> can_advance 1 cidLength (length packet)
      then Inl STATUS_INVALID_NETWORK_RESPONSE
      else let pnLength = (unat (packet ! 0) AND 0x03) + 1; pnOffset = 1 + cidLength
           in if \<not> can_advance pnOffset pnLength (length packet) then Inl STATUS_BUFFER_TOO_SMALL
              else Inr (h\<lparr>ph_type := PtOneRtt, ph_dcid := view packet 1 cidLength, ph_pn_length := pnLength,
                         ph_pn_offset := pnOffset, ph_payload_offset := pnOffset + pnLength,
                         ph_payload_length := length packet - (pnOffset + pnLength),
                         ph_header_length := pnOffset + pnLength, ph_packet_length := length packet\<rparr>))"

text \<open>Both connection identifiers of a long header, and the offset after them.\<close>

definition parse_connection_ids :: "bytes \<Rightarrow> (bytes \<times> bytes \<times> nat) result" where
  "parse_connection_ids packet =
     (let dcidLength = unat (packet ! 5)
      in if dcidLength > QuicMaximumConnectionIdLength \<or> \<not> can_advance 6 (dcidLength + 1) (length packet)
         then Inl STATUS_INVALID_NETWORK_RESPONSE
         else let o1 = 6 + dcidLength; scidLength = unat (packet ! o1); o2 = o1 + 1
              in if scidLength > QuicMaximumConnectionIdLength \<or> \<not> can_advance o2 scidLength (length packet)
                 then Inl STATUS_INVALID_NETWORK_RESPONSE
                 else Inr (view packet 6 dcidLength, view packet o2 scidLength, o2 + scidLength))"

definition long_packet_type :: "byte \<Rightarrow> quic_packet_type" where
  "long_packet_type b =
     (let longType = drop_bit 4 (unat b) AND 0x03
      in if longType = 0 then PtInitial else if longType = 1 then PtZeroRtt
         else if longType = 2 then PtHandshake else PtRetry)"

text \<open>The varint readers of this file take the bytes left, as \<open>packet + offset\<close> and the length left.\<close>

definition read_packet_value :: "bytes \<Rightarrow> nat \<Rightarrow> (nat \<times> nat) result" where
  "read_packet_value packet offset =
     rbind (quic_decode_varint (drop offset packet)) (\<lambda>(v, consumed). Inr (v, offset + consumed))"

definition parse_token :: "bytes \<Rightarrow> nat \<Rightarrow> (bytes \<times> nat) result" where
  "parse_token packet offset =
     rbind (read_packet_value packet offset) (\<lambda>(tokenLength, o1).
       if tokenLength > length packet \<or> \<not> can_advance o1 tokenLength (length packet)
       then Inl STATUS_INVALID_NETWORK_RESPONSE
       else Inr (view packet o1 tokenLength, o1 + tokenLength))"

definition parse_protected :: "bytes \<Rightarrow> nat \<Rightarrow> packet_header \<Rightarrow> packet_header result" where
  "parse_protected packet offset h =
     rbind (read_packet_value packet offset) (\<lambda>(protectedLength, o1).
       if protectedLength > length packet \<or> \<not> can_advance o1 protectedLength (length packet)
       then Inl STATUS_INVALID_NETWORK_RESPONSE
       else let pnLength = (unat (packet ! 0) AND 0x03) + 1
            in if protectedLength < pnLength then Inl STATUS_INVALID_NETWORK_RESPONSE
               else Inr (h\<lparr>ph_pn_length := pnLength, ph_pn_offset := o1, ph_payload_offset := o1 + pnLength,
                          ph_payload_length := protectedLength - pnLength,
                          ph_header_length := o1 + pnLength, ph_packet_length := o1 + protectedLength\<rparr>))"

text \<open>What follows the identifiers depends on the version and the type.\<close>

definition parse_long_body :: "bytes \<Rightarrow> nat \<Rightarrow> packet_header \<Rightarrow> packet_header result" where
  "parse_long_body packet offset h =
     (if ph_version h = QuicVersionNegotiation
      then let listLength = length packet - offset
           in if listLength = 0 \<or> listLength mod 4 \<noteq> 0 then Inl STATUS_INVALID_NETWORK_RESPONSE
              else Inr (h\<lparr>ph_type := PtVersionNegotiation, ph_version_list := view packet offset listLength,
                         ph_header_length := offset, ph_packet_length := length packet\<rparr>)
      else if \<not> ph_fixed_bit h then Inl STATUS_INVALID_NETWORK_RESPONSE
      else if ph_version h \<noteq> QuicVersion1 then Inl STATUS_NOT_SUPPORTED
      else let type = long_packet_type (packet ! 0); h1 = h\<lparr>ph_type := type\<rparr>
           in if type = PtRetry
              then if length packet - offset < QuicRetryIntegrityTagLength then Inl STATUS_BUFFER_TOO_SMALL
                   else let tokenLength = length packet - offset - QuicRetryIntegrityTagLength
                        in Inr (h1\<lparr>ph_token := view packet offset tokenLength,
                             ph_retry_tag := view packet (length packet - QuicRetryIntegrityTagLength)
                                               QuicRetryIntegrityTagLength,
                             ph_header_length := offset, ph_packet_length := length packet\<rparr>)
              else rbind (if type = PtInitial then parse_token packet offset else Inr ([], offset)) (\<lambda>(token, o1).
                     parse_protected packet o1 (h1\<lparr>ph_token := token\<rparr>)))"

definition parse_long_header :: "bytes \<Rightarrow> packet_header \<Rightarrow> packet_header result" where
  "parse_long_header packet h =
     (if length packet < 6 then Inl STATUS_BUFFER_TOO_SMALL
      else rbind (parse_connection_ids packet) (\<lambda>(dcid, scid, offset).
        parse_long_body packet offset
          (h\<lparr>ph_version := read_be32 packet 1, ph_dcid := dcid, ph_scid := scid\<rparr>)))"

definition quic_parse_packet_header :: "bytes \<Rightarrow> nat \<Rightarrow> packet_header result" where
  "quic_parse_packet_header packet cidLength =
     (if packet = [] then Inl STATUS_INVALID_PARAMETER
      else let h = header_new\<lparr>ph_first_byte := packet ! 0,
                     ph_is_long := ((unat (packet ! 0) AND 0x80) \<noteq> 0),
                     ph_fixed_bit := ((unat (packet ! 0) AND 0x40) \<noteq> 0)\<rparr>
           in if \<not> ph_is_long h then parse_short_header packet cidLength h
              else parse_long_header packet h)"

section \<open>Packet numbers\<close>

definition quic_encode_packet_number :: "nat \<Rightarrow> nat \<Rightarrow> nat \<Rightarrow> bytes result" where
  "quic_encode_packet_number pn pnLength capacity =
     (if pnLength = 0 \<or> pnLength > 4 then Inl STATUS_INVALID_PARAMETER
      else if pn > QuicVarIntMaximum then Inl STATUS_INTEGER_OVERFLOW
      else let maximum = push_bit (pnLength * 8) 1 - 1
           in if pn > maximum then Inl STATUS_INTEGER_OVERFLOW
              else if capacity < pnLength then Inl STATUS_BUFFER_TOO_SMALL
              else Inr (be_bytes pnLength pn))"

text \<open>\<open>~mask\<close> of a 64-bit value is \<open>u64_max - mask\<close>.\<close>

definition quic_reconstruct_packet_number :: "nat \<Rightarrow> nat \<Rightarrow> nat \<Rightarrow> nat result" where
  "quic_reconstruct_packet_number truncated pnLength expected =
     (if pnLength = 0 \<or> pnLength > 4 \<or> expected > QuicVarIntMaximum then Inl STATUS_INVALID_PARAMETER
      else let window = push_bit (pnLength * 8) 1; halfWindow = window div 2; mask = window - 1
        in if truncated > mask then Inl STATUS_INVALID_PARAMETER
           else let candidate0 = (expected AND (u64_max - mask)) OR truncated;
                    candidate =
                      (if candidate0 + halfWindow \<le> expected \<and> candidate0 \<le> QuicVarIntMaximum - window
                       then candidate0 + window
                       else if candidate0 > expected + halfWindow \<and> candidate0 \<ge> window
                       then candidate0 - window else candidate0)
                in if candidate > QuicVarIntMaximum then Inl STATUS_INTEGER_OVERFLOW else Inr candidate)"

section \<open>The iterator\<close>

record packet_iterator =
  pi_datagram :: bytes
  pi_offset :: nat
  pi_cid_length :: nat

definition quic_packet_iterator_initialize :: "bytes \<Rightarrow> nat \<Rightarrow> packet_iterator" where
  "quic_packet_iterator_initialize datagram cidLength =
     \<lparr>pi_datagram = datagram, pi_offset = 0, pi_cid_length = cidLength\<rparr>"

definition is_all_zero :: "bytes \<Rightarrow> bool" where
  "is_all_zero data \<longleftrightarrow> list_all (\<lambda>b. b = 0) data"

definition quic_packet_iterator_next ::
    "packet_iterator \<Rightarrow> (packet_header \<times> bytes) result \<times> packet_iterator" where
  "quic_packet_iterator_next it =
     (if pi_offset it = length (pi_datagram it) then (Inl STATUS_NOT_FOUND, it)
      else if pi_offset it > length (pi_datagram it) then (Inl STATUS_INVALID_NETWORK_RESPONSE, it)
      else let current = drop (pi_offset it) (pi_datagram it)
        in if is_all_zero current
           then (Inl STATUS_NOT_FOUND, it\<lparr>pi_offset := length (pi_datagram it)\<rparr>)
           else case quic_parse_packet_header current (pi_cid_length it) of
             Inl e \<Rightarrow> (Inl e, it)
           | Inr h \<Rightarrow>
               if ph_packet_length h = 0 \<or> ph_packet_length h > length current
               then (Inl STATUS_INVALID_NETWORK_RESPONSE, it)
               else (Inr (h, take (ph_packet_length h) current),
                     it\<lparr>pi_offset := pi_offset it + ph_packet_length h\<rparr>))"

definition quic_validate_initial_datagram_length :: "nat \<Rightarrow> ntstatus" where
  "quic_validate_initial_datagram_length n = (if n \<ge> 1200 then STATUS_SUCCESS else STATUS_INVALID_PARAMETER)"

section \<open>Encoding\<close>

record long_header_options =
  lh_type :: quic_packet_type
  lh_version :: nat
  lh_dcid :: bytes
  lh_scid :: bytes
  lh_token :: bytes
  lh_packet_number :: nat
  lh_pn_length :: nat
  lh_protected_length :: nat

record short_header_options =
  sh_dcid :: bytes
  sh_packet_number :: nat
  sh_pn_length :: nat
  sh_key_phase :: bool

text \<open>\<open>WriteBytes\<close> and \<open>WriteVarInt\<close> of this file are the same code as those of the frames.\<close>

definition packet_write_bytes :: "bytes \<Rightarrow> nat \<Rightarrow> bytes \<Rightarrow> bytes result" where
  "packet_write_bytes data capacity w = write_bytes data capacity w"

definition packet_write_varint :: "nat \<Rightarrow> nat \<Rightarrow> bytes \<Rightarrow> bytes result" where
  "packet_write_varint v capacity w = write_value v capacity w"

definition write_truncated_pn :: "nat \<Rightarrow> nat \<Rightarrow> nat \<Rightarrow> bytes \<Rightarrow> bytes result" where
  "write_truncated_pn pn pnLength capacity w =
     (if pn > QuicVarIntMaximum \<or> pnLength = 0 \<or> pnLength > 4 \<or> length w > capacity
        \<or> pnLength > capacity - length w
      then Inl STATUS_INVALID_PARAMETER
      else Inr (w @ be_bytes pnLength pn))"

definition write_byte :: "byte \<Rightarrow> nat \<Rightarrow> bytes \<Rightarrow> bytes result" where
  "write_byte b capacity w = (if length w \<ge> capacity then Inl STATUS_BUFFER_TOO_SMALL else Inr (w @ [b]))"

definition long_type_bits :: "quic_packet_type \<Rightarrow> nat option" where
  "long_type_bits t =
     (if t = PtZeroRtt then Some 1 else if t = PtHandshake then Some 2
      else if t \<noteq> PtInitial then None else Some 0)"

text \<open>The bytes written and \<open>*packetNumberOffset\<close>; \<open>*headerLength\<close> is the number of bytes.\<close>

definition quic_encode_long_header :: "long_header_options \<Rightarrow> nat \<Rightarrow> (bytes \<times> nat) result" where
  "quic_encode_long_header opt capacity =
     (if lh_version opt \<noteq> QuicVersion1 \<or> lh_pn_length opt = 0 \<or> lh_pn_length opt > 4
        \<or> length (lh_dcid opt) > QuicMaximumConnectionIdLength
        \<or> length (lh_scid opt) > QuicMaximumConnectionIdLength
        \<or> lh_protected_length opt < lh_pn_length opt \<or> lh_protected_length opt > QuicVarIntMaximum
      then Inl STATUS_INVALID_PARAMETER
      else case long_type_bits (lh_type opt) of
        None \<Rightarrow> Inl STATUS_INVALID_PARAMETER
      | Some typeBits \<Rightarrow>
          if capacity = 0 then Inl STATUS_BUFFER_TOO_SMALL
          else let w0 = [uchar (0xc0 OR push_bit 4 typeBits OR (lh_pn_length opt - 1))]
            in if capacity - 1 < 4 then Inl STATUS_BUFFER_TOO_SMALL
               else let w1 = w0 @ [uchar (drop_bit 24 (lh_version opt) AND 0xff),
                                   uchar (drop_bit 16 (lh_version opt) AND 0xff),
                                   uchar (drop_bit 8 (lh_version opt) AND 0xff),
                                   uchar (lh_version opt AND 0xff)]
                    in rbind (write_byte (uchar (length (lh_dcid opt))) capacity w1) (\<lambda>w2.
                       rbind (packet_write_bytes (lh_dcid opt) capacity w2) (\<lambda>w3.
                       rbind (write_byte (uchar (length (lh_scid opt))) capacity w3) (\<lambda>w4.
                       rbind (packet_write_bytes (lh_scid opt) capacity w4) (\<lambda>w5.
                       rbind (if lh_type opt = PtInitial
                              then rbind (packet_write_varint (length (lh_token opt)) capacity w5) (\<lambda>w.
                                     packet_write_bytes (lh_token opt) capacity w)
                              else Inr w5) (\<lambda>w6.
                       rbind (packet_write_varint (lh_protected_length opt) capacity w6) (\<lambda>w7.
                       rbind (write_truncated_pn (lh_packet_number opt) (lh_pn_length opt) capacity w7) (\<lambda>w8.
                         Inr (w8, length w7)))))))))"

definition quic_encode_short_header :: "short_header_options \<Rightarrow> nat \<Rightarrow> (bytes \<times> nat) result" where
  "quic_encode_short_header opt capacity =
     (if capacity = 0 \<or> sh_pn_length opt = 0 \<or> sh_pn_length opt > 4
        \<or> length (sh_dcid opt) > QuicMaximumConnectionIdLength
      then Inl STATUS_INVALID_PARAMETER
      else let w0 = [uchar (0x40 OR (if sh_key_phase opt then 0x04 else 0) OR (sh_pn_length opt - 1))]
        in rbind (packet_write_bytes (sh_dcid opt) capacity w0) (\<lambda>w1.
           rbind (write_truncated_pn (sh_packet_number opt) (sh_pn_length opt) capacity w1) (\<lambda>w2.
             Inr (w2, length w1))))"

section \<open>Packet number reconstruction\<close>

lemma and_not_mask_nat:
  assumes "(e::nat) < 2 ^ 64" "k \<le> 64"
  shows "e AND (u64_max - (2 ^ k - 1)) = e - e mod 2 ^ k"
proof -
  have m: "u64_max - (2 ^ k - 1) = push_bit k (mask (64 - k) :: nat)"
  proof -
    have "(2::nat) ^ 64 = 2 ^ k * 2 ^ (64 - k)"
      using assms(2) by (simp add: power_add [symmetric])
    then show ?thesis
      by (simp add: u64_max_def push_bit_eq_mult mask_eq_exp_minus_1 algebra_simps)
  qed
  have "e AND push_bit k (mask (64 - k)) = push_bit k (drop_bit k e)"
  proof (rule bit_eqI)
    fix n
    have "bit e n \<Longrightarrow> n < 64" using bit_nat_less [OF assms(1)] .
    then show "bit (e AND push_bit k (mask (64 - k))) n \<longleftrightarrow> bit (push_bit k (drop_bit k e)) n"
      using assms(2) by (auto simp: bit_and_iff bit_push_bit_iff bit_mask_iff bit_drop_bit_eq)
  qed
  then show ?thesis
    unfolding m by (simp only: push_bit_eq_mult drop_bit_eq_div minus_mod_eq_div_mult)
qed

text \<open>The candidate replaces the low bits of the expected number.\<close>

lemma candidate_eq:
  assumes "expected \<le> QuicVarIntMaximum" "t < 2 ^ k" "k \<le> 32"
  shows "(expected AND (u64_max - (2 ^ k - 1))) OR t = expected div 2 ^ k * 2 ^ k + t"
proof -
  have "expected < 2 ^ 64" using assms(1) by (simp add: QuicVarIntMaximum_def)
  then have "expected AND (u64_max - (2 ^ k - 1)) = push_bit k (expected div 2 ^ k)"
    using assms(3) by (subst and_not_mask_nat) (simp_all add: push_bit_eq_mult minus_mod_eq_div_mult)
  then show ?thesis using push_bit_or_nat [OF assms(2)] by simp
qed

text \<open>Reconstruction over an abstract window, in pure arithmetic.\<close>

text \<open>
  The numbers that are recovered: less than half a window below the expected one or without a successor in the
  number space, and at most half a window above it or without a predecessor.
\<close>

definition in_number_window :: "nat \<Rightarrow> nat \<Rightarrow> nat \<Rightarrow> nat \<Rightarrow> bool" where
  "in_number_window w maximum e x \<longleftrightarrow> (e < x + w div 2 \<or> maximum < x + w) \<and> (x \<le> e + w div 2 \<or> x < w)"

lemma candidate_in_window:
  assumes "w = 2 * h" "0 < h" "t < w" "A \<le> e" "e < A + w" "A + w \<le> Suc M" "w \<le> M" "c = A + t"
    and "d = (if c + h \<le> e \<and> c \<le> M - w then c + w else if c > e + h \<and> c \<ge> w then c - w else (c :: nat))"
  shows "d \<le> M" "in_number_window w M e d"
proof -
  have "c \<le> M" using assms(3,6,8) by simp
  then show "d \<le> M" using assms(7,9) by (cases "c + h \<le> e \<and> c \<le> M - w") auto
  show "in_number_window w M e d" using assms by (auto simp: in_number_window_def)
qed

lemma in_window_unique:
  assumes "in_number_window w M e x" "in_number_window w M e y" "x mod w = y mod w" "x \<le> M" "y \<le> M" "w = 2 * h" "0 < h"
  shows "x = (y :: nat)"
proof (rule ccontr)
  have far: "x + w \<le> y" if "x mod w = y mod w" "x < y" for x y :: nat
  proof -
    have "w dvd y - x" using that mod_eq_dvd_iff_nat [of x y w] by simp
    then show ?thesis using that(2) by (auto dest: dvd_imp_le)
  qed
  assume "x \<noteq> y"
  then consider "x + w \<le> y" | "y + w \<le> x" using far [of x y] far [of y x] assms(3) by (metis linorder_neqE_nat)
  then show False using assms by cases (auto simp: in_number_window_def)
qed

lemma reconstruct_eq:
  assumes "expected \<le> QuicVarIntMaximum" "0 < n" "n \<le> 4" "t < 2 ^ (8 * n)"
  defines "w \<equiv> 2 ^ (8 * n) :: nat"
  defines "c \<equiv> expected div w * w + t"
  shows "quic_reconstruct_packet_number t n expected =
    (let d = (if c + w div 2 \<le> expected \<and> c \<le> QuicVarIntMaximum - w then c + w
              else if c > expected + w div 2 \<and> c \<ge> w then c - w else c)
     in if d > QuicVarIntMaximum then Inl STATUS_INTEGER_OVERFLOW else Inr d)"
proof -
  have w: "push_bit (n * 8) 1 = w" by (simp add: w_def push_bit_eq_mult mult.commute)
  have c: "(expected AND (u64_max - (w - 1))) OR t = c"
    using assms(1-4) candidate_eq [of expected t "8 * n"] by (simp add: w_def c_def)
  have "\<not> t > w - 1" using assms(4) by (simp add: w_def)
  with assms(1-3) show ?thesis
    unfolding quic_reconstruct_packet_number_def w Let_def c by simp
qed

lemma reconstruct_recovers:
  assumes "0 < n" "n \<le> 4" "pn \<le> QuicVarIntMaximum" "expected \<le> QuicVarIntMaximum"
  shows "quic_reconstruct_packet_number (pn mod 2 ^ (8 * n)) n expected = Inr pn
    \<longleftrightarrow> in_number_window (2 ^ (8 * n)) QuicVarIntMaximum expected pn"
proof -
  define w where "w = (2::nat) ^ (8 * n)"
  define h where "h = w div 2"
  define M where "M = QuicVarIntMaximum"
  obtain m where "8 * n = Suc m" using assms(1) by (cases "8 * n") auto
  then have w: "w = 2 * h" "0 < h" by (simp_all add: w_def h_def)
  define t where "t = pn mod w"
  define A where "A = expected div w * w"
  define c where "c = A + t"
  have e: "A \<le> expected" "expected < A + w"
    using w div_mult_mod_eq [of expected w] mod_less_divisor [of w expected] unfolding A_def by linarith+
  have t: "t < w" using w by (simp add: t_def)
  have "(2::nat) ^ 62 = 2 ^ (62 - 8 * n) * w" using assms(2) by (simp add: w_def flip: power_add)
  then have k: "Suc M = 2 ^ (62 - 8 * n) * w" by (simp add: M_def QuicVarIntMaximum_def)
  have "expected div w < 2 ^ (62 - 8 * n)" using assms(4) k by (simp add: M_def less_mult_imp_div_less)
  then have "Suc (expected div w) * w \<le> 2 ^ (62 - 8 * n) * w" by (intro mult_le_mono1) simp
  then have AM: "A + w \<le> Suc M" using k by (simp add: A_def)
  have "w \<le> 2 ^ 32" unfolding w_def using assms(2) by (intro power_increasing) simp_all
  then have wM: "w \<le> M" by (simp add: M_def QuicVarIntMaximum_def)
  define d where "d = (if c + h \<le> expected \<and> c \<le> M - w then c + w else if c > expected + h \<and> c \<ge> w then c - w else c)"
  note d = candidate_in_window [OF w t e AM wM c_def d_def]
  have r: "quic_reconstruct_packet_number t n expected = Inr d"
    using reconstruct_eq [OF assms(4,1,2), of t] t d(1)
    unfolding w_def [symmetric] h_def [symmetric] c_def [symmetric] A_def [symmetric] M_def [symmetric] Let_def d_def
    by (simp split: if_splits)
  have "c mod w = t" using t by (simp add: c_def A_def)
  moreover have "(c - w) mod w = c mod w" if "w \<le> c" using that by (simp add: le_mod_geq)
  ultimately have "d mod w = t" by (auto simp: d_def)
  then have "pn = d" if "in_number_window w M expected pn"
    using in_window_unique [OF that d(2) _ _ d(1) w] assms(3) by (simp add: t_def M_def)
  then show ?thesis using r d(2) unfolding t_def [symmetric] w_def [symmetric] M_def [symmetric] by auto
qed

lemma reconstruct_within_window:
  assumes "0 < n" "n \<le> 4" "pn \<le> QuicVarIntMaximum" "expected \<le> QuicVarIntMaximum"
    and "expected < pn + 2 ^ (8 * n) div 2" "pn \<le> expected + 2 ^ (8 * n) div 2"
  shows "quic_reconstruct_packet_number (pn mod 2 ^ (8 * n)) n expected = Inr pn"
  using reconstruct_recovers [OF assms(1-4)] assms(5,6) by (simp add: in_number_window_def)

text \<open>
  C24. A packet number truncated to 1 to 4 bytes is recovered exactly when it lies in the window around the
  expected number: less than half a window below it or without a candidate one window above in the number
  space, and at most half a window above it or without a candidate one window below.
\<close>

theorem packet_number_reconstruction:
  assumes "0 < n" "n \<le> 4" "pn \<le> QuicVarIntMaximum" "expected \<le> QuicVarIntMaximum"
  shows "quic_reconstruct_packet_number (pn mod 2 ^ (8 * n)) n expected = Inr pn \<longleftrightarrow>
    (expected < pn + 2 ^ (8 * n) div 2 \<or> QuicVarIntMaximum < pn + 2 ^ (8 * n))
    \<and> (pn \<le> expected + 2 ^ (8 * n) div 2 \<or> pn < 2 ^ (8 * n))"
  using reconstruct_recovers [OF assms] by (simp add: in_number_window_def)

theorem packet_number_reconstruction_witness:
  "quic_reconstruct_packet_number 0x9b32 2 0xa82f30eb = Inr 0xa82f9b32
    \<and> quic_reconstruct_packet_number 200 1 0 = Inr 200 \<and> quic_reconstruct_packet_number 144 1 0 \<noteq> Inr 400"
  using packet_number_reconstruction [of 2 "0xa82f9b32" "0xa82f30eb"] packet_number_reconstruction [of 1 200 0]
    packet_number_reconstruction [of 1 400 0]
  by (simp add: QuicVarIntMaximum_def)

section \<open>Headers: round trip\<close>

lemma read_be32_value: "length bs = 4 \<Longrightarrow> read_be32 (x # bs @ rest) 1 = be_value 0 bs"
proof -
  assume "length bs = 4"
  then obtain a b c d where bs: "bs = [a, b, c, d]"
    by (auto simp: length_Suc_conv eval_nat_numeral)
  have "unat c * 256 + unat d < 65536" "unat b * 65536 + (unat c * 256 + unat d) < 16777216"
    using unat_byte_less [of b] unat_byte_less [of c] unat_byte_less [of d] by linarith+
  then have "push_bit 16 (unat b) OR (unat c * 256 + unat d) = unat b * 65536 + (unat c * 256 + unat d)"
    and "push_bit 24 (unat a) OR (unat b * 65536 + (unat c * 256 + unat d))
      = unat a * 16777216 + (unat b * 65536 + (unat c * 256 + unat d))"
    using push_bit_or_nat [of "unat c * 256 + unat d" 16 "unat b"]
      push_bit_or_nat [of "unat b * 65536 + (unat c * 256 + unat d)" 24 "unat a"] by simp_all
  then have "push_bit 24 (unat a) OR push_bit 16 (unat b) OR push_bit 8 (unat c) OR unat d
      = unat a * 16777216 + (unat b * 65536 + (unat c * 256 + unat d))"
    by (simp only: push8_or_byte)
  then show ?thesis
    unfolding bs read_be32_def by (simp del: push8_or_byte)
qed

lemma first_byte_bits:
  assumes "t < 4" "p < 4"
  shows "unat (uchar (0xc0 OR push_bit 4 t OR p)) = 192 + 16 * t + p"
proof -
  have "t \<in> {0, 1, 2, 3}" "p \<in> {0, 1, 2, 3}" using assms by auto
  then show ?thesis by (elim insertE emptyE) (simp_all add: uchar_def)
qed

lemma long_first_byte:
  assumes "t < 3" "0 < n" "n \<le> (4::nat)"
  defines "b \<equiv> uchar (0xc0 OR push_bit 4 t OR (n - 1))"
  shows "(unat b AND 0x80) \<noteq> 0" "(unat b AND 0x40) \<noteq> 0" "(unat b AND 0x03) + 1 = n"
    "long_packet_type b = (if t = 0 then PtInitial else if t = 1 then PtZeroRtt else PtHandshake)"
proof -
  have tn: "t \<in> {0, 1, 2}" "n \<in> {1, 2, 3, 4}" using assms by auto
  have b: "unat b = 192 + 16 * t + (n - 1)" unfolding b_def using assms by (intro first_byte_bits) auto
  show "(unat b AND 0x80) \<noteq> 0" "(unat b AND 0x40) \<noteq> 0" "(unat b AND 0x03) + 1 = n"
    "long_packet_type b = (if t = 0 then PtInitial else if t = 1 then PtZeroRtt else PtHandshake)"
    using tn by (elim insertE emptyE; simp add: b long_packet_type_def)+
qed

lemma short_first_byte:
  fixes key :: bool
  assumes "0 < n" "n \<le> (4::nat)"
  defines "b \<equiv> uchar (0x40 OR (if key then 0x04 else 0) OR (n - 1))"
  shows "(unat b AND 0x80) = 0" "(unat b AND 0x40) \<noteq> 0" "(unat b AND 0x03) + 1 = n"
    "((unat b AND 0x04) \<noteq> 0) = key"
proof -
  have "n \<in> {1, 2, 3, 4}" using assms by auto
  then show "(unat b AND 0x80) = 0" "(unat b AND 0x40) \<noteq> 0" "(unat b AND 0x03) + 1 = n"
    "((unat b AND 0x04) \<noteq> 0) = key"
    by (cases key; elim insertE emptyE; simp add: b_def uchar_def)+
qed

text \<open>The byte string of an encoded long header.\<close>

definition long_header_bytes :: "long_header_options \<Rightarrow> nat \<Rightarrow> bytes" where
  "long_header_bytes opt t =
     uchar (0xc0 OR push_bit 4 t OR (lh_pn_length opt - 1)) # be_bytes 4 (lh_version opt)
       @ uchar (length (lh_dcid opt)) # lh_dcid opt @ uchar (length (lh_scid opt)) # lh_scid opt
       @ (if lh_type opt = PtInitial then quic_varint (length (lh_token opt)) @ lh_token opt else [])
       @ quic_varint (lh_protected_length opt)"

lemma encode_long_header_form:
  assumes "quic_encode_long_header opt capacity = Inr (w, o')"
  obtains t where "t < 3" "lh_type opt = (if t = 0 then PtInitial else if t = 1 then PtZeroRtt else PtHandshake)"
    "lh_version opt = QuicVersion1" "0 < lh_pn_length opt" "lh_pn_length opt \<le> 4"
    "length (lh_dcid opt) \<le> 20" "length (lh_scid opt) \<le> 20"
    "lh_pn_length opt \<le> lh_protected_length opt" "lh_protected_length opt \<le> QuicVarIntMaximum"
    "lh_type opt = PtInitial \<longrightarrow> length (lh_token opt) \<le> QuicVarIntMaximum"
    "w = long_header_bytes opt t @ be_bytes (lh_pn_length opt) (lh_packet_number opt)"
    "o' = length (long_header_bytes opt t)"
proof -
  obtain t where t: "long_type_bits (lh_type opt) = Some t"
    using assms by (auto simp: quic_encode_long_header_def split: if_splits option.splits)
  have b4: "[uchar (drop_bit 24 v AND 0xff), uchar (drop_bit 16 v AND 0xff), uchar (drop_bit 8 v AND 0xff),
      uchar (v AND 0xff)] = be_bytes 4 v" for v
    by (simp add: be_bytes_numeral numeral_eq_Suc)
  show thesis
  proof (rule that [of t])
    show "t < 3" "lh_type opt = (if t = 0 then PtInitial else if t = 1 then PtZeroRtt else PtHandshake)"
      using t by (auto simp: long_type_bits_def split: if_splits)
    show "lh_version opt = QuicVersion1" "0 < lh_pn_length opt" "lh_pn_length opt \<le> 4"
      "length (lh_dcid opt) \<le> 20" "length (lh_scid opt) \<le> 20"
      "lh_pn_length opt \<le> lh_protected_length opt" "lh_protected_length opt \<le> QuicVarIntMaximum"
      using assms by (auto simp: quic_encode_long_header_def QuicMaximumConnectionIdLength_def split: if_splits)
  qed (use assms t in \<open>auto simp: quic_encode_long_header_def long_header_bytes_def write_byte_def
      packet_write_bytes_def packet_write_varint_def write_truncated_pn_def status_simps b4
      split: if_splits\<close>)
qed

lemma parse_connection_ids_at:
  assumes "length v4 = 4" "length d \<le> 20" "length s \<le> 20"
  shows "parse_connection_ids (b # v4 @ uchar (length d) # d @ uchar (length s) # s @ rest)
    = Inr (d, s, 7 + length d + length s)"
proof -
  let ?p = "b # v4 @ uchar (length d) # d @ uchar (length s) # s @ rest"
  have d: "?p ! 5 = uchar (length d)" and s: "?p ! (6 + length d) = uchar (length s)"
    using assms(1) by (simp_all add: nth_append nth_Cons')
  have v: "view ?p 6 (length d) = d" "view ?p (7 + length d) (length s) = s"
    using assms(1) by (simp_all add: view_def drop_Cons')
  show ?thesis
    unfolding parse_connection_ids_def Let_def d
    using assms by (simp add: s v can_advance_def QuicMaximumConnectionIdLength_def)
qed

lemma read_packet_value_at:
  assumes "v \<le> QuicVarIntMaximum" "length p = offset"
  shows "read_packet_value (p @ quic_varint v @ rest) offset = Inr (v, offset + length (quic_varint v))"
  using assms varint.dec_enc [of v rest] by (simp add: read_packet_value_def)

lemma parse_token_at:
  assumes "length t \<le> QuicVarIntMaximum" "length p = offset"
  shows "parse_token (p @ quic_varint (length t) @ t @ rest) offset
    = Inr (t, offset + length (quic_varint (length t)) + length t)"
  using assms read_packet_value_at [of "length t" p offset "t @ rest"]
  by (simp add: parse_token_def can_advance_def view_def)

lemma parse_protected_at:
  assumes "n = (unat (p ! 0) AND 0x03) + 1" "p \<noteq> []" "length p = offset"
    and "n \<le> l" "l \<le> QuicVarIntMaximum" "length body = l"
  shows "parse_protected (p @ quic_varint l @ body @ rest) offset h =
    (let o1 = offset + length (quic_varint l)
     in Inr (h\<lparr>ph_pn_length := n, ph_pn_offset := o1, ph_payload_offset := o1 + n,
               ph_payload_length := l - n, ph_header_length := o1 + n, ph_packet_length := o1 + l\<rparr>))"
  using assms read_packet_value_at [of l p offset "body @ rest"]
  by (simp add: parse_protected_def can_advance_def Let_def)

lemma long_header_fields:
  assumes "quic_encode_long_header opt capacity = Inr (w, pnOffset)"
    and "length payload + lh_pn_length opt = lh_protected_length opt"
  shows "quic_parse_packet_header (w @ payload @ rest) cidLength = Inr
    \<lparr>ph_type = lh_type opt, ph_version = lh_version opt, ph_is_long = True, ph_fixed_bit = True,
     ph_first_byte = w ! 0, ph_dcid = lh_dcid opt, ph_scid = lh_scid opt,
     ph_token = (if lh_type opt = PtInitial then lh_token opt else []), ph_version_list = [],
     ph_retry_tag = [], ph_header_length = length w, ph_pn_offset = pnOffset,
     ph_pn_length = lh_pn_length opt, ph_payload_offset = length w,
     ph_payload_length = length payload, ph_packet_length = length w + length payload\<rparr>"
    and "view (w @ payload @ rest) pnOffset (lh_pn_length opt)
      = be_bytes (lh_pn_length opt) (lh_packet_number opt)"
proof -
  obtain t where t: "t < 3" "lh_type opt = (if t = 0 then PtInitial else if t = 1 then PtZeroRtt else PtHandshake)"
    and v: "lh_version opt = QuicVersion1" and n: "0 < lh_pn_length opt" "lh_pn_length opt \<le> 4"
    and cid: "length (lh_dcid opt) \<le> 20" "length (lh_scid opt) \<le> 20"
    and l: "lh_pn_length opt \<le> lh_protected_length opt" "lh_protected_length opt \<le> QuicVarIntMaximum"
    and tok: "lh_type opt = PtInitial \<longrightarrow> length (lh_token opt) \<le> QuicVarIntMaximum"
    and w: "w = long_header_bytes opt t @ be_bytes (lh_pn_length opt) (lh_packet_number opt)"
    and o': "pnOffset = length (long_header_bytes opt t)"
    using assms(1) by (rule encode_long_header_form)
  define b where "b = uchar (0xc0 OR push_bit 4 t OR (lh_pn_length opt - 1))"
  define tk where "tk = (if lh_type opt = PtInitial then quic_varint (length (lh_token opt)) @ lh_token opt else [])"
  define ids where "ids = b # be_bytes 4 (lh_version opt) @ uchar (length (lh_dcid opt)) # lh_dcid opt
    @ uchar (length (lh_scid opt)) # lh_scid opt"
  define body where "body = be_bytes (lh_pn_length opt) (lh_packet_number opt) @ payload"
  define packet where "packet = w @ payload @ rest"
  note first = long_first_byte [OF t(1) n, folded b_def]
  have type: "long_packet_type b = lh_type opt" "lh_type opt \<noteq> PtRetry"
    using first(4) t(2) by auto
  have hb: "long_header_bytes opt t = ids @ tk @ quic_varint (lh_protected_length opt)"
    by (simp add: long_header_bytes_def ids_def tk_def b_def)
  have pk: "packet = ids @ tk @ quic_varint (lh_protected_length opt) @ body @ rest"
    by (simp add: packet_def w hb body_def)
  have ids: "ids \<noteq> []" "ids ! 0 = b" "length ids = 7 + length (lh_dcid opt) + length (lh_scid opt)"
    by (simp_all add: ids_def)
  have ci: "parse_connection_ids packet = Inr (lh_dcid opt, lh_scid opt, length ids)"
    unfolding pk ids(3) ids_def using parse_connection_ids_at [OF length_be_bytes cid] by simp
  have ver: "read_be32 packet 1 = QuicVersion1"
    unfolding pk ids_def append_Cons append_assoc read_be32_value [OF length_be_bytes]
    using v by (simp add: be_bytes_value QuicVersion1_def)
  have tokp: "(if lh_type opt = PtInitial then parse_token packet (length ids) else Inr ([], length ids))
      = Inr ((if lh_type opt = PtInitial then lh_token opt else []), length (ids @ tk))"
    using tok parse_token_at [of "lh_token opt" ids "length ids"] by (simp add: pk tk_def)
  have prot: "parse_protected packet (length (ids @ tk)) h = (let o1 = length (ids @ tk) + length (quic_varint (lh_protected_length opt))
     in Inr (h\<lparr>ph_pn_length := lh_pn_length opt, ph_pn_offset := o1, ph_payload_offset := o1 + lh_pn_length opt,
               ph_payload_length := lh_protected_length opt - lh_pn_length opt,
               ph_header_length := o1 + lh_pn_length opt, ph_packet_length := o1 + lh_protected_length opt\<rparr>))" for h
    using parse_protected_at [of "lh_pn_length opt" "ids @ tk" "length (ids @ tk)" "lh_protected_length opt" body rest h]
      ids first(3) l assms(2) by (simp add: pk body_def)
  have p0: "packet \<noteq> []" "packet ! 0 = b" using ids by (simp_all add: pk)
  have w0: "w ! 0 = b" using ids by (simp add: w hb)
  have len: "\<not> length packet < 6" using ids(3) by (simp add: pk)
  show "quic_parse_packet_header (w @ payload @ rest) cidLength = Inr
    \<lparr>ph_type = lh_type opt, ph_version = lh_version opt, ph_is_long = True, ph_fixed_bit = True,
     ph_first_byte = w ! 0, ph_dcid = lh_dcid opt, ph_scid = lh_scid opt,
     ph_token = (if lh_type opt = PtInitial then lh_token opt else []), ph_version_list = [],
     ph_retry_tag = [], ph_header_length = length w, ph_pn_offset = pnOffset,
     ph_pn_length = lh_pn_length opt, ph_payload_offset = length w,
     ph_payload_length = length payload, ph_packet_length = length w + length payload\<rparr>"
    unfolding packet_def [symmetric] quic_parse_packet_header_def parse_long_header_def
      parse_long_body_def Let_def p0(2) ci w0
    using p0 len first(1-3) type ver tokp prot v assms(2)
    by (simp add: header_new_def Let_def w hb o' QuicVersion1_def QuicVersionNegotiation_def)
  show "view (w @ payload @ rest) pnOffset (lh_pn_length opt)
      = be_bytes (lh_pn_length opt) (lh_packet_number opt)"
    by (simp add: w o' view_def)
qed

text \<open>
  C23. A long header that was encoded is parsed back: type, version, both connection identifiers,
  the token, the packet number's length and offset, the payload's bounds, the length of the
  packet, wherever in the datagram the next packet follows.
\<close>

theorem long_header_roundtrip:
  assumes "quic_encode_long_header opt capacity = Inr (w, pnOffset)"
    and "length payload + lh_pn_length opt = lh_protected_length opt"
  shows "(quic_parse_packet_header (w @ payload @ rest) cidLength = Inr
    \<lparr>ph_type = lh_type opt, ph_version = lh_version opt, ph_is_long = True, ph_fixed_bit = True,
     ph_first_byte = w ! 0, ph_dcid = lh_dcid opt, ph_scid = lh_scid opt,
     ph_token = (if lh_type opt = PtInitial then lh_token opt else []), ph_version_list = [],
     ph_retry_tag = [], ph_header_length = length w, ph_pn_offset = pnOffset,
     ph_pn_length = lh_pn_length opt, ph_payload_offset = length w,
     ph_payload_length = length payload, ph_packet_length = length w + length payload\<rparr>)
    \<and> (view (w @ payload @ rest) pnOffset (lh_pn_length opt)
      = be_bytes (lh_pn_length opt) (lh_packet_number opt))"
  using long_header_fields [OF assms] by blast

theorem long_header_roundtrip_witness:
  defines "opt \<equiv> \<lparr>lh_type = PtInitial, lh_version = 1, lh_dcid = [1, 2], lh_scid = [3], lh_token = [9],
    lh_packet_number = 5, lh_pn_length = 1, lh_protected_length = 3\<rparr>"
  shows "quic_parse_packet_header ([0xc0, 0, 0, 0, 1, 2, 1, 2, 1, 3, 1, 9, 3, 5] @ [7, 8] @ [0]) 0 = Inr
    \<lparr>ph_type = PtInitial, ph_version = 1, ph_is_long = True, ph_fixed_bit = True,
     ph_first_byte = 0xc0, ph_dcid = [1, 2], ph_scid = [3],
     ph_token = [9], ph_version_list = [], ph_retry_tag = [], ph_header_length = 14, ph_pn_offset = 13,
     ph_pn_length = 1, ph_payload_offset = 14, ph_payload_length = 2, ph_packet_length = 16\<rparr>"
proof -
  have "quic_encode_long_header opt 100 = Inr ([0xc0, 0, 0, 0, 1, 2, 1, 2, 1, 3, 1, 9, 3, 5], 13)"
    by (simp add: opt_def quic_encode_long_header_def QuicVersion1_def QuicMaximumConnectionIdLength_def
        QuicVarIntMaximum_def long_type_bits_def write_byte_def packet_write_bytes_def write_bytes_def
        packet_write_varint_def write_value_def quic_varint_encoded_length_def quic_encode_varint_def
        write_truncated_pn_def uchar_def be_bytes_numeral Let_def)
  from long_header_roundtrip [OF this, of "[7, 8]" "[0]" 0] show ?thesis
    by (simp add: opt_def)
qed

lemma short_header_fields:
  assumes "quic_encode_short_header opt capacity = Inr (w, pnOffset)"
  shows "quic_parse_packet_header (w @ payload) (length (sh_dcid opt)) = Inr
    \<lparr>ph_type = PtOneRtt, ph_version = 0, ph_is_long = False, ph_fixed_bit = True,
     ph_first_byte = w ! 0, ph_dcid = sh_dcid opt, ph_scid = [], ph_token = [], ph_version_list = [],
     ph_retry_tag = [], ph_header_length = length w, ph_pn_offset = pnOffset,
     ph_pn_length = sh_pn_length opt, ph_payload_offset = length w,
     ph_payload_length = length payload, ph_packet_length = length w + length payload\<rparr>"
    and "((unat (w ! 0) AND 0x04) \<noteq> 0) = sh_key_phase opt"
    and "view (w @ payload) pnOffset (sh_pn_length opt)
      = be_bytes (sh_pn_length opt) (sh_packet_number opt)"
proof -
  define b where "b = uchar (0x40 OR (if sh_key_phase opt then 0x04 else 0) OR (sh_pn_length opt - 1))"
  define pn where "pn = be_bytes (sh_pn_length opt) (sh_packet_number opt)"
  have e: "0 < sh_pn_length opt" "sh_pn_length opt \<le> 4" "length (sh_dcid opt) \<le> 20"
    and w: "w = b # sh_dcid opt @ pn" "pnOffset = 1 + length (sh_dcid opt)"
    using assms
    by (auto simp: quic_encode_short_header_def packet_write_bytes_def write_truncated_pn_def status_simps
        QuicMaximumConnectionIdLength_def b_def pn_def split: if_splits)
  have pn: "length pn = sh_pn_length opt" by (simp add: pn_def)
  note first = short_first_byte [OF e(1,2), of "sh_key_phase opt", folded b_def]
  show "quic_parse_packet_header (w @ payload) (length (sh_dcid opt)) = Inr
    \<lparr>ph_type = PtOneRtt, ph_version = 0, ph_is_long = False, ph_fixed_bit = True,
     ph_first_byte = w ! 0, ph_dcid = sh_dcid opt, ph_scid = [], ph_token = [], ph_version_list = [],
     ph_retry_tag = [], ph_header_length = length w, ph_pn_offset = pnOffset,
     ph_pn_length = sh_pn_length opt, ph_payload_offset = length w,
     ph_payload_length = length payload, ph_packet_length = length w + length payload\<rparr>"
    using first(1-3) e pn
    by (simp add: quic_parse_packet_header_def parse_short_header_def w header_new_def can_advance_def
        QuicMaximumConnectionIdLength_def view_def Let_def)
  show "((unat (w ! 0) AND 0x04) \<noteq> 0) = sh_key_phase opt"
    using first(4) by (simp add: w)
  show "view (w @ payload) pnOffset (sh_pn_length opt)
      = be_bytes (sh_pn_length opt) (sh_packet_number opt)"
    using pn by (simp add: w view_def pn_def)
qed

text \<open>
  The same of a short header, whose connection identifier has the length the receiver expects;
  its packet is the rest of the datagram.
\<close>

theorem short_header_roundtrip:
  assumes "quic_encode_short_header opt capacity = Inr (w, pnOffset)"
  shows "(quic_parse_packet_header (w @ payload) (length (sh_dcid opt)) = Inr
    \<lparr>ph_type = PtOneRtt, ph_version = 0, ph_is_long = False, ph_fixed_bit = True,
     ph_first_byte = w ! 0, ph_dcid = sh_dcid opt, ph_scid = [], ph_token = [], ph_version_list = [],
     ph_retry_tag = [], ph_header_length = length w, ph_pn_offset = pnOffset,
     ph_pn_length = sh_pn_length opt, ph_payload_offset = length w,
     ph_payload_length = length payload, ph_packet_length = length w + length payload\<rparr>)
    \<and> (((unat (w ! 0) AND 0x04) \<noteq> 0) = sh_key_phase opt)
    \<and> (view (w @ payload) pnOffset (sh_pn_length opt)
      = be_bytes (sh_pn_length opt) (sh_packet_number opt))"
  using short_header_fields [OF assms] by blast

theorem short_header_roundtrip_witness:
  "quic_parse_packet_header ([0x45, 1, 2, 1, 2] @ [7]) 2 = Inr
    \<lparr>ph_type = PtOneRtt, ph_version = 0, ph_is_long = False, ph_fixed_bit = True,
     ph_first_byte = 0x45, ph_dcid = [1, 2], ph_scid = [], ph_token = [], ph_version_list = [],
     ph_retry_tag = [], ph_header_length = 5, ph_pn_offset = 3, ph_pn_length = 2,
     ph_payload_offset = 5, ph_payload_length = 1, ph_packet_length = 6\<rparr>"
proof -
  define opt where "opt = \<lparr>sh_dcid = [1, 2], sh_packet_number = 0x102, sh_pn_length = 2, sh_key_phase = True\<rparr>"
  have "quic_encode_short_header opt 10 = Inr ([0x45, 1, 2, 1, 2], 3)"
    by (simp add: opt_def quic_encode_short_header_def QuicMaximumConnectionIdLength_def write_bytes_def
        QuicVarIntMaximum_def packet_write_bytes_def write_truncated_pn_def uchar_def be_bytes_numeral Let_def)
  from short_header_roundtrip [OF this, of "[7]"] show ?thesis
    by (simp add: opt_def eval_nat_numeral)
qed

section \<open>Headers: bounds\<close>

definition header_ok :: "bytes \<Rightarrow> packet_header \<Rightarrow> bool" where
  "header_ok packet h \<longleftrightarrow>
     length (ph_dcid h) \<le> 20 \<and> length (ph_scid h) \<le> 20
     \<and> 0 < ph_packet_length h \<and> ph_packet_length h \<le> length packet
     \<and> (ph_type h = PtVersionNegotiation \<longrightarrow> ph_version_list h \<noteq> [] \<and> length (ph_version_list h) mod 4 = 0)
     \<and> (ph_type h = PtRetry \<longrightarrow> length (ph_retry_tag h) = 16)
     \<and> (ph_type h \<noteq> PtVersionNegotiation \<longrightarrow> ph_fixed_bit h)
     \<and> (ph_is_long h \<and> ph_type h \<noteq> PtVersionNegotiation \<longrightarrow> ph_version h = QuicVersion1)
     \<and> (ph_type h \<noteq> PtVersionNegotiation \<and> ph_type h \<noteq> PtRetry \<longrightarrow>
          0 < ph_pn_length h \<and> ph_pn_length h \<le> 4
          \<and> ph_payload_offset h = ph_pn_offset h + ph_pn_length h
          \<and> ph_header_length h = ph_payload_offset h
          \<and> ph_payload_offset h + ph_payload_length h = ph_packet_length h)"

lemma pn_length_bounds: "0 < (x AND 3) + (1::nat) \<and> (x AND 3) + 1 \<le> 4"
  using and_mask_nat [of x 2] by simp

lemma length_view_le: "length (view data offset n) \<le> n"
  by (simp add: view_def)

lemma parse_short_header_ok:
  assumes "parse_short_header packet cidLength h0 = Inr h" "\<not> ph_is_long h0" "ph_scid h0 = []"
  shows "header_ok packet h"
  using assms pn_length_bounds [of "unat (packet ! 0)"]
  by (auto simp: parse_short_header_def header_ok_def can_advance_def QuicMaximumConnectionIdLength_def
      Let_def view_def split: if_splits)

lemma parse_connection_ids_Inr:
  assumes "parse_connection_ids packet = Inr (d, s, o')"
  shows "length d \<le> 20 \<and> length s \<le> 20 \<and> 0 < o' \<and> o' \<le> length packet"
  using assms
  by (auto simp: parse_connection_ids_def can_advance_def QuicMaximumConnectionIdLength_def
      Let_def view_def split: if_splits)

lemma read_packet_value_Inr:
  assumes "read_packet_value packet offset = Inr (v, o')" "offset \<le> length packet"
  shows "o' \<le> length packet \<and> offset < o'"
  using assms quic_decode_varint_le [of "drop offset packet"]
  by (auto simp: read_packet_value_def status_simps)

lemma parse_protected_ok:
  assumes "parse_protected packet offset h0 = Inr h" "offset \<le> length packet"
    and "length (ph_dcid h0) \<le> 20" "length (ph_scid h0) \<le> 20"
    and "ph_fixed_bit h0" "ph_version h0 = QuicVersion1"
    and "ph_type h0 \<noteq> PtVersionNegotiation" "ph_type h0 \<noteq> PtRetry"
  shows "header_ok packet h"
proof -
  obtain l o1 where r: "read_packet_value packet offset = Inr (l, o1)"
    using assms(1) by (auto simp: parse_protected_def status_simps)
  then have "o1 \<le> length packet" "offset < o1" using read_packet_value_Inr assms(2) by auto
  with assms r pn_length_bounds [of "unat (packet ! 0)"] show ?thesis
    by (auto simp: parse_protected_def header_ok_def can_advance_def Let_def split: if_splits)
qed

lemma parse_token_Inr:
  assumes "parse_token packet offset = Inr (t, o')" "offset \<le> length packet"
  shows "o' \<le> length packet"
  using assms read_packet_value_Inr [OF _ assms(2)]
  by (fastforce simp: parse_token_def status_simps can_advance_def split: if_splits)

text \<open>
  An accepted header is within its packet: both connection identifiers at most 20 bytes, the
  packet's length between 1 and the bytes given, header, packet number and payload adjacent, the
  version list of a Version Negotiation packet a non-empty sequence of 32-bit versions, the
  integrity tag of a Retry packet 16 bytes.
\<close>

theorem parsed_header_bounds:
  assumes "quic_parse_packet_header packet cidLength = Inr h"
  shows "header_ok packet h"
proof (cases "(unat (packet ! 0) AND 0x80) \<noteq> 0")
  case False
  with assms show ?thesis
    by (intro parse_short_header_ok [of packet cidLength "header_new\<lparr>ph_first_byte := packet ! 0,
       ph_is_long := False, ph_fixed_bit := ((unat (packet ! 0) AND 0x40) \<noteq> 0)\<rparr>"])
      (auto simp: quic_parse_packet_header_def header_new_def Let_def split: if_splits)
next
  case True
  define h0 where "h0 = header_new\<lparr>ph_first_byte := packet ! 0, ph_is_long := True,
    ph_fixed_bit := ((unat (packet ! 0) AND 0x40) \<noteq> 0)\<rparr>"
  have p: "parse_long_header packet h0 = Inr h" "packet \<noteq> []"
    using assms True by (auto simp: quic_parse_packet_header_def h0_def Let_def split: if_splits)
  then obtain d s offset where c: "parse_connection_ids packet = Inr (d, s, offset)"
    by (auto simp: parse_long_header_def status_simps split: if_splits)
  note ids = parse_connection_ids_Inr [OF c]
  define ver where "ver = read_be32 packet 1"
  define h1 where "h1 = h0\<lparr>ph_version := ver, ph_dcid := d, ph_scid := s\<rparr>"
  have body: "parse_long_body packet offset h1 = Inr h"
    using p(1) c by (simp add: parse_long_header_def h1_def ver_def split: if_splits)
  consider "ver = QuicVersionNegotiation"
    | "ver \<noteq> QuicVersionNegotiation" "long_packet_type (packet ! 0) = PtRetry"
    | "ver \<noteq> QuicVersionNegotiation" "long_packet_type (packet ! 0) \<noteq> PtRetry" by auto
  then show ?thesis
  proof cases
    case 1
    with body ids p(2) show ?thesis
      by (auto simp: parse_long_body_def header_ok_def h1_def h0_def header_new_def Let_def view_def split: if_splits)
  next
    case 2
    with body ids p(2) show ?thesis
      by (auto simp: parse_long_body_def header_ok_def h1_def h0_def header_new_def Let_def view_def
          QuicRetryIntegrityTagLength_def split: if_splits)
  next
    case 3
    then obtain token o1 where t: "(if long_packet_type (packet ! 0) = PtInitial then parse_token packet offset
        else Inr ([], offset)) = Inr (token, o1)"
      and pp: "parse_protected packet o1 (h1\<lparr>ph_type := long_packet_type (packet ! 0), ph_token := token\<rparr>) = Inr h"
      and v: "ver = QuicVersion1" "ph_fixed_bit h0"
      using body by (auto simp: parse_long_body_def h1_def status_simps Let_def split: if_splits)
    have "o1 \<le> length packet" using t ids parse_token_Inr by (auto split: if_splits)
    with pp v ids 3(2) show ?thesis
      by (intro parse_protected_ok [OF pp]) (auto simp: h1_def long_packet_type_def Let_def)
  qed
qed

theorem parsed_header_bounds_witness:
  "header_ok [0x40, 1, 2, 7, 9]
    \<lparr>ph_type = PtOneRtt, ph_version = 0, ph_is_long = False, ph_fixed_bit = True,
     ph_first_byte = 0x40, ph_dcid = [1, 2], ph_scid = [], ph_token = [], ph_version_list = [],
     ph_retry_tag = [], ph_header_length = 4, ph_pn_offset = 3, ph_pn_length = 1,
     ph_payload_offset = 4, ph_payload_length = 1, ph_packet_length = 5\<rparr>"
  by (rule parsed_header_bounds [of _ 2])
     (simp add: quic_parse_packet_header_def parse_short_header_def header_new_def can_advance_def
        QuicMaximumConnectionIdLength_def view_def Let_def)

section \<open>Walking a datagram\<close>

text \<open>The receive loop: \<open>QuicPacketIteratorNext\<close> until it does not return a packet.\<close>

lemma is_all_zero_append: "is_all_zero (xs @ ys) \<longleftrightarrow> is_all_zero xs \<and> is_all_zero ys"
  by (simp add: is_all_zero_def)

lemma iterator_next_packet:
  assumes "quic_packet_iterator_next it = (Inr (h, p), it')"
  shows "it' = it\<lparr>pi_offset := pi_offset it + length p\<rparr>" "p \<noteq> []" "length p = ph_packet_length h"
    "drop (pi_offset it) (pi_datagram it) = p @ drop (pi_offset it') (pi_datagram it)"
    "pi_offset it' \<le> length (pi_datagram it)"
    "quic_parse_packet_header (drop (pi_offset it) (pi_datagram it)) (pi_cid_length it) = Inr h"
  using assms
  by (auto simp: quic_packet_iterator_next_def Let_def drop_drop [symmetric] add.commute
      simp del: drop_drop split: if_splits sum.splits)

function packet_split :: "packet_iterator \<Rightarrow> (packet_header \<times> bytes) list \<times> ntstatus \<times> packet_iterator" where
  "packet_split it =
     (case quic_packet_iterator_next it of
        (Inl e, it') \<Rightarrow> ([], e, it')
      | (Inr hp, it') \<Rightarrow> (case packet_split it' of (hps, e, it'') \<Rightarrow> (hp # hps, e, it'')))"
  by pat_completeness auto

termination
proof (relation "measure (\<lambda>it. length (pi_datagram it) - pi_offset it)", goal_cases)
  case 1
  show ?case by simp
next
  case (2 it r it' hp)
  obtain h p where hp: "hp = (h, p)" by fastforce
  have n: "quic_packet_iterator_next it = (Inr (h, p), it')" using 2 hp by simp
  have "pi_offset it < pi_offset it'" "pi_datagram it' = pi_datagram it"
    using iterator_next_packet(1,2) [OF n] by simp_all
  with iterator_next_packet(5) [OF n] show ?case by simp
qed

declare packet_split.simps [simp del]

lemma iterator_next_not_found:
  assumes "quic_packet_iterator_next it = (Inl STATUS_NOT_FOUND, it')"
    "\<And>data c h. quic_parse_packet_header data c \<noteq> Inl STATUS_NOT_FOUND"
  shows "is_all_zero (drop (pi_offset it) (pi_datagram it))"
  using assms by (auto simp: quic_packet_iterator_next_def is_all_zero_def Let_def split: if_splits sum.splits)

lemma varint_not_found: "quic_decode_varint data \<noteq> Inl STATUS_NOT_FOUND"
  by (simp add: quic_decode_varint_def Let_def split: if_splits)

lemma parse_not_found: "quic_parse_packet_header data c \<noteq> Inl STATUS_NOT_FOUND"
proof -
  have v: "read_packet_value data o' \<noteq> Inl STATUS_NOT_FOUND" for o'
    by (simp add: read_packet_value_def status_simps varint_not_found split_def)
  have "parse_protected data o' h \<noteq> Inl STATUS_NOT_FOUND" "parse_token data o' \<noteq> Inl STATUS_NOT_FOUND" for o' h
    using v by (auto simp: parse_protected_def parse_token_def status_simps Let_def split: if_splits)
  then have "parse_long_body data o' h \<noteq> Inl STATUS_NOT_FOUND" for o' h
    by (auto simp: parse_long_body_def status_simps Let_def split: if_splits)
  then show ?thesis
    by (auto simp: quic_parse_packet_header_def parse_short_header_def parse_long_header_def
        parse_connection_ids_def status_simps Let_def split: if_splits)
qed

lemma packet_split_parts:
  assumes "packet_split (quic_packet_iterator_initialize datagram cidLength) = (hps, e, it')"
  shows "\<exists>tail. datagram = concat (map snd hps) @ tail \<and> (e = STATUS_NOT_FOUND \<longrightarrow> is_all_zero tail)"
    and "\<forall>(h, p) \<in> set hps. p \<noteq> [] \<and> length p = ph_packet_length h"
proof -
  have "(\<exists>tail. drop (pi_offset it) (pi_datagram it) = concat (map snd hps) @ tail
         \<and> (e = STATUS_NOT_FOUND \<longrightarrow> is_all_zero tail))
      \<and> (\<forall>(h, p) \<in> set hps. p \<noteq> [] \<and> length p = ph_packet_length h)"
    if "packet_split it = (hps, e, it')" for it hps
    using that
  proof (induction it arbitrary: hps rule: packet_split.induct)
    case (1 it)
    obtain r it1 where n: "quic_packet_iterator_next it = (r, it1)" by fastforce
    show ?case
    proof (cases r)
      case (Inl e')
      with 1(2) n have "hps = []" "e' = e" by (simp_all add: packet_split.simps [of it])
      with n Inl iterator_next_not_found [OF _ parse_not_found, of it it1] show ?thesis by auto
    next
      case (Inr hp)
      obtain h p where hp: "hp = (h, p)" by fastforce
      obtain hps1 where s1: "packet_split it1 = (hps1, e, it')" and hps: "hps = (h, p) # hps1"
        using 1(2) n Inr hp by (auto simp: packet_split.simps [of it] split: prod.splits)
      have n': "quic_packet_iterator_next it = (Inr (h, p), it1)" using n Inr hp by simp
      note f = iterator_next_packet [OF n']
      have dg: "pi_datagram it1 = pi_datagram it" using f(1) by simp
      obtain tail where "drop (pi_offset it1) (pi_datagram it1) = concat (map snd hps1) @ tail"
          "e = STATUS_NOT_FOUND \<longrightarrow> is_all_zero tail"
        and rest: "\<forall>(h, p) \<in> set hps1. p \<noteq> [] \<and> length p = ph_packet_length h"
        using 1(1) [OF n [symmetric] Inr s1] by blast
      then show ?thesis using f(2,3,4) hps dg by auto
    qed
  qed
  from this [OF assms]
  show "\<exists>tail. datagram = concat (map snd hps) @ tail \<and> (e = STATUS_NOT_FOUND \<longrightarrow> is_all_zero tail)"
    and "\<forall>(h, p) \<in> set hps. p \<noteq> [] \<and> length p = ph_packet_length h"
    by (simp_all add: quic_packet_iterator_initialize_def)
qed

text \<open>
  C27. The iterator splits the datagram: the packets it returns, in order, are the datagram up to
  where it stopped, each of them non-empty and as long as its header says, and a walk that ends
  with \<open>STATUS_NOT_FOUND\<close> leaves nothing but padding zeros behind.
\<close>

theorem iterator_splits_datagram:
  assumes "packet_split (quic_packet_iterator_initialize datagram cidLength) = (hps, e, it')"
  shows "(\<exists>tail. datagram = concat (map snd hps) @ tail \<and> (e = STATUS_NOT_FOUND \<longrightarrow> is_all_zero tail))
    \<and> (\<forall>(h, p) \<in> set hps. p \<noteq> [] \<and> length p = ph_packet_length h)"
  using packet_split_parts [OF assms] by blast

theorem iterator_splits_datagram_witness:
  "\<exists>tail. [0x40, 1, 2, 7, 9] = concat (map snd [(header_new, [0x40, 1, 2, 7, 9 :: byte])]) @ tail
     \<and> (STATUS_NOT_FOUND = STATUS_NOT_FOUND \<longrightarrow> is_all_zero tail)"
proof -
  obtain h where p: "packet_split (quic_packet_iterator_initialize [0x40, 1, 2, 7, 9] 2)
      = ([(h, [0x40, 1, 2, 7, 9])], STATUS_NOT_FOUND,
         \<lparr>pi_datagram = [0x40, 1, 2, 7, 9], pi_offset = 5, pi_cid_length = 2\<rparr>)"
    by (simp add: packet_split.simps quic_packet_iterator_next_def quic_packet_iterator_initialize_def
        is_all_zero_def quic_parse_packet_header_def parse_short_header_def header_new_def can_advance_def
        QuicMaximumConnectionIdLength_def view_def Let_def)
  from iterator_splits_datagram [OF p] show ?thesis by simp
qed

end
