(* ===== verification/QuicCrypto.thy ===== *)
theory QuicCrypto
  imports QuicPacket
begin

text \<open>
  Packet protection, \<open>src/wknetlib/quic/QuicCrypto.cpp\<close>: key derivation, the nonce, header protection,
  and sealing and opening of packets in place. The primitives come from the kernel's provider through
  \<open>crypto/\<close>: the AEAD, HKDF, one AES block and one ChaCha20 block are the fields of \<open>crypto_env\<close>. What is
  relied on is that the AEAD opens what it sealed (\<open>aead_correct\<close>) and that a mask has five bytes. A buffer
  is the list of all its bytes, the allocation outcomes are a function of the allocation's position in
  the code. The lemmas show that opening a sealed packet restores header, number and payload.
\<close>

datatype quic_cipher_suite = Aes128GcmSha256 | Aes256GcmSha384 | ChaCha20Poly1305Sha256

datatype hash_algorithm = HashSha256 | HashSha384

datatype aead_algorithm = AeadAes128Gcm | AeadAes256Gcm | AeadChaCha20Poly1305

record quic_key_set =
  ks_suite :: quic_cipher_suite
  ks_secret :: bytes
  ks_key :: bytes
  ks_iv :: bytes
  ks_hp :: bytes

definition quic_clear_key_set :: quic_key_set where
  "quic_clear_key_set = \<lparr>ks_suite = Aes128GcmSha256, ks_secret = [], ks_key = [], ks_iv = replicate 12 0, ks_hp = []\<rparr>"

text \<open>Sealing gives the ciphertext and the tag; the number of bytes written is the ciphertext's length.\<close>

record crypto_env =
  cr_encrypt :: "aead_algorithm \<Rightarrow> bytes \<Rightarrow> bytes \<Rightarrow> bytes \<Rightarrow> bytes \<Rightarrow> (bytes \<times> bytes) result"
  cr_decrypt :: "aead_algorithm \<Rightarrow> bytes \<Rightarrow> bytes \<Rightarrow> bytes \<Rightarrow> bytes \<Rightarrow> bytes \<Rightarrow> bytes result"
  cr_aes_block :: "bytes \<Rightarrow> bytes \<Rightarrow> bytes result"
  cr_chacha_block :: "bytes \<Rightarrow> nat \<Rightarrow> bytes \<Rightarrow> bytes result"
  cr_hkdf_extract :: "hash_algorithm \<Rightarrow> bytes \<Rightarrow> bytes \<Rightarrow> bytes result"
  cr_expand_label :: "hash_algorithm \<Rightarrow> bytes \<Rightarrow> string \<Rightarrow> nat \<Rightarrow> bytes result"

definition hash_for_suite :: "quic_cipher_suite \<Rightarrow> hash_algorithm" where
  "hash_for_suite suite = (if suite = Aes256GcmSha384 then HashSha384 else HashSha256)"

definition secret_length_for_suite :: "quic_cipher_suite \<Rightarrow> nat" where
  "secret_length_for_suite suite = (if suite = Aes256GcmSha384 then 48 else 32)"

definition key_length_for_suite :: "quic_cipher_suite \<Rightarrow> nat" where
  "key_length_for_suite suite = (if suite = Aes128GcmSha256 then 16 else 32)"

definition aead_for_suite :: "quic_cipher_suite \<Rightarrow> aead_algorithm" where
  "aead_for_suite suite =
     (if suite = Aes128GcmSha256 then AeadAes128Gcm
      else if suite = Aes256GcmSha384 then AeadAes256Gcm else AeadChaCha20Poly1305)"

section \<open>Keys\<close>

definition quic_derive_key_set :: "crypto_env \<Rightarrow> quic_cipher_suite \<Rightarrow> bytes \<Rightarrow> quic_key_set result" where
  "quic_derive_key_set E suite secret =
     (if secret = [] \<or> length secret \<noteq> secret_length_for_suite suite then Inl STATUS_INVALID_PARAMETER
      else let hash = hash_for_suite suite; n = key_length_for_suite suite
        in rbind (cr_expand_label E hash secret ''quic key'' n) (\<lambda>key.
           rbind (cr_expand_label E hash secret ''quic iv'' 12) (\<lambda>iv.
           rbind (cr_expand_label E hash secret ''quic hp'' n) (\<lambda>hp.
             Inr \<lparr>ks_suite = suite, ks_secret = secret, ks_key = key, ks_iv = iv, ks_hp = hp\<rparr>))))"

definition quic_derive_next_key_set :: "crypto_env \<Rightarrow> bool \<Rightarrow> quic_key_set \<Rightarrow> quic_key_set result" where
  "quic_derive_next_key_set E alloc_ok current =
     (if ks_secret current = [] \<or> length (ks_secret current) \<noteq> secret_length_for_suite (ks_suite current)
        \<or> ks_hp current = [] \<or> length (ks_hp current) > 32
      then Inl STATUS_INVALID_PARAMETER
      else if \<not> alloc_ok then Inl STATUS_INSUFFICIENT_RESOURCES
      else rbind (cr_expand_label E (hash_for_suite (ks_suite current)) (ks_secret current) ''quic ku''
                    (length (ks_secret current))) (\<lambda>secret.
           rbind (quic_derive_key_set E (ks_suite current) secret) (\<lambda>ks.
             Inr (ks\<lparr>ks_hp := ks_hp current\<rparr>))))"

definition InitialSaltV1 :: bytes where
  "InitialSaltV1 = [0x38, 0x76, 0x2c, 0xf7, 0xf5, 0x59, 0x34, 0xb3, 0x4d, 0x17,
     0x9a, 0xe6, 0xa4, 0xc8, 0x0c, 0xad, 0xcc, 0xbb, 0x7f, 0x0a]"

text \<open>The client's and the server's keys.\<close>

definition quic_derive_initial_key_sets ::
    "crypto_env \<Rightarrow> bool \<Rightarrow> bytes \<Rightarrow> (quic_key_set \<times> quic_key_set) result" where
  "quic_derive_initial_key_sets E alloc_ok dcid =
     (if dcid = [] \<or> length dcid > QuicMaximumConnectionIdLength then Inl STATUS_INVALID_PARAMETER
      else if \<not> alloc_ok then Inl STATUS_INSUFFICIENT_RESOURCES
      else rbind (cr_hkdf_extract E HashSha256 InitialSaltV1 dcid) (\<lambda>initial.
           rbind (cr_expand_label E HashSha256 initial ''client in'' 32) (\<lambda>cs.
           rbind (cr_expand_label E HashSha256 initial ''server in'' 32) (\<lambda>ss.
           rbind (quic_derive_key_set E Aes128GcmSha256 cs) (\<lambda>client.
           rbind (quic_derive_key_set E Aes128GcmSha256 ss) (\<lambda>server.
             Inr (client, server)))))))"

section \<open>Nonce and mask\<close>

text \<open>The loop over the eight low bytes of the nonce, from the last one on.\<close>

fun xor_number :: "nat \<Rightarrow> nat \<Rightarrow> bytes \<Rightarrow> bytes" where
  "xor_number 0 pn nonce = nonce"
| "xor_number (Suc i) pn nonce =
     (let n1 = xor_number i pn nonce
      in n1[11 - i := n1 ! (11 - i) XOR uchar (drop_bit (i * 8) pn AND 0xff)])"

definition quic_build_packet_nonce :: "bytes \<Rightarrow> nat \<Rightarrow> bytes result" where
  "quic_build_packet_nonce iv pn =
     (if pn > QuicVarIntMaximum then Inl STATUS_INVALID_PARAMETER else Inr (xor_number 8 pn (take 12 iv)))"

definition quic_header_protection_mask :: "crypto_env \<Rightarrow> bool \<Rightarrow> quic_key_set \<Rightarrow> bytes \<Rightarrow> bytes result" where
  "quic_header_protection_mask E alloc_ok ks sample =
     (if ks_hp ks = [] then Inl STATUS_INVALID_PARAMETER
      else if \<not> alloc_ok then Inl STATUS_INSUFFICIENT_RESOURCES
      else if ks_suite ks = ChaCha20Poly1305Sha256
      then rbind (cr_chacha_block E (ks_hp ks)
                    (unat (sample ! 0) OR push_bit 8 (unat (sample ! 1)) OR push_bit 16 (unat (sample ! 2))
                       OR push_bit 24 (unat (sample ! 3)))
                    (take 12 (drop 4 sample))) (\<lambda>block. Inr (take 5 block))
      else rbind (cr_aes_block E (ks_hp ks) (take 16 sample)) (\<lambda>block. Inr (take 5 block)))"

section \<open>Packets\<close>

definition first_byte_mask :: "byte \<Rightarrow> byte \<Rightarrow> byte" where
  "first_byte_mask b m = b XOR (m AND (if b AND 0x80 \<noteq> 0 then 0x0f else 0x1f))"

text \<open>\<open>for (index < n) packet[off + index] ^= mask[index + 1]\<close>.\<close>

fun xor_at :: "nat \<Rightarrow> bytes \<Rightarrow> bytes \<Rightarrow> bytes" where
  "xor_at off [] packet = packet"
| "xor_at off (m # ms) packet = xor_at (off + 1) ms (packet[off := packet ! off XOR m])"

text \<open>The first result is the status or \<open>*packetLength\<close>, the second the buffer.\<close>

definition quic_protect_packet ::
    "crypto_env \<Rightarrow> (nat \<Rightarrow> bool) \<Rightarrow> quic_key_set \<Rightarrow> bytes \<Rightarrow> nat \<Rightarrow> nat \<Rightarrow> nat \<Rightarrow> nat \<Rightarrow> nat result \<times> bytes" where
  "quic_protect_packet E ok ks packet pnOffset pnLength pn plaintextLength =
     (let capacity = length packet; headerLength = pnOffset + pnLength;
          protectedLength = headerLength + plaintextLength + QuicRetryIntegrityTagLength
      in if pnLength = 0 \<or> pnLength > 4 \<or> pnOffset > capacity \<or> pnLength > capacity - pnOffset
         then (Inl STATUS_INVALID_PARAMETER, packet)
         else if plaintextLength > capacity - headerLength
           \<or> QuicRetryIntegrityTagLength > capacity - headerLength - plaintextLength
         then (Inl STATUS_BUFFER_TOO_SMALL, packet)
         else if pnOffset > protectedLength \<or> 4 > protectedLength - pnOffset \<or> 16 > protectedLength - (pnOffset + 4)
         then (Inl STATUS_INVALID_PARAMETER, packet)
         else if \<not> ok 0 then (Inl STATUS_INSUFFICIENT_RESOURCES, packet)
         else case rbind (quic_build_packet_nonce (ks_iv ks) pn) (\<lambda>nonce.
                     cr_encrypt E (aead_for_suite (ks_suite ks)) (ks_key ks) nonce (take headerLength packet)
                       (view packet headerLength plaintextLength)) of
           Inl e \<Rightarrow> (Inl e, packet)
         | Inr (ciphertext, tag) \<Rightarrow>
             if length ciphertext \<noteq> plaintextLength then (Inl STATUS_INVALID_NETWORK_RESPONSE, packet)
             else let p1 = copy_at (copy_at packet headerLength ciphertext) (headerLength + plaintextLength) tag
               in case quic_header_protection_mask E (ok 1) ks (view p1 (pnOffset + 4) 16) of
                 Inl e \<Rightarrow> (Inl e, p1)
               | Inr hpMask \<Rightarrow>
                   (Inr protectedLength,
                    xor_at pnOffset (take pnLength (drop 1 hpMask)) (p1[0 := first_byte_mask (p1 ! 0) (hpMask ! 0)])))"

text \<open>
  The packet is the whole buffer here. The first result is the status or \<open>*packetNumber\<close> and
  \<open>*plaintextLength\<close>, the second the buffer.
\<close>

definition reserved_bits_set :: "byte \<Rightarrow> bool" where
  "reserved_bits_set b \<longleftrightarrow>
     (b AND 0x80 \<noteq> 0 \<and> b AND 0x0c \<noteq> 0) \<or> (b AND 0x80 = 0 \<and> b AND 0x18 \<noteq> 0)"

definition quic_unprotect_packet ::
    "crypto_env \<Rightarrow> (nat \<Rightarrow> bool) \<Rightarrow> quic_key_set \<Rightarrow> bytes \<Rightarrow> nat \<Rightarrow> nat \<Rightarrow> (nat \<times> nat) result \<times> bytes" where
  "quic_unprotect_packet E ok ks packet pnOffset expected =
     (let packetLength = length packet
      in if pnOffset > packetLength \<or> 4 > packetLength - pnOffset \<or> 16 > packetLength - (pnOffset + 4)
         then (Inl STATUS_INVALID_PARAMETER, packet)
         else if \<not> ok 0 then (Inl STATUS_INSUFFICIENT_RESOURCES, packet)
         else case quic_header_protection_mask E (ok 1) ks (view packet (pnOffset + 4) 16) of
           Inl e \<Rightarrow> (Inl e, packet)
         | Inr hpMask \<Rightarrow>
             let p1 = packet[0 := first_byte_mask (packet ! 0) (hpMask ! 0)]
             in if reserved_bits_set (p1 ! 0) then (Inl STATUS_INVALID_NETWORK_RESPONSE, p1)
                else let pnLength = unat (p1 ! 0 AND 0x03) + 1
                  in if pnLength > packetLength - pnOffset then (Inl STATUS_INVALID_NETWORK_RESPONSE, p1)
                     else let p2 = xor_at pnOffset (take pnLength (drop 1 hpMask)) p1;
                              headerLength = pnOffset + pnLength;
                              ciphertextLength = packetLength - headerLength - 16
                       in case quic_reconstruct_packet_number (be_value 0 (view p2 pnOffset pnLength)) pnLength expected of
                         Inl e \<Rightarrow> (Inl e, p2)
                       | Inr pn \<Rightarrow>
                           if packetLength < headerLength + 16 then (Inl STATUS_INVALID_NETWORK_RESPONSE, p2)
                           else if \<not> ok 2 then (Inl STATUS_INSUFFICIENT_RESOURCES, p2)
                           else case rbind (quic_build_packet_nonce (ks_iv ks) pn) (\<lambda>nonce.
                                 cr_decrypt E (aead_for_suite (ks_suite ks)) (ks_key ks) nonce (take headerLength p2)
                                   (view p2 headerLength ciphertextLength)
                                   (view p2 (headerLength + ciphertextLength) 16)) of
                             Inl e \<Rightarrow> (Inl e, copy_at p2 headerLength (replicate ciphertextLength 0))
                           | Inr plaintext \<Rightarrow>
                               if length plaintext \<noteq> ciphertextLength
                               then (Inl STATUS_INVALID_NETWORK_RESPONSE, copy_at p2 headerLength (replicate ciphertextLength 0))
                               else (Inr (pn, ciphertextLength), copy_at p2 headerLength plaintext))"

text \<open>The first byte and the packet number, read without touching the packet.\<close>

definition quic_inspect_protected_header ::
    "crypto_env \<Rightarrow> (nat \<Rightarrow> bool) \<Rightarrow> quic_key_set \<Rightarrow> bytes \<Rightarrow> nat \<Rightarrow> nat \<Rightarrow> (byte \<times> nat) result" where
  "quic_inspect_protected_header E ok ks packet pnOffset expected =
     (let packetLength = length packet
      in if pnOffset > packetLength \<or> 4 > packetLength - pnOffset \<or> 16 > packetLength - (pnOffset + 4)
         then Inl STATUS_INVALID_PARAMETER
         else if \<not> ok 0 then Inl STATUS_INSUFFICIENT_RESOURCES
         else rbind (quic_header_protection_mask E (ok 1) ks (view packet (pnOffset + 4) 16)) (\<lambda>hpMask.
           let b = first_byte_mask (packet ! 0) (hpMask ! 0); pnLength = unat (b AND 0x03) + 1
           in if reserved_bits_set b \<or> pnLength > packetLength - pnOffset then Inl STATUS_INVALID_NETWORK_RESPONSE
              else rbind (quic_reconstruct_packet_number
                     (be_value 0 (map2 (XOR) (view packet pnOffset pnLength) (take pnLength (drop 1 hpMask)))) pnLength expected)
                     (\<lambda>pn. Inr (b, pn))))"

section \<open>Retry integrity\<close>

definition RetryKeyV1 :: bytes where
  "RetryKeyV1 = [0xbe, 0x0c, 0x69, 0x0b, 0x9f, 0x66, 0x57, 0x5a, 0x1d, 0x76, 0x6b, 0x54, 0xe3, 0x68, 0xc8, 0x4e]"

definition RetryNonceV1 :: bytes where
  "RetryNonceV1 = [0x46, 0x15, 0x99, 0xd3, 0x5d, 0x63, 0x2b, 0xf2, 0x23, 0x98, 0x25, 0xbb]"

definition quic_compute_retry_tag :: "crypto_env \<Rightarrow> bool \<Rightarrow> bytes \<Rightarrow> bytes \<Rightarrow> bytes result" where
  "quic_compute_retry_tag E alloc_ok odcid retryWithoutTag =
     (if odcid = [] \<or> length odcid > QuicMaximumConnectionIdLength \<or> retryWithoutTag = []
      then Inl STATUS_INVALID_PARAMETER
      else if \<not> alloc_ok then Inl STATUS_INSUFFICIENT_RESOURCES
      else rbind (cr_encrypt E AeadAes128Gcm RetryKeyV1 RetryNonceV1
                    (uchar (length odcid) # odcid @ retryWithoutTag) []) (\<lambda>(ciphertext, tag). Inr tag))"

definition quic_validate_retry_tag :: "crypto_env \<Rightarrow> (nat \<Rightarrow> bool) \<Rightarrow> bytes \<Rightarrow> bytes \<Rightarrow> ntstatus" where
  "quic_validate_retry_tag E ok odcid retryPacket =
     (if length retryPacket \<le> QuicRetryIntegrityTagLength then STATUS_INVALID_PARAMETER
      else if \<not> ok 0 then STATUS_INSUFFICIENT_RESOURCES
      else let withoutTag = length retryPacket - QuicRetryIntegrityTagLength
        in case quic_compute_retry_tag E (ok 1) odcid (take withoutTag retryPacket) of
             Inl e \<Rightarrow> e
           | Inr expected \<Rightarrow> if expected \<noteq> drop withoutTag retryPacket then STATUS_INVALID_SIGNATURE else STATUS_SUCCESS)"

section \<open>Opening a sealed packet\<close>

text \<open>What the provider documents: opening inverts sealing, a tag has 16 bytes, a block 16 or 64.\<close>

definition aead_correct :: "crypto_env \<Rightarrow> bool" where
  "aead_correct E \<longleftrightarrow>
     (\<forall>alg key nonce aad plaintext ciphertext tag.
        cr_encrypt E alg key nonce aad plaintext = Inr (ciphertext, tag) \<longrightarrow>
          length ciphertext = length plaintext \<and> length tag = QuicRetryIntegrityTagLength
          \<and> cr_decrypt E alg key nonce aad ciphertext tag = Inr plaintext)"

definition blocks_full :: "crypto_env \<Rightarrow> bool" where
  "blocks_full E \<longleftrightarrow>
     (\<forall>key x block. cr_aes_block E key x = Inr block \<longrightarrow> length block = 16)
     \<and> (\<forall>key c x block. cr_chacha_block E key c x = Inr block \<longrightarrow> length block = 64)"

lemma length_mask: "blocks_full E \<Longrightarrow> quic_header_protection_mask E ok ks sample = Inr m \<Longrightarrow> length m = 5"
  by (auto simp: quic_header_protection_mask_def blocks_full_def status_simps split: if_splits)

lemma length_xor_at [simp]: "length (xor_at off ms p) = length p"
  by (induction off ms p rule: xor_at.induct) auto

lemma nth_xor_at:
  "off + length ms \<le> length p \<Longrightarrow> i < length p \<Longrightarrow>
     xor_at off ms p ! i = (if off \<le> i \<and> i < off + length ms then p ! i XOR ms ! (i - off) else p ! i)"
proof (induction off ms p arbitrary: i rule: xor_at.induct)
  case (2 off m ms packet)
  show ?case
  proof (cases "i = off")
    case False
    then have "i - off = Suc (i - (off + 1))" if "off < i" using that by simp
    with 2 False show ?thesis by (auto simp: nth_list_update)
  qed (use 2 in \<open>auto simp: nth_list_update\<close>)
qed auto

lemma first_byte_mask_high: "first_byte_mask b m AND 0x80 = b AND 0x80"
  by (simp add: first_byte_mask_def bit.conj_xor_distrib2 and.assoc)

lemma first_byte_mask_twice [simp]: "first_byte_mask (first_byte_mask b m) m = b"
proof -
  have "first_byte_mask (first_byte_mask b m) m
      = first_byte_mask b m XOR (m AND (if b AND 0x80 \<noteq> 0 then 0x0f else 0x1f))"
    by (simp add: first_byte_mask_def [of "first_byte_mask b m"] first_byte_mask_high)
  then show ?thesis by (simp add: first_byte_mask_def xor.assoc)
qed

lemma be_value_truncated: "be_value 0 (be_bytes n v) = v mod 256 ^ n"
proof (induction n arbitrary: v)
  case (Suc n)
  show ?case
    by (simp add: be_value_append Suc.IH drop_bit_eq_div and_255_nat mod_mult2_eq)
qed auto

text \<open>
  A packet ready to be sealed: the number's field holds its low bytes, the first byte announces the
  field's length and leaves the reserved bits clear.
\<close>

definition sealable :: "bytes \<Rightarrow> nat \<Rightarrow> nat \<Rightarrow> nat \<Rightarrow> bool" where
  "sealable packet pnOffset pnLength pn \<longleftrightarrow> 0 < pnOffset \<and> view packet pnOffset pnLength = be_bytes pnLength pn
     \<and> unat (packet ! 0 AND 0x03) + 1 = pnLength \<and> \<not> reserved_bits_set (packet ! 0)"

lemma protect_Inr:
  assumes "quic_protect_packet E ok ks packet pnOffset pnLength pn n = (Inr k, sealed)"
    "aead_correct E" "blocks_full E"
  obtains nonce ciphertext tag m where
    "0 < pnLength" "pnLength \<le> 4" "k = pnOffset + pnLength + n + 16" "k \<le> length packet" "pnOffset + 20 \<le> k"
    "quic_build_packet_nonce (ks_iv ks) pn = Inr nonce"
    "cr_decrypt E (aead_for_suite (ks_suite ks)) (ks_key ks) nonce (take (pnOffset + pnLength) packet) ciphertext tag
      = Inr (view packet (pnOffset + pnLength) n)"
    "length ciphertext = n" "length tag = 16" "length m = 5"
    "quic_header_protection_mask E (ok 1) ks (view (copy_at (copy_at packet (pnOffset + pnLength) ciphertext)
       (pnOffset + pnLength + n) tag) (pnOffset + 4) 16) = Inr m"
    "sealed = xor_at pnOffset (take pnLength (drop 1 m))
       ((copy_at (copy_at packet (pnOffset + pnLength) ciphertext) (pnOffset + pnLength + n) tag)
         [0 := first_byte_mask (copy_at (copy_at packet (pnOffset + pnLength) ciphertext) (pnOffset + pnLength + n) tag ! 0) (m ! 0)])"
proof -
  from assms(1) obtain nonce ciphertext tag m where
    g: "0 < pnLength" "pnLength \<le> 4" "k = pnOffset + pnLength + n + 16" "k \<le> length packet" "pnOffset + 20 \<le> k"
    and nonce: "quic_build_packet_nonce (ks_iv ks) pn = Inr nonce"
    and enc: "cr_encrypt E (aead_for_suite (ks_suite ks)) (ks_key ks) nonce (take (pnOffset + pnLength) packet)
      (view packet (pnOffset + pnLength) n) = Inr (ciphertext, tag)"
    and len: "length ciphertext = n"
    and m: "quic_header_protection_mask E (ok 1) ks (view (copy_at (copy_at packet (pnOffset + pnLength) ciphertext)
       (pnOffset + pnLength + n) tag) (pnOffset + 4) 16) = Inr m"
    and s: "sealed = xor_at pnOffset (take pnLength (drop 1 m))
       ((copy_at (copy_at packet (pnOffset + pnLength) ciphertext) (pnOffset + pnLength + n) tag)
         [0 := first_byte_mask (copy_at (copy_at packet (pnOffset + pnLength) ciphertext) (pnOffset + pnLength + n) tag ! 0) (m ! 0)])"
    by (auto simp: quic_protect_packet_def Let_def status_simps QuicRetryIntegrityTagLength_def split: if_splits sum.splits prod.splits)
  from enc assms(2) have "cr_decrypt E (aead_for_suite (ks_suite ks)) (ks_key ks) nonce
      (take (pnOffset + pnLength) packet) ciphertext tag = Inr (view packet (pnOffset + pnLength) n)" "length tag = 16"
    by (auto simp: aead_correct_def QuicRetryIntegrityTagLength_def)
  with that g nonce len m s length_mask [OF assms(3) m] show ?thesis by blast
qed

lemma unprotect_protect:
  assumes sealed: "quic_protect_packet E ok ks packet pnOffset pnLength pn n = (Inr k, sealed)"
    and E: "aead_correct E" "blocks_full E" and can: "sealable packet pnOffset pnLength pn"
    and window: "expected \<le> QuicVarIntMaximum" "expected < pn + 2 ^ (8 * pnLength) div 2"
      "pn \<le> expected + 2 ^ (8 * pnLength) div 2"
  shows "\<exists>tag. length tag = QuicRetryIntegrityTagLength \<and> k = pnOffset + pnLength + n + QuicRetryIntegrityTagLength
    \<and> quic_unprotect_packet E (\<lambda>_. True) ks (take k sealed) pnOffset expected
        = (Inr (pn, n), take (pnOffset + pnLength + n) packet @ tag)"
proof -
  obtain nonce ciphertext tag m where g: "0 < pnLength" "pnLength \<le> 4" "k = pnOffset + pnLength + n + 16"
      "k \<le> length packet" "pnOffset + 20 \<le> k"
    and nonce: "quic_build_packet_nonce (ks_iv ks) pn = Inr nonce"
    and dec: "cr_decrypt E (aead_for_suite (ks_suite ks)) (ks_key ks) nonce (take (pnOffset + pnLength) packet) ciphertext tag
      = Inr (view packet (pnOffset + pnLength) n)"
    and len: "length ciphertext = n" "length tag = 16" "length m = 5"
    and m: "quic_header_protection_mask E (ok 1) ks (view (copy_at (copy_at packet (pnOffset + pnLength) ciphertext)
       (pnOffset + pnLength + n) tag) (pnOffset + 4) 16) = Inr m"
    and S: "sealed = xor_at pnOffset (take pnLength (drop 1 m))
       ((copy_at (copy_at packet (pnOffset + pnLength) ciphertext) (pnOffset + pnLength + n) tag)
         [0 := first_byte_mask (copy_at (copy_at packet (pnOffset + pnLength) ciphertext) (pnOffset + pnLength + n) tag ! 0) (m ! 0)])"
    using protect_Inr [OF sealed E] by blast
  let ?h = "pnOffset + pnLength" and ?ms = "take pnLength (drop 1 m)"
  define U where "U = copy_at (copy_at packet ?h ciphertext) (?h + n) tag"
  define T where "T = take k sealed"
  have can': "0 < pnOffset" "view packet pnOffset pnLength = be_bytes pnLength pn"
      "unat (packet ! 0 AND 0x03) + 1 = pnLength" "\<not> reserved_bits_set (packet ! 0)"
    using can by (simp_all add: sealable_def)
  have lU: "length U = length packet" using g len by (simp add: U_def)
  have U: "U = take ?h packet @ ciphertext @ tag @ drop k packet"
    using g len by (simp add: U_def copy_at_def ac_simps)
  have U0: "U ! 0 = packet ! 0" using g can'(1) by (simp add: U nth_append)
  have lT: "length T = k" using g lU by (simp add: T_def S U_def [symmetric])
  have T: "T ! i = (if i = 0 then first_byte_mask (packet ! 0) (m ! 0)
      else if pnOffset \<le> i \<and> i < ?h then U ! i XOR ?ms ! (i - pnOffset) else U ! i)" if "i < k" for i
  proof -
    have "0 < length U" using g lU by linarith
    then show ?thesis
      using that g len(3) lU can'(1) U0 by (auto simp: T_def S U_def [symmetric] nth_xor_at nth_list_update)
  qed
  have "view T (pnOffset + 4) 16 = view U (pnOffset + 4) 16"
    by (rule nth_equalityI) (use g lT lU T in \<open>auto simp: view_def\<close>)
  moreover have "quic_header_protection_mask E True ks x = Inr m" if "quic_header_protection_mask E b ks x = Inr m" for b x
    using that by (auto simp: quic_header_protection_mask_def split: if_splits)
  ultimately have mask: "quic_header_protection_mask E True ks (view T (pnOffset + 4) 16) = Inr m"
    using m by (simp add: U_def)
  have p1: "T[0 := first_byte_mask (T ! 0) (m ! 0)] ! 0 = packet ! 0" using g lT T [of 0] by simp
  have p2: "xor_at pnOffset ?ms (T[0 := first_byte_mask (T ! 0) (m ! 0)]) = take k U"
    by (rule nth_equalityI) (use g lT lU T len(3) can'(1) U0 in \<open>auto simp: nth_xor_at nth_list_update xor.assoc\<close>)
  have tk: "take k U = take ?h packet @ ciphertext @ tag" using g len by (simp add: U)
  have pn: "be_value 0 (view (take k U) pnOffset pnLength) = pn mod 2 ^ (8 * pnLength)"
  proof -
    have "view (take k U) pnOffset pnLength = view packet pnOffset pnLength"
      by (rule nth_equalityI) (use g lU in \<open>simp_all add: view_def, simp add: U nth_append\<close>)
    with can'(2) be_value_truncated [of pnLength pn] show ?thesis by (simp add: power_mult)
  qed
  have rec: "quic_reconstruct_packet_number (pn mod 2 ^ (8 * pnLength)) pnLength expected = Inr pn"
    using nonce g window by (intro reconstruct_within_window) (auto simp: quic_build_packet_nonce_def split: if_splits)
  have parts: "take ?h (take k U) = take ?h packet" "view (take k U) ?h n = ciphertext" "view (take k U) (?h + n) 16 = tag"
    unfolding tk using g len by (simp_all add: view_def)
  have out: "copy_at (take k U) ?h (view packet ?h n) = take (?h + n) packet @ tag"
    unfolding tk using g len by (simp add: copy_at_def view_def take_add)
  have kn: "k - ?h - 16 = n" using g(3) by simp
  have "quic_unprotect_packet E (\<lambda>_. True) ks T pnOffset expected = (Inr (pn, n), take (?h + n) packet @ tag)"
    unfolding quic_unprotect_packet_def Let_def lT mask sum.case p1 can'(3) p2 pn rec kn parts nonce rbind_Inr dec out
    using g can'(4) by (simp add: view_def)
  with len(2) g(3) show ?thesis by (auto simp: T_def QuicRetryIntegrityTagLength_def)
qed

text \<open>
  C6. A packet whose number field holds the low bytes of its number, sealed in place, is opened with the
  same keys by a receiver whose expected number is within half a window: the number comes back in full,
  the header unmasked and the payload as it was, whatever cipher suite, for any AEAD that opens what it
  sealed and any header-protection blocks of full length.
\<close>

theorem sealed_packet_opens:
  assumes "quic_protect_packet E ok ks packet pnOffset pnLength pn n = (Inr k, sealed)"
    "aead_correct E" "blocks_full E" "sealable packet pnOffset pnLength pn"
    "expected \<le> QuicVarIntMaximum" "expected < pn + 2 ^ (8 * pnLength) div 2"
    "pn \<le> expected + 2 ^ (8 * pnLength) div 2"
  shows "\<exists>tag. length tag = QuicRetryIntegrityTagLength \<and> k = pnOffset + pnLength + n + QuicRetryIntegrityTagLength
    \<and> quic_unprotect_packet E (\<lambda>_. True) ks (take k sealed) pnOffset expected
        = (Inr (pn, n), take (pnOffset + pnLength + n) packet @ tag)"
  by (rule unprotect_protect [OF assms])

text \<open>A cipher that adds one to every byte, with constant blocks.\<close>

definition crypto_example :: crypto_env where
  "crypto_example = \<lparr>cr_encrypt = (\<lambda>_ _ _ _ p. Inr (map (\<lambda>b. b + 1) p, replicate 16 9)),
     cr_decrypt = (\<lambda>_ _ _ _ c _. Inr (map (\<lambda>b. b - 1) c)),
     cr_aes_block = (\<lambda>_ _. Inr (replicate 16 0x5a)), cr_chacha_block = (\<lambda>_ _ _. Inr (replicate 64 0x5a)),
     cr_hkdf_extract = (\<lambda>_ _ _. Inr (replicate 32 1)), cr_expand_label = (\<lambda>_ _ _ n. Inr (replicate n 2))\<rparr>"

definition key_example :: quic_key_set where
  "key_example = \<lparr>ks_suite = Aes128GcmSha256, ks_secret = replicate 32 2, ks_key = replicate 16 2,
     ks_iv = replicate 12 2, ks_hp = replicate 16 2\<rparr>"

lemma crypto_example_ok: "aead_correct crypto_example" "blocks_full crypto_example"
  by (simp_all add: aead_correct_def blocks_full_def crypto_example_def QuicRetryIntegrityTagLength_def comp_def)

theorem sealed_packet_opens_witness:
  "\<exists>sealed tag. quic_protect_packet crypto_example (\<lambda>_. True) key_example
       ([0x41, 7, 0, 5, 1, 2, 3] @ replicate 16 0) 2 2 5 3 = (Inr 23, sealed)
     \<and> quic_unprotect_packet crypto_example (\<lambda>_. True) key_example (take 23 sealed) 2 4
         = (Inr (5, 3), [0x41, 7, 0, 5, 1, 2, 3] @ tag)"
proof -
  let ?p = "[0x41, 7, 0, 5, 1, 2, 3] @ replicate 16 (0 :: byte)"
  obtain sealed where seal: "quic_protect_packet crypto_example (\<lambda>_. True) key_example ?p 2 2 5 3 = (Inr 23, sealed)"
    by (simp add: quic_protect_packet_def QuicRetryIntegrityTagLength_def crypto_example_def key_example_def
        quic_build_packet_nonce_def QuicVarIntMaximum_def quic_header_protection_mask_def view_def Let_def del: xor_number.simps)
  have can: "sealable ?p 2 2 5"
    by (simp add: sealable_def view_def reserved_bits_set_def codec_simps and_255_nat uchar_def)
  show ?thesis
    using sealed_packet_opens [OF seal crypto_example_ok can, of 4] seal by (auto simp: QuicVarIntMaximum_def)
qed

end
