(* ===== verification/QuicTransportParameters.thy ===== *)
theory QuicTransportParameters
  imports QuicVarInt
begin

text \<open>
  QUIC transport parameters, \<open>src/wknetlib/quic/QuicTransportParameters.cpp\<close>: the parser of the peer's
  parameters and the encoder of the client's. The lemmas give the round trip and what holds of every
  accepted list: no parameter twice, all values in their ranges, server-only parameters only from a
  server.
\<close>

definition QuicMaximumTransportParameterCount :: nat where
  "QuicMaximumTransportParameterCount = 64"

definition WKNET_HARD_MAX_QUIC_TRANSPORT_PARAMETERS_BYTES :: nat where
  "WKNET_HARD_MAX_QUIC_TRANSPORT_PARAMETERS_BYTES = 4096"

datatype tp_role = TpClient | TpServer

record preferred_address =
  pa_ipv4 :: bytes
  pa_ipv4_port :: nat
  pa_ipv6 :: bytes
  pa_ipv6_port :: nat
  pa_cid :: bytes
  pa_token :: bytes
  pa_present :: bool

record transport_parameters =
  tp_original_dcid :: bytes
  tp_max_idle_timeout :: nat
  tp_stateless_reset_token :: bytes
  tp_max_udp_payload_size :: nat
  tp_initial_max_data :: nat
  tp_max_stream_data_bidi_local :: nat
  tp_max_stream_data_bidi_remote :: nat
  tp_max_stream_data_uni :: nat
  tp_max_streams_bidi :: nat
  tp_max_streams_uni :: nat
  tp_ack_delay_exponent :: nat
  tp_max_ack_delay :: nat
  tp_active_cid_limit :: nat
  tp_initial_scid :: bytes
  tp_retry_scid :: bytes
  tp_preferred_address :: preferred_address
  tp_disable_active_migration :: bool
  tp_observed :: "nat list"

definition tp_new :: transport_parameters where
  "tp_new = \<lparr>tp_original_dcid = [], tp_max_idle_timeout = 0, tp_stateless_reset_token = [],
     tp_max_udp_payload_size = 65527, tp_initial_max_data = 0, tp_max_stream_data_bidi_local = 0,
     tp_max_stream_data_bidi_remote = 0, tp_max_stream_data_uni = 0, tp_max_streams_bidi = 0,
     tp_max_streams_uni = 0, tp_ack_delay_exponent = 3, tp_max_ack_delay = 25, tp_active_cid_limit = 2,
     tp_initial_scid = [], tp_retry_scid = [],
     tp_preferred_address = \<lparr>pa_ipv4 = replicate 4 0, pa_ipv4_port = 0, pa_ipv6 = replicate 16 0, pa_ipv6_port = 0,
        pa_cid = [], pa_token = replicate 16 0, pa_present = False\<rparr>,
     tp_disable_active_migration = False, tp_observed = []\<rparr>"

section \<open>Parsing\<close>

definition tp_read_port :: "bytes \<Rightarrow> nat" where
  "tp_read_port data = push_bit 8 (unat (data ! 0)) OR unat (data ! 1)"

text \<open>\<open>None\<close> stands for \<open>true\<close>: the identifier was seen, or there is no room for it.\<close>

definition tp_seen :: "nat \<Rightarrow> transport_parameters \<Rightarrow> transport_parameters option" where
  "tp_seen i p =
     (if i \<in> set (tp_observed p) then None
      else if length (tp_observed p) \<ge> QuicMaximumTransportParameterCount then None
      else Some (p\<lparr>tp_observed := tp_observed p @ [i]\<rparr>))"

definition tp_decode_single :: "bytes \<Rightarrow> nat result" where
  "tp_decode_single v =
     rbind (quic_decode_varint v) (\<lambda>(decoded, consumed).
       if consumed = length v then Inr decoded else Inl STATUS_INVALID_NETWORK_RESPONSE)"

text \<open>An integer parameter within limits.\<close>

definition tp_integer :: "bytes \<Rightarrow> (nat \<Rightarrow> bool) \<Rightarrow> (nat \<Rightarrow> transport_parameters) \<Rightarrow> transport_parameters result" where
  "tp_integer v good f =
     rbind (tp_decode_single v) (\<lambda>n. if good n then Inr (f n) else Inl STATUS_INVALID_NETWORK_RESPONSE)"

definition tp_cid :: "bytes \<Rightarrow> transport_parameters \<Rightarrow> transport_parameters result" where
  "tp_cid v p = (if length v > QuicMaximumConnectionIdLength then Inl STATUS_INVALID_NETWORK_RESPONSE else Inr p)"

definition tp_parse_preferred_address :: "bytes \<Rightarrow> preferred_address result" where
  "tp_parse_preferred_address v =
     (if length v < 4 + 2 + 16 + 2 + 1 + 16 then Inl STATUS_INVALID_NETWORK_RESPONSE
      else let cidLength = unat (v ! 24)
        in if cidLength > QuicMaximumConnectionIdLength \<or> length v \<noteq> 25 + cidLength + 16
           then Inl STATUS_INVALID_NETWORK_RESPONSE
           else Inr \<lparr>pa_ipv4 = view v 0 4, pa_ipv4_port = tp_read_port (drop 4 v), pa_ipv6 = view v 6 16,
                  pa_ipv6_port = tp_read_port (drop 22 v), pa_cid = view v 25 cidLength,
                  pa_token = view v (25 + cidLength) 16, pa_present = True\<rparr>)"

definition tp_server_only :: "nat \<Rightarrow> bool" where
  "tp_server_only i \<longleftrightarrow> i = 0x00 \<or> i = 0x02 \<or> i = 0x0d \<or> i = 0x10"

text \<open>The switch over the identifier.\<close>

definition tp_apply :: "nat \<Rightarrow> bytes \<Rightarrow> transport_parameters \<Rightarrow> transport_parameters result" where
  "tp_apply i v p =
     (if i = 0x00 then tp_cid v (p\<lparr>tp_original_dcid := v\<rparr>)
      else if i = 0x01 then tp_integer v (\<lambda>n. True) (\<lambda>n. p\<lparr>tp_max_idle_timeout := n\<rparr>)
      else if i = 0x02 then (if length v \<noteq> 16 then Inl STATUS_INVALID_NETWORK_RESPONSE
                             else Inr (p\<lparr>tp_stateless_reset_token := v\<rparr>))
      else if i = 0x03 then tp_integer v (\<lambda>n. \<not> (n < 1200 \<or> n > 65527)) (\<lambda>n. p\<lparr>tp_max_udp_payload_size := n\<rparr>)
      else if i = 0x04 then tp_integer v (\<lambda>n. True) (\<lambda>n. p\<lparr>tp_initial_max_data := n\<rparr>)
      else if i = 0x05 then tp_integer v (\<lambda>n. True) (\<lambda>n. p\<lparr>tp_max_stream_data_bidi_local := n\<rparr>)
      else if i = 0x06 then tp_integer v (\<lambda>n. True) (\<lambda>n. p\<lparr>tp_max_stream_data_bidi_remote := n\<rparr>)
      else if i = 0x07 then tp_integer v (\<lambda>n. True) (\<lambda>n. p\<lparr>tp_max_stream_data_uni := n\<rparr>)
      else if i = 0x08 then tp_integer v (\<lambda>n. \<not> n > 2 ^ 60) (\<lambda>n. p\<lparr>tp_max_streams_bidi := n\<rparr>)
      else if i = 0x09 then tp_integer v (\<lambda>n. \<not> n > 2 ^ 60) (\<lambda>n. p\<lparr>tp_max_streams_uni := n\<rparr>)
      else if i = 0x0a then tp_integer v (\<lambda>n. \<not> n > 20) (\<lambda>n. p\<lparr>tp_ack_delay_exponent := n\<rparr>)
      else if i = 0x0b then tp_integer v (\<lambda>n. \<not> n \<ge> 2 ^ 14) (\<lambda>n. p\<lparr>tp_max_ack_delay := n\<rparr>)
      else if i = 0x0c then (if length v \<noteq> 0 then Inl STATUS_INVALID_NETWORK_RESPONSE
                             else Inr (p\<lparr>tp_disable_active_migration := True\<rparr>))
      else if i = 0x0d then rbind (tp_parse_preferred_address v) (\<lambda>a. Inr (p\<lparr>tp_preferred_address := a\<rparr>))
      else if i = 0x0e then tp_integer v (\<lambda>n. \<not> n < 2) (\<lambda>n. p\<lparr>tp_active_cid_limit := n\<rparr>)
      else if i = 0x0f then tp_cid v (p\<lparr>tp_initial_scid := v\<rparr>)
      else if i = 0x10 then tp_cid v (p\<lparr>tp_retry_scid := v\<rparr>)
      else Inr p)"

text \<open>One parameter: the identifier is recorded, then checked against the peer's role.\<close>

definition tp_step :: "tp_role \<Rightarrow> nat \<Rightarrow> bytes \<Rightarrow> transport_parameters \<Rightarrow> transport_parameters result" where
  "tp_step role i v p =
     (case tp_seen i p of
        None \<Rightarrow> Inl STATUS_INVALID_NETWORK_RESPONSE
      | Some p1 \<Rightarrow> if tp_server_only i \<and> role \<noteq> TpServer then Inl STATUS_INVALID_NETWORK_RESPONSE
                   else tp_apply i v p1)"

text \<open>
  The loop, on the bytes from \<open>offset\<close> on. The source first compares the length with that of all the
  data, which the second comparison implies.
\<close>

function tp_parse_loop :: "tp_role \<Rightarrow> bytes \<Rightarrow> transport_parameters \<Rightarrow> transport_parameters result" where
  "tp_parse_loop role data p =
     (if data = [] then Inr p
      else case quic_decode_varint data of
        Inl e \<Rightarrow> Inl e
      | Inr (i, n) \<Rightarrow> (case quic_decode_varint (drop n data) of
          Inl e \<Rightarrow> Inl e
        | Inr (len, m) \<Rightarrow>
            let rest = drop m (drop n data)
            in if len > length rest then Inl STATUS_INVALID_NETWORK_RESPONSE
               else (case tp_step role i (take len rest) p of
                       Inl e \<Rightarrow> Inl e
                     | Inr p1 \<Rightarrow> tp_parse_loop role (drop len rest) p1)))"
  by pat_completeness auto

termination
  by (relation "measure (\<lambda>(role, data, p). length data)") (auto dest!: quic_decode_varint_le)

declare tp_parse_loop.simps [simp del]

definition quic_parse_transport_parameters :: "bytes \<Rightarrow> tp_role \<Rightarrow> transport_parameters result" where
  "quic_parse_transport_parameters data role =
     (if length data > WKNET_HARD_MAX_QUIC_TRANSPORT_PARAMETERS_BYTES then Inl STATUS_INVALID_PARAMETER
      else tp_parse_loop role data tp_new)"

section \<open>Encoding\<close>

record client_parameters =
  co_initial_scid :: bytes
  co_max_idle_timeout :: nat
  co_initial_max_data :: nat
  co_max_stream_data_bidi_local :: nat
  co_max_stream_data_bidi_remote :: nat
  co_max_stream_data_uni :: nat
  co_max_streams_bidi :: nat
  co_max_streams_uni :: nat
  co_active_cid_limit :: nat
  co_disable_active_migration :: bool

definition co_new :: client_parameters where
  "co_new = \<lparr>co_initial_scid = [], co_max_idle_timeout = 0, co_initial_max_data = 0,
     co_max_stream_data_bidi_local = 0, co_max_stream_data_bidi_remote = 0, co_max_stream_data_uni = 0,
     co_max_streams_bidi = 0, co_max_streams_uni = 0, co_active_cid_limit = 2, co_disable_active_migration = True\<rparr>"

definition tp_write_parameter :: "nat \<Rightarrow> bytes \<Rightarrow> nat \<Rightarrow> bytes \<Rightarrow> bytes result" where
  "tp_write_parameter i v capacity w =
     rbind (quic_encode_varint i 0 (capacity - length w)) (\<lambda>bs.
       let w1 = w @ bs
       in rbind (quic_encode_varint (length v) 0 (capacity - length w1)) (\<lambda>ls.
            let w2 = w1 @ ls
            in if length v > capacity - length w2 then Inl STATUS_BUFFER_TOO_SMALL else Inr (w2 @ v)))"

definition tp_write_integer :: "nat \<Rightarrow> nat \<Rightarrow> nat \<Rightarrow> bytes \<Rightarrow> bytes result" where
  "tp_write_integer i n capacity w =
     rbind (quic_encode_varint n 0 8) (\<lambda>encoded. tp_write_parameter i encoded capacity w)"

definition tp_write_nonzero :: "nat \<Rightarrow> nat \<Rightarrow> nat \<Rightarrow> bytes \<Rightarrow> bytes result" where
  "tp_write_nonzero i n capacity w = (if n \<noteq> 0 then tp_write_integer i n capacity w else Inr w)"

definition quic_encode_client_parameters_with_limits :: "bool \<Rightarrow> client_parameters \<Rightarrow> nat \<Rightarrow> bytes result" where
  "quic_encode_client_parameters_with_limits alloc_ok c capacity =
     (if length (co_initial_scid c) > QuicMaximumConnectionIdLength
        \<or> co_max_idle_timeout c > QuicVarIntMaximum \<or> co_initial_max_data c > QuicVarIntMaximum
        \<or> co_max_stream_data_bidi_local c > QuicVarIntMaximum
        \<or> co_max_stream_data_bidi_remote c > QuicVarIntMaximum
        \<or> co_max_stream_data_uni c > QuicVarIntMaximum \<or> co_max_streams_bidi c > 2 ^ 60
        \<or> co_max_streams_uni c > 2 ^ 60 \<or> co_active_cid_limit c < 2 \<or> co_active_cid_limit c > QuicVarIntMaximum
      then Inl STATUS_INVALID_PARAMETER
      else if \<not> alloc_ok then Inl STATUS_INSUFFICIENT_RESOURCES
      else rbind (tp_write_integer 0x03 1200 capacity []) (\<lambda>w.
           rbind (tp_write_nonzero 0x01 (co_max_idle_timeout c) capacity w) (\<lambda>w.
           rbind (tp_write_nonzero 0x04 (co_initial_max_data c) capacity w) (\<lambda>w.
           rbind (tp_write_nonzero 0x05 (co_max_stream_data_bidi_local c) capacity w) (\<lambda>w.
           rbind (tp_write_nonzero 0x06 (co_max_stream_data_bidi_remote c) capacity w) (\<lambda>w.
           rbind (tp_write_nonzero 0x07 (co_max_stream_data_uni c) capacity w) (\<lambda>w.
           rbind (tp_write_nonzero 0x08 (co_max_streams_bidi c) capacity w) (\<lambda>w.
           rbind (tp_write_nonzero 0x09 (co_max_streams_uni c) capacity w) (\<lambda>w.
           rbind (tp_write_integer 0x0e (co_active_cid_limit c) capacity w) (\<lambda>w.
           rbind (if co_disable_active_migration c then tp_write_parameter 0x0c [] capacity w else Inr w) (\<lambda>w.
             tp_write_parameter 0x0f (co_initial_scid c) capacity w)))))))))))"

definition quic_encode_client_parameters :: "bool \<Rightarrow> bytes \<Rightarrow> nat \<Rightarrow> bytes result" where
  "quic_encode_client_parameters alloc_ok scid capacity =
     quic_encode_client_parameters_with_limits alloc_ok
       (co_new\<lparr>co_initial_scid := scid, co_disable_active_migration := True\<rparr>) capacity"

section \<open>Round trip\<close>

definition tp_bytes :: "nat \<Rightarrow> bytes \<Rightarrow> bytes" where
  "tp_bytes i v = quic_varint i @ quic_varint (length v) @ v"

definition tp_optional :: "nat \<Rightarrow> nat \<Rightarrow> bytes" where
  "tp_optional i n = (if n \<noteq> 0 then tp_bytes i (quic_varint n) else [])"

lemma encode_varint_Inr_iff [status_simps]:
  "quic_encode_varint v 0 capacity = Inr bs \<longleftrightarrow> v \<le> QuicVarIntMaximum \<and> bs = quic_varint v \<and> length bs \<le> capacity"
proof (cases "v \<le> QuicVarIntMaximum")
  case True
  have "quic_encode_varint v 0 capacity = quic_encode_varint v (quic_varint_encoded_length v) capacity"
    by (simp add: quic_encode_varint_def)
  then show ?thesis
    using True quic_varint_decode(2) [OF True] by (auto simp: quic_encode_varint_shortest_eq)
qed (simp add: quic_encode_varint_def)

lemma write_parameter_Inr_iff [status_simps]:
  "tp_write_parameter i v capacity w = Inr w' \<longleftrightarrow>
     i \<le> QuicVarIntMaximum \<and> length v \<le> QuicVarIntMaximum \<and> w' = w @ tp_bytes i v \<and> length w' \<le> capacity"
proof -
  have pos: "0 < length (quic_varint i)" if "i \<le> QuicVarIntMaximum" for i
    using quic_varint_nonempty [OF that] unfolding length_greater_0_conv .
  show ?thesis
    using pos [of i] pos [of "length v"]
    by (auto simp: tp_write_parameter_def Let_def status_simps tp_bytes_def simp del: length_greater_0_conv)
qed

lemma varint_short: "v \<le> QuicVarIntMaximum \<Longrightarrow> length (quic_varint v) \<le> 8"
  using quic_varint_decode(2) [of v] by (auto simp: quic_varint_encoded_length_def split: if_splits)

lemma write_integer_Inr_iff [status_simps]:
  "tp_write_integer i n capacity w = Inr w' \<longleftrightarrow>
     n \<le> QuicVarIntMaximum \<and> i \<le> QuicVarIntMaximum \<and> w' = w @ tp_bytes i (quic_varint n) \<and> length w' \<le> capacity"
proof -
  have "n \<le> QuicVarIntMaximum \<Longrightarrow> length (quic_varint n) \<le> QuicVarIntMaximum"
    using varint_short [of n] by (simp add: QuicVarIntMaximum_def)
  then show ?thesis using varint_short [of n] by (auto simp: tp_write_integer_def status_simps)
qed

lemma write_nonzero_Inr:
  "tp_write_nonzero i n capacity w = Inr w' \<Longrightarrow> w' = w @ tp_optional i n"
  by (auto simp: tp_write_nonzero_def tp_optional_def status_simps split: if_splits)

lemma parse_loop_parameter:
  assumes "i \<le> QuicVarIntMaximum" "length v \<le> QuicVarIntMaximum"
  shows "tp_parse_loop role (tp_bytes i v @ rest) p = rbind (tp_step role i v p) (tp_parse_loop role rest)"
proof -
  have "tp_bytes i v @ rest \<noteq> []" using quic_varint_nonempty [OF assms(1)] by (simp add: tp_bytes_def)
  then show ?thesis
    using quic_varint_decode(1) [OF assms(1), of "quic_varint (length v) @ v @ rest"]
      quic_varint_decode(1) [OF assms(2), of "v @ rest"]
    by (subst tp_parse_loop.simps) (auto simp: tp_bytes_def Let_def rbind_def split: sum.splits)
qed

lemma decode_single_varint: "n \<le> QuicVarIntMaximum \<Longrightarrow> tp_decode_single (quic_varint n) = Inr n"
  using quic_varint_decode(1) [of n "[]"] by (simp add: tp_decode_single_def)

text \<open>The parameters read so far: identifiers within \<open>S\<close>, at most \<open>k\<close> of them.\<close>

definition tp_room :: "nat set \<Rightarrow> nat \<Rightarrow> transport_parameters \<Rightarrow> bool" where
  "tp_room S k p \<longleftrightarrow> set (tp_observed p) \<subseteq> S \<and> length (tp_observed p) \<le> k"

lemma step_fresh:
  assumes "tp_room S k p" "i \<notin> S" "k < QuicMaximumTransportParameterCount" "\<not> tp_server_only i"
  shows "tp_step role i v p = tp_apply i v (p\<lparr>tp_observed := tp_observed p @ [i]\<rparr>)"
  using assms by (auto simp: tp_step_def tp_seen_def tp_room_def)

lemma apply_integers:
  assumes "n \<le> QuicVarIntMaximum"
  shows "tp_apply 1 (quic_varint n) p = Inr (p\<lparr>tp_max_idle_timeout := n\<rparr>)"
    "tp_apply 3 (quic_varint n) p = (if n < 1200 \<or> n > 65527 then Inl STATUS_INVALID_NETWORK_RESPONSE
       else Inr (p\<lparr>tp_max_udp_payload_size := n\<rparr>))"
    "tp_apply 4 (quic_varint n) p = Inr (p\<lparr>tp_initial_max_data := n\<rparr>)"
    "tp_apply 5 (quic_varint n) p = Inr (p\<lparr>tp_max_stream_data_bidi_local := n\<rparr>)"
    "tp_apply 6 (quic_varint n) p = Inr (p\<lparr>tp_max_stream_data_bidi_remote := n\<rparr>)"
    "tp_apply 7 (quic_varint n) p = Inr (p\<lparr>tp_max_stream_data_uni := n\<rparr>)"
    "n \<le> 2 ^ 60 \<Longrightarrow> tp_apply 8 (quic_varint n) p = Inr (p\<lparr>tp_max_streams_bidi := n\<rparr>)"
    "n \<le> 2 ^ 60 \<Longrightarrow> tp_apply 9 (quic_varint n) p = Inr (p\<lparr>tp_max_streams_uni := n\<rparr>)"
    "2 \<le> n \<Longrightarrow> tp_apply 14 (quic_varint n) p = Inr (p\<lparr>tp_active_cid_limit := n\<rparr>)"
  using assms by (simp_all add: tp_apply_def tp_integer_def decode_single_varint)

lemma parse_required:
  assumes "i \<le> 63" "length v \<le> 63" "tp_room S k p" "i \<notin> S" "k < QuicMaximumTransportParameterCount"
    "\<not> tp_server_only i"
  shows "tp_parse_loop role (tp_bytes i v @ rest) p
    = rbind (tp_apply i v (p\<lparr>tp_observed := tp_observed p @ [i]\<rparr>)) (tp_parse_loop role rest)"
  using step_fresh [OF assms(3-6)] assms(1,2)
  by (subst parse_loop_parameter) (simp_all add: QuicVarIntMaximum_def)

text \<open>A run of optional integer parameters, each with its identifier, value and effect.\<close>

type_synonym tp_field = "nat \<times> nat \<times> (transport_parameters \<Rightarrow> transport_parameters)"

definition tp_field_ok :: "tp_field \<Rightarrow> bool" where
  "tp_field_ok = (\<lambda>(i, n, upd). i \<le> 63 \<and> n \<le> QuicVarIntMaximum \<and> \<not> tp_server_only i
     \<and> (\<forall>p. tp_apply i (quic_varint n) p = Inr (upd p))
     \<and> (\<forall>p os. upd (p\<lparr>tp_observed := os\<rparr>) = (upd p)\<lparr>tp_observed := os\<rparr>))"

definition tp_field_effect :: "tp_field \<Rightarrow> transport_parameters \<Rightarrow> transport_parameters" where
  "tp_field_effect = (\<lambda>(i, n, upd) p. if n \<noteq> 0 then upd p else p)"

lemma tp_field_effect_observed:
  "tp_field_ok x \<Longrightarrow> tp_field_effect x (p\<lparr>tp_observed := os\<rparr>) = (tp_field_effect x p)\<lparr>tp_observed := os\<rparr>"
  by (cases x) (simp add: tp_field_ok_def tp_field_effect_def)

lemma parse_optionals:
  assumes "list_all tp_field_ok xs" "distinct (map fst xs)" "S \<inter> set (map fst xs) = {}"
    "k + length xs < QuicMaximumTransportParameterCount" "set os \<subseteq> S" "length os \<le> k"
  shows "\<exists>os'. set os' \<subseteq> S \<union> set (map fst xs) \<and> length os' \<le> k + length xs
    \<and> (\<forall>rest. tp_parse_loop role (concat (map (\<lambda>(i, n, upd). tp_optional i n) xs) @ rest) (p\<lparr>tp_observed := os\<rparr>)
        = tp_parse_loop role rest ((fold tp_field_effect xs p)\<lparr>tp_observed := os'\<rparr>))"
  using assms
proof (induction xs arbitrary: S k os p)
  case Nil
  then show ?case by auto
next
  case (Cons x xs)
  obtain i n upd where x: "x = (i, n, upd)" by (metis prod_cases3)
  have ok: "i \<le> 63" "n \<le> QuicVarIntMaximum" "\<not> tp_server_only i" "tp_apply i (quic_varint n) q = Inr (upd q)"
      "upd (q\<lparr>tp_observed := us\<rparr>) = (upd q)\<lparr>tp_observed := us\<rparr>" for q us
    using Cons.prems(1) by (auto simp: x tp_field_ok_def)
  define os1 where "os1 = (if n \<noteq> 0 then os @ [i] else os)"
  have step: "tp_parse_loop role (tp_optional i n @ rest) (p\<lparr>tp_observed := os\<rparr>)
      = tp_parse_loop role rest ((tp_field_effect x p)\<lparr>tp_observed := os1\<rparr>)" for rest
  proof (cases "n = 0")
    case False
    have "tp_room S k (p\<lparr>tp_observed := os\<rparr>)" using Cons.prems(5,6) by (simp add: tp_room_def)
    with parse_required [of i "quic_varint n" S k "p\<lparr>tp_observed := os\<rparr>" role rest] False ok varint_short [of n]
    show ?thesis
      using Cons.prems(3,4) by (simp add: x tp_optional_def tp_field_effect_def os1_def)
  qed (simp add: x tp_optional_def tp_field_effect_def os1_def)
  have "\<exists>os'. set os' \<subseteq> insert i S \<union> set (map fst xs) \<and> length os' \<le> Suc k + length xs
    \<and> (\<forall>rest. tp_parse_loop role (concat (map (\<lambda>(i, n, upd). tp_optional i n) xs) @ rest) ((tp_field_effect x p)\<lparr>tp_observed := os1\<rparr>)
        = tp_parse_loop role rest ((fold tp_field_effect xs (tp_field_effect x p))\<lparr>tp_observed := os'\<rparr>))"
    by (rule Cons.IH) (use Cons.prems in \<open>auto simp: x os1_def\<close>)
  then show ?case by (simp add: x step [unfolded x])
qed

text \<open>What the client encodes, as a list of bytes.\<close>

definition client_optionals :: "client_parameters \<Rightarrow> tp_field list" where
  "client_optionals c = [(1, co_max_idle_timeout c, \<lambda>p. p\<lparr>tp_max_idle_timeout := co_max_idle_timeout c\<rparr>),
     (4, co_initial_max_data c, \<lambda>p. p\<lparr>tp_initial_max_data := co_initial_max_data c\<rparr>),
     (5, co_max_stream_data_bidi_local c, \<lambda>p. p\<lparr>tp_max_stream_data_bidi_local := co_max_stream_data_bidi_local c\<rparr>),
     (6, co_max_stream_data_bidi_remote c, \<lambda>p. p\<lparr>tp_max_stream_data_bidi_remote := co_max_stream_data_bidi_remote c\<rparr>),
     (7, co_max_stream_data_uni c, \<lambda>p. p\<lparr>tp_max_stream_data_uni := co_max_stream_data_uni c\<rparr>),
     (8, co_max_streams_bidi c, \<lambda>p. p\<lparr>tp_max_streams_bidi := co_max_streams_bidi c\<rparr>),
     (9, co_max_streams_uni c, \<lambda>p. p\<lparr>tp_max_streams_uni := co_max_streams_uni c\<rparr>)]"

definition client_bytes :: "client_parameters \<Rightarrow> bytes" where
  "client_bytes c = tp_bytes 3 (quic_varint 1200) @ concat (map (\<lambda>(i, n, upd). tp_optional i n) (client_optionals c))
     @ tp_bytes 14 (quic_varint (co_active_cid_limit c))
     @ (if co_disable_active_migration c then tp_bytes 12 [] else []) @ tp_bytes 15 (co_initial_scid c)"

definition client_ok :: "client_parameters \<Rightarrow> bool" where
  "client_ok c \<longleftrightarrow> length (co_initial_scid c) \<le> 20 \<and> co_max_idle_timeout c \<le> QuicVarIntMaximum
     \<and> co_initial_max_data c \<le> QuicVarIntMaximum \<and> co_max_stream_data_bidi_local c \<le> QuicVarIntMaximum
     \<and> co_max_stream_data_bidi_remote c \<le> QuicVarIntMaximum \<and> co_max_stream_data_uni c \<le> QuicVarIntMaximum
     \<and> co_max_streams_bidi c \<le> 2 ^ 60 \<and> co_max_streams_uni c \<le> 2 ^ 60 \<and> 2 \<le> co_active_cid_limit c
     \<and> co_active_cid_limit c \<le> QuicVarIntMaximum"

lemma encode_client_Inr:
  assumes "quic_encode_client_parameters_with_limits alloc_ok c capacity = Inr w"
  shows "client_ok c \<and> w = client_bytes c \<and> length w \<le> capacity"
  using assms
  by (auto simp: quic_encode_client_parameters_with_limits_def client_ok_def client_bytes_def client_optionals_def status_simps
      QuicMaximumConnectionIdLength_def not_less split: if_splits dest!: write_nonzero_Inr)

lemma tp_bytes_length: "i \<le> 63 \<Longrightarrow> length v \<le> 63 \<Longrightarrow> length (tp_bytes i v) = 2 + length v"
  using quic_varint_decode(2) [of i] quic_varint_decode(2) [of "length v"]
  by (simp add: tp_bytes_def QuicVarIntMaximum_def quic_varint_encoded_length_def)

lemma tp_optional_length: "i \<le> 63 \<Longrightarrow> n \<le> QuicVarIntMaximum \<Longrightarrow> length (tp_optional i n) \<le> 10"
  using varint_short [of n] by (auto simp: tp_optional_def tp_bytes_length)

lemma client_bytes_length:
  assumes "client_ok c"
  shows "length (client_bytes c) \<le> 122"
proof -
  note c = assms [unfolded client_ok_def]
  have m: "(2::nat) ^ 60 \<le> QuicVarIntMaximum" "1200 \<le> QuicVarIntMaximum" by (simp_all add: QuicVarIntMaximum_def)
  have "length (tp_bytes 3 (quic_varint 1200)) \<le> 10" "length (tp_bytes 14 (quic_varint (co_active_cid_limit c))) \<le> 10"
      "length (tp_bytes 15 (co_initial_scid c)) \<le> 22" "length (tp_bytes 12 []) = 2"
    using varint_short [of "co_active_cid_limit c"] varint_short [of 1200] c m by (simp_all add: tp_bytes_length)
  moreover have "length (tp_optional 1 (co_max_idle_timeout c)) \<le> 10" "length (tp_optional 4 (co_initial_max_data c)) \<le> 10"
      "length (tp_optional 5 (co_max_stream_data_bidi_local c)) \<le> 10" "length (tp_optional 6 (co_max_stream_data_bidi_remote c)) \<le> 10"
      "length (tp_optional 7 (co_max_stream_data_uni c)) \<le> 10" "length (tp_optional 8 (co_max_streams_bidi c)) \<le> 10"
      "length (tp_optional 9 (co_max_streams_uni c)) \<le> 10"
    using c m by (simp_all add: tp_optional_length)
  ultimately show ?thesis by (auto simp: client_bytes_def client_optionals_def split: if_splits)
qed

lemma client_optionals_ok: "client_ok c \<Longrightarrow> list_all tp_field_ok (client_optionals c)"
proof -
  assume c: "client_ok c"
  have "(2::nat) ^ 60 \<le> QuicVarIntMaximum" by (simp add: QuicVarIntMaximum_def)
  with c show ?thesis
    by (auto simp: client_optionals_def tp_field_ok_def tp_server_only_def client_ok_def apply_integers
        simp del: One_nat_def)
qed

lemma tp_field_effect_always: "(n = 0 \<Longrightarrow> upd p = p) \<Longrightarrow> tp_field_effect (i, n, upd) p = upd p"
  by (auto simp: tp_field_effect_def)

lemma zero_updates:
  "tp_max_idle_timeout p = 0 \<Longrightarrow> p\<lparr>tp_max_idle_timeout := 0\<rparr> = p"
  "tp_initial_max_data p = 0 \<Longrightarrow> p\<lparr>tp_initial_max_data := 0\<rparr> = p"
  "tp_max_stream_data_bidi_local p = 0 \<Longrightarrow> p\<lparr>tp_max_stream_data_bidi_local := 0\<rparr> = p"
  "tp_max_stream_data_bidi_remote p = 0 \<Longrightarrow> p\<lparr>tp_max_stream_data_bidi_remote := 0\<rparr> = p"
  "tp_max_stream_data_uni p = 0 \<Longrightarrow> p\<lparr>tp_max_stream_data_uni := 0\<rparr> = p"
  "tp_max_streams_bidi p = 0 \<Longrightarrow> p\<lparr>tp_max_streams_bidi := 0\<rparr> = p"
  "tp_max_streams_uni p = 0 \<Longrightarrow> p\<lparr>tp_max_streams_uni := 0\<rparr> = p"
  by (cases p; simp)+

lemma client_optionals_effect:
  assumes "tp_max_idle_timeout p = 0" "tp_initial_max_data p = 0" "tp_max_stream_data_bidi_local p = 0"
    "tp_max_stream_data_bidi_remote p = 0" "tp_max_stream_data_uni p = 0" "tp_max_streams_bidi p = 0"
    "tp_max_streams_uni p = 0"
  shows "fold tp_field_effect (client_optionals c) p = p\<lparr>tp_max_idle_timeout := co_max_idle_timeout c,
        tp_initial_max_data := co_initial_max_data c,
        tp_max_stream_data_bidi_local := co_max_stream_data_bidi_local c,
        tp_max_stream_data_bidi_remote := co_max_stream_data_bidi_remote c,
        tp_max_stream_data_uni := co_max_stream_data_uni c, tp_max_streams_bidi := co_max_streams_bidi c,
        tp_max_streams_uni := co_max_streams_uni c\<rparr>"
  using assms by (simp add: client_optionals_def tp_field_effect_always zero_updates)

lemma client_parameters_read:
  assumes "client_ok c"
  shows "\<exists>os. tp_parse_loop role (client_bytes c) tp_new = Inr (tp_new\<lparr>tp_max_udp_payload_size := 1200,
        tp_max_idle_timeout := co_max_idle_timeout c, tp_initial_max_data := co_initial_max_data c,
        tp_max_stream_data_bidi_local := co_max_stream_data_bidi_local c,
        tp_max_stream_data_bidi_remote := co_max_stream_data_bidi_remote c,
        tp_max_stream_data_uni := co_max_stream_data_uni c, tp_max_streams_bidi := co_max_streams_bidi c,
        tp_max_streams_uni := co_max_streams_uni c, tp_active_cid_limit := co_active_cid_limit c,
        tp_disable_active_migration := co_disable_active_migration c, tp_initial_scid := co_initial_scid c,
        tp_observed := os\<rparr>)"
proof -
  note c = assms [unfolded client_ok_def]
  note simps = tp_room_def tp_server_only_def QuicMaximumTransportParameterCount_def
  let ?run = "tp_parse_loop role"
  let ?opt = "concat (map (\<lambda>(i, n, upd). tp_optional i n) (client_optionals c))"
  define p1 where "p1 = tp_new\<lparr>tp_max_udp_payload_size := 1200, tp_observed := [3]\<rparr>"
  have r1: "?run (tp_bytes 3 (quic_varint 1200) @ rest) tp_new = ?run rest (p1\<lparr>tp_observed := [3]\<rparr>)" for rest
    using varint_short [of 1200] parse_required [of 3 "quic_varint 1200" "{}" 0 tp_new role rest]
    by (simp add: simps apply_integers QuicVarIntMaximum_def p1_def tp_new_def)
  define p2 where "p2 = fold tp_field_effect (client_optionals c) p1"
  obtain os where os: "set os \<subseteq> {3} \<union> set (map fst (client_optionals c))" "length os \<le> 8"
      "?run (?opt @ rest) (p1\<lparr>tp_observed := [3]\<rparr>) = ?run rest (p2\<lparr>tp_observed := os\<rparr>)" for rest
    using parse_optionals [OF client_optionals_ok [OF assms], of "{3}" 1 "[3]" role p1]
    by (auto simp: client_optionals_def QuicMaximumTransportParameterCount_def p2_def)
  have ids: "14 \<notin> set os" "12 \<notin> set os" "15 \<notin> set os" using os(1) by (auto simp: client_optionals_def)
  define p3 where "p3 = p2\<lparr>tp_active_cid_limit := co_active_cid_limit c\<rparr>"
  have e3: "p2\<lparr>tp_observed := us, tp_active_cid_limit := co_active_cid_limit c\<rparr> = p3\<lparr>tp_observed := us\<rparr>" for us
    by (simp add: p3_def)
  have r3: "?run (tp_bytes 14 (quic_varint (co_active_cid_limit c)) @ rest) (p2\<lparr>tp_observed := os\<rparr>)
      = ?run rest (p3\<lparr>tp_observed := os @ [14]\<rparr>)" for rest
    using c varint_short [of "co_active_cid_limit c"] ids os(2)
      parse_required [of 14 "quic_varint (co_active_cid_limit c)" "set os" 8 "p2\<lparr>tp_observed := os\<rparr>" role rest]
    by (simp add: simps apply_integers e3)
  define os4 where "os4 = (if co_disable_active_migration c then os @ [14, 12] else os @ [14])"
  define p4 where "p4 = p3\<lparr>tp_disable_active_migration := co_disable_active_migration c\<rparr>"
  have e4: "p3\<lparr>tp_observed := us, tp_disable_active_migration := True\<rparr> = p4\<lparr>tp_observed := us\<rparr>"
    if "co_disable_active_migration c" for us using that by (simp add: p4_def)
  have p3: "tp_disable_active_migration p3 = False"
    by (simp add: p3_def p2_def client_optionals_def tp_field_effect_def p1_def tp_new_def)
  then have e5: "p4 = p3" if "\<not> co_disable_active_migration c"
    using that by (intro transport_parameters.equality) (simp_all add: p4_def)
  have r4: "?run ((if co_disable_active_migration c then tp_bytes 12 [] else []) @ rest) (p3\<lparr>tp_observed := os @ [14]\<rparr>)
      = ?run rest (p4\<lparr>tp_observed := os4\<rparr>)" for rest
    using ids os(2) p3 parse_required [of 12 "[]" "set os \<union> {14}" 9 "p3\<lparr>tp_observed := os @ [14]\<rparr>" role rest]
    by (cases "co_disable_active_migration c") (simp_all add: simps tp_apply_def os4_def e4 e5)
  have r5: "?run (tp_bytes 15 (co_initial_scid c)) (p4\<lparr>tp_observed := os4\<rparr>)
      = Inr (p4\<lparr>tp_observed := os4 @ [15], tp_initial_scid := co_initial_scid c\<rparr>)"
  proof -
    have "tp_room (set os \<union> {14, 12}) 10 (p4\<lparr>tp_observed := os4\<rparr>)"
      using os(2) by (auto simp: tp_room_def os4_def)
    from parse_required [OF _ _ this, of 15 "co_initial_scid c" role "[]"] show ?thesis
      using c ids(3)
      by (simp add: simps tp_apply_def tp_cid_def QuicMaximumConnectionIdLength_def tp_parse_loop.simps [of _ "[]"])
  qed
  show ?thesis
    unfolding client_bytes_def append.assoc r1 os(3) r3 r4 r5
    by (intro exI [of _ "os4 @ [15]"])
      (simp add: p4_def p3_def p2_def client_optionals_effect p1_def tp_new_def)
qed

lemma client_parameters_parse:
  assumes "quic_encode_client_parameters_with_limits alloc_ok c capacity = Inr w"
  shows "length w \<le> capacity \<and> (\<exists>os. quic_parse_transport_parameters w role
    = Inr (tp_new\<lparr>tp_max_udp_payload_size := 1200,
        tp_max_idle_timeout := co_max_idle_timeout c, tp_initial_max_data := co_initial_max_data c,
        tp_max_stream_data_bidi_local := co_max_stream_data_bidi_local c,
        tp_max_stream_data_bidi_remote := co_max_stream_data_bidi_remote c,
        tp_max_stream_data_uni := co_max_stream_data_uni c, tp_max_streams_bidi := co_max_streams_bidi c,
        tp_max_streams_uni := co_max_streams_uni c, tp_active_cid_limit := co_active_cid_limit c,
        tp_disable_active_migration := co_disable_active_migration c, tp_initial_scid := co_initial_scid c,
        tp_observed := os\<rparr>))"
proof -
  have "client_ok c" "w = client_bytes c" "length w \<le> capacity"
    using encode_client_Inr [OF assms] by auto
  with client_parameters_read [of c role] client_bytes_length [of c] show ?thesis
    by (simp add: quic_parse_transport_parameters_def WKNET_HARD_MAX_QUIC_TRANSPORT_PARAMETERS_BYTES_def)
qed

text \<open>
  C38. Whatever options the client encoder accepts, the bytes it writes fit the output and parse, in
  either role, to parameters that hold exactly the options: the values that were left out are the
  defaults the options have there, the payload size is 1200, and everything else is the default.
\<close>

theorem client_parameters_roundtrip:
  assumes "quic_encode_client_parameters_with_limits alloc_ok c capacity = Inr w"
  shows "length w \<le> capacity \<and> (\<exists>os. quic_parse_transport_parameters w role
    = Inr (tp_new\<lparr>tp_max_udp_payload_size := 1200,
        tp_max_idle_timeout := co_max_idle_timeout c, tp_initial_max_data := co_initial_max_data c,
        tp_max_stream_data_bidi_local := co_max_stream_data_bidi_local c,
        tp_max_stream_data_bidi_remote := co_max_stream_data_bidi_remote c,
        tp_max_stream_data_uni := co_max_stream_data_uni c, tp_max_streams_bidi := co_max_streams_bidi c,
        tp_max_streams_uni := co_max_streams_uni c, tp_active_cid_limit := co_active_cid_limit c,
        tp_disable_active_migration := co_disable_active_migration c, tp_initial_scid := co_initial_scid c,
        tp_observed := os\<rparr>))"
  by (rule client_parameters_parse [OF assms])

lemma client_parameters_roundtrip_witness:
  "\<exists>p. quic_parse_transport_parameters [3, 2, 0x44, 0xb0, 0x04, 1, 9, 14, 1, 2, 15, 1, 7] TpServer = Inr p
    \<and> tp_initial_max_data p = 9 \<and> tp_initial_scid p = [7]"
proof -
  let ?c = "co_new\<lparr>co_initial_scid := [7], co_initial_max_data := 9, co_disable_active_migration := False\<rparr>"
  have "quic_encode_client_parameters_with_limits True ?c 100 = Inr [3, 2, 0x44, 0xb0, 0x04, 1, 9, 14, 1, 2, 15, 1, 7]"
    by (simp add: quic_encode_client_parameters_with_limits_def co_new_def tp_write_integer_def tp_write_nonzero_def
        tp_write_parameter_def quic_encode_varint_def quic_varint_encoded_length_def QuicVarIntMaximum_def
        QuicMaximumConnectionIdLength_def codec_simps flip: numeral_2_eq_2 numeral_3_eq_3)
      (simp add: uchar_def)
  from client_parameters_roundtrip [OF this, of TpServer] show ?thesis by auto
qed

section \<open>What is accepted\<close>

definition tp_ok :: "tp_role \<Rightarrow> transport_parameters \<Rightarrow> bool" where
  "tp_ok role p \<longleftrightarrow> distinct (tp_observed p) \<and> length (tp_observed p) \<le> QuicMaximumTransportParameterCount
     \<and> length (tp_original_dcid p) \<le> QuicMaximumConnectionIdLength
     \<and> length (tp_initial_scid p) \<le> QuicMaximumConnectionIdLength
     \<and> length (tp_retry_scid p) \<le> QuicMaximumConnectionIdLength
     \<and> tp_stateless_reset_token p \<in> {t. length t = 0 \<or> length t = 16}
     \<and> 1200 \<le> tp_max_udp_payload_size p \<and> tp_max_udp_payload_size p \<le> 65527
     \<and> tp_max_idle_timeout p \<le> QuicVarIntMaximum \<and> tp_initial_max_data p \<le> QuicVarIntMaximum
     \<and> tp_max_stream_data_bidi_local p \<le> QuicVarIntMaximum
     \<and> tp_max_stream_data_bidi_remote p \<le> QuicVarIntMaximum
     \<and> tp_max_stream_data_uni p \<le> QuicVarIntMaximum
     \<and> tp_max_streams_bidi p \<le> 2 ^ 60 \<and> tp_max_streams_uni p \<le> 2 ^ 60
     \<and> tp_ack_delay_exponent p \<le> 20 \<and> tp_max_ack_delay p < 2 ^ 14
     \<and> 2 \<le> tp_active_cid_limit p
     \<and> length (pa_cid (tp_preferred_address p)) \<le> QuicMaximumConnectionIdLength
     \<and> length (pa_ipv4 (tp_preferred_address p)) = 4 \<and> length (pa_ipv6 (tp_preferred_address p)) = 16
     \<and> length (pa_token (tp_preferred_address p)) = 16
     \<and> (role \<noteq> TpServer \<longrightarrow> tp_original_dcid p = [] \<and> tp_stateless_reset_token p = [] \<and> tp_retry_scid p = []
          \<and> \<not> pa_present (tp_preferred_address p))"

lemma tp_integer_Inr:
  "tp_integer v good f = Inr q \<Longrightarrow> \<exists>n \<le> QuicVarIntMaximum. good n \<and> q = f n"
  by (auto simp: tp_integer_def tp_decode_single_def status_simps dest!: quic_decode_varint_le split: if_splits)

lemma tp_ok_updates:
  assumes "tp_ok role p"
  shows "length v \<le> QuicMaximumConnectionIdLength \<Longrightarrow> role = TpServer \<Longrightarrow> tp_ok role (p\<lparr>tp_original_dcid := v\<rparr>)"
    "length v \<le> QuicMaximumConnectionIdLength \<Longrightarrow> role = TpServer \<Longrightarrow> tp_ok role (p\<lparr>tp_retry_scid := v\<rparr>)"
    "length v \<le> QuicMaximumConnectionIdLength \<Longrightarrow> tp_ok role (p\<lparr>tp_initial_scid := v\<rparr>)"
    "length v = 16 \<Longrightarrow> role = TpServer \<Longrightarrow> tp_ok role (p\<lparr>tp_stateless_reset_token := v\<rparr>)"
    "n \<le> QuicVarIntMaximum \<Longrightarrow> tp_ok role (p\<lparr>tp_max_idle_timeout := n\<rparr>)"
    "1200 \<le> n \<Longrightarrow> n \<le> 65527 \<Longrightarrow> tp_ok role (p\<lparr>tp_max_udp_payload_size := n\<rparr>)"
    "n \<le> QuicVarIntMaximum \<Longrightarrow> tp_ok role (p\<lparr>tp_initial_max_data := n\<rparr>)"
    "n \<le> QuicVarIntMaximum \<Longrightarrow> tp_ok role (p\<lparr>tp_max_stream_data_bidi_local := n\<rparr>)"
    "n \<le> QuicVarIntMaximum \<Longrightarrow> tp_ok role (p\<lparr>tp_max_stream_data_bidi_remote := n\<rparr>)"
    "n \<le> QuicVarIntMaximum \<Longrightarrow> tp_ok role (p\<lparr>tp_max_stream_data_uni := n\<rparr>)"
    "n \<le> 2 ^ 60 \<Longrightarrow> tp_ok role (p\<lparr>tp_max_streams_bidi := n\<rparr>)"
    "n \<le> 2 ^ 60 \<Longrightarrow> tp_ok role (p\<lparr>tp_max_streams_uni := n\<rparr>)"
    "n \<le> 20 \<Longrightarrow> tp_ok role (p\<lparr>tp_ack_delay_exponent := n\<rparr>)"
    "n < 2 ^ 14 \<Longrightarrow> tp_ok role (p\<lparr>tp_max_ack_delay := n\<rparr>)"
    "tp_ok role (p\<lparr>tp_disable_active_migration := b\<rparr>)"
    "2 \<le> n \<Longrightarrow> tp_ok role (p\<lparr>tp_active_cid_limit := n\<rparr>)"
    "length (pa_cid a) \<le> QuicMaximumConnectionIdLength \<Longrightarrow> length (pa_ipv4 a) = 4 \<Longrightarrow> length (pa_ipv6 a) = 16
      \<Longrightarrow> length (pa_token a) = 16 \<Longrightarrow> role = TpServer \<Longrightarrow> tp_ok role (p\<lparr>tp_preferred_address := a\<rparr>)"
    "i \<notin> set (tp_observed p) \<Longrightarrow> length (tp_observed p) < QuicMaximumTransportParameterCount
      \<Longrightarrow> tp_ok role (p\<lparr>tp_observed := tp_observed p @ [i]\<rparr>)"
  using assms by (simp_all add: tp_ok_def)

lemma preferred_address_ok:
  "tp_parse_preferred_address v = Inr a \<Longrightarrow> length (pa_cid a) \<le> QuicMaximumConnectionIdLength
     \<and> length (pa_ipv4 a) = 4 \<and> length (pa_ipv6 a) = 16 \<and> length (pa_token a) = 16"
  by (auto simp: tp_parse_preferred_address_def Let_def view_def split: if_splits)

lemma tp_apply_ok:
  assumes "tp_apply i v p = Inr q" "tp_ok role p" "tp_server_only i \<Longrightarrow> role = TpServer"
  shows "tp_ok role q"
  using assms
  by (auto simp: tp_apply_def tp_cid_def tp_server_only_def status_simps tp_ok_updates not_less
      split: if_splits dest!: tp_integer_Inr preferred_address_ok)

lemma tp_step_ok: "tp_step role i v p = Inr q \<Longrightarrow> tp_ok role p \<Longrightarrow> tp_ok role q"
  by (rule tp_apply_ok [where p = "p\<lparr>tp_observed := tp_observed p @ [i]\<rparr>"])
    (auto simp: tp_step_def tp_seen_def tp_ok_updates not_le split: if_splits option.splits)

lemma tp_parse_loop_ok: "tp_parse_loop role data p = Inr q \<Longrightarrow> tp_ok role p \<Longrightarrow> tp_ok role q"
proof (induction role data p rule: tp_parse_loop.induct)
  case (1 role data p)
  show ?case
  proof (cases "data = []")
    case True
    with 1(2,3) show ?thesis by (simp add: tp_parse_loop.simps)
  next
    case False
    obtain i n len m p1 where s: "quic_decode_varint data = Inr (i, n)" "quic_decode_varint (drop n data) = Inr (len, m)"
        "\<not> len > length (drop m (drop n data))" "tp_step role i (take len (drop m (drop n data))) p = Inr p1"
        "tp_parse_loop role (drop len (drop m (drop n data))) p1 = Inr q"
      using 1(2) False
      by (subst (asm) tp_parse_loop.simps) (auto simp: Let_def split: sum.splits if_splits)
    from 1(1) [OF False s(1) refl s(2) refl refl s(3,4) s(5) tp_step_ok [OF s(4) 1(3)]] show ?thesis .
  qed
qed

text \<open>
  Parameters that were accepted, from whatever bytes, are within the limits of the protocol: no
  identifier twice, connection identifiers of at most 20 bytes, a token of 16 bytes, every integer in
  its range, and nothing that only a server may send when the peer is a client.
\<close>

theorem accepted_parameters_valid:
  assumes "quic_parse_transport_parameters data role = Inr p"
  shows "tp_ok role p"
proof -
  have "tp_ok role tp_new"
    by (simp add: tp_ok_def tp_new_def QuicVarIntMaximum_def)
  with assms show ?thesis
    by (auto simp: quic_parse_transport_parameters_def split: if_splits dest!: tp_parse_loop_ok)
qed

lemma accepted_parameters_valid_witness:
  "\<exists>p. quic_parse_transport_parameters [1, 1, 5] TpClient = Inr p \<and> tp_ok TpClient p"
proof -
  have "\<exists>p. quic_parse_transport_parameters [1, 1, 5] TpClient = Inr p"
    by (simp add: quic_parse_transport_parameters_def WKNET_HARD_MAX_QUIC_TRANSPORT_PARAMETERS_BYTES_def
        tp_parse_loop.simps quic_decode_varint_def Let_def drop_bit_eq_div tp_step_def tp_seen_def tp_new_def
        QuicMaximumTransportParameterCount_def tp_server_only_def tp_apply_def tp_integer_def tp_decode_single_def)
  with accepted_parameters_valid [of "[1, 1, 5]" TpClient] show ?thesis by blast
qed

end
