(* ===== verification/QuicAttemptValidation.thy ===== *)
theory QuicAttemptValidation
  imports QuicPacket
begin

text \<open>
  What a client accepts before its first handshake packet, \<open>src/wknetlib/quic/QuicAttemptValidation.cpp\<close>:
  one Version Negotiation packet or one Retry. The integrity check of a Retry
  (\<open>QuicValidateRetryIntegrityTag\<close>, AES-GCM of a provider) is the parameter \<open>tag_status\<close>, a function of
  the original connection identifier and the packet. The lemmas show that over any sequence of
  packets at most one is accepted, and what an accepted one satisfies.
\<close>

definition QuicMaximumRetryTokenLength :: nat where
  "QuicMaximumRetryTokenLength = 1024"

record attempt_validation =
  av_version :: nat
  av_odcid :: bytes
  av_client_scid :: bytes
  av_retry_scid :: bytes
  av_retry_token :: bytes
  av_initialized :: bool
  av_retry_accepted :: bool
  av_vn_accepted :: bool

definition av_reset :: attempt_validation where
  "av_reset = \<lparr>av_version = 0, av_odcid = [], av_client_scid = [], av_retry_scid = [], av_retry_token = [],
     av_initialized = False, av_retry_accepted = False, av_vn_accepted = False\<rparr>"

definition av_initialize :: "nat \<Rightarrow> bytes \<Rightarrow> bytes \<Rightarrow> ntstatus \<times> attempt_validation" where
  "av_initialize version odcid scid =
     (if version = 0 \<or> odcid = [] \<or> length odcid > QuicMaximumConnectionIdLength
        \<or> length scid > QuicMaximumConnectionIdLength
      then (STATUS_INVALID_PARAMETER, av_reset)
      else (STATUS_SUCCESS, av_reset\<lparr>av_version := version, av_odcid := odcid, av_client_scid := scid,
              av_initialized := True\<rparr>))"

text \<open>
  The inner loop over the supported versions and the outer loop over the offered ones; \<open>None\<close> is the
  exit with \<open>STATUS_INVALID_NETWORK_RESPONSE\<close>. The packet parser leaves version lists whose length is
  a multiple of four.
\<close>

fun av_select :: "nat \<Rightarrow> nat \<Rightarrow> nat list \<Rightarrow> nat \<Rightarrow> nat" where
  "av_select original offered [] selected = selected"
| "av_select original offered (v # vs) selected =
     av_select original offered vs (if v = offered \<and> offered \<noteq> original then offered else selected)"

fun av_version_loop :: "nat \<Rightarrow> nat list \<Rightarrow> bytes \<Rightarrow> nat \<Rightarrow> nat option" where
  "av_version_loop original supported (a # b # c # d # rest) selected =
     (let offered = read_be32 [a, b, c, d] 0
      in if offered = original then None
         else av_version_loop original supported rest (av_select original offered supported selected))"
| "av_version_loop original supported _ selected = Some selected"

text \<open>The result is the status, \<open>*selectedVersion\<close> and the object.\<close>

definition av_validate_version_negotiation ::
    "packet_header \<Rightarrow> nat list \<Rightarrow> attempt_validation \<Rightarrow> ntstatus \<times> nat \<times> attempt_validation" where
  "av_validate_version_negotiation packet supported v =
     (if \<not> av_initialized v \<or> ph_type packet \<noteq> PtVersionNegotiation \<or> av_retry_accepted v \<or> av_vn_accepted v
        \<or> supported = [] \<or> ph_dcid packet \<noteq> av_client_scid v \<or> ph_scid packet \<noteq> av_odcid v
      then (STATUS_INVALID_NETWORK_RESPONSE, 0, v)
      else case av_version_loop (av_version v) supported (ph_version_list packet) 0 of
             None \<Rightarrow> (STATUS_INVALID_NETWORK_RESPONSE, 0, v)
           | Some selected \<Rightarrow>
               ((if selected \<noteq> 0 then STATUS_SUCCESS else STATUS_NOT_SUPPORTED), selected,
                v\<lparr>av_vn_accepted := True\<rparr>))"

definition av_validate_retry ::
    "(bytes \<Rightarrow> bytes \<Rightarrow> ntstatus) \<Rightarrow> bool \<Rightarrow> packet_header \<Rightarrow> bytes \<Rightarrow> attempt_validation
      \<Rightarrow> ntstatus \<times> attempt_validation" where
  "av_validate_retry tag_status alloc_ok packet packetBytes v =
     (if \<not> av_initialized v \<or> ph_type packet \<noteq> PtRetry \<or> av_retry_accepted v \<or> av_vn_accepted v
        \<or> ph_version packet \<noteq> av_version v \<or> ph_dcid packet \<noteq> av_client_scid v
        \<or> length (ph_scid packet) = 0 \<or> length (ph_token packet) = 0
        \<or> length (ph_token packet) > QuicMaximumRetryTokenLength \<or> packetBytes = []
      then (STATUS_INVALID_NETWORK_RESPONSE, v)
      else let st = tag_status (av_odcid v) packetBytes
        in if st \<noteq> STATUS_SUCCESS then (st, v)
           else if \<not> alloc_ok then (STATUS_INSUFFICIENT_RESOURCES, v)
           else (STATUS_SUCCESS, v\<lparr>av_retry_token := ph_token packet, av_retry_scid := ph_scid packet,
                   av_retry_accepted := True\<rparr>))"

section \<open>Version selection\<close>

lemma av_select_eq: "av_select original offered vs selected
    = (if offered \<in> set vs \<and> offered \<noteq> original then offered else selected)"
  by (induction vs arbitrary: selected) auto

text \<open>The versions of a list.\<close>

fun version_list :: "bytes \<Rightarrow> nat list" where
  "version_list (a # b # c # d # rest) = read_be32 [a, b, c, d] 0 # version_list rest"
| "version_list _ = []"

lemma av_version_loop_eq:
  "av_version_loop original supported list selected =
     (if original \<in> set (version_list list) then None
      else Some (last (selected # filter (\<lambda>x. x \<in> set supported) (version_list list))))"
  by (induction original supported list selected rule: av_version_loop.induct)
    (auto simp: av_select_eq Let_def)

section \<open>Runs\<close>

datatype av_op =
    AvVersionNegotiation packet_header "nat list"
  | AvRetry bool packet_header bytes

fun av_apply :: "(bytes \<Rightarrow> bytes \<Rightarrow> ntstatus) \<Rightarrow> av_op \<Rightarrow> attempt_validation \<Rightarrow> ntstatus \<times> attempt_validation" where
  "av_apply tag (AvVersionNegotiation p supported) v =
     (case av_validate_version_negotiation p supported v of (st, _, v') \<Rightarrow> (st, v'))"
| "av_apply tag (AvRetry a p b) v = av_validate_retry tag a p b v"

fun av_run :: "(bytes \<Rightarrow> bytes \<Rightarrow> ntstatus) \<Rightarrow> av_op list \<Rightarrow> attempt_validation \<Rightarrow> ntstatus list \<times> attempt_validation" where
  "av_run tag [] v = ([], v)"
| "av_run tag (opn # ops) v =
     (case av_apply tag opn v of (st, v1) \<Rightarrow> (case av_run tag ops v1 of (sts, v2) \<Rightarrow> (st # sts, v2)))"

text \<open>What an accepted packet satisfies, for a client that sent \<open>scid\<close> and \<open>odcid\<close> in \<open>version\<close>.\<close>

fun av_genuine :: "(bytes \<Rightarrow> bytes \<Rightarrow> ntstatus) \<Rightarrow> nat \<Rightarrow> bytes \<Rightarrow> bytes \<Rightarrow> av_op \<Rightarrow> bool" where
  "av_genuine tag version odcid scid (AvVersionNegotiation p supported) \<longleftrightarrow>
     ph_type p = PtVersionNegotiation \<and> ph_dcid p = scid \<and> ph_scid p = odcid
     \<and> version \<notin> set (version_list (ph_version_list p))
     \<and> (\<exists>v \<in> set (version_list (ph_version_list p)). v \<in> set supported)"
| "av_genuine tag version odcid scid (AvRetry a p b) \<longleftrightarrow>
     ph_type p = PtRetry \<and> ph_version p = version \<and> ph_dcid p = scid \<and> ph_scid p \<noteq> []
     \<and> 0 < length (ph_token p) \<and> length (ph_token p) \<le> QuicMaximumRetryTokenLength
     \<and> tag odcid b = STATUS_SUCCESS"

lemma last_filter_selected:
  "last (0 # filter P xs) \<noteq> 0 \<Longrightarrow> \<exists>x \<in> set xs. P (x :: nat)"
  by (induction xs) (auto split: if_splits)

lemma av_apply_done:
  "av_retry_accepted v \<or> av_vn_accepted v \<Longrightarrow> av_apply tag opn v = (st, v') \<Longrightarrow> st \<noteq> STATUS_SUCCESS \<and> v' = v"
  by (cases opn) (auto simp: av_validate_version_negotiation_def av_validate_retry_def)

lemma av_run_done:
  "av_retry_accepted v \<or> av_vn_accepted v \<Longrightarrow> av_run tag ops v = (sts, v') \<Longrightarrow> STATUS_SUCCESS \<notin> set sts \<and> v' = v"
proof (induction ops arbitrary: sts)
  case (Cons opn ops)
  obtain st v1 where a: "av_apply tag opn v = (st, v1)" by fastforce
  from av_apply_done [OF Cons.prems(1) a] Cons a show ?case by (auto split: prod.splits)
qed simp

definition av_fresh :: "nat \<Rightarrow> bytes \<Rightarrow> bytes \<Rightarrow> attempt_validation \<Rightarrow> bool" where
  "av_fresh version odcid scid v \<longleftrightarrow> v = av_reset\<lparr>av_version := version, av_odcid := odcid, av_client_scid := scid,
              av_initialized := True\<rparr>"

lemma av_fresh_open: "av_fresh version odcid scid v \<Longrightarrow> \<not> av_retry_accepted v \<and> \<not> av_vn_accepted v"
  by (simp add: av_fresh_def av_reset_def)

lemma av_apply_success:
  assumes "av_fresh version odcid scid v" "av_apply tag opn v = (STATUS_SUCCESS, v')"
  shows "av_genuine tag version odcid scid opn \<and> (av_retry_accepted v' \<or> av_vn_accepted v')
    \<and> (\<forall>a p b. opn = AvRetry a p b \<longrightarrow> av_retry_token v' = ph_token p \<and> av_retry_scid v' = ph_scid p \<and> av_retry_accepted v')"
proof (cases opn)
  case (AvVersionNegotiation p supported)
  with assms show ?thesis
    by (auto simp: av_fresh_def av_reset_def av_validate_version_negotiation_def av_version_loop_eq
        filter_empty_conv split: if_splits)
next
  case (AvRetry a p b)
  with assms show ?thesis
    by (auto simp: av_fresh_def av_reset_def av_validate_retry_def Let_def split: if_splits)
qed

lemma av_apply_failure:
  assumes "av_fresh version odcid scid v" "av_apply tag opn v = (st, v')" "st \<noteq> STATUS_SUCCESS"
  shows "v' = v \<or> av_vn_accepted v'"
  using assms by (cases opn) (auto simp: av_validate_version_negotiation_def av_validate_retry_def Let_def
      split: if_splits option.splits)

text \<open>
  C39. Whatever packets arrive after a successful initialisation, at most one is accepted; it was
  addressed to the client's connection identifier, a Version Negotiation packet names the server's
  and offers a version the client supports but not the one it had tried, and a Retry has the tried
  version, a token within the limit and a valid integrity tag over the original identifier.
\<close>

theorem attempt_accepts_once:
  assumes "av_initialize version odcid scid = (STATUS_SUCCESS, v)" "av_run tag ops v = (sts, v')"
  shows "(\<forall>i j. i < length sts \<and> j < length sts \<and> sts ! i = STATUS_SUCCESS \<and> sts ! j = STATUS_SUCCESS \<longrightarrow> i = j)
    \<and> (\<forall>i. i < length sts \<and> sts ! i = STATUS_SUCCESS \<longrightarrow> av_genuine tag version odcid scid (ops ! i))"
proof -
  have "av_fresh version odcid scid v"
    using assms(1) by (auto simp: av_initialize_def av_fresh_def split: if_splits)
  then show ?thesis using assms(2)
  proof (induction ops arbitrary: sts)
    case (Cons opn ops)
    obtain st v1 sts1 where a: "av_apply tag opn v = (st, v1)" "av_run tag ops v1 = (sts1, v')" "sts = st # sts1"
      using Cons.prems(2) by (auto split: prod.splits)
    show ?case
    proof (cases "v1 = v")
      case True
      then have "st \<noteq> STATUS_SUCCESS"
        using av_apply_success [OF Cons.prems(1)] a(1) av_fresh_open [OF Cons.prems(1)] by blast
      with Cons.IH [OF Cons.prems(1), of sts1] a True show ?thesis
        by (auto simp: nth_Cons split: nat.splits)
    next
      case False
      then have "av_retry_accepted v1 \<or> av_vn_accepted v1"
        using av_apply_success [OF Cons.prems(1)] av_apply_failure [OF Cons.prems(1)] a(1) by blast
      then have "STATUS_SUCCESS \<notin> set sts1" using av_run_done a(2) by blast
      with av_apply_success [OF Cons.prems(1)] a show ?thesis
        by (auto simp: nth_Cons in_set_conv_nth split: nat.splits)
    qed
  qed simp
qed

lemma attempt_accepts_once_witness:
  "av_genuine (\<lambda>odcid p. if p = [9] then STATUS_SUCCESS else STATUS_INVALID_SIGNATURE) 1 [1] [2]
     (AvRetry True (header_new\<lparr>ph_type := PtRetry, ph_version := 1, ph_dcid := [2], ph_scid := [5], ph_token := [7]\<rparr>) [9])"
proof -
  let ?tag = "\<lambda>odcid p. if p = [9] then STATUS_SUCCESS else STATUS_INVALID_SIGNATURE"
  let ?h = "header_new\<lparr>ph_type := PtRetry, ph_version := 1, ph_dcid := [2], ph_scid := [5], ph_token := [7]\<rparr>"
  let ?ops = "[AvRetry True ?h [8], AvRetry True ?h [9], AvRetry True ?h [9]]"
  let ?v = "av_reset\<lparr>av_version := 1, av_odcid := [1], av_client_scid := [2], av_initialized := True\<rparr>"
  have v: "av_initialize 1 [1] [2] = (STATUS_SUCCESS, ?v)"
    by (simp add: av_initialize_def QuicMaximumConnectionIdLength_def)
  obtain sts v' where r: "av_run ?tag ?ops ?v = (sts, v')" by fastforce
  have sts: "sts = [STATUS_INVALID_SIGNATURE, STATUS_SUCCESS, STATUS_INVALID_NETWORK_RESPONSE]"
    using r by (simp add: av_reset_def header_new_def av_validate_retry_def
        QuicMaximumRetryTokenLength_def QuicMaximumConnectionIdLength_def)
  have "av_genuine ?tag 1 [1] [2] (?ops ! 1)"
    by (rule attempt_accepts_once [OF v r, THEN conjunct2, rule_format]) (simp add: sts)
  then show ?thesis by (simp only: One_nat_def nth_Cons_Suc nth_Cons_0)
qed

end
