(* ===== verification/QuicConnection.thy ===== *)
theory QuicConnection
  imports QuicRecovery QuicFlowControl QuicTokenCache QuicStream QuicFrame QuicCrypto QuicTransportParameters
    QuicAttemptValidation
begin

text \<open>
  The state of a QUIC connection, \<open>QuicConnectionPrivate.hpp\<close>, and the operations every other part of it
  uses, from \<open>src/wknetlib/quic/QuicConnection.cpp\<close> and \<open>QuicConnectionIo.cpp\<close>: the stream table, keys and key
  update, the sealing and sending of one frame, closing. The TLS object is a type variable with the
  functions of \<open>quic_env\<close>; the datagram socket is a function of the datagrams sent so far and the new one;
  \<open>qe_now\<close> is the clock and \<open>qe_alloc\<close> the outcome of each allocation during the operation. The arrays of
  streams and connection identifiers are the lists of their used entries. A key set is absent when its
  secret is empty. What the operation waiting for the handshake was told is kept in \<open>qc_completed\<close>, with the number of the operation.
\<close>

section \<open>State\<close>

datatype quic_connection_state =
    ConnIdle | ConnConnecting | ConnHandshaking | ConnEstablished | ConnClosing | ConnDraining | ConnClosed | ConnFailed

datatype quic_level = LvInitial | LvHandshake | LvApplication

datatype quic_tls_state =
    TlsIdle | TlsAwaitServerHello | TlsAwaitSharedSecret | TlsAwaitEncryptedExtensions | TlsAwaitCertificate
  | TlsAwaitCertificateVerify | TlsAwaitFinished | TlsEstablished | TlsFailed

datatype quic_alloc = AlStreamObject | AlStreamArrays | AlReassembly | AlSeal nat | AlOpen nat | AlToken
  | AlRecovery | AlTracker | AlKeys | AlRetry nat | AlRetryToken
  | AlParameters | AlCommand | AlCommandData | AlCommandAux

record quic_cid_entry =
  ce_sequence :: nat
  ce_id :: bytes
  ce_token :: "bytes option"
  ce_retired :: bool
  ce_deadline :: nat

record 'tls quic_connection =
  qc_streams :: "quic_stream list"
  qc_local_ids :: "quic_cid_entry list"
  qc_peer_ids :: "quic_cid_entry list"
  qc_state :: quic_connection_state
  qc_next_bidi :: nat
  qc_next_uni :: nat
  qc_max_bidi :: nat
  qc_max_uni :: nat
  qc_pacing_pending :: bool
  qc_stop :: bool
  qc_network :: bool
  qc_socket :: bool
  qc_waiting :: "nat option"
  qc_terminal :: ntstatus
  qc_completed :: "(nat \<times> ntstatus) list"
  qc_tokens :: "token_cache option"
  qc_sink :: stream_sink
  qc_initial_dcid :: bytes
  qc_source_id :: bytes
  qc_peer_id :: bytes
  qc_initial_write :: quic_key_set
  qc_initial_read :: quic_key_set
  qc_app_write :: quic_key_set
  qc_previous_write :: quic_key_set
  qc_app_read :: quic_key_set
  qc_next_read :: quic_key_set
  qc_previous_read :: quic_key_set
  qc_attempt :: attempt_validation
  qc_tls :: 'tls
  qc_recovery :: quic_recovery
  qc_flow :: quic_flow_controller
  qc_trackers :: "quic_space \<Rightarrow> quic_ack_tracker"
  qc_next_pn :: "quic_space \<Rightarrow> nat"
  qc_expected_pn :: "quic_space \<Rightarrow> nat"
  qc_hello :: bytes
  qc_initial_offset :: nat
  qc_handshake_offset :: nat
  qc_params_applied :: bool
  qc_finished_sent :: bool
  qc_id_authenticated :: bool
  qc_peer_sequence :: nat
  qc_next_local_sequence :: nat
  qc_send_phase_start :: nat
  qc_phase_packets :: nat
  qc_receive_phase_start :: nat
  qc_previous_deadline :: nat
  qc_last_activity :: nat
  qc_idle_timeout :: nat
  qc_closing_deadline :: nat
  qc_draining_deadline :: nat
  qc_keys_installed :: bool
  qc_send_phase :: bool
  qc_receive_phase :: bool
  qc_previous_phase :: bool
  qc_update_waiting :: bool
  qc_previous_valid :: bool
  qc_pending_error :: nat
  qc_sent :: "bytes list"

record 'tls quic_env =
  qe_now :: nat
  qe_alloc :: "quic_alloc \<Rightarrow> bool"
  qe_crypto :: crypto_env
  qe_send :: "bytes list \<Rightarrow> bytes \<Rightarrow> nat result"
  qe_random :: "nat \<Rightarrow> nat \<Rightarrow> bytes result"
  tls_state :: "'tls \<Rightarrow> quic_tls_state"
  tls_error :: "'tls \<Rightarrow> nat"
  tls_parameters :: "'tls \<Rightarrow> transport_parameters"
  tls_handshake_write :: "'tls \<Rightarrow> quic_key_set"
  tls_handshake_read :: "'tls \<Rightarrow> quic_key_set"
  tls_application_write :: "'tls \<Rightarrow> quic_key_set"
  tls_application_read :: "'tls \<Rightarrow> quic_key_set"
  tls_initial_discarded :: "'tls \<Rightarrow> bool"
  tls_receive_crypto :: "quic_level \<Rightarrow> nat \<Rightarrow> bytes \<Rightarrow> 'tls \<Rightarrow> ntstatus \<times> 'tls"
  tls_confirm :: "'tls \<Rightarrow> ntstatus \<times> 'tls"
  tls_discard_initial :: "'tls \<Rightarrow> ntstatus \<times> 'tls"
  tls_take_initial :: "'tls \<Rightarrow> bytes result \<times> 'tls"
  tls_take_handshake :: "'tls \<Rightarrow> bytes result \<times> 'tls"
  tls_clear :: "'tls \<Rightarrow> 'tls"
  tls_initialize :: "bytes \<Rightarrow> 'tls \<Rightarrow> ntstatus \<times> 'tls"
  tls_start :: "'tls \<Rightarrow> bytes result \<times> 'tls"
  qe_connect :: ntstatus

definition key_absent :: "quic_key_set \<Rightarrow> bool" where
  "key_absent ks \<longleftrightarrow> ks_secret ks = []"

definition WKNET_HARD_MAX_QUIC_LOCAL_BIDI_STREAMS :: nat where
  "WKNET_HARD_MAX_QUIC_LOCAL_BIDI_STREAMS = 100"
definition WKNET_HARD_MAX_QUIC_PEER_BIDI_STREAMS :: nat where
  "WKNET_HARD_MAX_QUIC_PEER_BIDI_STREAMS = 100"
definition WKNET_HARD_MAX_QUIC_LOCAL_UNI_STREAMS :: nat where
  "WKNET_HARD_MAX_QUIC_LOCAL_UNI_STREAMS = 8"
definition WKNET_HARD_MAX_QUIC_PEER_UNI_STREAMS :: nat where
  "WKNET_HARD_MAX_QUIC_PEER_UNI_STREAMS = 8"
definition WKNET_HARD_MAX_QUIC_STREAM_REASSEMBLY_BYTES :: nat where
  "WKNET_HARD_MAX_QUIC_STREAM_REASSEMBLY_BYTES = 1024 * 1024"
definition WKNET_HARD_MAX_QUIC_CONNECTION_REASSEMBLY_BYTES :: nat where
  "WKNET_HARD_MAX_QUIC_CONNECTION_REASSEMBLY_BYTES = 16 * 1024 * 1024"
definition WKNET_HARD_MAX_QUIC_CONNECTION_IDS :: nat where
  "WKNET_HARD_MAX_QUIC_CONNECTION_IDS = 8"
definition WKNET_HARD_MAX_QUIC_UDP_PAYLOAD_BYTES :: nat where
  "WKNET_HARD_MAX_QUIC_UDP_PAYLOAD_BYTES = 1200"
definition WKNET_HARD_MAX_QUIC_FRAME_BYTES :: nat where
  "WKNET_HARD_MAX_QUIC_FRAME_BYTES = 1200"

definition stream_capacity :: nat where
  "stream_capacity = WKNET_HARD_MAX_QUIC_LOCAL_BIDI_STREAMS + WKNET_HARD_MAX_QUIC_PEER_BIDI_STREAMS
     + WKNET_HARD_MAX_QUIC_LOCAL_UNI_STREAMS + WKNET_HARD_MAX_QUIC_PEER_UNI_STREAMS"

section \<open>Deadlines\<close>

definition earlier_deadline :: "nat \<Rightarrow> nat \<Rightarrow> nat" where
  "earlier_deadline current candidate =
     (if candidate \<noteq> 0 \<and> (current = 0 \<or> candidate < current) then candidate else current)"

definition deadline_after :: "nat \<Rightarrow> nat \<Rightarrow> nat \<Rightarrow> nat" where
  "deadline_after now duration multiplier =
     (if multiplier = 0 then now
      else if duration > u64_max div multiplier then u64_max
      else if now > u64_max - duration * multiplier then u64_max else now + duration * multiplier)"

text \<open>\<open>peerTransportParametersApplied_ ? MaxAckDelay : 25\<close>.\<close>

definition max_ack_delay :: "'tls quic_env \<Rightarrow> 'tls quic_connection \<Rightarrow> nat" where
  "max_ack_delay E c = (if qc_params_applied c then tp_max_ack_delay (tls_parameters E (qc_tls c)) else 25)"

section \<open>Streams\<close>

text \<open>The index of a stream, its position in the table.\<close>

definition qc_find_stream :: "nat \<Rightarrow> 'tls quic_connection \<Rightarrow> nat option" where
  "qc_find_stream i c = find (\<lambda>k. qs_id (qc_streams c ! k) = i) [0 ..< length (qc_streams c)]"

definition qc_put_stream :: "nat \<Rightarrow> quic_stream \<Rightarrow> 'tls quic_connection \<Rightarrow> 'tls quic_connection" where
  "qc_put_stream k s c = c\<lparr>qc_streams := (qc_streams c)[k := s]\<rparr>"

text \<open>The send limit of a new stream.\<close>

definition qc_initial_send_limit :: "'tls quic_env \<Rightarrow> bool \<Rightarrow> bool \<Rightarrow> 'tls quic_connection \<Rightarrow> nat" where
  "qc_initial_send_limit E clientInitiated bidirectional c =
     (if qc_network c \<and> qc_params_applied c
      then (let p = tls_parameters E (qc_tls c)
            in if bidirectional
               then (if clientInitiated then tp_max_stream_data_bidi_remote p else tp_max_stream_data_bidi_local p)
               else tp_max_stream_data_uni p)
      else WKNET_HARD_MAX_QUIC_STREAM_REASSEMBLY_BYTES)"

text \<open>The new stream, before it enters the table.\<close>

definition qc_new_stream :: "'tls quic_env \<Rightarrow> nat \<Rightarrow> 'tls quic_connection \<Rightarrow> ntstatus \<times> quic_stream" where
  "qc_new_stream E i c =
     (let clientInitiated = stream_client_initiated i; bidirectional = stream_bidirectional i;
          (st0, s0) = qs_initialize (qe_alloc E AlStreamArrays) i WKNET_HARD_MAX_QUIC_STREAM_REASSEMBLY_BYTES
                        WKNET_HARD_MAX_QUIC_STREAM_GAPS qs_new;
          (st1, s1) = (if st0 = STATUS_SUCCESS \<and> (bidirectional \<or> \<not> clientInitiated)
                       then qs_set_receive_limit WKNET_HARD_MAX_QUIC_STREAM_REASSEMBLY_BYTES s0 else (st0, s0))
      in if st1 = STATUS_SUCCESS \<and> (bidirectional \<or> clientInitiated)
         then qs_set_send_limit (qc_initial_send_limit E clientInitiated bidirectional c) s1 else (st1, s1))"

text \<open>The stream created is the last one of the table.\<close>

definition qc_create_stream :: "'tls quic_env \<Rightarrow> nat \<Rightarrow> 'tls quic_connection \<Rightarrow> ntstatus \<times> 'tls quic_connection" where
  "qc_create_stream E i c =
     (if i > QuicVarIntMaximum \<or> qc_find_stream i c \<noteq> None then (STATUS_INVALID_PARAMETER, c)
      else if length (qc_streams c) \<ge> stream_capacity then (STATUS_INSUFFICIENT_RESOURCES, c)
      else let clientInitiated = stream_client_initiated i; bidirectional = stream_bidirectional i;
               ordinal = drop_bit 2 i
        in if clientInitiated \<and> ordinal \<ge> (if bidirectional then qc_max_bidi c else qc_max_uni c)
           then (STATUS_DEVICE_BUSY, c)
           else if \<not> clientInitiated \<and> ordinal \<ge> (if bidirectional then WKNET_HARD_MAX_QUIC_PEER_BIDI_STREAMS
                                                    else WKNET_HARD_MAX_QUIC_PEER_UNI_STREAMS)
           then (STATUS_INVALID_NETWORK_RESPONSE, c)
           else if \<not> qe_alloc E AlStreamObject then (STATUS_INSUFFICIENT_RESOURCES, c)
           else case qc_new_stream E i c of (st, s) \<Rightarrow>
                  if st \<noteq> STATUS_SUCCESS then (st, c)
                  else (STATUS_SUCCESS, c\<lparr>qc_streams := qc_streams c @ [qs_set_sink (Some (qc_sink c)) s]\<rparr>))"

definition qc_clear_streams :: "'tls quic_connection \<Rightarrow> 'tls quic_connection" where
  "qc_clear_streams c = c\<lparr>qc_streams := []\<rparr>"

definition qc_notify_writable_streams :: "'tls quic_connection \<Rightarrow> 'tls quic_connection" where
  "qc_notify_writable_streams c =
     c\<lparr>qc_pacing_pending := False, qc_streams := map qs_try_notify_writable (qc_streams c)\<rparr>"

section \<open>Completion\<close>

text \<open>
  \<open>CompleteEstablishedWaiter\<close>. The completion is recorded without the code's test that the operation is still pending, so
  that a second completion would show.
\<close>

definition qc_complete_waiter :: "ntstatus \<Rightarrow> 'tls quic_connection \<Rightarrow> 'tls quic_connection" where
  "qc_complete_waiter st c =
     c\<lparr>qc_terminal := st, qc_waiting := None,
       qc_completed := (case qc_waiting c of None \<Rightarrow> qc_completed c | Some i \<Rightarrow> qc_completed c @ [(i, st)])\<rparr>"

section \<open>Keys\<close>

definition qc_install_application_keys :: "'tls quic_env \<Rightarrow> 'tls quic_connection \<Rightarrow> ntstatus \<times> 'tls quic_connection" where
  "qc_install_application_keys E c =
     (if qc_keys_installed c then (STATUS_SUCCESS, c)
      else if key_absent (tls_application_write E (qc_tls c)) \<or> key_absent (tls_application_read E (qc_tls c))
      then (STATUS_INVALID_DEVICE_STATE, c)
      else let c1 = c\<lparr>qc_app_write := tls_application_write E (qc_tls c),
                      qc_app_read := tls_application_read E (qc_tls c)\<rparr>
        in case quic_derive_next_key_set (qe_crypto E) (qe_alloc E AlKeys) (qc_app_read c1) of
             Inl e \<Rightarrow> (e, c1\<lparr>qc_next_read := quic_clear_key_set, qc_app_write := quic_clear_key_set,
                          qc_app_read := quic_clear_key_set\<rparr>)
           | Inr k \<Rightarrow> (STATUS_SUCCESS, c1\<lparr>qc_next_read := k, qc_keys_installed := True, qc_send_phase := False,
                          qc_receive_phase := False, qc_phase_packets := 0, qc_receive_phase_start := 0\<rparr>))"

definition qc_initiate_key_update :: "'tls quic_env \<Rightarrow> 'tls quic_connection \<Rightarrow> ntstatus \<times> 'tls quic_connection" where
  "qc_initiate_key_update E c =
     (if \<not> qc_keys_installed c \<or> qc_update_waiting c then (STATUS_INVALID_DEVICE_STATE, c)
      else case quic_derive_next_key_set (qe_crypto E) (qe_alloc E AlKeys) (qc_app_write c) of
             Inl e \<Rightarrow> (e, c)
           | Inr k \<Rightarrow> (STATUS_SUCCESS, c\<lparr>qc_previous_write := qc_app_write c, qc_app_write := k,
                          qc_send_phase := (\<not> qc_send_phase c), qc_send_phase_start := qc_next_pn c SpApplication,
                          qc_phase_packets := 0, qc_update_waiting := True\<rparr>))"

definition qc_confirm_key_update :: "quic_ack_range list \<Rightarrow> 'tls quic_connection \<Rightarrow> 'tls quic_connection" where
  "qc_confirm_key_update ranges c =
     (if qc_update_waiting c \<and> list_ex (\<lambda>r. Largest r \<ge> qc_send_phase_start c) ranges
      then c\<lparr>qc_previous_write := quic_clear_key_set, qc_update_waiting := False\<rparr> else c)"

definition qc_discard_expired_read_key :: "nat \<Rightarrow> 'tls quic_connection \<Rightarrow> 'tls quic_connection" where
  "qc_discard_expired_read_key now c =
     (if qc_previous_valid c \<and> qc_previous_deadline c \<noteq> 0 \<and> now \<ge> qc_previous_deadline c
      then c\<lparr>qc_previous_read := quic_clear_key_set, qc_previous_valid := False, qc_previous_deadline := 0\<rparr> else c)"

end
