(* ===== verification/QuicConnectionSend.thy ===== *)
theory QuicConnectionSend
  imports QuicConnection
begin

text \<open>
  Sending one frame in one packet, \<open>SendFramePacket\<close> of \<open>src/wknetlib/quic/QuicConnectionIo.cpp\<close>, and what is
  built on it: cryptographic data, acknowledgements, probes, closing, and the application's stream
  operations of \<open>QuicConnection.cpp\<close>. A key is passed by reference in the source, so that a key update
  during the call is seen by it: \<open>key_ref\<close> names the member.
\<close>

datatype key_ref = InitialWriteKey | HandshakeWriteKey | ApplicationWriteKey

definition key_of :: "'tls quic_env \<Rightarrow> key_ref \<Rightarrow> 'tls quic_connection \<Rightarrow> quic_key_set" where
  "key_of E k c =
     (case k of InitialWriteKey \<Rightarrow> qc_initial_write c
      | HandshakeWriteKey \<Rightarrow> tls_handshake_write E (qc_tls c)
      | ApplicationWriteKey \<Rightarrow> qc_app_write c)"

definition QuicKeyUpdatePacketThreshold :: nat where
  "QuicKeyUpdatePacketThreshold = 2 ^ 20"

section \<open>The packet\<close>

text \<open>What precedes the choice of the packet number: 1-RTT packets may start a key update.\<close>

definition qc_prepare_send ::
    "'tls quic_env \<Rightarrow> quic_packet_type \<Rightarrow> quic_space \<Rightarrow> 'tls quic_connection \<Rightarrow> ntstatus \<times> 'tls quic_connection" where
  "qc_prepare_send E type space c =
     (if type \<noteq> PtOneRtt then (STATUS_SUCCESS, c)
      else if \<not> qc_keys_installed c then (STATUS_INVALID_DEVICE_STATE, c)
      else if qc_next_pn c space \<ge> QuicVarIntMaximum then (STATUS_INTEGER_OVERFLOW, c)
      else if qc_phase_packets c \<ge> QuicKeyUpdatePacketThreshold \<and> \<not> qc_update_waiting c
      then qc_initiate_key_update E c
      else (STATUS_SUCCESS, c))"

definition qc_token :: "quic_packet_type \<Rightarrow> 'tls quic_connection \<Rightarrow> bytes" where
  "qc_token type c =
     (if type \<noteq> PtInitial then []
      else if av_retry_accepted (qc_attempt c) then av_retry_token (qc_attempt c)
      else (case qc_tokens c of None \<Rightarrow> [] | Some t \<Rightarrow> tc_latest t))"

definition qc_long_header ::
    "quic_packet_type \<Rightarrow> nat \<Rightarrow> nat \<Rightarrow> 'tls quic_connection \<Rightarrow> (bytes \<times> nat) result" where
  "qc_long_header type pn plaintextLength c =
     quic_encode_long_header
       \<lparr>lh_type = type, lh_version = QuicVersion1, lh_dcid = qc_peer_id c, lh_scid = qc_source_id c,
        lh_token = qc_token type c, lh_packet_number = pn, lh_pn_length = 2,
        lh_protected_length = 2 + plaintextLength + QuicRetryIntegrityTagLength\<rparr>
       WKNET_HARD_MAX_QUIC_UDP_PAYLOAD_BYTES"

text \<open>
  The loop that settles the padding, at most three rounds: the header, the offset of the number and the
  length of the plaintext.
\<close>

fun qc_long_header_loop ::
    "nat \<Rightarrow> quic_packet_type \<Rightarrow> nat \<Rightarrow> bool \<Rightarrow> nat \<Rightarrow> 'tls quic_connection \<Rightarrow> nat \<Rightarrow> (bytes \<times> nat) result
      \<Rightarrow> ((bytes \<times> nat) result \<times> nat) result" where
  "qc_long_header_loop 0 type pn padInitial frameLength c plaintextLength r = Inr (r, plaintextLength)"
| "qc_long_header_loop (Suc k) type pn padInitial frameLength c plaintextLength r =
     (case qc_long_header type pn plaintextLength c of
        Inl e \<Rightarrow> Inr (Inl e, plaintextLength)
      | Inr (header, pnOffset) \<Rightarrow>
          if \<not> padInitial then Inr (Inr (header, pnOffset), plaintextLength)
          else if length header + QuicRetryIntegrityTagLength > WKNET_HARD_MAX_QUIC_UDP_PAYLOAD_BYTES
          then Inl STATUS_BUFFER_TOO_SMALL
          else let target = WKNET_HARD_MAX_QUIC_UDP_PAYLOAD_BYTES - length header - QuicRetryIntegrityTagLength
            in if target < frameLength then Inl STATUS_BUFFER_TOO_SMALL
               else if target = plaintextLength then Inr (Inr (header, pnOffset), plaintextLength)
               else qc_long_header_loop k type pn padInitial frameLength c target (Inr (header, pnOffset)))"

definition qc_packet_header ::
    "quic_packet_type \<Rightarrow> nat \<Rightarrow> bool \<Rightarrow> nat \<Rightarrow> 'tls quic_connection \<Rightarrow> (bytes \<times> nat \<times> nat) result" where
  "qc_packet_header type pn padInitial frameLength c =
     (let plaintextLength = (if frameLength < 2 then 2 else frameLength)
      in rbind (if type = PtInitial \<or> type = PtHandshake
                then qc_long_header_loop 3 type pn padInitial frameLength c plaintextLength (Inl STATUS_NOT_SUPPORTED)
                else if type = PtOneRtt
                then Inr (quic_encode_short_header \<lparr>sh_dcid = qc_peer_id c, sh_packet_number = pn, sh_pn_length = 2,
                            sh_key_phase = qc_send_phase c\<rparr> WKNET_HARD_MAX_QUIC_UDP_PAYLOAD_BYTES, plaintextLength)
                else Inl STATUS_NOT_SUPPORTED) (\<lambda>(r, n).
         rbind r (\<lambda>(header, pnOffset).
           if n > WKNET_HARD_MAX_QUIC_UDP_PAYLOAD_BYTES - length header then Inl STATUS_BUFFER_TOO_SMALL
           else Inr (header, pnOffset, n))))"

text \<open>
  The buffer given to the protection: header, frame, zeros. The bytes behind the plaintext are those of
  earlier packets in the source; the tag overwrites what is sent of them.
\<close>

definition qc_packet_buffer :: "bytes \<Rightarrow> bytes \<Rightarrow> bytes" where
  "qc_packet_buffer header frame =
     header @ frame @ replicate (WKNET_HARD_MAX_QUIC_UDP_PAYLOAD_BYTES - length header - length frame) 0"

definition qc_seal ::
    "'tls quic_env \<Rightarrow> quic_key_set \<Rightarrow> bytes \<Rightarrow> bytes \<Rightarrow> nat \<Rightarrow> nat \<Rightarrow> nat \<Rightarrow> bytes result" where
  "qc_seal E key header frame pnOffset pn plaintextLength =
     (case quic_protect_packet (qe_crypto E) (\<lambda>k. qe_alloc E (AlSeal k)) key (qc_packet_buffer header frame)
             pnOffset 2 pn plaintextLength of
        (Inl e, _) \<Rightarrow> Inl e
      | (Inr n, buffer) \<Rightarrow> Inr (take n buffer))"

text \<open>The socket, and what is recorded about a packet that left.\<close>

definition qc_record_sent ::
    "'tls quic_env \<Rightarrow> quic_packet_type \<Rightarrow> quic_space \<Rightarrow> bool \<Rightarrow> nat \<Rightarrow> 'tls quic_connection
      \<Rightarrow> ntstatus \<times> 'tls quic_connection" where
  "qc_record_sent E type space ackEliciting packetLength c =
     (case rc_on_packet_sent (qe_now E) space (qc_next_pn c space) packetLength ackEliciting (qc_recovery c) of
        (st, r) \<Rightarrow>
          let c1 = c\<lparr>qc_recovery := r\<rparr>
          in if st \<noteq> STATUS_SUCCESS then (st, c1)
             else let c2 = (if ackEliciting then c1\<lparr>qc_last_activity := qe_now E\<rparr> else c1);
                      c3 = c2\<lparr>qc_next_pn := (qc_next_pn c2)(space := qc_next_pn c2 space + 1),
                              qc_phase_packets := (if type = PtOneRtt then qc_phase_packets c2 + 1 else qc_phase_packets c2)\<rparr>
               in if type = PtHandshake \<and> \<not> tls_initial_discarded E (qc_tls c3)
                  then (case tls_discard_initial E (qc_tls c3) of (st', tls) \<Rightarrow>
                          (st', c3\<lparr>qc_tls := tls, qc_initial_write := quic_clear_key_set,
                                  qc_initial_read := quic_clear_key_set\<rparr>))
                  else (STATUS_SUCCESS, c3))"

definition qc_transmit ::
    "'tls quic_env \<Rightarrow> quic_packet_type \<Rightarrow> quic_space \<Rightarrow> bool \<Rightarrow> bytes \<Rightarrow> 'tls quic_connection
      \<Rightarrow> ntstatus \<times> 'tls quic_connection" where
  "qc_transmit E type space ackEliciting datagram c =
     (case qe_send E (qc_sent c) datagram of
        Inl e \<Rightarrow> (e, c)
      | Inr bytesSent \<Rightarrow>
          let c1 = c\<lparr>qc_sent := qc_sent c @ [datagram]\<rparr>
          in if bytesSent \<noteq> length datagram then (STATUS_CONNECTION_DISCONNECTED, c1)
             else qc_record_sent E type space ackEliciting (length datagram) c1)"

definition qc_send_frame_packet ::
    "'tls quic_env \<Rightarrow> quic_packet_type \<Rightarrow> quic_space \<Rightarrow> key_ref \<Rightarrow> quic_frame \<Rightarrow> quic_ack_range list \<Rightarrow> bool
      \<Rightarrow> bool \<Rightarrow> 'tls quic_connection \<Rightarrow> ntstatus \<times> 'tls quic_connection" where
  "qc_send_frame_packet E type space key frame acks padInitial ackEliciting c =
     (if \<not> qc_socket c \<or> key_absent (key_of E key c) then (STATUS_INVALID_DEVICE_STATE, c)
      else case quic_encode_frame frame acks WKNET_HARD_MAX_QUIC_FRAME_BYTES of
        Inl e \<Rightarrow> (e, c)
      | Inr frameBytes \<Rightarrow>
          (case qc_prepare_send E type space c of (st, c1) \<Rightarrow>
             if st \<noteq> STATUS_SUCCESS then (st, c1)
             else case rbind (qc_packet_header type (qc_next_pn c1 space) padInitial (length frameBytes) c1)
                         (\<lambda>(header, pnOffset, n).
                            qc_seal E (key_of E key c1) header frameBytes pnOffset (qc_next_pn c1 space) n) of
               Inl e \<Rightarrow> (e, c1)
             | Inr datagram \<Rightarrow> qc_transmit E type space ackEliciting datagram c1))"

definition qc_send_crypto_packet ::
    "'tls quic_env \<Rightarrow> quic_packet_type \<Rightarrow> quic_space \<Rightarrow> key_ref \<Rightarrow> nat \<Rightarrow> bytes \<Rightarrow> bool \<Rightarrow> 'tls quic_connection
      \<Rightarrow> ntstatus \<times> 'tls quic_connection" where
  "qc_send_crypto_packet E type space key cryptoOffset cryptoData padInitial c =
     qc_send_frame_packet E type space key
       (frame_new\<lparr>fr_kind := FkCrypto, fr_offset := cryptoOffset, fr_data := cryptoData\<rparr>) [] padInitial True c"

text \<open>A frame of the application space.\<close>

definition qc_send_application :: "'tls quic_env \<Rightarrow> quic_frame \<Rightarrow> 'tls quic_connection \<Rightarrow> ntstatus \<times> 'tls quic_connection" where
  "qc_send_application E frame c =
     qc_send_frame_packet E PtOneRtt SpApplication ApplicationWriteKey frame [] False True c"

section \<open>Acknowledgements and probes\<close>

definition qc_send_ack :: "'tls quic_env \<Rightarrow> quic_space \<Rightarrow> 'tls quic_connection \<Rightarrow> ntstatus \<times> 'tls quic_connection" where
  "qc_send_ack E space c =
     (case ack_copy_ranges WKNET_HARD_MAX_QUIC_ACK_RANGES (qc_trackers c space) of
        Inl e \<Rightarrow> (e, c)
      | Inr ranges \<Rightarrow>
          if ranges = [] then (STATUS_NOT_FOUND, c)
          else let (type, key, pad) =
                 (if space = SpHandshake then (PtHandshake, HandshakeWriteKey, False)
                  else if space = SpApplication then (PtOneRtt, ApplicationWriteKey, False)
                  else (PtInitial, InitialWriteKey, True))
            in case qc_send_frame_packet E type space key (frame_new\<lparr>fr_kind := FkAck\<rparr>) ranges pad False c of
                 (st, c1) \<Rightarrow>
                   (st, if st = STATUS_SUCCESS
                        then c1\<lparr>qc_trackers := (qc_trackers c1)(space := ack_on_sent (qc_trackers c1 space))\<rparr> else c1))"

definition qc_send_probe :: "'tls quic_env \<Rightarrow> quic_space \<Rightarrow> 'tls quic_connection \<Rightarrow> ntstatus \<times> 'tls quic_connection" where
  "qc_send_probe E space c =
     (let ping = frame_new\<lparr>fr_kind := FkPing\<rparr>
      in if space = SpInitial \<and> \<not> key_absent (qc_initial_write c)
         then qc_send_frame_packet E PtInitial space InitialWriteKey ping [] True True c
         else if space = SpHandshake \<and> \<not> key_absent (tls_handshake_write E (qc_tls c))
         then qc_send_frame_packet E PtHandshake space HandshakeWriteKey ping [] False True c
         else if space = SpApplication \<and> qc_keys_installed c
         then qc_send_frame_packet E PtOneRtt space ApplicationWriteKey ping [] False True c
         else (STATUS_NOT_FOUND, c))"

section \<open>Closing\<close>

definition qc_enter_closing ::
    "'tls quic_env \<Rightarrow> nat \<Rightarrow> bool \<Rightarrow> bool \<Rightarrow> 'tls quic_connection \<Rightarrow> ntstatus \<times> 'tls quic_connection" where
  "qc_enter_closing E errorCode sendCloseFrame applicationError c =
     (let c1 = c\<lparr>qc_state := ConnClosing\<rparr>;
          frame = frame_new\<lparr>fr_kind := FkConnectionClose, fr_error_code := errorCode,
                           fr_application_close := applicationError\<rparr>;
          (closeSpace, st, c2) =
            (if sendCloseFrame \<and> qc_socket c1
             then if qc_keys_installed c1
                  then (SpApplication, qc_send_frame_packet E PtOneRtt SpApplication ApplicationWriteKey frame [] False False c1)
                  else if \<not> key_absent (tls_handshake_write E (qc_tls c1))
                  then (SpHandshake, qc_send_frame_packet E PtHandshake SpHandshake HandshakeWriteKey frame [] False False c1)
                  else if \<not> key_absent (qc_initial_write c1)
                  then (SpInitial, qc_send_frame_packet E PtInitial SpInitial InitialWriteKey frame [] True False c1)
                  else (SpInitial, STATUS_SUCCESS, c1)
             else (SpInitial, STATUS_SUCCESS, c1));
          pto = rc_pto_period closeSpace (max_ack_delay E c2) (qc_recovery c2)
      in (st, c2\<lparr>qc_closing_deadline := deadline_after (qe_now E) pto 3\<rparr>))"

definition qc_enter_draining :: "'tls quic_env \<Rightarrow> 'tls quic_connection \<Rightarrow> 'tls quic_connection" where
  "qc_enter_draining E c =
     (let pto = rc_pto_period SpApplication (max_ack_delay E c) (qc_recovery c)
      in qc_complete_waiter STATUS_CONNECTION_DISCONNECTED
           (c\<lparr>qc_state := ConnDraining, qc_draining_deadline := deadline_after (qe_now E) pto 3\<rparr>))"

definition qc_fail_connection ::
    "'tls quic_env \<Rightarrow> ntstatus \<Rightarrow> nat \<Rightarrow> 'tls quic_connection \<Rightarrow> 'tls quic_connection" where
  "qc_fail_connection E st transportError c =
     (case qc_enter_closing E transportError True False c of (closeStatus, c1) \<Rightarrow>
        qc_complete_waiter st (c1\<lparr>qc_state := ConnFailed\<rparr>))"

text \<open>\<open>StopNetwork\<close>, apart from what the socket object does on closing.\<close>

definition qc_stop_network :: "'tls quic_env \<Rightarrow> 'tls quic_connection \<Rightarrow> 'tls quic_connection" where
  "qc_stop_network E c =
     c\<lparr>qc_socket := False, qc_tls := tls_clear E (qc_tls c), qc_attempt := av_reset,
       qc_initial_write := quic_clear_key_set, qc_initial_read := quic_clear_key_set,
       qc_app_write := quic_clear_key_set, qc_previous_write := quic_clear_key_set,
       qc_app_read := quic_clear_key_set, qc_next_read := quic_clear_key_set,
       qc_previous_read := quic_clear_key_set, qc_keys_installed := False, qc_update_waiting := False,
       qc_previous_valid := False, qc_previous_deadline := 0, qc_receive_phase_start := 0\<rparr>"

definition qc_transition_to_closed :: "'tls quic_env \<Rightarrow> 'tls quic_connection \<Rightarrow> 'tls quic_connection" where
  "qc_transition_to_closed E c =
     (qc_stop_network E (qc_complete_waiter STATUS_CONNECTION_DISCONNECTED (c\<lparr>qc_state := ConnClosed\<rparr>)))\<lparr>qc_stop := True\<rparr>"

end
