(* ===== verification/QuicConnectionIds.thy ===== *)
theory QuicConnectionIds
  imports QuicConnectionSend
begin

text \<open>
  The connection identifiers of both sides, \<open>src/wknetlib/quic/QuicConnection.cpp\<close>: which are accepted in
  packets, the stateless reset, issuing new ones, and the frames that add and retire them.
\<close>

definition ce_active :: "nat \<Rightarrow> quic_cid_entry \<Rightarrow> bool" where
  "ce_active now e \<longleftrightarrow> \<not> ce_retired e \<or> (ce_deadline e \<noteq> 0 \<and> now < ce_deadline e)"

definition qc_is_local_id :: "nat \<Rightarrow> bytes \<Rightarrow> 'tls quic_connection \<Rightarrow> bool" where
  "qc_is_local_id now i c \<longleftrightarrow> list_ex (\<lambda>e. ce_active now e \<and> ce_id e = i) (qc_local_ids c)"

definition qc_matches_stateless_reset :: "nat \<Rightarrow> bytes \<Rightarrow> 'tls quic_connection \<Rightarrow> bool" where
  "qc_matches_stateless_reset now packet c \<longleftrightarrow> length packet \<ge> 21
     \<and> list_ex (\<lambda>e. ce_active now e \<and> ce_token e = Some (drop (length packet - 16) packet)) (qc_peer_ids c)"

text \<open>The limit \<open>activeLimit\<close> of \<open>IssueConnectionId\<close>.\<close>

definition qc_active_id_limit :: "'tls quic_env \<Rightarrow> 'tls quic_connection \<Rightarrow> nat" where
  "qc_active_id_limit E c =
     (let peerLimit = (if qc_params_applied c then tp_active_cid_limit (tls_parameters E (qc_tls c)) else 2)
      in if peerLimit < WKNET_HARD_MAX_QUIC_CONNECTION_IDS then peerLimit else WKNET_HARD_MAX_QUIC_CONNECTION_IDS)"

definition qc_issue_id :: "'tls quic_env \<Rightarrow> 'tls quic_connection \<Rightarrow> ntstatus \<times> 'tls quic_connection" where
  "qc_issue_id E c =
     (if length (qc_local_ids c) \<ge> WKNET_HARD_MAX_QUIC_CONNECTION_IDS \<or> qc_source_id c = []
      then (STATUS_INSUFFICIENT_RESOURCES, c)
      else if length (filter (\<lambda>e. \<not> ce_retired e) (qc_local_ids c)) \<ge> qc_active_id_limit E c
      then (STATUS_DEVICE_BUSY, c)
      else case rbind (qe_random E 0 (length (qc_source_id c))) (\<lambda>i.
                  rbind (qe_random E 1 16) (\<lambda>token. Inr (i, token))) of
        Inl e \<Rightarrow> (e, c)
      | Inr (i, token) \<Rightarrow>
          if list_ex (\<lambda>e. ce_id e = i) (qc_local_ids c) then (STATUS_RETRY, c)
          else case qc_send_application E (frame_new\<lparr>fr_kind := FkNewConnectionId,
                      fr_sequence := qc_next_local_sequence c, fr_retire_prior_to := 0,
                      fr_connection_id := i, fr_stateless_reset_token := token\<rparr>) c of (st, c1) \<Rightarrow>
                 if st \<noteq> STATUS_SUCCESS then (st, c1)
                 else (STATUS_SUCCESS, c1\<lparr>qc_local_ids := qc_local_ids c1 @ [\<lparr>ce_sequence = qc_next_local_sequence c,
                         ce_id = i, ce_token = Some token, ce_retired = False, ce_deadline = 0\<rparr>],
                       qc_next_local_sequence := qc_next_local_sequence c1 + 1\<rparr>))"

definition qc_retire_deadline :: "'tls quic_env \<Rightarrow> 'tls quic_connection \<Rightarrow> nat" where
  "qc_retire_deadline E c =
     deadline_after (qe_now E) (rc_pto_period SpApplication (max_ack_delay E c) (qc_recovery c)) 3"

section \<open>Identifiers of the peer\<close>

text \<open>
  The loop that compares the frame with the known entries: a result ends the handler.
\<close>

fun peer_id_known :: "quic_frame \<Rightarrow> quic_cid_entry list \<Rightarrow> ntstatus option" where
  "peer_id_known f [] = None"
| "peer_id_known f (e # es) =
     (if ce_sequence e = fr_sequence f
      then Some (if ce_id e = fr_connection_id f \<and> ce_token e = Some (fr_stateless_reset_token f)
                 then STATUS_SUCCESS else STATUS_INVALID_NETWORK_RESPONSE)
      else if ce_id e = fr_connection_id f \<or> ce_token e = Some (fr_stateless_reset_token f)
      then Some STATUS_INVALID_NETWORK_RESPONSE
      else peer_id_known f es)"

text \<open>
  The loop that retires the entries below \<open>Retire Prior To\<close>, over the positions: the status, the number
  of active entries, the position of the active entry with the smallest number, the connection.
\<close>

fun peer_id_retire ::
    "'tls quic_env \<Rightarrow> nat \<Rightarrow> nat list \<Rightarrow> nat \<Rightarrow> nat option \<Rightarrow> 'tls quic_connection
      \<Rightarrow> ntstatus \<times> nat \<times> nat option \<times> 'tls quic_connection" where
  "peer_id_retire E retirePriorTo [] active replacement c = (STATUS_SUCCESS, active, replacement, c)"
| "peer_id_retire E retirePriorTo (k # ks) active replacement c =
     (let e = qc_peer_ids c ! k
      in if ce_sequence e < retirePriorTo \<and> \<not> ce_retired e
         then (case qc_send_application E (frame_new\<lparr>fr_kind := FkRetireConnectionId, fr_sequence := ce_sequence e\<rparr>) c of
                 (st, c1) \<Rightarrow>
                   if st \<noteq> STATUS_SUCCESS then (st, active, replacement, c1)
                   else peer_id_retire E retirePriorTo ks active replacement
                     (c1\<lparr>qc_peer_ids := (qc_peer_ids c1)[k := e\<lparr>ce_retired := True,
                         ce_deadline := qc_retire_deadline E c1\<rparr>]\<rparr>))
         else if \<not> ce_retired e
         then peer_id_retire E retirePriorTo ks (active + 1)
                (case replacement of None \<Rightarrow> Some k
                 | Some r \<Rightarrow> if ce_sequence e < ce_sequence (qc_peer_ids c ! r) then Some k else Some r) c
         else peer_id_retire E retirePriorTo ks active replacement c)"

text \<open>The packets go to another identifier when the one in use is retired or unknown.\<close>

definition qc_select_peer_id :: "nat option \<Rightarrow> 'tls quic_connection \<Rightarrow> 'tls quic_connection" where
  "qc_select_peer_id replacement c =
     (if (case find (\<lambda>e. ce_sequence e = qc_peer_sequence c) (qc_peer_ids c) of
            None \<Rightarrow> True | Some e \<Rightarrow> ce_retired e)
      then (case replacement of None \<Rightarrow> c
            | Some r \<Rightarrow> c\<lparr>qc_peer_sequence := ce_sequence (qc_peer_ids c ! r), qc_peer_id := ce_id (qc_peer_ids c ! r)\<rparr>)
      else c)"

definition qc_handle_new_id :: "'tls quic_env \<Rightarrow> quic_frame \<Rightarrow> 'tls quic_connection \<Rightarrow> ntstatus \<times> 'tls quic_connection" where
  "qc_handle_new_id E f c =
     (if fr_connection_id f = [] \<or> length (fr_connection_id f) > QuicMaximumConnectionIdLength
        \<or> length (fr_stateless_reset_token f) \<noteq> 16 \<or> fr_retire_prior_to f > fr_sequence f
      then (STATUS_INVALID_NETWORK_RESPONSE, c)
      else case peer_id_known f (qc_peer_ids c) of
        Some st \<Rightarrow> (st, c)
      | None \<Rightarrow>
          if length (qc_peer_ids c) \<ge> WKNET_HARD_MAX_QUIC_CONNECTION_IDS then (STATUS_INSUFFICIENT_RESOURCES, c)
          else let c1 = c\<lparr>qc_peer_ids := qc_peer_ids c @ [\<lparr>ce_sequence = fr_sequence f, ce_id = fr_connection_id f,
                          ce_token = Some (fr_stateless_reset_token f), ce_retired = False, ce_deadline = 0\<rparr>]\<rparr>
            in case peer_id_retire E (fr_retire_prior_to f) [0 ..< length (qc_peer_ids c1)] 0 None c1 of
                 (st, active, replacement, c2) \<Rightarrow>
                   if st \<noteq> STATUS_SUCCESS then (st, c2)
                   else if active = 0 \<or> active > WKNET_HARD_MAX_QUIC_CONNECTION_IDS
                   then (STATUS_INVALID_NETWORK_RESPONSE, c2)
                   else (STATUS_SUCCESS, qc_select_peer_id replacement c2))"

section \<open>Own identifiers\<close>

definition qc_retire_local :: "'tls quic_env \<Rightarrow> nat \<Rightarrow> 'tls quic_connection \<Rightarrow> 'tls quic_connection" where
  "qc_retire_local E k c =
     c\<lparr>qc_local_ids := (qc_local_ids c)[k := (qc_local_ids c ! k)\<lparr>ce_retired := True,
         ce_deadline := qc_retire_deadline E c\<rparr>]\<rparr>"

definition qc_handle_retire_id :: "'tls quic_env \<Rightarrow> quic_frame \<Rightarrow> 'tls quic_connection \<Rightarrow> ntstatus \<times> 'tls quic_connection" where
  "qc_handle_retire_id E f c =
     (if fr_sequence f \<ge> qc_next_local_sequence c then (STATUS_INVALID_NETWORK_RESPONSE, c)
      else case find (\<lambda>k. ce_sequence (qc_local_ids c ! k) = fr_sequence f) [0 ..< length (qc_local_ids c)] of
        None \<Rightarrow> (STATUS_INVALID_NETWORK_RESPONSE, c)
      | Some k \<Rightarrow>
          if ce_retired (qc_local_ids c ! k) then (STATUS_SUCCESS, c)
          else if ce_id (qc_local_ids c ! k) = qc_source_id c
          then (case find (\<lambda>j. \<not> ce_retired (qc_local_ids c ! j) \<and> j \<noteq> k) [0 ..< length (qc_local_ids c)] of
                  Some j \<Rightarrow>
                    qc_issue_id E (qc_retire_local E k (c\<lparr>qc_source_id := ce_id (qc_local_ids c ! j)\<rparr>))
                | None \<Rightarrow>
                    (case qc_issue_id E c of (st, c1) \<Rightarrow>
                       if st \<noteq> STATUS_SUCCESS then (st, c1)
                       else (STATUS_SUCCESS,
                             qc_retire_local E k (c1\<lparr>qc_source_id := ce_id (last (qc_local_ids c1))\<rparr>))))
          else qc_issue_id E (qc_retire_local E k c))"

end
