(* ===== verification/QuicConnectionStreams.thy ===== *)
theory QuicConnectionStreams
  imports QuicConnectionSend
begin

text \<open>
  The application's operations on the streams of a connection, \<open>src/wknetlib/quic/QuicConnection.cpp\<close>. They
  run on the worker thread, so \<open>IsWorkerThread()\<close> holds. A stream is handed on as its position in the
  table.
\<close>

section \<open>Sending\<close>

text \<open>\<open>SendStreamFrame\<close>; \<open>k\<close> is the stream's position.\<close>

definition qc_write_accepted ::
    "nat \<Rightarrow> bytes \<Rightarrow> bool \<Rightarrow> 'tls quic_connection \<Rightarrow> ntstatus \<times> 'tls quic_connection" where
  "qc_write_accepted k data fin c =
     (case qs_write (length data) fin (qc_streams c ! k) of (st, accepted, s) \<Rightarrow>
        let c1 = qc_put_stream k s c
        in if st \<noteq> STATUS_SUCCESS then (st, c1)
           else case fc_reserve_send accepted (qc_flow c1) of (st', f) \<Rightarrow> (st', c1\<lparr>qc_flow := f\<rparr>))"

definition qc_send_stream_frame ::
    "'tls quic_env \<Rightarrow> nat \<Rightarrow> bytes \<Rightarrow> bool \<Rightarrow> 'tls quic_connection \<Rightarrow> ntstatus \<times> 'tls quic_connection" where
  "qc_send_stream_frame E k data fin c =
     (let s = qc_streams c ! k;
          st0 = qs_can_write (length data) fin s;
          st1 = (if st0 = STATUS_SUCCESS then fc_can_reserve_send (length data) (qc_flow c) else st0)
      in if st1 = STATUS_DEVICE_BUSY then (STATUS_RETRY, qc_put_stream k (qs_mark_write_blocked s) c)
         else if st1 \<noteq> STATUS_SUCCESS then (st1, c)
         else if \<not> qc_network c then qc_write_accepted k data fin c
         else let estimated = (if length data > 1100 then 1200 else length data + 100)
           in if \<not> cc_can_send estimated (qe_now E) (rc_congestion (qc_recovery c))
              then (STATUS_RETRY, (qc_put_stream k (qs_mark_write_blocked s) c)\<lparr>qc_pacing_pending := True\<rparr>)
              else case qc_send_application E (frame_new\<lparr>fr_kind := FkStream, fr_stream_id := qs_id s,
                          fr_offset := qs_send_offset s, fr_data := data, fr_fin := fin\<rparr>) c of
                (st, c1) \<Rightarrow> if st \<noteq> STATUS_SUCCESS then (st, c1) else qc_write_accepted k data fin c1)"

text \<open>
  The loop over pieces of 1024 bytes; the environment of each piece is that of its offset. The result is
  the status, \<open>*bytesWritten\<close> and the connection.
\<close>

function qc_write_loop ::
    "(nat \<Rightarrow> 'tls quic_env) \<Rightarrow> nat \<Rightarrow> bytes \<Rightarrow> bool \<Rightarrow> nat \<Rightarrow> 'tls quic_connection \<Rightarrow> ntstatus \<times> nat \<times> 'tls quic_connection" where
  "qc_write_loop E k data fin offset c =
     (if offset \<ge> length data then (STATUS_SUCCESS, offset, c)
      else let remaining = length data - offset;
               n = (if remaining > 1024 then 1024 else remaining)
        in case qc_send_stream_frame (E offset) k (view data offset n) (fin \<and> n = remaining) c of
             (st, c1) \<Rightarrow> if st \<noteq> STATUS_SUCCESS then (st, offset, c1)
                         else qc_write_loop E k data fin (offset + n) c1)"
  by pat_completeness auto

termination
  by (relation "measure (\<lambda>(E, k, data, fin, offset, c). length data - offset)") auto

declare qc_write_loop.simps [simp del]

definition qc_application_write ::
    "(nat \<Rightarrow> 'tls quic_env) \<Rightarrow> nat \<Rightarrow> bytes \<Rightarrow> bool \<Rightarrow> 'tls quic_connection \<Rightarrow> ntstatus \<times> nat \<times> 'tls quic_connection" where
  "qc_application_write E i data fin c =
     (case qc_find_stream i c of
        None \<Rightarrow> (STATUS_NOT_FOUND, 0, c)
      | Some k \<Rightarrow>
          (case qc_write_loop E k data fin 0 c of (st, n, c1) \<Rightarrow>
             if st \<noteq> STATUS_SUCCESS then (st, n, c1)
             else if data = [] \<and> fin
             then (case qc_send_stream_frame (E 0) k [] True c1 of (st', c2) \<Rightarrow> (st', n, c2))
             else (STATUS_SUCCESS, n, c1)))"

section \<open>Opening, consuming, resetting\<close>

text \<open>The result is the status, the new stream's position, and the connection.\<close>

definition qc_application_open ::
    "'tls quic_env \<Rightarrow> bool \<Rightarrow> 'tls quic_connection \<Rightarrow> ntstatus \<times> nat \<times> 'tls quic_connection" where
  "qc_application_open E bidirectional c =
     (if qc_state c \<noteq> ConnEstablished then (STATUS_DEVICE_NOT_READY, 0, c)
      else case qc_create_stream E (if bidirectional then qc_next_bidi c else qc_next_uni c) c of (st, c1) \<Rightarrow>
        if st \<noteq> STATUS_SUCCESS then (st, 0, c1)
        else (STATUS_SUCCESS, length (qc_streams c1) - 1,
              if bidirectional then c1\<lparr>qc_next_bidi := qc_next_bidi c1 + 4\<rparr>
              else c1\<lparr>qc_next_uni := qc_next_uni c1 + 4\<rparr>))"

text \<open>The result is the status, the bytes, the end mark, and the connection.\<close>

definition qc_application_consume ::
    "nat \<Rightarrow> nat \<Rightarrow> 'tls quic_connection \<Rightarrow> ntstatus \<times> bytes \<times> bool \<times> 'tls quic_connection" where
  "qc_application_consume i capacity c =
     (case qc_find_stream i c of
        None \<Rightarrow> (STATUS_NOT_FOUND, [], False, c)
      | Some k \<Rightarrow>
          (case qs_consume capacity (qc_streams c ! k) of (st, out, fin, s) \<Rightarrow>
             let c1 = qc_put_stream k s c
             in if st = STATUS_SUCCESS \<and> out \<noteq> []
                then (case fc_on_stream_consumed (length out) (qc_flow c1) of (st', f) \<Rightarrow>
                        (st', out, fin, c1\<lparr>qc_flow := f\<rparr>))
                else (st, out, fin, c1)))"

definition qc_application_reset ::
    "'tls quic_env \<Rightarrow> nat \<Rightarrow> nat \<Rightarrow> 'tls quic_connection \<Rightarrow> ntstatus \<times> 'tls quic_connection" where
  "qc_application_reset E i applicationError c =
     (if applicationError > QuicVarIntMaximum then (STATUS_INVALID_PARAMETER, c)
      else case qc_find_stream i c of
        None \<Rightarrow> (STATUS_NOT_FOUND, c)
      | Some k \<Rightarrow>
          (case (if qc_network c
                 then qc_send_application E (frame_new\<lparr>fr_kind := FkResetStream, fr_stream_id := i,
                        fr_error_code := applicationError, fr_final_size := qs_send_offset (qc_streams c ! k)\<rparr>) c
                 else (STATUS_SUCCESS, c)) of (st, c1) \<Rightarrow>
             if st \<noteq> STATUS_SUCCESS then (st, c1)
             else case qs_reset applicationError (qs_send_offset (qc_streams c1 ! k)) (qc_streams c1 ! k) of
                    (st', s) \<Rightarrow> (st', qc_put_stream k s c1)))"

definition qc_application_stop_sending ::
    "'tls quic_env \<Rightarrow> nat \<Rightarrow> nat \<Rightarrow> 'tls quic_connection \<Rightarrow> ntstatus \<times> 'tls quic_connection" where
  "qc_application_stop_sending E i applicationError c =
     (if applicationError > QuicVarIntMaximum then (STATUS_INVALID_PARAMETER, c)
      else case qc_find_stream i c of
        None \<Rightarrow> (STATUS_NOT_FOUND, c)
      | Some k \<Rightarrow>
          (case (if qc_network c
                 then qc_send_application E (frame_new\<lparr>fr_kind := FkStopSending, fr_stream_id := i,
                        fr_error_code := applicationError\<rparr>) c
                 else (STATUS_SUCCESS, c)) of (st, c1) \<Rightarrow>
             if st \<noteq> STATUS_SUCCESS then (st, c1)
             else case qs_stop_sending applicationError (qc_streams c1 ! k) of
                    (st', s) \<Rightarrow> (st', qc_put_stream k s c1)))"

definition qc_application_close :: "'tls quic_env \<Rightarrow> nat \<Rightarrow> 'tls quic_connection \<Rightarrow> ntstatus \<times> 'tls quic_connection" where
  "qc_application_close E applicationError c =
     (if applicationError > QuicVarIntMaximum then (STATUS_INVALID_PARAMETER, c)
      else qc_enter_closing E applicationError True True c)"

end
