(* ===== verification/QuicConnectionReceive.thy ===== *)
theory QuicConnectionReceive
  imports QuicConnectionIds QuicConnectionStreams
begin

text \<open>
  What a connection does with a datagram, \<open>src/wknetlib/quic/QuicConnectionIo.cpp\<close>: the packets of the
  datagram, their keys, the check of the frames and their dispatch to recovery, streams, flow control and
  identifiers, and the progress of the handshake. The environment of a frame is that of its offset.
\<close>

section \<open>Frames\<close>

lemma parse_frame_advances: "quic_parse_frame data = Inr (f, n) \<Longrightarrow> 0 < n \<and> n \<le> length data"
  using parse_frame_shape [of data f n] by simp

text \<open>\<open>ValidateFrames\<close> from \<open>offset\<close> on, as the rest of the payload.\<close>

function qc_validate_frames :: "bytes \<Rightarrow> bool \<Rightarrow> bool result" where
  "qc_validate_frames data ackEliciting =
     (if data = [] then Inr ackEliciting
      else case quic_parse_frame data of
        Inl e \<Rightarrow> Inl e
      | Inr (f, consumed) \<Rightarrow>
          if consumed = 0 then Inl STATUS_INVALID_NETWORK_RESPONSE
          else qc_validate_frames (drop consumed data)
                 (ackEliciting \<or> (fr_kind f \<noteq> FkPadding \<and> fr_kind f \<noteq> FkAck \<and> fr_kind f \<noteq> FkConnectionClose)))"
  by pat_completeness auto

termination
  by (relation "measure (\<lambda>(data, b). length data)") auto

declare qc_validate_frames.simps [simp del]

definition qc_dispatch_ack ::
    "'tls quic_env \<Rightarrow> quic_space \<Rightarrow> quic_frame \<Rightarrow> 'tls quic_connection \<Rightarrow> ntstatus \<times> 'tls quic_connection" where
  "qc_dispatch_ack E space f c =
     (case quic_decode_ack_ranges f WKNET_HARD_MAX_QUIC_ACK_RANGES of
        Inl e \<Rightarrow> (e, c)
      | Inr ranges \<Rightarrow>
          let exponent = tp_ack_delay_exponent (tls_parameters E (qc_tls c))
          in if space = SpApplication
               \<and> (exponent > 20 \<or> fr_ack_delay f > drop_bit exponent u64_max
                    \<or> push_bit exponent (fr_ack_delay f) > u64_max div 10)
             then (STATUS_INVALID_NETWORK_RESPONSE, c)
             else let ackDelay = (if space = SpApplication then push_bit exponent (fr_ack_delay f) * 10 else 0)
               in case rc_on_ack_ranges (qe_now E) space ranges ackDelay (qc_recovery c) of
                    (st, r) \<Rightarrow>
                      let c1 = c\<lparr>qc_recovery := r\<rparr>
                      in (st, if st = STATUS_SUCCESS \<and> space = SpApplication
                              then qc_notify_writable_streams (qc_confirm_key_update ranges c1) else c1))"

text \<open>The stream a frame names, created when the peer opens it: a status or the position.\<close>

definition qc_stream_for ::
    "'tls quic_env \<Rightarrow> nat \<Rightarrow> 'tls quic_connection \<Rightarrow> nat result \<times> 'tls quic_connection" where
  "qc_stream_for E i c =
     (case qc_find_stream i c of
        Some k \<Rightarrow> (Inr k, c)
      | None \<Rightarrow>
          if stream_client_initiated i then (Inl STATUS_INVALID_NETWORK_RESPONSE, c)
          else case qc_create_stream E i c of (st, c1) \<Rightarrow>
                 if st \<noteq> STATUS_SUCCESS then (Inl st, c1) else (Inr (length (qc_streams c1) - 1), c1))"

definition qc_dispatch_stream ::
    "'tls quic_env \<Rightarrow> quic_frame \<Rightarrow> 'tls quic_connection \<Rightarrow> ntstatus \<times> 'tls quic_connection" where
  "qc_dispatch_stream E f c =
     (case qc_stream_for E (fr_stream_id f) c of
        (Inl e, c1) \<Rightarrow> (e, c1)
      | (Inr k, c1) \<Rightarrow>
          let previous = qs_highest (qc_streams c1 ! k)
          in case qs_receive (qe_alloc E AlReassembly) (fr_offset f) (fr_data f) (fr_fin f) False (qc_streams c1 ! k) of
               (st, s) \<Rightarrow>
                 let c2 = qc_put_stream k s c1
                 in if st \<noteq> STATUS_SUCCESS then (st, c2)
                    else case fc_on_stream_receive_progress previous (qs_highest s) (qc_flow c2) of (st', fl) \<Rightarrow>
                           let c3 = c2\<lparr>qc_flow := fl\<rparr>
                           in (st', if st' = STATUS_SUCCESS then qc_put_stream k (qs_notify_readable s) c3 else c3))"

definition qc_dispatch_reset ::
    "'tls quic_env \<Rightarrow> quic_frame \<Rightarrow> 'tls quic_connection \<Rightarrow> ntstatus \<times> 'tls quic_connection" where
  "qc_dispatch_reset E f c =
     (case qc_stream_for E (fr_stream_id f) c of
        (Inl e, c1) \<Rightarrow> (e, c1)
      | (Inr k, c1) \<Rightarrow>
          let previous = qs_highest (qc_streams c1 ! k)
          in case qs_on_reset_received (fr_error_code f) (fr_final_size f) (qc_streams c1 ! k) of (st, s) \<Rightarrow>
               let c2 = qc_put_stream k s c1
               in if st \<noteq> STATUS_SUCCESS then (st, c2)
                  else case fc_on_stream_receive_progress previous (fr_final_size f) (qc_flow c2) of
                         (st', fl) \<Rightarrow> (st', c2\<lparr>qc_flow := fl\<rparr>))"

definition qc_dispatch_stop_sending ::
    "'tls quic_env \<Rightarrow> quic_frame \<Rightarrow> 'tls quic_connection \<Rightarrow> ntstatus \<times> 'tls quic_connection" where
  "qc_dispatch_stop_sending E f c =
     (case qc_find_stream (fr_stream_id f) c of
        None \<Rightarrow> (STATUS_INVALID_NETWORK_RESPONSE, c)
      | Some k \<Rightarrow>
          let resetAlreadySent = qs_reset_sent (qc_streams c ! k)
          in case qs_stop_sending (fr_error_code f) (qc_streams c ! k) of (st, s) \<Rightarrow>
               let c1 = qc_put_stream k s c
               in if st \<noteq> STATUS_SUCCESS \<or> resetAlreadySent then (st, c1)
                  else case qc_send_application E (frame_new\<lparr>fr_kind := FkResetStream, fr_stream_id := fr_stream_id f,
                              fr_error_code := fr_error_code f, fr_final_size := qs_send_offset s\<rparr>) c1 of (st', c2) \<Rightarrow>
                         if st' \<noteq> STATUS_SUCCESS then (st', c2)
                         else case qs_reset (fr_error_code f) (qs_send_offset (qc_streams c2 ! k)) (qc_streams c2 ! k) of
                                (st'', s') \<Rightarrow> (st'', qc_put_stream k s' c2))"

definition qc_dispatch_max_streams :: "quic_frame \<Rightarrow> 'tls quic_connection \<Rightarrow> ntstatus \<times> 'tls quic_connection" where
  "qc_dispatch_max_streams f c =
     (if fr_maximum f > 2 ^ 60 then (STATUS_INVALID_NETWORK_RESPONSE, c)
      else (STATUS_SUCCESS,
            if fr_bidirectional f
            then (if fr_maximum f > qc_max_bidi c
                  then c\<lparr>qc_max_bidi := (if fr_maximum f < WKNET_HARD_MAX_QUIC_LOCAL_BIDI_STREAMS then fr_maximum f
                                         else WKNET_HARD_MAX_QUIC_LOCAL_BIDI_STREAMS)\<rparr> else c)
            else (if fr_maximum f > qc_max_uni c
                  then c\<lparr>qc_max_uni := (if fr_maximum f < WKNET_HARD_MAX_QUIC_LOCAL_UNI_STREAMS then fr_maximum f
                                        else WKNET_HARD_MAX_QUIC_LOCAL_UNI_STREAMS)\<rparr> else c)))"

definition qc_dispatch_handshake_done ::
    "'tls quic_env \<Rightarrow> 'tls quic_connection \<Rightarrow> ntstatus \<times> 'tls quic_connection" where
  "qc_dispatch_handshake_done E c =
     (if tls_state E (qc_tls c) \<noteq> TlsEstablished then (STATUS_INVALID_NETWORK_RESPONSE, c)
      else case tls_confirm E (qc_tls c) of (st, tls) \<Rightarrow>
        let c1 = c\<lparr>qc_tls := tls\<rparr>
        in (st, if st = STATUS_SUCCESS then qc_complete_waiter STATUS_SUCCESS (c1\<lparr>qc_state := ConnEstablished\<rparr>) else c1))"

text \<open>\<open>Padding\<close>, \<open>Ping\<close>, \<open>Ack\<close> and \<open>Crypto\<close> come before the time of the last activity is set.\<close>

definition qc_dispatch_other ::
    "'tls quic_env \<Rightarrow> quic_level \<Rightarrow> quic_frame \<Rightarrow> 'tls quic_connection \<Rightarrow> ntstatus \<times> 'tls quic_connection" where
  "qc_dispatch_other E level f c =
     (if level \<noteq> LvApplication
      then (if fr_kind f = FkConnectionClose \<and> fr_wire_type f \<noteq> 0x1d
            then (STATUS_SUCCESS, qc_enter_draining E c) else (STATUS_INVALID_NETWORK_RESPONSE, c))
      else case fr_kind f of
        FkNewToken \<Rightarrow>
          (case qc_tokens c of
             None \<Rightarrow> (STATUS_SUCCESS, c)
           | Some t \<Rightarrow> (case tc_store (qe_alloc E AlToken) (fr_data f) t of (st, t') \<Rightarrow> (st, c\<lparr>qc_tokens := Some t'\<rparr>)))
      | FkMaxData \<Rightarrow>
          (case fc_on_max_data (fr_maximum f) (qc_flow c) of (st, fl) \<Rightarrow>
             (st, if st = STATUS_SUCCESS then qc_notify_writable_streams (c\<lparr>qc_flow := fl\<rparr>) else c\<lparr>qc_flow := fl\<rparr>))
      | FkStream \<Rightarrow> qc_dispatch_stream E f c
      | FkResetStream \<Rightarrow> qc_dispatch_reset E f c
      | FkStopSending \<Rightarrow> qc_dispatch_stop_sending E f c
      | FkMaxStreamData \<Rightarrow>
          (case qc_find_stream (fr_stream_id f) c of
             None \<Rightarrow> (STATUS_INVALID_NETWORK_RESPONSE, c)
           | Some k \<Rightarrow> (case qs_on_max_stream_data (fr_maximum f) (qc_streams c ! k) of (st, s) \<Rightarrow> (st, qc_put_stream k s c)))
      | FkMaxStreams \<Rightarrow> qc_dispatch_max_streams f c
      | FkDataBlocked \<Rightarrow> (STATUS_SUCCESS, c)
      | FkStreamDataBlocked \<Rightarrow> (STATUS_SUCCESS, c)
      | FkStreamsBlocked \<Rightarrow> (STATUS_SUCCESS, c)
      | FkNewConnectionId \<Rightarrow> qc_handle_new_id E f c
      | FkRetireConnectionId \<Rightarrow> qc_handle_retire_id E f c
      | FkPathChallenge \<Rightarrow>
          if length (fr_data f) \<noteq> 8 then (STATUS_INVALID_NETWORK_RESPONSE, c)
          else qc_send_application E (frame_new\<lparr>fr_kind := FkPathResponse, fr_data := fr_data f\<rparr>) c
      | FkPathResponse \<Rightarrow> (STATUS_SUCCESS, c)
      | FkConnectionClose \<Rightarrow> (STATUS_SUCCESS, qc_enter_draining E c)
      | FkHandshakeDone \<Rightarrow> qc_dispatch_handshake_done E c
      | _ \<Rightarrow> (STATUS_NOT_SUPPORTED, c))"

definition qc_dispatch_frame ::
    "'tls quic_env \<Rightarrow> quic_level \<Rightarrow> quic_space \<Rightarrow> quic_frame \<Rightarrow> 'tls quic_connection \<Rightarrow> ntstatus \<times> 'tls quic_connection" where
  "qc_dispatch_frame E level space f c =
     (if fr_kind f = FkPadding \<or> fr_kind f = FkPing then (STATUS_SUCCESS, c)
      else if fr_kind f = FkAck then qc_dispatch_ack E space f c
      else if fr_kind f = FkCrypto
      then (case tls_receive_crypto E level (fr_offset f) (fr_data f) (qc_tls c) of (st, tls) \<Rightarrow> (st, c\<lparr>qc_tls := tls\<rparr>))
      else qc_dispatch_other E level f (c\<lparr>qc_last_activity := qe_now E\<rparr>))"

function qc_dispatch_frames ::
    "(nat \<Rightarrow> 'tls quic_env) \<Rightarrow> quic_level \<Rightarrow> quic_space \<Rightarrow> bytes \<Rightarrow> nat \<Rightarrow> 'tls quic_connection
      \<Rightarrow> ntstatus \<times> 'tls quic_connection" where
  "qc_dispatch_frames E level space data offset c =
     (if data = [] then (STATUS_SUCCESS, c)
      else case quic_parse_frame data of
        Inl e \<Rightarrow> (e, c)
      | Inr (f, consumed) \<Rightarrow>
          (case qc_dispatch_frame (E offset) level space f c of (st, c1) \<Rightarrow>
             if st \<noteq> STATUS_SUCCESS then (st, c1)
             else qc_dispatch_frames E level space (drop consumed data) (offset + consumed) c1))"
  by pat_completeness auto

termination
  by (relation "measure (\<lambda>(E, level, space, data, offset, c). length data)") (auto dest: parse_frame_advances)

declare qc_dispatch_frames.simps [simp del]

end
