(* ===== verification/QuicConnectionPackets.thy ===== *)
theory QuicConnectionPackets
  imports QuicConnectionReceive
begin

text \<open>
  A received datagram, \<open>ProcessDatagram\<close>, \<open>ProcessPacket\<close> and \<open>HandleTlsProgress\<close> of
  \<open>src/wknetlib/quic/QuicConnectionIo.cpp\<close>: Retry and Version Negotiation, the choice of the key, the key
  phases, the payload, and what the handshake makes the client send. The environment \<open>E k\<close> is that of the
  \<open>k\<close>-th packet of the datagram, and \<open>F k\<close> gives the ones of its frames by offset.
\<close>

section \<open>Handshake progress\<close>

text \<open>\<open>tls_.State() >= AwaitCertificate\<close>.\<close>

definition tls_parameters_known :: "quic_tls_state \<Rightarrow> bool" where
  "tls_parameters_known st \<longleftrightarrow>
     st \<notin> {TlsIdle, TlsAwaitServerHello, TlsAwaitSharedSecret, TlsAwaitEncryptedExtensions}"

text \<open>
  What the handshake writes into \<open>clientHelloBuffer_\<close>, of which \<open>qc_hello\<close> is the part a Retry sends again.
\<close>

definition qc_overwrite_hello :: "bytes \<Rightarrow> 'tls quic_connection \<Rightarrow> 'tls quic_connection" where
  "qc_overwrite_hello out c =
     c\<lparr>qc_hello := take (length (qc_hello c)) (out @ drop (length out) (qc_hello c))\<rparr>"

definition qc_send_initial_output ::
    "'tls quic_env \<Rightarrow> bytes \<Rightarrow> 'tls quic_connection \<Rightarrow> ntstatus \<times> 'tls quic_connection" where
  "qc_send_initial_output E out c =
     (case qc_send_crypto_packet E PtInitial SpInitial InitialWriteKey (qc_initial_offset c) out True c of
        (st, c1) \<Rightarrow>
          (st, if st = STATUS_SUCCESS then c1\<lparr>qc_initial_offset := qc_initial_offset c1 + length out\<rparr> else c1))"

text \<open>The connection identifiers the peer's parameters must repeat.\<close>

definition qc_ids_authentic :: "'tls quic_connection \<Rightarrow> transport_parameters \<Rightarrow> bool" where
  "qc_ids_authentic c p \<longleftrightarrow> tp_original_dcid p = qc_initial_dcid c \<and> tp_initial_scid p = qc_peer_id c
     \<and> (if av_retry_accepted (qc_attempt c) then tp_retry_scid p = av_retry_scid (qc_attempt c)
        else tp_retry_scid p = [])"

definition qc_set_reset_token :: "bytes \<Rightarrow> 'tls quic_connection \<Rightarrow> 'tls quic_connection" where
  "qc_set_reset_token token c =
     (if length token = 16 \<and> qc_peer_ids c \<noteq> []
      then c\<lparr>qc_peer_ids := (qc_peer_ids c)[0 := (qc_peer_ids c ! 0)\<lparr>ce_token := Some token\<rparr>]\<rparr> else c)"

definition qc_apply_parameters ::
    "'tls quic_env \<Rightarrow> 'tls quic_connection \<Rightarrow> ntstatus \<times> 'tls quic_connection" where
  "qc_apply_parameters E c =
     (let p = tls_parameters E (qc_tls c)
      in if \<not> qc_ids_authentic c p then (STATUS_INVALID_NETWORK_RESPONSE, c)
         else case fc_on_max_data (tp_initial_max_data p) (qc_flow c) of (st, fl) \<Rightarrow>
           let c1 = c\<lparr>qc_flow := fl\<rparr>
           in if st \<noteq> STATUS_SUCCESS then (st, c1)
              else let c2 = qc_set_reset_token (tp_stateless_reset_token p) (c1\<lparr>
                     qc_max_bidi := (if tp_max_streams_bidi p < WKNET_HARD_MAX_QUIC_LOCAL_BIDI_STREAMS
                                     then tp_max_streams_bidi p else WKNET_HARD_MAX_QUIC_LOCAL_BIDI_STREAMS),
                     qc_max_uni := (if tp_max_streams_uni p < WKNET_HARD_MAX_QUIC_LOCAL_UNI_STREAMS
                                    then tp_max_streams_uni p else WKNET_HARD_MAX_QUIC_LOCAL_UNI_STREAMS)\<rparr>);
                       peerIdle = tp_max_idle_timeout p * 10000
                in if tp_max_idle_timeout p > u64_max div 10000 then (STATUS_INTEGER_OVERFLOW, c2)
                   else (STATUS_SUCCESS, c2\<lparr>qc_params_applied := True,
                          qc_idle_timeout := (if tp_max_idle_timeout p \<noteq> 0
                             \<and> (qc_idle_timeout c2 = 0 \<or> peerIdle < qc_idle_timeout c2)
                             then peerIdle else qc_idle_timeout c2)\<rparr>))"

definition qc_send_finished :: "'tls quic_env \<Rightarrow> 'tls quic_connection \<Rightarrow> ntstatus \<times> 'tls quic_connection" where
  "qc_send_finished E c =
     (case qc_install_application_keys E c of (st, c1) \<Rightarrow>
        if st \<noteq> STATUS_SUCCESS then (st, c1)
        else case tls_take_handshake E (qc_tls c1) of (r, tls) \<Rightarrow>
          let c2 = c1\<lparr>qc_tls := tls\<rparr>
          in case r of
               Inl e \<Rightarrow> (if e = STATUS_INVALID_PARAMETER then STATUS_SUCCESS else e, c2)
             | Inr out \<Rightarrow>
                 (case qc_send_crypto_packet E PtHandshake SpHandshake HandshakeWriteKey (qc_handshake_offset c2) out
                         False (qc_overwrite_hello out c2) of (st', c3) \<Rightarrow>
                    (st', if st' = STATUS_SUCCESS
                          then c3\<lparr>qc_handshake_offset := qc_handshake_offset c3 + length out, qc_finished_sent := True\<rparr>
                          else c3)))"

definition qc_handle_tls_progress :: "'tls quic_env \<Rightarrow> 'tls quic_connection \<Rightarrow> ntstatus \<times> 'tls quic_connection" where
  "qc_handle_tls_progress E c =
     (case tls_take_initial E (qc_tls c) of (r, tls) \<Rightarrow>
        let c1 = c\<lparr>qc_tls := tls\<rparr>
        in case r of
             Inr out \<Rightarrow> qc_send_initial_output E out (qc_overwrite_hello out c1)
           | Inl e \<Rightarrow>
               if e \<noteq> STATUS_NOT_FOUND then (e, c1)
               else case (if \<not> qc_params_applied c1 \<and> tls_parameters_known (tls_state E (qc_tls c1))
                          then qc_apply_parameters E c1 else (STATUS_SUCCESS, c1)) of (st, c2) \<Rightarrow>
                 if st \<noteq> STATUS_SUCCESS then (st, c2)
                 else if tls_state E (qc_tls c2) = TlsFailed then (STATUS_CONNECTION_ABORTED, c2)
                 else if tls_state E (qc_tls c2) = TlsEstablished \<and> \<not> qc_finished_sent c2
                 then qc_send_finished E c2 else (STATUS_SUCCESS, c2))"

section \<open>Retry\<close>

text \<open>The identifier the packets go to, also the first entry of the table.\<close>

definition qc_set_first_peer_id :: "bytes \<Rightarrow> 'tls quic_connection \<Rightarrow> 'tls quic_connection" where
  "qc_set_first_peer_id i c =
     c\<lparr>qc_peer_id := i,
       qc_peer_ids := (if qc_peer_ids c = [] then [] else (qc_peer_ids c)[0 := (qc_peer_ids c ! 0)\<lparr>ce_id := i\<rparr>])\<rparr>"

definition qc_restart_initial :: "'tls quic_env \<Rightarrow> 'tls quic_connection \<Rightarrow> ntstatus \<times> 'tls quic_connection" where
  "qc_restart_initial E c =
     (case quic_derive_initial_key_sets (qe_crypto E) (qe_alloc E AlKeys) (av_retry_scid (qc_attempt c)) of
        Inl e \<Rightarrow> (e, c\<lparr>qc_initial_write := quic_clear_key_set, qc_initial_read := quic_clear_key_set\<rparr>)
      | Inr (client, server) \<Rightarrow>
          let c1 = c\<lparr>qc_initial_write := client, qc_initial_read := server,
                     qc_next_pn := (qc_next_pn c)(SpInitial := 0),
                     qc_expected_pn := (qc_expected_pn c)(SpInitial := 0)\<rparr>
          in case rc_initialize (qe_alloc E AlRecovery) WKNET_HARD_MAX_QUIC_SENT_PACKETS (qc_recovery c1) of (st, r) \<Rightarrow>
               let c2 = c1\<lparr>qc_recovery := r\<rparr>
               in if st \<noteq> STATUS_SUCCESS then (st, c2)
                  else case ack_initialize (qe_alloc E AlTracker) WKNET_HARD_MAX_QUIC_ACK_RANGES
                              (qc_trackers c2 SpInitial) of (st', t) \<Rightarrow>
                    let c3 = c2\<lparr>qc_trackers := (qc_trackers c2)(SpInitial := t)\<rparr>
                    in if st' \<noteq> STATUS_SUCCESS then (st', c3)
                       else qc_send_crypto_packet E PtInitial SpInitial InitialWriteKey 0 (qc_hello c3) True c3)"

definition qc_process_retry ::
    "'tls quic_env \<Rightarrow> packet_header \<Rightarrow> bytes \<Rightarrow> 'tls quic_connection \<Rightarrow> ntstatus \<times> 'tls quic_connection" where
  "qc_process_retry E h packet c =
     (case av_validate_retry (quic_validate_retry_tag (qe_crypto E) (\<lambda>k. qe_alloc E (AlRetry k)))
             (qe_alloc E AlRetryToken) h packet (qc_attempt c) of (st, v) \<Rightarrow>
        let c1 = c\<lparr>qc_attempt := v\<rparr>
        in if st \<noteq> STATUS_SUCCESS
           then (if st = STATUS_INVALID_NETWORK_RESPONSE then STATUS_SUCCESS else st, c1)
           else qc_restart_initial E (qc_set_first_peer_id (av_retry_scid v) c1))"

section \<open>Keys and key phases\<close>

datatype read_key_selection = CurrentKey | NextKey | PreviousKey

definition selected_key :: "read_key_selection \<Rightarrow> 'tls quic_connection \<Rightarrow> quic_key_set" where
  "selected_key sel c =
     (case sel of CurrentKey \<Rightarrow> qc_app_read c | NextKey \<Rightarrow> qc_next_read c | PreviousKey \<Rightarrow> qc_previous_read c)"

text \<open>The key of a 1-RTT packet; the left result ends the packet with that status.\<close>

definition qc_select_read_key ::
    "'tls quic_env \<Rightarrow> packet_header \<Rightarrow> bytes \<Rightarrow> 'tls quic_connection \<Rightarrow> read_key_selection result" where
  "qc_select_read_key E h packet c =
     (case quic_inspect_protected_header (qe_crypto E) (\<lambda>k. qe_alloc E (AlOpen (k + 3))) (qc_app_read c) packet
             (ph_pn_offset h) (qc_expected_pn c SpApplication) of
        Inl e \<Rightarrow> Inl (if e = STATUS_INSUFFICIENT_RESOURCES then e else STATUS_SUCCESS)
      | Inr (b, pn) \<Rightarrow>
          if (b AND 0x04 \<noteq> 0) = qc_receive_phase c then Inr CurrentKey
          else if qc_previous_valid c \<and> pn < qc_receive_phase_start c then Inr PreviousKey
          else Inr NextKey)"

text \<open>After the packet was opened with the selected key: the update of the read keys.\<close>

definition qc_accept_phase ::
    "'tls quic_env \<Rightarrow> read_key_selection \<Rightarrow> bool \<Rightarrow> nat \<Rightarrow> 'tls quic_connection \<Rightarrow> ntstatus \<times> 'tls quic_connection" where
  "qc_accept_phase E sel phase pn c =
     (case sel of
        CurrentKey \<Rightarrow> (if phase \<noteq> qc_receive_phase c then STATUS_INVALID_NETWORK_RESPONSE else STATUS_SUCCESS, c)
      | PreviousKey \<Rightarrow>
          (if \<not> qc_previous_valid c \<or> phase \<noteq> qc_previous_phase c then STATUS_INVALID_NETWORK_RESPONSE
           else STATUS_SUCCESS, c)
      | NextKey \<Rightarrow>
          if phase = qc_receive_phase c then (STATUS_INVALID_NETWORK_RESPONSE, c)
          else let c1 = c\<lparr>qc_previous_read := qc_app_read c, qc_previous_phase := qc_receive_phase c,
                          qc_previous_valid := True, qc_app_read := qc_next_read c, qc_receive_phase := phase,
                          qc_receive_phase_start := pn\<rparr>
            in case quic_derive_next_key_set (qe_crypto E) (qe_alloc E AlKeys) (qc_app_read c1) of
                 Inl e \<Rightarrow> (e, c1\<lparr>qc_next_read := quic_clear_key_set\<rparr>)
               | Inr k \<Rightarrow>
                   (STATUS_SUCCESS, c1\<lparr>qc_next_read := k,
                      qc_previous_deadline := deadline_after (qe_now E)
                        (if smoothedRtt (qc_recovery c1) = 0 then 10000000 else smoothedRtt (qc_recovery c1)) 3\<rparr>))"

definition qc_learn_peer_id :: "packet_header \<Rightarrow> 'tls quic_connection \<Rightarrow> 'tls quic_connection" where
  "qc_learn_peer_id h c =
     (if ph_is_long h \<and> ph_scid h \<noteq> [] \<and> \<not> qc_id_authenticated c
      then (qc_set_first_peer_id (ph_scid h) c)\<lparr>qc_id_authenticated := True\<rparr> else c)"

section \<open>The payload\<close>

definition qc_note_error :: "nat \<Rightarrow> 'tls quic_connection \<Rightarrow> 'tls quic_connection" where
  "qc_note_error code c = (if qc_pending_error c = 0 then c\<lparr>qc_pending_error := code\<rparr> else c)"

definition qc_tls_error_or :: "'tls quic_env \<Rightarrow> nat \<Rightarrow> 'tls quic_connection \<Rightarrow> nat" where
  "qc_tls_error_or E code c = (if tls_error E (qc_tls c) \<noteq> 0 then tls_error E (qc_tls c) else code)"

text \<open>The frames of a packet that was not received before, the handshake and the acknowledgement.\<close>

definition qc_ack_if_due ::
    "'tls quic_env \<Rightarrow> quic_space \<Rightarrow> 'tls quic_connection \<Rightarrow> ntstatus \<times> 'tls quic_connection" where
  "qc_ack_if_due E space c =
     (if at_pending (qc_trackers c space)
        \<and> ack_deadline (tp_max_ack_delay (tls_parameters E (qc_tls c))) (qc_trackers c space) \<le> qe_now E
      then qc_send_ack E space c else (STATUS_SUCCESS, c))"

definition qc_process_frames ::
    "'tls quic_env \<Rightarrow> (nat \<Rightarrow> 'tls quic_env) \<Rightarrow> quic_level \<Rightarrow> quic_space \<Rightarrow> bytes \<Rightarrow> 'tls quic_connection
      \<Rightarrow> ntstatus \<times> 'tls quic_connection" where
  "qc_process_frames E F level space payload c =
     (case qc_dispatch_frames F level space payload 0 c of (st, c1) \<Rightarrow>
        if st \<noteq> STATUS_SUCCESS
        then (st, qc_note_error (qc_tls_error_or E (if st = STATUS_INSUFFICIENT_RESOURCES then 0x1 else 0xa) c1) c1)
        else case qc_handle_tls_progress E c1 of (st', c2) \<Rightarrow>
          if st' \<noteq> STATUS_SUCCESS then (st', qc_note_error (qc_tls_error_or E 0xa c2) c2)
          else qc_ack_if_due E space c2)"

definition qc_process_payload ::
    "'tls quic_env \<Rightarrow> (nat \<Rightarrow> 'tls quic_env) \<Rightarrow> quic_level \<Rightarrow> quic_space \<Rightarrow> nat \<Rightarrow> bytes \<Rightarrow> 'tls quic_connection
      \<Rightarrow> ntstatus \<times> 'tls quic_connection" where
  "qc_process_payload E F level space pn payload c =
     (case qc_validate_frames payload False of
        Inl e \<Rightarrow> (e, c\<lparr>qc_pending_error := 0x7\<rparr>)
      | Inr ackEliciting \<Rightarrow>
          (case on_packet_received pn ackEliciting (space \<noteq> SpApplication) (qe_now E) (qc_trackers c space) of
             (st, duplicate, t) \<Rightarrow>
               let c1 = c\<lparr>qc_pending_error := 0, qc_trackers := (qc_trackers c)(space := t)\<rparr>
               in if st \<noteq> STATUS_SUCCESS \<or> duplicate then (st, c1)
                  else qc_process_frames E F level space payload
                    (if pn \<ge> qc_expected_pn c1 space
                     then c1\<lparr>qc_expected_pn := (qc_expected_pn c1)(space := pn + 1)\<rparr> else c1)))"

section \<open>Packets and datagrams\<close>

definition packet_level :: "quic_packet_type \<Rightarrow> (quic_level \<times> quic_space) option" where
  "packet_level type =
     (case type of PtInitial \<Rightarrow> Some (LvInitial, SpInitial) | PtHandshake \<Rightarrow> Some (LvHandshake, SpHandshake)
      | PtOneRtt \<Rightarrow> Some (LvApplication, SpApplication) | _ \<Rightarrow> None)"

definition qc_read_key :: "'tls quic_env \<Rightarrow> quic_packet_type \<Rightarrow> 'tls quic_connection \<Rightarrow> quic_key_set" where
  "qc_read_key E type c =
     (if type = PtInitial then qc_initial_read c
      else if type = PtHandshake then tls_handshake_read E (qc_tls c) else qc_app_read c)"

text \<open>A packet that was opened: \<open>packet\<close> is the decrypted one, \<open>n\<close> the length of its plaintext.\<close>

definition qc_process_opened ::
    "'tls quic_env \<Rightarrow> (nat \<Rightarrow> 'tls quic_env) \<Rightarrow> quic_packet_type \<Rightarrow> quic_level \<Rightarrow> quic_space \<Rightarrow> read_key_selection
      \<Rightarrow> bytes \<Rightarrow> nat \<Rightarrow> nat \<Rightarrow> 'tls quic_connection \<Rightarrow> ntstatus \<times> 'tls quic_connection" where
  "qc_process_opened E F type level space sel packet pn n c =
     (case quic_parse_packet_header packet (length (qc_source_id c)) of
        Inl e \<Rightarrow> (e, c)
      | Inr h \<Rightarrow>
          (case (if ph_type h = PtOneRtt then qc_accept_phase E sel (ph_first_byte h AND 0x04 \<noteq> 0) pn c
                 else (STATUS_SUCCESS, c)) of (st, c1) \<Rightarrow>
             if st \<noteq> STATUS_SUCCESS then (st, c1)
             else qc_process_payload E F level space pn (view packet (ph_payload_offset h) n) (qc_learn_peer_id h c1)))"

definition qc_open_packet ::
    "'tls quic_env \<Rightarrow> (nat \<Rightarrow> 'tls quic_env) \<Rightarrow> packet_header \<Rightarrow> bytes \<Rightarrow> quic_level \<Rightarrow> quic_space
      \<Rightarrow> 'tls quic_connection \<Rightarrow> ntstatus \<times> 'tls quic_connection" where
  "qc_open_packet E F h packet level space c =
     (let type = ph_type h
      in if length packet > WKNET_HARD_MAX_QUIC_UDP_PAYLOAD_BYTES then (STATUS_INVALID_NETWORK_RESPONSE, c)
         else case (if type = PtOneRtt then qc_select_read_key E h packet c else Inr CurrentKey) of
           Inl st \<Rightarrow> (st, c)
         | Inr sel \<Rightarrow>
             (case quic_unprotect_packet (qe_crypto E) (\<lambda>k. qe_alloc E (AlOpen k))
                     (if type = PtOneRtt then selected_key sel c else qc_read_key E type c) packet
                     (ph_pn_offset h) (qc_expected_pn c space) of
                (Inl e, buffer) \<Rightarrow>
                  (STATUS_SUCCESS,
                   if type = PtOneRtt \<and> qc_matches_stateless_reset (qe_now E) packet c then qc_enter_draining E c else c)
              | (Inr (pn, n), buffer) \<Rightarrow> qc_process_opened E F type level space sel buffer pn n c))"

definition qc_process_packet ::
    "'tls quic_env \<Rightarrow> (nat \<Rightarrow> 'tls quic_env) \<Rightarrow> packet_header \<Rightarrow> bytes \<Rightarrow> 'tls quic_connection
      \<Rightarrow> ntstatus \<times> 'tls quic_connection" where
  "qc_process_packet E F h packet c =
     (if ph_type h = PtVersionNegotiation
      then (case av_validate_version_negotiation h [QuicVersion1] (qc_attempt c) of (st, selected, v) \<Rightarrow>
              (if st = STATUS_INVALID_NETWORK_RESPONSE then STATUS_SUCCESS else st, c\<lparr>qc_attempt := v\<rparr>))
      else if ph_type h = PtRetry then qc_process_retry E h packet c
      else if \<not> qc_is_local_id (qe_now E) (ph_dcid h) c then (STATUS_INVALID_NETWORK_RESPONSE, c)
      else case packet_level (ph_type h) of
        None \<Rightarrow> (STATUS_NOT_SUPPORTED, c)
      | Some (level, space) \<Rightarrow>
          let c1 = (if ph_type h = PtOneRtt then qc_discard_expired_read_key (qe_now E) c else c)
          in if key_absent (qc_read_key E (ph_type h) c1) then (STATUS_SUCCESS, c1)
             else qc_open_packet E F h packet level space c1)"

text \<open>The loop over the packets, \<open>k\<close> counting them.\<close>

function qc_process_packets ::
    "(nat \<Rightarrow> 'tls quic_env) \<Rightarrow> (nat \<Rightarrow> nat \<Rightarrow> 'tls quic_env) \<Rightarrow> packet_iterator \<Rightarrow> nat \<Rightarrow> 'tls quic_connection
      \<Rightarrow> ntstatus \<times> 'tls quic_connection" where
  "qc_process_packets E F it k c =
     (case quic_packet_iterator_next it of
        (Inl e, it1) \<Rightarrow> (if e = STATUS_NOT_FOUND then STATUS_SUCCESS else e, c)
      | (Inr (h, packet), it1) \<Rightarrow>
          (case qc_process_packet (E k) (F k) h packet c of (st, c1) \<Rightarrow>
             if st \<noteq> STATUS_SUCCESS then (st, c1) else qc_process_packets E F it1 (Suc k) c1))"
  by pat_completeness auto

termination
  by (relation "measure (\<lambda>(E, F, it, k, c). length (pi_datagram it) - pi_offset it)")
     (auto simp: quic_packet_iterator_next_def Let_def split: if_splits sum.splits)

declare qc_process_packets.simps [simp del]

definition qc_process_datagram ::
    "(nat \<Rightarrow> 'tls quic_env) \<Rightarrow> (nat \<Rightarrow> nat \<Rightarrow> 'tls quic_env) \<Rightarrow> bytes \<Rightarrow> 'tls quic_connection
      \<Rightarrow> ntstatus \<times> 'tls quic_connection" where
  "qc_process_datagram E F datagram c =
     (if datagram = [] \<or> length datagram > WKNET_HARD_MAX_QUIC_UDP_PAYLOAD_BYTES
      then (STATUS_INVALID_NETWORK_RESPONSE, c)
      else qc_process_packets E F (quic_packet_iterator_initialize datagram (length (qc_source_id c))) 0 c)"

end
