(* ===== verification/QuicConnectionTimers.thy ===== *)
theory QuicConnectionTimers
  imports QuicConnectionSend
begin

text \<open>
  The timers of a connection, \<open>NextDeadline100ns\<close> and \<open>ProcessDeadlines\<close> of
  \<open>src/wknetlib/quic/QuicConnection.cpp\<close>. The environment \<open>E 0\<close> gives the time \<open>ProcessDeadlines\<close> starts at;
  the later ones are those of its sends.
\<close>

definition all_spaces :: "quic_space list" where
  "all_spaces = [SpInitial, SpHandshake, SpApplication]"

definition terminating :: "quic_connection_state \<Rightarrow> bool" where
  "terminating st \<longleftrightarrow> st = ConnClosing \<or> st = ConnDraining \<or> st = ConnFailed"

definition idle_counts :: "quic_connection_state \<Rightarrow> bool" where
  "idle_counts st \<longleftrightarrow> st = ConnConnecting \<or> st = ConnHandshaking \<or> st = ConnEstablished"

definition qc_space_deadline :: "'tls quic_env \<Rightarrow> 'tls quic_connection \<Rightarrow> quic_space \<Rightarrow> nat \<Rightarrow> nat" where
  "qc_space_deadline E c space d =
     (let delay = max_ack_delay E c;
          d1 = (if at_pending (qc_trackers c space) then earlier_deadline d (ack_deadline delay (qc_trackers c space)) else d);
          d2 = earlier_deadline d1 (rc_loss_deadline space (qc_recovery c))
      in earlier_deadline d2 (rc_pto_deadline space delay (qc_recovery c)))"

text \<open>\<open>deferred\<close> is \<open>deferredCommand_ != nullptr\<close>.\<close>

definition qc_next_deadline :: "'tls quic_env \<Rightarrow> bool \<Rightarrow> 'tls quic_connection \<Rightarrow> nat" where
  "qc_next_deadline E deferred c =
     (if terminating (qc_state c)
      then earlier_deadline (earlier_deadline 0 (qc_closing_deadline c)) (qc_draining_deadline c)
      else let d1 = fold (qc_space_deadline E c) all_spaces 0;
               d2 = (if qc_network c \<and> qc_last_activity c \<noteq> 0 \<and> idle_counts (qc_state c) \<and> qc_idle_timeout c \<noteq> 0
                     then earlier_deadline d1 (deadline_after (qc_last_activity c) (qc_idle_timeout c) 1) else d1);
               d3 = earlier_deadline d2 (qc_closing_deadline c);
               d4 = earlier_deadline d3 (qc_draining_deadline c);
               d5 = earlier_deadline d4 (qc_previous_deadline c)
        in if deferred \<or> qc_pacing_pending c
           then earlier_deadline d5 (pacingDeadline (rc_congestion (qc_recovery c))) else d5)"

section \<open>Processing\<close>

text \<open>The loop over the acknowledgements; a status other than success ends the function.\<close>

fun qc_ack_deadlines ::
    "(nat \<Rightarrow> 'tls quic_env) \<Rightarrow> nat \<Rightarrow> nat \<Rightarrow> quic_space list \<Rightarrow> nat \<Rightarrow> 'tls quic_connection \<Rightarrow> ntstatus \<times> 'tls quic_connection" where
  "qc_ack_deadlines E now delay [] k c = (STATUS_SUCCESS, c)"
| "qc_ack_deadlines E now delay (space # spaces) k c =
     (if at_pending (qc_trackers c space) \<and> ack_deadline delay (qc_trackers c space) \<le> now
      then (case qc_send_ack (E k) space c of (st, c1) \<Rightarrow>
              if st \<noteq> STATUS_SUCCESS \<and> st \<noteq> STATUS_NOT_FOUND \<and> st \<noteq> STATUS_INVALID_DEVICE_STATE then (st, c1)
              else qc_ack_deadlines E now delay spaces (Suc k) c1)
      else qc_ack_deadlines E now delay spaces (Suc k) c)"

fun qc_loss_deadlines ::
    "(nat \<Rightarrow> 'tls quic_env) \<Rightarrow> nat \<Rightarrow> quic_space list \<Rightarrow> nat \<Rightarrow> 'tls quic_connection \<Rightarrow> ntstatus \<times> 'tls quic_connection" where
  "qc_loss_deadlines E now [] k c = (STATUS_SUCCESS, c)"
| "qc_loss_deadlines E now (space # spaces) k c =
     (let d = rc_loss_deadline space (qc_recovery c)
      in if d \<noteq> 0 \<and> d \<le> now
         then (case rc_on_loss_timer (qe_now (E k)) space (qc_recovery c) of (st, r) \<Rightarrow>
                 let c1 = c\<lparr>qc_recovery := r\<rparr>
                 in if st \<noteq> STATUS_SUCCESS \<and> st \<noteq> STATUS_NOT_FOUND then (st, c1)
                    else qc_loss_deadlines E now spaces (Suc k) c1)
         else qc_loss_deadlines E now spaces (Suc k) c)"

text \<open>The earliest probe timeout and its space.\<close>

definition qc_earliest_pto :: "nat \<Rightarrow> 'tls quic_connection \<Rightarrow> nat \<times> quic_space" where
  "qc_earliest_pto delay c =
     fold (\<lambda>space (earliest, chosen).
             let d = rc_pto_deadline space delay (qc_recovery c)
             in if d \<noteq> 0 \<and> (earliest = 0 \<or> d < earliest) then (d, space) else (earliest, chosen))
       all_spaces (0, SpInitial)"

definition qc_fire_pto ::
    "'tls quic_env \<Rightarrow> nat \<Rightarrow> nat \<Rightarrow> 'tls quic_connection \<Rightarrow> ntstatus \<times> 'tls quic_connection" where
  "qc_fire_pto E now delay c =
     (case qc_earliest_pto delay c of (earliest, space) \<Rightarrow>
        if earliest \<noteq> 0 \<and> earliest \<le> now
        then (case qc_send_probe E space (c\<lparr>qc_recovery := rc_on_pto_fired (qc_recovery c)\<rparr>) of (st, c1) \<Rightarrow>
                (if st = STATUS_NOT_FOUND then STATUS_SUCCESS else st, c1))
        else (STATUS_SUCCESS, c))"

definition qc_idle_expired :: "nat \<Rightarrow> 'tls quic_connection \<Rightarrow> bool" where
  "qc_idle_expired now c \<longleftrightarrow> qc_network c \<and> qc_last_activity c \<noteq> 0 \<and> qc_idle_timeout c \<noteq> 0
     \<and> idle_counts (qc_state c) \<and> now \<ge> qc_last_activity c \<and> now - qc_last_activity c \<ge> qc_idle_timeout c"

definition qc_check_idle ::
    "'tls quic_env \<Rightarrow> nat \<Rightarrow> 'tls quic_connection \<Rightarrow> ntstatus \<times> 'tls quic_connection" where
  "qc_check_idle E now c =
     (if qc_idle_expired now c then qc_enter_closing E 0 True False c else (STATUS_SUCCESS, c))"

definition qc_process_deadlines ::
    "(nat \<Rightarrow> 'tls quic_env) \<Rightarrow> 'tls quic_connection \<Rightarrow> ntstatus \<times> 'tls quic_connection" where
  "qc_process_deadlines E c =
     (let now = qe_now (E 0);
          c1 = qc_discard_expired_read_key now c;
          c2 = (if qc_pacing_pending c1 \<and> pacingDeadline (rc_congestion (qc_recovery c1)) \<le> now
                then qc_notify_writable_streams c1 else c1);
          delay = max_ack_delay (E 0) c2
      in if terminating (qc_state c2)
         then (STATUS_SUCCESS,
               if (qc_closing_deadline c2 \<noteq> 0 \<and> qc_closing_deadline c2 \<le> now)
                  \<or> (qc_draining_deadline c2 \<noteq> 0 \<and> qc_draining_deadline c2 \<le> now)
               then qc_transition_to_closed (E 0) c2 else c2)
         else case qc_ack_deadlines E now delay all_spaces 0 c2 of (st, c3) \<Rightarrow>
           if st \<noteq> STATUS_SUCCESS then (st, c3)
           else case qc_loss_deadlines E now all_spaces 0 c3 of (st', c4) \<Rightarrow>
             if st' \<noteq> STATUS_SUCCESS then (st', c4)
             else case qc_fire_pto (E 3) now delay c4 of (st'', c5) \<Rightarrow>
               if st'' \<noteq> STATUS_SUCCESS then (st'', c5) else qc_check_idle (E 4) now c5)"

section \<open>Nothing happens before the next deadline\<close>

lemma earlier_deadline_less:
  "earlier_deadline d x = 0 \<or> now < earlier_deadline d x
     \<longleftrightarrow> (d = 0 \<or> now < d) \<and> (x = 0 \<or> now < x)"
  by (auto simp: earlier_deadline_def)

text \<open>A deadline that is not due.\<close>

definition not_due :: "nat \<Rightarrow> nat \<Rightarrow> bool" where
  "not_due now d \<longleftrightarrow> d = 0 \<or> now < d"

lemma not_due_earlier [simp]:
  "not_due now (earlier_deadline d x) \<longleftrightarrow> not_due now d \<and> not_due now x"
  by (auto simp: not_due_def earlier_deadline_def)

lemma not_due_zero [simp]: "not_due now 0"
  by (simp add: not_due_def)

end
