(* ===== verification/QuicConnectionWorker.thy ===== *)
theory QuicConnectionWorker
  imports QuicConnectionPackets QuicConnectionTimers "HOL-Library.Multiset"
begin

text \<open>
  The worker of a connection, \<open>src/wknetlib/quic/QuicConnection.cpp\<close> and \<open>QuicConnectionIo.cpp\<close>: creating
  and starting a connection, the command queue with its single deferred command, one round of the worker's
  loop, the operation that waits for the handshake, and the shutdown. Operations are numbers;
  \<open>qw_accepted\<close> lists those that were claimed, so that \<open>TryClaimOperation\<close> is not being in it, and
  \<open>qw_results\<close> and \<open>qc_completed\<close> what they were completed with. The queue is a list with the capacity of
  the ring. An application callback is a function on the connection.
\<close>

definition WKNET_HARD_MAX_QUIC_COMMANDS :: nat where
  "WKNET_HARD_MAX_QUIC_COMMANDS = 1024"

section \<open>Starting\<close>

text \<open>The members before \<open>Initialize\<close>.\<close>

definition qc_new :: "'tls \<Rightarrow> 'tls quic_connection" where
  "qc_new tls = \<lparr>qc_streams = [], qc_local_ids = [], qc_peer_ids = [], qc_state = ConnIdle, qc_next_bidi = 0,
     qc_next_uni = 2, qc_max_bidi = 0, qc_max_uni = 0, qc_pacing_pending = False, qc_stop = False,
     qc_network = False, qc_socket = False, qc_waiting = None, qc_terminal = STATUS_CONNECTION_DISCONNECTED,
     qc_completed = [], qc_tokens = None, qc_sink = no_sink, qc_initial_dcid = [], qc_source_id = [],
     qc_peer_id = [], qc_initial_write = quic_clear_key_set, qc_initial_read = quic_clear_key_set,
     qc_app_write = quic_clear_key_set, qc_previous_write = quic_clear_key_set, qc_app_read = quic_clear_key_set,
     qc_next_read = quic_clear_key_set, qc_previous_read = quic_clear_key_set, qc_attempt = av_reset, qc_tls = tls,
     qc_recovery = recovery_new, qc_flow = fc_new, qc_trackers = (\<lambda>space. ack_tracker_new),
     qc_next_pn = (\<lambda>space. 0), qc_expected_pn = (\<lambda>space. 0), qc_hello = [], qc_initial_offset = 0,
     qc_handshake_offset = 0, qc_params_applied = False, qc_finished_sent = False, qc_id_authenticated = False,
     qc_peer_sequence = 0, qc_next_local_sequence = 1, qc_send_phase_start = 0, qc_phase_packets = 0,
     qc_receive_phase_start = 0, qc_previous_deadline = 0, qc_last_activity = 0, qc_idle_timeout = 300000000,
     qc_closing_deadline = 0, qc_draining_deadline = 0, qc_keys_installed = False, qc_send_phase = False,
     qc_receive_phase = False, qc_previous_phase = False, qc_update_waiting = False, qc_previous_valid = False,
     qc_pending_error = 0, qc_sent = []\<rparr>"

text \<open>
  The options that reach the state; \<open>None\<close> for the network is a missing \<open>DatagramClient\<close>. The last five fields are
  what the start depends on besides: the outcome of allocating the queue, the streams and the two tables of
  connection identifiers, whether \<open>RemoteAddressLength\<close> is that of the address's family, the outcome of allocating
  the network's buffers, and the outcomes of creating and of referencing the worker's thread.
\<close>

record connection_options =
  opt_commands :: nat
  opt_network :: "(string \<times> bytes \<times> bytes) option"
  opt_sink :: "stream_sink option"
  opt_tokens :: "token_cache option"
  opt_tables :: ntstatus
  opt_address_fits :: bool
  opt_buffers :: ntstatus
  opt_thread :: ntstatus
  opt_reference :: ntstatus

definition qc_initialize ::
    "connection_options \<Rightarrow> 'tls quic_connection \<Rightarrow> ntstatus \<times> 'tls quic_connection" where
  "qc_initialize opts c =
     (if opt_commands opts = 0 \<or> opt_commands opts > WKNET_HARD_MAX_QUIC_COMMANDS then (STATUS_INVALID_PARAMETER, c)
      else if opt_tables opts \<noteq> STATUS_SUCCESS then (opt_tables opts, c)
      else let c1 = (case opt_sink opts of None \<Rightarrow> c | Some s \<Rightarrow> c\<lparr>qc_sink := s\<rparr>);
          (st, c2) = (case opt_network opts of
          Some (serverName, dcid, scid) \<Rightarrow>
            if serverName = [] \<or> length serverName > 253 \<or> dcid = [] \<or> length dcid > QuicMaximumConnectionIdLength
              \<or> scid = [] \<or> length scid > QuicMaximumConnectionIdLength \<or> \<not> opt_address_fits opts
            then (STATUS_INVALID_PARAMETER, c1)
            else if opt_buffers opts \<noteq> STATUS_SUCCESS then (opt_buffers opts, c1)
            else (STATUS_SUCCESS, c1\<lparr>qc_initial_dcid := dcid, qc_source_id := scid, qc_peer_id := dcid,
                    qc_local_ids := qc_local_ids c1 @ [\<lparr>ce_sequence = 0, ce_id = scid, ce_token = None,
                      ce_retired = False, ce_deadline = 0\<rparr>],
                    qc_peer_ids := qc_peer_ids c1 @ [\<lparr>ce_sequence = 0, ce_id = dcid, ce_token = None,
                      ce_retired = False, ce_deadline = 0\<rparr>],
                    qc_tokens := opt_tokens opts, qc_network := True\<rparr>)
        | None \<Rightarrow>
            (case fc_initialize WKNET_HARD_MAX_QUIC_CONNECTION_REASSEMBLY_BYTES
                    WKNET_HARD_MAX_QUIC_CONNECTION_REASSEMBLY_BYTES (qc_flow c1) of (st, fl) \<Rightarrow>
               (st, c1\<lparr>qc_max_bidi := WKNET_HARD_MAX_QUIC_LOCAL_BIDI_STREAMS,
                      qc_max_uni := WKNET_HARD_MAX_QUIC_LOCAL_UNI_STREAMS, qc_flow := fl\<rparr>)))
        in if st \<noteq> STATUS_SUCCESS then (st, c2)
           else if opt_thread opts \<noteq> STATUS_SUCCESS then (opt_thread opts, c2)
           else if opt_reference opts \<noteq> STATUS_SUCCESS then (opt_reference opts, c2\<lparr>qc_stop := True\<rparr>)
           else (STATUS_SUCCESS, c2))"

text \<open>The limits the client announces.\<close>

definition qc_local_parameters :: "'tls quic_connection \<Rightarrow> client_parameters" where
  "qc_local_parameters c =
     co_new\<lparr>co_initial_scid := qc_source_id c, co_max_idle_timeout := 30000,
       co_initial_max_data := WKNET_HARD_MAX_QUIC_CONNECTION_REASSEMBLY_BYTES,
       co_max_stream_data_bidi_local := WKNET_HARD_MAX_QUIC_STREAM_REASSEMBLY_BYTES,
       co_max_stream_data_bidi_remote := WKNET_HARD_MAX_QUIC_STREAM_REASSEMBLY_BYTES,
       co_max_stream_data_uni := WKNET_HARD_MAX_QUIC_STREAM_REASSEMBLY_BYTES,
       co_max_streams_bidi := WKNET_HARD_MAX_QUIC_PEER_BIDI_STREAMS,
       co_max_streams_uni := WKNET_HARD_MAX_QUIC_PEER_UNI_STREAMS,
       co_active_cid_limit := WKNET_HARD_MAX_QUIC_CONNECTION_IDS\<rparr>"

definition qc_init_tracker ::
    "'tls quic_env \<Rightarrow> quic_space \<Rightarrow> 'tls quic_connection \<Rightarrow> ntstatus \<times> 'tls quic_connection" where
  "qc_init_tracker E space c =
     (case ack_initialize (qe_alloc E AlTracker) WKNET_HARD_MAX_QUIC_ACK_RANGES (qc_trackers c space) of
        (st, t) \<Rightarrow> (st, c\<lparr>qc_trackers := (qc_trackers c)(space := t)\<rparr>))"

definition qc_init_recovery :: "'tls quic_env \<Rightarrow> 'tls quic_connection \<Rightarrow> ntstatus \<times> 'tls quic_connection" where
  "qc_init_recovery E c =
     (case rc_initialize (qe_alloc E AlRecovery) WKNET_HARD_MAX_QUIC_SENT_PACKETS (qc_recovery c) of
        (st, r) \<Rightarrow> (st, c\<lparr>qc_recovery := r\<rparr>))"

definition qc_init_flow :: "'tls quic_connection \<Rightarrow> ntstatus \<times> 'tls quic_connection" where
  "qc_init_flow c =
     (case fc_initialize 0 WKNET_HARD_MAX_QUIC_CONNECTION_REASSEMBLY_BYTES (qc_flow c) of
        (st, fl) \<Rightarrow> (st, c\<lparr>qc_flow := fl\<rparr>))"

definition qc_init_attempt :: "'tls quic_connection \<Rightarrow> ntstatus \<times> 'tls quic_connection" where
  "qc_init_attempt c =
     (case av_initialize QuicVersion1 (qc_initial_dcid c) (qc_source_id c) of (st, v) \<Rightarrow> (st, c\<lparr>qc_attempt := v\<rparr>))"

definition qc_init_keys :: "'tls quic_env \<Rightarrow> 'tls quic_connection \<Rightarrow> ntstatus \<times> 'tls quic_connection" where
  "qc_init_keys E c =
     (case quic_derive_initial_key_sets (qe_crypto E) (qe_alloc E AlKeys) (qc_initial_dcid c) of
        Inl e \<Rightarrow> (e, c\<lparr>qc_initial_write := quic_clear_key_set, qc_initial_read := quic_clear_key_set\<rparr>)
      | Inr (client, server) \<Rightarrow> (STATUS_SUCCESS, c\<lparr>qc_initial_write := client, qc_initial_read := server\<rparr>))"

definition qc_init_tls :: "'tls quic_env \<Rightarrow> 'tls quic_connection \<Rightarrow> ntstatus \<times> 'tls quic_connection" where
  "qc_init_tls E c =
     (case quic_encode_client_parameters_with_limits (qe_alloc E AlParameters) (qc_local_parameters c)
             WKNET_HARD_MAX_QUIC_FRAME_BYTES of
        Inl e \<Rightarrow> (e, c)
      | Inr encoded \<Rightarrow> (case tls_initialize E encoded (qc_tls c) of (st, tls) \<Rightarrow> (st, c\<lparr>qc_tls := tls\<rparr>)))"

text \<open>Creating, connecting and arming the socket; when this fails \<open>StopNetwork\<close> removes it.\<close>

definition qc_init_socket :: "'tls quic_env \<Rightarrow> 'tls quic_connection \<Rightarrow> ntstatus \<times> 'tls quic_connection" where
  "qc_init_socket E c = (qe_connect E, c\<lparr>qc_socket := True\<rparr>)"

definition qc_send_client_hello :: "'tls quic_env \<Rightarrow> 'tls quic_connection \<Rightarrow> ntstatus \<times> 'tls quic_connection" where
  "qc_send_client_hello E c =
     (case tls_start E (qc_tls c) of
        (Inl e, tls) \<Rightarrow> (e, c\<lparr>qc_tls := tls, qc_hello := []\<rparr>)
      | (Inr hello, tls) \<Rightarrow>
          and_then (qc_send_crypto_packet E PtInitial SpInitial InitialWriteKey 0 hello True
                      (c\<lparr>qc_tls := tls, qc_hello := hello\<rparr>))
            (\<lambda>c1. (STATUS_SUCCESS, c1\<lparr>qc_initial_offset := length hello\<rparr>)))"

definition qc_start_network :: "'tls quic_env \<Rightarrow> 'tls quic_connection \<Rightarrow> ntstatus \<times> 'tls quic_connection" where
  "qc_start_network E c =
     (case and_then (qc_init_recovery E c) (\<lambda>c. and_then (qc_init_tracker E SpInitial c) (\<lambda>c.
           and_then (qc_init_tracker E SpHandshake c) (\<lambda>c. and_then (qc_init_tracker E SpApplication c) (\<lambda>c.
           and_then (qc_init_flow c) (\<lambda>c. and_then (qc_init_attempt c) (\<lambda>c. and_then (qc_init_keys E c) (\<lambda>c.
           and_then (qc_init_tls E c) (\<lambda>c. and_then (qc_init_socket E c) (\<lambda>c.
           and_then (qc_send_client_hello E c) (\<lambda>c. (STATUS_SUCCESS, c\<lparr>qc_last_activity := qe_now E\<rparr>))))))))))) of
       (st, c1) \<Rightarrow> (st, if st = STATUS_SUCCESS then c1 else qc_stop_network E c1))"

section \<open>Commands\<close>

datatype 'tls command_type =
    CmdConnect
  | CmdOpen bool
  | CmdWrite nat bytes bool
  | CmdConsume nat nat
  | CmdReset nat nat
  | CmdStopSending nat nat
  | CmdApplication "'tls quic_connection \<Rightarrow> ntstatus \<times> 'tls quic_connection"
  | CmdClose
  | CmdCloseApplication nat
  | CmdNoop
  | CmdConfirmHandshake
  | CmdProcessTimer
  | CmdInjectFrame quic_level quic_space quic_frame
  | CmdSelfClose

record 'tls quic_command =
  cm_type :: "'tls command_type"
  cm_operation :: nat
  cm_progress :: nat

record operation_result =
  or_operation :: nat
  or_status :: ntstatus
  or_stream :: nat
  or_bytes :: nat
  or_fin :: bool

record 'tls quic_worker =
  qw_connection :: "'tls quic_connection"
  qw_capacity :: nat
  qw_queue :: "'tls quic_command list"
  qw_deferred :: "'tls quic_command option"
  qw_connect_queued :: bool
  qw_close_queued :: bool
  qw_accepted :: "nat list"
  qw_results :: "operation_result list"

definition qw_create :: "connection_options \<Rightarrow> 'tls \<Rightarrow> ntstatus \<times> 'tls quic_worker" where
  "qw_create opts tls =
     (case qc_initialize opts (qc_new tls) of (st, c) \<Rightarrow>
        (st, \<lparr>qw_connection = c, qw_capacity = opt_commands opts, qw_queue = [], qw_deferred = None,
              qw_connect_queued = False, qw_close_queued = False, qw_accepted = [], qw_results = []\<rparr>))"

text \<open>\<open>c->StreamId\<close>; an injected frame passes its level there.\<close>

fun command_stream :: "'tls command_type \<Rightarrow> nat" where
  "command_stream (CmdWrite i data fin) = i"
| "command_stream (CmdConsume i n) = i"
| "command_stream (CmdReset i e) = i"
| "command_stream (CmdStopSending i e) = i"
| "command_stream (CmdInjectFrame level space f) = (case level of LvInitial \<Rightarrow> 0 | LvHandshake \<Rightarrow> 1 | LvApplication \<Rightarrow> 2)"
| "command_stream _ = 0"

fun command_error :: "'tls command_type \<Rightarrow> nat" where
  "command_error (CmdReset i e) = e"
| "command_error (CmdStopSending i e) = e"
| "command_error (CmdCloseApplication e) = e"
| "command_error (CmdInjectFrame level space f) = (case space of SpInitial \<Rightarrow> 0 | SpHandshake \<Rightarrow> 1 | SpApplication \<Rightarrow> 2)"
| "command_error _ = 0"

text \<open>The allocations for the command's copy of its data.\<close>

fun command_copied :: "'tls quic_env \<Rightarrow> 'tls command_type \<Rightarrow> bool" where
  "command_copied E (CmdWrite i data fin) = (data = [] \<or> qe_alloc E AlCommandData)"
| "command_copied E (CmdInjectFrame level space f) =
     (((fr_data f = [] \<and> fr_connection_id f = [] \<and> fr_reason_phrase f = []) \<or> qe_alloc E AlCommandData)
        \<and> (fr_stateless_reset_token f = [] \<or> qe_alloc E AlCommandAux))"
| "command_copied E _ = True"

definition is_close :: "'tls command_type \<Rightarrow> bool" where
  "is_close t = (case t of CmdClose \<Rightarrow> True | CmdCloseApplication e \<Rightarrow> True | _ \<Rightarrow> False)"

definition is_connect :: "'tls command_type \<Rightarrow> bool" where
  "is_connect t = (case t of CmdConnect \<Rightarrow> True | _ \<Rightarrow> False)"

definition is_timer :: "'tls command_type \<Rightarrow> bool" where
  "is_timer t = (case t of CmdProcessTimer \<Rightarrow> True | _ \<Rightarrow> False)"

text \<open>The checks under the lock.\<close>

definition qw_admit :: "'tls command_type \<Rightarrow> 'tls quic_worker \<Rightarrow> ntstatus" where
  "qw_admit t w =
     (let c = qw_connection w; st = qc_state c
      in if qc_stop c \<or> st = ConnClosed \<or> st = ConnFailed
           \<or> ((qw_close_queued w \<or> st = ConnClosing \<or> st = ConnDraining) \<and> \<not> is_timer t)
         then STATUS_DEVICE_NOT_READY
         else if is_connect t \<and> (st \<noteq> ConnIdle \<or> qw_connect_queued w) then STATUS_INVALID_DEVICE_STATE
         else if is_close t \<and> st \<noteq> ConnConnecting \<and> st \<noteq> ConnHandshaking \<and> st \<noteq> ConnEstablished
         then STATUS_INVALID_DEVICE_STATE
         else if length (qw_queue w) \<ge> qw_capacity w then STATUS_INSUFFICIENT_RESOURCES
         else STATUS_SUCCESS)"

definition qw_enqueue ::
    "'tls quic_env \<Rightarrow> 'tls command_type \<Rightarrow> nat \<Rightarrow> 'tls quic_worker \<Rightarrow> ntstatus \<times> 'tls quic_worker" where
  "qw_enqueue E t i w =
     (if command_stream t > QuicVarIntMaximum \<or> command_error t > QuicVarIntMaximum then (STATUS_INVALID_PARAMETER, w)
      else if \<not> qe_alloc E AlCommand then (STATUS_INSUFFICIENT_RESOURCES, w)
      else if i \<in> set (qw_accepted w) then (STATUS_INVALID_DEVICE_STATE, w)
      else if \<not> command_copied E t then (STATUS_INSUFFICIENT_RESOURCES, w)
      else let st = qw_admit t w
        in if st \<noteq> STATUS_SUCCESS then (st, w)
           else (STATUS_SUCCESS, w\<lparr>qw_queue := qw_queue w @ [\<lparr>cm_type = t, cm_operation = i, cm_progress = 0\<rparr>],
                   qw_connect_queued := (qw_connect_queued w \<or> is_connect t),
                   qw_close_queued := (qw_close_queued w \<or> is_close t), qw_accepted := i # qw_accepted w\<rparr>))"

text \<open>
  \<open>Complete\<close>, without the code's test that the operation is still pending: every call is recorded, so that a second
  completion would show.
\<close>

definition qw_complete ::
    "nat \<Rightarrow> ntstatus \<Rightarrow> nat \<Rightarrow> nat \<Rightarrow> bool \<Rightarrow> 'tls quic_worker \<Rightarrow> 'tls quic_worker" where
  "qw_complete i st stream n fin w =
     w\<lparr>qw_results := qw_results w @ [\<lparr>or_operation = i, or_status = st, or_stream = stream, or_bytes = n, or_fin = fin\<rparr>]\<rparr>"

definition qw_wait_established :: "nat \<Rightarrow> 'tls quic_worker \<Rightarrow> ntstatus \<times> 'tls quic_worker" where
  "qw_wait_established i w =
     (if i \<in> set (qw_accepted w) then (STATUS_INVALID_DEVICE_STATE, w)
      else let c = qw_connection w; st = qc_state c; claimed = w\<lparr>qw_accepted := i # qw_accepted w\<rparr>
        in if st = ConnEstablished then (STATUS_SUCCESS, qw_complete i STATUS_SUCCESS 0 0 False claimed)
           else if st = ConnFailed \<or> st = ConnClosing \<or> st = ConnDraining \<or> st = ConnClosed \<or> qc_stop c
           then (STATUS_SUCCESS, qw_complete i (qc_terminal c) 0 0 False claimed)
           else if (st = ConnIdle \<and> \<not> qw_connect_queued w) \<or> qc_waiting c \<noteq> None then (STATUS_INVALID_DEVICE_STATE, w)
           else (STATUS_SUCCESS, claimed\<lparr>qw_connection := c\<lparr>qc_waiting := Some i\<rparr>\<rparr>))"

section \<open>Processing a command\<close>

definition qc_connect :: "'tls quic_env \<Rightarrow> 'tls quic_connection \<Rightarrow> ntstatus \<times> 'tls quic_connection" where
  "qc_connect E c =
     (let c1 = c\<lparr>qc_state := ConnConnecting\<rparr>
      in case (if qc_network c1 then qc_start_network E c1 else (STATUS_SUCCESS, c1)) of (st, c2) \<Rightarrow>
           if st = STATUS_SUCCESS then (st, c2\<lparr>qc_state := ConnHandshaking\<rparr>)
           else (st, qc_complete_waiter st (c2\<lparr>qc_state := ConnFailed\<rparr>)))"

definition qc_confirm_handshake :: "'tls quic_connection \<Rightarrow> ntstatus \<times> 'tls quic_connection" where
  "qc_confirm_handshake c =
     (if qc_state c \<noteq> ConnHandshaking then (STATUS_INVALID_DEVICE_STATE, c)
      else (STATUS_SUCCESS, qc_complete_waiter STATUS_SUCCESS (c\<lparr>qc_state := ConnEstablished\<rparr>)))"

definition qc_close_command ::
    "'tls quic_env \<Rightarrow> bool \<Rightarrow> nat \<Rightarrow> 'tls quic_connection \<Rightarrow> ntstatus \<times> 'tls quic_connection" where
  "qc_close_command E applicationError errorCode c =
     (if qc_network c
      then (case qc_enter_closing E (if applicationError then errorCode else 0) True applicationError c of (st, c1) \<Rightarrow>
              (st, qc_complete_waiter STATUS_CONNECTION_DISCONNECTED c1))
      else (STATUS_SUCCESS, c\<lparr>qc_state := ConnClosed, qc_stop := True\<rparr>))"

text \<open>Opening, with the identifier of the new stream.\<close>

definition qc_open_command ::
    "'tls quic_env \<Rightarrow> bool \<Rightarrow> 'tls quic_connection \<Rightarrow> ntstatus \<times> nat \<times> 'tls quic_connection" where
  "qc_open_command E bidirectional c =
     (let i = (if qc_state c = ConnEstablished then (if bidirectional then qc_next_bidi c else qc_next_uni c) else 0)
      in case qc_application_open E bidirectional c of (st, k, c1) \<Rightarrow> (st, i, c1))"

text \<open>
  A write goes on where it stopped: \<open>Inl\<close> is the progress of the command that is deferred, \<open>Inr\<close> the status,
  \<open>bytesTransferred\<close> and \<open>fin\<close>.
\<close>

definition qc_write_command ::
    "(nat \<Rightarrow> 'tls quic_env) \<Rightarrow> nat \<Rightarrow> bytes \<Rightarrow> bool \<Rightarrow> nat \<Rightarrow> 'tls quic_connection
      \<Rightarrow> (nat + ntstatus \<times> nat \<times> bool) \<times> 'tls quic_connection" where
  "qc_write_command E i data fin progress c =
     (case qc_find_stream i c of
        None \<Rightarrow> (Inr (STATUS_NOT_FOUND, 0, False), c)
      | Some k \<Rightarrow>
          (case qc_write_loop E k data fin progress c of (st, n, c1) \<Rightarrow>
             let transferred = (if n > progress then n else 0)
             in if st = STATUS_RETRY then (Inl n, c1)
                else if st \<noteq> STATUS_SUCCESS then (Inr (st, transferred, False), c1)
                else if data = [] \<and> fin
                then (case qc_send_stream_frame (E 0) k [] True c1 of (st', c2) \<Rightarrow>
                        if st' = STATUS_RETRY then (Inl n, c2)
                        else (Inr (st', transferred, st' = STATUS_SUCCESS), c2))
                else (Inr (STATUS_SUCCESS, transferred, fin), c1)))"

text \<open>Reset and stop by command do not check the error code, which \<open>Enqueue\<close> did.\<close>

fun qc_execute ::
    "(nat \<Rightarrow> 'tls quic_env) \<Rightarrow> 'tls command_type \<Rightarrow> nat \<Rightarrow> 'tls quic_connection
      \<Rightarrow> (nat + ntstatus \<times> nat \<times> nat \<times> bool) \<times> 'tls quic_connection" where
  "qc_execute E CmdConnect progress c = (case qc_connect (E 0) c of (st, c1) \<Rightarrow> (Inr (st, 0, 0, False), c1))"
| "qc_execute E CmdConfirmHandshake progress c =
     (case qc_confirm_handshake c of (st, c1) \<Rightarrow> (Inr (st, 0, 0, False), c1))"
| "qc_execute E (CmdOpen bidirectional) progress c =
     (case qc_open_command (E 0) bidirectional c of (st, i, c1) \<Rightarrow> (Inr (st, i, 0, False), c1))"
| "qc_execute E (CmdWrite i data fin) progress c =
     (case qc_write_command E i data fin progress c of
        (Inl n, c1) \<Rightarrow> (Inl n, c1)
      | (Inr (st, n, f), c1) \<Rightarrow> (Inr (st, i, n, f), c1))"
| "qc_execute E (CmdConsume i capacity) progress c =
     (case qc_application_consume i capacity c of (st, out, fin, c1) \<Rightarrow> (Inr (st, i, length out, fin), c1))"
| "qc_execute E (CmdReset i e) progress c =
     (case qc_application_reset (E 0) i e c of (st, c1) \<Rightarrow> (Inr (st, i, 0, False), c1))"
| "qc_execute E (CmdStopSending i e) progress c =
     (case qc_application_stop_sending (E 0) i e c of (st, c1) \<Rightarrow> (Inr (st, i, 0, False), c1))"
| "qc_execute E (CmdApplication f) progress c = (case f c of (st, c1) \<Rightarrow> (Inr (st, 0, 0, False), c1))"
| "qc_execute E CmdSelfClose progress c = (Inr (STATUS_INVALID_DEVICE_STATE, 0, 0, False), c)"
| "qc_execute E CmdProcessTimer progress c =
     (case qc_process_deadlines E c of (st, c1) \<Rightarrow> (Inr (st, 0, 0, False), c1))"
| "qc_execute E (CmdInjectFrame level space f) progress c =
     (case qc_dispatch_frame (E 0) level space f c of
        (st, c1) \<Rightarrow> (Inr (st, command_stream (CmdInjectFrame level space f :: 'tls command_type), 0, False), c1))"
| "qc_execute E CmdClose progress c = (case qc_close_command (E 0) False 0 c of (st, c1) \<Rightarrow> (Inr (st, 0, 0, False), c1))"
| "qc_execute E (CmdCloseApplication e) progress c =
     (case qc_close_command (E 0) True e c of (st, c1) \<Rightarrow> (Inr (st, 0, 0, False), c1))"
| "qc_execute E CmdNoop progress c = (Inr (STATUS_SUCCESS, 0, 0, False), c)"

definition qw_process ::
    "(nat \<Rightarrow> 'tls quic_env) \<Rightarrow> 'tls quic_command \<Rightarrow> 'tls quic_worker \<Rightarrow> 'tls quic_worker" where
  "qw_process E cmd w =
     (let w0 = w\<lparr>qw_connect_queued := (qw_connect_queued w \<and> \<not> is_connect (cm_type cmd)),
                 qw_close_queued := (qw_close_queued w \<and> \<not> is_close (cm_type cmd))\<rparr>
      in case qc_execute E (cm_type cmd) (cm_progress cmd) (qw_connection w0) of
           (Inl progress, c1) \<Rightarrow> w0\<lparr>qw_connection := c1, qw_deferred := Some (cmd\<lparr>cm_progress := progress\<rparr>)\<rparr>
         | (Inr (st, stream, n, fin), c1) \<Rightarrow>
             qw_complete (cm_operation cmd) st stream n fin (w0\<lparr>qw_connection := c1\<rparr>))"

section \<open>The loop\<close>

text \<open>The deferred command is tried again when pacing allows.\<close>

definition qw_process_deferred :: "(nat \<Rightarrow> 'tls quic_env) \<Rightarrow> 'tls quic_worker \<Rightarrow> 'tls quic_worker" where
  "qw_process_deferred E w =
     (case qw_deferred w of
        None \<Rightarrow> w
      | Some cmd \<Rightarrow>
          if pacingDeadline (rc_congestion (qc_recovery (qw_connection w))) \<le> qe_now (E 0)
          then qw_process E cmd (w\<lparr>qw_deferred := None\<rparr>) else w)"

text \<open>
  Commands are taken from the queue until one is deferred or the connection stops; \<open>E k\<close> is the
  environment of the \<open>k\<close>-th, and \<open>n\<close> bounds the number of commands, as others can be added meanwhile.
\<close>

primrec qw_drain :: "nat \<Rightarrow> (nat \<Rightarrow> nat \<Rightarrow> 'tls quic_env) \<Rightarrow> 'tls quic_worker \<Rightarrow> 'tls quic_worker" where
  "qw_drain 0 E w = w"
| "qw_drain (Suc n) E w =
     (if qw_deferred w \<noteq> None then w
      else case qw_queue w of
        [] \<Rightarrow> w
      | cmd # rest \<Rightarrow>
          let w1 = qw_process (E n) cmd (w\<lparr>qw_queue := rest\<rparr>)
          in if qc_stop (qw_connection w1) \<or> qw_deferred w1 \<noteq> None then w1 else qw_drain n E w1)"

text \<open>
  \<open>ProcessReceiveCompletion\<close>: \<open>received\<close> is what the socket completed with, the sender being the peer or
  not, and \<open>arm\<close> the result of the next \<open>ArmReceive\<close>.
\<close>

definition qc_receive_completion ::
    "(nat \<Rightarrow> 'tls quic_env) \<Rightarrow> (nat \<Rightarrow> nat \<Rightarrow> 'tls quic_env) \<Rightarrow> (bool \<times> bytes) result \<Rightarrow> ntstatus
      \<Rightarrow> 'tls quic_connection \<Rightarrow> ntstatus \<times> 'tls quic_connection" where
  "qc_receive_completion E F received arm c =
     (if \<not> qc_socket c then (STATUS_NOT_FOUND, c)
      else case received of
        Inl e \<Rightarrow> (e, c)
      | Inr (fromPeer, datagram) \<Rightarrow>
          if \<not> fromPeer then (STATUS_INVALID_NETWORK_RESPONSE, c)
          else and_then (qc_process_datagram E F datagram c)
            (\<lambda>c1. (if qc_state c1 \<noteq> ConnClosing \<and> qc_state c1 \<noteq> ConnDraining \<and> qc_state c1 \<noteq> ConnClosed
                       \<and> qc_state c1 \<noteq> ConnFailed
                    then arm else STATUS_SUCCESS, c1)))"

definition qc_receive_round ::
    "(nat \<Rightarrow> 'tls quic_env) \<Rightarrow> (nat \<Rightarrow> nat \<Rightarrow> 'tls quic_env) \<Rightarrow> (bool \<times> bytes) result \<Rightarrow> ntstatus
      \<Rightarrow> 'tls quic_env \<Rightarrow> 'tls quic_connection \<Rightarrow> 'tls quic_connection" where
  "qc_receive_round E F received arm E' c =
     (case qc_receive_completion E F received arm c of (st, c1) \<Rightarrow>
        if st \<noteq> STATUS_SUCCESS \<and> st \<noteq> STATUS_CANCELLED
        then qc_fail_connection E' st
               (if qc_pending_error c1 \<noteq> 0 then qc_pending_error c1 else qc_tls_error_or E' 0xa c1) c1
        else c1)"

definition qc_timer_round ::
    "(nat \<Rightarrow> 'tls quic_env) \<Rightarrow> 'tls quic_env \<Rightarrow> 'tls quic_connection \<Rightarrow> 'tls quic_connection" where
  "qc_timer_round E E' c =
     (case qc_process_deadlines E c of (st, c1) \<Rightarrow>
        if st \<noteq> STATUS_SUCCESS
        then qc_fail_connection E' st (if qc_pending_error c1 \<noteq> 0 then qc_pending_error c1 else 0xa) c1 else c1)"

text \<open>One round of the loop; \<open>received\<close> is \<open>None\<close> when \<open>receiveReady_\<close> is not set.\<close>

record 'tls round_env =
  re_deferred :: "nat \<Rightarrow> 'tls quic_env"
  re_limit :: nat
  re_commands :: "nat \<Rightarrow> nat \<Rightarrow> 'tls quic_env"
  re_received :: "(bool \<times> bytes) result option"
  re_arm :: ntstatus
  re_packets :: "nat \<Rightarrow> 'tls quic_env"
  re_frames :: "nat \<Rightarrow> nat \<Rightarrow> 'tls quic_env"
  re_failure :: "'tls quic_env"
  re_timers :: "nat \<Rightarrow> 'tls quic_env"
  re_timer_failure :: "'tls quic_env"

definition qw_map :: "('tls quic_connection \<Rightarrow> 'tls quic_connection) \<Rightarrow> 'tls quic_worker \<Rightarrow> 'tls quic_worker" where
  "qw_map f w = w\<lparr>qw_connection := f (qw_connection w)\<rparr>"

definition qw_round :: "'tls round_env \<Rightarrow> 'tls quic_worker \<Rightarrow> 'tls quic_worker" where
  "qw_round R w =
     (if qc_stop (qw_connection w) then w
      else let w1 = qw_drain (re_limit R) (re_commands R) (qw_process_deferred (re_deferred R) w);
               w2 = (case re_received R of
                       None \<Rightarrow> w1
                     | Some received \<Rightarrow>
                         if qc_stop (qw_connection w1) then w1
                         else qw_map (qc_receive_round (re_packets R) (re_frames R) received (re_arm R) (re_failure R)) w1)
        in if qc_stop (qw_connection w2) then w2 else qw_map (qc_timer_round (re_timers R) (re_timer_failure R)) w2)"

section \<open>Shutdown\<close>

definition qw_cancel :: "'tls quic_command list \<Rightarrow> 'tls quic_worker \<Rightarrow> 'tls quic_worker" where
  "qw_cancel cmds w = fold (\<lambda>cmd. qw_complete (cm_operation cmd) STATUS_CANCELLED 0 0 False) cmds w"

definition qw_shutdown :: "'tls quic_env \<Rightarrow> 'tls quic_worker \<Rightarrow> 'tls quic_worker" where
  "qw_shutdown E w =
     (if qw_capacity w = 0 then w else
      let w1 = qw_map (\<lambda>c. qc_stop_network E ((qc_complete_waiter STATUS_CANCELLED c)\<lparr>qc_stop := True\<rparr>)) w;
          w2 = (qw_cancel (case qw_deferred w1 of None \<Rightarrow> [] | Some cmd \<Rightarrow> [cmd]) w1)\<lparr>qw_deferred := None\<rparr>;
          w3 = (qw_cancel (qw_queue w2) w2)\<lparr>qw_queue := [], qw_capacity := 0\<rparr>
      in qw_map qc_clear_streams w3)"

end
