(* ===== verification/QuicConnectionInvariant.thy ===== *)
theory QuicConnectionInvariant
  imports QuicConnectionWorker
begin

text \<open>
  What every operation of a connection preserves. \<open>qc_wf\<close> is the type invariant: every component keeps its
  own, the tables stay within their capacities and the stream identifiers are distinct and within the limits.
  \<open>qc_accounts\<close> says that the connection's flow control is the sum of its streams. \<open>waiters\<close> are the
  operations that wait for the handshake or were told of it. \<open>moves\<close> collects the three for an operation
  with its status, and composes; the lemmas of this theory establish it for every operation, so that the
  properties of the worker follow from the structure of its loop.
\<close>

section \<open>Streams\<close>

text \<open>The window of a stream that receives stays the one the client announces.\<close>

definition window_ok :: "quic_stream \<Rightarrow> bool" where
  "window_ok s \<longleftrightarrow> (stream_bidirectional (qs_id s) \<or> \<not> stream_client_initiated (qs_id s)
     \<longrightarrow> qs_receive_limit s = WKNET_HARD_MAX_QUIC_STREAM_REASSEMBLY_BYTES)"

definition stream_ok :: "quic_stream \<Rightarrow> bool" where
  "stream_ok s \<longleftrightarrow> qs_inv s \<and> qs_initialized s \<and> window_ok s
     \<and> (qs_receive_reset s \<longrightarrow> qs_final_size_known s \<and> qs_highest s = qs_final_size s)"

lemma qs_unobserved_more:
  "qs_unobserved qs_receive_reset" "qs_unobserved qs_final_size_known" "qs_unobserved qs_final_size"
  "qs_unobserved qs_receive_limit"
  by (simp_all add: qs_unobserved_def qs_emit_def)

lemmas qs_fields_more [simp] = qs_unobserved_more [THEN unobserved_notify(1)]
  qs_unobserved_more [THEN unobserved_notify(2)] qs_unobserved_more [THEN unobserved_notify(3)]
  qs_unobserved_more [THEN unobserved_notify(4)] qs_unobserved_more [THEN unobserved_notify(5)]
  qs_unobserved_more [THEN unobserved_notify(6)] qs_unobserved_more [THEN unobserved_notify(7)]
  qs_unobserved_more [THEN unobserved_notify(8)]

lemma stream_ok_notify [simp]:
  "stream_ok (qs_notify_readable s) = stream_ok s" "stream_ok (qs_refresh_readable s) = stream_ok s"
  "stream_ok (qs_notify_closed_if_needed s) = stream_ok s" "stream_ok (qs_notify_reset err peer s) = stream_ok s"
  "stream_ok (qs_try_notify_writable s) = stream_ok s" "stream_ok (qs_mark_write_blocked s) = stream_ok s"
  by (simp_all add: stream_ok_def window_ok_def)

text \<open>The numbers the connection counts.\<close>

definition stream_counts :: "quic_stream \<Rightarrow> nat \<times> nat \<times> nat \<times> nat" where
  "stream_counts s = (qs_id s, qs_highest s, qs_consumed s, qs_send_offset s)"

lemma stream_counts_notify [simp]:
  "stream_counts (qs_notify_readable s) = stream_counts s" "stream_counts (qs_mark_write_blocked s) = stream_counts s"
  "stream_counts (qs_try_notify_writable s) = stream_counts s"
  by (simp_all add: stream_counts_def)

lemma qs_store_reset:
  "qs_store ok offset data notify s = (st, s') \<Longrightarrow> qs_receive_reset s' = qs_receive_reset s \<and> qs_id s' = qs_id s
     \<and> qs_send_offset s' = qs_send_offset s \<and> qs_receive_limit s' = qs_receive_limit s
     \<and> (st \<noteq> STATUS_SUCCESS \<longrightarrow> qs_highest s' = qs_highest s)"
  by (auto simp: qs_store_def Let_def split: option.splits if_splits)

lemma receive_ok:
  assumes "stream_ok s" "qs_receive ok offset data fin False s = (st, s')"
  shows "stream_ok s' \<and> qs_id s' = qs_id s \<and> qs_consumed s' = qs_consumed s \<and> qs_send_offset s' = qs_send_offset s
    \<and> qs_highest s \<le> qs_highest s' \<and> (st \<noteq> STATUS_SUCCESS \<longrightarrow> qs_highest s' = qs_highest s)"
proof -
  have inv: "qs_inv s" "qs_initialized s" using assms(1) by (auto simp: stream_ok_def)
  have c: "qs_inv s'" "qs_initialized s'" "qs_consumed s' = qs_consumed s"
    using qs_receive_correct [OF inv(1) assms(2)] inv(2) by auto
  have fin: "qs_receive_reset s \<Longrightarrow> st \<noteq> STATUS_SUCCESS \<and> s' = s \<or> qs_final_size_known s' \<and> qs_final_size s' = qs_final_size s
      \<and> qs_highest s' = qs_highest s"
    using assms unfolding qs_receive_def Let_def stream_ok_def qs_receive_checked_def by (auto split: if_splits)
  show ?thesis
    using assms(2)
  proof (cases rule: qs_receive_cases)
    case refused
    with assms(1) show ?thesis by simp
  next
    case reset
    with fin c assms(1) show ?thesis by (auto simp: stream_ok_def window_ok_def)
  next
    case (ignored h)
    then show ?thesis using c inv assms(1) by (auto simp: stream_ok_def window_ok_def qs_inv_def)
  next
    case (stored trim)
    have "qs_highest s \<le> qs_highest s'"
      using stored(6) by (auto simp: qs_store_def Let_def split: option.splits if_splits)
    with stored qs_store_reset [OF stored(6)] c assms(1) show ?thesis by (auto simp: stream_ok_def window_ok_def)
  qed
qed

lemma consume_ok:
  assumes "stream_ok s" "qs_consume cap s = (st, out, fin, s')"
  shows "stream_ok s' \<and> qs_id s' = qs_id s \<and> qs_highest s' = qs_highest s \<and> qs_send_offset s' = qs_send_offset s
    \<and> qs_consumed s' = qs_consumed s + length out \<and> (out \<noteq> [] \<longrightarrow> st = STATUS_SUCCESS)
    \<and> qs_consumed s' \<le> qs_highest s'"
proof -
  have inv: "qs_inv s" "qs_initialized s" using assms(1) by (auto simp: stream_ok_def)
  note c = qs_consume_correct [OF inv assms(2)]
  have "qs_consumed s' \<le> qs_highest s'" using c by (auto simp: qs_inv_def)
  with assms(2) inv(2,1) show ?thesis
  proof (cases rule: qs_consume_cases)
    case (some i n)
    with c assms(1) \<open>qs_consumed s' \<le> qs_highest s'\<close> show ?thesis by (auto simp: stream_ok_def window_ok_def)
  qed (use assms(1) in auto)
qed

lemma write_ok:
  assumes "stream_ok s" "qs_write len fin s = (st, accepted, s')"
  shows "stream_ok s' \<and> qs_id s' = qs_id s \<and> qs_highest s' = qs_highest s \<and> qs_consumed s' = qs_consumed s
    \<and> (if st = STATUS_SUCCESS then accepted = len \<and> qs_send_offset s' = qs_send_offset s + len
       else qs_send_offset s' = qs_send_offset s)"
  using assms qs_other_inv(4) [of s len fin]
  by (auto simp: stream_ok_def window_ok_def qs_write_def Let_def qs_can_write_def split: if_splits)

lemma other_ok:
  assumes "stream_ok s"
  shows "stream_ok (snd (qs_on_max_stream_data m s))" "stream_ok (snd (qs_reset err fs s))"
    "stream_ok (snd (qs_stop_sending err s))" "stream_ok (snd (qs_on_reset_received err fs s))"
    "stream_counts (snd (qs_on_max_stream_data m s)) = stream_counts s"
    "stream_counts (snd (qs_reset err fs s)) = stream_counts s"
    "stream_counts (snd (qs_stop_sending err s)) = stream_counts s"
  using assms qs_other_inv(3) [of s m] qs_other_inv(5) [of s err fs] qs_other_inv(7) [of s err] qs_other_inv(6) [of s err fs]
  by (auto simp: stream_ok_def window_ok_def stream_counts_def qs_on_max_stream_data_def qs_reset_def qs_stop_sending_def
      qs_on_reset_received_def split: if_splits)

lemma reset_received_ok:
  assumes "stream_ok s" "qs_on_reset_received err fs s = (st, s')"
  shows "stream_ok s' \<and> qs_id s' = qs_id s \<and> qs_consumed s' = qs_consumed s \<and> qs_send_offset s' = qs_send_offset s
    \<and> (if st = STATUS_SUCCESS then qs_highest s' = fs \<and> qs_highest s \<le> fs else qs_highest s' = qs_highest s)"
proof -
  have "stream_ok s'" using other_ok(4) [OF assms(1), of err fs] assms(2) by simp
  with assms show ?thesis by (auto simp: stream_ok_def window_ok_def qs_on_reset_received_def split: if_splits)
qed

lemma initialize_counts:
  "fst (qs_initialize ok i m g qs_new) = STATUS_SUCCESS
    \<Longrightarrow> stream_counts (snd (qs_initialize ok i m g qs_new)) = (i, 0, 0, 0)
      \<and> qs_initialized (snd (qs_initialize ok i m g qs_new)) \<and> \<not> qs_receive_reset (snd (qs_initialize ok i m g qs_new))"
  by (auto simp: qs_initialize_def qs_new_def qs_clear_def Let_def stream_counts_def split: if_splits)

lemma new_stream_ok:
  assumes "qc_new_stream E i c = (STATUS_SUCCESS, s)"
  shows "stream_ok s \<and> stream_counts s = (i, 0, 0, 0)"
proof -
  let ?c = "stream_client_initiated i" and ?b = "stream_bidirectional i"
  let ?m = WKNET_HARD_MAX_QUIC_STREAM_REASSEMBLY_BYTES
  obtain st0 s0 where i0: "qs_initialize (qe_alloc E AlStreamArrays) i ?m WKNET_HARD_MAX_QUIC_STREAM_GAPS qs_new = (st0, s0)"
    by fastforce
  obtain st1 s1 where i1: "(if st0 = STATUS_SUCCESS \<and> (?b \<or> \<not> ?c) then qs_set_receive_limit ?m s0 else (st0, s0)) = (st1, s1)"
    by fastforce
  have st: "st0 = STATUS_SUCCESS" "st1 = STATUS_SUCCESS"
    using assms i0 i1 by (auto simp: qc_new_stream_def Let_def split: if_splits)
  have ok0: "qs_inv s0" "qs_initialized s0" "\<not> qs_receive_reset s0" "stream_counts s0 = (i, 0, 0, 0)"
    using i0 qs_inv_initialize [of "qe_alloc E AlStreamArrays" i ?m WKNET_HARD_MAX_QUIC_STREAM_GAPS qs_new s0] st
      initialize_counts [of "qe_alloc E AlStreamArrays" i ?m WKNET_HARD_MAX_QUIC_STREAM_GAPS]
    by auto
  then have ok1: "stream_ok s1" "stream_counts s1 = (i, 0, 0, 0)"
    using i1 st qs_other_inv(1) [of s0 ?m]
    by (auto simp: stream_ok_def window_ok_def stream_counts_def qs_set_receive_limit_def split: if_splits)
  show ?thesis
    using assms i0 i1 st ok1 qs_other_inv(2) [of s1 "qc_initial_send_limit E ?c ?b c"]
    by (auto simp: qc_new_stream_def Let_def stream_ok_def window_ok_def stream_counts_def qs_set_send_limit_def split: if_splits)
qed

lemma set_sink_ok: "stream_ok s \<Longrightarrow> stream_ok (qs_set_sink k s)" "stream_counts (qs_set_sink k s) = stream_counts s"
  using qs_other_inv(9) [of s k] by (auto simp: stream_ok_def window_ok_def stream_counts_def qs_set_sink_def Let_def)


section \<open>The invariant\<close>

definition recovery_ok :: "quic_recovery \<Rightarrow> bool" where
  "recovery_ok r \<longleftrightarrow> rc_capacity r = 0 \<or> rc_inv r"

definition tracker_ok :: "quic_ack_tracker \<Rightarrow> bool" where
  "tracker_ok t \<longleftrightarrow> at_capacity t = 0 \<or> ack_inv t"

text \<open>The identifiers a table can hold: the ordinals are below the limits.\<close>

definition id_allowed :: "nat \<Rightarrow> bool" where
  "id_allowed i \<longleftrightarrow> drop_bit 2 i <
     (if stream_client_initiated i
      then (if stream_bidirectional i then WKNET_HARD_MAX_QUIC_LOCAL_BIDI_STREAMS else WKNET_HARD_MAX_QUIC_LOCAL_UNI_STREAMS)
      else (if stream_bidirectional i then WKNET_HARD_MAX_QUIC_PEER_BIDI_STREAMS else WKNET_HARD_MAX_QUIC_PEER_UNI_STREAMS))"

definition streams_ok :: "quic_stream list \<Rightarrow> bool" where
  "streams_ok ss \<longleftrightarrow> list_all stream_ok ss \<and> distinct (map qs_id ss) \<and> list_all (\<lambda>s. id_allowed (qs_id s)) ss"

definition qc_wf :: "'tls quic_connection \<Rightarrow> bool" where
  "qc_wf c \<longleftrightarrow> streams_ok (qc_streams c) \<and> fc_inv (qc_flow c) \<and> recovery_ok (qc_recovery c)
     \<and> (\<forall>space. tracker_ok (qc_trackers c space))
     \<and> length (qc_local_ids c) \<le> WKNET_HARD_MAX_QUIC_CONNECTION_IDS
     \<and> length (qc_peer_ids c) \<le> WKNET_HARD_MAX_QUIC_CONNECTION_IDS
     \<and> qc_max_bidi c \<le> WKNET_HARD_MAX_QUIC_LOCAL_BIDI_STREAMS
     \<and> qc_max_uni c \<le> WKNET_HARD_MAX_QUIC_LOCAL_UNI_STREAMS"

definition accounted :: "quic_stream list \<Rightarrow> quic_flow_controller \<Rightarrow> bool" where
  "accounted ss f \<longleftrightarrow> receivedBytes f = sum_list (map qs_highest ss)
     \<and> consumedBytes f = sum_list (map qs_consumed ss) \<and> sendOffset f = sum_list (map qs_send_offset ss)"

definition qc_accounts :: "'tls quic_connection \<Rightarrow> bool" where
  "qc_accounts c \<longleftrightarrow> fc_initialized (qc_flow c) \<and> accounted (qc_streams c) (qc_flow c)
     \<and> receiveLimit (qc_flow c) = WKNET_HARD_MAX_QUIC_CONNECTION_REASSEMBLY_BYTES"

definition waiters :: "'tls quic_connection \<Rightarrow> nat multiset" where
  "waiters c = mset (map fst (qc_completed c)) + (case qc_waiting c of None \<Rightarrow> {#} | Some i \<Rightarrow> {#i#})"

text \<open>An operation with status \<open>st\<close> takes \<open>c\<close> to \<open>d\<close>.\<close>

definition moves :: "'tls quic_connection \<Rightarrow> ntstatus \<Rightarrow> 'tls quic_connection \<Rightarrow> bool" where
  "moves c st d \<longleftrightarrow> waiters d = waiters c \<and> length (qc_streams c) \<le> length (qc_streams d)
     \<and> (qc_wf c \<longrightarrow> qc_wf d \<and> (st = STATUS_SUCCESS \<longrightarrow> qc_accounts c \<longrightarrow> qc_accounts d))"

text \<open>An operation that keeps streams and flow control.\<close>

definition steady :: "'tls quic_connection \<Rightarrow> 'tls quic_connection \<Rightarrow> bool" where
  "steady c d \<longleftrightarrow> waiters d = waiters c \<and> qc_streams d = qc_streams c \<and> qc_flow d = qc_flow c
     \<and> (qc_wf c \<longrightarrow> qc_wf d)"

lemma moves_refl [simp]: "moves c st c"
  by (simp add: moves_def)

lemma moves_trans: "moves c STATUS_SUCCESS d \<Longrightarrow> moves d st e \<Longrightarrow> moves c st e"
  by (auto simp: moves_def)

lemma moves_then: "moves c st d \<Longrightarrow> st = STATUS_SUCCESS \<Longrightarrow> moves d st' e \<Longrightarrow> moves c st' e"
  by (auto simp: moves_def)

lemma moves_weaken: "moves c STATUS_SUCCESS d \<Longrightarrow> moves c st d"
  by (auto simp: moves_def)

lemma steady_refl [simp]: "steady c c"
  by (simp add: steady_def)

lemma steady_trans: "steady c d \<Longrightarrow> steady d e \<Longrightarrow> steady c e"
  by (auto simp: steady_def)

lemma steady_moves: "steady c d \<Longrightarrow> moves c st d"
  by (auto simp: steady_def moves_def qc_accounts_def)

lemma steady_moves_trans: "steady c d \<Longrightarrow> moves d st e \<Longrightarrow> moves c st e"
  by (rule moves_trans [OF steady_moves])

lemma moves_steady_trans: "moves c st d \<Longrightarrow> steady d e \<Longrightarrow> moves c st e"
  by (auto simp: steady_def moves_def qc_accounts_def)

text \<open>The part of the state the invariant reads; an update outside it is steady.\<close>

lemma steady_frame:
  assumes "qc_streams d = qc_streams c" "qc_flow d = qc_flow c" "qc_recovery d = qc_recovery c"
    "qc_trackers d = qc_trackers c" "qc_local_ids d = qc_local_ids c" "qc_peer_ids d = qc_peer_ids c"
    "qc_max_bidi d = qc_max_bidi c" "qc_max_uni d = qc_max_uni c" "qc_waiting d = qc_waiting c"
    "qc_completed d = qc_completed c"
  shows "steady c d"
  using assms by (simp add: steady_def qc_wf_def waiters_def)

lemma recovery_sent: "rc_on_packet_sent now space pn bytes ack r = (st, r') \<Longrightarrow> recovery_ok r \<Longrightarrow> recovery_ok r'"
  using rc_inv_sent [of r now space pn bytes ack st r']
  by (auto simp: recovery_ok_def rc_on_packet_sent_def split: if_splits)

lemma recovery_ack: "rc_on_ack_ranges now space ranges d r = (st, r') \<Longrightarrow> recovery_ok r \<Longrightarrow> recovery_ok r'"
proof -
  assume a: "rc_on_ack_ranges now space ranges d r = (st, r')" "recovery_ok r"
  have "rc_capacity r = 0 \<Longrightarrow> st \<noteq> STATUS_SUCCESS"
    using a(1) by (auto simp: rc_on_ack_ranges_def)
  with a rc_on_ack_ranges_error [OF a(1)] rc_inv_ack [OF _ a(1)] show ?thesis by (auto simp: recovery_ok_def)
qed

lemma loss_timer_capacity: "rc_capacity (snd (rc_on_loss_timer now space r)) = rc_capacity r"
  by (simp add: rc_on_loss_timer_def rc_compact_def Let_def split: prod.splits)

lemma recovery_loss_timer: "rc_on_loss_timer now space r = (st, r') \<Longrightarrow> recovery_ok r \<Longrightarrow> recovery_ok r'"
  using rc_inv_loss_timer [of r now space st r'] loss_timer_capacity [of now space r] by (auto simp: recovery_ok_def)

lemma recovery_pto: "recovery_ok r \<Longrightarrow> recovery_ok (rc_on_pto_fired r)"
  using rc_inv_pto [of r] by (auto simp: recovery_ok_def) (simp add: rc_on_pto_fired_def)

lemma recovery_initialize: "rc_initialize ok cap r = (st, r') \<Longrightarrow> recovery_ok r \<Longrightarrow> recovery_ok r'"
proof (cases "st = STATUS_SUCCESS")
  case True
  then show "rc_initialize ok cap r = (st, r') \<Longrightarrow> recovery_ok r \<Longrightarrow> recovery_ok r'"
    using rc_inv_initialize by (auto simp: recovery_ok_def)
qed (auto simp: recovery_ok_def rc_initialize_def split: if_splits)

lemma tracker_received: "on_packet_received pn el imm now t = (st, dup, t') \<Longrightarrow> tracker_ok t \<Longrightarrow> tracker_ok t'"
  using ack_inv_received [of t pn el imm now st dup t']
  by (cases "at_capacity t = 0") (auto simp: tracker_ok_def on_packet_received_def)

lemma tracker_sent: "tracker_ok t \<Longrightarrow> tracker_ok (ack_on_sent t)"
  using ack_inv_sent [of t] by (auto simp: tracker_ok_def ack_on_sent_def)

lemma tracker_initialize: "ack_initialize ok cap t = (st, t') \<Longrightarrow> tracker_ok t \<Longrightarrow> tracker_ok t'"
proof (cases "st = STATUS_SUCCESS")
  case True
  then show "ack_initialize ok cap t = (st, t') \<Longrightarrow> tracker_ok t \<Longrightarrow> tracker_ok t'"
    using ack_inv_initialize by (auto simp: tracker_ok_def)
qed (auto simp: tracker_ok_def ack_initialize_def split: if_splits)

lemma flow_step:
  assumes "fc_inv f"
  shows "fc_reserve_send n f = (st, f') \<Longrightarrow> fc_inv f'"
    and "fc_on_max_data m f = (st, f') \<Longrightarrow> fc_inv f'"
    and "fc_on_stream_receive_progress a b f = (st, f') \<Longrightarrow> fc_inv f'"
    and "fc_on_stream_consumed n f = (st, f') \<Longrightarrow> fc_inv f'"
  using assms by (auto simp: fc_defs fc_inv_def split: if_splits)

section \<open>Sending\<close>

lemma steadyI:
  assumes "qc_streams d = qc_streams c" "qc_flow d = qc_flow c" "waiters d = waiters c"
    "recovery_ok (qc_recovery c) \<Longrightarrow> recovery_ok (qc_recovery d)"
    "\<And>space. tracker_ok (qc_trackers c space) \<Longrightarrow> tracker_ok (qc_trackers d space)"
    "length (qc_local_ids c) \<le> WKNET_HARD_MAX_QUIC_CONNECTION_IDS
       \<Longrightarrow> length (qc_local_ids d) \<le> WKNET_HARD_MAX_QUIC_CONNECTION_IDS"
    "length (qc_peer_ids c) \<le> WKNET_HARD_MAX_QUIC_CONNECTION_IDS
       \<Longrightarrow> length (qc_peer_ids d) \<le> WKNET_HARD_MAX_QUIC_CONNECTION_IDS"
    "qc_max_bidi c \<le> WKNET_HARD_MAX_QUIC_LOCAL_BIDI_STREAMS \<Longrightarrow> qc_max_bidi d \<le> WKNET_HARD_MAX_QUIC_LOCAL_BIDI_STREAMS"
    "qc_max_uni c \<le> WKNET_HARD_MAX_QUIC_LOCAL_UNI_STREAMS \<Longrightarrow> qc_max_uni d \<le> WKNET_HARD_MAX_QUIC_LOCAL_UNI_STREAMS"
  shows "steady c d"
  using assms by (auto simp: steady_def qc_wf_def)

lemma steady_key_update: "qc_initiate_key_update E c = (st, d) \<Longrightarrow> steady c d"
  by (auto simp: qc_initiate_key_update_def split: if_splits sum.splits intro!: steady_frame)

lemma steady_prepare: "qc_prepare_send E type space c = (st, d) \<Longrightarrow> steady c d"
  using steady_key_update [of E c st d] by (auto simp: qc_prepare_send_def split: if_splits)

lemma steady_record: "qc_record_sent E type space el n c = (st, d) \<Longrightarrow> steady c d"
  using recovery_sent [of "qe_now E" space "qc_next_pn c space" n el "qc_recovery c"]
  by (auto simp: qc_record_sent_def Let_def waiters_def split: prod.splits if_splits intro!: steadyI)

lemma steady_transmit: "qc_transmit E type space el datagram c = (st, d) \<Longrightarrow> steady c d"
proof -
  have s: "steady c (c\<lparr>qc_sent := x\<rparr>)" for x by (rule steady_frame) simp_all
  show "qc_transmit E type space el datagram c = (st, d) \<Longrightarrow> steady c d"
    using s by (auto simp: qc_transmit_def Let_def split: sum.splits if_splits intro: steady_trans dest: steady_record)
qed

lemma steady_send: "qc_send_frame_packet E type space key f acks pad el c = (st, d) \<Longrightarrow> steady c d"
  by (auto simp: qc_send_frame_packet_def split: if_splits sum.splits prod.splits
      dest: steady_prepare steady_transmit intro: steady_trans)

lemma steady_send_application: "qc_send_application E f c = (st, d) \<Longrightarrow> steady c d"
  unfolding qc_send_application_def by (rule steady_send)

lemma steady_send_crypto: "qc_send_crypto_packet E type space key off out pad c = (st, d) \<Longrightarrow> steady c d"
  unfolding qc_send_crypto_packet_def by (rule steady_send)

lemma steady_send_probe: "qc_send_probe E space c = (st, d) \<Longrightarrow> steady c d"
  by (auto simp: qc_send_probe_def Let_def split: if_splits dest: steady_send)

lemma steady_send_ack: "qc_send_ack E space c = (st, d) \<Longrightarrow> steady c d"
proof -
  have s: "steady c (c\<lparr>qc_trackers := (qc_trackers c)(sp := ack_on_sent (qc_trackers c sp))\<rparr>)" for sp and c :: "'tls quic_connection"
    by (rule steadyI) (auto simp: waiters_def tracker_sent)
  show "qc_send_ack E space c = (st, d) \<Longrightarrow> steady c d"
    by (auto simp: qc_send_ack_def Let_def split: sum.splits if_splits prod.splits
        dest: steady_send intro: steady_trans [OF _ s])
qed

section \<open>Closing\<close>

lemma steady_state: "steady c (c\<lparr>qc_state := x\<rparr>)" "steady c (c\<lparr>qc_closing_deadline := n\<rparr>)"
  "steady c (c\<lparr>qc_draining_deadline := n\<rparr>)" "steady c (c\<lparr>qc_stop := b\<rparr>)" "steady c (c\<lparr>qc_tls := t\<rparr>)"
  "steady c (c\<lparr>qc_last_activity := n\<rparr>)" "steady c (c\<lparr>qc_attempt := v\<rparr>)" "steady c (c\<lparr>qc_pending_error := n\<rparr>)"
  "steady c (c\<lparr>qc_pacing_pending := b\<rparr>)"
  by (rule steady_frame; simp)+

lemma steady_complete_waiter: "steady c (qc_complete_waiter st c)"
  by (rule steadyI) (auto simp: qc_complete_waiter_def waiters_def split: option.splits)

lemma steady_enter_closing: "qc_enter_closing E code send app c = (st, d) \<Longrightarrow> steady c d"
  by (auto simp: qc_enter_closing_def Let_def split: if_splits prod.splits
      dest!: steady_send intro!: steady_trans [OF _ steady_state(2)] intro: steady_state(1) steady_trans [OF steady_state(1)])

lemma steady_enter_draining: "steady c (qc_enter_draining E c)"
  unfolding qc_enter_draining_def Let_def by (rule steady_trans [OF steady_frame steady_complete_waiter]) simp_all

lemma steady_fail: "steady c (qc_fail_connection E st code c)"
  by (auto simp: qc_fail_connection_def split: prod.splits
      intro: steady_trans [OF steady_enter_closing steady_trans [OF steady_state(1) steady_complete_waiter]])

lemma steady_stop_network: "steady c (qc_stop_network E c)"
  by (rule steady_frame) (simp_all add: qc_stop_network_def)

lemma steady_transition: "steady c (qc_transition_to_closed E c)"
  unfolding qc_transition_to_closed_def
  by (rule steady_trans [OF steady_state(1) steady_trans [OF steady_complete_waiter
        steady_trans [OF steady_stop_network steady_state(4)]]])

section \<open>Stream operations\<close>

lemma sum_list_put:
  "k < length xs \<Longrightarrow> sum_list (map f (xs[k := x])) + f (xs ! k) = sum_list (map f xs) + (f x :: nat)"
  using elem_le_sum_list [of k "map f xs"] by (simp add: map_update sum_list_update)

lemma streams_ok_put:
  assumes "streams_ok ss" "k < length ss" "stream_ok s" "qs_id s = qs_id (ss ! k)"
  shows "streams_ok (ss[k := s])"
proof -
  have ids: "map qs_id (ss[k := s]) = map qs_id ss"
    by (simp add: map_update assms list_update_same_conv)
  have "list_all stream_ok (ss[k := s])"
    using assms set_update_subset_insert [of ss k s] by (auto simp: streams_ok_def list_all_iff)
  moreover have "list_all (\<lambda>s. id_allowed (qs_id s)) (ss[k := s])"
    using assms(1) ids unfolding streams_ok_def list_all_iff by (metis (mono_tags, lifting) image_eqI image_iff list.set_map)
  ultimately show ?thesis using assms(1) by (simp add: streams_ok_def ids)
qed

lemma streams_ok_nth: "streams_ok ss \<Longrightarrow> k < length ss \<Longrightarrow> stream_ok (ss ! k)"
  by (simp add: streams_ok_def list_all_length)

text \<open>A stream and the flow control change together.\<close>

lemma moves_put_flow:
  assumes "k < length (qc_streams c)" "qc_wf c \<Longrightarrow> fc_inv f"
    "stream_ok (qc_streams c ! k) \<Longrightarrow> stream_ok s \<and> qs_id s = qs_id (qc_streams c ! k)"
    "stream_ok (qc_streams c ! k) \<Longrightarrow> st = STATUS_SUCCESS \<Longrightarrow>
       fc_initialized f = fc_initialized (qc_flow c) \<and> receiveLimit f = receiveLimit (qc_flow c)
       \<and> receivedBytes f + qs_highest (qc_streams c ! k) = receivedBytes (qc_flow c) + qs_highest s
       \<and> consumedBytes f + qs_consumed (qc_streams c ! k) = consumedBytes (qc_flow c) + qs_consumed s
       \<and> sendOffset f + qs_send_offset (qc_streams c ! k) = sendOffset (qc_flow c) + qs_send_offset s"
  shows "moves c st (c\<lparr>qc_streams := (qc_streams c)[k := s], qc_flow := f\<rparr>)"
proof -
  have "qc_wf (c\<lparr>qc_streams := (qc_streams c)[k := s], qc_flow := f\<rparr>)" if "qc_wf c"
    using that assms streams_ok_put [OF _ assms(1)] streams_ok_nth [OF _ assms(1)] by (simp add: qc_wf_def)
  moreover have "qc_accounts (c\<lparr>qc_streams := (qc_streams c)[k := s], qc_flow := f\<rparr>)"
    if "qc_wf c" "st = STATUS_SUCCESS" "qc_accounts c"
    using that assms(4) streams_ok_nth [OF _ assms(1)] sum_list_put [OF assms(1), of qs_highest s]
      sum_list_put [OF assms(1), of qs_consumed s] sum_list_put [OF assms(1), of qs_send_offset s]
    by (simp add: qc_wf_def qc_accounts_def accounted_def)
  ultimately show ?thesis by (simp add: moves_def waiters_def)
qed

lemma moves_put:
  assumes "k < length (qc_streams c)"
    "stream_ok (qc_streams c ! k) \<Longrightarrow> stream_ok s \<and> stream_counts s = stream_counts (qc_streams c ! k)"
  shows "moves c st (qc_put_stream k s c)"
proof -
  have "moves c st (c\<lparr>qc_streams := (qc_streams c)[k := s], qc_flow := qc_flow c\<rparr>)"
    using assms by (intro moves_put_flow) (auto simp: qc_wf_def stream_counts_def)
  then show ?thesis by (simp add: qc_put_stream_def)
qed

text \<open>When the operation fails only the counts that flow control knows matter no more.\<close>

lemma moves_put_failed:
  assumes "k < length (qc_streams c)" "st \<noteq> STATUS_SUCCESS"
    "stream_ok (qc_streams c ! k) \<Longrightarrow> stream_ok s \<and> qs_id s = qs_id (qc_streams c ! k)"
  shows "moves c st (qc_put_stream k s c)"
proof -
  have "moves c st (c\<lparr>qc_streams := (qc_streams c)[k := s], qc_flow := qc_flow c\<rparr>)"
    using assms by (intro moves_put_flow) (auto simp: qc_wf_def)
  then show ?thesis by (simp add: qc_put_stream_def)
qed

lemma find_stream_Some: "qc_find_stream i c = Some k \<Longrightarrow> k < length (qc_streams c) \<and> qs_id (qc_streams c ! k) = i"
  by (auto simp: qc_find_stream_def find_Some_iff)

lemma find_stream_None: "qc_find_stream i c = None \<longleftrightarrow> i \<notin> qs_id ` set (qc_streams c)"
  by (auto simp: qc_find_stream_def find_None_iff set_conv_nth)

lemma moves_notify_writable: "moves c st (qc_notify_writable_streams c)"
proof -
  have s: "map qs_id (map qs_try_notify_writable ss) = map qs_id ss"
    "map qs_highest (map qs_try_notify_writable ss) = map qs_highest ss"
    "map qs_consumed (map qs_try_notify_writable ss) = map qs_consumed ss"
    "map qs_send_offset (map qs_try_notify_writable ss) = map qs_send_offset ss" for ss
    by simp_all
  have "streams_ok (map qs_try_notify_writable ss) = streams_ok ss" for ss
    unfolding streams_ok_def s by (simp add: list_all_iff)
  then show ?thesis
    unfolding moves_def qc_notify_writable_streams_def
    by (simp add: qc_wf_def qc_accounts_def accounted_def waiters_def o_def)
qed

lemma moves_create:
  assumes "qc_create_stream E i c = (st, d)"
  shows "moves c st' d"
proof (cases "d = c")
  case False
  then obtain s where s: "qc_new_stream E i c = (STATUS_SUCCESS, s)" and
      d: "d = c\<lparr>qc_streams := qc_streams c @ [qs_set_sink (Some (qc_sink c)) s]\<rparr>" and i: "qc_find_stream i c = None" and
      a: "if stream_client_initiated i then drop_bit 2 i < (if stream_bidirectional i then qc_max_bidi c else qc_max_uni c)
          else drop_bit 2 i < (if stream_bidirectional i then WKNET_HARD_MAX_QUIC_PEER_BIDI_STREAMS
                                else WKNET_HARD_MAX_QUIC_PEER_UNI_STREAMS)"
    using assms by (auto simp: qc_create_stream_def Let_def not_le split: if_splits prod.splits)
  let ?s = "qs_set_sink (Some (qc_sink c)) s"
  have ok: "stream_ok ?s" "stream_counts ?s = (i, 0, 0, 0)"
    using new_stream_ok [OF s] set_sink_ok by auto
  have "id_allowed i" if "qc_wf c"
    using a that by (auto simp: id_allowed_def qc_wf_def split: if_splits)
  with ok i show ?thesis
    unfolding d moves_def
    by (auto simp: qc_wf_def streams_ok_def qc_accounts_def accounted_def waiters_def stream_counts_def find_stream_None)
qed simp

lemma create_adds: "qc_create_stream E i c = (STATUS_SUCCESS, d) \<Longrightarrow> qc_streams d \<noteq> []"
  by (auto simp: qc_create_stream_def Let_def split: if_splits prod.splits)

lemma moves_length: "moves c st d \<Longrightarrow> k < length (qc_streams c) \<Longrightarrow> k < length (qc_streams d)"
  by (simp add: moves_def)

lemma steady_length: "steady c d \<Longrightarrow> k < length (qc_streams c) \<Longrightarrow> k < length (qc_streams d)"
  by (simp add: steady_def)

text \<open>Flow control cannot refuse what it and the stream would both have accepted.\<close>

lemma reserve_accepts:
  "fc_can_reserve_send n f = STATUS_SUCCESS \<Longrightarrow> fc_reserve_send n f = (STATUS_SUCCESS, f\<lparr>sendOffset := sendOffset f + n\<rparr>)"
  by (simp add: fc_reserve_send_def)

lemma write_accepts: "qs_can_write n fin s = STATUS_SUCCESS \<Longrightarrow> fst (qs_write n fin s) = STATUS_SUCCESS"
  by (auto simp: qs_write_def qs_can_write_def Let_def split: if_splits)

lemma moves_write_accepted:
  assumes "k < length (qc_streams c)" "qs_can_write (length data) fin (qc_streams c ! k) = STATUS_SUCCESS"
    "fc_can_reserve_send (length data) (qc_flow c) = STATUS_SUCCESS"
    "qc_write_accepted k data fin c = (st, d)"
  shows "moves c st d \<and> st = STATUS_SUCCESS"
proof -
  obtain acc s where w: "qs_write (length data) fin (qc_streams c ! k) = (STATUS_SUCCESS, acc, s)"
    using write_accepts [OF assms(2)] by (metis prod.exhaust_sel)
  have acc: "acc = length data" using w assms(2) by (auto simp: qs_write_def Let_def split: if_splits)
  have d: "st = STATUS_SUCCESS"
      "d = c\<lparr>qc_streams := (qc_streams c)[k := s], qc_flow := (qc_flow c)\<lparr>sendOffset := sendOffset (qc_flow c) + length data\<rparr>\<rparr>"
    using assms(4) w reserve_accepts [OF assms(3)] by (auto simp: qc_write_accepted_def Let_def acc qc_put_stream_def)
  have "fc_inv (qc_flow c) \<Longrightarrow> fc_inv ((qc_flow c)\<lparr>sendOffset := sendOffset (qc_flow c) + length data\<rparr>)"
    using flow_step(1) [of "qc_flow c" "length data"] reserve_accepts [OF assms(3)] by simp
  then show ?thesis
    unfolding d using write_ok [OF _ w] by (auto intro!: moves_put_flow [OF assms(1)] simp: qc_wf_def)
qed

lemma moves_send_stream:
  assumes "k < length (qc_streams c)" "qc_send_stream_frame E k data fin c = (st, d)"
  shows "moves c st' d"
proof -
  let ?s = "qc_streams c ! k"
  define st0 where "st0 = qs_can_write (length data) fin ?s"
  define st1 where "st1 = (if st0 = STATUS_SUCCESS then fc_can_reserve_send (length data) (qc_flow c) else st0)"
  have blocked: "moves c x (qc_put_stream k (qs_mark_write_blocked ?s) c)" for x
    using moves_put [OF assms(1)] by simp
  have ok: "qs_can_write (length data) fin ?s = STATUS_SUCCESS" "fc_can_reserve_send (length data) (qc_flow c) = STATUS_SUCCESS"
    if "st1 = STATUS_SUCCESS"
    using that by (auto simp: st1_def st0_def split: if_splits)
  have sent: "moves c st' d" if s: "steady c c1" and w: "qc_write_accepted k data fin c1 = (st, d)" and "st1 = STATUS_SUCCESS" for c1
  proof -
    have "moves c1 st d \<and> st = STATUS_SUCCESS"
      using s ok [OF that(3)] assms(1) by (intro moves_write_accepted [OF _ _ _ w]) (auto simp: steady_def)
    then show ?thesis using steady_moves_trans [OF s] moves_weaken by metis
  qed
  show ?thesis
    using assms(2) unfolding qc_send_stream_frame_def Let_def st0_def [symmetric] st1_def [symmetric]
    by (auto split: if_splits prod.splits intro: blocked moves_steady_trans [OF blocked steady_state(9)]
        sent [OF steady_refl] sent steady_moves dest: steady_send_application)
qed

lemma moves_write_loop: "k < length (qc_streams c) \<Longrightarrow> qc_write_loop E k data fin off c = (st, n, d) \<Longrightarrow> moves c st' d"
proof (induction E k data fin off c rule: qc_write_loop.induct)
  case (1 E k data fin off c)
  show ?case
  proof (cases "off \<ge> length data")
    case True
    with 1 show ?thesis by (simp add: qc_write_loop.simps)
  next
    case False
    let ?n = "if length data - off > 1024 then 1024 else length data - off"
    obtain st1 c1 where s: "qc_send_stream_frame (E off) k (view data off ?n) (fin \<and> ?n = length data - off) c = (st1, c1)"
      by fastforce
    have m: "moves c x c1" for x by (rule moves_send_stream [OF 1(2) s])
    show ?thesis
    proof (cases "st1 = STATUS_SUCCESS")
      case True
      then have "qc_write_loop E k data fin (off + ?n) c1 = (st, n, d)"
        using 1(3) False s by (subst (asm) qc_write_loop.simps) (simp add: Let_def)
      from 1(1) [OF False refl refl s [symmetric] _ moves_length [OF m 1(2)] this] True m show ?thesis
        using moves_trans by blast
    next
      case st: False
      with 1(3) False s have "d = c1" by (subst (asm) qc_write_loop.simps) (simp add: Let_def)
      with m show ?thesis by simp
    qed
  qed
qed

section \<open>The operations of the application\<close>

lemma moves_application_write:
  assumes "qc_application_write E i data fin c = (st, n, d)"
  shows "moves c st' d"
proof (cases "qc_find_stream i c")
  case (Some k)
  then have k: "k < length (qc_streams c)" using find_stream_Some by blast
  obtain st1 n1 c1 where w: "qc_write_loop E k data fin 0 c = (st1, n1, c1)" by (metis prod_cases3)
  have m: "moves c x c1" for x by (rule moves_write_loop [OF k w])
  have "d = c1 \<or> (\<exists>st2. qc_send_stream_frame (E 0) k [] True c1 = (st2, d))"
    using assms Some w by (auto simp: qc_application_write_def split: if_splits prod.splits)
  then show ?thesis
    using m moves_trans [OF m moves_send_stream [OF moves_length [OF m k]]] by blast
qed (use assms in \<open>auto simp: qc_application_write_def\<close>)

lemma moves_next: "steady c (c\<lparr>qc_next_bidi := n\<rparr>)" "steady c (c\<lparr>qc_next_uni := n\<rparr>)"
  by (rule steady_frame; simp)+

lemma moves_open: "qc_application_open E b c = (st, k, d) \<Longrightarrow> moves c st' d"
  by (auto simp: qc_application_open_def split: if_splits prod.splits
      dest: moves_create intro: moves_steady_trans [OF moves_create moves_next(1)] moves_steady_trans [OF moves_create moves_next(2)])

text \<open>What was consumed from a stream was received by the connection.\<close>

lemma consumed_accepted:
  assumes "qc_wf c" "qc_accounts c" "k < length (qc_streams c)"
    "qs_consume cap (qc_streams c ! k) = (st, out, fin, s)"
  shows "fst (fc_on_stream_consumed (length out) (qc_flow c)) = STATUS_SUCCESS"
proof -
  have ok: "stream_ok (qc_streams c ! k)" using assms(1,3) streams_ok_nth by (auto simp: qc_wf_def)
  note s = consume_ok [OF ok assms(4)]
  have le: "sum_list (map qs_consumed ((qc_streams c)[k := s])) \<le> sum_list (map qs_highest (qc_streams c))"
  proof -
    have ss: "list_all stream_ok ((qc_streams c)[k := s])"
      using streams_ok_put [of "qc_streams c" k s] assms(1,3) s by (auto simp: qc_wf_def streams_ok_def)
    have "sum_list (map qs_consumed ((qc_streams c)[k := s])) \<le> sum_list (map qs_highest ((qc_streams c)[k := s]))"
      using ss by (intro sum_list_mono) (auto simp: list_all_iff stream_ok_def qs_inv_def)
    also have "\<dots> = sum_list (map qs_highest (qc_streams c))"
      using sum_list_put [OF assms(3), of qs_highest s] s by simp
    finally show ?thesis .
  qed
  have "consumedBytes (qc_flow c) + length out \<le> receivedBytes (qc_flow c)"
    using assms(2) le sum_list_put [OF assms(3), of qs_consumed s] s by (simp add: qc_accounts_def accounted_def)
  then show ?thesis using assms(2) by (auto simp: fc_on_stream_consumed_def qc_accounts_def)
qed

lemma moves_consume: "qc_application_consume i cap c = (st, out, fin, d) \<Longrightarrow> moves c st' d"
proof (cases "qc_find_stream i c")
  case (Some k)
  then have k: "k < length (qc_streams c)" using find_stream_Some by blast
  assume run: "qc_application_consume i cap c = (st, out, fin, d)"
  obtain st0 out0 fin0 s where s: "qs_consume cap (qc_streams c ! k) = (st0, out0, fin0, s)" by (metis prod_cases4)
  obtain st1 f where f: "fc_on_stream_consumed (length out0) (qc_flow c) = (st1, f)" by fastforce
  have inv: "fc_inv (qc_flow c) \<Longrightarrow> fc_inv f" using flow_step(4) [OF _ f] .
  have f': "st1 = STATUS_SUCCESS \<Longrightarrow> f = (qc_flow c)\<lparr>consumedBytes := consumedBytes (qc_flow c) + length out0\<rparr>"
    using f by (auto simp: fc_on_stream_consumed_def split: if_splits)
  have fail: "st1 \<noteq> STATUS_SUCCESS \<Longrightarrow> f = qc_flow c"
    using f by (auto simp: fc_on_stream_consumed_def split: if_splits)
  show ?thesis
  proof (cases "st0 = STATUS_SUCCESS \<and> out0 \<noteq> []")
    case True
    then have "st = st1" "d = c\<lparr>qc_streams := (qc_streams c)[k := s], qc_flow := f\<rparr>"
      using run Some s f by (auto simp: qc_application_consume_def qc_put_stream_def Let_def)
    moreover have m1: "moves c st1 (c\<lparr>qc_streams := (qc_streams c)[k := s], qc_flow := f\<rparr>)"
    proof (rule moves_put_flow [OF k])
      assume "stream_ok (qc_streams c ! k)"
      note c = consume_ok [OF this s]
      show "stream_ok s \<and> qs_id s = qs_id (qc_streams c ! k)" using c by simp
      show "st1 = STATUS_SUCCESS \<Longrightarrow> fc_initialized f = fc_initialized (qc_flow c) \<and> receiveLimit f = receiveLimit (qc_flow c)
         \<and> receivedBytes f + qs_highest (qc_streams c ! k) = receivedBytes (qc_flow c) + qs_highest s
         \<and> consumedBytes f + qs_consumed (qc_streams c ! k) = consumedBytes (qc_flow c) + qs_consumed s
         \<and> sendOffset f + qs_send_offset (qc_streams c ! k) = sendOffset (qc_flow c) + qs_send_offset s"
        using c f' by simp
    qed (use inv in \<open>simp add: qc_wf_def\<close>)
    moreover have "qc_wf c \<Longrightarrow> qc_accounts c \<Longrightarrow> st1 = STATUS_SUCCESS"
      using consumed_accepted [OF _ _ k s] f by simp
    ultimately show ?thesis by (auto simp: moves_def)
  next
    case False
    then have "d = qc_put_stream k s c" "st = st0" using run Some s by (auto simp: qc_application_consume_def Let_def)
    moreover have "moves c st' (qc_put_stream k s c)"
    proof (rule moves_put [OF k])
      assume "stream_ok (qc_streams c ! k)"
      note c = consume_ok [OF this s]
      with False have "out0 = []" by blast
      with c show "stream_ok s \<and> stream_counts s = stream_counts (qc_streams c ! k)"
        by (simp add: stream_counts_def)
    qed
    ultimately show ?thesis by simp
  qed
qed (auto simp: qc_application_consume_def)

lemma moves_reset_stream:
  assumes "k < length (qc_streams c)" "qs_reset err n (qc_streams c ! k) = (st, s)"
  shows "moves c st' (qc_put_stream k s c)"
  using other_ok(2,6) [of "qc_streams c ! k" err n] assms by (auto intro!: moves_put)

lemma moves_stop_stream:
  assumes "k < length (qc_streams c)" "qs_stop_sending err (qc_streams c ! k) = (st, s)"
  shows "moves c st' (qc_put_stream k s c)"
  using other_ok(3,7) [of "qc_streams c ! k" err] assms by (auto intro!: moves_put)

lemma moves_application_reset: "qc_application_reset E i err c = (st, d) \<Longrightarrow> moves c st' d"
  using find_stream_Some [of i c]
  by (auto simp: qc_application_reset_def split: option.splits prod.splits if_splits
      dest!: steady_send_application
      intro: moves_reset_stream steady_moves steady_moves_trans [OF _ moves_reset_stream] steady_length)

lemma moves_application_stop: "qc_application_stop_sending E i err c = (st, d) \<Longrightarrow> moves c st' d"
  using find_stream_Some [of i c]
  by (auto simp: qc_application_stop_sending_def split: option.splits prod.splits if_splits
      dest!: steady_send_application
      intro: moves_stop_stream steady_moves steady_moves_trans [OF _ moves_stop_stream] steady_length)

lemma moves_application_close: "qc_application_close E err c = (st, d) \<Longrightarrow> moves c st' d"
  by (auto simp: qc_application_close_def split: if_splits intro: steady_moves steady_enter_closing)

section \<open>Frames\<close>

lemma moves_dispatch_ack:
  assumes "qc_dispatch_ack E space f c = (st, d)"
  shows "moves c st d"
proof -
  have "d = c \<or> (\<exists>ranges dl r. rc_on_ack_ranges (qe_now E) space ranges dl (qc_recovery c) = (st, r)
      \<and> (d = c\<lparr>qc_recovery := r\<rparr> \<or> d = qc_notify_writable_streams (qc_confirm_key_update ranges (c\<lparr>qc_recovery := r\<rparr>))))"
    using assms by (auto simp: qc_dispatch_ack_def Let_def split: sum.splits if_splits prod.splits)
  then consider "d = c"
    | ranges dl r where "rc_on_ack_ranges (qe_now E) space ranges dl (qc_recovery c) = (st, r)"
        "d = c\<lparr>qc_recovery := r\<rparr> \<or> d = qc_notify_writable_streams (qc_confirm_key_update ranges (c\<lparr>qc_recovery := r\<rparr>))"
    by blast
  then show ?thesis
  proof cases
    case 2
    have r: "steady c (c\<lparr>qc_recovery := r\<rparr>)"
      using recovery_ack [OF 2(1)] by (intro steadyI) (auto simp: waiters_def)
    have k: "steady x (qc_confirm_key_update ranges x)" for x :: "'a quic_connection"
      by (rule steady_frame) (simp_all add: qc_confirm_key_update_def)
    from 2(2) show ?thesis
      using steady_moves [OF r] steady_moves_trans [OF steady_trans [OF r k] moves_notify_writable] by auto
  qed simp
qed

lemma moves_stream_for:
  assumes "qc_stream_for E i c = (r, d)"
  shows "moves c (case r of Inl e \<Rightarrow> e | Inr k \<Rightarrow> STATUS_SUCCESS) d"
    "r = Inr k \<Longrightarrow> k < length (qc_streams d)"
    "r = Inl e \<Longrightarrow> e \<noteq> STATUS_SUCCESS"
  using assms find_stream_Some [of i c] moves_create [of E i c] create_adds [of E i c]
  by (auto simp: qc_stream_for_def split: option.splits if_splits prod.splits)

text \<open>A stream takes data or a reset, and flow control the progress of its highest offset.\<close>

lemma moves_progress:
  assumes k: "k < length (qc_streams c)"
    and s: "stream_ok (qc_streams c ! k) \<Longrightarrow> stream_ok s \<and> qs_id s = qs_id (qc_streams c ! k)
        \<and> qs_consumed s = qs_consumed (qc_streams c ! k) \<and> qs_send_offset s = qs_send_offset (qc_streams c ! k)
        \<and> qs_highest s = h \<and> qs_highest (qc_streams c ! k) \<le> h"
    and f: "fc_on_stream_receive_progress (qs_highest (qc_streams c ! k)) h (qc_flow c) = (st, f)"
  shows "moves c st (c\<lparr>qc_streams := (qc_streams c)[k := s], qc_flow := f\<rparr>)"
proof -
  have "st = STATUS_SUCCESS \<Longrightarrow> f = (qc_flow c)\<lparr>receivedBytes := receivedBytes (qc_flow c) + (h - qs_highest (qc_streams c ! k))\<rparr>"
    using f by (auto simp: fc_on_stream_receive_progress_def Let_def split: if_splits)
  then show ?thesis
    using s flow_step(3) [OF _ f] by (auto intro!: moves_put_flow [OF k] simp: qc_wf_def)
qed

lemma put_twice: "qc_put_stream k s (c\<lparr>qc_streams := (qc_streams c)[k := t], qc_flow := f\<rparr>)
    = c\<lparr>qc_streams := (qc_streams c)[k := s], qc_flow := f\<rparr>"
  by (simp add: qc_put_stream_def)

lemma moves_dispatch_stream:
  assumes "qc_dispatch_stream E f c = (st, d)"
  shows "moves c st d"
proof -
  obtain r c1 where r: "qc_stream_for E (fr_stream_id f) c = (r, c1)" by fastforce
  note sf = moves_stream_for [OF r]
  show ?thesis
  proof (cases r)
    case (Inl e)
    with assms r sf(1) show ?thesis by (simp add: qc_dispatch_stream_def)
  next
    case (Inr k)
    then have k: "k < length (qc_streams c1)" and m: "moves c STATUS_SUCCESS c1" using sf by auto
    let ?old = "qc_streams c1 ! k"
    obtain st1 s where s: "qs_receive (qe_alloc E AlReassembly) (fr_offset f) (fr_data f) (fr_fin f) False ?old = (st1, s)"
      by fastforce
    obtain st2 fl where f: "fc_on_stream_receive_progress (qs_highest ?old) (qs_highest s) (qc_flow c1) = (st2, fl)"
      by fastforce
    note ok = receive_ok [OF _ s]
    show ?thesis
    proof (cases "st1 = STATUS_SUCCESS")
      case False
      with assms r Inr s have "st = st1" "d = qc_put_stream k s c1" by (simp_all add: qc_dispatch_stream_def Let_def)
      moreover have "moves c1 st1 (qc_put_stream k s c1)" using False ok by (intro moves_put_failed [OF k]) blast+
      ultimately show ?thesis using moves_trans [OF m] by simp
    next
      case True
      then have "st = st2" and d: "d = c1\<lparr>qc_streams := (qc_streams c1)[k := s], qc_flow := fl\<rparr>
          \<or> d = c1\<lparr>qc_streams := (qc_streams c1)[k := qs_notify_readable s], qc_flow := fl\<rparr>"
        using assms r Inr s f by (auto simp: qc_dispatch_stream_def Let_def qc_put_stream_def split: if_splits)
      moreover have "moves c1 st2 (c1\<lparr>qc_streams := (qc_streams c1)[k := s], qc_flow := fl\<rparr>)"
        using ok by (intro moves_progress [OF k _ f]) blast
      moreover have "moves c1 st2 (c1\<lparr>qc_streams := (qc_streams c1)[k := qs_notify_readable s], qc_flow := fl\<rparr>)"
        using ok by (intro moves_progress [OF k _ f]) simp
      ultimately show ?thesis using moves_trans [OF m] by auto
    qed
  qed
qed

lemma moves_dispatch_reset:
  assumes "qc_dispatch_reset E f c = (st, d)"
  shows "moves c st d"
proof -
  obtain r c1 where r: "qc_stream_for E (fr_stream_id f) c = (r, c1)" by fastforce
  note sf = moves_stream_for [OF r]
  show ?thesis
  proof (cases r)
    case (Inl e)
    with assms r sf(1) show ?thesis by (simp add: qc_dispatch_reset_def)
  next
    case (Inr k)
    then have k: "k < length (qc_streams c1)" and m: "moves c STATUS_SUCCESS c1" using sf by auto
    let ?old = "qc_streams c1 ! k"
    obtain st1 s where s: "qs_on_reset_received (fr_error_code f) (fr_final_size f) ?old = (st1, s)" by fastforce
    obtain st2 fl where f: "fc_on_stream_receive_progress (qs_highest ?old) (fr_final_size f) (qc_flow c1) = (st2, fl)"
      by fastforce
    note ok = reset_received_ok [OF _ s]
    show ?thesis
    proof (cases "st1 = STATUS_SUCCESS")
      case False
      with assms r Inr s have "st = st1" "d = qc_put_stream k s c1" by (simp_all add: qc_dispatch_reset_def Let_def)
      moreover have "moves c1 st1 (qc_put_stream k s c1)" using False ok by (intro moves_put_failed [OF k]) blast+
      ultimately show ?thesis using moves_trans [OF m] by simp
    next
      case True
      then have "st = st2" "d = c1\<lparr>qc_streams := (qc_streams c1)[k := s], qc_flow := fl\<rparr>"
        using assms r Inr s f by (auto simp: qc_dispatch_reset_def Let_def qc_put_stream_def split: if_splits)
      moreover have "moves c1 st2 (c1\<lparr>qc_streams := (qc_streams c1)[k := s], qc_flow := fl\<rparr>)"
        using ok True by (intro moves_progress [OF k _ f]) simp
      ultimately show ?thesis using moves_trans [OF m] by auto
    qed
  qed
qed

lemma moves_dispatch_stop:
  assumes "qc_dispatch_stop_sending E f c = (st, d)"
  shows "moves c st d"
proof (cases "qc_find_stream (fr_stream_id f) c")
  case None
  with assms show ?thesis by (simp add: qc_dispatch_stop_sending_def)
next
  case (Some k)
  then have k: "k < length (qc_streams c)" using find_stream_Some by blast
  obtain st1 s where s: "qs_stop_sending (fr_error_code f) (qc_streams c ! k) = (st1, s)" by fastforce
  let ?c1 = "qc_put_stream k s c"
  note m = moves_stop_stream [OF k s]
  have k1: "k < length (qc_streams ?c1)" using k by (simp add: qc_put_stream_def)
  obtain st2 c2 where send: "qc_send_application E (frame_new\<lparr>fr_kind := FkResetStream, fr_stream_id := fr_stream_id f,
      fr_error_code := fr_error_code f, fr_final_size := qs_send_offset s\<rparr>) ?c1 = (st2, c2)" by fastforce
  note m2 = moves_steady_trans [OF m steady_send_application [OF send]]
  have k2: "k < length (qc_streams c2)" using steady_length [OF steady_send_application [OF send] k1] .
  obtain st3 s3 where s3: "qs_reset (fr_error_code f) (qs_send_offset (qc_streams c2 ! k)) (qc_streams c2 ! k) = (st3, s3)"
    by fastforce
  have "(st, d) \<in> {(st1, ?c1), (st2, c2), (st3, qc_put_stream k s3 c2)}"
    using assms Some s send s3 by (auto simp: qc_dispatch_stop_sending_def Let_def split: if_splits)
  then show ?thesis using m m2 moves_trans [OF m2 moves_reset_stream [OF k2 s3]] by auto
qed

section \<open>Connection identifiers\<close>

lemma steady_ids:
  "length xs \<le> WKNET_HARD_MAX_QUIC_CONNECTION_IDS \<or> length xs = length (qc_local_ids c) \<Longrightarrow> steady c (c\<lparr>qc_local_ids := xs\<rparr>)"
  "length xs \<le> WKNET_HARD_MAX_QUIC_CONNECTION_IDS \<or> length xs = length (qc_peer_ids c) \<Longrightarrow> steady c (c\<lparr>qc_peer_ids := xs\<rparr>)"
  "steady c (c\<lparr>qc_source_id := i\<rparr>)" "steady c (c\<lparr>qc_next_local_sequence := n\<rparr>)"
  "steady c (c\<lparr>qc_peer_sequence := n, qc_peer_id := i\<rparr>)"
  by (rule steadyI; auto simp: waiters_def)+

text \<open>Sending leaves the identifiers alone.\<close>

lemma send_keeps_ids:
  "qc_send_frame_packet E type space key f acks pad el c = (st, d) \<Longrightarrow>
     qc_local_ids d = qc_local_ids c \<and> qc_peer_ids d = qc_peer_ids c \<and> qc_source_id d = qc_source_id c
     \<and> qc_peer_id d = qc_peer_id c \<and> qc_peer_sequence d = qc_peer_sequence c
     \<and> qc_next_local_sequence d = qc_next_local_sequence c \<and> qc_state d = qc_state c \<and> qc_network d = qc_network c"
  by (auto simp: qc_send_frame_packet_def qc_prepare_send_def qc_initiate_key_update_def qc_transmit_def
      qc_record_sent_def Let_def split: if_splits sum.splits prod.splits)

lemma steady_issue: "qc_issue_id E c = (st, d) \<Longrightarrow> steady c d"
proof -
  assume run: "qc_issue_id E c = (st, d)"
  show ?thesis
  proof (cases "\<exists>f. qc_send_application E f c = (st, d) \<or> d = c")
    case True
    then show ?thesis using steady_send_application by (metis steady_refl)
  next
    case False
    then obtain f c1 e where send: "qc_send_application E f c = (STATUS_SUCCESS, c1)"
      and d: "d = c1\<lparr>qc_local_ids := qc_local_ids c1 @ [e], qc_next_local_sequence := qc_next_local_sequence c1 + 1\<rparr>"
      and n: "length (qc_local_ids c) < WKNET_HARD_MAX_QUIC_CONNECTION_IDS"
      using run by (auto simp: qc_issue_id_def Let_def not_le split: if_splits sum.splits prod.splits)
    have "length (qc_local_ids c1) < WKNET_HARD_MAX_QUIC_CONNECTION_IDS"
      using send_keeps_ids send n unfolding qc_send_application_def by metis
    then have "steady c1 d"
      unfolding d by (intro steadyI) (auto simp: waiters_def)
    with steady_send_application [OF send] show ?thesis by (rule steady_trans)
  qed
qed

lemma steady_retire_loop:
  "peer_id_retire E rp ks active repl c = (st, n, r, d) \<Longrightarrow> steady c d"
proof (induction ks arbitrary: active repl c)
  case (Cons k ks)
  have u: "steady x (x\<lparr>qc_peer_ids := (qc_peer_ids x)[k := e]\<rparr>)" for x :: "'a quic_connection" and e
    by (rule steady_ids(2)) simp
  from Cons.prems show ?case
    by (auto simp: Let_def split: if_splits prod.splits
        dest!: Cons.IH steady_send_application intro: steady_trans [OF _ steady_trans [OF u]])
qed simp

lemma steady_select: "steady c (qc_select_peer_id r c)"
  using steady_ids(5) by (auto simp: qc_select_peer_id_def split: option.splits)

lemma steady_new_id:
  assumes "qc_handle_new_id E f c = (st, d)"
  shows "steady c d"
proof (cases "d = c")
  case False
  define c1 where "c1 = c\<lparr>qc_peer_ids := qc_peer_ids c @ [\<lparr>ce_sequence = fr_sequence f, ce_id = fr_connection_id f,
                          ce_token = Some (fr_stateless_reset_token f), ce_retired = False, ce_deadline = 0\<rparr>]\<rparr>"
  obtain st1 n r c2 where loop: "peer_id_retire E (fr_retire_prior_to f) [0 ..< length (qc_peer_ids c1)] 0 None c1 = (st1, n, r, c2)"
    by (metis prod_cases4)
  have n: "length (qc_peer_ids c) < WKNET_HARD_MAX_QUIC_CONNECTION_IDS" and d: "d = c2 \<or> d = qc_select_peer_id r c2"
    using assms False loop unfolding qc_handle_new_id_def c1_def [symmetric] Let_def by (auto split: if_splits option.splits)
  have "steady c c1" unfolding c1_def using n by (intro steady_ids(2)) simp
  then have "steady c c2" using steady_retire_loop [OF loop] by (rule steady_trans)
  then show ?thesis using d steady_trans [OF _ steady_select] by auto
qed simp

lemma steady_retire_local: "steady c (qc_retire_local E k c)"
  unfolding qc_retire_local_def by (rule steady_ids(1)) simp

lemma steady_retire_id: "qc_handle_retire_id E f c = (st, d) \<Longrightarrow> steady c d"
  by (auto simp: qc_handle_retire_id_def split: if_splits option.splits prod.splits
      dest!: steady_issue intro: steady_trans [OF steady_retire_local] steady_trans [OF steady_ids(3) steady_trans [OF steady_retire_local]]
        steady_trans [OF _ steady_trans [OF steady_ids(3) steady_retire_local]])

section \<open>The dispatch\<close>

lemma steady_params: "steady c (c\<lparr>qc_tokens := t\<rparr>)"
  by (rule steady_frame) simp_all

lemma moves_max_data:
  "fc_on_max_data m (qc_flow c) = (st, fl) \<Longrightarrow> moves c st' (c\<lparr>qc_flow := fl\<rparr>)"
proof -
  assume f: "fc_on_max_data m (qc_flow c) = (st, fl)"
  have "accounted ss fl = accounted ss (qc_flow c)" for ss
    using f by (auto simp: fc_on_max_data_def accounted_def split: if_splits)
  moreover have "fc_initialized fl = fc_initialized (qc_flow c) \<and> receiveLimit fl = receiveLimit (qc_flow c)"
    using f by (auto simp: fc_on_max_data_def split: if_splits)
  ultimately show ?thesis
    using flow_step(2) [OF _ f] by (auto simp: moves_def qc_wf_def qc_accounts_def waiters_def)
qed

lemma moves_max_stream_data:
  assumes "k < length (qc_streams c)" "qs_on_max_stream_data m (qc_streams c ! k) = (st, s)"
  shows "moves c st' (qc_put_stream k s c)"
  using other_ok(1,5) [of "qc_streams c ! k" m] assms by (auto intro!: moves_put)

lemma steady_max_streams: "qc_dispatch_max_streams f c = (st, d) \<Longrightarrow> steady c d"
  by (auto simp: qc_dispatch_max_streams_def waiters_def split: if_splits intro!: steadyI)

lemma steady_handshake_done: "qc_dispatch_handshake_done E c = (st, d) \<Longrightarrow> steady c d"
  by (auto simp: qc_dispatch_handshake_done_def Let_def split: if_splits prod.splits
      intro: steady_state steady_trans [OF steady_state(5) steady_trans [OF steady_state(1) steady_complete_waiter]])

lemma moves_dispatch_other:
  assumes "qc_dispatch_other E level f c = (st, d)"
  shows "moves c st d"
proof (cases "level = LvApplication")
  case False
  with assms show ?thesis
    by (auto simp: qc_dispatch_other_def split: if_splits intro: steady_moves steady_enter_draining)
next
  case True
  show ?thesis
  proof (cases "fr_kind f")
    case FkMaxData
    obtain st1 fl where f: "fc_on_max_data (fr_maximum f) (qc_flow c) = (st1, fl)" by fastforce
    note m = moves_max_data [OF f]
    from assms True FkMaxData f have "d = c\<lparr>qc_flow := fl\<rparr> \<or> d = qc_notify_writable_streams (c\<lparr>qc_flow := fl\<rparr>)"
      by (auto simp: qc_dispatch_other_def split: if_splits)
    then show ?thesis using m moves_trans [OF m moves_notify_writable] by auto
  next
    case FkMaxStreamData
    with assms True show ?thesis
      using find_stream_Some [of "fr_stream_id f" c]
      by (auto simp: qc_dispatch_other_def split: option.splits prod.splits intro: moves_max_stream_data)
  qed (use assms True in \<open>auto simp: qc_dispatch_other_def split: if_splits option.splits prod.splits
        intro: moves_dispatch_stream moves_dispatch_reset moves_dispatch_stop steady_moves [OF steady_params]
          steady_moves [OF steady_max_streams] steady_moves [OF steady_new_id] steady_moves [OF steady_retire_id]
          steady_moves [OF steady_send_application] steady_moves [OF steady_enter_draining]
          steady_moves [OF steady_handshake_done]\<close>)
qed

lemma moves_dispatch_frame: "qc_dispatch_frame E level space f c = (st, d) \<Longrightarrow> moves c st d"
  by (auto simp: qc_dispatch_frame_def split: if_splits prod.splits
      intro: moves_dispatch_ack steady_moves [OF steady_state(5)] steady_moves_trans [OF steady_state(6) moves_dispatch_other])

lemma moves_dispatch_frames: "qc_dispatch_frames E level space data off c = (st, d) \<Longrightarrow> moves c st d"
proof (induction E level space data off c rule: qc_dispatch_frames.induct)
  case (1 E level space data off c)
  show ?case
  proof (cases "data = [] \<or> (\<exists>e. quic_parse_frame data = Inl e)")
    case True
    then have "d = c" using 1(2) by (subst (asm) qc_dispatch_frames.simps) (auto split: if_splits)
    then show ?thesis by simp
  next
    case False
    then obtain f n where p: "quic_parse_frame data = Inr (f, n)" by (metis obj_sumE prod.exhaust_sel)
    obtain st1 c1 where s: "qc_dispatch_frame (E off) level space f c = (st1, c1)" by fastforce
    note m = moves_dispatch_frame [OF s]
    show ?thesis
    proof (cases "st1 = STATUS_SUCCESS")
      case True
      then have "qc_dispatch_frames E level space (drop n data) (off + n) c1 = (st, d)"
        using 1(2) False p s by (subst (asm) qc_dispatch_frames.simps) simp
      with 1(1) [OF _ p refl s [symmetric]] False True m show ?thesis using moves_trans by blast
    next
      case st: False
      with 1(2) False p s have "st = st1 \<and> d = c1" by (subst (asm) qc_dispatch_frames.simps) simp
      with m show ?thesis by simp
    qed
  qed
qed

section \<open>Handshake, packets, datagrams\<close>

lemma steady_progress_fields: "steady c (c\<lparr>qc_hello := h\<rparr>)" "steady c (c\<lparr>qc_initial_offset := n\<rparr>)"
  "steady c (c\<lparr>qc_handshake_offset := n, qc_finished_sent := b\<rparr>)"
  by (rule steady_frame; simp)+

lemma steady_overwrite: "steady c (qc_overwrite_hello out c)"
  unfolding qc_overwrite_hello_def by (rule steady_progress_fields(1))

lemma steady_initial_output: "qc_send_initial_output E out c = (st, d) \<Longrightarrow> steady c d"
  by (auto simp: qc_send_initial_output_def split: prod.splits if_splits
      intro: steady_trans [OF steady_send_crypto steady_progress_fields(2)] dest: steady_send_crypto)

lemma steady_reset_token: "steady c (qc_set_reset_token t c)"
  unfolding qc_set_reset_token_def by (auto intro!: steady_ids(2))

lemma moves_apply_parameters:
  assumes "qc_apply_parameters E c = (st, d)"
  shows "moves c st d"
proof (cases "d = c")
  case False
  let ?p = "tls_parameters E (qc_tls c)"
  obtain st1 fl where f: "fc_on_max_data (tp_initial_max_data ?p) (qc_flow c) = (st1, fl)" by fastforce
  define c1 where "c1 = c\<lparr>qc_flow := fl\<rparr>"
  define c2 where "c2 = c1\<lparr>
                     qc_max_bidi := (if tp_max_streams_bidi ?p < WKNET_HARD_MAX_QUIC_LOCAL_BIDI_STREAMS
                                     then tp_max_streams_bidi ?p else WKNET_HARD_MAX_QUIC_LOCAL_BIDI_STREAMS),
                     qc_max_uni := (if tp_max_streams_uni ?p < WKNET_HARD_MAX_QUIC_LOCAL_UNI_STREAMS
                                    then tp_max_streams_uni ?p else WKNET_HARD_MAX_QUIC_LOCAL_UNI_STREAMS)\<rparr>"
  define c3 where "c3 = qc_set_reset_token (tp_stateless_reset_token ?p) c2"
  have m: "moves c x c1" for x unfolding c1_def by (rule moves_max_data [OF f])
  have s2: "steady c1 c2" unfolding c2_def by (rule steadyI) (simp_all add: waiters_def)
  have s3: "steady c1 c3" unfolding c3_def by (rule steady_trans [OF s2 steady_reset_token])
  have s4: "steady c1 (c3\<lparr>qc_params_applied := True, qc_idle_timeout := n\<rparr>)" for n
    by (rule steady_trans [OF s3 steady_frame]) simp_all
  have "(if st1 \<noteq> STATUS_SUCCESS then (st1, c1)
      else if tp_max_idle_timeout ?p > u64_max div 10000 then (STATUS_INTEGER_OVERFLOW, c3)
      else (STATUS_SUCCESS, c3\<lparr>qc_params_applied := True,
             qc_idle_timeout := (if tp_max_idle_timeout ?p \<noteq> 0
               \<and> (qc_idle_timeout c3 = 0 \<or> tp_max_idle_timeout ?p * 10000 < qc_idle_timeout c3)
               then tp_max_idle_timeout ?p * 10000 else qc_idle_timeout c3)\<rparr>)) = (st, d)"
    using assms False unfolding qc_apply_parameters_def Let_def f prod.case c1_def [symmetric] c2_def [symmetric] c3_def [symmetric]
    by (cases "qc_ids_authentic c ?p") (simp_all only: simp_thms if_True if_False not_True_eq_False not_False_eq_True prod.inject)
  then have "d = c1 \<or> d = c3 \<or> (\<exists>n. d = c3\<lparr>qc_params_applied := True, qc_idle_timeout := n\<rparr>)"
    by (simp only: prod.inject split: if_split_asm) blast+
  then show ?thesis
    using m moves_steady_trans [OF m s3] moves_steady_trans [OF m s4] by auto
qed simp

lemma steady_install: "qc_install_application_keys E c = (st, d) \<Longrightarrow> steady c d"
  by (auto simp: qc_install_application_keys_def Let_def split: if_splits sum.splits intro!: steady_frame)

lemma steady_send_finished:
  assumes "qc_send_finished E c = (st, d)"
  shows "steady c d"
proof -
  obtain st1 c1 where i: "qc_install_application_keys E c = (st1, c1)" by fastforce
  obtain r tls where r: "tls_take_handshake E (qc_tls c1) = (r, tls)" by fastforce
  define c2 where "c2 = c1\<lparr>qc_tls := tls\<rparr>"
  note s1 = steady_install [OF i]
  have s2: "steady c c2" unfolding c2_def by (rule steady_trans [OF s1 steady_state(5)])
  show ?thesis
  proof (cases "st1 = STATUS_SUCCESS")
    case False
    with assms i s1 show ?thesis by (simp add: qc_send_finished_def)
  next
    case True
    have run: "(case r of Inl e \<Rightarrow> (if e = STATUS_INVALID_PARAMETER then STATUS_SUCCESS else e, c2)
      | Inr out \<Rightarrow> (case qc_send_crypto_packet E PtHandshake SpHandshake HandshakeWriteKey (qc_handshake_offset c2) out
                         False (qc_overwrite_hello out c2) of (st', c3) \<Rightarrow>
                    (st', if st' = STATUS_SUCCESS
                          then c3\<lparr>qc_handshake_offset := qc_handshake_offset c3 + length out, qc_finished_sent := True\<rparr>
                          else c3))) = (st, d)"
      using assms True unfolding qc_send_finished_def Let_def i prod.case r c2_def [symmetric] by simp
    show ?thesis
    proof (cases r)
      case (Inl e)
      with run s2 show ?thesis by simp
    next
      case (Inr out)
      obtain st3 c3 where p: "qc_send_crypto_packet E PtHandshake SpHandshake HandshakeWriteKey
          (qc_handshake_offset c2) out False (qc_overwrite_hello out c2) = (st3, c3)" by fastforce
      have s3: "steady c c3" by (rule steady_trans [OF s2 steady_trans [OF steady_overwrite steady_send_crypto [OF p]]])
      have "d = c3 \<or> d = c3\<lparr>qc_handshake_offset := qc_handshake_offset c3 + length out, qc_finished_sent := True\<rparr>"
        using run p Inr by (simp split: if_splits)
      then show ?thesis using s3 steady_trans [OF s3 steady_progress_fields(3)] by auto
    qed
  qed
qed

lemma moves_tls_progress:
  assumes "qc_handle_tls_progress E c = (st, d)"
  shows "moves c st d"
proof -
  obtain r tls where r: "tls_take_initial E (qc_tls c) = (r, tls)" by fastforce
  let ?c1 = "c\<lparr>qc_tls := tls\<rparr>"
  obtain st2 c2 where a: "(if \<not> qc_params_applied ?c1 \<and> tls_parameters_known (tls_state E (qc_tls ?c1))
       then qc_apply_parameters E ?c1 else (STATUS_SUCCESS, ?c1)) = (st2, c2)" by fastforce
  have m2: "moves ?c1 st2 c2" using a moves_apply_parameters by (auto split: if_splits)
  show ?thesis
  proof (cases r)
    case (Inr out)
    with assms r have "qc_send_initial_output E out (qc_overwrite_hello out ?c1) = (st, d)"
      by (simp add: qc_handle_tls_progress_def)
    from steady_initial_output [OF this] show ?thesis
      by (rule steady_moves [OF steady_trans [OF steady_state(5) steady_trans [OF steady_overwrite]]])
  next
    case (Inl e)
    show ?thesis
    proof (cases "e = STATUS_NOT_FOUND \<and> st2 = STATUS_SUCCESS")
      case False
      with assms r Inl a have "(st, d) = (e, ?c1) \<or> (st, d) = (st2, c2)"
        by (auto simp: qc_handle_tls_progress_def Let_def split: if_splits)
      then show ?thesis using steady_moves [OF steady_state(5)] steady_moves_trans [OF steady_state(5) m2] by auto
    next
      case True
      with assms r Inl a have "d = c2 \<or> qc_send_finished E c2 = (st, d)"
        by (auto simp: qc_handle_tls_progress_def Let_def split: if_splits)
      moreover have "moves ?c1 STATUS_SUCCESS c2" using m2 True by simp
      ultimately show ?thesis
        using steady_moves_trans [OF steady_state(5)] moves_weaken moves_trans steady_moves [OF steady_send_finished] by metis
    qed
  qed
qed

lemma steady_first_peer_id: "steady c (qc_set_first_peer_id i c)"
  unfolding qc_set_first_peer_id_def by (rule steadyI) (auto simp: waiters_def)

lemma steady_restart: "qc_restart_initial E c = (st, d) \<Longrightarrow> steady c d"
proof -
  assume run: "qc_restart_initial E c = (st, d)"
  show ?thesis
  proof (cases "quic_derive_initial_key_sets (qe_crypto E) (qe_alloc E AlKeys) (av_retry_scid (qc_attempt c))")
    case (Inl e)
    with run show ?thesis by (auto simp: qc_restart_initial_def intro!: steady_frame)
  next
    case (Inr ks)
    obtain client server where ks: "ks = (client, server)" by fastforce
    define c1 where "c1 = c\<lparr>qc_initial_write := client, qc_initial_read := server,
                     qc_next_pn := (qc_next_pn c)(SpInitial := 0), qc_expected_pn := (qc_expected_pn c)(SpInitial := 0)\<rparr>"
    obtain st2 r where r: "rc_initialize (qe_alloc E AlRecovery) WKNET_HARD_MAX_QUIC_SENT_PACKETS (qc_recovery c1) = (st2, r)"
      by fastforce
    define c2 where "c2 = c1\<lparr>qc_recovery := r\<rparr>"
    obtain st3 t where t: "ack_initialize (qe_alloc E AlTracker) WKNET_HARD_MAX_QUIC_ACK_RANGES (qc_trackers c2 SpInitial) = (st3, t)"
      by fastforce
    define c3 where "c3 = c2\<lparr>qc_trackers := (qc_trackers c2)(SpInitial := t)\<rparr>"
    have s1: "steady c c1" unfolding c1_def by (rule steady_frame) simp_all
    have s2: "steady c c2" unfolding c2_def
      by (rule steady_trans [OF s1 steadyI]) (auto simp: waiters_def intro: recovery_initialize [OF r])
    have s3: "steady c c3" unfolding c3_def
      by (rule steady_trans [OF s2 steadyI]) (auto simp: waiters_def intro: tracker_initialize [OF t])
    have "d = c2 \<or> d = c3 \<or> qc_send_crypto_packet E PtInitial SpInitial InitialWriteKey 0 (qc_hello c3) True c3 = (st, d)"
      using run Inr ks r t unfolding qc_restart_initial_def Let_def
      by (auto simp: c1_def c2_def c3_def split: if_splits)
    then show ?thesis using s2 s3 steady_trans [OF s3 steady_send_crypto] by auto
  qed
qed

lemma steady_process_retry: "qc_process_retry E h packet c = (st, d) \<Longrightarrow> steady c d"
  by (auto simp: qc_process_retry_def Let_def split: prod.splits if_splits dest!: steady_restart
      intro: steady_state(7) steady_trans [OF steady_state(7) steady_trans [OF steady_first_peer_id]])

lemma steady_accept_phase: "qc_accept_phase E sel phase pn c = (st, d) \<Longrightarrow> steady c d"
  by (cases sel) (auto simp: qc_accept_phase_def Let_def split: if_splits sum.splits intro!: steady_frame)

lemma steady_learn: "steady c (qc_learn_peer_id h c)"
proof -
  have s: "steady x (x\<lparr>qc_id_authenticated := True\<rparr>)" for x :: "'a quic_connection" by (rule steady_frame) simp_all
  show ?thesis by (simp add: qc_learn_peer_id_def steady_trans [OF steady_first_peer_id s])
qed

lemma steady_note_error: "steady c (qc_note_error n c)"
  by (simp add: qc_note_error_def steady_state)

lemma moves_process_frames: "qc_process_frames E F level space payload c = (st, d) \<Longrightarrow> moves c st d"
  by (auto simp: qc_process_frames_def qc_ack_if_due_def split: prod.splits if_splits
      dest!: moves_dispatch_frames moves_tls_progress steady_send_ack
      intro: moves_steady_trans [OF _ steady_note_error] moves_trans moves_steady_trans [OF moves_trans] moves_steady_trans
        moves_trans [OF _ moves_steady_trans [OF _ steady_note_error]])

lemma moves_process_payload:
  assumes "qc_process_payload E F level space pn payload c = (st, d)"
  shows "moves c st d"
proof (cases "qc_validate_frames payload False")
  case (Inl e)
  with assms show ?thesis by (auto simp: qc_process_payload_def intro: steady_moves steady_state)
next
  case (Inr el)
  obtain st1 dup t where t: "on_packet_received pn el (space \<noteq> SpApplication) (qe_now E) (qc_trackers c space) = (st1, dup, t)"
    by (metis prod_cases3)
  define c1 where "c1 = c\<lparr>qc_pending_error := 0, qc_trackers := (qc_trackers c)(space := t)\<rparr>"
  have s1: "steady c c1" unfolding c1_def
    by (rule steadyI) (auto simp: waiters_def intro: tracker_received [OF t])
  have s2: "steady c (c1\<lparr>qc_expected_pn := n\<rparr>)" for n
    by (rule steady_trans [OF s1 steady_frame]) simp_all
  from assms Inr t have "d = c1 \<or> qc_process_frames E F level space payload c1 = (st, d)
      \<or> (\<exists>n. qc_process_frames E F level space payload (c1\<lparr>qc_expected_pn := n\<rparr>) = (st, d))"
    unfolding qc_process_payload_def Let_def by (auto simp: c1_def split: if_splits)
  then show ?thesis
    using steady_moves [OF s1] steady_moves_trans [OF s1 moves_process_frames] steady_moves_trans [OF s2 moves_process_frames]
    by auto
qed

lemma moves_process_opened: "qc_process_opened E F type level space sel packet pn n c = (st, d) \<Longrightarrow> moves c st d"
  by (auto simp: qc_process_opened_def split: sum.splits prod.splits if_splits
      dest!: steady_accept_phase
      intro: steady_moves steady_moves_trans [OF steady_trans [OF _ steady_learn] moves_process_payload]
        steady_moves_trans [OF steady_learn moves_process_payload])

lemma moves_open_packet: "qc_open_packet E F h packet level space c = (st, d) \<Longrightarrow> moves c st d"
  by (auto simp: qc_open_packet_def Let_def split: if_splits sum.splits prod.splits
      intro: moves_process_opened steady_moves steady_enter_draining)

lemma moves_process_packet: "qc_process_packet E F h packet c = (st, d) \<Longrightarrow> moves c st d"
proof -
  have s: "steady c (qc_discard_expired_read_key now c)" for now
    by (rule steady_frame) (simp_all add: qc_discard_expired_read_key_def)
  show "qc_process_packet E F h packet c = (st, d) \<Longrightarrow> moves c st d"
    by (auto simp: qc_process_packet_def Let_def split: if_splits option.splits prod.splits
        intro: steady_moves steady_state(7) steady_process_retry s moves_open_packet steady_moves_trans [OF s moves_open_packet])
qed

lemma moves_process_packets: "qc_process_packets E F it k c = (st, d) \<Longrightarrow> moves c st d"
proof (induction E F it k c rule: qc_process_packets.induct)
  case (1 E F it k c)
  obtain r it1 where r: "quic_packet_iterator_next it = (r, it1)" by fastforce
  show ?case
  proof (cases r)
    case (Inl e)
    with 1(2) r have "d = c" by (subst (asm) qc_process_packets.simps) (auto split: if_splits)
    then show ?thesis by simp
  next
    case (Inr x)
    obtain h packet where x: "x = (h, packet)" by fastforce
    obtain st1 c1 where s: "qc_process_packet (E k) (F k) h packet c = (st1, c1)" by fastforce
    note m = moves_process_packet [OF s]
    show ?thesis
    proof (cases "st1 = STATUS_SUCCESS")
      case True
      then have "qc_process_packets E F it1 (Suc k) c1 = (st, d)"
        using 1(2) r Inr x s by (subst (asm) qc_process_packets.simps) simp
      with 1(1) [OF r [symmetric] Inr x [symmetric] s [symmetric]] True m show ?thesis using moves_trans by blast
    next
      case False
      with 1(2) r Inr x s have "st = st1 \<and> d = c1" by (subst (asm) qc_process_packets.simps) simp
      with m show ?thesis by simp
    qed
  qed
qed

lemma moves_process_datagram: "qc_process_datagram E F datagram c = (st, d) \<Longrightarrow> moves c st d"
  by (auto simp: qc_process_datagram_def split: if_splits intro: moves_process_packets)

section \<open>Timers\<close>

lemma steady_ack_deadlines: "qc_ack_deadlines E now delay spaces k c = (st, d) \<Longrightarrow> steady c d"
proof (induction spaces arbitrary: k c)
  case (Cons space spaces)
  then show ?case
    by (auto split: if_splits prod.splits dest!: steady_send_ack intro: steady_trans)
qed simp

lemma steady_loss_deadlines: "qc_loss_deadlines E now spaces k c = (st, d) \<Longrightarrow> steady c d"
proof (induction spaces arbitrary: k c)
  case (Cons space spaces)
  have r: "steady c (c\<lparr>qc_recovery := r\<rparr>)" if "rc_on_loss_timer now' space (qc_recovery c) = (s, r)" for now' s r
    using recovery_loss_timer [OF that] by (intro steadyI) (auto simp: waiters_def)
  from Cons.prems show ?case
    by (auto simp: Let_def split: if_splits prod.splits dest!: Cons.IH r intro: steady_trans)
qed simp

lemma steady_fire_pto: "qc_fire_pto E now delay c = (st, d) \<Longrightarrow> steady c d"
proof -
  have r: "steady c (c\<lparr>qc_recovery := rc_on_pto_fired (qc_recovery c)\<rparr>)"
    using recovery_pto by (intro steadyI) (auto simp: waiters_def)
  show "qc_fire_pto E now delay c = (st, d) \<Longrightarrow> steady c d"
    by (auto simp: qc_fire_pto_def split: if_splits prod.splits dest!: steady_send_probe intro: steady_trans [OF r])
qed

lemma steady_check_idle: "qc_check_idle E now c = (st, d) \<Longrightarrow> steady c d"
  by (auto simp: qc_check_idle_def split: if_splits dest: steady_enter_closing)

lemma moves_process_deadlines:
  assumes "qc_process_deadlines E c = (st, d)"
  shows "moves c st' d"
proof -
  define c1 where "c1 = qc_discard_expired_read_key (qe_now (E 0)) c"
  define c2 where "c2 = (if qc_pacing_pending c1 \<and> pacingDeadline (rc_congestion (qc_recovery c1)) \<le> qe_now (E 0)
      then qc_notify_writable_streams c1 else c1)"
  have s1: "steady c c1" unfolding c1_def by (rule steady_frame) (simp_all add: qc_discard_expired_read_key_def)
  have m: "moves c x c2" for x
    using steady_moves [OF s1] steady_moves_trans [OF s1 moves_notify_writable] by (simp add: c2_def)
  show ?thesis
  proof (cases "terminating (qc_state c2)")
    case True
    with assms have "d = c2 \<or> d = qc_transition_to_closed (E 0) c2"
      unfolding qc_process_deadlines_def Let_def c1_def [symmetric] c2_def [symmetric] by (auto split: if_splits)
    then show ?thesis using m moves_steady_trans [OF m steady_transition] by auto
  next
    case False
    let ?now = "qe_now (E 0)" and ?delay = "max_ack_delay (E 0) c2"
    obtain st3 c3 where a: "qc_ack_deadlines E ?now ?delay all_spaces 0 c2 = (st3, c3)" by fastforce
    obtain st4 c4 where l: "qc_loss_deadlines E ?now all_spaces 0 c3 = (st4, c4)" by fastforce
    obtain st5 c5 where p: "qc_fire_pto (E 3) ?now ?delay c4 = (st5, c5)" by fastforce
    note s3 = steady_ack_deadlines [OF a]
    note s4 = steady_trans [OF s3 steady_loss_deadlines [OF l]]
    note s5 = steady_trans [OF s4 steady_fire_pto [OF p]]
    have "d \<in> {c3, c4, c5} \<or> qc_check_idle (E 4) ?now c5 = (st, d)"
      using assms False a l p unfolding qc_process_deadlines_def Let_def c1_def [symmetric] c2_def [symmetric]
      by (auto split: if_splits)
    then have "steady c2 d" using s3 s4 s5 steady_trans [OF s5 steady_check_idle] by auto
    then show ?thesis by (rule moves_steady_trans [OF m])
  qed
qed

section \<open>Starting\<close>

text \<open>Sequences of fallible steps.\<close>

lemma steady_seq: "steady c (snd p) \<Longrightarrow> (\<And>x. steady x (snd (f x))) \<Longrightarrow> steady c (snd (and_then p f))"
  using steady_trans [of c "snd p"] by (auto simp: and_then_def split: prod.splits)

lemma moves_seq:
  "moves c (fst p) (snd p) \<Longrightarrow> (\<And>x. moves x (fst (f x)) (snd (f x)))
    \<Longrightarrow> moves c (fst (and_then p f)) (snd (and_then p f))"
  using moves_trans [of c "snd p"] by (auto simp: and_then_def split: prod.splits)

lemma steady_moves_seq:
  "steady c (snd p) \<Longrightarrow> (\<And>x. qc_streams x = qc_streams c \<Longrightarrow> moves x (fst (f x)) (snd (f x)))
    \<Longrightarrow> moves c (fst (and_then p f)) (snd (and_then p f))"
  using steady_moves_trans [of c "snd p"] steady_moves [of c "snd p"]
  by (auto simp: and_then_def steady_def split: prod.splits)

lemma steady_init: "steady c (snd (qc_init_recovery E c))" "steady c (snd (qc_init_tracker E space c))"
  "steady c (snd (qc_init_attempt c))" "steady c (snd (qc_init_keys E c))" "steady c (snd (qc_init_tls E c))"
  "steady c (snd (qc_init_socket E c))"
proof -
  show "steady c (snd (qc_init_recovery E c))"
    by (auto simp: qc_init_recovery_def waiters_def split: prod.splits intro!: steadyI intro: recovery_initialize)
  show "steady c (snd (qc_init_tracker E space c))"
    by (auto simp: qc_init_tracker_def waiters_def split: prod.splits intro!: steadyI intro: tracker_initialize)
qed (auto simp: qc_init_attempt_def qc_init_keys_def qc_init_tls_def qc_init_socket_def split: prod.splits sum.splits
    intro!: steady_frame)

lemma steady_client_hello: "steady c (snd (qc_send_client_hello E c))"
proof (cases "tls_start E (qc_tls c)")
  case (Pair r tls)
  have u: "steady c (c\<lparr>qc_tls := t, qc_hello := h\<rparr>)" for t h by (rule steady_frame) simp_all
  show ?thesis
  proof (cases r)
    case (Inr hello)
    let ?p = "qc_send_crypto_packet E PtInitial SpInitial InitialWriteKey 0 hello True (c\<lparr>qc_tls := tls, qc_hello := hello\<rparr>)"
    have p: "steady c (snd ?p)" using steady_trans [OF u steady_send_crypto] by (metis prod.collapse)
    have "steady c (snd (and_then ?p (\<lambda>c1. (STATUS_SUCCESS, c1\<lparr>qc_initial_offset := length hello\<rparr>))))"
      using p by (rule steady_seq) (simp add: steady_progress_fields(2))
    then show ?thesis using Pair Inr by (simp add: qc_send_client_hello_def)
  qed (use Pair u in \<open>simp add: qc_send_client_hello_def\<close>)
qed

text \<open>The flow control starts anew, and no stream exists yet.\<close>

lemma moves_init_flow:
  assumes "qc_init_flow c = (st, d)" "qc_streams c = []"
  shows "moves c st d"
  using assms
  by (auto simp: qc_init_flow_def moves_def qc_wf_def qc_accounts_def accounted_def waiters_def fc_initialize_def fc_inv_def
      WKNET_HARD_MAX_QUIC_CONNECTION_REASSEMBLY_BYTES_def QuicVarIntMaximum_def split: if_splits)

lemma moves_start_network:
  assumes "qc_start_network E c = (st, d)" "qc_streams c = []"
  shows "moves c st d"
proof -
  let ?tail = "\<lambda>c. and_then (qc_init_attempt c) (\<lambda>c. and_then (qc_init_keys E c) (\<lambda>c.
           and_then (qc_init_tls E c) (\<lambda>c. and_then (qc_init_socket E c) (\<lambda>c.
           and_then (qc_send_client_hello E c) (\<lambda>c. (STATUS_SUCCESS, c\<lparr>qc_last_activity := qe_now E\<rparr>))))))"
  let ?all = "and_then (qc_init_recovery E c) (\<lambda>c. and_then (qc_init_tracker E SpInitial c) (\<lambda>c.
           and_then (qc_init_tracker E SpHandshake c) (\<lambda>c. and_then (qc_init_tracker E SpApplication c) (\<lambda>c.
           and_then (qc_init_flow c) ?tail))))"
  have tail: "steady x (snd (?tail x))" for x
    by (intro steady_seq steady_init steady_client_hello) (simp add: steady_state)
  have flow: "moves x (fst (and_then (qc_init_flow x) ?tail)) (snd (and_then (qc_init_flow x) ?tail))" if "qc_streams x = []" for x
    using that by (intro moves_seq moves_init_flow steady_moves tail) simp_all
  have "moves c (fst ?all) (snd ?all)"
    using assms(2) by (intro steady_moves_seq steady_init flow) simp
  then show ?thesis
    using assms(1) moves_steady_trans [OF _ steady_stop_network]
    by (auto simp: qc_start_network_def split: if_splits prod.splits)
qed

end
