(* ===== verification/QuicConnectionRuns.thy ===== *)
theory QuicConnectionRuns
  imports QuicConnectionInvariant
begin

text \<open>
  Runs of a connection. The worker: whatever is queued, received or timed out, every connection it reaches is
  well formed, and after the shutdown every operation that was accepted has been completed exactly once. A
  live connection, started and not failed: its flow control is the sum of its streams, and consuming is
  never refused. The timers: nothing happens before the deadline the worker sleeps to.
\<close>

section \<open>Commands\<close>

definition keeps :: "'tls quic_connection \<Rightarrow> 'tls quic_connection \<Rightarrow> bool" where
  "keeps c d \<longleftrightarrow> waiters d = waiters c \<and> (qc_wf c \<longrightarrow> qc_wf d)"

lemma keeps_refl [simp]: "keeps c c"
  by (simp add: keeps_def)

lemma keeps_trans: "keeps c d \<Longrightarrow> keeps d e \<Longrightarrow> keeps c e"
  by (simp add: keeps_def)

lemma moves_keeps: "moves c st d \<Longrightarrow> keeps c d"
  by (simp add: keeps_def moves_def)

lemma steady_keeps: "steady c d \<Longrightarrow> keeps c d"
  by (simp add: keeps_def steady_def)

lemma keeps_seq: "keeps c (snd p) \<Longrightarrow> (\<And>x. keeps x (snd (f x))) \<Longrightarrow> keeps c (snd (and_then p f))"
  using keeps_trans [of c "snd p"] by (auto simp: and_then_def split: prod.splits)

lemma keeps_init_flow: "keeps c (snd (qc_init_flow c))"
  by (auto simp: qc_init_flow_def keeps_def qc_wf_def waiters_def fc_initialize_def fc_inv_def
      WKNET_HARD_MAX_QUIC_CONNECTION_REASSEMBLY_BYTES_def QuicVarIntMaximum_def split: if_splits)

lemma keeps_start_network: "keeps c (snd (qc_start_network E c))"
proof -
  have "keeps c (snd (and_then (qc_init_recovery E c) (\<lambda>c. and_then (qc_init_tracker E SpInitial c) (\<lambda>c.
           and_then (qc_init_tracker E SpHandshake c) (\<lambda>c. and_then (qc_init_tracker E SpApplication c) (\<lambda>c.
           and_then (qc_init_flow c) (\<lambda>c. and_then (qc_init_attempt c) (\<lambda>c. and_then (qc_init_keys E c) (\<lambda>c.
           and_then (qc_init_tls E c) (\<lambda>c. and_then (qc_init_socket E c) (\<lambda>c.
           and_then (qc_send_client_hello E c) (\<lambda>c. (STATUS_SUCCESS, c\<lparr>qc_last_activity := qe_now E\<rparr>)))))))))))))"
    by (intro keeps_seq keeps_init_flow steady_keeps steady_init steady_client_hello) (simp add: steady_state)
  then show ?thesis
    using keeps_trans [OF _ steady_keeps [OF steady_stop_network]]
    by (auto simp: qc_start_network_def split: prod.splits)
qed

lemma keeps_state: "keeps c (c\<lparr>qc_state := x\<rparr>)" "keeps c (qc_complete_waiter st c)"
  by (rule steady_keeps [OF steady_state(1)]) (rule steady_keeps [OF steady_complete_waiter])

lemma keeps_connect: "keeps c (snd (qc_connect E c))"
proof -
  let ?c = "c\<lparr>qc_state := ConnConnecting\<rparr>"
  obtain st d where r: "(if qc_network ?c then qc_start_network E ?c else (STATUS_SUCCESS, ?c)) = (st, d)" by fastforce
  have "keeps ?c d" using r keeps_start_network [of ?c E] by (auto split: if_splits)
  then have d: "keeps c d" by (rule keeps_trans [OF keeps_state(1)])
  have "snd (qc_connect E c) = d\<lparr>qc_state := ConnHandshaking\<rparr>
      \<or> snd (qc_connect E c) = qc_complete_waiter st (d\<lparr>qc_state := ConnFailed\<rparr>)"
    using r unfolding qc_connect_def Let_def by simp
  then show ?thesis
    using keeps_trans [OF d keeps_state(1)] keeps_trans [OF d keeps_trans [OF keeps_state(1) keeps_state(2)]] by auto
qed

lemma keeps_confirm: "keeps c (snd (qc_confirm_handshake c))"
  by (simp add: qc_confirm_handshake_def keeps_trans [OF keeps_state(1) keeps_state(2)])

lemma keeps_close_command: "keeps c (snd (qc_close_command E app code c))"
proof -
  have "steady c (c\<lparr>qc_state := ConnClosed, qc_stop := True\<rparr>)" by (rule steady_frame) simp_all
  then show ?thesis
    by (auto simp: qc_close_command_def split: prod.splits
        intro: steady_keeps steady_trans [OF steady_enter_closing steady_complete_waiter])
qed

lemma keeps_write_command: "qc_write_command E i data fin n c = (r, d) \<Longrightarrow> keeps c d"
proof -
  assume run: "qc_write_command E i data fin n c = (r, d)"
  show ?thesis
  proof (cases "qc_find_stream i c")
    case (Some k)
    then have k: "k < length (qc_streams c)" using find_stream_Some by blast
    obtain st1 n1 c1 where w: "qc_write_loop E k data fin n c = (st1, n1, c1)" by (metis prod_cases3)
    have m: "moves c x c1" for x by (rule moves_write_loop [OF k w])
    have "d = c1 \<or> (\<exists>st2. qc_send_stream_frame (E 0) k [] True c1 = (st2, d))"
      using run Some w by (auto simp: qc_write_command_def Let_def split: if_splits prod.splits)
    then show ?thesis
      using moves_keeps [OF m] moves_keeps [OF moves_trans [OF m moves_send_stream [OF moves_length [OF m k]]]] by blast
  qed (use run in \<open>auto simp: qc_write_command_def\<close>)
qed

text \<open>Application callbacks reach the connection only through operations that keep it.\<close>

fun command_ok :: "'tls command_type \<Rightarrow> bool" where
  "command_ok (CmdApplication f) \<longleftrightarrow> (\<forall>c. keeps c (snd (f c)))"
| "command_ok _ \<longleftrightarrow> True"

lemma keeps_open_command: "qc_open_command E b c = (st, i, d) \<Longrightarrow> keeps c d"
  by (auto simp: qc_open_command_def Let_def split: prod.splits intro: moves_keeps [OF moves_open])

lemma keeps_execute:
  assumes "command_ok t" "qc_execute E t n c = (r, d)"
  shows "keeps c d"
proof (cases t)
  case CmdConnect
  then show ?thesis using assms(2) keeps_connect [of c "E 0"] by (auto split: prod.splits)
next
  case (CmdOpen b)
  then show ?thesis using assms(2) keeps_open_command by (auto split: prod.splits)
next
  case (CmdWrite i data fin)
  then show ?thesis using assms(2) keeps_write_command by (auto split: prod.splits sum.splits)
next
  case (CmdConsume i cap)
  then show ?thesis using assms(2) moves_keeps [OF moves_consume] by (auto split: prod.splits)
next
  case (CmdReset i e)
  then show ?thesis using assms(2) moves_keeps [OF moves_application_reset] by (auto split: prod.splits)
next
  case (CmdStopSending i e)
  then show ?thesis using assms(2) moves_keeps [OF moves_application_stop] by (auto split: prod.splits)
next
  case (CmdApplication f)
  then show ?thesis using assms by (auto split: prod.splits) (metis snd_conv)
next
  case CmdClose
  then show ?thesis using assms(2) keeps_close_command [of c "E 0" False 0] by (auto split: prod.splits)
next
  case (CmdCloseApplication e)
  then show ?thesis using assms(2) keeps_close_command [of c "E 0" True e] by (auto split: prod.splits)
next
  case CmdConfirmHandshake
  then show ?thesis using assms(2) keeps_confirm [of c] by (auto split: prod.splits)
next
  case CmdProcessTimer
  then show ?thesis using assms(2) moves_keeps [OF moves_process_deadlines] by (auto split: prod.splits)
next
  case (CmdInjectFrame level space f)
  then show ?thesis using assms(2) moves_keeps [OF moves_dispatch_frame] by (auto split: prod.splits)
qed (use assms(2) in simp_all)

section \<open>Every operation is completed once\<close>

definition command_operations :: "'tls quic_worker \<Rightarrow> nat multiset" where
  "command_operations w = mset (map cm_operation (qw_queue w))
     + (case qw_deferred w of None \<Rightarrow> {#} | Some cmd \<Rightarrow> {#cm_operation cmd#})"

definition completed_operations :: "'tls quic_worker \<Rightarrow> nat list" where
  "completed_operations w = map or_operation (qw_results w) @ map fst (qc_completed (qw_connection w))"

text \<open>Every accepted operation is in the queue, deferred, waiting, or completed, and in one place only.\<close>

definition all_operations :: "'tls quic_worker \<Rightarrow> nat multiset" where
  "all_operations w = command_operations w + mset (map or_operation (qw_results w)) + waiters (qw_connection w)"

definition commands_ok :: "'tls quic_worker \<Rightarrow> bool" where
  "commands_ok w \<longleftrightarrow> list_all (\<lambda>cmd. command_ok (cm_type cmd)) (qw_queue w)
     \<and> (case qw_deferred w of None \<Rightarrow> True | Some cmd \<Rightarrow> command_ok (cm_type cmd))"

definition qw_inv :: "'tls quic_worker \<Rightarrow> bool" where
  "qw_inv w \<longleftrightarrow> all_operations w = mset (qw_accepted w) \<and> distinct (qw_accepted w)
     \<and> commands_ok w \<and> qc_wf (qw_connection w) \<and> length (qw_queue w) \<le> qw_capacity w"

text \<open>A step of the worker that accepts nothing new.\<close>

definition works :: "'tls quic_worker \<Rightarrow> 'tls quic_worker \<Rightarrow> bool" where
  "works v w \<longleftrightarrow> all_operations w = all_operations v \<and> qw_accepted w = qw_accepted v \<and> qw_capacity w = qw_capacity v
     \<and> (commands_ok v \<longrightarrow> commands_ok w) \<and> (qc_wf (qw_connection v) \<longrightarrow> qc_wf (qw_connection w))
     \<and> length (qw_queue w) \<le> length (qw_queue v)"

lemma works_refl [simp]: "works w w"
  by (simp add: works_def)

lemma works_trans: "works u v \<Longrightarrow> works v w \<Longrightarrow> works u w"
  by (auto simp: works_def)

lemma works_inv: "works v w \<Longrightarrow> qw_inv v \<Longrightarrow> qw_inv w"
  by (auto simp: works_def qw_inv_def)

lemma works_map: "(\<And>c. keeps c (f c)) \<Longrightarrow> works w (qw_map f w)"
  by (simp add: works_def qw_map_def keeps_def all_operations_def command_operations_def commands_ok_def)

text \<open>Processing a command: it is completed, or deferred.\<close>

lemma process_works:
  assumes "command_ok (cm_type cmd)" "qw_deferred w = None"
  shows "all_operations (qw_process E cmd w) = all_operations w + {#cm_operation cmd#}
    \<and> qw_accepted (qw_process E cmd w) = qw_accepted w \<and> qw_capacity (qw_process E cmd w) = qw_capacity w
    \<and> (commands_ok w \<longrightarrow> commands_ok (qw_process E cmd w))
    \<and> (qc_wf (qw_connection w) \<longrightarrow> qc_wf (qw_connection (qw_process E cmd w)))
    \<and> qw_queue (qw_process E cmd w) = qw_queue w"
proof -
  obtain r d where e: "qc_execute E (cm_type cmd) (cm_progress cmd) (qw_connection w) = (r, d)" by fastforce
  have k: "keeps (qw_connection w) d" using keeps_execute [OF assms(1) e] .
  show ?thesis
    using e k assms
    by (cases r) (auto simp: qw_process_def qw_complete_def all_operations_def command_operations_def commands_ok_def
        keeps_def split: prod.splits)
qed

lemma works_deferred: "commands_ok w \<Longrightarrow> works w (qw_process_deferred E w)"
proof (cases "qw_deferred w")
  case (Some cmd)
  assume "commands_ok w"
  then have c: "command_ok (cm_type cmd)" "commands_ok (w\<lparr>qw_deferred := None\<rparr>)" using Some by (auto simp: commands_ok_def)
  show "works w (qw_process_deferred E w)"
    using process_works [OF c(1), of "w\<lparr>qw_deferred := None\<rparr>" "E"] c(2) Some
    by (auto simp: qw_process_deferred_def works_def all_operations_def command_operations_def)
qed (simp add: qw_process_deferred_def)

lemma works_drain: "commands_ok w \<Longrightarrow> works w (qw_drain n E w)"
proof (induction n arbitrary: w)
  case (Suc n)
  show ?case
  proof (cases "qw_deferred w = None \<and> qw_queue w \<noteq> []")
    case True
    then obtain cmd rest where q: "qw_queue w = cmd # rest" by (meson list.exhaust)
    let ?w1 = "qw_process (E n) cmd (w\<lparr>qw_queue := rest\<rparr>)"
    have c: "command_ok (cm_type cmd)" "commands_ok (w\<lparr>qw_queue := rest\<rparr>)"
      using Suc.prems True q by (auto simp: commands_ok_def)
    have w1: "works w ?w1" "commands_ok ?w1"
      using process_works [OF c(1), of "w\<lparr>qw_queue := rest\<rparr>" "E n"] c(2) True q
      by (auto simp: works_def all_operations_def command_operations_def)
    then show ?thesis
      using True q works_trans [OF w1(1) Suc.IH [OF w1(2)]] by (simp add: Let_def)
  qed (auto split: list.splits)
qed simp

lemma keeps_receive_round: "keeps c (qc_receive_round E F received arm E' c)"
proof -
  obtain st d where r: "qc_receive_completion E F received arm c = (st, d)" by fastforce
  have "d = c \<or> (\<exists>datagram st'. qc_process_datagram E F datagram c = (st', d))"
    using r by (auto simp: qc_receive_completion_def and_then_def split: if_splits sum.splits prod.splits)
  then have "keeps c d" using moves_keeps [OF moves_process_datagram] by auto
  then show ?thesis
    using r by (auto simp: qc_receive_round_def intro: keeps_trans [OF _ steady_keeps [OF steady_fail]])
qed

lemma keeps_timer_round: "keeps c (qc_timer_round E E' c)"
  by (auto simp: qc_timer_round_def split: prod.splits
      intro: moves_keeps [OF moves_process_deadlines] keeps_trans [OF moves_keeps [OF moves_process_deadlines] steady_keeps [OF steady_fail]])

lemma works_round: "commands_ok w \<Longrightarrow> works w (qw_round R w)"
proof -
  assume c: "commands_ok w"
  let ?w1 = "qw_drain (re_limit R) (re_commands R) (qw_process_deferred (re_deferred R) w)"
  have d: "works w (qw_process_deferred (re_deferred R) w)" using works_deferred [OF c] .
  then have "commands_ok (qw_process_deferred (re_deferred R) w)" using c by (simp add: works_def)
  from works_trans [OF d works_drain [OF this]] have w1: "works w ?w1" .
  define w2 where "w2 = (case re_received R of
                       None \<Rightarrow> ?w1
                     | Some received \<Rightarrow>
                         if qc_stop (qw_connection ?w1) then ?w1
                         else qw_map (qc_receive_round (re_packets R) (re_frames R) received (re_arm R) (re_failure R)) ?w1)"
  have "works ?w1 w2" by (auto simp: w2_def split: option.splits intro: works_map keeps_receive_round)
  with w1 have w2: "works w w2" by (rule works_trans)
  have "qw_round R w = w \<or> qw_round R w = w2 \<or> qw_round R w = qw_map (qc_timer_round (re_timers R) (re_timer_failure R)) w2"
    unfolding qw_round_def Let_def w2_def [symmetric] by simp
  then show ?thesis using w2 works_trans [OF w2 works_map [OF keeps_timer_round]] by auto
qed

lemma enqueue_inv:
  assumes "command_ok t" "qw_inv w" "qw_enqueue E t i w = (st, w')"
  shows "qw_inv w'"
proof (cases "w' = w")
  case False
  with assms(3) have w': "i \<notin> set (qw_accepted w)" "length (qw_queue w) < qw_capacity w"
    "w' = w\<lparr>qw_queue := qw_queue w @ [\<lparr>cm_type = t, cm_operation = i, cm_progress = 0\<rparr>],
                   qw_connect_queued := (qw_connect_queued w \<or> is_connect t),
                   qw_close_queued := (qw_close_queued w \<or> is_close t), qw_accepted := i # qw_accepted w\<rparr>"
    by (auto simp: qw_enqueue_def qw_admit_def Let_def not_le split: if_splits)
  then show ?thesis
    using assms(1,2) by (auto simp: qw_inv_def all_operations_def command_operations_def commands_ok_def)
qed (use assms in simp)

lemma wait_inv:
  assumes "qw_inv w" "qw_wait_established i w = (st, w')"
  shows "qw_inv w'"
  using assms
  by (auto simp: qw_wait_established_def Let_def qw_inv_def all_operations_def command_operations_def commands_ok_def
      qw_complete_def waiters_def qc_wf_def split: if_splits)

text \<open>The life of a worker until it is shut down.\<close>

inductive qw_run :: "'tls quic_worker \<Rightarrow> bool" where
  run_create: "qw_create opts tls = (STATUS_SUCCESS, w) \<Longrightarrow> qw_run w"
| run_enqueue: "qw_run w \<Longrightarrow> command_ok t \<Longrightarrow> qw_enqueue E t i w = (st, w') \<Longrightarrow> qw_run w'"
| run_wait: "qw_run w \<Longrightarrow> qw_wait_established i w = (st, w') \<Longrightarrow> qw_run w'"
| run_round: "qw_run w \<Longrightarrow> qw_run (qw_round R w)"

lemma initialize_wf:
  assumes "qc_initialize opts (qc_new tls) = (STATUS_SUCCESS, c)"
  shows "qc_wf c \<and> waiters c = {#} \<and> qc_streams c = []"
proof -
  have "qc_wf (qc_new tls)" "waiters (qc_new tls) = {#}" "qc_streams (qc_new tls) = []"
    by (auto simp: qc_new_def qc_wf_def streams_ok_def recovery_ok_def recovery_new_def tracker_ok_def ack_tracker_new_def
        fc_inv_def fc_new_def waiters_def)
  then show ?thesis
    using assms unfolding qc_initialize_def Let_def
    by (auto simp: qc_wf_def waiters_def qc_new_def fc_initialize_def fc_inv_def
        WKNET_HARD_MAX_QUIC_CONNECTION_IDS_def WKNET_HARD_MAX_QUIC_CONNECTION_REASSEMBLY_BYTES_def QuicVarIntMaximum_def
        split: if_splits option.splits prod.splits)
qed

lemma create_inv: "qw_create opts tls = (STATUS_SUCCESS, w) \<Longrightarrow> qw_inv w"
  using initialize_wf [of opts tls]
  by (auto simp: qw_create_def qw_inv_def all_operations_def command_operations_def commands_ok_def split: prod.splits)

lemma run_inv: "qw_run w \<Longrightarrow> qw_inv w"
proof (induction rule: qw_run.induct)
  case (run_round w R)
  then show ?case using works_inv [OF works_round] by (auto simp: qw_inv_def)
qed (auto intro: create_inv enqueue_inv wait_inv)

text \<open>The capacity is that of a connection that was created, hence not zero.\<close>

lemma run_capacity: "qw_run w \<Longrightarrow> qw_capacity w \<noteq> 0"
proof (induction rule: qw_run.induct)
  case (run_create opts tls w)
  then show ?case by (auto simp: qw_create_def qc_initialize_def split: prod.splits if_splits)
next
  case (run_enqueue w t E i st w')
  then show ?case by (auto simp: qw_enqueue_def Let_def split: if_splits)
next
  case (run_wait w i st w')
  then show ?case by (auto simp: qw_wait_established_def qw_complete_def Let_def split: if_splits)
next
  case (run_round w R)
  then show ?case using works_round [of w R] run_inv [OF run_round(1)] by (simp add: works_def qw_inv_def)
qed

lemma cancel_fields:
  "map or_operation (qw_results (qw_cancel cmds w)) = map or_operation (qw_results w) @ map cm_operation cmds
    \<and> qw_connection (qw_cancel cmds w) = qw_connection w \<and> qw_queue (qw_cancel cmds w) = qw_queue w
    \<and> qw_accepted (qw_cancel cmds w) = qw_accepted w"
  by (induction cmds arbitrary: w) (simp_all add: qw_cancel_def qw_complete_def)

lemma shutdown_completes:
  assumes "qw_inv w" "qw_capacity w \<noteq> 0"
  shows "mset (completed_operations (qw_shutdown E w)) = mset (qw_accepted w) \<and> qw_queue (qw_shutdown E w) = []
    \<and> qw_accepted (qw_shutdown E w) = qw_accepted w"
proof -
  let ?f = "\<lambda>c. qc_stop_network E ((qc_complete_waiter STATUS_CANCELLED c)\<lparr>qc_stop := True\<rparr>)"
  let ?c = "?f (qw_connection w)"
  have "keeps (qw_connection w) ?c"
    by (rule steady_keeps [OF steady_trans [OF steady_complete_waiter steady_trans [OF steady_state(4) steady_stop_network]]])
  then have wait: "waiters ?c = waiters (qw_connection w)" by (simp add: keeps_def)
  have none: "waiters ?c = mset (map fst (qc_completed ?c))"
    by (simp add: waiters_def qc_stop_network_def qc_complete_waiter_def)
  have r: "map or_operation (qw_results (qw_shutdown E w)) = map or_operation (qw_results w)
       @ map cm_operation (case qw_deferred w of None \<Rightarrow> [] | Some cmd \<Rightarrow> [cmd]) @ map cm_operation (qw_queue w)"
    "qc_completed (qw_connection (qw_shutdown E w)) = qc_completed ?c"
    "qw_queue (qw_shutdown E w) = []" "qw_accepted (qw_shutdown E w) = qw_accepted w"
    using assms(2) by (simp_all add: qw_shutdown_def Let_def qw_map_def cancel_fields qc_clear_streams_def)
  have "mset (completed_operations (qw_shutdown E w)) = all_operations w"
    using wait none r
    by (auto simp: completed_operations_def all_operations_def command_operations_def split: option.splits)
  then show ?thesis using r assms(1) by (simp add: qw_inv_def)
qed

text \<open>
  C3. However a connection was used (commands of any kind, waiting for the handshake, rounds of the worker
  with any datagrams, timers, allocation and provider failures), once it is shut down every operation that
  was accepted has been completed exactly once, and no other has.
\<close>

theorem operations_complete_once:
  assumes "qw_run w"
  shows "distinct (completed_operations (qw_shutdown E w))
    \<and> set (completed_operations (qw_shutdown E w)) = set (qw_accepted w) \<and> qw_queue (qw_shutdown E w) = []"
proof -
  have inv: "qw_inv w" using run_inv [OF assms] .
  note s = shutdown_completes [OF inv run_capacity [OF assms], of E]
  have "distinct (qw_accepted w)" using inv by (simp add: qw_inv_def)
  then show ?thesis using s by (metis mset_eq_imp_distinct_iff mset_eq_setD)
qed

text \<open>
  C5. Every connection a worker can reach is well formed: the streams keep their reassembly invariants, their
  identifiers are distinct and below the limits, flow control, recovery and the acknowledgement trackers keep
  theirs, the tables of connection identifiers hold at most eight entries, and the queue fits its ring.
\<close>

theorem reached_connections_well_formed:
  assumes "qw_run w"
  shows "qc_wf (qw_connection w) \<and> length (qw_queue w) \<le> qw_capacity w"
  using run_inv [OF assms] by (simp add: qw_inv_def)

section \<open>Live connections\<close>

text \<open>
  A connection that was created and connected, and whatever it did since: datagrams that were processed with
  success (a failure ends the connection), timers, and the application's operations with any result. The last
  two are the commands that confirm the handshake and inject a frame.
\<close>

inductive qc_live :: "'tls quic_connection \<Rightarrow> bool" where
  live_connect: "qc_initialize opts (qc_new tls) = (STATUS_SUCCESS, c) \<Longrightarrow> qc_connect E c = (STATUS_SUCCESS, d) \<Longrightarrow> qc_live d"
| live_datagram: "qc_live c \<Longrightarrow> qc_process_datagram Es F datagram c = (STATUS_SUCCESS, d) \<Longrightarrow> qc_live d"
| live_timers: "qc_live c \<Longrightarrow> qc_process_deadlines Es c = (st, d) \<Longrightarrow> qc_live d"
| live_open: "qc_live c \<Longrightarrow> qc_application_open E b c = (st, k, d) \<Longrightarrow> qc_live d"
| live_write: "qc_live c \<Longrightarrow> qc_application_write Es i data fin c = (st, n, d) \<Longrightarrow> qc_live d"
| live_consume: "qc_live c \<Longrightarrow> qc_application_consume i n c = (st, out, fin, d) \<Longrightarrow> qc_live d"
| live_reset: "qc_live c \<Longrightarrow> qc_application_reset E i code c = (st, d) \<Longrightarrow> qc_live d"
| live_stop: "qc_live c \<Longrightarrow> qc_application_stop_sending E i code c = (st, d) \<Longrightarrow> qc_live d"
| live_close: "qc_live c \<Longrightarrow> qc_application_close E code c = (st, d) \<Longrightarrow> qc_live d"
| live_confirm: "qc_live c \<Longrightarrow> qc_confirm_handshake c = (st, d) \<Longrightarrow> qc_live d"
| live_inject: "qc_live c \<Longrightarrow> qc_dispatch_frame E level space f c = (STATUS_SUCCESS, d) \<Longrightarrow> qc_live d"

lemma moves_invariant: "moves c STATUS_SUCCESS d \<Longrightarrow> qc_wf c \<and> qc_accounts c \<Longrightarrow> qc_wf d \<and> qc_accounts d"
  by (auto simp: moves_def)

lemma and_then_success: "and_then p f = (STATUS_SUCCESS, d) \<Longrightarrow> fst p = STATUS_SUCCESS \<and> f (snd p) = (STATUS_SUCCESS, d)"
  by (auto simp: and_then_def split: prod.splits if_splits)

lemma network_accounts:
  assumes "qc_start_network E c = (STATUS_SUCCESS, d)" "qc_streams c = []"
  shows "qc_accounts d"
proof -
  let ?tail = "\<lambda>c. and_then (qc_init_attempt c) (\<lambda>c. and_then (qc_init_keys E c) (\<lambda>c.
           and_then (qc_init_tls E c) (\<lambda>c. and_then (qc_init_socket E c) (\<lambda>c.
           and_then (qc_send_client_hello E c) (\<lambda>c. (STATUS_SUCCESS, c\<lparr>qc_last_activity := qe_now E\<rparr>))))))"
  define c1 where "c1 = snd (qc_init_recovery E c)"
  define c2 where "c2 = snd (qc_init_tracker E SpInitial c1)"
  define c3 where "c3 = snd (qc_init_tracker E SpHandshake c2)"
  define c4 where "c4 = snd (qc_init_tracker E SpApplication c3)"
  define c5 where "c5 = snd (qc_init_flow c4)"
  have "(case and_then (qc_init_recovery E c) (\<lambda>c. and_then (qc_init_tracker E SpInitial c) (\<lambda>c.
           and_then (qc_init_tracker E SpHandshake c) (\<lambda>c. and_then (qc_init_tracker E SpApplication c) (\<lambda>c.
           and_then (qc_init_flow c) ?tail)))) of (st, c1) \<Rightarrow> (st, if st = STATUS_SUCCESS then c1 else qc_stop_network E c1))
      = (STATUS_SUCCESS, d)"
    using assms(1) unfolding qc_start_network_def .
  then have "and_then (qc_init_recovery E c) (\<lambda>c. and_then (qc_init_tracker E SpInitial c) (\<lambda>c.
           and_then (qc_init_tracker E SpHandshake c) (\<lambda>c. and_then (qc_init_tracker E SpApplication c) (\<lambda>c.
           and_then (qc_init_flow c) ?tail)))) = (STATUS_SUCCESS, d)"
    by (auto split: prod.splits if_splits)
  then have f: "fst (qc_init_flow c4) = STATUS_SUCCESS" and t: "?tail c5 = (STATUS_SUCCESS, d)"
    unfolding c1_def c2_def c3_def c4_def c5_def by (blast dest: and_then_success)+
  have "steady c c4"
    unfolding c1_def c2_def c3_def c4_def by (rule steady_trans [OF steady_trans [OF steady_trans [OF steady_init(1) steady_init(2)] steady_init(2)] steady_init(2)])
  then have "qc_streams c4 = []" using assms(2) by (simp add: steady_def)
  then have "qc_accounts c5"
    using f by (auto simp: c5_def qc_init_flow_def qc_accounts_def accounted_def fc_initialize_def split: if_splits)
  moreover have "steady c5 (snd (?tail c5))"
    by (intro steady_seq steady_init steady_client_hello) (simp add: steady_state)
  then have "qc_streams d = qc_streams c5" "qc_flow d = qc_flow c5"
    using t by (simp_all add: steady_def)
  ultimately show ?thesis by (simp add: qc_accounts_def)
qed

lemma live_invariant: "qc_live c \<Longrightarrow> qc_wf c \<and> qc_accounts c"
proof (induction rule: qc_live.induct)
  case (live_connect opts tls c E d)
  note w = initialize_wf [OF live_connect(1)]
  let ?c = "c\<lparr>qc_state := ConnConnecting\<rparr>"
  have "keeps c d" using keeps_connect [of c E] live_connect(2) by simp
  then have wf: "qc_wf d" using w by (simp add: keeps_def)
  show ?case
  proof (cases "qc_network c")
    case True
    then obtain x where x: "qc_start_network E ?c = (STATUS_SUCCESS, x)" "d = x\<lparr>qc_state := ConnHandshaking\<rparr>"
      using live_connect(2) by (auto simp: qc_connect_def Let_def split: prod.splits if_splits)
    have "qc_accounts x" using network_accounts [OF x(1)] w by simp
    then show ?thesis using wf x(2) by (simp add: qc_accounts_def)
  next
    case False
    then have d: "d = ?c\<lparr>qc_state := ConnHandshaking\<rparr>"
      using live_connect(2) by (simp add: qc_connect_def Let_def)
    have "qc_accounts c"
      using live_connect(1) False unfolding qc_initialize_def Let_def
      by (auto simp: qc_accounts_def accounted_def qc_new_def fc_initialize_def split: if_splits option.splits prod.splits)
    then show ?thesis using wf d by (simp add: qc_accounts_def)
  qed
next
  case (live_confirm c st d)
  have "steady c d"
    using live_confirm(2) steady_trans [OF steady_state(1) [of c ConnEstablished] steady_complete_waiter [of _ STATUS_SUCCESS]]
    by (auto simp: qc_confirm_handshake_def split: if_splits)
  then show ?case using live_confirm(3) by (simp add: steady_def qc_accounts_def)
qed (rule moves_invariant [OF moves_process_datagram] moves_invariant [OF moves_process_deadlines]
    moves_invariant [OF moves_open] moves_invariant [OF moves_application_write] moves_invariant [OF moves_consume]
    moves_invariant [OF moves_application_reset] moves_invariant [OF moves_application_stop]
    moves_invariant [OF moves_application_close] moves_invariant [OF moves_dispatch_frame], assumption, assumption)+

text \<open>
  C4. On a live connection the connection's flow control is the sum of its streams: the bytes received are the
  sum of the streams' highest offsets, the bytes consumed and sent the sums of their consumed and send
  offsets. The receive limit never moves, so that all streams together never receive more than 16 MiB.
\<close>

theorem flow_control_is_the_sum:
  assumes "qc_live c"
  shows "receivedBytes (qc_flow c) = sum_list (map qs_highest (qc_streams c))
    \<and> consumedBytes (qc_flow c) = sum_list (map qs_consumed (qc_streams c))
    \<and> sendOffset (qc_flow c) = sum_list (map qs_send_offset (qc_streams c))
    \<and> sum_list (map qs_highest (qc_streams c)) \<le> 16 * 1024 * 1024"
  using live_invariant [OF assms]
  by (auto simp: qc_accounts_def accounted_def qc_wf_def fc_inv_def WKNET_HARD_MAX_QUIC_CONNECTION_REASSEMBLY_BYTES_def)

text \<open>
  C17. Consuming never fails in the connection's accounting: when a stream of a live connection delivers bytes,
  \<open>OnStreamConsumed\<close> accepts them and the operation succeeds.
\<close>

theorem consuming_is_never_refused:
  assumes "qc_live c" "qc_application_consume i n c = (st, out, fin, d)" "out \<noteq> []"
  shows "st = STATUS_SUCCESS \<and> consumedBytes (qc_flow d) = consumedBytes (qc_flow c) + length out"
proof -
  obtain k where k: "qc_find_stream i c = Some k"
    using assms(2,3) by (auto simp: qc_application_consume_def split: option.splits)
  obtain st0 out0 fin0 s where s: "qs_consume n (qc_streams c ! k) = (st0, out0, fin0, s)" by (metis prod_cases4)
  have inv: "qc_wf c" "qc_accounts c" using live_invariant [OF assms(1)] by auto
  have kl: "k < length (qc_streams c)" using find_stream_Some [OF k] by simp
  have ok: "stream_ok (qc_streams c ! k)" using inv(1) kl streams_ok_nth by (auto simp: qc_wf_def)
  have "out0 = out" using assms(2) k s by (auto simp: qc_application_consume_def Let_def split: if_splits prod.splits)
  then have "st0 = STATUS_SUCCESS" using consume_ok [OF ok s] assms(3) by simp
  then show ?thesis
    using assms(2,3) k s consumed_accepted [OF inv kl s] \<open>out0 = out\<close>
    by (auto simp: qc_application_consume_def Let_def fc_on_stream_consumed_def qc_put_stream_def split: if_splits prod.splits)
qed

section \<open>Examples\<close>

text \<open>An environment whose allocations and sends succeed, and a connection without network.\<close>

definition env_example :: "unit quic_env" where
  "env_example = \<lparr>qe_now = 5, qe_alloc = (\<lambda>k. True), qe_crypto = crypto_example, qe_send = (\<lambda>sent d. Inr (length d)),
     qe_random = (\<lambda>k n. Inr (replicate n 7)), tls_state = (\<lambda>t. TlsEstablished), tls_error = (\<lambda>t. 0),
     tls_parameters = (\<lambda>t. tp_new), tls_handshake_write = (\<lambda>t. key_example), tls_handshake_read = (\<lambda>t. key_example),
     tls_application_write = (\<lambda>t. key_example), tls_application_read = (\<lambda>t. key_example),
     tls_initial_discarded = (\<lambda>t. False), tls_receive_crypto = (\<lambda>level k d t. (STATUS_SUCCESS, t)),
     tls_confirm = (\<lambda>t. (STATUS_SUCCESS, t)), tls_discard_initial = (\<lambda>t. (STATUS_SUCCESS, t)),
     tls_take_initial = (\<lambda>t. (Inl STATUS_NOT_FOUND, t)), tls_take_handshake = (\<lambda>t. (Inr [1, 2, 3], t)),
     tls_clear = (\<lambda>t. t), tls_initialize = (\<lambda>p t. (STATUS_SUCCESS, t)), tls_start = (\<lambda>t. (Inr [1, 2, 3], t)),
     qe_connect = STATUS_SUCCESS\<rparr>"

definition options_example :: connection_options where
  "options_example = \<lparr>opt_commands = 4, opt_network = None, opt_sink = None, opt_tokens = None,
     opt_tables = STATUS_SUCCESS, opt_address_fits = True, opt_buffers = STATUS_SUCCESS, opt_thread = STATUS_SUCCESS,
     opt_reference = STATUS_SUCCESS\<rparr>"

text \<open>A worker that was told to connect and is waited for.\<close>

definition worker_example :: "unit quic_worker" where
  "worker_example =
     snd (qw_wait_established 9 (snd (qw_enqueue env_example CmdConnect 7 (snd (qw_create options_example ())))))"

lemma worker_example_run: "qw_run worker_example"
proof -
  have c: "qw_create options_example () = (STATUS_SUCCESS, snd (qw_create options_example ()))"
    by (simp add: Let_def qw_create_def qc_initialize_def options_example_def WKNET_HARD_MAX_QUIC_COMMANDS_def fc_initialize_def
        WKNET_HARD_MAX_QUIC_CONNECTION_REASSEMBLY_BYTES_def QuicVarIntMaximum_def)
  show ?thesis
    unfolding worker_example_def
    by (rule run_wait [OF run_enqueue [OF run_create [OF c], where t = CmdConnect] prod.collapse [symmetric]])
       (simp, rule prod.collapse [symmetric])
qed

lemma worker_example_accepted: "set (qw_accepted worker_example) = {7, 9} \<and> qw_capacity worker_example = 4"
  by (simp add: worker_example_def qw_wait_established_def qw_enqueue_def qw_admit_def qw_create_def qc_initialize_def
      options_example_def env_example_def qc_new_def WKNET_HARD_MAX_QUIC_COMMANDS_def fc_initialize_def is_connect_def
      insert_commute is_close_def is_timer_def WKNET_HARD_MAX_QUIC_CONNECTION_REASSEMBLY_BYTES_def QuicVarIntMaximum_def Let_def)

theorem operations_complete_once_witness:
  "distinct (completed_operations (qw_shutdown env_example worker_example))
    \<and> set (completed_operations (qw_shutdown env_example worker_example)) = {7, 9}
    \<and> qw_queue (qw_shutdown env_example worker_example) = []"
  using operations_complete_once [OF worker_example_run] worker_example_accepted by simp

theorem reached_connections_well_formed_witness:
  "qc_wf (qw_connection worker_example) \<and> length (qw_queue worker_example) \<le> 4"
  using reached_connections_well_formed [OF worker_example_run] worker_example_accepted by simp

text \<open>
  A live connection: connected, the handshake done by an injected frame, and a peer's stream 3 with three
  bytes that were received.
\<close>

definition live_example :: "unit quic_connection" where
  "live_example = snd (qc_connect env_example (snd (qc_initialize options_example (qc_new ()))))"

lemma live_example_live: "qc_live live_example"
proof -
  have c: "qc_initialize options_example (qc_new ()) = (STATUS_SUCCESS, snd (qc_initialize options_example (qc_new ())))"
    by (simp add: Let_def qc_initialize_def options_example_def WKNET_HARD_MAX_QUIC_COMMANDS_def fc_initialize_def
        WKNET_HARD_MAX_QUIC_CONNECTION_REASSEMBLY_BYTES_def QuicVarIntMaximum_def)
  show ?thesis
    unfolding live_example_def
    by (rule live_connect [OF c, of env_example])
      (simp add: qc_connect_def qc_initialize_def options_example_def WKNET_HARD_MAX_QUIC_COMMANDS_def fc_initialize_def
        WKNET_HARD_MAX_QUIC_CONNECTION_REASSEMBLY_BYTES_def QuicVarIntMaximum_def qc_new_def Let_def)
qed

lemma live_example_fields:
  "qc_streams live_example = []" "qc_sink live_example = no_sink" "qc_network live_example = False"
  "qc_flow live_example = snd (fc_initialize (2 ^ 24) (2 ^ 24) fc_new)" "qc_state live_example = ConnHandshaking"
  "qc_recovery live_example = recovery_new" "qc_trackers live_example = (\<lambda>space. ack_tracker_new)"
  "qc_pacing_pending live_example = False" "qc_previous_deadline live_example = 0" "qc_closing_deadline live_example = 0"
  "qc_draining_deadline live_example = 0" "qc_source_id live_example = []" "qc_params_applied live_example = False" "qc_keys_installed live_example = False"
  by (simp_all add: live_example_def qc_connect_def qc_initialize_def options_example_def fc_initialize_def fc_new_def
      WKNET_HARD_MAX_QUIC_COMMANDS_def WKNET_HARD_MAX_QUIC_CONNECTION_REASSEMBLY_BYTES_def QuicVarIntMaximum_def
      qc_new_def Let_def)

text \<open>Three bytes of the peer's first unidirectional stream arrive.\<close>

definition arrival_example :: quic_frame where
  "arrival_example = frame_new\<lparr>fr_kind := FkStream, fr_stream_id := 3, fr_data := [1, 2, 3]\<rparr>"

definition arrived_example :: "unit quic_connection" where
  "arrived_example = snd (qc_dispatch_frame env_example LvApplication SpApplication arrival_example live_example)"

definition peer_stream_example :: quic_stream where
  "peer_stream_example = qs_new\<lparr>qs_id := 3, qs_max_reassembly := 1024 * 1024, qs_max_gaps := 256,
     qs_receive_limit := 1024 * 1024, qs_initialized := True\<rparr>"

lemma peer_stream_created:
  "qc_stream_for env_example 3 (live_example\<lparr>qc_last_activity := 5\<rparr>)
     = (Inr 0, live_example\<lparr>qc_last_activity := 5, qc_streams := [peer_stream_example]\<rparr>)"
proof -
  have "qc_new_stream env_example 3 (live_example\<lparr>qc_last_activity := 5\<rparr>) = (STATUS_SUCCESS, peer_stream_example)"
    by (simp add: qc_new_stream_def peer_stream_example_def qs_initialize_def qs_new_def qs_clear_def
        qs_set_receive_limit_def stream_client_initiated_def stream_bidirectional_def env_example_def
        WKNET_HARD_MAX_QUIC_STREAM_GAPS_def WKNET_HARD_MAX_QUIC_STREAM_REASSEMBLY_BYTES_def QuicVarIntMaximum_def Let_def)
  moreover have "qs_set_sink (Some no_sink) peer_stream_example = peer_stream_example"
    by (simp add: qs_set_sink_def peer_stream_example_def qs_new_def qs_notify_opened_def qs_refresh_readable_def
        qs_has_readable_def qs_receive_finished_def qs_notify_closed_if_needed_def qs_is_closed_def no_sink_def
        stream_client_initiated_def stream_bidirectional_def Let_def)
  ultimately show ?thesis
    by (simp add: qc_stream_for_def qc_find_stream_def qc_create_stream_def live_example_fields
        stream_client_initiated_def stream_bidirectional_def stream_capacity_def env_example_def QuicVarIntMaximum_def
        WKNET_HARD_MAX_QUIC_LOCAL_BIDI_STREAMS_def WKNET_HARD_MAX_QUIC_PEER_BIDI_STREAMS_def
        WKNET_HARD_MAX_QUIC_LOCAL_UNI_STREAMS_def WKNET_HARD_MAX_QUIC_PEER_UNI_STREAMS_def Let_def)
qed

lemma peer_stream_receives:
  "qs_receive True 0 [1, 2, 3] False False peer_stream_example = (STATUS_SUCCESS, peer_stream_example\<lparr>
     qs_chunks := [\<lparr>sc_offset = 0, sc_length = 3, sc_capacity = 3, sc_data_offset = 0, sc_data = [1, 2, 3]\<rparr>],
     qs_unique_bytes := 3, qs_buffered := 3, qs_highest := 3\<rparr>)"
  by (simp add: qs_receive_def qs_receive_checked_def qs_store_def peer_stream_example_def qs_new_def
      stream_bidirectional_def stream_client_initiated_def QuicVarIntMaximum_def copy_at_def Let_def)

lemma arrived_example_value:
  "fst (qc_dispatch_frame env_example LvApplication SpApplication arrival_example live_example) = STATUS_SUCCESS"
  "\<exists>s. qc_streams arrived_example = [s] \<and> qs_id s = 3 \<and> qs_consumed s = 0 \<and> qs_initialized s
     \<and> qs_chunks s = [\<lparr>sc_offset = 0, sc_length = 3, sc_capacity = 3, sc_data_offset = 0, sc_data = [1, 2, 3]\<rparr>]"
proof -
  have now: "qe_now env_example = 5" "qe_alloc env_example AlReassembly = True"
    by (simp_all add: env_example_def)
  have h: "qs_highest peer_stream_example = 0" by (simp add: peer_stream_example_def qs_new_def)
  have "fst (qc_dispatch_frame env_example LvApplication SpApplication arrival_example live_example) = STATUS_SUCCESS
    \<and> qc_streams arrived_example = [qs_notify_readable (peer_stream_example\<lparr>
     qs_chunks := [\<lparr>sc_offset = 0, sc_length = 3, sc_capacity = 3, sc_data_offset = 0, sc_data = [1, 2, 3]\<rparr>],
     qs_unique_bytes := 3, qs_buffered := 3, qs_highest := 3\<rparr>)]"
    by (simp add: arrived_example_def arrival_example_def frame_new_def qc_dispatch_frame_def qc_dispatch_other_def
        qc_dispatch_stream_def now peer_stream_created peer_stream_receives h live_example_fields qc_put_stream_def
        fc_on_stream_receive_progress_def fc_initialize_def fc_new_def QuicVarIntMaximum_def Let_def)
  then show
    "fst (qc_dispatch_frame env_example LvApplication SpApplication arrival_example live_example) = STATUS_SUCCESS"
    "\<exists>s. qc_streams arrived_example = [s] \<and> qs_id s = 3 \<and> qs_consumed s = 0 \<and> qs_initialized s
     \<and> qs_chunks s = [\<lparr>sc_offset = 0, sc_length = 3, sc_capacity = 3, sc_data_offset = 0, sc_data = [1, 2, 3]\<rparr>]"
    by (simp_all add: qs_notify_readable_def qs_refresh_readable_def qs_notify_closed_if_needed_def qs_notify_closed_def
        qs_emit_def peer_stream_example_def qs_new_def no_sink_def)
qed

lemma arrived_example_live: "qc_live arrived_example"
  unfolding arrived_example_def using arrived_example_value(1)
  by (intro live_inject [OF live_example_live, of env_example LvApplication SpApplication arrival_example] prod_eqI) simp_all

theorem flow_control_is_the_sum_witness:
  "receivedBytes (qc_flow arrived_example) = sum_list (map qs_highest (qc_streams arrived_example))"
  using flow_control_is_the_sum [OF arrived_example_live] by simp

theorem consuming_is_never_refused_witness:
  "fst (qc_application_consume 3 2 arrived_example) = STATUS_SUCCESS"
proof -
  obtain st out fin d where r: "qc_application_consume 3 2 arrived_example = (st, out, fin, d)" by (metis prod_cases4)
  obtain s where s: "qc_streams arrived_example = [s]"
    and v: "qs_id s = 3" "qs_consumed s = 0" "qs_initialized s"
      "qs_chunks s = [\<lparr>sc_offset = 0, sc_length = 3, sc_capacity = 3, sc_data_offset = 0, sc_data = [1, 2, 3]\<rparr>]"
    using arrived_example_value(2) by blast
  have "out \<noteq> []"
    using r v by (auto simp: qc_application_consume_def qc_find_stream_def s qs_consume_def Let_def split: prod.splits if_splits)
  then show ?thesis using consuming_is_never_refused [OF arrived_example_live r] r by simp
qed

end
