(* ===== verification/QuicConnectionSafety.thy ===== *)
theory QuicConnectionSafety
  imports QuicConnectionRuns
begin

text \<open>
  Single operations of a connection: the timers do nothing before the deadline the worker sleeps to and end a
  closing connection when it is due; the limits the client announces are those it enforces; after a
  NEW_CONNECTION_ID frame the packets go to an identifier the peer has not retired; the two passes over a
  payload see the same frames; what a tracker has received is what its acknowledgement removes at the sender;
  and two findings, on the handshake that returns and on STOP_SENDING.
\<close>

section \<open>Timers\<close>

lemma set_all_spaces: "space \<in> set all_spaces"
  by (cases space) (simp_all add: all_spaces_def)

lemma not_due_fold:
  "not_due now (fold (qc_space_deadline E c) spaces d) \<longleftrightarrow> not_due now d \<and>
     (\<forall>space \<in> set spaces. (at_pending (qc_trackers c space) \<longrightarrow> not_due now (ack_deadline (max_ack_delay E c) (qc_trackers c space)))
        \<and> not_due now (rc_loss_deadline space (qc_recovery c))
        \<and> not_due now (rc_pto_deadline space (max_ack_delay E c) (qc_recovery c)))"
  by (induction spaces arbitrary: d) (auto simp: qc_space_deadline_def Let_def)

lemma idle_not_due:
  "not_due now (deadline_after activity idle 1) \<Longrightarrow> activity \<noteq> 0 \<Longrightarrow> \<not> (activity \<le> now \<and> idle \<le> now - activity)"
  by (auto simp: not_due_def deadline_after_def u64_max_def split: if_splits)

lemma not_due_next:
  assumes "\<not> terminating (qc_state c)"
  shows "not_due now (qc_next_deadline E deferred c) \<longleftrightarrow>
     (\<forall>space. (at_pending (qc_trackers c space) \<longrightarrow> not_due now (ack_deadline (max_ack_delay E c) (qc_trackers c space)))
        \<and> not_due now (rc_loss_deadline space (qc_recovery c))
        \<and> not_due now (rc_pto_deadline space (max_ack_delay E c) (qc_recovery c)))
     \<and> (qc_network c \<and> qc_last_activity c \<noteq> 0 \<and> idle_counts (qc_state c) \<and> qc_idle_timeout c \<noteq> 0
        \<longrightarrow> not_due now (deadline_after (qc_last_activity c) (qc_idle_timeout c) 1))
     \<and> not_due now (qc_closing_deadline c) \<and> not_due now (qc_draining_deadline c) \<and> not_due now (qc_previous_deadline c)
     \<and> (deferred \<or> qc_pacing_pending c \<longrightarrow> not_due now (pacingDeadline (rc_congestion (qc_recovery c))))"
proof -
  let ?d1 = "fold (qc_space_deadline E c) all_spaces 0"
  have f: "not_due now ?d1 \<longleftrightarrow> (\<forall>space. (at_pending (qc_trackers c space)
            \<longrightarrow> not_due now (ack_deadline (max_ack_delay E c) (qc_trackers c space)))
        \<and> not_due now (rc_loss_deadline space (qc_recovery c))
        \<and> not_due now (rc_pto_deadline space (max_ack_delay E c) (qc_recovery c)))"
    unfolding not_due_fold Ball_def using set_all_spaces by simp
  show ?thesis
    using assms unfolding qc_next_deadline_def Let_def f [symmetric]
    by (cases "deferred \<or> qc_pacing_pending c"; cases "qc_network c \<and> qc_last_activity c \<noteq> 0
          \<and> idle_counts (qc_state c) \<and> qc_idle_timeout c \<noteq> 0")
       (simp_all only: if_True if_False not_due_earlier simp_thms conj_assoc)
qed

lemma ack_deadlines_idle:
  "\<forall>space \<in> set spaces. at_pending (qc_trackers c space) \<longrightarrow> now < ack_deadline delay (qc_trackers c space)
    \<Longrightarrow> qc_ack_deadlines E now delay spaces k c = (STATUS_SUCCESS, c)"
  by (induction spaces arbitrary: k) auto

lemma loss_deadlines_idle:
  "\<forall>space \<in> set spaces. not_due now (rc_loss_deadline space (qc_recovery c))
    \<Longrightarrow> qc_loss_deadlines E now spaces k c = (STATUS_SUCCESS, c)"
  by (induction spaces arbitrary: k) (auto simp: not_due_def Let_def)

lemma earliest_pto_idle:
  assumes "\<forall>space. not_due now (rc_pto_deadline space delay (qc_recovery c))"
  shows "not_due now (fst (qc_earliest_pto delay c))"
proof -
  have "not_due now (fst (fold (\<lambda>space (earliest, chosen).
             let d = rc_pto_deadline space delay (qc_recovery c)
             in if d \<noteq> 0 \<and> (earliest = 0 \<or> d < earliest) then (d, space) else (earliest, chosen)) spaces x))"
    if "not_due now (fst x)" for spaces x
    using that assms by (induction spaces arbitrary: x) (auto simp: Let_def split: prod.splits)
  then show ?thesis by (simp add: qc_earliest_pto_def)
qed

lemma discard_keeps [simp]:
  "qc_state (qc_discard_expired_read_key now c) = qc_state c"
  "qc_closing_deadline (qc_discard_expired_read_key now c) = qc_closing_deadline c"
  "qc_draining_deadline (qc_discard_expired_read_key now c) = qc_draining_deadline c"
  by (simp_all add: qc_discard_expired_read_key_def)

lemma notify_writable_keeps [simp]:
  "qc_state (qc_notify_writable_streams c) = qc_state c"
  "qc_closing_deadline (qc_notify_writable_streams c) = qc_closing_deadline c"
  "qc_draining_deadline (qc_notify_writable_streams c) = qc_draining_deadline c"
  by (simp_all add: qc_notify_writable_streams_def)

lemma quiet_running:
  assumes "\<not> terminating (qc_state c)"
    and "qe_now (Es 0) < qc_next_deadline (Es 0) deferred c \<or> qc_next_deadline (Es 0) deferred c = 0"
    and "\<forall>space. at_pending (qc_trackers c space) \<longrightarrow> ack_deadline (max_ack_delay (Es 0) c) (qc_trackers c space) \<noteq> 0"
    and "qc_pacing_pending c \<longrightarrow> pacingDeadline (rc_congestion (qc_recovery c)) \<noteq> 0"
  shows "qc_process_deadlines Es c = (STATUS_SUCCESS, c)"
proof -
  let ?now = "qe_now (Es 0)" and ?delay = "max_ack_delay (Es 0) c"
  have "not_due ?now (qc_next_deadline (Es 0) deferred c)" using assms(2) unfolding not_due_def by blast
  note n = iffD1 [OF not_due_next [OF assms(1)] this]
  note due = n [THEN conjunct1] n [THEN conjunct2, THEN conjunct1] n [THEN conjunct2, THEN conjunct2, THEN conjunct2, THEN conjunct2]
  have "\<not> (qc_previous_valid c \<and> qc_previous_deadline c \<noteq> 0 \<and> qc_previous_deadline c \<le> ?now)"
    using due(3) by (auto simp: not_due_def)
  then have d: "qc_discard_expired_read_key ?now c = c"
    unfolding qc_discard_expired_read_key_def by (rule if_not_P)
  have p: "\<not> (qc_pacing_pending c \<and> pacingDeadline (rc_congestion (qc_recovery c)) \<le> ?now)"
    using due(3) assms(4) by (auto simp: not_due_def)
  have a: "qc_ack_deadlines Es ?now ?delay all_spaces 0 c = (STATUS_SUCCESS, c)"
    using due(1) assms(3) by (intro ack_deadlines_idle) (auto simp: not_due_def)
  have l: "qc_loss_deadlines Es ?now all_spaces 0 c = (STATUS_SUCCESS, c)"
    using due(1) by (intro loss_deadlines_idle) simp
  have "not_due ?now (fst (qc_earliest_pto ?delay c))"
    using due(1) by (intro earliest_pto_idle) simp
  then have f: "qc_fire_pto (Es 3) ?now ?delay c = (STATUS_SUCCESS, c)"
    by (cases "qc_earliest_pto ?delay c") (auto simp: qc_fire_pto_def not_due_def)
  have i: "qc_check_idle (Es 4) ?now c = (STATUS_SUCCESS, c)"
    using due(2) idle_not_due [of ?now "qc_last_activity c" "qc_idle_timeout c"]
    unfolding qc_check_idle_def qc_idle_expired_def by (auto simp del: One_nat_def)
  show ?thesis
    unfolding qc_process_deadlines_def Let_def d if_not_P [OF p] if_not_P [OF assms(1)] a
    by (simp only: prod.case l f i simp_thms if_False)
qed

lemma quiet_terminating:
  assumes "terminating (qc_state c)"
    and "qe_now (Es 0) < qc_next_deadline (Es 0) deferred c \<or> qc_next_deadline (Es 0) deferred c = 0"
  shows "qc_process_deadlines Es c = (STATUS_SUCCESS,
    let c1 = qc_discard_expired_read_key (qe_now (Es 0)) c
    in if qc_pacing_pending c \<and> pacingDeadline (rc_congestion (qc_recovery c)) \<le> qe_now (Es 0)
       then qc_notify_writable_streams c1 else c1)"
proof -
  let ?now = "qe_now (Es 0)" and ?c1 = "qc_discard_expired_read_key (qe_now (Es 0)) c"
  define c2 where "c2 = (if qc_pacing_pending c \<and> pacingDeadline (rc_congestion (qc_recovery c)) \<le> ?now
    then qc_notify_writable_streams ?c1 else ?c1)"
  have "not_due ?now (qc_next_deadline (Es 0) deferred c)" using assms(2) unfolding not_due_def by blast
  then have due: "not_due ?now (qc_closing_deadline c)" "not_due ?now (qc_draining_deadline c)"
    using assms(1) by (simp_all add: qc_next_deadline_def)
  have same: "qc_pacing_pending ?c1 = qc_pacing_pending c" "qc_recovery ?c1 = qc_recovery c"
    by (simp_all add: qc_discard_expired_read_key_def)
  have c2: "terminating (qc_state c2)" "qc_closing_deadline c2 = qc_closing_deadline c" "qc_draining_deadline c2 = qc_draining_deadline c"
    using assms(1) by (simp_all add: c2_def)
  have "\<not> ((qc_closing_deadline c2 \<noteq> 0 \<and> qc_closing_deadline c2 \<le> ?now)
      \<or> (qc_draining_deadline c2 \<noteq> 0 \<and> qc_draining_deadline c2 \<le> ?now))"
    using due unfolding c2 by (auto simp: not_due_def)
  then show ?thesis
    unfolding qc_process_deadlines_def Let_def same c2_def [symmetric] using c2(1) by (simp only: if_True if_False)
qed

text \<open>
  C18. The worker does not oversleep: before the deadline that
  \<open>NextDeadline100ns\<close> returns (or when it returns none), \<open>ProcessDeadlines\<close> succeeds and changes nothing. The clock
  is assumed never to be zero, in two forms: an acknowledgement that is pending has a deadline, and so has
  pacing. A connection that is closing, draining or failed waits for the end of that state only: there
  \<open>ProcessDeadlines\<close> may still drop an expired previous read key and tell the streams that pacing is over, and does
  nothing else.
\<close>

theorem nothing_before_the_deadline:
  assumes "qe_now (Es 0) < qc_next_deadline (Es 0) deferred c \<or> qc_next_deadline (Es 0) deferred c = 0"
    and "\<forall>space. at_pending (qc_trackers c space) \<longrightarrow> ack_deadline (max_ack_delay (Es 0) c) (qc_trackers c space) \<noteq> 0"
    and "qc_pacing_pending c \<longrightarrow> pacingDeadline (rc_congestion (qc_recovery c)) \<noteq> 0"
  shows "qc_process_deadlines Es c = (STATUS_SUCCESS,
    if terminating (qc_state c)
    then let c1 = qc_discard_expired_read_key (qe_now (Es 0)) c
      in if qc_pacing_pending c \<and> pacingDeadline (rc_congestion (qc_recovery c)) \<le> qe_now (Es 0)
         then qc_notify_writable_streams c1 else c1
    else c)"
proof (cases "terminating (qc_state c)")
  case True
  with quiet_terminating [of c Es deferred, OF True assms(1)] show ?thesis by (simp only: if_True)
next
  case False
  with quiet_running [of c Es deferred, OF False assms] show ?thesis by (simp only: if_False)
qed

text \<open>A connection with an idle timeout and a previous read key, five units before the earlier of the two.\<close>

definition waiting_example :: "unit quic_connection" where
  "waiting_example = live_example\<lparr>qc_network := True, qc_last_activity := 3, qc_idle_timeout := 20, qc_previous_valid := True,
     qc_previous_deadline := 10\<rparr>"

theorem nothing_before_the_deadline_witness:
  "qe_now env_example = 5 \<and> qc_next_deadline env_example False waiting_example = 10
    \<and> qc_process_deadlines (\<lambda>k. env_example) waiting_example = (STATUS_SUCCESS, waiting_example)"
proof -
  have r: "rc_loss_deadline space recovery_new = 0" "rc_pto_deadline space delay recovery_new = 0"
    "at_pending ack_tracker_new = False" for space delay
    by (simp_all add: rc_loss_deadline_def rc_pto_deadline_def recovery_new_def ack_tracker_new_def rc_last_eliciting_def)
  have d: "qc_next_deadline env_example False waiting_example = 10"
    by (simp add: qc_next_deadline_def waiting_example_def live_example_fields r terminating_def idle_counts_def all_spaces_def
        qc_space_deadline_def earlier_deadline_def deadline_after_def u64_max_def Let_def)
  have now: "qe_now env_example = 5" by (simp add: env_example_def)
  have "\<not> terminating (qc_state waiting_example)" by (simp add: waiting_example_def live_example_fields terminating_def)
  moreover have "qc_process_deadlines (\<lambda>k. env_example) waiting_example = (STATUS_SUCCESS,
    if terminating (qc_state waiting_example)
    then let c1 = qc_discard_expired_read_key (qe_now env_example) waiting_example
      in if qc_pacing_pending waiting_example \<and> pacingDeadline (rc_congestion (qc_recovery waiting_example)) \<le> qe_now env_example
         then qc_notify_writable_streams c1 else c1
    else waiting_example)"
    by (rule nothing_before_the_deadline [of "\<lambda>k. env_example" False])
       (simp add: d now, simp_all add: waiting_example_def live_example_fields r)
  ultimately show ?thesis using d now by simp
qed

section \<open>Closing\<close>

lemma due_not_zero: "qc_discard_expired_read_key now c = c \<or> qc_discard_expired_read_key now c
     = c\<lparr>qc_previous_read := quic_clear_key_set, qc_previous_valid := False, qc_previous_deadline := 0\<rparr>"
  by (simp add: qc_discard_expired_read_key_def)

lemma closed_is_final:
  assumes "d = qc_transition_to_closed E c"
  shows "qc_state d = ConnClosed \<and> qc_stop d \<and> \<not> qc_socket d \<and> qc_waiting d = None \<and> \<not> qc_keys_installed d
    \<and> list_all key_absent [qc_initial_write d, qc_initial_read d, qc_app_write d, qc_previous_write d, qc_app_read d,
         qc_next_read d, qc_previous_read d]"
  by (simp add: assms qc_transition_to_closed_def qc_stop_network_def qc_complete_waiter_def key_absent_def
      quic_clear_key_set_def)

lemma process_closing:
  assumes "terminating (qc_state c)"
  shows "\<exists>e. qc_process_deadlines Es c = (STATUS_SUCCESS,
     if (qc_closing_deadline c \<noteq> 0 \<and> qc_closing_deadline c \<le> qe_now (Es 0))
        \<or> (qc_draining_deadline c \<noteq> 0 \<and> qc_draining_deadline c \<le> qe_now (Es 0))
     then qc_transition_to_closed (Es 0) e else e) \<and> qc_state e = qc_state c"
proof -
  let ?c1 = "qc_discard_expired_read_key (qe_now (Es 0)) c"
  define e where "e = (if qc_pacing_pending ?c1 \<and> pacingDeadline (rc_congestion (qc_recovery ?c1)) \<le> qe_now (Es 0)
                then qc_notify_writable_streams ?c1 else ?c1)"
  have keep: "qc_state e = qc_state c" "qc_closing_deadline e = qc_closing_deadline c"
    "qc_draining_deadline e = qc_draining_deadline c"
    by (simp_all add: e_def)
  then have "terminating (qc_state e)" using assms by simp
  then show ?thesis
    unfolding qc_process_deadlines_def Let_def e_def [symmetric]
    by (intro exI [of _ e]) (simp only: if_True keep simp_thms)
qed

text \<open>
  C19. A connection that is closing, draining or failed ends: it stays as it is until one of its deadlines,
  and the first \<open>ProcessDeadlines\<close> at or after it closes the connection. Then the worker stops, the socket is
  gone, every key is erased and nobody waits any more.
\<close>

theorem closing_ends:
  assumes "terminating (qc_state c)" "qc_process_deadlines Es c = (st, d)"
  shows "st = STATUS_SUCCESS \<and>
    (if (qc_closing_deadline c \<noteq> 0 \<and> qc_closing_deadline c \<le> qe_now (Es 0))
        \<or> (qc_draining_deadline c \<noteq> 0 \<and> qc_draining_deadline c \<le> qe_now (Es 0))
     then qc_state d = ConnClosed \<and> qc_stop d \<and> \<not> qc_socket d \<and> qc_waiting d = None \<and> \<not> qc_keys_installed d
       \<and> list_all key_absent [qc_initial_write d, qc_initial_read d, qc_app_write d, qc_previous_write d, qc_app_read d,
            qc_next_read d, qc_previous_read d]
     else qc_state d = qc_state c)"
proof -
  obtain e where e: "(st, d) = (STATUS_SUCCESS,
     if (qc_closing_deadline c \<noteq> 0 \<and> qc_closing_deadline c \<le> qe_now (Es 0))
        \<or> (qc_draining_deadline c \<noteq> 0 \<and> qc_draining_deadline c \<le> qe_now (Es 0))
     then qc_transition_to_closed (Es 0) e else e)" "qc_state e = qc_state c"
    using process_closing [OF assms(1), of Es] assms(2) by auto
  then show ?thesis
    using closed_is_final [of d "Es 0" e] by (simp split: if_split_asm)
qed

theorem closing_ends_witness:
  "qc_state (snd (qc_process_deadlines (\<lambda>k. env_example)
     (live_example\<lparr>qc_state := ConnClosing, qc_closing_deadline := 4\<rparr>))) = ConnClosed"
proof -
  let ?c = "live_example\<lparr>qc_state := ConnClosing, qc_closing_deadline := 4\<rparr>"
  have t: "terminating (qc_state ?c)" by (simp add: terminating_def)
  have "qc_process_deadlines (\<lambda>k. env_example) ?c
      = (fst (qc_process_deadlines (\<lambda>k. env_example) ?c), snd (qc_process_deadlines (\<lambda>k. env_example) ?c))" by simp
  from closing_ends [OF t this] show ?thesis by (simp add: env_example_def)
qed

section \<open>The announced limits\<close>

text \<open>
  C16. The client keeps to what it announces. The transport parameters it sends are parsed by the peer, and on a
  live connection each limit in them is the one that is enforced: the connection's receive limit, the receive
  limit of every stream that receives, the number of streams the peer has opened of each kind, and the number
  of connection identifiers.
\<close>

theorem announced_limits_enforced:
  assumes "qc_live c" "quic_encode_client_parameters_with_limits alloc_ok (qc_local_parameters c) capacity = Inr w"
  shows "\<exists>p. quic_parse_transport_parameters w TpServer = Inr p \<and> tp_initial_scid p = qc_source_id c
    \<and> receiveLimit (qc_flow c) = tp_initial_max_data p
    \<and> (\<forall>s \<in> set (qc_streams c). if stream_bidirectional (qs_id s)
          then qs_receive_limit s = (if stream_client_initiated (qs_id s) then tp_max_stream_data_bidi_local p
                                     else tp_max_stream_data_bidi_remote p)
          else stream_client_initiated (qs_id s) \<or> qs_receive_limit s = tp_max_stream_data_uni p)
    \<and> (\<forall>s \<in> set (qc_streams c). stream_client_initiated (qs_id s)
          \<or> drop_bit 2 (qs_id s) < (if stream_bidirectional (qs_id s) then tp_max_streams_bidi p else tp_max_streams_uni p))
    \<and> length (qc_peer_ids c) \<le> tp_active_cid_limit p"
proof -
  have inv: "qc_wf c" "qc_accounts c" using live_invariant [OF assms(1)] by auto
  obtain p where p: "quic_parse_transport_parameters w TpServer = Inr p"
      "tp_initial_scid p = qc_source_id c" "tp_initial_max_data p = WKNET_HARD_MAX_QUIC_CONNECTION_REASSEMBLY_BYTES"
      "tp_max_stream_data_bidi_local p = WKNET_HARD_MAX_QUIC_STREAM_REASSEMBLY_BYTES"
      "tp_max_stream_data_bidi_remote p = WKNET_HARD_MAX_QUIC_STREAM_REASSEMBLY_BYTES"
      "tp_max_stream_data_uni p = WKNET_HARD_MAX_QUIC_STREAM_REASSEMBLY_BYTES"
      "tp_max_streams_bidi p = WKNET_HARD_MAX_QUIC_PEER_BIDI_STREAMS"
      "tp_max_streams_uni p = WKNET_HARD_MAX_QUIC_PEER_UNI_STREAMS"
      "tp_active_cid_limit p = WKNET_HARD_MAX_QUIC_CONNECTION_IDS"
    using client_parameters_parse [OF assms(2), of TpServer] by (auto simp: qc_local_parameters_def)
  have s: "window_ok s \<and> id_allowed (qs_id s)" if "s \<in> set (qc_streams c)" for s
    using inv(1) that by (auto simp: qc_wf_def streams_ok_def stream_ok_def list_all_iff)
  have "\<forall>s \<in> set (qc_streams c). if stream_bidirectional (qs_id s)
          then qs_receive_limit s = (if stream_client_initiated (qs_id s) then tp_max_stream_data_bidi_local p
                                     else tp_max_stream_data_bidi_remote p)
          else stream_client_initiated (qs_id s) \<or> qs_receive_limit s = tp_max_stream_data_uni p"
    using s unfolding window_ok_def p by fastforce
  moreover have "stream_client_initiated (qs_id s)
      \<or> drop_bit 2 (qs_id s) < (if stream_bidirectional (qs_id s) then tp_max_streams_bidi p else tp_max_streams_uni p)"
    if "s \<in> set (qc_streams c)" for s
    using s [OF that] unfolding id_allowed_def p by (cases "stream_client_initiated (qs_id s)") simp_all
  ultimately show ?thesis
    using p inv by (intro exI [of _ p]) (simp add: qc_accounts_def qc_wf_def)
qed

theorem announced_limits_enforced_witness:
  "\<exists>p w. quic_encode_client_parameters_with_limits True (qc_local_parameters live_example) 100 = Inr w
    \<and> quic_parse_transport_parameters w TpServer = Inr p \<and> receiveLimit (qc_flow live_example) = tp_initial_max_data p"
proof -
  have "\<exists>w. quic_encode_client_parameters_with_limits True (qc_local_parameters live_example) 100 = Inr w"
    by (simp add: quic_encode_client_parameters_with_limits_def qc_local_parameters_def co_new_def
        tp_write_nonzero_def status_simps tp_bytes_def quic_varint_decode(2) quic_varint_encoded_length_def
        QuicVarIntMaximum_def QuicMaximumConnectionIdLength_def live_example_fields
        WKNET_HARD_MAX_QUIC_CONNECTION_REASSEMBLY_BYTES_def WKNET_HARD_MAX_QUIC_STREAM_REASSEMBLY_BYTES_def
        WKNET_HARD_MAX_QUIC_PEER_BIDI_STREAMS_def WKNET_HARD_MAX_QUIC_PEER_UNI_STREAMS_def
        WKNET_HARD_MAX_QUIC_CONNECTION_IDS_def)
  then show ?thesis using announced_limits_enforced [OF live_example_live] by blast
qed

section \<open>The handshake that returns\<close>

text \<open>
  HANDSHAKE_DONE does not look at the state: a connection that is closing, draining or failed is established
  again, its waiter is told of success, and its closing deadline stays set.
\<close>

lemma handshake_done_revives:
  assumes "tls_state E (qc_tls c) = TlsEstablished" "tls_confirm E (qc_tls c) = (STATUS_SUCCESS, tls)"
  shows "\<exists>d. qc_dispatch_frame E LvApplication SpApplication (frame_new\<lparr>fr_kind := FkHandshakeDone\<rparr>) c = (STATUS_SUCCESS, d)
    \<and> qc_state d = ConnEstablished \<and> qc_terminal d = STATUS_SUCCESS \<and> qc_closing_deadline d = qc_closing_deadline c"
  using assms
  by (simp add: qc_dispatch_frame_def qc_dispatch_other_def qc_dispatch_handshake_done_def qc_complete_waiter_def Let_def)

text \<open>
  The application's STOP_SENDING and the peer's share a flag: after the application has stopped a stream with
  one code, a STOP_SENDING of the peer with another code is an error that ends the connection.
\<close>

lemma stop_sending_conflict:
  assumes "qc_find_stream (fr_stream_id f) c = Some k" "qs_stopped (qc_streams c ! k)"
    "qs_initialized (qc_streams c ! k)" "qs_stop_error (qc_streams c ! k) \<noteq> fr_error_code f"
  shows "fst (qc_dispatch_stop_sending E f c) \<noteq> STATUS_SUCCESS"
  using assms by (auto simp: qc_dispatch_stop_sending_def qs_stop_sending_def Let_def)

text \<open>
  A write that is blocked by flow control is deferred like one that is blocked by pacing, and while a command is
  deferred the worker wakes at the pacing deadline. When pacing allows sending, the deadline is due at once and
  trying again changes nothing but the stream's mark: the worker goes round until the peer raises a limit.
\<close>

lemma deferred_is_due:
  assumes "\<not> terminating (qc_state c)" "pacingDeadline (rc_congestion (qc_recovery c)) \<noteq> 0"
    "pacingDeadline (rc_congestion (qc_recovery c)) \<le> now"
  shows "qc_next_deadline E True c \<noteq> 0 \<and> qc_next_deadline E True c \<le> now"
proof -
  have "\<not> not_due now (qc_next_deadline E True c)"
    unfolding not_due_next [OF assms(1)] using assms(2,3) by (simp add: not_due_def)
  then show ?thesis by (simp add: not_due_def not_less)
qed

lemma blocked_write_deferred:
  assumes "qc_find_stream i c = Some k" "progress < length data"
    "qs_can_write (if length data - progress > 1024 then 1024 else length data - progress)
       (fin \<and> length data - progress \<le> 1024) (qc_streams c ! k) = STATUS_DEVICE_BUSY"
  shows "qc_write_command E i data fin progress c = (Inl progress, qc_put_stream k (qs_mark_write_blocked (qc_streams c ! k)) c)"
proof -
  let ?n = "if length data - progress > 1024 then 1024 else length data - progress"
  have v: "length (view data progress ?n) = ?n" by (simp add: view_def)
  have f: "(fin \<and> ?n = length data - progress) = (fin \<and> length data - progress \<le> 1024)" by auto
  have "qc_send_stream_frame (E progress) k (view data progress ?n) (fin \<and> ?n = length data - progress) c
      = (STATUS_RETRY, qc_put_stream k (qs_mark_write_blocked (qc_streams c ! k)) c)"
    unfolding qc_send_stream_frame_def v f using assms(3) by (simp add: Let_def)
  then have "qc_write_loop E k data fin progress c
      = (STATUS_RETRY, progress, qc_put_stream k (qs_mark_write_blocked (qc_streams c ! k)) c)"
    using assms(2) by (subst qc_write_loop.simps) (simp add: Let_def)
  then show ?thesis using assms(1) by (simp add: qc_write_command_def)
qed

end
