(* ===== verification/QuicConnectionDelivery.thy ===== *)
theory QuicConnectionDelivery
  imports QuicConnectionSafety
begin

text \<open>
  From one connection to another: what \<open>SendFramePacket\<close> puts on the wire in a 1-RTT packet is what
  \<open>ProcessDatagram\<close> of a receiver with the matching keys takes out of it. The header, the packet protection,
  the key phase, the packet number and the padding of short frames are transparent: processing the datagram
  is handing the frame to the receiver.
\<close>

section \<open>Protected headers\<close>

lemma first_byte_mask_form: "first_byte_mask b m AND 0xc0 = b AND 0xc0"
  by (simp add: first_byte_mask_def bit.conj_xor_distrib2 and.assoc)

text \<open>Protection leaves what precedes the packet number visible, apart from the low bits of the first byte.\<close>

lemma protect_header_visible:
  assumes "quic_protect_packet E ok ks packet pnOffset pnLength pn n = (Inr k, sealed)"
    "aead_correct E" "blocks_full E" "0 < pnOffset"
  shows "k = pnOffset + pnLength + n + 16" "k \<le> length packet" "length sealed = length packet" "pnOffset + 20 \<le> k"
    "\<forall>i. 0 < i \<longrightarrow> i < pnOffset \<longrightarrow> sealed ! i = packet ! i" "sealed ! 0 AND 0xc0 = packet ! 0 AND 0xc0"
proof -
  from protect_Inr [OF assms(1-3)] obtain ciphertext tag m where g:
      "0 < pnLength" "pnLength \<le> 4" "k = pnOffset + pnLength + n + 16" "k \<le> length packet" "pnOffset + 20 \<le> k"
    and len: "length ciphertext = n" "length tag = 16" "length m = 5"
    and S: "sealed = xor_at pnOffset (take pnLength (drop 1 m))
       ((copy_at (copy_at packet (pnOffset + pnLength) ciphertext) (pnOffset + pnLength + n) tag)
         [0 := first_byte_mask (copy_at (copy_at packet (pnOffset + pnLength) ciphertext) (pnOffset + pnLength + n) tag ! 0) (m ! 0)])"
    by metis
  define T where "T = copy_at (copy_at packet (pnOffset + pnLength) ciphertext) (pnOffset + pnLength + n) tag"
  have T: "T = take (pnOffset + pnLength) packet @ ciphertext @ tag @ drop k packet"
    using g len by (simp add: T_def copy_at_def ac_simps)
  have lT: "length T = length packet" using g len by (simp add: T)
  have low: "T ! i = packet ! i" if "i < pnOffset" for i using that g by (simp add: T nth_append)
  have S': "sealed = xor_at pnOffset (take pnLength (drop 1 m)) (T [0 := first_byte_mask (T ! 0) (m ! 0)])"
    by (simp add: S T_def)
  have len': "pnOffset + length (take pnLength (drop 1 m)) \<le> length (T [0 := first_byte_mask (T ! 0) (m ! 0)])"
    using g lT by simp
  have nth: "sealed ! i = (if i = 0 then first_byte_mask (packet ! 0) (m ! 0) else packet ! i)" if "i < pnOffset" for i
  proof -
    have "0 < length T" using that g lT by linarith
    then show ?thesis
      unfolding S' using that g lT low [OF that] low [of 0] assms(4) by (subst nth_xor_at [OF len']) auto
  qed
  show "\<forall>i. 0 < i \<longrightarrow> i < pnOffset \<longrightarrow> sealed ! i = packet ! i" using nth by simp
  show "sealed ! 0 AND 0xc0 = packet ! 0 AND 0xc0" using nth [of 0] assms(4) by (simp add: first_byte_mask_form)
  show "length sealed = length packet" by (simp add: S' lT)
qed (use protect_Inr [OF assms(1-3)] in metis)+

text \<open>Inspecting a packet gives the first byte and the number that opening it finds.\<close>

lemma inspect_agrees:
  assumes "quic_unprotect_packet E (\<lambda>_. True) ks d off expected = (Inr (pn, n), opened)" "blocks_full E" "0 < off"
  shows "quic_inspect_protected_header E (\<lambda>_. True) ks d off expected = Inr (opened ! 0, pn)"
proof -
  obtain m where m: "quic_header_protection_mask E True ks (view d (off + 4) 16) = Inr m"
    using assms(1) by (auto simp: quic_unprotect_packet_def Let_def split: if_splits sum.splits)
  have lm: "length m = 5" using length_mask [OF assms(2) m] .
  let ?b = "first_byte_mask (d ! 0) (m ! 0)"
  let ?l = "unat (?b AND 3) + 1"
  have l4: "?l \<le> 4" using pn_length_bounds [of "unat ?b"] by (simp add: unsigned_and_eq)
  let ?p1 = "d[0 := ?b]"
  let ?p2 = "xor_at off (take ?l (drop 1 m)) ?p1"
  have d0: "d \<noteq> []" using assms(1,3) by (auto simp: quic_unprotect_packet_def Let_def split: if_splits)
  then have p1: "?p1 ! 0 = ?b" by simp
  have c: "\<not> (off > length d \<or> 4 > length d - off \<or> 16 > length d - (off + 4))" "\<not> reserved_bits_set ?b" "?l \<le> length d - off"
    using assms(1) m d0 by (auto simp: quic_unprotect_packet_def Let_def split: if_splits)
  have view: "view ?p2 off ?l = map2 (XOR) (view d off ?l) (take ?l (drop 1 m))"
  proof (rule nth_equalityI)
    fix i assume "i < length (view ?p2 off ?l)"
    then have i: "i < ?l" "off + i < length d" by (auto simp: view_def)
    have "?p2 ! (off + i) = ?p1 ! (off + i) XOR take ?l (drop 1 m) ! i"
      using i c(3) l4 lm by (subst nth_xor_at) auto
    then show "view ?p2 off ?l ! i = map2 (XOR) (view d off ?l) (take ?l (drop 1 m)) ! i"
      using i l4 lm assms(3) by (simp add: view_def)
  qed (use c(3) l4 lm in \<open>simp add: view_def\<close>)
  have rec: "quic_reconstruct_packet_number (be_value 0 (view ?p2 off ?l)) ?l expected = Inr pn"
    and o: "opened ! 0 = ?p2 ! 0"
    using assms(1,3) m c d0 p1
    by (auto simp: quic_unprotect_packet_def Let_def copy_at_def nth_append split: if_splits sum.splits)
  have "?p2 ! 0 = ?b"
    using assms(3) c(3) l4 lm d0 by (subst nth_xor_at) auto
  then have o: "opened ! 0 = ?b" using o by simp
  show ?thesis
    unfolding quic_inspect_protected_header_def Let_def m rbind_Inr
    using c rec unfolding view o by simp
qed

section \<open>One frame and zeros\<close>

lemma parse_zero: "\<exists>p. quic_parse_frame (0 # rest) = Inr (p, 1) \<and> fr_kind p = FkPadding"
proof -
  have "read_value (0 # rest) 0 = Inr (0, 1)"
    by (simp add: read_value_def quic_decode_varint_def Let_def)
  then show ?thesis by (simp add: quic_parse_frame_def parse_frame_body_def)
qed

lemma validate_zeros: "qc_validate_frames (replicate k 0) b = Inr b"
proof (induction k)
  case (Suc k)
  obtain p where "quic_parse_frame (0 # replicate k 0) = Inr (p, 1)" "fr_kind p = FkPadding" using parse_zero by blast
  then show ?case using Suc by (subst qc_validate_frames.simps) simp
qed (simp add: qc_validate_frames.simps)

lemma dispatch_zeros: "qc_dispatch_frames F level space (replicate k 0) offset c = (STATUS_SUCCESS, c)"
proof (induction k arbitrary: offset)
  case (Suc k)
  obtain p where "quic_parse_frame (0 # replicate k 0) = Inr (p, 1)" "fr_kind p = FkPadding" using parse_zero by blast
  then show ?case using Suc by (subst qc_dispatch_frames.simps) (simp add: qc_dispatch_frame_def)
qed (simp add: qc_dispatch_frames.simps)

definition frame_elicits :: "quic_frame \<Rightarrow> bool" where
  "frame_elicits f \<longleftrightarrow> fr_kind f \<noteq> FkPadding \<and> fr_kind f \<noteq> FkAck \<and> fr_kind f \<noteq> FkConnectionClose"

lemma validate_one:
  assumes "quic_parse_frame (bs @ replicate k 0) = Inr (g, length bs)"
  shows "qc_validate_frames (bs @ replicate k 0) False = Inr (frame_elicits g)"
proof -
  have "0 < length bs" "bs @ replicate k 0 \<noteq> []" using parse_frame_advances [OF assms] by auto
  then show ?thesis
    using assms validate_zeros by (subst qc_validate_frames.simps) (simp add: frame_elicits_def)
qed

lemma dispatch_one:
  assumes "quic_parse_frame (bs @ replicate k 0) = Inr (g, length bs)"
  shows "qc_dispatch_frames F level space (bs @ replicate k 0) 0 c = qc_dispatch_frame (F 0) level space g c"
proof -
  have "bs @ replicate k 0 \<noteq> []" using parse_frame_advances [OF assms] by auto
  then show ?thesis
    using assms dispatch_zeros [of F level space k "length bs"]
    by (subst qc_dispatch_frames.simps) (auto split: prod.splits)
qed

text \<open>A frame handed to a connection as the only one of the 1-RTT packet \<open>pn\<close>.\<close>

definition qc_hand_over ::
    "'tls quic_env \<Rightarrow> 'tls quic_env \<Rightarrow> nat \<Rightarrow> quic_frame \<Rightarrow> 'tls quic_connection \<Rightarrow> ntstatus \<times> 'tls quic_connection" where
  "qc_hand_over E F pn g c =
     (case on_packet_received pn (frame_elicits g) False (qe_now E) (qc_trackers c SpApplication) of (st, duplicate, t) \<Rightarrow>
        let c1 = c\<lparr>qc_pending_error := 0, qc_trackers := (qc_trackers c)(SpApplication := t)\<rparr>
        in if st \<noteq> STATUS_SUCCESS \<or> duplicate then (st, c1)
           else case qc_dispatch_frame F LvApplication SpApplication g
                  (if pn \<ge> qc_expected_pn c1 SpApplication
                   then c1\<lparr>qc_expected_pn := (qc_expected_pn c1)(SpApplication := pn + 1)\<rparr> else c1) of (st1, c2) \<Rightarrow>
             if st1 \<noteq> STATUS_SUCCESS
             then (st1, qc_note_error (qc_tls_error_or E (if st1 = STATUS_INSUFFICIENT_RESOURCES then 0x1 else 0xa) c2) c2)
             else case qc_handle_tls_progress E c2 of (st2, c3) \<Rightarrow>
               if st2 \<noteq> STATUS_SUCCESS then (st2, qc_note_error (qc_tls_error_or E 0xa c3) c3)
               else qc_ack_if_due E SpApplication c3)"

lemma payload_of_one:
  assumes "quic_parse_frame (bs @ replicate k 0) = Inr (g, length bs)"
  shows "qc_process_payload E F LvApplication SpApplication pn (bs @ replicate k 0) c = qc_hand_over E (F 0) pn g c"
  unfolding qc_process_payload_def validate_one [OF assms] qc_process_frames_def dispatch_one [OF assms] qc_hand_over_def
  by (simp add: Let_def split: prod.splits)

section \<open>Sending\<close>

text \<open>What a 1-RTT packet that left consists of.\<close>

lemma transmit_keeps:
  assumes "qc_transmit E PtOneRtt SpApplication el d c = (STATUS_SUCCESS, c')" "qc_sent c' \<noteq> qc_sent c"
  shows "qc_sent c' = qc_sent c @ [d] \<and> qc_next_pn c' SpApplication = qc_next_pn c SpApplication + 1
    \<and> qc_app_write c' = qc_app_write c \<and> qc_send_phase c' = qc_send_phase c \<and> qc_peer_id c' = qc_peer_id c"
  using assms by (auto simp: qc_transmit_def qc_record_sent_def Let_def split: sum.splits if_splits prod.splits)

lemma prepare_keeps: "qc_prepare_send E type space s = (st, s1) \<Longrightarrow> qc_sent s1 = qc_sent s"
  by (auto simp: qc_prepare_send_def qc_initiate_key_update_def split: if_splits sum.splits)

lemma send_one_rtt:
  assumes "qc_send_frame_packet E PtOneRtt SpApplication ApplicationWriteKey f acks False el s = (STATUS_SUCCESS, s')"
    "qc_sent s' = qc_sent s @ [d]"
  obtains bs header pnOffset sealed k pn where
    "quic_encode_frame f acks WKNET_HARD_MAX_QUIC_FRAME_BYTES = Inr bs"
    "quic_encode_short_header \<lparr>sh_dcid = qc_peer_id s', sh_packet_number = pn, sh_pn_length = 2,
       sh_key_phase = qc_send_phase s'\<rparr> WKNET_HARD_MAX_QUIC_UDP_PAYLOAD_BYTES = Inr (header, pnOffset)"
    "length header + (if length bs < 2 then 2 else length bs) \<le> WKNET_HARD_MAX_QUIC_UDP_PAYLOAD_BYTES"
    "quic_protect_packet (qe_crypto E) (\<lambda>k. qe_alloc E (AlSeal k)) (qc_app_write s') (qc_packet_buffer header bs)
       pnOffset 2 pn (if length bs < 2 then 2 else length bs) = (Inr k, sealed)"
    "qc_next_pn s' SpApplication = pn + 1" "d = take k sealed"
proof -
  obtain bs where bs: "quic_encode_frame f acks WKNET_HARD_MAX_QUIC_FRAME_BYTES = Inr bs"
    using assms by (auto simp: qc_send_frame_packet_def split: if_splits sum.splits)
  obtain st s1 where s1: "qc_prepare_send E PtOneRtt SpApplication s = (st, s1)" by fastforce
  note same = prepare_keeps [OF s1]
  let ?n = "if length bs < 2 then 2 else length bs" and ?pn = "qc_next_pn s1 SpApplication"
  obtain e where e: "rbind (qc_packet_header PtOneRtt ?pn False (length bs) s1)
       (\<lambda>(header, pnOffset, n). qc_seal E (qc_app_write s1) header bs pnOffset ?pn n) = Inr e"
    "qc_transmit E PtOneRtt SpApplication el e s1 = (STATUS_SUCCESS, s')"
    using assms bs s1 same by (auto simp: qc_send_frame_packet_def key_of_def split: if_splits sum.splits)
  have keep: "qc_sent s' = qc_sent s1 @ [e] \<and> qc_next_pn s' SpApplication = ?pn + 1
    \<and> qc_app_write s' = qc_app_write s1 \<and> qc_send_phase s' = qc_send_phase s1 \<and> qc_peer_id s' = qc_peer_id s1"
    by (rule transmit_keeps [OF e(2)]) (simp add: assms(2) same)
  then have d: "e = d" using assms(2) same by simp
  obtain header pnOffset where h: "quic_encode_short_header \<lparr>sh_dcid = qc_peer_id s1, sh_packet_number = ?pn, sh_pn_length = 2,
       sh_key_phase = qc_send_phase s1\<rparr> WKNET_HARD_MAX_QUIC_UDP_PAYLOAD_BYTES = Inr (header, pnOffset)"
    and n: "?n \<le> WKNET_HARD_MAX_QUIC_UDP_PAYLOAD_BYTES - length header"
    and seal: "qc_seal E (qc_app_write s1) header bs pnOffset ?pn ?n = Inr d"
    using e(1) d by (auto simp: qc_packet_header_def status_simps Let_def split: if_splits)
  obtain k sealed where p: "quic_protect_packet (qe_crypto E) (\<lambda>k. qe_alloc E (AlSeal k)) (qc_app_write s1)
       (qc_packet_buffer header bs) pnOffset 2 ?pn ?n = (Inr k, sealed)" "d = take k sealed"
    using seal by (auto simp: qc_seal_def split: sum.splits prod.splits)
  have "2 \<le> ?n" by simp
  then have "length header + ?n \<le> WKNET_HARD_MAX_QUIC_UDP_PAYLOAD_BYTES" using n by linarith
  then show ?thesis
    using that [OF bs, of ?pn header pnOffset k sealed] h p keep by auto
qed

section \<open>Receiving\<close>

lemma short_header_form:
  assumes "quic_encode_short_header \<lparr>sh_dcid = i, sh_packet_number = pn, sh_pn_length = 2, sh_key_phase = phase\<rparr> capacity
    = Inr (header, pnOffset)"
  shows "header = (if phase then 0x45 else 0x41) # i @ be_bytes 2 pn \<and> pnOffset = 1 + length i \<and> length i \<le> 20
    \<and> pn \<le> QuicVarIntMaximum"
  using assms
  by (auto simp: quic_encode_short_header_def packet_write_bytes_def write_truncated_pn_def status_simps
      QuicMaximumConnectionIdLength_def uchar_def split: if_splits)

lemma parse_protected_short:
  assumes "x AND 0xc0 = 0x40" "length i \<le> 20" "4 \<le> length rest"
  shows "\<exists>h. quic_parse_packet_header (x # i @ rest) (length i) = Inr h \<and> ph_type h = PtOneRtt \<and> ph_dcid h = i
    \<and> ph_pn_offset h = 1 + length i \<and> ph_packet_length h = length (x # i @ rest)"
proof -
  have "unat (x AND 0xc0) = 64" using assms(1) by simp
  then have u: "unat x AND 192 = 64" by (simp add: unsigned_and_eq)
  have "unat x AND 0x80 = (unat x AND 192) AND 0x80" "unat x AND 0x40 = (unat x AND 192) AND 0x40"
    by (simp_all add: and.assoc)
  then have bits: "unat x AND 0x80 = 0" "unat x AND 0x40 \<noteq> 0" unfolding u by simp_all
  show ?thesis
    using bits assms(2,3) pn_length_bounds [of "unat x"]
    by (simp add: quic_parse_packet_header_def parse_short_header_def header_new_def can_advance_def
        QuicMaximumConnectionIdLength_def view_def Let_def)
qed

text \<open>A datagram that holds one packet, a short header to its end.\<close>

lemma datagram_of_one:
  assumes "quic_parse_packet_header d (length (qc_source_id c)) = Inr h" "ph_packet_length h = length d"
    "d ! 0 \<noteq> 0" "d \<noteq> []" "length d \<le> WKNET_HARD_MAX_QUIC_UDP_PAYLOAD_BYTES"
  shows "qc_process_datagram E F d c = qc_process_packet (E 0) (F 0) h d c"
proof -
  let ?it = "quic_packet_iterator_initialize d (length (qc_source_id c))"
  have "\<not> is_all_zero d" using assms(3,4) by (cases d) (auto simp: is_all_zero_def)
  then have next1: "quic_packet_iterator_next ?it = (Inr (h, d), ?it\<lparr>pi_offset := length d\<rparr>)"
    using assms(1,2,4) by (simp add: quic_packet_iterator_next_def quic_packet_iterator_initialize_def)
  have next2: "quic_packet_iterator_next (?it\<lparr>pi_offset := length d\<rparr>) = (Inl STATUS_NOT_FOUND, ?it\<lparr>pi_offset := length d\<rparr>)"
    by (simp add: quic_packet_iterator_next_def quic_packet_iterator_initialize_def)
  have stop: "qc_process_packets E F (?it\<lparr>pi_offset := length d\<rparr>) 1 x = (STATUS_SUCCESS, x)" for x
    using next2 by (subst qc_process_packets.simps) simp
  have "qc_process_packets E F ?it 0 c = qc_process_packet (E 0) (F 0) h d c"
    using next1 stop by (subst qc_process_packets.simps) (auto split: prod.splits)
  then show ?thesis using assms(4,5) by (simp add: qc_process_datagram_def)
qed

text \<open>
  The receiver \<open>r\<close> reads what is sealed with the key \<open>key\<close> in the phase \<open>phase\<close> to the identifier \<open>i\<close>, and
  expects a number near \<open>pn\<close>.
\<close>

definition reads_packets ::
    "'tls quic_env \<Rightarrow> bytes \<Rightarrow> quic_key_set \<Rightarrow> bool \<Rightarrow> nat \<Rightarrow> 'tls quic_connection \<Rightarrow> bool" where
  "reads_packets E i key phase pn r \<longleftrightarrow> qc_app_read r = key \<and> \<not> key_absent key \<and> qc_receive_phase r = phase
     \<and> length i = length (qc_source_id r) \<and> qc_is_local_id (qe_now E) i r
     \<and> qc_expected_pn r SpApplication \<le> QuicVarIntMaximum
     \<and> qc_expected_pn r SpApplication < pn + 2 ^ 15 \<and> pn \<le> qc_expected_pn r SpApplication + 2 ^ 15"

lemma discard_keeps_reading:
  "qc_app_read (qc_discard_expired_read_key now c) = qc_app_read c"
  "qc_receive_phase (qc_discard_expired_read_key now c) = qc_receive_phase c"
  "qc_expected_pn (qc_discard_expired_read_key now c) = qc_expected_pn c"
  "qc_source_id (qc_discard_expired_read_key now c) = qc_source_id c"
  by (simp_all add: qc_discard_expired_read_key_def)

lemma opened_payload:
  assumes "quic_encode_short_header \<lparr>sh_dcid = i, sh_packet_number = pn, sh_pn_length = 2, sh_key_phase = phase\<rparr> capacity
      = Inr (header, pnOffset)"
    "qc_receive_phase c = phase" "length i = length (qc_source_id c)" "opened = header @ payload @ tag"
  shows "qc_process_opened E F PtOneRtt LvApplication SpApplication CurrentKey opened pn (length payload) c
    = qc_process_payload E F LvApplication SpApplication pn payload c"
proof -
  obtain h where h: "quic_parse_packet_header opened (length i) = Inr h" "ph_type h = PtOneRtt" "\<not> ph_is_long h"
      "ph_first_byte h = header ! 0" "ph_payload_offset h = length header"
    using short_header_fields(1) [OF assms(1), of "payload @ tag"] assms(4) by auto
  have "header ! 0 = (if phase then 0x45 else 0x41)" using short_header_form [OF assms(1)] by simp
  then have "(ph_first_byte h AND 0x04 \<noteq> 0) = phase" using h(4) by simp
  then have "qc_accept_phase E CurrentKey (ph_first_byte h AND 0x04 \<noteq> 0) pn c = (STATUS_SUCCESS, c)"
    using assms(2) by (simp add: qc_accept_phase_def)
  then show ?thesis
    unfolding qc_process_opened_def assms(3) [symmetric] h(1)
    using h by (simp add: qc_learn_peer_id_def assms(4) view_def)
qed

lemma packet_read:
  assumes header: "quic_encode_short_header \<lparr>sh_dcid = i, sh_packet_number = pn, sh_pn_length = 2, sh_key_phase = phase\<rparr>
      WKNET_HARD_MAX_QUIC_UDP_PAYLOAD_BYTES = Inr (header, pnOffset)"
    and fits: "length header + n \<le> WKNET_HARD_MAX_QUIC_UDP_PAYLOAD_BYTES" "length bs \<le> n"
    and seal: "quic_protect_packet C ok key (qc_packet_buffer header bs) pnOffset 2 pn n = (Inr k, sealed)"
    and C: "aead_correct C" "blocks_full C" "qe_crypto (Es 0) = C" "qe_alloc (Es 0) = (\<lambda>a. True)"
    and r: "reads_packets (Es 0) i key phase pn r"
  shows "qc_process_datagram Es F (take k sealed) r
    = qc_process_payload (Es 0) (F 0) LvApplication SpApplication pn (bs @ replicate (n - length bs) 0)
        (qc_discard_expired_read_key (qe_now (Es 0)) r)"
proof -
  let ?b = "if phase then 0x45 else 0x41 :: byte" and ?buffer = "qc_packet_buffer header bs"
  let ?d = "take k sealed" and ?payload = "bs @ replicate (n - length bs) 0" and ?r = "qc_discard_expired_read_key (qe_now (Es 0)) r"
  have f: "header = ?b # i @ be_bytes 2 pn" "pnOffset = 1 + length i" "length i \<le> 20" "pn \<le> QuicVarIntMaximum"
    using short_header_form [OF header] by auto
  have lh: "length header = pnOffset + 2" by (simp add: f(1,2))
  have lbuf: "length ?buffer = WKNET_HARD_MAX_QUIC_UDP_PAYLOAD_BYTES"
    using fits by (simp add: qc_packet_buffer_def)
  have buf: "?buffer = header @ ?payload @ replicate (WKNET_HARD_MAX_QUIC_UDP_PAYLOAD_BYTES - length header - n) 0"
    using fits by (simp add: qc_packet_buffer_def replicate_add [symmetric])
  have vis: "k = pnOffset + 2 + n + 16" "k \<le> WKNET_HARD_MAX_QUIC_UDP_PAYLOAD_BYTES"
      "length sealed = WKNET_HARD_MAX_QUIC_UDP_PAYLOAD_BYTES"
      "\<forall>j. 0 < j \<longrightarrow> j < pnOffset \<longrightarrow> sealed ! j = ?buffer ! j" "sealed ! 0 AND 0xc0 = ?buffer ! 0 AND 0xc0"
    using protect_header_visible [OF seal C(1,2)] lbuf f(2) by auto
  have ld: "length ?d = k" using vis by simp
  \<comment> \<open>the datagram as a short header\<close>
  have shape: "?d = sealed ! 0 # i @ drop pnOffset ?d"
  proof (rule nth_equalityI)
    show "length ?d = length (sealed ! 0 # i @ drop pnOffset ?d)" using vis ld f(2) by simp
    fix j assume j: "j < length ?d"
    show "?d ! j = (sealed ! 0 # i @ drop pnOffset ?d) ! j"
    proof (cases "0 < j \<and> j < pnOffset")
      case True
      then have "sealed ! j = ?buffer ! j" using vis(4) by blast
      also have "\<dots> = i ! (j - 1)" unfolding buf using True f(2) by (cases j) (auto simp: f(1) nth_append)
      finally show ?thesis using True j ld f(2) by (cases j) (auto simp: nth_append)
    next
      case False
      then show ?thesis using j ld f(2) vis by (cases j) (auto simp: nth_append)
    qed
  qed
  have first: "sealed ! 0 AND 0xc0 = 0x40"
    using vis(5) unfolding buf by (simp add: f(1))
  have "4 \<le> length (drop pnOffset ?d)" using vis(1) ld by simp
  from parse_protected_short [OF first f(3) this, folded shape]
  obtain h where h: "quic_parse_packet_header ?d (length i) = Inr h" "ph_type h = PtOneRtt" "ph_dcid h = i"
      "ph_pn_offset h = 1 + length i" "ph_packet_length h = length ?d"
    by blast
  have d0: "?d ! 0 \<noteq> 0" using first vis by (cases "sealed ! 0 = 0") auto
  have one: "qc_process_datagram Es F ?d r = qc_process_packet (Es 0) (F 0) h ?d r"
    using h r vis d0 ld by (intro datagram_of_one) (auto simp: reads_packets_def)
  \<comment> \<open>opening it\<close>
  have can: "sealable ?buffer pnOffset 2 pn"
  proof -
    have "view ?buffer pnOffset 2 = be_bytes 2 pn" unfolding buf by (simp add: f(1,2) view_def)
    moreover have "?buffer ! 0 = ?b" unfolding buf by (simp add: f(1))
    ultimately show ?thesis by (cases phase) (simp_all add: sealable_def f(2) reserved_bits_set_def)
  qed
  have rd: "qc_app_read ?r = key" "qc_receive_phase ?r = phase" "length i = length (qc_source_id ?r)"
      "qc_expected_pn ?r SpApplication = qc_expected_pn r SpApplication" "\<not> key_absent key"
    using r by (auto simp: reads_packets_def discard_keeps_reading)
  have "qc_expected_pn ?r SpApplication \<le> QuicVarIntMaximum"
    "qc_expected_pn ?r SpApplication < pn + 2 ^ (8 * 2) div 2" "pn \<le> qc_expected_pn ?r SpApplication + 2 ^ (8 * 2) div 2"
    using r by (simp_all add: reads_packets_def discard_keeps_reading)
  from unprotect_protect [OF seal C(1,2) can this]
  obtain tag where opened: "quic_unprotect_packet C (\<lambda>_. True) key ?d pnOffset (qc_expected_pn ?r SpApplication)
      = (Inr (pn, n), take (pnOffset + 2 + n) ?buffer @ tag)"
    by blast
  have tk: "take (pnOffset + 2 + n) ?buffer = header @ ?payload"
    unfolding buf using fits lh by simp
  note insp = inspect_agrees [OF opened C(2)]
  have "(take (pnOffset + 2 + n) ?buffer @ tag) ! 0 = ?b" unfolding tk by (simp add: f(1))
  then have insp: "quic_inspect_protected_header C (\<lambda>_. True) key ?d pnOffset (qc_expected_pn ?r SpApplication) = Inr (?b, pn)"
    using insp f(2) by simp
  have bit: "(?b AND 0x04 \<noteq> 0) = phase" by simp
  have select: "qc_select_read_key (Es 0) h ?d ?r = Inr CurrentKey"
    using insp bit rd by (simp add: qc_select_read_key_def C(3,4) h(4) f(2))
  have lp: "length ?payload = n" using fits(2) by simp
  have "qc_open_packet (Es 0) (F 0) h ?d LvApplication SpApplication ?r
      = qc_process_opened (Es 0) (F 0) PtOneRtt LvApplication SpApplication CurrentKey (header @ ?payload @ tag) pn n ?r"
  proof -
    have "(length ?d > WKNET_HARD_MAX_QUIC_UDP_PAYLOAD_BYTES) = False" "ph_pn_offset h = pnOffset"
      using vis(2) ld h(4) f(2) by auto
    then show ?thesis
      using opened
      by (simp only: qc_open_packet_def Let_def h(2) C(3,4) rd(1) select selected_key_def read_key_selection.case
          simp_thms if_True if_False sum.case prod.case tk append_assoc)
  qed
  also have "\<dots> = qc_process_payload (Es 0) (F 0) LvApplication SpApplication pn ?payload ?r"
    using opened_payload [OF header rd(2,3) refl, of "Es 0" "F 0" ?payload tag] unfolding lp by simp
  finally have open_it: "qc_open_packet (Es 0) (F 0) h ?d LvApplication SpApplication ?r
      = qc_process_payload (Es 0) (F 0) LvApplication SpApplication pn ?payload ?r" .
  have "qc_is_local_id (qe_now (Es 0)) i r" using r by (simp add: reads_packets_def)
  then show ?thesis
    unfolding one qc_process_packet_def h(2,3)
    using open_it rd by (simp add: packet_level_def qc_read_key_def Let_def)
qed

text \<open>
  C7. The wire is transparent. When a connection has sent a frame in a 1-RTT packet and a connection with the
  matching key, key phase and identifier receives the datagram, processing it is the same as handing over the
  frame: the receiver dispatches the frame that was sent, with all its fields, under the packet number it was
  sent with, once, whatever the frame, the padding of short frames included.
\<close>

theorem frame_arrives:
  assumes "qc_send_frame_packet E PtOneRtt SpApplication ApplicationWriteKey f acks False el s = (STATUS_SUCCESS, s')"
    and "qc_sent s' = qc_sent s @ [d]" "fr_kind f \<noteq> FkPadding"
    and "aead_correct (qe_crypto E)" "blocks_full (qe_crypto E)" "qe_crypto (Es 0) = qe_crypto E" "qe_alloc (Es 0) = (\<lambda>a. True)"
    and "reads_packets (Es 0) (qc_peer_id s') (qc_app_write s') (qc_send_phase s') (qc_next_pn s' SpApplication - 1) r"
  shows "\<exists>g. frame_agrees f acks g \<and> qc_process_datagram Es F d r
    = qc_hand_over (Es 0) (F 0 0) (qc_next_pn s' SpApplication - 1) g (qc_discard_expired_read_key (qe_now (Es 0)) r)"
proof -
  obtain bs header pnOffset sealed k pn where
    bs: "quic_encode_frame f acks WKNET_HARD_MAX_QUIC_FRAME_BYTES = Inr bs"
    and header: "quic_encode_short_header \<lparr>sh_dcid = qc_peer_id s', sh_packet_number = pn, sh_pn_length = 2,
       sh_key_phase = qc_send_phase s'\<rparr> WKNET_HARD_MAX_QUIC_UDP_PAYLOAD_BYTES = Inr (header, pnOffset)"
    and fits: "length header + (if length bs < 2 then 2 else length bs) \<le> WKNET_HARD_MAX_QUIC_UDP_PAYLOAD_BYTES"
    and seal: "quic_protect_packet (qe_crypto E) (\<lambda>k. qe_alloc E (AlSeal k)) (qc_app_write s') (qc_packet_buffer header bs)
       pnOffset 2 pn (if length bs < 2 then 2 else length bs) = (Inr k, sealed)"
    and pn: "qc_next_pn s' SpApplication = pn + 1" and d: "d = take k sealed"
    using send_one_rtt [OF assms(1,2)] by metis
  let ?n = "if length bs < 2 then 2 else length bs"
  obtain g where g: "quic_parse_frame (bs @ replicate (?n - length bs) 0) = Inr (g, length bs)" "frame_agrees f acks g"
    using frame_roundtrips [OF bs assms(3), of "replicate (?n - length bs) 0"] by blast
  have "qc_process_datagram Es F d r = qc_process_payload (Es 0) (F 0) LvApplication SpApplication pn
      (bs @ replicate (?n - length bs) 0) (qc_discard_expired_read_key (qe_now (Es 0)) r)"
    unfolding d using assms(8) pn by (intro packet_read [where Es = Es and F = F, OF header fits _ seal assms(4-7)]) simp_all
  then show ?thesis using g(2) unfolding payload_of_one [OF g(1)] pn by auto
qed

text \<open>A PING from a connection with keys to one that has them too.\<close>

definition sender_example :: "unit quic_connection" where
  "sender_example = (qc_new ())\<lparr>qc_socket := True, qc_keys_installed := True, qc_app_write := key_example,
     qc_peer_id := [7], qc_recovery := recovery_new\<lparr>rc_capacity := 16\<rparr>\<rparr>"

definition reader_example :: "unit quic_connection" where
  "reader_example = (qc_new ())\<lparr>qc_keys_installed := True, qc_app_read := key_example, qc_source_id := [7],
     qc_local_ids := [\<lparr>ce_sequence = 0, ce_id = [7], ce_token = None, ce_retired = False, ce_deadline = 0\<rparr>]\<rparr>"

definition ping_example :: quic_frame where
  "ping_example = frame_new\<lparr>fr_kind := FkPing\<rparr>"

lemma example_seals:
  assumes "length packet = 1200" "pn \<le> QuicVarIntMaximum"
  shows "\<exists>sealed. quic_protect_packet crypto_example (\<lambda>k. True) key_example packet 2 2 pn 2 = (Inr 22, sealed)
    \<and> length sealed = 1200"
  using assms
  by (simp add: quic_protect_packet_def QuicRetryIntegrityTagLength_def crypto_example_def key_example_def
      quic_build_packet_nonce_def quic_header_protection_mask_def view_def Let_def copy_at_def)

lemma ping_sent:
  "\<exists>d s'. qc_send_frame_packet env_example PtOneRtt SpApplication ApplicationWriteKey ping_example [] False True sender_example
      = (STATUS_SUCCESS, s') \<and> qc_sent s' = qc_sent sender_example @ [d] \<and> qc_peer_id s' = [7] \<and> qc_app_write s' = key_example
    \<and> \<not> qc_send_phase s' \<and> qc_next_pn s' SpApplication = 1"
proof -
  have key: "\<not> key_absent key_example" by (simp add: key_absent_def key_example_def)
  have f: "qc_socket sender_example" "qc_app_write sender_example = key_example" "qc_keys_installed sender_example"
      "qc_next_pn sender_example SpApplication = 0" "qc_phase_packets sender_example = 0" "qc_peer_id sender_example = [7]"
      "\<not> qc_send_phase sender_example" "qc_sent sender_example = []"
      "qc_recovery sender_example = recovery_new\<lparr>rc_capacity := 16\<rparr>"
    by (simp_all add: sender_example_def qc_new_def)
  have bs: "quic_encode_frame ping_example [] WKNET_HARD_MAX_QUIC_FRAME_BYTES = Inr [1]"
    by (simp add: ping_example_def frame_new_def frame_simps write_value_def quic_encode_varint_def quic_varint_encoded_length_def Let_def
        WKNET_HARD_MAX_QUIC_FRAME_BYTES_def QuicVarIntMaximum_def uchar_def codec_simps)
  have h: "qc_packet_header PtOneRtt 0 False 1 sender_example = Inr ([0x41, 7, 0, 0], 2, 2)"
    by (simp add: qc_packet_header_def quic_encode_short_header_def packet_write_bytes_def write_truncated_pn_def f
        write_bytes_def uchar_def WKNET_HARD_MAX_QUIC_UDP_PAYLOAD_BYTES_def QuicMaximumConnectionIdLength_def
        codec_simps numeral_2_eq_2)
  obtain sealed where "quic_protect_packet crypto_example (\<lambda>k. True) key_example (qc_packet_buffer [0x41, 7, 0, 0] [1]) 2 2 0 2
      = (Inr 22, sealed)" "length sealed = 1200"
    using example_seals [of "qc_packet_buffer [0x41, 7, 0, 0] [1]" 0]
    by (auto simp: qc_packet_buffer_def WKNET_HARD_MAX_QUIC_UDP_PAYLOAD_BYTES_def QuicVarIntMaximum_def)
  then have seal: "qc_seal env_example key_example [0x41, 7, 0, 0] [1] 2 0 2 = Inr (take 22 sealed)" "length sealed = 1200"
    by (simp_all add: qc_seal_def env_example_def)
  have prep: "qc_prepare_send env_example PtOneRtt SpApplication sender_example = (STATUS_SUCCESS, sender_example)"
    by (simp add: qc_prepare_send_def f QuicVarIntMaximum_def QuicKeyUpdatePacketThreshold_def)
  obtain r where sent: "rc_on_packet_sent 5 SpApplication 0 22 True (recovery_new\<lparr>rc_capacity := 16\<rparr>) = (STATUS_SUCCESS, r)"
    by (simp add: rc_on_packet_sent_def recovery_new_def QuicVarIntMaximum_def MaximumDatagramSize_def Let_def)
  have env: "qe_now env_example = 5" "qe_send env_example = (\<lambda>sent d. Inr (length d))" by (simp_all add: env_example_def)
  have trans: "\<exists>s'. qc_transmit env_example PtOneRtt SpApplication True (take 22 sealed) sender_example = (STATUS_SUCCESS, s')
      \<and> qc_sent s' = [take 22 sealed] \<and> qc_peer_id s' = [7] \<and> qc_app_write s' = key_example
      \<and> \<not> qc_send_phase s' \<and> qc_next_pn s' SpApplication = 1"
    using f seal(2) sent by (simp add: qc_transmit_def qc_record_sent_def env Let_def split: prod.splits)
  show ?thesis
    using key f bs h seal prep trans by (auto simp: qc_send_frame_packet_def key_of_def)
qed

theorem frame_arrives_witness:
  "\<exists>d s' g. qc_send_frame_packet env_example PtOneRtt SpApplication ApplicationWriteKey ping_example [] False True
        sender_example = (STATUS_SUCCESS, s')
    \<and> qc_sent s' = qc_sent sender_example @ [d] \<and> frame_agrees ping_example [] g
    \<and> qc_process_datagram (\<lambda>k. env_example) (\<lambda>k i. env_example) d reader_example
      = qc_hand_over env_example env_example 0 g (qc_discard_expired_read_key 5 reader_example)"
proof -
  obtain d s' where s: "qc_send_frame_packet env_example PtOneRtt SpApplication ApplicationWriteKey ping_example [] False True
      sender_example = (STATUS_SUCCESS, s')" "qc_sent s' = qc_sent sender_example @ [d]" "qc_peer_id s' = [7]"
      "qc_app_write s' = key_example" "\<not> qc_send_phase s'" "qc_next_pn s' SpApplication = 1"
    using ping_sent by blast
  have k: "fr_kind ping_example \<noteq> FkPadding" by (simp add: ping_example_def frame_new_def)
  have e: "qe_crypto env_example = crypto_example" "qe_alloc env_example = (\<lambda>a. True)" "qe_now env_example = 5"
    by (simp_all add: env_example_def)
  have r: "reads_packets env_example (qc_peer_id s') (qc_app_write s') (qc_send_phase s') (qc_next_pn s' SpApplication - 1) reader_example"
    using s by (simp add: reads_packets_def reader_example_def qc_new_def key_absent_def key_example_def
        qc_is_local_id_def ce_active_def QuicVarIntMaximum_def)
  obtain g where g: "frame_agrees ping_example [] g"
      "qc_process_datagram (\<lambda>k. env_example) (\<lambda>k i. env_example) d reader_example
        = qc_hand_over env_example env_example 0 g (qc_discard_expired_read_key 5 reader_example)"
    using frame_arrives [where Es = "\<lambda>k. env_example" and F = "\<lambda>k i. env_example", OF s(1,2) k _ _ refl _ r]
      crypto_example_ok s(6) by (auto simp: e)
  show ?thesis using s(1,2) g by blast
qed

end
