(* ===== verification/QpackInteger.thy ===== *)
theory QpackInteger
  imports Prelude
begin

text \<open>
  The prefixed integers of QPACK, \<open>src/wknetlib/qpack/QpackInteger.cpp\<close>: a value in the low bits of
  a byte, continued in groups of seven bits when it does not fit. The lemmas give the round trip
  for every prefix and prefix length, and what the decoder accepts.
\<close>

definition QpackIntegerMaximum :: nat where
  "QpackIntegerMaximum = 2 ^ 62 - 1"

definition qpack_prefix_mask :: "nat \<Rightarrow> byte" where
  "qpack_prefix_mask prefixBits = (if prefixBits = 8 then 0xff else push_bit prefixBits 1 - 1)"

section \<open>Encoding and decoding\<close>

function qpack_encode_tail :: "nat \<Rightarrow> nat \<Rightarrow> bytes \<Rightarrow> bytes result" where
  "qpack_encode_tail value capacity w =
     (if length w \<ge> capacity then Inl STATUS_BUFFER_TOO_SMALL
      else if value \<ge> 128
      then qpack_encode_tail (drop_bit 7 value) capacity (w @ [uchar ((value AND 0x7f) OR 0x80)])
      else Inr (w @ [uchar value]))"
  by pat_completeness auto

termination
  by (relation "measure (\<lambda>(value, capacity, w). value)") (auto simp: drop_bit_eq_div)

declare qpack_encode_tail.simps [simp del]

definition qpack_encode_integer :: "nat \<Rightarrow> byte \<Rightarrow> nat \<Rightarrow> nat \<Rightarrow> bytes result" where
  "qpack_encode_integer value high0 prefixBits capacity =
     (if prefixBits = 0 \<or> prefixBits > 8 \<or> value > QpackIntegerMaximum \<or> capacity = 0
      then Inl STATUS_INVALID_PARAMETER
      else let prefixMask = qpack_prefix_mask prefixBits; high = high0 AND NOT prefixMask
        in if value < unat prefixMask then Inr [high OR uchar value]
           else qpack_encode_tail (value - unat prefixMask) capacity [high OR prefixMask])"

fun qpack_decode_tail :: "bytes \<Rightarrow> nat \<Rightarrow> nat \<Rightarrow> nat \<Rightarrow> (nat \<times> nat) result" where
  "qpack_decode_tail [] shift decoded offset = Inl STATUS_BUFFER_TOO_SMALL"
| "qpack_decode_tail (current # rest) shift decoded offset =
     (let payload = unat current AND 0x7f
      in if shift \<ge> 63 \<or> payload > drop_bit shift (QpackIntegerMaximum - decoded)
         then Inl STATUS_INTEGER_OVERFLOW
         else let decoded1 = decoded + push_bit shift payload
              in if (unat current AND 0x80) = 0 then Inr (decoded1, offset + 1)
                 else if shift > 56 then Inl STATUS_INTEGER_OVERFLOW
                 else qpack_decode_tail rest (shift + 7) decoded1 (offset + 1))"

definition qpack_decode_integer :: "bytes \<Rightarrow> nat \<Rightarrow> (nat \<times> nat) result" where
  "qpack_decode_integer source prefixBits =
     (if source = [] \<or> prefixBits = 0 \<or> prefixBits > 8 then Inl STATUS_INVALID_PARAMETER
      else let prefixMask = qpack_prefix_mask prefixBits; decoded = unat (source ! 0 AND prefixMask)
        in if decoded < unat prefixMask then Inr (decoded, 1)
           else qpack_decode_tail (drop 1 source) 0 decoded 1)"

section \<open>The bytes of an integer\<close>

text \<open>The continuation groups, least significant first.\<close>

function group_bytes :: "nat \<Rightarrow> bytes" where
  "group_bytes v = (if v < 128 then [uchar v] else uchar (v mod 128 + 128) # group_bytes (v div 128))"
  by pat_completeness auto

termination
  by (relation "measure id") auto

declare group_bytes.simps [simp del]

lemma group_bytes_nonempty [simp]: "group_bytes v \<noteq> []"
  by (subst group_bytes.simps) simp

lemma qpack_encode_tail_eq:
  "qpack_encode_tail v capacity w =
     (if length w + length (group_bytes v) \<le> capacity then Inr (w @ group_bytes v)
      else Inl STATUS_BUFFER_TOO_SMALL)"
proof (induction v capacity w rule: qpack_encode_tail.induct)
  case (1 v capacity w)
  show ?case
  proof (cases "length w \<ge> capacity \<or> v < 128")
    case True
    then show ?thesis
      using group_bytes_nonempty [of v]
      by (cases "group_bytes v") (auto simp: qpack_encode_tail.simps [of v] group_bytes.simps [of v])
  next
    case False
    have "(v AND 127) OR 128 = v mod 128 + 128"
      by (simp add: and_127_nat or_128_nat)
    with False 1 show ?thesis
      by (simp add: qpack_encode_tail.simps [of v] group_bytes.simps [of v] drop_bit_eq_div)
  qed
qed

lemma group_byte:
  "unat (uchar (v mod 128 + 128)) AND 127 = v mod 128"
  "(unat (uchar (v mod 128 + 128)) AND 128) \<noteq> 0"
proof -
  have "v mod 128 < 128" by simp
  then have u: "unat (uchar (v mod 128 + 128)) = v mod 128 + 128" by (intro unat_uchar_small) linarith
  show "unat (uchar (v mod 128 + 128)) AND 127 = v mod 128"
    unfolding u and_127_nat by simp
  show "(unat (uchar (v mod 128 + 128)) AND 128) \<noteq> 0"
    unfolding u and_128_nat using div_add_self2 [of 128 "v mod 128"] by simp
qed

lemma payload_fits:
  assumes "d + v * 2 ^ s \<le> QpackIntegerMaximum" "p \<le> v"
  shows "p \<le> drop_bit s (QpackIntegerMaximum - d)"
proof -
  have "p * 2 ^ s \<le> v * 2 ^ s" using assms(2) by simp
  then have "p * 2 ^ s \<le> QpackIntegerMaximum - d" using assms(1) by linarith
  then show ?thesis by (simp add: drop_bit_eq_div less_eq_div_iff_mult_less_eq)
qed

lemma qpack_decode_tail_group:
  assumes "d + v * 2 ^ s \<le> QpackIntegerMaximum" "s < 63"
  shows "qpack_decode_tail (group_bytes v @ rest) s d o' = Inr (d + v * 2 ^ s, o' + length (group_bytes v))"
  using assms
proof (induction v arbitrary: s d o' rule: group_bytes.induct)
  case (1 v)
  show ?case
  proof (cases "v < 128")
    case True
    then have "v div 128 = 0" "v mod 128 = v" by simp_all
    then have "unat (uchar v) AND 127 = v" "(unat (uchar v) AND 128) = 0"
      using True by (simp_all add: and_127_nat and_128_nat)
    with True 1(2,3) payload_fits [OF 1(2) order_refl] show ?thesis
      by (simp add: group_bytes.simps [of v] push_bit_eq_mult)
  next
    case False
    have split: "v * 2 ^ s = v mod 128 * 2 ^ s + v div 128 * 2 ^ (s + 7)"
    proof -
      have "v = v div 128 * 128 + v mod 128" by (rule div_mult_mod_eq [symmetric])
      then have "v * 2 ^ s = (v div 128 * 128 + v mod 128) * 2 ^ s" by (rule arg_cong)
      also have "\<dots> = v mod 128 * 2 ^ s + v div 128 * 2 ^ (s + 7)"
        unfolding power_add by (simp only: distrib_right) simp
      finally show ?thesis .
    qed
    have "128 * 2 ^ s \<le> v * 2 ^ s" using False by simp
    moreover have "(2::nat) ^ (s + 7) = 128 * 2 ^ s" by (simp add: power_add)
    ultimately have "(2::nat) ^ (s + 7) \<le> QpackIntegerMaximum" using 1(2) by linarith
    then have "(2::nat) ^ (s + 7) < 2 ^ 62" by (simp add: QpackIntegerMaximum_def)
    then have s: "s + 7 < 62" by (rule power_less_imp_less_exp [rotated]) simp
    have IH: "qpack_decode_tail (group_bytes (v div 128) @ rest) (s + 7) (d + v mod 128 * 2 ^ s) (o' + 1)
        = Inr (d + v mod 128 * 2 ^ s + v div 128 * 2 ^ (s + 7), o' + 1 + length (group_bytes (v div 128)))"
      using 1(1) [OF False, of "d + v mod 128 * 2 ^ s" "s + 7"] 1(2) s split by simp
    have "v mod 128 \<le> drop_bit s (QpackIntegerMaximum - d)"
      by (rule payload_fits [OF 1(2)]) simp
    then show ?thesis
      unfolding group_bytes.simps [of v] split using False IH s group_byte [of v]
      by (simp add: push_bit_eq_mult Let_def)
  qed
qed

section \<open>The prefix\<close>

lemma qpack_prefix_mask_eq: "0 < n \<Longrightarrow> n \<le> 8 \<Longrightarrow> qpack_prefix_mask n = mask n"
  by (auto simp: qpack_prefix_mask_def mask_eq_exp_minus_1 push_bit_eq_mult mask_numeral)

lemma unat_qpack_prefix_mask: "0 < n \<Longrightarrow> n \<le> 8 \<Longrightarrow> unat (qpack_prefix_mask n) = 2 ^ n - 1"
proof -
  assume "0 < n" "n \<le> 8"
  then have "n \<in> {1, 2, 3, 4, 5, 6, 7, 8}" by auto
  then show ?thesis by (elim insertE emptyE) (simp_all add: qpack_prefix_mask_def)
qed

lemma prefix_low_bits: "((p AND NOT m) OR x) AND m = x AND (m :: byte)"
  by (rule bit_word_eqI) (auto simp: bit_simps)

lemma low_bits_value:
  assumes "0 < n" "n \<le> 8" "v \<le> unat (qpack_prefix_mask n)"
  shows "uchar v AND qpack_prefix_mask n = uchar v" "unat (uchar v) = v"
proof -
  have p: "(2::nat) ^ n \<le> 2 ^ 8" using assms(2) by (intro power_increasing) auto
  have v: "v < 2 ^ n" using assms by (simp add: unat_qpack_prefix_mask Suc_le_eq [symmetric] le_diff_conv2)
  then show u: "unat (uchar v) = v" using p by (intro unat_uchar_small) simp
  have "take_bit n (uchar v) = uchar v"
    using v u by (simp add: word_unat_eq_iff unsigned_take_bit_eq take_bit_nat_eq_self)
  then show "uchar v AND qpack_prefix_mask n = uchar v"
    using assms(1,2) by (simp add: qpack_prefix_mask_eq take_bit_eq_mask)
qed

lemma qpack_encode_integer_form:
  assumes "qpack_encode_integer v high0 n capacity = Inr bs"
  shows "0 < n \<and> n \<le> 8 \<and> v \<le> QpackIntegerMaximum \<and> length bs \<le> capacity
    \<and> (let m = qpack_prefix_mask n; h = high0 AND NOT m
       in bs = (if v < unat m then [h OR uchar v] else (h OR m) # group_bytes (v - unat m)))"
  using assms
  by (auto simp: qpack_encode_integer_def qpack_encode_tail_eq Let_def Suc_le_eq split: if_splits)

lemma qpack_integer_decode:
  assumes "qpack_encode_integer v high0 n capacity = Inr bs"
  shows "qpack_decode_integer (bs @ rest) n = Inr (v, length bs)
    \<and> bs ! 0 AND NOT (qpack_prefix_mask n) = high0 AND NOT (qpack_prefix_mask n)"
proof -
  let ?m = "qpack_prefix_mask n" and ?h = "high0 AND NOT (qpack_prefix_mask n)"
  have n: "0 < n" "n \<le> 8" and v: "v \<le> QpackIntegerMaximum"
    and bs: "bs = (if v < unat ?m then [?h OR uchar v] else (?h OR ?m) # group_bytes (v - unat ?m))"
    using qpack_encode_integer_form [OF assms] by (auto simp: Let_def)
  have high: "(?h OR x) AND NOT ?m = ?h" if "x AND ?m = x" for x
  proof -
    have "x AND NOT ?m = 0"
      by (subst that [symmetric]) (simp add: and.assoc)
    then show ?thesis by (simp add: bit.conj_disj_distrib2 and.assoc)
  qed
  show ?thesis
  proof (cases "v < unat ?m")
    case True
    then have "uchar v AND ?m = uchar v" "unat (uchar v) = v"
      using low_bits_value [OF n, of v] by simp_all
    with True n show ?thesis
      by (simp add: bs qpack_decode_integer_def prefix_low_bits high Let_def)
  next
    case False
    then have d: "qpack_decode_tail (group_bytes (v - unat ?m) @ rest) 0 (unat ?m) 1
        = Inr (v, 1 + length (group_bytes (v - unat ?m)))"
      using qpack_decode_tail_group [of "unat ?m" "v - unat ?m" 0 rest 1] v by simp
    from False n d show ?thesis
      by (simp add: bs qpack_decode_integer_def prefix_low_bits high Let_def)
  qed
qed

text \<open>
  What the encoder writes under any prefix bits and any prefix length decodes, whatever follows
  it, to the value that was encoded, using exactly the bytes written; the bits above the prefix
  keep the caller's pattern.
\<close>

theorem qpack_integer_roundtrip:
  assumes "qpack_encode_integer v high0 n capacity = Inr bs"
  shows "qpack_decode_integer (bs @ rest) n = Inr (v, length bs)
    \<and> bs ! 0 AND NOT (qpack_prefix_mask n) = high0 AND NOT (qpack_prefix_mask n)"
  by (rule qpack_integer_decode [OF assms])

theorem qpack_integer_roundtrip_witness:
  "qpack_decode_integer ([0x7f, 0x9a, 0x0a] @ [0xff]) 5 = Inr (1337, 3)"
proof -
  have "qpack_encode_integer 1337 0x60 5 3 = Inr [0x7f, 0x9a, 0x0a]"
    by (simp add: qpack_encode_integer_def qpack_prefix_mask_def QpackIntegerMaximum_def Let_def
        qpack_encode_tail.simps uchar_def)
  from qpack_integer_roundtrip [OF this, of "[0xff]"] show ?thesis by simp
qed

lemma qpack_decode_tail_bounds:
  assumes "qpack_decode_tail bs s d o' = Inr (v, k)" "d \<le> QpackIntegerMaximum"
  shows "v \<le> QpackIntegerMaximum \<and> o' < k \<and> k \<le> o' + length bs \<and> 7 * (k - o') + s \<le> 69"
  using assms
proof (induction bs s d o' rule: qpack_decode_tail.induct)
  case (1 s d o')
  then show ?case by simp
next
  case (2 b bs s d o')
  let ?p = "unat b AND 0x7f"
  from 2(2) have ok: "s < 63" "?p \<le> drop_bit s (QpackIntegerMaximum - d)"
    by (auto simp: Let_def split: if_splits)
  then have "push_bit s ?p \<le> QpackIntegerMaximum - d"
    by (simp add: drop_bit_eq_div push_bit_eq_mult less_eq_div_iff_mult_less_eq)
  then have d: "d + push_bit s ?p \<le> QpackIntegerMaximum" using 2(3) by linarith
  show ?case
  proof (cases "(unat b AND 0x80) = 0")
    case True
    with 2(2) ok d show ?thesis by (auto simp: Let_def)
  next
    case False
    with 2(2) ok have "qpack_decode_tail bs (s + 7) (d + push_bit s ?p) (o' + 1) = Inr (v, k)" "s \<le> 56"
      by (auto simp: Let_def split: if_splits)
    with 2(1) [of ?p "d + push_bit s ?p"] ok d False show ?thesis by auto
  qed
qed

lemma qpack_decode_integer_le:
  assumes "qpack_decode_integer bs n = Inr (v, k)"
  shows "v \<le> QpackIntegerMaximum \<and> 0 < k \<and> k \<le> length bs \<and> k \<le> 10"
proof -
  have n: "0 < n" "n \<le> 8" "bs \<noteq> []" using assms by (auto simp: qpack_decode_integer_def split: if_splits)
  have m: "unat (bs ! 0 AND qpack_prefix_mask n) \<le> QpackIntegerMaximum"
    by (rule order_trans [OF unat_byte_le]) (simp add: QpackIntegerMaximum_def)
  show ?thesis
  proof (cases "unat (bs ! 0 AND qpack_prefix_mask n) < unat (qpack_prefix_mask n)")
    case True
    with assms n m show ?thesis by (auto simp: qpack_decode_integer_def Let_def Suc_le_eq)
  next
    case False
    with assms n have "qpack_decode_tail (drop 1 bs) 0 (unat (bs ! 0 AND qpack_prefix_mask n)) 1 = Inr (v, k)"
      by (simp add: qpack_decode_integer_def Let_def)
    from qpack_decode_tail_bounds [OF this m] n(3) show ?thesis by (cases bs) auto
  qed
qed

text \<open>
  Whatever the bytes, an accepted integer is at most \<open>QpackIntegerMaximum\<close>, took at least one
  and at most ten bytes, all of them present.
\<close>

theorem qpack_decode_integer_bounds:
  assumes "qpack_decode_integer bs n = Inr (v, k)"
  shows "v \<le> QpackIntegerMaximum \<and> 0 < k \<and> k \<le> length bs \<and> k \<le> 10"
  by (rule qpack_decode_integer_le [OF assms])

theorem qpack_decode_integer_bounds_witness:
  "(1337::nat) \<le> QpackIntegerMaximum"
  using qpack_decode_integer_bounds [of "[0x1f, 0x9a, 0x0a]" 5 1337 3]
  by (simp add: qpack_decode_integer_def qpack_prefix_mask_def QpackIntegerMaximum_def Let_def push_bit_eq_mult)

text \<open>With room for ten bytes the encoder always succeeds, so the codec is a prefix code.\<close>

definition qpack_integer :: "byte \<Rightarrow> nat \<Rightarrow> nat \<Rightarrow> bytes" where
  "qpack_integer high0 n v = (case qpack_encode_integer v high0 n 10 of Inl _ \<Rightarrow> [] | Inr bs \<Rightarrow> bs)"

lemma length_group_bytes: "v < 2 ^ (7 * k) \<Longrightarrow> 0 < k \<Longrightarrow> length (group_bytes v) \<le> k"
proof (induction v arbitrary: k rule: group_bytes.induct)
  case (1 v)
  show ?case
  proof (cases "v < 128")
    case True
    with 1(3) show ?thesis by (simp add: group_bytes.simps [of v])
  next
    case False
    obtain j where k: "k = Suc j" using 1(3) by (cases k) auto
    with False 1(2) have "0 < j" by (cases j) auto
    have "v div 128 < 2 ^ (7 * j)"
      using 1(2) unfolding k by (simp add: power_add less_mult_imp_div_less mult.commute)
    with 1(1) [OF False, of j] k \<open>0 < j\<close> False show ?thesis by (simp add: group_bytes.simps [of v])
  qed
qed

lemma qpack_encode_integer_ok:
  assumes "0 < n" "n \<le> 8" "v \<le> QpackIntegerMaximum"
  shows "\<exists>bs. qpack_encode_integer v high0 n 10 = Inr bs \<and> bs \<noteq> []"
proof -
  have "v - unat (qpack_prefix_mask n) < 2 ^ (7 * 9)" using assms(3) by (simp add: QpackIntegerMaximum_def)
  then have "length (group_bytes (v - unat (qpack_prefix_mask n))) \<le> 9" by (rule length_group_bytes) simp
  then show ?thesis using assms by (simp add: qpack_encode_integer_def qpack_encode_tail_eq Let_def)
qed

locale qpack_prefix =
  fixes high0 :: byte and prefixBits :: nat
  assumes prefix_bits: "0 < prefixBits" "prefixBits \<le> 8"

sublocale qpack_prefix \<subseteq> prefix_code "qpack_integer high0 prefixBits" "\<lambda>bs. qpack_decode_integer bs prefixBits"
    "\<lambda>v. v \<le> QpackIntegerMaximum"
proof
  fix v rest
  assume v: "v \<le> QpackIntegerMaximum"
  obtain bs where bs: "qpack_encode_integer v high0 prefixBits 10 = Inr bs" "bs \<noteq> []"
    using qpack_encode_integer_ok [OF prefix_bits v] by auto
  then show "qpack_decode_integer (qpack_integer high0 prefixBits v @ rest) prefixBits
      = Inr (v, length (qpack_integer high0 prefixBits v))"
    using qpack_integer_decode [OF bs(1)] by (simp add: qpack_integer_def)
  show "qpack_integer high0 prefixBits v \<noteq> []" using bs by (simp add: qpack_integer_def)
qed

text \<open>The prefixes of the encoder stream instructions Set Dynamic Table Capacity and Duplicate.\<close>

interpretation set_capacity_code: qpack_prefix "0x20" 5
  by unfold_locales auto

interpretation duplicate_code: qpack_prefix 0 5
  by unfold_locales auto

end
