(* ===== verification/QpackDynamicTable.thy ===== *)
theory QpackDynamicTable
  imports QpackInteger
begin

text \<open>
  The QPACK dynamic table, \<open>src/wknetlib/qpack/QpackDynamicTable.cpp\<close>: a byte buffer and an array
  of entries that point into it, oldest first, with absolute indices, reference counts, eviction
  and compaction. \<open>qt_entries\<close> is the used part \<open>entries_[0 .. entryCount_)\<close>; \<open>qt_data\<close> is the
  buffer of \<open>maximumCapacity_\<close> bytes (empty when not allocated). The lemmas refine it to the list
  of the fields it holds: which inserts succeed, which entries they evict, and that a lookup by
  absolute index returns the very field that was inserted under it or reports that it is gone.
\<close>

definition QpackEntryOverhead :: nat where
  "QpackEntryOverhead = 32"

definition WKNET_HARD_MAX_QPACK_DYNAMIC_TABLE_BYTES :: nat where
  "WKNET_HARD_MAX_QPACK_DYNAMIC_TABLE_BYTES = 64 * 1024"

record qpack_entry =
  qe_name_offset :: nat
  qe_name_length :: nat
  qe_value_offset :: nat
  qe_value_length :: nat
  qe_size :: nat
  qe_index :: nat
  qe_references :: nat

record qpack_table =
  qt_data :: bytes
  qt_maximum :: nat
  qt_capacity :: nat
  qt_size :: nat
  qt_used :: nat
  qt_entry_capacity :: nat
  qt_entries :: "qpack_entry list"
  qt_insert_count :: nat

section \<open>Operations\<close>

definition qt_reset :: qpack_table where
  "qt_reset = \<lparr>qt_data = [], qt_maximum = 0, qt_capacity = 0, qt_size = 0, qt_used = 0,
     qt_entry_capacity = 0, qt_entries = [], qt_insert_count = 0\<rparr>"

text \<open>The two flags are the outcomes of the two allocations; \<open>sizeof(Entry)\<close> is 56.\<close>

definition qt_initialize :: "bool \<Rightarrow> bool \<Rightarrow> nat \<Rightarrow> nat \<Rightarrow> ntstatus \<times> qpack_table" where
  "qt_initialize data_ok entries_ok maximumCapacity initialCapacity =
     (if maximumCapacity > WKNET_HARD_MAX_QPACK_DYNAMIC_TABLE_BYTES \<or> initialCapacity > maximumCapacity
      then (STATUS_INVALID_PARAMETER, qt_reset)
      else let t = qt_reset\<lparr>qt_maximum := maximumCapacity, qt_capacity := initialCapacity\<rparr>
        in if maximumCapacity = 0 then (STATUS_SUCCESS, t)
           else if \<not> data_ok then (STATUS_INSUFFICIENT_RESOURCES, qt_reset)
           else let count = (if maximumCapacity div QpackEntryOverhead = 0 then 1
                             else maximumCapacity div QpackEntryOverhead)
             in if count > u64_max div 56 then (STATUS_INTEGER_OVERFLOW, qt_reset)
                else if \<not> entries_ok then (STATUS_INSUFFICIENT_RESOURCES, qt_reset)
                else (STATUS_SUCCESS, t\<lparr>qt_data := replicate maximumCapacity 0, qt_entry_capacity := count\<rparr>))"

fun qt_validate_loop :: "qpack_entry list \<Rightarrow> nat \<Rightarrow> nat \<Rightarrow> ntstatus" where
  "qt_validate_loop [] simulated target =
     (if simulated \<le> target then STATUS_SUCCESS else STATUS_INSUFFICIENT_RESOURCES)"
| "qt_validate_loop (e # es) simulated target =
     (if simulated > target
      then if qe_references e \<noteq> 0 then STATUS_DEVICE_BUSY
           else qt_validate_loop es (sub64 simulated (qe_size e)) target
      else STATUS_SUCCESS)"

definition qt_validate_eviction :: "nat \<Rightarrow> qpack_table \<Rightarrow> ntstatus" where
  "qt_validate_eviction target t = qt_validate_loop (qt_entries t) (qt_size t) target"

definition qt_evict_oldest :: "qpack_table \<Rightarrow> qpack_table" where
  "qt_evict_oldest t =
     (case qt_entries t of
        [] \<Rightarrow> t
      | oldest # rest \<Rightarrow>
          let n = qe_name_length oldest + qe_value_length oldest
          in t\<lparr>qt_size := sub64 (qt_size t) (qe_size oldest),
               qt_data := (if n \<noteq> 0 then copy_at (qt_data t) (qe_name_offset oldest) (replicate n 0) else qt_data t),
               qt_entries := rest\<rparr>)"

function qt_evict_until :: "nat \<Rightarrow> qpack_table \<Rightarrow> qpack_table" where
  "qt_evict_until target t =
     (if qt_size t > target \<and> qt_entries t \<noteq> [] then qt_evict_until target (qt_evict_oldest t) else t)"
  by pat_completeness auto

termination
  by (relation "measure (\<lambda>(target, t). length (qt_entries t))")
     (auto simp: qt_evict_oldest_def Let_def neq_Nil_conv)

declare qt_evict_until.simps [simp del]

fun qt_compact_loop :: "qpack_entry list \<Rightarrow> nat \<Rightarrow> bytes \<Rightarrow> qpack_entry list \<times> nat \<times> bytes" where
  "qt_compact_loop [] writeOffset data = ([], writeOffset, data)"
| "qt_compact_loop (e # es) writeOffset data =
     (let n = qe_name_length e + qe_value_length e;
          data1 = (if n \<noteq> 0 \<and> qe_name_offset e \<noteq> writeOffset
                   then copy_at data writeOffset (view data (qe_name_offset e) n) else data);
          e1 = e\<lparr>qe_name_offset := writeOffset, qe_value_offset := writeOffset + qe_name_length e\<rparr>;
          (es1, w, data2) = qt_compact_loop es (writeOffset + qe_name_length e + qe_value_length e) data1
      in (e1 # es1, w, data2))"

definition qt_compact :: "qpack_table \<Rightarrow> qpack_table" where
  "qt_compact t =
     (let (es, w, data) = qt_compact_loop (qt_entries t) 0 (qt_data t)
      in t\<lparr>qt_entries := es, qt_used := w,
           qt_data := (if qt_used t > w then copy_at data w (replicate (qt_used t - w) 0) else data)\<rparr>)"

definition qt_set_capacity :: "nat \<Rightarrow> qpack_table \<Rightarrow> ntstatus \<times> qpack_table" where
  "qt_set_capacity capacity t =
     (if capacity > qt_maximum t then (STATUS_INVALID_PARAMETER, t)
      else let st = qt_validate_eviction capacity t
        in if st \<noteq> STATUS_SUCCESS then (st, t)
           else (STATUS_SUCCESS, (qt_compact (qt_evict_until capacity t))\<lparr>qt_capacity := capacity\<rparr>))"

text \<open>The last part of \<open>Insert\<close>, once there is room; the second component is \<open>*absoluteIndex\<close>.\<close>

definition qt_append :: "bytes \<Rightarrow> bytes \<Rightarrow> qpack_table \<Rightarrow> ntstatus \<times> nat \<times> qpack_table" where
  "qt_append name value t =
     (if length (qt_entries t) \<ge> qt_entry_capacity t then (STATUS_INSUFFICIENT_RESOURCES, 0, t)
      else if qt_used t > qt_maximum t \<or> length name + length value > qt_maximum t - qt_used t
      then (STATUS_INSUFFICIENT_RESOURCES, 0, t)
      else let u1 = qt_used t + length name; size = length name + length value + QpackEntryOverhead
        in (STATUS_SUCCESS, qt_insert_count t,
            t\<lparr>qt_data := copy_at (copy_at (qt_data t) (qt_used t) name) u1 value,
              qt_used := u1 + length value,
              qt_entries := qt_entries t @ [\<lparr>qe_name_offset = qt_used t, qe_name_length = length name,
                 qe_value_offset = u1, qe_value_length = length value, qe_size = size,
                 qe_index = qt_insert_count t, qe_references = 0\<rparr>],
              qt_insert_count := qt_insert_count t + 1,
              qt_size := w64 (qt_size t + size)\<rparr>))"

definition qt_insert :: "bytes \<Rightarrow> bytes \<Rightarrow> qpack_table \<Rightarrow> ntstatus \<times> nat \<times> qpack_table" where
  "qt_insert name value t =
     (if length name > u64_max - length value \<or> length name + length value > u64_max - QpackEntryOverhead
      then (STATUS_INTEGER_OVERFLOW, 0, t)
      else let entrySize = length name + length value + QpackEntryOverhead
        in if entrySize > qt_capacity t \<or> qt_insert_count t = QpackIntegerMaximum
           then (STATUS_INSUFFICIENT_RESOURCES, 0, t)
           else let target = qt_capacity t - entrySize; st = qt_validate_eviction target t
             in if st \<noteq> STATUS_SUCCESS then (st, 0, t)
                else qt_append name value (qt_compact (qt_evict_until target t)))"

definition qt_find_entry :: "nat \<Rightarrow> qpack_table \<Rightarrow> qpack_entry option" where
  "qt_find_entry i t = find (\<lambda>e. qe_index e = i) (qt_entries t)"

definition qt_lookup_absolute :: "nat \<Rightarrow> qpack_table \<Rightarrow> (bytes \<times> bytes \<times> nat) result" where
  "qt_lookup_absolute i t =
     (case qt_find_entry i t of
        None \<Rightarrow> Inl STATUS_NOT_FOUND
      | Some e \<Rightarrow> Inr (view (qt_data t) (qe_name_offset e) (qe_name_length e),
                       view (qt_data t) (qe_value_offset e) (qe_value_length e), qe_index e))"

definition qt_lookup_relative :: "nat \<Rightarrow> nat \<Rightarrow> qpack_table \<Rightarrow> (bytes \<times> bytes \<times> nat) result" where
  "qt_lookup_relative base relativeIndex t =
     (if base = 0 \<or> relativeIndex \<ge> base then Inl STATUS_NOT_FOUND
      else qt_lookup_absolute (base - relativeIndex - 1) t)"

definition qt_lookup_post_base :: "nat \<Rightarrow> nat \<Rightarrow> qpack_table \<Rightarrow> (bytes \<times> bytes \<times> nat) result" where
  "qt_lookup_post_base base postBaseIndex t =
     (if base > sub64 QpackIntegerMaximum postBaseIndex then Inl STATUS_INTEGER_OVERFLOW
      else qt_lookup_absolute (w64 (base + postBaseIndex)) t)"

definition qt_duplicate_relative ::
    "bool \<Rightarrow> nat \<Rightarrow> qpack_table \<Rightarrow> ntstatus \<times> nat \<times> qpack_table" where
  "qt_duplicate_relative alloc_ok relativeIndex t =
     (case qt_lookup_relative (qt_insert_count t) relativeIndex t of
        Inl e \<Rightarrow> (e, 0, t)
      | Inr (name, value, _) \<Rightarrow>
          if length name > u64_max - length value then (STATUS_INTEGER_OVERFLOW, 0, t)
          else if length name + length value \<noteq> 0 \<and> \<not> alloc_ok then (STATUS_INSUFFICIENT_RESOURCES, 0, t)
          else qt_insert name value t)"

text \<open>The searches run from the newest entry to the oldest.\<close>

definition qt_find_exact :: "bytes \<Rightarrow> bytes \<Rightarrow> qpack_table \<Rightarrow> nat result" where
  "qt_find_exact name value t =
     (case find (\<lambda>e. qe_name_length e = length name \<and> qe_value_length e = length value
                   \<and> view (qt_data t) (qe_name_offset e) (length name) = name
                   \<and> view (qt_data t) (qe_value_offset e) (length value) = value) (rev (qt_entries t)) of
        None \<Rightarrow> Inl STATUS_NOT_FOUND
      | Some e \<Rightarrow> Inr (qe_index e))"

definition qt_find_name :: "bytes \<Rightarrow> qpack_table \<Rightarrow> nat result" where
  "qt_find_name name t =
     (case find (\<lambda>e. qe_name_length e = length name
                   \<and> view (qt_data t) (qe_name_offset e) (length name) = name) (rev (qt_entries t)) of
        None \<Rightarrow> Inl STATUS_NOT_FOUND
      | Some e \<Rightarrow> Inr (qe_index e))"

fun qt_update_entry :: "nat \<Rightarrow> (qpack_entry \<Rightarrow> qpack_entry) \<Rightarrow> qpack_entry list \<Rightarrow> qpack_entry list" where
  "qt_update_entry i f [] = []"
| "qt_update_entry i f (e # es) = (if qe_index e = i then f e # es else e # qt_update_entry i f es)"

definition qt_add_reference :: "nat \<Rightarrow> qpack_table \<Rightarrow> ntstatus \<times> qpack_table" where
  "qt_add_reference i t =
     (case qt_find_entry i t of
        None \<Rightarrow> (STATUS_NOT_FOUND, t)
      | Some e \<Rightarrow>
          if qe_references e = u32_max then (STATUS_INTEGER_OVERFLOW, t)
          else (STATUS_SUCCESS, t\<lparr>qt_entries :=
                  qt_update_entry i (\<lambda>e. e\<lparr>qe_references := qe_references e + 1\<rparr>) (qt_entries t)\<rparr>))"

definition qt_release_reference :: "nat \<Rightarrow> qpack_table \<Rightarrow> ntstatus \<times> qpack_table" where
  "qt_release_reference i t =
     (case qt_find_entry i t of
        None \<Rightarrow> (STATUS_NOT_FOUND, t)
      | Some e \<Rightarrow>
          if qe_references e = 0 then (STATUS_INVALID_PARAMETER, t)
          else (STATUS_SUCCESS, t\<lparr>qt_entries :=
                  qt_update_entry i (\<lambda>e. e\<lparr>qe_references := qe_references e - 1\<rparr>) (qt_entries t)\<rparr>))"

section \<open>The fields a table holds\<close>

definition qe_field :: "bytes \<Rightarrow> qpack_entry \<Rightarrow> bytes \<times> bytes" where
  "qe_field data e = (view data (qe_name_offset e) (qe_name_length e), view data (qe_value_offset e) (qe_value_length e))"

definition qt_fields :: "qpack_table \<Rightarrow> (bytes \<times> bytes) list" where
  "qt_fields t = map (qe_field (qt_data t)) (qt_entries t)"

definition field_size :: "bytes \<times> bytes \<Rightarrow> nat" where
  "field_size f = length (fst f) + length (snd f) + QpackEntryOverhead"

definition qe_stop :: "qpack_entry \<Rightarrow> nat" where
  "qe_stop e = qe_name_offset e + qe_name_length e + qe_value_length e"

text \<open>Entries lie one after the other from \<open>w\<close> on, each its name and then its value.\<close>

fun qe_layout :: "nat \<Rightarrow> qpack_entry list \<Rightarrow> nat \<Rightarrow> bool" where
  "qe_layout w [] used = (w \<le> used)"
| "qe_layout w (e # es) used =
     (w \<le> qe_name_offset e \<and> qe_value_offset e = qe_name_offset e + qe_name_length e
      \<and> qe_size e = qe_name_length e + qe_value_length e + QpackEntryOverhead
      \<and> qe_layout (qe_stop e) es used)"

fun qe_numbered :: "nat \<Rightarrow> qpack_entry list \<Rightarrow> bool" where
  "qe_numbered i [] = True"
| "qe_numbered i (e # es) = (qe_index e = i \<and> qe_numbered (Suc i) es)"

definition qt_inv :: "qpack_table \<Rightarrow> bool" where
  "qt_inv t \<longleftrightarrow> length (qt_data t) = qt_maximum t \<and> qt_capacity t \<le> qt_maximum t
     \<and> qt_maximum t \<le> WKNET_HARD_MAX_QPACK_DYNAMIC_TABLE_BYTES
     \<and> qt_maximum t div QpackEntryOverhead \<le> qt_entry_capacity t
     \<and> qe_layout 0 (qt_entries t) (qt_used t) \<and> qt_used t \<le> qt_maximum t
     \<and> qt_size t = sum_list (map qe_size (qt_entries t)) \<and> qt_size t \<le> qt_capacity t
     \<and> length (qt_entries t) \<le> qt_insert_count t \<and> qt_insert_count t \<le> QpackIntegerMaximum
     \<and> qe_numbered (qt_insert_count t - length (qt_entries t)) (qt_entries t)"

lemma qt_inv_initialize: "qt_initialize d e m c = (st, t) \<Longrightarrow> qt_inv t"
  by (auto simp: qt_initialize_def qt_inv_def qt_reset_def QpackEntryOverhead_def
      QpackIntegerMaximum_def Let_def split: if_splits)

section \<open>Compaction\<close>

lemma qe_layout_weaken: "qe_layout w' es used \<Longrightarrow> w \<le> w' \<Longrightarrow> qe_layout w es used"
  by (cases es) auto

lemma qe_layout_start: "qe_layout w es used \<Longrightarrow> w \<le> used"
  by (induction es arbitrary: w) (auto simp: qe_stop_def, fastforce)

lemma qe_layout_entry:
  assumes "qe_layout w es used" "e \<in> set es"
  shows "w \<le> qe_name_offset e" "qe_value_offset e = qe_name_offset e + qe_name_length e" "qe_stop e \<le> used"
    "qe_size e = qe_name_length e + qe_value_length e + QpackEntryOverhead"
proof -
  have "w \<le> qe_name_offset e \<and> qe_value_offset e = qe_name_offset e + qe_name_length e \<and> qe_stop e \<le> used
      \<and> qe_size e = qe_name_length e + qe_value_length e + QpackEntryOverhead"
    using assms
  proof (induction es arbitrary: w)
    case Nil
    then show ?case by simp
  next
    case (Cons a es)
    then have l: "qe_layout (qe_stop a) es used" by simp
    show ?case
    proof (cases "e = a")
      case True
      with Cons.prems qe_layout_start [OF l] show ?thesis by simp
    next
      case False
      with Cons.prems have "e \<in> set es" by simp
      from Cons.IH [OF l this] Cons.prems(1) show ?thesis by (simp add: qe_stop_def)
    qed
  qed
  then show "w \<le> qe_name_offset e" "qe_value_offset e = qe_name_offset e + qe_name_length e" "qe_stop e \<le> used"
    "qe_size e = qe_name_length e + qe_value_length e + QpackEntryOverhead" by simp_all
qed

lemma view_add: "view d off (a + b) = view d off a @ view d (off + a) b"
  by (simp add: view_def take_add add.commute)

lemma view_add_eq:
  assumes "view d off (a + b) = view d' off' (a + b)" "off + a + b \<le> length d" "off' + a + b \<le> length d'"
  shows "view d off a = view d' off' a" "view d (off + a) b = view d' (off' + a) b"
proof -
  have "view d off a @ view d (off + a) b = view d' off' a @ view d' (off' + a) b"
    using assms(1) by (simp only: view_add)
  moreover have "length (view d off a) = length (view d' off' a)"
    using assms(2,3) by (simp add: view_def)
  ultimately show "view d off a = view d' off' a" "view d (off + a) b = view d' (off' + a) b"
    by simp_all
qed

lemma qe_field_apart:
  assumes "pos + length src \<le> length data" "pos + length src \<le> qe_name_offset e"
    and "qe_value_offset e = qe_name_offset e + qe_name_length e" "qe_stop e \<le> length data"
  shows "qe_field (copy_at data pos src) e = qe_field data e"
  using assms by (simp add: qe_field_def qe_stop_def view_copy_at_apart)

text \<open>Moving the entries down keeps every field, the order, the sizes, indices and references.\<close>

definition same_entries :: "qpack_entry list \<Rightarrow> qpack_entry list \<Rightarrow> bool" where
  "same_entries es' es \<longleftrightarrow> map qe_size es' = map qe_size es \<and> map qe_index es' = map qe_index es
     \<and> map qe_references es' = map qe_references es"

lemma qt_compact_loop_spec:
  assumes "qe_layout w es used" "used \<le> length data" "qt_compact_loop es w data = (es', w', data')"
  shows "length data' = length data \<and> map (qe_field data') es' = map (qe_field data) es
    \<and> qe_layout w es' w' \<and> same_entries es' es \<and> w' \<le> used
    \<and> w' = w + sum_list (map (\<lambda>e. qe_name_length e + qe_value_length e) es)
    \<and> (\<forall>off n. off + n \<le> w \<longrightarrow> view data' off n = view data off n)"
  using assms
proof (induction es arbitrary: w data es')
  case Nil
  then show ?case by (simp add: same_entries_def)
next
  case (Cons e es)
  define n where "n = qe_name_length e + qe_value_length e"
  define data1 where "data1 = (if n \<noteq> 0 \<and> qe_name_offset e \<noteq> w then copy_at data w (view data (qe_name_offset e) n) else data)"
  define e1 where "e1 = e\<lparr>qe_name_offset := w, qe_value_offset := w + qe_name_length e\<rparr>"
  have step: "qt_compact_loop (e # es) w data =
      (let (es1, w1, data2) = qt_compact_loop es (w + n) data1 in (e1 # es1, w1, data2))"
    by (simp add: n_def data1_def e1_def Let_def add.assoc)
  obtain es1 where r: "qt_compact_loop es (w + n) data1 = (es1, w', data')" and es': "es' = e1 # es1"
    using Cons.prems(3) unfolding step by (auto split: prod.splits)
  have w: "w \<le> qe_name_offset e" "qe_value_offset e = qe_name_offset e + qe_name_length e"
    and l: "qe_layout (qe_stop e) es used" and stop: "qe_stop e = qe_name_offset e + n"
    and sz: "qe_size e = n + QpackEntryOverhead"
    using Cons.prems(1) by (simp_all add: qe_stop_def n_def)
  have fits: "qe_stop e \<le> used" by (rule qe_layout_start [OF l])
  have lv: "length (view data (qe_name_offset e) n) = n"
    using fits stop Cons.prems(2) by (simp add: view_def)
  have len1: "length data1 = length data"
    using fits stop w Cons.prems(2) lv by (simp add: data1_def)
  have moved: "view data1 w n = view data (qe_name_offset e) n"
    using fits stop w Cons.prems(2) lv view_copy_at [of w "view data (qe_name_offset e) n" data]
    by (cases "n = 0") (auto simp: data1_def)
  have below: "view data1 off m = view data off m" if "off + m \<le> w" for off m
    using that fits stop w Cons.prems(2) lv by (auto simp: data1_def intro: view_copy_at_apart)
  have above: "qe_field data1 e' = qe_field data e'" if "e' \<in> set es" for e'
    using qe_layout_entry [OF l that] w fits stop Cons.prems(2) lv
    by (auto simp: data1_def intro!: qe_field_apart)
  have lay: "qe_layout (w + n) es used"
    using qe_layout_weaken [OF l] w stop by simp
  have "used \<le> length data1" using Cons.prems(2) len1 by simp
  note IHs = Cons.IH [OF lay this r]
  have IH: "length data' = length data1" "map (qe_field data') es1 = map (qe_field data1) es"
    "qe_layout (w + n) es1 w'" "same_entries es1 es" "w' \<le> used"
    "w' = w + n + sum_list (map (\<lambda>e. qe_name_length e + qe_value_length e) es)"
    "\<forall>off m. off + m \<le> w + n \<longrightarrow> view data' off m = view data1 off m"
    using IHs by blast+
  have split1: "view data1 w (qe_name_length e) = view data (qe_name_offset e) (qe_name_length e)"
    "view data1 (w + qe_name_length e) (qe_value_length e)
       = view data (qe_name_offset e + qe_name_length e) (qe_value_length e)"
    using view_add_eq [of data1 w "qe_name_length e" "qe_value_length e" data "qe_name_offset e"]
      moved len1 fits stop w Cons.prems(2) by (simp_all add: n_def)
  have "qe_field data' e1 = qe_field data e"
    using split1 IH(7) w by (simp add: qe_field_def e1_def n_def)
  moreover have "map (qe_field data1) es = map (qe_field data) es" using above by simp
  ultimately have fields: "map (qe_field data') es' = map (qe_field data) (e # es)"
    using IH(2) es' by simp
  have "qe_stop e1 = w + n" by (simp add: e1_def qe_stop_def n_def)
  then have layout: "qe_layout w es' w'"
    using IH(3) sz by (simp add: es' e1_def n_def)
  have same: "same_entries es' (e # es)"
    using IH(4) by (simp add: same_entries_def es' e1_def)
  have w': "w' = w + sum_list (map (\<lambda>e. qe_name_length e + qe_value_length e) (e # es))"
    using IH(6) by (simp add: n_def)
  have views: "\<forall>off m. off + m \<le> w \<longrightarrow> view data' off m = view data off m"
    using IH(7) below by simp
  show ?case using fields layout same w' views IH(1,5) len1 by simp
qed

lemma qe_numbered_map: "map qe_index es' = map qe_index es \<Longrightarrow> qe_numbered i es' = qe_numbered i es"
proof (induction es arbitrary: es' i)
  case Nil
  then show ?case by simp
next
  case (Cons e es)
  then obtain e' es1 where "es' = e' # es1" "qe_index e' = qe_index e" "map qe_index es1 = map qe_index es"
    by (cases es') auto
  with Cons.IH [of es1 "Suc i"] show ?case by simp
qed

lemma same_entries_length: "same_entries es' es \<Longrightarrow> length es' = length es"
  by (auto simp: same_entries_def dest: map_eq_imp_length_eq)

lemma qt_compact_spec:
  assumes "qt_inv t"
  shows "qt_inv (qt_compact t) \<and> qt_fields (qt_compact t) = qt_fields t
    \<and> same_entries (qt_entries (qt_compact t)) (qt_entries t)
    \<and> qt_used (qt_compact t) = sum_list (map (\<lambda>e. qe_name_length e + qe_value_length e) (qt_entries t))
    \<and> qt_maximum (qt_compact t) = qt_maximum t \<and> qt_capacity (qt_compact t) = qt_capacity t
    \<and> qt_size (qt_compact t) = qt_size t \<and> qt_insert_count (qt_compact t) = qt_insert_count t
    \<and> qt_entry_capacity (qt_compact t) = qt_entry_capacity t"
proof -
  obtain es w data where c: "qt_compact_loop (qt_entries t) 0 (qt_data t) = (es, w, data)"
    by (cases "qt_compact_loop (qt_entries t) 0 (qt_data t)") auto
  have l: "qe_layout 0 (qt_entries t) (qt_used t)" "qt_used t \<le> length (qt_data t)"
    using assms by (auto simp: qt_inv_def)
  have spec: "length data = length (qt_data t)" "map (qe_field data) es = qt_fields t" "qe_layout 0 es w"
    "same_entries es (qt_entries t)" "w \<le> qt_used t"
    "w = 0 + sum_list (map (\<lambda>e. qe_name_length e + qe_value_length e) (qt_entries t))"
    using qt_compact_loop_spec [OF l c] unfolding qt_fields_def by blast+
  define data1 where "data1 = (if qt_used t > w then copy_at data w (replicate (qt_used t - w) 0) else data)"
  have t': "qt_compact t = t\<lparr>qt_entries := es, qt_used := w, qt_data := data1\<rparr>"
    by (simp add: qt_compact_def c data1_def)
  have len: "length data1 = length (qt_data t)"
    using spec(1,5) l(2) by (simp add: data1_def)
  have "qe_field data1 e = qe_field data e" if "e \<in> set es" for e
    using qe_layout_entry [OF spec(3) that] spec(1,5) l(2)
    by (auto simp: data1_def qe_field_def qe_stop_def intro: view_copy_at_apart)
  then have "map (qe_field data1) es = qt_fields t" using spec(2) by (metis map_cong)
  moreover have "map qe_size es = map qe_size (qt_entries t)" "length es = length (qt_entries t)"
    "qe_numbered i es = qe_numbered i (qt_entries t)" for i
    using spec(4) same_entries_length [OF spec(4)] qe_numbered_map [of es "qt_entries t" i]
    by (simp_all add: same_entries_def)
  ultimately show ?thesis
    using assms spec len by (simp add: t' qt_inv_def qt_fields_def)
qed

section \<open>Eviction\<close>

text \<open>Eviction on an abstract queue: drop the oldest elements while the total exceeds the target.\<close>

fun fifo_drop :: "('a \<Rightarrow> nat) \<Rightarrow> nat \<Rightarrow> 'a list \<Rightarrow> 'a list" where
  "fifo_drop weight target [] = []"
| "fifo_drop weight target (x # xs) =
     (if sum_list (map weight (x # xs)) \<le> target then x # xs else fifo_drop weight target xs)"

definition fifo_evicted :: "('a \<Rightarrow> nat) \<Rightarrow> nat \<Rightarrow> 'a list \<Rightarrow> 'a list" where
  "fifo_evicted weight target xs = take (length xs - length (fifo_drop weight target xs)) xs"

lemma fifo_drop_suffix: "\<exists>k \<le> length xs. fifo_drop weight target xs = drop k xs"
proof (induction xs)
  case Nil
  then show ?case by simp
next
  case (Cons x xs)
  then obtain k where "k \<le> length xs" "fifo_drop weight target xs = drop k xs" by blast
  then show ?case
    by (cases "sum_list (map weight (x # xs)) \<le> target") (auto intro: exI [of _ 0] exI [of _ "Suc k"])
qed

lemma fifo_drop_length: "length (fifo_drop weight target xs) \<le> length xs"
  by (induction xs) auto

lemma fifo_drop_total: "sum_list (map weight (fifo_drop weight target xs)) \<le> target"
  by (induction xs) auto

lemma fifo_drop_id: "sum_list (map weight xs) \<le> target \<Longrightarrow> fifo_drop weight target xs = xs"
  by (cases xs) auto

lemma fifo_drop_map: "(\<And>x. x \<in> set xs \<Longrightarrow> weight' (f x) = weight x) \<Longrightarrow>
    fifo_drop weight' target (map f xs) = map f (fifo_drop weight target xs)"
proof (induction xs)
  case (Cons x xs)
  then have "sum_list (map (weight' \<circ> f) xs) = sum_list (map weight xs)"
    by (intro arg_cong [of _ _ sum_list] map_cong) auto
  with Cons show ?case by simp
qed simp

lemma fifo_evicted_Cons:
  "fifo_evicted weight target (x # xs) =
     (if sum_list (map weight (x # xs)) \<le> target then [] else x # fifo_evicted weight target xs)"
  using fifo_drop_length [of weight target xs] by (simp add: fifo_evicted_def Suc_diff_le)

lemma fifo_evicted_Nil [simp]: "fifo_evicted weight target [] = []"
  by (simp add: fifo_evicted_def)

lemma fifo_evicted_append: "fifo_evicted weight target xs @ fifo_drop weight target xs = xs"
proof -
  obtain k where "k \<le> length xs" "fifo_drop weight target xs = drop k xs" using fifo_drop_suffix by blast
  then show ?thesis by (simp add: fifo_evicted_def)
qed

lemma qt_inv_size_u64: "qt_inv t \<Longrightarrow> qt_size t \<le> u64_max"
  by (simp add: qt_inv_def u64_max_def WKNET_HARD_MAX_QPACK_DYNAMIC_TABLE_BYTES_def)

text \<open>The simulation refuses exactly when an entry that would go is referenced.\<close>

lemma qt_validate_loop_eq:
  assumes "simulated = sum_list (map qe_size es)" "simulated \<le> u64_max"
  shows "qt_validate_loop es simulated target =
    (if \<exists>e \<in> set (fifo_evicted qe_size target es). qe_references e \<noteq> 0 then STATUS_DEVICE_BUSY
     else STATUS_SUCCESS)"
  using assms
proof (induction es arbitrary: simulated)
  case Nil
  then show ?case by simp
next
  case (Cons e es)
  have "sub64 simulated (qe_size e) = sum_list (map qe_size es)"
    using Cons.prems by (simp add: sub64_id)
  with Cons.IH [of "sum_list (map qe_size es)"] Cons.prems show ?case
    by (auto simp: fifo_evicted_Cons)
qed

lemma qt_evict_oldest_inv:
  assumes "qt_inv t" "qt_entries t = e # es"
  shows "qt_inv (qt_evict_oldest t)" "qt_entries (qt_evict_oldest t) = es"
    "qt_fields t = qe_field (qt_data t) e # qt_fields (qt_evict_oldest t)"
    "qt_maximum (qt_evict_oldest t) = qt_maximum t" "qt_capacity (qt_evict_oldest t) = qt_capacity t"
    "qt_insert_count (qt_evict_oldest t) = qt_insert_count t"
    "qt_entry_capacity (qt_evict_oldest t) = qt_entry_capacity t"
    "qt_size (qt_evict_oldest t) = sum_list (map qe_size es)"
proof -
  define n where "n = qe_name_length e + qe_value_length e"
  define data where "data = (if n \<noteq> 0 then copy_at (qt_data t) (qe_name_offset e) (replicate n 0) else qt_data t)"
  have lay: "qe_layout 0 (e # es) (qt_used t)" and used: "qt_used t \<le> length (qt_data t)"
    and size: "qt_size t = qe_size e + sum_list (map qe_size es)"
    using assms by (auto simp: qt_inv_def)
  then have l: "qe_layout (qe_stop e) es (qt_used t)" by simp
  have fits: "qe_name_offset e + n \<le> length (qt_data t)"
    using qe_layout_start [OF l] used by (simp add: qe_stop_def n_def)
  then have len: "length data = length (qt_data t)" by (simp add: data_def)
  have sz: "sub64 (qt_size t) (qe_size e) = sum_list (map qe_size es)"
    using size qt_inv_size_u64 [OF assms(1)] by (simp add: sub64_id)
  have t': "qt_evict_oldest t = t\<lparr>qt_size := sum_list (map qe_size es), qt_data := data, qt_entries := es\<rparr>"
    using sz by (simp add: qt_evict_oldest_def assms(2) data_def n_def)
  have keep: "qe_field data e' = qe_field (qt_data t) e'" if "e' \<in> set es" for e'
    using qe_layout_entry [OF l that] fits used
    by (auto simp: data_def qe_stop_def n_def intro!: qe_field_apart)
  show "qt_inv (qt_evict_oldest t)"
    using assms len size l by (auto simp: t' qt_inv_def Suc_diff_Suc intro: qe_layout_weaken)
  show "qt_fields t = qe_field (qt_data t) e # qt_fields (qt_evict_oldest t)"
    using keep by (simp add: t' qt_fields_def assms(2))
  show "qt_entries (qt_evict_oldest t) = es" "qt_maximum (qt_evict_oldest t) = qt_maximum t"
    "qt_capacity (qt_evict_oldest t) = qt_capacity t"
    "qt_insert_count (qt_evict_oldest t) = qt_insert_count t"
    "qt_entry_capacity (qt_evict_oldest t) = qt_entry_capacity t"
    "qt_size (qt_evict_oldest t) = sum_list (map qe_size es)"
    by (simp_all add: t')
qed

lemma qt_total_size:
  assumes "qt_inv t"
  shows "sum_list (map field_size (qt_fields t)) = qt_size t"
proof -
  have l: "qe_layout 0 (qt_entries t) (qt_used t)" "qt_used t \<le> length (qt_data t)"
    and size: "qt_size t = sum_list (map qe_size (qt_entries t))"
    using assms by (auto simp: qt_inv_def)
  have "field_size (qe_field (qt_data t) e) = qe_size e" if "e \<in> set (qt_entries t)" for e
    using qe_layout_entry [OF l(1) that] l(2)
    by (simp add: qe_field_def field_size_def view_def qe_stop_def)
  then show ?thesis
    unfolding qt_fields_def map_map size by (intro arg_cong [of _ _ sum_list] map_cong) auto
qed

lemma qt_evict_until_inv:
  assumes "qt_inv t"
  shows "qt_inv (qt_evict_until target t)
    \<and> qt_entries (qt_evict_until target t) = fifo_drop qe_size target (qt_entries t)
    \<and> qt_fields (qt_evict_until target t) = fifo_drop field_size target (qt_fields t)
    \<and> qt_size (qt_evict_until target t) \<le> target
    \<and> qt_maximum (qt_evict_until target t) = qt_maximum t
    \<and> qt_capacity (qt_evict_until target t) = qt_capacity t
    \<and> qt_insert_count (qt_evict_until target t) = qt_insert_count t
    \<and> qt_entry_capacity (qt_evict_until target t) = qt_entry_capacity t"
  using assms
proof (induction target t rule: qt_evict_until.induct)
  case (1 target t)
  have size: "qt_size t = sum_list (map qe_size (qt_entries t))" using 1(2) by (simp add: qt_inv_def)
  have total: "sum_list (map field_size (qt_fields t)) = qt_size t" by (rule qt_total_size [OF 1(2)])
  show ?case
  proof (cases "qt_size t > target \<and> qt_entries t \<noteq> []")
    case False
    then have "qt_evict_until target t = t" by (subst qt_evict_until.simps) auto
    moreover have le: "qt_size t \<le> target" using False size by auto
    moreover have "fifo_drop qe_size target (qt_entries t) = qt_entries t"
      by (rule fifo_drop_id) (use size le in linarith)
    moreover have "fifo_drop field_size target (qt_fields t) = qt_fields t"
      by (rule fifo_drop_id) (use total le in linarith)
    ultimately show ?thesis using 1(2) by simp
  next
    case True
    then obtain e es where es: "qt_entries t = e # es" by (cases "qt_entries t") auto
    note ev = qt_evict_oldest_inv [OF 1(2) es]
    have step: "qt_evict_until target t = qt_evict_until target (qt_evict_oldest t)"
      using True by (simp add: qt_evict_until.simps [of target t])
    note IH = 1(1) [OF True ev(1)]
    have "fifo_drop qe_size target (qt_entries t) = fifo_drop qe_size target es"
      using True size es by simp
    moreover have "fifo_drop field_size target (qt_fields t) = fifo_drop field_size target (qt_fields (qt_evict_oldest t))"
      using True total ev(3) by simp
    ultimately show ?thesis using IH ev unfolding step by simp
  qed
qed

section \<open>Insertion\<close>

text \<open>Evicting and compacting, as \<open>Insert\<close> and \<open>SetCapacity\<close> do.\<close>

lemma qt_make_room:
  fixes target :: nat
  assumes "qt_inv t"
  defines "t1 \<equiv> qt_compact (qt_evict_until target t)"
  shows "qt_inv t1" "qt_fields t1 = fifo_drop field_size target (qt_fields t)"
    "same_entries (qt_entries t1) (fifo_drop qe_size target (qt_entries t))"
    "qt_size t1 \<le> target" "qt_maximum t1 = qt_maximum t" "qt_capacity t1 = qt_capacity t"
    "qt_insert_count t1 = qt_insert_count t" "qt_entry_capacity t1 = qt_entry_capacity t"
    "qt_used t1 + QpackEntryOverhead * length (qt_entries t1) = qt_size t1"
proof -
  note e = qt_evict_until_inv [OF assms(1), of target]
  then have "qt_inv (qt_evict_until target t)" by blast
  note c = qt_compact_spec [OF this, folded t1_def]
  show "qt_inv t1" "qt_fields t1 = fifo_drop field_size target (qt_fields t)"
    "same_entries (qt_entries t1) (fifo_drop qe_size target (qt_entries t))"
    "qt_size t1 \<le> target" "qt_maximum t1 = qt_maximum t" "qt_capacity t1 = qt_capacity t"
    "qt_insert_count t1 = qt_insert_count t" "qt_entry_capacity t1 = qt_entry_capacity t"
    using e c by simp_all
  have sizes: "qt_size t1 = sum_list (map qe_size (qt_entries (qt_evict_until target t)))"
    and lay: "qe_layout 0 (qt_entries (qt_evict_until target t)) (qt_used (qt_evict_until target t))"
    and len: "length (qt_entries t1) = length (qt_entries (qt_evict_until target t))"
    and used: "qt_used t1 = sum_list (map (\<lambda>e. qe_name_length e + qe_value_length e) (qt_entries (qt_evict_until target t)))"
    using c \<open>qt_inv (qt_evict_until target t)\<close> same_entries_length by (auto simp: qt_inv_def)
  have "sum_list (map (\<lambda>e. qe_name_length e + qe_value_length e) es) + QpackEntryOverhead * length es
      = sum_list (map qe_size es)" if "qe_layout w es u" for w es u
    using that by (induction es arbitrary: w) auto
  from this [OF lay] show "qt_used t1 + QpackEntryOverhead * length (qt_entries t1) = qt_size t1"
    by (simp only: sizes len used)
qed

lemma qe_layout_snoc:
  "qe_layout w es used \<Longrightarrow> qe_name_offset e = used \<Longrightarrow> qe_value_offset e = used + qe_name_length e
     \<Longrightarrow> qe_size e = qe_name_length e + qe_value_length e + QpackEntryOverhead \<Longrightarrow> qe_stop e = used'
     \<Longrightarrow> qe_layout w (es @ [e]) used'"
  by (induction es arbitrary: w) auto

lemma qe_numbered_snoc: "qe_numbered i es \<Longrightarrow> qe_index e = i + length es \<Longrightarrow> qe_numbered i (es @ [e])"
  by (induction es arbitrary: i) auto

text \<open>With the room made, appending always succeeds: neither array can be full.\<close>

lemma qt_append_ok:
  assumes "qt_inv t" "qt_used t + QpackEntryOverhead * length (qt_entries t) = qt_size t"
    and "qt_size t + (length name + length value + QpackEntryOverhead) \<le> qt_capacity t"
    and "qt_insert_count t < QpackIntegerMaximum"
  shows "\<exists>t'. qt_append name value t = (STATUS_SUCCESS, qt_insert_count t, t') \<and> qt_inv t'
    \<and> qt_fields t' = qt_fields t @ [(name, value)] \<and> qt_insert_count t' = qt_insert_count t + 1
    \<and> qt_capacity t' = qt_capacity t \<and> qt_maximum t' = qt_maximum t
    \<and> (\<exists>e. qe_references e = 0 \<and> qt_entries t' = qt_entries t @ [e])"
proof -
  define e where "e = \<lparr>qe_name_offset = qt_used t, qe_name_length = length name,
     qe_value_offset = qt_used t + length name, qe_value_length = length value,
     qe_size = length name + length value + QpackEntryOverhead, qe_index = qt_insert_count t, qe_references = 0\<rparr>"
  define data where "data = copy_at (copy_at (qt_data t) (qt_used t) name) (qt_used t + length name) value"
  have inv: "length (qt_data t) = qt_maximum t" "qt_capacity t \<le> qt_maximum t"
    "qt_maximum t div QpackEntryOverhead \<le> qt_entry_capacity t" "qe_layout 0 (qt_entries t) (qt_used t)"
    "qt_used t \<le> qt_maximum t" "qt_maximum t \<le> WKNET_HARD_MAX_QPACK_DYNAMIC_TABLE_BYTES"
    "qt_size t = sum_list (map qe_size (qt_entries t))"
    using assms(1) by (simp_all add: qt_inv_def)
  have "QpackEntryOverhead * (length (qt_entries t) + 1) \<le> qt_maximum t"
    using assms(2,3) inv(2) by (simp add: algebra_simps)
  then have "length (qt_entries t) + 1 \<le> qt_maximum t div QpackEntryOverhead"
    by (simp add: less_eq_div_iff_mult_less_eq QpackEntryOverhead_def mult.commute)
  then have room: "length (qt_entries t) < qt_entry_capacity t" using inv(3) by linarith
  have fits: "qt_used t + length name + length value \<le> qt_maximum t"
    using assms(2,3) inv(2) by linarith
  have w: "w64 (qt_size t + (length name + length value + QpackEntryOverhead))
      = qt_size t + (length name + length value + QpackEntryOverhead)"
    using assms(3) inv(2,6)
    by (intro w64_id) (simp add: u64_max_def WKNET_HARD_MAX_QPACK_DYNAMIC_TABLE_BYTES_def)
  define t' where "t' = t\<lparr>qt_data := data, qt_used := qt_used t + length name + length value,
     qt_entries := qt_entries t @ [e], qt_insert_count := qt_insert_count t + 1,
     qt_size := qt_size t + (length name + length value + QpackEntryOverhead)\<rparr>"
  have "\<not> length (qt_entries t) \<ge> qt_entry_capacity t"
    "\<not> (qt_used t > qt_maximum t \<or> length name + length value > qt_maximum t - qt_used t)"
    using room fits by auto
  then have app: "qt_append name value t = (STATUS_SUCCESS, qt_insert_count t, t')"
    by (simp add: qt_append_def t'_def e_def data_def w Let_def)
  have len: "length data = qt_maximum t" using fits inv(1) by (simp add: data_def)
  have old: "qe_field data x = qe_field (qt_data t) x" if "x \<in> set (qt_entries t)" for x
    using qe_layout_entry [OF inv(4) that] fits inv(1)
    by (simp add: data_def qe_field_def qe_stop_def view_copy_at_apart)
  have new: "qe_field data e = (name, value)"
    using fits inv(1) view_copy_at [of "qt_used t" name "qt_data t"]
    by (simp add: data_def qe_field_def e_def view_copy_at_apart view_copy_at)
  have fields: "qt_fields t' = qt_fields t @ [(name, value)]"
    using old new by (simp add: t'_def qt_fields_def)
  have "qe_layout 0 (qt_entries t') (qt_used t')"
    unfolding t'_def using inv(4) by (simp add: qe_layout_snoc e_def qe_stop_def)
  moreover have "qe_numbered (qt_insert_count t' - length (qt_entries t')) (qt_entries t')"
    using assms(1) by (simp add: t'_def e_def qt_inv_def qe_numbered_snoc)
  ultimately have "qt_inv t'"
    using assms(1,3,4) inv fits len by (auto simp: t'_def qt_inv_def e_def)
  with app fields show ?thesis by (auto simp: t'_def e_def)
qed

definition qt_blocked :: "nat \<Rightarrow> qpack_table \<Rightarrow> bool" where
  "qt_blocked target t \<longleftrightarrow> (\<exists>e \<in> set (fifo_evicted qe_size target (qt_entries t)). qe_references e \<noteq> 0)"

lemma qt_validate_eviction_eq:
  "qt_inv t \<Longrightarrow> qt_validate_eviction target t = (if qt_blocked target t then STATUS_DEVICE_BUSY else STATUS_SUCCESS)"
  using qt_validate_loop_eq [of "qt_size t" "qt_entries t" target] qt_inv_size_u64 [of t]
  by (simp add: qt_validate_eviction_def qt_blocked_def qt_inv_def)

lemma qt_insert_cases:
  assumes "qt_inv t" "qt_insert name value t = (st, i, t')"
    and "field_size (name, value) \<le> u64_max"
  shows "(if field_size (name, value) > qt_capacity t \<or> qt_insert_count t = QpackIntegerMaximum
     then st = STATUS_INSUFFICIENT_RESOURCES \<and> t' = t
     else if qt_blocked (qt_capacity t - field_size (name, value)) t then st = STATUS_DEVICE_BUSY \<and> t' = t
     else st = STATUS_SUCCESS \<and> i = qt_insert_count t \<and> qt_insert_count t' = qt_insert_count t + 1
       \<and> qt_fields t' = fifo_drop field_size (qt_capacity t - field_size (name, value)) (qt_fields t) @ [(name, value)]
       \<and> qt_capacity t' = qt_capacity t \<and> qt_maximum t' = qt_maximum t)
     \<and> qt_inv t'"
proof -
  define target where "target = qt_capacity t - field_size (name, value)"
  define t1 where "t1 = qt_compact (qt_evict_until target t)"
  have guard: "\<not> (length name > u64_max - length value \<or> length name + length value > u64_max - QpackEntryOverhead)"
    using assms(3) unfolding field_size_def by auto
  have fs: "length name + length value + QpackEntryOverhead = field_size (name, value)"
    by (simp add: field_size_def)
  have ins: "qt_insert name value t =
    (if field_size (name, value) > qt_capacity t \<or> qt_insert_count t = QpackIntegerMaximum
     then (STATUS_INSUFFICIENT_RESOURCES, 0, t)
     else if qt_blocked target t then (STATUS_DEVICE_BUSY, 0, t)
     else qt_append name value t1)"
    unfolding qt_insert_def Let_def fs
    using guard by (simp add: qt_validate_eviction_eq [OF assms(1)] target_def [symmetric] t1_def)
  show ?thesis
  proof (cases "field_size (name, value) > qt_capacity t \<or> qt_insert_count t = QpackIntegerMaximum \<or> qt_blocked target t")
    case True
    with ins assms show ?thesis by (auto simp: target_def)
  next
    case False
    note room = qt_make_room [OF assms(1), of target, folded t1_def]
    have "qt_size t1 + field_size (name, value) \<le> qt_capacity t1"
      using room(4,6) False by (auto simp: target_def)
    moreover have "qt_insert_count t1 < QpackIntegerMaximum"
      using room(7) False assms(1) by (auto simp: qt_inv_def)
    ultimately obtain t2 where "qt_append name value t1 = (STATUS_SUCCESS, qt_insert_count t1, t2)" "qt_inv t2"
      "qt_fields t2 = qt_fields t1 @ [(name, value)]" "qt_insert_count t2 = qt_insert_count t1 + 1"
      "qt_capacity t2 = qt_capacity t1" "qt_maximum t2 = qt_maximum t1"
      using qt_append_ok [OF room(1,9), of name "value"] unfolding fs by blast
    with ins assms(2) False room show ?thesis by (auto simp: target_def)
  qed
qed

lemma qt_set_capacity_cases:
  assumes "qt_inv t" "qt_set_capacity c t = (st, t')"
  shows "(if c > qt_maximum t then st = STATUS_INVALID_PARAMETER \<and> t' = t
     else if qt_blocked c t then st = STATUS_DEVICE_BUSY \<and> t' = t
     else st = STATUS_SUCCESS \<and> qt_fields t' = fifo_drop field_size c (qt_fields t) \<and> qt_capacity t' = c
       \<and> qt_insert_count t' = qt_insert_count t \<and> qt_maximum t' = qt_maximum t)
     \<and> qt_inv t'"
proof (cases "c > qt_maximum t \<or> qt_blocked c t")
  case True
  with assms qt_validate_eviction_eq [OF assms(1), of c] show ?thesis
    by (auto simp: qt_set_capacity_def Let_def)
next
  case False
  note room = qt_make_room [OF assms(1), of c]
  have "t' = (qt_compact (qt_evict_until c t))\<lparr>qt_capacity := c\<rparr>" "st = STATUS_SUCCESS"
    using assms False qt_validate_eviction_eq [OF assms(1), of c] by (auto simp: qt_set_capacity_def Let_def)
  moreover from this have "qt_inv t'"
    using room(1,4,5) False by (simp add: qt_inv_def)
  ultimately show ?thesis using False room by (simp add: qt_fields_def)
qed

section \<open>Lookups\<close>

lemma qe_numbered_nth: "qe_numbered i es \<Longrightarrow> k < length es \<Longrightarrow> qe_index (es ! k) = i + k"
  by (induction es arbitrary: i k) (auto simp: nth_Cons split: nat.splits)

lemma find_numbered:
  "qe_numbered i es \<Longrightarrow> find (\<lambda>e. qe_index e = j) es = (if i \<le> j \<and> j < i + length es then Some (es ! (j - i)) else None)"
  by (induction es arbitrary: i) (auto simp: nth_Cons')

definition qt_first :: "qpack_table \<Rightarrow> nat" where
  "qt_first t = qt_insert_count t - length (qt_entries t)"

lemma length_qt_fields [simp]: "length (qt_fields t) = length (qt_entries t)"
  by (simp add: qt_fields_def)

lemma qt_inv_count: "qt_inv t \<Longrightarrow> qt_insert_count t = qt_first t + length (qt_entries t)"
  by (simp add: qt_inv_def qt_first_def)

lemma qt_inv_numbered: "qt_inv t \<Longrightarrow> qe_numbered (qt_first t) (qt_entries t)"
  by (simp add: qt_inv_def qt_first_def)

lemma qt_find_entry_eq:
  assumes "qt_inv t"
  shows "qt_find_entry i t =
    (if qt_first t \<le> i \<and> i < qt_insert_count t then Some (qt_entries t ! (i - qt_first t)) else None)"
  using find_numbered [OF qt_inv_numbered [OF assms], of i] qt_inv_count [OF assms]
  by (simp add: qt_find_entry_def)

lemma qt_lookup_absolute_eq:
  assumes "qt_inv t"
  shows "qt_lookup_absolute i t =
    (if qt_first t \<le> i \<and> i < qt_insert_count t
     then Inr (fst (qt_fields t ! (i - qt_first t)), snd (qt_fields t ! (i - qt_first t)), i)
     else Inl STATUS_NOT_FOUND)"
proof -
  have "qe_index (qt_entries t ! (i - qt_first t)) = i" if "qt_first t \<le> i" "i < qt_insert_count t"
    using that qe_numbered_nth [OF qt_inv_numbered [OF assms], of "i - qt_first t"] qt_inv_count [OF assms]
    by simp
  then show ?thesis
    using qt_find_entry_eq [OF assms, of i] qt_inv_count [OF assms]
    by (auto simp: qt_lookup_absolute_def qt_fields_def qe_field_def)
qed

text \<open>One successful insert, whatever the length of the field.\<close>

lemma qt_insert_step:
  assumes "qt_inv t" "qt_insert name value t = (st, i, t')"
  shows "qt_inv t'" "st \<noteq> STATUS_SUCCESS \<Longrightarrow> t' = t"
    "st = STATUS_SUCCESS \<Longrightarrow> qt_insert_count t' = qt_insert_count t + 1
       \<and> i = qt_insert_count t \<and> (\<exists>k \<le> length (qt_entries t). qt_fields t' = drop k (qt_fields t) @ [(name, value)])"
proof -
  have "qt_inv t' \<and> (st \<noteq> STATUS_SUCCESS \<longrightarrow> t' = t) \<and> (st = STATUS_SUCCESS \<longrightarrow> qt_insert_count t' = qt_insert_count t + 1
     \<and> i = qt_insert_count t \<and> (\<exists>k \<le> length (qt_entries t). qt_fields t' = drop k (qt_fields t) @ [(name, value)]))"
  proof (cases "field_size (name, value) \<le> u64_max")
    case False
    then have "length name + length value + 32 > u64_max"
      by (simp add: field_size_def QpackEntryOverhead_def)
    then have "length name > u64_max - length value \<or> length name + length value > u64_max - QpackEntryOverhead"
      by (auto simp: u64_max_def QpackEntryOverhead_def)
    then show ?thesis using assms by (auto simp: qt_insert_def)
  next
    case True
    obtain k where "k \<le> length (qt_entries t)"
      "fifo_drop field_size (qt_capacity t - field_size (name, value)) (qt_fields t) = drop k (qt_fields t)"
      using fifo_drop_suffix [of "qt_fields t" field_size "qt_capacity t - field_size (name, value)"] by auto
    with qt_insert_cases [OF assms True] show ?thesis by (auto split: if_splits)
  qed
  then show "qt_inv t'" "st \<noteq> STATUS_SUCCESS \<Longrightarrow> t' = t"
    "st = STATUS_SUCCESS \<Longrightarrow> qt_insert_count t' = qt_insert_count t + 1
       \<and> i = qt_insert_count t \<and> (\<exists>k \<le> length (qt_entries t). qt_fields t' = drop k (qt_fields t) @ [(name, value)])"
    by blast+
qed

lemma qt_update_entry_map:
  "map qe_index (qt_update_entry i f es) = map qe_index es
     \<and> map (qe_field d) (qt_update_entry i f es) = map (qe_field d) es
     \<and> map qe_size (qt_update_entry i f es) = map qe_size es
     \<and> qe_layout w (qt_update_entry i f es) u = qe_layout w es u"
  if "\<And>e. qe_index (f e) = qe_index e" "\<And>e. qe_field d (f e) = qe_field d e" "\<And>e. qe_size (f e) = qe_size e"
     "\<And>e. qe_stop (f e) = qe_stop e" "\<And>e. qe_name_offset (f e) = qe_name_offset e"
     "\<And>e. qe_value_offset (f e) = qe_value_offset e" "\<And>e. qe_name_length (f e) = qe_name_length e"
     "\<And>e. qe_value_length (f e) = qe_value_length e"
  using that by (induction es arbitrary: w) auto

lemma qt_reference_update:
  fixes i :: nat
  assumes "qt_inv t"
  defines "u \<equiv> \<lambda>f. t\<lparr>qt_entries := qt_update_entry i (\<lambda>e. e\<lparr>qe_references := f (qe_references e)\<rparr>) (qt_entries t)\<rparr>"
  shows "qt_inv (u f) \<and> qt_fields (u f) = qt_fields t \<and> qt_insert_count (u f) = qt_insert_count t
    \<and> length (qt_entries (u f)) = length (qt_entries t)"
proof -
  let ?es = "qt_update_entry i (\<lambda>e. e\<lparr>qe_references := f (qe_references e)\<rparr>) (qt_entries t)"
  have m: "map qe_index ?es = map qe_index (qt_entries t)" "map (qe_field (qt_data t)) ?es = map (qe_field (qt_data t)) (qt_entries t)"
    "map qe_size ?es = map qe_size (qt_entries t)" "qe_layout 0 ?es (qt_used t) = qe_layout 0 (qt_entries t) (qt_used t)"
    using qt_update_entry_map [of "\<lambda>e. e\<lparr>qe_references := f (qe_references e)\<rparr>" "qt_data t" i "qt_entries t" 0 "qt_used t"]
    by (simp_all add: qe_field_def qe_stop_def)
  have "length ?es = length (qt_entries t)" using m(1) by (rule map_eq_imp_length_eq)
  with m qe_numbered_map [OF m(1)] assms(1) show ?thesis
    by (simp add: u_def qt_inv_def qt_fields_def)
qed

section \<open>Histories\<close>

datatype qt_op =
    QtInsert bytes bytes
  | QtDuplicate bool nat
  | QtSetCapacity nat
  | QtAddReference nat
  | QtReleaseReference nat

text \<open>The history lists the fields of the inserts that succeeded, in order.\<close>

fun qt_apply :: "qt_op \<Rightarrow> (bytes \<times> bytes) list \<times> qpack_table \<Rightarrow> (bytes \<times> bytes) list \<times> qpack_table" where
  "qt_apply (QtInsert name value) (h, t) =
     (case qt_insert name value t of (st, i, t') \<Rightarrow> ((if st = STATUS_SUCCESS then h @ [(name, value)] else h), t'))"
| "qt_apply (QtDuplicate ok r) (h, t) =
     (case qt_duplicate_relative ok r t of (st, i, t') \<Rightarrow>
        ((if st = STATUS_SUCCESS then h @ [h ! (length h - r - 1)] else h), t'))"
| "qt_apply (QtSetCapacity c) (h, t) = (h, snd (qt_set_capacity c t))"
| "qt_apply (QtAddReference i) (h, t) = (h, snd (qt_add_reference i t))"
| "qt_apply (QtReleaseReference i) (h, t) = (h, snd (qt_release_reference i t))"

definition qt_tracks :: "(bytes \<times> bytes) list \<times> qpack_table \<Rightarrow> bool" where
  "qt_tracks x \<longleftrightarrow> (case x of (h, t) \<Rightarrow> qt_inv t \<and> length h = qt_insert_count t
     \<and> qt_fields t = drop (qt_first t) h)"

lemma drop_tracks:
  assumes "xs = drop k h" "k \<le> length h" "j \<le> length xs"
  shows "drop j xs @ ys = drop (length (h @ ys) - (length (drop j xs) + length ys)) (h @ ys)"
  using assms by (simp add: add.commute)

lemma qt_tracks_insert:
  assumes "qt_tracks (h, t)" "qt_insert name value t = (st, i, t')"
  shows "qt_tracks ((if st = STATUS_SUCCESS then h @ [(name, value)] else h), t')"
proof (cases "st = STATUS_SUCCESS")
  case True
  have inv: "qt_inv t" and h: "length h = qt_insert_count t" "qt_fields t = drop (qt_first t) h"
    using assms(1) by (auto simp: qt_tracks_def)
  obtain k where k: "k \<le> length (qt_entries t)" "qt_fields t' = drop k (qt_fields t) @ [(name, value)]"
    "qt_insert_count t' = qt_insert_count t + 1" "qt_inv t'"
    using qt_insert_step [OF inv assms(2)] True by auto
  have "length (qt_entries t') = length (drop k (qt_fields t)) + 1"
    using arg_cong [OF k(2), of length] by simp
  moreover have "qt_first t \<le> length h" by (simp add: h(1) qt_first_def)
  ultimately have "qt_fields t' = drop (qt_first t') (h @ [(name, value)])"
    using drop_tracks [OF h(2), of k "[(name, value)]"] k(1,2,3) h(1) by (simp add: qt_first_def)
  with True k(3,4) h(1) show ?thesis by (simp add: qt_tracks_def)
next
  case False
  with assms qt_insert_step(2) [OF _ assms(2)] show ?thesis by (auto simp: qt_tracks_def)
qed

lemma qt_tracks_lookup:
  assumes "qt_tracks (h, t)"
  shows "qt_lookup_absolute i t =
    (if qt_first t \<le> i \<and> i < length h then Inr (fst (h ! i), snd (h ! i), i) else Inl STATUS_NOT_FOUND)"
proof -
  have inv: "qt_inv t" and h: "length h = qt_insert_count t" "qt_fields t = drop (qt_first t) h"
    using assms by (auto simp: qt_tracks_def)
  have "qt_fields t ! (i - qt_first t) = h ! i" if "qt_first t \<le> i" "i < length h"
    using that by (simp add: h(2))
  with qt_lookup_absolute_eq [OF inv, of i] h(1) show ?thesis by simp
qed

lemma qt_lookup_relative_error: "qt_lookup_relative b r t \<noteq> Inl STATUS_SUCCESS"
  by (simp add: qt_lookup_relative_def qt_lookup_absolute_def split: option.split)

lemma qt_tracks_apply: "qt_tracks (h, t) \<Longrightarrow> qt_tracks (qt_apply act (h, t))"
proof (cases act)
  case (QtInsert nm vl)
  assume "qt_tracks (h, t)"
  with QtInsert qt_tracks_insert show ?thesis by (auto split: prod.splits)
next
  case (QtDuplicate ok r)
  assume tr: "qt_tracks (h, t)"
  obtain st i t' where d: "qt_duplicate_relative ok r t = (st, i, t')" by (cases "qt_duplicate_relative ok r t") auto
  have len: "length h = qt_insert_count t" using tr by (simp add: qt_tracks_def)
  show ?thesis
  proof (cases "st = STATUS_SUCCESS")
    case False
    have "t' = t"
      using d False qt_insert_step(2) tr
      by (auto simp: qt_duplicate_relative_def qt_tracks_def split: sum.splits if_splits)
    with False tr d QtDuplicate show ?thesis by simp
  next
    case True
    then obtain nm vl j where l: "qt_lookup_relative (qt_insert_count t) r t = Inr (nm, vl, j)"
      and ins: "qt_insert nm vl t = (st, i, t')"
      using d qt_lookup_relative_error by (auto simp: qt_duplicate_relative_def split: sum.splits if_splits)
    have "(nm, vl) = h ! (length h - r - 1)"
      using l qt_tracks_lookup [OF tr, of "length h - r - 1"] len
      by (auto simp: qt_lookup_relative_def split: if_splits)
    with qt_tracks_insert [OF tr ins] True d QtDuplicate show ?thesis by simp
  qed
next
  case (QtSetCapacity c)
  assume tr: "qt_tracks (h, t)"
  obtain st t' where c: "qt_set_capacity c t = (st, t')" by fastforce
  have inv: "qt_inv t" and h: "length h = qt_insert_count t" "qt_fields t = drop (qt_first t) h"
    using tr by (auto simp: qt_tracks_def)
  note cs = qt_set_capacity_cases [OF inv c]
  have "qt_tracks (h, t')"
  proof (cases "t' = t")
    case False
    with cs have f: "qt_fields t' = fifo_drop field_size c (qt_fields t)" "qt_insert_count t' = qt_insert_count t" "qt_inv t'"
      by (auto split: if_splits)
    obtain k where k: "k \<le> length (qt_fields t)" "fifo_drop field_size c (qt_fields t) = drop k (qt_fields t)"
      using fifo_drop_suffix by blast
    have "length (qt_entries t') = length (drop k (qt_fields t))"
      using arg_cong [OF f(1), of length] k(2) by simp
    moreover have "qt_first t \<le> length h" by (simp add: h(1) qt_first_def)
    ultimately have "qt_fields t' = drop (qt_first t') h"
      using drop_tracks [OF h(2), of k "[]"] k f h(1) by (simp add: qt_first_def)
    with f h(1) show ?thesis by (simp add: qt_tracks_def)
  qed (use tr in simp)
  with c QtSetCapacity show ?thesis by simp
next
  case (QtAddReference i)
  assume "qt_tracks (h, t)"
  with qt_reference_update [of t i "\<lambda>r. r + 1"] QtAddReference show ?thesis
    by (auto simp: qt_add_reference_def qt_tracks_def qt_first_def split: option.splits)
next
  case (QtReleaseReference i)
  assume "qt_tracks (h, t)"
  with qt_reference_update [of t i "\<lambda>r. r - 1"] QtReleaseReference show ?thesis
    by (auto simp: qt_release_reference_def qt_tracks_def qt_first_def split: option.splits)
qed

lemma qt_tracks_fold: "qt_tracks x \<Longrightarrow> qt_tracks (fold qt_apply ops x)"
proof (induction ops arbitrary: x)
  case (Cons act ops)
  obtain h t where "x = (h, t)" by fastforce
  with Cons qt_tracks_apply show ?case by simp
qed simp

lemma qt_tracks_initialize:
  assumes "qt_initialize data_ok entries_ok m c = (STATUS_SUCCESS, t0)"
  shows "qt_tracks ([], t0)"
proof -
  have "qt_insert_count t0 = 0" "qt_entries t0 = []"
    using assms by (auto simp: qt_initialize_def qt_reset_def Let_def split: if_splits)
  then show ?thesis
    using qt_inv_initialize [OF assms] by (simp add: qt_tracks_def qt_fields_def qt_first_def)
qed

text \<open>
  C30. The table is a window on the history of its successful inserts, duplicates included: over any
  run of operations the insert count is the length of the history, a lookup by absolute index
  returns the field inserted under that index while it is in the window and \<open>STATUS_NOT_FOUND\<close>
  before and after, and the fields in the window, 32 bytes of overhead each, fit the capacity.
\<close>

theorem qpack_table_history:
  assumes "qt_initialize data_ok entries_ok m c = (STATUS_SUCCESS, t0)" "fold qt_apply acts ([], t0) = (h, t)"
  shows "qt_insert_count t = length h
    \<and> (\<forall>i. qt_lookup_absolute i t =
         (if qt_first t \<le> i \<and> i < length h then Inr (fst (h ! i), snd (h ! i), i) else Inl STATUS_NOT_FOUND))
    \<and> qt_fields t = drop (qt_first t) h
    \<and> sum_list (map field_size (qt_fields t)) \<le> qt_capacity t \<and> qt_capacity t \<le> qt_maximum t"
proof -
  have tr: "qt_tracks (h, t)"
    using qt_tracks_fold [OF qt_tracks_initialize [OF assms(1)], of acts] assms(2) by simp
  then have inv: "qt_inv t" by (simp add: qt_tracks_def)
  have "sum_list (map field_size (qt_fields t)) = qt_size t" by (rule qt_total_size [OF inv])
  with tr qt_tracks_lookup [OF tr] inv show ?thesis by (simp add: qt_tracks_def qt_inv_def)
qed

theorem qpack_table_history_witness:
  "let x = fold qt_apply [QtInsert [1] [2], QtDuplicate True 0, QtSetCapacity 33] ([], snd (qt_initialize True True 40 40))
   in qt_insert_count (snd x) = length (fst x)"
proof -
  have "qt_initialize True True 40 40 = (STATUS_SUCCESS, snd (qt_initialize True True 40 40))"
    by (simp add: qt_initialize_def Let_def WKNET_HARD_MAX_QPACK_DYNAMIC_TABLE_BYTES_def QpackEntryOverhead_def
        u64_max_def)
  from qpack_table_history [OF this prod.collapse [symmetric], of "[QtInsert [1] [2], QtDuplicate True 0, QtSetCapacity 33]"]
  show ?thesis by (simp only: Let_def)
qed

text \<open>
  C33. \<open>Insert\<close> fails only for a field larger than the capacity, for an exhausted index space, and
  when an entry it would have to evict is still referenced, and then changes nothing; otherwise it
  drops the fewest oldest fields that make room and appends the new one. The fixed arrays are never
  the reason of a failure.
\<close>

theorem qpack_insert_complete:
  assumes "qt_inv t" "qt_insert name value t = (st, i, t')" "field_size (name, value) \<le> u64_max"
  shows "if field_size (name, value) > qt_capacity t \<or> qt_insert_count t = QpackIntegerMaximum
     then st = STATUS_INSUFFICIENT_RESOURCES \<and> t' = t
     else if qt_blocked (qt_capacity t - field_size (name, value)) t then st = STATUS_DEVICE_BUSY \<and> t' = t
     else st = STATUS_SUCCESS \<and> i = qt_insert_count t \<and> qt_insert_count t' = qt_insert_count t + 1
       \<and> qt_fields t' = fifo_drop field_size (qt_capacity t - field_size (name, value)) (qt_fields t) @ [(name, value)]
       \<and> qt_capacity t' = qt_capacity t \<and> qt_maximum t' = qt_maximum t"
  using qt_insert_cases [OF assms] by (rule conjunct1)

theorem qpack_insert_complete_witness:
  "fst (qt_insert [1] [] (snd (qt_initialize True True 33 33))) = STATUS_SUCCESS"
proof -
  let ?t = "snd (qt_initialize True True 33 33)"
  have "qt_initialize True True 33 33 = (STATUS_SUCCESS, ?t)"
    by (simp add: qt_initialize_def Let_def WKNET_HARD_MAX_QPACK_DYNAMIC_TABLE_BYTES_def QpackEntryOverhead_def
        u64_max_def)
  then have inv: "qt_inv ?t" by (rule qt_inv_initialize)
  obtain st i t' where r: "qt_insert [1] [] ?t = (st, i, t')" by (cases "qt_insert [1] [] ?t") auto
  have t: "qt_capacity ?t = 33" "qt_insert_count ?t = 0" "qt_entries ?t = []"
    by (simp_all add: qt_initialize_def qt_reset_def Let_def WKNET_HARD_MAX_QPACK_DYNAMIC_TABLE_BYTES_def
        QpackEntryOverhead_def u64_max_def)
  from qpack_insert_complete [OF inv r] t r show ?thesis
    by (simp add: field_size_def QpackEntryOverhead_def u64_max_def QpackIntegerMaximum_def qt_blocked_def)
qed

section \<open>References\<close>

definition qt_references :: "nat \<Rightarrow> qpack_table \<Rightarrow> nat" where
  "qt_references i t = (case qt_find_entry i t of None \<Rightarrow> 0 | Some e \<Rightarrow> qe_references e)"

definition qe_marks :: "qpack_entry list \<Rightarrow> (nat \<times> nat) list" where
  "qe_marks es = map (\<lambda>e. (qe_index e, qe_references e)) es"

lemma same_entries_marks:
  assumes "same_entries es' es"
  shows "qe_marks es' = qe_marks es"
proof -
  have "qe_marks xs = zip (map qe_index xs) (map qe_references xs)" for xs
    by (induction xs) (auto simp: qe_marks_def)
  then show ?thesis using assms by (simp add: same_entries_def)
qed

text \<open>The reference count of an index is a matter of the indices and counts alone.\<close>

lemma qt_references_marks:
  "qt_references i t = (case find (\<lambda>(j, r). j = i) (qe_marks (qt_entries t)) of None \<Rightarrow> 0 | Some (j, r) \<Rightarrow> r)"
proof -
  have "(case find (\<lambda>e. qe_index e = i) es of None \<Rightarrow> 0 | Some e \<Rightarrow> qe_references e)
      = (case find (\<lambda>(j, r). j = i) (qe_marks es) of None \<Rightarrow> 0 | Some (j, r) \<Rightarrow> r)" for es
    by (induction es) (auto simp: qe_marks_def)
  then show ?thesis by (simp add: qt_references_def qt_find_entry_def)
qed

lemma find_append: "find P (xs @ ys) = (case find P xs of None \<Rightarrow> find P ys | Some x \<Rightarrow> Some x)"
  by (induction xs) auto

lemma find_marks_dropped:
  assumes "es = xs @ ys" "\<forall>e \<in> set xs. qe_references e = 0"
    and "(case find (\<lambda>(j, r). j = i) (qe_marks es) of None \<Rightarrow> 0 | Some (j, r) \<Rightarrow> r) = (n :: nat)" "0 < n"
  shows "(case find (\<lambda>(j, r). j = i) (qe_marks ys) of None \<Rightarrow> 0 | Some (j, r) \<Rightarrow> r) = n"
  using assms
proof (induction xs arbitrary: es)
  case Nil
  then show ?case by simp
next
  case (Cons x xs)
  then show ?case by (auto simp: qe_marks_def split: if_splits)
qed

text \<open>Eviction that is not blocked keeps every positive count.\<close>

lemma references_make_room:
  assumes "qt_inv t" "\<not> qt_blocked target t" "0 < qt_references i t"
  shows "qt_references i (qt_compact (qt_evict_until target t)) = qt_references i t"
proof -
  have "qe_marks (qt_entries (qt_compact (qt_evict_until target t))) = qe_marks (fifo_drop qe_size target (qt_entries t))"
    by (rule same_entries_marks [OF qt_make_room(3) [OF assms(1)]])
  moreover have "qt_entries t = fifo_evicted qe_size target (qt_entries t) @ fifo_drop qe_size target (qt_entries t)"
    by (simp add: fifo_evicted_append)
  ultimately show ?thesis
    using find_marks_dropped [of "qt_entries t" _ "fifo_drop qe_size target (qt_entries t)" i "qt_references i t"]
      assms(2,3) by (simp add: qt_references_marks qt_blocked_def)
qed

lemma references_insert:
  assumes "qt_inv t" "qt_insert name value t = (st, j, t')" "0 < qt_references i t"
  shows "qt_references i t' = qt_references i t"
proof (cases "st = STATUS_SUCCESS")
  case False
  with qt_insert_step(2) [OF assms(1,2)] show ?thesis by simp
next
  case True
  define target where "target = qt_capacity t - (length name + length value + QpackEntryOverhead)"
  from assms(2) True qt_validate_eviction_eq [OF assms(1), of target]
  have ap: "qt_append name value (qt_compact (qt_evict_until target t)) = (st, j, t')" "\<not> qt_blocked target t"
    by (auto simp: qt_insert_def target_def Let_def split: if_splits)
  from ap(1) True obtain e where "qt_entries t' = qt_entries (qt_compact (qt_evict_until target t)) @ [e]"
    by (auto simp: qt_append_def Let_def split: if_splits)
  then have "qe_marks (qt_entries t') = qe_marks (qt_entries (qt_compact (qt_evict_until target t))) @ [(qe_index e, qe_references e)]"
    by (simp add: qe_marks_def)
  with references_make_room [OF assms(1) ap(2) assms(3)] assms(3) show ?thesis
    by (auto simp: qt_references_marks find_append split: option.splits)
qed

lemma references_update:
  "qt_references i (t\<lparr>qt_entries := qt_update_entry j (\<lambda>e. e\<lparr>qe_references := f (qe_references e)\<rparr>) (qt_entries t)\<rparr>)
     = (if i = j \<and> qt_find_entry j t \<noteq> None then f (qt_references i t) else qt_references i t)"
proof -
  let ?u = "\<lambda>e. e\<lparr>qe_references := f (qe_references e)\<rparr>"
  have "(case find (\<lambda>e. qe_index e = i) (qt_update_entry j ?u es) of None \<Rightarrow> 0 | Some e \<Rightarrow> qe_references e)
     = (if i = j \<and> find (\<lambda>e. qe_index e = j) es \<noteq> None
        then f (case find (\<lambda>e. qe_index e = i) es of None \<Rightarrow> 0 | Some e \<Rightarrow> qe_references e)
        else (case find (\<lambda>e. qe_index e = i) es of None \<Rightarrow> 0 | Some e \<Rightarrow> qe_references e))" for es
    by (induction es) auto
  from this [of "qt_entries t"] show ?thesis
    unfolding qt_references_def qt_find_entry_def by simp
qed

lemma references_apply:
  assumes "qt_inv t" "0 < qt_references i t" "act \<noteq> QtReleaseReference i"
  shows "qt_references i t \<le> qt_references i (snd (qt_apply act (h, t)))"
proof (cases act)
  case (QtInsert nm vl)
  obtain st j t' where "qt_insert nm vl t = (st, j, t')" by (cases "qt_insert nm vl t") auto
  with references_insert [OF assms(1) this assms(2)] QtInsert show ?thesis by simp
next
  case (QtDuplicate ok r)
  obtain st j t' where d: "qt_duplicate_relative ok r t = (st, j, t')" by (cases "qt_duplicate_relative ok r t") auto
  have "qt_references i t' = qt_references i t"
    using d references_insert [OF assms(1) _ assms(2)]
    by (auto simp: qt_duplicate_relative_def split: sum.splits if_splits)
  with d QtDuplicate show ?thesis by simp
next
  case (QtSetCapacity c)
  have cap: "qt_references i (x\<lparr>qt_capacity := c\<rparr>) = qt_references i x" for x
    by (simp add: qt_references_def qt_find_entry_def)
  show ?thesis
    using QtSetCapacity references_make_room [OF assms(1) _ assms(2), of c] qt_validate_eviction_eq [OF assms(1), of c]
    by (simp add: qt_set_capacity_def Let_def cap)
next
  case (QtAddReference j)
  then show ?thesis
    using references_update [of i j "\<lambda>r. r + 1" t] by (auto simp: qt_add_reference_def split: option.splits)
next
  case (QtReleaseReference j)
  then show ?thesis
    using references_update [of i j "\<lambda>r. r - 1" t] assms(3)
    by (auto simp: qt_release_reference_def split: option.splits)
qed

text \<open>
  C32. A referenced entry is pinned: whatever sequence of inserts, duplicates, capacity changes and
  further references follows, as long as this entry's references are not released, every lookup of
  its index returns the same field as before.
\<close>

theorem referenced_entry_pinned:
  assumes "qt_tracks (h, t)" "0 < qt_references i t" "QtReleaseReference i \<notin> set acts"
    and "fold qt_apply acts (h, t) = (h', t')"
  shows "qt_lookup_absolute i t' = qt_lookup_absolute i t \<and> qt_references i t \<le> qt_references i t'
    \<and> (\<exists>name value. qt_lookup_absolute i t' = Inr (name, value, i))"
proof -
  have present: "qt_first t \<le> i \<and> i < qt_insert_count t" if "qt_inv t" "0 < qt_references i t" for t
    using that qt_find_entry_eq [OF that(1), of i] by (auto simp: qt_references_def split: if_splits)
  have run: "qt_references i t \<le> qt_references i (snd (fold qt_apply acts (h, t)))
      \<and> prefix h (fst (fold qt_apply acts (h, t)))"
    using assms(1-3)
  proof (induction acts arbitrary: h t)
    case Nil
    then show ?case by simp
  next
    case (Cons a acts)
    obtain h1 t1 where s: "qt_apply a (h, t) = (h1, t1)" by fastforce
    have inv: "qt_inv t" using Cons.prems(1) by (simp add: qt_tracks_def)
    have r: "qt_references i t \<le> qt_references i t1"
      using references_apply [OF inv Cons.prems(2), of a h] Cons.prems(3) s by auto
    have p: "prefix h h1" using s by (cases a) (auto split: prod.splits if_splits)
    have "qt_tracks (h1, t1)" using qt_tracks_apply [OF Cons.prems(1), of a] s by simp
    from Cons.IH [OF this] Cons.prems(2,3) r p s show ?case
      by (auto intro: prefix_order.trans)
  qed
  then have refs: "qt_references i t \<le> qt_references i t'" and pre: "prefix h h'"
    using assms(4) by simp_all
  have tr': "qt_tracks (h', t')" using qt_tracks_fold [OF assms(1), of acts] assms(4) by simp
  have inv: "qt_inv t" "qt_inv t'" and len: "length h = qt_insert_count t" "length h' = qt_insert_count t'"
    using assms(1) tr' by (auto simp: qt_tracks_def)
  have i: "qt_first t \<le> i" "i < length h" "qt_first t' \<le> i" "i < length h'"
    using present [OF inv(1) assms(2)] present [OF inv(2)] refs assms(2) len by auto
  have "h' ! i = h ! i" using pre i(2) by (auto simp: prefix_def nth_append)
  with refs i qt_tracks_lookup [OF assms(1), of i] qt_tracks_lookup [OF tr', of i] show ?thesis by simp
qed

theorem referenced_entry_pinned_witness:
  "let x = fold qt_apply [QtInsert [1] [], QtAddReference 0] ([], snd (qt_initialize True True 33 33))
   in \<exists>name value. qt_lookup_absolute 0 (snd (fold qt_apply [QtInsert [2] []] x)) = Inr (name, value, 0)"
proof -
  let ?t0 = "snd (qt_initialize True True 33 33)"
  let ?x = "fold qt_apply [QtInsert [1] [], QtAddReference 0] ([], ?t0)"
  have "qt_initialize True True 33 33 = (STATUS_SUCCESS, ?t0)"
    by (simp add: qt_initialize_def Let_def WKNET_HARD_MAX_QPACK_DYNAMIC_TABLE_BYTES_def QpackEntryOverhead_def
        u64_max_def)
  then have tr: "qt_tracks ?x" by (intro qt_tracks_fold qt_tracks_initialize)
  have refs: "0 < qt_references 0 (snd ?x)"
    by (simp add: qt_initialize_def qt_reset_def WKNET_HARD_MAX_QPACK_DYNAMIC_TABLE_BYTES_def
        QpackEntryOverhead_def u64_max_def u32_max_def qt_insert_def qt_validate_eviction_def qt_evict_until.simps
        qt_compact_def qt_append_def QpackIntegerMaximum_def qt_add_reference_def qt_find_entry_def
        qt_references_def)
  have "\<exists>name value. qt_lookup_absolute 0 (snd (fold qt_apply [QtInsert [2] []] x)) = Inr (name, value, 0)"
    if "qt_tracks x" "0 < qt_references 0 (snd x)" for x
  proof -
    have "QtReleaseReference 0 \<notin> set [QtInsert [2] []]" by simp
    with that show ?thesis
      using referenced_entry_pinned [of "fst x" "snd x" 0 "[QtInsert [2] []]"
          "fst (fold qt_apply [QtInsert [2] []] x)" "snd (fold qt_apply [QtInsert [2] []] x)"]
      unfolding prod.collapse by blast
  qed
  from this [OF tr refs] show ?thesis by (simp only: Let_def)
qed

section \<open>Searching\<close>

lemma qe_field_eq:
  assumes "qt_inv t" "e \<in> set (qt_entries t)"
  shows "(qe_name_length e = length nm \<and> qe_value_length e = length vl
      \<and> view (qt_data t) (qe_name_offset e) (length nm) = nm
      \<and> view (qt_data t) (qe_value_offset e) (length vl) = vl) \<longleftrightarrow> qe_field (qt_data t) e = (nm, vl)"
proof -
  have l: "qe_layout 0 (qt_entries t) (qt_used t)" "qt_used t \<le> length (qt_data t)"
    using assms(1) by (auto simp: qt_inv_def)
  have "length (view (qt_data t) (qe_name_offset e) (qe_name_length e)) = qe_name_length e"
    "length (view (qt_data t) (qe_value_offset e) (qe_value_length e)) = qe_value_length e"
    using qe_layout_entry [OF l(1) assms(2)] l(2) by (simp_all add: view_def qe_stop_def)
  then show ?thesis by (auto simp: qe_field_def)
qed

lemma find_rev_newest:
  assumes "find P (rev xs) = Some x"
  shows "\<exists>k < length xs. x = xs ! k \<and> P (xs ! k) \<and> (\<forall>j < length xs. k < j \<longrightarrow> \<not> P (xs ! j))"
proof -
  obtain i where i: "i < length xs" "x = rev xs ! i" "P (rev xs ! i)" "\<forall>j<i. \<not> P (rev xs ! j)"
    using assms by (auto simp: find_Some_iff)
  define k where "k = length xs - Suc i"
  have k: "k < length xs" "rev xs ! i = xs ! k" using i(1) by (simp_all add: k_def rev_nth)
  have "\<not> P (xs ! j)" if "j < length xs" "k < j" for j
  proof -
    have "length xs - Suc j < i" "rev xs ! (length xs - Suc j) = xs ! j"
      using that i(1) by (simp_all add: k_def rev_nth)
    with i(4) show ?thesis by metis
  qed
  with i k show ?thesis by auto
qed

text \<open>
  \<open>FindExact\<close> finds a field exactly when the table holds it, and then returns the index of its
  newest occurrence, under which a lookup returns that very field.
\<close>

theorem qpack_find_exact_correct:
  assumes "qt_inv t"
  shows "case qt_find_exact name value t of
      Inl e \<Rightarrow> e = STATUS_NOT_FOUND \<and> (name, value) \<notin> set (qt_fields t)
    | Inr i \<Rightarrow> qt_lookup_absolute i t = Inr (name, value, i)
        \<and> (\<forall>j. i < j \<longrightarrow> qt_lookup_absolute j t \<noteq> Inr (name, value, j))"
proof -
  let ?P = "\<lambda>e. qe_name_length e = length name \<and> qe_value_length e = length value
     \<and> view (qt_data t) (qe_name_offset e) (length name) = name
     \<and> view (qt_data t) (qe_value_offset e) (length value) = value"
  note P = qe_field_eq [OF assms, of _ name "value"]
  show ?thesis
  proof (cases "find ?P (rev (qt_entries t))")
    case None
    then have "\<forall>e \<in> set (qt_entries t). \<not> ?P e" by (simp add: find_None_iff)
    then have "\<forall>e \<in> set (qt_entries t). qe_field (qt_data t) e \<noteq> (name, value)" using P by blast
    then have "(name, value) \<notin> set (qt_fields t)" by (auto simp: qt_fields_def)
    with None show ?thesis by (simp add: qt_find_exact_def)
  next
    case (Some e)
    obtain k where k: "k < length (qt_entries t)" "e = qt_entries t ! k" "?P (qt_entries t ! k)"
      "\<forall>j < length (qt_entries t). k < j \<longrightarrow> \<not> ?P (qt_entries t ! j)"
      using find_rev_newest [OF Some] by auto
    have i: "qe_index e = qt_first t + k"
      using qe_numbered_nth [OF qt_inv_numbered [OF assms] k(1)] k(2) by simp
    have f: "qt_fields t ! k = (name, value)"
      using k(1,3) P [of "qt_entries t ! k"] by (simp add: qt_fields_def)
    have newer: "qt_fields t ! j \<noteq> (name, value)" if "j < length (qt_entries t)" "k < j" for j
      using k(4) that P [of "qt_entries t ! j"] by (auto simp: qt_fields_def)
    have "qt_lookup_absolute j t \<noteq> Inr (name, value, j)" if "qe_index e < j" for j
    proof
      assume "qt_lookup_absolute j t = Inr (name, value, j)"
      then have j: "j < qt_insert_count t" "qt_fields t ! (j - qt_first t) = (name, value)"
        using qt_lookup_absolute_eq [OF assms, of j] by (auto simp: prod_eq_iff split: if_splits)
      have "j - qt_first t < length (qt_entries t)" "k < j - qt_first t"
        using j(1) that i qt_inv_count [OF assms] by linarith+
      from newer [OF this] j(2) show False by contradiction
    qed
    moreover have "qt_lookup_absolute (qe_index e) t = Inr (name, value, qe_index e)"
      using qt_lookup_absolute_eq [OF assms, of "qe_index e"] i f k(1) qt_inv_count [OF assms] by simp
    ultimately show ?thesis using Some by (simp add: qt_find_exact_def)
  qed
qed

theorem qpack_find_exact_correct_witness:
  "qt_find_exact [1] [2] (snd (qt_initialize True True 33 33)) = Inl STATUS_NOT_FOUND"
proof -
  let ?t = "snd (qt_initialize True True 33 33)"
  have "qt_initialize True True 33 33 = (STATUS_SUCCESS, ?t)"
    by (simp add: qt_initialize_def Let_def WKNET_HARD_MAX_QPACK_DYNAMIC_TABLE_BYTES_def QpackEntryOverhead_def
        u64_max_def)
  then have inv: "qt_inv ?t" by (rule qt_inv_initialize)
  have "qt_first ?t = 0" "qt_insert_count ?t = 0"
    by (simp_all add: qt_initialize_def qt_reset_def qt_first_def Let_def
        WKNET_HARD_MAX_QPACK_DYNAMIC_TABLE_BYTES_def QpackEntryOverhead_def u64_max_def)
  then have "qt_lookup_absolute i ?t = Inl STATUS_NOT_FOUND" for i
    using qt_lookup_absolute_eq [OF inv] by simp
  with qpack_find_exact_correct [OF inv, of "[1]" "[2]"] show ?thesis
    by (auto split: sum.splits)
qed

end
