(* ===== verification/HpackHuffman.thy ===== *)
theory HpackHuffman
  imports Prelude
begin

text \<open>
  The Huffman code of HPACK, \<open>src/wknetlib/http2/HpackHuffman.h\<close> and the Huffman part of
  \<open>src/wknetlib/http2/Hpack.cpp\<close>; \<open>src/wknetlib/qpack/QpackHuffman.cpp\<close> forwards to it. The lemmas
  show that the tables the decoder searches describe the same canonical prefix code as the encoder's
  table, and that the decoder accepts exactly what the encoder writes.
\<close>

section \<open>Tables\<close>

text \<open>A code, right-aligned, and its length in bits; the index is the symbol, 256 is EOS.\<close>

definition HpackHuffmanEncodeTable :: "(nat \<times> nat) list" where
  "HpackHuffmanEncodeTable = [
     (0x1ff8, 13), (0x7fffd8, 23), (0xfffffe2, 28), (0xfffffe3, 28), (0xfffffe4, 28),
     (0xfffffe5, 28), (0xfffffe6, 28), (0xfffffe7, 28), (0xfffffe8, 28), (0xffffea, 24),
     (0x3ffffffc, 30), (0xfffffe9, 28), (0xfffffea, 28), (0x3ffffffd, 30), (0xfffffeb, 28),
     (0xfffffec, 28), (0xfffffed, 28), (0xfffffee, 28), (0xfffffef, 28), (0xffffff0, 28),
     (0xffffff1, 28), (0xffffff2, 28), (0x3ffffffe, 30), (0xffffff3, 28), (0xffffff4, 28),
     (0xffffff5, 28), (0xffffff6, 28), (0xffffff7, 28), (0xffffff8, 28), (0xffffff9, 28),
     (0xffffffa, 28), (0xffffffb, 28), (0x14, 6), (0x3f8, 10), (0x3f9, 10), (0xffa, 12),
     (0x1ff9, 13), (0x15, 6), (0xf8, 8), (0x7fa, 11), (0x3fa, 10), (0x3fb, 10), (0xf9, 8),
     (0x7fb, 11), (0xfa, 8), (0x16, 6), (0x17, 6), (0x18, 6), (0x0, 5), (0x1, 5), (0x2, 5),
     (0x19, 6), (0x1a, 6), (0x1b, 6), (0x1c, 6), (0x1d, 6), (0x1e, 6), (0x1f, 6), (0x5c, 7),
     (0xfb, 8), (0x7ffc, 15), (0x20, 6), (0xffb, 12), (0x3fc, 10), (0x1ffa, 13), (0x21, 6),
     (0x5d, 7), (0x5e, 7), (0x5f, 7), (0x60, 7), (0x61, 7), (0x62, 7), (0x63, 7), (0x64, 7),
     (0x65, 7), (0x66, 7), (0x67, 7), (0x68, 7), (0x69, 7), (0x6a, 7), (0x6b, 7), (0x6c, 7),
     (0x6d, 7), (0x6e, 7), (0x6f, 7), (0x70, 7), (0x71, 7), (0x72, 7), (0xfc, 8), (0x73, 7),
     (0xfd, 8), (0x1ffb, 13), (0x7fff0, 19), (0x1ffc, 13), (0x3ffc, 14), (0x22, 6), (0x7ffd, 15),
     (0x3, 5), (0x23, 6), (0x4, 5), (0x24, 6), (0x5, 5), (0x25, 6), (0x26, 6), (0x27, 6), (0x6, 5),
     (0x74, 7), (0x75, 7), (0x28, 6), (0x29, 6), (0x2a, 6), (0x7, 5), (0x2b, 6), (0x76, 7),
     (0x2c, 6), (0x8, 5), (0x9, 5), (0x2d, 6), (0x77, 7), (0x78, 7), (0x79, 7), (0x7a, 7),
     (0x7b, 7), (0x7ffe, 15), (0x7fc, 11), (0x3ffd, 14), (0x1ffd, 13), (0xffffffc, 28),
     (0xfffe6, 20), (0x3fffd2, 22), (0xfffe7, 20), (0xfffe8, 20), (0x3fffd3, 22), (0x3fffd4, 22),
     (0x3fffd5, 22), (0x7fffd9, 23), (0x3fffd6, 22), (0x7fffda, 23), (0x7fffdb, 23), (0x7fffdc, 23),
     (0x7fffdd, 23), (0x7fffde, 23), (0xffffeb, 24), (0x7fffdf, 23), (0xffffec, 24), (0xffffed, 24),
     (0x3fffd7, 22), (0x7fffe0, 23), (0xffffee, 24), (0x7fffe1, 23), (0x7fffe2, 23), (0x7fffe3, 23),
     (0x7fffe4, 23), (0x1fffdc, 21), (0x3fffd8, 22), (0x7fffe5, 23), (0x3fffd9, 22), (0x7fffe6, 23),
     (0x7fffe7, 23), (0xffffef, 24), (0x3fffda, 22), (0x1fffdd, 21), (0xfffe9, 20), (0x3fffdb, 22),
     (0x3fffdc, 22), (0x7fffe8, 23), (0x7fffe9, 23), (0x1fffde, 21), (0x7fffea, 23), (0x3fffdd, 22),
     (0x3fffde, 22), (0xfffff0, 24), (0x1fffdf, 21), (0x3fffdf, 22), (0x7fffeb, 23), (0x7fffec, 23),
     (0x1fffe0, 21), (0x1fffe1, 21), (0x3fffe0, 22), (0x1fffe2, 21), (0x7fffed, 23), (0x3fffe1, 22),
     (0x7fffee, 23), (0x7fffef, 23), (0xfffea, 20), (0x3fffe2, 22), (0x3fffe3, 22), (0x3fffe4, 22),
     (0x7ffff0, 23), (0x3fffe5, 22), (0x3fffe6, 22), (0x7ffff1, 23), (0x3ffffe0, 26),
     (0x3ffffe1, 26), (0xfffeb, 20), (0x7fff1, 19), (0x3fffe7, 22), (0x7ffff2, 23), (0x3fffe8, 22),
     (0x1ffffec, 25), (0x3ffffe2, 26), (0x3ffffe3, 26), (0x3ffffe4, 26), (0x7ffffde, 27),
     (0x7ffffdf, 27), (0x3ffffe5, 26), (0xfffff1, 24), (0x1ffffed, 25), (0x7fff2, 19),
     (0x1fffe3, 21), (0x3ffffe6, 26), (0x7ffffe0, 27), (0x7ffffe1, 27), (0x3ffffe7, 26),
     (0x7ffffe2, 27), (0xfffff2, 24), (0x1fffe4, 21), (0x1fffe5, 21), (0x3ffffe8, 26),
     (0x3ffffe9, 26), (0xffffffd, 28), (0x7ffffe3, 27), (0x7ffffe4, 27), (0x7ffffe5, 27),
     (0xfffec, 20), (0xfffff3, 24), (0xfffed, 20), (0x1fffe6, 21), (0x3fffe9, 22), (0x1fffe7, 21),
     (0x1fffe8, 21), (0x7ffff3, 23), (0x3fffea, 22), (0x3fffeb, 22), (0x1ffffee, 25),
     (0x1ffffef, 25), (0xfffff4, 24), (0xfffff5, 24), (0x3ffffea, 26), (0x7ffff4, 23),
     (0x3ffffeb, 26), (0x7ffffe6, 27), (0x3ffffec, 26), (0x3ffffed, 26), (0x7ffffe7, 27),
     (0x7ffffe8, 27), (0x7ffffe9, 27), (0x7ffffea, 27), (0x7ffffeb, 27), (0xffffffe, 28),
     (0x7ffffec, 27), (0x7ffffed, 27), (0x7ffffee, 27), (0x7ffffef, 27), (0x7fffff0, 27),
     (0x3ffffee, 26), (0x3fffffff, 30)]"

definition HpackHuffmanSymbolsByLength :: "nat list" where
  "HpackHuffmanSymbolsByLength = [
     48, 49, 50, 97, 99, 101, 105, 111, 115, 116, 32, 37, 45, 46, 47, 51, 52, 53, 54, 55, 56, 57,
     61, 65, 95, 98, 100, 102, 103, 104, 108, 109, 110, 112, 114, 117, 58, 66, 67, 68, 69, 70, 71,
     72, 73, 74, 75, 76, 77, 78, 79, 80, 81, 82, 83, 84, 85, 86, 87, 89, 106, 107, 113, 118, 119,
     120, 121, 122, 38, 42, 44, 59, 88, 90, 33, 34, 40, 41, 63, 39, 43, 124, 35, 62, 0, 36, 64, 91,
     93, 126, 94, 125, 60, 96, 123, 92, 195, 208, 128, 130, 131, 162, 184, 194, 224, 226, 153, 161,
     167, 172, 176, 177, 179, 209, 216, 217, 227, 229, 230, 129, 132, 133, 134, 136, 146, 154, 156,
     160, 163, 164, 169, 170, 173, 178, 181, 185, 186, 187, 189, 190, 196, 198, 228, 232, 233, 1,
     135, 137, 138, 139, 140, 141, 143, 147, 149, 150, 151, 152, 155, 157, 158, 165, 166, 168, 174,
     175, 180, 182, 183, 188, 191, 197, 231, 239, 9, 142, 144, 145, 148, 159, 171, 206, 215, 225,
     236, 237, 199, 207, 234, 235, 192, 193, 200, 201, 202, 205, 210, 213, 218, 219, 238, 240, 242,
     243, 255, 203, 204, 211, 212, 214, 221, 222, 223, 241, 244, 245, 246, 247, 248, 250, 251, 252,
     253, 254, 2, 3, 4, 5, 6, 7, 8, 11, 12, 14, 15, 16, 17, 18, 19, 20, 21, 23, 24, 25, 26, 27, 28,
     29, 30, 31, 127, 220, 249, 10, 13, 22, 256]"

definition HpackHuffmanLengthOffsets :: "nat list" where
  "HpackHuffmanLengthOffsets = [
     0, 0, 0, 0, 0, 0, 10, 36, 68, 74, 74, 79, 82, 84, 90, 92, 95, 95, 95, 95, 98, 106, 119, 145,
     174, 186, 190, 205, 224, 253, 253, 257]"

definition HpackHuffmanLengthCounts :: "nat list" where
  "HpackHuffmanLengthCounts = [
     0, 0, 0, 0, 0, 10, 26, 32, 6, 0, 5, 3, 2, 6, 2, 3, 0, 0, 0, 3, 8, 13, 26, 29, 12, 4, 15, 19,
     29, 0, 4, 0]"

definition FindHuffmanSymbol :: "nat \<Rightarrow> nat \<Rightarrow> nat option" where
  "FindHuffmanSymbol code bitLength =
     (if bitLength \<ge> 32 then None
      else find (\<lambda>candidate. fst (HpackHuffmanEncodeTable ! candidate) = code)
             (take (HpackHuffmanLengthCounts ! bitLength)
               (drop (HpackHuffmanLengthOffsets ! bitLength) HpackHuffmanSymbolsByLength)))"

section \<open>Encoding\<close>

definition HpackHuffmanEncodedLength :: "bytes \<Rightarrow> nat" where
  "HpackHuffmanEncodedLength src =
     (if src = [] then 0 else (sum_list (map (\<lambda>b. snd (HpackHuffmanEncodeTable ! unat b)) src) + 7) div 8)"

text \<open>The bytes written, \<open>currentByte\<close> and \<open>bitCount\<close>.\<close>

type_synonym huffman_writer = "bytes \<times> byte \<times> nat"

text \<open>The loop over the bits of one code, \<open>n\<close> of them left.\<close>

fun huffman_put_bits :: "nat \<Rightarrow> nat \<Rightarrow> nat \<Rightarrow> huffman_writer \<Rightarrow> huffman_writer result" where
  "huffman_put_bits code 0 capacity w = Inr w"
| "huffman_put_bits code (Suc n) capacity (dest, currentByte, bitCount) =
     (let currentByte1 = push_bit 1 currentByte OR uchar (drop_bit n code AND 1)
      in if bitCount + 1 = 8
         then if length dest \<ge> capacity then Inl STATUS_BUFFER_TOO_SMALL
              else huffman_put_bits code n capacity (dest @ [currentByte1], 0, 0)
         else huffman_put_bits code n capacity (dest, currentByte1, bitCount + 1))"

fun huffman_put_symbols :: "bytes \<Rightarrow> nat \<Rightarrow> huffman_writer \<Rightarrow> huffman_writer result" where
  "huffman_put_symbols [] capacity w = Inr w"
| "huffman_put_symbols (b # src) capacity w =
     rbind (huffman_put_bits (fst (HpackHuffmanEncodeTable ! unat b)) (snd (HpackHuffmanEncodeTable ! unat b)) capacity w)
       (huffman_put_symbols src capacity)"

definition HpackHuffmanEncode :: "bytes \<Rightarrow> nat \<Rightarrow> bytes result" where
  "HpackHuffmanEncode src capacity =
     (if src = [] then Inr []
      else rbind (huffman_put_symbols src capacity ([], 0, 0)) (\<lambda>(dest, currentByte, bitCount).
             if bitCount > 0
             then if length dest \<ge> capacity then Inl STATUS_BUFFER_TOO_SMALL
                  else Inr (dest @ [push_bit (8 - bitCount) currentByte OR uchar (push_bit (8 - bitCount) 1 - 1)])
             else Inr dest))"

section \<open>Decoding\<close>

text \<open>
  The bytes written, \<open>currentCode\<close> and \<open>currentBitLen\<close>; the code has at most 31 bits before the length
  check ends the loop, so that the 32-bit shift loses none.
\<close>

type_synonym huffman_reader = "bytes \<times> nat \<times> nat"

definition huffman_take_bit :: "nat \<Rightarrow> nat \<Rightarrow> huffman_reader \<Rightarrow> huffman_reader result" where
  "huffman_take_bit capacity b r =
     (case r of (dest, currentCode, currentBitLen) \<Rightarrow>
        let code = push_bit 1 currentCode OR b; bitLen = currentBitLen + 1
        in if bitLen > 30 then Inl STATUS_INVALID_NETWORK_RESPONSE
           else case FindHuffmanSymbol code bitLen of
                  None \<Rightarrow> Inr (dest, code, bitLen)
                | Some symbol \<Rightarrow>
                    if symbol = 256 then Inl STATUS_INVALID_NETWORK_RESPONSE
                    else if length dest \<ge> capacity then Inl STATUS_BUFFER_TOO_SMALL
                    else Inr (dest @ [uchar symbol], 0, 0))"

text \<open>The loop over the bits of one byte, \<open>n\<close> of them left.\<close>

fun huffman_take_bits :: "byte \<Rightarrow> nat \<Rightarrow> nat \<Rightarrow> huffman_reader \<Rightarrow> huffman_reader result" where
  "huffman_take_bits b 0 capacity r = Inr r"
| "huffman_take_bits b (Suc n) capacity r =
     rbind (huffman_take_bit capacity (unat (drop_bit n b AND 1)) r) (huffman_take_bits b n capacity)"

fun huffman_take_bytes :: "bytes \<Rightarrow> nat \<Rightarrow> huffman_reader \<Rightarrow> huffman_reader result" where
  "huffman_take_bytes [] capacity r = Inr r"
| "huffman_take_bytes (b # src) capacity r = rbind (huffman_take_bits b 8 capacity r) (huffman_take_bytes src capacity)"

definition HpackHuffmanDecode :: "bytes \<Rightarrow> nat \<Rightarrow> bytes result" where
  "HpackHuffmanDecode src capacity =
     (if src = [] then Inr []
      else rbind (huffman_take_bytes src capacity ([], 0, 0)) (\<lambda>(dest, currentCode, currentBitLen).
             if currentBitLen > 7 then Inl STATUS_INVALID_NETWORK_RESPONSE
             else let paddingMask = push_bit currentBitLen 1 - 1
               in if currentBitLen > 0 \<and> currentCode AND paddingMask \<noteq> paddingMask
                  then Inl STATUS_INVALID_NETWORK_RESPONSE else Inr dest))"

section \<open>The canonical code\<close>

text \<open>The first code of each length: twice what follows the last code of the length before.\<close>

definition huffman_first :: "nat list" where
  "huffman_first = [
     0, 0, 0, 0, 0, 0, 20, 92, 248, 508, 1016, 2042, 4090, 8184, 16380, 32764, 65534, 131068,
     262136, 524272, 1048550, 2097116, 4194258, 8388568, 16777194, 33554412, 67108832, 134217694,
     268435426, 536870910, 1073741820, 2147483648]"

abbreviation huffman_count :: "nat \<Rightarrow> nat" where
  "huffman_count l \<equiv> HpackHuffmanLengthCounts ! l"

definition huffman_bucket :: "nat \<Rightarrow> nat list" where
  "huffman_bucket l = take (HpackHuffmanLengthCounts ! l) (drop (HpackHuffmanLengthOffsets ! l) HpackHuffmanSymbolsByLength)"

text \<open>The tables are evaluated by the simplifier, which must not rewrite the elements of a list it only looks into.\<close>

lemma nth_index_cong: "n = m \<Longrightarrow> xs ! n = xs ! m" by simp

lemma huffman_first_step:
  "list_all (\<lambda>l. huffman_first ! Suc l = 2 * (huffman_first ! l + huffman_count l)) [0..<31]"
  unfolding huffman_first_def HpackHuffmanLengthCounts_def
  by (simp add: upt_rec cong: nth_index_cong)

lemma huffman_offset_step:
  "list_all (\<lambda>l. HpackHuffmanLengthOffsets ! Suc l = HpackHuffmanLengthOffsets ! l + huffman_count l) [0..<31]"
  unfolding HpackHuffmanLengthOffsets_def HpackHuffmanLengthCounts_def
  by (simp add: upt_rec cong: nth_index_cong)

lemma huffman_table_ends:
  "HpackHuffmanLengthOffsets ! 0 = 0" "HpackHuffmanLengthOffsets ! 31 = 257" "huffman_count 31 = 0"
  "huffman_first ! 30 + huffman_count 30 = 2 ^ 30"
  unfolding HpackHuffmanLengthOffsets_def HpackHuffmanLengthCounts_def huffman_first_def by simp_all

definition canonical_codes :: "nat \<Rightarrow> (nat \<times> nat) list" where
  "canonical_codes l = map (\<lambda>i. (huffman_first ! l + i, l)) [0..<huffman_count l]"

lemma huffman_codes:
  "map (\<lambda>s. HpackHuffmanEncodeTable ! s) HpackHuffmanSymbolsByLength = concat (map canonical_codes [0..<31])"
  unfolding HpackHuffmanEncodeTable_def HpackHuffmanSymbolsByLength_def huffman_first_def HpackHuffmanLengthCounts_def
    canonical_codes_def
  by (simp add: upt_rec cong: nth_index_cong)

lemma huffman_symbols: "length HpackHuffmanSymbolsByLength = 257" "list_all (\<lambda>s. s < 257) HpackHuffmanSymbolsByLength"
  unfolding HpackHuffmanSymbolsByLength_def by simp_all

text \<open>Consecutive slices of a list, given by their offsets.\<close>

lemma concat_slices:
  assumes "\<And>k. k < n \<Longrightarrow> off (Suc k) = off k + count k" "off 0 = (0::nat)"
  shows "concat (map (\<lambda>k. take (count k) (drop (off k) xs)) [0..<n]) = take (off n) xs"
  using assms by (induction n) (auto simp: take_add)

lemma slice_concat:
  assumes "\<And>k. k < n \<Longrightarrow> off (Suc k) = off k + length (f k)" "off 0 = (0::nat)" "l < n"
  shows "take (length (f l)) (drop (off l) (concat (map f [0..<n]))) = f l"
proof -
  have off: "k \<le> n \<Longrightarrow> off k = length (concat (map f [0..<k]))" for k
    using assms(1,2) by (induction k) auto
  have "[0..<n] = [0..<l] @ l # [Suc l..<n]"
    using assms(3) upt_add_eq_append [of 0 l "n - l"] by (simp add: upt_conv_Cons)
  then have "concat (map f [0..<n]) = concat (map f [0..<l]) @ f l @ concat (map f [Suc l..<n])"
    by simp
  then show ?thesis using off [of l] assms(3) by simp
qed

abbreviation code_of :: "nat \<Rightarrow> nat \<times> nat" where
  "code_of s \<equiv> HpackHuffmanEncodeTable ! s"

lemma offset_step: "l < 31 \<Longrightarrow> HpackHuffmanLengthOffsets ! Suc l = HpackHuffmanLengthOffsets ! l + huffman_count l"
  using huffman_offset_step by (simp add: list_all_iff)

lemma first_step: "l < 31 \<Longrightarrow> huffman_first ! Suc l = 2 * (huffman_first ! l + huffman_count l)"
  using huffman_first_step by (simp add: list_all_iff)

lemma length_canonical_codes [simp]: "length (canonical_codes l) = huffman_count l"
  by (simp add: canonical_codes_def)

text \<open>The symbols of a length have consecutive codes.\<close>

lemma bucket_codes: "l < 31 \<Longrightarrow> map code_of (huffman_bucket l) = canonical_codes l"
  using slice_concat [of 31 "\<lambda>l. HpackHuffmanLengthOffsets ! l" canonical_codes l] offset_step huffman_table_ends(1)
  unfolding huffman_codes [symmetric] huffman_bucket_def by (simp add: take_map drop_map)

lemma bucket_length: "l < 31 \<Longrightarrow> length (huffman_bucket l) = huffman_count l"
  using bucket_codes [of l] by (metis length_canonical_codes length_map)

lemma bucket_nth: "l < 31 \<Longrightarrow> i < huffman_count l \<Longrightarrow> code_of (huffman_bucket l ! i) = (huffman_first ! l + i, l)"
  using bucket_codes [of l] bucket_length [of l] by (auto simp: canonical_codes_def list_eq_iff_nth_eq)

lemma buckets: "concat (map huffman_bucket [0..<31]) = HpackHuffmanSymbolsByLength"
  using concat_slices [of 31 "\<lambda>l. HpackHuffmanLengthOffsets ! l" huffman_count HpackHuffmanSymbolsByLength]
    offset_step huffman_table_ends(1,2) huffman_symbols(1)
  by (simp add: huffman_bucket_def [abs_def])

lemma distinct_canonical: "distinct (concat (map canonical_codes [0..<n]))"
  by (induction n) (auto simp: canonical_codes_def distinct_map inj_on_def)

lemma symbols_all: "set HpackHuffmanSymbolsByLength = {..<257}"
proof (rule card_subset_eq)
  have "distinct HpackHuffmanSymbolsByLength"
    using distinct_canonical [of 31] unfolding huffman_codes [symmetric] by (simp add: distinct_map)
  then show "card (set HpackHuffmanSymbolsByLength) = card {..<257::nat}"
    using huffman_symbols(1) by (simp add: distinct_card)
  show "set HpackHuffmanSymbolsByLength \<subseteq> {..<257}" using huffman_symbols(2) by (auto simp: list_all_iff)
qed simp

lemma symbol_code:
  assumes "s < 257"
  obtains l i where "l < 31" "i < huffman_count l" "huffman_bucket l ! i = s" "code_of s = (huffman_first ! l + i, l)"
proof -
  have "s \<in> set (concat (map huffman_bucket [0..<31]))" using assms symbols_all buckets by simp
  then obtain l where l: "l < 31" "s \<in> set (huffman_bucket l)" by auto
  then obtain i where "i < length (huffman_bucket l)" "huffman_bucket l ! i = s" by (metis in_set_conv_nth)
  then show ?thesis using that [of l i] l bucket_length bucket_nth [of l i] by auto
qed

lemma FindHuffmanSymbol_eq:
  assumes "l < 31"
  shows "FindHuffmanSymbol c l = (if huffman_first ! l \<le> c \<and> c < huffman_first ! l + huffman_count l
    then Some (huffman_bucket l ! (c - huffman_first ! l)) else None)"
proof -
  have "find (\<lambda>s. fst (code_of s) = c) ss
      = (if f \<le> c \<and> c < f + length ss then Some (ss ! (c - f)) else None)"
    if "map (\<lambda>s. fst (code_of s)) ss = [f..<f + length ss]" for ss f
    using that
  proof (induction ss arbitrary: f)
    case (Cons s ss)
    have "f < f + length (s # ss)" by simp
    then have "[f..<f + length (s # ss)] = f # [Suc f..<f + length (s # ss)]" by (rule upt_conv_Cons)
    then have "fst (code_of s) = f" "map (\<lambda>s. fst (code_of s)) ss = [Suc f..<Suc f + length ss]"
      using Cons.prems by simp_all
    with Cons.IH [of "Suc f"] show ?case by (auto simp: nth_Cons' Suc_diff_le not_le)
  qed simp
  moreover have "map (\<lambda>s. fst (code_of s)) (huffman_bucket l)
      = [huffman_first ! l..<huffman_first ! l + length (huffman_bucket l)]"
    unfolding bucket_length [OF assms]
    using arg_cong [OF bucket_codes [OF assms], of "map fst"]
    by (simp add: canonical_codes_def comp_def map_add_upt add.commute)
  ultimately show ?thesis
    using assms bucket_length [OF assms] by (simp add: FindHuffmanSymbol_def huffman_bucket_def [symmetric])
qed

lemma FindHuffmanSymbol_code:
  assumes "FindHuffmanSymbol c l = Some s" "l < 31"
  shows "code_of s = (c, l)"
  using assms bucket_nth [of l "c - huffman_first ! l"]
  by (auto simp: FindHuffmanSymbol_eq split: if_splits)

lemma first_grows:
  assumes "k < l" "l < 31"
  shows "(huffman_first ! k + huffman_count k) * 2 ^ (l - k) \<le> huffman_first ! l"
  using assms
proof (induction l)
  case (Suc l)
  show ?case
  proof (cases "k = l")
    case False
    with Suc have "(huffman_first ! k + huffman_count k) * 2 ^ (l - k) \<le> huffman_first ! l" by simp
    with False Suc.prems first_step [of l] show ?thesis by (simp add: Suc_diff_le)
  qed (use Suc.prems first_step [of l] in simp)
qed simp

lemma codes_below:
  assumes "l < 30"
  shows "huffman_first ! l + huffman_count l < 2 ^ l"
proof -
  have "huffman_first ! 30 < 2 ^ 30" using huffman_table_ends(4) by (simp add: HpackHuffmanLengthCounts_def)
  moreover have "(2::nat) ^ 30 = 2 ^ l * 2 ^ (30 - l)" using assms by (simp add: power_add [symmetric])
  ultimately have "(huffman_first ! l + huffman_count l) * 2 ^ (30 - l) < 2 ^ l * 2 ^ (30 - l)"
    using first_grows [of l 30] assms by linarith
  then show ?thesis by simp
qed

text \<open>The prefix property: a proper prefix of a code is not a code.\<close>

lemma prefix_no_code:
  assumes "s < 257" "code_of s = (c, l)" "0 < n" "n < l"
  shows "FindHuffmanSymbol (drop_bit n c) (l - n) = None"
proof -
  obtain i where l: "l < 31" "c = huffman_first ! l + i"
    using symbol_code [OF assms(1)] assms(2) by (metis prod.inject)
  have "(huffman_first ! (l - n) + huffman_count (l - n)) * 2 ^ n \<le> c"
    using first_grows [of "l - n" l] assms(3,4) l by simp
  then have "huffman_first ! (l - n) + huffman_count (l - n) \<le> drop_bit n c"
    by (simp add: drop_bit_eq_div less_eq_div_iff_mult_less_eq)
  then show ?thesis using l(1) by (simp add: FindHuffmanSymbol_eq)
qed

lemma ones_no_code: "k < 30 \<Longrightarrow> FindHuffmanSymbol (2 ^ k - 1) k = None"
  using codes_below [of k] by (subst FindHuffmanSymbol_eq) (linarith, simp, linarith)

lemma code_bounds:
  assumes "s < 257" "code_of s = (c, l)"
  shows "FindHuffmanSymbol c l = Some s" "5 \<le> l" "l < 31" "c < 2 ^ l"
proof -
  obtain i where i: "l < 31" "i < huffman_count l" "huffman_bucket l ! i = s" "c = huffman_first ! l + i"
    using symbol_code [OF assms(1)] assms(2) by (metis prod.inject)
  then show "FindHuffmanSymbol c l = Some s" by (simp add: FindHuffmanSymbol_eq)
  show "l < 31" by (rule i(1))
  show "c < 2 ^ l"
  proof (cases "l = 30")
    case True
    then show ?thesis using i(2,4) huffman_table_ends(4) by simp
  next
    case False
    then show ?thesis using codes_below [of l] i by linarith
  qed
  have "list_all (\<lambda>l. huffman_count l = 0) [0..<5]" by (simp add: HpackHuffmanLengthCounts_def upt_rec)
  then have "l < 5 \<Longrightarrow> huffman_count l = 0" by (simp add: list_all_iff)
  then show "5 \<le> l" using i(2) by (cases "l < 5") simp_all
qed

section \<open>Texts as bits\<close>

text \<open>The \<open>n\<close> low bits of a number, most significant first.\<close>

fun code_bits :: "nat \<Rightarrow> nat \<Rightarrow> bool list" where
  "code_bits c 0 = []"
| "code_bits c (Suc n) = odd (drop_bit n c) # code_bits c n"

definition byte_bits :: "byte \<Rightarrow> bool list" where
  "byte_bits b = code_bits (unat b) 8"

definition huffman_bits :: "byte \<Rightarrow> bool list" where
  "huffman_bits b = code_bits (fst (code_of (unat b))) (snd (code_of (unat b)))"

abbreviation bytes_bits :: "bytes \<Rightarrow> bool list" where
  "bytes_bits bs \<equiv> concat (map byte_bits bs)"

abbreviation text_bits :: "bytes \<Rightarrow> bool list" where
  "text_bits bs \<equiv> concat (map huffman_bits bs)"

lemma length_code_bits [simp]: "length (code_bits c n) = n"
  by (induction n) auto

lemma length_byte_bits [simp]: "length (byte_bits b) = 8"
  by (simp add: byte_bits_def)

lemma length_bytes_bits [simp]: "length (bytes_bits bs) = 8 * length bs"
  by (induction bs) auto

lemma code_bits_snoc: "code_bits c (Suc n) = code_bits (c div 2) n @ [odd c]"
proof (induction n)
  case (Suc n)
  have "drop_bit (Suc n) c = drop_bit n (c div 2)" by (simp add: drop_bit_Suc)
  with Suc show ?case by (simp del: drop_bit_Suc)
qed simp

lemma code_bits_add: "code_bits c (m + n) = code_bits (drop_bit n c) m @ code_bits c n"
  by (induction m) (auto simp: add.commute)

lemma code_bits_mod: "code_bits (c mod 2 ^ n) n = code_bits c n"
proof -
  have "k \<le> n \<Longrightarrow> code_bits (c mod 2 ^ n) k = code_bits c k" for k
  proof (induction k)
    case (Suc k)
    have "odd (drop_bit k (c mod 2 ^ n)) = odd (drop_bit k c)"
      using Suc.prems by (simp add: bit_iff_odd_drop_bit [symmetric] take_bit_eq_mod [symmetric] bit_take_bit_iff)
    with Suc show ?case by simp
  qed simp
  then show ?thesis by simp
qed

lemma code_bits_inject: "c < 2 ^ n \<Longrightarrow> d < 2 ^ n \<Longrightarrow> code_bits c n = code_bits d n \<Longrightarrow> c = d"
proof (induction n arbitrary: c d)
  case (Suc n)
  then have "c div 2 = d div 2" "odd c = odd d"
    unfolding code_bits_snoc by (auto simp: less_mult_imp_div_less mult.commute)
  then show ?case by (metis even_two_times_div_two odd_two_times_div_two_succ)
qed simp

lemma code_bits_ones: "code_bits (2 ^ n - 1) n = replicate n True"
proof (induction n)
  case (Suc n)
  have "(2 ^ Suc n - 1 :: nat) div 2 = 2 ^ n - 1" "odd (2 ^ Suc n - 1 :: nat)"
    by (auto simp: even_diff_nat)
  with Suc show ?case unfolding code_bits_snoc by (simp add: replicate_append_same)
qed simp

lemma byte_bits_inject [simp]: "byte_bits a = byte_bits b \<longleftrightarrow> a = b"
  using code_bits_inject [of "unat a" 8 "unat b"] by (auto simp: byte_bits_def word_unat_eq_iff)

lemma bytes_bits_inject: "bytes_bits xs = bytes_bits ys \<Longrightarrow> xs = ys"
proof (induction xs arbitrary: ys)
  case Nil
  then have "length (bytes_bits ys) = 0" by (simp only: list.map concat.simps list.size)
  then show ?case by (simp only: length_bytes_bits) simp
next
  case (Cons x xs)
  then obtain y ys' where "ys = y # ys'"
    by (cases ys) (auto simp: byte_bits_def numeral_eq_Suc)
  with Cons show ?case by (auto simp: append_eq_append_conv)
qed

lemma huffman_symbol_code:
  obtains c l where "code_of (unat (b :: byte)) = (c, l)" "huffman_bits b = code_bits c l" "5 \<le> l" "l < 31" "c < 2 ^ l"
    "FindHuffmanSymbol c l = Some (unat b)" "\<And>n. 0 < n \<Longrightarrow> n < l \<Longrightarrow> FindHuffmanSymbol (drop_bit n c) (l - n) = None"
proof -
  obtain c l where c: "code_of (unat b) = (c, l)" by fastforce
  have "unat b < 257" using unat_byte_less [of b] by linarith
  then show ?thesis using that [OF c] code_bounds [OF _ c] prefix_no_code [OF _ c] c by (simp add: huffman_bits_def)
qed

section \<open>The writer\<close>

definition writer_bits :: "huffman_writer \<Rightarrow> bool list" where
  "writer_bits w = (case w of (dest, currentByte, bitCount) \<Rightarrow> bytes_bits dest @ code_bits (unat currentByte) bitCount)"

definition writer_ok :: "nat \<Rightarrow> huffman_writer \<Rightarrow> bool" where
  "writer_ok capacity w = (case w of (dest, currentByte, bitCount) \<Rightarrow>
     length dest \<le> capacity \<and> bitCount < 8 \<and> unat currentByte < 2 ^ bitCount)"

lemma shift_in:
  assumes "unat (b :: byte) < 2 ^ n" "n < 8"
  shows "unat (push_bit 1 b OR uchar (x AND 1)) = 2 * unat b + x mod 2"
proof -
  have "2 * unat b < 2 ^ Suc n" using assms(1) by simp
  also have "(2::nat) ^ Suc n \<le> 2 ^ 8" using assms(2) by (intro power_increasing) simp_all
  finally have b: "2 * unat b < 256" by simp
  have u: "unat (push_bit 1 b) = 2 * unat b" using b by (simp add: unat_word_ariths)
  show ?thesis
  proof (cases "odd x")
    case True
    then have "uchar (x AND 1) = 1" by (simp add: uchar_def and_one_eq mod_2_eq_odd)
    then have "push_bit 1 b OR uchar (x AND 1) = push_bit 1 b + 1" by (simp only: or_one_eq) simp
    then show ?thesis using True b u by (simp add: unat_word_ariths mod_2_eq_odd)
  next
    case False
    then have "uchar (x AND 1) = 0" by (simp add: uchar_def and_one_eq mod_2_eq_odd)
    then show ?thesis using False u by (simp add: mod_2_eq_odd)
  qed
qed

lemma put_bits:
  assumes "writer_ok capacity w"
  shows "case huffman_put_bits code n capacity w of
      Inl e \<Rightarrow> e = STATUS_BUFFER_TOO_SMALL \<and> capacity < (length (writer_bits w) + n) div 8
    | Inr w' \<Rightarrow> writer_ok capacity w' \<and> writer_bits w' = writer_bits w @ code_bits code n"
  using assms
proof (induction code n capacity w rule: huffman_put_bits.induct)
  case (2 code n capacity dest cur cnt)
  let ?x = "drop_bit n code" and ?cur = "push_bit 1 cur OR uchar (drop_bit n code AND 1)"
  have ok: "length dest \<le> capacity" "cnt < 8" "unat cur < 2 ^ cnt" using 2(3) by (auto simp: writer_ok_def)
  have u: "unat ?cur = 2 * unat cur + ?x mod 2" by (rule shift_in [OF ok(3,2)])
  have "code_bits (unat ?cur) (Suc cnt) = code_bits (unat cur) cnt @ [odd ?x]"
    unfolding code_bits_snoc u by (cases "odd ?x") (auto simp: mod_2_eq_odd)
  then have step: "writer_bits (dest, cur, cnt) @ code_bits code (Suc n)
      = (bytes_bits dest @ code_bits (unat ?cur) (Suc cnt)) @ code_bits code n"
    by (simp add: writer_bits_def)
  show ?case
  proof (cases "cnt + 1 = 8")
    case True
    then have full: "bytes_bits dest @ code_bits (unat ?cur) (Suc cnt) = writer_bits (dest @ [?cur], 0, 0)"
      by (simp add: writer_bits_def byte_bits_def)
    show ?thesis
    proof (cases "length dest \<ge> capacity")
      case True
      then show ?thesis using \<open>cnt + 1 = 8\<close> ok by (simp add: writer_bits_def Let_def)
    next
      case False
      then have "writer_ok capacity (dest @ [?cur], 0, 0)" by (simp add: writer_ok_def)
      from 2(1) [OF refl True False this] show ?thesis
        using True False step full by (auto simp: writer_bits_def Let_def split: sum.splits)
    qed
  next
    case False
    have "unat ?cur < 2 ^ (cnt + 1)" using ok(3) u by (cases "odd ?x") (auto simp: mod_2_eq_odd)
    then have "writer_ok capacity (dest, ?cur, cnt + 1)" using ok False by (simp add: writer_ok_def)
    from 2(2) [OF refl False this] show ?thesis
      using False step by (auto simp: writer_bits_def Let_def split: sum.splits)
  qed
qed simp

lemma put_symbols:
  assumes "writer_ok capacity w"
  shows "case huffman_put_symbols src capacity w of
      Inl e \<Rightarrow> e = STATUS_BUFFER_TOO_SMALL \<and> capacity < (length (writer_bits w @ text_bits src)) div 8
    | Inr w' \<Rightarrow> writer_ok capacity w' \<and> writer_bits w' = writer_bits w @ text_bits src"
  using assms
proof (induction src arbitrary: w)
  case (Cons b src)
  obtain c l where c: "code_of (unat b) = (c, l)" "huffman_bits b = code_bits c l" by (rule huffman_symbol_code)
  show ?case
  proof (cases "huffman_put_bits c l capacity w")
    case (Inl e)
    then have "e = STATUS_BUFFER_TOO_SMALL" "capacity < (length (writer_bits w) + l) div 8"
      using put_bits [OF Cons.prems, where code = c and n = l] by auto
    moreover have "(length (writer_bits w) + l) div 8 \<le> length (writer_bits w @ text_bits (b # src)) div 8"
      by (rule div_le_mono) (simp add: c(2))
    ultimately show ?thesis using Inl c(1) by simp
  next
    case (Inr w')
    then show ?thesis using put_bits [OF Cons.prems, where code = c and n = l] Cons.IH [of w'] c by (auto split: sum.splits)
  qed
qed simp

lemma encoded_length: "HpackHuffmanEncodedLength src = (length (text_bits src) + 7) div 8"
proof -
  have "length (huffman_bits b) = snd (code_of (unat b))" for b by (simp add: huffman_bits_def)
  then have "length (text_bits src) = sum_list (map (\<lambda>b. snd (code_of (unat b))) src)"
    by (induction src) auto
  then show ?thesis by (simp add: HpackHuffmanEncodedLength_def)
qed

lemma div_mod_below_multiple:
  assumes "0 < m"
  shows "(u * m + (m - 1)) div m = (u :: nat)" "(u * m + (m - 1)) mod m = m - 1"
proof -
  have "(u * m + (m - 1)) div m = u + (m - 1) div m" "(u * m + (m - 1)) mod m = (m - 1) mod m"
    using assms by (simp_all only: div_mult_self3 mod_mult_self3)
  then show "(u * m + (m - 1)) div m = u" "(u * m + (m - 1)) mod m = m - 1" using assms by simp_all
qed

lemma ones_pad:
  assumes "unat (b :: byte) < 2 ^ n" "n < 8"
  shows "byte_bits (push_bit (8 - n) b OR uchar (push_bit (8 - n) 1 - 1)) = code_bits (unat b) n @ replicate (8 - n) True"
proof -
  let ?k = "8 - n"
  have k: "(2::nat) ^ n * 2 ^ ?k = 2 ^ 8" using assms(2) by (simp add: power_add [symmetric])
  have "unat b * 2 ^ ?k < 2 ^ n * 2 ^ ?k" using assms(1) by simp
  then have b: "unat b * 2 ^ ?k < 256" using k by simp
  have "(2::nat) ^ ?k \<le> 2 ^ 8" by (intro power_increasing) simp_all
  then have o: "push_bit ?k 1 - 1 < (256::nat)" by (simp add: push_bit_eq_mult)
  have "unat (push_bit ?k b) = take_bit 8 (push_bit ?k (unat b))" by (simp add: unsigned_push_bit_eq)
  also have "\<dots> = unat b * 2 ^ ?k" using b by (simp add: push_bit_eq_mult take_bit_eq_mod)
  finally have "unat (push_bit ?k b) = unat b * 2 ^ ?k" .
  then have "unat (push_bit ?k b OR uchar (push_bit ?k 1 - 1)) = push_bit ?k (unat b) OR (2 ^ ?k - 1)"
    using o by (simp add: unsigned_or_eq push_bit_eq_mult)
  also have "\<dots> = unat b * 2 ^ ?k + (2 ^ ?k - 1)" by (rule push_bit_or_nat) simp
  finally have u: "unat (push_bit ?k b OR uchar (push_bit ?k 1 - 1)) = unat b * 2 ^ ?k + (2 ^ ?k - 1)" .
  have "(unat b * 2 ^ ?k + (2 ^ ?k - 1)) div 2 ^ ?k = unat b" by (rule div_mod_below_multiple) simp
  then have "drop_bit ?k (unat b * 2 ^ ?k + (2 ^ ?k - 1)) = unat b" by (simp only: drop_bit_eq_div)
  moreover have "(unat b * 2 ^ ?k + (2 ^ ?k - 1)) mod 2 ^ ?k = 2 ^ ?k - 1" by (rule div_mod_below_multiple) simp
  then have "code_bits (unat b * 2 ^ ?k + (2 ^ ?k - 1)) ?k = replicate ?k True"
    using code_bits_mod [of "unat b * 2 ^ ?k + (2 ^ ?k - 1)" ?k] code_bits_ones [of ?k] by (simp only:)
  ultimately show ?thesis
    using code_bits_add [of "unat b * 2 ^ ?k + (2 ^ ?k - 1)" n ?k] assms(2) unfolding byte_bits_def u by simp
qed

text \<open>What is written: the codes, and ones to the end of the byte; it fails only for want of room.\<close>

lemma encode_bits:
  "case HpackHuffmanEncode src capacity of
      Inl e \<Rightarrow> e = STATUS_BUFFER_TOO_SMALL \<and> capacity < HpackHuffmanEncodedLength src
    | Inr out \<Rightarrow> length out = HpackHuffmanEncodedLength src \<and> length out \<le> capacity
        \<and> (\<exists>k<8. bytes_bits out = text_bits src @ replicate k True)"
proof (cases "src = []")
  case True
  then show ?thesis by (simp add: HpackHuffmanEncode_def HpackHuffmanEncodedLength_def)
next
  case False
  have start: "writer_ok capacity ([], 0, 0)" "writer_bits ([], 0, 0) = []" by (simp_all add: writer_ok_def writer_bits_def)
  show ?thesis
  proof (cases "huffman_put_symbols src capacity ([], 0, 0)")
    case (Inl e)
    then have "e = STATUS_BUFFER_TOO_SMALL" "capacity < length (text_bits src) div 8"
      using put_symbols [OF start(1), of src] start(2) by auto
    then show ?thesis using Inl False by (simp add: HpackHuffmanEncode_def encoded_length)
  next
    case (Inr w)
    obtain dest cur cnt where w: "w = (dest, cur, cnt)" by (cases w)
    have ok: "length dest \<le> capacity" "cnt < 8" "unat cur < 2 ^ cnt"
      and bits: "text_bits src = bytes_bits dest @ code_bits (unat cur) cnt"
      using put_symbols [OF start(1), of src] start(2) Inr by (auto simp: w writer_ok_def writer_bits_def)
    have len: "HpackHuffmanEncodedLength src = length dest + (if cnt > 0 then 1 else 0)"
      using ok(2) by (auto simp: encoded_length bits)
    show ?thesis
    proof (cases "cnt > 0")
      case True
      note pad = ones_pad [OF ok(3,2)]
      have "\<exists>k<8. bytes_bits (dest @ [push_bit (8 - cnt) cur OR uchar (push_bit (8 - cnt) 1 - 1)])
          = text_bits src @ replicate k True"
        using True pad bits by (intro exI [of _ "8 - cnt"]) simp
      then show ?thesis using True Inr w len ok(1) False by (auto simp: HpackHuffmanEncode_def)
    next
      case False
      then show ?thesis using Inr w len ok(1) \<open>src \<noteq> []\<close> bits by (auto simp: HpackHuffmanEncode_def intro: exI [of _ 0])
    qed
  qed
qed

section \<open>The reader\<close>

text \<open>The two nested loops are one over the bits.\<close>

fun huffman_run :: "nat \<Rightarrow> bool list \<Rightarrow> huffman_reader \<Rightarrow> huffman_reader result" where
  "huffman_run capacity [] r = Inr r"
| "huffman_run capacity (b # bs) r = rbind (huffman_take_bit capacity (of_bool b) r) (huffman_run capacity bs)"

lemma huffman_run_append: "huffman_run capacity (xs @ ys) r = rbind (huffman_run capacity xs r) (huffman_run capacity ys)"
  by (induction xs arbitrary: r) (auto simp: rbind_def split: sum.splits)

lemma take_bits_run: "huffman_take_bits b n capacity r = huffman_run capacity (code_bits (unat b) n) r"
proof (induction n arbitrary: r)
  case (Suc n)
  have "unat (drop_bit n b AND 1) = drop_bit n (unat b) AND 1"
    unfolding unsigned_and_eq unsigned_drop_bit_eq by (simp add: take_bit_nat_eq_self)
  then have "unat (drop_bit n b AND 1) = of_bool (odd (drop_bit n (unat b)))"
    by (simp only: and_one_eq mod_2_eq_odd)
  then show ?case using Suc by (simp add: rbind_def split: sum.splits)
qed simp

lemma take_bytes_run: "huffman_take_bytes src capacity r = huffman_run capacity (bytes_bits src) r"
  by (induction src arbitrary: r) (auto simp: take_bits_run byte_bits_def huffman_run_append rbind_def split: sum.splits)

lemma double_or: "push_bit 1 (c :: nat) OR of_bool b = 2 * c + of_bool b"
  using push_bit_or_nat [of "of_bool b" 1 c] by (cases b) auto

lemma take_bit_eq:
  "huffman_take_bit capacity (of_bool b) (dest, code, bitLen) =
     (if bitLen + 1 > 30 then Inl STATUS_INVALID_NETWORK_RESPONSE
      else case FindHuffmanSymbol (2 * code + of_bool b) (bitLen + 1) of
             None \<Rightarrow> Inr (dest, 2 * code + of_bool b, bitLen + 1)
           | Some symbol \<Rightarrow>
               if symbol = 256 then Inl STATUS_INVALID_NETWORK_RESPONSE
               else if length dest \<ge> capacity then Inl STATUS_BUFFER_TOO_SMALL
               else Inr (dest @ [uchar symbol], 0, 0))"
  by (simp only: huffman_take_bit_def prod.case Let_def double_or)

lemma run_code:
  assumes "l < 31" "\<And>n. 0 < n \<Longrightarrow> n < l \<Longrightarrow> FindHuffmanSymbol (drop_bit n c) (l - n) = None" "n < l"
  shows "huffman_run capacity (code_bits c (Suc n)) (dest, drop_bit (Suc n) c, l - Suc n)
    = huffman_take_bit capacity (of_bool (odd c)) (dest, drop_bit 1 c, l - 1)"
  using assms(3)
proof (induction n)
  case 0
  show ?case by (simp add: rbind_def split: sum.splits)
next
  case (Suc n)
  have "drop_bit (Suc (Suc n)) c = drop_bit (Suc n) c div 2"
    by (simp only: drop_bit_eq_div power_Suc2 div_mult2_eq)
  then have "2 * drop_bit (Suc (Suc n)) c + of_bool (odd (drop_bit (Suc n) c)) = drop_bit (Suc n) c"
    by simp
  moreover have "FindHuffmanSymbol (drop_bit (Suc n) c) (l - Suc n) = None" using assms(2) [of "Suc n"] Suc.prems by simp
  moreover have "Suc (l - Suc (Suc n)) = l - Suc n" using Suc.prems by simp
  ultimately have "huffman_take_bit capacity (of_bool (odd (drop_bit (Suc n) c))) (dest, drop_bit (Suc (Suc n)) c, l - Suc (Suc n))
      = Inr (dest, drop_bit (Suc n) c, l - Suc n)"
    using assms(1) by (simp add: take_bit_eq del: drop_bit_Suc)
  then show ?case using Suc by (simp del: drop_bit_Suc)
qed

lemma run_symbol:
  "huffman_run capacity (huffman_bits b) (dest, 0, 0)
    = (if length dest \<ge> capacity then Inl STATUS_BUFFER_TOO_SMALL else Inr (dest @ [b], 0, 0))"
proof -
  obtain c l where c: "huffman_bits b = code_bits c l" "5 \<le> l" "l < 31" "c < 2 ^ l" "FindHuffmanSymbol c l = Some (unat b)"
    "\<And>n. 0 < n \<Longrightarrow> n < l \<Longrightarrow> FindHuffmanSymbol (drop_bit n c) (l - n) = None"
    by (rule huffman_symbol_code [of b]) blast
  have "drop_bit l c = 0" using c(4) by (simp add: drop_bit_eq_div)
  then have "huffman_run capacity (huffman_bits b) (dest, 0, 0)
      = huffman_take_bit capacity (of_bool (odd c)) (dest, drop_bit 1 c, l - 1)"
    using run_code [OF c(3,6), of "l - 1" capacity dest] c(1,2) by simp
  moreover have "2 * drop_bit 1 c + of_bool (odd c) = c"
    by (simp add: drop_bit_eq_div)
  moreover have "unat b \<noteq> 256" using unat_byte_less [of b] by linarith
  ultimately show ?thesis using c(2,3,5) by (simp add: take_bit_eq)
qed

lemma run_text:
  "huffman_run capacity (text_bits src) (dest, 0, 0)
    = (if length dest + length src \<le> capacity \<or> src = [] then Inr (dest @ src, 0, 0) else Inl STATUS_BUFFER_TOO_SMALL)"
  by (induction src arbitrary: dest) (auto simp: huffman_run_append run_symbol)

lemma run_ones: "k < 30 \<Longrightarrow> huffman_run capacity (replicate k True) (dest, 0, 0) = Inr (dest, 2 ^ k - 1, k)"
proof (induction k)
  case (Suc k)
  have "2 * (2 ^ k - 1 :: nat) + of_bool True = 2 ^ Suc k - 1"
    by (cases "(2::nat) ^ k") simp_all
  then have "huffman_take_bit capacity 1 (dest, 2 ^ k - 1, k) = Inr (dest, 2 ^ Suc k - 1, Suc k)"
    using Suc.prems ones_no_code [of "Suc k"] take_bit_eq [of capacity True dest "2 ^ k - 1" k] by simp
  moreover have "replicate (Suc k) True = replicate k True @ [True]" by (simp add: replicate_append_same)
  ultimately show ?case using Suc by (simp only: huffman_run_append) simp
qed simp

text \<open>Whatever is read, the bytes and the bits of the unfinished code are the input.\<close>

definition reader_bits :: "huffman_reader \<Rightarrow> bool list" where
  "reader_bits r = (case r of (dest, code, bitLen) \<Rightarrow> text_bits dest @ code_bits code bitLen)"

definition reader_ok :: "nat \<Rightarrow> huffman_reader \<Rightarrow> bool" where
  "reader_ok capacity r = (case r of (dest, code, bitLen) \<Rightarrow> length dest \<le> capacity \<and> code < 2 ^ bitLen)"

lemma take_bit_reads:
  assumes "huffman_take_bit capacity (of_bool b) r = Inr r'" "reader_ok capacity r"
  shows "reader_ok capacity r' \<and> reader_bits r' = reader_bits r @ [b]"
proof -
  obtain dest code bitLen where r: "r = (dest, code, bitLen)" by (cases r)
  let ?c = "2 * code + of_bool b" and ?l = "Suc bitLen"
  have ok: "length dest \<le> capacity" "?c < 2 ^ ?l" using assms(2) by (auto simp: r reader_ok_def)
  have bits: "code_bits ?c ?l = code_bits code bitLen @ [b]" unfolding code_bits_snoc by (cases b) auto
  show ?thesis
  proof (cases "FindHuffmanSymbol ?c ?l")
    case None
    then have "r' = (dest, ?c, ?l)" using assms(1) by (auto simp: r take_bit_eq split: if_splits)
    then show ?thesis using ok bits by (simp add: r reader_ok_def reader_bits_def del: code_bits.simps)
  next
    case (Some s)
    then have s: "r' = (dest @ [uchar s], 0, 0)" "s \<noteq> 256" "?l < 31" "length dest < capacity"
      using assms(1) by (auto simp: r take_bit_eq split: if_splits)
    have code: "code_of s = (?c, ?l)" by (rule FindHuffmanSymbol_code [OF Some s(3)])
    have "s < 257"
    proof -
      have "s \<in> set (huffman_bucket ?l)"
        using Some s(3) bucket_length [OF s(3)] by (auto simp: FindHuffmanSymbol_eq split: if_splits)
      then have "s \<in> set HpackHuffmanSymbolsByLength"
        unfolding huffman_bucket_def by (meson in_set_dropD in_set_takeD)
      then show ?thesis using symbols_all by auto
    qed
    then have "huffman_bits (uchar s) = code_bits ?c ?l" using s(2) code by (simp add: huffman_bits_def)
    then show ?thesis using s(1,4) bits by (simp add: r reader_ok_def reader_bits_def del: code_bits.simps(2))
  qed
qed

lemma run_reads:
  "huffman_run capacity bs r = Inr r' \<Longrightarrow> reader_ok capacity r \<Longrightarrow> reader_ok capacity r' \<and> reader_bits r' = reader_bits r @ bs"
proof (induction bs arbitrary: r)
  case (Cons b bs)
  obtain r1 where "huffman_take_bit capacity (of_bool b) r = Inr r1" "huffman_run capacity bs r1 = Inr r'"
    using Cons.prems(1) by (auto simp: rbind_eq_Inr_iff)
  then show ?case using take_bit_reads [of capacity b r r1] Cons.IH [of r1] Cons.prems(2) by simp
qed simp

section \<open>Round trip\<close>

lemma text_bits_length: "5 * length src \<le> length (text_bits src)"
proof (induction src)
  case (Cons b src)
  obtain c l where "huffman_bits b = code_bits c l" "5 \<le> l" by (rule huffman_symbol_code)
  then show ?case using Cons by simp
qed simp

text \<open>The codes of a text and up to seven ones are read as the text.\<close>

lemma decode_text:
  assumes "bytes_bits bs = text_bits src @ replicate k True" "k < 8"
  shows "HpackHuffmanDecode bs capacity
    = (if length src \<le> capacity \<or> src = [] then Inr src else Inl STATUS_BUFFER_TOO_SMALL)"
proof (cases "bs = []")
  case True
  then have "length (text_bits src) = 0" using assms(1) by (metis Nil_is_append_conv concat.simps(1) list.size(3) list.map(1))
  then have "src = []" using text_bits_length [of src] by (simp only:) simp
  with True show ?thesis by (simp add: HpackHuffmanDecode_def)
next
  case False
  have run: "huffman_take_bytes bs capacity ([], 0, 0) = (if length src \<le> capacity \<or> src = [] then Inr (src, 2 ^ k - 1, k)
      else Inl STATUS_BUFFER_TOO_SMALL)"
    unfolding take_bytes_run assms(1) huffman_run_append
    using run_text [of capacity src "[]"] run_ones [of k capacity src] assms(2) by (auto simp: rbind_def split: sum.splits)
  have "(2 ^ k - 1 :: nat) AND (push_bit k 1 - 1) = push_bit k 1 - 1" by (simp add: push_bit_eq_mult)
  then show ?thesis using False assms(2) unfolding HpackHuffmanDecode_def run by (simp add: Let_def)
qed

text \<open>Whatever is decoded is a text with less than a byte of ones behind it.\<close>

lemma decoded_text:
  assumes "HpackHuffmanDecode bs capacity = Inr src"
  shows "length src \<le> capacity \<and> (\<exists>k<8. bytes_bits bs = text_bits src @ replicate k True)"
proof (cases "bs = []")
  case True
  then show ?thesis using assms by (auto simp: HpackHuffmanDecode_def intro: exI [of _ 0])
next
  case False
  obtain code k where run: "huffman_run capacity (bytes_bits bs) ([], 0, 0) = Inr (src, code, k)" and k: "k \<le> 7"
    and ones: "k > 0 \<longrightarrow> code AND (push_bit k 1 - 1) = push_bit k 1 - 1"
    using assms False
    by (auto simp: HpackHuffmanDecode_def take_bytes_run rbind_eq_Inr_iff Let_def split: if_splits)
  have ok: "length src \<le> capacity" "code < 2 ^ k" and bits: "bytes_bits bs = text_bits src @ code_bits code k"
    using run_reads [OF run] by (auto simp: reader_ok_def reader_bits_def)
  have "code AND (2 ^ k - 1) = code" using ok(2) and_mask_nat [of code k] by simp
  then have "code = 2 ^ k - 1" using ones ok(2) by (cases "k = 0") (simp_all add: push_bit_eq_mult)
  then show ?thesis using ok bits k code_bits_ones [of k] by (intro conjI exI [of _ k]) simp_all
qed

text \<open>
  C9. The decoder is the inverse of the encoder and nothing more: it returns a text within its capacity
  exactly when encoding that text gives the very bytes it read. So every encoded text is decoded, no two
  inputs give the same text, and every other input is refused: padding of eight or more bits or with a
  zero in it, the EOS code, a code cut short.
\<close>

theorem huffman_decode_iff_encode:
  "HpackHuffmanDecode bs capacity = Inr src \<longleftrightarrow> length src \<le> capacity \<and> HpackHuffmanEncode src (length bs) = Inr bs"
proof
  assume "HpackHuffmanDecode bs capacity = Inr src"
  from decoded_text [OF this] obtain k where k: "length src \<le> capacity" "k < 8"
      "bytes_bits bs = text_bits src @ replicate k True" by blast
  from arg_cong [OF k(3), of length] have len: "8 * length bs = length (text_bits src) + k" by simp
  then have fits: "HpackHuffmanEncodedLength src = length bs" using k(2) by (simp add: encoded_length)
  have "\<exists>out. HpackHuffmanEncode src (length bs) = Inr out"
    using encode_bits [of "length bs" src] fits by (auto split: sum.splits)
  then obtain out where out: "HpackHuffmanEncode src (length bs) = Inr out" by blast
  obtain k' where k': "bytes_bits out = text_bits src @ replicate k' True" "length out = length bs"
    using encode_bits [of "length bs" src] out fits by auto
  from arg_cong [OF k'(1), of length] have "8 * length bs = length (text_bits src) + k'" using k'(2) by simp
  with len have "k' = k" by simp
  then have "out = bs" using k(3) k'(1) by (intro bytes_bits_inject) simp
  with k(1) out show "length src \<le> capacity \<and> HpackHuffmanEncode src (length bs) = Inr bs" by simp
next
  assume "length src \<le> capacity \<and> HpackHuffmanEncode src (length bs) = Inr bs"
  then show "HpackHuffmanDecode bs capacity = Inr src"
    using encode_bits [of "length bs" src] decode_text [of bs src] by auto
qed

text \<open>The encoder fails only for want of room, and \<open>HpackHuffmanEncodedLength\<close> says how much it needs.\<close>

lemma huffman_encode_room:
  "(\<exists>out. HpackHuffmanEncode src capacity = Inr out \<and> length out = HpackHuffmanEncodedLength src)
     \<longleftrightarrow> HpackHuffmanEncodedLength src \<le> capacity"
  using encode_bits [of capacity src] by (auto split: sum.splits)

lemma huffman_encode_room_status:
  "HpackHuffmanEncode src capacity = Inl e \<longleftrightarrow> e = STATUS_BUFFER_TOO_SMALL \<and> capacity < HpackHuffmanEncodedLength src"
  using encode_bits [of capacity src] by (auto split: sum.splits)

text \<open>Enough room changes nothing: the bytes depend on the text alone.\<close>

lemma huffman_encode_determined:
  assumes "HpackHuffmanEncode src capacity = Inr bs" "length bs \<le> capacity'"
  shows "HpackHuffmanEncode src capacity' = Inr bs"
proof -
  obtain k where k: "k < 8" "bytes_bits bs = text_bits src @ replicate k True" "length bs = HpackHuffmanEncodedLength src"
    using encode_bits [of capacity src] assms(1) by auto
  then obtain bs' where bs': "HpackHuffmanEncode src capacity' = Inr bs'"
    using huffman_encode_room [of src capacity'] assms(2) by auto
  then obtain k' where k': "k' < 8" "bytes_bits bs' = text_bits src @ replicate k' True" "length bs' = HpackHuffmanEncodedLength src"
    using encode_bits [of capacity' src] by auto
  from arg_cong [OF k(2), of length] arg_cong [OF k'(2), of length] have "k' = k" using k(3) k'(3) by simp
  then have "bs' = bs" using k(2) k'(2) by (intro bytes_bits_inject) simp
  with bs' show ?thesis by simp
qed

lemma huffman_decode_encode:
  "HpackHuffmanEncode src capacity = Inr bs \<Longrightarrow> length src \<le> capacity' \<Longrightarrow> HpackHuffmanDecode bs capacity' = Inr src"
  using encode_bits [of capacity src] decode_text [of bs src] by auto

text \<open>A decoded text is at most 8/5 as long as its code.\<close>

lemma huffman_decode_length: "HpackHuffmanDecode bs capacity = Inr src \<Longrightarrow> length src \<le> 2 * length bs"
proof -
  assume "HpackHuffmanDecode bs capacity = Inr src"
  from decoded_text [OF this] obtain k where "k < 8" "bytes_bits bs = text_bits src @ replicate k True" by blast
  from arg_cong [OF this(2), of length] have "length (text_bits src) \<le> 8 * length bs" by simp
  then show ?thesis using text_bits_length [of src] by linarith
qed

end
