(* ===== verification/HpackTable.thy ===== *)
theory HpackTable
  imports Prelude
begin

text \<open>
  The HPACK dynamic table, the class \<open>HpackDynamicTable\<close> of \<open>src/wknetlib/http2/Hpack.cpp\<close>: a ring of
  entries, newest first, that point into a byte buffer which is compacted when it is full. The lemmas refine
  it to the list of the fields it holds, newest first: an insertion puts a field in front and keeps the
  longest prefix that fits.
\<close>

definition HpackEntryOverhead :: nat where
  "HpackEntryOverhead = 32"

record hpack_entry =
  he_name_offset :: nat
  he_name_length :: nat
  he_value_offset :: nat
  he_value_length :: nat

definition hpack_entry_zero :: hpack_entry where
  "hpack_entry_zero = \<lparr>he_name_offset = 0, he_name_length = 0, he_value_offset = 0, he_value_length = 0\<rparr>"

text \<open>
  The buffers \<open>dataBuffer_\<close> and \<open>entries_\<close> are empty when not allocated. \<open>currentSize_\<close> is \<open>ht_size\<close>.
\<close>

record hpack_table =
  ht_data :: bytes
  ht_data_capacity :: nat
  ht_used :: nat
  ht_entries :: "hpack_entry list"
  ht_entry_capacity :: nat
  ht_count :: nat
  ht_head :: nat
  ht_size :: nat
  ht_max :: nat

section \<open>Operations\<close>

definition DynamicTableDataCapacityLimit :: "nat \<Rightarrow> nat" where
  "DynamicTableDataCapacityLimit maxSize =
     (if maxSize > (u64_max - 1024) div 2 then u64_max else maxSize * 2 + 1024)"

text \<open>\<open>AllocateNonPagedArray\<close> refuses empty arrays and those whose size overflows, \<open>ok\<close> is its outcome otherwise.\<close>

definition ht_array_ok :: "nat \<Rightarrow> nat \<Rightarrow> bool \<Rightarrow> bool" where
  "ht_array_ok count elementSize ok \<longleftrightarrow> count \<noteq> 0 \<and> count \<le> u64_max div elementSize \<and> ok"

definition ht_reset :: "hpack_table \<Rightarrow> hpack_table" where
  "ht_reset t = t\<lparr>ht_data := [], ht_data_capacity := 0, ht_used := 0, ht_entries := [], ht_entry_capacity := 0,
     ht_count := 0, ht_head := 0, ht_size := 0\<rparr>"

text \<open>The flags are the outcomes of the two allocations; an entry has 32 bytes.\<close>

definition ht_initialize :: "bool \<Rightarrow> bool \<Rightarrow> nat \<Rightarrow> hpack_table \<Rightarrow> ntstatus \<times> hpack_table" where
  "ht_initialize data_ok entries_ok maxSize t0 =
     (let t = (ht_reset t0)\<lparr>ht_max := maxSize\<rparr>
      in if maxSize = 0 then (STATUS_SUCCESS, t)
         else let limit = DynamicTableDataCapacityLimit maxSize; capacity = (if limit < 1024 then 1024 else limit);
                  t1 = t\<lparr>ht_data_capacity := capacity\<rparr>
           in if \<not> ht_array_ok capacity 1 data_ok then (STATUS_INSUFFICIENT_RESOURCES, t1)
              else if \<not> ht_array_ok 128 32 entries_ok
              then (STATUS_INSUFFICIENT_RESOURCES, t1\<lparr>ht_entry_capacity := 128\<rparr>)
              else (STATUS_SUCCESS, t1\<lparr>ht_data := replicate capacity 0, ht_entry_capacity := 128,
                                     ht_entries := replicate 128 hpack_entry_zero\<rparr>))"

definition ht_slot :: "hpack_table \<Rightarrow> nat \<Rightarrow> nat" where
  "ht_slot t i = (ht_head t + i) mod ht_entry_capacity t"

definition he_length :: "hpack_entry \<Rightarrow> nat" where
  "he_length e = he_name_length e + he_value_length e"

definition ht_evict :: "hpack_table \<Rightarrow> hpack_table" where
  "ht_evict t =
     (if ht_count t = 0 then t
      else let entry = ht_entries t ! ht_slot t (ht_count t - 1);
               t1 = t\<lparr>ht_size := sub64 (ht_size t) (he_length entry + HpackEntryOverhead), ht_count := ht_count t - 1\<rparr>
        in if ht_count t1 = 0 then t1\<lparr>ht_head := 0, ht_used := 0\<rparr> else t1)"

text \<open>The two loops that evict while the size is too large.\<close>

function ht_evict_while :: "(nat \<Rightarrow> bool) \<Rightarrow> hpack_table \<Rightarrow> hpack_table" where
  "ht_evict_while large t = (if large (ht_size t) \<and> ht_count t > 0 then ht_evict_while large (ht_evict t) else t)"
  by pat_completeness auto

termination
  by (relation "measure (\<lambda>(large, t). ht_count t)") (auto simp: ht_evict_def Let_def)

declare ht_evict_while.simps [simp del]

text \<open>The loop of \<open>CompactData\<close>, from the oldest entry to the newest, without the adjustment of two
  offsets that serves arguments inside the table.\<close>

fun ht_compact_loop :: "nat \<Rightarrow> nat \<Rightarrow> hpack_table \<Rightarrow> nat \<times> hpack_table" where
  "ht_compact_loop 0 writeOffset t = (writeOffset, t)"
| "ht_compact_loop (Suc r) writeOffset t =
     (let i = ht_slot t r; entry = ht_entries t ! i;
          data = (if he_length entry \<noteq> 0
                  then copy_at (ht_data t) writeOffset (view (ht_data t) (he_name_offset entry) (he_length entry))
                  else ht_data t)
      in ht_compact_loop r (writeOffset + he_length entry)
           (t\<lparr>ht_data := data,
              ht_entries := (ht_entries t)[i := entry\<lparr>he_name_offset := writeOffset,
                                                he_value_offset := writeOffset + he_name_length entry\<rparr>]\<rparr>))"

definition ht_compact :: "hpack_table \<Rightarrow> hpack_table" where
  "ht_compact t =
     (if ht_count t = 0 then t\<lparr>ht_used := 0, ht_head := 0\<rparr>
      else case ht_compact_loop (ht_count t) 0 t of (w, t1) \<Rightarrow> t1\<lparr>ht_used := w\<rparr>)"

definition ht_update_max_size :: "nat \<Rightarrow> hpack_table \<Rightarrow> hpack_table" where
  "ht_update_max_size newMaxSize t =
     ht_compact (ht_evict_while (\<lambda>size. size > newMaxSize) (t\<lparr>ht_max := newMaxSize\<rparr>))"

text \<open>The parts of \<open>Insert\<close>: a larger buffer, a larger ring, and the new entry.\<close>

definition ht_grow_data :: "bool \<Rightarrow> nat \<Rightarrow> hpack_table \<Rightarrow> ntstatus \<times> hpack_table" where
  "ht_grow_data ok dataNeeded t =
     (if w64 (ht_used t + dataNeeded) \<le> ht_data_capacity t then (STATUS_SUCCESS, t)
      else let limit = DynamicTableDataCapacityLimit (ht_max t);
               c1 = w64 (ht_data_capacity t * 2);
               c2 = (if c1 < w64 (ht_used t + dataNeeded + 1024) then w64 (ht_used t + dataNeeded + 1024) else c1);
               newCapacity = (if c2 > limit then limit else c2)
        in if w64 (ht_used t + dataNeeded) > newCapacity then (STATUS_INVALID_NETWORK_RESPONSE, t)
           else if \<not> ht_array_ok newCapacity 1 ok then (STATUS_INSUFFICIENT_RESOURCES, t)
           else (STATUS_SUCCESS, t\<lparr>ht_data := take (ht_used t) (ht_data t) @ replicate (newCapacity - ht_used t) 0,
                                   ht_data_capacity := newCapacity\<rparr>))"

definition ht_grow_entries :: "bool \<Rightarrow> hpack_table \<Rightarrow> ntstatus \<times> hpack_table" where
  "ht_grow_entries ok t =
     (if ht_count t < ht_entry_capacity t then (STATUS_SUCCESS, t)
      else let newCapacity = w64 (ht_entry_capacity t * 2)
        in if \<not> ht_array_ok newCapacity 32 ok then (STATUS_INSUFFICIENT_RESOURCES, t)
           else (STATUS_SUCCESS, t\<lparr>ht_entries := map (\<lambda>i. ht_entries t ! ht_slot t i) [0..<ht_count t]
                                                @ replicate (newCapacity - ht_count t) hpack_entry_zero,
                                   ht_entry_capacity := newCapacity, ht_head := 0\<rparr>))"

definition ht_store :: "bytes \<Rightarrow> bytes \<Rightarrow> hpack_table \<Rightarrow> hpack_table" where
  "ht_store name val t =
     (let nameOffset = ht_used t; valueOffset = nameOffset + length name;
          d1 = (if length name > 0 then copy_at (ht_data t) nameOffset name else ht_data t);
          d2 = (if length val > 0 then copy_at d1 valueOffset val else d1);
          head = (if ht_head t = 0 then ht_entry_capacity t - 1 else ht_head t - 1)
      in t\<lparr>ht_data := d2, ht_used := valueOffset + length val, ht_head := head,
           ht_entries := (ht_entries t)[head := \<lparr>he_name_offset = nameOffset, he_name_length = length name,
                                         he_value_offset = valueOffset, he_value_length = length val\<rparr>],
           ht_count := ht_count t + 1,
           ht_size := w64 (ht_size t + (length name + length val + HpackEntryOverhead))\<rparr>)"

text \<open>
  \<open>Insert\<close>; \<open>ok 0\<close> and \<open>ok 1\<close> are the outcomes of its allocations. The code also follows a name
  or a value that lies in the table's own buffer when it compacts or moves that buffer; here the arguments are values,
  and the callers pass buffers of their own.
\<close>

definition ht_insert :: "(nat \<Rightarrow> bool) \<Rightarrow> bytes \<Rightarrow> bytes \<Rightarrow> hpack_table \<Rightarrow> ntstatus \<times> hpack_table" where
  "ht_insert ok name val t =
     (if length name > u64_max - length val \<or> length name + length val > u64_max - HpackEntryOverhead
      then (STATUS_INTEGER_OVERFLOW, t)
      else let entrySize = length name + length val + HpackEntryOverhead; dataNeeded = length name + length val
        in if entrySize > ht_max t
           then (STATUS_SUCCESS, t\<lparr>ht_count := 0, ht_head := 0, ht_used := 0, ht_size := 0\<rparr>)
           else let t1 = ht_evict_while (\<lambda>size. w64 (size + entrySize) > ht_max t) t
             in if dataNeeded > DynamicTableDataCapacityLimit (ht_max t1) then (STATUS_INVALID_NETWORK_RESPONSE, t1)
                else and_then (ht_grow_data (ok 0) dataNeeded
                       (if w64 (ht_used t1 + dataNeeded) > ht_data_capacity t1 then ht_compact t1 else t1)) (\<lambda>t2.
                     and_then (ht_grow_entries (ok 1) t2) (\<lambda>t3. (STATUS_SUCCESS, ht_store name val t3))))"

definition ht_lookup :: "nat \<Rightarrow> hpack_table \<Rightarrow> (bytes \<times> bytes) option" where
  "ht_lookup index t =
     (if index \<ge> ht_count t then None
      else let entry = ht_entries t ! ht_slot t index
        in Some (view (ht_data t) (he_name_offset entry) (he_name_length entry),
                 view (ht_data t) (he_value_offset entry) (he_value_length entry)))"

section \<open>The table as a list of fields\<close>

type_synonym hpack_field = "bytes \<times> bytes"

definition ht_order :: "hpack_table \<Rightarrow> hpack_entry list" where
  "ht_order t = map (\<lambda>i. ht_entries t ! ht_slot t i) [0..<ht_count t]"

definition he_field :: "bytes \<Rightarrow> hpack_entry \<Rightarrow> hpack_field" where
  "he_field data e = (view data (he_name_offset e) (he_name_length e), view data (he_value_offset e) (he_value_length e))"

definition ht_fields :: "hpack_table \<Rightarrow> hpack_field list" where
  "ht_fields t = map (he_field (ht_data t)) (ht_order t)"

text \<open>Entries below \<open>u\<close>, newest first: each is contiguous and above the next older one, the oldest above \<open>w\<close>.\<close>

fun laid :: "nat \<Rightarrow> nat \<Rightarrow> hpack_entry list \<Rightarrow> bool" where
  "laid w u [] = (w \<le> u)"
| "laid w u (e # es) = (he_value_offset e = he_name_offset e + he_name_length e \<and>
     he_name_offset e + he_length e \<le> u \<and> laid w (he_name_offset e) es)"

definition entries_size :: "hpack_entry list \<Rightarrow> nat" where
  "entries_size es = sum_list (map (\<lambda>e. he_length e + HpackEntryOverhead) es)"

definition ht_ok :: "hpack_table \<Rightarrow> bool" where
  "ht_ok t \<longleftrightarrow> length (ht_data t) = ht_data_capacity t \<and> length (ht_entries t) = ht_entry_capacity t
     \<and> ht_count t \<le> ht_entry_capacity t \<and> (ht_head t < ht_entry_capacity t \<or> ht_head t = 0)
     \<and> ht_used t \<le> ht_data_capacity t \<and> laid 0 (ht_used t) (ht_order t)
     \<and> ht_size t = entries_size (ht_order t) \<and> ht_size t \<le> ht_max t \<and> ht_max t < 2 ^ 32
     \<and> ht_data_capacity t \<le> 2 ^ 34 \<and> ht_entry_capacity t \<le> 2 ^ 29"

definition hpack_field_size :: "hpack_field \<Rightarrow> nat" where
  "hpack_field_size f = length (fst f) + length (snd f) + HpackEntryOverhead"

text \<open>The longest prefix of the fields that fits into \<open>m\<close> bytes.\<close>

fun fit :: "nat \<Rightarrow> hpack_field list \<Rightarrow> hpack_field list" where
  "fit m [] = []"
| "fit m (f # fs) = (if hpack_field_size f \<le> m then f # fit (m - hpack_field_size f) fs else [])"

section \<open>The ring\<close>

lemma slot_inj:
  assumes "(h + i) mod c = (h + j) mod c" "i < c" "j < (c :: nat)"
  shows "i = j"
proof -
  have *: "i = j" if "(h + i) mod c = (h + j) mod c" "i \<le> j" "j < c" for i j
  proof -
    have "c dvd (h + j) - (h + i)" using that mod_eq_dvd_iff_nat [of "h + i" "h + j" c] by simp
    then show ?thesis using that by (auto dest: dvd_imp_le)
  qed
  show ?thesis using * [of i j] * [of j i] assms by (cases "i \<le> j") auto
qed

lemma slot_less: "0 < ht_entry_capacity t \<Longrightarrow> ht_slot t i < ht_entry_capacity t"
  by (simp add: ht_slot_def)

lemma slot_update [simp]:
  "ht_slot (t\<lparr>ht_data := d\<rparr>) i = ht_slot t i" "ht_slot (t\<lparr>ht_entries := es\<rparr>) i = ht_slot t i"
  "ht_slot (t\<lparr>ht_used := u\<rparr>) i = ht_slot t i" "ht_slot (t\<lparr>ht_data_capacity := c\<rparr>) i = ht_slot t i"
  "ht_slot (t\<lparr>ht_count := n\<rparr>) i = ht_slot t i" "ht_slot (t\<lparr>ht_size := n\<rparr>) i = ht_slot t i"
  by (simp_all add: ht_slot_def)

lemma length_order [simp]: "length (ht_order t) = ht_count t"
  by (simp add: ht_order_def)

lemma order_nth: "i < ht_count t \<Longrightarrow> ht_order t ! i = ht_entries t ! ht_slot t i"
  by (simp add: ht_order_def)

lemma ht_lookup_fields: "ht_lookup i t = (if i < length (ht_fields t) then Some (ht_fields t ! i) else None)"
  by (auto simp: ht_lookup_def ht_fields_def order_nth he_field_def Let_def)

section \<open>Layout\<close>

lemma laid_mono: "laid w u es \<Longrightarrow> w' \<le> w \<Longrightarrow> u \<le> u' \<Longrightarrow> laid w' u' es"
  by (induction es arbitrary: u u') auto

lemma laid_le: "laid w u es \<Longrightarrow> w \<le> u"
proof (induction es arbitrary: u)
  case (Cons e es)
  then have "w \<le> he_name_offset e" by simp
  then show ?case using Cons.prems by simp
qed simp

lemma laid_snoc:
  "laid w u (es @ [e]) \<longleftrightarrow> laid (he_name_offset e + he_length e) u es
     \<and> he_value_offset e = he_name_offset e + he_name_length e \<and> w \<le> he_name_offset e"
  by (induction es arbitrary: u) auto

lemma laid_member:
  "laid w u es \<Longrightarrow> e \<in> set es \<Longrightarrow> w \<le> he_name_offset e \<and> he_name_offset e + he_length e \<le> u
     \<and> he_value_offset e = he_name_offset e + he_name_length e"
proof (induction es arbitrary: u)
  case (Cons a es)
  then show ?case
  proof (cases "e = a")
    case True
    then show ?thesis using Cons.prems(1) laid_le [of w "he_name_offset a" es] by simp
  next
    case False
    then have "w \<le> he_name_offset e \<and> he_name_offset e + he_length e \<le> he_name_offset a
        \<and> he_value_offset e = he_name_offset e + he_name_length e"
      using Cons by auto
    then show ?thesis using Cons.prems(1) by auto
  qed
qed simp

lemma laid_size: "laid w u es \<Longrightarrow> w + entries_size es \<le> u + HpackEntryOverhead * length es"
  by (induction es arbitrary: u) (fastforce simp: entries_size_def)+

text \<open>A field keeps its value when the bytes it points to do.\<close>

lemma field_same:
  assumes "he_value_offset e = he_name_offset e + he_name_length e"
    "view data' (he_name_offset e) (he_length e) = view data (he_name_offset e) (he_length e)"
  shows "he_field data' e = he_field data e"
proof -
  have v: "view d (o1 + a) b = drop a (view d o1 (a + b))" "view d o1 a = take a (view d o1 (a + b))" for d o1 a b
    by (simp_all add: view_def drop_take take_add [symmetric] min_def add.commute)
  have "he_field d e = (take (he_name_length e) (view d (he_name_offset e) (he_length e)),
      drop (he_name_length e) (view d (he_name_offset e) (he_length e)))" for d
    unfolding he_field_def assms(1) he_length_def by (simp only: v [where a = "he_name_length e" and b = "he_value_length e"])
  then show ?thesis using assms(2) by simp
qed

lemma field_size_entry:
  "he_name_offset e + he_length e \<le> length data \<Longrightarrow> he_value_offset e = he_name_offset e + he_name_length e
    \<Longrightarrow> hpack_field_size (he_field data e) = he_length e + HpackEntryOverhead"
  by (simp add: hpack_field_size_def he_field_def he_length_def view_def)

lemma fields_size:
  assumes "laid w u es" "u \<le> length data"
  shows "sum_list (map hpack_field_size (map (he_field data) es)) = entries_size es"
proof -
  have "hpack_field_size (he_field data e) = he_length e + HpackEntryOverhead" if "e \<in> set es" for e
    using laid_member [OF assms(1) that] assms(2) by (intro field_size_entry) auto
  then have "map hpack_field_size (map (he_field data) es) = map (\<lambda>e. he_length e + HpackEntryOverhead) es" by simp
  then show ?thesis by (simp only: entries_size_def)
qed

section \<open>Fitting prefixes\<close>

lemma fit_all: "sum_list (map hpack_field_size fs) \<le> m \<Longrightarrow> fit m fs = fs"
  by (induction fs arbitrary: m) auto

lemma fit_size: "sum_list (map hpack_field_size (fit m fs)) \<le> m"
proof (induction fs arbitrary: m)
  case (Cons f fs)
  have "sum_list (map hpack_field_size (fit (m - hpack_field_size f) fs)) \<le> m - hpack_field_size f" by (rule Cons)
  then show ?case by auto
qed simp

lemma fit_prefix: "\<exists>rest. fs = fit m fs @ rest"
  by (induction fs arbitrary: m) auto

lemma fit_butlast:
  assumes "m < sum_list (map hpack_field_size fs)"
  shows "fit m (butlast fs) = fit m fs"
  using assms
proof (induction fs arbitrary: m)
  case (Cons f fs)
  show ?case
  proof (cases "fs = []")
    case False
    then show ?thesis using Cons.IH [of "m - hpack_field_size f"] Cons.prems by auto
  qed (use Cons.prems in auto)
qed simp

lemma fit_fit: "fit m (fit n fs) = fit (min m n) fs"
  by (induction fs arbitrary: m n) (auto simp: min_def)

section \<open>Eviction\<close>

lemma order_evict: "ht_order (ht_evict t) = butlast (ht_order t)"
proof (cases "ht_count t")
  case (Suc n)
  then have "ht_order t = map (\<lambda>i. ht_entries t ! ht_slot t i) [0..<n] @ [ht_entries t ! ht_slot t n]"
    by (simp add: ht_order_def)
  moreover have "ht_order (ht_evict t) = map (\<lambda>i. ht_entries t ! ht_slot t i) [0..<n]"
    using Suc by (auto simp: ht_order_def ht_evict_def Let_def ht_slot_def)
  ultimately show ?thesis by simp
qed (simp add: ht_order_def ht_evict_def)

lemma laid_butlast: "laid w u es \<Longrightarrow> laid w u (butlast es)"
  by (cases es rule: rev_cases) (auto simp: laid_snoc intro: laid_mono)

text \<open>An invariant without the bound, which eviction restores.\<close>

definition ht_ring_ok :: "hpack_table \<Rightarrow> bool" where
  "ht_ring_ok t \<longleftrightarrow> length (ht_data t) = ht_data_capacity t \<and> length (ht_entries t) = ht_entry_capacity t
     \<and> ht_count t \<le> ht_entry_capacity t \<and> (ht_head t < ht_entry_capacity t \<or> ht_head t = 0)
     \<and> ht_used t \<le> ht_data_capacity t \<and> laid 0 (ht_used t) (ht_order t)
     \<and> ht_size t = entries_size (ht_order t) \<and> ht_size t < 2 ^ 32 \<and> ht_max t < 2 ^ 32
     \<and> ht_data_capacity t \<le> 2 ^ 34 \<and> ht_entry_capacity t \<le> 2 ^ 29"

lemma ht_ok_iff: "ht_ok t \<longleftrightarrow> ht_ring_ok t \<and> ht_size t \<le> ht_max t"
  by (auto simp: ht_ok_def ht_ring_ok_def)

lemma fields_size_ok: "ht_ring_ok t \<Longrightarrow> sum_list (map hpack_field_size (ht_fields t)) = ht_size t"
  using fields_size [of 0 "ht_used t" "ht_order t" "ht_data t"] by (simp add: ht_ring_ok_def ht_fields_def)

lemma entries_size_butlast:
  "es \<noteq> [] \<Longrightarrow> entries_size es = entries_size (butlast es) + (he_length (last es) + HpackEntryOverhead)"
  by (cases es rule: rev_cases) (auto simp: entries_size_def)

lemma evict_ok:
  assumes "ht_ring_ok t" "ht_count t > 0"
  shows "ht_ring_ok (ht_evict t)" "ht_fields (ht_evict t) = butlast (ht_fields t)"
    "ht_max (ht_evict t) = ht_max t" "ht_entry_capacity (ht_evict t) = ht_entry_capacity t"
proof -
  have last: "ht_entries t ! ht_slot t (ht_count t - 1) = last (ht_order t)"
    using assms(2) by (subst last_conv_nth) (auto simp: order_nth ht_order_def)
  have ne: "ht_order t \<noteq> []" using assms(2) by (simp add: ht_order_def)
  have sz: "ht_size t = entries_size (butlast (ht_order t)) + (he_length (last (ht_order t)) + HpackEntryOverhead)"
    using assms(1) entries_size_butlast [OF ne] by (simp add: ht_ring_ok_def)
  have "ht_size (ht_evict t) = sub64 (ht_size t) (he_length (last (ht_order t)) + HpackEntryOverhead)"
    using assms(2) last by (cases "ht_count t - 1 = 0") (auto simp: ht_evict_def Let_def)
  also have "\<dots> = ht_size t - (he_length (last (ht_order t)) + HpackEntryOverhead)"
    using sz assms(1) by (intro sub64_id) (auto simp: ht_ring_ok_def u64_max_def)
  finally have size: "ht_size (ht_evict t) = entries_size (butlast (ht_order t))" using sz by simp
  have same: "ht_data (ht_evict t) = ht_data t" "ht_entries (ht_evict t) = ht_entries t"
      "ht_data_capacity (ht_evict t) = ht_data_capacity t" "ht_count (ht_evict t) = ht_count t - 1"
      "ht_head (ht_evict t) = ht_head t \<or> ht_head (ht_evict t) = 0"
      "ht_used (ht_evict t) = ht_used t \<or> ht_used (ht_evict t) = 0 \<and> ht_count t = 1"
    using assms(2) by (auto simp: ht_evict_def Let_def)
  show max: "ht_max (ht_evict t) = ht_max t" "ht_entry_capacity (ht_evict t) = ht_entry_capacity t"
    by (auto simp: ht_evict_def Let_def)
  have "laid 0 (ht_used (ht_evict t)) (ht_order (ht_evict t))"
  proof (cases "ht_count t = 1")
    case True
    then have "ht_order (ht_evict t) = []" using same(4) by (simp add: ht_order_def)
    then show ?thesis by simp
  next
    case False
    then show ?thesis using same(6) assms(1) laid_butlast unfolding order_evict by (auto simp: ht_ring_ok_def)
  qed
  then show "ht_ring_ok (ht_evict t)"
    using assms(1) size same max sz by (auto simp: ht_ring_ok_def order_evict)
  show "ht_fields (ht_evict t) = butlast (ht_fields t)"
    by (simp add: ht_fields_def order_evict same map_butlast)
qed

lemma evict_while_ok:
  assumes "ht_ring_ok t" "\<And>size. size < 2 ^ 32 \<Longrightarrow> large size \<longleftrightarrow> size > m"
  shows "ht_ring_ok (ht_evict_while large t)" "ht_fields (ht_evict_while large t) = fit m (ht_fields t)"
    "ht_size (ht_evict_while large t) \<le> m" "ht_max (ht_evict_while large t) = ht_max t"
    "ht_entry_capacity (ht_evict_while large t) = ht_entry_capacity t"
proof -
  have "ht_ring_ok (ht_evict_while large t) \<and> ht_fields (ht_evict_while large t) = fit m (ht_fields t)
    \<and> ht_size (ht_evict_while large t) \<le> m \<and> ht_max (ht_evict_while large t) = ht_max t
    \<and> ht_entry_capacity (ht_evict_while large t) = ht_entry_capacity t"
    using assms
  proof (induction large t rule: ht_evict_while.induct)
    case (1 large t)
    have lt: "ht_size t < 2 ^ 32" using 1(2) by (simp add: ht_ring_ok_def)
    show ?case
    proof (cases "large (ht_size t) \<and> ht_count t > 0")
      case True
      note e = evict_ok [OF 1(2)]
      have "m < sum_list (map hpack_field_size (ht_fields t))" using True 1(3) [OF lt] fields_size_ok [OF 1(2)] by simp
      then have "fit m (ht_fields (ht_evict t)) = fit m (ht_fields t)" using True e by (simp add: fit_butlast)
      moreover have "ht_evict_while large t = ht_evict_while large (ht_evict t)"
        using True by (subst ht_evict_while.simps) simp
      ultimately show ?thesis using 1(1) [OF True _ 1(3)] e True by simp
    next
      case False
      have "ht_size t \<le> m"
      proof (cases "ht_count t = 0")
        case True
        then show ?thesis using 1(2) by (simp add: ht_ring_ok_def ht_order_def entries_size_def)
      qed (use False 1(3) [OF lt] in auto)
      then have "ht_size t \<le> m \<and> fit m (ht_fields t) = ht_fields t" using fit_all fields_size_ok [OF 1(2)] by simp
      moreover have "ht_evict_while large t = t" using False by (subst ht_evict_while.simps) auto
      ultimately show ?thesis using 1(2) by simp
    qed
  qed
  then show "ht_ring_ok (ht_evict_while large t)" "ht_fields (ht_evict_while large t) = fit m (ht_fields t)"
    "ht_size (ht_evict_while large t) \<le> m" "ht_max (ht_evict_while large t) = ht_max t"
    "ht_entry_capacity (ht_evict_while large t) = ht_entry_capacity t" by blast+
qed

section \<open>Compaction\<close>

definition retag :: "nat \<Rightarrow> hpack_entry \<Rightarrow> hpack_entry" where
  "retag w e = e\<lparr>he_name_offset := w, he_value_offset := w + he_name_length e\<rparr>"

lemma retag_simps [simp]:
  "he_name_offset (retag w e) = w" "he_value_offset (retag w e) = w + he_name_length e"
  "he_length (retag w e) = he_length e" "he_name_length (retag w e) = he_name_length e"
  by (simp_all add: retag_def he_length_def)

text \<open>The entries at the first \<open>r\<close> positions of the ring.\<close>

definition ht_first :: "nat \<Rightarrow> hpack_table \<Rightarrow> hpack_entry list" where
  "ht_first r t = map (\<lambda>i. ht_entries t ! ht_slot t i) [0..<r]"

lemma view_take_same: "take n d' = take n d \<Longrightarrow> o' + k \<le> n \<Longrightarrow> view d' o' k = view d o' k"
  by (metis (no_types, opaque_lifting) add_diff_cancel_left' diff_le_mono drop_take min.absorb2 min.commute take_take view_def)

lemma compact_loop_ok:
  assumes "ht_compact_loop r w t = (w', t')" "laid w u (ht_first r t)" "u \<le> length (ht_data t)"
    "r \<le> ht_entry_capacity t" "length (ht_entries t) = ht_entry_capacity t"
  shows "w' = w + sum_list (map he_length (ht_first r t))
    \<and> (\<exists>data es. t' = t\<lparr>ht_data := data, ht_entries := es\<rparr> \<and> length data = length (ht_data t)
         \<and> length es = ht_entry_capacity t \<and> take w data = take w (ht_data t)
         \<and> (\<forall>i. r \<le> i \<longrightarrow> i < ht_entry_capacity t \<longrightarrow> es ! ht_slot t i = ht_entries t ! ht_slot t i))
    \<and> laid w w' (ht_first r t') \<and> map (he_field (ht_data t')) (ht_first r t') = map (he_field (ht_data t)) (ht_first r t)
    \<and> map he_length (ht_first r t') = map he_length (ht_first r t)"
  using assms
proof (induction r arbitrary: w t)
  case 0
  then show ?case by (intro conjI exI [of _ "ht_data t"] exI [of _ "ht_entries t"]) (auto simp: ht_first_def)
next
  case (Suc r)
  let ?i = "ht_slot t r" and ?e = "ht_entries t ! ht_slot t r"
  let ?d = "if he_length ?e \<noteq> 0 then copy_at (ht_data t) w (view (ht_data t) (he_name_offset ?e) (he_length ?e)) else ht_data t"
  let ?t = "t\<lparr>ht_data := ?d, ht_entries := (ht_entries t)[?i := retag w ?e]\<rparr>"
  have first: "ht_first (Suc r) s = ht_first r s @ [ht_entries s ! ht_slot s r]" for s by (simp add: ht_first_def)
  have cap: "0 < ht_entry_capacity t" "r < ht_entry_capacity t" using Suc.prems(4) by auto
  have laid: "laid (he_name_offset ?e + he_length ?e) u (ht_first r t)" "w \<le> he_name_offset ?e"
      "he_value_offset ?e = he_name_offset ?e + he_name_length ?e"
    using Suc.prems(2) unfolding first laid_snoc by auto
  have end_le: "he_name_offset ?e + he_length ?e \<le> length (ht_data t)" using laid_le [OF laid(1)] Suc.prems(3) by simp
  have other: "?i \<noteq> ht_slot t i" if "i < ht_entry_capacity t" "i \<noteq> r" for i
    using that slot_inj [of "ht_head t" i "ht_entry_capacity t" r] cap by (auto simp: ht_slot_def)
  have il: "?i < length (ht_entries t)" using slot_less [OF cap(1), of r] Suc.prems(5) by simp
  have entries: "ht_first r ?t = ht_first r t"
    using other cap by (auto simp: ht_first_def)
  have vl: "length (view (ht_data t) (he_name_offset ?e) (he_length ?e)) = he_length ?e"
    using end_le by (simp add: view_def)
  have ld: "length ?d = length (ht_data t)" using end_le vl laid(2) by auto
  have low: "take w ?d = take w (ht_data t)" using end_le laid(2) by (simp add: copy_at_def)
  have moved: "view ?d w (he_length ?e) = view (ht_data t) (he_name_offset ?e) (he_length ?e)"
    using view_copy_at [of w "view (ht_data t) (he_name_offset ?e) (he_length ?e)" "ht_data t"] end_le laid(2) vl by auto
  have high: "view ?d p n = view (ht_data t) p n" if "w + he_length ?e \<le> p" for p n
    using that end_le laid(2) vl by (auto simp: view_def copy_at_def)
  have run: "ht_compact_loop r (w + he_length ?e) ?t = (w', t')"
    using Suc.prems(1) by (simp add: Let_def retag_def)
  have "laid (w + he_length ?e) u (ht_first r ?t)"
    unfolding entries by (rule laid_mono [OF laid(1)]) (use laid(2) in simp_all)
  from Suc.IH [OF run this] obtain data es where
    w': "w' = w + he_length ?e + sum_list (map he_length (ht_first r t))"
    and t': "t' = ?t\<lparr>ht_data := data, ht_entries := es\<rparr>" and len: "length data = length (ht_data t)" "length es = ht_entry_capacity t"
    and low': "take (w + he_length ?e) data = take (w + he_length ?e) ?d"
    and rest: "\<And>i. r \<le> i \<Longrightarrow> i < ht_entry_capacity t \<Longrightarrow> es ! ht_slot t i = ((ht_entries t)[?i := retag w ?e]) ! ht_slot t i"
    and laid': "laid (w + he_length ?e) w' (ht_first r t')"
    and fields: "map (he_field (ht_data t')) (ht_first r t') = map (he_field ?d) (ht_first r t)"
    and lens: "map he_length (ht_first r t') = map he_length (ht_first r t)"
    using Suc.prems(3-5) ld il unfolding entries by (auto simp: retag_def)
  have slot' [simp]: "ht_slot t' i = ht_slot t i" for i by (simp add: t' ht_slot_def)
  have last': "ht_entries t' ! ht_slot t r = retag w ?e" using rest [of r] cap il by (simp add: t')
  have fields': "map (he_field ?d) (ht_first r t) = map (he_field (ht_data t)) (ht_first r t)"
  proof (rule map_cong [OF refl])
    fix e assume "e \<in> set (ht_first r t)"
    from laid_member [OF laid(1) this] show "he_field ?d e = he_field (ht_data t) e"
      using laid(2) by (intro field_same high) auto
  qed
  have "he_field data (retag w ?e) = he_field (ht_data t) ?e"
  proof -
    have "view data w (he_length ?e) = view ?d w (he_length ?e)" by (rule view_take_same [OF low']) simp
    then have v: "view data w (he_length ?e) = view (ht_data t) (he_name_offset ?e) (he_length ?e)" using moved by simp
    have p: "he_field d e = (take (he_name_length e) (view d (he_name_offset e) (he_length e)),
        drop (he_name_length e) (view d (he_name_offset e) (he_length e)))"
      if "he_value_offset e = he_name_offset e + he_name_length e" for d e
      using that by (simp add: he_field_def he_length_def view_def take_drop [symmetric] drop_take add.commute)
    show ?thesis using v by (subst (1 2) p) (simp_all add: laid(3))
  qed
  moreover have "take w data = take w (ht_data t)"
  proof -
    have "take w data = take w (take (w + he_length ?e) data)" by simp
    also have "\<dots> = take w ?d" unfolding low' by simp
    finally show ?thesis unfolding low .
  qed
  moreover have "es ! ht_slot t i = ht_entries t ! ht_slot t i" if "Suc r \<le> i" "i < ht_entry_capacity t" for i
    using rest [of i] other [of i] that by simp
  ultimately show ?case
    unfolding first slot' last' map_append
    using w' laid' fields fields' lens len
    by (auto simp: t' laid_snoc first intro!: exI [of _ data] exI [of _ es])
qed

lemma order_first: "ht_order t = ht_first (ht_count t) t"
  by (simp add: ht_order_def ht_first_def)

lemma entries_size_lengths: "entries_size es = sum_list (map he_length es) + HpackEntryOverhead * length es"
  by (induction es) (auto simp: entries_size_def)

lemma compact_ok:
  assumes "ht_ring_ok t"
  shows "ht_ring_ok (ht_compact t)" "ht_fields (ht_compact t) = ht_fields t" "ht_max (ht_compact t) = ht_max t"
    "ht_size (ht_compact t) = ht_size t" "ht_entry_capacity (ht_compact t) = ht_entry_capacity t"
    "ht_count (ht_compact t) = ht_count t" "ht_data_capacity (ht_compact t) = ht_data_capacity t"
    "ht_used (ht_compact t) \<le> ht_size t"
proof -
  have "ht_ring_ok (ht_compact t) \<and> ht_fields (ht_compact t) = ht_fields t \<and> ht_max (ht_compact t) = ht_max t
    \<and> ht_size (ht_compact t) = ht_size t \<and> ht_entry_capacity (ht_compact t) = ht_entry_capacity t
    \<and> ht_count (ht_compact t) = ht_count t \<and> ht_data_capacity (ht_compact t) = ht_data_capacity t
    \<and> ht_used (ht_compact t) \<le> ht_size t"
  proof (cases "ht_count t = 0")
    case True
    then show ?thesis using assms by (auto simp: ht_compact_def ht_ring_ok_def ht_order_def ht_fields_def)
  next
    case False
    obtain w t1 where run: "ht_compact_loop (ht_count t) 0 t = (w, t1)" by fastforce
    note ok = assms [unfolded ht_ring_ok_def order_first]
    from compact_loop_ok [OF run, of "ht_used t"] ok obtain data es where
      w: "w = sum_list (map he_length (ht_order t))" and t1: "t1 = t\<lparr>ht_data := data, ht_entries := es\<rparr>"
      and len: "length data = length (ht_data t)" "length es = ht_entry_capacity t"
      and laid: "laid 0 w (ht_order t1)" and fields: "ht_fields t1 = ht_fields t"
      and lens: "map he_length (ht_order t1) = map he_length (ht_order t)"
      by (auto simp: order_first ht_fields_def)
    have same: "ht_order (t1\<lparr>ht_used := w\<rparr>) = ht_order t1" by (simp add: ht_order_def)
    have size: "entries_size (ht_order t1) = entries_size (ht_order t)"
      using lens by (simp add: entries_size_lengths t1)
    have w_le: "w \<le> ht_size t" using assms by (simp add: w ht_ring_ok_def entries_size_lengths)
    have "w \<le> ht_used t" using laid_size [of 0 "ht_used t" "ht_order t"] assms w
      by (simp add: ht_ring_ok_def entries_size_lengths)
    then show ?thesis
      using False run laid same size len assms fields w_le
      by (auto simp: ht_compact_def ht_ring_ok_def ht_fields_def t1)
  qed
  then show "ht_ring_ok (ht_compact t)" "ht_fields (ht_compact t) = ht_fields t" "ht_max (ht_compact t) = ht_max t"
    "ht_size (ht_compact t) = ht_size t" "ht_entry_capacity (ht_compact t) = ht_entry_capacity t"
    "ht_count (ht_compact t) = ht_count t" "ht_data_capacity (ht_compact t) = ht_data_capacity t"
    "ht_used (ht_compact t) \<le> ht_size t" by blast+
qed

text \<open>A smaller limit keeps the newest fields that fit.\<close>

lemma update_max_size_fields:
  assumes "ht_ok t" "m < 2 ^ 32"
  shows "ht_ok (ht_update_max_size m t)" "ht_fields (ht_update_max_size m t) = fit m (ht_fields t)"
    "ht_max (ht_update_max_size m t) = m" "ht_entry_capacity (ht_update_max_size m t) = ht_entry_capacity t"
proof -
  let ?t = "t\<lparr>ht_max := m\<rparr>"
  have o: "ht_order ?t = ht_order t" by (simp add: ht_order_def ht_slot_def)
  have r: "ht_ring_ok ?t" using assms o by (auto simp: ht_ok_def ht_ring_ok_def)
  have f: "ht_fields ?t = ht_fields t" by (simp add: ht_fields_def o)
  note e = evict_while_ok [OF r, of "\<lambda>size. size > m" m]
  show "ht_ok (ht_update_max_size m t)" "ht_fields (ht_update_max_size m t) = fit m (ht_fields t)"
    "ht_max (ht_update_max_size m t) = m" "ht_entry_capacity (ht_update_max_size m t) = ht_entry_capacity t"
    using e compact_ok [OF e(1)] f by (simp_all add: ht_update_max_size_def ht_ok_iff)
qed

section \<open>Insertion\<close>

lemma grow_data_ok:
  assumes "ht_grow_data ok n t = (st, t')" "ht_ring_ok t" "ht_used t + n \<le> 2 * ht_max t" "n \<le> 2 ^ 33" "0 < ht_max t"
  shows "ht_ring_ok t' \<and> ht_fields t' = ht_fields t \<and> ht_max t' = ht_max t \<and> ht_size t' = ht_size t
    \<and> ht_entry_capacity t' = ht_entry_capacity t \<and> ht_count t' = ht_count t \<and> ht_used t' = ht_used t
    \<and> (st = STATUS_SUCCESS \<and> ht_used t + n \<le> ht_data_capacity t' \<or> st = STATUS_INSUFFICIENT_RESOURCES \<and> \<not> ok)"
proof -
  have b: "ht_max t < 2 ^ 32" "ht_data_capacity t \<le> 2 ^ 34" "ht_used t \<le> ht_data_capacity t" "length (ht_data t) = ht_data_capacity t"
    using assms(2) by (auto simp: ht_ring_ok_def)
  let ?u = "ht_used t"
  have w: "w64 (?u + n) = ?u + n" "w64 (?u + n + 1024) = ?u + n + 1024" "w64 (ht_data_capacity t * 2) = ht_data_capacity t * 2"
    using assms(3,4) b by (auto intro!: w64_id simp: u64_max_def)
  have lim: "DynamicTableDataCapacityLimit (ht_max t) = ht_max t * 2 + 1024"
    using b by (simp add: DynamicTableDataCapacityLimit_def u64_max_def)
  show ?thesis
  proof (cases "?u + n \<le> ht_data_capacity t")
    case True
    then show ?thesis using assms(1,2) w by (auto simp: ht_grow_data_def)
  next
    case False
    define c where "c = (let c1 = ht_data_capacity t * 2; c2 = (if c1 < ?u + n + 1024 then ?u + n + 1024 else c1)
       in if c2 > ht_max t * 2 + 1024 then ht_max t * 2 + 1024 else c2)"
    have c: "?u + n \<le> c" "c \<le> ht_max t * 2 + 1024" using assms(3) by (auto simp: c_def Let_def)
    have "(st, t') = (if \<not> ht_array_ok c 1 ok then (STATUS_INSUFFICIENT_RESOURCES, t)
        else (STATUS_SUCCESS, t\<lparr>ht_data := take ?u (ht_data t) @ replicate (c - ?u) 0, ht_data_capacity := c\<rparr>))"
      using assms(1) False c(1) unfolding ht_grow_data_def w lim Let_def c_def [unfolded Let_def, symmetric] by simp
    moreover have "ht_array_ok c 1 ok = ok"
      using c b(1) False by (auto simp: ht_array_ok_def u64_max_def)
    ultimately consider "st = STATUS_INSUFFICIENT_RESOURCES" "\<not> ok" "t' = t"
      | "st = STATUS_SUCCESS" "t' = t\<lparr>ht_data := take ?u (ht_data t) @ replicate (c - ?u) 0, ht_data_capacity := c\<rparr>"
      by (auto split: if_splits)
    then show ?thesis
    proof cases
      case 1
      then show ?thesis using assms(2) by simp
    next
      case 2
      have o: "ht_order t' = ht_order t" by (simp add: ht_order_def 2)
      have laid: "laid 0 ?u (ht_order t)" using assms(2) by (simp add: ht_ring_ok_def)
      have "map (he_field (ht_data t')) (ht_order t) = map (he_field (ht_data t)) (ht_order t)"
      proof (rule map_cong [OF refl])
        fix e assume "e \<in> set (ht_order t)"
        from laid_member [OF laid this] show "he_field (ht_data t') e = he_field (ht_data t) e"
          using b(3,4) by (intro field_same view_take_same [of ?u]) (auto simp: 2 min_absorb2)
      qed
      then have "ht_fields t' = ht_fields t" by (simp add: ht_fields_def o)
      moreover have "ht_ring_ok t'" using assms(2) b c o by (auto simp: ht_ring_ok_def 2)
      ultimately show ?thesis using 2 c(1) by simp
    qed
  qed
qed

lemma count_bound:
  assumes "ht_ring_ok t"
  shows "32 * ht_count t \<le> ht_size t"
  using assms by (simp add: ht_ring_ok_def entries_size_lengths HpackEntryOverhead_def)

lemma grow_entries_ok:
  assumes "ht_grow_entries ok t = (st, t')" "ht_ring_ok t" "0 < ht_entry_capacity t"
  shows "ht_ring_ok t' \<and> ht_fields t' = ht_fields t \<and> ht_max t' = ht_max t \<and> ht_size t' = ht_size t
    \<and> 0 < ht_entry_capacity t' \<and> ht_data_capacity t' = ht_data_capacity t \<and> ht_used t' = ht_used t
    \<and> (st = STATUS_SUCCESS \<and> ht_count t' < ht_entry_capacity t' \<or> st = STATUS_INSUFFICIENT_RESOURCES \<and> \<not> ok)"
proof (cases "ht_count t < ht_entry_capacity t")
  case True
  then show ?thesis using assms by (auto simp: ht_grow_entries_def)
next
  case False
  let ?c = "ht_entry_capacity t * 2"
  have b: "ht_count t = ht_entry_capacity t" "ht_entry_capacity t \<le> 2 ^ 27"
    using False assms(2) count_bound [OF assms(2)] by (auto simp: ht_ring_ok_def)
  have w: "w64 ?c = ?c" using b by (intro w64_id) (simp add: u64_max_def)
  have "(st, t') = (if \<not> ok then (STATUS_INSUFFICIENT_RESOURCES, t)
      else (STATUS_SUCCESS, t\<lparr>ht_entries := ht_order t @ replicate (?c - ht_count t) hpack_entry_zero,
              ht_entry_capacity := ?c, ht_head := 0\<rparr>))"
    using assms(1,3) False b by (auto simp: ht_grow_entries_def w ht_array_ok_def u64_max_def ht_order_def)
  then consider "st = STATUS_INSUFFICIENT_RESOURCES" "\<not> ok" "t' = t"
    | "st = STATUS_SUCCESS" "t' = t\<lparr>ht_entries := ht_order t @ replicate (?c - ht_count t) hpack_entry_zero,
              ht_entry_capacity := ?c, ht_head := 0\<rparr>"
    by (auto split: if_splits)
  then show ?thesis
  proof cases
    case 1
    then show ?thesis using assms(2,3) by simp
  next
    case 2
    have "ht_order t' = ht_order t"
      using b(1) assms(3) by (intro nth_equalityI) (auto simp: 2 order_nth ht_slot_def nth_append)
    then show ?thesis using 2 assms(2,3) b by (auto simp: ht_ring_ok_def ht_fields_def)
  qed
qed

text \<open>What \<open>ht_store\<close> does to the order of the ring.\<close>

lemma order_store:
  assumes "ht_count t < ht_entry_capacity t" "ht_head t < ht_entry_capacity t" "length (ht_entries t) = ht_entry_capacity t"
  shows "ht_order (ht_store name val t)
    = \<lparr>he_name_offset = ht_used t, he_name_length = length name, he_value_offset = ht_used t + length name,
       he_value_length = length val\<rparr> # ht_order t"
proof (rule nth_equalityI)
  let ?c = "ht_entry_capacity t" and ?h = "if ht_head t = 0 then ht_entry_capacity t - 1 else ht_head t - 1"
  have h: "?h < ?c" "(?h + Suc i) mod ?c = (ht_head t + i) mod ?c" for i
    using assms(1,2) by (auto simp: mod_add_self1)
  fix i assume i: "i < length (ht_order (ht_store name val t))"
  show "ht_order (ht_store name val t) ! i = (\<lparr>he_name_offset = ht_used t, he_name_length = length name,
      he_value_offset = ht_used t + length name, he_value_length = length val\<rparr> # ht_order t) ! i"
  proof (cases i)
    case 0
    then show ?thesis using i h(1) assms(3) by (simp add: order_nth ht_slot_def ht_store_def Let_def)
  next
    case (Suc j)
    then have j: "j < ht_count t" using i by (simp add: ht_store_def Let_def)
    have "?h \<noteq> (?h + Suc j) mod ?c"
    proof
      assume "?h = (?h + Suc j) mod ?c"
      then have "(?h + 0) mod ?c = (?h + Suc j) mod ?c" using h(1) by simp
      from slot_inj [OF this] show False using assms(1) j by simp
    qed
    then show ?thesis
      using i j Suc h by (simp add: order_nth ht_slot_def ht_store_def Let_def)
  qed
qed (simp add: ht_store_def Let_def)

lemma store_ok:
  assumes "ht_ring_ok t" "ht_count t < ht_entry_capacity t" "ht_used t + (length name + length val) \<le> ht_data_capacity t"
    "ht_size t + (length name + length val + HpackEntryOverhead) < 2 ^ 32"
  shows "ht_ring_ok (ht_store name val t) \<and> ht_fields (ht_store name val t) = (name, val) # ht_fields t
    \<and> ht_max (ht_store name val t) = ht_max t
    \<and> ht_size (ht_store name val t) = ht_size t + (length name + length val + HpackEntryOverhead)
    \<and> ht_entry_capacity (ht_store name val t) = ht_entry_capacity t"
proof -
  let ?t = "ht_store name val t" and ?u = "ht_used t"
  have b: "length (ht_data t) = ht_data_capacity t" "ht_head t < ht_entry_capacity t" "length (ht_entries t) = ht_entry_capacity t"
    and laid: "laid 0 ?u (ht_order t)" and size: "ht_size t = entries_size (ht_order t)"
    using assms(1,2) by (auto simp: ht_ring_ok_def)
  note o = order_store [OF assms(2) b(2,3), of name val]
  have data: "ht_data ?t = take ?u (ht_data t) @ name @ val @ drop (?u + length name + length val) (ht_data t)"
    using assms(3) b(1) by (auto simp: ht_store_def Let_def copy_at_def ac_simps)
  have "map (he_field (ht_data ?t)) (ht_order t) = map (he_field (ht_data t)) (ht_order t)"
  proof (rule map_cong [OF refl])
    fix e assume "e \<in> set (ht_order t)"
    from laid_member [OF laid this] show "he_field (ht_data ?t) e = he_field (ht_data t) e"
      using assms(3) b(1) by (intro field_same view_take_same [of ?u]) (auto simp: data)
  qed
  then have fields: "ht_fields ?t = (name, val) # ht_fields t"
    using assms(3) b(1) by (simp add: ht_fields_def o he_field_def data view_def)
  have w: "w64 (ht_size t + (length name + length val + HpackEntryOverhead)) = ht_size t + (length name + length val + HpackEntryOverhead)"
    using assms(4) by (intro w64_id) (simp add: u64_max_def)
  have sz: "ht_size ?t = ht_size t + (length name + length val + HpackEntryOverhead)" by (simp add: ht_store_def Let_def w)
  have "ht_used ?t = ?u + (length name + length val)" by (simp add: ht_store_def Let_def)
  then have "laid 0 (ht_used ?t) (ht_order ?t)" using laid by (simp add: o he_length_def)
  moreover have "ht_size ?t = entries_size (ht_order ?t)" by (simp add: sz o size entries_size_def he_length_def)
  moreover have "length (ht_data ?t) = ht_data_capacity t" using data assms(3) b(1) by simp
  ultimately have "ht_ring_ok ?t"
    using assms b sz by (auto simp: ht_ring_ok_def ht_store_def Let_def)
  then show ?thesis using fields sz by (simp add: ht_store_def Let_def)
qed

text \<open>
  Insertion puts the field in front and keeps the newest fields that fit, whatever the ring and the buffer
  look like; it fails only when an allocation does, and then the table is the one after the evictions.
\<close>

lemma insert_fields:
  assumes "ht_ok t" "0 < ht_entry_capacity t" "ht_insert ok name val t = (st, t')" "length name + length val < 2 ^ 63"
  shows "ht_ok t' \<and> 0 < ht_entry_capacity t' \<and> ht_max t' = ht_max t
    \<and> (st = STATUS_SUCCESS \<and> ht_fields t' = fit (ht_max t) ((name, val) # ht_fields t)
       \<or> st = STATUS_INSUFFICIENT_RESOURCES \<and> (\<not> ok 0 \<or> \<not> ok 1)
         \<and> ht_fields t' = fit (ht_max t - hpack_field_size (name, val)) (ht_fields t))"
proof -
  let ?n = "length name + length val" and ?s = "length name + length val + HpackEntryOverhead"
  have big: "\<not> (length name > u64_max - length val \<or> ?n > u64_max - HpackEntryOverhead)"
    using assms(4) by (auto simp: u64_max_def HpackEntryOverhead_def)
  show ?thesis
  proof (cases "?s > ht_max t")
    case True
    then have "st = STATUS_SUCCESS" "t' = t\<lparr>ht_count := 0, ht_head := 0, ht_used := 0, ht_size := 0\<rparr>"
      using assms(3) big by (auto simp: ht_insert_def Let_def)
    then show ?thesis
      using assms(1,2) True by (auto simp: ht_ok_def ht_order_def ht_fields_def entries_size_def hpack_field_size_def)
  next
    case False
    have t: "ht_ring_ok t" "ht_max t < 2 ^ 32" using assms(1) by (auto simp: ht_ok_iff ht_ring_ok_def)
    define t1 where "t1 = ht_evict_while (\<lambda>size. w64 (size + ?s) > ht_max t) t"
    have "(w64 (size + ?s) > ht_max t) = (size > ht_max t - ?s)" if "size < 2 ^ 32" for size
    proof -
      have "w64 (size + ?s) = size + ?s" using that False t(2) by (intro w64_id) (simp add: u64_max_def)
      then show ?thesis using False by auto
    qed
    note e = evict_while_ok [OF t(1), of "\<lambda>size. w64 (size + ?s) > ht_max t" "ht_max t - ?s", OF this, folded t1_def]
    define t2 where "t2 = (if w64 (ht_used t1 + ?n) > ht_data_capacity t1 then ht_compact t1 else t1)"
    have t2: "ht_ring_ok t2" "ht_fields t2 = ht_fields t1" "ht_max t2 = ht_max t" "ht_size t2 = ht_size t1"
        "ht_entry_capacity t2 = ht_entry_capacity t"
      using e compact_ok [OF e(1)] by (simp_all add: t2_def)
    have used: "ht_used t2 + ?n \<le> 2 * ht_max t \<or> ht_used t2 + ?n \<le> ht_data_capacity t2"
    proof (cases "w64 (ht_used t1 + ?n) > ht_data_capacity t1")
      case True
      then have "ht_used t2 \<le> ht_max t - ?s" using compact_ok(8) [OF e(1)] e(3) by (simp add: t2_def)
      then show ?thesis using False by linarith
    next
      case False
      have "ht_data_capacity t1 \<le> 2 ^ 34" "ht_used t1 \<le> ht_data_capacity t1" using e(1) by (auto simp: ht_ring_ok_def)
      then have "w64 (ht_used t1 + ?n) = ht_used t1 + ?n"
        using \<open>\<not> ?s > ht_max t\<close> t(2) by (intro w64_id) (simp add: u64_max_def)
      then show ?thesis using False by (simp add: t2_def)
    qed
    obtain st3 t3 where g: "ht_grow_data (ok 0) ?n t2 = (st3, t3)" by fastforce
    have lim: "\<not> ?n > DynamicTableDataCapacityLimit (ht_max t1)"
      using False t(2) e(4) by (simp add: DynamicTableDataCapacityLimit_def u64_max_def)
    have run: "(st, t') = (if st3 \<noteq> STATUS_SUCCESS then (st3, t3)
        else and_then (ht_grow_entries (ok 1) t3) (\<lambda>t3. (STATUS_SUCCESS, ht_store name val t3)))"
      using assms(3) False big lim g
      by (auto simp: ht_insert_def Let_def t1_def [symmetric] t2_def [symmetric] and_then_def)
    have n33: "?n \<le> 2 ^ 33" "0 < ht_max t2" using False t(2) t2(3) by (auto simp: HpackEntryOverhead_def)
    have t3: "ht_ring_ok t3 \<and> ht_fields t3 = ht_fields t2 \<and> ht_max t3 = ht_max t2 \<and> ht_size t3 = ht_size t2
      \<and> ht_entry_capacity t3 = ht_entry_capacity t2 \<and> ht_used t3 = ht_used t2
      \<and> (st3 = STATUS_SUCCESS \<and> ht_used t2 + ?n \<le> ht_data_capacity t3 \<or> st3 = STATUS_INSUFFICIENT_RESOURCES \<and> \<not> ok 0)"
    proof (cases "ht_used t2 + ?n \<le> ht_data_capacity t2")
      case True
      then have "st3 = STATUS_SUCCESS" "t3 = t2"
        using g t2(1) by (auto simp: ht_grow_data_def ht_ring_ok_def u64_max_def w64_id)
      then show ?thesis using t2(1) True by simp
    next
      case False
      then show ?thesis using grow_data_ok [OF g t2(1)] used t2(3) n33 by auto
    qed
    have fit: "fit (ht_max t) ((name, val) # ht_fields t) = (name, val) # fit (ht_max t - ?s) (ht_fields t)"
      using False by (simp add: hpack_field_size_def)
    show ?thesis
    proof (cases "st3 = STATUS_SUCCESS")
      case False
      then have "st = st3" "t' = t3" using run by auto
      then show ?thesis
        using False t3 t2 e assms(2) by (auto simp: ht_ok_iff hpack_field_size_def)
    next
      case True
      obtain st4 t4 where g4: "ht_grow_entries (ok 1) t3 = (st4, t4)" by fastforce
      note t4 = grow_entries_ok [OF g4]
      show ?thesis
      proof (cases "st4 = STATUS_SUCCESS")
        case False
        then have "st = st4" "t' = t4" using run True g4 by (auto simp: and_then_def)
        then show ?thesis using False t4 t3 t2 e assms(2) by (auto simp: ht_ok_iff hpack_field_size_def)
      next
        case ok4: True
        then have st: "st = STATUS_SUCCESS" "t' = ht_store name val t4" using run True g4 by (auto simp: and_then_def)
        have "ht_size t4 + ?s \<le> ht_max t" using t4 t3 t2 e(3) False assms(2) by auto
        then show ?thesis
          using store_ok [of t4 name val] ok4 t4 t3 t2 e(2) True st fit assms(2) t(2) by (auto simp: ht_ok_iff)
      qed
    qed
  qed
qed

lemma initialize_fields:
  assumes "ht_initialize a b m t0 = (STATUS_SUCCESS, t)" "m < 2 ^ 32"
  shows "ht_ok t" "ht_fields t = []" "ht_max t = m" "0 < m \<Longrightarrow> 0 < ht_entry_capacity t"
  using assms
  by (auto simp: ht_initialize_def ht_reset_def ht_ok_def ht_order_def ht_fields_def entries_size_def Let_def
      DynamicTableDataCapacityLimit_def u64_max_def split: if_splits)

section \<open>Histories\<close>

text \<open>The operations on an initialised table, and what they do to the list of fields and its limit.\<close>

datatype hpack_table_op = TableInsert "nat \<Rightarrow> bool" bytes bytes | TableResize nat

fun ht_apply :: "hpack_table_op \<Rightarrow> hpack_table \<Rightarrow> ntstatus \<times> hpack_table" where
  "ht_apply (TableInsert ok name val) t = ht_insert ok name val t"
| "ht_apply (TableResize m) t = (STATUS_SUCCESS, ht_update_max_size m t)"

fun ht_run :: "hpack_table_op list \<Rightarrow> hpack_table \<Rightarrow> ntstatus list \<times> hpack_table" where
  "ht_run [] t = ([], t)"
| "ht_run (x # xs) t = (case ht_apply x t of (st, t1) \<Rightarrow> case ht_run xs t1 of (sts, t2) \<Rightarrow> (st # sts, t2))"

fun fields_apply :: "hpack_table_op \<Rightarrow> ntstatus \<Rightarrow> nat \<times> hpack_field list \<Rightarrow> nat \<times> hpack_field list" where
  "fields_apply (TableInsert ok name val) st (m, fs) =
     (m, if st = STATUS_SUCCESS then fit m ((name, val) # fs) else fit (m - hpack_field_size (name, val)) fs)"
| "fields_apply (TableResize m') st (m, fs) = (m', fit m' fs)"

fun fields_run :: "hpack_table_op list \<Rightarrow> ntstatus list \<Rightarrow> nat \<times> hpack_field list \<Rightarrow> nat \<times> hpack_field list" where
  "fields_run (x # xs) (st # sts) a = fields_run xs sts (fields_apply x st a)"
| "fields_run xs sts a = a"

text \<open>Sizes are those of real memory; and whether an allocation of the operation fails.\<close>

fun op_in_memory :: "hpack_table_op \<Rightarrow> bool" where
  "op_in_memory (TableInsert ok name val) \<longleftrightarrow> length name + length val < 2 ^ 63"
| "op_in_memory (TableResize m) \<longleftrightarrow> m < 2 ^ 32"

fun op_fails :: "hpack_table_op \<Rightarrow> bool" where
  "op_fails (TableInsert ok name val) \<longleftrightarrow> \<not> ok 0 \<or> \<not> ok 1"
| "op_fails (TableResize m) \<longleftrightarrow> False"

text \<open>
  A table without an entry array, as one initialised with size 0 is, never gets one: it stays empty and refuses
  every field that would fit.
\<close>

lemma insert_without_entries:
  assumes "ht_ok t" "ht_entry_capacity t = 0" "ht_insert ok name val t = (st, t')" "length name + length val < 2 ^ 63"
  shows "ht_ok t' \<and> ht_entry_capacity t' = 0 \<and> ht_max t' = ht_max t \<and> ht_fields t' = []
    \<and> st = (if hpack_field_size (name, val) \<le> ht_max t then STATUS_INSUFFICIENT_RESOURCES else STATUS_SUCCESS)"
proof -
  let ?n = "length name + length val" and ?s = "length name + length val + HpackEntryOverhead"
  have big: "\<not> (length name > u64_max - length val \<or> ?n > u64_max - HpackEntryOverhead)"
    using assms(4) by (auto simp: u64_max_def HpackEntryOverhead_def)
  have empty: "ht_count t = 0" "ht_fields t = []" "ht_size t = 0" and ring: "ht_ring_ok t" and m: "ht_max t < 2 ^ 32"
    using assms(1,2) by (auto simp: ht_ok_iff ht_ring_ok_def ht_fields_def ht_order_def entries_size_def)
  show ?thesis
  proof (cases "?s > ht_max t")
    case True
    then have "st = STATUS_SUCCESS" "t' = t\<lparr>ht_count := 0, ht_head := 0, ht_used := 0, ht_size := 0\<rparr>"
      using assms(3) big by (auto simp: ht_insert_def Let_def)
    then show ?thesis
      using assms(1,2) True by (auto simp: ht_ok_def ht_order_def ht_fields_def entries_size_def hpack_field_size_def)
  next
    case False
    have ev: "ht_evict_while (\<lambda>size. w64 (size + ?s) > ht_max t) t = t" using empty(1) by (subst ht_evict_while.simps) simp
    define t2 where "t2 = (if w64 (ht_used t + ?n) > ht_data_capacity t then ht_compact t else t)"
    have used: "ht_used t = 0 \<or> \<not> w64 (ht_used t + ?n) > ht_data_capacity t \<or> ht_used t2 = 0"
      using empty(1) by (simp add: t2_def ht_compact_def)
    have t2: "ht_ring_ok t2" "ht_fields t2 = []" "ht_max t2 = ht_max t" "ht_size t2 = 0" "ht_entry_capacity t2 = 0" "ht_count t2 = 0"
      using compact_ok [OF ring] ring empty assms(2) by (simp_all add: t2_def)
    obtain st3 t3 where g: "ht_grow_data (ok 0) ?n t2 = (st3, t3)" by fastforce
    have lim: "\<not> ?n > DynamicTableDataCapacityLimit (ht_max t)"
      using False m by (simp add: DynamicTableDataCapacityLimit_def u64_max_def)
    have n: "?n \<le> 2 ^ 33" "0 < ht_max t2" using False m t2(3) by (auto simp: HpackEntryOverhead_def)
    have t3: "ht_ring_ok t3 \<and> ht_fields t3 = [] \<and> ht_max t3 = ht_max t \<and> ht_size t3 = 0 \<and> ht_entry_capacity t3 = 0 \<and> ht_count t3 = 0
        \<and> (st3 = STATUS_SUCCESS \<or> st3 = STATUS_INSUFFICIENT_RESOURCES)"
    proof (cases "w64 (ht_used t2 + ?n) \<le> ht_data_capacity t2")
      case True
      then have "st3 = STATUS_SUCCESS" "t3 = t2" using g by (auto simp: ht_grow_data_def)
      then show ?thesis using t2 by simp
    next
      case grow: False
      have "ht_used t2 = 0"
      proof (cases "w64 (ht_used t + ?n) > ht_data_capacity t")
        case True
        then show ?thesis using empty(1) by (simp add: t2_def ht_compact_def)
      qed (use grow in \<open>simp add: t2_def\<close>)
      then show ?thesis using grow_data_ok [OF g t2(1) _ n] t2 False by auto
    qed
    have g4: "ht_grow_entries (ok 1) t3 = (STATUS_INSUFFICIENT_RESOURCES, t3)"
      using t3 by (simp add: ht_grow_entries_def ht_array_ok_def w64_def)
    have "(st, t') = (STATUS_INSUFFICIENT_RESOURCES, t3)"
      using assms(3) False big lim g g4 t3
      by (auto simp: ht_insert_def Let_def ev t2_def [symmetric] and_then_def)
    then show ?thesis using t3 False by (simp add: ht_ok_iff hpack_field_size_def)
  qed
qed

lemma apply_refines:
  assumes "ht_ok t" "op_in_memory x" "ht_apply x t = (st, t')"
  shows "ht_ok t' \<and> (ht_entry_capacity t' = 0 \<longleftrightarrow> ht_entry_capacity t = 0) \<and> (ht_max t', ht_fields t') = fields_apply x st (ht_max t, ht_fields t)
    \<and> (st = STATUS_SUCCESS \<or> st = STATUS_INSUFFICIENT_RESOURCES \<and> (op_fails x \<or> ht_entry_capacity t = 0))"
proof (cases x)
  case (TableInsert ok name val)
  show ?thesis
  proof (cases "ht_entry_capacity t = 0")
    case True
    have "ht_fields t = []" using assms(1) True by (simp add: ht_ok_def ht_fields_def ht_order_def)
    moreover have "ht_insert ok name val t = (st, t')" "length name + length val < 2 ^ 63" using TableInsert assms(2,3) by simp_all
    note insert_without_entries [OF assms(1) True this]
    ultimately show ?thesis using TableInsert True by (auto simp: not_le)
  next
    case False
    then show ?thesis using insert_fields [OF assms(1)] TableInsert assms(2,3) by fastforce
  qed
next
  case (TableResize m)
  then show ?thesis using update_max_size_fields [OF assms(1)] assms(2,3) by auto
qed

lemma run_refines:
  "ht_ok t \<Longrightarrow> \<forall>x \<in> set xs. op_in_memory x \<Longrightarrow> ht_run xs t = (sts, t') \<Longrightarrow>
    ht_ok t' \<and> (ht_max t', ht_fields t') = fields_run xs sts (ht_max t, ht_fields t)
    \<and> list_all2 (\<lambda>x st. st = STATUS_SUCCESS \<or> st = STATUS_INSUFFICIENT_RESOURCES \<and> (op_fails x \<or> ht_entry_capacity t = 0)) xs sts"
proof (induction xs arbitrary: t sts t')
  case (Cons x xs)
  obtain st t1 where a: "ht_apply x t = (st, t1)" by fastforce
  obtain sts1 t2 where r: "ht_run xs t1 = (sts1, t2)" by fastforce
  have "op_in_memory x" using Cons.prems(2) by simp
  note a1 = apply_refines [OF Cons.prems(1) this a]
  have "ht_ok t2 \<and> (ht_max t2, ht_fields t2) = fields_run xs sts1 (ht_max t1, ht_fields t1)
      \<and> list_all2 (\<lambda>x st. st = STATUS_SUCCESS \<or> st = STATUS_INSUFFICIENT_RESOURCES \<and> (op_fails x \<or> ht_entry_capacity t1 = 0)) xs sts1"
    by (rule Cons.IH [OF _ _ r]) (use a1 Cons.prems(2) in auto)
  then show ?case using a1 a r Cons.prems(3) by auto
qed simp

text \<open>
  C31. The dynamic table is the list of its fields. Through any history of insertions and size changes after
  its initialisation, entries kept in a ring over a compacted buffer included, the table holds the fields the
  protocol assigns: the newest first, the longest prefix that fits the current maximum size. \<open>Lookup\<close> returns
  the field at each index and nothing beyond the last, and an operation fails only when one of its allocations
  does or when the table was initialised with size 0.
\<close>

theorem hpack_table_history:
  assumes "ht_initialize a b m t0 = (STATUS_SUCCESS, t)" "m < 2 ^ 32" "\<forall>x \<in> set xs. op_in_memory x"
    "ht_run xs t = (sts, t')"
  shows "(ht_max t', ht_fields t') = fields_run xs sts (m, [])
    \<and> (\<forall>i. ht_lookup i t' = (if i < length (ht_fields t') then Some (ht_fields t' ! i) else None))
    \<and> list_all2 (\<lambda>x st. st = STATUS_SUCCESS \<or> st = STATUS_INSUFFICIENT_RESOURCES \<and> (op_fails x \<or> m = 0)) xs sts"
proof -
  have z: "(ht_entry_capacity t = 0) = (m = 0)"
    using initialize_fields(4) [OF assms(1,2)] assms(1) by (cases "m = 0") (auto simp: ht_initialize_def ht_reset_def)
  show ?thesis
    using run_refines [OF initialize_fields(1) [OF assms(1,2)] assms(3,4), unfolded z]
      initialize_fields(2,3) [OF assms(1,2)] ht_lookup_fields by simp
qed

definition hpack_table_none :: hpack_table where
  "hpack_table_none = \<lparr>ht_data = [], ht_data_capacity = 0, ht_used = 0, ht_entries = [], ht_entry_capacity = 0, ht_count = 0,
     ht_head = 0, ht_size = 0, ht_max = 4096\<rparr>"

lemma table_initialized: "fst (ht_initialize True True m hpack_table_none) = STATUS_SUCCESS" if "m < 2 ^ 32"
  using that by (simp add: ht_initialize_def DynamicTableDataCapacityLimit_def ht_array_ok_def u64_max_def Let_def)

theorem hpack_table_history_witness:
  "\<exists>t sts t'. ht_initialize True True 70 hpack_table_none = (STATUS_SUCCESS, t)
    \<and> ht_run [TableInsert (\<lambda>i. True) [1] [2], TableInsert (\<lambda>i. True) [3] [4], TableInsert (\<lambda>i. True) [5] [6]] t = (sts, t')
    \<and> ht_lookup 0 t' = Some ([5], [6]) \<and> ht_lookup 1 t' = Some ([3], [4]) \<and> ht_lookup 2 t' = None"
proof -
  let ?xs = "[TableInsert (\<lambda>i. True) [1] [2], TableInsert (\<lambda>i. True) [3] [4], TableInsert (\<lambda>i. True) [5] [6]]"
  obtain t where t: "ht_initialize True True 70 hpack_table_none = (STATUS_SUCCESS, t)"
    using table_initialized [of 70] by (cases "ht_initialize True True 70 hpack_table_none") simp
  obtain sts t' where r: "ht_run ?xs t = (sts, t')" by fastforce
  have mem: "\<forall>x \<in> set ?xs. op_in_memory x" by simp
  note h = hpack_table_history [OF t _ mem r, simplified]
  have "sts = [STATUS_SUCCESS, STATUS_SUCCESS, STATUS_SUCCESS]" using h by (auto simp: list_all2_Cons1)
  then have "ht_fields t' = [([5], [6]), ([3], [4])]" using h by (simp add: hpack_field_size_def HpackEntryOverhead_def)
  then show ?thesis using t r h by (intro exI [of _ t] exI [of _ sts] exI [of _ t']) simp
qed

end
