(* ===== verification/HttpText.thy ===== *)
theory HttpText
  imports Prelude
begin

text \<open>
  Text of HTTP/1.1: \<open>src/wknetlib/rtl/Text.cpp\<close>, \<open>src/wknetlib/http1/HttpTypes.cpp\<close> and the header accessors
  of \<open>src/wknetlib/http1/HttpResponse.cpp\<close>. A text is the list of its characters as bytes; the character
  classes and the trimming of blanks, which several files define alike, are stated once. The lemmas give the
  loops over separated lists their meaning.
\<close>

definition ascii :: "string \<Rightarrow> bytes" where
  "ascii s = map of_char s"

type_synonym http_header = "bytes \<times> bytes"

section \<open>Characters\<close>

definition ascii_lower :: "byte \<Rightarrow> byte" where
  "ascii_lower b = (if 0x41 \<le> b \<and> b \<le> 0x5a then b + 32 else b)"

definition is_digit :: "byte \<Rightarrow> bool" where
  "is_digit c \<longleftrightarrow> 48 \<le> c \<and> c \<le> 57"

definition is_hex_digit :: "byte \<Rightarrow> bool" where
  "is_hex_digit c \<longleftrightarrow> (48 \<le> c \<and> c \<le> 57) \<or> (97 \<le> c \<and> c \<le> 102) \<or> (65 \<le> c \<and> c \<le> 70)"

definition hex_value :: "byte \<Rightarrow> byte" where
  "hex_value c = (if 48 \<le> c \<and> c \<le> 57 then c - 48 else if 97 \<le> c \<and> c \<le> 102 then 10 + c - 97 else 10 + c - 65)"

definition is_tchar :: "byte \<Rightarrow> bool" where
  "is_tchar c \<longleftrightarrow> (48 \<le> c \<and> c \<le> 57) \<or> (65 \<le> c \<and> c \<le> 90) \<or> (97 \<le> c \<and> c \<le> 122)
     \<or> c \<in> {33, 35, 36, 37, 38, 39, 42, 43, 45, 46, 94, 95, 96, 124, 126}"

definition is_blank :: "byte \<Rightarrow> bool" where
  "is_blank c \<longleftrightarrow> c = 32 \<or> c = 9"

text \<open>The value between its blanks.\<close>

definition trim_blanks :: "bytes \<Rightarrow> bytes" where
  "trim_blanks v = rev (dropWhile is_blank (rev (dropWhile is_blank v)))"

definition TextEqualsIgnoreCase :: "bytes \<Rightarrow> bytes \<Rightarrow> bool" where
  "TextEqualsIgnoreCase left right \<longleftrightarrow> list_all2 (\<lambda>x y. ascii_lower x = ascii_lower y) left right"

text \<open>
  The pieces of a text between separators, as the loops that run \<open>while (cursor <= length)\<close> and stop at the
  end see them: one more than there are separators.
\<close>

fun split_on :: "byte \<Rightarrow> bytes \<Rightarrow> bytes list" where
  "split_on c [] = [[]]"
| "split_on c (b # bs) = (if b = c then [] # split_on c bs else case split_on c bs of p # ps \<Rightarrow> (b # p) # ps | [] \<Rightarrow> [[b]])"

section \<open>Tokens of a header value\<close>

definition IsTokenBoundary :: "byte \<Rightarrow> bool" where
  "IsTokenBoundary c \<longleftrightarrow> c = 44 \<or> c = 32 \<or> c = 9"

lemma length_dropWhile_less: "xs \<noteq> [] \<Longrightarrow> P (hd xs) \<Longrightarrow> length (dropWhile P xs) < length xs"
  by (cases xs) (auto simp: le_imp_less_Suc length_dropWhile_le)

lemma tokens_advance:
  assumes "rest \<noteq> []"
  shows "length (dropWhile (\<lambda>c. c \<noteq> 44) (dropWhile IsTokenBoundary rest)) < length rest"
proof (cases "IsTokenBoundary (hd rest)")
  case True
  then show ?thesis
    using length_dropWhile_less [of rest IsTokenBoundary] length_dropWhile_le [of "\<lambda>c. c \<noteq> 44" "dropWhile IsTokenBoundary rest"]
      assms by simp
next
  case False
  then have d: "dropWhile IsTokenBoundary rest = rest" using assms by (cases rest) auto
  from False have "hd rest \<noteq> 44" by (auto simp: IsTokenBoundary_def)
  then show ?thesis using length_dropWhile_less [of rest "\<lambda>c. c \<noteq> 44"] assms d by simp
qed

text \<open>The loop of \<open>HeaderValueHasToken\<close>, on the rest of the value.\<close>

function header_value_tokens :: "bytes \<Rightarrow> bytes \<Rightarrow> bool" where
  "header_value_tokens token rest =
     (if rest = [] then False
      else let r1 = dropWhile IsTokenBoundary rest; candidate = takeWhile (\<lambda>c. c \<noteq> 44) r1
        in if TextEqualsIgnoreCase (trim_blanks candidate) token then True
           else header_value_tokens token (dropWhile (\<lambda>c. c \<noteq> 44) r1))"
  by pat_completeness auto

termination
  by (relation "measure (\<lambda>(token, rest). length rest)") (auto simp: tokens_advance)

declare header_value_tokens.simps [simp del]

definition HeaderValueHasToken :: "bytes \<Rightarrow> bytes \<Rightarrow> bool" where
  "HeaderValueHasToken val token = (if token = [] then False else header_value_tokens token (trim_blanks val))"

section \<open>Responses\<close>

datatype http_body_kind = BodyNone | BodyContentLength | BodyChunked | BodyCloseDelimited

record http_response =
  http_major :: nat
  http_minor :: nat
  http_status :: nat
  http_reason :: bytes
  http_headers :: "http_header list"
  http_trailers :: "http_header list"
  http_body :: bytes
  http_body_kind :: http_body_kind
  http_ends_on_close :: bool
  http_consumed :: nat

definition http_response_empty :: http_response where
  "http_response_empty = \<lparr>http_major = 0, http_minor = 0, http_status = 0, http_reason = [], http_headers = [],
     http_trailers = [], http_body = [], http_body_kind = BodyNone, http_ends_on_close = False, http_consumed = 0\<rparr>"

definition FindHeader :: "bytes \<Rightarrow> http_response \<Rightarrow> http_header option" where
  "FindHeader name r = (if name = [] then None else find (\<lambda>h. TextEqualsIgnoreCase (fst h) name) (http_headers r))"

definition HasHeaderValueToken :: "bytes \<Rightarrow> bytes \<Rightarrow> http_response \<Rightarrow> bool" where
  "HasHeaderValueToken name token r \<longleftrightarrow>
     (if token = [] then False
      else list_ex (\<lambda>h. TextEqualsIgnoreCase (fst h) name \<and> HeaderValueHasToken (snd h) token) (http_headers r))"

definition HasConnectionClose :: "http_response \<Rightarrow> bool" where
  "HasConnectionClose = HasHeaderValueToken (ascii ''Connection'') (ascii ''close'')"

definition HasConnectionKeepAlive :: "http_response \<Rightarrow> bool" where
  "HasConnectionKeepAlive = HasHeaderValueToken (ascii ''Connection'') (ascii ''keep-alive'')"

definition HasChunkedTransferEncoding :: "http_response \<Rightarrow> bool" where
  "HasChunkedTransferEncoding = HasHeaderValueToken (ascii ''Transfer-Encoding'') (ascii ''chunked'')"

definition IsPartialContent :: "http_response \<Rightarrow> bool" where
  "IsPartialContent r \<longleftrightarrow> http_status r = 206"

text \<open>
  The loop of \<open>ParseUnsigned\<close> over the digits at the front of a text: the value and what follows them.
\<close>

fun unsigned_digits :: "bytes \<Rightarrow> nat \<Rightarrow> (nat \<times> bytes) option" where
  "unsigned_digits [] v = Some (v, [])"
| "unsigned_digits (c # cs) v =
     (if \<not> is_digit c then Some (v, c # cs)
      else let digit = unat (c - 48)
        in if v > (u64_max - digit) div 10 then None else unsigned_digits cs (v * 10 + digit))"

definition ParseUnsigned :: "bytes \<Rightarrow> (nat \<times> bytes) option" where
  "ParseUnsigned text =
     (case unsigned_digits text 0 of
        None \<Rightarrow> None
      | Some (v, rest) \<Rightarrow> if length rest = length text then None else Some (v, rest))"

text \<open>The first and last position, if there is a range, and the complete length, if it is known.\<close>

type_synonym content_range = "(nat \<times> nat) option \<times> nat option"

definition content_range_end :: "content_range \<Rightarrow> bytes \<Rightarrow> content_range option" where
  "content_range_end r rest = (if dropWhile is_blank rest = [] then Some r else None)"

definition content_range_value :: "bytes \<Rightarrow> content_range option" where
  "content_range_value text =
     (let t1 = dropWhile is_blank text
      in if length t1 < 5 \<or> take 5 t1 \<noteq> ascii ''bytes'' then None
         else let t2 = drop 5 t1
           in if t2 = [] \<or> \<not> is_blank (t2 ! 0) then None
              else case dropWhile is_blank t2 of
                     [] \<Rightarrow> None
                   | c # t3 \<Rightarrow>
                       if c = 42
                       then (if t3 = [] \<or> t3 ! 0 \<noteq> 47 then None
                             else case ParseUnsigned (drop 1 t3) of
                                    None \<Rightarrow> None
                                  | Some (complete, t4) \<Rightarrow> content_range_end (None, Some complete) t4)
                       else case ParseUnsigned (c # t3) of
                              None \<Rightarrow> None
                            | Some (first, t4) \<Rightarrow>
                                if t4 = [] \<or> t4 ! 0 \<noteq> 45 then None
                                else case ParseUnsigned (drop 1 t4) of
                                       None \<Rightarrow> None
                                     | Some (lastPos, t5) \<Rightarrow>
                                         if lastPos < first then None
                                         else if t5 = [] \<or> t5 ! 0 \<noteq> 47 then None
                                         else if drop 1 t5 \<noteq> [] \<and> t5 ! 1 = 42
                                         then content_range_end (Some (first, lastPos), None) (drop 2 t5)
                                         else case ParseUnsigned (drop 1 t5) of
                                                None \<Rightarrow> None
                                              | Some (complete, t6) \<Rightarrow>
                                                  if lastPos \<ge> complete then None
                                                  else content_range_end (Some (first, lastPos), Some complete) t6)"

definition GetContentRange :: "http_response \<Rightarrow> content_range option" where
  "GetContentRange r =
     (case FindHeader (ascii ''Content-Range'') r of None \<Rightarrow> None | Some h \<Rightarrow> content_range_value (snd h))"

section \<open>Lemmas\<close>

lemma is_hex_digit_plain: "is_hex_digit c \<Longrightarrow> c \<noteq> 13 \<and> c \<noteq> 10 \<and> c \<noteq> 59"
  by (auto simp: is_hex_digit_def)

lemma is_tchar_plain: "is_tchar c \<Longrightarrow> c \<noteq> 13 \<and> c \<noteq> 10 \<and> c \<noteq> 58"
  by (auto simp: is_tchar_def)

lemma dropWhile_blanks: "list_all is_blank pre \<Longrightarrow> dropWhile is_blank (pre @ xs) = dropWhile is_blank xs"
  by (induction pre) auto

lemma trim_blanks_between:
  assumes "list_all is_blank pre" "list_all is_blank post"
    "val \<noteq> [] \<longrightarrow> \<not> is_blank (hd val) \<and> \<not> is_blank (last val)"
  shows "trim_blanks (pre @ val @ post) = val"
proof -
  have post: "dropWhile is_blank post = []" "list_all is_blank (rev post)"
    using assms(2) by (auto simp: list_all_iff)
  have "dropWhile is_blank (val @ post) = (if val = [] then [] else val @ post)"
    using assms(3) post(1) by (cases val) auto
  moreover have "dropWhile is_blank (rev post @ rev val) = rev val" if "val \<noteq> []"
    using that assms(3) dropWhile_blanks [OF post(2), of "rev val"] by (cases val rule: rev_cases) auto
  ultimately show ?thesis
    using dropWhile_blanks [OF assms(1), of "val @ post"] by (auto simp: trim_blanks_def)
qed

lemma takeWhile_name:
  "58 \<notin> set name \<Longrightarrow> takeWhile (\<lambda>c. c \<noteq> (58 :: byte)) (name @ 58 # xs) = name"
  by (induction name) auto

text \<open>Trimming leaves a text without blanks at its ends, and leaves such a text alone.\<close>

lemma trim_blanks_ends: "trim_blanks v \<noteq> [] \<Longrightarrow> \<not> is_blank (hd (trim_blanks v)) \<and> \<not> is_blank (last (trim_blanks v))"
proof -
  let ?d = "dropWhile is_blank v"
  assume "trim_blanks v \<noteq> []"
  then have ne: "dropWhile is_blank (rev ?d) \<noteq> []" by (simp add: trim_blanks_def)
  from hd_dropWhile [OF ne] have l: "\<not> is_blank (last (trim_blanks v))" by (simp add: trim_blanks_def last_rev)
  obtain zs where z: "?d = trim_blanks v @ zs"
    using suffix_dropWhile [of is_blank "rev ?d"] by (auto simp: suffix_def trim_blanks_def rev_eq_append_conv)
  have "?d \<noteq> []" using z \<open>trim_blanks v \<noteq> []\<close> by auto
  from hd_dropWhile [OF this] have "\<not> is_blank (hd ?d)" .
  then show ?thesis using z \<open>trim_blanks v \<noteq> []\<close> l by (simp add: hd_append)
qed

lemma trim_blanks_id: "v \<noteq> [] \<longrightarrow> \<not> is_blank (hd v) \<and> \<not> is_blank (last v) \<Longrightarrow> trim_blanks v = v"
  using trim_blanks_between [of "[]" "[]" v] by simp

lemma trim_trim [simp]: "trim_blanks (trim_blanks v) = trim_blanks v"
  using trim_blanks_ends by (intro trim_blanks_id) blast

lemma text_equals_refl [simp]: "TextEqualsIgnoreCase t t"
  by (simp add: TextEqualsIgnoreCase_def list.rel_refl)

lemma text_equals_length: "TextEqualsIgnoreCase a b \<Longrightarrow> length a = length b"
  by (simp add: TextEqualsIgnoreCase_def list_all2_lengthD)

lemma split_on_not_Nil [simp]: "split_on c bs \<noteq> []"
  by (induction bs) (auto split: list.splits)

lemma split_on_plain: "c \<notin> set bs \<Longrightarrow> split_on c bs = [bs]"
  by (induction bs) auto

lemma split_on_append: "c \<notin> set p \<Longrightarrow> split_on c (p @ c # bs) = p # split_on c bs"
  by (induction p) auto

lemma split_on_pieces: "p \<in> set (split_on c bs) \<Longrightarrow> c \<notin> set p"
  by (induction bs arbitrary: p) (auto split: if_splits list.splits)

lemma split_on_first: "split_on c bs = takeWhile (\<lambda>x. x \<noteq> c) bs # (case dropWhile (\<lambda>x. x \<noteq> c) bs of [] \<Rightarrow> [] | _ # r \<Rightarrow> split_on c r)"
  by (induction bs) (auto split: list.splits)

end
