(* ===== verification/Hpack.thy ===== *)
theory Hpack
  imports QpackInteger HpackHuffman HpackTable HttpText
begin

text \<open>
  The header compression of HTTP/2, \<open>src/wknetlib/http2/Hpack.cpp\<close> and \<open>HpackStaticTable.h\<close>: integers, strings,
  the decoder of a header block and the encoder. A field is the pair of its name and its value. The decoder's
  output buffer for names and values is a capacity and the number of bytes used; what lies in it is carried
  with the fields.
\<close>

section \<open>Static table\<close>

definition hpack_static_text :: "(string \<times> string) list" where
  "hpack_static_text = [
     ('':authority'', ''''),
     ('':method'', ''GET''),
     ('':method'', ''POST''),
     ('':path'', ''/''),
     ('':path'', ''/index.html''),
     ('':scheme'', ''http''),
     ('':scheme'', ''https''),
     ('':status'', ''200''),
     ('':status'', ''204''),
     ('':status'', ''206''),
     ('':status'', ''304''),
     ('':status'', ''400''),
     ('':status'', ''404''),
     ('':status'', ''500''),
     (''accept-charset'', ''''),
     (''accept-encoding'', ''gzip, deflate''),
     (''accept-language'', ''''),
     (''accept-ranges'', ''''),
     (''accept'', ''''),
     (''access-control-allow-origin'', ''''),
     (''age'', ''''),
     (''allow'', ''''),
     (''authorization'', ''''),
     (''cache-control'', ''''),
     (''content-disposition'', ''''),
     (''content-encoding'', ''''),
     (''content-language'', ''''),
     (''content-length'', ''''),
     (''content-location'', ''''),
     (''content-range'', ''''),
     (''content-type'', ''''),
     (''cookie'', ''''),
     (''date'', ''''),
     (''etag'', ''''),
     (''expect'', ''''),
     (''expires'', ''''),
     (''from'', ''''),
     (''host'', ''''),
     (''if-match'', ''''),
     (''if-modified-since'', ''''),
     (''if-none-match'', ''''),
     (''if-range'', ''''),
     (''if-unmodified-since'', ''''),
     (''last-modified'', ''''),
     (''link'', ''''),
     (''location'', ''''),
     (''max-forwards'', ''''),
     (''proxy-authenticate'', ''''),
     (''proxy-authorization'', ''''),
     (''range'', ''''),
     (''referer'', ''''),
     (''refresh'', ''''),
     (''retry-after'', ''''),
     (''server'', ''''),
     (''set-cookie'', ''''),
     (''strict-transport-security'', ''''),
     (''transfer-encoding'', ''''),
     (''user-agent'', ''''),
     (''vary'', ''''),
     (''via'', ''''),
     (''www-authenticate'', '''')]"

definition HpackStaticTable :: "hpack_field list" where
  "HpackStaticTable = map (\<lambda>(n, v). (ascii n, ascii v)) hpack_static_text"

abbreviation HpackStaticTableSize :: nat where
  "HpackStaticTableSize \<equiv> 61"

section \<open>Integers\<close>

text \<open>The loop over the groups of seven bits, and \<open>HpackEncodeInteger\<close>; the value is a \<open>ULONG\<close>.\<close>

function hpack_encode_groups :: "nat \<Rightarrow> nat \<Rightarrow> bytes \<Rightarrow> bytes result" where
  "hpack_encode_groups v capacity w =
     (if v \<ge> 128
      then if length w \<ge> capacity then Inl STATUS_BUFFER_TOO_SMALL
           else hpack_encode_groups (drop_bit 7 v) capacity (w @ [uchar ((v AND 0x7f) OR 0x80)])
      else if length w \<ge> capacity then Inl STATUS_BUFFER_TOO_SMALL
      else Inr (w @ [uchar v]))"
  by pat_completeness auto

termination
  by (relation "measure (\<lambda>(v, capacity, w). v)") (auto simp: drop_bit_eq_div)

declare hpack_encode_groups.simps [simp del]

definition HpackEncodeInteger :: "nat \<Rightarrow> byte \<Rightarrow> nat \<Rightarrow> nat \<Rightarrow> bytes result" where
  "HpackEncodeInteger v prefixByte prefixBits capacity =
     (if prefixBits = 0 \<or> prefixBits > 8 then Inl STATUS_INVALID_PARAMETER
      else let maxPrefix = uchar (push_bit prefixBits 1 - 1); prefixMask = NOT maxPrefix
        in if v < unat maxPrefix
           then if capacity < 1 then Inl STATUS_BUFFER_TOO_SMALL
                else Inr [(prefixByte AND prefixMask) OR (uchar v AND maxPrefix)]
           else if capacity < 1 then Inl STATUS_BUFFER_TOO_SMALL
           else hpack_encode_groups (v - unat maxPrefix) capacity [(prefixByte AND prefixMask) OR maxPrefix])"

text \<open>The loop of \<open>HpackDecodeInteger\<close>; \<open>result\<close>, \<open>chunk\<close> and \<open>increment\<close> are \<open>ULONG\<close>s.\<close>

fun hpack_decode_groups :: "bytes \<Rightarrow> nat \<Rightarrow> nat \<Rightarrow> nat \<Rightarrow> nat \<Rightarrow> (nat \<times> nat) result" where
  "hpack_decode_groups [] m continuationBytes decoded offset = Inl STATUS_MORE_PROCESSING_REQUIRED"
| "hpack_decode_groups (b # src) m continuationBytes decoded offset =
     (if continuationBytes + 1 > 5 then Inl STATUS_INTEGER_OVERFLOW
      else let chunk = unat b AND 0x7f
        in if m \<ge> 32 \<or> m \<ge> 28 \<and> chunk > 0x0f then Inl STATUS_INTEGER_OVERFLOW
           else let increment = push_bit m chunk mod 2 ^ 32
             in if decoded > u32_max - increment then Inl STATUS_INTEGER_OVERFLOW
                else if unat b AND 0x80 = 0 then Inr (decoded + increment, offset + 1)
                else hpack_decode_groups src (m + 7) (continuationBytes + 1) (decoded + increment) (offset + 1))"

definition HpackDecodeInteger :: "bytes \<Rightarrow> nat \<Rightarrow> (nat \<times> nat) result" where
  "HpackDecodeInteger src prefixBits =
     (if prefixBits = 0 \<or> prefixBits > 8 \<or> src = [] then Inl STATUS_INVALID_PARAMETER
      else let maxPrefix = uchar (push_bit prefixBits 1 - 1); decoded = unat (src ! 0 AND maxPrefix)
        in if decoded < unat maxPrefix then Inr (decoded, 1) else hpack_decode_groups (drop 1 src) 0 0 decoded 1)"

section \<open>Strings\<close>

text \<open>\<open>EncodeHeaderString\<close> appends to what is written.\<close>

definition EncodeHeaderString :: "bytes \<Rightarrow> nat \<Rightarrow> bytes \<Rightarrow> bytes result" where
  "EncodeHeaderString data capacity w =
     (if length w > capacity then Inl STATUS_BUFFER_TOO_SMALL
      else let huffLen = HpackHuffmanEncodedLength data
        in if huffLen < length data \<and> length data > 0
           then rbind (HpackEncodeInteger (huffLen mod 2 ^ 32) 0x80 7 (capacity - length w)) (\<lambda>l.
                rbind (HpackHuffmanEncode data (capacity - length (w @ l))) (\<lambda>h. Inr (w @ l @ h)))
           else rbind (HpackEncodeInteger (length data mod 2 ^ 32) 0x00 7 (capacity - length w)) (\<lambda>l.
                if data = [] then Inr (w @ l)
                else if length (w @ l) > capacity \<or> length data > capacity - length (w @ l)
                then Inl STATUS_BUFFER_TOO_SMALL
                else Inr (w @ l @ data)))"

text \<open>
  The reading of a string in \<open>Decode\<close>, at \<open>offset\<close> of the block, with \<open>used\<close> bytes of the buffer of
  \<open>room\<close> bytes taken: the string, the offset behind it and the bytes used then.
\<close>

definition hpack_decode_string :: "bytes \<Rightarrow> nat \<Rightarrow> nat \<Rightarrow> nat \<Rightarrow> (bytes \<times> nat \<times> nat) result" where
  "hpack_decode_string block offset used room =
     (if offset \<ge> length block then Inl STATUS_INVALID_NETWORK_RESPONSE
      else let huffman = block ! offset AND 0x80 \<noteq> 0
        in rbind (HpackDecodeInteger (drop offset block) 7) (\<lambda>(strLen, consumed).
           let o1 = offset + consumed
           in if o1 > length block \<or> strLen > length block - o1 then Inl STATUS_INVALID_NETWORK_RESPONSE
              else if huffman
              then if used > room \<or> strLen * 2 > room - used then Inl STATUS_BUFFER_TOO_SMALL
                   else rbind (HpackHuffmanDecode (view block o1 strLen) (room - used)) (\<lambda>s.
                        Inr (s, o1 + strLen, used + length s))
              else if used > room \<or> strLen > room - used then Inl STATUS_BUFFER_TOO_SMALL
              else Inr (view block o1 strLen, o1 + strLen, used + strLen)))"

section \<open>Decoder\<close>

text \<open>An index of the static or the dynamic table, from 1.\<close>

definition hpack_indexed :: "nat \<Rightarrow> hpack_table \<Rightarrow> hpack_field option" where
  "hpack_indexed index t =
     (if index \<le> HpackStaticTableSize then Some (HpackStaticTable ! (index - 1))
      else ht_lookup (index - HpackStaticTableSize - 1) t)"

text \<open>
  One representation: a field, each part with whether it already lies in the output buffer, whether it is
  added to the table, the offset behind it and the bytes of the buffer used; or a table size update.
\<close>

datatype hpack_item =
    HpackField "bytes \<times> bool" "bytes \<times> bool" bool nat nat
  | HpackSizeUpdate nat nat

definition hpack_name :: "bytes \<Rightarrow> nat \<Rightarrow> nat \<Rightarrow> nat \<Rightarrow> nat \<Rightarrow> hpack_table \<Rightarrow> ((bytes \<times> bool) \<times> nat \<times> nat) result" where
  "hpack_name block index offset used room t =
     (if index > 0
      then case hpack_indexed index t of
             None \<Rightarrow> Inl STATUS_INVALID_NETWORK_RESPONSE
           | Some (n, v) \<Rightarrow> Inr ((n, False), offset, used)
      else rbind (hpack_decode_string block offset used room) (\<lambda>(s, o1, used1). Inr ((s, True), o1, used1)))"

definition hpack_literal ::
    "bytes \<Rightarrow> nat \<Rightarrow> bool \<Rightarrow> nat \<Rightarrow> nat \<Rightarrow> nat \<Rightarrow> hpack_table \<Rightarrow> hpack_item result" where
  "hpack_literal block prefixBits addToTable offset used room t =
     rbind (HpackDecodeInteger (drop offset block) prefixBits) (\<lambda>(index, consumed).
     rbind (hpack_name block index (offset + consumed) used room t) (\<lambda>(name, o1, used1).
     rbind (hpack_decode_string block o1 used1 room) (\<lambda>(s, o2, used2).
       Inr (HpackField name (s, True) addToTable o2 used2))))"

definition hpack_item_at ::
    "bytes \<Rightarrow> nat \<Rightarrow> nat \<Rightarrow> nat \<Rightarrow> bool \<Rightarrow> nat \<Rightarrow> hpack_table \<Rightarrow> hpack_item result" where
  "hpack_item_at block offset used room allowTableSizeUpdate maxTableSize t =
     (let b = block ! offset
      in if b AND 0x80 \<noteq> 0
         then rbind (HpackDecodeInteger (drop offset block) 7) (\<lambda>(index, consumed).
                if index = 0 then Inl STATUS_INVALID_NETWORK_RESPONSE
                else case hpack_indexed index t of
                       None \<Rightarrow> Inl STATUS_INVALID_NETWORK_RESPONSE
                     | Some (n, v) \<Rightarrow> Inr (HpackField (n, False) (v, False) False (offset + consumed) used))
         else if b AND 0xc0 = 0x40 then hpack_literal block 6 True offset used room t
         else if b AND 0xf0 = 0x00 \<or> b AND 0xf0 = 0x10 then hpack_literal block 4 False offset used room t
         else if b AND 0xe0 = 0x20
         then if \<not> allowTableSizeUpdate then Inl STATUS_INVALID_NETWORK_RESPONSE
              else rbind (HpackDecodeInteger (drop offset block) 5) (\<lambda>(newSize, consumed).
                     if newSize > maxTableSize then Inl STATUS_INVALID_NETWORK_RESPONSE
                     else Inr (HpackSizeUpdate newSize (offset + consumed)))
         else Inl STATUS_INVALID_NETWORK_RESPONSE)"

text \<open>\<open>MaterializeHeaderPart\<close>: the bytes of the buffer used then.\<close>

definition MaterializeHeaderPart :: "bytes \<times> bool \<Rightarrow> nat \<Rightarrow> nat \<Rightarrow> nat result" where
  "MaterializeHeaderPart part room used =
     (if snd part then Inr used
      else if used > room \<or> length (fst part) > room - used then Inl STATUS_BUFFER_TOO_SMALL
      else Inr (used + length (fst part)))"

definition AddHeaderListSize :: "nat \<Rightarrow> nat \<Rightarrow> nat \<Rightarrow> nat \<Rightarrow> nat option" where
  "AddHeaderListSize nameLength valueLength maxHeaderListSize headerListSize =
     (if nameLength > u64_max - valueLength then None
      else if nameLength + valueLength > u64_max - HpackEntryOverhead then None
      else let fieldSize = nameLength + valueLength + HpackEntryOverhead
        in if headerListSize > u64_max - fieldSize then None
           else if maxHeaderListSize \<noteq> u64_max
             \<and> (fieldSize > maxHeaderListSize \<or> headerListSize > maxHeaderListSize - fieldSize) then None
           else Some (headerListSize + fieldSize))"

record hpack_decoder =
  hd_table :: hpack_table
  hd_max :: nat

text \<open>The capacities a caller of \<open>Decode\<close> passes.\<close>

record hpack_limits =
  hl_headers :: nat
  hl_room :: nat
  hl_list :: nat

text \<open>What the loop keeps: the fields so far, the buffer used, the list size and whether an update is allowed.\<close>

record hpack_progress =
  hg_headers :: "hpack_field list"
  hg_used :: nat
  hg_list :: nat
  hg_allow :: bool

definition hpack_emit ::
    "(nat \<Rightarrow> bool) \<Rightarrow> hpack_limits \<Rightarrow> bytes \<times> bool \<Rightarrow> bytes \<times> bool \<Rightarrow> bool \<Rightarrow> nat \<Rightarrow> hpack_progress \<Rightarrow> hpack_table
      \<Rightarrow> hpack_progress result \<times> hpack_table" where
  "hpack_emit ok l name val addToTable used g t =
     (case rbind (MaterializeHeaderPart name (hl_room l) used) (MaterializeHeaderPart val (hl_room l)) of
        Inl e \<Rightarrow> (Inl e, t)
      | Inr used1 \<Rightarrow>
          case AddHeaderListSize (length (fst name)) (length (fst val)) (hl_list l) (hg_list g) of
            None \<Rightarrow> (Inl STATUS_INVALID_NETWORK_RESPONSE, t)
          | Some listSize \<Rightarrow>
              case (if addToTable then ht_insert ok (fst name) (fst val) t else (STATUS_SUCCESS, t)) of
                (st, t1) \<Rightarrow>
                  if st \<noteq> STATUS_SUCCESS then (Inl st, t1)
                  else if length (hg_headers g) \<ge> hl_headers l then (Inl STATUS_BUFFER_TOO_SMALL, t1)
                  else (Inr \<lparr>hg_headers = hg_headers g @ [(fst name, fst val)], hg_used = used1, hg_list = listSize,
                            hg_allow = False\<rparr>, t1))"

text \<open>Every representation takes at least one byte, which is why the loop ends.\<close>

lemma decode_groups_advance:
  "hpack_decode_groups src m k d o' = Inr (v, c) \<Longrightarrow> o' < c \<and> c \<le> o' + length src"
  by (induction src m k d o' rule: hpack_decode_groups.induct) (fastforce simp: Let_def split: if_splits)+

lemma decode_integer_advance: "HpackDecodeInteger src n = Inr (v, c) \<Longrightarrow> 0 < c \<and> c \<le> length src"
  by (cases src) (auto simp: HpackDecodeInteger_def Let_def Suc_le_eq split: if_splits dest!: decode_groups_advance)

lemma decode_string_advance:
  "hpack_decode_string block offset used room = Inr (s, o', u) \<Longrightarrow> offset < o' \<and> o' \<le> length block"
  by (auto simp: hpack_decode_string_def Let_def rbind_eq_Inr_iff split: if_splits dest!: decode_integer_advance)

lemma name_advance: "hpack_name block index offset used room t = Inr (n, o', u) \<Longrightarrow> offset \<le> o'"
  by (auto simp: hpack_name_def rbind_eq_Inr_iff split: if_splits option.splits dest: decode_string_advance)

lemma literal_advance:
  "hpack_literal block n add offset used room t = Inr item \<Longrightarrow> \<exists>name val o' u. item = HpackField name val add o' u \<and> offset < o'"
  by (fastforce simp: hpack_literal_def rbind_eq_Inr_iff dest: name_advance decode_string_advance decode_integer_advance)

lemma item_advance:
  "hpack_item_at block offset used room allow m t = Inr (HpackField name val add o' u) \<Longrightarrow> offset < o'"
  "hpack_item_at block offset used room allow m t = Inr (HpackSizeUpdate k o') \<Longrightarrow> offset < o'"
  by (auto simp: hpack_item_at_def Let_def rbind_eq_Inr_iff split: if_splits option.splits
      dest!: decode_integer_advance literal_advance)

text \<open>The loop of \<open>Decode\<close>; \<open>ok offset\<close> are the outcomes of the allocations of an insertion.\<close>

function hpack_decode_loop ::
    "(nat \<Rightarrow> nat \<Rightarrow> bool) \<Rightarrow> hpack_limits \<Rightarrow> nat \<Rightarrow> bytes \<Rightarrow> nat \<Rightarrow> hpack_progress \<Rightarrow> hpack_table
      \<Rightarrow> (hpack_field list \<times> nat) result \<times> hpack_table" where
  "hpack_decode_loop ok l maxTableSize block offset g t =
     (if offset \<ge> length block then (Inr (hg_headers g, hg_used g), t)
      else case hpack_item_at block offset (hg_used g) (hl_room l) (hg_allow g) maxTableSize t of
             Inl e \<Rightarrow> (Inl e, t)
           | Inr (HpackSizeUpdate newSize o1) \<Rightarrow>
               hpack_decode_loop ok l maxTableSize block o1 g (ht_update_max_size newSize t)
           | Inr (HpackField name val addToTable o1 used) \<Rightarrow>
               case hpack_emit (ok offset) l name val addToTable used g t of
                 (Inl e, t1) \<Rightarrow> (Inl e, t1)
               | (Inr g1, t1) \<Rightarrow> hpack_decode_loop ok l maxTableSize block o1 g1 t1)"
  by pat_completeness auto

termination
  by (relation "measure (\<lambda>(ok, l, m, block, offset, g, t). length block - offset)")
     (auto dest!: item_advance)

declare hpack_decode_loop.simps [simp del]

definition hpack_decode ::
    "(nat \<Rightarrow> nat \<Rightarrow> bool) \<Rightarrow> hpack_limits \<Rightarrow> bytes \<Rightarrow> hpack_decoder \<Rightarrow> (hpack_field list \<times> nat) result \<times> hpack_decoder" where
  "hpack_decode ok l block d =
     (case hpack_decode_loop ok l (hd_max d) block 0
             \<lparr>hg_headers = [], hg_used = 0, hg_list = 0, hg_allow = True\<rparr> (hd_table d) of
        (r, t) \<Rightarrow> (r, d\<lparr>hd_table := t\<rparr>))"

definition hpack_decoder_initialize :: "bool \<Rightarrow> bool \<Rightarrow> nat \<Rightarrow> hpack_decoder \<Rightarrow> ntstatus \<times> hpack_decoder" where
  "hpack_decoder_initialize data_ok entries_ok maxTableSize d =
     (case ht_initialize data_ok entries_ok maxTableSize (hd_table d) of
        (st, t) \<Rightarrow> (st, \<lparr>hd_table = t, hd_max = maxTableSize\<rparr>))"

definition hpack_decoder_reset :: "hpack_decoder \<Rightarrow> hpack_decoder" where
  "hpack_decoder_reset d = d\<lparr>hd_table := ht_reset (hd_table d)\<rparr>"

definition hpack_decoder_update_max_table_size :: "nat \<Rightarrow> hpack_decoder \<Rightarrow> hpack_decoder" where
  "hpack_decoder_update_max_table_size maxTableSize d =
     d\<lparr>hd_max := maxTableSize, hd_table := ht_update_max_size maxTableSize (hd_table d)\<rparr>"

section \<open>Encoder\<close>

record hpack_encoder =
  hn_table :: hpack_table
  hn_max :: nat
  hn_pending :: nat
  hn_update_pending :: bool

definition NameEquals :: "bytes \<Rightarrow> bytes \<Rightarrow> bool" where
  "NameEquals a b \<longleftrightarrow> list_all2 (\<lambda>x y. ascii_lower x = ascii_lower y) a b"

definition ValueEquals :: "bytes \<Rightarrow> bytes \<Rightarrow> bool" where
  "ValueEquals a b \<longleftrightarrow> list_all2 (=) a b"

definition IsSensitiveHeaderName :: "bytes \<Rightarrow> bool" where
  "IsSensitiveHeaderName name \<longleftrightarrow> NameEquals name (ascii ''authorization'') \<or> NameEquals name (ascii ''cookie'')
     \<or> NameEquals name (ascii ''proxy-authorization'')"

text \<open>
  One of the two searches of \<open>FindMatch\<close>, from \<open>i\<close> on with \<open>n\<close> entries left; \<open>base\<close> is the index of the first
  entry. The result is the index of a full match, or \<open>nameMatchIdx\<close>.
\<close>

fun hpack_search ::
    "(nat \<Rightarrow> hpack_field option) \<Rightarrow> nat \<Rightarrow> bytes \<Rightarrow> bytes \<Rightarrow> nat \<Rightarrow> nat \<Rightarrow> nat \<Rightarrow> nat + nat" where
  "hpack_search entry base name val 0 i nameMatchIdx = Inr nameMatchIdx"
| "hpack_search entry base name val (Suc n) i nameMatchIdx =
     (case entry i of
        Some (eName, eValue) \<Rightarrow>
          if NameEquals name eName
          then if ValueEquals val eValue then Inl (base + i)
               else hpack_search entry base name val n (i + 1) (if nameMatchIdx = 0 then base + i else nameMatchIdx)
          else hpack_search entry base name val n (i + 1) nameMatchIdx
      | None \<Rightarrow> hpack_search entry base name val n (i + 1) nameMatchIdx)"

text \<open>The index and \<open>*nameOnly\<close>.\<close>

definition hpack_find_match :: "bytes \<Rightarrow> bytes \<Rightarrow> hpack_table \<Rightarrow> nat \<times> bool" where
  "hpack_find_match name val t =
     (case hpack_search (\<lambda>i. Some (HpackStaticTable ! i)) 1 name val HpackStaticTableSize 0 0 of
        Inl i \<Rightarrow> (i, False)
      | Inr m \<Rightarrow>
          case hpack_search (\<lambda>i. ht_lookup i t) (HpackStaticTableSize + 1) name val (ht_count t) 0 m of
            Inl i \<Rightarrow> (i, False)
          | Inr m \<Rightarrow> if m > 0 then (m, True) else (0, False))"

text \<open>The bytes of one field, behind what is written, and whether it is added to the table.\<close>

definition hpack_encode_field :: "nat \<Rightarrow> bytes \<Rightarrow> bytes \<Rightarrow> hpack_table \<Rightarrow> bytes \<Rightarrow> (bytes \<times> bool) result" where
  "hpack_encode_field capacity name val t w =
     (case hpack_find_match name val t of (matchIdx, nameOnly) \<Rightarrow>
        let neverIndex = IsSensitiveHeaderName name
        in if matchIdx > 0 \<and> \<not> nameOnly \<and> \<not> neverIndex
           then rbind (HpackEncodeInteger (matchIdx mod 2 ^ 32) 0x80 7 (capacity - length w)) (\<lambda>i. Inr (w @ i, False))
           else let literalPrefix = (if neverIndex then 0x10 else 0x40); literalPrefixBits = (if neverIndex then 4 else 6)
             in rbind (if matchIdx > 0
                       then rbind (HpackEncodeInteger (matchIdx mod 2 ^ 32) literalPrefix literalPrefixBits (capacity - length w))
                              (\<lambda>i. Inr (w @ i))
                       else if length w \<ge> capacity then Inl STATUS_BUFFER_TOO_SMALL
                       else EncodeHeaderString name capacity (w @ [literalPrefix])) (\<lambda>w1.
                rbind (EncodeHeaderString val capacity w1) (\<lambda>w2. Inr (w2, \<not> neverIndex))))"

text \<open>The loop over the headers; \<open>ok k\<close> are the outcomes of the allocations for header \<open>k\<close>.\<close>

fun hpack_encode_headers ::
    "(nat \<Rightarrow> nat \<Rightarrow> bool) \<Rightarrow> nat \<Rightarrow> hpack_field list \<Rightarrow> nat \<Rightarrow> bytes \<Rightarrow> hpack_table \<Rightarrow> bytes result \<times> hpack_table" where
  "hpack_encode_headers ok capacity [] k w t = (Inr w, t)"
| "hpack_encode_headers ok capacity ((name, val) # headers) k w t =
     (if name = [] then (Inl STATUS_INVALID_PARAMETER, t)
      else case hpack_encode_field capacity name val t w of
             Inl e \<Rightarrow> (Inl e, t)
           | Inr (w1, False) \<Rightarrow> hpack_encode_headers ok capacity headers (k + 1) w1 t
           | Inr (w1, True) \<Rightarrow>
               case ht_insert (ok k) name val t of (st, t1) \<Rightarrow>
                 if st \<noteq> STATUS_SUCCESS then (Inl st, t1)
                 else hpack_encode_headers ok capacity headers (k + 1) w1 t1)"

definition hpack_encode ::
    "(nat \<Rightarrow> nat \<Rightarrow> bool) \<Rightarrow> nat \<Rightarrow> hpack_field list \<Rightarrow> hpack_encoder \<Rightarrow> bytes result \<times> hpack_encoder" where
  "hpack_encode ok capacity headers e =
     (let update = (if hn_update_pending e then HpackEncodeInteger (hn_pending e mod 2 ^ 32) 0x20 5 capacity else Inr [])
      in case update of
           Inl st \<Rightarrow> (Inl st, e)
         | Inr w \<Rightarrow>
             case hpack_encode_headers ok capacity headers 0 w (hn_table e) of
               (r, t) \<Rightarrow> (r, e\<lparr>hn_update_pending := False, hn_table := t\<rparr>))"

definition hpack_encoder_initialize :: "bool \<Rightarrow> bool \<Rightarrow> nat \<Rightarrow> hpack_encoder \<Rightarrow> ntstatus \<times> hpack_encoder" where
  "hpack_encoder_initialize data_ok entries_ok maxTableSize e =
     (case ht_initialize data_ok entries_ok maxTableSize (hn_table e) of
        (st, t) \<Rightarrow> (st, \<lparr>hn_table = t, hn_max = maxTableSize, hn_pending = maxTableSize, hn_update_pending = False\<rparr>))"

definition hpack_encoder_reset :: "hpack_encoder \<Rightarrow> hpack_encoder" where
  "hpack_encoder_reset e = e\<lparr>hn_table := ht_reset (hn_table e), hn_update_pending := False\<rparr>"

definition hpack_encoder_update_max_table_size :: "nat \<Rightarrow> hpack_encoder \<Rightarrow> hpack_encoder" where
  "hpack_encoder_update_max_table_size maxTableSize e =
     (if hn_max e = maxTableSize then e
      else e\<lparr>hn_max := maxTableSize, hn_pending := maxTableSize, hn_update_pending := True,
             hn_table := ht_update_max_size maxTableSize (hn_table e)\<rparr>)"

end
