(* ===== verification/HpackSession.thy ===== *)
theory HpackSession
  imports Hpack
begin

text \<open>
  The encoder and the decoder of HPACK together: integers, strings and fields that one writes are read back by
  the other, and through any conversation the two dynamic tables stay in step, so that every header list
  arrives as it was sent.
\<close>

section \<open>Integers\<close>

lemma encode_groups_eq: "hpack_encode_groups v capacity w = qpack_encode_tail v capacity w"
proof (induction v capacity w rule: hpack_encode_groups.induct)
  case (1 v capacity w)
  then show ?case
    by (subst hpack_encode_groups.simps, subst qpack_encode_tail.simps) auto
qed

lemma max_prefix: "0 < n \<Longrightarrow> n \<le> 8 \<Longrightarrow> uchar (push_bit n 1 - 1) = qpack_prefix_mask n"
proof -
  assume "0 < n" "n \<le> 8"
  then have "n \<in> {1, 2, 3, 4, 5, 6, 7, 8}" by auto
  then show ?thesis by (elim insertE emptyE) (simp_all add: qpack_prefix_mask_def uchar_def push_bit_eq_mult)
qed

lemmas max_prefix_mask = max_prefix [unfolded push_bit_eq_mult, simplified]

lemma high_masks:
  "NOT (qpack_prefix_mask 7) = 0x80" "NOT (qpack_prefix_mask 6) = 0xc0"
  "NOT (qpack_prefix_mask 5) = 0xe0" "NOT (qpack_prefix_mask 4) = 0xf0"
  by (simp_all add: qpack_prefix_mask_def word_unat_eq_iff)

lemma encode_integer_form:
  assumes "HpackEncodeInteger v p n capacity = Inr bs"
  shows "0 < n \<and> n \<le> 8 \<and> length bs \<le> capacity \<and> bs \<noteq> []
    \<and> (let m = qpack_prefix_mask n; h = p AND NOT m
       in bs = (if v < unat m then [h OR uchar v] else (h OR m) # group_bytes (v - unat m)))"
proof -
  have n: "0 < n" "n \<le> 8" using assms by (auto simp: HpackEncodeInteger_def split: if_splits)
  have low: "uchar v AND qpack_prefix_mask n = uchar v" if "v < unat (qpack_prefix_mask n)"
    using low_bits_value(1) [OF n, of v] that by simp
  show ?thesis
    using assms n low
    by (auto simp: HpackEncodeInteger_def max_prefix_mask encode_groups_eq qpack_encode_tail_eq Let_def split: if_splits)
qed

lemma decode_groups_group:
  assumes "d + v * 2 ^ (7 * k) \<le> u32_max" "k \<le> 4"
  shows "hpack_decode_groups (group_bytes v @ rest) (7 * k) k d o' = Inr (d + v * 2 ^ (7 * k), o' + length (group_bytes v))"
  using assms
proof (induction v arbitrary: k d o' rule: group_bytes.induct)
  case (1 v)
  have vm: "v * 2 ^ (7 * k) \<le> u32_max" using 1(2) by simp
  have cm: "v mod 128 * 2 ^ (7 * k) \<le> v * 2 ^ (7 * k)" by simp
  have inc: "push_bit (7 * k) (v mod 128) mod 2 ^ 32 = v mod 128 * 2 ^ (7 * k)"
    using order_trans [OF cm vm] by (simp add: push_bit_eq_mult u32_max_def)
  have guard: "\<not> (7 * k \<ge> 32 \<or> 7 * k \<ge> 28 \<and> v mod 128 > 15)"
  proof (cases "k = 4")
    case True
    then have "v mod 128 * 2 ^ 28 \<le> u32_max" using cm vm by simp
    then show ?thesis using True by (simp add: u32_max_def)
  qed (use 1(3) in auto)
  have le: "\<not> d > u32_max - v mod 128 * 2 ^ (7 * k)"
    using 1(2) cm by linarith
  show ?case
  proof (cases "v < 128")
    case True
    then have "v mod 128 = v" "v div 128 = 0" by simp_all
    then have "unat (uchar v) AND 127 = v" "unat (uchar v) AND 128 = 0" using True by (simp_all add: and_127_nat and_128_nat)
    then show ?thesis
      using True inc guard le 1(3) \<open>v mod 128 = v\<close> by (simp add: group_bytes.simps [of v] Let_def)
  next
    case False
    have "128 * 2 ^ (7 * k) \<le> v * 2 ^ (7 * k)" using False by simp
    then have "128 * 2 ^ (7 * k) \<le> u32_max" using vm by (rule order_trans)
    then have "(2::nat) ^ (7 * k + 7) < 2 ^ 32" by (simp only: power_add u32_max_def) simp
    then have "7 * k + 7 < 32" by (rule power_less_imp_less_exp [rotated]) simp
    then have k: "Suc k \<le> 4" by simp
    have split: "v * 2 ^ (7 * k) = v mod 128 * 2 ^ (7 * k) + v div 128 * 2 ^ (7 * Suc k)"
    proof -
      have "v * 2 ^ (7 * k) = (v div 128 * 128 + v mod 128) * 2 ^ (7 * k)" by simp
      also have "\<dots> = v mod 128 * 2 ^ (7 * k) + v div 128 * (2 ^ 7 * 2 ^ (7 * k))" by (simp only: distrib_right) simp
      also have "(2::nat) ^ 7 * 2 ^ (7 * k) = 2 ^ (7 * Suc k)" by (simp only: power_add [symmetric]) simp
      finally show ?thesis .
    qed
    have "hpack_decode_groups (group_bytes (v div 128) @ rest) (7 * Suc k) (Suc k) (d + v mod 128 * 2 ^ (7 * k)) (Suc o')
        = Inr (d + v * 2 ^ (7 * k), Suc o' + length (group_bytes (v div 128)))"
      using 1(1) [OF False, of "d + v mod 128 * 2 ^ (7 * k)" "Suc k" "Suc o'"] 1(2) k split by simp
    then show ?thesis
      using False group_byte [of v] inc guard le k 1(3)
      by (simp add: group_bytes.simps [of v] Let_def add.commute)
  qed
qed

text \<open>An encoded integer is read back, whatever follows, and the bits above the prefix are kept.\<close>

lemma integer_read:
  assumes "HpackEncodeInteger v p n capacity = Inr bs" "v < 2 ^ 32"
  shows "HpackDecodeInteger (bs @ rest) n = Inr (v, length bs)"
    "bs ! 0 AND NOT (qpack_prefix_mask n) = p AND NOT (qpack_prefix_mask n)" "bs \<noteq> []" "length bs \<le> capacity"
proof -
  let ?m = "qpack_prefix_mask n" and ?h = "p AND NOT (qpack_prefix_mask n)"
  have n: "0 < n" "n \<le> 8" and ne: "bs \<noteq> []" "length bs \<le> capacity"
    and bs: "bs = (if v < unat ?m then [?h OR uchar v] else (?h OR ?m) # group_bytes (v - unat ?m))"
    using encode_integer_form [OF assms(1)] by (auto simp: Let_def)
  show "bs \<noteq> []" "length bs \<le> capacity" by (rule ne)+
  have high: "(?h OR x) AND NOT ?m = ?h" if "x AND ?m = x" for x
  proof -
    have "x AND NOT ?m = 0" by (subst that [symmetric]) (simp add: and.assoc)
    then show ?thesis by (simp add: bit.conj_disj_distrib2 and.assoc)
  qed
  note m = max_prefix_mask [OF n]
  show "HpackDecodeInteger (bs @ rest) n = Inr (v, length bs)"
  proof (cases "v < unat ?m")
    case True
    then have "uchar v AND ?m = uchar v" "unat (uchar v) = v" using low_bits_value [OF n, of v] by simp_all
    with True n show ?thesis by (simp add: bs HpackDecodeInteger_def m prefix_low_bits Let_def)
  next
    case False
    have "unat ?m + (v - unat ?m) * 2 ^ (7 * 0) \<le> u32_max" using False assms(2) by (simp add: u32_max_def)
    from decode_groups_group [OF this, of rest 1] False n show ?thesis
      by (simp add: bs HpackDecodeInteger_def m prefix_low_bits Let_def)
  qed
  show "bs ! 0 AND NOT ?m = ?h"
    using high low_bits_value [OF n, of v] by (auto simp: bs)
qed

section \<open>Strings\<close>

lemma string_read:
  assumes "EncodeHeaderString data capacity w = Inr w'" "length data < 2 ^ 31"
  shows "\<exists>s. w' = w @ s \<and> (\<forall>pre rest used room. used + 2 * length data \<le> room
    \<longrightarrow> hpack_decode_string (pre @ s @ rest) (length pre) used room
          = Inr (data, length pre + length s, used + length data))"
proof (cases "HpackHuffmanEncodedLength data < length data \<and> length data > 0")
  case True
  let ?n = "HpackHuffmanEncodedLength data"
  have n: "?n < 2 ^ 32" "?n mod 2 ^ 32 = ?n" using True assms(2) by simp_all
  obtain l h where l: "HpackEncodeInteger ?n 0x80 7 (capacity - length w) = Inr l"
      and h: "HpackHuffmanEncode data (capacity - length (w @ l)) = Inr h" and w': "w' = w @ l @ h"
    using assms(1) True n by (auto simp: EncodeHeaderString_def rbind_eq_Inr_iff split: if_splits)
  note i = integer_read [OF l n(1)]
  have lh: "length h = ?n" using encode_bits [of "capacity - length (w @ l)" data] h by simp
  have first: "l ! 0 AND 0x80 \<noteq> 0" using i(2) unfolding high_masks by simp
  have "hpack_decode_string (pre @ (l @ h) @ rest) (length pre) used room
      = Inr (data, length pre + length (l @ h), used + length data)"
    if "used + 2 * length data \<le> room" for pre rest used room
  proof -
    have "(pre @ (l @ h) @ rest) ! length pre = l ! 0" using i(3) by (simp add: nth_append)
    moreover have "drop (length pre) (pre @ (l @ h) @ rest) = l @ (h @ rest)" by simp
    moreover have "view (pre @ (l @ h) @ rest) (length pre + length l) ?n = h" using lh by (simp add: view_def)
    moreover have "HpackHuffmanDecode h (room - used) = Inr data"
      by (rule huffman_decode_encode [OF h]) (use that in linarith)
    moreover have "\<not> (used > room \<or> ?n * 2 > room - used)" using that True by linarith
    ultimately show ?thesis
      using i(1) [of "h @ rest"] i(3) first lh
      by (simp add: hpack_decode_string_def Let_def)
  qed
  then show ?thesis using w' by (intro exI [of _ "l @ h"]) simp
next
  case False
  have n: "length data < 2 ^ 32" "length data mod 2 ^ 32 = length data" using assms(2) by simp_all
  obtain l where l: "HpackEncodeInteger (length data) 0 7 (capacity - length w) = Inr l" and w': "w' = w @ l @ data"
    using assms(1) False n by (auto simp: EncodeHeaderString_def rbind_eq_Inr_iff split: if_splits)
  note i = integer_read [OF l n(1)]
  have first: "l ! 0 AND 0x80 = 0" using i(2) unfolding high_masks by simp
  have "hpack_decode_string (pre @ (l @ data) @ rest) (length pre) used room
      = Inr (data, length pre + length (l @ data), used + length data)"
    if "used + 2 * length data \<le> room" for pre rest used room
  proof -
    have "(pre @ (l @ data) @ rest) ! length pre = l ! 0" using i(3) by (simp add: nth_append)
    moreover have "drop (length pre) (pre @ (l @ data) @ rest) = l @ (data @ rest)" by simp
    moreover have "view (pre @ (l @ data) @ rest) (length pre + length l) (length data) = data" by (simp add: view_def)
    ultimately show ?thesis
      using i(1) [of "data @ rest"] i(3) first that
      by (simp add: hpack_decode_string_def Let_def)
  qed
  then show ?thesis using w' by (intro exI [of _ "l @ data"]) simp
qed

section \<open>Tables in step\<close>

definition field_agrees :: "hpack_field \<Rightarrow> hpack_field \<Rightarrow> bool" where
  "field_agrees f g \<longleftrightarrow> NameEquals (fst f) (fst g) \<and> snd f = snd g"

lemma NameEquals_trans: "NameEquals a b \<Longrightarrow> NameEquals b c \<Longrightarrow> NameEquals a c"
  unfolding NameEquals_def by (rule list_all2_trans [of _ _ "\<lambda>x y. ascii_lower x = ascii_lower y"]) auto

lemma NameEquals_refl [simp]: "NameEquals a a"
  by (simp add: NameEquals_def list_all2_refl)

lemma NameEquals_length: "NameEquals a b \<Longrightarrow> length a = length b"
  by (simp add: NameEquals_def list_all2_lengthD)

lemma field_agrees_size: "field_agrees f g \<Longrightarrow> hpack_field_size f = hpack_field_size g"
  by (auto simp: field_agrees_def hpack_field_size_def dest: NameEquals_length)

text \<open>The decoder holds what the encoder holds, and possibly older fields.\<close>

definition fields_in_step :: "hpack_field list \<Rightarrow> hpack_field list \<Rightarrow> bool" where
  "fields_in_step xs ys \<longleftrightarrow> (\<exists>zs rest. ys = zs @ rest \<and> list_all2 field_agrees xs zs)"

lemma in_step_Nil [simp]: "fields_in_step [] ys"
  by (simp add: fields_in_step_def)

lemma in_step_Cons:
  assumes "field_agrees x y" "fields_in_step xs ys"
  shows "fields_in_step (x # xs) (y # ys)"
proof -
  obtain zs rest where "ys = zs @ rest" "list_all2 field_agrees xs zs" using assms(2) by (auto simp: fields_in_step_def)
  then have "y # ys = (y # zs) @ rest" "list_all2 field_agrees (x # xs) (y # zs)" using assms(1) by simp_all
  then show ?thesis unfolding fields_in_step_def by blast
qed

lemma in_step_ConsE:
  assumes "fields_in_step (x # xs) ys"
  obtains y ys' where "ys = y # ys'" "field_agrees x y" "fields_in_step xs ys'"
proof -
  obtain zs rest where z: "ys = zs @ rest" "list_all2 field_agrees (x # xs) zs" using assms(1) by (auto simp: fields_in_step_def)
  then obtain y zs' where "zs = y # zs'" "field_agrees x y" "list_all2 field_agrees xs zs'" by (auto simp: list_all2_Cons1)
  then show ?thesis using that [of y "zs' @ rest"] z(1) by (auto simp: fields_in_step_def)
qed

lemma in_step_fit: "fields_in_step xs ys \<Longrightarrow> fields_in_step (fit m xs) (fit m ys)"
proof (induction xs arbitrary: ys m)
  case (Cons x xs)
  then obtain y ys' where y: "ys = y # ys'" "field_agrees x y" "fields_in_step xs ys'" by (elim in_step_ConsE)
  then show ?case using Cons.IH [OF y(3), of "m - hpack_field_size x"] field_agrees_size [OF y(2)]
    by (auto intro: in_step_Cons)
qed simp

lemma in_step_prefix: "fields_in_step xs ys \<Longrightarrow> fields_in_step (fit m xs) ys"
proof (induction xs arbitrary: ys m)
  case (Cons x xs)
  then show ?case by (auto elim!: in_step_ConsE intro: in_step_Cons)
qed simp

lemma in_step_nth:
  "fields_in_step xs ys \<Longrightarrow> i < length xs \<Longrightarrow> i < length ys \<and> field_agrees (xs ! i) (ys ! i)"
  by (auto simp: fields_in_step_def list_all2_conv_all_nth nth_append)

text \<open>What \<open>FindMatch\<close> returns.\<close>

lemma search_matches:
  "case hpack_search entry base name val n i m of
     Inl j \<Rightarrow> \<exists>k e. j = base + k \<and> k < i + n \<and> entry k = Some e \<and> NameEquals name (fst e) \<and> val = snd e
   | Inr j \<Rightarrow> j = m \<or> (\<exists>k e. j = base + k \<and> k < i + n \<and> entry k = Some e \<and> NameEquals name (fst e))"
proof (induction entry base name val n i m rule: hpack_search.induct)
  case (2 entry base name val n i m)
  show ?case
  proof (cases "entry i")
    case None
    then show ?thesis using 2(1) [OF None] by (auto split: sum.splits)
  next
    case (Some e)
    obtain en ev where e: "e = (en, ev)" by fastforce
    show ?thesis
    proof (cases "NameEquals name en")
      case True
      show ?thesis
      proof (cases "ValueEquals val ev")
        case False
        then show ?thesis using 2(2) [OF Some e [symmetric] True False] Some e True
          by (auto split: sum.splits if_splits)
      qed (use Some e True in \<open>auto simp: ValueEquals_def list.rel_eq\<close>)
    next
      case False
      then show ?thesis using 2(3) [OF Some e [symmetric] False] Some e by (auto split: sum.splits)
    qed
  qed
qed simp

lemma find_match:
  assumes "hpack_find_match name val t = (i, nameOnly)" "ht_ok t" "0 < i"
  shows "i < 2 ^ 32 \<and> (\<exists>e. hpack_indexed i t = Some e \<and> NameEquals name (fst e) \<and> (\<not> nameOnly \<longrightarrow> val = snd e))"
proof -
  have c: "ht_count t \<le> 2 ^ 27"
    using assms(2) count_bound [of t] by (auto simp: ht_ok_iff ht_ring_ok_def)
  note st = search_matches [where entry = "\<lambda>i. Some (HpackStaticTable ! i)" and base = 1 and name = name and val = val
      and n = HpackStaticTableSize and i = 0 and m = 0]
  note dy = search_matches [where entry = "\<lambda>i. ht_lookup i t" and base = "HpackStaticTableSize + 1" and name = name and val = val
      and n = "ht_count t" and i = 0]
  have dyn: "hpack_indexed (HpackStaticTableSize + 1 + k) t = ht_lookup k t" for k by (simp add: hpack_indexed_def)
  have sta: "k < 61 \<Longrightarrow> hpack_indexed (1 + k) t = Some (HpackStaticTable ! k)" for k by (simp add: hpack_indexed_def)
  show ?thesis
  proof (cases "hpack_search (\<lambda>i. Some (HpackStaticTable ! i)) 1 name val HpackStaticTableSize 0 0")
    case (Inl j)
    then obtain k where k: "j = 1 + k" "k < 61" "NameEquals name (fst (HpackStaticTable ! k))" "val = snd (HpackStaticTable ! k)"
      using st by auto
    moreover have "i = j" "\<not> nameOnly" using assms(1) Inl by (auto simp: hpack_find_match_def)
    ultimately show ?thesis using sta [of k] by (intro conjI exI [of _ "HpackStaticTable ! k"]) auto
  next
    case (Inr m)
    show ?thesis
    proof (cases "hpack_search (\<lambda>i. ht_lookup i t) (HpackStaticTableSize + 1) name val (ht_count t) 0 m")
      case (Inl j)
      then have "i = j" "\<not> nameOnly" using assms(1) Inr by (auto simp: hpack_find_match_def)
      then show ?thesis using dy [of m] Inl dyn c by fastforce
    next
      case r: (Inr j)
      then have ij: "i = j" "nameOnly" using assms(1,3) Inr by (auto simp: hpack_find_match_def split: if_splits)
      show ?thesis
      proof (cases "j = m")
        case True
        then obtain k where k: "j = 1 + k" "k < 61" "NameEquals name (fst (HpackStaticTable ! k))"
          using st Inr ij assms(3) by auto
        then show ?thesis using sta [of k] ij by (intro conjI exI [of _ "HpackStaticTable ! k"]) auto
      next
        case False
        then show ?thesis using dy [of m] r dyn c ij by fastforce
      qed
    qed
  qed
qed

lemma indexed_in_step:
  assumes "hpack_indexed i t = Some e" "fields_in_step (ht_fields t) (ht_fields t')"
  shows "\<exists>e'. hpack_indexed i t' = Some e' \<and> field_agrees e e'"
proof (cases "i \<le> HpackStaticTableSize")
  case True
  then show ?thesis using assms(1) by (simp add: hpack_indexed_def field_agrees_def)
next
  case False
  then show ?thesis
    using assms in_step_nth [OF assms(2), of "i - HpackStaticTableSize - 1"]
    by (cases "ht_fields t' ! (i - HpackStaticTableSize - 1)") (auto simp: hpack_indexed_def ht_lookup_fields split: if_splits)
qed

section \<open>Fields\<close>

text \<open>The two kinds of literal the encoder writes: never indexed, and with incremental indexing.\<close>

definition literal_kind :: "byte \<Rightarrow> nat \<Rightarrow> bool" where
  "literal_kind p n \<longleftrightarrow> p = 0x10 \<and> n = 4 \<or> p = 0x40 \<and> n = 6"

lemma literal_kind_facts:
  assumes "literal_kind p n"
  shows "0 < n" "n \<le> 8" "p AND NOT (qpack_prefix_mask n) = p" "HpackDecodeInteger (p # rest) n = Inr (0, 1)"
proof -
  have "qpack_prefix_mask 4 = 0xf" "qpack_prefix_mask 6 = 0x3f" by (simp_all add: qpack_prefix_mask_def)
  then show "0 < n" "n \<le> 8" "p AND NOT (qpack_prefix_mask n) = p" "HpackDecodeInteger (p # rest) n = Inr (0, 1)"
    using assms high_masks by (auto simp: literal_kind_def HpackDecodeInteger_def max_prefix_mask Let_def)
qed

lemma name_read:
  assumes enc: "(if i > 0 then rbind (HpackEncodeInteger (i mod 2 ^ 32) p n (capacity - length w)) (\<lambda>i. Inr (w @ i))
      else if length w \<ge> capacity then Inl STATUS_BUFFER_TOO_SMALL
      else EncodeHeaderString name capacity (w @ [p])) = Inr w1"
    and kind: "literal_kind p n" and len: "length name < 2 ^ 31"
    and found: "0 < i \<Longrightarrow> i < 2 ^ 32 \<and> (\<exists>e. hpack_indexed i t = Some e \<and> NameEquals name (fst e))"
  shows "\<exists>s n' b. w1 = w @ s \<and> s \<noteq> [] \<and> s ! 0 AND NOT (qpack_prefix_mask n) = p \<and> NameEquals name n'
    \<and> (\<forall>pre rest used room. used + 2 * length name \<le> room \<longrightarrow> (\<exists>index consumed.
          HpackDecodeInteger (s @ rest) n = Inr (index, consumed)
          \<and> hpack_name (pre @ s @ rest) index (length pre + consumed) used room t
              = Inr ((n', b), length pre + length s, used + (if b then length name else 0))))"
proof (cases "i > 0")
  case True
  then have i: "i < 2 ^ 32" "i mod 2 ^ 32 = i" using found by auto
  obtain e where e: "hpack_indexed i t = Some e" "NameEquals name (fst e)" using found True by blast
  obtain s where s: "HpackEncodeInteger i p n (capacity - length w) = Inr s" "w1 = w @ s"
    using enc True i(2) by (auto simp: rbind_eq_Inr_iff)
  note r = integer_read [OF s(1) i(1)]
  have "hpack_name (pre @ s @ rest) i (length pre + length s) used room t
      = Inr ((fst e, False), length pre + length s, used + (if False then length name else 0))" for pre rest used room
    using True e(1) by (cases e) (simp add: hpack_name_def)
  then show ?thesis
    using r literal_kind_facts(3) [OF kind] s(2) e(2)
    by (intro exI [of _ s] exI [of _ "fst e"] exI [of _ False] conjI allI impI exI [of _ i] exI [of _ "length s"]) simp_all
next
  case False
  then have "EncodeHeaderString name capacity (w @ [p]) = Inr w1" using enc by (auto split: if_splits)
  from string_read [OF this len] obtain s where w1: "w1 = (w @ [p]) @ s"
    and s: "\<And>pre rest used room. used + 2 * length name \<le> room
      \<Longrightarrow> hpack_decode_string (pre @ s @ rest) (length pre) used room = Inr (name, length pre + length s, used + length name)"
    by blast
  have "hpack_name (pre @ (p # s) @ rest) 0 (length pre + 1) used room t
      = Inr ((name, True), length pre + length (p # s), used + (if True then length name else 0))"
    if "used + 2 * length name \<le> room" for pre rest used room
    using s [OF that, of "pre @ [p]" rest] by (simp add: hpack_name_def)
  moreover have "HpackDecodeInteger ((p # s) @ rest) n = Inr (0, 1)" for rest
    using literal_kind_facts(4) [OF kind] by simp
  ultimately have "used + 2 * length name \<le> room \<Longrightarrow> \<exists>index consumed.
          HpackDecodeInteger ((p # s) @ rest) n = Inr (index, consumed)
          \<and> hpack_name (pre @ (p # s) @ rest) index (length pre + consumed) used room t
              = Inr ((name, True), length pre + length (p # s), used + (if True then length name else 0))" for pre rest used room
    by blast
  moreover have "w1 = w @ (p # s)" "p # s \<noteq> []" "(p # s) ! 0 AND NOT (qpack_prefix_mask n) = p"
    using w1 literal_kind_facts(3) [OF kind] by simp_all
  ultimately show ?thesis using NameEquals_refl by blast
qed

text \<open>The first byte decides which representation is read.\<close>

lemma literal_item:
  assumes "literal_kind p n" "block ! offset AND NOT (qpack_prefix_mask n) = p"
  shows "hpack_item_at block offset used room allow m t = hpack_literal block n (p = 0x40) offset used room t"
proof -
  let ?b = "block ! offset"
  have "?b AND 0x80 = 0 \<and> (?b AND 0xc0 = 0x40 \<longleftrightarrow> p = 0x40) \<and> (p = 0x10 \<longrightarrow> ?b AND 0xf0 = 0x10)"
  proof (cases "p = 0x40")
    case True
    then have b: "?b AND 0xc0 = 0x40" using assms high_masks by (auto simp: literal_kind_def)
    have "?b AND 0x80 = (?b AND 0xc0) AND 0x80" by (simp add: and.assoc)
    then show ?thesis using b True by simp
  next
    case False
    then have p: "p = 0x10" "n = 4" using assms(1) by (auto simp: literal_kind_def)
    then have b: "?b AND 0xf0 = 0x10" using assms(2) high_masks by auto
    have "?b AND 0x80 = (?b AND 0xf0) AND 0x80" "?b AND 0xc0 = (?b AND 0xf0) AND 0xc0" by (simp_all add: and.assoc)
    then show ?thesis using b p by simp
  qed
  then show ?thesis using assms(1) by (auto simp: hpack_item_at_def literal_kind_def Let_def)
qed

lemma field_read:
  assumes enc: "hpack_encode_field capacity name val te w = Inr (w', add)"
    and te: "ht_ok te" and step: "fields_in_step (ht_fields te) (ht_fields td)"
    and len: "length name < 2 ^ 31" "length val < 2 ^ 31"
  shows "\<exists>s n' bn bv. w' = w @ s \<and> s \<noteq> [] \<and> NameEquals name n'
    \<and> (\<forall>pre rest used room allow m. used + 2 * (length name + length val) \<le> room \<longrightarrow>
      hpack_item_at (pre @ s @ rest) (length pre) used room allow m td
        = Inr (HpackField (n', bn) (val, bv) add (length pre + length s)
            (used + (if bn then length name else 0) + (if bv then length val else 0))))"
proof -
  obtain i only where f: "hpack_find_match name val te = (i, only)" by fastforce
  have found: "i < 2 ^ 32 \<and> (\<exists>e. hpack_indexed i td = Some e \<and> NameEquals name (fst e) \<and> (\<not> only \<longrightarrow> val = snd e))" if pos: "0 < i"
  proof -
    obtain e where e: "i < 2 ^ 32" "hpack_indexed i te = Some e" "NameEquals name (fst e)" "\<not> only \<longrightarrow> val = snd e"
      using find_match [OF f te pos] by blast
    obtain e' where "hpack_indexed i td = Some e'" "field_agrees e e'" using indexed_in_step [OF e(2) step] by blast
    then show ?thesis using e NameEquals_trans by (auto simp: field_agrees_def)
  qed
  let ?never = "IsSensitiveHeaderName name"
  show ?thesis
  proof (cases "i > 0 \<and> \<not> only \<and> \<not> ?never")
    case True
    then obtain e where e: "i < 2 ^ 32" "hpack_indexed i td = Some e" "NameEquals name (fst e)" "val = snd e" using found by blast
    obtain s where s: "HpackEncodeInteger i 0x80 7 (capacity - length w) = Inr s" "w' = w @ s" "\<not> add"
      using enc True e(1) by (auto simp: hpack_encode_field_def f rbind_eq_Inr_iff)
    note r = integer_read [OF s(1) e(1)]
    have "s ! 0 AND 0x80 \<noteq> 0" using r(2) unfolding high_masks by simp
    then have "hpack_item_at (pre @ s @ rest) (length pre) used room allow m td
        = Inr (HpackField (fst e, False) (val, False) add (length pre + length s) used)" for pre rest used room allow m
      using r(1) [of rest] r(3) e s(3) True by (cases e) (simp add: hpack_item_at_def nth_append)
    then show ?thesis using s(2) r(3) e(3)
      by (intro exI [of _ s] exI [of _ "fst e"] exI [of _ False] conjI allI impI) simp_all
  next
    case False
    define p n where "p = (if ?never then 0x10 else 0x40 :: byte)" and "n = (if ?never then 4 else 6 :: nat)"
    have kind: "literal_kind p n" by (simp add: literal_kind_def p_def n_def)
    have n: "0 < n" "n \<le> 8" by (simp_all add: n_def)
    let ?name = "if i > 0 then rbind (HpackEncodeInteger (i mod 2 ^ 32) p n (capacity - length w)) (\<lambda>i. Inr (w @ i))
        else if length w \<ge> capacity then Inl STATUS_BUFFER_TOO_SMALL else EncodeHeaderString name capacity (w @ [p])"
    have "rbind ?name (\<lambda>w1. rbind (EncodeHeaderString val capacity w1) (\<lambda>w2. Inr (w2, \<not> ?never))) = Inr (w', add)"
      using enc unfolding hpack_encode_field_def f prod.case Let_def if_not_P [OF False] p_def n_def .
    then obtain w1 where w1: "?name = Inr w1" and v: "EncodeHeaderString val capacity w1 = Inr w'" and "add = (\<not> ?never)"
      unfolding rbind_eq_Inr_iff by blast
    then have add: "add = (p = 0x40)" by (simp add: p_def)
    from name_read [OF w1 kind len(1), of td] found obtain s1 n' b where s1: "w1 = w @ s1" "s1 \<noteq> []"
        "s1 ! 0 AND NOT (qpack_prefix_mask n) = p" and eq: "NameEquals name n'"
      and name: "\<And>pre rest used room. used + 2 * length name \<le> room \<Longrightarrow> \<exists>index consumed.
          HpackDecodeInteger (s1 @ rest) n = Inr (index, consumed)
          \<and> hpack_name (pre @ s1 @ rest) index (length pre + consumed) used room td
              = Inr ((n', b), length pre + length s1, used + (if b then length name else 0))"
      by blast
    from string_read [OF v len(2)] obtain s2 where s2: "w' = w1 @ s2"
      and val: "\<And>pre rest used room. used + 2 * length val \<le> room
        \<Longrightarrow> hpack_decode_string (pre @ s2 @ rest) (length pre) used room = Inr (val, length pre + length s2, used + length val)"
      by blast
    have "hpack_item_at (pre @ (s1 @ s2) @ rest) (length pre) used room allow m td
        = Inr (HpackField (n', b) (val, True) add (length pre + length (s1 @ s2))
            (used + (if b then length name else 0) + (if True then length val else 0)))"
      if room: "used + 2 * (length name + length val) \<le> room" for pre rest used room allow m
    proof -
      let ?block = "pre @ (s1 @ s2) @ rest"
      have "used + 2 * length name \<le> room" using room by simp
      from name [OF this, of "s2 @ rest" pre] obtain index consumed where
        r: "HpackDecodeInteger (s1 @ s2 @ rest) n = Inr (index, consumed)"
        and nm: "hpack_name ?block index (length pre + consumed) used room td
              = Inr ((n', b), length pre + length s1, used + (if b then length name else 0))"
        by auto
      have "used + (if b then length name else 0) + 2 * length val \<le> room" using room by auto
      from val [OF this, of "pre @ s1" rest] have vl: "hpack_decode_string ?block (length pre + length s1)
          (used + (if b then length name else 0)) room
          = Inr (val, length pre + length (s1 @ s2), used + (if b then length name else 0) + length val)" by simp
      have "?block ! length pre AND NOT (qpack_prefix_mask n) = p" using s1(2,3) by (simp add: nth_append)
      from literal_item [OF kind this] have "hpack_item_at ?block (length pre) used room allow m td
          = Inr (HpackField (n', b) (val, True) add (length pre + length (s1 @ s2))
              (used + (if b then length name else 0) + length val))"
        using r nm vl add by (simp add: hpack_literal_def)
      then show ?thesis by simp
    qed
    then show ?thesis using s1(1,2) s2 eq
      by (intro exI [of _ "s1 @ s2"] exI [of _ n'] exI [of _ b] exI [of _ True] conjI allI impI) auto
  qed
qed

section \<open>Blocks\<close>

text \<open>What a list of headers takes: the bytes of its names and values, and its size as a header list.\<close>

definition text_size :: "hpack_field list \<Rightarrow> nat" where
  "text_size hs = sum_list (map (\<lambda>h. length (fst h) + length (snd h)) hs)"

definition list_size :: "hpack_field list \<Rightarrow> nat" where
  "list_size hs = sum_list (map hpack_field_size hs)"

lemma emit_ok:
  assumes td: "ht_ok td" "0 < ht_entry_capacity td"
    and used: "used = hg_used g + (if bn then length n else 0) + (if bv then length v else 0)"
    and room: "hg_used g + length n + length v \<le> hl_room l" "length (hg_headers g) < hl_headers l"
      "hg_list g + hpack_field_size (n, v) \<le> hl_list l" "hl_list l \<le> u64_max"
    and len: "length n + length v < 2 ^ 63"
  shows "\<exists>td'. hpack_emit (\<lambda>k. True) l (n, bn) (v, bv) add used g td
      = (Inr \<lparr>hg_headers = hg_headers g @ [(n, v)], hg_used = hg_used g + length n + length v,
              hg_list = hg_list g + hpack_field_size (n, v), hg_allow = False\<rparr>, td')
    \<and> ht_ok td' \<and> 0 < ht_entry_capacity td' \<and> ht_max td' = ht_max td
    \<and> ht_fields td' = (if add then fit (ht_max td) ((n, v) # ht_fields td) else ht_fields td)"
proof -
  have m: "rbind (MaterializeHeaderPart (n, bn) (hl_room l) used) (MaterializeHeaderPart (v, bv) (hl_room l))
      = Inr (hg_used g + length n + length v)"
    using room(1) by (auto simp: used MaterializeHeaderPart_def)
  have a: "AddHeaderListSize (length n) (length v) (hl_list l) (hg_list g) = Some (hg_list g + hpack_field_size (n, v))"
    using room(3,4) by (auto simp: AddHeaderListSize_def hpack_field_size_def Let_def)
  show ?thesis
  proof (cases add)
    case True
    obtain st td' where i: "ht_insert (\<lambda>k. True) n v td = (st, td')" by fastforce
    from insert_fields [OF td i len] have "st = STATUS_SUCCESS" "ht_ok td' \<and> 0 < ht_entry_capacity td' \<and> ht_max td' = ht_max td
        \<and> ht_fields td' = fit (ht_max td) ((n, v) # ht_fields td)" by auto
    then show ?thesis using i m a room(2) True by (simp add: hpack_emit_def)
  qed (use m a room(2) td in \<open>simp add: hpack_emit_def\<close>)
qed

lemma headers_read:
  assumes "hpack_encode_headers ok capacity hs k w te = (Inr block, te')"
    and "ht_ok te" "0 < ht_entry_capacity te" "ht_ok td" "0 < ht_entry_capacity td" "ht_max td = ht_max te"
    and "fields_in_step (ht_fields te) (ht_fields td)"
    and "hg_used g + 2 * text_size hs \<le> hl_room l" "length (hg_headers g) + length hs \<le> hl_headers l"
      "hg_list g + list_size hs \<le> hl_list l" "hl_list l \<le> u64_max" "text_size hs < 2 ^ 31"
  shows "ht_ok te' \<and> 0 < ht_entry_capacity te' \<and> ht_max te' = ht_max te \<and> (\<exists>s hs' used td'. block = w @ s
    \<and> hpack_decode_loop (\<lambda>i k. True) l m (pre @ s) (length pre) g td = (Inr (hg_headers g @ hs', used), td')
    \<and> list_all2 field_agrees hs hs' \<and> ht_ok td' \<and> 0 < ht_entry_capacity td' \<and> ht_max td' = ht_max te
    \<and> fields_in_step (ht_fields te') (ht_fields td'))"
  using assms
proof (induction hs arbitrary: k w te g td pre)
  case Nil
  have "hpack_decode_loop (\<lambda>i k. True) l m pre (length pre) g td = (Inr (hg_headers g, hg_used g), td)"
    by (subst hpack_decode_loop.simps) simp
  then show ?case using Nil.prems by auto
next
  case (Cons h hs)
  obtain name val where h: "h = (name, val)" by fastforce
  note te = Cons.prems(2,3) and td = Cons.prems(4,5) and eqm = Cons.prems(6) and step = Cons.prems(7)
  have len: "text_size (h # hs) = length name + length val + text_size hs" by (simp add: text_size_def h)
  have sz: "list_size (h # hs) = hpack_field_size (name, val) + list_size hs" by (simp add: list_size_def h)
  have lens: "length name < 2 ^ 31" "length val < 2 ^ 31" "length name + length val < 2 ^ 63" "text_size hs < 2 ^ 31"
    using Cons.prems(12) len by simp_all
  obtain w1 add where f: "hpack_encode_field capacity name val te w = Inr (w1, add)"
    using Cons.prems(1) by (auto simp: h split: if_splits sum.splits)
  define te1 where "te1 = (if add then snd (ht_insert (ok k) name val te) else te)"
  have rest: "hpack_encode_headers ok capacity hs (k + 1) w1 te1 = (Inr block, te')"
    and ins: "add \<Longrightarrow> ht_insert (ok k) name val te = (STATUS_SUCCESS, te1)"
    using Cons.prems(1) f by (auto simp: te1_def h split: prod.splits if_splits bool.splits)
  have te1: "ht_ok te1 \<and> 0 < ht_entry_capacity te1 \<and> ht_max te1 = ht_max te
      \<and> ht_fields te1 = (if add then fit (ht_max te) ((name, val) # ht_fields te) else ht_fields te)"
    using insert_fields [OF te ins lens(3)] te by (cases add) (auto simp: te1_def)
  from field_read [OF f te(1) step lens(1,2)] obtain s1 n' bn bv where s1: "w1 = w @ s1" "s1 \<noteq> []" and n': "NameEquals name n'"
    and item: "\<And>pre rest used room allow m. used + 2 * (length name + length val) \<le> room \<Longrightarrow>
      hpack_item_at (pre @ s1 @ rest) (length pre) used room allow m td
        = Inr (HpackField (n', bn) (val, bv) add (length pre + length s1)
            (used + (if bn then length name else 0) + (if bv then length val else 0)))"
    by blast
  have ln: "length n' = length name" using NameEquals_length [OF n'] by simp
  let ?g1 = "\<lparr>hg_headers = hg_headers g @ [(n', val)], hg_used = hg_used g + length n' + length val,
              hg_list = hg_list g + hpack_field_size (n', val), hg_allow = False\<rparr>"
  have room: "hg_used g + length n' + length val \<le> hl_room l" "length (hg_headers g) < hl_headers l"
      "hg_list g + hpack_field_size (n', val) \<le> hl_list l" "length n' + length val < 2 ^ 63"
    using Cons.prems(8-10) len sz lens ln by (simp_all add: hpack_field_size_def)
  obtain td1 where emit: "hpack_emit (\<lambda>k. True) l (n', bn) (val, bv) add
        (hg_used g + (if bn then length name else 0) + (if bv then length val else 0)) g td = (Inr ?g1, td1)"
    and td1: "ht_ok td1" "0 < ht_entry_capacity td1" "ht_max td1 = ht_max td"
      "ht_fields td1 = (if add then fit (ht_max td) ((n', val) # ht_fields td) else ht_fields td)"
    using emit_ok [OF td refl room(1-3) Cons.prems(11) room(4), of bn bv add] unfolding ln by blast
  have agree: "field_agrees (name, val) (n', val)" using n' by (simp add: field_agrees_def)
  then have step1: "fields_in_step (ht_fields te1) (ht_fields td1)"
    using te1 td1(4) step in_step_fit [OF in_step_Cons [OF _ step]] by (cases add) (auto simp: eqm)
  have "ht_ok te' \<and> 0 < ht_entry_capacity te' \<and> ht_max te' = ht_max te1 \<and> (\<exists>s hs' used td'. block = w1 @ s
    \<and> hpack_decode_loop (\<lambda>i k. True) l m ((pre @ s1) @ s) (length (pre @ s1)) ?g1 td1 = (Inr (hg_headers ?g1 @ hs', used), td')
    \<and> list_all2 field_agrees hs hs' \<and> ht_ok td' \<and> 0 < ht_entry_capacity td' \<and> ht_max td' = ht_max te1
    \<and> fields_in_step (ht_fields te') (ht_fields td'))"
    using te1 td1 eqm Cons.prems(8-12) len sz lens ln
    by (intro Cons.IH [OF rest _ _ td1(1,2) _ step1]) (auto simp: hpack_field_size_def)
  then obtain s hs' used td' where te': "ht_ok te'" "0 < ht_entry_capacity te'" "ht_max te' = ht_max te1"
    and s: "block = w1 @ s"
    and run: "hpack_decode_loop (\<lambda>i k. True) l m (pre @ s1 @ s) (length pre + length s1) ?g1 td1
      = (Inr (hg_headers g @ (n', val) # hs', used), td')"
    and td': "list_all2 field_agrees hs hs'" "ht_ok td'" "0 < ht_entry_capacity td'" "ht_max td' = ht_max te1"
      "fields_in_step (ht_fields te') (ht_fields td')"
    by auto
  have "hg_used g + 2 * (length name + length val) \<le> hl_room l" using Cons.prems(8) len by simp
  from item [OF this, of pre s "hg_allow g" m]
  have "hpack_decode_loop (\<lambda>i k. True) l m (pre @ s1 @ s) (length pre) g td
      = (Inr (hg_headers g @ (n', val) # hs', used), td')"
    using s1(2) emit run by (subst hpack_decode_loop.simps) simp
  then show ?case
    using te' te1 s s1(1) td' agree by (auto simp: h intro!: exI [of _ "s1 @ s"] exI [of _ "(n', val) # hs'"])
qed

section \<open>Room\<close>

text \<open>The encoder needs at most 13 bytes more for a field than its name and value, and 6 for a size update.\<close>

lemma integer_writes:
  assumes "0 < n" "n \<le> 8" "v < 2 ^ 32" "6 \<le> capacity"
  shows "\<exists>bs. HpackEncodeInteger v p n capacity = Inr bs \<and> length bs \<le> 6"
proof -
  let ?v = "v - unat (qpack_prefix_mask n)"
  have "?v < 2 ^ (7 * 5)" using assms(3) by simp
  then have "length (group_bytes ?v) \<le> 5" by (rule length_group_bytes) simp
  then show ?thesis
    using assms by (auto simp: HpackEncodeInteger_def max_prefix_mask encode_groups_eq qpack_encode_tail_eq Let_def)
qed

lemma string_writes:
  assumes "length data < 2 ^ 31" "length w + 6 + length data \<le> capacity"
  shows "\<exists>w'. EncodeHeaderString data capacity w = Inr w' \<and> length w' \<le> length w + 6 + length data"
proof (cases "HpackHuffmanEncodedLength data < length data \<and> length data > 0")
  case True
  let ?n = "HpackHuffmanEncodedLength data"
  have n: "?n mod 2 ^ 32 = ?n" "?n < 2 ^ 32" using True assms(1) by simp_all
  have room: "6 \<le> capacity - length w" using assms(2) by simp
  obtain l where l: "HpackEncodeInteger ?n 0x80 7 (capacity - length w) = Inr l" "length l \<le> 6"
    using integer_writes [where n = 7 and v = ?n and capacity = "capacity - length w" and p = "0x80"] n(2) room by auto
  obtain h where h: "HpackHuffmanEncode data (capacity - length (w @ l)) = Inr h" "length h = ?n"
    using huffman_encode_room [of data "capacity - length (w @ l)"] l(2) True assms(2) by auto
  show ?thesis using True n l h assms by (simp add: EncodeHeaderString_def)
next
  case False
  have n: "length data mod 2 ^ 32 = length data" "length data < 2 ^ 32" using assms(1) by simp_all
  have room: "6 \<le> capacity - length w" using assms(2) by simp
  obtain l where l: "HpackEncodeInteger (length data) 0 7 (capacity - length w) = Inr l" "length l \<le> 6"
    using integer_writes [where n = 7 and v = "length data" and capacity = "capacity - length w" and p = 0] n(2) room by auto
  show ?thesis using False n l assms by (auto simp: EncodeHeaderString_def)
qed

lemma field_writes:
  assumes "ht_ok t" "length name < 2 ^ 31" "length val < 2 ^ 31" "length w + 13 + length name + length val \<le> capacity"
  shows "\<exists>w' add. hpack_encode_field capacity name val t w = Inr (w', add) \<and> length w' \<le> length w + 13 + length name + length val"
proof -
  obtain i only where f: "hpack_find_match name val t = (i, only)" by fastforce
  have i: "0 < i \<Longrightarrow> i mod 2 ^ 32 = i \<and> i < 2 ^ 32" using find_match [OF f assms(1)] by simp
  let ?never = "IsSensitiveHeaderName name"
  show ?thesis
  proof (cases "i > 0 \<and> \<not> only \<and> \<not> ?never")
    case True
    have room: "6 \<le> capacity - length w" using assms(4) by simp
    obtain s where s: "HpackEncodeInteger i 0x80 7 (capacity - length w) = Inr s" "length s \<le> 6"
      using True integer_writes [where n = 7 and v = i and capacity = "capacity - length w" and p = "0x80"] i room by auto
    show ?thesis using True i s assms(4) by (auto simp: hpack_encode_field_def f)
  next
    case False
    define p n where "p = (if ?never then 0x10 else 0x40 :: byte)" and "n = (if ?never then 4 else 6 :: nat)"
    have n: "0 < n" "n \<le> 8" by (simp_all add: n_def)
    let ?name = "if i > 0 then rbind (HpackEncodeInteger (i mod 2 ^ 32) p n (capacity - length w)) (\<lambda>i. Inr (w @ i))
        else if length w \<ge> capacity then Inl STATUS_BUFFER_TOO_SMALL else EncodeHeaderString name capacity (w @ [p])"
    have "\<exists>w1. ?name = Inr w1 \<and> length w1 \<le> length w + 7 + length name"
    proof (cases "i > 0")
      case True
      have room: "6 \<le> capacity - length w" using assms(4) by simp
      obtain s where s: "HpackEncodeInteger i p n (capacity - length w) = Inr s" "length s \<le> 6"
        using True integer_writes [where n = n and v = i and capacity = "capacity - length w" and p = p] i room n by auto
      show ?thesis using True i s by auto
    next
      case False
      then show ?thesis using string_writes [OF assms(2), of "w @ [p]" capacity] assms(4) by auto
    qed
    then obtain w1 where w1: "?name = Inr w1" "length w1 \<le> length w + 7 + length name" by blast
    obtain w2 where w2: "EncodeHeaderString val capacity w1 = Inr w2" "length w2 \<le> length w1 + 6 + length val"
      using string_writes [OF assms(3), of w1 capacity] w1(2) assms(4) by auto
    have "hpack_encode_field capacity name val t w
        = rbind ?name (\<lambda>w1. rbind (EncodeHeaderString val capacity w1) (\<lambda>w2. Inr (w2, \<not> ?never)))"
      unfolding hpack_encode_field_def f prod.case Let_def if_not_P [OF False] p_def n_def ..
    also have "\<dots> = Inr (w2, \<not> ?never)" unfolding w1(1) rbind_Inr w2(1) ..
    finally show ?thesis using w1(2) w2(2) by auto
  qed
qed

lemma headers_write:
  assumes "ht_ok t" "0 < ht_entry_capacity t" "\<forall>h \<in> set hs. fst h \<noteq> []" "text_size hs < 2 ^ 31"
    "length w + 13 * length hs + text_size hs \<le> capacity"
  shows "\<exists>block t'. hpack_encode_headers (\<lambda>i k. True) capacity hs k w t = (Inr block, t')"
  using assms
proof (induction hs arbitrary: k w t)
  case (Cons h hs)
  obtain name val where h: "h = (name, val)" by fastforce
  have len: "text_size (h # hs) = length name + length val + text_size hs" by (simp add: text_size_def h)
  have lens: "length name < 2 ^ 31" "length val < 2 ^ 31" "length name + length val < 2 ^ 63" "text_size hs < 2 ^ 31"
    using Cons.prems(4) len by simp_all
  obtain w1 add where f: "hpack_encode_field capacity name val t w = Inr (w1, add)"
      "length w1 \<le> length w + 13 + length name + length val"
    using field_writes [OF Cons.prems(1) lens(1,2), of w capacity] Cons.prems(5) len by auto
  have room: "length w1 + 13 * length hs + text_size hs \<le> capacity" using Cons.prems(5) f(2) len by simp
  show ?case
  proof (cases add)
    case True
    obtain st t1 where i: "ht_insert (\<lambda>k. True) name val t = (st, t1)" by fastforce
    from insert_fields [OF Cons.prems(1,2) i lens(3)] have t1: "st = STATUS_SUCCESS" "ht_ok t1" "0 < ht_entry_capacity t1" by auto
    show ?thesis using Cons.IH [OF t1(2,3) _ lens(4) room] Cons.prems(3) f True i t1(1) by (simp add: h)
  next
    case False
    show ?thesis using Cons.IH [OF Cons.prems(1,2) _ lens(4) room] Cons.prems(3) f False by (simp add: h)
  qed
qed simp

section \<open>Conversations\<close>

text \<open>An encoder and the decoder that reads its blocks, between two blocks.\<close>

definition hpack_in_step :: "hpack_encoder \<Rightarrow> hpack_decoder \<Rightarrow> bool" where
  "hpack_in_step e d \<longleftrightarrow> ht_ok (hn_table e) \<and> 0 < ht_entry_capacity (hn_table e) \<and> ht_ok (hd_table d)
     \<and> 0 < ht_entry_capacity (hd_table d) \<and> fields_in_step (ht_fields (hn_table e)) (ht_fields (hd_table d))
     \<and> hn_max e = ht_max (hn_table e) \<and> hn_max e \<le> hd_max d
     \<and> (if hn_update_pending e then hn_pending e = hn_max e else ht_max (hd_table d) = hn_max e)"

text \<open>The caller's buffers are large enough for a list of headers.\<close>

definition hpack_room :: "hpack_limits \<Rightarrow> hpack_field list \<Rightarrow> bool" where
  "hpack_room l hs \<longleftrightarrow> 2 * text_size hs \<le> hl_room l \<and> length hs \<le> hl_headers l \<and> list_size hs \<le> hl_list l
     \<and> hl_list l \<le> u64_max \<and> text_size hs < 2 ^ 31"

lemma ht_max_bound: "ht_ok t \<Longrightarrow> ht_max t < 2 ^ 32"
  by (simp add: ht_ok_def)

lemma block_read:
  assumes enc: "hpack_encode ok capacity hs e = (Inr block, e')" and e: "hpack_in_step e d" and room: "hpack_room l hs"
  shows "\<exists>hs' used d'. hpack_decode (\<lambda>i k. True) l block d = (Inr (hs', used), d') \<and> list_all2 field_agrees hs hs'
    \<and> hpack_in_step e' d'"
proof -
  let ?g = "\<lparr>hg_headers = [], hg_used = 0, hg_list = 0, hg_allow = True\<rparr>"
  note in_step = e [unfolded hpack_in_step_def]
  have te: "ht_ok (hn_table e)" "0 < ht_entry_capacity (hn_table e)" and td: "ht_ok (hd_table d)" "0 < ht_entry_capacity (hd_table d)"
    and fs: "fields_in_step (ht_fields (hn_table e)) (ht_fields (hd_table d))"
    and max: "hn_max e = ht_max (hn_table e)" "hn_max e \<le> hd_max d"
    using in_step by auto
  have lim: "hg_used ?g + 2 * text_size hs \<le> hl_room l" "length (hg_headers ?g) + length hs \<le> hl_headers l"
      "hg_list ?g + list_size hs \<le> hl_list l" "hl_list l \<le> u64_max" "text_size hs < 2 ^ 31"
    using room by (simp_all add: hpack_room_def)
  have finish: "\<exists>hs' used d'. hpack_decode (\<lambda>i k. True) l block d = (Inr (hs', used), d') \<and> list_all2 field_agrees hs hs'
      \<and> hpack_in_step e' d'"
    if heads: "hpack_encode_headers ok capacity hs 0 w (hn_table e) = (Inr block, te')"
      and e': "e' = e\<lparr>hn_update_pending := False, hn_table := te'\<rparr>"
      and td1: "ht_ok td1" "0 < ht_entry_capacity td1" "ht_max td1 = ht_max (hn_table e)"
        "fields_in_step (ht_fields (hn_table e)) (ht_fields td1)"
      and start: "\<And>s. hpack_decode_loop (\<lambda>i k. True) l (hd_max d) (w @ s) 0 ?g (hd_table d)
          = hpack_decode_loop (\<lambda>i k. True) l (hd_max d) (w @ s) (length w) ?g td1" for w te' td1
  proof -
    from headers_read [OF heads te td1 lim, of "hd_max d" w] obtain s hs' used td' where
      te': "ht_ok te'" "0 < ht_entry_capacity te'" "ht_max te' = ht_max (hn_table e)" and s: "block = w @ s"
      and run: "hpack_decode_loop (\<lambda>i k. True) l (hd_max d) (w @ s) (length w) ?g td1 = (Inr (hs', used), td')"
      and td': "list_all2 field_agrees hs hs'" "ht_ok td'" "0 < ht_entry_capacity td'" "ht_max td' = ht_max (hn_table e)"
        "fields_in_step (ht_fields te') (ht_fields td')"
      by auto
    have "hpack_decode (\<lambda>i k. True) l block d = (Inr (hs', used), d\<lparr>hd_table := td'\<rparr>)"
      using start [of s] run by (simp add: hpack_decode_def s)
    moreover have "hpack_in_step e' (d\<lparr>hd_table := td'\<rparr>)"
      using te' td' max by (simp add: hpack_in_step_def e')
    ultimately show ?thesis using td'(1) by blast
  qed
  show ?thesis
  proof (cases "hn_update_pending e")
    case False
    then have m: "ht_max (hd_table d) = ht_max (hn_table e)" using in_step max by simp
    obtain te' where h: "hpack_encode_headers ok capacity hs 0 [] (hn_table e) = (Inr block, te')"
        "e' = e\<lparr>hn_update_pending := False, hn_table := te'\<rparr>"
      using enc False by (auto simp: hpack_encode_def split: prod.splits)
    show ?thesis by (rule finish [OF h td m fs]) simp
  next
    case True
    then have p: "hn_pending e = hn_max e" using in_step by simp
    have lt: "hn_max e < 2 ^ 32" using ht_max_bound [OF te(1)] max(1) by simp
    obtain w te' where w: "HpackEncodeInteger (hn_max e) 0x20 5 capacity = Inr w"
      and h: "hpack_encode_headers ok capacity hs 0 w (hn_table e) = (Inr block, te')"
        "e' = e\<lparr>hn_update_pending := False, hn_table := te'\<rparr>"
      using enc True lt by (auto simp: hpack_encode_def p Let_def split: prod.splits sum.splits)
    note r = integer_read [OF w lt]
    let ?td = "ht_update_max_size (hn_max e) (hd_table d)"
    have up: "ht_ok ?td" "ht_fields ?td = fit (hn_max e) (ht_fields (hd_table d))" "ht_max ?td = hn_max e"
        "ht_entry_capacity ?td = ht_entry_capacity (hd_table d)"
      using update_max_size_fields [OF td(1) lt] by blast+
    have "fit (hn_max e) (ht_fields (hn_table e)) = ht_fields (hn_table e)"
      using te(1) max(1) fields_size_ok by (intro fit_all) (simp add: ht_ok_iff)
    then have fs': "fields_in_step (ht_fields (hn_table e)) (ht_fields ?td)"
      using in_step_fit [OF fs, of "hn_max e"] up(2) by simp
    have b: "w ! 0 AND 0xe0 = 0x20" using r(2) unfolding high_masks by simp
    have bits: "w ! 0 AND 0x80 = 0" "w ! 0 AND 0xc0 \<noteq> 0x40" "w ! 0 AND 0xf0 \<noteq> 0x00" "w ! 0 AND 0xf0 \<noteq> 0x10"
    proof -
      have "w ! 0 AND 0x80 = (w ! 0 AND 0xe0) AND 0x80" "w ! 0 AND 0xc0 = (w ! 0 AND 0xe0) AND 0xc0"
        "(w ! 0 AND 0xf0) AND 0xe0 = w ! 0 AND 0xe0"
        by (simp_all add: and.assoc)
      then show "w ! 0 AND 0x80 = 0" "w ! 0 AND 0xc0 \<noteq> 0x40" "w ! 0 AND 0xf0 \<noteq> 0x00" "w ! 0 AND 0xf0 \<noteq> 0x10"
        using b by auto
    qed
    have item: "hpack_item_at (w @ s) 0 0 (hl_room l) True (hd_max d) (hd_table d) = Inr (HpackSizeUpdate (hn_max e) (length w))" for s
      using b bits r(1) [of s] r(3) max(2) by (simp add: hpack_item_at_def Let_def)
    show ?thesis
    proof (rule finish [OF h up(1)])
      fix s
      show "hpack_decode_loop (\<lambda>i k. True) l (hd_max d) (w @ s) 0 ?g (hd_table d)
          = hpack_decode_loop (\<lambda>i k. True) l (hd_max d) (w @ s) (length w) ?g ?td"
        using r(3) item [of s] by (subst hpack_decode_loop.simps) simp
    qed (use up td max fs' in simp_all)
  qed
qed

text \<open>
  A conversation: both ends are initialised with the same table size, the peer announces other sizes, which
  it applies at once or leaves to the encoder's update, and blocks are encoded and decoded. The log pairs each
  list of headers that was sent with what was received.
\<close>

inductive hpack_conversation :: "hpack_encoder \<Rightarrow> hpack_decoder \<Rightarrow> (hpack_field list \<times> (hpack_field list \<times> nat) result) list \<Rightarrow> bool" where
  open_it: "hpack_encoder_initialize a b newSize e0 = (STATUS_SUCCESS, e) \<Longrightarrow> hpack_decoder_initialize a' b' newSize d0 = (STATUS_SUCCESS, d)
    \<Longrightarrow> 0 < newSize \<Longrightarrow> newSize < 2 ^ 32 \<Longrightarrow> hpack_conversation e d []"
| resize: "hpack_conversation e d log \<Longrightarrow> newSize < 2 ^ 32
    \<Longrightarrow> d' = hpack_decoder_update_max_table_size newSize d \<or> d' = d\<lparr>hd_max := newSize\<rparr>
    \<Longrightarrow> hpack_conversation (hpack_encoder_update_max_table_size newSize e) d' log"
| send: "hpack_conversation e d log \<Longrightarrow> hpack_encode ok capacity hs e = (Inr block, e') \<Longrightarrow> hpack_room l hs
    \<Longrightarrow> hpack_decode (\<lambda>i k. True) l block d = (r, d') \<Longrightarrow> hpack_conversation e' d' (log @ [(hs, r)])"

lemma initialised_in_step:
  assumes "hpack_encoder_initialize a b m e0 = (STATUS_SUCCESS, e)" "hpack_decoder_initialize a' b' m d0 = (STATUS_SUCCESS, d)"
    "0 < m" "m < 2 ^ 32"
  shows "hpack_in_step e d"
proof -
  obtain te td where te: "ht_initialize a b m (hn_table e0) = (STATUS_SUCCESS, te)" "e = \<lparr>hn_table = te, hn_max = m, hn_pending = m,
      hn_update_pending = False\<rparr>"
    and td: "ht_initialize a' b' m (hd_table d0) = (STATUS_SUCCESS, td)" "d = \<lparr>hd_table = td, hd_max = m\<rparr>"
    using assms(1,2) by (auto simp: hpack_encoder_initialize_def hpack_decoder_initialize_def split: prod.splits)
  show ?thesis
    using initialize_fields [OF te(1) assms(4)] initialize_fields [OF td(1) assms(4)] assms(3)
    by (simp add: hpack_in_step_def te(2) td(2))
qed

lemma resized_in_step:
  assumes "hpack_in_step e d" "m < 2 ^ 32" "d' = hpack_decoder_update_max_table_size m d \<or> d' = d\<lparr>hd_max := m\<rparr>"
  shows "hpack_in_step (hpack_encoder_update_max_table_size m e) d'"
proof -
  have te: "ht_ok (hn_table e)" and td: "ht_ok (hd_table d)" using assms(1) by (auto simp: hpack_in_step_def)
  note ue = update_max_size_fields [OF te assms(2)] and ud = update_max_size_fields [OF td assms(2)]
  have same: "fit m (ht_fields (hn_table e)) = ht_fields (hn_table e)" if "hn_max e = m"
    using te fields_size_ok assms(1) that by (intro fit_all) (auto simp: hpack_in_step_def ht_ok_iff)
  have fs: "fields_in_step (ht_fields (hn_table e)) (ht_fields (hd_table d))" using assms(1) by (simp add: hpack_in_step_def)
  show ?thesis
    using assms(3)
  proof
    assume "d' = hpack_decoder_update_max_table_size m d"
    then show ?thesis using assms(1) ue ud in_step_fit [OF fs, of m] same
      by (auto simp: hpack_in_step_def hpack_encoder_update_max_table_size_def hpack_decoder_update_max_table_size_def)
  next
    assume "d' = d\<lparr>hd_max := m\<rparr>"
    then show ?thesis using assms(1) ue in_step_prefix [OF fs, of m]
      by (auto simp: hpack_in_step_def hpack_encoder_update_max_table_size_def)
  qed
qed

lemma conversation_in_step:
  "hpack_conversation e d log \<Longrightarrow>
    hpack_in_step e d \<and> (\<forall>(hs, r) \<in> set log. \<exists>hs' n. r = Inr (hs', n) \<and> list_all2 field_agrees hs hs')"
proof (induction rule: hpack_conversation.induct)
  case (open_it a b newSize e0 e a' b' d0 d)
  then show ?case using initialised_in_step by auto
next
  case (resize e d log newSize d')
  then show ?case using resized_in_step by auto
next
  case (send e d log ok capacity hs block e' l r d')
  from block_read [OF send.hyps(2) conjunct1 [OF send.IH] send.hyps(3)] send.hyps(4) send.IH
  show ?case by auto
qed

text \<open>
  C8. Header compression is transparent. Through every conversation of an encoder and a decoder, with any
  announcements of table sizes in between and whatever is evicted on either side, every header list arrives as
  it was sent, in order, each value byte for byte and each name up to the case of its letters.
\<close>

theorem headers_arrive:
  assumes "hpack_conversation e d log" "(hs, r) \<in> set log"
  shows "\<exists>hs' used. r = Inr (hs', used) \<and> list_all2 field_agrees hs hs'"
  using conversation_in_step [OF assms(1)] assms(2) by auto

lemma block_writes:
  assumes "hpack_in_step e d" "\<forall>h \<in> set hs. fst h \<noteq> []" "text_size hs < 2 ^ 31" "6 + 13 * length hs + text_size hs \<le> capacity"
  shows "\<exists>block e'. hpack_encode (\<lambda>i k. True) capacity hs e = (Inr block, e')"
proof -
  have t: "ht_ok (hn_table e)" "0 < ht_entry_capacity (hn_table e)" using assms(1) by (auto simp: hpack_in_step_def)
  have "\<exists>w. (if hn_update_pending e then HpackEncodeInteger (hn_pending e mod 2 ^ 32) 0x20 5 capacity else Inr []) = Inr w
      \<and> length w \<le> 6"
    using integer_writes [where n = 5 and v = "hn_pending e mod 2 ^ 32" and capacity = capacity and p = "0x20"] assms(4) by auto
  then obtain w where w: "(if hn_update_pending e then HpackEncodeInteger (hn_pending e mod 2 ^ 32) 0x20 5 capacity else Inr []) = Inr w"
      "length w \<le> 6" by blast
  obtain block t' where "hpack_encode_headers (\<lambda>i k. True) capacity hs 0 w (hn_table e) = (Inr block, t')"
    using headers_write [OF t assms(2,3), of w capacity 0] assms(4) w(2) by auto
  then show ?thesis unfolding hpack_encode_def Let_def w(1) by simp
qed

theorem headers_arrive_witness:
  "\<exists>e d r hs' used. hpack_conversation e d [([(ascii '':path'', ascii ''/x''), (ascii ''Cookie'', ascii ''a=b'')], r)]
    \<and> r = Inr (hs', used)
    \<and> list_all2 field_agrees [(ascii '':path'', ascii ''/x''), (ascii ''Cookie'', ascii ''a=b'')] hs'"
proof -
  let ?hs = "[(ascii '':path'', ascii ''/x''), (ascii ''Cookie'', ascii ''a=b'')]"
  have t: "fst (ht_initialize True True 4096 hpack_table_none) = STATUS_SUCCESS"
    by (rule table_initialized) simp
  obtain e d where e: "hpack_encoder_initialize True True 4096 (\<lparr>hn_table = hpack_table_none, hn_max = 4096, hn_pending = 4096,
      hn_update_pending = False\<rparr>) = (STATUS_SUCCESS, e)"
    and d: "hpack_decoder_initialize True True 4096 \<lparr>hd_table = hpack_table_none, hd_max = 4096\<rparr> = (STATUS_SUCCESS, d)"
    using t by (cases "ht_initialize True True 4096 hpack_table_none")
      (simp add: hpack_encoder_initialize_def hpack_decoder_initialize_def)
  have start: "hpack_conversation e d []" by (rule open_it [OF e d]) simp_all
  have sz: "text_size ?hs = 16" "list_size ?hs = 80" by (simp_all add: text_size_def list_size_def hpack_field_size_def ascii_def HpackEntryOverhead_def)
  obtain block e' where enc: "hpack_encode (\<lambda>i k. True) 100 ?hs e = (Inr block, e')"
    using block_writes [OF initialised_in_step [OF e d], of ?hs 100] sz by (auto simp: ascii_def)
  obtain r d' where dec: "hpack_decode (\<lambda>i k. True) \<lparr>hl_headers = 8, hl_room = 64, hl_list = 256\<rparr> block d = (r, d')" by fastforce
  have log: "hpack_conversation e' d' ([] @ [(?hs, r)])"
    by (rule send [OF start enc _ dec]) (use sz in \<open>simp add: hpack_room_def u64_max_def\<close>)
  have "\<exists>hs' used. r = Inr (hs', used) \<and> list_all2 field_agrees ?hs hs'"
    by (rule headers_arrive [OF log]) simp
  then obtain hs' used where "r = Inr (hs', used)" "list_all2 field_agrees ?hs hs'" by blast
  then show ?thesis using log [unfolded append_Nil] by (intro exI [of _ e'] exI [of _ d'] exI [of _ r] exI [of _ hs'] exI [of _ used] conjI)
qed

end
