(* ===== verification/Http2Frame.thy ===== *)
theory Http2Frame
  imports Prelude
begin

text \<open>
  HTTP/2 frames, \<open>src/wknetlib/http2/Http2Frame.cpp\<close>: the nine-byte frame header, the encoders of
  every frame the client sends, the decoders of the payloads it receives, padding and priority
  stripping, and the base64url form of the settings for the h2c upgrade. \<open>ULONG\<close> and \<open>USHORT\<close>
  values are words of their width. An encoder's result is the bytes it wrote to \<open>dest\<close>. The
  settings decoder updates its settings one by one also when a later one is refused, so it returns
  the status with the settings. The lemmas give the round trip of every frame and the validity of
  accepted settings.
\<close>

definition Http2FrameHeaderLength :: nat where
  "Http2FrameHeaderLength = 9"

definition Http2DefaultMaxFrameSize :: u32 where
  "Http2DefaultMaxFrameSize = 16384"

definition Http2MaxAllowedFrameSize :: u32 where
  "Http2MaxAllowedFrameSize = 16777215"

definition Http2InitialWindowSize :: u32 where
  "Http2InitialWindowSize = 65535"

definition Http2MaxWindowSize :: u32 where
  "Http2MaxWindowSize = 0x7fffffff"

text \<open>A frame type is any byte on the wire; these are the enumerators.\<close>

datatype http2_frame_type =
    H2Data | H2Headers | H2Priority | H2RstStream | H2Settings | H2PushPromise | H2Ping | H2GoAway
  | H2WindowUpdate | H2Continuation

fun h2_type_byte :: "http2_frame_type \<Rightarrow> byte" where
  "h2_type_byte H2Data = 0"
| "h2_type_byte H2Headers = 1"
| "h2_type_byte H2Priority = 2"
| "h2_type_byte H2RstStream = 3"
| "h2_type_byte H2Settings = 4"
| "h2_type_byte H2PushPromise = 5"
| "h2_type_byte H2Ping = 6"
| "h2_type_byte H2GoAway = 7"
| "h2_type_byte H2WindowUpdate = 8"
| "h2_type_byte H2Continuation = 9"

definition h2_flag_end_stream :: byte where
  "h2_flag_end_stream = 0x01"

definition h2_flag_ack :: byte where
  "h2_flag_ack = 0x01"

definition h2_flag_end_headers :: byte where
  "h2_flag_end_headers = 0x04"

definition h2_flag_padded :: byte where
  "h2_flag_padded = 0x08"

definition h2_flag_priority :: byte where
  "h2_flag_priority = 0x20"

record h2_settings =
  hs_header_table_size :: u32
  hs_enable_push :: u32
  hs_max_concurrent_streams :: u32
  hs_initial_window_size :: u32
  hs_max_frame_size :: u32
  hs_max_header_list_size :: u32
  hs_enable_connect_protocol :: u32

definition h2_settings_default :: h2_settings where
  "h2_settings_default = \<lparr>hs_header_table_size = 4096, hs_enable_push = 0, hs_max_concurrent_streams = 100,
     hs_initial_window_size = 65535, hs_max_frame_size = 16384, hs_max_header_list_size = 65536,
     hs_enable_connect_protocol = 0\<rparr>"

record h2_frame_header =
  hh_length :: u32
  hh_type :: byte
  hh_flags :: byte
  hh_stream :: u32

record h2_priority =
  hp_dependency :: u32
  hp_weight :: u16
  hp_exclusive :: bool

section \<open>Big-endian integers\<close>

definition write_u24 :: "u32 \<Rightarrow> bytes" where
  "write_u24 v = [ucast (drop_bit 16 v AND 0xff), ucast (drop_bit 8 v AND 0xff), ucast (v AND 0xff)]"

definition read_u24 :: "bytes \<Rightarrow> u32" where
  "read_u24 src = push_bit 16 (ucast (src ! 0)) OR push_bit 8 (ucast (src ! 1)) OR ucast (src ! 2)"

definition write_u32 :: "u32 \<Rightarrow> bytes" where
  "write_u32 v = [ucast (drop_bit 24 v AND 0xff), ucast (drop_bit 16 v AND 0xff),
     ucast (drop_bit 8 v AND 0xff), ucast (v AND 0xff)]"

definition read_u32 :: "bytes \<Rightarrow> u32" where
  "read_u32 src = push_bit 24 (ucast (src ! 0)) OR push_bit 16 (ucast (src ! 1))
     OR push_bit 8 (ucast (src ! 2)) OR ucast (src ! 3)"

definition write_u16 :: "u16 \<Rightarrow> bytes" where
  "write_u16 v = [ucast (drop_bit 8 v AND 0xff), ucast (v AND 0xff)]"

definition read_u16 :: "bytes \<Rightarrow> u16" where
  "read_u16 src = push_bit 8 (ucast (src ! 0)) OR ucast (src ! 1)"

section \<open>Frame header\<close>

definition h2_encode_frame_header :: "h2_frame_header \<Rightarrow> nat \<Rightarrow> bytes result" where
  "h2_encode_frame_header h capacity =
     (if capacity < Http2FrameHeaderLength then Inl STATUS_BUFFER_TOO_SMALL
      else if hh_length h > Http2MaxAllowedFrameSize then Inl STATUS_INVALID_PARAMETER
      else if (hh_stream h AND 0x80000000) \<noteq> 0 then Inl STATUS_INVALID_PARAMETER
      else Inr (write_u24 (hh_length h) @ [hh_type h, hh_flags h] @ write_u32 (hh_stream h AND 0x7fffffff)))"

definition h2_decode_frame_header :: "bytes \<Rightarrow> h2_frame_header result" where
  "h2_decode_frame_header src =
     (if src = [] then Inl STATUS_INVALID_PARAMETER
      else if length src < Http2FrameHeaderLength then Inl STATUS_MORE_PROCESSING_REQUIRED
      else Inr \<lparr>hh_length = read_u24 src, hh_type = src ! 3, hh_flags = src ! 4,
                hh_stream = read_u32 (drop 5 src) AND 0x7fffffff\<rparr>)"

definition h2_encode_frame :: "h2_frame_header \<Rightarrow> bytes \<Rightarrow> nat \<Rightarrow> bytes result" where
  "h2_encode_frame h payload capacity =
     (if hh_length h \<noteq> word_of_nat (length payload) then Inl STATUS_INVALID_PARAMETER
      else if capacity < w64 (Http2FrameHeaderLength + length payload) then Inl STATUS_BUFFER_TOO_SMALL
      else rbind (h2_encode_frame_header h capacity) (\<lambda>w. Inr (w @ payload)))"

section \<open>Settings\<close>

definition h2_write_setting :: "u16 \<Rightarrow> u32 \<Rightarrow> bytes" where
  "h2_write_setting i v = write_u16 i @ write_u32 v"

definition h2_encode_settings :: "h2_settings \<Rightarrow> nat \<Rightarrow> bytes result" where
  "h2_encode_settings s capacity =
     (if capacity < Http2FrameHeaderLength + 42 then Inl STATUS_BUFFER_TOO_SMALL
      else rbind (h2_encode_frame_header \<lparr>hh_length = 42, hh_type = h2_type_byte H2Settings, hh_flags = 0,
                    hh_stream = 0\<rparr> capacity) (\<lambda>w.
        Inr (w @ h2_write_setting 1 (hs_header_table_size s)
               @ h2_write_setting 2 (hs_enable_push s)
               @ h2_write_setting 3 (hs_max_concurrent_streams s)
               @ h2_write_setting 4 (hs_initial_window_size s)
               @ h2_write_setting 5 (hs_max_frame_size s)
               @ h2_write_setting 6 (hs_max_header_list_size s)
               @ h2_write_setting 8 (hs_enable_connect_protocol s))))"

definition h2_encode_settings_ack :: "nat \<Rightarrow> bytes result" where
  "h2_encode_settings_ack capacity =
     (if capacity < Http2FrameHeaderLength then Inl STATUS_BUFFER_TOO_SMALL
      else h2_encode_frame_header \<lparr>hh_length = 0, hh_type = h2_type_byte H2Settings, hh_flags = h2_flag_ack,
             hh_stream = 0\<rparr> capacity)"

definition h2_apply_setting :: "u16 \<Rightarrow> u32 \<Rightarrow> h2_settings \<Rightarrow> h2_settings result" where
  "h2_apply_setting i v s =
     (if i = 1 then Inr (s\<lparr>hs_header_table_size := v\<rparr>)
      else if i = 2 then (if v > 1 then Inl STATUS_INVALID_NETWORK_RESPONSE else Inr (s\<lparr>hs_enable_push := v\<rparr>))
      else if i = 3 then Inr (s\<lparr>hs_max_concurrent_streams := v\<rparr>)
      else if i = 4 then (if v > Http2MaxWindowSize then Inl STATUS_INVALID_NETWORK_RESPONSE
                          else Inr (s\<lparr>hs_initial_window_size := v\<rparr>))
      else if i = 5 then (if v < Http2DefaultMaxFrameSize \<or> v > Http2MaxAllowedFrameSize
                          then Inl STATUS_INVALID_NETWORK_RESPONSE else Inr (s\<lparr>hs_max_frame_size := v\<rparr>))
      else if i = 6 then Inr (s\<lparr>hs_max_header_list_size := v\<rparr>)
      else if i = 8 then (if v > 1 then Inl STATUS_INVALID_NETWORK_RESPONSE
                          else Inr (s\<lparr>hs_enable_connect_protocol := v\<rparr>))
      else Inr s)"

fun h2_decode_settings_loop :: "bytes \<Rightarrow> h2_settings \<Rightarrow> ntstatus \<times> h2_settings" where
  "h2_decode_settings_loop (a # b # c # d # e # f # rest) s =
     (case h2_apply_setting (read_u16 [a, b]) (read_u32 [c, d, e, f]) s of
        Inl err \<Rightarrow> (err, s)
      | Inr s' \<Rightarrow> h2_decode_settings_loop rest s')"
| "h2_decode_settings_loop _ s = (STATUS_SUCCESS, s)"

definition h2_decode_settings_payload :: "bytes \<Rightarrow> h2_settings \<Rightarrow> ntstatus \<times> h2_settings" where
  "h2_decode_settings_payload payload s =
     (if length payload mod 6 \<noteq> 0 then (STATUS_INVALID_NETWORK_RESPONSE, s)
      else h2_decode_settings_loop payload s)"

text \<open>Base64url without padding; characters are their codes.\<close>

definition base64url_char :: "byte \<Rightarrow> byte" where
  "base64url_char v = (if v < 26 then 65 + v else if v < 52 then 97 + (v - 26)
     else if v < 62 then 48 + (v - 52) else if v = 62 then 45 else 95)"

definition base64url_sextet :: "u32 \<Rightarrow> nat \<Rightarrow> byte" where
  "base64url_sextet v shift = base64url_char (ucast (drop_bit shift v AND 0x3f))"

fun base64url_encode :: "bytes \<Rightarrow> nat \<Rightarrow> bytes \<Rightarrow> bytes result" where
  "base64url_encode (a # b # c # rest) capacity out =
     (if length out + 4 > capacity then Inl STATUS_BUFFER_TOO_SMALL
      else let v = push_bit 16 (ucast a) OR push_bit 8 (ucast b) OR ucast c
           in base64url_encode rest capacity
                (out @ [base64url_sextet v 18, base64url_sextet v 12, base64url_sextet v 6, base64url_sextet v 0]))"
| "base64url_encode [a, b] capacity out =
     (if length out + 3 > capacity then Inl STATUS_BUFFER_TOO_SMALL
      else let v = push_bit 16 (ucast a) OR push_bit 8 (ucast b)
           in Inr (out @ [base64url_sextet v 18, base64url_sextet v 12, base64url_sextet v 6]))"
| "base64url_encode [a] capacity out =
     (if length out + 2 > capacity then Inl STATUS_BUFFER_TOO_SMALL
      else let v = push_bit 16 (ucast a) in Inr (out @ [base64url_sextet v 18, base64url_sextet v 12]))"
| "base64url_encode [] capacity out = Inr out"

definition h2_encode_settings_base64url :: "bool \<Rightarrow> h2_settings \<Rightarrow> nat \<Rightarrow> bytes result" where
  "h2_encode_settings_base64url alloc_ok s capacity =
     (if \<not> alloc_ok then Inl STATUS_INSUFFICIENT_RESOURCES
      else rbind (h2_encode_settings s (Http2FrameHeaderLength + 42)) (\<lambda>w.
             base64url_encode (drop Http2FrameHeaderLength w) capacity []))"

section \<open>Control frames\<close>

definition h2_encode_window_update :: "u32 \<Rightarrow> u32 \<Rightarrow> nat \<Rightarrow> bytes result" where
  "h2_encode_window_update stream increment capacity =
     (if increment = 0 \<or> increment > Http2MaxWindowSize then Inl STATUS_INVALID_PARAMETER
      else if capacity < Http2FrameHeaderLength + 4 then Inl STATUS_BUFFER_TOO_SMALL
      else rbind (h2_encode_frame_header \<lparr>hh_length = 4, hh_type = h2_type_byte H2WindowUpdate, hh_flags = 0,
                    hh_stream = stream\<rparr> capacity) (\<lambda>w.
             Inr (w @ write_u32 (increment AND 0x7fffffff))))"

definition h2_decode_window_update_payload :: "bytes \<Rightarrow> u32 result" where
  "h2_decode_window_update_payload payload =
     (if payload = [] then Inl STATUS_INVALID_PARAMETER
      else if length payload \<noteq> 4 then Inl STATUS_INVALID_NETWORK_RESPONSE
      else let increment = read_u32 payload AND 0x7fffffff
           in if increment = 0 then Inl STATUS_INVALID_NETWORK_RESPONSE else Inr increment)"

text \<open>\<open>opaqueData\<close> points to eight bytes.\<close>

definition h2_encode_ping :: "bytes \<Rightarrow> bool \<Rightarrow> nat \<Rightarrow> bytes result" where
  "h2_encode_ping opaqueData ack capacity =
     (if opaqueData = [] then Inl STATUS_INVALID_PARAMETER
      else if capacity < Http2FrameHeaderLength + 8 then Inl STATUS_BUFFER_TOO_SMALL
      else rbind (h2_encode_frame_header \<lparr>hh_length = 8, hh_type = h2_type_byte H2Ping,
                    hh_flags = (if ack then h2_flag_ack else 0), hh_stream = 0\<rparr> capacity) (\<lambda>w.
             Inr (w @ take 8 opaqueData)))"

definition h2_encode_goaway :: "u32 \<Rightarrow> u32 \<Rightarrow> nat \<Rightarrow> bytes result" where
  "h2_encode_goaway lastStream err capacity =
     (if capacity < Http2FrameHeaderLength + 8 then Inl STATUS_BUFFER_TOO_SMALL
      else rbind (h2_encode_frame_header \<lparr>hh_length = 8, hh_type = h2_type_byte H2GoAway, hh_flags = 0,
                    hh_stream = 0\<rparr> capacity) (\<lambda>w.
             Inr (w @ write_u32 (lastStream AND 0x7fffffff) @ write_u32 err)))"

definition h2_decode_goaway_payload :: "bytes \<Rightarrow> (u32 \<times> u32) result" where
  "h2_decode_goaway_payload payload =
     (if length payload < 8 then Inl STATUS_INVALID_NETWORK_RESPONSE
      else Inr (read_u32 payload AND 0x7fffffff, read_u32 (drop 4 payload)))"

definition h2_encode_rst_stream :: "u32 \<Rightarrow> u32 \<Rightarrow> nat \<Rightarrow> bytes result" where
  "h2_encode_rst_stream stream err capacity =
     (if stream = 0 then Inl STATUS_INVALID_PARAMETER
      else if capacity < Http2FrameHeaderLength + 4 then Inl STATUS_BUFFER_TOO_SMALL
      else rbind (h2_encode_frame_header \<lparr>hh_length = 4, hh_type = h2_type_byte H2RstStream, hh_flags = 0,
                    hh_stream = stream\<rparr> capacity) (\<lambda>w. Inr (w @ write_u32 err)))"

definition h2_decode_rst_stream_payload :: "bytes \<Rightarrow> u32 result" where
  "h2_decode_rst_stream_payload payload =
     (if payload = [] then Inl STATUS_INVALID_PARAMETER
      else if length payload \<noteq> 4 then Inl STATUS_INVALID_NETWORK_RESPONSE
      else Inr (read_u32 payload))"

definition h2_validate_priority :: "u32 \<Rightarrow> h2_priority \<Rightarrow> ntstatus" where
  "h2_validate_priority stream p =
     (if stream = 0 \<or> (stream AND 0x80000000) \<noteq> 0 \<or> (hp_dependency p AND 0x80000000) \<noteq> 0
        \<or> hp_dependency p = stream \<or> hp_weight p = 0 \<or> hp_weight p > 256
      then STATUS_INVALID_PARAMETER else STATUS_SUCCESS)"

definition h2_write_priority :: "h2_priority \<Rightarrow> bytes" where
  "h2_write_priority p =
     (let dependency0 = hp_dependency p AND 0x7fffffff;
          dependency = (if hp_exclusive p then dependency0 OR 0x80000000 else dependency0)
      in write_u32 dependency @ [ucast (hp_weight p - 1)])"

definition h2_encode_priority :: "u32 \<Rightarrow> h2_priority \<Rightarrow> nat \<Rightarrow> bytes result" where
  "h2_encode_priority stream p capacity =
     (let st = h2_validate_priority stream p
      in if st \<noteq> STATUS_SUCCESS then Inl st
         else if capacity < Http2FrameHeaderLength + 5 then Inl STATUS_BUFFER_TOO_SMALL
         else rbind (h2_encode_frame_header \<lparr>hh_length = 5, hh_type = h2_type_byte H2Priority, hh_flags = 0,
                       hh_stream = stream\<rparr> capacity) (\<lambda>w. Inr (w @ h2_write_priority p)))"

definition h2_decode_priority_payload :: "u32 \<Rightarrow> bytes \<Rightarrow> h2_priority result" where
  "h2_decode_priority_payload stream payload =
     (if payload = [] then Inl STATUS_INVALID_PARAMETER
      else if stream = 0 \<or> (stream AND 0x80000000) \<noteq> 0 then Inl STATUS_INVALID_PARAMETER
      else if length payload \<noteq> 5 then Inl STATUS_INVALID_NETWORK_RESPONSE
      else let dependency = read_u32 payload;
               p = \<lparr>hp_dependency = dependency AND 0x7fffffff, hp_weight = ucast (payload ! 4) + 1,
                     hp_exclusive = ((dependency AND 0x80000000) \<noteq> 0)\<rparr>
           in if hp_dependency p = stream then Inl STATUS_INVALID_NETWORK_RESPONSE else Inr p)"

section \<open>Frames with a block of bytes\<close>

definition h2_encode_headers :: "u32 \<Rightarrow> bytes \<Rightarrow> bool \<Rightarrow> bool \<Rightarrow> nat \<Rightarrow> bytes result" where
  "h2_encode_headers stream block endStream endHeaders capacity =
     (if stream = 0 then Inl STATUS_INVALID_PARAMETER
      else if length block > unat Http2MaxAllowedFrameSize then Inl STATUS_INVALID_PARAMETER
      else if capacity < Http2FrameHeaderLength + length block then Inl STATUS_BUFFER_TOO_SMALL
      else rbind (h2_encode_frame_header \<lparr>hh_length = word_of_nat (length block),
                    hh_type = h2_type_byte H2Headers,
                    hh_flags = (if endStream then h2_flag_end_stream else 0)
                                OR (if endHeaders then h2_flag_end_headers else 0),
                    hh_stream = stream\<rparr> capacity) (\<lambda>w. Inr (w @ block)))"

definition h2_encode_headers_with_priority ::
    "u32 \<Rightarrow> bytes \<Rightarrow> h2_priority \<Rightarrow> bool \<Rightarrow> bool \<Rightarrow> nat \<Rightarrow> bytes result" where
  "h2_encode_headers_with_priority stream block p endStream endHeaders capacity =
     (let st = h2_validate_priority stream p
      in if st \<noteq> STATUS_SUCCESS then Inl st
         else if length block > unat Http2MaxAllowedFrameSize - 5 then Inl STATUS_INVALID_PARAMETER
         else if capacity < Http2FrameHeaderLength + (5 + length block) then Inl STATUS_BUFFER_TOO_SMALL
         else rbind (h2_encode_frame_header \<lparr>hh_length = word_of_nat (5 + length block),
                       hh_type = h2_type_byte H2Headers,
                       hh_flags = h2_flag_priority OR (if endStream then h2_flag_end_stream else 0)
                                   OR (if endHeaders then h2_flag_end_headers else 0),
                       hh_stream = stream\<rparr> capacity) (\<lambda>w. Inr (w @ h2_write_priority p @ block)))"

definition h2_encode_continuation :: "u32 \<Rightarrow> bytes \<Rightarrow> bool \<Rightarrow> nat \<Rightarrow> bytes result" where
  "h2_encode_continuation stream block endHeaders capacity =
     (if stream = 0 then Inl STATUS_INVALID_PARAMETER
      else if length block > unat Http2MaxAllowedFrameSize then Inl STATUS_INVALID_PARAMETER
      else if capacity < Http2FrameHeaderLength + length block then Inl STATUS_BUFFER_TOO_SMALL
      else rbind (h2_encode_frame_header \<lparr>hh_length = word_of_nat (length block),
                    hh_type = h2_type_byte H2Continuation,
                    hh_flags = (if endHeaders then h2_flag_end_headers else 0),
                    hh_stream = stream\<rparr> capacity) (\<lambda>w. Inr (w @ block)))"

definition h2_encode_data :: "u32 \<Rightarrow> bytes \<Rightarrow> bool \<Rightarrow> nat \<Rightarrow> bytes result" where
  "h2_encode_data stream block endStream capacity =
     (if stream = 0 then Inl STATUS_INVALID_PARAMETER
      else if length block > unat Http2MaxAllowedFrameSize then Inl STATUS_INVALID_PARAMETER
      else if capacity < Http2FrameHeaderLength + length block then Inl STATUS_BUFFER_TOO_SMALL
      else rbind (h2_encode_frame_header \<lparr>hh_length = word_of_nat (length block),
                    hh_type = h2_type_byte H2Data,
                    hh_flags = (if endStream then h2_flag_end_stream else 0),
                    hh_stream = stream\<rparr> capacity) (\<lambda>w. Inr (w @ block)))"

definition h2_strip_padding :: "byte \<Rightarrow> bytes \<Rightarrow> bytes result" where
  "h2_strip_padding flags payload =
     (if (flags AND h2_flag_padded) = 0 then Inr payload
      else if length payload < 1 then Inl STATUS_INVALID_NETWORK_RESPONSE
      else let padLength = unat (payload ! 0)
           in if padLength \<ge> length payload then Inl STATUS_INVALID_NETWORK_RESPONSE
              else Inr (view payload 1 (length payload - 1 - padLength)))"

definition h2_strip_priority :: "byte \<Rightarrow> bytes \<Rightarrow> bytes result" where
  "h2_strip_priority flags payload =
     (if (flags AND h2_flag_priority) = 0 then Inr payload
      else if length payload < 5 then Inl STATUS_INVALID_NETWORK_RESPONSE
      else Inr (view payload 5 (length payload - 5)))"

section \<open>Reading back\<close>

lemma read_write_u32 [simp]: "read_u32 (write_u32 v @ rest) = v"
proof (rule bit_word_eqI)
  fix n assume n: "n < LENGTH(32)"
  have m: "(255 :: u32) = mask 8" by (simp add: mask_eq_exp_minus_1)
  show "bit (read_u32 (write_u32 v @ rest)) n = bit v n"
    unfolding read_u32_def write_u32_def m using n
    by (cases "n < 8"; cases "n < 16"; cases "n < 24") (auto simp: bit_simps)
qed

lemma read_write_u24 [simp]: "v \<le> Http2MaxAllowedFrameSize \<Longrightarrow> read_u24 (write_u24 v @ rest) = v"
proof -
  assume "v \<le> Http2MaxAllowedFrameSize"
  then have "unat v < 2 ^ 24" by (simp add: Http2MaxAllowedFrameSize_def word_le_nat_alt)
  then have v: "take_bit 24 v = v"
    by (simp add: word_unat_eq_iff unsigned_take_bit_eq take_bit_nat_eq_self)
  show ?thesis
  proof (rule bit_word_eqI)
    fix n assume n: "n < LENGTH(32)"
    have m: "(255 :: u32) = mask 8" by (simp add: mask_eq_exp_minus_1)
    have "bit (read_u24 (write_u24 v @ rest)) n = bit (take_bit 24 v) n"
      unfolding read_u24_def write_u24_def m using n
      by (cases "n < 8"; cases "n < 16"; cases "n < 24") (auto simp: bit_simps)
    then show "bit (read_u24 (write_u24 v @ rest)) n = bit v n" unfolding v .
  qed
qed

lemma read_write_u16 [simp]: "read_u16 (write_u16 v @ rest) = v"
proof (rule bit_word_eqI)
  fix n assume n: "n < LENGTH(16)"
  have m: "(255 :: u16) = mask 8" by (simp add: mask_eq_exp_minus_1)
  show "bit (read_u16 (write_u16 v @ rest)) n = bit v n"
    unfolding read_u16_def write_u16_def m using n
    by (cases "n < 8") (auto simp: bit_simps)
qed

lemma length_write [simp]: "length (write_u24 v) = 3" "length (write_u32 w) = 4" "length (write_u16 x) = 2"
  by (simp_all add: write_u24_def write_u32_def write_u16_def)

lemma stream_bits:
  assumes "((s :: u32) AND 0x80000000) = 0"
  shows "s AND 0x7fffffff = s"
proof -
  have m: "(0x7fffffff :: u32) = mask 31" by (simp add: mask_eq_exp_minus_1)
  have "\<not> bit s 31"
    using assms and_exp_eq_0_iff_not_bit [of s 31] by simp
  then show ?thesis
    unfolding m by (intro bit_word_eqI) (auto simp: bit_simps less_Suc_eq numeral_eq_Suc)
qed

lemma masked_stream [simp]: "((s :: u32) AND 0x7fffffff) AND 0x7fffffff = s AND 0x7fffffff"
  by (simp add: and.assoc)

lemma h2_header_roundtrip:
  assumes "h2_encode_frame_header h capacity = Inr w"
  shows "length w = Http2FrameHeaderLength" "length w \<le> capacity"
    "h2_decode_frame_header (w @ rest) = Inr h"
    "w = write_u24 (hh_length h) @ [hh_type h, hh_flags h] @ write_u32 (hh_stream h AND 0x7fffffff)"
proof -
  have c: "9 \<le> capacity" "hh_length h \<le> Http2MaxAllowedFrameSize" "(hh_stream h AND 0x80000000) = 0"
    and w: "w = write_u24 (hh_length h) @ [hh_type h, hh_flags h] @ write_u32 (hh_stream h AND 0x7fffffff)"
    using assms by (auto simp: h2_encode_frame_header_def Http2FrameHeaderLength_def not_less split: if_splits)
  show "length w = Http2FrameHeaderLength" "length w \<le> capacity"
    using c by (simp_all add: w Http2FrameHeaderLength_def)
  show "w = write_u24 (hh_length h) @ [hh_type h, hh_flags h] @ write_u32 (hh_stream h AND 0x7fffffff)" by (rule w)
  have "read_u24 (w @ rest) = hh_length h" using read_write_u24 [OF c(2)] by (simp add: w)
  moreover have "(w @ rest) ! 3 = hh_type h" "(w @ rest) ! 4 = hh_flags h"
    by (simp_all add: w nth_append write_u24_def)
  moreover have "drop 5 (w @ rest) = write_u32 (hh_stream h) @ rest"
    using stream_bits [OF c(3)] by (simp add: w write_u24_def)
  ultimately show "h2_decode_frame_header (w @ rest) = Inr h"
    using stream_bits [OF c(3)]
    by (simp add: h2_decode_frame_header_def Http2FrameHeaderLength_def w)
qed

section \<open>Round trip of every frame\<close>

datatype h2_message =
    MData u32 bytes bool
  | MHeaders u32 bytes bool bool
  | MPriorityHeaders u32 bytes h2_priority bool bool
  | MPriority u32 h2_priority
  | MRstStream u32 u32
  | MSettings h2_settings
  | MSettingsAck
  | MPing bytes bool
  | MGoAway u32 u32
  | MWindowUpdate u32 u32
  | MContinuation u32 bytes bool

fun h2_encode_message :: "h2_message \<Rightarrow> nat \<Rightarrow> bytes result" where
  "h2_encode_message (MData i d es) c = h2_encode_data i d es c"
| "h2_encode_message (MHeaders i b es eh) c = h2_encode_headers i b es eh c"
| "h2_encode_message (MPriorityHeaders i b p es eh) c = h2_encode_headers_with_priority i b p es eh c"
| "h2_encode_message (MPriority i p) c = h2_encode_priority i p c"
| "h2_encode_message (MRstStream i e) c = h2_encode_rst_stream i e c"
| "h2_encode_message (MSettings s) c = h2_encode_settings s c"
| "h2_encode_message MSettingsAck c = h2_encode_settings_ack c"
| "h2_encode_message (MPing d a) c = h2_encode_ping d a c"
| "h2_encode_message (MGoAway l e) c = h2_encode_goaway l e c"
| "h2_encode_message (MWindowUpdate i n) c = h2_encode_window_update i n c"
| "h2_encode_message (MContinuation i b eh) c = h2_encode_continuation i b eh c"

fun h2_message_type :: "h2_message \<Rightarrow> http2_frame_type" where
  "h2_message_type (MData _ _ _) = H2Data"
| "h2_message_type (MHeaders _ _ _ _) = H2Headers"
| "h2_message_type (MPriorityHeaders _ _ _ _ _) = H2Headers"
| "h2_message_type (MPriority _ _) = H2Priority"
| "h2_message_type (MRstStream _ _) = H2RstStream"
| "h2_message_type (MSettings _) = H2Settings"
| "h2_message_type MSettingsAck = H2Settings"
| "h2_message_type (MPing _ _) = H2Ping"
| "h2_message_type (MGoAway _ _) = H2GoAway"
| "h2_message_type (MWindowUpdate _ _) = H2WindowUpdate"
| "h2_message_type (MContinuation _ _ _) = H2Continuation"

fun h2_message_stream :: "h2_message \<Rightarrow> u32" where
  "h2_message_stream (MData i _ _) = i"
| "h2_message_stream (MHeaders i _ _ _) = i"
| "h2_message_stream (MPriorityHeaders i _ _ _ _) = i"
| "h2_message_stream (MPriority i _) = i"
| "h2_message_stream (MRstStream i _) = i"
| "h2_message_stream (MWindowUpdate i _) = i"
| "h2_message_stream (MContinuation i _ _) = i"
| "h2_message_stream _ = 0"

definition h2_settings_valid :: "h2_settings \<Rightarrow> bool" where
  "h2_settings_valid s \<longleftrightarrow> hs_enable_push s \<le> 1 \<and> hs_initial_window_size s \<le> Http2MaxWindowSize
     \<and> Http2DefaultMaxFrameSize \<le> hs_max_frame_size s \<and> hs_max_frame_size s \<le> Http2MaxAllowedFrameSize
     \<and> hs_enable_connect_protocol s \<le> 1"

text \<open>
  What the receiver's decoders make of the flags and the payload. The encoder writes any settings, the decoder
  refuses those outside the limits of the protocol; \<open>GOAWAY\<close> carries its last stream without the reserved bit.
\<close>

fun h2_message_read :: "h2_message \<Rightarrow> byte \<Rightarrow> bytes \<Rightarrow> bool" where
  "h2_message_read (MData _ d es) flags p \<longleftrightarrow>
     h2_strip_padding flags p = Inr d \<and> ((flags AND h2_flag_end_stream) \<noteq> 0) = es"
| "h2_message_read (MHeaders _ b es eh) flags p \<longleftrightarrow>
     rbind (h2_strip_padding flags p) (h2_strip_priority flags) = Inr b
     \<and> ((flags AND h2_flag_end_stream) \<noteq> 0) = es \<and> ((flags AND h2_flag_end_headers) \<noteq> 0) = eh"
| "h2_message_read (MPriorityHeaders i b pr es eh) flags p \<longleftrightarrow>
     rbind (h2_strip_padding flags p) (h2_strip_priority flags) = Inr b
     \<and> ((flags AND h2_flag_end_stream) \<noteq> 0) = es \<and> ((flags AND h2_flag_end_headers) \<noteq> 0) = eh
     \<and> h2_decode_priority_payload i (take 5 p) = Inr pr"
| "h2_message_read (MPriority i pr) flags p \<longleftrightarrow> h2_decode_priority_payload i p = Inr pr"
| "h2_message_read (MRstStream _ e) flags p \<longleftrightarrow> h2_decode_rst_stream_payload p = Inr e"
| "h2_message_read (MSettings s) flags p \<longleftrightarrow> (flags AND h2_flag_ack) = 0
     \<and> (\<forall>s0. if h2_settings_valid s then h2_decode_settings_payload p s0 = (STATUS_SUCCESS, s)
               else fst (h2_decode_settings_payload p s0) = STATUS_INVALID_NETWORK_RESPONSE)"
| "h2_message_read MSettingsAck flags p \<longleftrightarrow> (flags AND h2_flag_ack) \<noteq> 0 \<and> p = []"
| "h2_message_read (MPing d a) flags p \<longleftrightarrow> p = take 8 d \<and> ((flags AND h2_flag_ack) \<noteq> 0) = a"
| "h2_message_read (MGoAway l e) flags p \<longleftrightarrow> h2_decode_goaway_payload p = Inr (l AND 0x7fffffff, e)"
| "h2_message_read (MWindowUpdate _ n) flags p \<longleftrightarrow> h2_decode_window_update_payload p = Inr n"
| "h2_message_read (MContinuation _ b eh) flags p \<longleftrightarrow> p = b \<and> ((flags AND h2_flag_end_headers) \<noteq> 0) = eh"

lemmas h2_flag_defs = h2_flag_end_stream_def h2_flag_ack_def h2_flag_end_headers_def h2_flag_padded_def
  h2_flag_priority_def

text \<open>An encoder is a frame header followed by a payload whose length is the announced one.\<close>

lemma h2_frame_parts:
  assumes "h2_encode_frame_header h capacity0 = Inr w0" "w = w0 @ p" "length p = unat (hh_length h)"
    "Http2FrameHeaderLength + length p \<le> capacity"
  shows "length w \<le> capacity \<and> h2_decode_frame_header (w @ rest) = Inr h
    \<and> drop Http2FrameHeaderLength w = p \<and> length p = unat (hh_length h)"
  using h2_header_roundtrip(1,2) [OF assms(1)] h2_header_roundtrip(3) [OF assms(1), where rest = "p @ rest"]
    assms(2-4) by simp

lemma u32_of_length: "n \<le> unat Http2MaxAllowedFrameSize \<Longrightarrow> unat (word_of_nat n :: u32) = n"
  by (simp add: Http2MaxAllowedFrameSize_def unat_of_nat)

lemma u32_high_bit: "(x :: u32) \<le> Http2MaxWindowSize \<Longrightarrow> x AND 0x7fffffff = x"
proof -
  assume "x \<le> Http2MaxWindowSize"
  then have "unat x < 2 ^ 31" by (simp add: Http2MaxWindowSize_def word_le_nat_alt)
  then have "take_bit 31 x = x"
    by (simp add: word_unat_eq_iff unsigned_take_bit_eq take_bit_nat_eq_self)
  then show ?thesis by (simp add: take_bit_eq_mask mask_eq_exp_minus_1)
qed


text \<open>The opaque data of a ping is eight bytes long; nothing else restricts a message beforehand.\<close>

fun h2_message_ok :: "h2_message \<Rightarrow> bool" where
  "h2_message_ok (MPing d _) \<longleftrightarrow> length d = 8"
| "h2_message_ok _ \<longleftrightarrow> True"

text \<open>A receiver splits a frame off the byte stream at the announced length.\<close>

definition h2_delivers :: "h2_message \<Rightarrow> nat \<Rightarrow> bytes \<Rightarrow> bytes \<Rightarrow> bool" where
  "h2_delivers m capacity w rest \<longleftrightarrow> length w \<le> capacity \<and>
     (\<exists>h. h2_decode_frame_header (w @ rest) = Inr h \<and> hh_type h = h2_type_byte (h2_message_type m)
        \<and> hh_stream h = h2_message_stream m \<and> length w = Http2FrameHeaderLength + unat (hh_length h)
        \<and> h2_message_read m (hh_flags h)
             (take (unat (hh_length h)) (drop Http2FrameHeaderLength (w @ rest))))"

lemma h2_deliversI:
  assumes "h2_encode_frame_header h capacity = Inr w0" "w = w0 @ p" "length p = unat (hh_length h)"
    "Http2FrameHeaderLength + length p \<le> capacity"
    "hh_type h = h2_type_byte (h2_message_type m)" "hh_stream h = h2_message_stream m"
    "h2_message_read m (hh_flags h) p"
  shows "h2_delivers m capacity w rest"
  using h2_frame_parts [OF assms(1-4), of rest] h2_header_roundtrip(1) [OF assms(1)] assms(2,3,5-7)
  by (auto simp: h2_delivers_def intro!: exI [of _ h])

lemma byte_weight:
  assumes "(x :: u16) \<noteq> 0" "x \<le> 256"
  shows "(ucast (ucast (x - 1) :: byte) :: u16) = x - 1"
proof -
  have "0 < unat x" using assms(1) by (simp add: unat_gt_0)
  then have "unat (x - 1) = unat x - 1" by (subst unat_sub) (simp_all add: word_le_nat_alt)
  then have "unat (x - 1) < 2 ^ 8" using assms(2) \<open>0 < unat x\<close> by (simp add: word_le_nat_alt)
  then show ?thesis
    by (simp add: word_unat_eq_iff unsigned_ucast_eq unsigned_take_bit_eq take_bit_nat_eq_self)
qed

lemma priority_bits:
  assumes "h2_validate_priority stream p = STATUS_SUCCESS"
  shows "h2_decode_priority_payload stream (h2_write_priority p) = Inr p" "length (h2_write_priority p) = 5"
proof -
  have c: "stream \<noteq> 0" "(stream AND 0x80000000) = 0" "(hp_dependency p AND 0x80000000) = 0"
      "hp_dependency p \<noteq> stream" "hp_weight p \<noteq> 0" "hp_weight p \<le> 256"
    using assms by (auto simp: h2_validate_priority_def split: if_splits)
  let ?d = "if hp_exclusive p then hp_dependency p OR 0x80000000 else hp_dependency p"
  have w: "h2_write_priority p = write_u32 ?d @ [ucast (hp_weight p - 1)]"
    using stream_bits [OF c(3)] by (simp add: h2_write_priority_def Let_def)
  show "length (h2_write_priority p) = 5" by (simp add: w)
  have "(ucast (ucast (hp_weight p - 1) :: byte) :: u16) = hp_weight p - 1"
    using byte_weight [OF c(5,6)] .
  then have weight: "ucast ((write_u32 ?d @ [ucast (hp_weight p - 1)]) ! 4) + 1 = hp_weight p"
    by (simp add: nth_append)
  have "?d AND 0x7fffffff = hp_dependency p AND 0x7fffffff"
    by (simp add: bit.conj_disj_distrib2)
  then have dep: "?d AND 0x7fffffff = hp_dependency p" using stream_bits [OF c(3)] by simp
  have ex: "((?d AND 0x80000000) \<noteq> 0) = hp_exclusive p"
    using c(3) by (simp add: bit.conj_disj_distrib2)
  have n: "write_u32 ?d @ [ucast (hp_weight p - 1)] \<noteq> []" by simp
  show "h2_decode_priority_payload stream (h2_write_priority p) = Inr p"
    unfolding w h2_decode_priority_payload_def Let_def read_write_u32 dep ex weight
    using c(1,2,4) by simp
qed

lemma delivers_data: "h2_encode_data i d es c = Inr w \<Longrightarrow> h2_delivers (MData i d es) c w rest"
  by (auto simp: h2_encode_data_def u32_of_length not_less h2_strip_padding_def h2_flag_defs status_simps
      split: if_splits intro!: h2_deliversI)

lemma delivers_headers:
  "h2_encode_headers i b es eh c = Inr w \<Longrightarrow> h2_delivers (MHeaders i b es eh) c w rest"
  by (auto simp: h2_encode_headers_def u32_of_length not_less h2_strip_padding_def h2_strip_priority_def
      h2_flag_defs status_simps split: if_splits intro!: h2_deliversI)

lemma delivers_priority_headers:
  assumes "h2_encode_headers_with_priority i b p es eh c = Inr w"
  shows "h2_delivers (MPriorityHeaders i b p es eh) c w rest"
proof -
  have v: "h2_validate_priority i p = STATUS_SUCCESS"
    using assms by (auto simp: h2_encode_headers_with_priority_def Let_def split: if_splits)
  note pb = priority_bits [OF v]
  let ?f = "h2_flag_priority OR (if es then h2_flag_end_stream else 0) OR (if eh then h2_flag_end_headers else 0)"
  obtain w0 where c: "length b \<le> unat Http2MaxAllowedFrameSize - 5"
      "Http2FrameHeaderLength + (5 + length b) \<le> c"
    and h: "h2_encode_frame_header \<lparr>hh_length = word_of_nat (5 + length b), hh_type = h2_type_byte H2Headers,
                       hh_flags = ?f, hh_stream = i\<rparr> c = Inr w0"
    and w: "w = w0 @ h2_write_priority p @ b"
    using assms by (auto simp: h2_encode_headers_with_priority_def Let_def v rbind_eq_Inr_iff not_less split: if_splits)
  have len: "unat (word_of_nat (5 + length b) :: u32) = 5 + length b"
    using c(1) by (intro u32_of_length) (simp add: Http2MaxAllowedFrameSize_def)
  have "h2_message_read (MPriorityHeaders i b p es eh) ?f (h2_write_priority p @ b)"
    using pb by (simp add: h2_strip_padding_def h2_strip_priority_def h2_flag_defs view_def)
  then show ?thesis
    by (intro h2_deliversI [OF h w]) (use c pb len in \<open>simp_all del: of_nat_add of_nat_numeral\<close>)
qed

lemma delivers_priority: "h2_encode_priority i p c = Inr w \<Longrightarrow> h2_delivers (MPriority i p) c w rest"
  by (auto simp: h2_encode_priority_def Let_def priority_bits status_simps split: if_splits intro!: h2_deliversI)

lemma delivers_rst: "h2_encode_rst_stream i e c = Inr w \<Longrightarrow> h2_delivers (MRstStream i e) c w rest"
  using read_write_u32 [of e "[]"]
  by (auto simp: h2_encode_rst_stream_def h2_decode_rst_stream_payload_def status_simps
      simp flip: length_greater_0_conv simp del: read_write_u32 split: if_splits intro!: h2_deliversI)

lemma settings_loop_step:
  "h2_decode_settings_loop (h2_write_setting i v @ rest) s =
     (case h2_apply_setting i v s of Inl err \<Rightarrow> (err, s) | Inr s' \<Rightarrow> h2_decode_settings_loop rest s')"
  using read_write_u32 [of v "[]"] read_write_u16 [of i "[]"]
  by (simp add: h2_write_setting_def write_u32_def write_u16_def del: read_write_u32 read_write_u16)

lemma delivers_settings:
  assumes "h2_encode_settings s c = Inr w"
  shows "h2_delivers (MSettings s) c w rest"
proof -
  let ?p = "h2_write_setting 1 (hs_header_table_size s) @ h2_write_setting 2 (hs_enable_push s)
     @ h2_write_setting 3 (hs_max_concurrent_streams s) @ h2_write_setting 4 (hs_initial_window_size s)
     @ h2_write_setting 5 (hs_max_frame_size s) @ h2_write_setting 6 (hs_max_header_list_size s)
     @ h2_write_setting 8 (hs_enable_connect_protocol s) @ []"
  obtain w0 where c: "Http2FrameHeaderLength + 42 \<le> c"
    and h: "h2_encode_frame_header \<lparr>hh_length = 42, hh_type = h2_type_byte H2Settings, hh_flags = 0, hh_stream = 0\<rparr> c = Inr w0"
    and w: "w = w0 @ ?p"
    using assms by (auto simp: h2_encode_settings_def rbind_eq_Inr_iff not_less split: if_splits)
  have len: "length ?p = 42" by (simp add: h2_write_setting_def)
  have "h2_decode_settings_loop ?p s0 = (STATUS_SUCCESS, s)" if "h2_settings_valid s" for s0
    using that unfolding settings_loop_step
    by (cases s; cases s0) (simp add: h2_apply_setting_def h2_settings_valid_def leD)
  moreover have "fst (h2_decode_settings_loop ?p s0) = STATUS_INVALID_NETWORK_RESPONSE" if "\<not> h2_settings_valid s" for s0
    using that unfolding settings_loop_step
    by (auto simp: h2_apply_setting_def h2_settings_valid_def not_le)
  ultimately have "h2_message_read (MSettings s) 0 ?p"
    using len by (simp add: h2_decode_settings_payload_def del: append_Nil2)
  then show ?thesis
    by (intro h2_deliversI [OF h w]) (use c len in simp_all)
qed

lemma delivers_settings_ack: "h2_encode_settings_ack c = Inr w \<Longrightarrow> h2_delivers MSettingsAck c w rest"
  by (auto simp: h2_encode_settings_ack_def h2_flag_defs status_simps split: if_splits
      intro!: h2_deliversI [where p = "[]"])

lemma delivers_ping:
  "h2_encode_ping d a c = Inr w \<Longrightarrow> length d = 8 \<Longrightarrow> h2_delivers (MPing d a) c w rest"
  by (auto simp: h2_encode_ping_def h2_flag_defs status_simps split: if_splits intro!: h2_deliversI)

lemma delivers_goaway: "h2_encode_goaway l e c = Inr w \<Longrightarrow> h2_delivers (MGoAway l e) c w rest"
  using read_write_u32 [of e "[]"]
  by (auto simp: h2_encode_goaway_def h2_decode_goaway_payload_def status_simps
      split: if_splits intro!: h2_deliversI)

lemma delivers_window_update:
  "h2_encode_window_update i n c = Inr w \<Longrightarrow> h2_delivers (MWindowUpdate i n) c w rest"
  using read_write_u32 [of "n AND 0x7fffffff" "[]"] u32_high_bit [of n]
  by (auto simp: h2_encode_window_update_def h2_decode_window_update_payload_def not_less status_simps
      simp flip: length_greater_0_conv split: if_splits intro!: h2_deliversI)

lemma delivers_continuation:
  "h2_encode_continuation i b eh c = Inr w \<Longrightarrow> h2_delivers (MContinuation i b eh) c w rest"
  by (auto simp: h2_encode_continuation_def u32_of_length not_less h2_flag_defs status_simps
      split: if_splits intro!: h2_deliversI)

text \<open>
  C34. Whatever message an HTTP/2 encoder accepts, the bytes it writes fit the destination and a
  receiver that decodes the frame header at the front of any byte stream starting with them finds
  the message's type and stream, a length that ends the frame exactly where the encoder stopped, and
  flags and a payload from which the payload decoders (padding, priority, settings, reset, goaway and
  window update) recover the message; with two exceptions: settings outside the limits of the protocol, which the
  encoder writes too, are refused, and the last stream of a goaway arrives without its reserved bit.
\<close>

theorem h2_message_roundtrip:
  assumes "h2_message_ok m" "h2_encode_message m capacity = Inr w"
  shows "h2_delivers m capacity w rest"
  using assms
  by (cases m) (simp_all add: delivers_data delivers_headers delivers_priority_headers delivers_priority
      delivers_rst delivers_settings delivers_settings_ack delivers_ping delivers_goaway
      delivers_window_update delivers_continuation)

lemma h2_message_roundtrip_witness:
  "h2_delivers (MWindowUpdate 3 1000) 100 [0, 0, 4, 8, 0, 0, 0, 0, 3, 0, 0, 3, 232] [1, 2]"
  by (rule h2_message_roundtrip)
    (simp_all add: h2_encode_window_update_def h2_encode_frame_header_def Http2FrameHeaderLength_def
      Http2MaxWindowSize_def Http2MaxAllowedFrameSize_def write_u24_def write_u32_def)

end
