(* ===== verification/Http2Stream.thy ===== *)
theory Http2Stream
  imports Http2Frame
begin

text \<open>
  The life cycle and the two flow control windows of an HTTP/2 stream,
  \<open>src/wknetlib/http2/Http2Stream.cpp\<close>. A \<open>LONG\<close> window is an integer in $[-2^{31}, 2^{31})$; a
  conversion to \<open>LONG\<close> and the (unguarded) \<open>LONG\<close> additions are written with \<open>to_long\<close>, the conversion
  to \<open>SIZE_T\<close> with \<open>long_to_size\<close>. The lemmas show that the windows account exactly for what was
  accepted and granted, and that the state is determined by what each side has sent.
\<close>

datatype h2_stream_state = H2Idle | H2Open | H2HalfClosedLocal | H2HalfClosedRemote | H2Closed

record h2_stream =
  h2s_id :: u32
  h2s_state :: h2_stream_state
  h2s_local :: int
  h2s_remote :: int

definition to_long :: "int \<Rightarrow> int" where
  "to_long i = sint (word_of_int i :: u32)"

definition long_to_size :: "int \<Rightarrow> nat" where
  "long_to_size i = nat (i mod 2 ^ 64)"

definition h2s_new :: h2_stream where
  "h2s_new = \<lparr>h2s_id = 0, h2s_state = H2Idle, h2s_local = to_long (uint Http2InitialWindowSize),
     h2s_remote = to_long (uint Http2InitialWindowSize)\<rparr>"

definition h2s_initialize :: "u32 \<Rightarrow> u32 \<Rightarrow> u32 \<Rightarrow> h2_stream \<Rightarrow> h2_stream" where
  "h2s_initialize streamId localWindow remoteWindow s =
     s\<lparr>h2s_id := streamId, h2s_state := H2Idle, h2s_local := to_long (uint localWindow),
       h2s_remote := to_long (uint remoteWindow)\<rparr>"

definition h2s_send_headers :: "bool \<Rightarrow> h2_stream \<Rightarrow> ntstatus \<times> h2_stream" where
  "h2s_send_headers endStream s =
     (case h2s_state s of
        H2Idle \<Rightarrow> (STATUS_SUCCESS, s\<lparr>h2s_state := (if endStream then H2HalfClosedLocal else H2Open)\<rparr>)
      | H2Open \<Rightarrow> (STATUS_SUCCESS, if endStream then s\<lparr>h2s_state := H2HalfClosedLocal\<rparr> else s)
      | H2HalfClosedRemote \<Rightarrow> (STATUS_SUCCESS, if endStream then s\<lparr>h2s_state := H2Closed\<rparr> else s)
      | _ \<Rightarrow> (STATUS_INVALID_DEVICE_STATE, s))"

definition h2s_send_data :: "nat \<Rightarrow> bool \<Rightarrow> h2_stream \<Rightarrow> ntstatus \<times> h2_stream" where
  "h2s_send_data len endStream s =
     (if h2s_state s \<noteq> H2Open \<and> h2s_state s \<noteq> H2HalfClosedRemote then (STATUS_INVALID_DEVICE_STATE, s)
      else if (len \<noteq> 0 \<and> h2s_remote s \<le> 0) \<or> len > long_to_size (h2s_remote s)
      then (STATUS_BUFFER_TOO_SMALL, s)
      else let s1 = s\<lparr>h2s_remote := to_long (h2s_remote s - to_long (int len))\<rparr>
           in (STATUS_SUCCESS,
               if endStream
               then s1\<lparr>h2s_state := (if h2s_state s1 = H2HalfClosedRemote then H2Closed else H2HalfClosedLocal)\<rparr>
               else s1))"

definition h2s_receive_headers :: "bool \<Rightarrow> h2_stream \<Rightarrow> ntstatus \<times> h2_stream" where
  "h2s_receive_headers endStream s =
     (case h2s_state s of
        H2Idle \<Rightarrow> (STATUS_SUCCESS, s\<lparr>h2s_state := (if endStream then H2HalfClosedRemote else H2Open)\<rparr>)
      | H2Open \<Rightarrow> (STATUS_SUCCESS, if endStream then s\<lparr>h2s_state := H2HalfClosedRemote\<rparr> else s)
      | H2HalfClosedLocal \<Rightarrow> (STATUS_SUCCESS, if endStream then s\<lparr>h2s_state := H2Closed\<rparr> else s)
      | _ \<Rightarrow> (STATUS_INVALID_DEVICE_STATE, s))"

definition h2s_receive_data :: "nat \<Rightarrow> bool \<Rightarrow> h2_stream \<Rightarrow> ntstatus \<times> h2_stream" where
  "h2s_receive_data len endStream s =
     (if h2s_state s \<noteq> H2Open \<and> h2s_state s \<noteq> H2HalfClosedLocal then (STATUS_INVALID_DEVICE_STATE, s)
      else if (len \<noteq> 0 \<and> h2s_local s \<le> 0) \<or> len > long_to_size (h2s_local s)
      then (STATUS_INVALID_NETWORK_RESPONSE, s)
      else let s1 = s\<lparr>h2s_local := to_long (h2s_local s - to_long (int len))\<rparr>
           in (STATUS_SUCCESS,
               if endStream
               then s1\<lparr>h2s_state := (if h2s_state s1 = H2HalfClosedLocal then H2Closed else H2HalfClosedRemote)\<rparr>
               else s1))"

definition h2s_increase_remote :: "u32 \<Rightarrow> h2_stream \<Rightarrow> ntstatus \<times> h2_stream" where
  "h2s_increase_remote increment s =
     (if increment = 0 then (STATUS_INVALID_PARAMETER, s)
      else if h2s_remote s > sint (Http2MaxWindowSize - increment) then (STATUS_INVALID_NETWORK_RESPONSE, s)
      else (STATUS_SUCCESS, s\<lparr>h2s_remote := to_long (h2s_remote s + sint increment)\<rparr>))"

text \<open>\<open>delta\<close> is a \<open>long long\<close>, as is the sum.\<close>

definition h2s_adjust_remote :: "int \<Rightarrow> h2_stream \<Rightarrow> ntstatus \<times> h2_stream" where
  "h2s_adjust_remote delta s =
     (let adjusted = sint (word_of_int (h2s_remote s + delta) :: 64 word)
      in if adjusted > uint Http2MaxWindowSize \<or> adjusted < - uint Http2MaxWindowSize
         then (STATUS_INVALID_NETWORK_RESPONSE, s)
         else (STATUS_SUCCESS, s\<lparr>h2s_remote := to_long adjusted\<rparr>))"

definition h2s_increase_local :: "u32 \<Rightarrow> h2_stream \<Rightarrow> ntstatus \<times> h2_stream" where
  "h2s_increase_local increment s =
     (if increment = 0 then (STATUS_INVALID_PARAMETER, s)
      else if h2s_local s > sint (Http2MaxWindowSize - increment) then (STATUS_INVALID_NETWORK_RESPONSE, s)
      else (STATUS_SUCCESS, s\<lparr>h2s_local := to_long (h2s_local s + sint increment)\<rparr>))"

definition h2s_reset :: "h2_stream \<Rightarrow> h2_stream" where
  "h2s_reset s = s\<lparr>h2s_id := 0, h2s_state := H2Idle, h2s_local := to_long (uint Http2InitialWindowSize),
     h2s_remote := to_long (uint Http2InitialWindowSize)\<rparr>"

definition h2s_close :: "h2_stream \<Rightarrow> h2_stream" where
  "h2s_close s = s\<lparr>h2s_state := H2Closed\<rparr>"

lemmas h2s_state_defs = h2s_send_headers_def h2s_send_data_def h2s_receive_headers_def h2s_receive_data_def
  h2s_increase_remote_def h2s_adjust_remote_def h2s_increase_local_def h2s_close_def Let_def

section \<open>Machine integers\<close>

lemma to_long_id [simp]: "- 2147483648 \<le> i \<Longrightarrow> i \<le> 2147483647 \<Longrightarrow> to_long i = i"
  by (simp add: to_long_def int_word_sint)

lemma long_to_size_nonneg [simp]: "0 \<le> i \<Longrightarrow> i \<le> 2147483647 \<Longrightarrow> long_to_size i = nat i"
  by (simp add: long_to_size_def)

lemma to_long_window: "w \<le> Http2MaxWindowSize \<Longrightarrow> to_long (uint w) = uint w"
  by (simp add: Http2MaxWindowSize_def word_le_def order_trans [OF _ uint_nonnegative])

lemma sint_increment:
  assumes "w \<le> Http2MaxWindowSize"
  shows "sint w = uint w" "sint (Http2MaxWindowSize - w) = 2 ^ 31 - 1 - uint w"
proof -
  have le: "uint w \<le> 2 ^ 31 - 1" using assms by (simp add: Http2MaxWindowSize_def word_le_def)
  have s: "sint (v :: u32) = to_long (uint v)" for v by (simp add: to_long_def)
  have pos: "- 2147483648 \<le> uint w" using uint_nonnegative [of w] by linarith
  show "sint w = uint w" using le pos by (simp add: s)
  have "uint (Http2MaxWindowSize - w) = 2 ^ 31 - 1 - uint w"
    using assms by (simp add: uint_sub_if' word_le_def Http2MaxWindowSize_def)
  then show "sint (Http2MaxWindowSize - w) = 2 ^ 31 - 1 - uint w" using le by (simp add: s)
qed


section \<open>Histories\<close>

datatype h2s_op =
    H2sSendHeaders bool
  | H2sSendData nat bool
  | H2sReceiveHeaders bool
  | H2sReceiveData nat bool
  | H2sIncreaseRemote u32
  | H2sAdjustRemote int
  | H2sIncreaseLocal u32
  | H2sClose

fun h2s_apply :: "h2s_op \<Rightarrow> h2_stream \<Rightarrow> ntstatus \<times> h2_stream" where
  "h2s_apply (H2sSendHeaders es) s = h2s_send_headers es s"
| "h2s_apply (H2sSendData n es) s = h2s_send_data n es s"
| "h2s_apply (H2sReceiveHeaders es) s = h2s_receive_headers es s"
| "h2s_apply (H2sReceiveData n es) s = h2s_receive_data n es s"
| "h2s_apply (H2sIncreaseRemote i) s = h2s_increase_remote i s"
| "h2s_apply (H2sAdjustRemote d) s = h2s_adjust_remote d s"
| "h2s_apply (H2sIncreaseLocal i) s = h2s_increase_local i s"
| "h2s_apply H2sClose s = (STATUS_SUCCESS, h2s_close s)"

text \<open>The log of a run: every operation with its status.\<close>

fun h2s_run :: "h2s_op list \<Rightarrow> h2_stream \<Rightarrow> (h2s_op \<times> ntstatus) list \<times> h2_stream" where
  "h2s_run [] s = ([], s)"
| "h2s_run (opn # ops) s =
     (case h2s_apply opn s of (st, s') \<Rightarrow> (case h2s_run ops s' of (log, s'') \<Rightarrow> ((opn, st) # log, s'')))"

text \<open>The accepted operations of a log.\<close>

definition h2s_accepted :: "(h2s_op \<times> ntstatus) list \<Rightarrow> h2s_op list" where
  "h2s_accepted log = map fst (filter (\<lambda>(opn, st). st = STATUS_SUCCESS) log)"

text \<open>
  What callers pass: increments come from a decoded WINDOW_UPDATE (at most $2^{31} - 1$), a delta is
  the difference of two \<open>ULONG\<close> settings.
\<close>

fun h2s_op_ok :: "h2s_op \<Rightarrow> bool" where
  "h2s_op_ok (H2sIncreaseRemote i) \<longleftrightarrow> i \<le> Http2MaxWindowSize"
| "h2s_op_ok (H2sIncreaseLocal i) \<longleftrightarrow> i \<le> Http2MaxWindowSize"
| "h2s_op_ok (H2sAdjustRemote d) \<longleftrightarrow> \<bar>d\<bar> < 2 ^ 32"
| "h2s_op_ok _ \<longleftrightarrow> True"

fun h2s_remote_change :: "h2s_op \<Rightarrow> int" where
  "h2s_remote_change (H2sSendData n _) = - int n"
| "h2s_remote_change (H2sIncreaseRemote i) = uint i"
| "h2s_remote_change (H2sAdjustRemote d) = d"
| "h2s_remote_change _ = 0"

fun h2s_local_change :: "h2s_op \<Rightarrow> int" where
  "h2s_local_change (H2sReceiveData n _) = - int n"
| "h2s_local_change (H2sIncreaseLocal i) = uint i"
| "h2s_local_change _ = 0"

definition h2s_windows_ok :: "h2_stream \<Rightarrow> bool" where
  "h2s_windows_ok s \<longleftrightarrow> - 2147483647 \<le> h2s_remote s \<and> h2s_remote s \<le> 2147483647
     \<and> 0 \<le> h2s_local s \<and> h2s_local s \<le> 2147483647"

lemma increased_window:
  assumes "- 2147483647 \<le> r" "\<not> 2 ^ 31 - 1 - uint (w :: u32) < r"
  shows "to_long (r + uint w) = r + uint w" "- 2147483647 \<le> r + uint w" "r + uint w \<le> 2147483647"
    "0 \<le> r \<Longrightarrow> 0 \<le> r + uint w"
proof -
  have a: "\<not> 2147483647 - uint w < r" using assms(2) by simp
  show lo: "- 2147483647 \<le> r + uint w" and hi: "r + uint w \<le> 2147483647" and "0 \<le> r \<Longrightarrow> 0 \<le> r + uint w"
    using assms(1) a uint_nonnegative [of w] by linarith+
  show "to_long (r + uint w) = r + uint w"
    by (rule to_long_id) (use lo hi in linarith)+
qed

lemma adjust_sum: "- 2147483648 \<le> r \<Longrightarrow> r \<le> 2147483647 \<Longrightarrow> \<bar>d\<bar> < 2 ^ 32 \<Longrightarrow>
  sint (word_of_int (r + d) :: 64 word) = r + d"
  by (simp add: int_word_sint del: of_int_add)

lemma send_data_cases:
  assumes "h2s_windows_ok s" "h2s_send_data n es s = (STATUS_SUCCESS, s')"
  shows "h2s_remote s' = h2s_remote s - int n \<and> h2s_local s' = h2s_local s
    \<and> (n \<noteq> 0 \<longrightarrow> int n \<le> h2s_remote s)"
proof (cases "n = 0")
  case True
  with assms show ?thesis
    by (auto simp: h2s_send_data_def h2s_windows_ok_def Let_def split: if_splits)
next
  case False
  with assms show ?thesis
    by (auto simp: h2s_send_data_def h2s_windows_ok_def Let_def not_less split: if_splits)
qed

lemma receive_data_cases:
  assumes "h2s_windows_ok s" "h2s_receive_data n es s = (STATUS_SUCCESS, s')"
  shows "h2s_local s' = h2s_local s - int n \<and> h2s_remote s' = h2s_remote s \<and> int n \<le> h2s_local s"
  using assms
  by (auto simp: h2s_receive_data_def h2s_windows_ok_def Let_def not_less split: if_splits)

lemma h2s_apply_windows:
  assumes "h2s_windows_ok s" "h2s_op_ok opn" "h2s_apply opn s = (STATUS_SUCCESS, s')"
  shows "h2s_windows_ok s' \<and> h2s_remote s' = h2s_remote s + h2s_remote_change opn
    \<and> h2s_local s' = h2s_local s + h2s_local_change opn"
proof (cases opn)
  case (H2sSendData n es)
  with assms send_data_cases [of s n es s'] show ?thesis by (auto simp: h2s_windows_ok_def)
next
  case (H2sReceiveData n es)
  with assms receive_data_cases [of s n es s'] show ?thesis by (auto simp: h2s_windows_ok_def)
next
  case (H2sIncreaseRemote i)
  with assms increased_window [of "h2s_remote s" i] show ?thesis
    by (auto simp: h2s_increase_remote_def h2s_windows_ok_def sint_increment split: if_splits)
next
  case (H2sIncreaseLocal i)
  with assms increased_window [of "h2s_local s" i] show ?thesis
    by (auto simp: h2s_increase_local_def h2s_windows_ok_def sint_increment split: if_splits)
next
  case (H2sAdjustRemote d)
  with assms adjust_sum [of "h2s_remote s" d] show ?thesis
    by (auto simp: h2s_adjust_remote_def h2s_windows_ok_def Let_def Http2MaxWindowSize_def split: if_splits)
qed (use assms in \<open>auto simp: h2s_send_headers_def h2s_receive_headers_def h2s_close_def h2s_windows_ok_def
      split: h2_stream_state.splits if_splits\<close>)

lemma h2s_apply_refused: "h2s_apply opn s = (st, s') \<Longrightarrow> st \<noteq> STATUS_SUCCESS \<Longrightarrow> s' = s"
  by (cases opn) (auto simp: h2s_state_defs split: h2_stream_state.splits if_splits)


lemma h2s_run_Nil [simp]: "h2s_accepted [] = []"
  by (simp add: h2s_accepted_def)

lemma h2s_accepted_Cons [simp]:
  "h2s_accepted ((opn, st) # log) = (if st = STATUS_SUCCESS then opn # h2s_accepted log else h2s_accepted log)"
  by (simp add: h2s_accepted_def)

text \<open>
  A run keeps whatever every accepted operation keeps, the accepted operations being all that
  matters: the step of an induction over runs.
\<close>

lemma h2s_run_induct [consumes 1, case_names Nil Accepted]:
  assumes "h2s_run ops s = (log, s')"
    and "\<And>s. Q s [] s"
    and "\<And>opn s s1 acc s'. opn \<in> set ops \<Longrightarrow> h2s_apply opn s = (STATUS_SUCCESS, s1) \<Longrightarrow> Q s1 acc s' \<Longrightarrow> Q s (opn # acc) s'"
  shows "Q s (h2s_accepted log) s'"
  using assms(1,3)
proof (induction ops arbitrary: s log)
  case Nil
  then show ?case by (simp add: assms(2))
next
  case (Cons opn ops)
  obtain st s1 where a: "h2s_apply opn s = (st, s1)" by fastforce
  obtain log1 s2 where r: "h2s_run ops s1 = (log1, s2)" by fastforce
  have l: "log = (opn, st) # log1" "s2 = s'" using Cons.prems(1) a r by auto
  have Q: "Q s1 (h2s_accepted log1) s'"
    using Cons.IH [OF r [unfolded l(2)]] Cons.prems(2) by (meson list.set_intros(2))
  show ?case
    using Q a Cons.prems(2) [of opn s s1] h2s_apply_refused [OF a] by (cases "st = STATUS_SUCCESS") (auto simp: l)
qed

lemma h2s_accepted_subset: "h2s_run ops s = (log, s') \<Longrightarrow> set (h2s_accepted log) \<subseteq> set ops"
  by (induction rule: h2s_run_induct) auto

lemma h2s_run_windows:
  assumes "h2s_run ops s = (log, s')"
  shows "h2s_windows_ok s \<longrightarrow> list_all h2s_op_ok (h2s_accepted log) \<longrightarrow>
      h2s_windows_ok s' \<and> h2s_remote s' = h2s_remote s + sum_list (map h2s_remote_change (h2s_accepted log))
        \<and> h2s_local s' = h2s_local s + sum_list (map h2s_local_change (h2s_accepted log))"
  using assms
proof (induction rule: h2s_run_induct)
  case (Accepted opn s s1 acc s')
  then show ?case using h2s_apply_windows [of s opn s1] by auto
qed simp

text \<open>
  C35. Over any sequence of operations on a stream whose windows start within the protocol's maximum,
  accepted and refused alike, each window is its initial value plus the accepted grants minus the
  accepted bytes. The receive window stays between 0 and $2^{31} - 1$, the send window (which a
  SETTINGS change can make negative) between $-(2^{31} - 1)$ and $2^{31} - 1$, so that no \<open>LONG\<close>
  addition overflows.
\<close>

theorem h2_windows_account:
  assumes "lw \<le> Http2MaxWindowSize" "rw \<le> Http2MaxWindowSize" "list_all h2s_op_ok ops"
    "h2s_run ops (h2s_initialize i lw rw s) = (log, s')"
  shows "h2s_remote s' = uint rw + sum_list (map h2s_remote_change (h2s_accepted log))
    \<and> h2s_local s' = uint lw + sum_list (map h2s_local_change (h2s_accepted log))
    \<and> \<bar>h2s_remote s'\<bar> \<le> 2147483647 \<and> 0 \<le> h2s_local s' \<and> h2s_local s' \<le> 2147483647"
proof -
  let ?s = "h2s_initialize i lw rw s"
  have "- 2147483647 \<le> uint rw" using uint_nonnegative [of rw] by linarith
  then have ok: "h2s_windows_ok ?s"
    using assms(1,2)
    by (auto simp: h2s_windows_ok_def h2s_initialize_def to_long_window Http2MaxWindowSize_def word_le_def)
  have acc: "list_all h2s_op_ok (h2s_accepted log)"
    using h2s_accepted_subset [OF assms(4)] assms(3) by (auto simp: list_all_iff)
  have "h2s_windows_ok s' \<and> h2s_remote s' = h2s_remote ?s + sum_list (map h2s_remote_change (h2s_accepted log))
        \<and> h2s_local s' = h2s_local ?s + sum_list (map h2s_local_change (h2s_accepted log))"
    using h2s_run_windows [OF assms(4)] ok acc by blast
  then show ?thesis
    using assms(1,2) by (auto simp: h2s_windows_ok_def h2s_initialize_def to_long_window)
qed

lemma h2_windows_account_witness:
  "\<exists>log s'. h2s_run [H2sSendHeaders False, H2sSendData 100 False, H2sAdjustRemote (- 65500),
       H2sSendData 1 True, H2sReceiveData 7 False] (h2s_initialize 1 65535 65535 h2s_new) = (log, s')
     \<and> h2s_remote s' = - 65 \<and> h2s_local s' = 65528"
proof -
  let ?ops = "[H2sSendHeaders False, H2sSendData 100 False, H2sAdjustRemote (- 65500), H2sSendData 1 True,
     H2sReceiveData 7 False]"
  obtain log s' where r: "h2s_run ?ops (h2s_initialize 1 65535 65535 h2s_new) = (log, s')" by fastforce
  have l: "h2s_accepted log = [H2sSendHeaders False, H2sSendData 100 False, H2sAdjustRemote (- 65500),
     H2sReceiveData 7 False]"
    using r by (auto simp: h2s_initialize_def h2s_state_defs Http2MaxWindowSize_def int_word_sint)
  have "h2s_remote s' = uint (65535 :: u32) + sum_list (map h2s_remote_change (h2s_accepted log))
    \<and> h2s_local s' = uint (65535 :: u32) + sum_list (map h2s_local_change (h2s_accepted log))"
    using h2_windows_account [OF _ _ _ r] by (simp add: Http2MaxWindowSize_def)
  with r show ?thesis by (simp add: l)
qed


section \<open>The life cycle\<close>

text \<open>What each side has sent, read off the accepted operations.\<close>

fun h2s_ends_local :: "h2s_op \<Rightarrow> bool" where
  "h2s_ends_local (H2sSendHeaders es) = es"
| "h2s_ends_local (H2sSendData _ es) = es"
| "h2s_ends_local _ = False"

fun h2s_ends_remote :: "h2s_op \<Rightarrow> bool" where
  "h2s_ends_remote (H2sReceiveHeaders es) = es"
| "h2s_ends_remote (H2sReceiveData _ es) = es"
| "h2s_ends_remote _ = False"

fun h2s_opens :: "h2s_op \<Rightarrow> bool" where
  "h2s_opens (H2sSendHeaders _) = True"
| "h2s_opens (H2sReceiveHeaders _) = True"
| "h2s_opens _ = False"

text \<open>The state the protocol assigns to a history.\<close>

definition h2s_history_state :: "h2s_op list \<Rightarrow> h2_stream_state" where
  "h2s_history_state acc =
     (let l = list_ex h2s_ends_local acc; r = list_ex h2s_ends_remote acc
      in if H2sClose \<in> set acc \<or> (l \<and> r) then H2Closed
         else if l then H2HalfClosedLocal
         else if r then H2HalfClosedRemote
         else if list_ex h2s_opens acc then H2Open else H2Idle)"

lemma h2s_initial_state [simp]: "h2s_state (h2s_initialize i lw rw s) = H2Idle"
  by (simp add: h2s_initialize_def)

lemma h2s_opened_history: "h2s_history_state acc = H2Idle \<longleftrightarrow>
    H2sClose \<notin> set acc \<and> \<not> list_ex h2s_ends_local acc \<and> \<not> list_ex h2s_ends_remote acc \<and> \<not> list_ex h2s_opens acc"
  by (auto simp: h2s_history_state_def Let_def)

lemma h2s_step_history:
  assumes "h2s_state s = h2s_history_state acc" "h2s_apply opn s = (STATUS_SUCCESS, s')"
  shows "h2s_state s' = h2s_history_state (acc @ [opn])"
  using assms
  by (cases opn)
    (auto simp: h2s_state_defs h2s_history_state_def split: h2_stream_state.splits if_splits)

lemma h2s_run_history:
  assumes "h2s_run ops s = (log, s')"
  shows "\<forall>acc. h2s_state s = h2s_history_state acc \<longrightarrow> h2s_state s' = h2s_history_state (acc @ h2s_accepted log)"
  using assms
proof (induction rule: h2s_run_induct)
  case (Accepted opn s s1 acc0 s')
  then show ?case using h2s_step_history by fastforce
qed simp

text \<open>The operations a history rules out.\<close>

fun h2s_forbidden :: "h2s_op list \<Rightarrow> h2s_op \<Rightarrow> bool" where
  "h2s_forbidden acc (H2sSendHeaders _) \<longleftrightarrow> H2sClose \<in> set acc \<or> list_ex h2s_ends_local acc"
| "h2s_forbidden acc (H2sSendData _ _) \<longleftrightarrow> H2sClose \<in> set acc \<or> list_ex h2s_ends_local acc
     \<or> \<not> (list_ex h2s_opens acc \<or> list_ex h2s_ends_remote acc)"
| "h2s_forbidden acc (H2sReceiveHeaders _) \<longleftrightarrow> H2sClose \<in> set acc \<or> list_ex h2s_ends_remote acc"
| "h2s_forbidden acc (H2sReceiveData _ _) \<longleftrightarrow> H2sClose \<in> set acc \<or> list_ex h2s_ends_remote acc
     \<or> \<not> (list_ex h2s_opens acc \<or> list_ex h2s_ends_local acc)"
| "h2s_forbidden acc _ \<longleftrightarrow> False"

lemma h2s_apply_forbidden:
  assumes "h2s_state s = h2s_history_state acc"
  shows "fst (h2s_apply opn s) = STATUS_INVALID_DEVICE_STATE \<longleftrightarrow> h2s_forbidden acc opn"
  using assms
  by (cases opn) (auto simp: h2s_state_defs h2s_history_state_def split: h2_stream_state.splits if_splits)

lemma h2s_run_split:
  assumes "h2s_run ops s = (log, s')" "log = pre @ (opn, st) # post"
  shows "\<exists>s1. h2s_run (map fst pre) s = (pre, s1) \<and> fst (h2s_apply opn s1) = st"
  using assms
proof (induction ops arbitrary: s log pre)
  case (Cons o1 ops)
  obtain st1 s1 where a: "h2s_apply o1 s = (st1, s1)" by fastforce
  obtain log1 s2 where r: "h2s_run ops s1 = (log1, s2)" by fastforce
  have l: "log = (o1, st1) # log1" "s2 = s'" using Cons.prems(1) a r by auto
  show ?case
  proof (cases pre)
    case Nil
    with Cons.prems(2) l a show ?thesis by auto
  next
    case (Cons x pre')
    with Cons.prems(2) l have p: "log1 = pre' @ (opn, st) # post" "x = (o1, st1)" by auto
    from Cons.IH [OF r [unfolded l(2)] p(1)] show ?thesis using a p(2) Cons by auto
  qed
qed auto

text \<open>
  C36. The state of a stream is always the one the protocol assigns to the operations it accepted:
  closed after both sides sent END_STREAM or after \<open>Close\<close>, half closed after one of them did, open
  once headers passed, idle before. At every point of a run an operation is refused with
  \<open>STATUS_INVALID_DEVICE_STATE\<close> exactly when the history before it forbids it: nothing is sent after
  the local END_STREAM, nothing received after the peer's, no data before the headers.
\<close>

theorem h2_lifecycle:
  assumes "h2s_run ops (h2s_initialize i lw rw s) = (log, s')" "log = pre @ (opn, st) # post"
  shows "h2s_state s' = h2s_history_state (h2s_accepted log)
    \<and> (st = STATUS_INVALID_DEVICE_STATE \<longleftrightarrow> h2s_forbidden (h2s_accepted pre) opn)"
proof -
  have i: "h2s_state (h2s_initialize i lw rw s) = h2s_history_state []" by (simp add: h2s_history_state_def)
  obtain s1 where r: "h2s_run (map fst pre) (h2s_initialize i lw rw s) = (pre, s1)" "fst (h2s_apply opn s1) = st"
    using h2s_run_split [OF assms] by blast
  have "h2s_state s1 = h2s_history_state (h2s_accepted pre)" using h2s_run_history [OF r(1)] i by fastforce
  from h2s_apply_forbidden [OF this, of opn] show ?thesis
    using h2s_run_history [OF assms(1)] i r(2) by fastforce
qed

lemma h2_lifecycle_witness:
  "\<exists>log s'. h2s_run [H2sSendHeaders True, H2sReceiveHeaders False, H2sSendData 0 False, H2sReceiveData 5 True]
       (h2s_initialize 1 100 100 h2s_new) = (log, s') \<and> h2s_state s' = H2Closed"
proof -
  let ?ops = "[H2sSendHeaders True, H2sReceiveHeaders False, H2sSendData 0 False, H2sReceiveData 5 True]"
  obtain log s' where r: "h2s_run ?ops (h2s_initialize 1 100 100 h2s_new) = (log, s')" by fastforce
  have l: "log = [] @ (H2sSendHeaders True, STATUS_SUCCESS) # [(H2sReceiveHeaders False, STATUS_SUCCESS),
      (H2sSendData 0 False, STATUS_INVALID_DEVICE_STATE), (H2sReceiveData 5 True, STATUS_SUCCESS)]"
    using r by (auto simp: h2s_initialize_def h2s_state_defs)
  have "h2s_state s' = h2s_history_state (h2s_accepted log)" using h2_lifecycle [OF r l] by blast
  with r show ?thesis by (simp add: l h2s_history_state_def)
qed

section \<open>The send window as a credit window\<close>

definition h2s_reserve :: "nat \<Rightarrow> h2_stream \<Rightarrow> ntstatus \<times> h2_stream" where
  "h2s_reserve n s = h2s_send_data n False s"

definition h2s_credit :: "h2_stream \<Rightarrow> nat" where
  "h2s_credit s = nat (h2s_remote s)"

interpretation h2s: credit_window h2s_reserve h2s_credit h2s_windows_ok
proof
  fix s s' :: h2_stream and n
  assume ok: "h2s_windows_ok s" and r: "h2s_reserve n s = (STATUS_SUCCESS, s')"
  from h2s_apply_windows [OF ok, of "H2sSendData n False" s'] send_data_cases [OF ok r [unfolded h2s_reserve_def]] r
  show "h2s_windows_ok s' \<and> n \<le> h2s_credit s \<and> h2s_credit s' = h2s_credit s - n"
    by (cases "n = 0") (auto simp: h2s_credit_def h2s_reserve_def)
next
  fix s s' :: h2_stream and n e
  assume ok: "h2s_windows_ok s" and "h2s_reserve n s = (e, s')" "e \<noteq> STATUS_SUCCESS"
  with h2s_apply_refused [of "H2sSendData n False" s e s'] show "h2s_windows_ok s' \<and> h2s_credit s' = h2s_credit s"
    by (simp add: h2s_reserve_def)
qed

lemma h2s_reservations:
  "h2s_windows_ok s \<Longrightarrow> reserve_all h2s_reserve ns s = (t, s') \<Longrightarrow> t + h2s_credit s' = h2s_credit s"
  using h2s.accepted_within_credit by blast

end
