(* ===== verification/Http3Frame.thy ===== *)
theory Http3Frame
  imports QuicVarInt
begin

text \<open>
  HTTP/3 frames, \<open>src/wknetlib/http3/Http3Frame.cpp\<close>: the parsers a stream feeds with whatever bytes
  have arrived (frame header, payload cursor, one-integer payloads, SETTINGS), the classification of
  frame types and settings, and which frames a stream may carry. The array \<open>Bytes\<close> with \<open>Count\<close> is the
  list of its used bytes, \<open>SeenIdentifiers\<close> with \<open>SeenCount\<close> likewise. The lemmas show that the parsers
  do not depend on how the bytes are cut into pieces and agree with decoding the whole input.
\<close>

section \<open>Codes\<close>

definition H3_NO_ERROR :: nat where "H3_NO_ERROR = 0x100"
definition H3_FRAME_UNEXPECTED :: nat where "H3_FRAME_UNEXPECTED = 0x105"
definition H3_FRAME_ERROR :: nat where "H3_FRAME_ERROR = 0x106"
definition H3_EXCESSIVE_LOAD :: nat where "H3_EXCESSIVE_LOAD = 0x107"
definition H3_SETTINGS_ERROR :: nat where "H3_SETTINGS_ERROR = 0x109"

datatype http3_frame_kind =
    H3Data | H3Headers | H3CancelPush | H3Settings | H3PushPromise | H3Goaway | H3MaxPushId
  | H3ReservedHttp2 | H3Unknown

datatype http3_setting_kind =
    QpackMaxTableCapacity | MaxFieldSectionSize | QpackBlockedStreams | EnableConnectProtocol | H3Datagram
  | SettingReservedHttp2 | SettingUnknown

datatype http3_stream_kind =
    RequestStream | ControlStream | PushStream | QpackEncoderStream | QpackDecoderStream | UnknownUnidirectional

datatype http3_role = H3Client | H3Server

definition is_reserved_http2_frame_type :: "nat \<Rightarrow> bool" where
  "is_reserved_http2_frame_type t \<longleftrightarrow> t = 2 \<or> t = 6 \<or> t = 8 \<or> t = 9"

definition is_reserved_http2_setting :: "nat \<Rightarrow> bool" where
  "is_reserved_http2_setting i \<longleftrightarrow> i \<ge> 2 \<and> i \<le> 5"

definition http3_classify_frame_type :: "nat \<Rightarrow> http3_frame_kind" where
  "http3_classify_frame_type t =
     (if t = 0 then H3Data else if t = 1 then H3Headers else if t = 3 then H3CancelPush
      else if t = 4 then H3Settings else if t = 5 then H3PushPromise else if t = 7 then H3Goaway
      else if t = 0x0d then H3MaxPushId
      else if is_reserved_http2_frame_type t then H3ReservedHttp2 else H3Unknown)"

definition http3_classify_setting :: "nat \<Rightarrow> http3_setting_kind" where
  "http3_classify_setting i =
     (if i = 1 then QpackMaxTableCapacity else if i = 6 then MaxFieldSectionSize
      else if i = 7 then QpackBlockedStreams else if i = 8 then EnableConnectProtocol
      else if i = 0x33 then H3Datagram
      else if is_reserved_http2_setting i then SettingReservedHttp2 else SettingUnknown)"

fun http3_placement_allowed :: "http3_frame_kind \<Rightarrow> http3_stream_kind \<Rightarrow> http3_role \<Rightarrow> bool" where
  "http3_placement_allowed H3Data s r = (s = RequestStream)"
| "http3_placement_allowed H3Headers s r = (s = RequestStream)"
| "http3_placement_allowed H3CancelPush s r = (s = ControlStream \<and> r = H3Client)"
| "http3_placement_allowed H3MaxPushId s r = (s = ControlStream \<and> r = H3Client)"
| "http3_placement_allowed H3Settings s r = (s = ControlStream)"
| "http3_placement_allowed H3Goaway s r = (s = ControlStream)"
| "http3_placement_allowed H3PushPromise s r = (s = RequestStream \<and> r = H3Server)"
| "http3_placement_allowed H3Unknown s r = (s = RequestStream \<or> s = ControlStream \<or> s = PushStream)"
| "http3_placement_allowed H3ReservedHttp2 s r = False"

definition http3_validate_frame_placement ::
    "http3_frame_kind \<Rightarrow> http3_stream_kind \<Rightarrow> http3_role \<Rightarrow> ntstatus \<times> nat" where
  "http3_validate_frame_placement k s r =
     (if \<not> http3_placement_allowed k s r then (STATUS_INVALID_NETWORK_RESPONSE, H3_FRAME_UNEXPECTED)
      else (STATUS_SUCCESS, H3_NO_ERROR))"

section \<open>Integers that arrive byte by byte\<close>

record varint_parser =
  vp_bytes :: bytes
  vp_expected :: nat
  vp_complete :: bool
  vp_value :: nat

definition vp_new :: varint_parser where
  "vp_new = \<lparr>vp_bytes = [], vp_expected = 0, vp_complete = False, vp_value = 0\<rparr>"

definition consume_varint_byte :: "byte \<Rightarrow> varint_parser \<Rightarrow> ntstatus \<times> varint_parser" where
  "consume_varint_byte b p =
     (if vp_complete p \<or> length (vp_bytes p) \<ge> 8 then (STATUS_INVALID_DEVICE_STATE, p)
      else let p0 = (if vp_bytes p = [] then p\<lparr>vp_expected := push_bit (drop_bit 6 (unat b)) 1\<rparr> else p);
               p1 = p0\<lparr>vp_bytes := vp_bytes p0 @ [b]\<rparr>
        in if length (vp_bytes p1) \<noteq> vp_expected p1 then (STATUS_SUCCESS, p1)
           else case quic_decode_varint (vp_bytes p1) of
                  Inl e \<Rightarrow> (e, p1)
                | Inr (v, consumed) \<Rightarrow>
                    if consumed \<noteq> length (vp_bytes p1)
                    then (STATUS_INVALID_NETWORK_RESPONSE, p1\<lparr>vp_value := v\<rparr>)
                    else (STATUS_SUCCESS, p1\<lparr>vp_value := v, vp_complete := True\<rparr>))"

section \<open>Frame header\<close>

record http3_frame_header =
  h3_type :: nat
  h3_length :: nat
  h3_kind :: http3_frame_kind

datatype http3_phase = PhaseType | PhaseLength | PhaseComplete | PhaseFailed

record http3_header_parser =
  hp_header :: http3_frame_header
  hp_varint :: varint_parser
  hp_phase :: http3_phase

definition http3_header_parser_new :: http3_header_parser where
  "http3_header_parser_new = \<lparr>hp_header = \<lparr>h3_type = 0, h3_length = 0, h3_kind = H3Unknown\<rparr>,
     hp_varint = vp_new, hp_phase = PhaseType\<rparr>"

definition http3_header_varint_done :: "http3_header_parser \<Rightarrow> http3_header_parser" where
  "http3_header_varint_done p =
     (let v = vp_value (hp_varint p)
      in if hp_phase p = PhaseType
         then p\<lparr>hp_header := (hp_header p)\<lparr>h3_type := v, h3_kind := http3_classify_frame_type v\<rparr>,
                hp_phase := PhaseLength, hp_varint := vp_new\<rparr>
         else p\<lparr>hp_header := (hp_header p)\<lparr>h3_length := v\<rparr>, hp_phase := PhaseComplete\<rparr>)"

fun http3_header_loop :: "bytes \<Rightarrow> nat \<Rightarrow> http3_header_parser \<Rightarrow> ntstatus \<times> nat \<times> http3_header_parser" where
  "http3_header_loop [] offset p = (STATUS_SUCCESS, offset, p)"
| "http3_header_loop (b # bs) offset p =
     (if hp_phase p = PhaseComplete then (STATUS_SUCCESS, offset, p)
      else case consume_varint_byte b (hp_varint p) of
             (st, vp) \<Rightarrow>
               if st \<noteq> STATUS_SUCCESS
               then (st, offset + 1, p\<lparr>hp_varint := vp, hp_phase := PhaseFailed\<rparr>)
               else if \<not> vp_complete vp then http3_header_loop bs (offset + 1) (p\<lparr>hp_varint := vp\<rparr>)
               else http3_header_loop bs (offset + 1) (http3_header_varint_done (p\<lparr>hp_varint := vp\<rparr>)))"

text \<open>The result is the status, \<open>*bytesConsumed\<close>, \<open>*complete\<close> and the parser.\<close>

definition http3_consume_frame_header ::
    "http3_header_parser \<Rightarrow> bytes \<Rightarrow> ntstatus \<times> nat \<times> bool \<times> http3_header_parser" where
  "http3_consume_frame_header p data =
     (if hp_phase p = PhaseFailed then (STATUS_INVALID_DEVICE_STATE, 0, False, p)
      else if hp_phase p = PhaseComplete then (STATUS_SUCCESS, 0, True, p)
      else case http3_header_loop data 0 p of
             (st, offset, p') \<Rightarrow>
               if st \<noteq> STATUS_SUCCESS then (st, offset, False, p')
               else (st, offset, hp_phase p' = PhaseComplete, p'))"

section \<open>Payloads\<close>

text \<open>The cursor is the number of bytes that remain.\<close>

definition http3_consume_frame_payload :: "nat \<Rightarrow> bytes \<Rightarrow> bytes \<times> nat \<times> bool \<times> nat" where
  "http3_consume_frame_payload remaining data =
     (let n = (if remaining < length data then remaining else length data)
      in (take n data, n, remaining - n = 0, remaining - n))"

record http3_single_parser =
  sv_varint :: varint_parser
  sv_remaining :: nat
  sv_complete :: bool
  sv_failed :: bool

definition http3_single_initialize :: "nat \<Rightarrow> http3_single_parser" where
  "http3_single_initialize payloadLength =
     \<lparr>sv_varint = vp_new, sv_remaining = payloadLength, sv_complete = False, sv_failed = False\<rparr>"

text \<open>A result: status, bytes consumed, complete, value, application error, parser.\<close>

type_synonym single_result = "ntstatus \<times> nat \<times> bool \<times> nat \<times> nat \<times> http3_single_parser"

definition single_fail :: "nat \<Rightarrow> http3_single_parser \<Rightarrow> single_result" where
  "single_fail offset p =
     (STATUS_INVALID_NETWORK_RESPONSE, offset, False, 0, H3_FRAME_ERROR, p\<lparr>sv_failed := True\<rparr>)"

definition single_rest :: "nat \<Rightarrow> http3_single_parser \<Rightarrow> single_result" where
  "single_rest offset p =
     (if sv_remaining p = 0 then single_fail offset p
      else (STATUS_SUCCESS, offset, False, 0, H3_NO_ERROR, p))"

fun http3_single_loop :: "bytes \<Rightarrow> nat \<Rightarrow> http3_single_parser \<Rightarrow> single_result" where
  "http3_single_loop [] offset p = single_rest offset p"
| "http3_single_loop (b # bs) offset p =
     (if sv_remaining p = 0 then single_rest offset p
      else case consume_varint_byte b (sv_varint p) of
             (st, vp) \<Rightarrow>
               let p1 = p\<lparr>sv_varint := vp, sv_remaining := sv_remaining p - 1\<rparr>
               in if st \<noteq> STATUS_SUCCESS then single_fail (offset + 1) p1
                  else if vp_complete vp
                  then (if sv_remaining p1 \<noteq> 0 then single_fail (offset + 1) p1
                        else (STATUS_SUCCESS, offset + 1, True, vp_value vp, H3_NO_ERROR, p1\<lparr>sv_complete := True\<rparr>))
                  else http3_single_loop bs (offset + 1) p1)"

definition http3_consume_single_value :: "http3_single_parser \<Rightarrow> bytes \<Rightarrow> single_result" where
  "http3_consume_single_value p data =
     (if sv_failed p then (STATUS_INVALID_DEVICE_STATE, 0, False, 0, H3_NO_ERROR, p)
      else if sv_complete p then (STATUS_SUCCESS, 0, True, vp_value (sv_varint p), H3_NO_ERROR, p)
      else if sv_remaining p = 0 then single_fail 0 p
      else http3_single_loop data 0 p)"

section \<open>SETTINGS\<close>

record http3_setting =
  st_identifier :: nat
  st_value :: nat
  st_kind :: http3_setting_kind

record http3_settings_parser =
  sp_varint :: varint_parser
  sp_remaining :: nat
  sp_current :: nat
  sp_seen :: "nat list"
  sp_capacity :: nat
  sp_reading_identifier :: bool
  sp_complete :: bool
  sp_failed :: bool

definition http3_settings_initialize :: "nat \<Rightarrow> nat \<Rightarrow> http3_settings_parser" where
  "http3_settings_initialize payloadLength capacity =
     \<lparr>sp_varint = vp_new, sp_remaining = payloadLength, sp_current = 0, sp_seen = [], sp_capacity = capacity,
      sp_reading_identifier = True, sp_complete = (payloadLength = 0), sp_failed = False\<rparr>"

text \<open>A result: status, bytes consumed, the setting that is ready, complete, application error, parser.\<close>

type_synonym settings_result = "ntstatus \<times> nat \<times> http3_setting option \<times> bool \<times> nat \<times> http3_settings_parser"

definition settings_fail :: "ntstatus \<Rightarrow> nat \<Rightarrow> nat \<Rightarrow> http3_settings_parser \<Rightarrow> settings_result" where
  "settings_fail st err offset p = (st, offset, None, False, err, p\<lparr>sp_failed := True\<rparr>)"

definition settings_rest :: "nat \<Rightarrow> http3_settings_parser \<Rightarrow> settings_result" where
  "settings_rest offset p =
     (if sp_remaining p = 0
      then (if \<not> sp_reading_identifier p \<or> vp_bytes (sp_varint p) \<noteq> []
            then settings_fail STATUS_INVALID_NETWORK_RESPONSE H3_FRAME_ERROR offset p
            else (STATUS_SUCCESS, offset, None, True, H3_NO_ERROR, p\<lparr>sp_complete := True\<rparr>))
      else (STATUS_SUCCESS, offset, None, False, H3_NO_ERROR, p))"

text \<open>A complete identifier and value.\<close>

definition settings_deliver :: "nat \<Rightarrow> http3_settings_parser \<Rightarrow> settings_result" where
  "settings_deliver offset p =
     (if sp_current p \<in> set (sp_seen p)
      then settings_fail STATUS_INVALID_NETWORK_RESPONSE H3_SETTINGS_ERROR offset p
      else if length (sp_seen p) \<ge> sp_capacity p
      then settings_fail STATUS_INSUFFICIENT_RESOURCES H3_EXCESSIVE_LOAD offset p
      else let kind = http3_classify_setting (sp_current p)
        in if kind = SettingReservedHttp2
           then settings_fail STATUS_INVALID_NETWORK_RESPONSE H3_SETTINGS_ERROR offset p
           else let done = (sp_remaining p = 0)
             in (STATUS_SUCCESS, offset,
                 Some \<lparr>st_identifier = sp_current p, st_value = vp_value (sp_varint p), st_kind = kind\<rparr>,
                 done, H3_NO_ERROR,
                 p\<lparr>sp_seen := sp_seen p @ [sp_current p], sp_reading_identifier := True, sp_varint := vp_new,
                   sp_complete := (sp_complete p \<or> done)\<rparr>))"

fun http3_settings_loop :: "bytes \<Rightarrow> nat \<Rightarrow> http3_settings_parser \<Rightarrow> settings_result" where
  "http3_settings_loop [] offset p = settings_rest offset p"
| "http3_settings_loop (b # bs) offset p =
     (if sp_remaining p = 0 then settings_rest offset p
      else case consume_varint_byte b (sp_varint p) of
             (st, vp) \<Rightarrow>
               let p1 = p\<lparr>sp_varint := vp, sp_remaining := sp_remaining p - 1\<rparr>
               in if st \<noteq> STATUS_SUCCESS
                  then settings_fail STATUS_INVALID_NETWORK_RESPONSE H3_FRAME_ERROR (offset + 1) p1
                  else if \<not> vp_complete vp then http3_settings_loop bs (offset + 1) p1
                  else if sp_reading_identifier p1
                  then http3_settings_loop bs (offset + 1)
                         (p1\<lparr>sp_current := vp_value vp, sp_reading_identifier := False, sp_varint := vp_new\<rparr>)
                  else settings_deliver (offset + 1) p1)"

definition http3_consume_settings :: "http3_settings_parser \<Rightarrow> bytes \<Rightarrow> settings_result" where
  "http3_consume_settings p data =
     (if sp_failed p then (STATUS_INVALID_DEVICE_STATE, 0, None, False, H3_NO_ERROR, p)
      else if sp_complete p then (STATUS_SUCCESS, 0, None, True, H3_NO_ERROR, p)
      else http3_settings_loop data 0 p)"

section \<open>One integer\<close>

definition varint_need :: "byte \<Rightarrow> nat" where
  "varint_need b = push_bit (drop_bit 6 (unat b)) 1"

lemma varint_need_bounds: "0 < varint_need b \<and> varint_need b \<le> 8"
proof -
  have "drop_bit 6 (unat b) < 4" by (simp add: drop_bit_eq_div less_mult_imp_div_less)
  then have "drop_bit 6 (unat b) \<in> {0, 1, 2, 3}" by auto
  then show ?thesis unfolding varint_need_def by (auto simp: push_bit_eq_mult)
qed

lemma quic_decode_varint_need:
  "bs \<noteq> [] \<Longrightarrow> quic_decode_varint bs = (if length bs < varint_need (hd bs) then Inl STATUS_BUFFER_TOO_SMALL
     else Inr (fst (projr (quic_decode_varint bs)), varint_need (hd bs)))"
  by (cases bs) (auto simp: quic_decode_varint_def varint_need_def Let_def)

text \<open>The parser has read \<open>xs\<close>, a proper beginning of an integer.\<close>

definition vp_read :: "bytes \<Rightarrow> varint_parser \<Rightarrow> bool" where
  "vp_read xs p \<longleftrightarrow> vp_bytes p = xs \<and> \<not> vp_complete p
     \<and> (xs \<noteq> [] \<longrightarrow> vp_expected p = varint_need (hd xs) \<and> length xs < varint_need (hd xs))"

lemma vp_read_new [simp]: "vp_read [] vp_new"
  by (simp add: vp_read_def vp_new_def)

lemma consume_varint_byte_read:
  assumes "vp_read xs p"
  obtains (more) p' where "consume_varint_byte b p = (STATUS_SUCCESS, p')" "vp_read (xs @ [b]) p'"
      "\<not> vp_complete p'" "length (xs @ [b]) < varint_need (hd (xs @ [b]))"
  | (complete) p' where "consume_varint_byte b p = (STATUS_SUCCESS, p')" "vp_complete p'"
      "length (xs @ [b]) = varint_need (hd (xs @ [b]))"
      "quic_decode_varint (xs @ [b]) = Inr (vp_value p', length (xs @ [b]))"
proof -
  let ?ys = "xs @ [b]"
  have len: "length xs < 8" and p: "vp_bytes p = xs" "\<not> vp_complete p"
    using assms varint_need_bounds [of "hd xs"] by (auto simp: vp_read_def)
  have need: "vp_expected (if xs = [] then p\<lparr>vp_expected := varint_need b\<rparr> else p) = varint_need (hd ?ys)"
    using assms by (auto simp: vp_read_def)
  have le: "length ?ys \<le> varint_need (hd ?ys)"
    using assms varint_need_bounds [of b] by (cases xs) (auto simp: vp_read_def)
  let ?p1 = "(if xs = [] then p\<lparr>vp_expected := varint_need b\<rparr> else p)\<lparr>vp_bytes := ?ys\<rparr>"
  show thesis
  proof (cases "length ?ys = varint_need (hd ?ys)")
    case True
    then obtain v where d: "quic_decode_varint ?ys = Inr (v, length ?ys)"
      using quic_decode_varint_need [of ?ys] by auto
    have "consume_varint_byte b p = (STATUS_SUCCESS, ?p1\<lparr>vp_value := v, vp_complete := True\<rparr>)"
      using len p need True d by (auto simp: consume_varint_byte_def [folded varint_need_def] Let_def)
    then show ?thesis using complete True d by fastforce
  next
    case False
    have "consume_varint_byte b p = (STATUS_SUCCESS, ?p1)"
      using len p need False by (auto simp: consume_varint_byte_def [folded varint_need_def] Let_def)
    then show ?thesis using more [of ?p1] False le need p by (auto simp: vp_read_def)
  qed
qed

text \<open>What the parser makes of bytes that follow, in one go.\<close>

lemma quic_decode_varint_append:
  assumes "quic_decode_varint xs = Inr (v, n)"
  shows "quic_decode_varint (xs @ ys) = Inr (v, n)"
proof -
  obtain k where k: "k < 4" "n = 2 ^ k" "v < varint_limit (2 ^ k)" "take n xs = varint_bytes k v"
    using assms by (rule quic_decode_varint_inv)
  have e: "xs @ ys = varint_bytes k v @ (drop n xs @ ys)"
    using k(4) by (metis append.assoc append_take_drop_id)
  show ?thesis unfolding e using quic_decode_varint_bytes [OF k(1,3), of "drop n xs @ ys"] k(2) by simp
qed

lemma quic_decode_varint_short: "vp_read xs p \<Longrightarrow> \<exists>e. quic_decode_varint xs = Inl e"
  by (cases xs) (auto simp: vp_read_def quic_decode_varint_def varint_need_def Let_def)

section \<open>The frame header\<close>

lemma header_loop_shift:
  "http3_header_loop data (offset + k) p =
     (case http3_header_loop data offset p of (st, n, p') \<Rightarrow> (st, n + k, p'))"
proof (induction data offset p rule: http3_header_loop.induct)
  case (2 b bs offset p)
  then show ?case by (auto split: prod.splits simp: add.commute [of k] simp flip: add_Suc)
qed simp

lemma header_loop_append:
  "http3_header_loop (xs @ ys) offset p =
     (case http3_header_loop xs offset p of (st, n, p') \<Rightarrow>
        if st \<noteq> STATUS_SUCCESS then (st, n, p') else http3_header_loop ys n p')"
proof (induction xs offset p rule: http3_header_loop.induct)
  case (2 b bs offset p)
  then show ?case by (cases ys) (auto split: prod.splits)
qed simp

text \<open>The outcome of a call: status and \<open>*complete\<close>.\<close>

definition http3_header_feed ::
    "http3_header_parser \<Rightarrow> bytes \<Rightarrow> (ntstatus \<times> bool) \<times> nat \<times> http3_header_parser" where
  "http3_header_feed p data =
     (case http3_consume_frame_header p data of (st, n, complete, p') \<Rightarrow> ((st, complete), n, p'))"

definition stopped :: "ntstatus \<times> bool \<Rightarrow> bool" where
  "stopped r \<longleftrightarrow> fst r \<noteq> STATUS_SUCCESS \<or> snd r"

definition http3_header_ready :: "http3_header_parser \<Rightarrow> bool" where
  "http3_header_ready p \<longleftrightarrow> hp_phase p = PhaseType \<or> hp_phase p = PhaseLength"

lemma header_loop_phase:
  "http3_header_loop data offset p = (st, n, p') \<Longrightarrow> hp_phase p \<noteq> PhaseFailed \<Longrightarrow>
     (st = STATUS_SUCCESS \<longleftrightarrow> hp_phase p' \<noteq> PhaseFailed)"
proof (induction data offset p rule: http3_header_loop.induct)
  case (2 b bs offset p)
  then show ?case by (auto split: prod.splits if_splits simp: http3_header_varint_done_def Let_def)
qed auto

lemma header_loop_complete: "hp_phase p = PhaseComplete \<Longrightarrow> http3_header_loop data offset p = (STATUS_SUCCESS, offset, p)"
  by (cases data) auto

interpretation http3_header: incremental http3_header_feed stopped http3_header_ready
proof
  fix p p' :: http3_header_parser and xs ys :: bytes and r n
  assume ready: "http3_header_ready p" and f: "http3_header_feed p xs = (r, n, p')"
  obtain st n1 p1 where l: "http3_header_loop xs 0 p = (st, n1, p1)" by (metis prod_cases3)
  have ph: "hp_phase p \<noteq> PhaseFailed" "hp_phase p \<noteq> PhaseComplete"
    using ready by (auto simp: http3_header_ready_def)
  have p1: "p' = p1" "n = n1" "r = (st, st = STATUS_SUCCESS \<and> hp_phase p1 = PhaseComplete)"
    using f l ph by (auto simp: http3_header_feed_def http3_consume_frame_header_def split: if_splits)
  have st: "st = STATUS_SUCCESS \<longleftrightarrow> hp_phase p1 \<noteq> PhaseFailed"
    by (rule header_loop_phase [OF l ph(1)])
  then show "\<not> stopped r \<Longrightarrow> http3_header_ready p'"
    by (cases "hp_phase p1") (auto simp: stopped_def p1 http3_header_ready_def)
  show "http3_header_feed p (xs @ ys) = (if stopped r then (r, n, p')
      else (case http3_header_feed p' ys of (r', n', p'') \<Rightarrow> (r', n + n', p'')))"
    using l ph st header_loop_shift [of ys 0 n1 p1]
    by (auto simp: http3_header_feed_def http3_consume_frame_header_def header_loop_append p1 stopped_def
        header_loop_complete split: prod.splits)
qed

lemma header_loop_varint:
  assumes "vp_read xs (hp_varint p)" "http3_header_ready p"
  shows "case quic_decode_varint (xs @ data) of
     Inl e \<Rightarrow> \<exists>p'. http3_header_loop data offset p = (STATUS_SUCCESS, offset + length data, p') \<and> hp_phase p' = hp_phase p
   | Inr (v, n) \<Rightarrow> length xs < n \<and> n \<le> length xs + length data \<and> (\<exists>vp. vp_value vp = v \<and>
       http3_header_loop data offset p = http3_header_loop (drop (n - length xs) data) (offset + (n - length xs))
         (http3_header_varint_done (p\<lparr>hp_varint := vp\<rparr>)))"
  using assms
proof (induction data arbitrary: xs p offset)
  case Nil
  then show ?case using quic_decode_varint_short [OF Nil.prems(1)] by auto
next
  case (Cons b data)
  have ph: "hp_phase p \<noteq> PhaseComplete" using Cons.prems(2) by (auto simp: http3_header_ready_def)
  show ?case
  proof (cases rule: consume_varint_byte_read [OF Cons.prems(1), of b, case_names more complete])
    case (more vp)
    let ?p = "p\<lparr>hp_varint := vp\<rparr>"
    have eq: "http3_header_loop (b # data) offset p = http3_header_loop data (offset + 1) ?p"
      using ph more by simp
    have ready: "http3_header_ready ?p" using Cons.prems(2) by (simp add: http3_header_ready_def)
    have read: "vp_read (xs @ [b]) (hp_varint ?p)" using more(2) by simp
    note IH = Cons.IH [OF read ready, of "offset + 1"]
    have shift: "drop (n - length xs) (b # data) = drop (n - length (xs @ [b])) data
        \<and> offset + (n - length xs) = offset + 1 + (n - length (xs @ [b]))" if "length (xs @ [b]) < n" for n
      using that drop_Cons_diff [of "length xs" n b data] by simp
    show ?thesis unfolding eq
    proof (cases "quic_decode_varint (xs @ b # data)")
      case (Inl e)
      with IH show "case quic_decode_varint (xs @ b # data) of
          Inl e \<Rightarrow> \<exists>p'. http3_header_loop data (offset + 1) ?p = (STATUS_SUCCESS, offset + length (b # data), p')
            \<and> hp_phase p' = hp_phase p
        | Inr (v, n) \<Rightarrow> length xs < n \<and> n \<le> length xs + length (b # data) \<and> (\<exists>vp. vp_value vp = v \<and>
            http3_header_loop data (offset + 1) ?p = http3_header_loop (drop (n - length xs) (b # data))
              (offset + (n - length xs)) (http3_header_varint_done (p\<lparr>hp_varint := vp\<rparr>)))" by simp
    next
      case (Inr vn)
      obtain v n where vn: "vn = (v, n)" by fastforce
      have "length (xs @ [b]) < n" using IH Inr vn by simp
      from shift [OF this] IH Inr vn show "case quic_decode_varint (xs @ b # data) of
          Inl e \<Rightarrow> \<exists>p'. http3_header_loop data (offset + 1) ?p = (STATUS_SUCCESS, offset + length (b # data), p')
            \<and> hp_phase p' = hp_phase p
        | Inr (v, n) \<Rightarrow> length xs < n \<and> n \<le> length xs + length (b # data) \<and> (\<exists>vp. vp_value vp = v \<and>
            http3_header_loop data (offset + 1) ?p = http3_header_loop (drop (n - length xs) (b # data))
              (offset + (n - length xs)) (http3_header_varint_done (p\<lparr>hp_varint := vp\<rparr>)))" by auto
    qed
  next
    case (complete vp)
    have d: "quic_decode_varint (xs @ b # data) = Inr (vp_value vp, length xs + 1)"
      using quic_decode_varint_append [OF complete(4), of data] by simp
    have "http3_header_loop (b # data) offset p =
        http3_header_loop data (offset + 1) (http3_header_varint_done (p\<lparr>hp_varint := vp\<rparr>))"
      using ph complete by simp
    then show ?thesis by (auto simp: d)
  qed
qed

text \<open>The header read off the whole input: two integers.\<close>

definition http3_read_header :: "bytes \<Rightarrow> (nat \<times> nat \<times> nat) option" where
  "http3_read_header data =
     (case quic_decode_varint data of
        Inl _ \<Rightarrow> None
      | Inr (t, n) \<Rightarrow> (case quic_decode_varint (drop n data) of Inl _ \<Rightarrow> None | Inr (l, m) \<Rightarrow> Some (t, l, n + m)))"

lemma http3_header_once:
  assumes "http3_header_feed http3_header_parser_new data = (r, n, p)"
  shows "case http3_read_header data of
      None \<Rightarrow> r = (STATUS_SUCCESS, False) \<and> n = length data
    | Some (t, l, k) \<Rightarrow> r = (STATUS_SUCCESS, True) \<and> n = k
        \<and> hp_header p = \<lparr>h3_type = t, h3_length = l, h3_kind = http3_classify_frame_type t\<rparr>"
proof -
  let ?p0 = "http3_header_parser_new"
  have p0: "vp_read [] (hp_varint ?p0)" "http3_header_ready ?p0" "hp_phase ?p0 = PhaseType"
    by (simp_all add: http3_header_parser_new_def http3_header_ready_def)
  have f: "(r, n, p) = (case http3_header_loop data 0 ?p0 of (st, k, p') \<Rightarrow>
      if st \<noteq> STATUS_SUCCESS then ((st, False), k, p') else ((st, hp_phase p' = PhaseComplete), k, p'))"
    using assms p0(3) by (auto simp: http3_header_feed_def http3_consume_frame_header_def split: prod.splits if_splits)
  note first = header_loop_varint [OF p0(1,2), of data 0]
  show ?thesis
  proof (cases "quic_decode_varint data")
    case (Inl e)
    with first f p0(3) show ?thesis by (auto simp: http3_read_header_def)
  next
    case (Inr tn)
    obtain t k where tn: "tn = (t, k)" by fastforce
    with first Inr obtain vp where vp: "vp_value vp = t" "k \<le> length data"
        "http3_header_loop data 0 ?p0 = http3_header_loop (drop k data) k (http3_header_varint_done (?p0\<lparr>hp_varint := vp\<rparr>))"
      by auto
    let ?p1 = "http3_header_varint_done (?p0\<lparr>hp_varint := vp\<rparr>)"
    have p1: "vp_read [] (hp_varint ?p1)" "http3_header_ready ?p1" "hp_phase ?p1 = PhaseLength"
        "h3_type (hp_header ?p1) = t" "h3_kind (hp_header ?p1) = http3_classify_frame_type t"
      using vp(1) by (auto simp: http3_header_varint_done_def http3_header_parser_new_def http3_header_ready_def Let_def)
    note second = header_loop_varint [OF p1(1,2), of "drop k data" k]
    show ?thesis
    proof (cases "quic_decode_varint (drop k data)")
      case (Inl e)
      with second f vp p1(3) tn Inr show ?thesis by (auto simp: http3_read_header_def \<open>quic_decode_varint data = Inr tn\<close>)
    next
      case (Inr lm)
      obtain l m where lm: "lm = (l, m)" by fastforce
      with second Inr obtain vp2 where vp2: "vp_value vp2 = l"
          "http3_header_loop (drop k data) k ?p1
            = http3_header_loop (drop m (drop k data)) (k + m) (http3_header_varint_done (?p1\<lparr>hp_varint := vp2\<rparr>))"
        by auto
      have "hp_phase (http3_header_varint_done (?p1\<lparr>hp_varint := vp2\<rparr>)) = PhaseComplete"
        using p1(3) by (simp add: http3_header_varint_done_def Let_def)
      with f vp vp2 show ?thesis
        using p1(3-5) by (auto simp: http3_read_header_def \<open>quic_decode_varint data = Inr tn\<close> Inr tn lm
            header_loop_complete) (simp add: http3_header_varint_done_def Let_def)
    qed
  qed
qed

text \<open>
  C37. However the bytes of a stream are cut into pieces, the frame header parser reports a complete
  header exactly when the bytes so far start with two integers, then has the first as the type (with
  its kind) and the second as the length, and has used exactly their bytes; otherwise it has used
  everything and waits. It never fails.
\<close>

theorem http3_header_any_pieces:
  "case feed_pieces http3_header_feed stopped http3_header_parser_new pieces of (r, n, p) \<Rightarrow>
     (case http3_read_header (concat pieces) of
        None \<Rightarrow> r = (STATUS_SUCCESS, False) \<and> n = length (concat pieces)
      | Some (t, l, k) \<Rightarrow> r = (STATUS_SUCCESS, True) \<and> n = k
          \<and> hp_header p = \<lparr>h3_type = t, h3_length = l, h3_kind = http3_classify_frame_type t\<rparr>)"
proof -
  have "http3_header_ready http3_header_parser_new"
    by (simp add: http3_header_ready_def http3_header_parser_new_def)
  from http3_header.pieces_irrelevant [OF this, of pieces] show ?thesis
    using http3_header_once by (auto split: prod.splits)
qed

section \<open>All settings of a frame\<close>

text \<open>
  The caller calls the parser until it stops or has used the piece, and collects what is ready. An
  outcome is the status, \<open>*complete\<close> and the application error.
\<close>

type_synonym settings_outcome = "ntstatus \<times> bool \<times> nat"

definition settings_stopped :: "settings_outcome \<Rightarrow> bool" where
  "settings_stopped r \<longleftrightarrow> fst r \<noteq> STATUS_SUCCESS \<or> fst (snd r)"

definition settings_ready :: "http3_settings_parser \<times> http3_setting list \<Rightarrow> bool" where
  "settings_ready s \<longleftrightarrow> \<not> sp_failed (fst s) \<and> \<not> sp_complete (fst s)"

abbreviation opt_list :: "'a option \<Rightarrow> 'a list" where
  "opt_list x \<equiv> (case x of None \<Rightarrow> [] | Some y \<Rightarrow> [y])"

lemma settings_rest_cases:
  "settings_rest offset p = (st, n, so, complete, err, p') \<Longrightarrow> n = offset \<and> so = None"
  by (auto simp: settings_rest_def settings_fail_def split: if_splits)

lemma settings_deliver_cases:
  "settings_deliver offset p = (st, n, so, complete, err, p') \<Longrightarrow> n = offset"
  by (auto simp: settings_deliver_def settings_fail_def Let_def split: if_splits)

lemma settings_loop_consumes:
  "http3_settings_loop data offset p = (st, n, so, complete, err, p') \<Longrightarrow>
     offset \<le> n \<and> n \<le> offset + length data \<and> (so \<noteq> None \<longrightarrow> offset < n)"
proof (induction data arbitrary: offset p)
  case Nil
  then show ?case using settings_rest_cases by fastforce
next
  case (Cons b bs)
  obtain st1 vp where c: "consume_varint_byte b (sp_varint p) = (st1, vp)" by fastforce
  show ?case
  proof (cases "sp_remaining p = 0")
    case True
    with Cons.prems settings_rest_cases show ?thesis by fastforce
  next
    case False
    with Cons.prems c show ?thesis
      by (auto simp: Let_def settings_fail_def dest!: settings_deliver_cases Cons.IH split: if_splits)
  qed
qed

function settings_drive ::
    "http3_settings_parser \<times> http3_setting list \<Rightarrow> bytes
      \<Rightarrow> settings_outcome \<times> nat \<times> (http3_settings_parser \<times> http3_setting list)" where
  "settings_drive s data =
     (case http3_consume_settings (fst s) data of
        (st, n, so, complete, err, p') \<Rightarrow>
          let s' = (p', snd s @ opt_list so)
          in if st \<noteq> STATUS_SUCCESS \<or> complete \<or> so = None then ((st, complete, err), n, s')
             else (case settings_drive s' (drop n data) of (r, m, s'') \<Rightarrow> (r, n + m, s'')))"
  by pat_completeness auto

termination
  by (relation "measure (\<lambda>(s, data). length data)")
    (auto simp: http3_consume_settings_def dest!: sym [of _ "http3_settings_loop _ _ _"] settings_loop_consumes split: if_splits)

declare settings_drive.simps [simp del]

text \<open>The same, byte by byte.\<close>

definition settings_step :: "nat \<Rightarrow> http3_settings_parser \<Rightarrow> http3_setting list \<Rightarrow>
    (settings_outcome \<times> nat \<times> (http3_settings_parser \<times> http3_setting list)) + (http3_settings_parser \<times> http3_setting list)" where
  "settings_step offset p acc =
     (if sp_reading_identifier p
      then Inr (p\<lparr>sp_current := vp_value (sp_varint p), sp_reading_identifier := False, sp_varint := vp_new\<rparr>, acc)
      else case settings_deliver offset p of
             (st, n, so, complete, err, p') \<Rightarrow>
               if st \<noteq> STATUS_SUCCESS \<or> complete then Inl ((st, complete, err), offset, (p', acc @ opt_list so))
               else Inr (p', acc @ opt_list so))"

definition settings_end :: "nat \<Rightarrow> http3_settings_parser \<Rightarrow> http3_setting list \<Rightarrow>
    settings_outcome \<times> nat \<times> (http3_settings_parser \<times> http3_setting list)" where
  "settings_end offset p acc =
     (case settings_rest offset p of (st, n, so, complete, err, p') \<Rightarrow> ((st, complete, err), n, (p', acc)))"

fun settings_bytes :: "bytes \<Rightarrow> nat \<Rightarrow> http3_settings_parser \<Rightarrow> http3_setting list \<Rightarrow>
    settings_outcome \<times> nat \<times> (http3_settings_parser \<times> http3_setting list)" where
  "settings_bytes [] offset p acc = settings_end offset p acc"
| "settings_bytes (b # bs) offset p acc =
     (if sp_remaining p = 0 then settings_end offset p acc
      else case consume_varint_byte b (sp_varint p) of
             (st, vp) \<Rightarrow>
               let p1 = p\<lparr>sp_varint := vp, sp_remaining := sp_remaining p - 1\<rparr>
               in if st \<noteq> STATUS_SUCCESS
                  then ((STATUS_INVALID_NETWORK_RESPONSE, False, H3_FRAME_ERROR), offset + 1, (p1\<lparr>sp_failed := True\<rparr>, acc))
                  else if \<not> vp_complete vp then settings_bytes bs (offset + 1) p1 acc
                  else case settings_step (offset + 1) p1 acc of
                         Inl r \<Rightarrow> r
                       | Inr (p2, acc2) \<Rightarrow> settings_bytes bs (offset + 1) p2 acc2)"

lemma settings_bytes_shift:
  "settings_bytes data (offset + k) p acc =
     (case settings_bytes data offset p acc of (r, n, s) \<Rightarrow> (r, n + k, s))"
proof (induction data offset p acc rule: settings_bytes.induct)
  case (1 offset p acc)
  then show ?case by (simp add: settings_end_def settings_rest_def settings_fail_def)
next
  case (2 b bs offset p acc)
  then show ?case
    by (auto simp: settings_end_def settings_rest_def settings_fail_def Let_def settings_step_def
        settings_deliver_def split: prod.splits)
qed

lemma settings_rest_open:
  "settings_rest offset p = (STATUS_SUCCESS, n, so, False, err, p') \<Longrightarrow> p' = p"
  by (auto simp: settings_rest_def settings_fail_def split: if_splits)

lemma settings_deliver_open:
  "settings_deliver offset p = (STATUS_SUCCESS, n, so, False, err, p') \<Longrightarrow>
     sp_failed p' = sp_failed p \<and> sp_complete p' = sp_complete p \<and> sp_remaining p' = sp_remaining p
     \<and> sp_remaining p \<noteq> 0"
  by (auto simp: settings_deliver_def settings_fail_def Let_def split: if_splits)

lemma settings_loop_open:
  "http3_settings_loop data offset p = (STATUS_SUCCESS, n, so, False, err, p') \<Longrightarrow>
     sp_failed p' = sp_failed p \<and> sp_complete p' = sp_complete p"
proof (induction data arbitrary: offset p)
  case (Cons b bs)
  then show ?case
    by (auto simp: Let_def settings_fail_def dest!: settings_deliver_open settings_rest_open Cons.IH
        split: if_splits prod.splits)
qed (auto dest: settings_rest_open)

lemma settings_loop_bytes:
  "settings_bytes data offset p acc =
     (case http3_settings_loop data offset p of (st, n, so, complete, err, p') \<Rightarrow>
        if st \<noteq> STATUS_SUCCESS \<or> complete \<or> so = None then ((st, complete, err), n, (p', acc @ opt_list so))
        else settings_bytes (drop (n - offset) data) n p' (acc @ opt_list so))"
proof (induction data arbitrary: offset p)
  case Nil
  then show ?case
    by (auto simp: settings_end_def dest!: settings_rest_cases split: prod.splits)
next
  case (Cons b bs)
  obtain st1 vp where c: "consume_varint_byte b (sp_varint p) = (st1, vp)" by fastforce
  let ?p1 = "p\<lparr>sp_varint := vp, sp_remaining := sp_remaining p - 1\<rparr>"
  consider (rest) "sp_remaining p = 0" | (fail) "sp_remaining p \<noteq> 0" "st1 \<noteq> STATUS_SUCCESS"
    | (more) p2 where "sp_remaining p \<noteq> 0" "st1 = STATUS_SUCCESS"
        "settings_bytes (b # bs) offset p acc = settings_bytes bs (offset + 1) p2 acc"
        "http3_settings_loop (b # bs) offset p = http3_settings_loop bs (offset + 1) p2"
    | (deliver) "sp_remaining p \<noteq> 0" "st1 = STATUS_SUCCESS" "vp_complete vp" "\<not> sp_reading_identifier p"
    using c by (cases "vp_complete vp"; cases "sp_reading_identifier p"; cases "sp_remaining p = 0";
        cases "st1 = STATUS_SUCCESS") (auto simp: Let_def settings_step_def)
  then show ?case
  proof cases
    case rest
    then show ?thesis by (auto simp: settings_end_def dest!: settings_rest_cases split: prod.splits)
  next
    case fail
    then show ?thesis by (simp add: c settings_fail_def Let_def)
  next
    case more
    obtain st n so complete err p' where l: "http3_settings_loop bs (offset + 1) p2 = (st, n, so, complete, err, p')"
      by (metis prod_cases6)
    have "offset + 1 \<le> n" using settings_loop_consumes [OF l] by simp
    then have "drop (n - offset) (b # bs) = drop (n - (offset + 1)) bs"
      by (intro drop_Cons_diff) simp
    then show ?thesis unfolding more(3,4) Cons.IH [of "offset + 1" p2] l by simp
  next
    case deliver
    obtain st n so complete err p' where l: "settings_deliver (offset + 1) ?p1 = (st, n, so, complete, err, p')"
      by (metis prod_cases6)
    have so: "so = None \<Longrightarrow> st \<noteq> STATUS_SUCCESS"
      using l by (auto simp: settings_deliver_def settings_fail_def Let_def split: if_splits)
    have "n = offset + 1" using settings_deliver_cases [OF l] .
    with deliver l c so show ?thesis by (auto simp: settings_step_def Let_def)
  qed
qed

lemma settings_drive_bytes:
  "settings_ready s \<Longrightarrow> settings_drive s data = settings_bytes data 0 (fst s) (snd s)"
proof (induction s data rule: settings_drive.induct)
  case (1 s data)
  obtain st n so complete err p' where l: "http3_settings_loop data 0 (fst s) = (st, n, so, complete, err, p')"
    by (metis prod_cases6)
  have c: "http3_consume_settings (fst s) data = (st, n, so, complete, err, p')"
    using 1(2) l by (simp add: http3_consume_settings_def settings_ready_def)
  show ?case
  proof (cases "st \<noteq> STATUS_SUCCESS \<or> complete \<or> so = None")
    case True
    then show ?thesis
      by (subst settings_drive.simps, subst settings_loop_bytes) (auto simp: c l Let_def)
  next
    case False
    have ready: "settings_ready (p', snd s @ opt_list so)"
      using settings_loop_open [of data 0 "fst s" n so err p'] l False 1(2) by (auto simp: settings_ready_def)
    have "settings_drive (p', snd s @ opt_list so) (drop n data) = settings_bytes (drop n data) 0 p' (snd s @ opt_list so)"
      using 1(1) [OF c [symmetric]] False ready by fastforce
    then show ?thesis
      using False settings_bytes_shift [of "drop n data" 0 n p' "snd s @ opt_list so"]
      by (subst settings_drive.simps, subst settings_loop_bytes)
        (auto simp: c l Let_def split: prod.splits)
  qed
qed

lemma settings_end_cases:
  "settings_end offset p acc = (r, n, s) \<Longrightarrow>
     (sp_remaining p = 0 \<longrightarrow> settings_stopped r) \<and> (sp_remaining p \<noteq> 0 \<longrightarrow> \<not> settings_stopped r \<and> n = offset \<and> s = (p, acc))"
  by (auto simp: settings_end_def settings_rest_def settings_fail_def settings_stopped_def split: if_splits)

lemma settings_step_stopped: "settings_step offset p acc = Inl (r, n, s) \<Longrightarrow> settings_stopped r"
  by (auto simp: settings_step_def settings_stopped_def split: if_splits prod.splits)

lemma settings_bytes_append:
  "settings_bytes (xs @ ys) offset p acc =
     (case settings_bytes xs offset p acc of (r, n, s) \<Rightarrow>
        if settings_stopped r then (r, n, s) else settings_bytes ys n (fst s) (snd s))"
proof (induction xs arbitrary: offset p acc)
  case Nil
  obtain r n s where e: "settings_end offset p acc = (r, n, s)" by (metis prod_cases3)
  show ?case
  proof (cases "sp_remaining p = 0")
    case True
    with settings_end_cases [OF e] e show ?thesis by (cases ys) auto
  next
    case False
    with settings_end_cases [OF e] e show ?thesis by simp
  qed
next
  case (Cons b bs)
  obtain st vp where c: "consume_varint_byte b (sp_varint p) = (st, vp)" by fastforce
  show ?case
  proof (cases "sp_remaining p = 0 \<or> st \<noteq> STATUS_SUCCESS")
    case True
    then show ?thesis using c by (auto simp: settings_stopped_def Let_def dest: settings_end_cases split: prod.splits)
  next
    case False
    then show ?thesis
      using c Cons.IH by (auto simp: Let_def dest: settings_step_stopped split: prod.splits sum.splits)
  qed
qed

lemma settings_step_open:
  "settings_step offset p acc = Inr (p', acc') \<Longrightarrow> sp_failed p' = sp_failed p \<and> sp_complete p' = sp_complete p"
  by (auto simp: settings_step_def dest!: settings_deliver_open split: if_splits prod.splits)

lemma settings_bytes_open:
  "settings_bytes data offset p acc = (r, n, s) \<Longrightarrow> \<not> settings_stopped r \<Longrightarrow> settings_ready (p, acc) \<Longrightarrow> settings_ready s"
proof (induction data arbitrary: offset p acc)
  case Nil
  then show ?case by (cases "sp_remaining p = 0") (auto dest: settings_end_cases)
next
  case (Cons b bs)
  obtain st vp where c: "consume_varint_byte b (sp_varint p) = (st, vp)" by fastforce
  let ?p1 = "p\<lparr>sp_varint := vp, sp_remaining := sp_remaining p - 1\<rparr>"
  have p1: "settings_ready (?p1, acc)" using Cons.prems(3) by (simp add: settings_ready_def)
  have more: "sp_remaining p \<noteq> 0 \<and> st = STATUS_SUCCESS"
    using Cons.prems(1,2) c
    by (cases "sp_remaining p = 0") (auto simp: settings_stopped_def Let_def dest: settings_end_cases split: if_splits)
  show ?case
  proof (cases "vp_complete vp")
    case False
    with more c Cons.prems(1) have "settings_bytes bs (offset + 1) ?p1 acc = (r, n, s)" by simp
    from Cons.IH [OF this Cons.prems(2) p1] show ?thesis .
  next
    case True
    show ?thesis
    proof (cases "settings_step (offset + 1) ?p1 acc")
      case (Inl x)
      with more c True Cons.prems(1,2) settings_step_stopped show ?thesis by auto
    next
      case (Inr q)
      obtain p2 acc2 where q: "q = (p2, acc2)" by fastforce
      have "settings_ready (p2, acc2)"
        using settings_step_open [OF Inr [unfolded q]] p1 by (simp add: settings_ready_def)
      moreover have "settings_bytes bs (offset + 1) p2 acc2 = (r, n, s)"
        using more c True Cons.prems(1) Inr q by simp
      ultimately show ?thesis using Cons.IH Cons.prems(2) by blast
    qed
  qed
qed

interpretation http3_settings: incremental settings_drive settings_stopped settings_ready
proof
  fix s s' :: "http3_settings_parser \<times> http3_setting list" and xs ys :: bytes and r n
  assume ready: "settings_ready s" and f: "settings_drive s xs = (r, n, s')"
  have l: "settings_bytes xs 0 (fst s) (snd s) = (r, n, s')"
    using settings_drive_bytes [OF ready] f by simp
  show ready': "settings_ready s'" if "\<not> settings_stopped r"
    using settings_bytes_open [OF l that] ready by simp
  show "settings_drive s (xs @ ys) = (if settings_stopped r then (r, n, s')
      else (case settings_drive s' ys of (r', n', s'') \<Rightarrow> (r', n + n', s'')))"
    using l ready' settings_bytes_shift [of ys 0 n "fst s'" "snd s'"]
    by (auto simp: settings_drive_bytes ready settings_bytes_append split: prod.splits)
qed

text \<open>The settings read off the whole payload: pairs of integers, with the checks of one after the other.\<close>

function http3_settings_spec :: "nat \<Rightarrow> nat list \<Rightarrow> bytes \<Rightarrow> http3_setting list \<times> settings_outcome" where
  "http3_settings_spec capacity seen data =
     (let bad = (\<lambda>st err. ([], (st, False, err)))
      in if data = [] then ([], (STATUS_SUCCESS, True, H3_NO_ERROR))
         else case quic_decode_varint data of
           Inl _ \<Rightarrow> bad STATUS_INVALID_NETWORK_RESPONSE H3_FRAME_ERROR
         | Inr (i, n) \<Rightarrow> (case quic_decode_varint (drop n data) of
             Inl _ \<Rightarrow> bad STATUS_INVALID_NETWORK_RESPONSE H3_FRAME_ERROR
           | Inr (v, m) \<Rightarrow>
               if i \<in> set seen then bad STATUS_INVALID_NETWORK_RESPONSE H3_SETTINGS_ERROR
               else if length seen \<ge> capacity then bad STATUS_INSUFFICIENT_RESOURCES H3_EXCESSIVE_LOAD
               else if is_reserved_http2_setting i then bad STATUS_INVALID_NETWORK_RESPONSE H3_SETTINGS_ERROR
               else (case http3_settings_spec capacity (seen @ [i]) (drop (n + m) data) of
                       (ss, r) \<Rightarrow> (\<lparr>st_identifier = i, st_value = v, st_kind = http3_classify_setting i\<rparr> # ss, r))))"
  by pat_completeness auto

termination
  by (relation "measure (\<lambda>(capacity, seen, data). length data)") (auto dest!: quic_decode_varint_le)

declare http3_settings_spec.simps [simp del]

lemma http3_settings_spec_Nil [simp]: "http3_settings_spec capacity seen [] = ([], (STATUS_SUCCESS, True, H3_NO_ERROR))"
  by (subst http3_settings_spec.simps) simp

lemma settings_bytes_varint:
  assumes "vp_read xs (sp_varint p)" "length data \<le> sp_remaining p"
  shows "case quic_decode_varint (xs @ data) of
     Inl e \<Rightarrow> \<exists>p'. settings_bytes data offset p acc = settings_end (offset + length data) p' acc
       \<and> sp_remaining p' = sp_remaining p - length data \<and> sp_reading_identifier p' = sp_reading_identifier p
       \<and> vp_bytes (sp_varint p') = xs @ data
   | Inr (v, n) \<Rightarrow> \<exists>k vp. n = length xs + k \<and> 0 < k \<and> k \<le> length data \<and> vp_value vp = v \<and>
       settings_bytes data offset p acc =
         (case settings_step (offset + k) (p\<lparr>sp_varint := vp, sp_remaining := sp_remaining p - k\<rparr>) acc of
            Inl r \<Rightarrow> r
          | Inr s2 \<Rightarrow> settings_bytes (drop k data) (offset + k) (fst s2) (snd s2))"
  using assms
proof (induction data arbitrary: xs p offset)
  case Nil
  then show ?case using quic_decode_varint_short [OF Nil.prems(1)] by (auto simp: vp_read_def)
next
  case (Cons b data)
  have rem: "sp_remaining p \<noteq> 0" using Cons.prems(2) by auto
  show ?case
  proof (cases rule: consume_varint_byte_read [OF Cons.prems(1), of b, case_names more complete])
    case (more vp)
    let ?p = "p\<lparr>sp_varint := vp, sp_remaining := sp_remaining p - 1\<rparr>"
    have eq: "settings_bytes (b # data) offset p acc = settings_bytes data (offset + 1) ?p acc"
      using rem more by simp
    have IH: "vp_read (xs @ [b]) (sp_varint ?p)" "length data \<le> sp_remaining ?p"
      using more(2) Cons.prems(2) by simp_all
    note IH = Cons.IH [OF this, of "offset + 1"]
    show ?thesis
    proof (cases "quic_decode_varint (xs @ b # data)")
      case (Inl e)
      with IH show ?thesis unfolding eq by auto
    next
      case (Inr vn)
      obtain v n where vn: "vn = (v, n)" by fastforce
      from IH Inr vn obtain k vp' where "n = length (xs @ [b]) + k" "k \<le> length data" "vp_value vp' = v"
        and l: "settings_bytes data (offset + 1) ?p acc = (case settings_step (offset + 1 + k)
            (?p\<lparr>sp_varint := vp', sp_remaining := sp_remaining ?p - k\<rparr>) acc of Inl r \<Rightarrow> r
            | Inr s2 \<Rightarrow> settings_bytes (drop k data) (offset + 1 + k) (fst s2) (snd s2))"
        by auto
      then show ?thesis unfolding eq l by (auto simp: Inr vn split: sum.splits intro!: exI [of _ "Suc k"] exI [of _ vp'])
    qed
  next
    case (complete vp)
    have d: "quic_decode_varint (xs @ b # data) = Inr (vp_value vp, length xs + 1)"
      using quic_decode_varint_append [OF complete(4), of data] by simp
    show ?thesis
      using rem complete by (auto simp: d split: sum.splits intro!: exI [of _ 1] exI [of _ vp])
  qed
qed

lemma classify_reserved: "http3_classify_setting i = SettingReservedHttp2 \<longleftrightarrow> is_reserved_http2_setting i"
  by (auto simp: http3_classify_setting_def is_reserved_http2_setting_def)

lemma settings_bytes_spec:
  assumes "sp_reading_identifier p" "sp_varint p = vp_new" "sp_remaining p = length data" "data \<noteq> []"
  shows "\<exists>n s. settings_bytes data offset p acc = (snd (http3_settings_spec (sp_capacity p) (sp_seen p) data), n, s)
    \<and> snd s = acc @ fst (http3_settings_spec (sp_capacity p) (sp_seen p) data)"
  using assms
proof (induction "sp_capacity p" "sp_seen p" data arbitrary: p offset acc rule: http3_settings_spec.induct)
  case (1 data p)
  let ?fin = "\<lambda>o' p'. settings_end o' p' acc"
  note spec = http3_settings_spec.simps [of "sp_capacity p" "sp_seen p" data]
  have frame: "?fin o' p' = ((STATUS_INVALID_NETWORK_RESPONSE, False, H3_FRAME_ERROR), o', (p'\<lparr>sp_failed := True\<rparr>, acc))"
    if "sp_remaining p' = 0" "\<not> sp_reading_identifier p' \<or> vp_bytes (sp_varint p') \<noteq> []" for o' p'
    using that by (simp add: settings_end_def settings_rest_def settings_fail_def)
  note first = settings_bytes_varint [of "[]" p data offset acc]
  show ?case
  proof (cases "quic_decode_varint data")
    case (Inl e)
    with first 1(3-5) obtain p' where "settings_bytes data offset p acc = ?fin (offset + length data) p'"
        "sp_remaining p' = 0" "vp_bytes (sp_varint p') = data" by auto
    with frame 1(5) Inl show ?thesis by (auto simp: spec)
  next
    case (Inr x)
    obtain i n where x: "quic_decode_varint data = Inr (i, n)" using Inr by (cases x) auto
    with first 1(3-5) obtain vp where vp: "vp_value vp = i" "0 < n" "n \<le> length data"
      and l1: "settings_bytes data offset p acc =
         (case settings_step (offset + n) (p\<lparr>sp_varint := vp, sp_remaining := sp_remaining p - n\<rparr>) acc of
            Inl r \<Rightarrow> r | Inr s2 \<Rightarrow> settings_bytes (drop n data) (offset + n) (fst s2) (snd s2))"
      by auto
    define p2 where "p2 = p\<lparr>sp_remaining := length data - n, sp_current := i, sp_reading_identifier := False, sp_varint := vp_new\<rparr>"
    have l2: "settings_bytes data offset p acc = settings_bytes (drop n data) (offset + n) p2 acc"
      using l1 1(2,4) vp(1) by (simp add: settings_step_def p2_def)
    have p2: "vp_read [] (sp_varint p2)" "length (drop n data) \<le> sp_remaining p2" "\<not> sp_reading_identifier p2"
        "sp_current p2 = i" "sp_seen p2 = sp_seen p" "sp_capacity p2 = sp_capacity p" "sp_remaining p2 = length data - n"
      by (simp_all add: p2_def)
    note second = settings_bytes_varint [OF p2(1,2), of "offset + n" acc]
    show ?thesis
    proof (cases "quic_decode_varint (drop n data)")
      case (Inl e)
      with second obtain p' where "settings_bytes (drop n data) (offset + n) p2 acc = ?fin (offset + n + length (drop n data)) p'"
          "sp_remaining p' = 0" "\<not> sp_reading_identifier p'" using p2 by (auto simp: p2_def)
      with frame l2 x Inl 1(5) show ?thesis by (auto simp: spec)
    next
      case (Inr y)
      obtain v m where y: "quic_decode_varint (drop n data) = Inr (v, m)" using Inr by (cases y) auto
      with second obtain vp2 where vp2: "vp_value vp2 = v" "0 < m" "m \<le> length data - n"
        and l3: "settings_bytes (drop n data) (offset + n) p2 acc =
         (case settings_step (offset + n + m) (p2\<lparr>sp_varint := vp2, sp_remaining := sp_remaining p2 - m\<rparr>) acc of
            Inl r \<Rightarrow> r | Inr s2 \<Rightarrow> settings_bytes (drop m (drop n data)) (offset + n + m) (fst s2) (snd s2))"
        by auto
      let ?p3 = "p2\<lparr>sp_varint := vp2, sp_remaining := sp_remaining p2 - m\<rparr>"
      show ?thesis
      proof (cases "i \<in> set (sp_seen p) \<or> length (sp_seen p) \<ge> sp_capacity p \<or> is_reserved_http2_setting i")
        case True
        then show ?thesis
          using 1(5) by (auto simp: l2 l3 spec x y settings_step_def p2 settings_deliver_def settings_fail_def
              classify_reserved Let_def)
      next
        case False
        let ?k = "http3_classify_setting i"
        let ?s = "\<lparr>st_identifier = i, st_value = v, st_kind = ?k\<rparr>"
        have kind: "?k \<noteq> SettingReservedHttp2"
          using False by (simp add: classify_reserved)
        show ?thesis
        proof (cases "drop (n + m) data = []")
          case True
          then show ?thesis
            using 1(5) False kind vp2
            by (auto simp: l2 l3 spec x y settings_step_def p2 settings_deliver_def Let_def)
        next
          case nonempty: False
          define p4 where "p4 = ?p3\<lparr>sp_seen := sp_seen ?p3 @ [i], sp_reading_identifier := True, sp_varint := vp_new,
              sp_complete := (sp_complete ?p3 \<or> False)\<rparr>"
          have rest: "length data - n - m \<noteq> 0" using nonempty by simp
          have step: "settings_step (offset + n + m) ?p3 acc = Inr (p4, acc @ [?s])"
            using False kind rest vp2(1) by (simp add: settings_step_def settings_deliver_def p2 p4_def Let_def)
          have p4: "sp_reading_identifier p4" "sp_varint p4 = vp_new" "sp_remaining p4 = length (drop (n + m) data)"
              "sp_seen p4 = sp_seen p @ [i]" "sp_capacity p4 = sp_capacity p"
            by (simp_all add: p4_def p2)
          have l4: "settings_bytes data offset p acc = settings_bytes (drop (n + m) data) (offset + n + m) p4 (acc @ [?s])"
            unfolding l2 l3 step by (simp add: add.commute)
          have "\<exists>n' s. settings_bytes (drop (n + m) data) (offset + n + m) p4 (acc @ [?s])
                = (snd (http3_settings_spec (sp_capacity p) (sp_seen p @ [i]) (drop (n + m) data)), n', s)
              \<and> snd s = (acc @ [?s]) @ fst (http3_settings_spec (sp_capacity p) (sp_seen p @ [i]) (drop (n + m) data))"
            using 1(1) [OF refl 1(5) x refl y refl _ _ _ p4(5) [symmetric] p4(4) [symmetric] p4(1-3) nonempty,
                of "offset + n + m" "acc @ [?s]"] False unfolding p4(4,5) by blast
          moreover have "http3_settings_spec (sp_capacity p) (sp_seen p) data =
              (case http3_settings_spec (sp_capacity p) (sp_seen p @ [i]) (drop (n + m) data) of (ss, r) \<Rightarrow> (?s # ss, r))"
            by (subst spec) (use 1(5) False in \<open>simp add: x y\<close>)
          ultimately show ?thesis unfolding l4 by (auto split: prod.splits)
        qed
      qed
    qed
  qed
qed

text \<open>
  However the payload of a SETTINGS frame is cut into pieces, calling the parser until it stops
  delivers exactly the settings that decoding the whole payload gives, in order: pairs of integers
  up to the end, or up to the first pair that is cut off (\<open>H3_FRAME_ERROR\<close>), repeats an identifier or
  has one reserved for HTTP/2 (\<open>H3_SETTINGS_ERROR\<close>), or exceeds the storage (\<open>H3_EXCESSIVE_LOAD\<close>),
  and it ends with that status and error.
\<close>

theorem http3_settings_any_pieces:
  assumes "length (concat pieces) = payloadLength"
  shows "case feed_pieces settings_drive settings_stopped (http3_settings_initialize payloadLength capacity, []) pieces of
     (r, n, s) \<Rightarrow> (snd s, r) = http3_settings_spec capacity [] (concat pieces)"
proof (cases "concat pieces = []")
  case True
  have "settings_drive (http3_settings_initialize 0 capacity, []) [] =
      ((STATUS_SUCCESS, True, H3_NO_ERROR), 0, (http3_settings_initialize 0 capacity, []))"
    by (subst settings_drive.simps) (simp add: http3_consume_settings_def http3_settings_initialize_def)
  moreover have "payloadLength = 0" using assms True by simp
  ultimately show ?thesis
  proof (cases pieces)
    case (Cons d ds)
    with True have "d = []" "concat ds = []" by simp_all
    with \<open>payloadLength = 0\<close> Cons \<open>settings_drive _ [] = _\<close> show ?thesis
      by (simp add: settings_stopped_def del: concat_eq_Nil_conv)
  qed simp
next
  case False
  let ?p = "http3_settings_initialize payloadLength capacity"
  have ready: "settings_ready (?p, [])"
    using False assms by (auto simp: settings_ready_def http3_settings_initialize_def)
  have "feed_pieces settings_drive settings_stopped (?p, []) pieces = settings_bytes (concat pieces) 0 ?p []"
    using http3_settings.pieces_irrelevant [OF ready, of pieces] settings_drive_bytes [OF ready] by simp
  moreover have "\<exists>n s. settings_bytes (concat pieces) 0 ?p [] = (snd (http3_settings_spec (sp_capacity ?p) (sp_seen ?p) (concat pieces)), n, s)
    \<and> snd s = [] @ fst (http3_settings_spec (sp_capacity ?p) (sp_seen ?p) (concat pieces))"
    by (rule settings_bytes_spec) (use assms False in \<open>simp_all add: http3_settings_initialize_def\<close>)
  ultimately show ?thesis by (auto simp: http3_settings_initialize_def prod_eq_iff)
qed

lemma http3_settings_any_pieces_witness:
  "case feed_pieces settings_drive settings_stopped (http3_settings_initialize 5 4, []) [[1, 64], [], [100, 6, 9]] of
     (r, n, s) \<Rightarrow> snd s = [\<lparr>st_identifier = 1, st_value = 100, st_kind = QpackMaxTableCapacity\<rparr>,
         \<lparr>st_identifier = 6, st_value = 9, st_kind = MaxFieldSectionSize\<rparr>] \<and> r = (STATUS_SUCCESS, True, H3_NO_ERROR)"
proof -
  have "http3_settings_spec 4 [] [1, 64, 100, 6, 9] =
      ([\<lparr>st_identifier = 1, st_value = 100, st_kind = QpackMaxTableCapacity\<rparr>,
        \<lparr>st_identifier = 6, st_value = 9, st_kind = MaxFieldSectionSize\<rparr>], (STATUS_SUCCESS, True, H3_NO_ERROR))"
    by (subst http3_settings_spec.simps, simp add: quic_decode_varint_def Let_def drop_bit_eq_div is_reserved_http2_setting_def http3_classify_setting_def)
       (subst http3_settings_spec.simps, simp add: quic_decode_varint_def Let_def drop_bit_eq_div is_reserved_http2_setting_def http3_classify_setting_def)
  with http3_settings_any_pieces [of "[[1, 64], [], [100, 6, 9]]" 5 4] show ?thesis
    by (auto split: prod.splits)
qed

section \<open>Single values and payloads\<close>

text \<open>A payload of one integer, read off the whole input.\<close>

definition single_feed :: "http3_single_parser \<Rightarrow> bytes \<Rightarrow> (ntstatus \<times> bool \<times> nat \<times> nat) \<times> nat \<times> http3_single_parser" where
  "single_feed p data =
     (case http3_consume_single_value p data of (st, n, complete, v, err, p') \<Rightarrow> ((st, complete, v, err), n, p'))"

definition single_stopped :: "ntstatus \<times> bool \<times> nat \<times> nat \<Rightarrow> bool" where
  "single_stopped r \<longleftrightarrow> fst r \<noteq> STATUS_SUCCESS \<or> fst (snd r)"

definition single_ready :: "http3_single_parser \<Rightarrow> bool" where
  "single_ready p \<longleftrightarrow> \<not> sv_failed p \<and> \<not> sv_complete p \<and> sv_remaining p \<noteq> 0"

lemma single_loop_shift:
  "http3_single_loop data (offset + k) p =
     (case http3_single_loop data offset p of (st, n, rest) \<Rightarrow> (st, n + k, rest))"
proof (induction data offset p rule: http3_single_loop.induct)
  case (1 offset p)
  then show ?case by (simp add: single_rest_def single_fail_def)
next
  case (2 b bs offset p)
  then show ?case by (auto simp: single_rest_def single_fail_def Let_def split: prod.splits)
qed

lemma single_loop_append:
  "sv_remaining p \<noteq> 0 \<Longrightarrow> http3_single_loop (xs @ ys) offset p =
     (case http3_single_loop xs offset p of (st, n, complete, v, err, p') \<Rightarrow>
        if st \<noteq> STATUS_SUCCESS \<or> complete then (st, n, complete, v, err, p') else http3_single_loop ys n p')"
proof (induction xs arbitrary: offset p)
  case Nil
  then show ?case by (simp add: single_rest_def)
next
  case (Cons b bs)
  obtain st vp where c: "consume_varint_byte b (sv_varint p) = (st, vp)" by fastforce
  let ?p1 = "p\<lparr>sv_varint := vp, sv_remaining := sv_remaining p - 1\<rparr>"
  show ?case
  proof (cases "st = STATUS_SUCCESS \<and> \<not> vp_complete vp")
    case False
    then show ?thesis using c Cons.prems by (auto simp: single_fail_def Let_def)
  next
    case more: True
    then have l: "http3_single_loop (b # zs) offset p = http3_single_loop zs (offset + 1) ?p1" for zs
      using c Cons.prems by simp
    have ended: "http3_single_loop zs (offset + 1) ?p1 = single_fail (offset + 1) ?p1" if "sv_remaining p - 1 = 0" for zs
      using that by (cases zs) (simp_all add: single_rest_def)
    show ?thesis
    proof (cases "sv_remaining p - 1 = 0")
      case True
      then show ?thesis
        unfolding append_Cons l ended [OF True] by (simp add: single_fail_def)
    next
      case False
      then show ?thesis
        using Cons.IH [of ?p1 "offset + 1"] unfolding append_Cons l by simp
    qed
  qed
qed

lemma single_loop_open:
  "http3_single_loop data offset p = (STATUS_SUCCESS, n, False, v, err, p') \<Longrightarrow>
     sv_failed p' = sv_failed p \<and> sv_complete p' = sv_complete p \<and> sv_remaining p' \<noteq> 0"
proof (induction data arbitrary: offset p)
  case (Cons b bs)
  then show ?case
    by (auto simp: single_rest_def single_fail_def Let_def dest!: Cons.IH split: if_splits prod.splits)
qed (auto simp: single_rest_def single_fail_def split: if_splits)

interpretation http3_single: incremental single_feed single_stopped single_ready
proof
  fix p p' :: http3_single_parser and xs ys :: bytes and r n
  assume ready: "single_ready p" and f: "single_feed p xs = (r, n, p')"
  obtain st n1 complete v err p1 where l: "http3_single_loop xs 0 p = (st, n1, complete, v, err, p1)"
    by (metis prod_cases6)
  have p1: "p' = p1" "n = n1" "r = (st, complete, v, err)"
    using f l ready by (auto simp: single_feed_def http3_consume_single_value_def single_ready_def)
  show ready': "single_ready p'" if "\<not> single_stopped r"
    using that single_loop_open [of xs 0 p n1 v err p1] l ready by (auto simp: p1 single_stopped_def single_ready_def)
  show "single_feed p (xs @ ys) = (if single_stopped r then (r, n, p')
      else (case single_feed p' ys of (r', n', p'') \<Rightarrow> (r', n + n', p'')))"
    using l ready ready' single_loop_shift [of ys 0 n1 p1] single_loop_append [of p xs ys 0]
    by (auto simp: single_feed_def http3_consume_single_value_def p1 single_stopped_def single_ready_def
        split: prod.splits)
qed

lemma http3_single_regroup:
  "single_ready p \<Longrightarrow> concat ds = concat ds' \<Longrightarrow>
     feed_pieces single_feed single_stopped p ds = feed_pieces single_feed single_stopped p ds'"
  by (rule http3_single.feed_pieces_regroup)

text \<open>The views handed out by the cursor make up the payload.\<close>

lemma http3_payload_pieces:
  assumes "http3_consume_frame_payload remaining xs = (v, n, done, rem)"
    "http3_consume_frame_payload rem ys = (v', n', done', rem')"
  shows "http3_consume_frame_payload remaining (xs @ ys) = (v @ v', n + n', done', rem')"
  using assms by (auto simp: http3_consume_frame_payload_def Let_def split: if_splits)

end
