(* ===== verification/HttpChunkedDecoder.thy ===== *)
theory HttpChunkedDecoder
  imports HttpText
begin

text \<open>
  The incremental decoder of chunked HTTP/1.1 bodies, \<open>src/wknetlib/http1/HttpChunkedDecoder.cpp\<close>. The
  data callback is a function of the bytes delivered so far and the new ones, \<open>None\<close> for a null
  pointer; what it was given is kept in the state. The trailer arena is its used length and the list of
  the trailers in it. The lemmas show that the pieces the wire delivers do not matter and that a
  well-formed body is delivered exactly, trailers included.
\<close>

definition HttpMaxChunkSizeLineBytes :: nat where
  "HttpMaxChunkSizeLineBytes = 32"

definition HttpMaxHeaderLineBytes :: nat where
  "HttpMaxHeaderLineBytes = 8192"

datatype chunk_state =
    SizeLine | ChunkData | ChunkDataCr | ChunkDataLf | TrailerLine | ChunkComplete | ChunkFailed

record chunked_decoder =
  cd_state :: chunk_state
  cd_remaining :: nat
  cd_extension :: bool
  cd_has_digit :: bool
  cd_size_line :: bytes
  cd_trailer_line :: bytes
  cd_storage :: "nat option"
  cd_trailers :: "(bytes \<times> bytes) list"
  cd_arena_capacity :: nat
  cd_arena_used :: nat
  cd_initialized :: bool
  cd_output :: bytes

definition cd_new :: chunked_decoder where
  "cd_new = \<lparr>cd_state = SizeLine, cd_remaining = 0, cd_extension = False, cd_has_digit = False,
     cd_size_line = [], cd_trailer_line = [], cd_storage = None, cd_trailers = [], cd_arena_capacity = 0,
     cd_arena_used = 0, cd_initialized = False, cd_output = []\<rparr>"

section \<open>Operations\<close>

definition cd_initialize :: "bool \<Rightarrow> chunked_decoder \<Rightarrow> ntstatus \<times> chunked_decoder" where
  "cd_initialize alloc_ok d =
     (if cd_initialized d then (STATUS_SUCCESS, d)
      else if \<not> alloc_ok then (STATUS_INSUFFICIENT_RESOURCES, d)
      else (STATUS_SUCCESS, d\<lparr>cd_arena_capacity := 4096, cd_initialized := True\<rparr>))"

definition cd_reset :: "chunked_decoder \<Rightarrow> chunked_decoder" where
  "cd_reset d = d\<lparr>cd_state := SizeLine, cd_remaining := 0, cd_extension := False, cd_has_digit := False,
     cd_size_line := [], cd_trailer_line := [], cd_trailers := [], cd_arena_used := 0\<rparr>"

definition cd_set_trailer_storage :: "nat option \<Rightarrow> chunked_decoder \<Rightarrow> chunked_decoder" where
  "cd_set_trailer_storage storage d = d\<lparr>cd_storage := storage, cd_trailers := [], cd_arena_used := 0\<rparr>"

fun chunk_size :: "bytes \<Rightarrow> nat \<Rightarrow> nat option" where
  "chunk_size [] sz = Some sz"
| "chunk_size (c # cs) sz =
     (if \<not> is_hex_digit c then None
      else if sz > (u64_max - unat (hex_value c)) div 16 then None
      else chunk_size cs (sz * 16 + unat (hex_value c)))"

definition cd_finish_size_line :: "chunked_decoder \<Rightarrow> ntstatus \<times> chunked_decoder" where
  "cd_finish_size_line d =
     (if \<not> cd_has_digit d then (STATUS_INVALID_NETWORK_RESPONSE, d\<lparr>cd_state := ChunkFailed\<rparr>)
      else case chunk_size (cd_size_line d) 0 of
             None \<Rightarrow> (STATUS_INVALID_NETWORK_RESPONSE, d\<lparr>cd_state := ChunkFailed\<rparr>)
           | Some sz \<Rightarrow>
               let d1 = d\<lparr>cd_remaining := sz, cd_size_line := [], cd_has_digit := False, cd_extension := False\<rparr>
               in if sz = 0 then (STATUS_SUCCESS, d1\<lparr>cd_state := TrailerLine, cd_trailer_line := []\<rparr>)
                  else (STATUS_SUCCESS, d1\<lparr>cd_state := ChunkData\<rparr>))"

definition cd_size_char :: "byte \<Rightarrow> chunked_decoder \<Rightarrow> ntstatus \<times> chunked_decoder" where
  "cd_size_char c d =
     (if c = 13 then (STATUS_SUCCESS, d)
      else if c = 10 then cd_finish_size_line d
      else if cd_extension d then (STATUS_SUCCESS, d)
      else if c = 59
      then (if \<not> cd_has_digit d then (STATUS_INVALID_NETWORK_RESPONSE, d\<lparr>cd_state := ChunkFailed\<rparr>)
            else (STATUS_SUCCESS, d\<lparr>cd_extension := True\<rparr>))
      else if \<not> is_hex_digit c \<or> length (cd_size_line d) \<ge> HttpMaxChunkSizeLineBytes
      then (STATUS_INVALID_NETWORK_RESPONSE, d\<lparr>cd_state := ChunkFailed\<rparr>)
      else (STATUS_SUCCESS, d\<lparr>cd_size_line := cd_size_line d @ [c], cd_has_digit := True\<rparr>))"

definition cd_finish_trailer_line :: "chunked_decoder \<Rightarrow> ntstatus \<times> chunked_decoder" where
  "cd_finish_trailer_line d =
     (let line = cd_trailer_line d; name = takeWhile (\<lambda>c. c \<noteq> 58) line; colon = length name
      in if line = [] then (STATUS_SUCCESS, d\<lparr>cd_state := ChunkComplete\<rparr>)
         else if colon = 0 \<or> colon = length line \<or> \<not> list_all is_tchar name
         then (STATUS_INVALID_NETWORK_RESPONSE, d\<lparr>cd_state := ChunkFailed\<rparr>)
         else let val = trim_blanks (drop (colon + 1) line); needed = length name + length val
           in if needed > cd_arena_capacity d - cd_arena_used d
              then (STATUS_BUFFER_OVERFLOW, d\<lparr>cd_state := ChunkFailed\<rparr>)
              else if (case cd_storage d of None \<Rightarrow> True | Some n \<Rightarrow> length (cd_trailers d) \<ge> n)
              then (STATUS_BUFFER_TOO_SMALL, d\<lparr>cd_state := ChunkFailed\<rparr>)
              else (STATUS_SUCCESS, d\<lparr>cd_arena_used := cd_arena_used d + length name + length val,
                      cd_trailers := cd_trailers d @ [(name, val)], cd_trailer_line := []\<rparr>))"

definition cd_trailer_char :: "byte \<Rightarrow> chunked_decoder \<Rightarrow> ntstatus \<times> chunked_decoder" where
  "cd_trailer_char c d =
     (if c = 10 then cd_finish_trailer_line d
      else if c = 13 then (STATUS_SUCCESS, d)
      else if length (cd_trailer_line d) \<ge> HttpMaxHeaderLineBytes
      then (STATUS_INVALID_NETWORK_RESPONSE, d\<lparr>cd_state := ChunkFailed\<rparr>)
      else (STATUS_SUCCESS, d\<lparr>cd_trailer_line := cd_trailer_line d @ [c]\<rparr>))"

type_synonym data_callback = "(bytes \<Rightarrow> bytes \<Rightarrow> ntstatus) option"

definition cd_deliver :: "data_callback \<Rightarrow> bytes \<Rightarrow> chunked_decoder \<Rightarrow> ntstatus" where
  "cd_deliver on_data bs d = (case on_data of None \<Rightarrow> STATUS_SUCCESS | Some f \<Rightarrow> f (cd_output d) bs)"

text \<open>The loop of \<open>Feed\<close>, on the bytes from \<open>offset\<close> on.\<close>

function cd_loop :: "data_callback \<Rightarrow> bytes \<Rightarrow> nat \<Rightarrow> chunked_decoder \<Rightarrow> ntstatus \<times> nat \<times> chunked_decoder" where
  "cd_loop on_data [] offset d =
     ((if cd_state d = ChunkComplete then STATUS_SUCCESS else STATUS_MORE_PROCESSING_REQUIRED), offset, d)"
| "cd_loop on_data (c # cs) offset d =
     (case cd_state d of
        SizeLine \<Rightarrow>
          (case cd_size_char c d of (st, d1) \<Rightarrow>
             if st \<noteq> STATUS_SUCCESS then (st, offset + 1, d1) else cd_loop on_data cs (offset + 1) d1)
      | ChunkData \<Rightarrow>
          (let available = length (c # cs);
               n = (if available < cd_remaining d then available else cd_remaining d);
               bs = take n (c # cs)
           in if n \<noteq> 0 \<and> cd_deliver on_data bs d \<noteq> STATUS_SUCCESS
              then (cd_deliver on_data bs d, offset, d\<lparr>cd_state := ChunkFailed\<rparr>)
              else let d1 = d\<lparr>cd_remaining := cd_remaining d - n, cd_output := cd_output d @ bs\<rparr>;
                       d2 = (if cd_remaining d1 = 0 then d1\<lparr>cd_state := ChunkDataCr\<rparr> else d1)
                   in cd_loop on_data (drop n (c # cs)) (offset + n) d2)
      | ChunkDataCr \<Rightarrow>
          (if c \<noteq> 13 then (STATUS_INVALID_NETWORK_RESPONSE, offset + 1, d\<lparr>cd_state := ChunkFailed\<rparr>)
           else cd_loop on_data cs (offset + 1) (d\<lparr>cd_state := ChunkDataLf\<rparr>))
      | ChunkDataLf \<Rightarrow>
          (if c \<noteq> 10 then (STATUS_INVALID_NETWORK_RESPONSE, offset + 1, d\<lparr>cd_state := ChunkFailed\<rparr>)
           else cd_loop on_data cs (offset + 1)
                  (d\<lparr>cd_state := SizeLine, cd_size_line := [], cd_has_digit := False, cd_extension := False\<rparr>))
      | TrailerLine \<Rightarrow>
          (case cd_trailer_char c d of (st, d1) \<Rightarrow>
             if st \<noteq> STATUS_SUCCESS then (st, offset + 1, d1)
             else if cd_state d1 = ChunkComplete then (STATUS_SUCCESS, offset + 1, d1)
             else cd_loop on_data cs (offset + 1) d1)
      | ChunkComplete \<Rightarrow> (STATUS_SUCCESS, offset, d)
      | ChunkFailed \<Rightarrow> (STATUS_INVALID_NETWORK_RESPONSE, offset, d))"
  by pat_completeness auto

termination
  by (relation "measure (\<lambda>(on_data, data, offset, d). 2 * length data + (if cd_state d = ChunkData then 1 else 0))") auto

declare cd_loop.simps [simp del]

text \<open>The result is the status, \<open>*bytesConsumed\<close> and the decoder.\<close>

definition cd_feed :: "data_callback \<Rightarrow> bytes \<Rightarrow> chunked_decoder \<Rightarrow> ntstatus \<times> nat \<times> chunked_decoder" where
  "cd_feed on_data data d =
     (if \<not> cd_initialized d then (STATUS_INVALID_DEVICE_STATE, 0, d)
      else if cd_state d = ChunkComplete then (STATUS_SUCCESS, 0, d)
      else if cd_state d = ChunkFailed then (STATUS_INVALID_NETWORK_RESPONSE, 0, d)
      else if data = [] then (STATUS_MORE_PROCESSING_REQUIRED, 0, d)
      else cd_loop on_data data 0 d)"

section \<open>One byte at a time\<close>

definition cd_step :: "byte \<Rightarrow> chunked_decoder \<Rightarrow> ntstatus \<times> chunked_decoder" where
  "cd_step c d =
     (case cd_state d of
        SizeLine \<Rightarrow> cd_size_char c d
      | ChunkData \<Rightarrow>
          (let d1 = d\<lparr>cd_remaining := cd_remaining d - 1, cd_output := cd_output d @ [c]\<rparr>
           in (STATUS_SUCCESS, if cd_remaining d1 = 0 then d1\<lparr>cd_state := ChunkDataCr\<rparr> else d1))
      | ChunkDataCr \<Rightarrow> (if c \<noteq> 13 then (STATUS_INVALID_NETWORK_RESPONSE, d\<lparr>cd_state := ChunkFailed\<rparr>)
                        else (STATUS_SUCCESS, d\<lparr>cd_state := ChunkDataLf\<rparr>))
      | ChunkDataLf \<Rightarrow> (if c \<noteq> 10 then (STATUS_INVALID_NETWORK_RESPONSE, d\<lparr>cd_state := ChunkFailed\<rparr>)
                        else (STATUS_SUCCESS, d\<lparr>cd_state := SizeLine, cd_size_line := [], cd_has_digit := False,
                               cd_extension := False\<rparr>))
      | TrailerLine \<Rightarrow> cd_trailer_char c d
      | _ \<Rightarrow> (STATUS_INVALID_NETWORK_RESPONSE, d))"

text \<open>A decoder in use: neither at its end nor failed, with data to come when it reads data.\<close>

definition cd_active :: "chunked_decoder \<Rightarrow> bool" where
  "cd_active d \<longleftrightarrow> cd_state d \<noteq> ChunkComplete \<and> cd_state d \<noteq> ChunkFailed
     \<and> (cd_state d = ChunkData \<longrightarrow> cd_remaining d \<noteq> 0)"

lemma cd_loop_Nil: "cd_active d \<Longrightarrow> cd_loop None [] offset d = (STATUS_MORE_PROCESSING_REQUIRED, offset, d)"
  by (simp add: cd_active_def cd_loop.simps)

lemma cd_deliver_None [simp]: "cd_deliver None bs d = STATUS_SUCCESS"
  by (simp add: cd_deliver_def)

lemma finish_size_line_active:
  "cd_finish_size_line d = (st, d') \<Longrightarrow> st = STATUS_SUCCESS \<Longrightarrow> cd_active d'"
  by (auto simp: cd_finish_size_line_def cd_active_def Let_def split: if_splits option.splits)

lemma cd_step_success:
  assumes "cd_step c d = (STATUS_SUCCESS, d')" "cd_active d"
  shows "cd_state d' = ChunkComplete \<and> cd_state d = TrailerLine \<or> cd_active d'"
  using assms
  by (cases "cd_state d")
    (auto simp: cd_step_def cd_active_def cd_size_char_def cd_finish_size_line_def cd_trailer_char_def
      cd_finish_trailer_line_def Let_def split: if_splits option.splits)

lemma cd_loop_Cons:
  assumes "cd_active d"
  shows "cd_loop None (c # cs) offset d =
    (case cd_step c d of (st, d1) \<Rightarrow>
       if st \<noteq> STATUS_SUCCESS \<or> cd_state d1 = ChunkComplete then (st, offset + 1, d1)
       else cd_loop None cs (offset + 1) d1)"
proof (cases "cd_state d = ChunkData")
  case False
  then show ?thesis
    using assms cd_step_success [OF _ assms, of c]
    by (subst cd_loop.simps) (cases "cd_state d"; fastforce simp: cd_active_def cd_step_def split: prod.splits)
next
  case True
  let ?r = "cd_remaining d"
  have r: "?r \<noteq> 0" using assms True by (simp add: cd_active_def)
  show ?thesis
  proof (cases "?r = 1 \<or> cs = []")
    case True
    with \<open>cd_state d = ChunkData\<close> r show ?thesis
      by (subst cd_loop.simps) (cases cs; cases "?r"; auto simp: cd_step_def Let_def)
  next
    case False
    then obtain c2 cs2 m where c2: "cs = c2 # cs2" and m: "?r = Suc (Suc m)"
      using r by (cases cs; cases ?r; cases "?r - 1") auto
    have st: "cd_step c d = (STATUS_SUCCESS, d\<lparr>cd_remaining := Suc m, cd_output := cd_output d @ [c]\<rparr>)"
      using \<open>cd_state d = ChunkData\<close> m by (simp add: cd_step_def)
    show ?thesis
      unfolding st c2 using \<open>cd_state d = ChunkData\<close> m
      by (subst cd_loop.simps, subst (2) cd_loop.simps) (simp add: Let_def)
  qed
qed

section \<open>The pieces do not matter\<close>

lemma cd_loop_shift:
  "cd_active d \<Longrightarrow> cd_loop None data (offset + k) d = (case cd_loop None data offset d of (st, n, d') \<Rightarrow> (st, n + k, d'))"
proof (induction data arbitrary: offset d)
  case (Cons c cs)
  obtain st d1 where s: "cd_step c d = (st, d1)" by fastforce
  show ?case
    using Cons.IH [of d1 "offset + 1"] cd_step_success [OF _ Cons.prems, of c d1] s
    by (auto simp: cd_loop_Cons [OF Cons.prems] cd_active_def)
qed (simp add: cd_loop_Nil)

lemma cd_loop_append:
  "cd_active d \<Longrightarrow> cd_loop None (xs @ ys) offset d =
     (case cd_loop None xs offset d of (st, n, d') \<Rightarrow>
        if st \<noteq> STATUS_MORE_PROCESSING_REQUIRED then (st, n, d') else cd_loop None ys n d')"
proof (induction xs arbitrary: offset d)
  case (Cons c cs)
  obtain st d1 where s: "cd_step c d = (st, d1)" by fastforce
  have "st \<noteq> STATUS_MORE_PROCESSING_REQUIRED"
    using s by (auto simp: cd_step_def cd_size_char_def cd_finish_size_line_def cd_trailer_char_def
        cd_finish_trailer_line_def Let_def split: chunk_state.splits if_splits option.splits)
  then show ?case
    using Cons.IH [of d1 "offset + 1"] cd_step_success [OF _ Cons.prems, of c d1] s
    by (auto simp: cd_loop_Cons [OF Cons.prems] cd_active_def)
qed (simp add: cd_loop_Nil)

lemma cd_loop_active:
  "cd_active d \<Longrightarrow> cd_loop None xs offset d = (STATUS_MORE_PROCESSING_REQUIRED, n, d') \<Longrightarrow>
     cd_active d' \<and> cd_initialized d' = cd_initialized d"
proof (induction xs arbitrary: offset d)
  case (Cons c cs)
  obtain st d1 where s: "cd_step c d = (st, d1)" by fastforce
  have st: "st \<noteq> STATUS_MORE_PROCESSING_REQUIRED" and i: "cd_initialized d1 = cd_initialized d"
    using s by (auto simp: cd_step_def cd_size_char_def cd_finish_size_line_def cd_trailer_char_def
        cd_finish_trailer_line_def Let_def split: chunk_state.splits if_splits option.splits)
  show ?case
    using Cons.IH [of d1 "offset + 1"] Cons.prems(2) cd_step_success [OF _ Cons.prems(1), of c d1] s st i
    by (auto simp: cd_loop_Cons [OF Cons.prems(1)] cd_active_def split: if_splits)
qed (simp add: cd_loop_Nil)

definition cd_feed_plain :: "chunked_decoder \<Rightarrow> bytes \<Rightarrow> ntstatus \<times> nat \<times> chunked_decoder" where
  "cd_feed_plain d data = cd_feed None data d"

definition cd_stopped :: "ntstatus \<Rightarrow> bool" where
  "cd_stopped st \<longleftrightarrow> st \<noteq> STATUS_MORE_PROCESSING_REQUIRED"

definition cd_ready :: "chunked_decoder \<Rightarrow> bool" where
  "cd_ready d \<longleftrightarrow> cd_initialized d \<and> cd_active d"

lemma cd_feed_eq: "cd_ready d \<Longrightarrow> cd_feed_plain d data = cd_loop None data 0 d"
  by (auto simp: cd_feed_plain_def cd_feed_def cd_ready_def cd_active_def cd_loop.simps)

interpretation chunked: incremental cd_feed_plain cd_stopped cd_ready
proof
  fix d d' :: chunked_decoder and xs ys :: bytes and st n
  assume ready: "cd_ready d" and f: "cd_feed_plain d xs = (st, n, d')"
  have l: "cd_loop None xs 0 d = (st, n, d')" using f cd_feed_eq [OF ready] by simp
  show ready': "cd_ready d'" if "\<not> cd_stopped st"
    using that cd_loop_active [of d xs 0 n d'] l ready by (auto simp: cd_stopped_def cd_ready_def)
  show "cd_feed_plain d (xs @ ys) = (if cd_stopped st then (st, n, d')
      else (case cd_feed_plain d' ys of (r', n', d'') \<Rightarrow> (r', n + n', d'')))"
    using l ready ready' cd_loop_append [of d xs ys 0] cd_loop_shift [of d' ys 0 n]
    by (auto simp: cd_feed_eq cd_stopped_def cd_ready_def split: prod.splits)
qed

section \<open>Well-formed bodies\<close>

text \<open>A chunk: the digits of its size, an extension (empty or from a semicolon on), its data.\<close>

type_synonym chunk = "bytes \<times> bytes \<times> bytes"

definition size_line_ok :: "bytes \<Rightarrow> bytes \<Rightarrow> nat \<Rightarrow> bool" where
  "size_line_ok digits extension n \<longleftrightarrow> digits \<noteq> [] \<and> length digits \<le> HttpMaxChunkSizeLineBytes
     \<and> chunk_size digits 0 = Some n \<and> (extension \<noteq> [] \<longrightarrow> hd extension = 59 \<and> 10 \<notin> set extension)"

definition chunk_ok :: "chunk \<Rightarrow> bool" where
  "chunk_ok = (\<lambda>(digits, extension, bs). size_line_ok digits extension (length bs) \<and> bs \<noteq> [])"

definition size_line :: "bytes \<Rightarrow> bytes \<Rightarrow> bytes" where
  "size_line digits extension = digits @ extension @ [13, 10]"

definition chunk_wire :: "chunk \<Rightarrow> bytes" where
  "chunk_wire = (\<lambda>(digits, extension, bs). size_line digits extension @ bs @ [13, 10])"

text \<open>A trailer: its name, blanks, its value, blanks.\<close>

type_synonym trailer = "bytes \<times> bytes \<times> bytes \<times> bytes"

definition trailer_ok :: "trailer \<Rightarrow> bool" where
  "trailer_ok = (\<lambda>(name, pre, val, post). name \<noteq> [] \<and> list_all is_tchar name \<and> list_all is_blank pre
     \<and> list_all is_blank post \<and> 10 \<notin> set val \<and> 13 \<notin> set val
     \<and> (val \<noteq> [] \<longrightarrow> \<not> is_blank (hd val) \<and> \<not> is_blank (last val))
     \<and> length name + 1 + length pre + length val + length post \<le> HttpMaxHeaderLineBytes)"

definition trailer_wire :: "trailer \<Rightarrow> bytes" where
  "trailer_wire = (\<lambda>(name, pre, val, post). name @ [58] @ pre @ val @ post @ [13, 10])"

definition trailer_field :: "trailer \<Rightarrow> bytes \<times> bytes" where
  "trailer_field = (\<lambda>(name, pre, val, post). (name, val))"

definition trailer_bytes :: "trailer \<Rightarrow> nat" where
  "trailer_bytes = (\<lambda>(name, pre, val, post). length name + length val)"

definition body_wire :: "chunk list \<Rightarrow> bytes \<Rightarrow> bytes \<Rightarrow> trailer list \<Rightarrow> bytes" where
  "body_wire chunks zeros extension ts =
     concat (map chunk_wire chunks) @ size_line zeros extension @ concat (map trailer_wire ts) @ [13, 10]"

text \<open>At the start of a size line.\<close>

definition cd_at_size :: "chunked_decoder \<Rightarrow> bool" where
  "cd_at_size d \<longleftrightarrow> cd_state d = SizeLine \<and> cd_size_line d = [] \<and> \<not> cd_has_digit d \<and> \<not> cd_extension d"

lemma chunk_size_digits: "chunk_size cs n = Some m \<Longrightarrow> list_all is_hex_digit cs"
  by (induction cs n rule: chunk_size.induct) (auto split: if_splits)

lemma loop_digits:
  assumes "cd_state d = SizeLine" "\<not> cd_extension d" "list_all is_hex_digit cs"
    "length (cd_size_line d) + length cs \<le> HttpMaxChunkSizeLineBytes"
  shows "cd_loop None (cs @ rest) offset d = cd_loop None rest (offset + length cs)
    (d\<lparr>cd_size_line := cd_size_line d @ cs, cd_has_digit := (cd_has_digit d \<or> cs \<noteq> [])\<rparr>)"
  using assms
proof (induction cs arbitrary: d offset)
  case (Cons c cs)
  have a: "cd_active d" using Cons.prems(1) by (simp add: cd_active_def)
  have "cd_step c d = (STATUS_SUCCESS, d\<lparr>cd_size_line := cd_size_line d @ [c], cd_has_digit := True\<rparr>)"
    using Cons.prems is_hex_digit_plain [of c] by (auto simp: cd_step_def cd_size_char_def)
  then show ?case using Cons by (simp add: cd_loop_Cons [OF a])
qed simp

lemma loop_extension:
  assumes "cd_state d = SizeLine" "cd_extension d" "10 \<notin> set cs"
  shows "cd_loop None (cs @ rest) offset d = cd_loop None rest (offset + length cs) d"
  using assms
proof (induction cs arbitrary: offset)
  case (Cons c cs)
  have a: "cd_active d" using Cons.prems(1) by (simp add: cd_active_def)
  have "cd_step c d = (STATUS_SUCCESS, d)"
    using Cons.prems by (auto simp: cd_step_def cd_size_char_def)
  then show ?case using Cons by (simp add: cd_loop_Cons [OF a])
qed simp

lemma loop_size_line:
  assumes "cd_at_size d" "size_line_ok digits extension n"
  shows "\<exists>d'. cd_loop None (size_line digits extension @ rest) offset d
      = cd_loop None rest (offset + length (size_line digits extension)) d'
    \<and> d' = (if n = 0 then d\<lparr>cd_remaining := 0, cd_state := TrailerLine, cd_trailer_line := []\<rparr>
            else d\<lparr>cd_remaining := n, cd_state := ChunkData\<rparr>)"
proof -
  let ?d1 = "d\<lparr>cd_size_line := digits, cd_has_digit := True\<rparr>"
  have s: "cd_state d = SizeLine" "\<not> cd_extension d" "cd_size_line d = []" "\<not> cd_has_digit d"
    using assms(1) by (simp_all add: cd_at_size_def)
  have digits: "digits \<noteq> []" "list_all is_hex_digit digits" "length digits \<le> HttpMaxChunkSizeLineBytes"
      "chunk_size digits 0 = Some n"
    using assms(2) chunk_size_digits by (auto simp: size_line_ok_def)
  have l1: "cd_loop None (digits @ xs) offset d = cd_loop None xs (offset + length digits) ?d1" for xs
    using loop_digits [of d digits xs offset] s digits by simp
  define d2 where "d2 = (if extension = [] then ?d1 else ?d1\<lparr>cd_extension := True\<rparr>)"
  have l2: "cd_loop None (extension @ xs) k ?d1 = cd_loop None xs (k + length extension) d2" for xs k
  proof (cases extension)
    case (Cons c cs)
    have a: "cd_active ?d1" using s by (simp add: cd_active_def)
    have "c = 59" "10 \<notin> set cs" using assms(2) Cons by (auto simp: size_line_ok_def)
    then show ?thesis
      using s loop_extension [of "?d1\<lparr>cd_extension := True\<rparr>" cs xs "k + 1"]
      by (simp add: Cons d2_def cd_loop_Cons [OF a] cd_step_def cd_size_char_def)
  qed (simp add: d2_def)
  have a2: "cd_active d2" and st2: "cd_state d2 = SizeLine" using s by (auto simp: d2_def cd_active_def)
  let ?d' = "if n = 0 then d\<lparr>cd_remaining := 0, cd_state := TrailerLine, cd_trailer_line := []\<rparr>
            else d\<lparr>cd_remaining := n, cd_state := ChunkData\<rparr>"
  have fin: "cd_finish_size_line d2 = (STATUS_SUCCESS, ?d')"
    using digits s by (auto simp: cd_finish_size_line_def d2_def Let_def)
  have l3: "cd_loop None ([13, 10] @ xs) k d2 = cd_loop None xs (k + 2) ?d'" for xs k
    using st2 fin by (simp add: cd_loop_Cons [OF a2] cd_step_def cd_size_char_def)
  show ?thesis
    unfolding size_line_def append.assoc l1 l2 l3 by (intro exI conjI, rule arg_cong2 [where f = "cd_loop None rest"]) auto
qed

lemma loop_data:
  assumes "cd_state d = ChunkData" "cd_remaining d = length bs" "bs \<noteq> []"
  shows "cd_loop None (bs @ rest) offset d = cd_loop None rest (offset + length bs)
    (d\<lparr>cd_remaining := 0, cd_output := cd_output d @ bs, cd_state := ChunkDataCr\<rparr>)"
  using assms by (cases bs) (simp_all add: cd_loop.simps Let_def)

lemma loop_chunk:
  assumes "cd_at_size d" "chunk_ok ch"
  shows "cd_loop None (chunk_wire ch @ rest) offset d = cd_loop None rest (offset + length (chunk_wire ch))
    (d\<lparr>cd_remaining := 0, cd_output := cd_output d @ snd (snd ch)\<rparr>)"
proof -
  obtain digits extension bs where ch: "ch = (digits, extension, bs)" by (cases ch)
  have ok: "size_line_ok digits extension (length bs)" "bs \<noteq> []" using assms(2) by (auto simp: chunk_ok_def ch)
  let ?d1 = "d\<lparr>cd_remaining := length bs, cd_state := ChunkData\<rparr>"
  let ?d2 = "?d1\<lparr>cd_remaining := 0, cd_output := cd_output d @ bs, cd_state := ChunkDataCr\<rparr>"
  let ?d3 = "d\<lparr>cd_remaining := 0, cd_output := cd_output d @ bs\<rparr>"
  have at: "cd_state d = SizeLine" using assms(1) by (simp add: cd_at_size_def)
  have l1: "cd_loop None (size_line digits extension @ xs) k d
      = cd_loop None xs (k + length (size_line digits extension)) ?d1" for xs k
    using loop_size_line [OF assms(1) ok(1), of xs k] ok(2) by auto
  have l2: "cd_loop None (bs @ xs) k ?d1 = cd_loop None xs (k + length bs) ?d2" for xs k
    using loop_data [of ?d1 bs xs k] ok(2) by simp
  have a2: "cd_active ?d2" and a3: "cd_active (?d2\<lparr>cd_state := ChunkDataLf\<rparr>)" by (simp_all add: cd_active_def)
  have reset: "?d2\<lparr>cd_state := SizeLine, cd_size_line := [], cd_has_digit := False, cd_extension := False\<rparr> = ?d3"
    using assms(1) by (cases d) (simp add: cd_at_size_def)
  have l3: "cd_loop None ([13, 10] @ xs) k ?d2 = cd_loop None xs (k + 2) ?d3" for xs k
    unfolding append.simps using reset at
    by (subst cd_loop_Cons [OF a2], simp add: cd_step_def, subst cd_loop_Cons [OF a3 [simplified]]) (simp add: cd_step_def)
  show ?thesis by (simp add: ch chunk_wire_def l1 l2 l3 [simplified] ac_simps)
qed

lemma loop_chunks:
  assumes "cd_at_size d" "list_all chunk_ok chunks"
  shows "\<exists>r. cd_loop None (concat (map chunk_wire chunks) @ rest) offset d
    = cd_loop None rest (offset + length (concat (map chunk_wire chunks)))
        (d\<lparr>cd_remaining := r, cd_output := cd_output d @ concat (map (\<lambda>ch. snd (snd ch)) chunks)\<rparr>)"
  using assms
proof (induction chunks arbitrary: d offset)
  case Nil
  show ?case by (rule exI [of _ "cd_remaining d"]) simp
next
  case (Cons ch chunks)
  let ?d1 = "d\<lparr>cd_remaining := 0, cd_output := cd_output d @ snd (snd ch)\<rparr>"
  have "cd_at_size ?d1" using Cons.prems(1) by (simp add: cd_at_size_def)
  from Cons.IH [OF this, of "offset + length (chunk_wire ch)"] Cons.prems loop_chunk [of d ch "concat (map chunk_wire chunks) @ rest" offset]
  show ?case by (auto simp: add.assoc)
qed

section \<open>Trailers\<close>

lemma loop_trailer_chars:
  assumes "cd_state d = TrailerLine" "10 \<notin> set cs" "13 \<notin> set cs"
    "length (cd_trailer_line d) + length cs \<le> HttpMaxHeaderLineBytes"
  shows "cd_loop None (cs @ rest) offset d = cd_loop None rest (offset + length cs)
    (d\<lparr>cd_trailer_line := cd_trailer_line d @ cs\<rparr>)"
  using assms
proof (induction cs arbitrary: d offset)
  case (Cons c cs)
  have a: "cd_active d" using Cons.prems(1) by (simp add: cd_active_def)
  have "cd_step c d = (STATUS_SUCCESS, d\<lparr>cd_trailer_line := cd_trailer_line d @ [c]\<rparr>)"
    using Cons.prems by (auto simp: cd_step_def cd_trailer_char_def)
  then show ?case using Cons by (simp add: cd_loop_Cons [OF a])
qed simp

lemma loop_trailer:
  assumes "cd_state d = TrailerLine" "cd_trailer_line d = []" "trailer_ok t"
    "cd_storage d = Some n" "length (cd_trailers d) < n" "cd_arena_used d + trailer_bytes t \<le> cd_arena_capacity d"
  shows "cd_loop None (trailer_wire t @ rest) offset d = cd_loop None rest (offset + length (trailer_wire t))
    (d\<lparr>cd_arena_used := cd_arena_used d + trailer_bytes t, cd_trailers := cd_trailers d @ [trailer_field t]\<rparr>)"
proof -
  obtain name pre val post where t: "t = (name, pre, val, post)" by (cases t)
  define line where "line = name @ [58] @ pre @ val @ post"
  have ok: "name \<noteq> []" "list_all is_tchar name" "list_all is_blank pre" "list_all is_blank post"
      "10 \<notin> set val" "13 \<notin> set val" "val \<noteq> [] \<longrightarrow> \<not> is_blank (hd val) \<and> \<not> is_blank (last val)"
      "length name + 1 + length pre + length val + length post \<le> HttpMaxHeaderLineBytes"
    using assms(3) by (auto simp: trailer_ok_def t)
  have name: "10 \<notin> set name" "13 \<notin> set name" "58 \<notin> set name"
    using ok(2) is_tchar_plain by (auto simp: list_all_iff)
  have blanks: "10 \<notin> set pre \<union> set post" "13 \<notin> set pre \<union> set post"
    using ok(3,4) by (auto simp: list_all_iff is_blank_def)
  have line: "10 \<notin> set line" "13 \<notin> set line" "length line \<le> HttpMaxHeaderLineBytes"
    using name blanks ok by (auto simp: line_def)
  have tw: "takeWhile (\<lambda>c. c \<noteq> 58) line = name"
    using takeWhile_name [OF name(3), of "pre @ val @ post"] by (simp add: line_def)
  have dr: "drop (length name + 1) line = pre @ val @ post" by (simp add: line_def)
  let ?d1 = "d\<lparr>cd_trailer_line := line\<rparr>"
  let ?d2 = "d\<lparr>cd_arena_used := cd_arena_used d + trailer_bytes t, cd_trailers := cd_trailers d @ [trailer_field t]\<rparr>"
  have l1: "cd_loop None (line @ xs) k d = cd_loop None xs (k + length line) ?d1" for xs k
    using loop_trailer_chars [of d line xs k] assms(1,2) line by simp
  have a1: "cd_active ?d1" using assms(1) by (simp add: cd_active_def)
  have clear: "?d2\<lparr>cd_trailer_line := []\<rparr> = ?d2" using assms(2) by (cases d) simp
  have fin: "cd_finish_trailer_line ?d1 = (STATUS_SUCCESS, ?d2)"
    using assms ok(1,2) clear
    by (simp add: cd_finish_trailer_line_def tw dr [simplified] trim_blanks_between [OF ok(3,4,7)] Let_def
        t trailer_bytes_def trailer_field_def) (simp add: line_def)
  have l2: "cd_loop None ([13, 10] @ xs) k ?d1 = cd_loop None xs (k + 2) ?d2" for xs k
    using assms(1) fin by (simp add: cd_loop_Cons [OF a1] cd_step_def cd_trailer_char_def)
  have w: "trailer_wire t = line @ [13, 10]" by (simp add: t trailer_wire_def line_def)
  show ?thesis unfolding w append.assoc l1 l2 by simp
qed

lemma loop_trailers:
  assumes "cd_state d = TrailerLine" "cd_trailer_line d = []" "list_all trailer_ok ts" "cd_storage d = Some n"
    "length (cd_trailers d) + length ts \<le> n"
    "cd_arena_used d + sum_list (map trailer_bytes ts) \<le> cd_arena_capacity d"
  shows "cd_loop None (concat (map trailer_wire ts) @ rest) offset d
    = cd_loop None rest (offset + length (concat (map trailer_wire ts)))
        (d\<lparr>cd_arena_used := cd_arena_used d + sum_list (map trailer_bytes ts),
           cd_trailers := cd_trailers d @ map trailer_field ts\<rparr>)"
  using assms
proof (induction ts arbitrary: d offset)
  case (Cons t ts)
  let ?d1 = "d\<lparr>cd_arena_used := cd_arena_used d + trailer_bytes t, cd_trailers := cd_trailers d @ [trailer_field t]\<rparr>"
  from Cons.IH [of ?d1 "offset + length (trailer_wire t)"] Cons.prems
    loop_trailer [of d t n "concat (map trailer_wire ts) @ rest" offset]
  show ?case by (simp add: add.assoc)
qed simp

lemma loop_body:
  assumes "cd_at_size d" "list_all chunk_ok chunks" "size_line_ok zeros extension 0" "list_all trailer_ok ts"
    "cd_storage d = Some n" "length (cd_trailers d) + length ts \<le> n"
    "cd_arena_used d + sum_list (map trailer_bytes ts) \<le> cd_arena_capacity d"
  shows "\<exists>d'. cd_loop None (body_wire chunks zeros extension ts @ rest) 0 d
      = (STATUS_SUCCESS, length (body_wire chunks zeros extension ts), d')
    \<and> cd_state d' = ChunkComplete
    \<and> cd_output d' = cd_output d @ concat (map (\<lambda>ch. snd (snd ch)) chunks)
    \<and> cd_trailers d' = cd_trailers d @ map trailer_field ts"
proof -
  let ?w1 = "concat (map chunk_wire chunks)" and ?w3 = "concat (map trailer_wire ts)"
  obtain r where l1: "cd_loop None (?w1 @ xs) 0 d = cd_loop None xs (length ?w1)
      (d\<lparr>cd_remaining := r, cd_output := cd_output d @ concat (map (\<lambda>ch. snd (snd ch)) chunks)\<rparr>)"
    if "xs = size_line zeros extension @ ?w3 @ [13, 10] @ rest" for xs
    using loop_chunks [OF assms(1,2), of "size_line zeros extension @ ?w3 @ [13, 10] @ rest" 0] by auto
  define d1 where "d1 = d\<lparr>cd_remaining := r, cd_output := cd_output d @ concat (map (\<lambda>ch. snd (snd ch)) chunks)\<rparr>"
  define d2 where "d2 = d1\<lparr>cd_remaining := 0, cd_state := TrailerLine, cd_trailer_line := []\<rparr>"
  define d3 where "d3 = d2\<lparr>cd_arena_used := cd_arena_used d2 + sum_list (map trailer_bytes ts),
      cd_trailers := cd_trailers d2 @ map trailer_field ts\<rparr>"
  have at: "cd_at_size d1" using assms(1) by (simp add: cd_at_size_def d1_def)
  have l2: "cd_loop None (size_line zeros extension @ xs) k d1
      = cd_loop None xs (k + length (size_line zeros extension)) d2" for xs k
    using loop_size_line [OF at assms(3), of xs k] by (simp add: d2_def)
  have l3: "cd_loop None (?w3 @ xs) k d2 = cd_loop None xs (k + length ?w3) d3" for xs k
    unfolding d3_def using assms(4-7) by (intro loop_trailers [where n = n]) (simp_all add: d2_def d1_def)
  have a3: "cd_active d3" and line: "cd_trailer_line d3 = []" and st: "cd_state d3 = TrailerLine"
    by (simp_all add: cd_active_def d3_def d2_def)
  have l4: "cd_loop None ([13, 10] @ xs) k d3 = (STATUS_SUCCESS, k + 2, d3\<lparr>cd_state := ChunkComplete\<rparr>)" for xs k
    using st line by (simp add: cd_loop_Cons [OF a3] cd_step_def cd_trailer_char_def cd_finish_trailer_line_def)
  have "cd_loop None (body_wire chunks zeros extension ts @ rest) 0 d
      = (STATUS_SUCCESS, length (body_wire chunks zeros extension ts), d3\<lparr>cd_state := ChunkComplete\<rparr>)"
    unfolding body_wire_def append.assoc l1 [OF refl, folded d1_def] l2 l3 l4 by simp
  then show ?thesis by (intro exI conjI) (auto simp: d3_def d2_def d1_def)
qed

text \<open>
  C40. A well-formed chunked body (chunks with any extensions, the zero chunk, trailers with blanks around
  their values, the empty line), however the wire cuts it and whatever follows it, is decoded to success at
  exactly its end: the payload is the concatenation of the chunks' data, and the trailers come out in
  order with their values trimmed. The trailer storage and the arena must have room. The payload is the
  bytes the callback is given; no callback is set here.
\<close>

theorem chunked_body_decoded:
  assumes "cd_ready d" "cd_at_size d" "list_all chunk_ok chunks" "size_line_ok zeros extension 0"
    "list_all trailer_ok ts" "cd_storage d = Some n" "length (cd_trailers d) + length ts \<le> n"
    "cd_arena_used d + sum_list (map trailer_bytes ts) \<le> cd_arena_capacity d"
    "concat pieces = body_wire chunks zeros extension ts @ rest"
  shows "\<exists>d'. feed_pieces cd_feed_plain cd_stopped d pieces
      = (STATUS_SUCCESS, length (body_wire chunks zeros extension ts), d')
    \<and> cd_state d' = ChunkComplete
    \<and> cd_output d' = cd_output d @ concat (map (\<lambda>ch. snd (snd ch)) chunks)
    \<and> cd_trailers d' = cd_trailers d @ map trailer_field ts"
  using chunked.pieces_irrelevant [OF assms(1), of pieces] loop_body [OF assms(2-8), of rest]
  by (simp add: assms(9) cd_feed_eq [OF assms(1)])

definition chunked_example :: chunked_decoder where
  "chunked_example = cd_set_trailer_storage (Some 2) (snd (cd_initialize True cd_new))"

text \<open>\<open>5;x\<close>, \<open>hello\<close>, \<open>0\<close>, \<open>a: b\<close>, in two pieces and with bytes after the body.\<close>

lemma chunked_body_decoded_witness:
  "\<exists>d'. feed_pieces cd_feed_plain cd_stopped chunked_example
      [[53, 59, 120, 13, 10, 104, 101], [108, 108, 111, 13, 10, 48, 13, 10, 97, 58, 32, 98, 13, 10, 13, 10, 72]]
      = (STATUS_SUCCESS, 23, d')
    \<and> cd_state d' = ChunkComplete \<and> cd_output d' = [104, 101, 108, 108, 111] \<and> cd_trailers d' = [([97], [98])]"
proof -
  let ?chunks = "[([53], [59, 120], [104, 101, 108, 108, 111])] :: chunk list"
  let ?ts = "[([97], [32], [98], [])] :: trailer list"
  note wire_defs = body_wire_def chunk_wire_def size_line_def trailer_wire_def
  have len: "length (body_wire ?chunks [48] [] ?ts) = 23" by (simp add: wire_defs)
  have cut: "concat [[53, 59, 120, 13, 10, 104, 101], [108, 108, 111, 13, 10, 48, 13, 10, 97, 58, 32, 98, 13, 10, 13, 10, 72]]
      = body_wire ?chunks [48] [] ?ts @ [72]" by (simp add: wire_defs)
  have d: "cd_ready chunked_example" "cd_at_size chunked_example" "cd_storage chunked_example = Some 2"
      "cd_output chunked_example = []" "cd_trailers chunked_example = []"
      "cd_arena_used chunked_example = 0" "cd_arena_capacity chunked_example = 4096"
    by (simp_all add: chunked_example_def cd_set_trailer_storage_def cd_initialize_def cd_new_def cd_ready_def
        cd_active_def cd_at_size_def)
  have wf: "list_all chunk_ok ?chunks" "size_line_ok [48] [] 0" "list_all trailer_ok ?ts"
    by (simp_all add: chunk_ok_def size_line_ok_def is_hex_digit_def hex_value_def HttpMaxChunkSizeLineBytes_def
        HttpMaxHeaderLineBytes_def trailer_ok_def is_tchar_def is_blank_def u64_max_def)
  show ?thesis
    using chunked_body_decoded [OF d(1,2) wf d(3) _ _ cut, unfolded len] d
    by (simp add: trailer_bytes_def trailer_field_def del: feed_pieces.simps)
qed

section \<open>What the size line lets through\<close>

lemma extension_unbounded:
  assumes "cd_state d = SizeLine" "cd_extension d" "10 \<notin> set cs"
  shows "cd_loop None cs 0 d = (STATUS_MORE_PROCESSING_REQUIRED, length cs, d)"
  using loop_extension [OF assms, of "[]" 0] assms(1) by (simp add: cd_loop.simps)

lemma carriage_return_inside_size:
  "cd_feed_plain (snd (cd_initialize True cd_new)) [49, 13, 48, 10]
     = (STATUS_MORE_PROCESSING_REQUIRED, 4, (snd (cd_initialize True cd_new))\<lparr>cd_remaining := 16, cd_state := ChunkData\<rparr>)"
  by (simp add: cd_feed_plain_def cd_feed_def cd_initialize_def cd_new_def cd_loop.simps cd_size_char_def
      cd_finish_size_line_def is_hex_digit_def hex_value_def HttpMaxChunkSizeLineBytes_def u64_max_def)

end
