(* ===== verification/HttpParser.thy ===== *)
theory HttpParser
  imports HttpChunkedDecoder
begin

text \<open>
  The HTTP/1.1 response parser, \<open>src/wknetlib/http1/HttpParser.cpp\<close>, with the transfer codings of
  \<open>HttpTransferCoding.cpp\<close> and the chain of decoders of \<open>codec/ContentCoding.cpp\<close>. The single decoders and the
  content coding of a body are functions of the environment. A pointer to a body is the buffer it points into.
  The lemmas show that a response ends exactly where the parser says: more input does not change it, less
  input makes the parser ask for more.
\<close>

definition HttpMaxHeaderBytes :: nat where "HttpMaxHeaderBytes = 64 * 1024"
definition HttpMaxHeaders :: nat where "HttpMaxHeaders = 512"
definition HttpMaxChunks :: nat where "HttpMaxChunks = 8192"
definition HttpMaxTrailers :: nat where "HttpMaxTrailers = 512"
definition HttpMaxTransferCodings :: nat where "HttpMaxTransferCodings = 4"

section \<open>Parameters of a field\<close>

definition IsQuotedPairText :: "byte \<Rightarrow> bool" where
  "IsQuotedPairText c \<longleftrightarrow> c = 9 \<or> (0x20 \<le> c \<and> c \<le> 0x7e)"

text \<open>What follows a quoted string, from behind its opening quote.\<close>

fun quoted_rest :: "bytes \<Rightarrow> bytes option" where
  "quoted_rest [] = None"
| "quoted_rest (c # r) =
     (if c = 34 then Some r
      else if c = 92 then (case r of [] \<Rightarrow> None | q # r' \<Rightarrow> if IsQuotedPairText q then quoted_rest r' else None)
      else if c \<noteq> 9 \<and> c < 0x20 then None
      else quoted_rest r)"

lemma quoted_rest_length: "quoted_rest r = Some r' \<Longrightarrow> length r' < length r"
  by (induction r rule: quoted_rest.induct) (force split: if_splits list.splits)+

definition parameter_value_rest :: "bytes \<Rightarrow> bytes option" where
  "parameter_value_rest r =
     (if r = [] then None
      else if hd r = 34 then quoted_rest (tl r)
      else if takeWhile is_tchar r = [] then None else Some (dropWhile is_tchar r))"

lemma parameter_value_length: "parameter_value_rest r = Some r' \<Longrightarrow> length r' \<le> length r"
  by (cases r) (auto simp: parameter_value_rest_def length_dropWhile_le le_SucI dest!: quoted_rest_length split: if_splits)

lemma length_drops: "length (dropWhile P (dropWhile Q (dropWhile R xs))) \<le> length xs"
  by (meson length_dropWhile_le order_trans)

function ValidateSemicolonParameters :: "bytes \<Rightarrow> ntstatus" where
  "ValidateSemicolonParameters [] = STATUS_SUCCESS"
| "ValidateSemicolonParameters (c # r) =
     (if c \<noteq> 59 then STATUS_INVALID_NETWORK_RESPONSE
      else let r1 = dropWhile is_blank r; r2 = dropWhile is_blank (dropWhile is_tchar r1)
        in if takeWhile is_tchar r1 = [] then STATUS_INVALID_NETWORK_RESPONSE
           else if r2 = [] \<or> hd r2 = 59 then ValidateSemicolonParameters r2
           else if hd r2 \<noteq> 61 then STATUS_INVALID_NETWORK_RESPONSE
           else case parameter_value_rest (dropWhile is_blank (tl r2)) of
                  None \<Rightarrow> STATUS_INVALID_NETWORK_RESPONSE
                | Some r4 \<Rightarrow>
                    let r5 = dropWhile is_blank r4
                    in if r5 \<noteq> [] \<and> hd r5 \<noteq> 59 then STATUS_INVALID_NETWORK_RESPONSE
                       else ValidateSemicolonParameters r5)"
  by pat_completeness auto

termination
proof (relation "measure length", simp)
  fix c :: byte and r x xa
  assume "x = dropWhile is_blank r" "xa = dropWhile is_blank (dropWhile is_tchar x)"
  then show "(xa, c # r) \<in> measure length" using length_drops [of is_blank is_tchar is_blank r] by simp
next
  fix c :: byte and r x xa x2 xb
  assume "x = dropWhile is_blank r" "xa = dropWhile is_blank (dropWhile is_tchar x)"
    "parameter_value_rest (dropWhile is_blank (tl xa)) = Some x2" "xb = dropWhile is_blank x2"
  then show "(xb, c # r) \<in> measure length"
    using length_drops [of is_blank is_tchar is_blank r] parameter_value_length [of "dropWhile is_blank (tl xa)" x2]
      length_dropWhile_le [of is_blank x2] length_dropWhile_le [of is_blank "tl xa"] by simp
qed

section \<open>Lines\<close>

definition IsValidHeaderName :: "bytes \<Rightarrow> bool" where
  "IsValidHeaderName text \<longleftrightarrow> text \<noteq> [] \<and> list_all is_tchar text"

definition IsValidHeaderValue :: "bytes \<Rightarrow> bool" where
  "IsValidHeaderValue text \<longleftrightarrow> list_all (\<lambda>c. \<not> (c \<noteq> 9 \<and> (c < 0x20 \<or> c = 0x7f))) text"

definition IsForbiddenTrailerField :: "bytes \<Rightarrow> bool" where
  "IsForbiddenTrailerField name \<longleftrightarrow> list_ex (\<lambda>f. TextEqualsIgnoreCase name (ascii f))
     [''Content-Length'', ''Transfer-Encoding'', ''Host'', ''Authorization'', ''Proxy-Authorization'', ''Cookie'', ''Set-Cookie'']"

text \<open>The name and the value of a line with a colon, neither empty nor starting with a blank.\<close>

definition field_line :: "bytes \<Rightarrow> (bytes \<times> bytes) option" where
  "field_line line =
     (let name = takeWhile (\<lambda>c. c \<noteq> 58) line
      in if is_blank (hd line) then None
         else if length name = length line \<or> name = [] then None
         else Some (name, trim_blanks (drop (length name + 1) line)))"

definition ParseTrailerFieldLine :: "bytes \<Rightarrow> http_header result" where
  "ParseTrailerFieldLine line =
     (if line = [] then Inl STATUS_INVALID_PARAMETER
      else case field_line line of
             None \<Rightarrow> Inl STATUS_INVALID_NETWORK_RESPONSE
           | Some (name, val) \<Rightarrow>
               if \<not> IsValidHeaderName name \<or> \<not> IsValidHeaderValue val \<or> IsForbiddenTrailerField name
               then Inl STATUS_INVALID_NETWORK_RESPONSE else Inr (name, val))"

definition StartsWith :: "bytes \<Rightarrow> bytes \<Rightarrow> bool" where
  "StartsWith text start \<longleftrightarrow> take (length start) text = start"

fun crlf_index :: "bytes \<Rightarrow> nat option" where
  "crlf_index (a # b # r) = (if a = 13 \<and> b = 10 then Some 0 else map_option Suc (crlf_index (b # r)))"
| "crlf_index [a] = None"
| "crlf_index [] = None"

definition FindCrlf :: "bytes \<Rightarrow> nat \<Rightarrow> nat option" where
  "FindCrlf data start = map_option (\<lambda>i. start + i) (crlf_index (drop start data))"

fun header_end_index :: "bytes \<Rightarrow> nat option" where
  "header_end_index [] = None"
| "header_end_index (c # r) =
     (if take 4 (c # r) = [13, 10, 13, 10] then Some 4 else map_option Suc (header_end_index r))"

definition FindHeaderEnd :: "bytes \<Rightarrow> nat option" where
  "FindHeaderEnd data = header_end_index data"

section \<open>Numbers\<close>

fun uint16_digits :: "bytes \<Rightarrow> nat \<Rightarrow> nat result" where
  "uint16_digits [] v = Inr v"
| "uint16_digits (c # cs) v =
     (if \<not> is_digit c then Inl STATUS_INVALID_NETWORK_RESPONSE
      else let v1 = v * 10 + unat (c - 48) in if v1 > 0xffff then Inl STATUS_INTEGER_OVERFLOW else uint16_digits cs v1)"

definition ParseUInt16 :: "bytes \<Rightarrow> nat result" where
  "ParseUInt16 text = (if text = [] then Inl STATUS_INVALID_PARAMETER else uint16_digits text 0)"

fun size_digits :: "bytes \<Rightarrow> nat \<Rightarrow> nat result" where
  "size_digits [] v = Inr v"
| "size_digits (c # cs) v =
     (if \<not> is_digit c then Inl STATUS_INVALID_NETWORK_RESPONSE
      else let digit = unat (c - 48)
        in if v > (u64_max - digit) div 10 then Inl STATUS_INTEGER_OVERFLOW else size_digits cs (v * 10 + digit))"

definition ParseSize :: "bytes \<Rightarrow> nat result" where
  "ParseSize text = (if text = [] then Inl STATUS_INVALID_PARAMETER else size_digits text 0)"

fun hex_digits :: "bytes \<Rightarrow> nat \<Rightarrow> nat result" where
  "hex_digits [] v = Inr v"
| "hex_digits (c # cs) v =
     (if \<not> is_hex_digit c then Inl STATUS_INVALID_NETWORK_RESPONSE
      else let digit = unat (hex_value c)
        in if v > (u64_max - digit) div 16 then Inl STATUS_INTEGER_OVERFLOW else hex_digits cs (v * 16 + digit))"

definition ParseHexSize :: "bytes \<Rightarrow> nat result" where
  "ParseHexSize text = (if text = [] then Inl STATUS_INVALID_PARAMETER else hex_digits text 0)"

section \<open>Status line and headers\<close>

definition StatusCodeHasNoBody :: "nat \<Rightarrow> bool" where
  "StatusCodeHasNoBody code \<longleftrightarrow> code \<ge> 100 \<and> code \<le> 199 \<or> code = 204 \<or> code = 205 \<or> code = 304"

text \<open>Version, status code and reason phrase.\<close>

definition ParseStatusLine :: "bytes \<Rightarrow> (nat \<times> nat \<times> nat \<times> bytes) result" where
  "ParseStatusLine line =
     (if \<not> StartsWith line (ascii ''HTTP/'') then Inl STATUS_INVALID_NETWORK_RESPONSE
      else let major = takeWhile is_digit (drop 5 line); t1 = dropWhile is_digit (drop 5 line)
        in if major = [] \<or> t1 = [] \<or> hd t1 \<noteq> 46 then Inl STATUS_INVALID_NETWORK_RESPONSE
           else rbind (ParseUInt16 major) (\<lambda>majorVersion.
                let minor = takeWhile is_digit (tl t1); t2 = dropWhile is_digit (tl t1)
                in if minor = [] \<or> t2 = [] \<or> hd t2 \<noteq> 32 then Inl STATUS_INVALID_NETWORK_RESPONSE
                   else rbind (ParseUInt16 minor) (\<lambda>minorVersion.
                        if majorVersion \<noteq> 1 \<or> minorVersion > 1 then Inl STATUS_INVALID_NETWORK_RESPONSE
                        else let t3 = dropWhile (\<lambda>c. c = 32) t2
                          in if length t3 < 3 \<or> \<not> list_all is_digit (take 3 t3) then Inl STATUS_INVALID_NETWORK_RESPONSE
                             else rbind (ParseUInt16 (take 3 t3)) (\<lambda>statusCode.
                                  if statusCode < 100 \<or> statusCode > 599 then Inl STATUS_INVALID_NETWORK_RESPONSE
                                  else if drop 3 t3 = [] then Inr (majorVersion, minorVersion, statusCode, [])
                                  else if t3 ! 3 \<noteq> 32 then Inl STATUS_INVALID_NETWORK_RESPONSE
                                  else Inr (majorVersion, minorVersion, statusCode, drop 4 t3)))))"

lemma crlf_index_bound: "crlf_index xs = Some i \<Longrightarrow> i + 2 \<le> length xs \<and> xs ! i = 13 \<and> xs ! (i + 1) = 10"
  by (induction xs arbitrary: i rule: crlf_index.induct) (auto split: if_splits)

lemma FindCrlf_bound: "FindCrlf data c = Some e \<Longrightarrow> c \<le> e \<and> e + 2 \<le> length data"
  using crlf_index_bound by (fastforce simp: FindCrlf_def)

text \<open>The loop of \<open>ParseHeaders\<close>; the capacity is \<open>None\<close> when there is no array.\<close>

function header_lines :: "bytes \<Rightarrow> nat \<Rightarrow> nat option \<Rightarrow> nat \<Rightarrow> http_header list \<Rightarrow> http_header list result" where
  "header_lines data headerEnd capacity cursor headers =
     (if \<not> cursor < headerEnd - 2 then Inr headers
      else case FindCrlf data cursor of
             None \<Rightarrow> Inl STATUS_INVALID_NETWORK_RESPONSE
           | Some lineEnd \<Rightarrow>
               let line = view data cursor (lineEnd - cursor)
               in if lineEnd > headerEnd then Inl STATUS_INVALID_NETWORK_RESPONSE
                  else if lineEnd - cursor > HttpMaxHeaderLineBytes then Inl STATUS_INVALID_NETWORK_RESPONSE
                  else if lineEnd = cursor then Inr headers
                  else case field_line line of
                         None \<Rightarrow> Inl STATUS_INVALID_NETWORK_RESPONSE
                       | Some (name, val) \<Rightarrow>
                           if length headers \<ge> HttpMaxHeaders \<or> (case capacity of None \<Rightarrow> True | Some n \<Rightarrow> length headers \<ge> n)
                           then Inl STATUS_BUFFER_TOO_SMALL
                           else if \<not> IsValidHeaderName name \<or> \<not> IsValidHeaderValue val then Inl STATUS_INVALID_NETWORK_RESPONSE
                           else header_lines data headerEnd capacity (lineEnd + 2) (headers @ [(name, val)]))"
  by pat_completeness auto

termination
  by (relation "measure (\<lambda>(data, headerEnd, capacity, cursor, headers). headerEnd - cursor)") (auto dest!: FindCrlf_bound)

declare header_lines.simps [simp del]

definition ParseHeaders :: "bytes \<Rightarrow> nat \<Rightarrow> nat \<Rightarrow> nat option \<Rightarrow> http_header list result" where
  "ParseHeaders data headerStart headerEnd capacity =
     (if headerEnd < headerStart \<or> headerEnd - headerStart > HttpMaxHeaderBytes then Inl STATUS_INVALID_NETWORK_RESPONSE
      else header_lines data headerEnd capacity headerStart [])"

fun content_length_loop :: "http_header list \<Rightarrow> nat option \<Rightarrow> nat option result" where
  "content_length_loop [] found = Inr found"
| "content_length_loop (h # hs) found =
     (if \<not> TextEqualsIgnoreCase (fst h) (ascii ''Content-Length'') then content_length_loop hs found
      else let val = trim_blanks (snd h)
        in if val = [] \<or> 44 \<in> set val then Inl STATUS_INVALID_NETWORK_RESPONSE
           else if found \<noteq> None then Inl STATUS_INVALID_NETWORK_RESPONSE
           else rbind (ParseSize val) (\<lambda>parsed. content_length_loop hs (Some parsed)))"

definition ReadContentLength :: "http_header list \<Rightarrow> nat option result" where
  "ReadContentLength headers = content_length_loop headers None"

section \<open>Chunked bodies\<close>

text \<open>
  The loop over the trailers: the stored ones, their number and the offset behind them. The capacity is
  \<open>None\<close> when they are not stored.
\<close>

function trailer_lines ::
    "bytes \<Rightarrow> nat option \<Rightarrow> nat \<Rightarrow> http_header list \<Rightarrow> nat \<Rightarrow> (http_header list \<times> nat \<times> nat) result" where
  "trailer_lines data capacity cursor trailers trailerCount =
     (case FindCrlf data cursor of
        None \<Rightarrow> Inl STATUS_MORE_PROCESSING_REQUIRED
      | Some lineEnd \<Rightarrow>
          if lineEnd - cursor > HttpMaxHeaderLineBytes then Inl STATUS_INVALID_NETWORK_RESPONSE
          else if lineEnd = cursor then Inr (trailers, trailerCount, cursor + 2)
          else if trailerCount \<ge> HttpMaxTrailers then Inl STATUS_INVALID_NETWORK_RESPONSE
          else if (case capacity of None \<Rightarrow> False | Some n \<Rightarrow> trailerCount \<ge> n) then Inl STATUS_BUFFER_TOO_SMALL
          else case ParseTrailerFieldLine (view data cursor (lineEnd - cursor)) of
                 Inl e \<Rightarrow> Inl e
               | Inr t \<Rightarrow> trailer_lines data capacity (lineEnd + 2)
                            (if capacity = None then trailers else trailers @ [t]) (trailerCount + 1))"
  by pat_completeness auto

termination
  by (relation "measure (\<lambda>(data, capacity, cursor, trailers, trailerCount). length data - cursor)") (auto dest!: FindCrlf_bound)

declare trailer_lines.simps [simp del]

text \<open>A chunk-size line: the size it names.\<close>

definition chunk_size_line :: "bytes \<Rightarrow> nat result" where
  "chunk_size_line line =
     (let sizePart = takeWhile (\<lambda>c. c \<noteq> 59) line; extension = drop (length sizePart) line;
          st = (if extension \<noteq> [] then ValidateSemicolonParameters extension else STATUS_SUCCESS);
          text = trim_blanks sizePart
      in if st \<noteq> STATUS_SUCCESS then Inl st
         else if text = [] then Inl STATUS_INVALID_NETWORK_RESPONSE
         else ParseHexSize text)"

record chunked_result =
  cr_body :: bytes
  cr_consumed :: nat
  cr_trailers :: "http_header list"
  cr_trailer_count :: nat

text \<open>The loop of \<open>DecodeChunkedBodyWithTrailers\<close>; \<open>room\<close> is the capacity of the destination, if there is one.\<close>

function chunk_loop ::
    "bytes \<Rightarrow> nat option \<Rightarrow> nat option \<Rightarrow> nat \<Rightarrow> nat \<Rightarrow> bytes \<Rightarrow> chunked_result result" where
  "chunk_loop data room trailerCapacity cursor chunkCount decoded =
     (case FindCrlf data cursor of
        None \<Rightarrow> Inl STATUS_MORE_PROCESSING_REQUIRED
      | Some lineEnd \<Rightarrow>
          if lineEnd - cursor > HttpMaxChunkSizeLineBytes then Inl STATUS_INVALID_NETWORK_RESPONSE
          else case chunk_size_line (view data cursor (lineEnd - cursor)) of
                 Inl e \<Rightarrow> Inl e
               | Inr chunkSize \<Rightarrow>
                   let c1 = lineEnd + 2; c2 = c1 + chunkSize
                   in if chunkSize = 0
                      then rbind (trailer_lines data trailerCapacity c1 [] 0) (\<lambda>(ts, n, consumed).
                             Inr \<lparr>cr_body = decoded, cr_consumed = consumed, cr_trailers = ts, cr_trailer_count = n\<rparr>)
                      else if chunkCount + 1 > HttpMaxChunks then Inl STATUS_INVALID_NETWORK_RESPONSE
                      else if chunkSize > length data - c1 then Inl STATUS_MORE_PROCESSING_REQUIRED
                      else if (case room of None \<Rightarrow> True | Some n \<Rightarrow> length decoded > n \<or> chunkSize > n - length decoded)
                      then Inl STATUS_BUFFER_TOO_SMALL
                      else if c2 + 2 > length data then Inl STATUS_MORE_PROCESSING_REQUIRED
                      else if data ! c2 \<noteq> 13 \<or> data ! (c2 + 1) \<noteq> 10 then Inl STATUS_INVALID_NETWORK_RESPONSE
                      else chunk_loop data room trailerCapacity (c2 + 2) (chunkCount + 1) (decoded @ view data c1 chunkSize))"
  by pat_completeness auto

termination
  by (relation "measure (\<lambda>(data, room, trailerCapacity, cursor, chunkCount, decoded). length data - cursor)")
    (auto dest!: FindCrlf_bound)

declare chunk_loop.simps [simp del]

definition DecodeChunkedBodyWithTrailers :: "bytes \<Rightarrow> nat option \<Rightarrow> nat option \<Rightarrow> chunked_result result" where
  "DecodeChunkedBodyWithTrailers data room trailerCapacity = chunk_loop data room trailerCapacity 0 0 []"

definition DecodeChunkedBody :: "bytes \<Rightarrow> nat option \<Rightarrow> (bytes \<times> nat) result" where
  "DecodeChunkedBody data room =
     rbind (DecodeChunkedBodyWithTrailers data room None) (\<lambda>r. Inr (cr_body r, cr_consumed r))"

section \<open>Transfer codings\<close>

datatype transfer_coding = TcChunked | TcGzip | TcDeflate | TcCompress

datatype content_coding = CcIdentity | CcGzip | CcDeflate | CcBrotli | CcCompress | CcZstd
  | CcDictionaryBrotli | CcDictionaryZstd | CcAes128Gcm | CcExi | CcPack200Gzip

definition TransferCodingToCodecCoding :: "transfer_coding \<Rightarrow> content_coding option" where
  "TransferCodingToCodecCoding c =
     (case c of TcGzip \<Rightarrow> Some CcGzip | TcDeflate \<Rightarrow> Some CcDeflate | TcCompress \<Rightarrow> Some CcCompress | TcChunked \<Rightarrow> None)"

definition ParseTransferCodingToken :: "bytes \<Rightarrow> transfer_coding result" where
  "ParseTransferCodingToken member0 =
     (let member = trim_blanks member0; t = takeWhile (\<lambda>c. c \<noteq> 59) member; token = trim_blanks t;
          is = (\<lambda>name. TextEqualsIgnoreCase token (ascii name))
      in if member = [] then Inl STATUS_INVALID_NETWORK_RESPONSE
         else if \<not> IsValidHeaderName token then Inl STATUS_INVALID_NETWORK_RESPONSE
         else if is ''identity'' then Inl STATUS_INVALID_NETWORK_RESPONSE
         else if is ''br'' then Inl STATUS_NOT_SUPPORTED
         else case (if is ''chunked'' then Some TcChunked
                    else if is ''gzip'' \<or> is ''x-gzip'' then Some TcGzip
                    else if is ''deflate'' then Some TcDeflate
                    else if is ''compress'' \<or> is ''x-compress'' then Some TcCompress
                    else None) of
                None \<Rightarrow> Inl STATUS_NOT_SUPPORTED
              | Some parsed \<Rightarrow> if length t \<noteq> length member then Inl STATUS_INVALID_NETWORK_RESPONSE else Inr parsed)"

text \<open>The codings found so far take the place of the four slots and their count.\<close>

definition AppendTransferCoding :: "transfer_coding \<Rightarrow> transfer_coding list \<Rightarrow> transfer_coding list result" where
  "AppendTransferCoding coding info =
     (if length info \<ge> HttpMaxTransferCodings then Inl STATUS_NOT_SUPPORTED
      else if coding = TcChunked \<and> TcChunked \<in> set info then Inl STATUS_INVALID_NETWORK_RESPONSE
      else Inr (info @ [coding]))"

fun append_transfer_codings :: "bytes list \<Rightarrow> transfer_coding list \<Rightarrow> transfer_coding list result" where
  "append_transfer_codings [] info = Inr info"
| "append_transfer_codings (p # ps) info =
     rbind (ParseTransferCodingToken p) (\<lambda>coding. rbind (AppendTransferCoding coding info) (append_transfer_codings ps))"

definition AppendTransferCodings :: "bytes \<Rightarrow> transfer_coding list \<Rightarrow> transfer_coding list result" where
  "AppendTransferCodings val info = append_transfer_codings (split_on 44 val) info"

record transfer_info =
  ti_codings :: "transfer_coding list"
  ti_has :: bool
  ti_final_chunked :: bool

definition transfer_info_empty :: transfer_info where
  "transfer_info_empty = \<lparr>ti_codings = [], ti_has = False, ti_final_chunked = False\<rparr>"

fun transfer_headers :: "http_header list \<Rightarrow> transfer_coding list \<Rightarrow> bool \<Rightarrow> (transfer_coding list \<times> bool) result" where
  "transfer_headers [] info saw = Inr (info, saw)"
| "transfer_headers (h # hs) info saw =
     (if \<not> TextEqualsIgnoreCase (fst h) (ascii ''Transfer-Encoding'') then transfer_headers hs info saw
      else rbind (AppendTransferCodings (snd h) info) (\<lambda>info1. transfer_headers hs info1 True))"

definition transfer_coding_parse :: "http_header list \<Rightarrow> transfer_info result" where
  "transfer_coding_parse headers =
     rbind (transfer_headers headers [] False) (\<lambda>(info, saw).
       if \<not> saw then Inr transfer_info_empty
       else if info = [] then Inl STATUS_INVALID_NETWORK_RESPONSE
       else Inr \<lparr>ti_codings = info, ti_has = True, ti_final_chunked = (last info = TcChunked)\<rparr>)"

section \<open>Buffers and decoders\<close>

text \<open>Where the current body lies, and the capacities of the two buffers that exist.\<close>

datatype body_place = NoBody | InWire | InDecoded | InScratch

record decode_buffers =
  db_decoded :: "nat option"
  db_scratch :: "nat option"

definition SelectDestination :: "body_place \<Rightarrow> decode_buffers \<Rightarrow> (body_place \<times> nat) option" where
  "SelectDestination current b =
     (case db_decoded b of
        Some n \<Rightarrow>
          if current \<noteq> InDecoded then Some (InDecoded, n)
          else (case db_scratch b of Some m \<Rightarrow> if current \<noteq> InScratch then Some (InScratch, m) else None | None \<Rightarrow> None)
      | None \<Rightarrow> (case db_scratch b of Some m \<Rightarrow> if current \<noteq> InScratch then Some (InScratch, m) else None | None \<Rightarrow> None))"

definition MaxDecodedBytes :: nat where "MaxDecodedBytes = 64 * 1024 * 1024"
definition MaxDecodeExpansionRatio :: nat where "MaxDecodeExpansionRatio = 1024"

text \<open>The decoder of one coding, and the content coding of a response.\<close>

record http_codecs =
  hc_decode_one :: "content_coding \<Rightarrow> bytes \<Rightarrow> nat \<Rightarrow> bytes result"
  hc_content_decode :: "http_header list \<Rightarrow> bytes \<Rightarrow> decode_buffers \<Rightarrow> bytes result"

definition IsDecodedSizeAllowed :: "nat \<Rightarrow> nat \<Rightarrow> bool" where
  "IsDecodedSizeAllowed encodedLength decodedLength \<longleftrightarrow>
     (if decodedLength > MaxDecodedBytes then False
      else if encodedLength = 0 then decodedLength = 0
      else if encodedLength > u64_max div MaxDecodeExpansionRatio then True
      else decodedLength \<le> encodedLength * MaxDecodeExpansionRatio)"

text \<open>The last step of the two chains: the body ends up in the first buffer, if that exists.\<close>

definition move_to_decoded :: "decode_buffers \<Rightarrow> bool \<Rightarrow> body_place \<times> bytes \<Rightarrow> (body_place \<times> bytes) result" where
  "move_to_decoded b transformed cur =
     (case db_decoded b of
        Some n \<Rightarrow>
          if transformed \<and> snd cur \<noteq> [] \<and> fst cur \<noteq> InDecoded
          then if length (snd cur) > n then Inl STATUS_BUFFER_TOO_SMALL else Inr (InDecoded, snd cur)
          else Inr cur
      | None \<Rightarrow> Inr cur)"

fun decode_chain_loop ::
    "http_codecs \<Rightarrow> decode_buffers \<Rightarrow> content_coding list \<Rightarrow> body_place \<times> bytes \<Rightarrow> bool \<Rightarrow> ((body_place \<times> bytes) \<times> bool) result" where
  "decode_chain_loop C b [] cur transformed = Inr (cur, transformed)"
| "decode_chain_loop C b (coding # rest) cur transformed =
     (if coding = CcIdentity then decode_chain_loop C b rest cur transformed
      else let dest = SelectDestination (fst cur) b; capacity = (case dest of None \<Rightarrow> 0 | Some (p, n) \<Rightarrow> n);
               decodeCapacity = (if capacity > MaxDecodedBytes then MaxDecodedBytes else capacity)
        in rbind (hc_decode_one C coding (snd cur) decodeCapacity) (\<lambda>decoded.
             if \<not> IsDecodedSizeAllowed (length (snd cur)) (length decoded) then Inl STATUS_INVALID_NETWORK_RESPONSE
             else decode_chain_loop C b rest
                    ((if decoded = [] then NoBody else case dest of None \<Rightarrow> NoBody | Some (p, n) \<Rightarrow> p), decoded) True))"

definition DecodeChainReverse ::
    "http_codecs \<Rightarrow> decode_buffers \<Rightarrow> content_coding list \<Rightarrow> body_place \<times> bytes \<Rightarrow> ((body_place \<times> bytes) \<times> bool) result" where
  "DecodeChainReverse C b codings cur =
     (if codings = [] \<or> snd cur = [] then Inr ((if snd cur = [] then NoBody else fst cur, snd cur), False)
      else rbind (decode_chain_loop C b (rev codings) cur False) (\<lambda>(cur1, transformed).
           rbind (move_to_decoded b transformed cur1) (\<lambda>cur2.
             Inr ((if snd cur2 = [] then NoBody else fst cur2, snd cur2), transformed))))"

section \<open>Transfer decoding\<close>

definition DecodeOneTransferCoding ::
    "http_codecs \<Rightarrow> decode_buffers \<Rightarrow> transfer_coding \<Rightarrow> body_place \<times> bytes \<Rightarrow> ((body_place \<times> bytes) \<times> bool) result" where
  "DecodeOneTransferCoding C b coding cur =
     (case TransferCodingToCodecCoding coding of
        None \<Rightarrow> Inl STATUS_INVALID_PARAMETER
      | Some c \<Rightarrow> DecodeChainReverse C b [c] cur)"

record transfer_decoded =
  td_body :: bytes
  td_consumed :: nat
  td_kind :: http_body_kind
  td_trailers :: "http_header list"
  td_trailer_count :: nat

text \<open>
  The loop over the codings, the last one first; \<open>outermost\<close> marks the first round, whose chunks set
  \<open>*trailerCount\<close> and the bytes consumed.
\<close>

fun transfer_loop ::
    "http_codecs \<Rightarrow> decode_buffers \<Rightarrow> nat option \<Rightarrow> transfer_coding list \<Rightarrow> bool \<Rightarrow> body_place \<times> bytes \<Rightarrow> bool
      \<Rightarrow> nat \<times> http_header list \<times> nat \<Rightarrow> ((body_place \<times> bytes) \<times> bool \<times> nat \<times> http_header list \<times> nat) result" where
  "transfer_loop C b trailerCapacity [] outermost cur transformed outer = Inr (cur, transformed, outer)"
| "transfer_loop C b trailerCapacity (coding # rest) outermost cur transformed outer =
     (if coding = TcChunked
      then let dest = SelectDestination (fst cur) b
        in if fst cur = NoBody then Inl STATUS_INVALID_PARAMETER
           else rbind (DecodeChunkedBodyWithTrailers (snd cur) (map_option snd dest) (if outermost then trailerCapacity else None)) (\<lambda>r.
             if \<not> outermost \<and> cr_consumed r \<noteq> length (snd cur) then Inl STATUS_INVALID_NETWORK_RESPONSE
             else transfer_loop C b trailerCapacity rest False
                    ((if cr_body r = [] then NoBody else case dest of None \<Rightarrow> NoBody | Some (p, n) \<Rightarrow> p), cr_body r) True
                    (if outermost then (cr_consumed r, cr_trailers r, cr_trailer_count r) else outer))
      else rbind (DecodeOneTransferCoding C b coding cur) (\<lambda>(cur1, codingTransformed).
             transfer_loop C b trailerCapacity rest False ((if snd cur1 = [] then NoBody else fst cur1), snd cur1)
               (transformed \<or> codingTransformed) outer))"

definition DecodeResponseBody ::
    "http_codecs \<Rightarrow> decode_buffers \<Rightarrow> nat option \<Rightarrow> transfer_info \<Rightarrow> bytes \<Rightarrow> bool \<Rightarrow> transfer_decoded result" where
  "DecodeResponseBody C b trailerCapacity info wireBody complete =
     (if \<not> ti_has info \<or> ti_codings info = []
      then Inr \<lparr>td_body = wireBody, td_consumed = length wireBody,
                td_kind = (if wireBody = [] then BodyNone else BodyCloseDelimited), td_trailers = [], td_trailer_count = 0\<rparr>
      else if \<not> ti_final_chunked info \<and> \<not> complete then Inl STATUS_MORE_PROCESSING_REQUIRED
      else rbind (transfer_loop C b trailerCapacity (rev (ti_codings info)) True (InWire, wireBody) False
                    ((if ti_final_chunked info then 0 else length wireBody), [], 0)) (\<lambda>(cur, transformed, consumed, trailers, n).
           rbind (move_to_decoded b transformed cur) (\<lambda>cur1.
             Inr \<lparr>td_body = snd cur1, td_consumed = consumed,
                  td_kind = (if ti_final_chunked info then BodyChunked
                             else if wireBody = [] then BodyNone else BodyCloseDelimited),
                  td_trailers = trailers, td_trailer_count = n\<rparr>)))"

section \<open>Responses\<close>

record parse_options =
  po_headers :: "nat option"
  po_trailers :: "nat option"
  po_buffers :: decode_buffers
  po_complete_on_close :: bool
  po_body_forbidden :: bool

text \<open>The first part of both parsers: the response with its status line and headers.\<close>

definition parse_head :: "parse_options \<Rightarrow> bytes \<Rightarrow> http_response result" where
  "parse_head opts data =
     (if data = [] then Inl STATUS_MORE_PROCESSING_REQUIRED
      else case FindHeaderEnd data of
             None \<Rightarrow> Inl STATUS_MORE_PROCESSING_REQUIRED
           | Some headerEnd \<Rightarrow>
               if headerEnd > HttpMaxHeaderBytes then Inl STATUS_INVALID_NETWORK_RESPONSE
               else case FindCrlf data 0 of
                      None \<Rightarrow> Inl STATUS_INVALID_NETWORK_RESPONSE
                    | Some statusLineEnd \<Rightarrow>
                        if statusLineEnd + 2 > headerEnd then Inl STATUS_INVALID_NETWORK_RESPONSE
                        else rbind (ParseStatusLine (take statusLineEnd data)) (\<lambda>(majorVersion, minorVersion, statusCode, reason).
                             rbind (ParseHeaders data (statusLineEnd + 2) headerEnd (po_headers opts)) (\<lambda>headers.
                               Inr (http_response_empty\<lparr>http_major := majorVersion, http_minor := minorVersion,
                                      http_status := statusCode, http_reason := reason, http_headers := headers,
                                      http_consumed := headerEnd\<rparr>))))"

text \<open>The framing headers: the transfer codings and the content length.\<close>

definition parse_framing :: "http_response \<Rightarrow> (transfer_info \<times> nat option) result" where
  "parse_framing r =
     rbind (transfer_coding_parse (http_headers r)) (\<lambda>info.
       if ti_has info \<and> (http_major r < 1 \<or> http_major r = 1 \<and> http_minor r < 1) then Inl STATUS_INVALID_NETWORK_RESPONSE
       else rbind (ReadContentLength (http_headers r)) (\<lambda>contentLength.
              if ti_has info \<and> contentLength \<noteq> None then Inl STATUS_INVALID_NETWORK_RESPONSE else Inr (info, contentLength)))"

text \<open>The response and \<open>*contentLengthOut\<close>.\<close>

definition ParseResponseHeaders :: "parse_options \<Rightarrow> bytes \<Rightarrow> (http_response \<times> nat) result" where
  "ParseResponseHeaders opts data =
     rbind (parse_head opts data) (\<lambda>r.
       if po_body_forbidden opts \<or> StatusCodeHasNoBody (http_status r) then Inr (r\<lparr>http_body_kind := BodyNone\<rparr>, 0)
       else rbind (parse_framing r) (\<lambda>(info, contentLength).
              if ti_has info
              then if \<not> ti_final_chunked info then Inl STATUS_NOT_SUPPORTED
                   else Inr (r\<lparr>http_body_kind := BodyChunked\<rparr>, 0)
              else case contentLength of
                     Some n \<Rightarrow> Inr (r\<lparr>http_body_kind := BodyContentLength\<rparr>, n)
                   | None \<Rightarrow> Inr (r\<lparr>http_body_kind := BodyCloseDelimited, http_ends_on_close := True\<rparr>, 0)))"

definition ApplyContentEncoding :: "http_codecs \<Rightarrow> parse_options \<Rightarrow> http_response \<Rightarrow> bytes \<Rightarrow> http_response result" where
  "ApplyContentEncoding C opts r body =
     (if body = [] then Inr (r\<lparr>http_body := []\<rparr>)
      else rbind (hc_content_decode C (http_headers r) body (po_buffers opts)) (\<lambda>decoded. Inr (r\<lparr>http_body := decoded\<rparr>)))"

definition ParseResponse :: "http_codecs \<Rightarrow> parse_options \<Rightarrow> bytes \<Rightarrow> http_response result" where
  "ParseResponse C opts data =
     rbind (parse_head opts data) (\<lambda>r.
       let headerEnd = http_consumed r; wireBody = drop headerEnd data
       in if po_body_forbidden opts \<or> StatusCodeHasNoBody (http_status r) then Inr (r\<lparr>http_body_kind := BodyNone\<rparr>)
          else rbind (parse_framing r) (\<lambda>(info, contentLength).
                 if ti_has info
                 then rbind (DecodeResponseBody C (po_buffers opts) (po_trailers opts) info wireBody (po_complete_on_close opts)) (\<lambda>d.
                        ApplyContentEncoding C opts
                          (r\<lparr>http_body_kind := td_kind d, http_trailers := td_trailers d,
                             http_ends_on_close := (\<not> ti_final_chunked info \<and> po_complete_on_close opts),
                             http_consumed := headerEnd + td_consumed d\<rparr>) (td_body d))
                 else case contentLength of
                        Some n \<Rightarrow>
                          if n > length data - headerEnd then Inl STATUS_MORE_PROCESSING_REQUIRED
                          else ApplyContentEncoding C opts
                                 (r\<lparr>http_body_kind := (if n = 0 then BodyNone else BodyContentLength), http_consumed := headerEnd + n\<rparr>)
                                 (take n wireBody)
                      | None \<Rightarrow>
                          if po_complete_on_close opts
                          then ApplyContentEncoding C opts
                                 (r\<lparr>http_body_kind := (if wireBody = [] then BodyNone else BodyCloseDelimited),
                                    http_ends_on_close := True, http_consumed := length data\<rparr>) wireBody
                          else Inl STATUS_MORE_PROCESSING_REQUIRED))"

section \<open>Inputs that agree\<close>

text \<open>Two inputs with the same first \<open>n\<close> bytes.\<close>

definition agree :: "nat \<Rightarrow> bytes \<Rightarrow> bytes \<Rightarrow> bool" where
  "agree n d d' \<longleftrightarrow> n \<le> length d \<and> n \<le> length d' \<and> take n d = take n d'"

lemma agree_mono: "agree n d d' \<Longrightarrow> m \<le> n \<Longrightarrow> agree m d d'"
  by (auto simp: agree_def dest: arg_cong [of _ _ "take m"])

lemma agree_take: "k \<le> length d \<Longrightarrow> agree k d (take k d)"
  by (simp add: agree_def)

lemma agree_drop: "agree (c + n) d d' \<Longrightarrow> agree n (drop c d) (drop c d')"
  by (auto simp: agree_def take_drop add.commute)

lemma agree_nth: "agree n d d' \<Longrightarrow> i < n \<Longrightarrow> d' ! i = d ! i"
  by (metis agree_def nth_take)

lemma agree_view: "agree n d d' \<Longrightarrow> c + m \<le> n \<Longrightarrow> view d' c m = view d c m"
  using agree_drop [OF agree_mono, of n d d' c m] by (simp add: agree_def view_def)

lemma agree_step: "agree (Suc n) (a # d) d' \<longleftrightarrow> (\<exists>d1. d' = a # d1 \<and> agree n d d1)"
  by (cases d') (auto simp: agree_def)

section \<open>Line ends\<close>

lemma crlf_agree: "crlf_index d = Some i \<Longrightarrow> agree (i + 2) d d' \<Longrightarrow> crlf_index d' = Some i"
proof (induction d arbitrary: i d' rule: crlf_index.induct)
  case (1 a b r)
  obtain d1 where d1: "d' = a # d1" "agree (i + 1) (b # r) d1" using 1(3) by (auto simp: agree_step)
  then obtain d2 where d2: "d1 = b # d2" by (auto simp: agree_step)
  show ?case
  proof (cases "a = 13 \<and> b = 10")
    case False
    then obtain j where j: "i = Suc j" "crlf_index (b # r) = Some j" using 1(2) by auto
    have "crlf_index d1 = Some j" using 1(1) [OF False j(2), of d1] d1(2) j(1) by simp
    then show ?thesis using False d1 d2 j by simp
  qed (use 1(2) d1 d2 in simp)
qed auto

lemma crlf_first:
  assumes "j + 1 < length d" "d ! j = 13" "d ! (j + 1) = 10"
  shows "\<exists>i \<le> j. crlf_index d = Some i"
  using assms
proof (induction d arbitrary: j rule: crlf_index.induct)
  case (1 a b r)
  show ?case
  proof (cases "a = 13 \<and> b = 10")
    case False
    then obtain k where "j = Suc k" using 1(3,4) by (cases j) auto
    then show ?thesis using 1(1) [OF False, of k] 1(2-4) False by auto
  qed simp
qed auto

lemma crlf_none: "crlf_index d = Some i \<Longrightarrow> k < i + 2 \<Longrightarrow> crlf_index (take k d) = None"
proof (rule ccontr)
  assume d: "crlf_index d = Some i" "k < i + 2" and "crlf_index (take k d) \<noteq> None"
  then obtain j where j: "crlf_index (take k d) = Some j" by auto
  have b: "j + 2 \<le> length (take k d)" using crlf_index_bound [OF j] by simp
  have "agree (j + 2) (take k d) d" using b by (simp add: agree_def)
  from crlf_agree [OF j this] show False using d b by simp
qed

lemma FindCrlf_agree: "FindCrlf d c = Some e \<Longrightarrow> agree n d d' \<Longrightarrow> e + 2 \<le> n \<Longrightarrow> FindCrlf d' c = Some e"
proof -
  assume f: "FindCrlf d c = Some e" and a: "agree n d d'" and n: "e + 2 \<le> n"
  then obtain i where i: "crlf_index (drop c d) = Some i" "e = c + i" by (auto simp: FindCrlf_def)
  have "agree (c + (i + 2)) d d'" using agree_mono [OF a] n i(2) by simp
  from crlf_agree [OF i(1) agree_drop [OF this]] show ?thesis using i(2) by (simp add: FindCrlf_def)
qed

lemma FindCrlf_short: "FindCrlf d c = Some e \<Longrightarrow> k < e + 2 \<Longrightarrow> FindCrlf (take k d) c = None"
  using crlf_none [of "drop c d" _ "k - c"] by (auto simp: FindCrlf_def drop_take)

lemma header_end_bound:
  "header_end_index d = Some h \<Longrightarrow> 4 \<le> h \<and> h \<le> length d \<and> view d (h - 4) 4 = [13, 10, 13, 10]"
proof (induction d arbitrary: h)
  case (Cons c r)
  show ?case
  proof (cases "take 4 (c # r) = [13, 10, 13, 10]")
    case True
    then have "h = 4" "4 \<le> length (c # r)" using Cons.prems by (auto dest: arg_cong [of _ _ length])
    then show ?thesis using True by (simp add: view_def)
  next
    case False
    then obtain j where j: "h = Suc j" "header_end_index r = Some j" using Cons.prems by auto
    note ih = Cons.IH [OF j(2)]
    have "h - 4 = Suc (j - 4)" using ih j(1) by linarith
    then have "view (c # r) (h - 4) 4 = view r (j - 4) 4" by (simp only: view_def drop_Suc_Cons)
    then show ?thesis using ih j(1) by simp
  qed
qed simp

lemma header_end_agree: "header_end_index d = Some h \<Longrightarrow> agree h d d' \<Longrightarrow> header_end_index d' = Some h"
proof (induction d arbitrary: h d')
  case (Cons c r)
  show ?case
  proof (cases "take 4 (c # r) = [13, 10, 13, 10]")
    case True
    then have h: "h = 4" using Cons.prems by simp
    then have "take 4 d' = [13, 10, 13, 10]" using Cons.prems(2) True by (simp add: agree_def)
    then show ?thesis using h by (cases d') simp_all
  next
    case False
    then obtain j where j: "h = Suc j" "header_end_index r = Some j" using Cons.prems by auto
    obtain d1 where d1: "d' = c # d1" "agree j r d1" using Cons.prems(2) j(1) by (auto simp: agree_step)
    have "4 \<le> h" using header_end_bound [OF Cons.prems(1)] by simp
    then have "take 4 d' = take 4 (c # r)" using agree_mono [OF Cons.prems(2), of 4] by (simp only: agree_def)
    then have "take 4 (c # d1) \<noteq> [13, 10, 13, 10]" using False d1(1) by simp
    then show ?thesis using Cons.IH [OF j(2) d1(2)] by (simp only: d1(1) j(1) header_end_index.simps if_False option.map)
  qed
qed simp

lemma header_end_none: "header_end_index d = Some h \<Longrightarrow> k < h \<Longrightarrow> header_end_index (take k d) = None"
proof (rule ccontr)
  assume d: "header_end_index d = Some h" "k < h" and "header_end_index (take k d) \<noteq> None"
  then obtain j where j: "header_end_index (take k d) = Some j" by auto
  have b: "j \<le> length (take k d)" using header_end_bound [OF j] by simp
  have "agree j (take k d) d" using b by (simp add: agree_def)
  from header_end_agree [OF j this] show False using d b by simp
qed

section \<open>Where a body ends\<close>

lemma trailer_lines_Inr:
  assumes "trailer_lines d cap c ts n = Inr (ts', n', m)"
  obtains "FindCrlf d c = Some c" "m = c + 2"
  | e ts1 where "FindCrlf d c = Some e" "trailer_lines d cap (e + 2) ts1 (n + 1) = Inr (ts', n', m)"
  using assms by (subst (asm) trailer_lines.simps) (auto split: option.splits if_splits sum.splits)

lemma trailer_lines_bound:
  "trailer_lines d cap c ts n = Inr (ts', n', m) \<Longrightarrow> c + 2 \<le> m \<and> m \<le> length d"
proof (induction "length d - c" arbitrary: c ts n rule: less_induct)
  case less
  from less.prems show ?case
  proof (cases rule: trailer_lines_Inr)
    case 1
    then show ?thesis using FindCrlf_bound by fastforce
  next
    case (2 e ts1)
    then show ?thesis using less.hyps [OF _ 2(2)] FindCrlf_bound [OF 2(1)] by fastforce
  qed
qed

lemma trailer_lines_ends:
  assumes "trailer_lines d cap c ts n = Inr (ts', n', m)"
  shows "agree m d d' \<Longrightarrow> trailer_lines d' cap c ts n = Inr (ts', n', m)"
    and "k < m \<Longrightarrow> trailer_lines (take k d) cap c ts n = Inl STATUS_MORE_PROCESSING_REQUIRED"
proof (atomize (full))
  show "(agree m d d' \<longrightarrow> trailer_lines d' cap c ts n = Inr (ts', n', m))
    \<and> (k < m \<longrightarrow> trailer_lines (take k d) cap c ts n = Inl STATUS_MORE_PROCESSING_REQUIRED)"
    using assms
  proof (induction d cap c ts n rule: trailer_lines.induct)
    case (1 d cap c ts n)
    obtain e where e: "FindCrlf d c = Some e" using "1.prems" by (subst (asm) trailer_lines.simps) (auto split: option.splits)
    have c: "c \<le> e" "e + 2 \<le> length d" using FindCrlf_bound [OF e] by auto
    have m: "e + 2 \<le> m"
    proof (cases "e = c")
      case True
      then show ?thesis using "1.prems" e by (subst (asm) trailer_lines.simps) (simp split: if_splits)
    next
      case False
      then show ?thesis using "1.prems" e
        by (subst (asm) trailer_lines.simps) (auto split: if_splits sum.splits dest: trailer_lines_bound)
    qed
    have same: "trailer_lines d'' cap c ts n =
        (if e - c > HttpMaxHeaderLineBytes then Inl STATUS_INVALID_NETWORK_RESPONSE
         else if e = c then Inr (ts, n, c + 2)
         else if n \<ge> HttpMaxTrailers then Inl STATUS_INVALID_NETWORK_RESPONSE
         else if (case cap of None \<Rightarrow> False | Some k \<Rightarrow> n \<ge> k) then Inl STATUS_BUFFER_TOO_SMALL
         else case ParseTrailerFieldLine (view d c (e - c)) of Inl e \<Rightarrow> Inl e
           | Inr t \<Rightarrow> trailer_lines d'' cap (e + 2) (if cap = None then ts else ts @ [t]) (n + 1))"
      if "agree i d d''" "e + 2 \<le> i" for d'' i
    proof -
      have "view d'' c (e - c) = view d c (e - c)" using agree_view [OF that(1), of c "e - c"] that(2) c by simp
      then show ?thesis by (subst trailer_lines.simps) (simp add: FindCrlf_agree [OF e that])
    qed
    have ok: "\<not> e - c > HttpMaxHeaderLineBytes"
      using "1.prems" unfolding same [OF agree_take [OF order_refl, of d] c(2), simplified] by (auto split: if_splits)
    show ?case
    proof (cases "e = c")
      case True
      then have r: "ts' = ts" "n' = n" "m = c + 2"
        using "1.prems" ok unfolding same [OF agree_take [OF order_refl, of d] c(2), simplified] by auto
      show ?thesis
        using True r ok same [of m d'] FindCrlf_short [OF e, of k] by (auto simp: trailer_lines.simps [of "take k d"])
    next
      case False
      then obtain t where g: "\<not> n \<ge> HttpMaxTrailers" "\<not> (case cap of None \<Rightarrow> False | Some k \<Rightarrow> n \<ge> k)"
          "ParseTrailerFieldLine (view d c (e - c)) = Inr t"
        and run: "trailer_lines d cap (e + 2) (if cap = None then ts else ts @ [t]) (n + 1) = Inr (ts', n', m)"
        using "1.prems" ok unfolding same [OF agree_take [OF order_refl, of d] c(2), simplified]
        by (auto split: if_splits sum.splits)
      note ih = "1.IH" [OF e _ False g run] 
      have i1: "agree m d d' \<Longrightarrow> trailer_lines d' cap (e + 2) (if cap = None then ts else ts @ [t]) (n + 1) = Inr (ts', n', m)"
        and i2: "k < m \<Longrightarrow> trailer_lines (take k d) cap (e + 2) (if cap = None then ts else ts @ [t]) (n + 1)
          = Inl STATUS_MORE_PROCESSING_REQUIRED"
        using ih ok by auto
      have "trailer_lines (take k d) cap c ts n = Inl STATUS_MORE_PROCESSING_REQUIRED" if "k < m"
      proof (cases "k < e + 2")
        case True
        then show ?thesis using FindCrlf_short [OF e True] by (simp add: trailer_lines.simps [of "take k d"])
      next
        case k: False
        show ?thesis
        proof (cases "k \<le> length d")
          case True
          then show ?thesis using same [OF agree_take [OF True]] k ok False g i2 that by simp
        next
          case False
          then show ?thesis using that trailer_lines_bound [OF run] by simp
        qed
      qed
      then show ?thesis using same [of m d'] m ok False g i1 by auto
    qed
  qed
qed

text \<open>One round of the loop over the chunks, by what the size line says.\<close>

definition chunk_fits :: "nat option \<Rightarrow> nat \<Rightarrow> nat \<Rightarrow> bool" where
  "chunk_fits room done n \<longleftrightarrow> (case room of None \<Rightarrow> False | Some k \<Rightarrow> done \<le> k \<and> n \<le> k - done)"

lemma chunk_loop_round:
  assumes "FindCrlf d c = Some e" "e - c \<le> HttpMaxChunkSizeLineBytes" "chunk_size_line (view d c (e - c)) = Inr n"
  shows "chunk_loop d room tc c k dec =
    (if n = 0 then rbind (trailer_lines d tc (e + 2) [] 0) (\<lambda>(ts, l, m).
         Inr \<lparr>cr_body = dec, cr_consumed = m, cr_trailers = ts, cr_trailer_count = l\<rparr>)
     else if k + 1 > HttpMaxChunks then Inl STATUS_INVALID_NETWORK_RESPONSE
     else if n > length d - (e + 2) then Inl STATUS_MORE_PROCESSING_REQUIRED
     else if \<not> chunk_fits room (length dec) n then Inl STATUS_BUFFER_TOO_SMALL
     else if e + 2 + n + 2 > length d then Inl STATUS_MORE_PROCESSING_REQUIRED
     else if d ! (e + 2 + n) \<noteq> 13 \<or> d ! (e + 2 + n + 1) \<noteq> 10 then Inl STATUS_INVALID_NETWORK_RESPONSE
     else chunk_loop d room tc (e + 2 + n + 2) (k + 1) (dec @ view d (e + 2) n))"
  using assms by (subst chunk_loop.simps) (auto simp: chunk_fits_def Let_def not_le not_less split: option.splits)

lemma chunk_loop_Inr:
  assumes "chunk_loop d room tc c k dec = Inr r"
  obtains (trailers) e where "FindCrlf d c = Some e" "e - c \<le> HttpMaxChunkSizeLineBytes"
      "chunk_size_line (view d c (e - c)) = Inr 0"
      "trailer_lines d tc (e + 2) [] 0 = Inr (cr_trailers r, cr_trailer_count r, cr_consumed r)" "cr_body r = dec"
  | (chunk) e n where "FindCrlf d c = Some e" "e - c \<le> HttpMaxChunkSizeLineBytes"
      "chunk_size_line (view d c (e - c)) = Inr n" "0 < n" "k + 1 \<le> HttpMaxChunks" "chunk_fits room (length dec) n"
      "e + 2 + n + 2 \<le> length d" "d ! (e + 2 + n) = 13" "d ! (e + 2 + n + 1) = 10"
      "chunk_loop d room tc (e + 2 + n + 2) (k + 1) (dec @ view d (e + 2) n) = Inr r"
proof -
  obtain e where e: "FindCrlf d c = Some e" using assms by (subst (asm) chunk_loop.simps) (auto split: option.splits)
  have l: "e - c \<le> HttpMaxChunkSizeLineBytes" using assms e by (subst (asm) chunk_loop.simps) (auto split: if_splits)
  obtain n where n: "chunk_size_line (view d c (e - c)) = Inr n"
    using assms e by (subst (asm) chunk_loop.simps) (auto split: if_splits sum.splits)
  note round = assms [unfolded chunk_loop_round [OF e l n]]
  show thesis
  proof (cases "n = 0")
    case True
    show thesis by (rule trailers [OF e l]) (use round True n in \<open>auto simp: rbind_eq_Inr_iff\<close>)
  next
    case False
    show thesis by (rule chunk [OF e l n]) (use round False in \<open>auto split: if_splits\<close>)
  qed
qed

lemma chunk_loop_bound: "chunk_loop d room tc c k dec = Inr r \<Longrightarrow> c + 2 \<le> cr_consumed r \<and> cr_consumed r \<le> length d"
proof (induction "length d - c" arbitrary: c k dec rule: less_induct)
  case less
  from less.prems show ?case
  proof (cases rule: chunk_loop_Inr)
    case (trailers e)
    then show ?thesis using FindCrlf_bound [OF trailers(1)] trailer_lines_bound [OF trailers(4)] by simp
  next
    case (chunk e n)
    have "c \<le> e" "e + 2 + n + 2 \<le> length d" using FindCrlf_bound [OF chunk(1)] chunk(7) by simp_all
    then have "length d - (e + 2 + n + 2) < length d - c" by linarith
    from less.hyps [OF this chunk(10)] show ?thesis using \<open>c \<le> e\<close> by simp
  qed
qed

lemma chunk_loop_ends:
  "chunk_loop d room tc c k dec = Inr r \<Longrightarrow>
    (agree (cr_consumed r) d d' \<longrightarrow> chunk_loop d' room tc c k dec = Inr r)
    \<and> (\<forall>i < cr_consumed r. chunk_loop (take i d) room tc c k dec = Inl STATUS_MORE_PROCESSING_REQUIRED)"
proof (induction "length d - c" arbitrary: c k dec rule: less_induct)
  case less
  have short: "chunk_loop (take i d) room tc c k dec = Inl STATUS_MORE_PROCESSING_REQUIRED"
    if "FindCrlf d c = Some e" "i < e + 2" for i e
    by (subst chunk_loop.simps) (simp add: FindCrlf_short [OF that])
  from less.prems show ?case
  proof (cases rule: chunk_loop_Inr)
    case (trailers e)
    have m: "e + 4 \<le> cr_consumed r" "cr_consumed r \<le> length d" using trailer_lines_bound [OF trailers(4)] by simp_all
    have v: "view d'' c (e - c) = view d c (e - c)" "FindCrlf d'' c = Some e" if "agree i d d''" "e + 2 \<le> i" for d'' i
      using agree_view [OF that(1), of c "e - c"] that FindCrlf_bound [OF trailers(1)] FindCrlf_agree [OF trailers(1) that] by auto
    have "chunk_loop (take i d) room tc c k dec = Inl STATUS_MORE_PROCESSING_REQUIRED" if i: "i < cr_consumed r" for i
    proof (cases "i < e + 2")
      case False
      have a: "agree i d (take i d)" using i m by (intro agree_take) simp
      have "trailer_lines (take i d) tc (e + 2) [] 0 = Inl STATUS_MORE_PROCESSING_REQUIRED"
        by (rule trailer_lines_ends(2) [OF trailers(4) i])
      moreover have "e + 2 \<le> i" using False by simp
      ultimately show ?thesis using chunk_loop_round [OF v(2) [OF a] trailers(2)] v(1) [OF a] trailers(3) by simp
    qed (rule short [OF trailers(1)])
    moreover have "chunk_loop d' room tc c k dec = Inr r" if a: "agree (cr_consumed r) d d'"
    proof -
      have i: "e + 2 \<le> cr_consumed r" using m by simp
      show ?thesis
        using chunk_loop_round [OF v(2) [OF a i] trailers(2)] v(1) [OF a i] trailers(3,5) trailer_lines_ends(1) [OF trailers(4) a] by simp
    qed
    ultimately show ?thesis by blast
  next
    case (chunk e n)
    have b: "e + 2 + n + 4 \<le> cr_consumed r" "cr_consumed r \<le> length d" using chunk_loop_bound [OF chunk(10)] by simp_all
    have c: "c \<le> e" using FindCrlf_bound [OF chunk(1)] by simp
    have shrink: "length d - (e + 2 + n + 2) < length d - c" using c chunk(7) by linarith
    note ih = less.hyps [OF _ chunk(10)]
    have v: "view d'' c (e - c) = view d c (e - c)" "FindCrlf d'' c = Some e" if "agree i d d''" "e + 2 \<le> i" for d'' i
      using agree_view [OF that(1), of c "e - c"] that c FindCrlf_agree [OF chunk(1) that] by auto
    have w: "view d'' (e + 2) n = view d (e + 2) n" "d'' ! (e + 2 + n) = 13" "d'' ! (e + 2 + n + 1) = 10" "e + 2 + n + 2 \<le> length d''"
      if "agree i d d''" "e + 2 + n + 2 \<le> i" for d'' i
      using agree_view [OF that(1), of "e + 2" n] agree_nth [OF that(1), of "e + 2 + n"] agree_nth [OF that(1), of "e + 2 + n + 1"]
        that chunk(8,9) by (auto simp: agree_def)
    have "chunk_loop (take i d) room tc c k dec = Inl STATUS_MORE_PROCESSING_REQUIRED" if i: "i < cr_consumed r" for i
    proof (cases "i < e + 2")
      case False
      have a: "agree i d (take i d)" and li: "length (take i d) = i" using i b by (simp_all add: agree_def)
      have i2: "e + 2 \<le> i" using False by simp
      note r = chunk_loop_round [OF v(2) [OF a i2] chunk(2), unfolded v(1) [OF a i2], OF chunk(3)]
      show ?thesis
      proof (cases "e + 2 + n + 2 \<le> i")
        case True
        have "chunk_loop (take i d) room tc (e + 2 + n + 2) (k + 1) (dec @ view d (e + 2) n) = Inl STATUS_MORE_PROCESSING_REQUIRED"
          using ih [OF shrink] i by simp
        then show ?thesis using r [of room tc k dec] chunk w [OF a True] li by simp
      next
        case short_data: False
        then show ?thesis using r [of room tc k dec] chunk li i2 by auto
      qed
    qed (rule short [OF chunk(1)])
    moreover have "chunk_loop d' room tc c k dec = Inr r" if a: "agree (cr_consumed r) d d'"
    proof -
      have i: "e + 2 \<le> cr_consumed r" "e + 2 + n + 2 \<le> cr_consumed r" using b by simp_all
      have "chunk_loop d' room tc (e + 2 + n + 2) (k + 1) (dec @ view d (e + 2) n) = Inr r" using ih [OF shrink] a by simp
      then show ?thesis
        using chunk_loop_round [OF v(2) [OF a i(1)] chunk(2), unfolded v(1) [OF a i(1)], OF chunk(3), of room tc k dec] w [OF a i(2)] chunk
        by simp
    qed
    ultimately show ?thesis by blast
  qed
qed

section \<open>Where a response ends\<close>

lemma crlf_before_header_end:
  assumes "FindHeaderEnd d = Some h" "c \<le> h - 2" "FindCrlf d c = Some e"
  shows "e + 2 \<le> h"
proof -
  have h: "4 \<le> h" "h \<le> length d" "view d (h - 4) 4 = [13, 10, 13, 10]"
    using header_end_bound assms(1) by (auto simp: FindHeaderEnd_def)
  have n: "d ! (h - 4 + i) = view d (h - 4) 4 ! i" if "i < 4" for i using nth_view [of "h - 4" 4 d i] h that by simp
  have a: "h - 4 + 2 = h - 2" "h - 4 + 3 = h - 2 + 1" using h(1) by simp_all
  have d: "d ! (h - 2) = 13" "d ! (h - 2 + 1) = 10" using n [of 2] n [of 3] h(3) unfolding a by simp_all
  define j where "j = h - 2 - c"
  have j: "c + j = h - 2" using assms(2) by (simp add: j_def)
  have "j + 1 < length (drop c d)" using j h(1,2) by simp
  moreover have "drop c d ! j = 13" "drop c d ! (j + 1) = 10" using d h(2) j assms(2) by (simp_all add: add.assoc [symmetric])
  ultimately obtain i where "i \<le> j" "crlf_index (drop c d) = Some i" using crlf_first by blast
  then show ?thesis using assms(3) h(1) j by (auto simp: FindCrlf_def)
qed

lemma header_lines_agree:
  assumes "FindHeaderEnd d = Some h" "agree h d d'"
  shows "header_lines d h cap c hs = Inr hs' \<Longrightarrow> header_lines d' h cap c hs = Inr hs'"
proof (induction "h - c" arbitrary: c hs rule: less_induct)
  case less
  show ?case
  proof (cases "c < h - 2")
    case False
    then show ?thesis using less.prems by (simp add: header_lines.simps)
  next
    case True
    obtain e where e: "FindCrlf d c = Some e" using less.prems True by (subst (asm) header_lines.simps) (auto split: option.splits)
    have c: "c \<le> e" "e + 2 \<le> h" using FindCrlf_bound [OF e] crlf_before_header_end [OF assms(1) _ e] True by simp_all
    have v: "view d' c (e - c) = view d c (e - c)" using agree_view [OF assms(2), of c "e - c"] c by simp
    note e' = FindCrlf_agree [OF e assms(2) c(2)]
    show ?thesis
    proof (cases "e = c")
      case True
      then show ?thesis using less.prems \<open>c < h - 2\<close> e e' by (subst header_lines.simps, subst (asm) header_lines.simps) (simp split: if_splits)
    next
      case False
      have dec: "h - (e + 2) < h - c" using c True by linarith
      from less.prems show ?thesis
        using True e e' v False less.hyps [OF dec]
        by (subst header_lines.simps, subst (asm) header_lines.simps)
          (auto simp: Let_def split: if_splits option.splits)
    qed
  qed
qed

lemma parse_head_ends:
  assumes "parse_head opts d = Inr r"
  shows "http_consumed r \<le> length d" "agree (http_consumed r) d d' \<Longrightarrow> parse_head opts d' = Inr r"
    and "k < http_consumed r \<Longrightarrow> parse_head opts (take k d) = Inl STATUS_MORE_PROCESSING_REQUIRED"
proof -
  obtain h e where h: "FindHeaderEnd d = Some h" "h \<le> HttpMaxHeaderBytes" and e: "FindCrlf d 0 = Some e" "e + 2 \<le> h"
    and r: "rbind (ParseStatusLine (take e d)) (\<lambda>(majorVersion, minorVersion, statusCode, reason).
          rbind (ParseHeaders d (e + 2) h (po_headers opts)) (\<lambda>headers.
            Inr (http_response_empty\<lparr>http_major := majorVersion, http_minor := minorVersion,
                   http_status := statusCode, http_reason := reason, http_headers := headers,
                   http_consumed := h\<rparr>))) = Inr r"
    using assms by (auto simp: parse_head_def split: if_splits option.splits)
  obtain hs where hs: "ParseHeaders d (e + 2) h (po_headers opts) = Inr hs" and hc: "http_consumed r = h"
    using r by (auto simp: rbind_eq_Inr_iff)
  have b: "4 \<le> h" "h \<le> length d" using header_end_bound h(1) by (auto simp: FindHeaderEnd_def)
  show "http_consumed r \<le> length d" using hc b by simp
  show "parse_head opts d' = Inr r" if "agree (http_consumed r) d d'"
  proof -
    have a: "agree h d d'" using that hc by simp
    have "ParseHeaders d' (e + 2) h (po_headers opts) = Inr hs"
      using hs header_lines_agree [OF h(1) a] by (auto simp: ParseHeaders_def split: if_splits)
    moreover have "take e d' = take e d" using agree_mono [OF a, of e] e(2) by (simp add: agree_def)
    moreover have "FindHeaderEnd d' = Some h" using header_end_agree [OF h(1) [unfolded FindHeaderEnd_def] a] by (simp add: FindHeaderEnd_def)
    moreover have "d' \<noteq> []" using a b by (auto simp: agree_def)
    ultimately show ?thesis
      using r hs h(2) e(2) FindCrlf_agree [OF e(1) a e(2)] by (auto simp: parse_head_def rbind_eq_Inr_iff)
  qed
  show "parse_head opts (take k d) = Inl STATUS_MORE_PROCESSING_REQUIRED" if "k < http_consumed r"
    using header_end_none [OF h(1) [unfolded FindHeaderEnd_def]] that hc by (simp add: parse_head_def FindHeaderEnd_def)
qed

lemma apply_content_fields:
  "ApplyContentEncoding C opts r body = Inr r' \<Longrightarrow> http_consumed r' = http_consumed r \<and> http_ends_on_close r' = http_ends_on_close r"
  by (auto simp: ApplyContentEncoding_def rbind_eq_Inr_iff split: if_splits)

text \<open>The transfer decoding of a body that ends with its last chunk.\<close>

lemma decode_body_ends:
  assumes "DecodeResponseBody C b tc info w complete = Inr d" "ti_has info" "ti_codings info \<noteq> []"
    "ti_final_chunked info = (last (ti_codings info) = TcChunked)" "ti_final_chunked info"
  shows "td_consumed d \<le> length w" "agree (td_consumed d) w w' \<Longrightarrow> DecodeResponseBody C b tc info w' complete = Inr d"
    and "k < td_consumed d \<Longrightarrow> DecodeResponseBody C b tc info (take k w) complete = Inl STATUS_MORE_PROCESSING_REQUIRED"
proof -
  obtain rest where rv: "rev (ti_codings info) = TcChunked # rest"
    using assms(3-5) by (cases "ti_codings info" rule: rev_cases) auto
  let ?room = "map_option snd (SelectDestination InWire b)"
  let ?dec = "\<lambda>w. DecodeChunkedBodyWithTrailers w ?room tc"
  let ?next = "\<lambda>r. rbind (transfer_loop C b tc rest False
      ((if cr_body r = [] then NoBody else case SelectDestination InWire b of None \<Rightarrow> NoBody | Some (p, n) \<Rightarrow> p), cr_body r) True
      (cr_consumed r, cr_trailers r, cr_trailer_count r)) (\<lambda>(cur, transformed, consumed, trailers, n).
        rbind (move_to_decoded b transformed cur) (\<lambda>cur1.
          Inr \<lparr>td_body = snd cur1, td_consumed = consumed, td_kind = BodyChunked, td_trailers = trailers, td_trailer_count = n\<rparr>))"
  have outer: "transfer_loop C b tc cs False cur t outer = Inr (cur', t', outer') \<Longrightarrow> outer' = outer" for cs cur t outer cur' t' outer'
    by (induction cs arbitrary: cur t) (auto simp: rbind_eq_Inr_iff Let_def split: if_splits)
  have eq: "DecodeResponseBody C b tc info w complete = rbind (?dec w) ?next" for w
    using assms(2,3,5) by (auto simp: DecodeResponseBody_def rv Let_def rbind_assoc rbind_def split: sum.splits)
  obtain r where r: "?dec w = Inr r" "?next r = Inr d" using assms(1) unfolding eq by (auto simp: rbind_eq_Inr_iff)
  have c: "td_consumed d = cr_consumed r" using r(2) by (auto simp: rbind_eq_Inr_iff dest!: outer)
  note ends = chunk_loop_ends [OF r(1) [unfolded DecodeChunkedBodyWithTrailers_def]]
  show "td_consumed d \<le> length w" using chunk_loop_bound [OF r(1) [unfolded DecodeChunkedBodyWithTrailers_def]] c by simp
  show "DecodeResponseBody C b tc info w' complete = Inr d" if "agree (td_consumed d) w w'"
    using ends [of w'] that c r(2) by (simp add: eq DecodeChunkedBodyWithTrailers_def)
  show "DecodeResponseBody C b tc info (take k w) complete = Inl STATUS_MORE_PROCESSING_REQUIRED" if "k < td_consumed d"
    using ends that c by (simp add: eq DecodeChunkedBodyWithTrailers_def)
qed

lemma transfer_info_shape:
  "transfer_coding_parse hs = Inr info \<Longrightarrow> ti_has info \<Longrightarrow>
    ti_codings info \<noteq> [] \<and> ti_final_chunked info = (last (ti_codings info) = TcChunked)"
  by (auto simp: transfer_coding_parse_def rbind_eq_Inr_iff transfer_info_empty_def split: if_splits)

text \<open>
  What a response delimited by its headers depends on: the three ways to end it, a body that cannot be there, transfer
  codings that end in chunks, and a content length.
\<close>

definition response_ends :: "http_codecs \<Rightarrow> parse_options \<Rightarrow> bytes \<Rightarrow> http_response \<Rightarrow> bool" where
  "response_ends C opts data r \<longleftrightarrow> http_consumed r \<le> length data
    \<and> (\<forall>d'. agree (http_consumed r) data d' \<longrightarrow> ParseResponse C opts d' = Inr r)
    \<and> (\<forall>k < http_consumed r. ParseResponse C opts (take k data) = Inl STATUS_MORE_PROCESSING_REQUIRED)"

lemma parse_head_short:
  assumes "parse_head opts data = Inr r0" "k < http_consumed r0"
  shows "ParseResponse C opts (take k data) = Inl STATUS_MORE_PROCESSING_REQUIRED"
  using parse_head_ends(3) [OF assms] by (simp add: ParseResponse_def)

lemma parse_head_long:
  assumes "parse_head opts data = Inr r0" "http_consumed r0 \<le> k"
  shows "parse_head opts (take k data) = Inr r0"
proof (rule parse_head_ends(2) [OF assms(1)])
  show "agree (http_consumed r0) data (take k data)" using assms(2) parse_head_ends(1) [OF assms(1)] by (simp add: agree_def min_def)
qed

lemma no_body_ends:
  assumes "ParseResponse C opts data = Inr r" "parse_head opts data = Inr r0"
    "po_body_forbidden opts \<or> StatusCodeHasNoBody (http_status r0)"
  shows "response_ends C opts data r"
proof -
  have "r = r0\<lparr>http_body_kind := BodyNone\<rparr>" using assms by (simp add: ParseResponse_def Let_def)
  then show ?thesis using assms(3) parse_head_ends [OF assms(2)] by (auto simp: ParseResponse_def Let_def response_ends_def)
qed

lemma coded_body_ends:
  assumes "ParseResponse C opts data = Inr r" "\<not> http_ends_on_close r" "parse_head opts data = Inr r0"
    and body: "\<not> (po_body_forbidden opts \<or> StatusCodeHasNoBody (http_status r0))"
    and f: "parse_framing r0 = Inr (info, len)" and te: "ti_has info"
  shows "response_ends C opts data r"
proof -
  note ends = parse_head_ends [OF assms(3)]
  let ?h = "http_consumed r0"
  obtain d where d: "DecodeResponseBody C (po_buffers opts) (po_trailers opts) info (drop ?h data) (po_complete_on_close opts) = Inr d"
    and app: "ApplyContentEncoding C opts
        (r0\<lparr>http_body_kind := td_kind d, http_trailers := td_trailers d,
          http_ends_on_close := (\<not> ti_final_chunked info \<and> po_complete_on_close opts),
          http_consumed := ?h + td_consumed d\<rparr>) (td_body d) = Inr r"
    using assms(1,3) body f te by (auto simp: ParseResponse_def Let_def rbind_eq_Inr_iff)
  have hr: "http_consumed r = ?h + td_consumed d" "\<not> (\<not> ti_final_chunked info \<and> po_complete_on_close opts)"
    using apply_content_fields [OF app] assms(2) by simp_all
  have "transfer_coding_parse (http_headers r0) = Inr info" using f by (auto simp: parse_framing_def rbind_eq_Inr_iff split: if_splits)
  note shape = transfer_info_shape [OF this te]
  have fin: "ti_final_chunked info" using d hr(2) te shape by (auto simp: DecodeResponseBody_def split: if_splits)
  note de = decode_body_ends [OF d te conjunct1 [OF shape] conjunct2 [OF shape] fin]
  have "ParseResponse C opts d' = Inr r" if a: "agree (http_consumed r) data d'" for d'
    using ends(2) [OF agree_mono [OF a]] de(2) [of "drop ?h d'"] agree_drop [of ?h "td_consumed d" data d'] a hr(1) body f te app
    by (simp add: ParseResponse_def Let_def)
  moreover have "ParseResponse C opts (take k data) = Inl STATUS_MORE_PROCESSING_REQUIRED" if k: "k < http_consumed r" for k
  proof (cases "k < ?h")
    case False
    then have "k - ?h < td_consumed d" using k hr(1) by simp
    from de(3) [OF this] show ?thesis
      using parse_head_long [OF assms(3), of k] False body f te by (simp add: ParseResponse_def Let_def drop_take)
  qed (rule parse_head_short [OF assms(3)])
  ultimately show ?thesis using hr(1) de(1) ends(1) by (simp add: response_ends_def)
qed

lemma counted_body_ends:
  assumes "ParseResponse C opts data = Inr r" "\<not> http_ends_on_close r" "parse_head opts data = Inr r0"
    and body: "\<not> (po_body_forbidden opts \<or> StatusCodeHasNoBody (http_status r0))"
    and f: "parse_framing r0 = Inr (info, len)" and te: "\<not> ti_has info"
  shows "response_ends C opts data r"
proof -
  note ends = parse_head_ends [OF assms(3)]
  let ?h = "http_consumed r0"
  obtain n where n: "len = Some n" "n \<le> length data - ?h"
    and app: "ApplyContentEncoding C opts
        (r0\<lparr>http_body_kind := (if n = 0 then BodyNone else BodyContentLength), http_consumed := ?h + n\<rparr>)
        (take n (drop ?h data)) = Inr r"
    using assms apply_content_fields by (auto simp: ParseResponse_def Let_def split: option.splits if_splits)
  have hr: "http_consumed r = ?h + n" using apply_content_fields [OF app] by simp
  have "ParseResponse C opts d' = Inr r" if a: "agree (http_consumed r) data d'" for d'
  proof -
    have "take n (drop ?h d') = take n (drop ?h data)" "n \<le> length d' - ?h"
      using agree_drop [of ?h n data d'] a hr by (auto simp: agree_def)
    then show ?thesis using ends(2) [OF agree_mono [OF a]] hr body f te n(1) app by (simp add: ParseResponse_def Let_def)
  qed
  moreover have "ParseResponse C opts (take k data) = Inl STATUS_MORE_PROCESSING_REQUIRED" if k: "k < http_consumed r" for k
  proof (cases "k < ?h")
    case False
    then have "min (length data) k - ?h < n" using k hr by linarith
    then show ?thesis using parse_head_long [OF assms(3), of k] False body f te n(1) by (simp add: ParseResponse_def Let_def)
  qed (rule parse_head_short [OF assms(3)])
  ultimately show ?thesis using hr n(2) ends(1) by (simp add: response_ends_def)
qed

lemma delimited_response_ends:
  assumes "ParseResponse C opts data = Inr r" "\<not> http_ends_on_close r"
  shows "response_ends C opts data r"
proof -
  obtain r0 where head: "parse_head opts data = Inr r0"
    using assms(1) by (cases "parse_head opts data") (simp_all add: ParseResponse_def rbind_def)
  show ?thesis
  proof (cases "po_body_forbidden opts \<or> StatusCodeHasNoBody (http_status r0)")
    case body: False
    then obtain info len where f: "parse_framing r0 = Inr (info, len)"
      using assms(1) head by (auto simp: ParseResponse_def Let_def rbind_eq_Inr_iff)
    show ?thesis by (cases "ti_has info") (rule coded_body_ends [OF assms head body f] counted_body_ends [OF assms head body f]; assumption)+
  qed (rule no_body_ends [OF assms(1) head])
qed

text \<open>A response that ends with the connection.\<close>

definition response_ends_with_connection :: "http_codecs \<Rightarrow> parse_options \<Rightarrow> bytes \<Rightarrow> http_response \<Rightarrow> bool" where
  "response_ends_with_connection C opts data r \<longleftrightarrow> po_complete_on_close opts \<and> http_consumed r = length data
    \<and> (\<forall>k. ParseResponse C (opts\<lparr>po_complete_on_close := False\<rparr>) (take k data) = Inl STATUS_MORE_PROCESSING_REQUIRED)"

lemma parse_head_on_close [simp]: "parse_head (opts\<lparr>po_complete_on_close := b\<rparr>) data = parse_head opts data"
proof -
  have h: "po_headers (opts\<lparr>po_complete_on_close := b\<rparr>) = po_headers opts" by simp
  show ?thesis unfolding parse_head_def h ..
qed

lemma parse_head_open: "parse_head opts data = Inr r \<Longrightarrow> \<not> http_ends_on_close r"
  by (auto simp: parse_head_def rbind_eq_Inr_iff http_response_empty_def split: if_splits option.splits)

lemma transfer_loop_outer: "transfer_loop C b tc cs False cur t outer = Inr (cur', t', outer') \<Longrightarrow> outer' = outer"
  by (induction cs arbitrary: cur t) (auto simp: rbind_eq_Inr_iff Let_def split: if_splits)

lemma open_body_consumed:
  assumes "DecodeResponseBody C b tc info w complete = Inr d" "ti_has info" "ti_codings info \<noteq> []"
    "\<not> ti_final_chunked info" "last (ti_codings info) \<noteq> TcChunked"
  shows "td_consumed d = length w"
proof -
  obtain coding rest where rv: "rev (ti_codings info) = coding # rest" "coding \<noteq> TcChunked"
    using assms(3,5) by (cases "ti_codings info" rule: rev_cases) auto
  show ?thesis
    using assms(1-4) rv(2) by (auto simp: DecodeResponseBody_def rv(1) rbind_eq_Inr_iff split: if_splits dest!: transfer_loop_outer)
qed

lemma open_response_ends:
  assumes "ParseResponse C opts data = Inr r" "http_ends_on_close r"
  shows "response_ends_with_connection C opts data r"
proof -
  obtain r0 where head: "parse_head opts data = Inr r0"
    using assms(1) by (cases "parse_head opts data") (simp_all add: ParseResponse_def rbind_def)
  let ?h = "http_consumed r0" and ?later = "opts\<lparr>po_complete_on_close := False\<rparr>"
  note ends = parse_head_ends [OF head] and op = parse_head_open [OF head]
  have body: "\<not> (po_body_forbidden opts \<or> StatusCodeHasNoBody (http_status r0))"
    using assms op head by (auto simp: ParseResponse_def Let_def)
  obtain info len where f: "parse_framing r0 = Inr (info, len)"
    using assms(1) head body by (auto simp: ParseResponse_def Let_def rbind_eq_Inr_iff)
  have tp: "transfer_coding_parse (http_headers r0) = Inr info" using f by (auto simp: parse_framing_def rbind_eq_Inr_iff split: if_splits)
  have "po_complete_on_close opts \<and> http_consumed r = length data \<and> (if ti_has info then \<not> ti_final_chunked info else len = None)"
  proof (cases "ti_has info")
    case True
    note shape = transfer_info_shape [OF tp True]
    obtain d where d: "DecodeResponseBody C (po_buffers opts) (po_trailers opts) info (drop ?h data) (po_complete_on_close opts) = Inr d"
      and app: "ApplyContentEncoding C opts
          (r0\<lparr>http_body_kind := td_kind d, http_trailers := td_trailers d,
            http_ends_on_close := (\<not> ti_final_chunked info \<and> po_complete_on_close opts),
            http_consumed := ?h + td_consumed d\<rparr>) (td_body d) = Inr r"
      using assms(1) head body f True by (auto simp: ParseResponse_def Let_def rbind_eq_Inr_iff)
    have fin: "\<not> ti_final_chunked info" "po_complete_on_close opts" "http_consumed r = ?h + td_consumed d"
      using apply_content_fields [OF app] assms(2) by simp_all
    have "td_consumed d = length (drop ?h data)" by (rule open_body_consumed [OF d True]) (use shape fin in simp_all)
    then show ?thesis using fin ends(1) True by simp
  next
    case False
    then show ?thesis
      using assms head body f op apply_content_fields by (fastforce simp: ParseResponse_def Let_def split: option.splits if_splits)
  qed
  moreover from this have "ParseResponse C ?later (take k data) = Inl STATUS_MORE_PROCESSING_REQUIRED" for k
  proof (cases "k < ?h")
    case True
    then show ?thesis using parse_head_short [of ?later data r0 k C] head by simp
  next
    case False
    then have "parse_head opts (take k data) = Inr r0" by (intro parse_head_long [OF head]) simp
    then show ?thesis
      using calculation body f transfer_info_shape [OF tp] by (auto simp: ParseResponse_def Let_def DecodeResponseBody_def split: if_splits)
  qed
  ultimately show ?thesis by (simp add: response_ends_with_connection_def)
qed

text \<open>
  C10. A response ends exactly where the parser says. When a response that the headers delimit has been parsed,
  the same bytes followed by anything else give the same response, so the next message can be read behind it;
  and of any shorter beginning, cut wherever the network cut it, the parser asks for more. A response that ends
  with the connection takes all bytes there are, and as long as the connection is open the parser asks for more
  at every beginning of them.
\<close>

theorem response_ends_where_it_says:
  assumes "ParseResponse C opts data = Inr r"
  shows "if http_ends_on_close r
    then po_complete_on_close opts \<and> http_consumed r = length data
      \<and> (\<forall>k. ParseResponse C (opts\<lparr>po_complete_on_close := False\<rparr>) (take k data) = Inl STATUS_MORE_PROCESSING_REQUIRED)
    else http_consumed r \<le> length data
      \<and> (\<forall>more. ParseResponse C opts (take (http_consumed r) data @ more) = Inr r)
      \<and> (\<forall>k < http_consumed r. ParseResponse C opts (take k data) = Inl STATUS_MORE_PROCESSING_REQUIRED)"
proof (cases "http_ends_on_close r")
  case True
  then show ?thesis using open_response_ends [OF assms True] by (simp add: response_ends_with_connection_def)
next
  case False
  then show ?thesis using delimited_response_ends [OF assms False] by (auto simp: response_ends_def agree_def)
qed

text \<open>
  A chunked response, followed by the first byte of the next message.
\<close>

definition plain_options :: parse_options where
  "plain_options = \<lparr>po_headers = Some 4, po_trailers = Some 1, po_buffers = \<lparr>db_decoded = Some 8, db_scratch = None\<rparr>,
     po_complete_on_close = False, po_body_forbidden = False\<rparr>"

definition plain_codecs :: http_codecs where
  "plain_codecs = \<lparr>hc_decode_one = (\<lambda>coding bs n. Inl STATUS_NOT_SUPPORTED), hc_content_decode = (\<lambda>hs bs b. Inr bs)\<rparr>"

definition crlf :: bytes where "crlf = [13, 10]"

definition chunked_response :: bytes where
  "chunked_response = ascii ''HTTP/1.1 200 OK'' @ crlf @ ascii ''Transfer-Encoding: chunked'' @ crlf @ crlf
     @ ascii ''2'' @ crlf @ ascii ''hi'' @ crlf @ ascii ''0'' @ crlf @ crlf @ ascii ''H''"

lemma chunked_response_bytes:
  "chunked_response = [72, 84, 84, 80, 47, 49, 46, 49, 32, 50, 48, 48, 32, 79, 75, 13, 10,
     84, 114, 97, 110, 115, 102, 101, 114, 45, 69, 110, 99, 111, 100, 105, 110, 103, 58, 32,
     99, 104, 117, 110, 107, 101, 100, 13, 10, 13, 10, 50, 13, 10, 104, 105, 13, 10, 48, 13, 10, 13, 10, 72]"
  by (simp add: chunked_response_def ascii_def crlf_def)

lemma chunked_response_ends:
  "FindHeaderEnd chunked_response = Some 47" "FindCrlf chunked_response 0 = Some 15" "FindCrlf chunked_response 17 = Some 43"
  "FindCrlf chunked_response 45 = Some 45"
  by (simp_all add: chunked_response_bytes FindHeaderEnd_def FindCrlf_def)

abbreviation chunked_response_head :: http_response where
  "chunked_response_head \<equiv> http_response_empty\<lparr>http_major := 1, http_minor := 1, http_status := 200, http_reason := ascii ''OK'',
     http_headers := [(ascii ''Transfer-Encoding'', ascii ''chunked'')], http_consumed := 47\<rparr>"

lemma chunked_response_status: "ParseStatusLine (take 15 chunked_response) = Inr (1, 1, 200, ascii ''OK'')"
  by (simp add: chunked_response_bytes ParseStatusLine_def StartsWith_def ascii_def ParseUInt16_def Let_def is_digit_def rbind_def)

lemma chunked_response_headers:
  "ParseHeaders chunked_response 17 47 (Some 4) = Inr [(ascii ''Transfer-Encoding'', ascii ''chunked'')]"
proof -
  have line: "view chunked_response 17 26 = ascii ''Transfer-Encoding: chunked''"
    by (simp add: chunked_response_bytes view_def ascii_def)
  have f: "field_line (ascii ''Transfer-Encoding: chunked'') = Some (ascii ''Transfer-Encoding'', ascii ''chunked'')"
    by (simp add: field_line_def ascii_def Let_def is_blank_def trim_blanks_def)
  have ok: "IsValidHeaderName (ascii ''Transfer-Encoding'')" "IsValidHeaderValue (ascii ''chunked'')"
    by (simp_all add: IsValidHeaderName_def IsValidHeaderValue_def ascii_def is_tchar_def)
  show ?thesis
    using line f ok chunked_response_ends
    by (subst ParseHeaders_def, subst header_lines.simps, subst header_lines.simps)
      (simp add: HttpMaxHeaderBytes_def HttpMaxHeaderLineBytes_def HttpMaxHeaders_def)
qed

lemma chunked_response_parsed_head: "parse_head plain_options chunked_response = Inr chunked_response_head"
  using chunked_response_ends chunked_response_status chunked_response_headers
  by (simp add: parse_head_def HttpMaxHeaderBytes_def rbind_def plain_options_def) (simp add: chunked_response_bytes)

lemma chunked_response_framing:
  "parse_framing chunked_response_head = Inr (\<lparr>ti_codings = [TcChunked], ti_has = True, ti_final_chunked = True\<rparr>, None)"
proof -
  have t: "ParseTransferCodingToken (ascii ''chunked'') = Inr TcChunked"
    by (simp add: ParseTransferCodingToken_def ascii_def Let_def trim_blanks_def is_blank_def IsValidHeaderName_def is_tchar_def
        TextEqualsIgnoreCase_def ascii_lower_def)
  have sp: "split_on 44 (ascii ''chunked'') = [ascii ''chunked'']" by (simp add: ascii_def)
  have nocl: "\<not> TextEqualsIgnoreCase (ascii ''Transfer-Encoding'') (ascii ''Content-Length'')"
    by (simp add: TextEqualsIgnoreCase_def ascii_def)
  show ?thesis
    using nocl by (simp add: parse_framing_def transfer_coding_parse_def AppendTransferCodings_def sp t AppendTransferCoding_def
        HttpMaxTransferCodings_def rbind_def ReadContentLength_def http_response_empty_def)
qed

lemma chunked_response_body:
  "DecodeChunkedBodyWithTrailers (drop 47 chunked_response) (Some 8) (Some 1)
    = Inr \<lparr>cr_body = ascii ''hi'', cr_consumed = 12, cr_trailers = [], cr_trailer_count = 0\<rparr>"
proof -
  define body where "body = drop 47 chunked_response"
  have b: "body = [50, 13, 10, 104, 105, 13, 10, 48, 13, 10, 13, 10, 72]" by (simp add: body_def chunked_response_bytes)
  have ends: "FindCrlf body 0 = Some 1" "FindCrlf body 7 = Some 8" "FindCrlf body 10 = Some 10" by (simp_all add: b FindCrlf_def)
  have lines: "chunk_size_line (view body 0 1) = Inr 2" "chunk_size_line (view body 7 1) = Inr 0"
    by (simp_all add: b view_def chunk_size_line_def Let_def trim_blanks_def is_blank_def ParseHexSize_def is_hex_digit_def hex_value_def
        u64_max_def)
  have at: "length body = 13" "body ! 5 = 13" "body ! 6 = 10" "view body 3 2 = ascii ''hi''" by (simp_all add: b view_def ascii_def)
  have two: "chunk_loop body (Some 8) (Some 1) 7 1 dec = Inr \<lparr>cr_body = dec, cr_consumed = 12, cr_trailers = [], cr_trailer_count = 0\<rparr>"
    for dec
    using ends lines chunk_loop_round [of body 7 8 0]
    by (simp add: HttpMaxChunkSizeLineBytes_def HttpMaxHeaderLineBytes_def trailer_lines.simps rbind_def)
  have sums: "(1 :: nat) + 2 = 3" "(3 :: nat) + 2 = 5" "(5 :: nat) + 2 = 7" "(5 :: nat) + 1 = 6" "(0 :: nat) + 1 = 1" by simp_all
  have "chunk_loop body (Some 8) (Some 1) 0 0 [] = chunk_loop body (Some 8) (Some 1) 7 1 ([] @ view body 3 2)"
    using ends(1) lines(1) by (subst chunk_loop_round [where e = 1 and n = 2], simp, simp add: HttpMaxChunkSizeLineBytes_def, simp)
      (unfold sums at, simp add: HttpMaxChunks_def chunk_fits_def)
  then show ?thesis
    unfolding DecodeChunkedBodyWithTrailers_def body_def [symmetric] by (simp only: two at append_Nil)
qed

lemma chunked_response_parsed:
  "ParseResponse plain_codecs plain_options chunked_response
    = Inr (chunked_response_head\<lparr>http_body_kind := BodyChunked, http_consumed := 59, http_body := ascii ''hi''\<rparr>)"
proof -
  have a: "ascii ''hi'' \<noteq> []" by (simp add: ascii_def)
  have opts: "po_body_forbidden plain_options = False" "po_buffers plain_options = \<lparr>db_decoded = Some 8, db_scratch = None\<rparr>"
      "po_trailers plain_options = Some 1" "po_complete_on_close plain_options = False"
    by (simp_all add: plain_options_def)
  have fields: "http_status chunked_response_head = 200" "http_consumed chunked_response_head = 47" by simp_all
  have "DecodeResponseBody plain_codecs \<lparr>db_decoded = Some 8, db_scratch = None\<rparr> (Some 1)
      \<lparr>ti_codings = [TcChunked], ti_has = True, ti_final_chunked = True\<rparr> (drop 47 chunked_response) False
    = Inr \<lparr>td_body = ascii ''hi'', td_consumed = 12, td_kind = BodyChunked, td_trailers = [], td_trailer_count = 0\<rparr>"
    using a chunked_response_body
    by (simp add: DecodeResponseBody_def SelectDestination_def move_to_decoded_def rbind_def)
  then show ?thesis
    using a unfolding ParseResponse_def chunked_response_parsed_head rbind_def sum.case Let_def fields opts chunked_response_framing prod.case
    by (simp add: StatusCodeHasNoBody_def ApplyContentEncoding_def plain_codecs_def rbind_def) (simp add: http_response_empty_def)
qed

lemma response_ends_where_it_says_witness:
  "case ParseResponse plain_codecs plain_options chunked_response of
     Inl e \<Rightarrow> False
   | Inr r \<Rightarrow> http_body r = ascii ''hi'' \<and> http_consumed r = 59 \<and> length chunked_response = 60
      \<and> (\<forall>k < 59. ParseResponse plain_codecs plain_options (take k chunked_response) = Inl STATUS_MORE_PROCESSING_REQUIRED)"
  using response_ends_where_it_says [OF chunked_response_parsed]
  by (simp add: chunked_response_parsed http_response_empty_def) (simp add: chunked_response_bytes)

section \<open>How a response is framed\<close>

definition field_values :: "bytes \<Rightarrow> http_header list \<Rightarrow> bytes list" where
  "field_values name headers = map snd (filter (\<lambda>h. TextEqualsIgnoreCase (fst h) name) headers)"

definition decimal :: "bytes \<Rightarrow> nat" where
  "decimal ds = foldl (\<lambda>v c. v * 10 + unat (c - 48)) 0 ds"

lemma size_digits_value:
  "size_digits ds v = Inr n \<Longrightarrow> list_all is_digit ds \<and> n = foldl (\<lambda>v c. v * 10 + unat (c - 48)) v ds"
  by (induction ds v rule: size_digits.induct) (auto simp: Let_def split: if_splits)

lemma ParseSize_value: "ParseSize ds = Inr n \<Longrightarrow> ds \<noteq> [] \<and> list_all is_digit ds \<and> n = decimal ds"
  using size_digits_value by (auto simp: ParseSize_def decimal_def split: if_splits)

lemma content_length_found:
  "content_length_loop hs (Some n) = Inr found \<Longrightarrow> found = Some n \<and> field_values (ascii ''Content-Length'') hs = []"
  by (induction hs) (auto simp: field_values_def Let_def split: if_splits)

lemma content_length_values:
  "ReadContentLength hs = Inr found \<Longrightarrow>
    (case found of None \<Rightarrow> field_values (ascii ''Content-Length'') hs = []
     | Some n \<Rightarrow> \<exists>v. field_values (ascii ''Content-Length'') hs = [v] \<and> trim_blanks v \<noteq> []
         \<and> list_all is_digit (trim_blanks v) \<and> n = decimal (trim_blanks v))"
proof (unfold ReadContentLength_def, induction hs)
  case (Cons h hs)
  show ?case
  proof (cases "TextEqualsIgnoreCase (fst h) (ascii ''Content-Length'')")
    case True
    then obtain n where n: "ParseSize (trim_blanks (snd h)) = Inr n" "content_length_loop hs (Some n) = Inr found"
      using Cons.prems by (auto simp: Let_def rbind_eq_Inr_iff split: if_splits)
    have f: "field_values (ascii ''Content-Length'') (h # hs) = [snd h]"
      using content_length_found [OF n(2)] True by (simp add: field_values_def)
    show ?thesis using ParseSize_value [OF n(1)] content_length_found [OF n(2)] by (auto simp: f)
  next
    case False
    then have f: "field_values (ascii ''Content-Length'') (h # hs) = field_values (ascii ''Content-Length'') hs"
      by (simp add: field_values_def)
    show ?thesis using Cons False unfolding f by simp
  qed
qed (simp add: field_values_def)

lemma append_codings_last:
  "append_transfer_codings ps info = Inr info' \<Longrightarrow> ps \<noteq> [] \<Longrightarrow>
    info' \<noteq> [] \<and> ParseTransferCodingToken (last ps) = Inr (last info')"
proof (induction ps arbitrary: info)
  case (Cons p ps)
  then show ?case by (cases "ps = []") (auto simp: rbind_eq_Inr_iff AppendTransferCoding_def split: if_splits)
qed simp

lemma transfer_headers_last:
  "transfer_headers hs info saw = Inr (info', saw') \<Longrightarrow>
    (case field_values (ascii ''Transfer-Encoding'') hs of
       [] \<Rightarrow> info' = info \<and> saw' = saw
     | v # vs \<Rightarrow> saw' \<and> info' \<noteq> [] \<and> ParseTransferCodingToken (last (split_on 44 (last (v # vs)))) = Inr (last info'))"
proof (induction hs arbitrary: info saw)
  case (Cons h hs)
  show ?case
  proof (cases "TextEqualsIgnoreCase (fst h) (ascii ''Transfer-Encoding'')")
    case True
    then obtain info1 where i: "AppendTransferCodings (snd h) info = Inr info1" "transfer_headers hs info1 True = Inr (info', saw')"
      using Cons.prems by (auto simp: rbind_eq_Inr_iff)
    have f: "field_values (ascii ''Transfer-Encoding'') (h # hs) = snd h # field_values (ascii ''Transfer-Encoding'') hs"
      using True by (simp add: field_values_def)
    show ?thesis
      using Cons.IH [OF i(2)] append_codings_last [OF i(1) [unfolded AppendTransferCodings_def]]
      by (auto simp: f split: list.splits)
  next
    case False
    then have f: "field_values (ascii ''Transfer-Encoding'') (h # hs) = field_values (ascii ''Transfer-Encoding'') hs"
      by (simp add: field_values_def)
    show ?thesis using Cons False by (simp add: f)
  qed
qed (simp add: field_values_def)

lemma token_chunked:
  assumes "ParseTransferCodingToken p = Inr TcChunked"
  shows "TextEqualsIgnoreCase (trim_blanks p) (ascii ''chunked'')"
proof -
  let ?m = "trim_blanks p"
  let ?t = "takeWhile (\<lambda>c. c \<noteq> 59) ?m"
  have eq: "TextEqualsIgnoreCase (trim_blanks ?t) (ascii ''chunked'')" and len: "length ?t = length ?m"
    using assms by (auto simp: ParseTransferCodingToken_def Let_def split: if_splits option.splits)
  have t: "?t = ?m" using len by (metis append_eq_conv_conj takeWhile_dropWhile_id take_all order_refl)
  show ?thesis using eq [unfolded t] by simp
qed

lemma transfer_info_values:
  assumes "transfer_coding_parse hs = Inr info"
  shows "if ti_has info
    then field_values (ascii ''Transfer-Encoding'') hs \<noteq> []
      \<and> (ti_final_chunked info \<longrightarrow> TextEqualsIgnoreCase
            (trim_blanks (last (split_on 44 (last (field_values (ascii ''Transfer-Encoding'') hs))))) (ascii ''chunked''))
    else field_values (ascii ''Transfer-Encoding'') hs = []"
proof -
  obtain codings saw where t: "transfer_headers hs [] False = Inr (codings, saw)"
    and i: "info = (if saw then \<lparr>ti_codings = codings, ti_has = True, ti_final_chunked = (last codings = TcChunked)\<rparr>
                    else transfer_info_empty)"
    using assms by (auto simp: transfer_coding_parse_def rbind_eq_Inr_iff split: if_splits)
  show ?thesis
    using transfer_headers_last [OF t] i token_chunked
    by (cases "field_values (ascii ''Transfer-Encoding'') hs") (auto simp: transfer_info_empty_def)
qed

lemma status_line_version: "ParseStatusLine line = Inr (major, minor, code, reason) \<Longrightarrow> major = 1 \<and> minor \<le> 1"
  by (auto simp: ParseStatusLine_def Let_def rbind_eq_Inr_iff split: if_splits)

lemma parse_head_version: "parse_head opts d = Inr r \<Longrightarrow> http_major r = 1 \<and> http_minor r \<le> 1"
  by (auto simp: parse_head_def rbind_eq_Inr_iff dest!: status_line_version split: if_splits option.splits)

text \<open>
  C11. How a response is framed is unambiguous: a response whose headers were parsed and that can have a body
  either has transfer codings that end in \<open>chunked\<close>, in HTTP/1.1 and without a content length, or exactly one
  \<open>Content-Length\<close> whose value is all digits and is the number returned, and no transfer coding, or neither
  of the two, and then it ends with the connection. A message that two readers could cut differently is
  refused.
\<close>

theorem framing_unambiguous:
  assumes "ParseResponseHeaders opts data = Inr (r, n)" "\<not> po_body_forbidden opts" "\<not> StatusCodeHasNoBody (http_status r)"
  shows "let te = field_values (ascii ''Transfer-Encoding'') (http_headers r);
             cl = field_values (ascii ''Content-Length'') (http_headers r)
    in case http_body_kind r of
         BodyChunked \<Rightarrow> te \<noteq> [] \<and> cl = [] \<and> http_major r = 1 \<and> http_minor r = 1
           \<and> TextEqualsIgnoreCase (trim_blanks (last (split_on 44 (last te)))) (ascii ''chunked'')
       | BodyContentLength \<Rightarrow> te = [] \<and> (\<exists>v. cl = [v] \<and> trim_blanks v \<noteq> [] \<and> list_all is_digit (trim_blanks v)
           \<and> n = decimal (trim_blanks v))
       | BodyCloseDelimited \<Rightarrow> te = [] \<and> cl = [] \<and> http_ends_on_close r
       | BodyNone \<Rightarrow> False"
proof -
  obtain r0 where head: "parse_head opts data = Inr r0"
    using assms(1) by (cases "parse_head opts data") (simp_all add: ParseResponseHeaders_def rbind_def)
  note run = assms(1) [unfolded ParseResponseHeaders_def head rbind_def sum.case]
  have st: "http_status r = http_status r0" using run by (auto split: if_splits sum.splits option.splits)
  have body: "\<not> (po_body_forbidden opts \<or> StatusCodeHasNoBody (http_status r0))" using assms(2,3) st by simp
  obtain info len where f: "parse_framing r0 = Inr (info, len)"
    using run body by (cases "parse_framing r0") auto
  have t: "transfer_coding_parse (http_headers r0) = Inr info" and l: "ReadContentLength (http_headers r0) = Inr len"
    and v: "ti_has info \<longrightarrow> http_major r0 \<ge> 1 \<and> \<not> (http_major r0 = 1 \<and> http_minor r0 < 1) \<and> len = None"
    using f by (auto simp: parse_framing_def rbind_eq_Inr_iff not_less split: if_splits)
  have ver: "http_major r0 = 1" "http_minor r0 \<le> 1" using parse_head_version [OF head] by simp_all
  note te = transfer_info_values [OF t] and cl = content_length_values [OF l]
  note run = run [unfolded if_not_P [OF body] f sum.case prod.case]
  show ?thesis
  proof (cases "ti_has info")
    case True
    then have "ti_final_chunked info" and r: "r = r0\<lparr>http_body_kind := BodyChunked\<rparr>" using run by (auto split: if_splits)
    then show ?thesis using True te cl v ver by (simp add: Let_def)
  next
    case False
    show ?thesis
    proof (cases len)
      case None
      then have "r = r0\<lparr>http_body_kind := BodyCloseDelimited, http_ends_on_close := True\<rparr>" using run False by simp
      then show ?thesis using False te cl None by simp
    next
      case (Some m)
      then have "r = r0\<lparr>http_body_kind := BodyContentLength\<rparr>" "n = m" using run False by simp_all
      then show ?thesis using False te cl Some by (simp add: Let_def)
    qed
  qed
qed

lemma framing_unambiguous_witness:
  "case ParseResponseHeaders plain_options chunked_response of
     Inl e \<Rightarrow> False
   | Inr (r, n) \<Rightarrow> http_body_kind r = BodyChunked \<and> field_values (ascii ''Content-Length'') (http_headers r) = []"
proof -
  have opts: "po_body_forbidden plain_options = False" by (simp add: plain_options_def)
  have st: "http_status chunked_response_head = 200" by simp
  have parsed: "ParseResponseHeaders plain_options chunked_response = Inr (chunked_response_head\<lparr>http_body_kind := BodyChunked\<rparr>, 0)"
    unfolding ParseResponseHeaders_def chunked_response_parsed_head rbind_def sum.case st opts chunked_response_framing prod.case
    by (simp add: StatusCodeHasNoBody_def)
  show ?thesis
    using framing_unambiguous [OF parsed] parsed
    by (simp add: opts StatusCodeHasNoBody_def Let_def http_response_empty_def)
qed

section \<open>The two decoders of chunked bodies\<close>

text \<open>
  What the decoder of a whole body demands beyond well-formedness: a size line that fits its limit with the
  extension, whose parameters are well-formed, and trailers that are allowed in trailers.
\<close>

definition size_line_strict :: "bytes \<Rightarrow> bytes \<Rightarrow> bool" where
  "size_line_strict digits extension \<longleftrightarrow> length digits + length extension \<le> HttpMaxChunkSizeLineBytes
     \<and> 13 \<notin> set extension \<and> ValidateSemicolonParameters extension = STATUS_SUCCESS"

definition chunk_strict :: "chunk \<Rightarrow> bool" where
  "chunk_strict = (\<lambda>(digits, extension, bs). size_line_strict digits extension)"

definition trailer_strict :: "trailer \<Rightarrow> bool" where
  "trailer_strict = (\<lambda>(name, pre, val, post). IsValidHeaderValue val \<and> \<not> IsForbiddenTrailerField name)"

lemma crlf_index_line: "13 \<notin> set line \<Longrightarrow> crlf_index (line @ 13 # 10 # r) = Some (length line)"
proof (induction line)
  case (Cons a line)
  then obtain b t where "line @ 13 # 10 # r = b # t" by (cases line) auto
  then show ?case using Cons by auto
qed simp

lemma FindCrlf_line: "13 \<notin> set line \<Longrightarrow> FindCrlf (pre @ line @ 13 # 10 # r) (length pre) = Some (length pre + length line)"
  by (simp add: FindCrlf_def crlf_index_line)

lemma view_at [simp]: "view (pre @ xs @ r) (length pre) (length xs) = xs"
  by (simp add: view_def)

lemma hex_digits_chunk_size: "chunk_size ds v = Some n \<Longrightarrow> hex_digits ds v = Inr n"
  by (induction ds v rule: chunk_size.induct) (auto simp: Let_def split: if_splits)

lemma hex_digit_not_blank: "is_hex_digit c \<Longrightarrow> \<not> is_blank c"
  by (auto simp: is_hex_digit_def is_blank_def)

lemma chunk_size_line_ok:
  assumes "size_line_ok digits extension n" "size_line_strict digits extension"
  shows "chunk_size_line (digits @ extension) = Inr n" "13 \<notin> set (digits @ extension)"
proof -
  have d: "digits \<noteq> []" "chunk_size digits 0 = Some n" using assms(1) by (auto simp: size_line_ok_def)
  have hex: "list_all is_hex_digit digits" using chunk_size_digits [OF d(2)] .
  have tr: "trim_blanks digits = digits"
    using d(1) hex hex_digit_not_blank by (intro trim_blanks_id) (auto simp: list_all_iff)
  have plain: "\<forall>c \<in> set digits. c \<noteq> 59" using hex is_hex_digit_plain by (auto simp: list_all_iff)
  have tw: "takeWhile (\<lambda>c. c \<noteq> 59) (digits @ extension) = digits"
    using plain assms(1) by (cases extension) (auto simp: size_line_ok_def)
  show "chunk_size_line (digits @ extension) = Inr n"
    using assms(2) d tr hex_digits_chunk_size [OF d(2)]
    by (simp add: chunk_size_line_def tw size_line_strict_def ParseHexSize_def)
  show "13 \<notin> set (digits @ extension)"
    using hex is_hex_digit_plain assms(2) by (auto simp: list_all_iff size_line_strict_def)
qed

lemma trailer_line_ok:
  assumes "trailer_ok (name, pre, val, post)" "trailer_strict (name, pre, val, post)"
  shows "ParseTrailerFieldLine (name @ 58 # pre @ val @ post) = Inr (name, val)" "13 \<notin> set (name @ 58 # pre @ val @ post)"
proof -
  have ok: "name \<noteq> []" "list_all is_tchar name" "list_all is_blank pre" "list_all is_blank post" "13 \<notin> set val"
      "val \<noteq> [] \<longrightarrow> \<not> is_blank (hd val) \<and> \<not> is_blank (last val)"
    using assms(1) by (auto simp: trailer_ok_def)
  have name: "13 \<notin> set name" "58 \<notin> set name" using ok(2) is_tchar_plain by (auto simp: list_all_iff)
  have hd: "\<not> is_blank (hd name)" using ok(1,2) by (cases name) (auto simp: is_blank_def is_tchar_def)
  have "field_line (name @ 58 # pre @ val @ post) = Some (name, val)"
    using ok(1) hd by (simp add: field_line_def takeWhile_name [OF name(2)] trim_blanks_between [OF ok(3,4,6)])
  then show "ParseTrailerFieldLine (name @ 58 # pre @ val @ post) = Inr (name, val)"
    using ok(2) assms(2) by (simp add: ParseTrailerFieldLine_def IsValidHeaderName_def ok(1) trailer_strict_def)
  show "13 \<notin> set (name @ 58 # pre @ val @ post)"
    using name ok(3-5) by (auto simp: list_all_iff is_blank_def)
qed

lemma trailers_one_shot:
  assumes "list_all trailer_ok ts" "list_all trailer_strict ts" "n + length ts \<le> HttpMaxTrailers" "n + length ts \<le> cap"
  shows "trailer_lines (p @ concat (map trailer_wire ts) @ 13 # 10 # rest) (Some cap) (length p) acc n
    = Inr (acc @ map trailer_field ts, n + length ts, length p + length (concat (map trailer_wire ts)) + 2)"
  using assms
proof (induction ts arbitrary: p acc n)
  case Nil
  have "FindCrlf (p @ [] @ 13 # 10 # rest) (length p) = Some (length p + length ([] :: bytes))" by (rule FindCrlf_line) simp
  then show ?case by (subst trailer_lines.simps) simp
next
  case (Cons t ts)
  obtain name pre val post where t: "t = (name, pre, val, post)" by (cases t)
  define line where "line = name @ 58 # pre @ val @ post"
  let ?r = "concat (map trailer_wire ts) @ 13 # 10 # rest"
  let ?d = "p @ line @ 13 # 10 # ?r"
  have ok: "trailer_ok (name, pre, val, post)" "trailer_strict (name, pre, val, post)" using Cons.prems t by auto
  have line: "ParseTrailerFieldLine line = Inr (name, val)" "13 \<notin> set line" "line \<noteq> []" "length line \<le> HttpMaxHeaderLineBytes"
    using trailer_line_ok [OF ok] ok(1) by (auto simp: line_def trailer_ok_def)
  have d: "p @ concat (map trailer_wire (t # ts)) @ 13 # 10 # rest = ?d" by (simp add: t trailer_wire_def line_def)
  have d': "?d = (p @ line @ [13, 10]) @ ?r" by simp
  have run: "trailer_lines ?d (Some cap) (length p + length line + 2) (acc @ [(name, val)]) (n + 1)
      = Inr ((acc @ [(name, val)]) @ map trailer_field ts, n + 1 + length ts,
             length p + length line + 2 + length (concat (map trailer_wire ts)) + 2)"
    using Cons.IH [of "n + 1" "p @ line @ [13, 10]" "acc @ [(name, val)]"] Cons.prems by simp
  have v: "view ?d (length p) (length p + length line - length p) = line" by simp
  show ?case
    unfolding d
    by (subst trailer_lines.simps, unfold FindCrlf_line [OF line(2)] option.case Let_def v line(1) sum.case)
      (use Cons.prems line(3,4) run in \<open>simp add: t trailer_field_def trailer_wire_def line_def\<close>)
qed

lemma chunks_one_shot:
  assumes "list_all chunk_ok chunks" "list_all chunk_strict chunks" "size_line_ok zeros extension 0" "size_line_strict zeros extension"
    "list_all trailer_ok ts" "list_all trailer_strict ts" "length ts \<le> HttpMaxTrailers" "length ts \<le> cap"
    "k + length chunks \<le> HttpMaxChunks" "length dec + length (concat (map (\<lambda>ch. snd (snd ch)) chunks)) \<le> room"
  shows "chunk_loop (p @ body_wire chunks zeros extension ts @ rest) (Some room) (Some cap) (length p) k dec
    = Inr \<lparr>cr_body = dec @ concat (map (\<lambda>ch. snd (snd ch)) chunks), cr_consumed = length p + length (body_wire chunks zeros extension ts),
           cr_trailers = map trailer_field ts, cr_trailer_count = length ts\<rparr>"
  using assms(1,2,9,10)
proof (induction chunks arbitrary: p k dec)
  case Nil
  define line where "line = zeros @ extension"
  let ?r = "concat (map trailer_wire ts) @ 13 # 10 # rest"
  let ?d = "p @ line @ 13 # 10 # ?r"
  have line: "chunk_size_line line = Inr 0" "13 \<notin> set line" "length line \<le> HttpMaxChunkSizeLineBytes"
    using chunk_size_line_ok [OF assms(3,4)] assms(4) by (auto simp: line_def size_line_strict_def)
  have d: "p @ body_wire [] zeros extension ts @ rest = ?d" by (simp add: body_wire_def size_line_def line_def)
  have v: "view ?d (length p) (length p + length line - length p) = line" by simp
  have l: "length p + length line - length p \<le> HttpMaxChunkSizeLineBytes"
    "chunk_size_line (view ?d (length p) (length p + length line - length p)) = Inr 0" unfolding v using line(1,3) by simp_all
  note round = chunk_loop_round [OF FindCrlf_line [OF line(2)] l]
  have tr: "trailer_lines ?d (Some cap) (length p + length line + 2) [] 0
      = Inr (map trailer_field ts, length ts, length p + length line + 2 + length (concat (map trailer_wire ts)) + 2)"
    using trailers_one_shot [of ts 0 cap "p @ line @ [13, 10]" rest "[]"] assms(5-8) by simp
  show ?case
    unfolding d
    unfolding round
    by (use tr in \<open>simp_all add: body_wire_def size_line_def line_def rbind_def\<close>)
next
  case (Cons ch chunks)
  obtain digits ext bs where ch: "ch = (digits, ext, bs)" by (cases ch)
  define line where "line = digits @ ext"
  let ?r = "body_wire chunks zeros extension ts @ rest"
  let ?d = "p @ line @ 13 # 10 # bs @ 13 # 10 # ?r"
  have ok: "size_line_ok digits ext (length bs)" "size_line_strict digits ext" "bs \<noteq> []"
    using Cons.prems by (auto simp: ch chunk_ok_def chunk_strict_def)
  have line: "chunk_size_line line = Inr (length bs)" "13 \<notin> set line" "length line \<le> HttpMaxChunkSizeLineBytes"
    using chunk_size_line_ok [OF ok(1,2)] ok(2) by (auto simp: line_def size_line_strict_def)
  have d: "p @ body_wire (ch # chunks) zeros extension ts @ rest = ?d"
    by (simp add: body_wire_def chunk_wire_def size_line_def line_def ch)
  let ?q = "p @ line @ [13, 10]" and ?q2 = "p @ line @ [13, 10] @ bs"
  have v: "view ?d (length p) (length p + length line - length p) = line" by simp
  have l: "length p + length line - length p \<le> HttpMaxChunkSizeLineBytes"
    "chunk_size_line (view ?d (length p) (length p + length line - length p)) = Inr (length bs)" unfolding v using line(1,3) by simp_all
  note round = chunk_loop_round [OF FindCrlf_line [OF line(2)] l]
  have b: "view ?d (length p + length line + 2) (length bs) = bs"
    using view_at [of ?q bs "13 # 10 # ?r"] by (simp del: view_at)
  have nth: "?d ! (length p + length line + 2 + length bs) = 13" "?d ! (length p + length line + 2 + length bs + 1) = 10"
    using nth_append_length [of ?q2 13 "10 # ?r"] nth_append_length [of "?q2 @ [13]" 10 "?r"] by (simp_all add: ac_simps)
  have len: "length ?d = length p + length line + 2 + length bs + 2 + length ?r" by simp
  have run: "chunk_loop ?d (Some room) (Some cap) (length p + length line + 2 + length bs + 2) (k + 1) (dec @ bs)
      = Inr \<lparr>cr_body = (dec @ bs) @ concat (map (\<lambda>ch. snd (snd ch)) chunks),
             cr_consumed = length p + length line + 2 + length bs + 2 + length (body_wire chunks zeros extension ts),
             cr_trailers = map trailer_field ts, cr_trailer_count = length ts\<rparr>"
    using Cons.IH [of "k + 1" "dec @ bs" "?q2 @ [13, 10]"] Cons.prems by (simp add: ch ac_simps)
  show ?case
    unfolding d
    unfolding round b nth run
    by (use Cons.prems ok(3) in \<open>simp add: len chunk_fits_def body_wire_def chunk_wire_def size_line_def line_def ch\<close>)
qed

text \<open>
  C15. The two decoders of chunked bodies agree on the bodies that meet what the decoder of a whole body demands
  beyond well-formedness: every size line with its extension is at most 32 bytes long, the extension is a list of
  valid parameters without a carriage return, no trailer is forbidden or has a value that is not a header value,
  there are at most 8192 chunks and 512 trailers, and the payload, the trailers and their bytes have room. Such a
  body is decoded by it, in one call, to the same payload, the same trailers and the same end as by the fresh
  incremental decoder, whichever pieces the wire delivers to that one and whatever follows. On other well-formed
  bodies they may differ: the incremental decoder skips any extension and keeps any trailer.
\<close>

theorem chunked_decoders_agree:
  assumes "cd_ready d" "cd_at_size d" "cd_output d = []" "cd_trailers d = []" "cd_storage d = Some cap"
    "cd_arena_used d + sum_list (map trailer_bytes ts) \<le> cd_arena_capacity d"
    "list_all chunk_ok chunks" "size_line_ok zeros extension 0" "list_all trailer_ok ts"
    "list_all chunk_strict chunks" "size_line_strict zeros extension" "list_all trailer_strict ts"
    "length chunks \<le> HttpMaxChunks" "length ts \<le> HttpMaxTrailers" "length ts \<le> cap"
    "length (concat (map (\<lambda>ch. snd (snd ch)) chunks)) \<le> room"
    "concat pieces = body_wire chunks zeros extension ts @ rest"
  shows "\<exists>r d'. DecodeChunkedBodyWithTrailers (concat pieces) (Some room) (Some cap) = Inr r
    \<and> feed_pieces cd_feed_plain cd_stopped d pieces = (STATUS_SUCCESS, cr_consumed r, d')
    \<and> cr_consumed r = length (body_wire chunks zeros extension ts)
    \<and> cd_output d' = cr_body r \<and> cd_trailers d' = cr_trailers r \<and> cr_trailer_count r = length (cd_trailers d')"
proof -
  have one: "DecodeChunkedBodyWithTrailers (concat pieces) (Some room) (Some cap)
      = Inr \<lparr>cr_body = concat (map (\<lambda>ch. snd (snd ch)) chunks), cr_consumed = length (body_wire chunks zeros extension ts),
             cr_trailers = map trailer_field ts, cr_trailer_count = length ts\<rparr>"
    using chunks_one_shot [of chunks zeros extension ts cap 0 "[]" room "[]" rest] assms
    by (simp add: DecodeChunkedBodyWithTrailers_def)
  obtain d' where "feed_pieces cd_feed_plain cd_stopped d pieces = (STATUS_SUCCESS, length (body_wire chunks zeros extension ts), d')"
      "cd_output d' = concat (map (\<lambda>ch. snd (snd ch)) chunks)" "cd_trailers d' = map trailer_field ts"
    using chunked.pieces_irrelevant [OF assms(1), of pieces] loop_body [OF assms(2,7,8,9,5), of rest] assms
    by (auto simp: cd_feed_eq [OF assms(1)])
  then show ?thesis using one by simp
qed

text \<open>The body of the example above, \<open>5;x\<close>, \<open>hello\<close>, \<open>0\<close>, \<open>a: b\<close>, in two pieces.\<close>

lemma chunked_decoders_agree_witness:
  "\<exists>r d'. DecodeChunkedBodyWithTrailers
        [53, 59, 120, 13, 10, 104, 101, 108, 108, 111, 13, 10, 48, 13, 10, 97, 58, 32, 98, 13, 10, 13, 10, 72] (Some 8) (Some 2) = Inr r
    \<and> feed_pieces cd_feed_plain cd_stopped chunked_example
        [[53, 59, 120, 13, 10, 104, 101], [108, 108, 111, 13, 10, 48, 13, 10, 97, 58, 32, 98, 13, 10, 13, 10, 72]]
      = (STATUS_SUCCESS, 23, d')
    \<and> cr_consumed r = 23 \<and> cd_output d' = cr_body r \<and> cd_trailers d' = cr_trailers r"
proof -
  let ?chunks = "[([53], [59, 120], [104, 101, 108, 108, 111])] :: chunk list"
  let ?ts = "[([97], [32], [98], [])] :: trailer list"
  let ?pieces = "[[53, 59, 120, 13, 10, 104, 101], [108, 108, 111, 13, 10, 48, 13, 10, 97, 58, 32, 98, 13, 10, 13, 10, 72]] :: bytes list"
  note wire_defs = body_wire_def chunk_wire_def size_line_def trailer_wire_def
  have len: "length (body_wire ?chunks [48] [] ?ts) = 23" by (simp add: wire_defs)
  have cut: "concat ?pieces = body_wire ?chunks [48] [] ?ts @ [72]" by (simp add: wire_defs)
  have d: "cd_ready chunked_example" "cd_at_size chunked_example" "cd_output chunked_example = []"
      "cd_trailers chunked_example = []" "cd_storage chunked_example = Some 2"
      "cd_arena_used chunked_example + sum_list (map trailer_bytes ?ts) \<le> cd_arena_capacity chunked_example"
    by (simp_all add: chunked_example_def cd_set_trailer_storage_def cd_initialize_def cd_new_def cd_ready_def
        cd_active_def cd_at_size_def trailer_bytes_def)
  have wf: "list_all chunk_ok ?chunks" "size_line_ok [48] [] 0" "list_all trailer_ok ?ts"
    by (simp_all add: chunk_ok_def size_line_ok_def is_hex_digit_def hex_value_def HttpMaxChunkSizeLineBytes_def
        HttpMaxHeaderLineBytes_def trailer_ok_def is_tchar_def is_blank_def u64_max_def)
  have name: "\<not> IsForbiddenTrailerField [97]"
    by (simp add: IsForbiddenTrailerField_def TextEqualsIgnoreCase_def ascii_def)
  have strict: "list_all chunk_strict ?chunks" "size_line_strict [48] []" "list_all trailer_strict ?ts"
    using name by (simp_all add: chunk_strict_def size_line_strict_def HttpMaxChunkSizeLineBytes_def trailer_strict_def
        IsValidHeaderValue_def Let_def is_tchar_def is_blank_def)
  show ?thesis
    using chunked_decoders_agree [OF d wf strict _ _ _ _ cut, of 8, unfolded len]
    by (simp add: HttpMaxChunks_def HttpMaxTrailers_def del: feed_pieces.simps) (metis (no_types, lifting))
qed

end
