(* ===== verification/WebSocketFrame.thy ===== *)
theory WebSocketFrame
  imports HttpText
begin

text \<open>
  WebSocket frames and the opening handshake, \<open>src/wknetlib/ws/WebSocketFrame.cpp\<close>. The hash of the
  cryptographic provider and the outcomes of allocations are an environment. The lemmas show that frames are
  read as they were written, however much of them has arrived, that a masked payload is unmasked by its key,
  and what a response must hold to be accepted as the end of the handshake.
\<close>

definition WebSocketGuid :: bytes where
  "WebSocketGuid = ascii ''258EAFA5-E914-47DA-95CA-C5AB0DC85B11''"

definition Sha1DigestLength :: nat where "Sha1DigestLength = 20"
definition WebSocketMaximumPayloadLength :: nat where "WebSocketMaximumPayloadLength = 0x7fffffffffffffff"
definition WebSocketClientKeyLength :: nat where "WebSocketClientKeyLength = 16"
definition WebSocketAcceptValueLength :: nat where "WebSocketAcceptValueLength = 28"
definition WebSocketMaskingKeyLength :: nat where "WebSocketMaskingKeyLength = 4"
definition WebSocketMaxControlPayloadLength :: nat where "WebSocketMaxControlPayloadLength = 125"
definition WebSocketDeflateMinWindowBits :: nat where "WebSocketDeflateMinWindowBits = 8"
definition WebSocketDeflateMaxWindowBits :: nat where "WebSocketDeflateMaxWindowBits = 15"

datatype ws_opcode = WsContinuation | WsText | WsBinary | WsClose | WsPing | WsPong

fun ws_opcode_byte :: "ws_opcode \<Rightarrow> byte" where
  "ws_opcode_byte WsContinuation = 0x0"
| "ws_opcode_byte WsText = 0x1"
| "ws_opcode_byte WsBinary = 0x2"
| "ws_opcode_byte WsClose = 0x8"
| "ws_opcode_byte WsPing = 0x9"
| "ws_opcode_byte WsPong = 0xa"

text \<open>\<open>IsKnownOpcode\<close>, with the cast of a known opcode.\<close>

definition ws_known_opcode :: "byte \<Rightarrow> ws_opcode option" where
  "ws_known_opcode b = find (\<lambda>o'. ws_opcode_byte o' = b) [WsContinuation, WsText, WsBinary, WsClose, WsPing, WsPong]"

definition IsControlOpcode :: "ws_opcode \<Rightarrow> bool" where
  "IsControlOpcode oc \<longleftrightarrow> oc = WsClose \<or> oc = WsPing \<or> oc = WsPong"

section \<open>Base64\<close>

definition base64_alphabet :: bytes where
  "base64_alphabet = ascii ''ABCDEFGHIJKLMNOPQRSTUVWXYZabcdefghijklmnopqrstuvwxyz0123456789+/''"

definition Base64Char :: "nat \<Rightarrow> byte" where
  "Base64Char v = base64_alphabet ! (v AND 0x3f)"

text \<open>The loop over groups of three bytes and the rest.\<close>

fun base64_groups :: "bytes \<Rightarrow> bytes" where
  "base64_groups (a # b # c # data) =
     (let v = (push_bit 16 (unat a) OR push_bit 8 (unat b)) OR unat c
      in [Base64Char (drop_bit 18 v), Base64Char (drop_bit 12 v), Base64Char (drop_bit 6 v), Base64Char v] @ base64_groups data)"
| "base64_groups [] = []"
| "base64_groups [a] =
     (let v = push_bit 16 (unat a) in [Base64Char (drop_bit 18 v), Base64Char (drop_bit 12 v), 61, 61])"
| "base64_groups [a, b] =
     (let v = push_bit 16 (unat a) OR push_bit 8 (unat b)
      in [Base64Char (drop_bit 18 v), Base64Char (drop_bit 12 v), Base64Char (drop_bit 6 v), 61])"

text \<open>A failure comes with \<open>*bytesWritten\<close>.\<close>

definition Base64Encode :: "bytes \<Rightarrow> nat \<Rightarrow> (ntstatus \<times> nat) + bytes" where
  "Base64Encode data capacity =
     (if length data > u64_max div 4 * 3 then Inl (STATUS_INTEGER_OVERFLOW, 0)
      else let required = (length data + 2) div 3 * 4
        in if capacity < required then Inl (STATUS_BUFFER_TOO_SMALL, required) else Inr (base64_groups data))"

section \<open>Writing frames\<close>

definition WritePayloadLength :: "nat \<Rightarrow> bool \<Rightarrow> bytes" where
  "WritePayloadLength payloadLength masked =
     (let maskBit = (if masked then 0x80 else 0x00)
      in if payloadLength \<le> 125 then [maskBit OR uchar payloadLength]
         else if payloadLength \<le> 0xffff
         then [maskBit OR 126, uchar (drop_bit 8 payloadLength AND 0xff), uchar (payloadLength AND 0xff)]
         else (maskBit OR 127) # map (\<lambda>shift. uchar (drop_bit shift payloadLength AND 0xff)) [56, 48, 40, 32, 24, 16, 8, 0])"

text \<open>The payload with the masking key, which repeats every four bytes.\<close>

definition ws_mask :: "bytes \<Rightarrow> bytes \<Rightarrow> bytes" where
  "ws_mask key payload = map (\<lambda>i. payload ! i XOR key ! (i mod WebSocketMaskingKeyLength)) [0..<length payload]"

text \<open>
  \<open>EncodeFrame\<close>; the masking key of a masked frame has four bytes. The checks of the room left in
  \<open>WritePayloadLength\<close> cannot fail here, where the room for the whole frame was checked.
\<close>

definition ws_encode_frame ::
    "ws_opcode \<Rightarrow> bool \<Rightarrow> bool \<Rightarrow> bytes \<Rightarrow> bytes option \<Rightarrow> nat \<Rightarrow> (ntstatus \<times> nat) + bytes" where
  "ws_encode_frame opcode fin rsv1 payload maskingKey capacity =
     (if ws_known_opcode (ws_opcode_byte opcode) = None then Inl (STATUS_INVALID_PARAMETER, 0)
      else if IsControlOpcode opcode \<and> (\<not> fin \<or> length payload > WebSocketMaxControlPayloadLength)
      then Inl (STATUS_INVALID_PARAMETER, 0)
      else if rsv1 \<and> (opcode = WsContinuation \<or> IsControlOpcode opcode) then Inl (STATUS_INVALID_PARAMETER, 0)
      else if length payload > WebSocketMaximumPayloadLength then Inl (STATUS_INVALID_PARAMETER, 0)
      else let h = 2 + (case maskingKey of None \<Rightarrow> 0 | Some _ \<Rightarrow> WebSocketMaskingKeyLength);
               headerLength = (if length payload > 125 \<and> length payload \<le> 0xffff then h + 2
                               else if length payload > 0xffff then h + 8 else h)
        in if length payload > u64_max - headerLength then Inl (STATUS_INTEGER_OVERFLOW, 0)
           else let required = headerLength + length payload
             in if capacity < required then Inl (STATUS_BUFFER_TOO_SMALL, required)
                else Inr ([((if fin then 0x80 else 0x00) OR (if rsv1 then 0x40 else 0x00)) OR ws_opcode_byte opcode]
                          @ WritePayloadLength (length payload) (maskingKey \<noteq> None)
                          @ (case maskingKey of None \<Rightarrow> payload | Some key \<Rightarrow> take WebSocketMaskingKeyLength key @ ws_mask key payload)))"

definition EncodeClientFrame ::
    "ws_opcode \<Rightarrow> bool \<Rightarrow> bool \<Rightarrow> bytes \<Rightarrow> bytes \<Rightarrow> nat \<Rightarrow> (ntstatus \<times> nat) + bytes" where
  "EncodeClientFrame opcode fin rsv1 payload maskingKey capacity = ws_encode_frame opcode fin rsv1 payload (Some maskingKey) capacity"

definition EncodeClientFrameForHttp2 :: "ws_opcode \<Rightarrow> bool \<Rightarrow> bool \<Rightarrow> bytes \<Rightarrow> nat \<Rightarrow> (ntstatus \<times> nat) + bytes" where
  "EncodeClientFrameForHttp2 opcode fin rsv1 payload capacity = ws_encode_frame opcode fin rsv1 payload None capacity"

section \<open>Reading frames\<close>

record ws_frame_header =
  wh_fin :: bool
  wh_rsv1 :: bool
  wh_masked :: bool
  wh_opcode :: ws_opcode
  wh_payload_length :: nat
  wh_masking_key :: bytes
  wh_header_length :: nat

definition ReadExtendedLength :: "bytes \<Rightarrow> nat \<Rightarrow> nat \<Rightarrow> (nat \<times> nat) result" where
  "ReadExtendedLength data lengthCode cursor =
     (if lengthCode \<le> 125 then Inr (lengthCode, cursor)
      else if lengthCode = 126
      then if length data - cursor < 2 then Inl STATUS_MORE_PROCESSING_REQUIRED
           else let v = push_bit 8 (unat (data ! cursor)) OR unat (data ! (cursor + 1))
             in if v \<le> 125 then Inl STATUS_INVALID_NETWORK_RESPONSE else Inr (v, cursor + 2)
      else if length data - cursor < 8 then Inl STATUS_MORE_PROCESSING_REQUIRED
      else let v = be_value 0 (view data cursor 8)
        in if v AND 2 ^ 63 \<noteq> 0 \<or> v \<le> 0xffff then Inl STATUS_INVALID_NETWORK_RESPONSE else Inr (v, cursor + 8))"

definition ws_decode_frame_header :: "bytes \<Rightarrow> ws_frame_header result" where
  "ws_decode_frame_header data =
     (if length data < 2 then Inl STATUS_MORE_PROCESSING_REQUIRED
      else let first = data ! 0; second = data ! 1
        in if first AND 0x30 \<noteq> 0 then Inl STATUS_INVALID_NETWORK_RESPONSE
           else case ws_known_opcode (first AND 0x0f) of
                  None \<Rightarrow> Inl STATUS_INVALID_NETWORK_RESPONSE
                | Some opcode \<Rightarrow>
                    rbind (ReadExtendedLength data (unat (second AND 0x7f)) 2) (\<lambda>(payloadLength, cursor).
                    if second AND 0x80 \<noteq> 0 then Inl STATUS_INVALID_NETWORK_RESPONSE
                    else if IsControlOpcode opcode \<and> (first AND 0x80 = 0 \<or> payloadLength > 125)
                    then Inl STATUS_INVALID_NETWORK_RESPONSE
                    else Inr \<lparr>wh_fin = (first AND 0x80 \<noteq> 0), wh_rsv1 = (first AND 0x40 \<noteq> 0), wh_masked = False,
                              wh_opcode = opcode, wh_payload_length = payloadLength, wh_masking_key = [0, 0, 0, 0],
                              wh_header_length = cursor\<rparr>))"

definition ws_decode_frame_payload :: "ws_frame_header \<Rightarrow> bytes \<Rightarrow> nat \<Rightarrow> (ntstatus \<times> nat) + bytes" where
  "ws_decode_frame_payload header data capacity =
     (if wh_payload_length header > u64_max then Inl (STATUS_BUFFER_TOO_SMALL, 0)
      else if wh_header_length header > length data \<or> wh_payload_length header > length data - wh_header_length header
      then Inl (STATUS_MORE_PROCESSING_REQUIRED, 0)
      else if capacity < wh_payload_length header then Inl (STATUS_BUFFER_TOO_SMALL, wh_payload_length header)
      else let payload = view data (wh_header_length header) (wh_payload_length header)
        in Inr (if wh_masked header then ws_mask (wh_masking_key header) payload else payload))"

section \<open>Subprotocols\<close>

definition IsSubprotocolSeparator :: "byte \<Rightarrow> bool" where
  "IsSubprotocolSeparator c \<longleftrightarrow> c \<in> set (ascii ''()<>@,;:'') \<or> c = 92 \<or> c = 34 \<or> c \<in> set (ascii ''/[]?={} '') \<or> c = 9"

definition IsValidSubprotocolToken :: "bytes \<Rightarrow> bool" where
  "IsValidSubprotocolToken token \<longleftrightarrow> token \<noteq> [] \<and> list_all (\<lambda>c. \<not> (c \<le> 0x20 \<or> c \<ge> 0x7f \<or> IsSubprotocolSeparator c)) token"

text \<open>The loop of \<open>FindSelectedSubprotocol\<close>; the result is the value of the only such header, if there is one.\<close>

fun find_subprotocol :: "http_header list \<Rightarrow> bytes option \<Rightarrow> bytes option result" where
  "find_subprotocol [] selected = Inr selected"
| "find_subprotocol (h # hs) selected =
     (if \<not> TextEqualsIgnoreCase (fst h) (ascii ''Sec-WebSocket-Protocol'') then find_subprotocol hs selected
      else if selected \<noteq> None then Inl STATUS_INVALID_NETWORK_RESPONSE
      else find_subprotocol hs (Some (trim_blanks (snd h))))"

definition FindSelectedSubprotocol :: "http_response \<Rightarrow> bytes option result" where
  "FindSelectedSubprotocol response =
     rbind (find_subprotocol (http_headers response) None) (\<lambda>selected.
       case selected of
         None \<Rightarrow> Inr None
       | Some s \<Rightarrow> if IsValidSubprotocolToken s then Inr (Some s) else Inl STATUS_INVALID_NETWORK_RESPONSE)"

text \<open>The loop of \<open>ValidateSelectedSubprotocol\<close> over the candidates between the commas.\<close>

fun match_subprotocols :: "bytes \<Rightarrow> bytes list \<Rightarrow> bool \<Rightarrow> ntstatus" where
  "match_subprotocols selected [] matched = (if matched then STATUS_SUCCESS else STATUS_INVALID_NETWORK_RESPONSE)"
| "match_subprotocols selected (p # ps) matched =
     (let candidate = trim_blanks p
      in if \<not> IsValidSubprotocolToken candidate then STATUS_INVALID_PARAMETER
         else match_subprotocols selected ps (matched \<or> candidate = selected))"

definition ValidateSelectedSubprotocol :: "bytes \<Rightarrow> bytes \<Rightarrow> ntstatus" where
  "ValidateSelectedSubprotocol selected requested =
     (if \<not> IsValidSubprotocolToken selected then STATUS_INVALID_NETWORK_RESPONSE
      else if requested = [] then STATUS_INVALID_NETWORK_RESPONSE
      else match_subprotocols selected (split_on 44 requested) False)"

definition CountHeaders :: "http_response \<Rightarrow> bytes \<Rightarrow> nat" where
  "CountHeaders response name = length (filter (\<lambda>h. TextEqualsIgnoreCase (fst h) name) (http_headers response))"

section \<open>Extensions\<close>

text \<open>\<open>PerMessageDeflateOptions\<close> and \<open>PerMessageDeflateNegotiation\<close>.\<close>

record deflate_options =
  do_enable :: bool
  do_client_no_context :: bool
  do_server_no_context :: bool
  do_client_bits :: nat
  do_server_bits :: nat

definition IsValidPerMessageDeflateOptions :: "deflate_options \<Rightarrow> bool" where
  "IsValidPerMessageDeflateOptions opt \<longleftrightarrow> \<not> do_enable opt
     \<or> do_client_bits opt \<ge> WebSocketDeflateMinWindowBits \<and> do_client_bits opt \<le> WebSocketDeflateMaxWindowBits
       \<and> do_server_bits opt \<ge> WebSocketDeflateMinWindowBits \<and> do_server_bits opt \<le> WebSocketDeflateMaxWindowBits"

definition deflate_negotiation_empty :: deflate_options where
  "deflate_negotiation_empty = \<lparr>do_enable = False, do_client_no_context = False, do_server_no_context = False,
     do_client_bits = WebSocketDeflateMaxWindowBits, do_server_bits = WebSocketDeflateMaxWindowBits\<rparr>"

definition ParseWindowBits :: "bytes \<Rightarrow> nat option" where
  "ParseWindowBits text0 =
     (let text = trim_blanks text0; v = foldl (\<lambda>v c. v * 10 + unat (c - 48)) 0 text
      in if text = [] \<or> length text > 2 then None
         else if \<not> list_all is_digit text then None
         else if v < WebSocketDeflateMinWindowBits \<or> v > WebSocketDeflateMaxWindowBits then None
         else Some v)"

text \<open>What the loops keep: the negotiation and the flags of the parameters seen.\<close>

record deflate_parse =
  dp_negotiated :: deflate_options
  dp_client_no_context_seen :: bool
  dp_server_no_context_seen :: bool
  dp_client_window_seen :: bool
  dp_server_window_seen :: bool

definition deflate_named_parameter :: "deflate_options \<Rightarrow> bytes \<Rightarrow> bytes \<Rightarrow> deflate_parse \<Rightarrow> deflate_parse result" where
  "deflate_named_parameter requested name val s =
     (if TextEqualsIgnoreCase name (ascii ''client_no_context_takeover'')
     then if dp_client_no_context_seen s \<or> val \<noteq> [] then Inl STATUS_INVALID_NETWORK_RESPONSE
          else Inr (s\<lparr>dp_client_no_context_seen := True, dp_negotiated := (dp_negotiated s)\<lparr>do_client_no_context := True\<rparr>\<rparr>)
     else if TextEqualsIgnoreCase name (ascii ''server_no_context_takeover'')
     then if dp_server_no_context_seen s \<or> val \<noteq> [] then Inl STATUS_INVALID_NETWORK_RESPONSE
          else Inr (s\<lparr>dp_server_no_context_seen := True, dp_negotiated := (dp_negotiated s)\<lparr>do_server_no_context := True\<rparr>\<rparr>)
     else if TextEqualsIgnoreCase name (ascii ''client_max_window_bits'')
     then if dp_client_window_seen s \<or> val = [] then Inl STATUS_INVALID_NETWORK_RESPONSE
          else case ParseWindowBits val of
                 None \<Rightarrow> Inl STATUS_INVALID_NETWORK_RESPONSE
               | Some bits \<Rightarrow>
                   if bits > do_client_bits requested then Inl STATUS_INVALID_NETWORK_RESPONSE
                   else Inr (s\<lparr>dp_client_window_seen := True, dp_negotiated := (dp_negotiated s)\<lparr>do_client_bits := bits\<rparr>\<rparr>)
     else if TextEqualsIgnoreCase name (ascii ''server_max_window_bits'')
     then if dp_server_window_seen s \<or> val = [] then Inl STATUS_INVALID_NETWORK_RESPONSE
          else case ParseWindowBits val of
                 None \<Rightarrow> Inl STATUS_INVALID_NETWORK_RESPONSE
               | Some bits \<Rightarrow>
                   if bits > do_server_bits requested then Inl STATUS_INVALID_NETWORK_RESPONSE
                   else Inr (s\<lparr>dp_server_window_seen := True, dp_negotiated := (dp_negotiated s)\<lparr>do_server_bits := bits\<rparr>\<rparr>)
     else Inl STATUS_INVALID_NETWORK_RESPONSE)"

definition deflate_parameter :: "deflate_options \<Rightarrow> bytes \<Rightarrow> deflate_parse \<Rightarrow> deflate_parse result" where
  "deflate_parameter requested parameter0 s =
     (let parameter = trim_blanks parameter0; n = takeWhile (\<lambda>c. c \<noteq> 61) parameter
      in if parameter = [] then Inl STATUS_INVALID_NETWORK_RESPONSE
         else deflate_named_parameter requested (trim_blanks n)
                (if length n < length parameter then trim_blanks (drop (length n + 1) parameter) else []) s)"

fun deflate_parameters :: "deflate_options \<Rightarrow> bytes list \<Rightarrow> deflate_parse \<Rightarrow> deflate_parse result" where
  "deflate_parameters requested [] s = Inr s"
| "deflate_parameters requested (p # ps) s = rbind (deflate_parameter requested p s) (deflate_parameters requested ps)"

text \<open>The loop over the items between the commas; each item is an extension and its parameters between semicolons.\<close>

fun deflate_items :: "deflate_options \<Rightarrow> bytes list \<Rightarrow> bool \<Rightarrow> deflate_parse \<Rightarrow> deflate_parse result" where
  "deflate_items requested [] extensionSeen s = Inr s"
| "deflate_items requested (i # is) extensionSeen s =
     (let item = trim_blanks i; parts = split_on 59 item
      in if item = [] then Inl STATUS_INVALID_NETWORK_RESPONSE
         else if \<not> TextEqualsIgnoreCase (trim_blanks (hd parts)) (ascii ''permessage-deflate'')
         then Inl STATUS_INVALID_NETWORK_RESPONSE
         else if extensionSeen then Inl STATUS_INVALID_NETWORK_RESPONSE
         else rbind (deflate_parameters requested (tl parts) s) (deflate_items requested is True))"

definition ParsePerMessageDeflateResponse :: "bytes \<Rightarrow> deflate_options \<Rightarrow> deflate_options result" where
  "ParsePerMessageDeflateResponse val requested =
     rbind (deflate_items requested (split_on 44 val) False
              \<lparr>dp_negotiated = deflate_negotiation_empty, dp_client_no_context_seen = False, dp_server_no_context_seen = False,
               dp_client_window_seen = False, dp_server_window_seen = False\<rparr>) (\<lambda>s.
       let n = dp_negotiated s
       in Inr \<lparr>do_enable = True,
               do_client_no_context = do_client_no_context n \<or> do_client_no_context requested,
               do_server_no_context = do_server_no_context n \<or> do_server_no_context requested,
               do_client_bits = (if dp_client_window_seen s then do_client_bits n else do_client_bits requested),
               do_server_bits = (if dp_server_window_seen s then do_server_bits n else do_server_bits requested)\<rparr>)"

text \<open>\<open>None\<close> stands for the null pointers of the options.\<close>

definition ValidatePerMessageDeflateExtensions ::
    "http_header list \<Rightarrow> bytes \<Rightarrow> deflate_options option \<Rightarrow> deflate_options result" where
  "ValidatePerMessageDeflateExtensions headers headerName requested =
     (case filter (\<lambda>h. TextEqualsIgnoreCase (fst h) headerName) headers of
        [] \<Rightarrow> Inr (deflate_negotiation_empty)
      | [h] \<Rightarrow>
          (case requested of
             None \<Rightarrow> Inl STATUS_INVALID_NETWORK_RESPONSE
           | Some r \<Rightarrow> if \<not> do_enable r \<or> \<not> IsValidPerMessageDeflateOptions r then Inl STATUS_INVALID_NETWORK_RESPONSE
                       else ParsePerMessageDeflateResponse (snd h) r)
      | _ \<Rightarrow> Inl STATUS_INVALID_NETWORK_RESPONSE)"

section \<open>Handshake\<close>

text \<open>The outcomes of the allocations and of the steps of the provider's SHA-1, whose digest is a function of its input.\<close>

record ws_crypto =
  wc_hash_alloc :: bool
  wc_initialize :: ntstatus
  wc_update_key :: ntstatus
  wc_update_guid :: ntstatus
  wc_digest_alloc :: bool
  wc_finish :: "bytes \<Rightarrow> bytes result"
  wc_expected_alloc :: bool
  wc_nonce_alloc :: bool
  wc_random :: "bytes result"

definition GenerateClientKey :: "ws_crypto \<Rightarrow> nat \<Rightarrow> (ntstatus \<times> nat) + bytes" where
  "GenerateClientKey C capacity =
     (if \<not> wc_nonce_alloc C then Inl (STATUS_INSUFFICIENT_RESOURCES, 0)
      else case wc_random C of Inl st \<Rightarrow> Inl (st, 0) | Inr nonce \<Rightarrow> Base64Encode nonce capacity)"

definition ComputeAcceptValue :: "ws_crypto \<Rightarrow> bytes \<Rightarrow> nat \<Rightarrow> bytes result" where
  "ComputeAcceptValue C clientKey capacity =
     (if clientKey = [] then Inl STATUS_INVALID_PARAMETER
      else if \<not> wc_hash_alloc C then Inl STATUS_INSUFFICIENT_RESOURCES
      else if wc_initialize C \<noteq> STATUS_SUCCESS then Inl (wc_initialize C)
      else let st = (if wc_update_key C = STATUS_SUCCESS then wc_update_guid C else wc_update_key C)
        in if \<not> wc_digest_alloc C then Inl STATUS_INSUFFICIENT_RESOURCES
           else if st \<noteq> STATUS_SUCCESS then Inl st
           else rbind (wc_finish C (clientKey @ WebSocketGuid)) (\<lambda>digest.
                  if length digest \<noteq> Sha1DigestLength then Inl STATUS_INVALID_NETWORK_RESPONSE
                  else case Base64Encode digest capacity of Inl (st, n) \<Rightarrow> Inl st | Inr text \<Rightarrow> Inr text))"

definition ws_constant_time_equals :: "bytes \<Rightarrow> bytes \<Rightarrow> nat \<Rightarrow> bool" where
  "ws_constant_time_equals left right n \<longleftrightarrow> foldl (\<lambda>diff i. diff OR (left ! i XOR right ! i)) 0 [0..<n] = 0"

text \<open>The subprotocol the server selected, if any, and the negotiation.\<close>

definition ValidateServerHandshake ::
    "ws_crypto \<Rightarrow> http_response \<Rightarrow> bytes \<Rightarrow> bytes \<Rightarrow> deflate_options option \<Rightarrow> (bytes option \<times> deflate_options) result" where
  "ValidateServerHandshake C response clientKey requestedSubprotocol requested =
     (if http_status response \<noteq> 101 \<or> http_major response \<noteq> 1 \<or> http_minor response \<noteq> 1
         \<or> \<not> HasHeaderValueToken (ascii ''Connection'') (ascii ''Upgrade'') response
         \<or> \<not> HasHeaderValueToken (ascii ''Upgrade'') (ascii ''websocket'') response
      then Inl STATUS_INVALID_NETWORK_RESPONSE
      else if CountHeaders response (ascii ''Sec-WebSocket-Accept'') \<noteq> 1 then Inl STATUS_INVALID_NETWORK_RESPONSE
      else case FindHeader (ascii ''Sec-WebSocket-Accept'') response of
             None \<Rightarrow> Inl STATUS_INVALID_NETWORK_RESPONSE
           | Some accept \<Rightarrow>
               rbind (ValidatePerMessageDeflateExtensions (http_headers response) (ascii ''Sec-WebSocket-Extensions'') requested) (\<lambda>negotiated.
               if \<not> wc_expected_alloc C then Inl STATUS_INSUFFICIENT_RESOURCES
               else rbind (ComputeAcceptValue C clientKey WebSocketAcceptValueLength) (\<lambda>expected.
               if length (snd accept) \<noteq> length expected \<or> \<not> ws_constant_time_equals (snd accept) expected (length expected)
               then Inl STATUS_INVALID_NETWORK_RESPONSE
               else rbind (FindSelectedSubprotocol response) (\<lambda>selected.
               case selected of
                 None \<Rightarrow> Inr (None, negotiated)
               | Some s \<Rightarrow>
                   let st = ValidateSelectedSubprotocol s requestedSubprotocol
                   in if st \<noteq> STATUS_SUCCESS then Inl st else Inr (Some s, negotiated)))))"

section \<open>Lengths\<close>

lemma be_bytes_8: "be_bytes 8 n = map (\<lambda>shift. uchar (drop_bit shift n AND 0xff)) [56, 48, 40, 32, 24, 16, 8, 0]"
  by (simp add: codec_simps drop_bit_drop_bit add.commute)

lemma payload_length_cases:
  obtains (short) "n \<le> 125" "WritePayloadLength n False = [uchar n]"
  | (medium) "125 < n" "n \<le> 0xffff" "WritePayloadLength n False = [126, uchar (drop_bit 8 n AND 0xff), uchar (n AND 0xff)]"
  | (long) "0xffff < n" "WritePayloadLength n False = 127 # be_bytes 8 n"
  by (cases "n \<le> 125"; cases "n \<le> 0xffff") (auto simp: WritePayloadLength_def be_bytes_8 simp del: list.map)

lemma masked_length: "WritePayloadLength n True = (0x80 OR hd (WritePayloadLength n False)) # tl (WritePayloadLength n False)"
  by (simp add: WritePayloadLength_def Let_def)

lemma uchar_below_128: "n \<le> 125 \<Longrightarrow> uchar n AND 0x7f = uchar n" "n \<le> 125 \<Longrightarrow> uchar n AND 0x80 = 0"
proof -
  assume "n \<le> 125"
  then have n: "unat (uchar n) = n" by simp
  have "unat (uchar n AND 0x7f) = unat (uchar n)" using and_127_nat [of n] n \<open>n \<le> 125\<close> by (simp add: unsigned_and_eq)
  then show "uchar n AND 0x7f = uchar n" by (rule word_unat_eq_iff [THEN iffD2])
  have "unat (uchar n AND 0x80) = unat (0 :: byte)" using and_128_nat [of n] n \<open>n \<le> 125\<close> by (simp add: unsigned_and_eq)
  then show "uchar n AND 0x80 = 0" by (rule word_unat_eq_iff [THEN iffD2])
qed

lemma read_medium:
  assumes "n \<le> 0xffff"
  shows "unat (uchar (drop_bit 8 n AND 0xff)) * 256 + unat (uchar (n AND 0xff)) = n"
  using assms by (simp add: drop_bit_eq_div and_255_nat unat_uchar)

lemma length_64_bit: "v AND 2 ^ 63 = 0 \<longleftrightarrow> v < 2 ^ 63" if "v < 2 ^ 64" for v :: nat
proof -
  have "v AND 2 ^ 63 = 0 \<longleftrightarrow> even (v div 2 ^ 63)" using and_exp_eq_0_iff_not_bit [of v 63] by (simp add: bit_iff_odd)
  moreover have "v div 2 ^ 63 < 2" using that by (simp add: less_mult_imp_div_less)
  moreover have "v div 2 ^ 63 = 0 \<longleftrightarrow> v < 2 ^ 63" by (simp add: div_eq_0_iff)
  ultimately show ?thesis by (auto simp: less_2_cases_iff)
qed

text \<open>The length is read back as soon as its bytes are there, and no sooner.\<close>

abbreviation "length_code n \<equiv> unat (WritePayloadLength n False ! 0 AND 0x7f)"

lemma length_codes:
  "n \<le> 125 \<Longrightarrow> length_code n = n" "125 < n \<Longrightarrow> n \<le> 0xffff \<Longrightarrow> length_code n = 126" "0xffff < n \<Longrightarrow> length_code n = 127"
  by (cases n rule: payload_length_cases; simp add: uchar_below_128)+

lemma unmasked_length: "WritePayloadLength n False ! 0 AND 0x80 = 0" "WritePayloadLength n False \<noteq> []"
  by (cases n rule: payload_length_cases; simp add: uchar_below_128)+

lemma read_length:
  assumes "n \<le> WebSocketMaximumPayloadLength"
  shows "ReadExtendedLength (b # WritePayloadLength n False @ rest) (length_code n) 2 = Inr (n, 1 + length (WritePayloadLength n False))"
proof (cases n rule: payload_length_cases)
  case short
  then show ?thesis by (simp add: uchar_below_128 ReadExtendedLength_def)
next
  case medium
  then show ?thesis using read_medium [OF medium(2)] by (simp add: length_codes ReadExtendedLength_def Let_def)
next
  case long
  have n: "n < 2 ^ 63" using assms by (simp add: WebSocketMaximumPayloadLength_def)
  have "view (b # (127 # be_bytes 8 n) @ rest) 2 8 = be_bytes 8 n" by (simp add: view_def)
  then have "be_value 0 (view (b # (127 # be_bytes 8 n) @ rest) 2 8) = n" using n by (simp add: be_bytes_value)
  then show ?thesis using long n length_64_bit [of n] by (simp add: length_codes ReadExtendedLength_def Let_def)
qed

lemma read_length_short:
  assumes "0 < k" "k < length (WritePayloadLength n False)"
  shows "ReadExtendedLength (b # take k (WritePayloadLength n False)) (length_code n) 2 = Inl STATUS_MORE_PROCESSING_REQUIRED"
  using assms by (cases n rule: payload_length_cases) (auto simp: length_codes ReadExtendedLength_def)

section \<open>Frames\<close>

text \<open>The first byte of a frame.\<close>

definition ws_first :: "ws_opcode \<Rightarrow> bool \<Rightarrow> bool \<Rightarrow> byte" where
  "ws_first opcode fin rsv1 = ((if fin then 0x80 else 0x00) OR (if rsv1 then 0x40 else 0x00)) OR ws_opcode_byte opcode"

lemma first_bits:
  "ws_first opcode fin rsv1 AND 0x30 = 0" "ws_known_opcode (ws_first opcode fin rsv1 AND 0x0f) = Some opcode"
  "ws_first opcode fin rsv1 AND 0x80 = 0 \<longleftrightarrow> \<not> fin" "ws_first opcode fin rsv1 AND 0x40 = 0 \<longleftrightarrow> \<not> rsv1"
  by (cases opcode; cases fin; cases rsv1; simp add: ws_first_def ws_known_opcode_def)+

lemma known_opcode_iff: "ws_known_opcode b = Some oc \<longleftrightarrow> b = ws_opcode_byte oc"
  by (cases oc) (auto simp: ws_known_opcode_def)

lemma and_exp_byte: "(b :: byte) AND 2 ^ k = (if bit b k then 2 ^ k else 0)"
  by (rule bit_eqI) (auto simp: bit_simps)

lemma first_exact:
  assumes "b AND 0x30 = 0" "ws_known_opcode (b AND 0x0f) = Some opcode"
  shows "b = ws_first opcode (b AND 0x80 \<noteq> 0) (b AND 0x40 \<noteq> 0)"
proof -
  have top: "(if b AND 0x80 \<noteq> 0 then 0x80 else 0) = b AND 0x80" and next_bit: "(if b AND 0x40 \<noteq> 0 then 0x40 else 0) = b AND 0x40"
    using and_exp_byte [of b 7] and_exp_byte [of b 6] by (simp_all split: if_splits)
  have "b = b AND (0x80 OR 0x40 OR 0x30 OR 0x0f)"
    by (rule word_unat_eq_iff [THEN iffD2]) (simp add: unsigned_and_eq and_255_nat)
  also have "\<dots> = (b AND 0x80) OR (b AND 0x40) OR (b AND 0x30) OR (b AND 0x0f)" by (simp only: bit.conj_disj_distrib or.assoc)
  finally have "b = ((b AND 0x80) OR (b AND 0x40)) OR ws_opcode_byte opcode" using assms by (simp add: known_opcode_iff or.assoc)
  then show ?thesis unfolding ws_first_def top next_bit .
qed

text \<open>What the encoder accepts.\<close>

definition ws_frame_ok :: "ws_opcode \<Rightarrow> bool \<Rightarrow> bool \<Rightarrow> nat \<Rightarrow> bool" where
  "ws_frame_ok opcode fin rsv1 n \<longleftrightarrow> (IsControlOpcode opcode \<longrightarrow> fin \<and> n \<le> WebSocketMaxControlPayloadLength)
     \<and> (rsv1 \<longrightarrow> opcode = WsText \<or> opcode = WsBinary) \<and> n \<le> WebSocketMaximumPayloadLength"

lemma rsv1_opcodes: "opcode = WsContinuation \<or> IsControlOpcode opcode \<longleftrightarrow> opcode \<noteq> WsText \<and> opcode \<noteq> WsBinary"
  by (cases opcode) (auto simp: IsControlOpcode_def)

lemma header_length: "length (WritePayloadLength n m) = (if n > 125 \<and> n \<le> 0xffff then 3 else if n > 0xffff then 9 else 1)"
  by (auto simp: WritePayloadLength_def Let_def)

definition ws_frame :: "ws_opcode \<Rightarrow> bool \<Rightarrow> bool \<Rightarrow> bytes \<Rightarrow> bytes option \<Rightarrow> bytes" where
  "ws_frame opcode fin rsv1 payload maskingKey =
     [ws_first opcode fin rsv1] @ WritePayloadLength (length payload) (maskingKey \<noteq> None)
       @ (case maskingKey of None \<Rightarrow> payload | Some key \<Rightarrow> take WebSocketMaskingKeyLength key @ ws_mask key payload)"

lemma length_ws_mask [simp]: "length (ws_mask key payload) = length payload"
  by (simp add: ws_mask_def)

lemma frame_fits: "n \<le> WebSocketMaximumPayloadLength \<Longrightarrow> h \<le> 14 \<Longrightarrow> \<not> n > u64_max - h"
  by (simp add: WebSocketMaximumPayloadLength_def u64_max_def)

lemma encode_frame_eq:
  assumes "\<And>key. maskingKey = Some key \<Longrightarrow> 4 \<le> length key"
  shows "ws_encode_frame opcode fin rsv1 payload maskingKey capacity =
    (if \<not> ws_frame_ok opcode fin rsv1 (length payload) then Inl (STATUS_INVALID_PARAMETER, 0)
     else if capacity < length (ws_frame opcode fin rsv1 payload maskingKey)
     then Inl (STATUS_BUFFER_TOO_SMALL, length (ws_frame opcode fin rsv1 payload maskingKey))
     else Inr (ws_frame opcode fin rsv1 payload maskingKey))"
proof (cases "ws_frame_ok opcode fin rsv1 (length payload)")
  case False
  then show ?thesis using rsv1_opcodes [of opcode] by (auto simp: ws_encode_frame_def ws_frame_ok_def)
next
  case True
  let ?n = "length payload" and ?h = "2 + (case maskingKey of None \<Rightarrow> 0 | Some _ \<Rightarrow> WebSocketMaskingKeyLength)"
  let ?l = "if ?n > 125 \<and> ?n \<le> 0xffff then ?h + 2 else if ?n > 0xffff then ?h + 8 else ?h"
  have l: "?l + ?n = length (ws_frame opcode fin rsv1 payload maskingKey)"
    using assms by (cases maskingKey) (simp_all add: ws_frame_def header_length WebSocketMaskingKeyLength_def)
  have "?n \<le> WebSocketMaximumPayloadLength" using True by (simp add: ws_frame_ok_def)
  moreover have "?l \<le> 14" by (cases maskingKey) (simp_all add: WebSocketMaskingKeyLength_def)
  ultimately have r: "\<not> ?n > u64_max - ?l" by (rule frame_fits)
  have ok: "ws_known_opcode (ws_opcode_byte opcode) \<noteq> None" "\<not> (IsControlOpcode opcode \<and> (\<not> fin \<or> ?n > WebSocketMaxControlPayloadLength))"
    "\<not> (rsv1 \<and> (opcode = WsContinuation \<or> IsControlOpcode opcode))" "\<not> ?n > WebSocketMaximumPayloadLength"
    using True rsv1_opcodes [of opcode] known_opcode_iff by (auto simp: ws_frame_ok_def)
  show ?thesis
    unfolding ws_encode_frame_def Let_def if_not_P [OF ok(1)] if_not_P [OF ok(2)] if_not_P [OF ok(3)] if_not_P [OF ok(4)]
      if_not_P [OF r] l using True by (simp add: ws_frame_def ws_first_def)
qed

lemmas encode_unmasked = encode_frame_eq [where maskingKey = None, simplified]

lemma encode_masked:
  "4 \<le> length key \<Longrightarrow> EncodeClientFrame opcode fin rsv1 payload key capacity = Inr w
    \<longleftrightarrow> ws_frame_ok opcode fin rsv1 (length payload) \<and> w = ws_frame opcode fin rsv1 payload (Some key) \<and> length w \<le> capacity"
  unfolding EncodeClientFrame_def by (subst encode_frame_eq) auto

text \<open>An unmasked frame: its header, then its payload.\<close>

definition ws_header_of :: "ws_opcode \<Rightarrow> bool \<Rightarrow> bool \<Rightarrow> nat \<Rightarrow> ws_frame_header" where
  "ws_header_of opcode fin rsv1 n = \<lparr>wh_fin = fin, wh_rsv1 = rsv1, wh_masked = False, wh_opcode = opcode,
     wh_payload_length = n, wh_masking_key = [0, 0, 0, 0], wh_header_length = 1 + length (WritePayloadLength n False)\<rparr>"

lemma decode_header:
  assumes "ws_frame_ok opcode fin rsv1 n"
  shows "ws_decode_frame_header (ws_first opcode fin rsv1 # WritePayloadLength n False @ rest) = Inr (ws_header_of opcode fin rsv1 n)"
proof -
  have n: "n \<le> WebSocketMaximumPayloadLength" using assms by (simp add: ws_frame_ok_def)
  obtain b bs where w: "WritePayloadLength n False = b # bs" using unmasked_length(2) [of n] by (cases "WritePayloadLength n False") auto
  have "ReadExtendedLength (ws_first opcode fin rsv1 # b # bs @ rest) (unat (b AND 0x7f)) 2 = Inr (n, 1 + length (b # bs))"
    using read_length [OF n, of "ws_first opcode fin rsv1" rest] unfolding w by simp
  then show ?thesis
    using assms unmasked_length(1) [of n] by (auto simp: ws_decode_frame_header_def w first_bits ws_header_of_def ws_frame_ok_def
        WebSocketMaxControlPayloadLength_def)
qed

lemma decode_header_short:
  assumes "length p < 1 + length (WritePayloadLength n False)" "prefix p (ws_first opcode fin rsv1 # WritePayloadLength n False)"
  shows "ws_decode_frame_header p = Inl STATUS_MORE_PROCESSING_REQUIRED"
proof (cases "length p < 2")
  case False
  then obtain q z where q: "p = ws_first opcode fin rsv1 # q" "WritePayloadLength n False = q @ z"
    using assms(2) by (cases p) (auto simp: prefix_def)
  define k where "k = length q"
  have p: "p = ws_first opcode fin rsv1 # take k (WritePayloadLength n False)" "0 < k" "k < length (WritePayloadLength n False)"
    using q False assms(1) by (simp_all add: k_def)
  obtain b bs k' where w: "WritePayloadLength n False = b # bs" and k: "k = Suc k'"
    using unmasked_length(2) [of n] p(2) by (cases "WritePayloadLength n False"; cases k) auto
  show ?thesis
    using read_length_short [OF p(2,3), of "ws_first opcode fin rsv1"] by (simp add: ws_decode_frame_header_def p w k first_bits)
qed (simp add: ws_decode_frame_header_def)

lemma frame_split:
  "ws_frame opcode fin rsv1 payload None = (ws_first opcode fin rsv1 # WritePayloadLength (length payload) False) @ payload"
  by (simp add: ws_frame_def)

lemma decode_payload_partial:
  assumes "prefix p (ws_frame opcode fin rsv1 payload None)" "ws_frame_ok opcode fin rsv1 (length payload)"
    and "p \<noteq> ws_frame opcode fin rsv1 payload None"
  shows "ws_decode_frame_header p = Inl STATUS_MORE_PROCESSING_REQUIRED
    \<or> ws_decode_frame_header p = Inr (ws_header_of opcode fin rsv1 (length payload))
      \<and> (\<forall>capacity. ws_decode_frame_payload (ws_header_of opcode fin rsv1 (length payload)) p capacity
            = Inl (STATUS_MORE_PROCESSING_REQUIRED, 0))"
proof -
  let ?h = "ws_first opcode fin rsv1 # WritePayloadLength (length payload) False"
  have "prefix p (?h @ payload)" "p \<noteq> ?h @ payload" using assms(1,3) by (simp_all add: frame_split)
  then consider (header) "strict_prefix p ?h" | (payload) q where "p = ?h @ q" "strict_prefix q payload"
    unfolding prefix_append strict_prefix_def by (metis append_Nil2 prefix_bot.bot_least)
  then show ?thesis
  proof cases
    case header
    then have "length p < 1 + length (WritePayloadLength (length payload) False)" "prefix p ?h"
      using prefix_length_less [OF header] by auto
    then show ?thesis using decode_header_short by blast
  next
    case payload
    have "length q < length payload" using prefix_length_less [OF payload(2)] .
    then show ?thesis using payload(1) decode_header [OF assms(2), of q] assms(2)
      by (auto simp: ws_decode_frame_payload_def ws_header_of_def ws_frame_ok_def WebSocketMaximumPayloadLength_def u64_max_def)
  qed
qed

section \<open>Arrival\<close>

text \<open>
  C12. A frame is read as it was written, and only when it is there: whatever follows an unmasked frame, its
  header is recovered with the exact offset of the payload and the payload byte for byte (or the size the caller
  must provide); of every proper beginning of the frame the reader asks for more.
\<close>

theorem ws_frame_arrives:
  assumes "EncodeClientFrameForHttp2 opcode fin rsv1 payload capacity = Inr w"
  shows "\<exists>h. wh_opcode h = opcode \<and> wh_fin h = fin \<and> wh_rsv1 h = rsv1 \<and> \<not> wh_masked h
    \<and> wh_header_length h + wh_payload_length h = length w
    \<and> ws_decode_frame_header (w @ rest) = Inr h
    \<and> ws_decode_frame_payload h (w @ rest) room
      = (if room < length payload then Inl (STATUS_BUFFER_TOO_SMALL, length payload) else Inr payload)
    \<and> (\<forall>p. strict_prefix p w \<longrightarrow> ws_decode_frame_header p = Inl STATUS_MORE_PROCESSING_REQUIRED
      \<or> ws_decode_frame_header p = Inr h \<and> ws_decode_frame_payload h p room = Inl (STATUS_MORE_PROCESSING_REQUIRED, 0))"
proof -
  let ?h = "ws_header_of opcode fin rsv1 (length payload)"
  have ok: "ws_frame_ok opcode fin rsv1 (length payload)" and w: "w = ws_frame opcode fin rsv1 payload None"
    using assms by (auto simp: EncodeClientFrameForHttp2_def encode_unmasked split: if_splits)
  have "ws_decode_frame_header (w @ rest) = Inr ?h" using decode_header [OF ok, of "payload @ rest"] by (simp add: w frame_split)
  moreover have "ws_decode_frame_payload ?h (w @ rest) room
      = (if room < length payload then Inl (STATUS_BUFFER_TOO_SMALL, length payload) else Inr payload)"
    using ok by (simp add: w frame_split ws_decode_frame_payload_def ws_header_of_def ws_frame_ok_def view_def
        WebSocketMaximumPayloadLength_def u64_max_def)
  moreover have "\<forall>p. strict_prefix p w \<longrightarrow> ws_decode_frame_header p = Inl STATUS_MORE_PROCESSING_REQUIRED
      \<or> ws_decode_frame_header p = Inr ?h \<and> ws_decode_frame_payload ?h p room = Inl (STATUS_MORE_PROCESSING_REQUIRED, 0)"
    using decode_payload_partial [OF _ ok] by (auto simp: w strict_prefix_def)
  ultimately show ?thesis by (intro exI [of _ ?h]) (simp add: ws_header_of_def w frame_split)
qed

theorem ws_frame_arrives_witness:
  "\<exists>w h. EncodeClientFrameForHttp2 WsText True False [72, 105] 16 = Inr w
    \<and> ws_decode_frame_header (w @ [7]) = Inr h \<and> ws_decode_frame_payload h (w @ [7]) 8 = Inr [72, 105]"
proof -
  have "EncodeClientFrameForHttp2 WsText True False [72, 105] 16 = Inr [0x81, 2, 72, 105]"
    by (simp add: EncodeClientFrameForHttp2_def ws_encode_frame_def ws_known_opcode_def IsControlOpcode_def
        WebSocketMaximumPayloadLength_def u64_max_def WritePayloadLength_def Let_def uchar_def)
  from ws_frame_arrives [OF this, of "[7]" 8] this show ?thesis by auto
qed

lemma read_length_exact:
  assumes "ReadExtendedLength data (unat (data ! 1 AND 0x7f)) 2 = Inr (n, c)" "data ! 1 AND 0x80 = 0" "2 \<le> length data"
  shows "c \<le> length data" "take c data = data ! 0 # WritePayloadLength n False" "n < 2 ^ 63"
proof (atomize (full))
  have "data ! 1 = data ! 1 AND (0x80 OR 0x7f)"
    by (rule word_unat_eq_iff [THEN iffD2]) (simp add: unsigned_and_eq and_255_nat)
  then have b: "data ! 1 = data ! 1 AND 0x7f" using assms(2) by (simp only: bit.conj_disj_distrib or.left_neutral)
  define k where "k = unat (data ! 1 AND 0x7f)"
  have k: "data ! 1 = uchar k" using b by (simp add: k_def)
  have k7: "k < 128" by (simp add: k_def unsigned_and_eq and_127_nat)
  have r: "ReadExtendedLength data k 2 = Inr (n, c)" using assms(1) by (simp add: k_def)
  obtain b0 ds where data: "data = b0 # uchar k # ds" using assms(3) k by (cases data; cases "tl data") auto
  consider "k \<le> 125" | "k = 126" | "k = 127" using k7 by linarith
  then show "c \<le> length data \<and> take c data = data ! 0 # WritePayloadLength n False \<and> n < 2 ^ 63"
  proof cases
    case 1
    then show ?thesis using r by (auto simp: data ReadExtendedLength_def WritePayloadLength_def)
  next
    case 2
    then obtain x y rest where ds: "ds = x # y # rest" and n: "n = unat x * 256 + unat y" "125 < n" "c = 4"
      using r by (cases ds; cases "tl ds") (auto simp: data ReadExtendedLength_def Let_def split: if_splits)
    have "[uchar (drop_bit 8 n AND 0xff), uchar (n AND 0xff)] = [x, y]" using be_bytes_of_value [of "[x, y]"] n(1) by simp
    moreover have le: "n \<le> 0xffff" using n(1) unat_byte_le [of x] unat_byte_le [of y] by linarith
    ultimately have "WritePayloadLength n False = [126, x, y]" "n < 2 ^ 63"
      using n(2) by (simp_all add: WritePayloadLength_def)
    then show ?thesis using n 2 by (simp add: data ds codec_simps)
  next
    case 3
    have l: "8 \<le> length ds" and n: "n = be_value 0 (view data 2 8)" "0xffff < n" "n AND 2 ^ 63 = 0" "c = 10"
      using r 3 by (auto simp: data ReadExtendedLength_def Let_def split: if_splits)
    have v: "view data 2 8 = take 8 ds" by (simp add: data view_def)
    have lt: "n < 2 ^ 64" using be_value_less [of "take 8 ds"] l n(1) v by (simp add: power_add)
    have "be_bytes 8 n = take 8 ds" using be_bytes_of_value [of "take 8 ds"] l n(1) v by simp
    then have "WritePayloadLength n False = 127 # take 8 ds"
      using n(2) by (cases n rule: payload_length_cases) simp_all
    then show ?thesis using l n(3,4) 3 length_64_bit [OF lt] by (simp add: data codec_simps)
  qed
qed

lemma ws_first_rsv1: "ws_first opcode fin True = ws_first opcode fin rsv1 OR 0x40"
  by (cases opcode; cases fin; cases rsv1; simp add: ws_first_def)

text \<open>
  C13. The reader accepts nothing but frames: what it takes for a frame is, byte for byte, an unmasked frame the
  encoder writes with that opcode, FIN flag and payload, in its shortest form. Only the extension bit RSV1 may be
  set beside it: the encoder sets it on text and binary frames only, the reader takes it on any frame and leaves it
  to its caller.
\<close>

theorem ws_reader_accepts_frames:
  assumes "ws_decode_frame_header data = Inr h" "ws_decode_frame_payload h data room = Inr payload"
  shows "\<exists>w. EncodeClientFrameForHttp2 (wh_opcode h) (wh_fin h) (wh_rsv1 h \<and> wh_opcode h \<in> {WsText, WsBinary}) payload
        (wh_header_length h + length payload) = Inr w
    \<and> take (wh_header_length h + length payload) data = (if wh_rsv1 h then w[0 := w ! 0 OR 0x40] else w)"
proof -
  obtain opcode n c where two: "2 \<le> length data" and f: "data ! 0 AND 0x30 = 0" "ws_known_opcode (data ! 0 AND 0x0f) = Some opcode"
    and r: "ReadExtendedLength data (unat (data ! 1 AND 0x7f)) 2 = Inr (n, c)" "data ! 1 AND 0x80 = 0"
    and ctl: "IsControlOpcode opcode \<longrightarrow> data ! 0 AND 0x80 \<noteq> 0 \<and> n \<le> 125"
    and h: "h = \<lparr>wh_fin = (data ! 0 AND 0x80 \<noteq> 0), wh_rsv1 = (data ! 0 AND 0x40 \<noteq> 0), wh_masked = False, wh_opcode = opcode,
      wh_payload_length = n, wh_masking_key = [0, 0, 0, 0], wh_header_length = c\<rparr>"
    using assms(1) by (auto simp: ws_decode_frame_header_def Let_def rbind_eq_Inr_iff split: if_splits option.splits)
  let ?rsv1 = "wh_rsv1 h \<and> opcode \<in> {WsText, WsBinary}"
  define w where "w = ws_frame opcode (wh_fin h) ?rsv1 payload None"
  note x = read_length_exact [OF r two]
  have p: "payload = view data c n" "n \<le> length data - c" using assms(2) by (auto simp: ws_decode_frame_payload_def h Let_def split: if_splits)
  have len: "length payload = n" using p x(1) by (simp add: view_def)
  have first: "data ! 0 = ws_first opcode (wh_fin h) (wh_rsv1 h)" using first_exact [OF f] by (simp add: h)
  have wf: "w = ws_first opcode (wh_fin h) ?rsv1 # WritePayloadLength n False @ payload" by (simp add: w_def ws_frame_def len)
  have "take (c + n) data = take c data @ payload" by (simp add: p(1) view_def take_add)
  also have "\<dots> = data ! 0 # WritePayloadLength n False @ payload" using x(2) by simp
  also have "\<dots> = (if wh_rsv1 h then w[0 := w ! 0 OR 0x40] else w)"
    using ws_first_rsv1 [of opcode "wh_fin h" ?rsv1] by (simp add: wf first)
  finally have t: "take (c + n) data = (if wh_rsv1 h then w[0 := w ! 0 OR 0x40] else w)" .
  have "length w = length (take (c + n) data)" unfolding t by simp
  then have "length w \<le> c + n" by simp
  moreover have "ws_frame_ok opcode (wh_fin h) ?rsv1 n"
    using ctl x(3) by (simp add: ws_frame_ok_def h WebSocketMaxControlPayloadLength_def WebSocketMaximumPayloadLength_def)
  moreover have hd: "wh_opcode h = opcode" "wh_header_length h = c" by (simp_all add: h)
  ultimately show ?thesis using t unfolding hd len by (simp add: EncodeClientFrameForHttp2_def encode_unmasked len w_def)
qed

text \<open>A ping with RSV1 set, which the encoder does not write.\<close>

theorem ws_reader_accepts_frames_witness:
  "\<exists>h. ws_decode_frame_header [0xc9, 1, 5, 9] = Inr h \<and> ws_decode_frame_payload h [0xc9, 1, 5, 9] 4 = Inr [5]
    \<and> (\<exists>w. EncodeClientFrameForHttp2 WsPing True False [5] 3 = Inr w \<and> [0xc9, 1, 5] = w[0 := w ! 0 OR 0x40])"
proof -
  have h: "ws_decode_frame_header [0xc9, 1, 5, 9] = Inr (ws_header_of WsPing True True 1)"
    by (simp add: ws_decode_frame_header_def ws_known_opcode_def ReadExtendedLength_def ws_header_of_def
        WritePayloadLength_def IsControlOpcode_def)
  have p: "ws_decode_frame_payload (ws_header_of WsPing True True 1) [0xc9, 1, 5, 9] 4 = Inr [5]"
    by (simp add: ws_decode_frame_payload_def ws_header_of_def WritePayloadLength_def u64_max_def view_def)
  from ws_reader_accepts_frames [OF h p] h p show ?thesis by (simp add: ws_header_of_def WritePayloadLength_def numeral_3_eq_3)
qed

lemma ws_mask_mask: "ws_mask key (ws_mask key payload) = payload"
  by (rule nth_equalityI) (simp_all add: ws_mask_def xor.assoc)

text \<open>
  A client's frame is masked with its key and nothing else: with the mask bit cleared its header is that of
  the frame, the key follows it, and the payload decoder with that key returns the payload. A client
  refuses such a frame itself.
\<close>

theorem ws_masked_frame_unmasks:
  assumes "EncodeClientFrame opcode fin rsv1 payload key capacity = Inr w" "length key = 4"
  shows "\<exists>h. ws_decode_frame_header ((w @ rest)[1 := w ! 1 AND 0x7f]) = Inr h
    \<and> wh_opcode h = opcode \<and> wh_fin h = fin \<and> wh_rsv1 h = rsv1
    \<and> view (w @ rest) (wh_header_length h) 4 = key
    \<and> ws_decode_frame_payload (h\<lparr>wh_masked := True, wh_masking_key := key, wh_header_length := wh_header_length h + 4\<rparr>)
        (w @ rest) (length payload) = Inr payload
    \<and> length w = wh_header_length h + 4 + length payload
    \<and> ws_decode_frame_header (w @ rest) = Inl STATUS_INVALID_NETWORK_RESPONSE"
proof -
  let ?n = "length payload" and ?f = "ws_first opcode fin rsv1"
  have ok: "ws_frame_ok opcode fin rsv1 ?n" and w: "w = ws_frame opcode fin rsv1 payload (Some key)"
    using assms by (simp_all add: encode_masked)
  obtain b bs where l: "WritePayloadLength ?n False = b # bs" using unmasked_length(2) [of ?n] by (cases "WritePayloadLength ?n False") auto
  have lm: "WritePayloadLength ?n True = (0x80 OR b) # bs" using masked_length [of ?n] by (simp add: l)
  have b: "b AND 0x80 = 0" using unmasked_length(1) [of ?n] by (simp add: l)
  have "b = b AND (0x80 OR 0x7f)"
    by (rule word_unat_eq_iff [THEN iffD2]) (simp add: unsigned_and_eq and_255_nat)
  then have b7: "b AND 0x7f = b" using b by (simp only: bit.conj_disj_distrib or.left_neutral)
  have bits: "(0x80 OR b) AND 0x7f = b" "(0x80 OR b) AND 0x80 = 0x80"
    by (simp_all add: bit.conj_disj_distrib2 b7 b)
  have wr: "w @ rest = ?f # (0x80 OR b) # bs @ key @ ws_mask key payload @ rest"
    using assms(2) by (simp add: w ws_frame_def lm WebSocketMaskingKeyLength_def)
  let ?h = "ws_header_of opcode fin rsv1 ?n"
  have w1: "w ! 1 = 0x80 OR b" using wr by (cases w; cases "tl w") auto
  have clear: "(w @ rest)[1 := w ! 1 AND 0x7f] = ?f # WritePayloadLength ?n False @ key @ ws_mask key payload @ rest"
    unfolding w1 bits(1) wr by (simp add: l)
  have hl: "wh_header_length ?h = 2 + length bs" by (simp add: ws_header_of_def l)
  have vk: "view (w @ rest) (2 + length bs) 4 = key"
    using view_append [of "?f # (0x80 OR b) # bs" "2 + length bs" "key @ ws_mask key payload @ rest" 4] assms(2)
    by (simp add: wr view_def)
  have vp: "view (w @ rest) (2 + length bs + 4) ?n = ws_mask key payload"
    using view_append [of "?f # (0x80 OR b) # bs @ key" "2 + length bs + 4" "ws_mask key payload @ rest" ?n] assms(2)
    by (simp add: wr view_def)
  have lw: "length w = 2 + length bs + 4 + ?n" using assms(2) by (simp add: w ws_frame_def lm WebSocketMaskingKeyLength_def)
  have refuse: "ws_decode_frame_header (w @ rest) = Inl STATUS_INVALID_NETWORK_RESPONSE"
  proof -
    have n: "?n \<le> WebSocketMaximumPayloadLength" using ok by (simp add: ws_frame_ok_def)
    have "ReadExtendedLength (?f # b # bs @ key @ ws_mask key payload @ rest) (unat (b AND 0x7f)) 2 = Inr (?n, 1 + length (b # bs))"
      using read_length [OF n, of ?f "key @ ws_mask key payload @ rest"] unfolding l by simp
    moreover have "ReadExtendedLength (x # y # zs) k 2 = ReadExtendedLength (x # y' # zs) k 2" for x y y' zs k
      by (simp add: ReadExtendedLength_def view_def)
    ultimately have "ReadExtendedLength (w @ rest) (unat ((0x80 OR b) AND 0x7f)) 2 = Inr (?n, 1 + length (b # bs))"
      unfolding wr bits(1) b7 by metis
    then show ?thesis unfolding wr by (simp add: ws_decode_frame_header_def first_bits bits(2))
  qed
  have "ws_decode_frame_payload (?h\<lparr>wh_masked := True, wh_masking_key := key, wh_header_length := wh_header_length ?h + 4\<rparr>)
        (w @ rest) ?n = Inr (ws_mask key (ws_mask key payload))"
    using ok lw vp by (simp add: ws_decode_frame_payload_def hl ws_header_of_def [of _ _ _ ?n] ws_frame_ok_def
        WebSocketMaximumPayloadLength_def u64_max_def l)
  then show ?thesis
    using clear decode_header [OF ok, of "key @ ws_mask key payload @ rest"] vk hl lw refuse
    by (intro exI [of _ ?h]) (simp add: ws_header_of_def ws_mask_mask)
qed

theorem ws_masked_frame_unmasks_witness:
  "\<exists>w h. EncodeClientFrame WsText True False [72, 105] [1, 2, 3, 4] 16 = Inr w
    \<and> ws_decode_frame_header ((w @ [7])[1 := w ! 1 AND 0x7f]) = Inr h
    \<and> ws_decode_frame_payload (h\<lparr>wh_masked := True, wh_masking_key := [1, 2, 3, 4], wh_header_length := wh_header_length h + 4\<rparr>)
        (w @ [7]) 2 = Inr [72, 105]"
proof -
  have w: "EncodeClientFrame WsText True False [72, 105] [1, 2, 3, 4] 16
      = Inr (ws_frame WsText True False [72, 105] (Some [1, 2, 3, 4]))"
    by (subst encode_masked) (simp_all add: ws_frame_ok_def ws_frame_def header_length IsControlOpcode_def
        WebSocketMaximumPayloadLength_def WebSocketMaskingKeyLength_def)
  from ws_masked_frame_unmasks [OF w, of "[7]"] w show ?thesis by (auto simp: numeral_2_eq_2)
qed

section \<open>The handshake\<close>

lemma or_all_zero: "foldl (\<lambda>diff i. diff OR f i) d is = (0 :: byte) \<longleftrightarrow> d = 0 \<and> (\<forall>i \<in> set is. f i = 0)"
  by (induction "is" arbitrary: d) (auto simp: or_eq_0_iff)

lemma xor_zero: "a XOR b = 0 \<longleftrightarrow> a = (b :: byte)"
proof
  assume "a XOR b = 0"
  then have "(a XOR b) XOR b = b" by simp
  then show "a = b" by (simp add: xor.assoc)
qed simp

lemma constant_time_equals: "length a = length b \<Longrightarrow> ws_constant_time_equals a b (length b) \<longleftrightarrow> a = b"
  by (auto simp: ws_constant_time_equals_def or_all_zero xor_zero intro: nth_equalityI)

lemma match_subprotocols_success:
  "match_subprotocols selected ps m = STATUS_SUCCESS \<Longrightarrow>
    (m \<or> selected \<in> trim_blanks ` set ps) \<and> (\<forall>p \<in> set ps. IsValidSubprotocolToken (trim_blanks p))"
  by (induction ps arbitrary: m) (force simp: Let_def split: if_splits)+

lemma find_subprotocol_Inr:
  "find_subprotocol hs s = Inr (Some x) \<Longrightarrow> s = Some x \<or> (\<exists>h \<in> set hs.
    TextEqualsIgnoreCase (fst h) (ascii ''Sec-WebSocket-Protocol'') \<and> x = trim_blanks (snd h))"
  by (induction hs s rule: find_subprotocol.induct) (auto split: if_splits)

text \<open>The window bits a parse has accepted are those of the protocol and within the request.\<close>

definition deflate_parse_ok :: "deflate_options \<Rightarrow> deflate_parse \<Rightarrow> bool" where
  "deflate_parse_ok requested s \<longleftrightarrow>
     (dp_client_window_seen s \<longrightarrow> WebSocketDeflateMinWindowBits \<le> do_client_bits (dp_negotiated s)
       \<and> do_client_bits (dp_negotiated s) \<le> do_client_bits requested)
     \<and> (dp_server_window_seen s \<longrightarrow> WebSocketDeflateMinWindowBits \<le> do_server_bits (dp_negotiated s)
       \<and> do_server_bits (dp_negotiated s) \<le> do_server_bits requested)"

lemma ParseWindowBits_bounds:
  "ParseWindowBits text = Some n \<Longrightarrow> WebSocketDeflateMinWindowBits \<le> n \<and> n \<le> WebSocketDeflateMaxWindowBits"
  by (auto simp: ParseWindowBits_def Let_def split: if_splits)

lemma deflate_named_ok:
  "deflate_named_parameter requested name val s = Inr s' \<Longrightarrow> deflate_parse_ok requested s \<Longrightarrow> deflate_parse_ok requested s'"
  by (auto simp: deflate_named_parameter_def deflate_parse_ok_def dest!: ParseWindowBits_bounds split: if_splits option.splits)

lemma deflate_parameter_ok:
  "deflate_parameter requested p s = Inr s' \<Longrightarrow> deflate_parse_ok requested s \<Longrightarrow> deflate_parse_ok requested s'"
  unfolding deflate_parameter_def Let_def by (metis Inl_Inr_False deflate_named_ok)

lemma deflate_parameters_ok:
  "deflate_parameters requested ps s = Inr s' \<Longrightarrow> deflate_parse_ok requested s \<Longrightarrow> deflate_parse_ok requested s'"
  by (induction ps arbitrary: s) (auto simp: rbind_eq_Inr_iff dest: deflate_parameter_ok)

lemma deflate_items_ok:
  "deflate_items requested is seen s = Inr s' \<Longrightarrow> deflate_parse_ok requested s \<Longrightarrow> deflate_parse_ok requested s'"
  by (induction requested "is" seen s rule: deflate_items.induct)
    (auto simp: rbind_eq_Inr_iff Let_def dest: deflate_parameters_ok split: if_splits)

lemma deflate_response_ok:
  assumes "ParsePerMessageDeflateResponse val r = Inr n" "do_enable r" "IsValidPerMessageDeflateOptions r"
  shows "do_enable n \<and> WebSocketDeflateMinWindowBits \<le> do_client_bits n \<and> do_client_bits n \<le> do_client_bits r
    \<and> WebSocketDeflateMinWindowBits \<le> do_server_bits n \<and> do_server_bits n \<le> do_server_bits r
    \<and> (do_client_no_context r \<longrightarrow> do_client_no_context n) \<and> (do_server_no_context r \<longrightarrow> do_server_no_context n)"
  using assms
  by (auto simp: ParsePerMessageDeflateResponse_def rbind_eq_Inr_iff Let_def IsValidPerMessageDeflateOptions_def
      deflate_parse_ok_def dest!: deflate_items_ok)

lemma find_in_filter: "find P xs = Some x \<Longrightarrow> x \<in> set (filter P xs)"
  using find_SomeD [of P xs x] by simp

text \<open>What a negotiation may be, given what the client requested.\<close>

definition negotiation_within :: "deflate_options option \<Rightarrow> deflate_options \<Rightarrow> bool" where
  "negotiation_within requested n \<longleftrightarrow> n = deflate_negotiation_empty
     \<or> (\<exists>r. requested = Some r \<and> do_enable r \<and> do_enable n
         \<and> WebSocketDeflateMinWindowBits \<le> do_client_bits n \<and> do_client_bits n \<le> do_client_bits r
         \<and> WebSocketDeflateMinWindowBits \<le> do_server_bits n \<and> do_server_bits n \<le> do_server_bits r
         \<and> (do_client_no_context r \<longrightarrow> do_client_no_context n) \<and> (do_server_no_context r \<longrightarrow> do_server_no_context n))"

lemma extensions_within: "ValidatePerMessageDeflateExtensions hs name requested = Inr n \<Longrightarrow> negotiation_within requested n"
  by (auto simp: ValidatePerMessageDeflateExtensions_def negotiation_within_def dest!: deflate_response_ok
      split: list.splits option.splits if_splits)

text \<open>
  C14. A response is taken for the end of the handshake only if it proves that the server understood this
  request: it is a switch to WebSocket with exactly one accept value, the Base64 text of the SHA-1 digest of the
  client's key and the protocol's identifier; a subprotocol it selects is a valid token and one of those
  requested; and compression is agreed at most as it was requested.
\<close>

theorem ws_handshake_proves:
  assumes "ValidateServerHandshake C response clientKey requestedSubprotocol requested = Inr (selected, negotiated)"
  shows "http_status response = 101
    \<and> (\<exists>a digest. filter (\<lambda>h. TextEqualsIgnoreCase (fst h) (ascii ''Sec-WebSocket-Accept'')) (http_headers response) = [a]
        \<and> wc_finish C (clientKey @ WebSocketGuid) = Inr digest \<and> length digest = 20 \<and> snd a = base64_groups digest)
    \<and> (\<forall>s. selected = Some s \<longrightarrow> IsValidSubprotocolToken s \<and> s \<in> trim_blanks ` set (split_on 44 requestedSubprotocol))
    \<and> negotiation_within requested negotiated"
proof -
  let ?P = "\<lambda>h. TextEqualsIgnoreCase (fst h) (ascii ''Sec-WebSocket-Accept'')"
  obtain accept expected sel where st: "http_status response = 101"
    and one: "CountHeaders response (ascii ''Sec-WebSocket-Accept'') = 1"
    and found: "FindHeader (ascii ''Sec-WebSocket-Accept'') response = Some accept"
    and ext: "ValidatePerMessageDeflateExtensions (http_headers response) (ascii ''Sec-WebSocket-Extensions'') requested = Inr negotiated"
    and acc: "ComputeAcceptValue C clientKey WebSocketAcceptValueLength = Inr expected"
    and eq: "length (snd accept) = length expected" "ws_constant_time_equals (snd accept) expected (length expected)"
    and sel: "FindSelectedSubprotocol response = Inr sel" "sel = selected"
      "selected = None \<or> ValidateSelectedSubprotocol (the selected) requestedSubprotocol = STATUS_SUCCESS"
    using assms by (fastforce simp: ValidateServerHandshake_def rbind_eq_Inr_iff Let_def split: if_splits option.splits)
  obtain a where a: "filter ?P (http_headers response) = [a]"
    using one by (auto simp: CountHeaders_def length_Suc_conv)
  have "find ?P (http_headers response) = Some accept" using found by (auto simp: FindHeader_def split: if_splits)
  then have "accept = a" using a find_in_filter by fastforce
  moreover have "snd accept = expected" using constant_time_equals [OF eq(1)] eq(2) by simp
  moreover obtain digest where "wc_finish C (clientKey @ WebSocketGuid) = Inr digest" "length digest = 20" "expected = base64_groups digest"
    using acc by (auto simp: ComputeAcceptValue_def Base64Encode_def rbind_eq_Inr_iff Sha1DigestLength_def Let_def
        split: if_splits sum.splits)
  moreover have "IsValidSubprotocolToken s \<and> s \<in> trim_blanks ` set (split_on 44 requestedSubprotocol)" if "selected = Some s" for s
    using sel that match_subprotocols_success by (fastforce simp: ValidateSelectedSubprotocol_def split: if_splits)
  ultimately show ?thesis using st a extensions_within [OF ext] by auto
qed

definition ws_crypto_example :: ws_crypto where
  "ws_crypto_example = \<lparr>wc_hash_alloc = True, wc_initialize = STATUS_SUCCESS, wc_update_key = STATUS_SUCCESS,
     wc_update_guid = STATUS_SUCCESS, wc_digest_alloc = True, wc_finish = (\<lambda>text. Inr (replicate 20 0)),
     wc_expected_alloc = True, wc_nonce_alloc = True, wc_random = Inr (replicate 16 0)\<rparr>"

definition ws_response_example :: http_response where
  "ws_response_example = http_response_empty\<lparr>http_major := 1, http_minor := 1, http_status := 101,
     http_headers := [(ascii ''Connection'', ascii ''upgrade''), (ascii ''Upgrade'', ascii ''WebSocket''),
       (ascii ''Sec-WebSocket-Accept'', base64_groups (replicate 20 0)), (ascii ''Sec-WebSocket-Protocol'', ascii ''chat'')]\<rparr>"

lemma single_token:
  assumes "trim_blanks val = val" "val \<noteq> []" "44 \<notin> set val" "token \<noteq> []" "TextEqualsIgnoreCase val token"
  shows "HeaderValueHasToken val token"
proof -
  have h: "\<not> IsTokenBoundary (hd val)"
    using trim_blanks_ends [of val] assms(1-3) by (cases val) (auto simp: IsTokenBoundary_def is_blank_def)
  then have dw: "dropWhile IsTokenBoundary val = val" by (cases val) auto
  have tw: "takeWhile (\<lambda>c. c \<noteq> 44) val = val" using assms(3) by (induction val) auto
  have "header_value_tokens token val" by (subst header_value_tokens.simps) (simp add: Let_def dw tw assms)
  then show ?thesis using assms by (simp add: HeaderValueHasToken_def)
qed

theorem ws_handshake_proves_witness:
  "\<exists>selected negotiated. ValidateServerHandshake ws_crypto_example ws_response_example (ascii ''key'') (ascii ''soap, chat'') None
      = Inr (selected, negotiated)
    \<and> (\<forall>s. selected = Some s \<longrightarrow> s \<in> trim_blanks ` set (split_on 44 (ascii ''soap, chat'')))"
proof -
  note names = ascii_def TextEqualsIgnoreCase_def ascii_lower_def
  have t: "trim_blanks (ascii ''upgrade'') = ascii ''upgrade''" "trim_blanks (ascii ''WebSocket'') = ascii ''WebSocket''"
    "trim_blanks (ascii ''chat'') = ascii ''chat''" "map trim_blanks (split_on 44 (ascii ''soap, chat'')) = [ascii ''soap'', ascii ''chat'']"
    by (simp_all add: ascii_def trim_blanks_def is_blank_def)
  have u: "HeaderValueHasToken (ascii ''upgrade'') (ascii ''Upgrade'')" "HeaderValueHasToken (ascii ''WebSocket'') (ascii ''websocket'')"
    by (rule single_token, use t in \<open>simp_all add: names trim_blanks_def is_blank_def\<close>)+
  have hs: "HasHeaderValueToken (ascii ''Connection'') (ascii ''Upgrade'') ws_response_example"
    "HasHeaderValueToken (ascii ''Upgrade'') (ascii ''websocket'') ws_response_example"
    using u by (simp_all add: HasHeaderValueToken_def ws_response_example_def) (simp_all add: ascii_def)
  have one: "CountHeaders ws_response_example (ascii ''Sec-WebSocket-Accept'') = 1"
    "FindHeader (ascii ''Sec-WebSocket-Accept'') ws_response_example
      = Some (ascii ''Sec-WebSocket-Accept'', base64_groups (replicate 20 0))"
    "filter (\<lambda>h. TextEqualsIgnoreCase (fst h) (ascii ''Sec-WebSocket-Extensions'')) (http_headers ws_response_example) = []"
    "find_subprotocol (http_headers ws_response_example) None = Inr (Some (ascii ''chat''))"
    using t(3) by (simp_all add: CountHeaders_def FindHeader_def ws_response_example_def names)
  have l: "length (base64_groups (replicate 20 0)) = 28" by (simp add: numeral_eq_Suc Let_def)
  have acc: "ComputeAcceptValue ws_crypto_example (ascii ''key'') WebSocketAcceptValueLength = Inr (base64_groups (replicate 20 0))"
    by (simp add: ComputeAcceptValue_def ws_crypto_example_def Base64Encode_def Sha1DigestLength_def WebSocketAcceptValueLength_def
        u64_max_def ascii_def)
  have tok: "IsValidSubprotocolToken (ascii ''chat'')" "IsValidSubprotocolToken (ascii ''soap'')"
    by (simp_all add: IsValidSubprotocolToken_def IsSubprotocolSeparator_def ascii_def)
  obtain a b where ab: "split_on 44 (ascii ''soap, chat'') = [a, b]" "trim_blanks a = ascii ''soap''" "trim_blanks b = ascii ''chat''"
    using t(4) by (auto simp: map_eq_Cons_conv)
  have "ValidateSelectedSubprotocol (ascii ''chat'') (ascii ''soap, chat'') = STATUS_SUCCESS"
    using tok by (simp add: ValidateSelectedSubprotocol_def ab) (simp add: ascii_def)
  then have "ValidateServerHandshake ws_crypto_example ws_response_example (ascii ''key'') (ascii ''soap, chat'') None
      = Inr (Some (ascii ''chat''), deflate_negotiation_empty)"
    using hs one acc l tok constant_time_equals [of "base64_groups (replicate 20 0)" "base64_groups (replicate 20 0)"]
    by (simp add: ValidateServerHandshake_def ValidatePerMessageDeflateExtensions_def FindSelectedSubprotocol_def)
      (simp add: ws_response_example_def ws_crypto_example_def)
  from ws_handshake_proves [OF this] this show ?thesis by blast
qed

end
