(* ===== verification/Spec2Isabelle.thy ===== *)
theory Spec2Isabelle
  imports QuicConnectionDelivery QpackDynamicTable HpackSession Http2Frame Http2Stream Http3Frame HttpParser WebSocketFrame
begin

text \<open>
  \<^bold>\<open>The program.\<close> wknet is a Windows kernel-mode network library: HTTP/1.1, HTTP/2 and HTTP/3 clients
  with WebSocket and server-sent events, on TLS and QUIC written in the library itself
  (\<open>src/wknetlib\<close>), over the kernel's socket interface and its cryptographic providers. The parts
  interact as follows. A QUIC connection (\<open>quic/QuicConnection*.cpp\<close>) runs on a worker
  thread with a queue of commands; it reads datagrams, splits them into packets (\<open>QuicPacket\<close>), removes
  protection (\<open>QuicCrypto\<close>), records the packet number (\<open>QuicAckTracker\<close>),
  parses frames (\<open>QuicFrame\<close>) and hands them to loss recovery (\<open>QuicRecovery\<close>, which owns the
  congestion controller \<open>QuicCongestion\<close>), connection flow control (\<open>QuicFlowControl\<close>) and the streams
  (\<open>QuicStream\<close>); HTTP/3 uses the streams for its frames and QPACK-coded headers. HTTP/2
  (\<open>http2/Http2Connection.cpp\<close>) does the same over TLS with its own frames (\<open>Http2Frame\<close>), streams
  (\<open>Http2Stream\<close>) and headers compressed with HPACK (\<open>Hpack\<close>).

  \<^bold>\<open>Theories.\<close> Each theory holds the state of one part as a record, one definition per function or
  method under the name of the source with the prefix of the part, and the part's lemmas.

  \<^item> \<open>Prelude\<close>: status codes, fallible results (\<open>rbind\<close>), 64-bit arithmetic (\<open>w64\<close>, \<open>sub64\<close>,
    \<open>sat_add64\<close>), big-endian bytes, buffers (\<open>view\<close>, \<open>copy_at\<close>), and three interfaces: \<open>prefix_code\<close>, an
    integer code that finds its own end (QUIC and QPACK integers); \<open>credit_window\<close>, a
    peer-granted credit that is reserved in full or not at all (the QUIC connection, the QUIC stream
    and the HTTP/2 stream); \<open>incremental\<close>, a parser that is fed with whatever has arrived and for which
    the cuts do not matter (HTTP/3 frame headers and payloads, chunked bodies).
  \<^item> \<open>QuicVarInt\<close>: \<open>quic/QuicVarInt.cpp\<close> and the readers and writers of \<open>QuicFrame.cpp\<close> and
    \<open>QuicPacket.cpp\<close>. Both directions of the round trip.
  \<^item> \<open>QuicAckTracker\<close>: \<open>quic/QuicAckTracker.cpp\<close>. The ranges denote a set of packet numbers; the
    insertion with its merges refines insertion into that set; deadlines.
  \<^item> \<open>QuicCongestion\<close>: \<open>quic/QuicCongestion.cpp\<close>. Window bounds over histories, pacing; the interface
    \<open>flight_accounting\<close> that recovery relies on.
  \<^item> \<open>QuicRecovery\<close>: \<open>quic/QuicRecovery.cpp\<close>. What an acknowledgement removes, what the timers do, the
    agreement of the controller's bytes in flight with the outstanding packets, the probe timeout.
  \<^item> \<open>QuicFlowControl\<close>: \<open>quic/QuicFlowControl.cpp\<close>. The order of the counters, reservations.
  \<^item> \<open>QuicTokenCache\<close>: \<open>quic/QuicTokenCache.cpp\<close>. The last stored token is the one returned.
  \<^item> \<open>QuicStream\<close>: \<open>quic/QuicStream.cpp\<close>. The reassembly buffer refines a partial content: pieces in
    any order, overlapping and repeated, are delivered once and in order.
  \<^item> \<open>QuicFrame\<close>: \<open>quic/QuicFrame.cpp\<close>. Parser, ACK range decoder and encoder; round trip and bounds.
  \<^item> \<open>QuicPacket\<close>: \<open>quic/QuicPacket.cpp\<close>. Header parser and encoders, packet numbers, the iterator over
    a datagram.
  \<^item> \<open>QpackInteger\<close>, \<open>QpackDynamicTable\<close>: \<open>qpack/QpackInteger.cpp\<close>, \<open>qpack/QpackDynamicTable.cpp\<close>. The table
    with its byte buffer refines a window on the list of insertions; reference counts pin entries.
  \<^item> \<open>HpackHuffman\<close>, \<open>HpackTable\<close>, \<open>Hpack\<close>: \<open>http2/HpackHuffman.h\<close>, \<open>http2/HpackStaticTable.h\<close> and
    \<open>http2/Hpack.cpp\<close>. The Huffman tables are a canonical prefix code and the decoder is the exact inverse of
    the encoder; the ring of entries over a compacted buffer refines the list of fields; encoder and decoder.
    \<open>HpackSession\<close>: an encoder and a decoder in conversation, whose tables stay in step.
  \<^item> \<open>Http2Frame\<close>, \<open>Http2Stream\<close>: \<open>http2/Http2Frame.cpp\<close>, \<open>http2/Http2Stream.cpp\<close>. Round trip of every
    frame; window accounting and life cycle of a stream.
  \<^item> \<open>Http3Frame\<close>: \<open>http3/Http3Frame.cpp\<close>. The incremental parsers of frame headers, SETTINGS and
    single-value payloads agree with decoding the whole; placement of frames on streams.
  \<^item> \<open>QuicTransportParameters\<close>, \<open>QuicAttemptValidation\<close>: \<open>quic/QuicTransportParameters.cpp\<close>,
    \<open>quic/QuicAttemptValidation.cpp\<close>. Round trip and limits of the parameters; what a connection
    attempt accepts from the network before the handshake.
  \<^item> \<open>QuicCrypto\<close>: \<open>quic/QuicCrypto.cpp\<close>. Key derivation and packet protection over the provider's
    primitives; a sealed packet opens.
  \<^item> \<open>QuicConnection\<close> (the state), \<open>QuicConnectionSend\<close>, \<open>QuicConnectionStreams\<close>, \<open>QuicConnectionIds\<close>,
    \<open>QuicConnectionReceive\<close>, \<open>QuicConnectionPackets\<close>, \<open>QuicConnectionTimers\<close>, \<open>QuicConnectionWorker\<close>:
    \<open>quic/QuicConnection.cpp\<close> and \<open>quic/QuicConnectionIo.cpp\<close>, which compose the parts above. The TLS
    object, the socket, the clock, random numbers and the outcome of allocations are the fields of the
    environment that every operation takes.
  \<^item> \<open>QuicConnectionInvariant\<close>: the type invariant, the agreement of the flow control with the streams, and
    one lemma for each operation. \<open>QuicConnectionRuns\<close>: the worker as a relation, every operation completed
    once, live connections. \<open>QuicConnectionSafety\<close>: timers, closing, announced limits.
    \<open>QuicConnectionDelivery\<close>: what one connection sends is what another one takes out of the datagram.
  \<^item> \<open>HttpText\<close>: \<open>rtl/Text.cpp\<close>, \<open>http1/HttpTypes.cpp\<close> and the accessors of \<open>http1/HttpResponse.cpp\<close>; characters,
    blanks and separated lists. \<open>HttpChunkedDecoder\<close>: \<open>http1/HttpChunkedDecoder.cpp\<close>. Well-formed bodies are
    decoded exactly. \<open>HttpParser\<close>: \<open>http1/HttpParser.cpp\<close>, \<open>http1/HttpTransferCoding.cpp\<close> and the chain of decoders
    of \<open>codec/ContentCoding.cpp\<close>. Where a response ends, how it is framed, and the agreement of the two decoders of
    chunked bodies.
  \<^item> \<open>WebSocketFrame\<close>: \<open>ws/WebSocketFrame.cpp\<close>. Frames in both directions, masking, the opening handshake with its
    subprotocols and extensions.

  \<^bold>\<open>Correspondence.\<close> A method that changes its object returns its status with the new object, since the
  source changes state on some failing paths; a function that only computes returns the value or the
  status. Null out-pointers and their guards have no counterpart. An allocation that can fail is a
  boolean argument with its outcome, the clock is an argument. \<open>SIZE_T\<close> and \<open>ULONGLONG\<close> are naturals
  with the wrap-around written out (\<open>w64\<close>, \<open>sub64\<close>) wherever the source does not guard the operation;
  \<open>ULONG\<close> and \<open>LONG\<close> of HTTP/2 are 32-bit words and integers in their range. Trace output is dropped.

  \<^bold>\<open>Fuel and bounds.\<close> Every loop of the modelled code is a recursion over its data, or a \<open>function\<close> with
  a measure (the value of an integer encoder, the entries of a table, the rest of a datagram or of a
  payload), so every theorem is about a function that returns. Two loops carry a count: the padding of an
  Initial packet, which the source tries three times, and the worker's drain of its queue, to which other
  threads add commands meanwhile; the properties hold for every count.

  \<^bold>\<open>Environment.\<close> The peer is arbitrary: the properties quantify over every datagram, every answer of the TLS
  object, the socket and the clock, and every outcome of an allocation. Only \<open>sealed_packet_opens\<close> and \<open>frame_arrives\<close> assume
  something of the provider, that the AEAD opens what it sealed. The single content decoders and the SHA-1 of the
  WebSocket handshake are functions of the environment of which nothing is assumed.

  \<^bold>\<open>Not modelled.\<close> Sockets, threads, locks and the asynchronous engine; the cryptographic providers and
  with them TLS, certificates and the QUIC handshake; the EXI and Pack200 codecs; the HTTP/2 and HTTP/3
  connections, the WebSocket connection and its compression, HTTP/1.1 requests and the session engine.
\<close>

end
